(* ===== verification/Aem_Base.thy ===== *)
theory Aem_Base
  imports Main "HOL-Library.Word" "HOL-Library.Sublist"
begin

text \<open>
  Prelude of the development: the machine types of the code (x86-64 Linux: 8-bit signed
  \<open>char\<close>, 32-bit \<open>int\<close>, 64-bit \<open>long\<close> and \<open>size_t\<close>), the C library's character classes
  in the "C" locale, the collections of facts the component theories share, and generic
  list lemmas. Nothing here is specific to one source file.
\<close>

unbundle bit_operations_syntax

section \<open>Machine types\<close>

type_synonym u8 = "8 word"
type_synonym u32 = "32 word"
type_synonym u64 = "64 word"

text \<open>A pointer to an object of type \<open>'a\<close> that may be \<open>NULL\<close>.\<close>
type_synonym 'a ptr = "'a option"

text \<open>\<open>size_t\<close> values are natural numbers below \<open>2 ^ 64\<close>; \<open>sz\<close> is written wherever
  the code's \<open>size_t\<close> arithmetic could wrap.\<close>

definition sz :: "nat \<Rightarrow> nat" where
  "sz n = n mod 2 ^ 64"

text \<open>Conversion of a mathematical integer to a C \<open>int\<close> and to a C \<open>size_t\<close>.\<close>

definition c_int :: "int \<Rightarrow> int" where
  "c_int i = signed_take_bit 31 i"

definition c_size :: "int \<Rightarrow> nat" where
  "c_size i = nat (i mod 2 ^ 64)"

text \<open>Conversion of a \<open>size_t\<close> to a \<open>ssize_t\<close>.\<close>
definition c_ssize :: "nat \<Rightarrow> int" where
  "c_ssize n = signed_take_bit 63 (int n)"

text \<open>A \<open>char\<close> read from memory and promoted to \<open>int\<close> (the type is signed), and an
  \<open>unsigned char\<close> promoted to \<open>int\<close>.\<close>

definition schar :: "u8 \<Rightarrow> int" where
  "schar b = sint b"

definition uchar :: "u8 \<Rightarrow> int" where
  "uchar b = uint b"

text \<open>The bytes of a C string literal, without its terminator.\<close>

definition cstr :: "string \<Rightarrow> u8 list" where
  "cstr s = map of_char s"

section \<open>Collections of facts\<close>

named_theorems slice_simps \<open>how the operations on slices act on the bytes they span\<close>
named_theorems buf_simps \<open>how the operations on string buffers act on their contents\<close>
named_theorems inv_intros \<open>preservation of the components' invariants\<close>

section \<open>Character classes\<close>

text \<open>The classification functions of \<open>ctype.h\<close> in the "C" locale. The argument is the
  \<open>int\<close> the code passes; outside 0..127 every class is empty.\<close>

definition c_isupper :: "int \<Rightarrow> bool" where "c_isupper c \<longleftrightarrow> 65 \<le> c \<and> c \<le> 90"
definition c_islower :: "int \<Rightarrow> bool" where "c_islower c \<longleftrightarrow> 97 \<le> c \<and> c \<le> 122"
definition c_isdigit :: "int \<Rightarrow> bool" where "c_isdigit c \<longleftrightarrow> 48 \<le> c \<and> c \<le> 57"
definition c_isalpha :: "int \<Rightarrow> bool" where "c_isalpha c \<longleftrightarrow> c_isupper c \<or> c_islower c"
definition c_isalnum :: "int \<Rightarrow> bool" where "c_isalnum c \<longleftrightarrow> c_isalpha c \<or> c_isdigit c"
definition c_isblank :: "int \<Rightarrow> bool" where "c_isblank c \<longleftrightarrow> c = 32 \<or> c = 9"
definition c_isspace :: "int \<Rightarrow> bool" where "c_isspace c \<longleftrightarrow> c = 32 \<or> (9 \<le> c \<and> c \<le> 13)"
definition c_iscntrl :: "int \<Rightarrow> bool" where "c_iscntrl c \<longleftrightarrow> (0 \<le> c \<and> c < 32) \<or> c = 127"
definition c_isprint :: "int \<Rightarrow> bool" where "c_isprint c \<longleftrightarrow> 32 \<le> c \<and> c < 127"
definition c_isgraph :: "int \<Rightarrow> bool" where "c_isgraph c \<longleftrightarrow> 32 < c \<and> c < 127"
definition c_ispunct :: "int \<Rightarrow> bool" where "c_ispunct c \<longleftrightarrow> c_isgraph c \<and> \<not> c_isalnum c"
definition c_isxdigit :: "int \<Rightarrow> bool" where
  "c_isxdigit c \<longleftrightarrow> c_isdigit c \<or> (65 \<le> c \<and> c \<le> 70) \<or> (97 \<le> c \<and> c \<le> 102)"

definition c_tolower :: "int \<Rightarrow> int" where
  "c_tolower c = (if c_isupper c then c + 32 else c)"

lemmas ctype_defs =
  c_isupper_def c_islower_def c_isdigit_def c_isalpha_def c_isalnum_def c_isblank_def
  c_isspace_def c_iscntrl_def c_isprint_def c_isgraph_def c_ispunct_def c_isxdigit_def

section \<open>Generic lemmas\<close>

lemma sz_small [simp]: "n < 2 ^ 64 \<Longrightarrow> sz n = n"
  by (simp add: sz_def)

lemma sz_less [simp]: "sz n < 2 ^ 64"
  by (simp add: sz_def)

lemma sz_le: "sz n \<le> n"
  by (simp add: sz_def)

lemma c_ssize_small [simp]: "n < 2 ^ 63 \<Longrightarrow> c_ssize n = int n"
  unfolding c_ssize_def by (rule signed_take_bit_int_eq_self) auto

lemma c_size_int [simp]: "n < 2 ^ 64 \<Longrightarrow> c_size (int n) = n"
  by (simp add: c_size_def nat_mod_distrib nat_power_eq)

lemma uchar_range: "0 \<le> uchar b" "uchar b < 256"
  using uint_bounded [of b] by (simp_all add: uchar_def)

lemma uchar_eq_iff [simp]: "uchar a = uchar b \<longleftrightarrow> a = b"
  by (simp add: uchar_def word_uint_eq_iff)

lemma schar_eq_iff [simp]: "schar a = schar b \<longleftrightarrow> a = b"
  by (auto simp: schar_def intro: signed_word_eqI)

lemma take_list_update_ge: "n \<le> i \<Longrightarrow> take n (xs[i := x]) = take n xs"
  by (simp add: take_update_swap list_update_beyond)

lemma take_Suc_list_update:
  "n < length xs \<Longrightarrow> take (Suc n) (xs[n := x]) = take n xs @ [x]"
  by (simp add: take_Suc_conv_app_nth take_list_update_ge)

lemma length_dropWhile_less:
  "xs \<noteq> [] \<Longrightarrow> P (hd xs) \<Longrightarrow> length (dropWhile P xs) < length xs"
  by (cases xs) (auto simp: length_dropWhile_le less_Suc_eq_le)

end
