(* ===== verification/Aem_Slice.thy ===== *)
theory Aem_Slice
  imports Aem_Base
begin

text \<open>
  \<open>stringslice.h\<close> and the textual part of \<open>stringslice.c\<close>: half-open byte ranges. A slice
  is its first address and the bytes from there up to its end, so that \<open>slice.start++\<close> drops
  the first byte and \<open>slice.end--\<close> the last one; the end address is the start plus the number
  of bytes. The null slice has address 0 and no bytes. Operations that take a pointer to a
  slice return the updated slice; a C \<open>int\<close> that is only ever 0 or 1 is a \<open>bool\<close>.
\<close>

record stringslice =
  ss_start :: nat
  ss_bytes :: "u8 list"

definition ss_end :: "stringslice \<Rightarrow> nat" where
  "ss_end s = ss_start s + length (ss_bytes s)"

definition AEM_STRINGSLICE_EMPTY :: stringslice where
  "AEM_STRINGSLICE_EMPTY = \<lparr>ss_start = 0, ss_bytes = []\<rparr>"

text \<open>The slice of the bytes \<open>bs\<close> stored at address \<open>p\<close>, and that of a C string.\<close>
definition aem_stringslice_new_len :: "nat \<Rightarrow> u8 list \<Rightarrow> stringslice" where
  "aem_stringslice_new_len p bs = \<lparr>ss_start = p, ss_bytes = bs\<rparr>"

text \<open>The address of a string literal; any address but \<open>NULL\<close> would do.\<close>
definition literal_addr :: nat where "literal_addr = 1"

definition aem_stringslice_new_cstr :: "u8 list ptr \<Rightarrow> stringslice" where
  "aem_stringslice_new_cstr p =
     (case p of None \<Rightarrow> AEM_STRINGSLICE_EMPTY | Some s \<Rightarrow> aem_stringslice_new_len literal_addr s)"

section \<open>Pointer moves\<close>

definition ss_advance :: "stringslice \<Rightarrow> nat \<Rightarrow> stringslice" where
  "ss_advance s k = \<lparr>ss_start = ss_start s + k, ss_bytes = drop k (ss_bytes s)\<rparr>"

definition ss_retreat_end :: "stringslice \<Rightarrow> stringslice" where
  "ss_retreat_end s = s\<lparr>ss_bytes := butlast (ss_bytes s)\<rparr>"

text \<open>\<open>s.end = p\<close> for an address inside the slice.\<close>
definition ss_set_end :: "stringslice \<Rightarrow> nat \<Rightarrow> stringslice" where
  "ss_set_end s p = s\<lparr>ss_bytes := take (p - ss_start s) (ss_bytes s)\<rparr>"

text \<open>\<open>*s.start\<close> and \<open>s.end[-1]\<close>.\<close>
definition ss_first :: "stringslice \<Rightarrow> u8" where "ss_first s = hd (ss_bytes s)"
definition ss_last :: "stringslice \<Rightarrow> u8" where "ss_last s = last (ss_bytes s)"

section \<open>Basic operations\<close>

definition aem_stringslice_ok :: "stringslice \<Rightarrow> bool" where
  "aem_stringslice_ok s \<longleftrightarrow> ss_start s \<noteq> ss_end s"

definition aem_stringslice_len :: "stringslice \<Rightarrow> nat" where
  "aem_stringslice_len s = ss_end s - ss_start s"

definition aem_stringslice_getc :: "stringslice \<Rightarrow> int \<times> stringslice" where
  "aem_stringslice_getc s =
     (if \<not> aem_stringslice_ok s then (-1, s) else (uchar (ss_first s), ss_advance s 1))"

text \<open>The bytes read, or \<open>None\<close> for the result \<open>-1\<close>.\<close>
definition aem_stringslice_read_data ::
  "stringslice \<Rightarrow> nat \<Rightarrow> u8 list option \<times> stringslice" where
  "aem_stringslice_read_data s count =
     (if aem_stringslice_len s < count then (None, s)
      else (Some (take count (ss_bytes s)), ss_advance s count))"

lemma ss_simps [simp, slice_simps]:
  "ss_start (ss_advance s k) = ss_start s + k" "ss_bytes (ss_advance s k) = drop k (ss_bytes s)"
  "ss_bytes (ss_retreat_end s) = butlast (ss_bytes s)" "ss_start (ss_retreat_end s) = ss_start s"
  "ss_start (ss_set_end s p) = ss_start s"
  "ss_bytes (ss_set_end s p) = take (p - ss_start s) (ss_bytes s)"
  "ss_bytes (aem_stringslice_new_len p bs) = bs" "ss_start (aem_stringslice_new_len p bs) = p"
  "ss_bytes (aem_stringslice_new_cstr (Some bs)) = bs" "ss_start (aem_stringslice_new_cstr (Some bs)) = 1"
  "ss_bytes AEM_STRINGSLICE_EMPTY = []" "ss_start AEM_STRINGSLICE_EMPTY = 0"
  by (simp_all add: ss_advance_def ss_retreat_end_def ss_set_end_def literal_addr_def
      aem_stringslice_new_len_def aem_stringslice_new_cstr_def AEM_STRINGSLICE_EMPTY_def)

lemma ok_iff [simp, slice_simps]: "aem_stringslice_ok s \<longleftrightarrow> ss_bytes s \<noteq> []"
  by (simp add: aem_stringslice_ok_def ss_end_def)

lemma len_eq [simp, slice_simps]: "aem_stringslice_len s = length (ss_bytes s)"
  by (simp add: aem_stringslice_len_def ss_end_def)

lemma slice_eqI: "ss_start s = ss_start t \<Longrightarrow> ss_bytes s = ss_bytes t \<Longrightarrow> s = (t :: stringslice)"
  by simp

lemma advance_0 [simp]: "ss_advance s 0 = s"
  by (simp add: slice_eqI)

lemma advance_advance [simp]: "ss_advance (ss_advance s j) k = ss_advance s (j + k)"
  by (simp add: slice_eqI add.commute)

lemma set_end_advance [simp]: "ss_bytes (ss_set_end s (ss_start s + k)) = take k (ss_bytes s)"
  by simp

lemma getc_eq:
  "aem_stringslice_getc s =
     (case ss_bytes s of [] \<Rightarrow> (-1, s) | b # bs \<Rightarrow> (uchar b, \<lparr>ss_start = Suc (ss_start s), ss_bytes = bs\<rparr>))"
  by (cases "ss_bytes s") (simp_all add: aem_stringslice_getc_def ss_first_def slice_eqI)

lemma getc_simps [slice_simps]:
  "ss_bytes s = [] \<Longrightarrow> aem_stringslice_getc s = (-1, s)"
  "ss_bytes s = b # bs \<Longrightarrow> aem_stringslice_getc s = (uchar b, ss_advance s 1)"
  by (simp_all add: aem_stringslice_getc_def ss_first_def)

text \<open>The length of the bytes a slice spans measures the loops over slices.\<close>

definition ss_measure :: "stringslice \<Rightarrow> nat" where
  "ss_measure s = length (ss_bytes s)"

section \<open>Matching prefixes and suffixes\<close>

function match_prefix_loop :: "stringslice \<Rightarrow> stringslice \<Rightarrow> stringslice option" where
  "match_prefix_loop p s =
     (if \<not> aem_stringslice_ok s then Some p
      else if \<not> aem_stringslice_ok p then None
      else let (cp, p') = aem_stringslice_getc p; (cs, s') = aem_stringslice_getc s in
        if cp \<noteq> cs then None else match_prefix_loop p' s')"
  by pat_completeness auto
termination
  by (relation "measure (\<lambda>(p, s). length (ss_bytes s))")
    (auto simp: aem_stringslice_getc_def split: if_splits)

definition aem_stringslice_match_prefix :: "stringslice \<Rightarrow> stringslice \<Rightarrow> bool \<times> stringslice" where
  "aem_stringslice_match_prefix sl s =
     (case match_prefix_loop sl s of None \<Rightarrow> (False, sl) | Some p \<Rightarrow> (True, p))"

function match_suffix_loop :: "stringslice \<Rightarrow> stringslice \<Rightarrow> stringslice option" where
  "match_suffix_loop p s =
     (if \<not> aem_stringslice_ok s then Some p
      else if \<not> aem_stringslice_ok p then None
      else if ss_last p \<noteq> ss_last s then None
      else match_suffix_loop (ss_retreat_end p) (ss_retreat_end s))"
  by pat_completeness auto
termination
  by (relation "measure (\<lambda>(p, s). length (ss_bytes s))") auto

definition aem_stringslice_match_suffix :: "stringslice \<Rightarrow> stringslice \<Rightarrow> bool \<times> stringslice" where
  "aem_stringslice_match_suffix sl s =
     (case match_suffix_loop sl s of None \<Rightarrow> (False, sl) | Some p \<Rightarrow> (True, p))"

definition aem_stringslice_match :: "stringslice \<Rightarrow> u8 list \<Rightarrow> bool \<times> stringslice" where
  "aem_stringslice_match sl s = aem_stringslice_match_prefix sl (aem_stringslice_new_cstr (Some s))"

definition aem_stringslice_match_end :: "stringslice \<Rightarrow> u8 list \<Rightarrow> bool \<times> stringslice" where
  "aem_stringslice_match_end sl s = aem_stringslice_match_suffix sl (aem_stringslice_new_cstr (Some s))"

definition aem_stringslice_match_bom :: "stringslice \<Rightarrow> bool \<times> stringslice" where
  "aem_stringslice_match_bom sl = aem_stringslice_match sl [0xEF, 0xBB, 0xBF]"

declare match_prefix_loop.simps [simp del] match_suffix_loop.simps [simp del]

section \<open>Character runs\<close>

text \<open>The loop \<open>while (ok(*slice) && P(*slice->start)) slice->start++\<close> of several functions.\<close>

function ss_skip_while :: "(u8 \<Rightarrow> bool) \<Rightarrow> stringslice \<Rightarrow> stringslice" where
  "ss_skip_while P s =
     (if aem_stringslice_ok s \<and> P (ss_first s) then ss_skip_while P (ss_advance s 1) else s)"
  by pat_completeness auto
termination
  by (relation "measure (\<lambda>(P, s). length (ss_bytes s))") auto

text \<open>The loop \<open>while (ok(slice) && P(slice.end[-1])) slice.end--\<close>.\<close>

function ss_trim_while :: "(u8 \<Rightarrow> bool) \<Rightarrow> stringslice \<Rightarrow> stringslice" where
  "ss_trim_while P s =
     (if aem_stringslice_ok s \<and> P (ss_last s) then ss_trim_while P (ss_retreat_end s) else s)"
  by pat_completeness auto
termination
  by (relation "measure (\<lambda>(P, s). length (ss_bytes s))") auto

declare ss_skip_while.simps [simp del] ss_trim_while.simps [simp del]

text \<open>\<open>isspace\<close> and \<open>isalnum\<close> are handed a plain \<open>char\<close>.\<close>

definition char_isspace :: "u8 \<Rightarrow> bool" where "char_isspace b \<longleftrightarrow> c_isspace (schar b)"
definition char_isalnum :: "u8 \<Rightarrow> bool" where "char_isalnum b \<longleftrightarrow> c_isalnum (schar b)"

definition aem_stringslice_match_ws :: "stringslice \<Rightarrow> bool \<times> stringslice" where
  "aem_stringslice_match_ws sl =
     (let matched = (aem_stringslice_ok sl \<and> char_isspace (ss_first sl))
      in (matched, ss_skip_while char_isspace sl))"

definition aem_stringslice_trim :: "stringslice \<Rightarrow> stringslice" where
  "aem_stringslice_trim sl = ss_trim_while char_isspace (ss_skip_while char_isspace sl)"

definition aem_stringslice_match_alnum :: "stringslice \<Rightarrow> stringslice \<times> stringslice" where
  "aem_stringslice_match_alnum sl =
     (let sl' = ss_skip_while char_isalnum sl
      in (ss_set_end sl (ss_start sl'), sl'))"

definition aem_stringslice_match_word :: "stringslice \<Rightarrow> stringslice \<times> stringslice" where
  "aem_stringslice_match_word sl =
     (let sl' = ss_skip_while (\<lambda>b. \<not> char_isspace b) sl
      in (ss_set_end sl (ss_start sl'), sl'))"

section \<open>Comparison\<close>

text \<open>The second argument is a C string; its end is the terminator.\<close>

function stringslice_eq_loop :: "(int \<Rightarrow> int) \<Rightarrow> stringslice \<Rightarrow> u8 list \<Rightarrow> bool" where
  "stringslice_eq_loop f sl s =
     (if aem_stringslice_ok sl \<and> s \<noteq> []
      then if f (schar (ss_first sl)) \<noteq> f (schar (hd s)) then False
        else stringslice_eq_loop f (ss_advance sl 1) (tl s)
      else \<not> aem_stringslice_ok sl \<and> s = [])"
  by pat_completeness auto
termination
  by (relation "measure (\<lambda>(f, sl, s). length s)") auto

declare stringslice_eq_loop.simps [simp del]

definition aem_stringslice_eq :: "stringslice \<Rightarrow> u8 list ptr \<Rightarrow> bool" where
  "aem_stringslice_eq sl p =
     (case p of None \<Rightarrow> True | Some s \<Rightarrow> stringslice_eq_loop (\<lambda>c. c) sl s)"

definition aem_stringslice_eq_case :: "stringslice \<Rightarrow> u8 list ptr \<Rightarrow> bool" where
  "aem_stringslice_eq_case sl p =
     (case p of None \<Rightarrow> True | Some s \<Rightarrow> stringslice_eq_loop c_tolower sl s)"

text \<open>\<open>strncmp\<close> compares as unsigned characters and stops at a common terminator.\<close>

fun c_strncmp :: "u8 list \<Rightarrow> u8 list \<Rightarrow> nat \<Rightarrow> int" where
  "c_strncmp (a # as) (b # bs) (Suc n) =
     (if a \<noteq> b then uchar a - uchar b else if a = 0 then 0 else c_strncmp as bs n)"
| "c_strncmp _ _ _ = 0"

definition aem_stringslice_cmp :: "stringslice \<Rightarrow> stringslice \<Rightarrow> int" where
  "aem_stringslice_cmp s0 s1 =
     (let l0 = aem_stringslice_len s0; l1 = aem_stringslice_len s1;
          cmp = c_strncmp (ss_bytes s0) (ss_bytes s1) (if l0 < l1 then l0 else l1)
      in if cmp \<noteq> 0 then cmp else c_int (int l1 - int l0))"

section \<open>Lines\<close>

text \<open>1 for LF, 2 for CR, 3 for CRLF, 0 on failure.\<close>

definition aem_stringslice_match_newline :: "stringslice \<Rightarrow> int \<times> stringslice" where
  "aem_stringslice_match_newline sl =
     (let (cr, sl1) = aem_stringslice_match sl [13];
          (lf, sl2) = aem_stringslice_match sl1 [10]
      in ((if cr then 2 else 0) OR (if lf then 1 else 0), sl2))"

section \<open>Matching, on the bytes\<close>

lemma match_prefix_loop_spec:
  "match_prefix_loop p s =
     (if prefix (ss_bytes s) (ss_bytes p) then Some (ss_advance p (length (ss_bytes s))) else None)"
proof (induction p s rule: match_prefix_loop.induct)
  case (1 p s)
  show ?case
  proof (cases "ss_bytes s = [] \<or> ss_bytes p = []")
    case True
    then show ?thesis by (auto simp: match_prefix_loop.simps [of p s])
  next
    case False
    then obtain a as b bs where ab: "ss_bytes p = a # as" "ss_bytes s = b # bs"
      by (auto simp: neq_Nil_conv)
    note g = getc_simps(2) [OF ab(1)] getc_simps(2) [OF ab(2)]
    have "match_prefix_loop p s =
        (if uchar a \<noteq> uchar b then None else match_prefix_loop (ss_advance p 1) (ss_advance s 1))"
      using False g by (simp add: match_prefix_loop.simps [of p s])
    moreover have "uchar a = uchar b \<Longrightarrow> match_prefix_loop (ss_advance p 1) (ss_advance s 1) =
        (if prefix bs as then Some (ss_advance (ss_advance p 1) (length bs)) else None)"
      using "1.IH" [of "(uchar a, ss_advance p 1)" _ _ "(uchar b, ss_advance s 1)"] False g ab
      by simp
    ultimately show ?thesis using ab by auto
  qed
qed

lemma match_prefix_spec [slice_simps]:
  "aem_stringslice_match_prefix sl s =
     (if prefix (ss_bytes s) (ss_bytes sl) then (True, ss_advance sl (length (ss_bytes s)))
      else (False, sl))"
  by (simp add: aem_stringslice_match_prefix_def match_prefix_loop_spec)

lemma match_spec [slice_simps]:
  "aem_stringslice_match sl bs =
     (if prefix bs (ss_bytes sl) then (True, ss_advance sl (length bs)) else (False, sl))"
  by (simp add: aem_stringslice_match_def match_prefix_spec)

lemma suffix_snoc_iff: "suffix (xs @ [x]) (ys @ [y]) \<longleftrightarrow> x = y \<and> suffix xs ys"
  by (auto simp: suffix_def)

lemma match_suffix_loop_spec:
  "match_suffix_loop p s =
     (if suffix (ss_bytes s) (ss_bytes p)
      then Some (p\<lparr>ss_bytes := take (length (ss_bytes p) - length (ss_bytes s)) (ss_bytes p)\<rparr>)
      else None)"
proof (induction p s rule: match_suffix_loop.induct)
  case (1 p s)
  show ?case
  proof (cases "ss_bytes s = [] \<or> ss_bytes p = []")
    case True
    then show ?thesis by (auto simp: match_suffix_loop.simps [of p s])
  next
    case False
    then obtain a as b bs where ab: "ss_bytes p = as @ [a]" "ss_bytes s = bs @ [b]"
      by (metis rev_exhaust)
    show ?thesis
    proof (cases "a = b")
      case True
      have "match_suffix_loop p s = match_suffix_loop (ss_retreat_end p) (ss_retreat_end s)"
        using False True ab by (simp add: match_suffix_loop.simps [of p s] ss_last_def)
      also have "\<dots> = (if suffix bs as
          then Some (ss_retreat_end p\<lparr>ss_bytes := take (length as - length bs) as\<rparr>) else None)"
        using "1.IH" False True ab by (simp add: ss_last_def)
      finally show ?thesis using ab True by (simp add: suffix_snoc_iff ss_retreat_end_def)
    next
      case neq: False
      then show ?thesis using False ab
        by (simp add: match_suffix_loop.simps [of p s] ss_last_def suffix_snoc_iff)
    qed
  qed
qed

lemma match_suffix_spec [slice_simps]:
  "aem_stringslice_match_suffix sl s =
     (if suffix (ss_bytes s) (ss_bytes sl)
      then (True, sl\<lparr>ss_bytes := take (length (ss_bytes sl) - length (ss_bytes s)) (ss_bytes sl)\<rparr>)
      else (False, sl))"
  by (simp add: aem_stringslice_match_suffix_def match_suffix_loop_spec)

lemma match_end_spec [slice_simps]:
  "aem_stringslice_match_end sl bs =
     (if suffix bs (ss_bytes sl)
      then (True, sl\<lparr>ss_bytes := take (length (ss_bytes sl) - length bs) (ss_bytes sl)\<rparr>)
      else (False, sl))"
  by (simp add: aem_stringslice_match_end_def match_suffix_spec)

lemma skip_while_spec [slice_simps]:
  "ss_skip_while P s = ss_advance s (length (takeWhile P (ss_bytes s)))"
proof (induction P s rule: ss_skip_while.induct)
  case (1 P s)
  show ?case
  proof (cases "ss_bytes s")
    case Nil
    then show ?thesis by (simp add: ss_skip_while.simps [of P s])
  next
    case (Cons b bs)
    then show ?thesis using "1.IH"
      by (auto simp: ss_skip_while.simps [of P s] ss_first_def)
  qed
qed

lemma drop_length_takeWhile [simp]: "drop (length (takeWhile P xs)) xs = dropWhile P xs"
  by (metis append_eq_conv_conj takeWhile_dropWhile_id)

lemma take_length_takeWhile [simp]: "take (length (takeWhile P xs)) xs = takeWhile P xs"
  by (metis append_eq_conv_conj takeWhile_dropWhile_id)

lemma trim_while_spec [slice_simps]:
  "ss_trim_while P s = s\<lparr>ss_bytes := rev (dropWhile P (rev (ss_bytes s)))\<rparr>"
proof (induction P s rule: ss_trim_while.induct)
  case (1 P s)
  show ?case
  proof (cases "ss_bytes s" rule: rev_cases)
    case Nil
    then show ?thesis by (simp add: ss_trim_while.simps [of P s])
  next
    case (snoc bs b)
    then show ?thesis using "1.IH"
      by (auto simp: ss_trim_while.simps [of P s] ss_last_def ss_retreat_end_def)
  qed
qed

lemma stringslice_eq_loop_spec:
  "stringslice_eq_loop f sl s \<longleftrightarrow> map (f \<circ> schar) (ss_bytes sl) = map (f \<circ> schar) s"
proof (induction f sl s rule: stringslice_eq_loop.induct)
  case (1 f sl s)
  show ?case
  proof (cases "ss_bytes sl = [] \<or> s = []")
    case True
    then show ?thesis by (auto simp: stringslice_eq_loop.simps [of f sl s])
  next
    case False
    then obtain a as b bs where ab: "ss_bytes sl = a # as" "s = b # bs"
      by (auto simp: neq_Nil_conv)
    then show ?thesis using "1.IH" False
      by (auto simp: stringslice_eq_loop.simps [of f sl "b # bs"] ss_first_def)
  qed
qed

lemma eq_spec [slice_simps]: "aem_stringslice_eq sl (Some s) \<longleftrightarrow> ss_bytes sl = s"
  using inj_map_eq_map [of "(\<lambda>c. c) \<circ> schar" "ss_bytes sl" s]
  by (simp add: aem_stringslice_eq_def stringslice_eq_loop_spec inj_def)

lemma eq_case_spec [slice_simps]:
  "aem_stringslice_eq_case sl (Some s) \<longleftrightarrow>
     map (c_tolower \<circ> schar) (ss_bytes sl) = map (c_tolower \<circ> schar) s"
  by (simp add: aem_stringslice_eq_case_def stringslice_eq_loop_spec)

lemma cmp_zero_iff:
  assumes "length (ss_bytes a) < 2 ^ 31" "length (ss_bytes b) < 2 ^ 31" "0 \<notin> set (ss_bytes a)"
  shows "aem_stringslice_cmp a b = 0 \<longleftrightarrow> ss_bytes a = ss_bytes b"
proof -
  have strn: "0 \<notin> set xs \<Longrightarrow> c_strncmp xs ys n = 0 \<longleftrightarrow> take (min n (min (length xs) (length ys))) xs =
      take (min n (min (length xs) (length ys))) ys" for xs ys n
    by (induction xs ys n rule: c_strncmp.induct) (auto simp: min_def)
  have ci: "c_int (int (length (ss_bytes b)) - int (length (ss_bytes a))) =
      int (length (ss_bytes b)) - int (length (ss_bytes a))"
    unfolding c_int_def by (rule signed_take_bit_int_eq_self) (use assms in auto)
  show ?thesis
    using assms(3) ci by (auto simp: aem_stringslice_cmp_def Let_def strn min_def)
qed

lemma newline_cases:
  "aem_stringslice_match_newline sl =
     (case ss_bytes sl of
        [] \<Rightarrow> (0, sl)
      | b # bs \<Rightarrow>
          if b = 10 then (1, ss_advance sl 1)
          else if b = 13 then
            if bs \<noteq> [] \<and> hd bs = 10 then (3, ss_advance sl 2) else (2, ss_advance sl 1)
          else (0, sl))"
  by (auto simp: aem_stringslice_match_newline_def match_spec prefix_def neq_Nil_conv
      split: list.splits)

lemma newline_zero: "aem_stringslice_match_newline sl = (0, sl') \<Longrightarrow> sl' = sl"
  by (auto simp: newline_cases split: list.splits if_splits)

lemma newline_nonzero:
  "aem_stringslice_match_newline sl = (k, sl') \<Longrightarrow> k \<noteq> 0 \<Longrightarrow>
   length (ss_bytes sl') < length (ss_bytes sl)"
  by (auto simp: newline_cases split: list.splits if_splits)

end
