(* ===== verification/Aem_Lines.thy ===== *)
theory Aem_Lines
  imports Aem_Slice
begin

text \<open>
  The line readers of \<open>stringslice.c\<close>. \<open>aem_stringslice_match_line_multi\<close> is meant to be
  called again and again while data arrives in pieces; the second half of the theory shows
  that the lines it yields do not depend on how the stream was cut into pieces.
\<close>

section \<open>One line of a complete input\<close>

function match_line_loop :: "stringslice \<Rightarrow> stringslice" where
  "match_line_loop sl =
     (if aem_stringslice_ok sl
      then case aem_stringslice_match_newline sl of
             (nl, sl1) \<Rightarrow> if nl \<noteq> 0 then sl1 else match_line_loop (ss_advance sl1 1)
      else sl)"
  by pat_completeness auto
termination
  by (relation "measure (\<lambda>sl. length (ss_bytes sl))") (auto dest: newline_zero [OF sym])

declare match_line_loop.simps [simp del]

definition aem_stringslice_match_line :: "stringslice \<Rightarrow> stringslice \<times> stringslice" where
  "aem_stringslice_match_line sl =
     (let sl' = match_line_loop sl in (ss_set_end sl (ss_start sl'), sl'))"

section \<open>Lines of an input that arrives in pieces\<close>

text \<open>The scan for the end of the line that starts at \<open>orig\<close>, from \<open>p\<close> on, with \<open>st\<close> the
  value of \<open>*state\<close>: the line if its end was found, \<open>*state\<close>, and where the scan stopped.\<close>

function line_multi_loop ::
  "stringslice \<Rightarrow> bool \<Rightarrow> stringslice \<Rightarrow> stringslice ptr \<times> bool \<times> stringslice" where
  "line_multi_loop orig st p =
     (if aem_stringslice_ok p
      then
        let line = ss_set_end orig (ss_start p) in
        case aem_stringslice_match_newline p of
          (newline, p1) \<Rightarrow>
            let st1 = (newline = 2 \<and> \<not> aem_stringslice_ok p1) in
            if newline \<noteq> 0 then (Some line, st1, p1)
            else line_multi_loop orig st1 (snd (aem_stringslice_getc p1))
      else (None, st, p))"
  by pat_completeness auto
termination
  by (relation "measure (\<lambda>(orig, st, p). length (ss_bytes p))")
    (auto dest: newline_zero [OF sym] simp: aem_stringslice_getc_def)

declare line_multi_loop.simps [simp del]

definition aem_stringslice_match_line_multi ::
  "stringslice \<Rightarrow> bool \<Rightarrow> bool \<Rightarrow> stringslice \<times> stringslice \<times> bool" where
  "aem_stringslice_match_line_multi sl0 st0 finish =
     (let (sl, st) =
            (if st0
             then case aem_stringslice_match sl0 [10] of
                    (m, sl1) \<Rightarrow> if m then (sl1, False) else (sl0, st0)
             else (sl0, st0));
          (line, sl', st') =
            (if \<not> aem_stringslice_ok sl then (AEM_STRINGSLICE_EMPTY, sl, st)
             else case line_multi_loop sl st sl of
                    (Some line, st1, p) \<Rightarrow> (line, p, st1)
                  | (None, st1, p) \<Rightarrow>
                      if finish then (ss_set_end sl (ss_start p), p, st1)
                      else (AEM_STRINGSLICE_EMPTY, sl, st1))
      in (line, sl', if finish then False else st'))"

section \<open>The lines of a text\<close>

declare dropWhile_eq_Nil_conv [simp del]

definition not_newline :: "u8 \<Rightarrow> bool" where
  "not_newline b \<longleftrightarrow> b \<noteq> 10 \<and> b \<noteq> 13"

text \<open>What follows a newline whose first byte is \<open>b\<close>: CRLF is one newline.\<close>
definition after_newline :: "u8 \<Rightarrow> u8 list \<Rightarrow> u8 list" where
  "after_newline b r = (if b = 13 \<and> r \<noteq> [] \<and> hd r = 10 then tl r else r)"

lemma drop_length_suffix: "suffix zs xs \<Longrightarrow> drop (length xs - length zs) xs = zs"
  by (auto simp: suffix_def)

lemma length_after_newline: "length (after_newline b r) \<le> length r"
  by (auto simp: after_newline_def)

text \<open>The complete lines of a text, without their terminators, and the incomplete rest.\<close>
function split_lines :: "u8 list \<Rightarrow> u8 list list \<times> u8 list" where
  "split_lines bs =
     (case dropWhile not_newline bs of
        [] \<Rightarrow> ([], bs)
      | b # r \<Rightarrow>
          (case split_lines (after_newline b r) of
             (ls, rest) \<Rightarrow> (takeWhile not_newline bs # ls, rest)))"
  by pat_completeness auto
termination
proof (relation "measure length")
  fix bs b :: "u8 list" and x r
  assume "dropWhile not_newline bs = x # r"
  then have "length (x # r) \<le> length bs" by (metis length_dropWhile_le)
  then show "(after_newline x r, bs) \<in> measure length"
    using length_after_newline [of x r] by simp
qed simp

declare split_lines.simps [simp del]

lemma newline_spec:
  "ss_bytes p = b # r \<Longrightarrow> aem_stringslice_match_newline p =
     (if not_newline b then (0, p)
      else (if b = 10 then 1 else if r \<noteq> [] \<and> hd r = 10 then 3 else 2,
            ss_advance p (length (b # r) - length (after_newline b r))))"
  by (cases r) (auto simp: newline_cases not_newline_def after_newline_def Suc_diff_le)

lemma line_multi_loop_spec:
  assumes "ss_bytes p = drop k (ss_bytes orig)" "ss_start p = ss_start orig + k"
    "k \<le> length (ss_bytes orig)"
  shows "line_multi_loop orig st p =
    (case dropWhile not_newline (ss_bytes p) of
       [] \<Rightarrow> (None, if ss_bytes p = [] then st else False, ss_advance p (length (ss_bytes p)))
     | b # r \<Rightarrow>
         (Some (ss_set_end orig (ss_start p + length (takeWhile not_newline (ss_bytes p)))),
          b = 13 \<and> r = [],
          ss_advance p (length (ss_bytes p) - length (after_newline b r))))"
  using assms
proof (induction orig st p arbitrary: k rule: line_multi_loop.induct)
  case (1 orig st p)
  show ?case
  proof (cases "ss_bytes p")
    case Nil
    then show ?thesis by (simp add: line_multi_loop.simps [of orig st p])
  next
    case (Cons b r)
    note nl = newline_spec [OF Cons]
    show ?thesis
    proof (cases "not_newline b")
      case False
      then show ?thesis using Cons nl
        by (cases r) (auto simp: line_multi_loop.simps [of orig st p] Let_def after_newline_def
            not_newline_def)
    next
      case True
      have step: "line_multi_loop orig st p = line_multi_loop orig False (ss_advance p 1)"
        using Cons nl True
        by (simp add: line_multi_loop.simps [of orig st p] getc_simps(2) [OF Cons])
      have IH: "line_multi_loop orig False (ss_advance p 1) =
        (case dropWhile not_newline (ss_bytes (ss_advance p 1)) of
          [] \<Rightarrow> (None, if ss_bytes (ss_advance p 1) = [] then False else False,
                 ss_advance (ss_advance p 1) (length (ss_bytes (ss_advance p 1))))
        | c # q \<Rightarrow> (Some (ss_set_end orig (ss_start (ss_advance p 1)
              + length (takeWhile not_newline (ss_bytes (ss_advance p 1))))),
            c = 13 \<and> q = [], ss_advance (ss_advance p 1)
              (length (ss_bytes (ss_advance p 1)) - length (after_newline c q))))"
      proof -
        have d: "ss_bytes (ss_advance p 1) = drop (Suc k) (ss_bytes orig)"
          "ss_start (ss_advance p 1) = ss_start orig + Suc k"
          using "1.prems" by simp_all
        have le: "Suc k \<le> length (ss_bytes orig)"
          using "1.prems"(1,3) Cons by (cases "k = length (ss_bytes orig)") auto
        have gp: "snd (aem_stringslice_getc p) = ss_advance p 1"
          using getc_simps(2) [OF Cons] by simp
        note IH = "1.IH" [of "ss_set_end orig (ss_start p)" 0 p False "Suc k", unfolded gp]
        show ?thesis
          by (rule IH) (use d le Cons nl True in \<open>simp_all\<close>)
      qed
      have adv: "1 + (length r - length (after_newline c q)) =
          Suc (length r) - length (after_newline c q)" if "dropWhile not_newline r = c # q" for c q
      proof -
        have "length (c # q) \<le> length r" using that by (metis length_dropWhile_le)
        then show ?thesis using length_after_newline [of c q] by simp
      qed
      show ?thesis
        unfolding step IH using Cons True adv by (auto split: list.split)
    qed
  qed
qed

text \<open>What the state flag means: the text so far ended in CR, so a leading LF is dropped.\<close>
definition skip_lf :: "bool \<Rightarrow> u8 list \<Rightarrow> u8 list" where
  "skip_lf st bs = (if st then after_newline 13 bs else bs)"

lemma match_line_multi_spec:
  fixes sl0 :: stringslice and st0 :: bool
  defines "sl \<equiv> ss_advance sl0 (length (ss_bytes sl0) - length (skip_lf st0 (ss_bytes sl0)))"
    and "bs \<equiv> skip_lf st0 (ss_bytes sl0)"
  shows "ss_bytes sl = bs"
    and "aem_stringslice_match_line_multi sl0 st0 False =
      (case dropWhile not_newline bs of
         [] \<Rightarrow> (AEM_STRINGSLICE_EMPTY, sl, st0 \<and> ss_bytes sl0 = [])
       | b # r \<Rightarrow>
           (aem_stringslice_new_len (ss_start sl) (takeWhile not_newline bs),
            ss_advance sl (length bs - length (after_newline b r)), b = 13 \<and> r = []))"
proof -
  show bs: "ss_bytes sl = bs"
    by (cases "ss_bytes sl0") (auto simp: sl_def bs_def skip_lf_def after_newline_def)
  have pre: "(if st0 then case aem_stringslice_match sl0 [10] of
        (m, sl1) \<Rightarrow> if m then (sl1, False) else (sl0, st0) else (sl0, st0)) =
      (sl, st0 \<and> bs = ss_bytes sl0)"
    by (cases "ss_bytes sl0")
      (auto simp: sl_def bs_def skip_lf_def after_newline_def match_spec)
  have loop: "line_multi_loop sl (st0 \<and> bs = ss_bytes sl0) sl =
    (case dropWhile not_newline bs of
       [] \<Rightarrow> (None, if bs = [] then (st0 \<and> bs = ss_bytes sl0) else False, ss_advance sl (length bs))
     | b # r \<Rightarrow>
         (Some (ss_set_end sl (ss_start sl + length (takeWhile not_newline bs))),
          b = 13 \<and> r = [], ss_advance sl (length bs - length (after_newline b r))))"
    by (subst line_multi_loop_spec [of sl 0 sl]) (simp_all only: bs drop_0 add_0_right le0)
  show "aem_stringslice_match_line_multi sl0 st0 False =
      (case dropWhile not_newline bs of
         [] \<Rightarrow> (AEM_STRINGSLICE_EMPTY, sl, st0 \<and> ss_bytes sl0 = [])
       | b # r \<Rightarrow>
           (aem_stringslice_new_len (ss_start sl) (takeWhile not_newline bs),
            ss_advance sl (length bs - length (after_newline b r)), b = 13 \<and> r = []))"
  proof (cases "bs = []")
    case True
    then show ?thesis
      by (auto simp: aem_stringslice_match_line_multi_def Let_def pre bs)
  next
    case False
    then have "ss_bytes sl0 \<noteq> []" by (auto simp: bs_def skip_lf_def after_newline_def)
    then show ?thesis using False
      by (auto simp: aem_stringslice_match_line_multi_def Let_def pre bs loop
          intro!: slice_eqI split: list.split)
  qed
qed

text \<open>The driver the function is written for: take lines until there is none (a line that is
  the null slice).\<close>

function take_lines :: "stringslice \<Rightarrow> bool \<Rightarrow> u8 list list \<times> stringslice \<times> bool" where
  "take_lines sl st =
     (case aem_stringslice_match_line_multi sl st False of
        (line, sl', st') \<Rightarrow>
          if ss_start line = 0 \<or> length (ss_bytes sl) \<le> length (ss_bytes sl') then ([], sl', st')
          else case take_lines sl' st' of (ls, q) \<Rightarrow> (ss_bytes line # ls, q))"
  by pat_completeness auto
termination
  by (relation "measure (\<lambda>(sl, st). length (ss_bytes sl))") auto

declare take_lines.simps [simp del]

lemma skip_lf_length: "length (skip_lf st bs) \<le> length bs"
  by (simp add: skip_lf_def length_after_newline)

lemma split_lines_none: "dropWhile not_newline bs = [] \<Longrightarrow> split_lines bs = ([], bs)"
  by (simp add: split_lines.simps [of bs])

lemma split_lines_some:
  "dropWhile not_newline bs = b # r \<Longrightarrow>
   split_lines bs = (takeWhile not_newline bs # fst (split_lines (after_newline b r)),
                     snd (split_lines (after_newline b r)))"
  by (simp add: split_lines.simps [of bs] split: prod.split)

lemma split_lines_rest: "dropWhile not_newline (snd (split_lines bs)) = []"
proof (induction "length bs" arbitrary: bs rule: less_induct)
  case less
  show ?case
  proof (cases "dropWhile not_newline bs")
    case Nil
    then show ?thesis by (simp add: split_lines_none)
  next
    case (Cons b r)
    then have "length (b # r) \<le> length bs" by (metis length_dropWhile_le)
    then have "length (after_newline b r) < length bs"
      using length_after_newline [of b r] by simp
    then show ?thesis using less by (simp add: split_lines_some [OF Cons])
  qed
qed

text \<open>Whether a text ends in CR.\<close>
definition ends_cr :: "u8 list \<Rightarrow> bool" where
  "ends_cr bs \<longleftrightarrow> bs \<noteq> [] \<and> last bs = 13"

lemma last_dropWhile: "dropWhile P xs \<noteq> [] \<Longrightarrow> last (dropWhile P xs) = last xs"
  by (metis append_is_Nil_conv last_appendR takeWhile_dropWhile_id)

lemma ends_cr_some:
  assumes "dropWhile not_newline bs = b # r"
  shows "ends_cr bs \<longleftrightarrow> (if r = [] then b = 13 else ends_cr (after_newline b r) \<and> after_newline b r \<noteq> [])"
proof -
  have "bs \<noteq> []" "last bs = last (b # r)"
    using assms last_dropWhile [of not_newline bs] by auto
  then show ?thesis by (cases r) (auto simp: ends_cr_def after_newline_def)
qed

lemma ends_cr_none: "dropWhile not_newline bs = [] \<Longrightarrow> \<not> ends_cr bs"
  by (cases bs rule: rev_cases) (auto simp: ends_cr_def not_newline_def dropWhile_append split: if_splits)

lemma take_lines_spec:
  assumes "ss_start sl \<noteq> 0"
  shows "\<exists>sl'. take_lines sl st =
      (fst (split_lines (skip_lf st (ss_bytes sl))), sl',
       if ss_bytes sl = [] then st else ends_cr (skip_lf st (ss_bytes sl))) \<and>
    ss_bytes sl' = snd (split_lines (skip_lf st (ss_bytes sl)))"
  using assms
proof (induction "length (ss_bytes sl)" arbitrary: sl st rule: less_induct)
  case less
  let ?bs = "skip_lf st (ss_bytes sl)"
  define sl1 where "sl1 = ss_advance sl (length (ss_bytes sl) - length ?bs)"
  note m = match_line_multi_spec [of sl st, folded sl1_def]
  show ?case
  proof (cases "dropWhile not_newline ?bs")
    case Nil
    then have "take_lines sl st = ([], sl1, st \<and> ss_bytes sl = [])"
      using m by (simp add: take_lines.simps [of sl st])
    moreover have "st \<and> ss_bytes sl = [] \<longleftrightarrow> (if ss_bytes sl = [] then st else ends_cr ?bs)"
      using ends_cr_none [OF Nil] by simp
    ultimately show ?thesis using Nil m(1) by (simp add: split_lines_none)
  next
    case (Cons b r)
    let ?sl2 = "ss_advance sl1 (length ?bs - length (after_newline b r))"
    have len: "length (b # r) \<le> length ?bs" using Cons by (metis length_dropWhile_le)
    have "?bs = takeWhile not_newline ?bs @ b # r"
      using Cons takeWhile_dropWhile_id [of not_newline ?bs] by simp
    then have "suffix (b # r) ?bs" by (metis suffixI)
    moreover have "suffix (after_newline b r) (b # r)"
      by (cases r) (auto simp: after_newline_def suffix_Cons)
    ultimately have suf: "drop (length ?bs - length (after_newline b r)) ?bs = after_newline b r"
      by (intro drop_length_suffix) (rule suffix_order.trans)
    then have b2: "ss_bytes ?sl2 = after_newline b r" using m(1) by simp
    have lt: "length (ss_bytes ?sl2) < length (ss_bytes sl)"
      using b2 len length_after_newline [of b r] skip_lf_length [of st "ss_bytes sl"] by simp
    have st2: "ss_start ?sl2 \<noteq> 0" "ss_start sl1 \<noteq> 0"
      using less.prems by (simp_all add: sl1_def)
    have step: "take_lines sl st = (case take_lines ?sl2 (b = 13 \<and> r = []) of
        (ls, q) \<Rightarrow> (takeWhile not_newline ?bs # ls, q))"
      using m(2) Cons lt st2 by (simp add: take_lines.simps [of sl st])
    have sk: "skip_lf (b = 13 \<and> r = []) (after_newline b r) = after_newline b r"
      by (auto simp: skip_lf_def after_newline_def)
    obtain sl' where IH: "take_lines ?sl2 (b = 13 \<and> r = []) =
        (fst (split_lines (after_newline b r)), sl',
         if after_newline b r = [] then b = 13 \<and> r = [] else ends_cr (after_newline b r))"
      "ss_bytes sl' = snd (split_lines (after_newline b r))"
      using less.hyps [OF lt st2(1), of "b = 13 \<and> r = []"] unfolding b2 sk by blast
    have ne: "ss_bytes sl \<noteq> []" using len skip_lf_length [of st "ss_bytes sl"] by auto
    have cr: "(if after_newline b r = [] then b = 13 \<and> r = [] else ends_cr (after_newline b r)) =
        ends_cr ?bs"
      unfolding ends_cr_some [OF Cons] by (auto simp: after_newline_def)
    show ?thesis
      using IH step cr ne by (simp add: split_lines_some [OF Cons])
  qed
qed

section \<open>Independence of the cuts\<close>

lemma dropWhile_append_some: "dropWhile P x = b # r \<Longrightarrow> dropWhile P (x @ y) = b # r @ y"
  by (induction x) (auto split: if_splits)

lemma takeWhile_append_some: "dropWhile P x = b # r \<Longrightarrow> takeWhile P (x @ y) = takeWhile P x"
  by (metis dropWhile_eq_Nil_conv list.distinct(1) takeWhile_append1)

lemma split_lines_append:
  "split_lines (x @ y) =
     (fst (split_lines x) @ fst (split_lines (snd (split_lines x) @ skip_lf (ends_cr x) y)),
      snd (split_lines (snd (split_lines x) @ skip_lf (ends_cr x) y)))"
proof (induction "length x" arbitrary: x rule: less_induct)
  case less
  show ?case
  proof (cases "dropWhile not_newline x")
    case Nil
    then show ?thesis by (simp add: split_lines_none ends_cr_none skip_lf_def)
  next
    case (Cons b r)
    let ?x' = "after_newline b r"
    have "length (b # r) \<le> length x" using Cons by (metis length_dropWhile_le)
    then have lt: "length ?x' < length x" using length_after_newline [of b r] by simp
    have xy: "split_lines (x @ y) = (takeWhile not_newline x # fst (split_lines (after_newline b (r @ y))),
        snd (split_lines (after_newline b (r @ y))))"
      using dropWhile_append_some [OF Cons] takeWhile_append_some [OF Cons]
      by (simp add: split_lines_some)
    show ?thesis
    proof (cases "r = []")
      case True
      then have "after_newline b (r @ y) = skip_lf (ends_cr x) y" "?x' = []"
        using ends_cr_some [OF Cons] by (auto simp: skip_lf_def after_newline_def)
      then show ?thesis using xy by (simp add: split_lines_some [OF Cons] split_lines_none)
    next
      case False
      then have "after_newline b (r @ y) = ?x' @ y" by (simp add: after_newline_def)
      moreover have "ends_cr x = ends_cr ?x'"
        using ends_cr_some [OF Cons] False by (auto simp: ends_cr_def)
      ultimately show ?thesis using xy less.hyps [OF lt] by (simp add: split_lines_some [OF Cons])
    qed
  qed
qed

lemma ends_cr_no_rest: "ends_cr x \<Longrightarrow> snd (split_lines x) = []"
proof (induction "length x" arbitrary: x rule: less_induct)
  case less
  show ?case
  proof (cases "dropWhile not_newline x")
    case Nil
    then show ?thesis using less.prems ends_cr_none by blast
  next
    case (Cons b r)
    have "length (b # r) \<le> length x" using Cons by (metis length_dropWhile_le)
    then have lt: "length (after_newline b r) < length x"
      using length_after_newline [of b r] by simp
    show ?thesis
      using less.hyps [OF lt] less.prems ends_cr_some [OF Cons]
      by (cases "r = []") (simp_all add: split_lines_some [OF Cons] split_lines_none after_newline_def)
  qed
qed

text \<open>One arrival of data: the piece is appended to what is left over, and all complete
  lines are taken.\<close>

definition feed :: "nat \<Rightarrow> u8 list list \<times> u8 list \<times> bool \<Rightarrow> u8 list \<Rightarrow> u8 list list \<times> u8 list \<times> bool" where
  "feed addr = (\<lambda>(ls, pend, st) chunk.
     case take_lines (aem_stringslice_new_len addr (pend @ chunk)) st of
       (ls', sl', st') \<Rightarrow> (ls @ ls', ss_bytes sl', st'))"

lemma ends_cr_append: "ends_cr (x @ y) = (if y = [] then ends_cr x else ends_cr y)"
  by (simp add: ends_cr_def)

lemma feed_step:
  assumes "addr \<noteq> 0"
  shows "feed addr (fst (split_lines x), snd (split_lines x), ends_cr x) c =
    (fst (split_lines (x @ c)), snd (split_lines (x @ c)), ends_cr (x @ c))"
proof -
  let ?p = "snd (split_lines x)" and ?st = "ends_cr x"
  have sk: "skip_lf ?st (?p @ c) = ?p @ skip_lf ?st c"
    using ends_cr_no_rest [of x] by (auto simp: skip_lf_def)
  have pcr: "\<not> ends_cr ?p" using ends_cr_none split_lines_rest by blast
  have st: "(if ?p @ c = [] then ?st else ends_cr (skip_lf ?st (?p @ c))) = ends_cr (x @ c)"
  proof (cases "c = []")
    case True
    then show ?thesis using pcr ends_cr_no_rest [of x]
      by (auto simp: skip_lf_def after_newline_def)
  next
    case False
    have "ends_cr (?p @ skip_lf ?st c) = ends_cr c"
      using False pcr ends_cr_no_rest [of x]
      by (cases c) (auto simp: skip_lf_def after_newline_def ends_cr_append, auto simp: ends_cr_def)
    then show ?thesis using False sk by (simp add: ends_cr_append)
  qed
  show ?thesis
    using take_lines_spec [of "aem_stringslice_new_len addr (?p @ c)" ?st] assms sk st
      split_lines_append [of x c] by (auto simp: feed_def)
qed

lemma feed_all:
  assumes "addr \<noteq> 0"
  shows "foldl (feed addr) (fst (split_lines x), snd (split_lines x), ends_cr x) cs =
    (fst (split_lines (x @ concat cs)), snd (split_lines (x @ concat cs)), ends_cr (x @ concat cs))"
  by (induction cs arbitrary: x) (simp_all add: feed_step [OF assms])

text \<open>C10: However a stream of bytes is cut into pieces, calling
  \<open>aem_stringslice_match_line_multi\<close> until it yields no line, on what was left over followed
  by the new piece, produces exactly the lines of the whole stream (CR, LF and CRLF are each
  one terminator, also when a CRLF is cut in the middle), and leaves exactly the incomplete
  last line over.\<close>

theorem lines_independent_of_chunks:
  assumes "addr \<noteq> 0"
  shows "foldl (feed addr) ([], [], False) chunks =
    (fst (split_lines (concat chunks)), snd (split_lines (concat chunks)), ends_cr (concat chunks))"
  using feed_all [OF assms, of "[]" chunks]
  by (simp add: split_lines_none ends_cr_def)

theorem lines_independent_of_chunks_witness:
  "foldl (feed 64) ([], [], False) [[97, 13], [10, 98, 10], [99]] = ([[97], [98]], [99], False)"
proof -
  have "split_lines [97, 13, 10, 98, 10, 99 :: u8] = ([[97], [98]], [99])"
    by (simp add: split_lines.simps not_newline_def after_newline_def)
  then show ?thesis
    using lines_independent_of_chunks [of 64 "[[97, 13], [10, 98, 10], [99]]"]
    by (simp add: ends_cr_def)
qed

end
