(* ===== verification/Aem_Memory.thy ===== *)
theory Aem_Memory
  imports Aem_Base
begin

text \<open>
  \<open>memory.c\<close>: growable arrays. An allocated array is the list of its elements, and the
  \<open>NULL\<close> pointer is the empty list (a request of zero bytes frees the array and yields
  \<open>NULL\<close>). The system's allocator is a parameter: whether it grants a request of a given
  number of bytes, and what fresh memory holds.
\<close>

record 'a allocator =
  al_ok :: "nat \<Rightarrow> bool"  \<comment> \<open>does the allocator grant a request of this many bytes\<close>
  al_junk :: 'a           \<comment> \<open>the content of memory nobody has written yet\<close>

text \<open>The C library never grants an object larger than \<open>PTRDIFF_MAX\<close> bytes.\<close>

definition PTRDIFF_MAX :: nat where
  "PTRDIFF_MAX = 2 ^ 63 - 1"

definition alloc_granted :: "'a allocator \<Rightarrow> nat \<Rightarrow> bool" where
  "alloc_granted al bytes \<longleftrightarrow> bytes \<le> PTRDIFF_MAX \<and> al_ok al bytes"

text \<open>The content of a block of \<open>n\<close> elements that \<open>realloc\<close> made out of \<open>arr\<close>.\<close>

definition realloc_content :: "'a allocator \<Rightarrow> 'a list \<Rightarrow> nat \<Rightarrow> 'a list" where
  "realloc_content al arr n = take n arr @ replicate (n - length arr) (al_junk al)"

definition aem_array_realloc_impl ::
  "'a allocator \<Rightarrow> nat \<Rightarrow> 'a list \<Rightarrow> nat \<Rightarrow> int \<times> 'a list" where
  "aem_array_realloc_impl al elt arr alloc_new =
     (if alloc_new \<noteq> 0 \<and> elt \<noteq> 0 then
        let bytes = sz (alloc_new * elt) in
        if bytes div elt \<noteq> alloc_new then (-1, arr)
        else if \<not> alloc_granted al bytes then (-1, arr)
        else (0, realloc_content al arr alloc_new)
      else (0, []))"

definition aem_array_grow_impl ::
  "'a allocator \<Rightarrow> nat \<Rightarrow> 'a list \<Rightarrow> nat \<Rightarrow> nat \<Rightarrow> int \<times> 'a list \<times> nat" where
  "aem_array_grow_impl al elt arr alloc nr =
     (let alloc_old = alloc in
      if alloc_old < nr then
        let alloc_dbl = sz (alloc_old * 2);
            alloc_new = (if alloc_dbl < nr then sz (nr + 8) else alloc_dbl);
            (rc, arr') = aem_array_realloc_impl al elt arr alloc_new
        in if rc < 0 then (rc, arr', alloc_old) else (1, arr', alloc_new)
      else (0, arr, alloc_old))"

section \<open>Facts about arrays\<close>

lemma length_realloc_content [simp]: "length (realloc_content al arr n) = n"
  by (simp add: realloc_content_def)

lemma realloc_content_Suc_not_Nil [simp]: "realloc_content al arr (Suc n) \<noteq> []"
  by (metis length_realloc_content list.size(3) old.nat.distinct(2))

lemma realloc_content_nth:
  "i < n \<Longrightarrow> i < length arr \<Longrightarrow> realloc_content al arr n ! i = arr ! i"
  by (simp add: realloc_content_def nth_append)

lemma take_realloc_content:
  "k \<le> n \<Longrightarrow> k \<le> length arr \<Longrightarrow> take k (realloc_content al arr n) = take k arr"
  by (simp add: realloc_content_def min_def)

text \<open>The overflow test of the code is exact: the byte count passed to \<open>realloc\<close> is the
  mathematical product whenever the test lets it through.\<close>

lemma realloc_bytes_exact:
  assumes "elt \<noteq> 0" "sz (n * elt) div elt = n"
  shows "sz (n * elt) = n * elt"
proof -
  have "n * elt \<le> sz (n * elt)"
    using assms by (metis div_times_less_eq_dividend)
  then show ?thesis using sz_le [of "n * elt"] by simp
qed

lemma realloc_cases:
  assumes "aem_array_realloc_impl al elt arr n = (rc, arr')" "elt \<noteq> 0"
  shows "rc = -1 \<and> arr' = arr \<or>
         rc = 0 \<and> arr' = realloc_content al arr n \<and> length arr' = n \<and> n * elt \<le> PTRDIFF_MAX"
proof (cases "n = 0")
  case True
  then show ?thesis using assms
    by (auto simp: aem_array_realloc_impl_def realloc_content_def)
next
  case False
  then show ?thesis
    using assms realloc_bytes_exact [of elt n]
    by (auto simp: aem_array_realloc_impl_def Let_def alloc_granted_def split: if_splits)
qed

text \<open>The contract of growing an array, in the form its callers use: either nothing
  changed, or the array now has room for \<open>nr\<close> elements and keeps its old ones.\<close>

lemma grow_cases:
  assumes grow: "aem_array_grow_impl al elt arr alloc nr = (rc, arr', alloc')"
    and elt: "elt \<noteq> 0" and len: "length arr = alloc"
  obtains (enough) "nr \<le> alloc" "rc = 0" "arr' = arr" "alloc' = alloc"
  | (failed) "alloc < nr" "rc = -1" "arr' = arr" "alloc' = alloc"
  | (grown) "alloc < nr" "rc = 1" "length arr' = alloc'"
      "arr' = realloc_content al arr alloc'" "alloc' * elt \<le> PTRDIFF_MAX"
      "alloc' = sz (alloc * 2) \<and> nr \<le> alloc' \<or> alloc' = sz (nr + 8)"
proof (cases "alloc < nr")
  case False
  then show ?thesis using grow by (intro enough) (simp_all add: aem_array_grow_impl_def)
next
  case True
  define an where "an = (if sz (alloc * 2) < nr then sz (nr + 8) else sz (alloc * 2))"
  obtain r a where ra: "aem_array_realloc_impl al elt arr an = (r, a)"
    by fastforce
  have "aem_array_grow_impl al elt arr alloc nr = (if r < 0 then (r, a, alloc) else (1, a, an))"
    using True ra unfolding an_def
    by (simp only: aem_array_grow_impl_def Let_def if_True prod.case)
  then have res: "(rc, arr', alloc') = (if r < 0 then (r, a, alloc) else (1, a, an))"
    using grow by simp
  consider "r = -1" "a = arr"
    | "r = 0" "a = realloc_content al arr an" "length a = an" "an * elt \<le> PTRDIFF_MAX"
    using realloc_cases [OF ra elt] by blast
  then show ?thesis
  proof cases
    case 1
    then show ?thesis using res True by (intro failed) simp_all
  next
    case 2
    then have eq: "rc = 1" "arr' = a" "alloc' = an" using res by simp_all
    show ?thesis
      by (rule grown) (use True 2 eq in \<open>simp_all add: an_def split: if_splits\<close>)
  qed
qed

end
