(* ===== verification/Aem_Stack.thy ===== *)
theory Aem_Stack
  imports Aem_Memory "HOL-Library.Monad_Syntax" "HOL-Library.Multiset"
begin

text \<open>
  \<open>stack.h\<close> and \<open>stack.c\<close>: the resizable vector of pointers. \<open>stk_s\<close> is the allocated
  buffer (\<open>stk_maxn\<close> slots, of which the first \<open>stk_n\<close> are in use). Functions that store into
  the buffer return an option: \<open>None\<close> is a store outside the buffer, which the code commits
  when it ignores a failed reservation.
\<close>

record 'a stack =
  stk_s :: "'a ptr list"
  stk_n :: nat
  stk_maxn :: nat

definition AEM_STACK_EMPTY :: "'a stack" where
  "AEM_STACK_EMPTY = \<lparr>stk_s = [], stk_n = 0, stk_maxn = 0\<rparr>"

text \<open>\<open>sizeof(void *)\<close>\<close>
definition sizeof_ptr :: nat where "sizeof_ptr = 8"

text \<open>A store to slot \<open>i\<close> of the buffer.\<close>
definition stk_store :: "'a stack \<Rightarrow> nat \<Rightarrow> 'a ptr \<Rightarrow> 'a stack option" where
  "stk_store stk i p =
     (if i < length (stk_s stk) then Some (stk\<lparr>stk_s := (stk_s stk)[i := p]\<rparr>) else None)"

section \<open>Storage\<close>

definition aem_stack_reserve_total ::
  "'a ptr allocator \<Rightarrow> 'a stack \<Rightarrow> nat \<Rightarrow> int \<times> 'a stack" where
  "aem_stack_reserve_total al stk maxn =
     (case aem_array_grow_impl al sizeof_ptr (stk_s stk) (stk_maxn stk) maxn of
        (rc, s', maxn') \<Rightarrow> (rc, stk\<lparr>stk_s := s', stk_maxn := maxn'\<rparr>))"

definition aem_stack_reserve ::
  "'a ptr allocator \<Rightarrow> 'a stack \<Rightarrow> nat \<Rightarrow> int \<times> 'a stack" where
  "aem_stack_reserve al stk len = aem_stack_reserve_total al stk (sz (stk_n stk + len))"

definition aem_stack_init :: "'a stack" where
  "aem_stack_init = AEM_STACK_EMPTY"

definition aem_stack_init_prealloc :: "'a ptr allocator \<Rightarrow> nat \<Rightarrow> 'a stack" where
  "aem_stack_init_prealloc al maxn =
     (if maxn \<noteq> 0 then snd (aem_stack_reserve_total al AEM_STACK_EMPTY maxn)
      else AEM_STACK_EMPTY)"

definition aem_stack_dtor :: "'a stack \<Rightarrow> 'a stack" where
  "aem_stack_dtor stk = AEM_STACK_EMPTY"

definition aem_stack_shrinkwrap :: "'a ptr allocator \<Rightarrow> 'a stack \<Rightarrow> 'a stack" where
  "aem_stack_shrinkwrap al stk =
     (let maxn_new = stk_n stk in
      case aem_array_realloc_impl al sizeof_ptr (stk_s stk) maxn_new of
        (rc, s') \<Rightarrow>
          if rc \<noteq> 0 then stk\<lparr>stk_s := s'\<rparr> else stk\<lparr>stk_s := s', stk_maxn := maxn_new\<rparr>)"

text \<open>The buffer handed to the caller and the number of elements in it.\<close>
definition aem_stack_release :: "'a ptr allocator \<Rightarrow> 'a stack \<Rightarrow> 'a ptr list \<times> nat" where
  "aem_stack_release al stk =
     (let stk' = aem_stack_shrinkwrap al stk in (stk_s stk', stk_n stk'))"

definition aem_stack_trunc :: "'a stack \<Rightarrow> nat \<Rightarrow> 'a stack" where
  "aem_stack_trunc stk n = (if stk_n stk < n then stk else stk\<lparr>stk_n := n\<rparr>)"

definition aem_stack_reset :: "'a stack \<Rightarrow> 'a stack" where
  "aem_stack_reset stk = stk\<lparr>stk_n := 0\<rparr>"

definition aem_stack_available :: "'a stack \<Rightarrow> int" where
  "aem_stack_available stk = c_int (int (stk_maxn stk) - int (stk_n stk))"

section \<open>Pushing and popping\<close>

definition aem_stack_push ::
  "'a ptr allocator \<Rightarrow> 'a stack \<Rightarrow> 'a ptr \<Rightarrow> 'a stack option" where
  "aem_stack_push al stk p =
     (let stk1 = snd (aem_stack_reserve al stk 1) in
      do { stk2 \<leftarrow> stk_store stk1 (stk_n stk1) p;
           Some (stk2\<lparr>stk_n := stk_n stk2 + 1\<rparr>) })"

text \<open>\<open>memcpy\<close> of the pointers \<open>ps\<close> to the slots from \<open>i\<close> on.\<close>
definition stk_memcpy :: "'a stack \<Rightarrow> nat \<Rightarrow> 'a ptr list \<Rightarrow> 'a stack option" where
  "stk_memcpy stk i ps =
     (if i + length ps \<le> length (stk_s stk)
      then Some (stk\<lparr>stk_s := take i (stk_s stk) @ ps @ drop (i + length ps) (stk_s stk)\<rparr>)
      else None)"

definition aem_stack_pushn ::
  "'a ptr allocator \<Rightarrow> 'a stack \<Rightarrow> 'a ptr list \<Rightarrow> 'a stack option" where
  "aem_stack_pushn al stk ps =
     (if length ps = 0 then Some stk
      else
        let stk1 = snd (aem_stack_reserve al stk (length ps)) in
        do { stk2 \<leftarrow> stk_memcpy stk1 (stk_n stk1) ps;
             Some (stk2\<lparr>stk_n := stk_n stk2 + length ps\<rparr>) })"

fun stk_push_all :: "'a ptr allocator \<Rightarrow> 'a stack \<Rightarrow> 'a ptr list \<Rightarrow> 'a stack option" where
  "stk_push_all al stk [] = Some stk"
| "stk_push_all al stk (p # ps) =
     do { stk1 \<leftarrow> aem_stack_push al stk p; stk_push_all al stk1 ps }"

definition aem_stack_pushv ::
  "'a ptr allocator \<Rightarrow> 'a stack \<Rightarrow> 'a ptr list \<Rightarrow> 'a stack option" where
  "aem_stack_pushv al stk ps =
     stk_push_all al (snd (aem_stack_reserve al stk (length ps))) ps"

definition aem_stack_append ::
  "'a ptr allocator \<Rightarrow> 'a stack \<Rightarrow> 'a stack \<Rightarrow> 'a stack option" where
  "aem_stack_append al stk stk2 = aem_stack_pushn al stk (take (stk_n stk2) (stk_s stk2))"

text \<open>Number of elements moved, and the two stacks.\<close>
definition aem_stack_transfer ::
  "'a ptr allocator \<Rightarrow> 'a stack \<Rightarrow> 'a stack \<Rightarrow> nat \<Rightarrow> (nat \<times> 'a stack \<times> 'a stack) option" where
  "aem_stack_transfer al dest src n =
     (if n = 0 then Some (0, dest, src)
      else if stk_n src < n then Some (0, dest, src)
      else
        let new_top = stk_n src - n in
        do { dest1 \<leftarrow> aem_stack_pushn al dest (take n (drop new_top (stk_s src)));
             Some (n, dest1, aem_stack_trunc src new_top) })"

definition aem_stack_pop :: "'a stack \<Rightarrow> 'a ptr \<times> 'a stack" where
  "aem_stack_pop stk =
     (if stk_n stk = 0 then (None, stk)
      else let stk1 = stk\<lparr>stk_n := stk_n stk - 1\<rparr> in (stk_s stk1 ! stk_n stk1, stk1))"

section \<open>Indexing\<close>

definition aem_stack_index :: "'a stack \<Rightarrow> nat \<Rightarrow> 'a ptr" where
  "aem_stack_index stk i = (if stk_n stk \<le> i then None else stk_s stk ! i)"

definition aem_stack_peek :: "'a stack \<Rightarrow> 'a ptr" where
  "aem_stack_peek stk = (if stk_n stk = 0 then None else aem_stack_index stk (stk_n stk - 1))"

definition aem_stack_index_end :: "'a stack \<Rightarrow> nat \<Rightarrow> 'a ptr" where
  "aem_stack_index_end stk i = aem_stack_index stk (c_size (int (stk_n stk) - 1 - int i))"

text \<open>The loop that pushes \<open>NULL\<close> until \<open>i\<close> is a valid index.\<close>
function stk_fill :: "'a ptr allocator \<Rightarrow> 'a stack \<Rightarrow> nat \<Rightarrow> 'a stack option" where
  "stk_fill al stk i =
     (if stk_n stk \<le> i
      then do { stk1 \<leftarrow> aem_stack_push al stk None; stk_fill al stk1 i }
      else Some stk)"
  by pat_completeness auto
termination
proof (relation "measure (\<lambda>(al, stk, i). Suc i - stk_n stk)")
  fix al stk i stk1
  assume "stk_n stk \<le> i" "aem_stack_push al stk None = Some stk1"
  then show "((al, stk1, i), (al, stk, i)) \<in> measure (\<lambda>(al, stk, i). Suc i - stk_n stk)"
    by (auto simp: aem_stack_push_def aem_stack_reserve_def aem_stack_reserve_total_def
        stk_store_def Let_def split: prod.splits if_splits)
qed simp

declare stk_fill.simps [simp del]

definition aem_stack_index_p :: "'a ptr allocator \<Rightarrow> 'a stack \<Rightarrow> nat \<Rightarrow> 'a stack option" where
  "aem_stack_index_p al stk i = stk_fill al stk i"

definition aem_stack_assign ::
  "'a ptr allocator \<Rightarrow> 'a stack \<Rightarrow> nat \<Rightarrow> 'a ptr \<Rightarrow> 'a stack option" where
  "aem_stack_assign al stk i p =
     do { stk1 \<leftarrow> aem_stack_index_p al stk i; stk_store stk1 i p }"

text \<open>The loop that looks for the first element that is \<open>NULL\<close> or nonexistent.\<close>
function stk_find_empty :: "'a stack \<Rightarrow> nat \<Rightarrow> nat" where
  "stk_find_empty stk i =
     (if aem_stack_index stk i \<noteq> None then stk_find_empty stk (i + 1) else i)"
  by pat_completeness auto
termination
  by (relation "measure (\<lambda>(stk, i). stk_n stk - i)")
    (auto simp: aem_stack_index_def split: if_splits)

declare stk_find_empty.simps [simp del]

definition aem_stack_assign_empty ::
  "'a ptr allocator \<Rightarrow> 'a stack \<Rightarrow> 'a ptr \<Rightarrow> (nat \<times> 'a stack) option" where
  "aem_stack_assign_empty al stk p =
     (let i = stk_find_empty stk 0 in
      do { stk1 \<leftarrow> aem_stack_assign al stk i p; Some (i, stk1) })"

text \<open>The loop that drops trailing \<open>NULL\<close> elements.\<close>
function stk_drop_nulls :: "'a stack \<Rightarrow> 'a stack" where
  "stk_drop_nulls stk =
     (if stk_n stk \<noteq> 0 \<and> stk_s stk ! (stk_n stk - 1) = None
      then stk_drop_nulls (stk\<lparr>stk_n := stk_n stk - 1\<rparr>)
      else stk)"
  by pat_completeness auto
termination by (relation "measure stk_n") auto

declare stk_drop_nulls.simps [simp del]

definition aem_stack_remove :: "'a stack \<Rightarrow> nat \<Rightarrow> 'a ptr \<times> 'a stack" where
  "aem_stack_remove stk i =
     (if stk_n stk \<le> i then (None, stk)
      else
        let p = stk_s stk ! i;
            stk1 = stk\<lparr>stk_s := (stk_s stk)[i := None]\<rparr>
        in (p, stk_drop_nulls stk1))"

text \<open>Zero on success, one when the position was invalid.\<close>
definition aem_stack_insert ::
  "'a ptr allocator \<Rightarrow> 'a stack \<Rightarrow> nat \<Rightarrow> 'a ptr \<Rightarrow> (int \<times> 'a stack) option" where
  "aem_stack_insert al stk i p =
     (if stk_n stk < i then Some (1, stk)
      else
        let stk1 = snd (aem_stack_reserve al stk 1) in
        do { stk2 \<leftarrow> stk_memcpy stk1 (i + 1) (take (stk_n stk1 - i) (drop i (stk_s stk1)));
             stk3 \<leftarrow> stk_store stk2 i p;
             Some (0, stk3\<lparr>stk_n := stk_n stk3 + 1\<rparr>) })"

definition aem_stack_insert_end ::
  "'a ptr allocator \<Rightarrow> 'a stack \<Rightarrow> nat \<Rightarrow> 'a ptr \<Rightarrow> (int \<times> 'a stack) option" where
  "aem_stack_insert_end al stk i p =
     (if stk_n stk < i then Some (1, stk) else aem_stack_insert al stk (stk_n stk - i) p)"

text \<open>\<open>qsort\<close> of the C library, as an insertion sort by the comparator. It is one of the results the C
  standard allows: the standard leaves the order of elements that compare equal open, and defines
  nothing for a comparator that is not consistent. No property rests on the order in which
  it leaves such elements.\<close>
fun qsort_insert :: "('p \<Rightarrow> 'p \<Rightarrow> int) \<Rightarrow> 'p \<Rightarrow> 'p list \<Rightarrow> 'p list" where
  "qsort_insert compar x [] = [x]"
| "qsort_insert compar x (y # ys) =
     (if compar x y \<le> 0 then x # y # ys else y # qsort_insert compar x ys)"

definition c_qsort :: "('p \<Rightarrow> 'p \<Rightarrow> int) \<Rightarrow> 'p list \<Rightarrow> 'p list" where
  "c_qsort compar xs = foldr (qsort_insert compar) xs []"

definition aem_stack_qsort :: "'a stack \<Rightarrow> ('a ptr \<Rightarrow> 'a ptr \<Rightarrow> int) \<Rightarrow> 'a stack" where
  "aem_stack_qsort stk compar =
     stk\<lparr>stk_s := c_qsort compar (take (stk_n stk) (stk_s stk)) @ drop (stk_n stk) (stk_s stk)\<rparr>"


section \<open>The invariant and the elements\<close>

definition stack_inv :: "'a stack \<Rightarrow> bool" where
  "stack_inv stk \<longleftrightarrow> length (stk_s stk) = stk_maxn stk \<and> stk_n stk \<le> stk_maxn stk \<and>
     stk_maxn stk * sizeof_ptr \<le> PTRDIFF_MAX"

text \<open>The abstract value of a stack: its elements, bottom first.\<close>
definition stack_elems :: "'a stack \<Rightarrow> 'a ptr list" where
  "stack_elems stk = take (stk_n stk) (stk_s stk)"

lemma stack_inv_bounds:
  assumes "stack_inv stk"
  shows "stk_n stk \<le> length (stk_s stk)" "stk_n stk \<le> 2 ^ 60" "stk_maxn stk \<le> 2 ^ 60"
  using assms by (auto simp: stack_inv_def sizeof_ptr_def PTRDIFF_MAX_def)

lemma length_stack_elems [simp]: "stack_inv stk \<Longrightarrow> length (stack_elems stk) = stk_n stk"
  using stack_inv_bounds [of stk] by (simp add: stack_elems_def min_def)

lemma stack_empty [simp]:
  "stack_inv AEM_STACK_EMPTY" "stack_elems AEM_STACK_EMPTY = []"
  by (simp_all add: stack_inv_def stack_elems_def AEM_STACK_EMPTY_def PTRDIFF_MAX_def)

lemma reserve_total_spec:
  assumes inv: "stack_inv stk" and res: "aem_stack_reserve_total al stk m = (rc, stk')"
    and small: "m + 8 < 2 ^ 64"
  shows "stack_inv stk' \<and> stk_n stk' = stk_n stk \<and> stack_elems stk' = stack_elems stk \<and>
    (if rc < 0 then stk' = stk else m \<le> stk_maxn stk')"
proof -
  obtain s' m' where g: "aem_array_grow_impl al sizeof_ptr (stk_s stk) (stk_maxn stk) m = (rc, s', m')"
    and stk': "stk' = stk\<lparr>stk_s := s', stk_maxn := m'\<rparr>"
    using res by (auto simp: aem_stack_reserve_total_def split: prod.splits)
  have len: "length (stk_s stk) = stk_maxn stk" using inv by (simp add: stack_inv_def)
  note b = stack_inv_bounds [OF inv]
  have small': "sz (m + 8) = m + 8" using small by simp
  show ?thesis
    using g
  proof (rule grow_cases)
    show "sizeof_ptr \<noteq> 0" by (simp add: sizeof_ptr_def)
    show "length (stk_s stk) = stk_maxn stk" by (rule len)
  next
    assume "m \<le> stk_maxn stk" "rc = 0" "s' = stk_s stk" "m' = stk_maxn stk"
    then show ?thesis using inv by (simp add: stk')
  next
    assume "rc = -1" "s' = stk_s stk" "m' = stk_maxn stk"
    then show ?thesis using inv by (simp add: stk')
  next
    assume *: "stk_maxn stk < m" "rc = 1" "length s' = m'"
      "s' = realloc_content al (stk_s stk) m'" "m' * sizeof_ptr \<le> PTRDIFF_MAX"
      "m' = sz (stk_maxn stk * 2) \<and> m \<le> m' \<or> m' = sz (m + 8)"
    have mm': "m \<le> m'" using *(6) small' by auto
    then have "stk_n stk \<le> m'" using inv *(1) by (simp add: stack_inv_def)
    then show ?thesis
      using * mm' b(1) inv
      by (simp add: stk' stack_inv_def stack_elems_def take_realloc_content)
  qed
qed

lemma reserve_spec:
  assumes inv: "stack_inv stk" and res: "aem_stack_reserve al stk k = (rc, stk')"
    and small: "k \<le> 2 ^ 60"
  shows "stack_inv stk' \<and> stk_n stk' = stk_n stk \<and> stack_elems stk' = stack_elems stk \<and>
    (if rc < 0 then stk' = stk else stk_n stk + k \<le> stk_maxn stk')"
proof -
  have "stk_n stk + k + 8 < 2 ^ 64" using stack_inv_bounds(2) [OF inv] small by simp
  then show ?thesis
    using reserve_total_spec [OF inv, of al "stk_n stk + k" rc stk'] res
    by (simp add: aem_stack_reserve_def)
qed

lemma reserve_inv [inv_intros]:
  assumes "stack_inv stk" "k \<le> 2 ^ 60"
  shows "stack_inv (snd (aem_stack_reserve al stk k))"
    and "stk_n (snd (aem_stack_reserve al stk k)) = stk_n stk"
    and "stack_elems (snd (aem_stack_reserve al stk k)) = stack_elems stk"
  using reserve_spec [OF assms(1) surjective_pairing assms(2)] by blast+

text \<open>When the allocator grants every request, a reservation below the system's limit
  succeeds.\<close>

lemma reserve_granted:
  assumes inv: "stack_inv stk" and ok: "\<And>b. al_ok al b"
    and small: "stk_n stk + k \<le> 2 ^ 58"
  shows "stk_n stk + k \<le> stk_maxn (snd (aem_stack_reserve al stk k))"
proof -
  obtain rc stk' where res: "aem_stack_reserve al stk k = (rc, stk')" by fastforce
  have sm: "sz (stk_n stk + k) = stk_n stk + k" using small by simp
  have "\<not> rc < 0"
  proof (cases "stk_maxn stk < stk_n stk + k")
    case False
    then show ?thesis using res
      by (auto simp: aem_stack_reserve_def aem_stack_reserve_total_def aem_array_grow_impl_def sm)
  next
    case True
    define an where "an = (if sz (stk_maxn stk * 2) < stk_n stk + k then sz (stk_n stk + k + 8)
      else sz (stk_maxn stk * 2))"
    have "an \<le> 2 ^ 59" using True small by (auto simp: an_def)
    moreover have "0 < an" using True small by (auto simp: an_def)
    ultimately have "fst (aem_array_realloc_impl al sizeof_ptr (stk_s stk) an) = 0"
      using ok by (simp add: aem_array_realloc_impl_def Let_def sizeof_ptr_def alloc_granted_def
          PTRDIFF_MAX_def)
    then show ?thesis using res True
      by (auto simp: aem_stack_reserve_def aem_stack_reserve_total_def aem_array_grow_impl_def sm
          an_def Let_def split: prod.splits if_splits)
  qed
  then show ?thesis
    using reserve_spec [OF inv res] small res by simp
qed

section \<open>Functional behaviour\<close>

lemma stk_store_Some:
  "stk_store stk i p = Some stk' \<longleftrightarrow>
     i < length (stk_s stk) \<and> stk' = stk\<lparr>stk_s := (stk_s stk)[i := p]\<rparr>"
  by (auto simp: stk_store_def)

lemma push_spec:
  assumes inv: "stack_inv stk" and push: "aem_stack_push al stk p = Some stk'"
  shows "stack_inv stk'" "stack_elems stk' = stack_elems stk @ [p]" "stk_n stk' = Suc (stk_n stk)"
proof -
  obtain rc stk1 where res: "aem_stack_reserve al stk 1 = (rc, stk1)" by fastforce
  from reserve_spec [OF inv res] have r: "stack_inv stk1" "stk_n stk1 = stk_n stk"
    "stack_elems stk1 = stack_elems stk" by simp_all
  have lt: "stk_n stk1 < length (stk_s stk1)"
    and stk': "stk' = stk1\<lparr>stk_s := (stk_s stk1)[stk_n stk1 := p], stk_n := stk_n stk1 + 1\<rparr>"
    using push res by (auto simp: aem_stack_push_def Let_def stk_store_Some bind_eq_Some_conv)
  show "stack_inv stk'" using lt r(1) by (simp add: stk' stack_inv_def)
  show "stack_elems stk' = stack_elems stk @ [p]"
    using lt r(2,3) by (simp add: stk' stack_elems_def take_Suc_list_update)
  show "stk_n stk' = Suc (stk_n stk)" using r(2) by (simp add: stk')
qed

lemma push_granted:
  assumes "stack_inv stk" "\<And>b. al_ok al b" "stk_n stk < 2 ^ 58"
  shows "\<exists>stk'. aem_stack_push al stk p = Some stk'"
proof -
  let ?r = "snd (aem_stack_reserve al stk 1)"
  have "stk_n stk + 1 \<le> stk_maxn ?r"
    by (rule reserve_granted) (use assms in auto)
  moreover have "stk_n ?r = stk_n stk" "length (stk_s ?r) = stk_maxn ?r"
    using reserve_inv [OF assms(1), of 1 al] by (simp_all add: stack_inv_def)
  ultimately show ?thesis
    by (simp add: aem_stack_push_def Let_def stk_store_def)
qed

lemma pushn_spec:
  assumes inv: "stack_inv stk" and push: "aem_stack_pushn al stk ps = Some stk'"
    and small: "length ps \<le> 2 ^ 60"
  shows "stack_inv stk'" "stack_elems stk' = stack_elems stk @ ps"
proof -
  have "stack_inv stk' \<and> stack_elems stk' = stack_elems stk @ ps"
  proof (cases "ps = []")
    case True
    then show ?thesis using push inv by (simp add: aem_stack_pushn_def)
  next
    case False
    let ?r = "snd (aem_stack_reserve al stk (length ps))"
    note r = reserve_inv [OF inv small, of al]
    have le: "stk_n ?r + length ps \<le> length (stk_s ?r)"
      and stk': "stk' = ?r\<lparr>stk_s := take (stk_n ?r) (stk_s ?r) @ ps
        @ drop (stk_n ?r + length ps) (stk_s ?r), stk_n := stk_n ?r + length ps\<rparr>"
      using push False
      by (auto simp: aem_stack_pushn_def stk_memcpy_def Let_def bind_eq_Some_conv split: if_splits)
    have "take (stk_n ?r) (stk_s ?r) = stack_elems stk"
      using r(3) by (simp only: stack_elems_def)
    moreover have "length (take (stk_n ?r) (stk_s ?r)) = stk_n ?r" using le by simp
    ultimately show ?thesis
      using le r(1) by (simp add: stk' stack_inv_def stack_elems_def [of "?r\<lparr>stk_s := _, stk_n := _\<rparr>"])
  qed
  then show "stack_inv stk'" "stack_elems stk' = stack_elems stk @ ps" by simp_all
qed

lemma pop_spec:
  assumes inv: "stack_inv stk" and pop: "aem_stack_pop stk = (p, stk')"
  shows "stack_inv stk'"
    and "stack_elems stk = (if stk_n stk = 0 then [] else stack_elems stk' @ [p])"
    and "stk_n stk' = stk_n stk - 1"
proof -
  show "stack_inv stk'" "stk_n stk' = stk_n stk - 1"
    using assms by (auto simp: aem_stack_pop_def stack_inv_def split: if_splits)
  show "stack_elems stk = (if stk_n stk = 0 then [] else stack_elems stk' @ [p])"
    using pop stack_inv_bounds(1) [OF inv] take_Suc_conv_app_nth [of "stk_n stk - 1" "stk_s stk"]
    by (auto simp: aem_stack_pop_def stack_elems_def split: if_splits)
qed

lemma trunc_spec [simp]:
  "stack_inv stk \<Longrightarrow> stack_inv (aem_stack_trunc stk n)"
  "stack_inv stk \<Longrightarrow> stack_elems (aem_stack_trunc stk n) = take n (stack_elems stk)"
  by (auto simp: aem_stack_trunc_def stack_inv_def stack_elems_def min_def)

lemma index_elems:
  "stack_inv stk \<Longrightarrow>
   aem_stack_index stk i = (if i < length (stack_elems stk) then stack_elems stk ! i else None)"
  by (auto simp: aem_stack_index_def stack_elems_def min_def stack_inv_def)

lemma index_end_elems:
  assumes "stack_inv stk" and size_t: "i < 2 ^ 64"
  shows "aem_stack_index_end stk i =
    (if i < length (stack_elems stk) then rev (stack_elems stk) ! i else None)"
proof (cases "i < stk_n stk")
  case True
  then have "c_size (int (stk_n stk) - 1 - int i) = stk_n stk - 1 - i"
    using stack_inv_bounds(2) [OF assms(1)] by (simp add: c_size_def nat_diff_distrib' of_nat_diff)
  then show ?thesis using True assms by (simp add: aem_stack_index_end_def index_elems rev_nth)
next
  case False
  then have "(int (stk_n stk) - 1 - int i) mod 2 ^ 64 = int (stk_n stk) - 1 - int i + 2 ^ 64"
    using stack_inv_bounds(2) [OF assms(1)] size_t
    by (subst mod_add_self2 [symmetric], intro mod_pos_pos_trivial) auto
  then have "stk_n stk \<le> c_size (int (stk_n stk) - 1 - int i)"
    using size_t by (simp add: c_size_def le_nat_iff)
  then show ?thesis using False assms by (simp add: aem_stack_index_end_def index_elems)
qed

lemma store_spec:
  assumes "stack_inv stk" "stk_store stk i p = Some stk'" "i < stk_n stk"
  shows "stack_inv stk'" "stack_elems stk' = (stack_elems stk)[i := p]" "stk_n stk' = stk_n stk"
  using assms by (auto simp: stk_store_Some stack_inv_def stack_elems_def take_update_swap)

lemma fill_spec:
  "stack_inv stk \<Longrightarrow> stk_fill al stk i = Some stk' \<Longrightarrow>
   stack_inv stk' \<and> i < stk_n stk' \<and>
   stack_elems stk' = stack_elems stk @ replicate (Suc i - stk_n stk) None"
proof (induction al stk i rule: stk_fill.induct)
  case (1 al stk i)
  show ?case
  proof (cases "stk_n stk \<le> i")
    case False
    then show ?thesis using "1.prems" by (simp add: stk_fill.simps [of al stk i])
  next
    case True
    then obtain stk1 where s1: "aem_stack_push al stk None = Some stk1"
      and s2: "stk_fill al stk1 i = Some stk'"
      using "1.prems"(2) by (auto simp: stk_fill.simps [of al stk i] bind_eq_Some_conv)
    note p = push_spec [OF "1.prems"(1) s1]
    have "Suc i - stk_n stk = Suc (Suc i - stk_n stk1)" using True p(3) by simp
    then show ?thesis using "1.IH" [OF True s1 p(1) s2] p by simp
  qed
qed

text \<open>Filling up to an index and then storing there is the code's assignment.\<close>

lemma assign_spec:
  assumes inv: "stack_inv stk" and res: "aem_stack_assign al stk i p = Some stk'"
  shows "stack_inv stk'"
    and "stack_elems stk' = (stack_elems stk @ replicate (Suc i - stk_n stk) None)[i := p]"
proof -
  obtain stk1 where f: "stk_fill al stk i = Some stk1" and st: "stk_store stk1 i p = Some stk'"
    using res by (auto simp: aem_stack_assign_def aem_stack_index_p_def bind_eq_Some_conv)
  note f' = fill_spec [OF inv f]
  note s = store_spec [OF f' [THEN conjunct1] st]
  show "stack_inv stk'"
    "stack_elems stk' = (stack_elems stk @ replicate (Suc i - stk_n stk) None)[i := p]"
    using s f' by simp_all
qed

lemma fill_granted:
  "stack_inv stk \<Longrightarrow> (\<And>b. al_ok al b) \<Longrightarrow> i < 2 ^ 58 \<Longrightarrow> \<exists>stk'. stk_fill al stk i = Some stk'"
proof (induction al stk i rule: stk_fill.induct)
  case (1 al stk i)
  show ?case
  proof (cases "stk_n stk \<le> i")
    case False
    then show ?thesis by (simp add: stk_fill.simps [of al stk i])
  next
    case True
    then obtain stk1 where s1: "aem_stack_push al stk None = Some stk1"
      using push_granted [OF "1.prems"(1,2), of None] "1.prems"(3) by auto
    show ?thesis
      using "1.IH" [OF True s1 push_spec(1) [OF "1.prems"(1) s1] "1.prems"(2,3)] True s1
      by (simp add: stk_fill.simps [of al stk i])
  qed
qed

lemma find_empty_spec:
  "i \<le> stk_find_empty stk i \<and> aem_stack_index stk (stk_find_empty stk i) = None \<and>
   (\<forall>j. i \<le> j \<longrightarrow> j < stk_find_empty stk i \<longrightarrow> aem_stack_index stk j \<noteq> None)"
proof (induction stk i rule: stk_find_empty.induct)
  case (1 stk i)
  show ?case
  proof (cases "aem_stack_index stk i = None")
    case True
    then show ?thesis by (simp add: stk_find_empty.simps [of stk i])
  next
    case False
    have "j = i \<or> i + 1 \<le> j" if "i \<le> j" for j using that by auto
    then show ?thesis
      using "1.IH" [OF False] False by (auto simp: stk_find_empty.simps [of stk i])
  qed
qed

lemma find_empty_le: "stk_find_empty stk 0 \<le> stk_n stk"
proof (rule ccontr)
  assume "\<not> ?thesis"
  then have "aem_stack_index stk (stk_n stk) \<noteq> None"
    using find_empty_spec [of 0 stk] by auto
  then show False by (simp add: aem_stack_index_def)
qed

lemma drop_nulls_spec:
  "stack_inv stk \<Longrightarrow> stack_inv (stk_drop_nulls stk) \<and>
   aem_stack_index (stk_drop_nulls stk) j = aem_stack_index stk j \<and>
   (stk_n (stk_drop_nulls stk) = 0 \<or>
    aem_stack_index (stk_drop_nulls stk) (stk_n (stk_drop_nulls stk) - 1) \<noteq> None)"
proof (induction stk rule: stk_drop_nulls.induct)
  case (1 stk)
  show ?case
  proof (cases "stk_n stk \<noteq> 0 \<and> stk_s stk ! (stk_n stk - 1) = None")
    case False
    then have "stk_drop_nulls stk = stk" by (subst stk_drop_nulls.simps) (rule if_not_P)
    then show ?thesis using "1.prems" False by (auto simp: aem_stack_index_def)
  next
    case True
    let ?s = "stk\<lparr>stk_n := stk_n stk - 1\<rparr>"
    have "stack_inv ?s" using "1.prems" by (auto simp: stack_inv_def)
    moreover have "aem_stack_index ?s j = aem_stack_index stk j"
      using True by (cases "j = stk_n stk - 1") (auto simp: aem_stack_index_def)
    moreover have "stk_drop_nulls stk = stk_drop_nulls ?s"
      by (subst stk_drop_nulls.simps) (rule if_P [OF True])
    ultimately show ?thesis using "1.IH" [OF True] by simp
  qed
qed

lemma assign_empty_spec:
  assumes inv: "stack_inv stk" and res: "aem_stack_assign_empty al stk (Some x) = Some (i, stk')"
  shows "stack_inv stk'" "i \<le> stk_n stk" "aem_stack_index stk i = None"
    and "\<And>j. j < i \<Longrightarrow> aem_stack_index stk j \<noteq> None"
    and "aem_stack_index stk' = (aem_stack_index stk)(i \<mapsto> x)"
    and "length (stack_elems stk') = max (length (stack_elems stk)) (Suc i)"
proof -
  have i: "i = stk_find_empty stk 0" and as: "aem_stack_assign al stk i (Some x) = Some stk'"
    using res by (auto simp: aem_stack_assign_empty_def bind_eq_Some_conv Let_def)
  note a = assign_spec [OF inv as]
  show "stack_inv stk'" by (rule a)
  show le: "i \<le> stk_n stk" by (simp add: i find_empty_le)
  show "aem_stack_index stk i = None" using find_empty_spec [of 0 stk] by (simp add: i)
  show "\<And>j. j < i \<Longrightarrow> aem_stack_index stk j \<noteq> None"
    using find_empty_spec [of 0 stk] by (simp add: i)
  show "length (stack_elems stk') = max (length (stack_elems stk)) (Suc i)"
    using a inv by simp
  show "aem_stack_index stk' = (aem_stack_index stk)(i \<mapsto> x)"
  proof
    fix j
    show "aem_stack_index stk' j = ((aem_stack_index stk)(i \<mapsto> x)) j"
      using a inv le by (auto simp: index_elems nth_append nth_list_update)
  qed
qed

lemma remove_spec:
  assumes inv: "stack_inv stk" and res: "aem_stack_remove stk i = (p, stk')"
  shows "stack_inv stk'" "p = aem_stack_index stk i"
    and "aem_stack_index stk' = (aem_stack_index stk)(i := None)"
    and "i < stk_n stk \<Longrightarrow>
      stk_n stk' = 0 \<or> aem_stack_index stk' (stk_n stk' - 1) \<noteq> None"
proof -
  let ?c = "stk\<lparr>stk_s := (stk_s stk)[i := None]\<rparr>"
  have c: "stack_inv ?c" using inv by (simp add: stack_inv_def)
  have ic: "aem_stack_index ?c = (aem_stack_index stk)(i := None)"
    using inv by (auto simp: aem_stack_index_def stack_inv_def nth_list_update fun_eq_iff)
  have "stack_inv stk' \<and> p = aem_stack_index stk i \<and>
      aem_stack_index stk' = (aem_stack_index stk)(i := None) \<and>
      (i < stk_n stk \<longrightarrow> stk_n stk' = 0 \<or> aem_stack_index stk' (stk_n stk' - 1) \<noteq> None)"
  proof (cases "stk_n stk \<le> i")
    case True
    then show ?thesis using res inv
      by (auto simp: aem_stack_remove_def aem_stack_index_def fun_eq_iff)
  next
    case False
    then have "stk' = stk_drop_nulls ?c" "p = aem_stack_index stk i"
      using res by (auto simp: aem_stack_remove_def aem_stack_index_def Let_def)
    moreover have "aem_stack_index (stk_drop_nulls ?c) = aem_stack_index ?c"
      using drop_nulls_spec [OF c] by blast
    moreover note drop_nulls_spec [OF c, THEN conjunct1]
      drop_nulls_spec [OF c, THEN conjunct2, THEN conjunct2]
    ultimately show ?thesis by (simp only: ic) blast
  qed
  then show "stack_inv stk'" "p = aem_stack_index stk i"
    "aem_stack_index stk' = (aem_stack_index stk)(i := None)"
    "i < stk_n stk \<Longrightarrow> stk_n stk' = 0 \<or> aem_stack_index stk' (stk_n stk' - 1) \<noteq> None"
    by blast+
qed

lemma insert_spec:
  assumes inv: "stack_inv stk" and res: "aem_stack_insert al stk i p = Some (rc, stk')"
  shows "stack_inv stk'"
    and "rc = (if stk_n stk < i then 1 else 0)"
    and "stack_elems stk' =
      (if stk_n stk < i then stack_elems stk
       else take i (stack_elems stk) @ p # drop i (stack_elems stk))"
proof -
  have "stack_inv stk' \<and> rc = (if stk_n stk < i then 1 else 0) \<and>
    stack_elems stk' = (if stk_n stk < i then stack_elems stk
       else take i (stack_elems stk) @ p # drop i (stack_elems stk))"
  proof (cases "stk_n stk < i")
    case True
    then show ?thesis using res inv by (simp add: aem_stack_insert_def)
  next
    case False
    obtain rc1 r where resv: "aem_stack_reserve al stk 1 = (rc1, r)" by fastforce
    from reserve_spec [OF inv resv] have ri: "stack_inv r" "stk_n r = stk_n stk"
      "stack_elems r = stack_elems stk" by simp_all
    define tail where "tail = take (stk_n r - i) (drop i (stk_s r))"
    have "tail = drop i (stack_elems r)" by (simp add: tail_def stack_elems_def drop_take)
    then have tl: "tail = drop i (stack_elems stk)" "length tail = stk_n stk - i"
      using ri inv by simp_all
    have room: "i + 1 + length tail \<le> length (stk_s r)" and rc: "rc = 0"
      and stk': "stk' = r\<lparr>stk_s := (take (i + 1) (stk_s r) @ tail @
           drop (i + 1 + length tail) (stk_s r))[i := p], stk_n := stk_n r + 1\<rparr>"
      using res False resv
      by (auto simp: aem_stack_insert_def Let_def stk_memcpy_def stk_store_Some bind_eq_Some_conv
          tail_def split: if_splits)
    have lt: "i < length (stk_s r)" using room by simp
    have s': "stk_s stk' = take i (stk_s r) @ p # tail @ drop (i + 1 + length tail) (stk_s r)"
      using lt by (simp add: stk' list_update_append take_Suc_conv_app_nth)
    have "take i (stack_elems r) = take i (stk_s r)"
      using False ri(2) by (simp add: stack_elems_def min_def)
    then have tk: "take i (stk_s r) = take i (stack_elems stk)" using ri(3) by simp
    have n': "stk_n stk' = i + Suc (length tail)" using False tl ri by (simp add: stk')
    have "length (stk_s stk') = stk_maxn stk'" using room ri by (simp add: s' stk' stack_inv_def)
    then have "stack_inv stk'" using room ri n' by (simp add: stack_inv_def stk')
    moreover have "take (i + Suc (length tail)) (A @ p # tail @ B) = A @ p # tail"
      if "length A = i" for A B using that by simp
    then have "stack_elems stk' = take i (stk_s r) @ p # tail"
      using lt by (simp add: stack_elems_def n' s')
    then have "stack_elems stk' = take i (stack_elems stk) @ p # drop i (stack_elems stk)"
      by (simp only: tk tl(1))
    ultimately show ?thesis using False rc by simp
  qed
  then show "stack_inv stk'" "rc = (if stk_n stk < i then 1 else 0)"
    "stack_elems stk' = (if stk_n stk < i then stack_elems stk
       else take i (stack_elems stk) @ p # drop i (stack_elems stk))" by simp_all
qed

lemma insert_end_spec:
  assumes "stack_inv stk" "aem_stack_insert_end al stk i p = Some (rc, stk')"
  shows "stack_inv stk'"
    and "stack_elems stk' = (if stk_n stk < i then stack_elems stk
      else take (stk_n stk - i) (stack_elems stk) @ p # drop (stk_n stk - i) (stack_elems stk))"
  using assms insert_spec [OF assms(1), of al "stk_n stk - i" p rc stk']
  by (auto simp: aem_stack_insert_end_def split: if_splits)

lemma transfer_spec:
  assumes dest: "stack_inv dest" and src: "stack_inv src"
    and res: "aem_stack_transfer al dest src n = Some (k, dest', src')"
  shows "stack_inv dest'" "stack_inv src'"
    and "k = (if n \<le> stk_n src then n else 0)"
    and "stack_elems src' = take (stk_n src - k) (stack_elems src)"
    and "stack_elems dest' = stack_elems dest @ drop (stk_n src - k) (stack_elems src)"
proof -
  have "stack_inv dest' \<and> stack_inv src' \<and> k = (if n \<le> stk_n src then n else 0) \<and>
    stack_elems src' = take (stk_n src - k) (stack_elems src) \<and>
    stack_elems dest' = stack_elems dest @ drop (stk_n src - k) (stack_elems src)"
  proof (cases "n = 0 \<or> stk_n src < n")
    case True
    then show ?thesis using assms by (auto simp: aem_stack_transfer_def split: if_splits)
  next
    case False
    let ?ps = "take n (drop (stk_n src - n) (stk_s src))"
    have p: "aem_stack_pushn al dest ?ps = Some dest'" and k: "k = n"
      and s: "src' = aem_stack_trunc src (stk_n src - n)"
      using res False by (auto simp: aem_stack_transfer_def Let_def bind_eq_Some_conv)
    have "length ?ps \<le> n" by simp
    then have "length ?ps \<le> 2 ^ 60" using False stack_inv_bounds(2) [OF src] by linarith
    note pn = pushn_spec [OF dest p this]
    have "?ps = drop (stk_n src - n) (stack_elems src)"
      using False by (simp add: stack_elems_def drop_take)
    then show ?thesis using pn k s src False by simp
  qed
  then show "stack_inv dest'" "stack_inv src'" "k = (if n \<le> stk_n src then n else 0)"
    "stack_elems src' = take (stk_n src - k) (stack_elems src)"
    "stack_elems dest' = stack_elems dest @ drop (stk_n src - k) (stack_elems src)" by blast+
qed

text \<open>Sorting permutes the elements, and leaves none before one it compares greater than,
  for a comparator that is total and transitive in the sense \<open>qsort\<close> asks for.\<close>

lemma mset_qsort_insert: "mset (qsort_insert c x ys) = add_mset x (mset ys)"
  by (induction ys) auto

lemma mset_c_qsort: "mset (c_qsort c xs) = mset xs"
  by (induction xs) (simp_all add: c_qsort_def mset_qsort_insert)

lemma set_qsort_insert: "set (qsort_insert c x ys) = insert x (set ys)"
  by (induction ys) auto

lemma length_c_qsort [simp]: "length (c_qsort c xs) = length xs"
  using mset_c_qsort [of c xs] by (metis size_mset)

definition comparator :: "('p \<Rightarrow> 'p \<Rightarrow> int) \<Rightarrow> 'p set \<Rightarrow> bool" where
  "comparator c A \<longleftrightarrow>
     (\<forall>x\<in>A. \<forall>y\<in>A. 0 < c x y \<longrightarrow> c y x \<le> 0) \<and>
     (\<forall>x\<in>A. \<forall>y\<in>A. \<forall>z\<in>A. c x y \<le> 0 \<longrightarrow> c y z \<le> 0 \<longrightarrow> c x z \<le> 0)"

lemma comparator_flip: "comparator c A \<Longrightarrow> x \<in> A \<Longrightarrow> y \<in> A \<Longrightarrow> 0 < c x y \<Longrightarrow> c y x \<le> 0"
  by (simp add: comparator_def)

lemma comparator_trans:
  assumes "comparator c A" "x \<in> A" "y \<in> A" "z \<in> A" "c x y \<le> 0" "c y z \<le> 0"
  shows "c x z \<le> 0"
  using assms(1) [unfolded comparator_def, THEN conjunct2] assms(2-) by blast

lemma comparator_subset: "comparator c A \<Longrightarrow> B \<subseteq> A \<Longrightarrow> comparator c B"
  unfolding comparator_def by (meson subsetD)

lemma sorted_qsort_insert:
  assumes cmp: "comparator c A" and x: "x \<in> A" and ys: "set ys \<subseteq> A"
    and sorted: "sorted_wrt (\<lambda>a b. c a b \<le> 0) ys"
  shows "sorted_wrt (\<lambda>a b. c a b \<le> 0) (qsort_insert c x ys)"
  using ys sorted
proof (induction ys)
  case Nil
  show ?case by simp
next
  case (Cons y ys)
  show ?case
  proof (cases "c x y \<le> 0")
    case True
    have "c x z \<le> 0" if z: "z \<in> set ys" for z
      by (rule comparator_trans [OF cmp x, of y z]) (use Cons.prems True z in auto)
    then show ?thesis using Cons.prems True by simp
  next
    case False
    have "c y x \<le> 0"
      by (rule comparator_flip [OF cmp x]) (use Cons.prems False in auto)
    then show ?thesis using Cons False by (simp add: set_qsort_insert)
  qed
qed

lemma sorted_c_qsort:
  assumes "comparator c (set xs)"
  shows "sorted_wrt (\<lambda>a b. c a b \<le> 0) (c_qsort c xs)"
  using assms
proof (induction xs)
  case Nil
  show ?case by (simp add: c_qsort_def)
next
  case (Cons x xs)
  have sub: "comparator c (set xs)" by (rule comparator_subset [OF Cons.prems]) auto
  have set_eq: "set (c_qsort c xs) = set xs" using mset_c_qsort by (metis set_mset_mset)
  have "sorted_wrt (\<lambda>a b. c a b \<le> 0) (qsort_insert c x (c_qsort c xs))"
    by (rule sorted_qsort_insert [OF Cons.prems]) (use Cons.IH [OF sub] set_eq in auto)
  then show ?case by (simp add: c_qsort_def)
qed

lemma qsort_spec:
  assumes "stack_inv stk"
  shows "stack_inv (aem_stack_qsort stk c)"
    and "stack_elems (aem_stack_qsort stk c) = c_qsort c (stack_elems stk)"
proof -
  have len: "length (c_qsort c (take (stk_n stk) (stk_s stk))) = stk_n stk"
    using stack_inv_bounds(1) [OF assms] by simp
  show "stack_inv (aem_stack_qsort stk c)"
    using assms len by (auto simp: aem_stack_qsort_def stack_inv_def)
  show "stack_elems (aem_stack_qsort stk c) = c_qsort c (stack_elems stk)"
    using len by (simp add: aem_stack_qsort_def stack_elems_def)
qed

section \<open>The contracts of the vector\<close>

text \<open>The vector as a last-in first-out store.\<close>

locale lifo =
  fixes inv :: "'v \<Rightarrow> bool" and elems :: "'v \<Rightarrow> 'p list"
    and push :: "'v \<Rightarrow> 'p \<Rightarrow> 'v option" and pop :: "'v \<Rightarrow> 'p \<times> 'v"
  assumes push_inv: "inv v \<Longrightarrow> push v p = Some v' \<Longrightarrow> inv v'"
    and push_elems: "inv v \<Longrightarrow> push v p = Some v' \<Longrightarrow> elems v' = elems v @ [p]"
    and pop_inv: "inv v \<Longrightarrow> pop v = (p, v') \<Longrightarrow> inv v'"
    and pop_elems: "inv v \<Longrightarrow> elems v \<noteq> [] \<Longrightarrow> pop v = (p, v') \<Longrightarrow> elems v = elems v' @ [p]"
begin

lemma pop_after_push:
  assumes "inv v" "push v p = Some v'" "pop v' = (q, v'')"
  shows "q = p \<and> elems v'' = elems v"
  using pop_elems [OF push_inv [OF assms(1,2)] _ assms(3)] push_elems [OF assms(1,2)] by simp

fun push_all :: "'v \<Rightarrow> 'p list \<Rightarrow> 'v option" where
  "push_all v [] = Some v"
| "push_all v (p # ps) = (case push v p of None \<Rightarrow> None | Some v' \<Rightarrow> push_all v' ps)"

lemma push_all_elems:
  "inv v \<Longrightarrow> push_all v ps = Some v' \<Longrightarrow> inv v' \<and> elems v' = elems v @ ps"
proof (induction ps arbitrary: v)
  case Nil
  then show ?case by simp
next
  case (Cons p ps)
  then obtain w where w: "push v p = Some w" "push_all w ps = Some v'"
    by (auto split: option.splits)
  then show ?case
    using Cons.IH [OF push_inv [OF Cons.prems(1) w(1)] w(2)] push_elems [OF Cons.prems(1) w(1)]
    by simp
qed

end

text \<open>The vector as a table of numbered slots: a new entry takes the lowest free number, and
  no operation on one slot disturbs another.\<close>

locale slot_table =
  fixes inv :: "'t \<Rightarrow> bool" and slot :: "'t \<Rightarrow> nat \<Rightarrow> 'a option"
    and add :: "'t \<Rightarrow> 'a \<Rightarrow> (nat \<times> 't) option" and del :: "'t \<Rightarrow> nat \<Rightarrow> 'a option \<times> 't"
  assumes add_inv: "inv t \<Longrightarrow> add t x = Some (i, t') \<Longrightarrow> inv t'"
    and add_slot: "inv t \<Longrightarrow> add t x = Some (i, t') \<Longrightarrow> slot t' = (slot t)(i \<mapsto> x)"
    and add_free: "inv t \<Longrightarrow> add t x = Some (i, t') \<Longrightarrow> slot t i = None"
    and add_lowest: "inv t \<Longrightarrow> add t x = Some (i, t') \<Longrightarrow> j < i \<Longrightarrow> slot t j \<noteq> None"
    and del_inv: "inv t \<Longrightarrow> del t i = (p, t') \<Longrightarrow> inv t'"
    and del_slot: "inv t \<Longrightarrow> del t i = (p, t') \<Longrightarrow> slot t' = (slot t)(i := None)"
    and del_result: "inv t \<Longrightarrow> del t i = (p, t') \<Longrightarrow> p = slot t i"
begin

lemma add_then_del:
  assumes "inv t" "add t x = Some (i, t')" "del t' i = (p, t'')"
  shows "p = Some x \<and> slot t'' = slot t"
proof -
  note inv' = add_inv [OF assms(1,2)]
  show ?thesis
    using del_result [OF inv' assms(3)] del_slot [OF inv' assms(3)]
      add_slot [OF assms(1,2)] add_free [OF assms(1,2)] by (simp add: fun_upd_idem)
qed

lemma add_dom: "inv t \<Longrightarrow> add t x = Some (i, t') \<Longrightarrow> dom (slot t') = insert i (dom (slot t))"
  by (simp add: add_slot)

lemma add_ran: "inv t \<Longrightarrow> add t x = Some (i, t') \<Longrightarrow> ran (slot t') = insert x (ran (slot t))"
  by (simp add: add_slot add_free)

lemma add_inj:
  assumes "inv t" "add t x = Some (i, t')" "inj_on (slot t) (dom (slot t))" "x \<notin> ran (slot t)"
  shows "inj_on (slot t') (dom (slot t'))"
proof -
  have "slot t j \<noteq> Some x" for j using assms(4) by (auto simp: ran_def)
  then show ?thesis
    using assms(3) add_slot [OF assms(1,2)] by (auto simp: inj_on_def dom_def)
qed

lemma del_inj:
  assumes "inv t" "del t i = (p, t')" "inj_on (slot t) (dom (slot t))"
  shows "inj_on (slot t') (dom (slot t'))"
  using assms(3) del_slot [OF assms(1,2)] by (auto simp: inj_on_def dom_def)

end

interpretation stk_lifo: lifo stack_inv stack_elems "aem_stack_push al" aem_stack_pop
  for al :: "'a ptr allocator"
proof unfold_locales
  fix v v' :: "'a stack" and p
  assume inv: "stack_inv v" and pop: "aem_stack_pop v = (p, v')" and ne: "stack_elems v \<noteq> []"
  from pop_spec(2) [OF inv pop] ne show "stack_elems v = stack_elems v' @ [p]"
    by (auto split: if_splits)
qed (auto dest: push_spec pop_spec)

definition stk_add :: "'a ptr allocator \<Rightarrow> 'a stack \<Rightarrow> 'a \<Rightarrow> (nat \<times> 'a stack) option" where
  "stk_add al stk x = aem_stack_assign_empty al stk (Some x)"

interpretation stk_slots: slot_table stack_inv aem_stack_index "stk_add al" aem_stack_remove
  for al :: "'a ptr allocator"
  by unfold_locales
    (auto simp: stk_add_def dest: assign_empty_spec remove_spec)

section \<open>Properties\<close>

text \<open>C17: \<open>aem_stack_push\<close> ignores the result of its reservation. Its store to
  \<open>stk->s[stk->n]\<close> is outside the buffer exactly when the buffer is full and the reservation
  failed; in every other case the pointer ends up on top of the old elements and the
  representation invariant still holds.\<close>

theorem push_out_of_bounds_iff:
  assumes inv: "stack_inv stk"
  shows "if stk_n stk = stk_maxn stk \<and> fst (aem_stack_reserve al stk 1) < 0
    then aem_stack_push al stk p = None
    else \<exists>stk'. aem_stack_push al stk p = Some stk' \<and> stack_inv stk' \<and>
           stack_elems stk' = stack_elems stk @ [p]"
proof -
  obtain rc r where res: "aem_stack_reserve al stk 1 = (rc, r)" by fastforce
  note r = reserve_spec [OF inv res]
  have "(stk_n r < length (stk_s r)) \<longleftrightarrow> \<not> (stk_n stk = stk_maxn stk \<and> rc < 0)"
    using r inv by (cases "rc < 0") (auto simp: stack_inv_def)
  moreover have "stk_n r < length (stk_s r) \<longleftrightarrow> aem_stack_push al stk p \<noteq> None"
    using res by (simp add: aem_stack_push_def stk_store_def)
  ultimately show ?thesis using push_spec [OF inv] res by auto
qed

theorem push_out_of_bounds_iff_witness:
  "aem_stack_push \<lparr>al_ok = \<lambda>_. False, al_junk = None\<rparr> (AEM_STACK_EMPTY :: nat stack) (Some 5) = None"
proof -
  have "fst (aem_stack_reserve \<lparr>al_ok = \<lambda>_. False, al_junk = None\<rparr> (AEM_STACK_EMPTY :: nat stack) 1) < 0"
    by (simp add: aem_stack_reserve_def aem_stack_reserve_total_def AEM_STACK_EMPTY_def
        aem_array_grow_impl_def aem_array_realloc_impl_def sizeof_ptr_def alloc_granted_def)
  then show ?thesis
    using push_out_of_bounds_iff [OF stack_empty(1), of "\<lparr>al_ok = \<lambda>_. False, al_junk = None\<rparr>" "Some (5::nat)"]
    by (simp add: AEM_STACK_EMPTY_def)
qed

text \<open>Moving \<open>n\<close> elements from one stack to another keeps both invariants,
  takes exactly the top \<open>n\<close> elements of the source in their order (or none, when the source
  is too short), and puts them on top of the destination: the two stacks laid end to end hold
  the same pointers as before.\<close>

theorem stack_transfer_moves_top:
  assumes "stack_inv dest" "stack_inv src" "aem_stack_transfer al dest src n = Some (k, dest', src')"
  shows "stack_inv dest' \<and> stack_inv src' \<and> k = (if n \<le> stk_n src then n else 0) \<and>
    (\<exists>top. length top = k \<and> stack_elems src = stack_elems src' @ top \<and>
       stack_elems dest' = stack_elems dest @ top)"
proof -
  note t = transfer_spec [OF assms]
  have "length (drop (stk_n src - k) (stack_elems src)) = k" using t(3) assms(2) by auto
  then show ?thesis using t by (metis append_take_drop_id)
qed

definition roomy :: "'a ptr allocator" where
  "roomy = \<lparr>al_ok = \<lambda>_. True, al_junk = None\<rparr>"

definition stack_of :: "'a list \<Rightarrow> 'a stack" where
  "stack_of xs = \<lparr>stk_s = map Some xs, stk_n = length xs, stk_maxn = length xs\<rparr>"

lemma stack_of_inv: "length xs \<le> 2 ^ 59 \<Longrightarrow> stack_inv (stack_of xs)"
  "stack_elems (stack_of xs) = map Some xs" "stk_n (stack_of xs) = length xs"
  by (simp_all add: stack_of_def stack_inv_def stack_elems_def sizeof_ptr_def PTRDIFF_MAX_def)

theorem stack_transfer_moves_top_witness:
  "\<exists>dest' src'. aem_stack_transfer roomy (stack_of [1]) (stack_of [2, 3, 4 :: nat]) 2 = Some (2, dest', src') \<and>
     stack_elems src' = [Some 2] \<and> stack_elems dest' = [Some 1, Some 3, Some 4]"
proof -
  obtain d s where ds: "aem_stack_transfer roomy (stack_of [1]) (stack_of [2, 3, 4 :: nat]) 2 = Some (2, d, s)"
    by (simp add: aem_stack_transfer_def stack_of_def roomy_def aem_stack_pushn_def aem_stack_reserve_def
        aem_stack_reserve_total_def aem_array_grow_impl_def aem_array_realloc_impl_def sizeof_ptr_def
        alloc_granted_def PTRDIFF_MAX_def stk_memcpy_def)
  have "stack_inv (stack_of [1 :: nat])" "stack_inv (stack_of [2, 3, 4 :: nat])"
    by (simp_all add: stack_of_inv)
  from stack_transfer_moves_top [OF this ds] obtain top where
    top: "length top = 2" "map Some [2, 3, 4 :: nat] = stack_elems s @ top"
      "stack_elems d = map Some [1] @ top" by (auto simp: stack_of_inv)
  then have "stack_elems s = [Some 2]" "top = [Some 3, Some 4]"
    by (auto simp: append_eq_Cons_conv Cons_eq_append_conv)
  then show ?thesis using ds top by simp
qed

text \<open>C20: As a table of slots, the vector gives a new entry the lowest index whose
  slot is \<open>NULL\<close> or beyond the end, changes no other slot, and removing that entry again
  returns it and restores every slot.\<close>

theorem stack_slot_lowest_free:
  assumes "stack_inv stk" "aem_stack_assign_empty al stk (Some x) = Some (i, stk')"
    and "aem_stack_remove stk' i = (p, stk'')"
  shows "aem_stack_index stk i = None \<and> (\<forall>j<i. aem_stack_index stk j \<noteq> None) \<and>
    aem_stack_index stk' = (aem_stack_index stk)(i \<mapsto> x) \<and>
    p = Some x \<and> aem_stack_index stk'' = aem_stack_index stk \<and> stack_inv stk''"
proof -
  have add: "stk_add al stk x = Some (i, stk')" using assms(2) by (simp add: stk_add_def)
  note inv' = stk_slots.add_inv [OF assms(1) add]
  show ?thesis
    using stk_slots.add_free [OF assms(1) add] stk_slots.add_lowest [OF assms(1) add]
      stk_slots.add_slot [OF assms(1) add] stk_slots.add_then_del [OF assms(1) add assms(3)]
      stk_slots.del_inv [OF inv' assms(3)] by blast
qed

definition holed :: "nat stack" where
  "holed = \<lparr>stk_s = [Some 7, None, Some 9], stk_n = 3, stk_maxn = 3\<rparr>"

theorem stack_slot_lowest_free_witness:
  "\<exists>stk'. aem_stack_assign_empty roomy holed (Some 8) = Some (1, stk') \<and>
     aem_stack_index (snd (aem_stack_remove stk' 1)) = aem_stack_index holed"
proof -
  have inv: "stack_inv holed" by (simp add: holed_def stack_inv_def sizeof_ptr_def PTRDIFF_MAX_def)
  have "stk_find_empty holed 0 = 1"
    by (simp add: stk_find_empty.simps aem_stack_index_def holed_def)
  then obtain stk' where s: "aem_stack_assign_empty roomy holed (Some 8) = Some (1, stk')"
    by (auto simp: aem_stack_assign_empty_def aem_stack_assign_def aem_stack_index_p_def
        stk_fill.simps stk_store_def holed_def)
  show ?thesis using stack_slot_lowest_free [OF inv s prod.collapse [symmetric]] s by blast
qed

text \<open>Inserting at index \<open>i\<close> shifts the elements from \<open>i\<close> on by one and puts the
  pointer in the gap, the elements before \<open>i\<close> untouched; an index beyond the end is
  refused with 1 and changes nothing.\<close>

theorem stack_insert_shifts:
  assumes "stack_inv stk" "aem_stack_insert al stk i p = Some (rc, stk')"
  shows "stack_inv stk' \<and>
    (if length (stack_elems stk) < i then rc = 1 \<and> stack_elems stk' = stack_elems stk
     else rc = 0 \<and> stack_elems stk' = take i (stack_elems stk) @ p # drop i (stack_elems stk))"
  using insert_spec [OF assms] assms(1) by simp

theorem stack_insert_shifts_witness:
  "\<exists>stk'. aem_stack_insert roomy (stack_of [1, 3 :: nat]) 1 (Some 2) = Some (0, stk') \<and>
     stack_elems stk' = [Some 1, Some 2, Some 3]"
proof -
  obtain s where s: "aem_stack_insert roomy (stack_of [1, 3 :: nat]) 1 (Some 2) = Some (0, s)"
    by (simp add: aem_stack_insert_def stack_of_def roomy_def aem_stack_reserve_def
        aem_stack_reserve_total_def aem_array_grow_impl_def aem_array_realloc_impl_def sizeof_ptr_def
        alloc_granted_def PTRDIFF_MAX_def stk_memcpy_def stk_store_def realloc_content_def)
  then show ?thesis
    using stack_insert_shifts [OF _ s] by (simp add: stack_of_inv)
qed

end
