(* ===== verification/Aem_Numeric.thy ===== *)
theory Aem_Numeric
  imports Aem_Slice
begin

text \<open>
  The number readers of \<open>stringslice.c\<close>. Values keep their C width: an \<open>unsigned long\<close> is a
  \<open>u64\<close> that wraps, a \<open>long\<close> is its signed reading. A result \<open>None\<close> is the C result 0, with
  which the functions leave the slice and the output alone.
\<close>

section \<open>The readers\<close>

text \<open>Conversion to a (signed) \<open>char\<close>.\<close>
definition c_char :: "int \<Rightarrow> int" where "c_char i = signed_take_bit 7 i"

definition char2digit :: "int \<Rightarrow> int \<Rightarrow> int \<Rightarrow> int \<Rightarrow> int" where
  "char2digit c digit lcase ucase =
     (if 48 \<le> c \<and> c \<le> 57 then c - 48 + digit
      else if 97 \<le> c \<and> c \<le> 122 then c - 97 + lcase
      else if 65 \<le> c \<and> c \<le> 90 then c - 65 + ucase
      else -1)"

definition aem_stringslice_match_hexbyte :: "stringslice \<Rightarrow> int \<times> stringslice" where
  "aem_stringslice_match_hexbyte sl =
     (if ss_start sl = ss_end sl \<or> ss_start sl + 1 = ss_end sl then (-1, sl)
      else
        let c1 = char2digit (schar (ss_bytes sl ! 0)) 0 10 10 in
        if c1 < 0 \<or> 15 < c1 then (-1, sl)
        else
          let c0 = char2digit (schar (ss_bytes sl ! 1)) 0 10 10 in
          if c0 < 0 \<or> 15 < c0 then (-1, sl)
          else (push_bit 4 c1 OR c0, ss_advance sl 2))"

text \<open>The loop over the digits; \<open>None\<close> is the early return on overflow.\<close>

function ulong_loop ::
  "int \<Rightarrow> stringslice \<Rightarrow> stringslice \<Rightarrow> u64 \<Rightarrow> bool \<Rightarrow> (stringslice \<times> u64 \<times> bool) option" where
  "ulong_loop base cur best n any_digits =
     (case aem_stringslice_getc cur of (c, cur') \<Rightarrow>
        if c < 0 then Some (best, n, any_digits)
        else let digit = char2digit (c_char c) 0 10 10 in
          if digit < 0 \<or> base \<le> digit then Some (best, n, any_digits)
          else if (-1) div word_of_int base < n then None
          else ulong_loop base cur' cur' (n * word_of_int base + word_of_int digit) True)"
  by pat_completeness auto
termination
  by (relation "measure (\<lambda>(base, cur, best, n, any_digits). length (ss_bytes cur))")
    (auto simp: aem_stringslice_getc_def split: if_splits)

declare ulong_loop.simps [simp del]

definition aem_stringslice_match_ulong_base ::
  "stringslice \<Rightarrow> int \<Rightarrow> u64 option \<times> stringslice" where
  "aem_stringslice_match_ulong_base sl base =
     (if \<not> aem_stringslice_ok sl then (None, sl)
      else case ulong_loop base sl sl 0 False of
             None \<Rightarrow> (None, sl)
           | Some (best, n, any_digits) \<Rightarrow> if \<not> any_digits then (None, sl) else (Some n, best))"

text \<open>How the readers of a signed number turn the magnitude into a \<open>long\<close>.\<close>

definition long_of_magnitude :: "bool \<Rightarrow> u64 \<Rightarrow> int option" where
  "long_of_magnitude neg un =
     (if \<not> neg then
        let n = sint un in if n < 0 then None else Some n
      else
        let n = sint (- un) in if 0 \<le> n then None else Some n)"

definition aem_stringslice_match_long_base ::
  "stringslice \<Rightarrow> int \<Rightarrow> int option \<times> stringslice" where
  "aem_stringslice_match_long_base sl base =
     (if \<not> aem_stringslice_ok sl then (None, sl)
      else
        let (neg, cur) = aem_stringslice_match sl (cstr ''-'');
            (ok, cur') = aem_stringslice_match_ulong_base cur base
        in case ok of
             None \<Rightarrow> (None, sl)
           | Some un \<Rightarrow>
               (case long_of_magnitude neg un of None \<Rightarrow> (None, sl) | Some n \<Rightarrow> (Some n, cur')))"

definition aem_stringslice_match_uint_base ::
  "stringslice \<Rightarrow> int \<Rightarrow> u32 option \<times> stringslice" where
  "aem_stringslice_match_uint_base sl base =
     (let (ok, cur) = aem_stringslice_match_ulong_base sl base
      in case ok of
           None \<Rightarrow> (None, sl)
         | Some out_l \<Rightarrow> if 0xFFFFFFFF < out_l then (None, sl) else (Some (ucast out_l), cur))"

definition INT_MAX :: int where "INT_MAX = 2 ^ 31 - 1"
definition INT_MIN :: int where "INT_MIN = - (2 ^ 31)"

definition aem_stringslice_match_int_base ::
  "stringslice \<Rightarrow> int \<Rightarrow> int option \<times> stringslice" where
  "aem_stringslice_match_int_base sl base =
     (let (ok, cur) = aem_stringslice_match_long_base sl base
      in case ok of
           None \<Rightarrow> (None, sl)
         | Some out_l \<Rightarrow>
             if 0 < out_l \<and> INT_MAX < out_l \<or> out_l < 0 \<and> out_l < INT_MIN then (None, sl)
             else (Some out_l, cur))"

definition aem_stringslice_match_long_auto :: "stringslice \<Rightarrow> int option \<times> stringslice" where
  "aem_stringslice_match_long_auto sl =
     (if \<not> aem_stringslice_ok sl then (None, sl)
      else
        let (neg, cur) = aem_stringslice_match sl (cstr ''-'');
            (base, cur1) =
              (let (x, cx) = aem_stringslice_match cur (cstr ''0x'') in
               if x then (16, cx)
               else let (b, cb) = aem_stringslice_match cx (cstr ''0b'') in
                 if b then (2, cb)
                 else let (y, cy) = aem_stringslice_match cb (cstr ''0y'') in
                   if y then (2, cy) else (10, cy));
            (ok, cur2) = aem_stringslice_match_ulong_base cur1 base
        in case ok of
             None \<Rightarrow> (None, sl)
           | Some un \<Rightarrow>
               (case long_of_magnitude neg un of None \<Rightarrow> (None, sl) | Some n \<Rightarrow> (Some n, cur2)))"

section \<open>What they read\<close>

text \<open>The value of a byte as a digit, or \<open>-1\<close>; the digits a slice starts with, and their
  value in a base.\<close>

definition digit_of :: "u8 \<Rightarrow> int" where
  "digit_of b = char2digit (schar b) 0 10 10"

definition is_digit :: "int \<Rightarrow> u8 \<Rightarrow> bool" where
  "is_digit base b \<longleftrightarrow> 0 \<le> digit_of b \<and> digit_of b < base"

definition lead_digits :: "int \<Rightarrow> u8 list \<Rightarrow> u8 list" where
  "lead_digits base bs = takeWhile (is_digit base) bs"

definition digits_value :: "int \<Rightarrow> u8 list \<Rightarrow> int" where
  "digits_value base ds = foldl (\<lambda>n b. n * base + digit_of b) 0 ds"

lemma c_char_uchar [simp]: "c_char (uchar b) = schar b"
  by (simp add: c_char_def uchar_def schar_def sint_uint)


lemma digit_of_less: "digit_of b < 36"
  by (simp add: digit_of_def char2digit_def)

fun value_fits :: "int \<Rightarrow> u64 \<Rightarrow> u8 list \<Rightarrow> bool" where
  "value_fits base n [] \<longleftrightarrow> True"
| "value_fits base n (b # bs) \<longleftrightarrow>
     n \<le> (-1) div word_of_int base \<and>
     value_fits base (n * word_of_int base + word_of_int (digit_of b)) bs"

definition word_value :: "int \<Rightarrow> u64 \<Rightarrow> u8 list \<Rightarrow> u64" where
  "word_value base n ds = foldl (\<lambda>n b. n * word_of_int base + word_of_int (digit_of b)) n ds"

lemma ulong_loop_spec:
  "ulong_loop base cur best n any_digits =
    (let ds = lead_digits base (ss_bytes cur) in
     if value_fits base n ds
     then Some (if ds = [] then best else ss_advance cur (length ds), word_value base n ds,
                any_digits \<or> ds \<noteq> [])
     else None)"
proof (induction base cur best n any_digits rule: ulong_loop.induct)
  case (1 base cur best n any_digits)
  show ?case
  proof (cases "ss_bytes cur")
    case Nil
    then show ?thesis
      by (simp add: ulong_loop.simps [of base cur] getc_simps(1) lead_digits_def word_value_def)
  next
    case (Cons b bs)
    note g = getc_simps(2) [OF Cons]
    let ?m = "n * word_of_int base + word_of_int (digit_of b)"
    have nn: "\<not> uchar b < 0" using uchar_range(1) [of b] by simp
    have step: "ulong_loop base cur best n any_digits =
      (if \<not> is_digit base b then Some (best, n, any_digits)
       else if (-1) div word_of_int base < n then None
       else ulong_loop base (ss_advance cur 1) (ss_advance cur 1) ?m True)"
      using nn by (auto simp: ulong_loop.simps [of base cur best n] g digit_of_def is_digit_def)
    have IH: "ulong_loop base (ss_advance cur 1) (ss_advance cur 1) ?m True =
      (let ds = lead_digits base bs in
       if value_fits base ?m ds
       then Some (ss_advance (ss_advance cur 1) (length ds), word_value base ?m ds, True)
       else None)"
      if "is_digit base b" "\<not> (-1) div word_of_int base < n"
    proof -
      have "ulong_loop base (ss_advance cur 1) (ss_advance cur 1) ?m True =
        (let ds = lead_digits base (ss_bytes (ss_advance cur 1)) in
         if value_fits base ?m ds
         then Some (if ds = [] then ss_advance cur 1 else ss_advance (ss_advance cur 1) (length ds),
                    word_value base ?m ds, True \<or> ds \<noteq> [])
         else None)"
        using "1.IH" [OF g [symmetric] nn refl, unfolded c_char_uchar, folded digit_of_def] that
        by (simp add: is_digit_def)
      then show ?thesis using Cons by (auto simp: Let_def intro!: slice_eqI)
    qed
    show ?thesis
    proof (cases "is_digit base b \<and> \<not> (-1) div word_of_int base < n")
      case True
      then show ?thesis
        using step IH Cons
        by (auto simp: lead_digits_def word_value_def Let_def not_less intro!: slice_eqI)
    next
      case False
      then show ?thesis
        using step Cons by (auto simp: lead_digits_def word_value_def Let_def not_less)
    qed
  qed
qed

definition value_from :: "int \<Rightarrow> int \<Rightarrow> u8 list \<Rightarrow> int" where
  "value_from base v ds = foldl (\<lambda>n b. n * base + digit_of b) v ds"

lemma value_from_simps [simp]:
  "value_from base v [] = v"
  "value_from base v (b # ds) = value_from base (v * base + digit_of b) ds"
  by (simp_all add: value_from_def)

lemma digits_value_from: "digits_value base ds = value_from base 0 ds"
  by (simp add: digits_value_def value_from_def)

lemma lead_digits_all: "\<forall>b\<in>set (lead_digits base bs). is_digit base b"
  by (auto simp: lead_digits_def dest: set_takeWhileD)

lemma word_value_of_int: "word_value base (word_of_int v) ds = word_of_int (value_from base v ds)"
proof (induction ds arbitrary: v)
  case Nil
  show ?case by (simp add: word_value_def)
next
  case (Cons b ds)
  have "word_value base (word_of_int v) (b # ds) =
      word_value base (word_of_int v * word_of_int base + word_of_int (digit_of b)) ds"
    by (simp add: word_value_def)
  also have "\<dots> = word_value base (word_of_int (v * base + digit_of b)) ds"
    by (simp only: wi_hom_mult wi_hom_add)
  finally show ?case by (simp only: Cons.IH value_from_simps)
qed

lemma value_from_ge:
  "1 \<le> base \<Longrightarrow> 0 \<le> v \<Longrightarrow> \<forall>b\<in>set ds. is_digit base b \<Longrightarrow> v \<le> value_from base v ds"
proof (induction ds arbitrary: v)
  case (Cons b ds)
  have d: "0 \<le> digit_of b" using Cons.prems by (simp add: is_digit_def)
  have "v * 1 \<le> v * base" by (rule mult_left_mono) (use Cons.prems in auto)
  then have "v \<le> v * base + digit_of b" using d by simp
  moreover from this have "v * base + digit_of b \<le> value_from base (v * base + digit_of b) ds"
    using Cons.prems by (intro Cons.IH) auto
  ultimately show ?case by simp
qed simp

lemma limit_div: "2 \<le> base \<Longrightarrow> base \<le> 36 \<Longrightarrow>
  uint ((-1 :: u64) div word_of_int base) = (2 ^ 64 - 1) div base"
  by (simp add: uint_div_distrib uint_word_of_int unsigned_minus_1_eq_mask mask_eq_exp_minus_1)

lemma value_fits_exact:
  "2 \<le> base \<Longrightarrow> base \<le> 36 \<Longrightarrow> \<forall>b\<in>set ds. is_digit base b \<Longrightarrow> 0 \<le> v \<Longrightarrow>
   value_from base v ds < 2 ^ 64 \<Longrightarrow> value_fits base (word_of_int v) ds"
proof (induction ds arbitrary: v)
  case (Cons b ds)
  let ?v = "v * base + digit_of b"
  have d: "0 \<le> digit_of b" using Cons.prems by (simp add: is_digit_def)
  have vb: "0 \<le> v * base" using Cons.prems by simp
  have "v * 1 \<le> v * base" by (rule mult_left_mono) (use Cons.prems in auto)
  moreover have le: "?v \<le> value_from base ?v ds"
    by (rule value_from_ge) (use Cons.prems d vb in auto)
  ultimately have lt: "?v < 2 ^ 64" "v < 2 ^ 64" "v * base \<le> 2 ^ 64 - 1"
    using Cons.prems(5) d by simp_all
  have "v \<le> (2 ^ 64 - 1) div base"
    using lt(3) Cons.prems(1) zdiv_mono1 [of "v * base" "2 ^ 64 - 1" base] by simp
  then have "word_of_int v \<le> (-1 :: u64) div word_of_int base"
    using Cons.prems lt(2) limit_div [of base]
    by (simp add: word_le_def uint_word_of_int)
  moreover have "value_fits base (word_of_int ?v) ds"
    by (rule Cons.IH) (use Cons.prems d vb in auto)
  ultimately show ?case by (simp add: wi_hom_add [symmetric] wi_hom_mult [symmetric])
qed simp

lemma ulong_spec:
  fixes sl :: stringslice and base :: int
  defines "ds \<equiv> lead_digits base (ss_bytes sl)"
  shows "aem_stringslice_match_ulong_base sl base =
    (if ds \<noteq> [] \<and> value_fits base 0 ds
     then (Some (word_of_int (digits_value base ds)), ss_advance sl (length ds)) else (None, sl))"
proof -
  have "word_value base 0 ds = word_of_int (digits_value base ds)"
    using word_value_of_int [of base 0 ds] by (simp add: digits_value_from)
  moreover have "ss_bytes sl = [] \<Longrightarrow> ds = []" by (simp add: ds_def lead_digits_def)
  ultimately show ?thesis
    by (auto simp: aem_stringslice_match_ulong_base_def ulong_loop_spec ds_def [symmetric] Let_def)
qed

lemma ulong_exact:
  assumes "2 \<le> base" "base \<le> 36" "lead_digits base (ss_bytes sl) \<noteq> []"
    and "digits_value base (lead_digits base (ss_bytes sl)) < 2 ^ 64"
  shows "aem_stringslice_match_ulong_base sl base =
    (Some (word_of_int (digits_value base (lead_digits base (ss_bytes sl)))),
     ss_advance sl (length (lead_digits base (ss_bytes sl))))"
  using assms value_fits_exact [of base "lead_digits base (ss_bytes sl)" 0]
  by (simp add: ulong_spec lead_digits_all digits_value_from)

lemma digits_value_nonneg:
  "1 \<le> base \<Longrightarrow> \<forall>b\<in>set ds. is_digit base b \<Longrightarrow> 0 \<le> digits_value base ds"
  using value_from_ge [of base 0 ds] by (simp add: digits_value_from)

section \<open>Properties\<close>

text \<open>The test for an overflow before each digit: the value so far, modulo \<open>2 ^ 64\<close>, times the base is
  below \<open>2 ^ 64\<close>. It forgets the digit that is added, so some numbers that are too large pass.\<close>
definition ulong_accepts :: "int \<Rightarrow> u8 list \<Rightarrow> bool" where
  "ulong_accepts base ds \<longleftrightarrow> ds \<noteq> [] \<and>
     (\<forall>k < length ds. digits_value base (take k ds) mod 2 ^ 64 * base < 2 ^ 64)"

lemma value_fits_prefixes:
  assumes base: "2 \<le> base" "base \<le> 36"
  shows "value_fits base (word_of_int v) ds \<longleftrightarrow>
    (\<forall>k < length ds. value_from base v (take k ds) mod 2 ^ 64 * base < 2 ^ 64)"
proof (induction ds arbitrary: v)
  case (Cons b ds)
  have le: "(word_of_int v :: u64) \<le> (-1) div word_of_int base \<longleftrightarrow> v mod 2 ^ 64 * base < 2 ^ 64"
  proof -
    have "(word_of_int v :: u64) \<le> (-1) div word_of_int base \<longleftrightarrow> v mod 2 ^ 64 \<le> (2 ^ 64 - 1) div base"
      unfolding word_le_def limit_div [OF base] by (simp add: uint_word_of_int)
    also have "\<dots> \<longleftrightarrow> v mod 2 ^ 64 * base \<le> 2 ^ 64 - 1"
    proof
      assume "v mod 2 ^ 64 \<le> (2 ^ 64 - 1) div base"
      then have "v mod 2 ^ 64 * base \<le> (2 ^ 64 - 1) div base * base" using base by (intro mult_right_mono) auto
      also have "\<dots> \<le> 2 ^ 64 - 1" using base div_mult_mod_eq [of "2 ^ 64 - 1" base] pos_mod_sign [of base "2 ^ 64 - 1"] by linarith
      finally show "v mod 2 ^ 64 * base \<le> 2 ^ 64 - 1" .
    next
      assume "v mod 2 ^ 64 * base \<le> 2 ^ 64 - 1"
      then show "v mod 2 ^ 64 \<le> (2 ^ 64 - 1) div base"
        using base zdiv_mono1 [of "v mod 2 ^ 64 * base" "2 ^ 64 - 1" base] by simp
    qed
    finally show ?thesis by linarith
  qed
  have "value_fits base (word_of_int v) (b # ds) \<longleftrightarrow> v mod 2 ^ 64 * base < 2 ^ 64 \<and>
      (\<forall>k < length ds. value_from base (v * base + digit_of b) (take k ds) mod 2 ^ 64 * base < 2 ^ 64)"
    using le Cons.IH [of "v * base + digit_of b"] by (simp add: wi_hom_add [symmetric] wi_hom_mult [symmetric])
  then show ?case by (simp only: length_Cons All_less_Suc2 take_0 take_Suc_Cons value_from_simps)
qed simp

lemma ulong_accepts_fits:
  "2 \<le> base \<Longrightarrow> base \<le> 36 \<Longrightarrow> ulong_accepts base ds \<longleftrightarrow> ds \<noteq> [] \<and> value_fits base 0 ds"
  using value_fits_prefixes [of base 0 ds] by (simp add: ulong_accepts_def digits_value_from)

lemma ulong_accepts_exact:
  "2 \<le> base \<Longrightarrow> base \<le> 36 \<Longrightarrow> ds = lead_digits base bs \<Longrightarrow> ds \<noteq> [] \<Longrightarrow> digits_value base ds < 2 ^ 64 \<Longrightarrow> ulong_accepts base ds"
  using value_fits_exact [of base ds 0] lead_digits_all [of base bs] by (simp add: ulong_accepts_fits digits_value_from)

text \<open>C18: For every base the function allows, a slice that starts with digits is read
  exactly when its value, as it is built up modulo \<open>2 ^ 64\<close>, passes the test for an overflow before each
  digit. Then exactly the digits are consumed and the result is their value modulo \<open>2 ^ 64\<close>; otherwise the
  slice is left alone. Every number that fits in an \<open>unsigned long\<close> passes and is read as it is; of
  larger numbers some are refused and some wrap (\<open>match_ulong_wraps\<close>), though the code means to refuse
  them all.\<close>

theorem match_ulong_reads_value:
  assumes "2 \<le> base" "base \<le> 36" "aem_stringslice_match_ulong_base sl base = (r, sl')"
  shows "(case r of
       None \<Rightarrow> sl' = sl \<and> \<not> ulong_accepts base (lead_digits base (ss_bytes sl))
     | Some n \<Rightarrow> ulong_accepts base (lead_digits base (ss_bytes sl)) \<and>
         ss_bytes sl' = dropWhile (is_digit base) (ss_bytes sl) \<and>
         uint n = digits_value base (lead_digits base (ss_bytes sl)) mod 2 ^ 64) \<and>
    (lead_digits base (ss_bytes sl) \<noteq> [] \<and> digits_value base (lead_digits base (ss_bytes sl)) < 2 ^ 64 \<longrightarrow>
       map_option uint r = Some (digits_value base (lead_digits base (ss_bytes sl))))"
proof -
  let ?ds = "lead_digits base (ss_bytes sl)"
  have acc: "ulong_accepts base ?ds \<longleftrightarrow> ?ds \<noteq> [] \<and> value_fits base 0 ?ds" by (rule ulong_accepts_fits [OF assms(1,2)])
  have eq: "(r, sl') = (if ulong_accepts base ?ds then (Some (word_of_int (digits_value base ?ds)), ss_advance sl (length ?ds))
      else (None, sl))"
    using assms(3) unfolding acc ulong_spec by simp
  have v: "uint (word_of_int (digits_value base ?ds) :: u64) = digits_value base ?ds mod 2 ^ 64"
    by (simp add: uint_word_of_int)
  have drop: "ss_bytes (ss_advance sl (length ?ds)) = dropWhile (is_digit base) (ss_bytes sl)"
    using dropWhile_eq_drop [of "is_digit base" "ss_bytes sl"] by (simp add: lead_digits_def)
  have "0 \<le> digits_value base ?ds" by (rule digits_value_nonneg) (use assms lead_digits_all in auto)
  then have fit: "digits_value base ?ds < 2 ^ 64 \<Longrightarrow> digits_value base ?ds mod 2 ^ 64 = digits_value base ?ds"
    by simp
  show ?thesis
  proof (cases "ulong_accepts base ?ds")
    case True
    then have "r = Some (word_of_int (digits_value base ?ds))" "sl' = ss_advance sl (length ?ds)" using eq by simp_all
    then show ?thesis using True v drop fit by simp
  next
    case False
    then show ?thesis using eq ulong_accepts_exact [OF assms(1,2) refl, of "ss_bytes sl"] by auto
  qed
qed

theorem match_ulong_reads_value_witness:
  "\<exists>sl'. aem_stringslice_match_ulong_base (aem_stringslice_new_len 64 (cstr ''fFz'')) 16 = (Some 255, sl') \<and>
     ss_bytes sl' = cstr ''z''"
proof -
  let ?sl = "aem_stringslice_new_len 64 (cstr ''fFz'')"
  obtain r sl' where rs: "aem_stringslice_match_ulong_base ?sl 16 = (r, sl')" by fastforce
  have bytes: "cstr ''fFz'' = [102, 70, 122]" "cstr ''z'' = [122]" by (simp_all add: cstr_def)
  have dig: "is_digit 16 102" "is_digit 16 70" "\<not> is_digit 16 122" "digit_of 102 = 15" "digit_of 70 = 15"
    by (simp_all add: is_digit_def digit_of_def char2digit_def schar_def)
  then have v: "lead_digits 16 (ss_bytes ?sl) = [102, 70]" "digits_value 16 [102, 70] = 255"
    by (simp_all add: bytes lead_digits_def digits_value_def)
  note main = match_ulong_reads_value [OF _ _ rs, unfolded v]
  obtain n where n: "r = Some n" using main v by (cases r) simp_all
  have "uint n = 255" "ss_bytes sl' = cstr ''z''"
    using main n dig by (simp_all add: bytes)
  then have "n = 255" by (simp add: word_uint_eq_iff)
  then show ?thesis using rs n \<open>ss_bytes sl' = cstr ''z''\<close> by blast
qed

text \<open>The overflow test looks only at \<open>n > ULONG_MAX / base\<close>, so adding the digit can still wrap.\<close>

lemma match_ulong_wraps:
  "fst (aem_stringslice_match_ulong_base
     (aem_stringslice_new_len 64 (cstr ''18446744073709551616'')) 10) = Some 0"
proof -
  let ?ds = "[49, 56, 52, 52, 54, 55, 52, 52, 48, 55, 51, 55, 48, 57, 53, 53, 49, 54, 49, 54 :: u8]"
  have bytes: "cstr ''18446744073709551616'' = ?ds" by (simp add: cstr_def)
  have dg: "digit_of 48 = 0" "digit_of 49 = 1" "digit_of 50 = 2" "digit_of 51 = 3" "digit_of 52 = 4"
    "digit_of 53 = 5" "digit_of 54 = 6" "digit_of 55 = 7" "digit_of 56 = 8" "digit_of 57 = 9"
    by (simp_all add: digit_of_def char2digit_def schar_def)
  have l: "lead_digits 10 ?ds = ?ds" by (simp add: lead_digits_def is_digit_def dg)
  have v: "digits_value 10 ?ds = 18446744073709551616" by (simp add: digits_value_def dg)
  have f: "value_fits 10 0 ?ds" by (simp only: value_fits.simps dg) simp
  show ?thesis by (simp add: ulong_spec bytes l v f del: value_fits.simps)
qed

lemma word_of_int_period: "(word_of_int (i - 2 ^ 64) :: u64) = word_of_int i"
proof (rule word_uint_eqI)
  have "uint (word_of_int j :: u64) = j mod 2 ^ 64" for j by (simp only: uint_word_of_int) simp
  then show "uint (word_of_int (i - 2 ^ 64) :: u64) = uint (word_of_int i :: u64)"
    by (simp only: minus_mod_self2)
qed

lemma sint_word_of_int: "- (2 ^ 63) \<le> i \<Longrightarrow> i < 2 ^ 63 \<Longrightarrow> sint (word_of_int i :: u64) = i"
proof -
  assume "- (2 ^ 63) \<le> i" "i < 2 ^ 63"
  then have "signed_take_bit 63 i = i" by (intro signed_take_bit_int_eq_self) auto
  then show ?thesis by (simp add: sint_sbintrunc')
qed

lemma sint_word_of_int_big:
  assumes "2 ^ 63 \<le> i" "i < 2 ^ 64" shows "sint (word_of_int i :: u64) = i - 2 ^ 64"
  using sint_word_of_int [of "i - 2 ^ 64"] assms unfolding word_of_int_period by simp

lemma long_of_magnitude_spec:
  assumes "0 \<le> v" "v < 2 ^ 64"
  shows "long_of_magnitude neg (word_of_int v) =
    (if \<not> neg then if v < 2 ^ 63 then Some v else None
     else if 0 < v \<and> v \<le> 2 ^ 63 then Some (- v) else None)"
proof (cases neg)
  case False
  then show ?thesis using assms sint_word_of_int [of v] sint_word_of_int_big [of v]
    by (cases "v < 2 ^ 63") (simp_all add: long_of_magnitude_def)
next
  case True
  have neg_word: "- word_of_int v = (word_of_int (- v) :: u64)" by simp
  show ?thesis
  proof (cases "v \<le> 2 ^ 63")
    case le: True
    then have "sint (- word_of_int v :: u64) = - v"
      using assms unfolding neg_word by (intro sint_word_of_int) auto
    then show ?thesis using True le assms by (auto simp: long_of_magnitude_def)
  next
    case False
    have "(- word_of_int v :: u64) = word_of_int (2 ^ 64 - v)"
      unfolding neg_word using word_of_int_period [of "2 ^ 64 - v"] by simp
    then have "sint (- word_of_int v :: u64) = sint (word_of_int (2 ^ 64 - v) :: u64)"
      by (rule arg_cong)
    also have "\<dots> = 2 ^ 64 - v" by (rule sint_word_of_int) (use assms False in auto)
    finally have "sint (- word_of_int v :: u64) = 2 ^ 64 - v" .
    then show ?thesis using True False assms by (simp add: long_of_magnitude_def)
  qed
qed

text \<open>C19: A signed number is an optional minus and digits that the unsigned reader accepts,
  with their value modulo \<open>2 ^ 64\<close> as magnitude. It is accepted exactly when that value fits in a
  \<open>long\<close> and is not a negative zero; then the result is the value and exactly the minus and the digits are
  consumed. Otherwise the slice is left alone. For a magnitude below \<open>2 ^ 64\<close> that is the number as it is
  written; a larger one that the unsigned reader lets pass is read modulo \<open>2 ^ 64\<close> here too.\<close>

theorem match_long_reads_value:
  fixes sl :: stringslice and base :: int
  defines "neg \<equiv> prefix [45] (ss_bytes sl)"
  defines "body \<equiv> (if neg then tl (ss_bytes sl) else ss_bytes sl)"
  defines "ds \<equiv> lead_digits base body"
  defines "v \<equiv> digits_value base ds mod 2 ^ 64"
  assumes base: "2 \<le> base" "base \<le> 36"
  shows "aem_stringslice_match_long_base sl base =
    (if \<not> ulong_accepts base ds then (None, sl)
     else if \<not> neg \<and> v < 2 ^ 63 then (Some v, ss_advance sl (length ds))
     else if neg \<and> 0 < v \<and> v \<le> 2 ^ 63 then (Some (- v), ss_advance sl (1 + length ds))
     else (None, sl)) \<and>
    (ds \<noteq> [] \<and> digits_value base ds < 2 ^ 64 \<longrightarrow> ulong_accepts base ds \<and> v = digits_value base ds)"
proof -
  define cur where "cur = (if neg then ss_advance sl 1 else sl)"
  have m: "aem_stringslice_match sl (cstr ''-'') = (neg, cur)"
    by (simp add: match_spec cstr_def neg_def cur_def)
  have b: "ss_bytes cur = body" by (simp add: cur_def body_def drop_Suc)
  have v: "0 \<le> v" "v < 2 ^ 64" by (simp_all add: v_def)
  have w: "(word_of_int (digits_value base ds) :: u64) = word_of_int v"
    by (rule word_uint_eqI) (simp add: uint_word_of_int v_def)
  have u: "aem_stringslice_match_ulong_base cur base =
      (if ulong_accepts base ds then (Some (word_of_int v), ss_advance cur (length ds)) else (None, cur))"
    unfolding ulong_accepts_fits [OF base] w [symmetric] by (simp add: ulong_spec b ds_def)
  have "aem_stringslice_match_long_base sl base =
      (if ulong_accepts base ds then
         (case long_of_magnitude neg (word_of_int v) of
            None \<Rightarrow> (None, sl) | Some n \<Rightarrow> (Some n, ss_advance cur (length ds)))
       else (None, sl))"
  proof (cases "aem_stringslice_ok sl")
    case True
    then show ?thesis by (simp add: aem_stringslice_match_long_base_def m u)
  next
    case False
    then have "ds = []" by (auto simp: ds_def body_def neg_def lead_digits_def)
    then show ?thesis using False by (simp add: aem_stringslice_match_long_base_def ulong_accepts_def)
  qed
  moreover have "ulong_accepts base ds" "v = digits_value base ds" if "ds \<noteq> []" "digits_value base ds < 2 ^ 64"
  proof -
    show "ulong_accepts base ds" by (rule ulong_accepts_exact [OF base _ that, of body]) (simp add: ds_def)
    have "0 \<le> digits_value base ds" unfolding ds_def by (rule digits_value_nonneg) (use base lead_digits_all in auto)
    then show "v = digits_value base ds" using that(2) by (simp add: v_def)
  qed
  ultimately show ?thesis using long_of_magnitude_spec [OF v, of neg] by (simp add: cur_def)
qed

theorem match_long_reads_value_witness:
  "aem_stringslice_match_long_base (aem_stringslice_new_len 64 (cstr ''-12 '')) 10 =
     (Some (-12), aem_stringslice_new_len 67 (cstr '' ''))"
proof -
  have bytes: "cstr ''-12 '' = [45, 49, 50, 32]" "cstr '' '' = [32]" by (simp_all add: cstr_def)
  have l: "lead_digits 10 [49, 50, 32] = [49, 50]" and v: "digits_value 10 [49, 50] = 12"
    by (simp_all add: lead_digits_def digits_value_def is_digit_def digit_of_def char2digit_def schar_def)
  show ?thesis
    using match_long_reads_value [of 10 "aem_stringslice_new_len 64 (cstr ''-12 '')"]
    by (simp add: bytes l v slice_eqI)
qed

end
