(* ===== verification/Aem_Stringbuf.thy ===== *)
theory Aem_Stringbuf
  imports Aem_Memory Aem_Slice "HOL-Library.Monad_Syntax"
begin

text \<open>
  \<open>stringbuf.h\<close> and \<open>stringbuf.c\<close>: the growable string. \<open>sb_s\<close> is the block of \<open>sb_maxn\<close>
  bytes the buffer points to (the empty list is \<open>NULL\<close>), of which the first \<open>sb_n\<close> are the
  string. Functions that store into the block return an option: \<open>None\<close> is a store outside the
  block or a failed \<open>aem_assert\<close>, which aborts. The theory shows that writers never end that
  way, and what they append; \<open>emits\<close> is the form in which the users of a buffer need that.
\<close>

datatype aem_stringbuf_storage = AEM_STRINGBUF_STORAGE_HEAP | AEM_STRINGBUF_STORAGE_UNOWNED

record stringbuf =
  sb_s :: "u8 list"
  sb_n :: nat
  sb_maxn :: nat
  sb_storage :: aem_stringbuf_storage
  sb_bad :: bool
  sb_fixed :: bool

definition AEM_STRINGBUF_EMPTY :: stringbuf where
  "AEM_STRINGBUF_EMPTY = \<lparr>sb_s = [], sb_n = 0, sb_maxn = 0,
     sb_storage = AEM_STRINGBUF_STORAGE_HEAP, sb_bad = False, sb_fixed = False\<rparr>"

text \<open>A buffer over \<open>blk\<close>, memory on the caller's stack.\<close>
definition AEM_STRINGBUF_ALLOCA :: "u8 list \<Rightarrow> stringbuf" where
  "AEM_STRINGBUF_ALLOCA blk = \<lparr>sb_s = blk, sb_n = 0, sb_maxn = length blk,
     sb_storage = AEM_STRINGBUF_STORAGE_UNOWNED, sb_bad = False, sb_fixed = False\<rparr>"

text \<open>\<open>memcpy\<close> (or \<open>memmove\<close>, or a loop of stores) of the bytes \<open>w\<close> to offset \<open>i\<close> of the block.\<close>
definition sb_store :: "stringbuf \<Rightarrow> nat \<Rightarrow> u8 list \<Rightarrow> stringbuf option" where
  "sb_store b i w =
     (if i + length w \<le> length (sb_s b)
      then Some (b\<lparr>sb_s := take i (sb_s b) @ w @ drop (i + length w) (sb_s b)\<rparr>)
      else None)"

section \<open>Storage\<close>

definition aem_stringbuf_grow :: "u8 allocator \<Rightarrow> stringbuf \<Rightarrow> nat \<Rightarrow> stringbuf option" where
  "aem_stringbuf_grow al b maxn_new =
     (if sb_bad b then Some b
      else if \<not> sb_n b + 1 \<le> maxn_new then None
      else if sb_fixed b then Some (b\<lparr>sb_bad := True\<rparr>)
      else if sb_storage b = AEM_STRINGBUF_STORAGE_HEAP then
        (case aem_array_realloc_impl al 1 (sb_s b) maxn_new of
           (rc, s') \<Rightarrow>
             if rc \<noteq> 0 then Some (b\<lparr>sb_s := s', sb_bad := True\<rparr>)
             else Some (b\<lparr>sb_s := s', sb_maxn := maxn_new\<rparr>))
      else if \<not> alloc_granted al maxn_new then Some (b\<lparr>sb_bad := True\<rparr>)
      else Some (b\<lparr>sb_s := realloc_content al (take (sb_n b) (sb_s b)) maxn_new,
        sb_storage := AEM_STRINGBUF_STORAGE_HEAP, sb_maxn := maxn_new\<rparr>))"

definition aem_stringbuf_reserve_total ::
  "u8 allocator \<Rightarrow> stringbuf \<Rightarrow> nat \<Rightarrow> (int \<times> stringbuf) option" where
  "aem_stringbuf_reserve_total al b maxn =
     (let maxn1 = sz (maxn + 1) in
      if sb_storage b = AEM_STRINGBUF_STORAGE_HEAP then
        (case aem_array_grow_impl al 1 (sb_s b) (sb_maxn b) maxn1 of
           (rc, s', m') \<Rightarrow>
             Some (rc, b\<lparr>sb_s := s', sb_maxn := m', sb_bad := (sb_bad b \<or> rc < 0)\<rparr>))
      else if sb_maxn b < maxn1 then
        do { b1 \<leftarrow> aem_stringbuf_grow al b (sz (maxn1 * 2)); Some (1, b1) }
      else Some (0, b))"

definition aem_stringbuf_reserve ::
  "u8 allocator \<Rightarrow> stringbuf \<Rightarrow> nat \<Rightarrow> (int \<times> stringbuf) option" where
  "aem_stringbuf_reserve al b len = aem_stringbuf_reserve_total al b (sz (sb_n b + len))"

definition aem_stringbuf_init :: stringbuf where
  "aem_stringbuf_init = AEM_STRINGBUF_EMPTY"

definition aem_stringbuf_init_prealloc :: "u8 allocator \<Rightarrow> nat \<Rightarrow> stringbuf option" where
  "aem_stringbuf_init_prealloc al maxn =
     (if maxn \<noteq> 0 then map_option snd (aem_stringbuf_reserve_total al AEM_STRINGBUF_EMPTY maxn)
      else Some AEM_STRINGBUF_EMPTY)"

definition aem_stringbuf_dtor :: "stringbuf \<Rightarrow> stringbuf" where
  "aem_stringbuf_dtor b = AEM_STRINGBUF_EMPTY"

definition aem_stringbuf_reset :: "stringbuf \<Rightarrow> stringbuf" where
  "aem_stringbuf_reset b = b\<lparr>sb_n := 0, sb_bad := False\<rparr>"

definition aem_stringbuf_available :: "stringbuf \<Rightarrow> int" where
  "aem_stringbuf_available b = c_int (int (sb_maxn b) - int (sb_n b) - 1)"

text \<open>The block that now holds the null-terminated string, or \<open>NULL\<close>.\<close>
definition aem_stringbuf_get :: "stringbuf \<Rightarrow> (u8 list ptr \<times> stringbuf) option" where
  "aem_stringbuf_get b =
     (if sb_s b = [] then Some (None, b)
      else if sb_bad b then Some (None, b)
      else do { b1 \<leftarrow> sb_store b (sb_n b) [0]; Some (Some (sb_s b1), b1) })"

definition aem_stringbuf_shrinkwrap ::
  "u8 allocator \<Rightarrow> stringbuf \<Rightarrow> (u8 list ptr \<times> stringbuf) option" where
  "aem_stringbuf_shrinkwrap al b =
     (let b1 =
        (if \<not> sb_fixed b \<and> sb_storage b = AEM_STRINGBUF_STORAGE_HEAP then
           let maxn_new = sz (sb_n b + 1) in
           case aem_array_realloc_impl al 1 (sb_s b) maxn_new of
             (rc, s') \<Rightarrow>
               if rc \<noteq> 0 then b\<lparr>sb_s := s'\<rparr> else b\<lparr>sb_s := s', sb_maxn := maxn_new\<rparr>
         else b)
      in aem_stringbuf_get b1)"

text \<open>The block handed to the caller and the length of the string in it.\<close>
definition aem_stringbuf_release :: "u8 allocator \<Rightarrow> stringbuf \<Rightarrow> (u8 list \<times> nat) option" where
  "aem_stringbuf_release al b =
     do { (p, b1) \<leftarrow> aem_stringbuf_shrinkwrap al b; Some (sb_s b1, sb_n b1) }"

definition aem_stringslice_new_str :: "nat \<Rightarrow> stringbuf \<Rightarrow> stringslice" where
  "aem_stringslice_new_str addr b = aem_stringslice_new_len addr (take (sb_n b) (sb_s b))"

section \<open>Appending\<close>

definition aem_stringbuf_putc :: "u8 allocator \<Rightarrow> stringbuf \<Rightarrow> u8 \<Rightarrow> stringbuf option" where
  "aem_stringbuf_putc al b c =
     do { (rc, b1) \<leftarrow> aem_stringbuf_reserve al b 1;
          if sb_bad b1 then Some b1
          else do { b2 \<leftarrow> sb_store b1 (sb_n b1) [c]; Some (b2\<lparr>sb_n := sb_n b2 + 1\<rparr>) } }"

definition aem_stringbuf_putn :: "u8 allocator \<Rightarrow> stringbuf \<Rightarrow> u8 list \<Rightarrow> stringbuf option" where
  "aem_stringbuf_putn al b s =
     (if length s = 0 then Some b
      else do {
        (rc, b1) \<leftarrow> aem_stringbuf_reserve al b (length s);
        if sb_bad b1 then Some b1
        else do { b2 \<leftarrow> sb_store b1 (sb_n b1) s; Some (b2\<lparr>sb_n := sb_n b2 + length s\<rparr>) } })"

definition aem_stringbuf_puts :: "u8 allocator \<Rightarrow> stringbuf \<Rightarrow> u8 list ptr \<Rightarrow> stringbuf option" where
  "aem_stringbuf_puts al b p =
     (if sb_bad b then Some b
      else case p of None \<Rightarrow> Some b | Some s \<Rightarrow> aem_stringbuf_putn al b s)"

fun puts_limit_loop :: "u8 allocator \<Rightarrow> stringbuf \<Rightarrow> nat \<Rightarrow> u8 list \<Rightarrow> stringbuf option" where
  "puts_limit_loop al b len [] = Some b"
| "puts_limit_loop al b len (c # s) =
     (if sb_n b < len then do { b1 \<leftarrow> aem_stringbuf_putc al b c; puts_limit_loop al b1 len s }
      else Some b)"

definition aem_stringbuf_puts_limit ::
  "u8 allocator \<Rightarrow> stringbuf \<Rightarrow> nat \<Rightarrow> u8 list ptr \<Rightarrow> stringbuf option" where
  "aem_stringbuf_puts_limit al b len p =
     (case p of None \<Rightarrow> Some b
      | Some s \<Rightarrow> if sb_bad b then Some b else puts_limit_loop al b len s)"

definition aem_stringbuf_append :: "u8 allocator \<Rightarrow> stringbuf \<Rightarrow> stringbuf \<Rightarrow> stringbuf option" where
  "aem_stringbuf_append al b b2 = aem_stringbuf_putn al b (take (sb_n b2) (sb_s b2))"

definition aem_stringbuf_putss :: "u8 allocator \<Rightarrow> stringbuf \<Rightarrow> stringslice \<Rightarrow> stringbuf option" where
  "aem_stringbuf_putss al b sl = aem_stringbuf_putn al b (ss_bytes sl)"

definition aem_stringbuf_putint_digits :: "u8 list" where
  "aem_stringbuf_putint_digits =
     cstr ''0123456789abcdefghijklmnopqrstuvwxyzABCDEFGHIJKLMNOPQRSTUVWXYZ''"

definition aem_stringbuf_puthex :: "u8 allocator \<Rightarrow> stringbuf \<Rightarrow> u8 \<Rightarrow> stringbuf option" where
  "aem_stringbuf_puthex al b byte =
     do { b1 \<leftarrow> aem_stringbuf_putc al b (aem_stringbuf_putint_digits ! unat (drop_bit 4 byte AND 15));
          aem_stringbuf_putc al b1 (aem_stringbuf_putint_digits ! unat (byte AND 15)) }"

text \<open>C's division and remainder truncate towards zero. \<open>None\<close> also covers what C leaves
  undefined here: negating \<open>INT_MIN\<close>, a zero base, and a digit outside the table. The inner
  call passes its arguments in the order the code has them.\<close>

partial_function (option) aem_stringbuf_putint ::
  "u8 allocator \<Rightarrow> stringbuf \<Rightarrow> int \<Rightarrow> int \<Rightarrow> stringbuf option" where
  "aem_stringbuf_putint al b base num =
     do { (b1, num1) \<leftarrow>
            (if num < 0 then do { b1 \<leftarrow> aem_stringbuf_putc al b 45; Some (b1, - num) }
             else Some (b, num));
          (if base = 0 \<or> num1 = 2 ^ 31 then None
           else
             let top = sgn base * (num1 div \<bar>base\<bar>) in
             do { b2 \<leftarrow> (if 0 < top then aem_stringbuf_putint al b1 top base else Some b1);
                  let digit = nat (num1 mod \<bar>base\<bar>) in
                  if digit < length aem_stringbuf_putint_digits
                  then aem_stringbuf_putc al b2 (aem_stringbuf_putint_digits ! digit)
                  else None }) }"

declare aem_stringbuf_putint.simps [code]

section \<open>Formatted text, padding, random access\<close>

text \<open>\<open>vsnprintf\<close> at the end of the string, for the formatted text \<open>t\<close>: it stores as much of
  the text as fits in \<open>available + 1\<close> bytes with a terminator, and returns the length of all
  of it.\<close>
definition aem_stringbuf_vprintf_try :: "stringbuf \<Rightarrow> u8 list \<Rightarrow> (int \<times> stringbuf) option" where
  "aem_stringbuf_vprintf_try b t =
     (let room = c_size (aem_stringbuf_available b + 1) in
      if room = 0 then Some (c_int (int (length t)), b)
      else do { b1 \<leftarrow> sb_store b (sb_n b) (take (room - 1) t @ [0]);
                Some (c_int (int (length t)), b1) })"

definition aem_stringbuf_vprintf ::
  "u8 allocator \<Rightarrow> stringbuf \<Rightarrow> u8 list ptr \<Rightarrow> stringbuf option" where
  "aem_stringbuf_vprintf al b fmt =
     (if sb_bad b then Some b
      else case fmt of
        None \<Rightarrow> Some b
      | Some t \<Rightarrow> do {
          (len, b1) \<leftarrow> aem_stringbuf_vprintf_try b t;
          (len', b2) \<leftarrow>
            (if aem_stringbuf_available b1 < len then do {
               (rc, b2) \<leftarrow> aem_stringbuf_reserve al b1 (c_size (len + 2));
               (len2, b3) \<leftarrow> aem_stringbuf_vprintf_try b2 t;
               Some (if aem_stringbuf_available b3 < len2 then aem_stringbuf_available b3 else len2, b3) }
             else Some (len, b1));
          Some (b2\<lparr>sb_n := sz (sb_n b2 + c_size len')\<rparr>) })"

lemma putc_progress:
  "aem_stringbuf_putc al b c = Some b' \<Longrightarrow> sb_bad b' \<or> sb_n b' = Suc (sb_n b)"
  by (auto simp: aem_stringbuf_putc_def aem_stringbuf_reserve_def aem_stringbuf_reserve_total_def
      aem_stringbuf_grow_def sb_store_def Let_def bind_eq_Some_conv
      split: prod.splits if_splits option.splits)

function pad_loop :: "u8 allocator \<Rightarrow> stringbuf \<Rightarrow> nat \<Rightarrow> u8 \<Rightarrow> stringbuf option" where
  "pad_loop al b len c =
     (if sb_n b < len \<and> \<not> sb_bad b
      then do { b1 \<leftarrow> aem_stringbuf_putc al b c; pad_loop al b1 len c }
      else Some b)"
  by pat_completeness auto
termination
  by (relation "measures [\<lambda>(al, b, len, c). if sb_bad b then 0 else 1, \<lambda>(al, b, len, c). len - sb_n b]")
    (auto dest: putc_progress)

declare pad_loop.simps [simp del]

definition aem_stringbuf_pad :: "u8 allocator \<Rightarrow> stringbuf \<Rightarrow> nat \<Rightarrow> u8 \<Rightarrow> stringbuf option" where
  "aem_stringbuf_pad al b len c =
     do { (rc, b1) \<leftarrow> aem_stringbuf_reserve al b len; pad_loop al b1 len c }"

definition aem_stringbuf_index :: "stringbuf \<Rightarrow> nat \<Rightarrow> int" where
  "aem_stringbuf_index b i = (if sb_n b \<le> i then -1 else schar (sb_s b ! i))"

definition aem_stringbuf_assign ::
  "u8 allocator \<Rightarrow> stringbuf \<Rightarrow> nat \<Rightarrow> u8 \<Rightarrow> u8 \<Rightarrow> stringbuf option" where
  "aem_stringbuf_assign al b i pad c =
     (let n_new = sz (i + 1) in
      do { b1 \<leftarrow>
             (if sb_n b < n_new then do {
                (rc, b1) \<leftarrow> aem_stringbuf_reserve_total al b n_new;
                b2 \<leftarrow> sb_store b1 (sb_n b1) (replicate (min n_new (sb_maxn b1) - sb_n b1) pad);
                Some (b2\<lparr>sb_n := n_new\<rparr>) }
              else Some b);
           if sb_maxn b1 \<le> i then Some b1 else sb_store b1 i [c] })"

function aem_stringbuf_rtrim :: "stringbuf \<Rightarrow> stringbuf" where
  "aem_stringbuf_rtrim b =
     (if sb_n b \<noteq> 0 \<and> char_isspace (sb_s b ! (sb_n b - 1))
      then aem_stringbuf_rtrim (b\<lparr>sb_n := sb_n b - 1\<rparr>)
      else b)"
  by pat_completeness auto
termination by (relation "measure sb_n") auto

declare aem_stringbuf_rtrim.simps [simp del]

definition aem_stringbuf_pop_front :: "stringbuf \<Rightarrow> nat \<Rightarrow> stringbuf option" where
  "aem_stringbuf_pop_front b n =
     (if sb_n b \<le> n then Some (aem_stringbuf_reset b)
      else do { b1 \<leftarrow> sb_store b 0 (take (sb_n b - n) (drop n (sb_s b)));
                Some (b1\<lparr>sb_n := sb_n b1 - n\<rparr>) })"

section \<open>Reading from files\<close>

text \<open>What \<open>fread\<close> delivers: at most the \<open>n\<close> bytes asked for. The reservation's result is not
  looked at.\<close>
definition aem_stringbuf_file_read ::
  "u8 allocator \<Rightarrow> stringbuf \<Rightarrow> nat \<Rightarrow> u8 list \<Rightarrow> (nat \<times> stringbuf) option" where
  "aem_stringbuf_file_read al b n got =
     do { (rc, b1) \<leftarrow> aem_stringbuf_reserve al b n;
          b2 \<leftarrow> sb_store b1 (sb_n b1) (take n got);
          Some (length (take n got), b2\<lparr>sb_n := sb_n b2 + length (take n got)\<rparr>) }"

datatype read_result = Read_Data "u8 list" | Read_Failed (read_eintr: bool)

text \<open>\<open>None\<close> in the result is the \<open>-1\<close> of a failed \<open>read\<close>.\<close>
definition aem_stringbuf_fd_read ::
  "u8 allocator \<Rightarrow> stringbuf \<Rightarrow> nat \<Rightarrow> read_result \<Rightarrow> (int \<times> stringbuf) option" where
  "aem_stringbuf_fd_read al b n r =
     do { (rc, b1) \<leftarrow> aem_stringbuf_reserve al b n;
          case r of
            Read_Failed e \<Rightarrow> Some (-1, b1)
          | Read_Data got \<Rightarrow>
              if got = [] then Some (0, b1)
              else do { b2 \<leftarrow> sb_store b1 (sb_n b1) (take n got);
                        Some (int (length (take n got)), b2\<lparr>sb_n := sb_n b2 + length (take n got)\<rparr>) } }"

text \<open>The loop over the results of successive calls to \<open>read\<close>; it waits for ever when they run
  out (\<open>None\<close>). The code after the loop has no way to its last two lines: the loop ends with a
  count that is zero or negative.\<close>
fun aem_stringbuf_fd_read_all ::
  "u8 allocator \<Rightarrow> stringbuf \<Rightarrow> read_result list \<Rightarrow> (int \<times> stringbuf) option" where
  "aem_stringbuf_fd_read_all al b [] = None"
| "aem_stringbuf_fd_read_all al b (r # rs) =
     do { (got, b1) \<leftarrow> aem_stringbuf_fd_read al b 4096 r;
          if 0 < got \<or> got < 0 \<and> (\<exists>e. r = Read_Failed e \<and> e) then aem_stringbuf_fd_read_all al b1 rs
          else if got = 0 then Some (1, b1)
          else Some (-1, b1) }"

section \<open>The invariant\<close>

text \<open>The block has the recorded size and room for a terminator, unless it is \<open>NULL\<close>; memory on
  the caller's stack is far from the end of the address space.\<close>
definition sb_inv :: "stringbuf \<Rightarrow> bool" where
  "sb_inv b \<longleftrightarrow> length (sb_s b) = sb_maxn b \<and> sb_maxn b \<le> PTRDIFF_MAX \<and>
     (sb_n b < sb_maxn b \<or> sb_n b = 0) \<and>
     (sb_storage b = AEM_STRINGBUF_STORAGE_UNOWNED \<longrightarrow> sb_maxn b \<le> 2 ^ 61)"

text \<open>The string a buffer holds.\<close>
definition sb_out :: "stringbuf \<Rightarrow> u8 list" where
  "sb_out b = take (sb_n b) (sb_s b)"

lemma sb_inv_n: "sb_inv b \<Longrightarrow> sb_n b \<le> sb_maxn b" "sb_inv b \<Longrightarrow> sb_n b < 2 ^ 63"
  by (auto simp: sb_inv_def PTRDIFF_MAX_def)

lemma length_sb_out [simp]: "sb_inv b \<Longrightarrow> length (sb_out b) = sb_n b"
  using sb_inv_n [of b] by (simp add: sb_out_def sb_inv_def min_def)

lemma sb_empty [simp]: "sb_inv AEM_STRINGBUF_EMPTY" "sb_out AEM_STRINGBUF_EMPTY = []"
    "\<not> sb_bad AEM_STRINGBUF_EMPTY"
  by (simp_all add: sb_inv_def sb_out_def AEM_STRINGBUF_EMPTY_def)

lemma sb_alloca [simp]: "length blk \<le> 2 ^ 61 \<Longrightarrow> sb_inv (AEM_STRINGBUF_ALLOCA blk)"
  by (simp add: sb_inv_def AEM_STRINGBUF_ALLOCA_def PTRDIFF_MAX_def)

lemma storage_cases: "st \<noteq> AEM_STRINGBUF_STORAGE_HEAP \<longleftrightarrow> st = AEM_STRINGBUF_STORAGE_UNOWNED"
  by (cases st) simp_all

text \<open>What a reservation does: it neither stores outside the block nor aborts, it keeps the
  string, and unless the buffer is now bad there is room for the bytes and a terminator.\<close>

lemma sb_reserve_total_spec:
  assumes inv: "sb_inv b" and lo: "sb_n b \<le> m" and hi: "m \<le> 2 ^ 63 + 2 ^ 61"
    and un: "sb_storage b = AEM_STRINGBUF_STORAGE_UNOWNED \<Longrightarrow> m \<le> 2 ^ 62"
  shows "\<exists>rc b'. aem_stringbuf_reserve_total al b m = Some (rc, b') \<and> sb_inv b' \<and>
    sb_n b' = sb_n b \<and> sb_out b' = sb_out b \<and> (sb_bad b \<longrightarrow> sb_bad b') \<and>
    (sb_bad b' \<or> m < sb_maxn b')"
proof (cases "sb_storage b = AEM_STRINGBUF_STORAGE_HEAP")
  case True
  obtain rc s' m' where g: "aem_array_grow_impl al 1 (sb_s b) (sb_maxn b) (m + 1) = (rc, s', m')"
    by (metis prod_cases3)
  let ?b = "b\<lparr>sb_s := s', sb_maxn := m', sb_bad := (sb_bad b \<or> rc < 0)\<rparr>"
  have r: "aem_stringbuf_reserve_total al b m = Some (rc, ?b)"
    using True hi g by (simp add: aem_stringbuf_reserve_total_def)
  have "sb_inv ?b \<and> sb_out ?b = sb_out b \<and> (rc < 0 \<or> m < m')"
    using g
  proof (rule grow_cases)
    show "(1 :: nat) \<noteq> 0" "length (sb_s b) = sb_maxn b" using inv by (simp_all add: sb_inv_def)
  next
    assume *: "length s' = m'" "s' = realloc_content al (sb_s b) m'" "m' * 1 \<le> PTRDIFF_MAX"
      "m' = sz (sb_maxn b * 2) \<and> m + 1 \<le> m' \<or> m' = sz (m + 1 + 8)"
    then have "m + 1 \<le> m'" using hi by auto
    then show ?thesis using * inv lo True sb_inv_n [OF inv]
      by (auto simp: sb_inv_def sb_out_def take_realloc_content)
  qed (use inv in \<open>auto simp: sb_inv_def sb_out_def\<close>)
  then show ?thesis using r by auto
next
  case False
  then have U: "sb_storage b = AEM_STRINGBUF_STORAGE_UNOWNED" by (simp add: storage_cases)
  note m = un [OF U]
  show ?thesis
  proof (cases "sb_maxn b < m + 1")
    case False
    then show ?thesis using U m inv by (auto simp: aem_stringbuf_reserve_total_def)
  next
    case True
    let ?h = "b\<lparr>sb_s := realloc_content al (take (sb_n b) (sb_s b)) ((m + 1) * 2),
      sb_storage := AEM_STRINGBUF_STORAGE_HEAP, sb_maxn := (m + 1) * 2\<rparr>"
    have "alloc_granted al ((m + 1) * 2) \<Longrightarrow> sb_inv ?h \<and> sb_out ?h = sb_out b"
      using inv lo by (auto simp: sb_inv_def sb_out_def alloc_granted_def take_realloc_content)
    moreover have "sb_inv (b\<lparr>sb_bad := True\<rparr>) \<and> sb_out (b\<lparr>sb_bad := True\<rparr>) = sb_out b"
      using inv by (simp add: sb_inv_def sb_out_def)
    ultimately show ?thesis using U True m lo inv
      by (simp add: aem_stringbuf_reserve_total_def aem_stringbuf_grow_def)
  qed
qed

lemma sb_reserve_spec:
  assumes inv: "sb_inv b" and len: "len \<le> 2 ^ 61"
  shows "\<exists>rc b'. aem_stringbuf_reserve al b len = Some (rc, b') \<and> sb_inv b' \<and>
    sb_n b' = sb_n b \<and> sb_out b' = sb_out b \<and> (sb_bad b \<longrightarrow> sb_bad b') \<and>
    (sb_bad b' \<or> sb_n b + len < sb_maxn b')"
proof -
  have "sb_storage b = AEM_STRINGBUF_STORAGE_UNOWNED \<Longrightarrow> sb_n b + len \<le> 2 ^ 62"
    using inv len by (auto simp: sb_inv_def)
  then show ?thesis
    using sb_reserve_total_spec [OF inv, of "sb_n b + len" al] len sb_inv_n(2) [OF inv]
    by (simp add: aem_stringbuf_reserve_def)
qed

section \<open>Writers\<close>

lemma sb_store_append:
  assumes "sb_inv b" "sb_n b + length w < sb_maxn b"
  shows "\<exists>b'. sb_store b (sb_n b) w = Some b' \<and> sb_inv (b'\<lparr>sb_n := sb_n b' + length w\<rparr>) \<and>
    sb_out (b'\<lparr>sb_n := sb_n b' + length w\<rparr>) = sb_out b @ w \<and> sb_bad b' = sb_bad b \<and>
    sb_maxn b' = sb_maxn b \<and> sb_n b' = sb_n b"
  using assms by (simp add: sb_store_def sb_inv_def sb_out_def min_def)

text \<open>The contract of a writer \<open>f\<close> that appends \<open>w\<close>: it returns, keeps the invariant, leaves a
  buffer that was bad alone, appends no more than \<open>w\<close>, and less than that only if the buffer
  is bad afterwards, which it is not if it was good and \<open>w\<close> fits in its capacity.\<close>

definition emits ::
  "('b \<Rightarrow> bool) \<Rightarrow> ('b \<Rightarrow> bool) \<Rightarrow> ('b \<Rightarrow> 'c list) \<Rightarrow> ('b \<Rightarrow> nat) \<Rightarrow>
   ('b \<Rightarrow> 'b option) \<Rightarrow> 'c list \<Rightarrow> bool" where
  "emits I bad out cap f w \<longleftrightarrow> (\<forall>b. I b \<longrightarrow>
     (\<exists>b' k. f b = Some b' \<and> I b' \<and> (bad b \<longrightarrow> bad b' \<and> k = 0) \<and> k \<le> length w \<and>
        out b' = out b @ take k w \<and> (\<not> bad b' \<longrightarrow> k = length w) \<and>
        (\<not> bad b \<and> length (out b) + length w < cap b \<longrightarrow> \<not> bad b' \<and> cap b' = cap b)))"

lemma emitsD:
  assumes "emits I bad out cap f w" "I b"
  obtains b' k where "f b = Some b'" "I b'" "bad b \<Longrightarrow> bad b'" "k \<le> length w"
    "out b' = out b @ take k w" "\<not> bad b' \<Longrightarrow> k = length w"
    "bad b \<Longrightarrow> k = 0"
    "\<not> bad b \<Longrightarrow> length (out b) + length w < cap b \<Longrightarrow> \<not> bad b' \<and> cap b' = cap b"
  using assms unfolding emits_def by metis

text \<open>A sink for the items its \<open>put\<close> takes one at a time, which may become bad.\<close>

locale sink =
  fixes inv :: "'b \<Rightarrow> bool" and bad :: "'b \<Rightarrow> bool" and out :: "'b \<Rightarrow> 'c list"
    and cap :: "'b \<Rightarrow> nat" and put :: "'c \<Rightarrow> 'b \<Rightarrow> 'b option"
  assumes put_emits: "emits inv bad out cap (put c) [c]"
begin

lemma emits_nil: "emits inv bad out cap Some []"
  by (simp add: emits_def)

lemma emits_then:
  assumes f: "emits inv bad out cap f v" and g: "emits inv bad out cap g w"
  shows "emits inv bad out cap (\<lambda>b. Option.bind (f b) g) (v @ w)"
  unfolding emits_def
proof (intro allI impI)
  fix b assume "inv b"
  with f obtain b1 k1 where 1: "f b = Some b1" "inv b1" "bad b \<Longrightarrow> bad b1" "k1 \<le> length v"
    "out b1 = out b @ take k1 v" "\<not> bad b1 \<Longrightarrow> k1 = length v" "bad b \<Longrightarrow> k1 = 0"
    "\<not> bad b \<Longrightarrow> length (out b) + length v < cap b \<Longrightarrow> \<not> bad b1 \<and> cap b1 = cap b"
    by (rule emitsD) blast
  from g 1(2) obtain b2 k2 where 2: "g b1 = Some b2" "inv b2" "bad b1 \<Longrightarrow> bad b2" "k2 \<le> length w"
    "out b2 = out b1 @ take k2 w" "\<not> bad b2 \<Longrightarrow> k2 = length w" "bad b1 \<Longrightarrow> k2 = 0"
    "\<not> bad b1 \<Longrightarrow> length (out b1) + length w < cap b1 \<Longrightarrow> \<not> bad b2 \<and> cap b2 = cap b1"
    by (rule emitsD) blast
  have "out b2 = out b @ take (k1 + k2) (v @ w)"
    using 1(4-7) 2(5,7) by (cases "bad b1") simp_all
  moreover have "\<not> bad b2 \<and> cap b2 = cap b" if "\<not> bad b" "length (out b) + length (v @ w) < cap b"
    using that 1 2 by simp
  ultimately show "\<exists>b' k. Option.bind (f b) g = Some b' \<and> inv b' \<and> (bad b \<longrightarrow> bad b' \<and> k = 0) \<and>
      k \<le> length (v @ w) \<and> out b' = out b @ take k (v @ w) \<and> (\<not> bad b' \<longrightarrow> k = length (v @ w)) \<and>
      (\<not> bad b \<and> length (out b) + length (v @ w) < cap b \<longrightarrow> \<not> bad b' \<and> cap b' = cap b)"
    using 1 2 by (intro exI [of _ b2] exI [of _ "k1 + k2"]) auto
qed

lemma emits_put_then:
  "emits inv bad out cap g w \<Longrightarrow> emits inv bad out cap (\<lambda>b. Option.bind (put c b) g) (c # w)"
  using emits_then [OF put_emits, of g w c] by simp

fun put_all :: "'c list \<Rightarrow> 'b \<Rightarrow> 'b option" where
  "put_all [] b = Some b"
| "put_all (c # cs) b = Option.bind (put c b) (put_all cs)"

lemma put_all_emits: "emits inv bad out cap (put_all cs) cs"
proof (induction cs)
  case Nil
  then show ?case using emits_nil by (simp add: emits_def)
next
  case (Cons c cs)
  have "put_all (c # cs) = (\<lambda>b. Option.bind (put c b) (put_all cs))" by (rule ext) simp
  then show ?case using emits_put_then [OF Cons] by simp
qed

lemma emits_total: "emits inv bad out cap f w \<Longrightarrow> inv b \<Longrightarrow> \<exists>b'. f b = Some b'"
  by (auto elim: emitsD)

lemma emits_result:
  assumes "emits inv bad out cap f w" "inv b" "f b = Some b'"
  shows "inv b'" "bad b \<Longrightarrow> bad b'" "\<not> bad b' \<Longrightarrow> out b' = out b @ w"
    "\<not> bad b \<Longrightarrow> length (out b) + length w < cap b \<Longrightarrow> \<not> bad b'"
  using assms by (auto elim: emitsD)

end

abbreviation sb_emits :: "(stringbuf \<Rightarrow> stringbuf option) \<Rightarrow> u8 list \<Rightarrow> bool" where
  "sb_emits \<equiv> emits sb_inv sb_bad sb_out sb_maxn"

lemma reserve_room:
  assumes "sb_inv b" "sb_n b + len < sb_maxn b"
  shows "aem_stringbuf_reserve al b len = Some (0, b)"
proof -
  have "sb_n b + len + 1 < 2 ^ 64" using assms by (auto simp: sb_inv_def PTRDIFF_MAX_def)
  then show ?thesis using assms
    by (cases "sb_storage b")
      (auto simp: aem_stringbuf_reserve_def aem_stringbuf_reserve_total_def aem_array_grow_impl_def)
qed

lemma reserve_append_emits:
  assumes len: "length w \<le> 2 ^ 61"
  shows "sb_emits (\<lambda>b. do {
      (rc, b1) \<leftarrow> aem_stringbuf_reserve al b (length w);
      if sb_bad b1 then Some b1
      else do { b2 \<leftarrow> sb_store b1 (sb_n b1) w; Some (b2\<lparr>sb_n := sb_n b2 + length w\<rparr>) } }) w"
  unfolding emits_def
proof (intro allI impI)
  fix b :: stringbuf assume inv: "sb_inv b"
  let ?f = "\<lambda>b. do {
      (rc, b1) \<leftarrow> aem_stringbuf_reserve al b (length w);
      if sb_bad b1 then Some b1
      else do { b2 \<leftarrow> sb_store b1 (sb_n b1) w; Some (b2\<lparr>sb_n := sb_n b2 + length w\<rparr>) } }"
  obtain rc b1 where r: "aem_stringbuf_reserve al b (length w) = Some (rc, b1)" "sb_inv b1"
    "sb_n b1 = sb_n b" "sb_out b1 = sb_out b" "sb_bad b \<Longrightarrow> sb_bad b1"
    "sb_bad b1 \<or> sb_n b + length w < sb_maxn b1"
    using sb_reserve_spec [OF inv len, of al] by blast
  have cap: "b1 = b" if "length (sb_out b) + length w < sb_maxn b"
    using reserve_room [OF inv, of "length w" al] that r(1) length_sb_out [OF inv] by simp
  show "\<exists>b' k. ?f b = Some b' \<and> sb_inv b' \<and> (sb_bad b \<longrightarrow> sb_bad b' \<and> k = 0) \<and> k \<le> length w \<and>
        sb_out b' = sb_out b @ take k w \<and> (\<not> sb_bad b' \<longrightarrow> k = length w) \<and>
        (\<not> sb_bad b \<and> length (sb_out b) + length w < sb_maxn b \<longrightarrow> \<not> sb_bad b' \<and> sb_maxn b' = sb_maxn b)"
  proof (cases "sb_bad b1")
    case True
    then show ?thesis using r cap by (intro exI [of _ b1] exI [of _ 0]) auto
  next
    case False
    then have room: "sb_n b1 + length w < sb_maxn b1" using r by simp
    from sb_store_append [OF r(2) room] obtain b2 where
      s: "sb_store b1 (sb_n b1) w = Some b2" "sb_inv (b2\<lparr>sb_n := sb_n b2 + length w\<rparr>)"
      "sb_out (b2\<lparr>sb_n := sb_n b2 + length w\<rparr>) = sb_out b1 @ w" "sb_bad b2 = sb_bad b1"
      "sb_maxn b2 = sb_maxn b1" by blast
    show ?thesis
      by (rule exI [of _ "b2\<lparr>sb_n := sb_n b2 + length w\<rparr>"], rule exI [of _ "length w"])
        (use r s False cap in auto)
  qed
qed

lemma putc_emits: "sb_emits (\<lambda>b. aem_stringbuf_putc al b c) [c]"
proof -
  have one: "length [c] = 1" by simp
  show ?thesis
    unfolding aem_stringbuf_putc_def using reserve_append_emits [of "[c]" al, unfolded one] by simp
qed

interpretation sb: sink sb_inv sb_bad sb_out sb_maxn "\<lambda>c b. aem_stringbuf_putc al b c" for al
  by unfold_locales (rule putc_emits)

lemma putn_emits:
  assumes "length w \<le> 2 ^ 61"
  shows "sb_emits (\<lambda>b. aem_stringbuf_putn al b w) w"
proof (cases "w = []")
  case True
  then show ?thesis using sb.emits_nil by (simp add: aem_stringbuf_putn_def emits_def)
next
  case False
  then show ?thesis using reserve_append_emits [OF assms] by (simp add: aem_stringbuf_putn_def)
qed

lemma puts_emits:
  assumes "length w \<le> 2 ^ 61"
  shows "sb_emits (\<lambda>b. aem_stringbuf_puts al b (Some w)) w"
  unfolding emits_def
proof (intro allI impI)
  fix b :: stringbuf assume inv: "sb_inv b"
  show "\<exists>b' k. aem_stringbuf_puts al b (Some w) = Some b' \<and> sb_inv b' \<and>
      (sb_bad b \<longrightarrow> sb_bad b' \<and> k = 0) \<and> k \<le> length w \<and> sb_out b' = sb_out b @ take k w \<and>
      (\<not> sb_bad b' \<longrightarrow> k = length w) \<and>
      (\<not> sb_bad b \<and> length (sb_out b) + length w < sb_maxn b \<longrightarrow> \<not> sb_bad b' \<and> sb_maxn b' = sb_maxn b)"
  proof (cases "sb_bad b")
    case True
    then show ?thesis using inv
      by (intro exI [of _ b] exI [of _ 0]) (simp add: aem_stringbuf_puts_def)
  next
    case False
    then show ?thesis
      using putn_emits [OF assms, unfolded emits_def, rule_format, OF inv]
      by (simp add: aem_stringbuf_puts_def)
  qed
qed

lemma putss_emits:
  "length (ss_bytes sl) \<le> 2 ^ 61 \<Longrightarrow> sb_emits (\<lambda>b. aem_stringbuf_putss al b sl) (ss_bytes sl)"
  by (simp add: aem_stringbuf_putss_def putn_emits)

lemma append_emits:
  assumes "length (sb_out b2) \<le> 2 ^ 61"
  shows "sb_emits (\<lambda>b. aem_stringbuf_append al b b2) (sb_out b2)"
  using putn_emits [OF assms] by (simp add: aem_stringbuf_append_def sb_out_def)

lemma puthex_emits:
  "sb_emits (\<lambda>b. aem_stringbuf_puthex al b c)
     [aem_stringbuf_putint_digits ! unat (drop_bit 4 c AND 15),
      aem_stringbuf_putint_digits ! unat (c AND 15)]"
  unfolding aem_stringbuf_puthex_def by (intro sb.emits_put_then putc_emits)

text \<open>A good buffer with room for \<open>n\<close> bytes.\<close>
definition sb_room :: "nat \<Rightarrow> stringbuf" where
  "sb_room n = AEM_STRINGBUF_EMPTY\<lparr>sb_s := replicate n 0, sb_maxn := n\<rparr>"

lemma sb_room [simp]:
  "n < 2 ^ 32 \<Longrightarrow> sb_inv (sb_room n)" "sb_out (sb_room n) = []" "sb_maxn (sb_room n) = n" "\<not> sb_bad (sb_room n)"
  by (simp_all add: sb_room_def sb_inv_def sb_out_def AEM_STRINGBUF_EMPTY_def PTRDIFF_MAX_def)

section \<open>When a buffer cannot become bad\<close>

definition sb_free :: "u8 allocator \<Rightarrow> stringbuf \<Rightarrow> bool" where
  "sb_free al b \<longleftrightarrow> (\<forall>n. al_ok al n) \<and> \<not> sb_bad b \<and>
     (sb_fixed b \<longrightarrow> sb_storage b = AEM_STRINGBUF_STORAGE_HEAP)"

lemma sb_reserve_granted:
  assumes inv: "sb_inv b" and free: "sb_free al b" and small: "sb_n b + len \<le> 2 ^ 60"
    and res: "aem_stringbuf_reserve al b len = Some (rc, b')"
  shows "sb_free al b'"
proof (cases "sb_storage b = AEM_STRINGBUF_STORAGE_HEAP")
  case True
  obtain rc s' m' where g: "aem_array_grow_impl al 1 (sb_s b) (sb_maxn b) (sb_n b + len + 1) = (rc, s', m')"
    by (metis prod_cases3)
  have b': "b' = b\<lparr>sb_s := s', sb_maxn := m', sb_bad := (sb_bad b \<or> rc < 0)\<rparr>"
    using True small res g by (auto simp: aem_stringbuf_reserve_def aem_stringbuf_reserve_total_def)
  have "\<not> rc < 0"
  proof (cases "sb_maxn b < sb_n b + len + 1")
    case False
    then show ?thesis using g by (auto simp: aem_array_grow_impl_def)
  next
    case True
    define an where "an = (if sz (sb_maxn b * 2) < sb_n b + len + 1 then sz (sb_n b + len + 1 + 8)
      else sz (sb_maxn b * 2))"
    have "an \<le> 2 ^ 62" "0 < an" using True small by (auto simp: an_def)
    then have "fst (aem_array_realloc_impl al 1 (sb_s b) an) = 0"
      using free by (simp add: aem_array_realloc_impl_def Let_def alloc_granted_def PTRDIFF_MAX_def
          sb_free_def)
    moreover have "rc = (if fst (aem_array_realloc_impl al 1 (sb_s b) an) < 0
        then fst (aem_array_realloc_impl al 1 (sb_s b) an) else 1)"
      using g True by (auto simp: aem_array_grow_impl_def Let_def an_def split: prod.splits if_splits)
    ultimately show ?thesis by simp
  qed
  then show ?thesis using free by (simp add: b' sb_free_def)
next
  case False
  then have U: "sb_storage b = AEM_STRINGBUF_STORAGE_UNOWNED" by (simp add: storage_cases)
  have "alloc_granted al ((sb_n b + len + 1) * 2)"
    using free small by (simp add: alloc_granted_def sb_free_def PTRDIFF_MAX_def)
  then show ?thesis using U small res free
    by (auto simp: aem_stringbuf_reserve_def aem_stringbuf_reserve_total_def aem_stringbuf_grow_def
        sb_free_def split: if_splits)
qed

lemma sb_store_fields:
  assumes "sb_store b i w = Some b'"
  shows "sb_bad b' = sb_bad b" "sb_fixed b' = sb_fixed b" "sb_storage b' = sb_storage b" "sb_n b' = sb_n b"
    "sb_maxn b' = sb_maxn b"
  using assms by (auto simp: sb_store_def split: if_splits)

lemma putn_granted:
  assumes "sb_inv b" "sb_free al b" "sb_n b + length w \<le> 2 ^ 60" "aem_stringbuf_putn al b w = Some b'"
  shows "sb_free al b'"
  using assms sb_reserve_granted [of b al "length w"]
  by (auto simp: aem_stringbuf_putn_def sb_free_def bind_eq_Some_conv sb_store_fields
      dest: sb_store_fields split: if_splits)

section \<open>The other operations\<close>

lemma get_spec:
  assumes "sb_inv b" "\<not> sb_bad b" "sb_s b \<noteq> []"
  shows "\<exists>s b'. aem_stringbuf_get b = Some (Some s, b') \<and> sb_inv b' \<and> sb_out b' = sb_out b \<and>
    sb_bad b' = sb_bad b \<and> take (sb_n b) s = sb_out b \<and> s ! sb_n b = 0"
proof -
  have lt: "sb_n b < length (sb_s b)"
    using assms(1,3) by (auto simp: sb_inv_def simp flip: length_greater_0_conv)
  then have n: "(take (sb_n b) (sb_s b) @ 0 # drop (Suc (sb_n b)) (sb_s b)) ! sb_n b = 0"
    by (simp add: nth_append)
  show ?thesis using assms lt n
    by (simp add: aem_stringbuf_get_def sb_store_def sb_inv_def sb_out_def)
qed

lemma shrinkwrap_spec:
  assumes inv: "sb_inv b" and ok: "\<not> sb_bad b" and res: "aem_stringbuf_shrinkwrap al b = Some (p, b')"
  shows "sb_inv b' \<and> sb_out b' = sb_out b \<and>
    (case p of None \<Rightarrow> sb_s b = [] | Some s \<Rightarrow> take (sb_n b) s = sb_out b \<and> s ! sb_n b = 0)"
proof -
  have n: "sz (sb_n b + 1) = sb_n b + 1" using sb_inv_n(2) [OF inv] by simp
  define b1 where "b1 =
        (if \<not> sb_fixed b \<and> sb_storage b = AEM_STRINGBUF_STORAGE_HEAP then
           case aem_array_realloc_impl al 1 (sb_s b) (sb_n b + 1) of
             (rc, s') \<Rightarrow>
               if rc \<noteq> 0 then b\<lparr>sb_s := s'\<rparr> else b\<lparr>sb_s := s', sb_maxn := sb_n b + 1\<rparr>
         else b)"
  obtain rc s' where rs: "aem_array_realloc_impl al 1 (sb_s b) (sb_n b + 1) = (rc, s')" by fastforce
  have b1_eq: "b1 = (if \<not> sb_fixed b \<and> sb_storage b = AEM_STRINGBUF_STORAGE_HEAP
      then if rc \<noteq> 0 then b\<lparr>sb_s := s'\<rparr> else b\<lparr>sb_s := s', sb_maxn := sb_n b + 1\<rparr> else b)"
    by (simp only: b1_def rs prod.case)
  have le: "sb_n b \<le> length (sb_s b)" using inv sb_inv_n(1) [OF inv] by (simp add: sb_inv_def)
  have b1: "sb_inv b1 \<and> sb_out b1 = sb_out b \<and> sb_bad b1 = sb_bad b \<and> sb_n b1 = sb_n b \<and>
      (sb_s b1 = [] \<longrightarrow> sb_s b = [])"
    using realloc_cases [OF rs] inv le
    by (auto simp: b1_eq sb_inv_def sb_out_def take_realloc_content)
  have "aem_stringbuf_get b1 = Some (p, b')"
    using res by (simp only: aem_stringbuf_shrinkwrap_def Let_def n b1_def)
  then show ?thesis
    using b1 ok get_spec [of b1] by (cases "sb_s b1 = []") (auto simp: aem_stringbuf_get_def)
qed

lemma reset_spec [simp]:
  "sb_inv b \<Longrightarrow> sb_inv (aem_stringbuf_reset b)" "sb_out (aem_stringbuf_reset b) = []"
  "\<not> sb_bad (aem_stringbuf_reset b)"
  by (auto simp: aem_stringbuf_reset_def sb_inv_def sb_out_def)

lemma pop_front_spec:
  assumes "sb_inv b"
  shows "\<exists>b'. aem_stringbuf_pop_front b n = Some b' \<and> sb_inv b' \<and> sb_out b' = drop n (sb_out b)"
proof (cases "sb_n b \<le> n")
  case True
  then show ?thesis using assms by (simp add: aem_stringbuf_pop_front_def sb_out_def [of b])
next
  case False
  then have "take (sb_n b - n) (drop n (sb_s b)) = drop n (sb_out b)" "sb_n b \<le> length (sb_s b)"
    using assms sb_inv_n(1) [OF assms] by (simp_all add: sb_out_def drop_take sb_inv_def)
  then show ?thesis using False assms
    by (auto simp: aem_stringbuf_pop_front_def sb_store_def sb_inv_def sb_out_def)
qed

lemma rtrim_spec:
  "sb_inv b \<Longrightarrow> sb_inv (aem_stringbuf_rtrim b) \<and>
   sb_out (aem_stringbuf_rtrim b) = rev (dropWhile char_isspace (rev (sb_out b)))"
proof (induction b rule: aem_stringbuf_rtrim.induct)
  case (1 b)
  have le: "sb_n b \<le> length (sb_s b)" using "1.prems" sb_inv_n(1) by (auto simp: sb_inv_def)
  show ?case
  proof (cases "sb_n b = 0")
    case True
    then show ?thesis using "1.prems"
      by (simp add: aem_stringbuf_rtrim.simps [of b] sb_out_def)
  next
    case False
    then have snoc: "sb_out b = take (sb_n b - 1) (sb_s b) @ [sb_s b ! (sb_n b - 1)]"
      using le take_Suc_conv_app_nth [of "sb_n b - 1" "sb_s b"] by (simp add: sb_out_def)
    show ?thesis
    proof (cases "char_isspace (sb_s b ! (sb_n b - 1))")
      case True
      let ?b = "b\<lparr>sb_n := sb_n b - 1\<rparr>"
      have "aem_stringbuf_rtrim b = aem_stringbuf_rtrim ?b"
        by (subst aem_stringbuf_rtrim.simps) (rule if_P, use True False in simp)
      moreover have "sb_inv ?b" using "1.prems" by (auto simp: sb_inv_def)
      moreover have "sb_out ?b = take (sb_n b - 1) (sb_s b)" by (simp add: sb_out_def)
      ultimately show ?thesis using "1.IH" False True snoc by simp
    next
      case False
      then show ?thesis using "1.prems" snoc by (simp add: aem_stringbuf_rtrim.simps [of b])
    qed
  qed
qed

lemma sb_assign_spec:
  assumes inv: "sb_inv b" and i: "i < 2 ^ 61" and res: "aem_stringbuf_assign al b i pad c = Some b'"
    and ok: "\<not> sb_bad b'"
  shows "sb_inv b' \<and> sb_out b' = (sb_out b @ replicate (Suc i - sb_n b) pad)[i := c]"
proof (cases "sb_n b < i + 1")
  case False
  then have lt: "i < sb_n b" by simp
  moreover have "sb_n b < length (sb_s b)" using lt inv by (auto simp: sb_inv_def)
  moreover have "take i (sb_s b) @ c # drop (Suc i) (sb_s b) = (sb_s b)[i := c]"
    using lt \<open>sb_n b < length (sb_s b)\<close> by (simp add: upd_conv_take_nth_drop)
  ultimately show ?thesis using res i inv
    by (auto simp: aem_stringbuf_assign_def sb_store_def sb_inv_def sb_out_def take_update_swap
        split: if_splits)
next
  case True
  obtain rc b1 where r: "aem_stringbuf_reserve_total al b (i + 1) = Some (rc, b1)" "sb_inv b1"
    "sb_n b1 = sb_n b" "sb_out b1 = sb_out b" "sb_bad b1 \<or> i + 1 < sb_maxn b1"
    using sb_reserve_total_spec [OF inv, of "i + 1" al] True i by auto
  let ?k = "min (i + 1) (sb_maxn b1) - sb_n b1"
  obtain b2 where b2: "sb_store b1 (sb_n b1) (replicate ?k pad) = Some b2"
    using res True i r(1) by (auto simp: aem_stringbuf_assign_def bind_eq_Some_conv)
  note f = sb_store_fields [OF b2]
  have "sb_bad b' = sb_bad b1"
    using res True i r(1) b2 f
    by (auto simp: aem_stringbuf_assign_def bind_eq_Some_conv dest: sb_store_fields split: if_splits)
  then have room: "i + 1 < sb_maxn b1" using ok r(5) by simp
  then have k: "?k = Suc i - sb_n b" using r(3) by simp
  have room2: "sb_n b1 + length (replicate (Suc i - sb_n b) pad) < sb_maxn b1"
    using room True r(3) by simp
  have n: "sb_n b2 + length (replicate (Suc i - sb_n b) pad) = Suc i" using f True r(3) by simp
  let ?b3 = "b2\<lparr>sb_n := Suc i\<rparr>"
  have app: "sb_inv ?b3" "sb_out ?b3 = sb_out b @ replicate (Suc i - sb_n b) pad"
    using sb_store_append [OF r(2) room2] b2 [unfolded k] r(4) n by auto
  have st: "sb_store ?b3 i [c] = Some b'"
    using res True i r(1) b2 f room by (simp add: aem_stringbuf_assign_def)
  have "take i (sb_s b2) @ c # drop (Suc i) (sb_s b2) = (sb_s b2)[i := c]"
    using st by (auto simp: sb_store_def upd_conv_take_nth_drop split: if_splits)
  then have "b' = ?b3\<lparr>sb_s := (sb_s ?b3)[i := c]\<rparr>"
    using st by (auto simp: sb_store_def split: if_splits)
  then show ?thesis using app by (simp add: sb_inv_def sb_out_def take_update_swap)
qed

lemma pad_loop_spec:
  assumes "sb_inv b"
  shows "\<exists>b'. pad_loop al b len c = Some b' \<and> sb_inv b' \<and>
    (\<exists>k \<le> len - sb_n b. sb_out b' = sb_out b @ replicate k c \<and> (\<not> sb_bad b' \<longrightarrow> k = len - sb_n b))"
  using assms
proof (induction al b len c rule: pad_loop.induct)
  case (1 al b len c)
  show ?case
  proof (cases "sb_n b < len \<and> \<not> sb_bad b")
    case False
    then show ?thesis using "1.prems"
      by (auto simp: pad_loop.simps [of al b] intro!: exI [of _ 0])
  next
    case True
    obtain b1 k1 where 1: "aem_stringbuf_putc al b c = Some b1" "sb_inv b1" "k1 \<le> length [c]"
      "sb_out b1 = sb_out b @ take k1 [c]" "\<not> sb_bad b1 \<Longrightarrow> k1 = length [c]"
      using putc_emits [of al c] "1.prems" by (rule emitsD) blast
    have n1: "sb_n b1 = sb_n b + k1" using 1(3,4) length_sb_out [OF "1.prems"] length_sb_out [OF 1(2)]
      by simp
    obtain b' k where IH: "pad_loop al b1 len c = Some b'" "sb_inv b'" "k \<le> len - sb_n b1"
      "sb_out b' = sb_out b1 @ replicate k c" "\<not> sb_bad b' \<longrightarrow> k = len - sb_n b1"
      using "1.IH" [OF True 1(1,2)] by blast
    have "take k1 [c] = replicate k1 c" using 1(3) by (cases k1) auto
    then have "sb_out b' = sb_out b @ replicate (k1 + k) c" using IH(4) 1(4) by (simp add: replicate_add)
    moreover have "pad_loop al b len c = Some b'" using True 1(1) IH(1) by (simp add: pad_loop.simps [of al b])
    moreover have "k1 + k \<le> len - sb_n b" "\<not> sb_bad b' \<longrightarrow> k1 + k = len - sb_n b"
      using IH(3,5) n1 1(3) True by auto
    ultimately show ?thesis using IH(2) by blast
  qed
qed

lemma pad_spec:
  assumes inv: "sb_inv b" and len: "len \<le> 2 ^ 61"
  shows "\<exists>b'. aem_stringbuf_pad al b len c = Some b' \<and> sb_inv b' \<and>
    (\<not> sb_bad b' \<longrightarrow> sb_out b' = sb_out b @ replicate (len - sb_n b) c)"
proof -
  obtain rc b1 where r: "aem_stringbuf_reserve al b len = Some (rc, b1)" "sb_inv b1"
    "sb_n b1 = sb_n b" "sb_out b1 = sb_out b"
    using sb_reserve_spec [OF inv len, of al] by blast
  show ?thesis using pad_loop_spec [OF r(2), of al len c] r by (auto simp: aem_stringbuf_pad_def)
qed

lemma available_exact:
  assumes "sb_inv b" "sb_maxn b < 2 ^ 31"
  shows "aem_stringbuf_available b = int (sb_maxn b) - int (sb_n b) - 1"
  unfolding aem_stringbuf_available_def c_int_def
  by (rule signed_take_bit_int_eq_self) (use assms sb_inv_n(1) [OF assms(1)] in auto)

lemma vprintf_try_spec:
  assumes inv: "sb_inv b" and small: "sb_maxn b < 2 ^ 31" and t: "length t < 2 ^ 31"
  shows "\<exists>b'. aem_stringbuf_vprintf_try b t = Some (int (length t), b') \<and> sb_inv b' \<and>
    sb_n b' = sb_n b \<and> sb_maxn b' = sb_maxn b \<and> sb_bad b' = sb_bad b \<and> sb_out b' = sb_out b \<and>
    sb_free al b' = sb_free al b \<and>
    (int (length t) \<le> aem_stringbuf_available b \<longrightarrow>
      sb_inv (b'\<lparr>sb_n := sb_n b + length t\<rparr>) \<and> sb_out (b'\<lparr>sb_n := sb_n b + length t\<rparr>) = sb_out b @ t)"
proof -
  have ct: "c_int (int (length t)) = int (length t)"
    unfolding c_int_def by (rule signed_take_bit_int_eq_self) (use t in auto)
  note av = available_exact [OF inv small]
  have room: "c_size (aem_stringbuf_available b + 1) = sb_maxn b - sb_n b"
    using small sb_inv_n(1) [OF inv] by (simp add: av c_size_def nat_diff_distrib' of_nat_diff)
  show ?thesis
  proof (cases "sb_maxn b = sb_n b")
    case True
    then show ?thesis using inv room ct av by (simp add: aem_stringbuf_vprintf_try_def)
  next
    case False
    then have lt: "sb_n b < sb_maxn b" using sb_inv_n(1) [OF inv] by simp
    let ?w = "take (sb_maxn b - sb_n b - 1) t"
    have fits: "sb_n b + length ?w + 1 \<le> sb_maxn b" using lt by auto
    define b' where "b' = b\<lparr>sb_s := take (sb_n b) (sb_s b) @ (?w @ [0]) @
        drop (sb_n b + length (?w @ [0])) (sb_s b)\<rparr>"
    have st: "sb_store b (sb_n b) (?w @ [0]) = Some b'"
      using fits inv by (simp add: sb_store_def b'_def sb_inv_def)
    have "aem_stringbuf_vprintf_try b t = Some (int (length t), b')"
      using False lt room ct st by (simp add: aem_stringbuf_vprintf_try_def Let_def)
    moreover have "length (sb_s b') = sb_maxn b" using inv fits by (simp add: b'_def sb_inv_def)
    moreover have "sb_n b + length t < sb_maxn b \<Longrightarrow> ?w = t" by auto
    ultimately show ?thesis using inv fits av
      by (auto simp: b'_def sb_inv_def sb_out_def sb_free_def)
  qed
qed

lemma reserve_maxn:
  assumes "aem_stringbuf_reserve al b len = Some (rc, b')" "sb_n b + len < 2 ^ 62" "sb_maxn b < 2 ^ 62"
  shows "sb_maxn b' \<le> max (sb_maxn b) (2 * (sb_n b + len) + 9)"
  using assms
  by (auto simp: aem_stringbuf_reserve_def aem_stringbuf_reserve_total_def aem_stringbuf_grow_def
      aem_array_grow_impl_def Let_def bind_eq_Some_conv split: prod.splits if_splits)

lemma vprintf_spec:
  assumes inv: "sb_inv b" and ok: "\<not> sb_bad b" and small: "sb_maxn b < 2 ^ 28" "length t < 2 ^ 28"
  shows "\<exists>b'. aem_stringbuf_vprintf al b (Some t) = Some b' \<and>
    (\<not> sb_bad b' \<longrightarrow> sb_inv b' \<and> sb_out b' = sb_out b @ t) \<and>
    (sb_free al b \<longrightarrow> sb_free al b') \<and> sb_maxn b' \<le> max (sb_maxn b) (2 * (sb_n b + length t) + 13)"
proof -
  obtain b1 where 1: "aem_stringbuf_vprintf_try b t = Some (int (length t), b1)" "sb_inv b1"
    "sb_n b1 = sb_n b" "sb_maxn b1 = sb_maxn b" "sb_bad b1 = sb_bad b" "sb_out b1 = sb_out b"
    "sb_free al b1 = sb_free al b"
    "int (length t) \<le> aem_stringbuf_available b \<Longrightarrow>
      sb_inv (b1\<lparr>sb_n := sb_n b + length t\<rparr>) \<and> sb_out (b1\<lparr>sb_n := sb_n b + length t\<rparr>) = sb_out b @ t"
    using vprintf_try_spec [OF inv, of t al] small by auto
  have cs: "c_size (int (length t)) = length t" "c_size (int (length t) + 2) = length t + 2"
    using small(2) by (simp_all add: c_size_def nat_add_distrib)
  have n29: "sb_n b < 2 ^ 28" using small sb_inv_n(1) [OF inv] by simp
  have szn: "sz (sb_n b + length t) = sb_n b + length t" using n29 small by simp
  have av1: "aem_stringbuf_available b1 = aem_stringbuf_available b"
    using 1 by (simp add: aem_stringbuf_available_def)
  show ?thesis
  proof (cases "int (length t) \<le> aem_stringbuf_available b")
    case True
    then show ?thesis using ok 1 av1 cs szn
      by (simp add: aem_stringbuf_vprintf_def) (auto simp: sb_free_def)
  next
    case False
    have len2: "length t + 2 \<le> 2 ^ 61" using small by simp
    obtain rc b2 where 2: "aem_stringbuf_reserve al b1 (length t + 2) = Some (rc, b2)" "sb_inv b2"
      "sb_n b2 = sb_n b" "sb_out b2 = sb_out b" "sb_bad b2 \<or> sb_n b + (length t + 2) < sb_maxn b2"
      using sb_reserve_spec [OF 1(2) len2, of al] 1(3,6) by auto
    have m2': "sb_maxn b2 \<le> max (sb_maxn b) (2 * (sb_n b + (length t + 2)) + 9)"
      using reserve_maxn [OF 2(1)] small n29 1(3,4) by simp
    then have m2: "sb_maxn b2 < 2 ^ 31" using small n29 by (auto simp: max_def split: if_splits)
    have free: "sb_free al b \<Longrightarrow> sb_free al b2"
      by (rule sb_reserve_granted [OF 1(2) _ _ 2(1)]) (use 1(3,7) n29 small in auto)
    obtain b3 where 3: "aem_stringbuf_vprintf_try b2 t = Some (int (length t), b3)" "sb_inv b3"
      "sb_n b3 = sb_n b2" "sb_maxn b3 = sb_maxn b2" "sb_bad b3 = sb_bad b2" "sb_out b3 = sb_out b2"
      "sb_free al b3 = sb_free al b2"
      "int (length t) \<le> aem_stringbuf_available b2 \<Longrightarrow>
        sb_inv (b3\<lparr>sb_n := sb_n b2 + length t\<rparr>) \<and> sb_out (b3\<lparr>sb_n := sb_n b2 + length t\<rparr>) = sb_out b2 @ t"
      using vprintf_try_spec [OF 2(2) m2, of t al] small by auto
    have av3: "aem_stringbuf_available b3 = int (sb_maxn b2) - int (sb_n b) - 1"
      using available_exact [OF 3(2)] m2 3(3,4) 2(3) by simp
    have av2: "aem_stringbuf_available b2 = aem_stringbuf_available b3"
      using 3 by (simp add: aem_stringbuf_available_def)
    show ?thesis
    proof (cases "sb_bad b2")
      case True
      then show ?thesis using False ok 1 av1 cs 2 3 m2' free
        by (auto simp: aem_stringbuf_vprintf_def) (auto simp: sb_free_def)
    next
      case nbad: False
      then have "int (length t) \<le> aem_stringbuf_available b3" using 2(5) av3 by simp
      then show ?thesis using False ok 1 av1 av2 cs 2 3 szn m2' free
        by (auto simp: aem_stringbuf_vprintf_def) (auto simp: sb_free_def)
    qed
  qed
qed

text \<open>An allocator that grants every request.\<close>
definition al_all :: "u8 allocator" where
  "al_all = \<lparr>al_ok = \<lambda>_. True, al_junk = 0xAA\<rparr>"

section \<open>Writers that have memory\<close>

text \<open>The second contract of a writer: with an allocator that grants every request, and as long
  as the string stays within 16 MiB, it appends exactly \<open>w\<close>. (The bounds keep the \<open>int\<close>s of
  the formatting functions from overflowing; they hold together, since a block is at most about
  twice as long as the string it was grown for.)\<close>

definition sb_ready :: "u8 allocator \<Rightarrow> stringbuf \<Rightarrow> bool" where
  "sb_ready al b \<longleftrightarrow> sb_inv b \<and> sb_free al b \<and> sb_maxn b \<le> 2 ^ 26"

lemma ready_n: "sb_ready al b \<Longrightarrow> sb_n b = length (sb_out b)"
  by (simp add: sb_ready_def)

definition appends :: "u8 allocator \<Rightarrow> (stringbuf \<Rightarrow> stringbuf option) \<Rightarrow> u8 list \<Rightarrow> bool" where
  "appends al f w \<longleftrightarrow> (\<forall>b. sb_ready al b \<and> sb_n b + length w \<le> 2 ^ 24 \<longrightarrow>
     (\<exists>b'. f b = Some b' \<and> sb_ready al b' \<and> sb_out b' = sb_out b @ w))"

lemma ready_empty [simp]: "sb_ready al_all AEM_STRINGBUF_EMPTY"
  by (simp add: sb_ready_def sb_free_def al_all_def AEM_STRINGBUF_EMPTY_def sb_inv_def)

lemma appendsD:
  assumes "appends al f w" "sb_ready al b" "sb_n b + length w \<le> 2 ^ 24"
  obtains b' where "f b = Some b'" "sb_ready al b'" "sb_out b' = sb_out b @ w"
    "sb_n b' = sb_n b + length w"
proof -
  obtain b' where b': "f b = Some b'" "sb_ready al b'" "sb_out b' = sb_out b @ w"
    using assms by (auto simp: appends_def)
  moreover have "sb_n b' = sb_n b + length w"
    using arg_cong [OF b'(3), of length] b'(2) assms(2) by (simp add: sb_ready_def)
  ultimately show ?thesis using that by blast
qed

lemma appends_nil [simp]: "appends al Some []"
  by (simp add: appends_def)

lemma appends_then:
  assumes f: "appends al f v" and g: "appends al g w"
  shows "appends al (\<lambda>b. Option.bind (f b) g) (v @ w)"
  unfolding appends_def
proof (intro allI impI)
  fix b assume b: "sb_ready al b \<and> sb_n b + length (v @ w) \<le> 2 ^ 24"
  obtain b1 where 1: "f b = Some b1" "sb_ready al b1" "sb_out b1 = sb_out b @ v" "sb_n b1 = sb_n b + length v"
    by (rule appendsD [OF f, of b]) (use b in auto)
  obtain b2 where 2: "g b1 = Some b2" "sb_ready al b2" "sb_out b2 = sb_out b1 @ w"
    by (rule appendsD [OF g 1(2)]) (use b 1 in auto)
  show "\<exists>b'. Option.bind (f b) g = Some b' \<and> sb_ready al b' \<and> sb_out b' = sb_out b @ v @ w"
    using 1 2 by simp
qed

lemma putn_appends: "appends al (\<lambda>b. aem_stringbuf_putn al b w) w"
  unfolding appends_def
proof (intro allI impI)
  fix b assume b: "sb_ready al b \<and> sb_n b + length w \<le> 2 ^ 24"
  then have len: "length w \<le> 2 ^ 61" by simp
  obtain b' k where b': "aem_stringbuf_putn al b w = Some b'" "sb_inv b'"
    "sb_out b' = sb_out b @ take k w" "\<not> sb_bad b' \<Longrightarrow> k = length w"
    using putn_emits [OF len, of al] b [THEN conjunct1, unfolded sb_ready_def, THEN conjunct1]
    by (rule emitsD) blast
  have free: "sb_free al b'"
    by (rule putn_granted [OF _ _ _ b'(1)]) (use b in \<open>auto simp: sb_ready_def\<close>)
  have "sb_maxn b' \<le> 2 ^ 26"
  proof (cases "w = []")
    case True
    then show ?thesis using b b'(1) by (simp add: aem_stringbuf_putn_def sb_ready_def)
  next
    case False
    obtain rc b1 where r: "aem_stringbuf_reserve al b (length w) = Some (rc, b1)"
      using sb_reserve_spec [OF _ len, of b al] b by (auto simp: sb_ready_def)
    then have "sb_maxn b1 \<le> max (sb_maxn b) (2 * (sb_n b + length w) + 9)"
      by (rule reserve_maxn) (use b in \<open>auto simp: sb_ready_def\<close>)
    moreover have "sb_maxn b' = sb_maxn b1"
      using b'(1) r False by (auto simp: aem_stringbuf_putn_def bind_eq_Some_conv
          dest: sb_store_fields split: if_splits)
    ultimately show ?thesis using b by (auto simp: sb_ready_def max_def split: if_splits)
  qed
  then show "\<exists>b'. aem_stringbuf_putn al b w = Some b' \<and> sb_ready al b' \<and> sb_out b' = sb_out b @ w"
    using b' free by (auto simp: sb_ready_def sb_free_def)
qed

lemma putc_putn: "aem_stringbuf_putc al b c = aem_stringbuf_putn al b [c]"
  by (simp add: aem_stringbuf_putc_def aem_stringbuf_putn_def cong: if_cong)

lemma putc_appends: "appends al (\<lambda>b. aem_stringbuf_putc al b c) [c]"
  by (simp only: putc_putn putn_appends)

lemma putc_then_appends:
  "appends al g w \<Longrightarrow> appends al (\<lambda>b. Option.bind (aem_stringbuf_putc al b c) g) (c # w)"
  using appends_then [OF putc_appends, of al g w c] by simp

lemma puts_appends: "appends al (\<lambda>b. aem_stringbuf_puts al b (Some w)) w"
  using putn_appends [of al w]
  by (auto simp: appends_def aem_stringbuf_puts_def sb_ready_def sb_free_def)

lemma putss_appends: "appends al (\<lambda>b. aem_stringbuf_putss al b sl) (ss_bytes sl)"
  unfolding aem_stringbuf_putss_def by (rule putn_appends)

lemma puthex_appends:
  "appends al (\<lambda>b. aem_stringbuf_puthex al b c)
     [aem_stringbuf_putint_digits ! unat (drop_bit 4 c AND 15),
      aem_stringbuf_putint_digits ! unat (c AND 15)]"
  unfolding aem_stringbuf_puthex_def by (intro putc_then_appends putc_appends)

lemma vprintf_appends: "appends al (\<lambda>b. aem_stringbuf_vprintf al b (Some t)) t"
  unfolding appends_def
proof (intro allI impI)
  fix b assume b: "sb_ready al b \<and> sb_n b + length t \<le> 2 ^ 24"
  then obtain b' where b': "aem_stringbuf_vprintf al b (Some t) = Some b'"
    "\<not> sb_bad b' \<longrightarrow> sb_inv b' \<and> sb_out b' = sb_out b @ t" "sb_free al b'"
    "sb_maxn b' \<le> max (sb_maxn b) (2 * (sb_n b + length t) + 13)"
    using vprintf_spec [of b t al] by (auto simp: sb_ready_def sb_free_def)
  then show "\<exists>b'. aem_stringbuf_vprintf al b (Some t) = Some b' \<and> sb_ready al b' \<and> sb_out b' = sb_out b @ t"
    using b by (auto simp: sb_ready_def sb_free_def)
qed

section \<open>Properties\<close>

text \<open>C16: Appending bytes to a buffer that satisfies the representation invariant never
  stores outside the block and never aborts, whatever the allocator answers. It appends all
  of the bytes, or the buffer is bad and holds what it held and at most the first of them; a buffer
  that was bad is left as it is. With memory available, a buffer that may grow does not become bad.\<close>

theorem putn_appends_or_goes_bad:
  assumes "sb_inv b" "length w \<le> 2 ^ 61"
  shows "\<exists>b'. aem_stringbuf_putn al b w = Some b' \<and> sb_inv b' \<and>
    (sb_bad b' \<longrightarrow> prefix (sb_out b) (sb_out b') \<and> prefix (sb_out b') (sb_out b @ w)) \<and>
    (\<not> sb_bad b' \<longrightarrow> sb_out b' = sb_out b @ w) \<and>
    (sb_bad b \<longrightarrow> sb_out b' = sb_out b) \<and>
    (sb_free al b \<and> sb_n b + length w \<le> 2 ^ 60 \<longrightarrow> \<not> sb_bad b')"
proof -
  obtain b' k where b': "aem_stringbuf_putn al b w = Some b'" "sb_inv b'" "sb_bad b \<Longrightarrow> k = 0"
    "sb_out b' = sb_out b @ take k w" "\<not> sb_bad b' \<Longrightarrow> k = length w"
    using putn_emits [OF assms(2), of al] assms(1) by (rule emitsD) blast
  have "sb_free al b \<Longrightarrow> sb_n b + length w \<le> 2 ^ 60 \<Longrightarrow> \<not> sb_bad b'"
    using putn_granted [OF assms(1) _ _ b'(1)] by (simp add: sb_free_def)
  then show ?thesis using b' by (auto simp: take_is_prefix)
qed

theorem putn_appends_or_goes_bad_witness:
  "\<exists>b'. aem_stringbuf_putn al_all AEM_STRINGBUF_EMPTY [104, 105] = Some b' \<and>
     sb_out b' = [104, 105] \<and> \<not> sb_bad b'"
proof -
  have "sb_free al_all AEM_STRINGBUF_EMPTY" "sb_n AEM_STRINGBUF_EMPTY = 0"
    by (simp_all add: sb_free_def al_all_def AEM_STRINGBUF_EMPTY_def)
  then show ?thesis
    using putn_appends_or_goes_bad [of AEM_STRINGBUF_EMPTY "[104, 105]" al_all] by auto
qed

text \<open>C21: Formatting into a buffer appends the whole formatted text, however much
  room there was before: if it did not fit, the buffer is grown and the formatting repeated.\<close>

theorem vprintf_appends_text:
  assumes "sb_inv b" "\<not> sb_bad b" "sb_maxn b < 2 ^ 28" "length t < 2 ^ 28"
    and "aem_stringbuf_vprintf al b (Some t) = Some b'" "\<not> sb_bad b'"
  shows "sb_inv b' \<and> sb_out b' = sb_out b @ t"
  using vprintf_spec [OF assms(1-4), of al] assms(5,6) by auto

theorem vprintf_appends_text_witness:
  "\<exists>b'. aem_stringbuf_vprintf al_all AEM_STRINGBUF_EMPTY (Some [52, 50]) = Some b' \<and>
     sb_out b' = [52, 50]"
proof -
  obtain b' where b': "aem_stringbuf_vprintf al_all AEM_STRINGBUF_EMPTY (Some [52, 50]) = Some b'"
    "\<not> sb_bad b'"
    by (simp add: aem_stringbuf_vprintf_def aem_stringbuf_vprintf_try_def AEM_STRINGBUF_EMPTY_def
        aem_stringbuf_available_def c_int_def c_size_def aem_stringbuf_reserve_def
        aem_stringbuf_reserve_total_def aem_array_grow_impl_def aem_array_realloc_impl_def al_all_def
        alloc_granted_def PTRDIFF_MAX_def sb_store_def realloc_content_def)
  show ?thesis
    using vprintf_appends_text [OF _ _ _ _ b'] b'(1) by (simp add: AEM_STRINGBUF_EMPTY_def [symmetric])
      (simp add: AEM_STRINGBUF_EMPTY_def)
qed

text \<open>If the buffer has no block and none can be had, the second attempt is told of \<open>-1\<close> bytes
  of room, and that is what the length grows by.\<close>

lemma vprintf_without_memory:
  "\<exists>b'. aem_stringbuf_vprintf \<lparr>al_ok = \<lambda>_. False, al_junk = 0\<rparr> AEM_STRINGBUF_EMPTY (Some [52]) = Some b' \<and>
     sb_n b' = 2 ^ 64 - 1"
  by (simp add: aem_stringbuf_vprintf_def aem_stringbuf_vprintf_try_def AEM_STRINGBUF_EMPTY_def
      aem_stringbuf_available_def c_int_def c_size_def aem_stringbuf_reserve_def
      aem_stringbuf_reserve_total_def aem_array_grow_impl_def aem_array_realloc_impl_def
      alloc_granted_def sz_def)

text \<open>The readers use the memory they asked for without looking whether they got it.\<close>

lemma file_read_out_of_bounds:
  "aem_stringbuf_file_read \<lparr>al_ok = \<lambda>_. False, al_junk = 0\<rparr> AEM_STRINGBUF_EMPTY 16 [1, 2] = None"
  by (simp add: aem_stringbuf_file_read_def AEM_STRINGBUF_EMPTY_def aem_stringbuf_reserve_def
      aem_stringbuf_reserve_total_def aem_array_grow_impl_def aem_array_realloc_impl_def
      alloc_granted_def sz_def sb_store_def)

text \<open>The inner call of \<open>aem_stringbuf_putint\<close> has base and number the wrong way round: 123 in
  base 10 is printed as 10 in base 12, then the digit 3.\<close>

lemma putint_prints_wrong_digits:
  "\<exists>b. aem_stringbuf_putint al_all AEM_STRINGBUF_EMPTY 10 123 = Some b \<and> sb_out b = cstr ''a3''"
proof -
  have e: "sb_emits (\<lambda>b. Option.bind (aem_stringbuf_putc al_all b 97) (\<lambda>b. aem_stringbuf_putc al_all b 51))
      [97, 51]"
    by (intro sb.emits_put_then putc_emits)
  have p: "aem_stringbuf_putint al_all AEM_STRINGBUF_EMPTY 10 123 =
      Option.bind (aem_stringbuf_putc al_all AEM_STRINGBUF_EMPTY 97) (\<lambda>b. aem_stringbuf_putc al_all b 51)"
    by (simp add: aem_stringbuf_putint.simps aem_stringbuf_putint_digits_def cstr_def)
  obtain b where b: "Option.bind (aem_stringbuf_putc al_all AEM_STRINGBUF_EMPTY 97)
      (\<lambda>b. aem_stringbuf_putc al_all b 51) = Some b" "\<not> sb_bad b"
    by (simp add: aem_stringbuf_putc_def AEM_STRINGBUF_EMPTY_def aem_stringbuf_reserve_def
        aem_stringbuf_reserve_total_def aem_array_grow_impl_def aem_array_realloc_impl_def al_all_def
        alloc_granted_def PTRDIFF_MAX_def sb_store_def realloc_content_def)
  then show ?thesis
    using sb.emits_result(3) [OF e sb_empty(1), of b] p by (simp add: cstr_def)
qed

end
