(* ===== verification/Aem_Utf8.thy ===== *)
theory Aem_Utf8
  imports Aem_Stringbuf
begin

text \<open>
  \<open>utf8.c\<close>: writing and reading 32-bit code points in the extended UTF-8 scheme (up to six
  bytes). The table of the source is the list \<open>aem_utf8_info\<close>. A rune that could not be read
  is \<open>None\<close> (the C result 0), with the slice back where it was.
\<close>

record utf8_info =
  ui_max :: u32
  ui_top :: u8
  ui_mask :: u8

definition AEM_UTF8_INFO_LEN :: nat where "AEM_UTF8_INFO_LEN = 6"

definition aem_utf8_info :: "utf8_info list" where
  "aem_utf8_info =
    [\<lparr>ui_max = 0x0000007F, ui_top = 0x00, ui_mask = 0x7f\<rparr>,
     \<lparr>ui_max = 0x000007FF, ui_top = 0xc0, ui_mask = 0x1f\<rparr>,
     \<lparr>ui_max = 0x0000FFFF, ui_top = 0xe0, ui_mask = 0x0f\<rparr>,
     \<lparr>ui_max = 0x001FFFFF, ui_top = 0xf0, ui_mask = 0x07\<rparr>,
     \<lparr>ui_max = 0x03FFFFFF, ui_top = 0xf8, ui_mask = 0x03\<rparr>,
     \<lparr>ui_max = 0xFFFFFFFF, ui_top = 0xfc, ui_mask = 0x03\<rparr>]"

section \<open>Writing\<close>

text \<open>The search for the row: the first whose \<open>max\<close> is not exceeded, or the last.\<close>
function rune_row :: "u32 \<Rightarrow> nat \<Rightarrow> nat" where
  "rune_row c len =
     (if len < AEM_UTF8_INFO_LEN - 1
      then if c \<le> ui_max (aem_utf8_info ! len) then len else rune_row c (len + 1)
      else len)"
  by pat_completeness auto
termination by (relation "measure (\<lambda>(c, len). AEM_UTF8_INFO_LEN - len)") auto

declare rune_row.simps [simp del]

fun put_rune_loop :: "u8 allocator \<Rightarrow> stringbuf \<Rightarrow> u32 \<Rightarrow> nat \<Rightarrow> nat \<Rightarrow> stringbuf option" where
  "put_rune_loop al b c 0 shift = Some b"
| "put_rune_loop al b c (Suc len) shift =
     (let shift1 = shift - 6 in
      do { b1 \<leftarrow> aem_stringbuf_putc al b (ucast (0x80 OR (drop_bit shift1 c AND 0x3f)));
           put_rune_loop al b1 c len shift1 })"

definition aem_stringbuf_put_rune :: "u8 allocator \<Rightarrow> stringbuf \<Rightarrow> u32 \<Rightarrow> stringbuf option" where
  "aem_stringbuf_put_rune al b c =
     (let len = rune_row c 0 in
      if \<not> len < AEM_UTF8_INFO_LEN then None
      else
        let info = aem_utf8_info ! len; shift = len * 6 in
        do { b1 \<leftarrow> aem_stringbuf_putc al b
                (ucast (ucast (ui_top info) OR (drop_bit shift c AND ucast (ui_mask info))));
             put_rune_loop al b1 c len shift })"

section \<open>Reading\<close>

text \<open>The search for the row whose bits match the first byte; \<open>AEM_UTF8_INFO_LEN\<close> when none does.\<close>
function first_byte_row :: "u32 \<Rightarrow> nat \<Rightarrow> nat" where
  "first_byte_row c len =
     (if len < AEM_UTF8_INFO_LEN
      then if c AND NOT (ucast (ui_mask (aem_utf8_info ! len))) = ucast (ui_top (aem_utf8_info ! len))
           then len else first_byte_row c (len + 1)
      else len)"
  by pat_completeness auto
termination by (relation "measure (\<lambda>(c, len). AEM_UTF8_INFO_LEN - len)") auto

declare first_byte_row.simps [simp del]

fun get_rune_loop :: "stringslice \<Rightarrow> u32 \<Rightarrow> nat \<Rightarrow> (u32 \<times> stringslice) option" where
  "get_rune_loop sl c 0 = Some (c, sl)"
| "get_rune_loop sl c (Suc n) =
     (case aem_stringslice_getc sl of (c2, sl1) \<Rightarrow>
        if c2 < 0 \<or> c2 AND 0xc0 \<noteq> 0x80 then None
        else get_rune_loop sl1 (push_bit 6 c OR word_of_int (c2 AND 0x3f)) n)"

definition aem_stringslice_get_rune :: "stringslice \<Rightarrow> u32 option \<times> stringslice" where
  "aem_stringslice_get_rune sl =
     (let out = sl; (c0, sl1) = aem_stringslice_getc sl in
      if c0 < 0 then (None, sl1)
      else
        let c = word_of_int c0; len = first_byte_row c 0 in
        if AEM_UTF8_INFO_LEN \<le> len then (None, out)
        else
          case get_rune_loop sl1 (c AND ucast (ui_mask (aem_utf8_info ! len))) len of
            None \<Rightarrow> (None, out)
          | Some (c', sl2) \<Rightarrow> (Some c', sl2))"

definition aem_stringslice_get :: "stringslice \<Rightarrow> int \<times> stringslice" where
  "aem_stringslice_get sl =
     (case aem_stringslice_get_rune sl of
        (None, sl1) \<Rightarrow> (-1, sl1)
      | (Some c, sl1) \<Rightarrow> (c_int (uint c), sl1))"

section \<open>The encoding\<close>

text \<open>The bytes of a code point: a first byte with the top bits, and \<open>n\<close> bytes of 6 bits.\<close>

fun cont_bytes :: "u32 \<Rightarrow> nat \<Rightarrow> u8 list" where
  "cont_bytes c 0 = []"
| "cont_bytes c (Suc n) = (0x80 OR (ucast (drop_bit (6 * n) c) AND 0x3f)) # cont_bytes c n"

definition utf8_len :: "u32 \<Rightarrow> nat" where
  "utf8_len c =
     (if c \<le> 0x7F then 0 else if c \<le> 0x7FF then 1 else if c \<le> 0xFFFF then 2
      else if c \<le> 0x1FFFFF then 3 else if c \<le> 0x3FFFFFF then 4 else 5)"

definition utf8_first :: "u32 \<Rightarrow> u8" where
  "utf8_first c = ui_top (aem_utf8_info ! utf8_len c) OR
     (ucast (drop_bit (6 * utf8_len c) c) AND ui_mask (aem_utf8_info ! utf8_len c))"

definition utf8_encode :: "u32 \<Rightarrow> u8 list" where
  "utf8_encode c = utf8_first c # cont_bytes c (utf8_len c)"

lemma info_nth [simp]:
  "aem_utf8_info ! 0 = \<lparr>ui_max = 0x0000007F, ui_top = 0x00, ui_mask = 0x7f\<rparr>"
  "aem_utf8_info ! Suc 0 = \<lparr>ui_max = 0x000007FF, ui_top = 0xc0, ui_mask = 0x1f\<rparr>"
  "aem_utf8_info ! 2 = \<lparr>ui_max = 0x0000FFFF, ui_top = 0xe0, ui_mask = 0x0f\<rparr>"
  "aem_utf8_info ! 3 = \<lparr>ui_max = 0x001FFFFF, ui_top = 0xf0, ui_mask = 0x07\<rparr>"
  "aem_utf8_info ! 4 = \<lparr>ui_max = 0x03FFFFFF, ui_top = 0xf8, ui_mask = 0x03\<rparr>"
  "aem_utf8_info ! 5 = \<lparr>ui_max = 0xFFFFFFFF, ui_top = 0xfc, ui_mask = 0x03\<rparr>"
  by (simp_all add: aem_utf8_info_def)

lemma rune_row_len: "rune_row c 0 = utf8_len c"
  by (simp add: rune_row.simps AEM_UTF8_INFO_LEN_def utf8_len_def aem_utf8_info_def)

lemma utf8_len_le: "utf8_len c \<le> 5"
  by (simp add: utf8_len_def)

lemma length_cont_bytes [simp]: "length (cont_bytes c n) = n"
  by (induction n) simp_all

lemma length_utf8_encode: "length (utf8_encode c) = utf8_len c + 1"
  by (simp add: utf8_encode_def)

lemma ucast_u8_u32 [simp]: "(ucast (ucast x :: u32) :: u8) = x"
  by (rule bit_word_eqI) (simp add: bit_simps)

lemma put_rune_loop_emits: "sb_emits (\<lambda>b. put_rune_loop al b c n (n * 6)) (cont_bytes c n)"
proof (induction n)
  case 0
  then show ?case using sb.emits_nil by simp
next
  case (Suc n)
  have byte: "ucast (0x80 OR (drop_bit (n * 6) c AND 0x3f)) =
      (0x80 OR (ucast (drop_bit (6 * n) c) AND 0x3f) :: u8)"
    by (simp add: unsigned_or_eq unsigned_and_eq mult.commute)
  show ?case using sb.emits_put_then [OF Suc] by (simp add: byte Let_def)
qed

lemma put_rune_emits: "sb_emits (\<lambda>b. aem_stringbuf_put_rune al b c) (utf8_encode c)"
proof -
  have byte: "ucast (ucast (ui_top i) OR (drop_bit (utf8_len c * 6) c AND ucast (ui_mask i))) =
      ui_top i OR (ucast (drop_bit (6 * utf8_len c) c) AND ui_mask i)" for i :: utf8_info
    by (simp add: unsigned_or_eq unsigned_and_eq mult.commute)
  have "utf8_len c < AEM_UTF8_INFO_LEN" using utf8_len_le [of c] by (simp add: AEM_UTF8_INFO_LEN_def)
  then show ?thesis
    using sb.emits_put_then [OF put_rune_loop_emits, where al1 = al and c1 = c and n1 = "utf8_len c"
        and al = al and c = "utf8_first c"]
    by (simp add: aem_stringbuf_put_rune_def rune_row_len byte Let_def utf8_encode_def utf8_first_def)
qed

lemma put_rune_loop_appends: "appends al (\<lambda>b. put_rune_loop al b c n (n * 6)) (cont_bytes c n)"
proof (induction n)
  case (Suc n)
  have byte: "ucast (0x80 OR (drop_bit (n * 6) c AND 0x3f)) =
      (0x80 OR (ucast (drop_bit (6 * n) c) AND 0x3f) :: u8)"
    by (simp add: unsigned_or_eq unsigned_and_eq mult.commute)
  show ?case using putc_then_appends [OF Suc] by (simp add: byte Let_def)
qed simp

lemma put_rune_appends: "appends al (\<lambda>b. aem_stringbuf_put_rune al b c) (utf8_encode c)"
proof -
  have byte: "ucast (ucast (ui_top i) OR (drop_bit (utf8_len c * 6) c AND ucast (ui_mask i))) =
      ui_top i OR (ucast (drop_bit (6 * utf8_len c) c) AND ui_mask i)" for i :: utf8_info
    by (simp add: unsigned_or_eq unsigned_and_eq mult.commute)
  have "utf8_len c < AEM_UTF8_INFO_LEN" using utf8_len_le [of c] by (simp add: AEM_UTF8_INFO_LEN_def)
  then show ?thesis
    using putc_then_appends [OF put_rune_loop_appends [of al c "utf8_len c"], of "utf8_first c"]
    by (simp add: aem_stringbuf_put_rune_def rune_row_len byte Let_def utf8_encode_def utf8_first_def)
qed

section \<open>Reading back\<close>

lemma mask_3f: "(0x3f :: 'a::len word) = mask 6"
  by (simp add: mask_eq_exp_minus_1)

lemma cont_byte_tag: "uchar (0x80 OR (x AND 0x3f)) AND 0xc0 = 0x80"
proof -
  have "(0x80 OR (x AND 0x3f)) AND 0xc0 = (0x80 :: u8)"
    by (rule bit_word_eqI) (auto simp: bit_simps mask_3f less_Suc_eq numeral_eq_Suc)
  then have "uint ((0x80 OR (x AND 0x3f)) AND 0xc0 :: u8) = uint (0x80 :: u8)" by (rule arg_cong)
  then show ?thesis by (simp add: uchar_def uint_and)
qed

lemma cont_byte_value:
  "(word_of_int (uchar (0x80 OR (ucast y AND 0x3f)) AND 0x3f) :: u32) = y AND 0x3f"
proof -
  have "(word_of_int (uchar (0x80 OR (ucast y AND 0x3f)) AND 0x3f) :: u32) =
      ucast (0x80 OR (ucast y AND 0x3f) :: u8) AND 0x3f"
    by (simp add: uchar_def of_int_and_eq)
  also have "\<dots> = y AND 0x3f"
    by (rule bit_word_eqI) (auto simp: bit_simps mask_3f less_Suc_eq numeral_eq_Suc)
  finally show ?thesis .
qed

lemma six_bits: "push_bit 6 (drop_bit (s + 6) c) OR (drop_bit s c AND 0x3f) = drop_bit s (c :: u32)"
proof (rule bit_word_eqI)
  fix n
  show "bit (push_bit 6 (drop_bit (s + 6) c) OR (drop_bit s c AND 0x3f)) n = bit (drop_bit s c) n"
    if "n < LENGTH(32)"
    using that by (cases "n < 6") (auto simp: bit_simps mask_3f ac_simps)
qed

lemma get_rune_loop_spec:
  "ss_bytes sl = cont_bytes c n @ rest \<Longrightarrow>
   get_rune_loop sl (drop_bit (6 * n) c) n = Some (c, ss_advance sl n)"
proof (induction n arbitrary: sl)
  case 0
  then show ?case by simp
next
  case (Suc n)
  let ?b = "0x80 OR (ucast (drop_bit (6 * n) c) AND 0x3f) :: u8"
  have g: "aem_stringslice_getc sl = (uchar ?b, ss_advance sl 1)"
    using Suc.prems by (intro getc_simps(2)) simp
  have "get_rune_loop sl (drop_bit (6 * Suc n) c) (Suc n) =
      get_rune_loop (ss_advance sl 1) (push_bit 6 (drop_bit (6 * Suc n) c) OR
        (drop_bit (6 * n) c AND 0x3f)) n"
    using uchar_range(1) [of ?b] by (simp add: g cont_byte_tag cont_byte_value del: mult_Suc_right)
  also have "push_bit 6 (drop_bit (6 * Suc n) c) OR (drop_bit (6 * n) c AND 0x3f) = drop_bit (6 * n) c"
    using six_bits [of "6 * n" c] by (simp add: add.commute)
  also have "get_rune_loop (ss_advance sl 1) (drop_bit (6 * n) c) n = Some (c, ss_advance sl (Suc n))"
    using Suc.IH [of "ss_advance sl 1"] Suc.prems by simp
  finally show ?case .
qed

lemma row_test: "((ucast b :: u32) AND NOT (ucast m) = ucast t) \<longleftrightarrow> b AND NOT m = (t :: u8)"
proof -
  have "(ucast b :: u32) AND NOT (ucast m) = ucast (b AND NOT m)"
    by (rule bit_word_eqI) (auto simp: bit_simps dest: bit_imp_le_length)
  moreover have "(ucast x :: u32) = ucast y \<Longrightarrow> x = y" for x y :: u8
    by (metis ucast_u8_u32)
  ultimately show ?thesis by auto
qed

lemma no_row:
  assumes "bit b n" "\<not> bit m n" "\<not> bit t n"
  shows "b AND NOT m \<noteq> (t :: u8)"
proof
  assume "b AND NOT m = t"
  then have "bit (b AND NOT m) n = bit t n" by simp
  then show False using assms bit_imp_le_length [OF assms(1)] by (simp add: bit_simps)
qed

lemma this_row:
  assumes "t AND m = (0 :: u8)"
  shows "(t OR (x AND m)) AND NOT m = t"
proof (rule bit_word_eqI)
  fix n assume "n < LENGTH(8)"
  moreover have "bit (t AND m) n = False" using assms by simp
  ultimately show "bit ((t OR (x AND m)) AND NOT m) n = bit t n" by (auto simp: bit_simps)
qed

lemma rows_disjoint:
  assumes "i \<le> j" "j < 6"
  shows "(ui_top (aem_utf8_info ! j) OR (x AND ui_mask (aem_utf8_info ! j)))
      AND NOT (ui_mask (aem_utf8_info ! i)) = ui_top (aem_utf8_info ! i) \<longleftrightarrow> i = j"
proof (cases "i = j")
  case True
  have "ui_top (aem_utf8_info ! j) AND ui_mask (aem_utf8_info ! j) = 0"
  proof -
    have "j = 0 \<or> j = 1 \<or> j = 2 \<or> j = 3 \<or> j = 4 \<or> j = 5" using assms(2) by arith
    then show ?thesis by (elim disjE) (simp_all add: aem_utf8_info_def)
  qed
  then show ?thesis using this_row True by simp
next
  case False
  have "bit (ui_top (aem_utf8_info ! j)) ([7, 5, 4, 3, 2] ! i)"
    "\<not> bit (ui_mask (aem_utf8_info ! i)) ([7, 5, 4, 3, 2] ! i)"
    "\<not> bit (ui_top (aem_utf8_info ! i)) ([7, 5, 4, 3, 2] ! i)"
  proof -
    have "i = 0 \<or> i = 1 \<or> i = 2 \<or> i = 3 \<or> i = 4" "j = 1 \<or> j = 2 \<or> j = 3 \<or> j = 4 \<or> j = 5" "i < j"
      using assms False by arith+
    then show "bit (ui_top (aem_utf8_info ! j)) ([7, 5, 4, 3, 2] ! i)"
      "\<not> bit (ui_mask (aem_utf8_info ! i)) ([7, 5, 4, 3, 2] ! i)"
      "\<not> bit (ui_top (aem_utf8_info ! i)) ([7, 5, 4, 3, 2] ! i)"
      by (elim disjE; simp add: aem_utf8_info_def)+
  qed
  then show ?thesis using False no_row [of _ "[7, 5, 4, 3, 2] ! i"] by (simp add: bit_or_iff)
qed

lemma first_byte_row_search:
  assumes "b = ui_top (aem_utf8_info ! j) OR (x AND ui_mask (aem_utf8_info ! j))" "i \<le> j" "j < 6"
  shows "first_byte_row (ucast b) i = j"
  using assms(2)
proof (induction "j - i" arbitrary: i)
  case 0
  then have "i = j" by simp
  then show ?case using rows_disjoint [of j j x] assms
    by (subst first_byte_row.simps) (simp add: AEM_UTF8_INFO_LEN_def row_test)
next
  case (Suc k)
  then have "first_byte_row (ucast b) i = first_byte_row (ucast b) (i + 1)"
    using rows_disjoint [of i j x] assms
    by (subst first_byte_row.simps) (simp add: AEM_UTF8_INFO_LEN_def row_test)
  then show ?case using Suc.hyps(1) [of "i + 1"] Suc.hyps(2) Suc.prems by simp
qed

lemma first_byte_row_spec: "first_byte_row (ucast (utf8_first c)) 0 = utf8_len c"
  using utf8_len_le [of c] by (intro first_byte_row_search) (auto simp: utf8_first_def)

lemma mask_take: "uint d < 2 ^ m \<Longrightarrow> d AND mask m = (d :: u32)"
  by (simp flip: take_bit_eq_mask, rule word_uint_eqI)
    (simp add: unsigned_take_bit_eq take_bit_int_eq_self)

lemma first_value:
  "(ucast (utf8_first c) :: u32) AND ucast (ui_mask (aem_utf8_info ! utf8_len c)) =
   drop_bit (6 * utf8_len c) c"
proof -
  let ?d = "drop_bit (6 * utf8_len c) c"
  have clear: "t AND m = 0 \<Longrightarrow> (ucast (t OR (ucast d AND m)) :: u32) AND ucast m = d AND ucast m"
    for t m :: u8 and d :: u32
  proof (rule bit_word_eqI)
    fix n assume "t AND m = 0"
    then have "bit (t AND m) n = False" by simp
    then show "bit ((ucast (t OR (ucast d AND m)) :: u32) AND ucast m) n = bit (d AND ucast m) n"
      by (auto simp: bit_simps dest: bit_imp_le_length)
  qed
  define m :: nat where "m = [7, 5, 4, 3, 2, 2] ! utf8_len c"
  have cases: "utf8_len c = 0 \<or> utf8_len c = 1 \<or> utf8_len c = 2 \<or> utf8_len c = 3 \<or> utf8_len c = 4
      \<or> utf8_len c = 5" using utf8_len_le [of c] by arith
  then have mask: "ucast (ui_mask (aem_utf8_info ! utf8_len c)) = (mask m :: u32)"
    and disj: "ui_top (aem_utf8_info ! utf8_len c) AND ui_mask (aem_utf8_info ! utf8_len c) = 0"
    by (elim disjE; simp add: aem_utf8_info_def m_def mask_eq_exp_minus_1)+
  have "uint c < 2 ^ (6 * utf8_len c + m)"
    using uint_bounded [of c] unfolding m_def
    by (simp add: utf8_len_def word_le_def)
  then have "unat c < 2 ^ m * 2 ^ (6 * utf8_len c)"
    by (simp add: power_add mult.commute flip: of_nat_less_iff [where 'a = int])
  then have "unat ?d < 2 ^ m"
    by (simp only: unat_drop_bit_eq) (simp add: drop_bit_eq_div div_less_iff_less_mult)
  then have "uint ?d < 2 ^ m" by (simp flip: of_nat_less_iff [where 'a = int])
  then have "?d AND mask m = ?d" by (rule mask_take)
  then show ?thesis using clear [OF disj, of ?d] by (simp add: utf8_first_def mask)
qed

lemma get_rune_encode:
  assumes "ss_bytes sl = utf8_encode c @ rest"
  shows "aem_stringslice_get_rune sl = (Some c, ss_advance sl (utf8_len c + 1))"
proof -
  have g: "aem_stringslice_getc sl = (uchar (utf8_first c), ss_advance sl 1)"
    using assms by (intro getc_simps(2)) (simp add: utf8_encode_def)
  have w: "(word_of_int (uchar (utf8_first c)) :: u32) = ucast (utf8_first c)"
    by (simp add: uchar_def)
  have loop: "get_rune_loop (ss_advance sl 1) (drop_bit (6 * utf8_len c) c) (utf8_len c) =
      Some (c, ss_advance (ss_advance sl 1) (utf8_len c))"
    by (rule get_rune_loop_spec) (use assms in \<open>simp add: utf8_encode_def\<close>)
  show ?thesis
    using uchar_range(1) [of "utf8_first c"] utf8_len_le [of c] loop
    by (simp add: aem_stringslice_get_rune_def g w first_byte_row_spec first_value AEM_UTF8_INFO_LEN_def
        Let_def)
qed

lemma get_rune_None: "aem_stringslice_get_rune sl = (None, sl') \<Longrightarrow> sl' = sl"
  using uchar_range(1) [of "ss_first sl"]
  by (auto simp: aem_stringslice_get_rune_def aem_stringslice_getc_def Let_def
      split: if_splits option.splits prod.splits)

lemma get_rune_loop_advance:
  "get_rune_loop sl c n = Some (c', sl') \<Longrightarrow>
   n \<le> length (ss_bytes sl) \<and> sl' = ss_advance sl n"
proof (induction n arbitrary: sl c)
  case (Suc n)
  then obtain b r where b: "ss_bytes sl = b # r"
    by (cases "ss_bytes sl") (auto simp: getc_simps(1))
  then show ?case using Suc.prems Suc.IH [of "ss_advance sl 1"]
    by (auto simp: getc_simps(2) [OF b] split: if_splits)
qed simp

lemma first_byte_row_bound: "i \<le> 6 \<Longrightarrow> first_byte_row c i \<le> 6"
proof (induction c i rule: first_byte_row.induct)
  case (1 c i)
  then show ?case
    by (subst first_byte_row.simps) (auto simp: AEM_UTF8_INFO_LEN_def)
qed

lemma get_rune_Some:
  assumes "aem_stringslice_get_rune sl = (Some c, sl')"
  shows "\<exists>k. 0 < k \<and> k \<le> 6 \<and> k \<le> length (ss_bytes sl) \<and> sl' = ss_advance sl k"
proof -
  obtain b r where b: "ss_bytes sl = b # r"
    using assms by (cases "ss_bytes sl") (auto simp: aem_stringslice_get_rune_def getc_simps(1))
  let ?k = "first_byte_row (word_of_int (uchar b)) 0"
  have "get_rune_loop (ss_advance sl 1) (word_of_int (uchar b) AND ucast (ui_mask (aem_utf8_info ! ?k))) ?k
      = Some (c, sl')" "?k < 6"
    using assms by (auto simp: aem_stringslice_get_rune_def getc_simps(2) [OF b] Let_def AEM_UTF8_INFO_LEN_def
        split: if_splits option.splits)
  then have "?k + 1 \<le> length (ss_bytes sl) \<and> sl' = ss_advance sl (?k + 1)" "?k < 6"
    using get_rune_loop_advance by (fastforce simp: b)+
  then show ?thesis by (intro exI [of _ "?k + 1"]) simp
qed

lemma get_rune_shorter:
  "aem_stringslice_get_rune sl = (Some c, sl') \<Longrightarrow> length (ss_bytes sl') < length (ss_bytes sl)"
  using get_rune_Some by fastforce

section \<open>Properties\<close>

text \<open>C15: Every 32-bit value that \<open>aem_stringbuf_put_rune\<close> appends takes one to six
  bytes, and reading those bytes back with \<open>aem_stringslice_get_rune\<close>, wherever they stand
  and whatever follows them, yields the value and stops exactly behind them.\<close>

theorem utf8_roundtrip:
  assumes "sb_inv b" "aem_stringbuf_put_rune al b c = Some b'" "\<not> sb_bad b'"
  shows "\<exists>w. sb_out b' = sb_out b @ w \<and> 1 \<le> length w \<and> length w \<le> 6 \<and>
    (\<forall>addr rest. aem_stringslice_get_rune (aem_stringslice_new_len addr (w @ rest)) =
       (Some c, aem_stringslice_new_len (addr + length w) rest))"
proof (intro exI [of _ "utf8_encode c"] conjI allI)
  show "sb_out b' = sb_out b @ utf8_encode c"
    using sb.emits_result(3) [OF put_rune_emits assms] .
  show "1 \<le> length (utf8_encode c)" "length (utf8_encode c) \<le> 6"
    using utf8_len_le [of c] by (simp_all add: length_utf8_encode)
  show "aem_stringslice_get_rune (aem_stringslice_new_len addr (utf8_encode c @ rest)) =
      (Some c, aem_stringslice_new_len (addr + length (utf8_encode c)) rest)" for addr rest
    by (subst get_rune_encode [where c = c and rest = rest])
      (simp_all add: slice_eqI length_utf8_encode)
qed

theorem utf8_roundtrip_witness:
  "\<exists>b'. aem_stringbuf_put_rune al_all (sb_room 64) 0x20AC = Some b' \<and>
     fst (aem_stringslice_get_rune (aem_stringslice_new_str 64 b')) = Some 0x20AC"
proof -
  note e = put_rune_emits [where al = al_all and c = "0x20AC"]
  have inv: "sb_inv (sb_room 64)" by simp
  obtain b' where b': "aem_stringbuf_put_rune al_all (sb_room 64) 0x20AC = Some b'"
    using sb.emits_total [OF e inv] by blast
  have "\<not> sb_bad b'"
    using sb.emits_result(4) [OF e inv b'] by (simp add: length_utf8_encode utf8_len_def)
  from utf8_roundtrip [OF inv b' this] obtain w where
    w: "sb_out b' = w" "\<And>addr rest. aem_stringslice_get_rune (aem_stringslice_new_len addr (w @ rest)) =
       (Some 0x20AC, aem_stringslice_new_len (addr + length w) rest)" by auto
  show ?thesis using b' w(1) w(2) [of 64 "[]"]
    by (simp add: aem_stringslice_new_str_def sb_out_def)
qed

text \<open>C22: \<open>aem_stringslice_get_rune\<close> either fails and leaves the slice exactly as it was,
  or succeeds and has consumed between one and six bytes of it.\<close>

theorem get_rune_consumes_or_restores:
  "case aem_stringslice_get_rune sl of
     (None, sl') \<Rightarrow> sl' = sl
   | (Some c, sl') \<Rightarrow> \<exists>k. 1 \<le> k \<and> k \<le> 6 \<and> k \<le> length (ss_bytes sl) \<and> sl' = ss_advance sl k"
proof -
  obtain r sl' where r: "aem_stringslice_get_rune sl = (r, sl')" by fastforce
  show ?thesis
    using r get_rune_None get_rune_Some [of sl] by (cases r) (auto simp: Suc_le_eq)
qed

text \<open>A byte below \<open>0x80\<close> is the encoding of itself.\<close>

lemma ascii_range: "b < 0x80 \<longleftrightarrow> uint b < 128" for b :: u8
  by (simp add: word_less_def)

lemma ascii_mask: "b < 0x80 \<Longrightarrow> b AND 0x7f = b" for b :: u8
proof -
  assume "b < 0x80"
  then have "take_bit 7 (uint b) = uint b" by (intro take_bit_int_eq_self) (simp_all add: ascii_range)
  then have "take_bit 7 b = b" by (intro word_uint_eqI) (simp only: unsigned_take_bit_eq)
  then show ?thesis by (simp add: take_bit_eq_mask mask_eq_exp_minus_1)
qed

lemma encode_ascii:
  fixes b :: u8
  assumes "b < 0x80"
  shows "utf8_encode (ucast b) = [b]" "utf8_len (ucast b) = 0"
proof -
  have "take_bit 32 (uint b) = uint b" using assms by (intro take_bit_int_eq_self) (simp_all add: ascii_range)
  then have "(ucast b :: u32) \<le> 0x7f" using assms by (simp add: ascii_range word_le_def unsigned_ucast_eq)
  then show len: "utf8_len (ucast b) = 0" by (simp add: utf8_len_def)
  moreover have "utf8_first (ucast b) = b" using len ascii_mask [OF assms] by (simp add: utf8_first_def)
  ultimately show "utf8_encode (ucast b) = [b]" by (simp add: utf8_encode_def)
qed

text \<open>The reader accepts over-long encodings, and \<open>aem_stringslice_get\<close> returns \<open>-1\<close> for a rune
  that was read.\<close>

lemma get_rune_accepts_overlong:
  "fst (aem_stringslice_get_rune (aem_stringslice_new_len 64 [0xC0, 0x80])) = Some 0"
  by (simp add: aem_stringslice_get_rune_def aem_stringslice_getc_def ss_first_def uchar_def
      first_byte_row.simps AEM_UTF8_INFO_LEN_def)

lemma get_returns_minus_one_on_success:
  "fst (aem_stringslice_get (aem_stringslice_new_len 64 (utf8_encode 0xFFFFFFFF))) = -1"
  by (simp add: aem_stringslice_get_def get_rune_encode [of _ "0xFFFFFFFF" "[]"] c_int_def)

end
