(* ===== verification/Aem_Translate.thy ===== *)
theory Aem_Translate
  imports Aem_Utf8 Aem_Numeric
begin

text \<open>
  \<open>translate.c\<close>: escaping of text in the style of C string literals and the URL percent
  encoding, with their inverses. The property sections show that each pair is a round trip.
\<close>

section \<open>Escaping\<close>

text \<open>What \<open>printf("%0kx", n)\<close> produces for \<open>n < 16 ^ k\<close>.\<close>

definition hex_char :: "nat \<Rightarrow> u8" where
  "hex_char d = (if d < 10 then of_nat (48 + d) else of_nat (87 + d))"

fun format_hex :: "nat \<Rightarrow> nat \<Rightarrow> u8 list" where
  "format_hex 0 n = []"
| "format_hex (Suc k) n = format_hex k (n div 16) @ [hex_char (n mod 16)]"

definition aem_string_escape_rune :: "u8 allocator \<Rightarrow> stringbuf \<Rightarrow> u32 \<Rightarrow> stringbuf option" where
  "aem_string_escape_rune al b c =
     (if sb_bad b then Some b
      else if c = 10 then aem_stringbuf_puts al b (Some (cstr [CHR 0x5C, CHR ''n'']))
      else if c = 13 then aem_stringbuf_puts al b (Some (cstr [CHR 0x5C, CHR ''r'']))
      else if c = 9 then aem_stringbuf_puts al b (Some (cstr [CHR 0x5C, CHR ''t'']))
      else if c = 0 then aem_stringbuf_puts al b (Some (cstr [CHR 0x5C, CHR ''0'']))
      else if c = 34 then aem_stringbuf_puts al b (Some (cstr [CHR 0x5C, CHR 0x22]))
      else if c = 92 then aem_stringbuf_puts al b (Some (cstr [CHR 0x5C, CHR 0x5C]))
      else if c = 32 then aem_stringbuf_puts al b (Some (cstr [CHR 0x5C, CHR '' '']))
      else if 32 \<le> c \<and> c < 127 then aem_stringbuf_putc al b (ucast c)
      else if c < 0x100 then
        aem_stringbuf_vprintf al b (Some (cstr [CHR 0x5C, CHR ''x''] @ format_hex 2 (unat c)))
      else if c < 0x10000 then
        aem_stringbuf_vprintf al b (Some (cstr [CHR 0x5C, CHR ''u''] @ format_hex 4 (unat c)))
      else
        aem_stringbuf_vprintf al b (Some (cstr [CHR 0x5C, CHR ''U''] @ format_hex 8 (unat c))))"

text \<open>The next rune of the input, or its next byte where it is not valid UTF-8.\<close>
definition escape_next :: "stringslice \<Rightarrow> u32 \<times> stringslice" where
  "escape_next sl =
     (case aem_stringslice_get_rune sl of
        (None, sl1) \<Rightarrow> (case aem_stringslice_getc sl1 of (c, sl2) \<Rightarrow> (word_of_int c, sl2))
      | (Some c, sl1) \<Rightarrow> (c, sl1))"

lemma escape_next_shorter:
  assumes "escape_next sl = (c, sl')" "ss_bytes sl \<noteq> []"
  shows "length (ss_bytes sl') < length (ss_bytes sl)"
proof -
  obtain r sl1 where r: "aem_stringslice_get_rune sl = (r, sl1)" by fastforce
  show ?thesis
    using assms r get_rune_None [of sl sl1] get_rune_shorter [of sl _ sl1]
    by (cases r) (auto simp: escape_next_def aem_stringslice_getc_def split: if_splits)
qed

function escape_loop :: "u8 allocator \<Rightarrow> stringbuf \<Rightarrow> stringslice \<Rightarrow> stringbuf option" where
  "escape_loop al b sl =
     (if aem_stringslice_ok sl then
        (case escape_next sl of
           (c, sl1) \<Rightarrow> do { b1 \<leftarrow> aem_string_escape_rune al b c; escape_loop al b1 sl1 })
      else Some b)"
  by pat_completeness auto
termination
  by (relation "measure (\<lambda>(al, b, sl). length (ss_bytes sl))")
    (auto dest: escape_next_shorter [OF sym])

declare escape_loop.simps [simp del]

definition aem_string_escape :: "u8 allocator \<Rightarrow> stringbuf \<Rightarrow> stringslice \<Rightarrow> stringbuf option" where
  "aem_string_escape al b sl = (if sb_bad b then Some b else escape_loop al b sl)"

section \<open>Unescaping\<close>

text \<open>The loop over the digits of \<open>\x\<close>, \<open>\u\<close> and \<open>\U\<close>: \<open>len\<close> digits, or with a negative \<open>len\<close> up
  to a closing brace.\<close>

function unescape_digits :: "stringslice \<Rightarrow> u32 \<Rightarrow> int \<Rightarrow> (u32 \<times> stringslice) option" where
  "unescape_digits sl c len =
     (if len = 0 then Some (c, sl)
      else case aem_stringslice_getc sl of (d, sl1) \<Rightarrow>
        if 48 \<le> d \<and> d \<le> 57 then unescape_digits sl1 (push_bit 4 c + word_of_int (d - 48)) (len - 1)
        else if 65 \<le> d \<and> d \<le> 70 then
          unescape_digits sl1 (push_bit 4 c + word_of_int (d - 65 + 10)) (len - 1)
        else if 97 \<le> d \<and> d \<le> 102 then
          unescape_digits sl1 (push_bit 4 c + word_of_int (d - 97 + 10)) (len - 1)
        else if d = 125 \<and> len < 0 then Some (c, sl1)
        else None)"
  by pat_completeness auto
termination
  by (relation "measure (\<lambda>(sl, c, len). length (ss_bytes sl))")
    (auto simp: aem_stringslice_getc_def split: if_splits)

declare unescape_digits.simps [simp del]

text \<open>The rune and the kind of escape: 0 for none, 1 for a substituted one, 2 for an
  unrecognized one.\<close>

definition aem_string_unescape_rune :: "stringslice \<Rightarrow> (u32 \<times> nat) option \<times> stringslice" where
  "aem_string_unescape_rune orig =
     (case aem_stringslice_match orig [92] of (esc, in1) \<Rightarrow>
        case aem_stringslice_get_rune in1 of
          (None, in2) \<Rightarrow> if esc then (Some (92, 0), in2) else (None, orig)
        | (Some c, in2) \<Rightarrow>
            if \<not> esc then (Some (c, 0), in2)
            else if c = 48 then (Some (0, 1), in2)
            else if c = 101 then (Some (0x1b, 1), in2)
            else if c = 102 then (Some (12, 1), in2)
            else if c = 116 then (Some (9, 1), in2)
            else if c = 110 then (Some (10, 1), in2)
            else if c = 114 then (Some (13, 1), in2)
            else if c = 118 then (Some (11, 1), in2)
            else if c = 120 \<or> c = 117 \<or> c = 85 then
              (case aem_stringslice_match in2 [123] of (brace, in3) \<Rightarrow>
                 let len = (if brace then -1 else if c = 120 then 2 else if c = 117 then 4 else 8)
                 in case unescape_digits in3 0 len of
                      None \<Rightarrow> (None, orig)
                    | Some (c', in4) \<Rightarrow> (Some (c', 1), in4))
            else (Some (c, 2), in2))"

lemma unescape_digits_shorter:
  "unescape_digits sl c len = Some (c', sl') \<Longrightarrow> length (ss_bytes sl') \<le> length (ss_bytes sl)"
proof (induction sl c len rule: unescape_digits.induct)
  case (1 sl c len)
  obtain d sl1 where g: "aem_stringslice_getc sl = (d, sl1)" by fastforce
  have le: "length (ss_bytes sl1) \<le> length (ss_bytes sl)"
    using g by (auto simp: aem_stringslice_getc_def split: if_splits)
  show ?case using "1.prems"
    by (subst (asm) unescape_digits.simps)
      (use "1.IH" [OF _ g [symmetric]] le in \<open>auto simp: g split: if_splits intro: order_trans\<close>)
qed

lemma unescape_rune_shorter:
  assumes "aem_string_unescape_rune sl = (Some ce, sl')"
  shows "length (ss_bytes sl') < length (ss_bytes sl)"
proof -
  obtain esc in1 where m: "aem_stringslice_match sl [92] = (esc, in1)" by fastforce
  have le: "length (ss_bytes in1) \<le> length (ss_bytes sl)" "esc \<Longrightarrow> length (ss_bytes in1) < length (ss_bytes sl)"
    using m by (auto simp: match_spec prefix_def split: if_splits)
  obtain r in2 where g: "aem_stringslice_get_rune in1 = (r, in2)" by fastforce
  show ?thesis
  proof (cases r)
    case None
    then show ?thesis using assms m g le get_rune_None [of in1 in2]
      by (auto simp: aem_string_unescape_rune_def split: if_splits)
  next
    case (Some c)
    have lt: "length (ss_bytes in2) < length (ss_bytes sl)"
      using get_rune_shorter g Some le by fastforce
    have "length (ss_bytes (snd (aem_stringslice_match in2 [123]))) \<le> length (ss_bytes in2)"
      by (simp add: match_spec)
    then show ?thesis using assms m g Some lt unescape_digits_shorter
      by (fastforce simp: aem_string_unescape_rune_def Let_def split: if_splits option.splits prod.splits)
  qed
qed

lemma unescape_rune_None: "aem_string_unescape_rune sl = (None, sl') \<Longrightarrow> sl' = sl"
  by (auto simp: aem_string_unescape_rune_def Let_def split: if_splits option.splits prod.splits)

function aem_string_unescape ::
  "u8 allocator \<Rightarrow> stringbuf \<Rightarrow> stringslice \<Rightarrow> (stringbuf \<times> stringslice) option" where
  "aem_string_unescape al b sl =
     (if aem_stringslice_ok sl then
        (case aem_string_unescape_rune sl of
           (Some (c, esc), sl1) \<Rightarrow>
             do { b1 \<leftarrow> aem_stringbuf_put_rune al b c; aem_string_unescape al b1 sl1 }
         | (None, sl1) \<Rightarrow>
             (case aem_stringslice_getc sl1 of (c, sl2) \<Rightarrow>
                do { b1 \<leftarrow> aem_stringbuf_putc al b (word_of_int c); aem_string_unescape al b1 sl2 }))
      else Some (b, sl))"
  by pat_completeness auto
termination
  by (relation "measure (\<lambda>(al, b, sl). length (ss_bytes sl))")
    (auto dest!: unescape_rune_shorter [OF sym] unescape_rune_None [OF sym]
      simp: aem_stringslice_getc_def split: if_splits)

declare aem_string_unescape.simps [simp del]

section \<open>URL encoding\<close>

definition unreserved :: "int \<Rightarrow> bool" where
  "unreserved c \<longleftrightarrow> (65 \<le> c \<and> c \<le> 90) \<or> (97 \<le> c \<and> c \<le> 122) \<or> (48 \<le> c \<and> c \<le> 57) \<or>
     c = 45 \<or> c = 95 \<or> c = 46 \<or> c = 126"

function aem_string_urlencode :: "u8 allocator \<Rightarrow> stringbuf \<Rightarrow> stringslice \<Rightarrow> stringbuf option" where
  "aem_string_urlencode al out sl =
     (if aem_stringslice_ok sl then
        (case aem_stringslice_getc sl of (c, sl1) \<Rightarrow>
           if unreserved c then
             do { b1 \<leftarrow> aem_stringbuf_putc al out (word_of_int c); aem_string_urlencode al b1 sl1 }
           else
             do { b1 \<leftarrow> aem_stringbuf_putc al out 37;
                  b2 \<leftarrow> aem_stringbuf_puthex al b1 (word_of_int c);
                  aem_string_urlencode al b2 sl1 })
      else Some out)"
  by pat_completeness auto
termination
  by (relation "measure (\<lambda>(al, out, sl). length (ss_bytes sl))")
    (auto simp: aem_stringslice_getc_def split: if_splits)

declare aem_string_urlencode.simps [simp del]

lemma hexbyte_shorter:
  "aem_stringslice_match_hexbyte sl = (c, sl') \<Longrightarrow> length (ss_bytes sl') \<le> length (ss_bytes sl)"
  by (auto simp: aem_stringslice_match_hexbyte_def Let_def split: if_splits)

function aem_string_urldecode ::
  "u8 allocator \<Rightarrow> stringbuf \<Rightarrow> stringslice \<Rightarrow> (stringbuf \<times> stringslice) option" where
  "aem_string_urldecode al out sl =
     (if aem_stringslice_ok sl then
        (let checkpoint = sl; (c, sl1) = aem_stringslice_getc sl in
           if c < 0 then Some (out, sl1)
           else if c = 37 then
             (let (c2, sl2) = aem_stringslice_match_hexbyte sl1 in
                if c2 < 0 then Some (out, checkpoint)
                else do { b1 \<leftarrow> aem_stringbuf_putc al out (word_of_int c2); aem_string_urldecode al b1 sl2 })
           else do { b1 \<leftarrow> aem_stringbuf_putc al out (word_of_int c); aem_string_urldecode al b1 sl1 })
      else Some (out, sl))"
  by pat_completeness auto
termination
  by (relation "measure (\<lambda>(al, out, sl). length (ss_bytes sl))")
    (auto dest!: hexbyte_shorter [OF sym] simp: aem_stringslice_getc_def neq_Nil_conv split: if_splits)

declare aem_string_urldecode.simps [simp del]

section \<open>Escaping and back\<close>

definition escape_text :: "u32 \<Rightarrow> u8 list" where
  "escape_text c =
     (if c = 10 then [92, 110] else if c = 13 then [92, 114] else if c = 9 then [92, 116]
      else if c = 0 then [92, 48] else if c = 34 then [92, 34] else if c = 92 then [92, 92]
      else if c = 32 then [92, 32]
      else if 32 \<le> c \<and> c < 127 then [ucast c]
      else if c < 0x100 then [92, 120] @ format_hex 2 (unat c)
      else if c < 0x10000 then [92, 117] @ format_hex 4 (unat c)
      else [92, 85] @ format_hex 8 (unat c))"

lemma length_format_hex [simp]: "length (format_hex k n) = k"
  by (induction k n rule: format_hex.induct) simp_all

lemma escape_text_length: "1 \<le> length (escape_text c)" "length (escape_text c) \<le> 10"
  by (simp_all add: escape_text_def)

lemma appends_good:
  "appends al f w \<Longrightarrow> appends al (\<lambda>b. if sb_bad b then Some b else f b) w"
  by (auto simp: appends_def sb_ready_def sb_free_def)

lemma appends_if:
  "appends al f v \<Longrightarrow> appends al g w \<Longrightarrow>
   appends al (\<lambda>b. if P then f b else g b) (if P then v else w)"
  by simp

lemma escape_rune_appends: "appends al (\<lambda>b. aem_string_escape_rune al b c) (escape_text c)"
proof -
  have lit: "cstr [CHR 0x5C, CHR ''n''] = [92, 110]" "cstr [CHR 0x5C, CHR ''r''] = [92, 114]"
    "cstr [CHR 0x5C, CHR ''t''] = [92, 116]" "cstr [CHR 0x5C, CHR ''0''] = [92, 48]"
    "cstr [CHR 0x5C, CHR 0x22] = [92, 34]" "cstr [CHR 0x5C, CHR 0x5C] = [92, 92]"
    "cstr [CHR 0x5C, CHR '' ''] = [92, 32]" "cstr [CHR 0x5C, CHR ''x''] = [92, 120]"
    "cstr [CHR 0x5C, CHR ''u''] = [92, 117]" "cstr [CHR 0x5C, CHR ''U''] = [92, 85]"
    by (simp_all add: cstr_def)
  show ?thesis
    unfolding aem_string_escape_rune_def escape_text_def lit
    by (intro appends_good appends_if puts_appends putc_appends vprintf_appends)
qed

lemma escape_next_encode:
  "ss_bytes sl = utf8_encode c @ rest \<Longrightarrow> escape_next sl = (c, ss_advance sl (utf8_len c + 1))"
  by (simp add: escape_next_def get_rune_encode)

lemma escape_loop_appends:
  "ss_bytes sl = concat (map utf8_encode cs) \<Longrightarrow>
   appends al (\<lambda>b. escape_loop al b sl) (concat (map escape_text cs))"
proof (induction cs arbitrary: sl)
  case Nil
  then show ?case by (simp add: escape_loop.simps [of _ _ sl] appends_def)
next
  case (Cons c cs)
  let ?sl = "ss_advance sl (utf8_len c + 1)"
  have ne: "ss_bytes sl \<noteq> []" using Cons.prems by (simp add: utf8_encode_def)
  have nx: "escape_next sl = (c, ?sl)" using Cons.prems by (intro escape_next_encode) simp
  have b: "ss_bytes ?sl = concat (map utf8_encode cs)"
    using Cons.prems by (simp add: length_utf8_encode)
  have "escape_loop al b sl = Option.bind (aem_string_escape_rune al b c) (\<lambda>b. escape_loop al b ?sl)" for b
    using ne nx by (simp add: escape_loop.simps [of al b sl])
  then show ?case using appends_then [OF escape_rune_appends Cons.IH [OF b], of c] by simp
qed

lemma escape_appends:
  "ss_bytes sl = concat (map utf8_encode cs) \<Longrightarrow>
   appends al (\<lambda>b. aem_string_escape al b sl) (concat (map escape_text cs))"
  unfolding aem_string_escape_def by (rule appends_good) (rule escape_loop_appends)

lemma uchar_hex_char: "x < 16 \<Longrightarrow> uchar (hex_char x) = (if x < 10 then 48 + int x else 87 + int x)"
proof -
  have small: "n < 256 \<Longrightarrow> uint (of_nat n :: u8) = int n" for n
    by (simp add: unsigned_of_nat take_bit_nat_eq_self)
  assume "x < 16"
  then show ?thesis using small [of "48 + x"] small [of "87 + x"] by (simp add: hex_char_def uchar_def)
qed

lemma hex_char_no_brace: "d < 16 \<Longrightarrow> hex_char d \<noteq> 123"
  using uchar_hex_char [of d] by (auto simp: uchar_def split: if_splits)

lemma format_hex_digits: "123 \<notin> set (format_hex k n)"
  by (induction k n rule: format_hex.induct) (auto simp: hex_char_no_brace [THEN not_sym])

lemma unescape_digits_format:
  "ss_bytes sl = format_hex k n @ rest \<Longrightarrow>
   unescape_digits sl c (int k + int m) =
     unescape_digits (ss_advance sl k) (c * 16 ^ k + of_nat (n mod 16 ^ k)) (int m)"
proof (induction k arbitrary: n sl rest m)
  case 0
  then show ?case by simp
next
  case (Suc k)
  let ?x = "n mod 16" and ?c = "c * 16 ^ k + of_nat ((n div 16) mod 16 ^ k) :: u32"
  have "unescape_digits sl c (int (Suc k) + int m) = unescape_digits sl c (int k + int (Suc m))"
    by (rule arg_cong) simp
  also have "\<dots> = unescape_digits (ss_advance sl k) ?c (int (Suc m))"
    using Suc.prems by (intro Suc.IH [where rest = "hex_char ?x # rest"]) simp
  also have "\<dots> = unescape_digits (ss_advance sl (Suc k)) (push_bit 4 ?c + of_nat ?x) (int m)"
  proof -
    have b: "ss_bytes (ss_advance sl k) = hex_char ?x # rest" using Suc.prems by simp
    have x: "?x < 16" by simp
    then have u: "uchar (hex_char ?x) = (if ?x < 10 then 48 + int ?x else 87 + int ?x)"
      by (rule uchar_hex_char)
    have w: "word_of_int (int y) = (of_nat y :: u32)" for y by simp
    show ?thesis
      using x u by (simp add: unescape_digits.simps [of "ss_advance sl k"] getc_simps(2) [OF b] w
          del: of_int_of_nat_eq)
  qed
  also have "push_bit 4 ?c + of_nat ?x = c * 16 ^ Suc k + of_nat (n mod 16 ^ Suc k)"
  proof -
    have "n mod 16 ^ Suc k = 16 * ((n div 16) mod 16 ^ k) + ?x"
      by (simp add: mod_mult2_eq)
    then show ?thesis by (simp add: push_bit_eq_mult algebra_simps)
  qed
  finally show ?case .
qed

lemma unescape_digits_number:
  assumes "ss_bytes sl = format_hex k n @ rest" "n < 16 ^ k" "0 < k"
  shows "unescape_digits sl 0 (int k) = Some (of_nat n, ss_advance sl k)"
  using unescape_digits_format [OF assms(1), of 0 0] assms(2)
  by (simp add: unescape_digits.simps [of "ss_advance sl k"])

lemma utf8_encode_ascii: "c \<le> 0x7F \<Longrightarrow> utf8_encode c = [ucast c]"
proof -
  assume c: "c \<le> 0x7F"
  have "c AND mask 7 = c" by (rule mask_take) (use c in \<open>simp add: word_le_def\<close>)
  then have "(ucast c :: u8) = ucast (c AND mask 7)" by simp
  also have "\<dots> = ucast c AND 0x7F"
  proof (rule bit_word_eqI)
    have m: "(0x7F :: u8) = mask 7" by (simp add: mask_eq_exp_minus_1)
    show "bit (ucast (c AND mask 7) :: u8) n = bit (ucast c AND 0x7F :: u8) n" for n
      unfolding m by (auto simp: bit_simps)
  qed
  finally have "(ucast c AND 0x7F :: u8) = ucast c" by (rule sym)
  then show ?thesis using c by (simp add: utf8_encode_def utf8_first_def utf8_len_def)
qed

lemma get_rune_ascii:
  "ss_bytes sl = ucast c # rest \<Longrightarrow> c \<le> 0x7F \<Longrightarrow> aem_stringslice_get_rune sl = (Some c, ss_advance sl 1)"
  using get_rune_encode [of sl c rest] by (simp add: utf8_encode_ascii utf8_len_def)

lemma get_rune_ascii_numeral:
  assumes "ss_bytes sl = numeral k # rest" "(numeral k :: u32) \<le> 0x7F" "(ucast (numeral k :: u32) :: u8) = numeral k"
  shows "aem_stringslice_get_rune sl = (Some (numeral k), ss_advance sl 1)"
  using get_rune_ascii [of sl "numeral k" rest] assms by simp

lemma unescape_escape:
  assumes "ss_bytes sl = escape_text c @ rest"
  shows "\<exists>e. aem_string_unescape_rune sl = (Some (c, e), ss_advance sl (length (escape_text c)))"
proof -
  consider (plain) "c \<le> 0x7F" "c \<noteq> 92" "escape_text c = [ucast c]"
    | (special) "c \<in> {10, 13, 9, 0, 34, 92, 32}"
    | (hex) x k where "escape_text c = [92, ucast x] @ format_hex k (unat c)" "unat c < 16 ^ k"
        "(x :: u32, k) \<in> {(120, 2), (117, 4), (85, 8)}"
  proof -
    have u: "c < n \<longleftrightarrow> unat c < unat n" for n :: u32 by (simp add: word_less_nat_alt)
    have b: "unat c < 16 ^ 8" using unsigned_less [of c, where 'a = nat] by simp
    have np: "escape_text c =
        (if c < 0x100 then [92, 120] @ format_hex 2 (unat c)
         else if c < 0x10000 then [92, 117] @ format_hex 4 (unat c) else [92, 85] @ format_hex 8 (unat c))"
      if "c \<notin> {10, 13, 9, 0, 34, 92, 32}" "\<not> (32 \<le> c \<and> c < 127)"
      unfolding escape_text_def using that by (auto simp del: append.simps)
    consider (s) "c \<in> {10, 13, 9, 0, 34, 92, 32}"
      | (p) "c \<notin> {10, 13, 9, 0, 34, 92, 32}" "32 \<le> c \<and> c < 127"
      | (h) "c \<notin> {10, 13, 9, 0, 34, 92, 32}" "\<not> (32 \<le> c \<and> c < 127)" by blast
    then show ?thesis
    proof cases
      case s
      then show ?thesis by (rule special)
    next
      case p
      then have "escape_text c = [ucast c]" by (simp add: escape_text_def)
      then show ?thesis using p by (intro plain) (auto simp: word_le_nat_alt u)
    next
      case h
      consider "c < 0x100" | "\<not> c < 0x100" "c < 0x10000" | "\<not> c < 0x100" "\<not> c < 0x10000" by blast
      then show ?thesis
        by cases (rule hex [of 120 2], use np [OF h] b u [of "0x100"] in simp_all,
          rule hex [of 117 4], use np [OF h] u [of "0x10000"] in simp_all,
          rule hex [of 85 8], use np [OF h] b in simp_all)
    qed
  qed
  then show ?thesis
  proof cases
    case plain
    have ne: "ucast c \<noteq> (92 :: u8)"
    proof
      assume eq: "ucast c = (92 :: u8)"
      have "aem_stringslice_get_rune sl = (Some 92, ss_advance sl 1)"
        by (rule get_rune_ascii [where rest = rest]) (use assms plain eq in auto)
      then show False using get_rune_ascii [of sl c rest] assms plain by simp
    qed
    have "aem_stringslice_get_rune sl = (Some c, ss_advance sl 1)"
      by (rule get_rune_ascii [where rest = rest]) (use assms plain in auto)
    then show ?thesis using assms plain ne
      by (simp add: aem_string_unescape_rune_def match_spec)
  next
    case special
    then obtain x :: u32 where x: "x \<le> 0x7F" "escape_text c = [92, ucast x]"
      "(c, x) \<in> {(10, 110), (13, 114), (9, 116), (0, 48), (34, 34), (92, 92), (32, 32)}"
      by (fastforce simp: escape_text_def)
    have g: "aem_stringslice_get_rune (ss_advance sl (Suc 0)) = (Some x, ss_advance sl (Suc (Suc 0)))"
      using get_rune_ascii [of "ss_advance sl 1" x rest] assms x by simp
    have m: "aem_stringslice_match sl [92] = (True, ss_advance sl (Suc 0))"
      using assms x by (simp add: match_spec)
    show ?thesis using x(3) by (auto simp: aem_string_unescape_rune_def m g x(2))
  next
    case hex
    let ?s2 = "ss_advance sl (Suc (Suc 0))"
    have g: "aem_stringslice_get_rune (ss_advance sl (Suc 0)) = (Some x, ?s2)"
      using get_rune_ascii [of "ss_advance sl 1" x "format_hex k (unat c) @ rest"] assms hex by auto
    have m: "aem_stringslice_match sl [92] = (True, ss_advance sl (Suc 0))"
      using assms hex by (simp add: match_spec)
    have b: "ss_bytes ?s2 = format_hex k (unat c) @ rest" using assms hex by simp
    have k: "0 < k" using hex by auto
    have "\<not> prefix [123] (ss_bytes ?s2)"
      using format_hex_digits [of k "unat c"] k b length_format_hex [of k "unat c"]
      by (cases "format_hex k (unat c)") (auto simp del: length_format_hex)
    then have nb: "aem_stringslice_match ?s2 [123] = (False, ?s2)" by (simp add: match_spec)
    have d: "unescape_digits ?s2 0 (int k) = Some (c, ss_advance ?s2 k)"
      using unescape_digits_number [OF b hex(2) k] by simp
    show ?thesis using hex(3) d nb
      by (auto simp: aem_string_unescape_rune_def m g hex(1))
  qed
qed

lemma map_bind: "map_option f (Option.bind x g) = Option.bind x (\<lambda>b. map_option f (g b))"
  by (cases x) simp_all

lemma unescape_appends:
  "ss_bytes sl = concat (map escape_text cs) \<Longrightarrow>
   appends al (\<lambda>b. map_option fst (aem_string_unescape al b sl)) (concat (map utf8_encode cs))"
proof (induction cs arbitrary: sl)
  case Nil
  then show ?case by (simp add: aem_string_unescape.simps [of _ _ sl] appends_def)
next
  case (Cons c cs)
  let ?sl = "ss_advance sl (length (escape_text c))"
  obtain e where e: "aem_string_unescape_rune sl = (Some (c, e), ?sl)"
    using unescape_escape [of sl c "concat (map escape_text cs)"] Cons.prems by auto
  have ne: "ss_bytes sl \<noteq> []" using Cons.prems escape_text_length(1) [of c] by auto
  have "map_option fst (aem_string_unescape al b sl) =
      Option.bind (aem_stringbuf_put_rune al b c) (\<lambda>b. map_option fst (aem_string_unescape al b ?sl))" for b
    using ne e by (simp add: aem_string_unescape.simps [of al b sl] map_bind)
  moreover have "ss_bytes ?sl = concat (map escape_text cs)" using Cons.prems by simp
  ultimately show ?case
    using appends_then [OF put_rune_appends Cons.IH, of ?sl c] by simp
qed

lemma length_concat_bound:
  "\<forall>x\<in>set xs. length (f x) \<le> m \<Longrightarrow> length (concat (map f xs)) \<le> m * length xs"
  by (induction xs) (auto simp: add.commute add_le_mono)

lemma length_concat_lower:
  "\<forall>x\<in>set xs. 1 \<le> length (f x) \<Longrightarrow> length xs \<le> length (concat (map f xs))"
  by (induction xs) (auto simp: add_le_mono)

section \<open>URL encoding and back\<close>

definition url_text :: "u8 \<Rightarrow> u8 list" where
  "url_text b =
     (if unreserved (uchar b) then [b]
      else [37, aem_stringbuf_putint_digits ! unat (drop_bit 4 b AND 15),
            aem_stringbuf_putint_digits ! unat (b AND 15)])"

lemma digit_table:
  "x < 16 \<Longrightarrow> aem_stringbuf_putint_digits ! x = hex_char x"
proof -
  assume "x < 16"
  then have "x = 0 \<or> x = 1 \<or> x = 2 \<or> x = 3 \<or> x = 4 \<or> x = 5 \<or> x = 6 \<or> x = 7 \<or> x = 8 \<or> x = 9 \<or>
      x = 10 \<or> x = 11 \<or> x = 12 \<or> x = 13 \<or> x = 14 \<or> x = 15" by presburger
  then show ?thesis
    by (elim disjE) (simp_all add: aem_stringbuf_putint_digits_def cstr_def hex_char_def)
qed

lemma digit_of_hex_char: "x < 16 \<Longrightarrow> char2digit (schar (hex_char x)) 0 10 10 = int x"
proof -
  assume "x < 16"
  then have "x = 0 \<or> x = 1 \<or> x = 2 \<or> x = 3 \<or> x = 4 \<or> x = 5 \<or> x = 6 \<or> x = 7 \<or> x = 8 \<or> x = 9 \<or>
      x = 10 \<or> x = 11 \<or> x = 12 \<or> x = 13 \<or> x = 14 \<or> x = 15" by presburger
  then show ?thesis
    by (elim disjE) (simp_all add: hex_char_def char2digit_def schar_def)
qed

lemma nibble_less: "unat (b AND 15 :: u8) < 16"
proof -
  have "b AND 15 \<le> (15 :: u8)" by (rule word_and_le1)
  then show ?thesis by (simp add: word_le_nat_alt)
qed

lemma nibble_less_int: "uint (b AND 15 :: u8) < 16" "\<not> 15 < uint (b AND 15 :: u8)"
proof -
  have "b AND 15 \<le> (15 :: u8)" by (rule word_and_le1)
  then have "uint (b AND 15) \<le> 15" by (simp add: word_le_def)
  then show "uint (b AND 15 :: u8) < 16" "\<not> 15 < uint (b AND 15 :: u8)" by simp_all
qed

lemma nibbles: "push_bit 4 (uint (drop_bit 4 b AND 15 :: u8)) OR uint (b AND 15) = uchar b"
proof -
  have m: "(15 :: u8) = mask 4" by (simp add: mask_eq_exp_minus_1)
  have "push_bit 4 (drop_bit 4 b AND 15) OR (b AND 15) = b"
    unfolding m by (rule bit_word_eqI) (auto simp: bit_simps)
  then have "uint (push_bit 4 (drop_bit 4 b AND 15) OR (b AND 15)) = uint b" by simp
  moreover have "uint (push_bit 4 (drop_bit 4 b AND 15) :: u8) = push_bit 4 (uint (drop_bit 4 b AND 15))"
    by (simp only: unsigned_push_bit_eq)
      (use nibble_less_int(1) [of "drop_bit 4 b"] in \<open>simp add: push_bit_eq_mult take_bit_int_eq_self\<close>)
  ultimately show ?thesis by (simp add: uchar_def uint_or)
qed

lemma match_hexbyte_puthex:
  assumes "ss_bytes sl = aem_stringbuf_putint_digits ! unat (drop_bit 4 b AND 15) #
      aem_stringbuf_putint_digits ! unat (b AND 15) # rest"
  shows "aem_stringslice_match_hexbyte sl = (uchar b, ss_advance sl 2)"
  using assms nibble_less [of b] nibble_less [of "drop_bit 4 b"]
  by (simp add: aem_stringslice_match_hexbyte_def ss_end_def digit_table digit_of_hex_char nibbles
      nibble_less_int Let_def)

lemma word_uchar [simp]: "(word_of_int (uchar b) :: u8) = b"
  by (simp add: uchar_def)

lemma urlencode_appends:
  "appends al (\<lambda>b. aem_string_urlencode al b sl) (concat (map url_text (ss_bytes sl)))"
proof (induction "ss_bytes sl" arbitrary: sl)
  case Nil
  then show ?case by (simp add: aem_string_urlencode.simps [of _ _ sl] appends_def)
next
  case (Cons c cs)
  let ?sl = "ss_advance sl 1"
  have map: "concat (map url_text (ss_bytes sl)) = url_text c @ concat (map url_text (ss_bytes ?sl))"
    by (simp flip: Cons.hyps(2))
  have g: "aem_stringslice_getc sl = (uchar c, ?sl)" by (rule getc_simps(2)) (rule Cons.hyps(2) [symmetric])
  have b: "cs = ss_bytes ?sl" using Cons.hyps(2) by (simp flip: Cons.hyps(2))
  note IH = Cons.hyps(1) [OF b]
  have ok: "aem_stringslice_ok sl" using Cons.hyps(2) by auto
  show ?case
  proof (cases "unreserved (uchar c)")
    case True
    then have "aem_string_urlencode al b sl =
        Option.bind (aem_stringbuf_putc al b c) (\<lambda>b. aem_string_urlencode al b ?sl)" for b
      using ok g by (simp add: aem_string_urlencode.simps [of al b sl])
    moreover have "url_text c = [c]" using True by (simp add: url_text_def)
    ultimately show ?thesis using putc_then_appends [OF IH, of c] unfolding map by simp
  next
    case False
    have "aem_string_urlencode al b sl =
        Option.bind (aem_stringbuf_putc al b 37) (\<lambda>b. Option.bind (aem_stringbuf_puthex al b c)
          (\<lambda>b. aem_string_urlencode al b ?sl))" for b
      using False ok g by (simp add: aem_string_urlencode.simps [of al b sl])
    moreover have "url_text c = [37, aem_stringbuf_putint_digits ! unat (drop_bit 4 c AND 15),
        aem_stringbuf_putint_digits ! unat (c AND 15)]"
      using False by (simp add: url_text_def)
    ultimately show ?thesis
      using putc_then_appends [OF appends_then [OF puthex_appends IH, of c], of 37] unfolding map by simp
  qed
qed

lemma urldecode_appends:
  "ss_bytes sl = concat (map url_text w) \<Longrightarrow>
   appends al (\<lambda>b. map_option fst (aem_string_urldecode al b sl)) w"
proof (induction w arbitrary: sl)
  case Nil
  then show ?case by (simp add: aem_string_urldecode.simps [of _ _ sl] appends_def)
next
  case (Cons c w)
  let ?sl = "ss_advance sl (length (url_text c))"
  have ne: "aem_stringslice_ok sl" using Cons.prems by (simp add: url_text_def)
  have rest: "ss_bytes ?sl = concat (map url_text w)" using Cons.prems by simp
  have step: "map_option fst (aem_string_urldecode al b sl) =
      Option.bind (aem_stringbuf_putc al b c) (\<lambda>b. map_option fst (aem_string_urldecode al b ?sl))" for b
  proof (cases "unreserved (uchar c)")
    case True
    then have t: "url_text c = [c]" by (simp add: url_text_def)
    have c: "\<not> uchar c < 0" "uchar c \<noteq> 37" using True by (auto simp: unreserved_def)
    have g: "aem_stringslice_getc sl = (uchar c, ss_advance sl 1)"
      using Cons.prems t by (intro getc_simps(2)) simp
    show ?thesis using ne c by (simp add: aem_string_urldecode.simps [of al b sl] g map_bind t)
  next
    case False
    then have t: "url_text c = [37, aem_stringbuf_putint_digits ! unat (drop_bit 4 c AND 15),
        aem_stringbuf_putint_digits ! unat (c AND 15)]" by (simp add: url_text_def)
    have g: "aem_stringslice_getc sl = (37, ss_advance sl (Suc 0))"
      using getc_simps(2) [of sl 37] Cons.prems t by (simp add: uchar_def)
    have h: "aem_stringslice_match_hexbyte (ss_advance sl (Suc 0)) = (uchar c, ss_advance sl 3)"
      using match_hexbyte_puthex [of "ss_advance sl (Suc 0)" c "concat (map url_text w)"] Cons.prems t
      by simp
    have c: "\<not> uchar c < 0" using uchar_range(1) [of c] by simp
    have "length (url_text c) = 3" by (simp add: t)
    then show ?thesis using ne c by (simp add: aem_string_urldecode.simps [of al b sl] g h map_bind)
  qed
  show ?case using putc_then_appends [OF Cons.IH [OF rest], of c] by (simp add: step)
qed

section \<open>Properties\<close>

lemma appends_fst:
  assumes "appends al (\<lambda>b. map_option fst (f b)) w" "sb_ready al b" "sb_n b + length w \<le> 2 ^ 24"
  shows "\<exists>b' r. f b = Some (b', r) \<and> sb_ready al b' \<and> sb_out b' = sb_out b @ w"
proof -
  obtain b' where "map_option fst (f b) = Some b'" "sb_ready al b'" "sb_out b' = sb_out b @ w"
    using appendsD [OF assms] by blast
  then show ?thesis by (cases "f b") auto
qed

text \<open>C13: Escaping any text, given as the UTF-8 encoding of a sequence of 32-bit
  runes, and unescaping the result gives the same bytes again. Both run to the end, neither
  stores outside its buffer, and the escaped form consists of whole escapes.\<close>

theorem escape_unescape_roundtrip:
  assumes "sb_ready al b" "sb_out b = []" "ss_bytes sl = concat (map utf8_encode cs)"
    and "length (ss_bytes sl) \<le> 2 ^ 20"
  shows "\<exists>e u r. aem_string_escape al b sl = Some e \<and>
    aem_string_unescape al b (aem_stringslice_new_str addr e) = Some (u, r) \<and>
    sb_out u = ss_bytes sl \<and> sb_out e = concat (map escape_text cs)"
proof -
  have n: "sb_n b = 0" using assms(1,2) length_sb_out [of b] by (simp add: sb_ready_def)
  have "length cs \<le> length (ss_bytes sl)"
    unfolding assms(3) by (rule length_concat_lower) (simp add: length_utf8_encode)
  moreover have "length (concat (map escape_text cs)) \<le> 10 * length cs"
    by (rule length_concat_bound) (simp add: escape_text_length)
  ultimately have len: "length (concat (map escape_text cs)) \<le> 2 ^ 24" using assms(4) by simp
  obtain e where e: "aem_string_escape al b sl = Some e" "sb_ready al e"
    "sb_out e = concat (map escape_text cs)"
    using appendsD [OF escape_appends [OF assms(3)] assms(1)] n len assms(2) by auto
  have "ss_bytes (aem_stringslice_new_str addr e) = concat (map escape_text cs)"
    using e(3) by (simp add: aem_stringslice_new_str_def sb_out_def)
  from appends_fst [OF unescape_appends [OF this] assms(1)] e(1,3) show ?thesis
    using assms n by auto
qed

theorem escape_unescape_roundtrip_witness:
  "\<exists>e u r. aem_string_escape al_all AEM_STRINGBUF_EMPTY
       (aem_stringslice_new_len 64 (utf8_encode 0x41 @ utf8_encode 0x0A @ utf8_encode 0x20AC)) = Some e \<and>
     aem_string_unescape al_all AEM_STRINGBUF_EMPTY (aem_stringslice_new_str 64 e) = Some (u, r) \<and>
     sb_out u = utf8_encode 0x41 @ utf8_encode 0x0A @ utf8_encode 0x20AC"
proof -
  let ?cs = "[0x41, 0x0A, 0x20AC] :: u32 list"
  have "length (utf8_encode 0x41 @ utf8_encode 0x0A @ utf8_encode 0x20AC) \<le> 2 ^ 20"
    by (simp add: length_utf8_encode utf8_len_def)
  then show ?thesis
    using escape_unescape_roundtrip [of al_all AEM_STRINGBUF_EMPTY
        "aem_stringslice_new_len 64 (utf8_encode 0x41 @ utf8_encode 0x0A @ utf8_encode 0x20AC)" ?cs 64]
    by auto
qed

lemma hex_char_printable: "d < 16 \<Longrightarrow> 32 \<le> uchar (hex_char d) \<and> uchar (hex_char d) < 127"
  using uchar_hex_char [of d] by (simp split: if_splits)

lemma format_hex_printable: "x \<in> set (format_hex k n) \<Longrightarrow> 32 \<le> uchar x \<and> uchar x < 127"
  by (induction k n rule: format_hex.induct) (auto simp: hex_char_printable)

lemma escape_text_printable: "x \<in> set (escape_text c) \<Longrightarrow> 32 \<le> uchar x \<and> uchar x < 127"
proof -
  have "uint (ucast c :: u8) = uint c" if "c < 127"
    using that by (simp add: word_less_def unsigned_ucast_eq take_bit_int_eq_self)
  moreover have "32 \<le> c \<Longrightarrow> 32 \<le> uint c" by (simp add: word_le_def)
  moreover have "c < 127 \<Longrightarrow> uint c < 127" by (simp add: word_less_def)
  ultimately show "x \<in> set (escape_text c) \<Longrightarrow> ?thesis"
    using format_hex_printable
    by (auto simp: escape_text_def uchar_def split: if_splits)
qed

lemma escape_loop_text:
  "\<exists>cs. length cs \<le> length (ss_bytes sl) \<and>
    appends al (\<lambda>b. escape_loop al b sl) (concat (map escape_text cs))"
proof (induction "length (ss_bytes sl)" arbitrary: sl rule: less_induct)
  case less
  show ?case
  proof (cases "ss_bytes sl = []")
    case True
    then show ?thesis
      by (intro exI [of _ "[]"]) (simp add: escape_loop.simps [of _ _ sl] appends_def)
  next
    case False
    obtain c sl1 where nx: "escape_next sl = (c, sl1)" by fastforce
    have lt: "length (ss_bytes sl1) < length (ss_bytes sl)"
      by (rule escape_next_shorter [OF nx False])
    obtain cs where cs: "length cs \<le> length (ss_bytes sl1)"
      "appends al (\<lambda>b. escape_loop al b sl1) (concat (map escape_text cs))"
      using less [OF lt] by blast
    have "escape_loop al b sl = Option.bind (aem_string_escape_rune al b c) (\<lambda>b. escape_loop al b sl1)" for b
      using False nx by (simp add: escape_loop.simps [of al b sl])
    then have "appends al (\<lambda>b. escape_loop al b sl) (concat (map escape_text (c # cs)))"
      using appends_then [OF escape_rune_appends cs(2), of c] by simp
    then show ?thesis using cs(1) lt by (intro exI [of _ "c # cs"]) auto
  qed
qed

text \<open>Whatever the bytes of a slice, valid UTF-8 or not, what
  \<open>aem_string_escape\<close> appends is printable ASCII: no byte outside 32..126.\<close>

theorem escape_output_printable:
  assumes "sb_ready al b" "sb_n b + 10 * length (ss_bytes sl) \<le> 2 ^ 24"
  shows "\<exists>b' w. aem_string_escape al b sl = Some b' \<and> sb_inv b' \<and> \<not> sb_bad b' \<and> sb_out b' = sb_out b @ w \<and>
    (\<forall>x \<in> set w. 32 \<le> uchar x \<and> uchar x < 127)"
proof -
  obtain cs where cs: "length cs \<le> length (ss_bytes sl)"
    "appends al (\<lambda>b. escape_loop al b sl) (concat (map escape_text cs))"
    using escape_loop_text by blast
  have "length (concat (map escape_text cs)) \<le> 10 * length cs"
    by (rule length_concat_bound) (simp add: escape_text_length)
  then have "sb_n b + length (concat (map escape_text cs)) \<le> 2 ^ 24" using cs(1) assms(2) by simp
  from appendsD [OF appends_good [OF cs(2)] assms(1) this] obtain b' where
    "aem_string_escape al b sl = Some b'" "sb_ready al b'" "sb_out b' = sb_out b @ concat (map escape_text cs)"
    unfolding aem_string_escape_def by metis
  then show ?thesis using escape_text_printable
    by (intro exI [of _ b'] exI [of _ "concat (map escape_text cs)"])
      (auto simp: sb_ready_def sb_free_def)
qed

theorem escape_output_printable_witness:
  "\<exists>b' w. aem_string_escape al_all AEM_STRINGBUF_EMPTY (aem_stringslice_new_len 64 [0xFF, 10]) = Some b' \<and>
     sb_out b' = w \<and> (\<forall>x \<in> set w. 32 \<le> uchar x \<and> uchar x < 127)"
  using escape_output_printable [of al_all AEM_STRINGBUF_EMPTY "aem_stringslice_new_len 64 [0xFF, 10]"]
  by (auto simp: AEM_STRINGBUF_EMPTY_def [THEN arg_cong [of _ _ sb_n]])

text \<open>C14: Percent-encoding any bytes and decoding the result gives the same bytes
  and consumes all of the encoded text.\<close>

theorem urlencode_urldecode_roundtrip:
  assumes "sb_ready al b" "sb_out b = []" "length (ss_bytes sl) \<le> 2 ^ 20"
  shows "\<exists>e u r. aem_string_urlencode al b sl = Some e \<and>
    aem_string_urldecode al b (aem_stringslice_new_str addr e) = Some (u, r) \<and> sb_out u = ss_bytes sl"
proof -
  have n: "sb_n b = 0" using assms(1,2) length_sb_out [of b] by (simp add: sb_ready_def)
  have "length (concat (map url_text (ss_bytes sl))) \<le> 3 * length (ss_bytes sl)"
    by (rule length_concat_bound) (simp add: url_text_def)
  then have len: "length (concat (map url_text (ss_bytes sl))) \<le> 2 ^ 24" using assms(3) by simp
  obtain e where e: "aem_string_urlencode al b sl = Some e" "sb_ready al e"
    "sb_out e = concat (map url_text (ss_bytes sl))"
    using appendsD [OF urlencode_appends assms(1)] n len assms(2) by auto
  have "ss_bytes (aem_stringslice_new_str addr e) = concat (map url_text (ss_bytes sl))"
    using e(3) by (simp add: aem_stringslice_new_str_def sb_out_def)
  from appends_fst [OF urldecode_appends [OF this] assms(1)] e(1) show ?thesis
    using assms n by auto
qed

theorem urlencode_urldecode_roundtrip_witness:
  "\<exists>e u r. aem_string_urlencode al_all AEM_STRINGBUF_EMPTY (aem_stringslice_new_len 64 [47, 97, 0, 255]) = Some e \<and>
     aem_string_urldecode al_all AEM_STRINGBUF_EMPTY (aem_stringslice_new_str 64 e) = Some (u, r) \<and>
     sb_out u = [47, 97, 0, 255]"
  using urlencode_urldecode_roundtrip [of al_all AEM_STRINGBUF_EMPTY "aem_stringslice_new_len 64 [47, 97, 0, 255]" 64]
  by auto

text \<open>The escaped form of a byte that is not UTF-8 reads back as the two bytes of a rune.\<close>

lemma escape_invalid_byte:
  "escape_next (aem_stringslice_new_len 64 [0xFF]) = (0xFF, aem_stringslice_new_len 65 []) \<and>
   utf8_encode 0xFF = [0xC3, 0xBF]"
proof -
  have "escape_next (aem_stringslice_new_len 64 [0xFF]) = (0xFF, aem_stringslice_new_len 65 [])"
    by (simp add: escape_next_def aem_stringslice_get_rune_def aem_stringslice_getc_def ss_first_def
        uchar_def first_byte_row.simps AEM_UTF8_INFO_LEN_def slice_eqI aem_utf8_info_def)
  moreover have "utf8_encode 0xFF = [0xC3, 0xBF]"
    by (simp add: utf8_encode_def utf8_first_def utf8_len_def)
  ultimately show ?thesis by blast
qed

end
