(* ===== verification/Aem_Path.thy ===== *)
theory Aem_Path
  imports Aem_Utf8
begin

text \<open>
  \<open>pathutil.c\<close>: the components of a path, and \<open>aem_sandbox_path\<close>, which appends a path that
  may come from an untrusted source to a base directory. The second half shows that it computes
  the normal form of the path: a stack of proper components, on which \<open>..\<close> pops.
\<close>

section \<open>The code\<close>

text \<open>The component, whether slashes follow it, and what is left.\<close>
definition aem_stringslice_match_pathcomponent :: "stringslice \<Rightarrow> stringslice \<times> bool \<times> stringslice" where
  "aem_stringslice_match_pathcomponent sl =
     (let in1 = ss_skip_while (\<lambda>b. b \<noteq> 47) sl;
          out = ss_set_end sl (ss_start in1);
          in2 = ss_skip_while (\<lambda>b. b = 47) in1
      in (out, fst (aem_stringslice_match in1 [47]), in2))"

text \<open>The loop of \<open>aem_sandbox_path\<close> that backs up to the previous slash.\<close>
function sandbox_backup :: "stringbuf \<Rightarrow> nat \<Rightarrow> stringbuf" where
  "sandbox_backup out base_i =
     (if base_i < sb_n out \<and> aem_stringbuf_index out (sb_n out - 1) \<noteq> 47
      then sandbox_backup (out\<lparr>sb_n := sb_n out - 1\<rparr>) base_i
      else out)"
  by pat_completeness auto
termination by (relation "measure (\<lambda>(out, base_i). sb_n out)") auto

declare sandbox_backup.simps [simp del]

lemma bytes_skip_while: "ss_bytes (ss_skip_while P s) = dropWhile P (ss_bytes s)"
  by (simp add: skip_while_spec)

lemma pathcomponent_spec:
  assumes "aem_stringslice_match_pathcomponent sl = (c, t, sl')"
  shows "ss_bytes c = takeWhile (\<lambda>b. b \<noteq> 47) (ss_bytes sl)"
    and "t \<longleftrightarrow> dropWhile (\<lambda>b. b \<noteq> 47) (ss_bytes sl) \<noteq> []"
    and "ss_bytes sl' = dropWhile (\<lambda>b. b = 47) (dropWhile (\<lambda>b. b \<noteq> 47) (ss_bytes sl))"
proof -
  let ?in1 = "ss_skip_while (\<lambda>b. b \<noteq> 47) sl"
  have eqs: "c = ss_set_end sl (ss_start ?in1)" "t = fst (aem_stringslice_match ?in1 [47])"
    "sl' = ss_skip_while (\<lambda>b. b = 47) ?in1"
    using assms unfolding aem_stringslice_match_pathcomponent_def Let_def by (metis prod.inject)+
  show "ss_bytes c = takeWhile (\<lambda>b. b \<noteq> 47) (ss_bytes sl)"
    by (simp add: eqs(1) skip_while_spec)
  have "prefix [47] (dropWhile (\<lambda>b. b \<noteq> 47) bs) \<longleftrightarrow> dropWhile (\<lambda>b. b \<noteq> 47) bs \<noteq> []" for bs :: "u8 list"
    by (induction bs) auto
  then show "t \<longleftrightarrow> dropWhile (\<lambda>b. b \<noteq> 47) (ss_bytes sl) \<noteq> []"
    by (simp add: eqs(2) match_spec bytes_skip_while)
  show "ss_bytes sl' = dropWhile (\<lambda>b. b = 47) (dropWhile (\<lambda>b. b \<noteq> 47) (ss_bytes sl))"
    by (simp only: eqs(3) bytes_skip_while)
qed

lemma dropWhile_drop_shorter:
  assumes "xs \<noteq> []"
  shows "length (dropWhile (\<lambda>b. b = s) (dropWhile (\<lambda>b. b \<noteq> s) xs)) < length xs"
proof (cases "hd xs = s")
  case True
  then show ?thesis using assms length_dropWhile_less [of xs "\<lambda>b. b = s"] by (cases xs) auto
next
  case False
  then have "length (dropWhile (\<lambda>b. b \<noteq> s) xs) < length xs"
    using assms by (intro length_dropWhile_less) auto
  then show ?thesis using length_dropWhile_le le_less_trans by blast
qed

lemma pathcomponent_shorter:
  "aem_stringslice_match_pathcomponent sl = (c, t, sl') \<Longrightarrow> ss_bytes sl \<noteq> [] \<Longrightarrow>
   length (ss_bytes sl') < length (ss_bytes sl)"
  by (simp add: pathcomponent_spec(3) dropWhile_drop_shorter)

text \<open>The loop over the components: \<open>rc\<close>, the buffer and \<open>trailing_slash\<close>, which has an
  indeterminate value before the first round.\<close>

function sandbox_loop ::
  "u8 allocator \<Rightarrow> stringbuf \<Rightarrow> nat \<Rightarrow> stringslice \<Rightarrow> int \<Rightarrow> bool \<Rightarrow> (int \<times> stringbuf \<times> bool) option" where
  "sandbox_loop al out base_i subpath rc trailing_slash =
     (if aem_stringslice_ok subpath then
        (case aem_stringslice_match_pathcomponent subpath of
           (component, trailing_slash1, subpath1) \<Rightarrow>
             if \<not> aem_stringslice_ok component then
               sandbox_loop al out base_i subpath1 rc trailing_slash1
             else if aem_stringslice_eq component (Some [46]) then
               sandbox_loop al out base_i subpath1 rc trailing_slash1
             else if aem_stringslice_eq component (Some [46, 46]) then do {
               out1 \<leftarrow> (if base_i < sb_n out then
                           if aem_stringbuf_index out (sb_n out - 1) = 47
                           then Some (out\<lparr>sb_n := sb_n out - 1\<rparr>) else None
                         else Some out);
               let out2 = sandbox_backup out1 base_i in
               sandbox_loop al out2 base_i subpath1
                 (if sb_n out1 = sb_n out2 then rc OR 1 else rc) trailing_slash1 }
             else do {
               out1 \<leftarrow> aem_stringbuf_putss al out component;
               out2 \<leftarrow> (if trailing_slash1 then aem_stringbuf_putc al out1 47 else Some out1);
               sandbox_loop al out2 base_i subpath1 rc trailing_slash1 })
      else Some (rc, out, trailing_slash))"
  by pat_completeness auto
termination
  by (relation "measure (\<lambda>(al, out, base_i, subpath, rc, trailing_slash). length (ss_bytes subpath))")
    (auto dest: pathcomponent_shorter [OF sym])

declare sandbox_loop.simps [simp del]

text \<open>\<open>undef\<close> is the indeterminate first value of \<open>trailing_slash\<close>.\<close>

definition aem_sandbox_path ::
  "bool \<Rightarrow> u8 allocator \<Rightarrow> stringbuf \<Rightarrow> stringslice \<Rightarrow> stringslice \<Rightarrow> u8 list ptr \<Rightarrow> (int \<times> stringbuf) option" where
  "aem_sandbox_path undef al out base subpath ext =
     do { out1 \<leftarrow> (if aem_stringslice_ok base then aem_stringbuf_putss al out base
                      else aem_stringbuf_puts al out (Some [46]));
          out2 \<leftarrow> (if aem_stringbuf_index out1 (c_size (int (sb_n out1) - 1)) \<noteq> 47
                     then aem_stringbuf_putc al out1 47 else Some out1);
          let base_i = sb_n out2 in
          do { (rc, out3, trailing_slash) \<leftarrow> sandbox_loop al out2 base_i subpath 0 undef;
               case ext of
                 None \<Rightarrow> Some (rc, out3)
               | Some e \<Rightarrow>
                   let rc1 = (if trailing_slash then rc OR 2 else rc);
                       rc2 = (if sb_n out3 = base_i then rc1 OR 2 else rc1);
                       ss = aem_stringslice_new_str literal_addr out3
                   in if \<not> fst (aem_stringslice_match_end ss e)
                      then do { out4 \<leftarrow> aem_stringbuf_puts al out3 (Some e); Some (rc2, out4) }
                      else Some (rc2, out3) } }"

definition aem_dirname :: "stringslice \<Rightarrow> stringslice" where
  "aem_dirname path =
     (let path1 = ss_trim_while (\<lambda>b. b = 47) path;
          path2 = ss_trim_while (\<lambda>b. b \<noteq> 47) path1
      in if \<not> aem_stringslice_ok path2 then aem_stringslice_new_cstr (Some [46])
         else
           let path3 = ss_trim_while (\<lambda>b. b = 47) path2
           in if \<not> aem_stringslice_ok path3 then aem_stringslice_new_cstr (Some [47]) else path3)"

section \<open>The normal form of a path\<close>

text \<open>The components of a path, each with whether a slash follows it.\<close>
function path_parts :: "u8 list \<Rightarrow> (u8 list \<times> bool) list" where
  "path_parts bs =
     (if bs = [] then []
      else (takeWhile (\<lambda>b. b \<noteq> 47) bs, dropWhile (\<lambda>b. b \<noteq> 47) bs \<noteq> []) #
        path_parts (dropWhile (\<lambda>b. b = 47) (dropWhile (\<lambda>b. b \<noteq> 47) bs)))"
  by pat_completeness auto
termination
  by (relation "measure length") (use dropWhile_drop_shorter in auto)

declare path_parts.simps [simp del]

text \<open>The components that name something: directories so far, a last component without a
  slash, and whether a \<open>..\<close> met an empty stack.\<close>
fun path_norm :: "u8 list list \<Rightarrow> (u8 list \<times> bool) list \<Rightarrow> u8 list list \<times> u8 list \<times> bool" where
  "path_norm st [] = (st, [], False)"
| "path_norm st ((c, t) # ps) =
     (if c = [] \<or> c = [46] then path_norm st ps
      else if c = [46, 46] then
        if st = [] then (case path_norm [] ps of (st', f, e) \<Rightarrow> (st', f, True))
        else path_norm (butlast st) ps
      else if t then path_norm (st @ [c]) ps
      else (st, c, False))"

definition path_text :: "u8 list list \<Rightarrow> u8 list" where
  "path_text st = concat (map (\<lambda>c. c @ [47]) st)"

text \<open>A component that stays inside the directory it is looked up in.\<close>
definition safe_component :: "u8 list \<Rightarrow> bool" where
  "safe_component c \<longleftrightarrow> c \<noteq> [] \<and> c \<noteq> [46] \<and> c \<noteq> [46, 46] \<and> 47 \<notin> set c"

lemma path_text_simps [simp]:
  "path_text [] = []" "path_text (st @ [c]) = path_text st @ c @ [47]"
  "path_text (c # st) = c @ 47 # path_text st"
  by (simp_all add: path_text_def)

lemma path_parts_no_slash: "p \<in> set (path_parts bs) \<Longrightarrow> 47 \<notin> set (fst p)"
proof (induction bs rule: path_parts.induct)
  case (1 bs)
  show ?case
  proof (cases "bs = []")
    case True
    then show ?thesis using "1.prems" by (simp add: path_parts.simps [of "[]"])
  next
    case False
    then have "fst p = takeWhile (\<lambda>b. b \<noteq> 47) bs \<or>
        p \<in> set (path_parts (dropWhile (\<lambda>b. b = 47) (dropWhile (\<lambda>b. b \<noteq> 47) bs)))"
      using "1.prems" by (subst (asm) path_parts.simps) auto
    then show ?thesis using "1.IH" [OF False] by (auto dest: set_takeWhileD)
  qed
qed

lemma path_norm_safe:
  "\<forall>p\<in>set ps. 47 \<notin> set (fst p) \<Longrightarrow> list_all safe_component st \<Longrightarrow>
   path_norm st ps = (st', f, e) \<Longrightarrow> list_all safe_component st' \<and> (f = [] \<or> safe_component f)"
proof (induction st ps arbitrary: st' f e rule: path_norm.induct)
  case (1 st)
  then show ?case by simp
next
  case (2 st c t ps)
  note prems = "2.prems"
  have ps: "\<forall>p\<in>set ps. 47 \<notin> set (fst p)" and c: "47 \<notin> set c" using prems(1) by simp_all
  have butlast: "list_all safe_component (butlast st)"
    using prems(2) by (auto simp: list_all_iff dest: in_set_butlastD)
  consider (skip) "c = [] \<or> c = [46]" | (up) "c = [46, 46]"
    | (name) "c \<noteq> []" "c \<noteq> [46]" "c \<noteq> [46, 46]" by blast
  then show ?case
  proof cases
    case skip
    then show ?thesis using "2.IH"(1) [OF skip ps prems(2)] prems(3) by auto
  next
    case up
    then show ?thesis
      using "2.IH"(2) [OF _ up _ ps] "2.IH"(3) [OF _ up _ ps butlast] prems(3)
      by (cases "st = []") (auto split: prod.splits)
  next
    case name
    then have "safe_component c" using c by (simp add: safe_component_def)
    then show ?thesis
      using "2.IH"(4) [OF _ name(3) _ ps] prems(2,3) name by (cases t) auto
  qed
qed

section \<open>What the loop does\<close>

lemma schar_47 [simp]: "schar b = 47 \<longleftrightarrow> b = 47"
proof -
  have "schar 47 = 47" by (simp add: schar_def)
  then show ?thesis by (metis schar_eq_iff)
qed

lemma index_last:
  assumes "sb_inv b" "sb_out b = xs @ [x]"
  shows "aem_stringbuf_index b (sb_n b - 1) = schar x" "sb_n b = Suc (length xs)"
    "sb_out (b\<lparr>sb_n := sb_n b - 1\<rparr>) = xs" "sb_inv (b\<lparr>sb_n := sb_n b - 1\<rparr>)"
proof -
  show n: "sb_n b = Suc (length xs)" using assms length_sb_out [of b] by simp
  have "sb_s b ! length xs = sb_out b ! length xs" using n by (simp add: sb_out_def)
  then show "aem_stringbuf_index b (sb_n b - 1) = schar x"
    using n assms(2) by (simp add: aem_stringbuf_index_def)
  have "sb_out (b\<lparr>sb_n := sb_n b - 1\<rparr>) = take (length xs) (sb_out b)"
    using n by (simp add: sb_out_def min_def)
  then show "sb_out (b\<lparr>sb_n := sb_n b - 1\<rparr>) = xs" using assms(2) by simp
  show "sb_inv (b\<lparr>sb_n := sb_n b - 1\<rparr>)" using assms(1) by (auto simp: sb_inv_def)
qed

lemma ready_shorter: "sb_ready al b \<Longrightarrow> sb_inv (b\<lparr>sb_n := n\<rparr>) \<Longrightarrow> sb_ready al (b\<lparr>sb_n := n\<rparr>)"
  by (simp add: sb_ready_def sb_free_def)

lemma sandbox_backup_spec:
  assumes "sb_ready al b" "sb_out b = pre @ xs @ c" "47 \<notin> set c" "xs = [] \<or> last xs = 47"
  shows "sb_ready al (sandbox_backup b (length pre)) \<and> sb_out (sandbox_backup b (length pre)) = pre @ xs \<and>
    sb_n (sandbox_backup b (length pre)) = length pre + length xs"
  using assms
proof (induction c arbitrary: b rule: rev_induct)
  case Nil
  have inv: "sb_inv b" using Nil.prems(1) by (simp add: sb_ready_def)
  have n: "sb_n b = length pre + length xs" using length_sb_out [OF inv] Nil.prems(2) by simp
  have "sandbox_backup b (length pre) = b"
  proof (cases xs rule: rev_cases)
    case Nil
    then show ?thesis using n by (simp add: sandbox_backup.simps [of b])
  next
    case (snoc ys y)
    then have "aem_stringbuf_index b (sb_n b - 1) = 47"
      using index_last(1) [OF inv, of "pre @ ys" y] Nil.prems(2,4) by simp
    then show ?thesis by (simp add: sandbox_backup.simps [of b])
  qed
  then show ?case using Nil.prems n by simp
next
  case (snoc y c)
  have inv: "sb_inv b" using snoc.prems(1) by (simp add: sb_ready_def)
  note l = index_last [OF inv, of "pre @ xs @ c" y]
  let ?b = "b\<lparr>sb_n := sb_n b - 1\<rparr>"
  have "sandbox_backup b (length pre) = sandbox_backup ?b (length pre)"
    by (subst sandbox_backup.simps) (rule if_P, use l(1,2) snoc.prems in auto)
  moreover have "sb_ready al ?b" using ready_shorter [OF snoc.prems(1)] l(4) snoc.prems(2) by simp
  ultimately show ?case using snoc.IH [of ?b] l(3) snoc.prems by simp
qed

lemma length_parts:
  "bs \<noteq> [] \<Longrightarrow> length (takeWhile (\<lambda>b. b \<noteq> 47) bs) + (if dropWhile (\<lambda>b. b \<noteq> 47) bs \<noteq> [] then 1 else 0) +
     length (dropWhile (\<lambda>b. b = 47) (dropWhile (\<lambda>b. b \<noteq> (47 :: u8)) bs)) \<le> length bs"
proof (induction bs)
  case (Cons b bs)
  have "length (dropWhile (\<lambda>b. b = 47) bs) \<le> length bs" by (rule length_dropWhile_le)
  then show ?case using Cons by (cases "bs = []") auto
qed simp

lemma sandbox_loop_spec:
  assumes "sb_ready al out" "sb_out out = pre @ path_text st" "list_all safe_component st"
    and "sb_n out + length (ss_bytes sl) \<le> 2 ^ 24"
  shows "\<exists>out' ts. sandbox_loop al out (length pre) sl rc ts0 =
      (case path_norm st (path_parts (ss_bytes sl)) of (st', f, e) \<Rightarrow>
         Some (if e then rc OR 1 else rc, out', ts)) \<and> sb_ready al out' \<and>
      (case path_norm st (path_parts (ss_bytes sl)) of (st', f, e) \<Rightarrow>
         sb_out out' = pre @ path_text st' @ f) \<and>
      sb_n out' \<le> sb_n out + length (ss_bytes sl)"
  using assms
proof (induction "length (ss_bytes sl)" arbitrary: sl out st rc ts0 rule: less_induct)
  case less
  show ?case
  proof (cases "ss_bytes sl = []")
    case True
    then show ?thesis using less.prems
      by (simp add: sandbox_loop.simps [of _ _ _ sl] path_parts.simps [of "[]"])
  next
    case False
    obtain c t sl1 where m: "aem_stringslice_match_pathcomponent sl = (c, t, sl1)"
      by (metis prod_cases3)
    note sp = pathcomponent_spec [OF m]
    have lt: "length (ss_bytes sl1) < length (ss_bytes sl)" by (rule pathcomponent_shorter [OF m False])
    have parts: "path_parts (ss_bytes sl) = (ss_bytes c, t) # path_parts (ss_bytes sl1)"
      using False sp by (simp add: path_parts.simps [of "ss_bytes sl"])
    have len: "length (ss_bytes c) + (if t then 1 else 0) + length (ss_bytes sl1) \<le> length (ss_bytes sl)"
      using length_parts [OF False] sp by simp
    have noslash: "47 \<notin> set (ss_bytes c)" by (auto simp: sp(1) dest: set_takeWhileD)
    have inv: "sb_inv out" using less.prems(1) by (simp add: sb_ready_def)
    consider (skip) "ss_bytes c = [] \<or> ss_bytes c = [46]"
      | (up) "ss_bytes c = [46, 46]"
      | (name) "ss_bytes c \<noteq> []" "ss_bytes c \<noteq> [46]" "ss_bytes c \<noteq> [46, 46]" by blast
    then show ?thesis
    proof cases
      case skip
      then have "sandbox_loop al out (length pre) sl rc ts0 = sandbox_loop al out (length pre) sl1 rc t"
        using False m by (auto simp: sandbox_loop.simps [of al out _ sl] eq_spec)
      moreover have "sb_n out + length (ss_bytes sl1) \<le> 2 ^ 24" using less.prems(4) lt by simp
      ultimately show ?thesis
        using less.hyps [OF lt less.prems(1-3), of rc t] lt skip by (auto simp: parts)
    next
      case name
      then have safe: "safe_component (ss_bytes c)" using noslash by (simp add: safe_component_def)
      have b1: "sb_n out + length (ss_bytes c) \<le> 2 ^ 24" using less.prems(4) len by simp
      obtain o1 where o1: "aem_stringbuf_putss al out c = Some o1" "sb_ready al o1"
        "sb_out o1 = sb_out out @ ss_bytes c" "sb_n o1 = sb_n out + length (ss_bytes c)"
        using appendsD [OF putss_appends less.prems(1) b1] by blast
      show ?thesis
      proof (cases t)
        case True
        have b2: "sb_n o1 + length [47 :: u8] \<le> 2 ^ 24" using less.prems(4) len o1(4) True by simp
        obtain o2 where o2: "aem_stringbuf_putc al o1 47 = Some o2" "sb_ready al o2"
          "sb_out o2 = sb_out o1 @ [47]" "sb_n o2 = sb_n o1 + 1"
          using appendsD [OF putc_appends o1(2) b2] by auto
        have "sandbox_loop al out (length pre) sl rc ts0 = sandbox_loop al o2 (length pre) sl1 rc t"
          using False m name o1(1) o2(1) True by (auto simp: sandbox_loop.simps [of al out _ sl] eq_spec)
        moreover have "sb_out o2 = pre @ path_text (st @ [ss_bytes c])"
          using o1(3) o2(3) less.prems(2) by simp
        moreover have "list_all safe_component (st @ [ss_bytes c])" using less.prems(3) safe by simp
        moreover have "sb_n o2 + length (ss_bytes sl1) \<le> sb_n out + length (ss_bytes sl)"
          using len o1(4) o2(4) True by simp
        ultimately show ?thesis
          using less.hyps [OF lt o2(2), of "st @ [ss_bytes c]" rc t] less.prems(4) name True
          by (fastforce simp: parts split: prod.splits)
      next
        case nt: False
        then have "dropWhile (\<lambda>b. b \<noteq> 47) (ss_bytes sl) = []" using sp(2) by blast
        then have "ss_bytes sl1 = []" by (simp only: sp(3) dropWhile.simps)
        then have "sandbox_loop al o1 (length pre) sl1 rc t = Some (rc, o1, t)"
          by (simp add: sandbox_loop.simps [of al o1 _ sl1])
        then have "sandbox_loop al out (length pre) sl rc ts0 = Some (rc, o1, t)"
          using False m name o1(1) nt by (auto simp: sandbox_loop.simps [of al out _ sl] eq_spec)
        then show ?thesis using o1 less.prems(2) nt name len by (auto simp: parts)
      qed
    next
      case up
      show ?thesis
      proof (cases st rule: rev_cases)
        case Nil
        have n: "sb_n out = length pre" using length_sb_out [OF inv] less.prems(2) Nil by simp
        have "sandbox_backup out (length pre) = out" using n by (simp add: sandbox_backup.simps [of out])
        then have "sandbox_loop al out (length pre) sl rc ts0 = sandbox_loop al out (length pre) sl1 (rc OR 1) t"
          using False m up n by (simp add: sandbox_loop.simps [of al out _ sl] eq_spec)
        moreover have "sb_n out + length (ss_bytes sl1) \<le> 2 ^ 24" using less.prems(4) lt by simp
        ultimately show ?thesis
          using less.hyps [OF lt less.prems(1-3), of "rc OR 1" t] lt up Nil
          by (fastforce simp: parts split: prod.splits)
      next
        case (snoc st1 d)
        have outd: "sb_out out = (pre @ path_text st1 @ d) @ [47]" using less.prems(2) snoc by simp
        note l = index_last [OF inv outd]
        let ?o1 = "out\<lparr>sb_n := sb_n out - 1\<rparr>"
        have r1: "sb_ready al ?o1" by (rule ready_shorter [OF less.prems(1) l(4)])
        have d: "safe_component d" using less.prems(3) snoc by simp
        have sep: "path_text st1 = [] \<or> last (path_text st1) = 47"
          by (cases st1 rule: rev_cases) simp_all
        have bk: "sb_ready al (sandbox_backup ?o1 (length pre))"
          "sb_out (sandbox_backup ?o1 (length pre)) = pre @ path_text st1"
          "sb_n (sandbox_backup ?o1 (length pre)) = length pre + length (path_text st1)"
          using sandbox_backup_spec [OF r1, of pre "path_text st1" d] l(3) d sep
          by (simp_all add: safe_component_def)
        have "sandbox_loop al out (length pre) sl rc ts0 =
            sandbox_loop al (sandbox_backup ?o1 (length pre)) (length pre) sl1 rc t"
          using False m up l(1,2) bk(3) d
          by (simp add: sandbox_loop.simps [of al out _ sl] eq_spec safe_component_def)
        moreover have "sb_n (sandbox_backup ?o1 (length pre)) + length (ss_bytes sl1) \<le>
            sb_n out + length (ss_bytes sl)" using bk(3) l(2) lt by simp
        moreover have "list_all safe_component st1" using less.prems(3) snoc by simp
        ultimately show ?thesis
          using less.hyps [OF lt bk(1,2), of rc t] less.prems(4) up snoc
          by (fastforce simp: parts split: prod.splits)
      qed
    qed
  qed
qed

section \<open>Properties\<close>

text \<open>What \<open>aem_sandbox_path\<close> puts before the path: the base, or a dot, and a slash.\<close>
definition sandbox_base :: "u8 list \<Rightarrow> u8 list" where
  "sandbox_base base =
     (let b = (if base = [] then [46] else base) in if last b = 47 then b else b @ [47])"

lemma sandbox_prologue:
  assumes "sb_ready al out" "sb_n out + length (ss_bytes base) + 2 \<le> 2 ^ 24"
  shows "\<exists>out2. do { out1 \<leftarrow> (if aem_stringslice_ok base then aem_stringbuf_putss al out base
                      else aem_stringbuf_puts al out (Some [46]));
          (if aem_stringbuf_index out1 (c_size (int (sb_n out1) - 1)) \<noteq> 47
                     then aem_stringbuf_putc al out1 47 else Some out1) } = Some out2 \<and>
    sb_ready al out2 \<and> sb_out out2 = sb_out out @ sandbox_base (ss_bytes base) \<and>
    sb_n out2 \<le> sb_n out + length (ss_bytes base) + 2"
proof -
  let ?w = "if ss_bytes base = [] then [46] else ss_bytes base"
  let ?f = "\<lambda>b. if aem_stringslice_ok base then aem_stringbuf_putss al b base
      else aem_stringbuf_puts al b (Some [46])"
  have "appends al ?f ?w" using putss_appends [of al base] puts_appends [of al "[46]"] by simp
  moreover have lw: "sb_n out + length ?w \<le> 2 ^ 24" "length ?w \<le> length (ss_bytes base) + 1"
    using assms(2) by simp_all
  ultimately obtain o1 where o1: "?f out = Some o1" "sb_ready al o1" "sb_out o1 = sb_out out @ ?w"
    "sb_n o1 = sb_n out + length ?w"
    using appendsD [of al ?f ?w out] assms(1) by blast
  have inv: "sb_inv o1" using o1(2) by (simp add: sb_ready_def)
  have ne: "?w \<noteq> []" by simp
  then have o1': "sb_out o1 = (sb_out out @ butlast ?w) @ [last ?w]" using o1(3) by simp
  note l = index_last [OF inv o1']
  have n: "c_size (int (sb_n o1) - 1) = sb_n o1 - 1"
    using l(2) sb_inv_n(2) [OF inv] by (simp add: c_size_def)
  show ?thesis
  proof (cases "last ?w = 47")
    case True
    then have "sb_out o1 = sb_out out @ sandbox_base (ss_bytes base)" "sb_n o1 \<le> sb_n out + length (ss_bytes base) + 2"
      using o1(3,4) lw by (simp_all add: sandbox_base_def Let_def)
    then show ?thesis using o1(1,2) n l(1) True by (intro exI [of _ o1]) simp
  next
    case False
    have "sb_n o1 + length [47 :: u8] \<le> 2 ^ 24" using o1(4) lw assms(2) by simp
    then obtain o2 where o2: "aem_stringbuf_putc al o1 47 = Some o2" "sb_ready al o2"
      "sb_out o2 = sb_out o1 @ [47]" "sb_n o2 = sb_n o1 + 1"
      using appendsD [OF putc_appends o1(2)] by (metis length_Cons list.size(3) One_nat_def)
    have "sb_out o2 = sb_out out @ sandbox_base (ss_bytes base)" "sb_n o2 \<le> sb_n out + length (ss_bytes base) + 2"
      using o1(3,4) o2(3,4) lw False by (simp_all add: sandbox_base_def Let_def)
    then show ?thesis using o1(1) o2(1,2) n l(1) False by (intro exI [of _ o2]) simp
  qed
qed

text \<open>What an extension adds to the path \<open>out\<close>.\<close>
definition ext_text :: "u8 list \<Rightarrow> u8 list ptr \<Rightarrow> u8 list" where
  "ext_text out ext = (case ext of None \<Rightarrow> [] | Some e \<Rightarrow> if suffix e out then [] else e)"

lemma sandbox_path_text:
  assumes "sb_ready al out"
    and "sb_n out + length (ss_bytes base) + length (ss_bytes subpath) + 2 + length (case ext of None \<Rightarrow> [] | Some e \<Rightarrow> e) \<le> 2 ^ 24"
    and nf: "path_norm [] (path_parts (ss_bytes subpath)) = (st, f, e)"
  shows "\<exists>rc out' p. p = sb_out out @ sandbox_base (ss_bytes base) @ path_text st @ f \<and>
    aem_sandbox_path undef al out base subpath ext = Some (rc, out') \<and> sb_ready al out' \<and>
    sb_out out' = p @ ext_text p ext \<and> (ext = None \<longrightarrow> rc = (if e then 1 else 0))"
proof -
  let ?pro = "do { out1 \<leftarrow> (if aem_stringslice_ok base then aem_stringbuf_putss al out base
                      else aem_stringbuf_puts al out (Some [46]));
          (if aem_stringbuf_index out1 (c_size (int (sb_n out1) - 1)) \<noteq> 47
                     then aem_stringbuf_putc al out1 47 else Some out1) }"
  obtain o2 where o2: "?pro = Some o2" "sb_ready al o2"
    "sb_out o2 = sb_out out @ sandbox_base (ss_bytes base)"
    "sb_n o2 \<le> sb_n out + length (ss_bytes base) + 2"
    using sandbox_prologue [OF assms(1), of base] assms(2) by auto
  have n2: "sb_n o2 = length (sb_out o2)" using o2(2) by (simp add: sb_ready_def)
  obtain o1 where o1: "(if aem_stringslice_ok base then aem_stringbuf_putss al out base
        else aem_stringbuf_puts al out (Some [46])) = Some o1"
    "(if aem_stringbuf_index o1 (c_size (int (sb_n o1) - 1)) \<noteq> 47
        then aem_stringbuf_putc al o1 47 else Some o1) = Some o2"
    using o2(1) unfolding bind_eq_Some_conv by blast
  have "sb_n o2 + length (ss_bytes subpath) \<le> 2 ^ 24" using o2(4) assms(2) by simp
  then obtain o3 ts where o3: "sandbox_loop al o2 (sb_n o2) subpath 0 undef = Some (if e then 1 else 0, o3, ts)"
    "sb_ready al o3" "sb_out o3 = sb_out o2 @ path_text st @ f" "sb_n o3 \<le> sb_n o2 + length (ss_bytes subpath)"
    using sandbox_loop_spec [OF o2(2), of "sb_out o2" "[]" subpath 0 undef] by (auto simp: nf n2)
  note path = aem_sandbox_path_def [of undef al out base subpath ext, unfolded o1(1) bind.bind_lunit o1(2) Let_def o3(1) prod.case]
  show ?thesis
  proof (cases ext)
    case None
    then show ?thesis using path o2(3) o3(2,3) by (auto simp: ext_text_def)
  next
    case (Some x)
    have out3: "ss_bytes (aem_stringslice_new_str literal_addr o3) = sb_out o3"
      by (simp add: aem_stringslice_new_str_def sb_out_def)
    have "sb_n o3 + length x \<le> 2 ^ 24" using o3(4) o2(4) assms(2) Some by simp
    then obtain o4 where "aem_stringbuf_puts al o3 (Some x) = Some o4" "sb_ready al o4" "sb_out o4 = sb_out o3 @ x"
      using appendsD [OF puts_appends o3(2)] by metis
    then show ?thesis using path Some o2(3) o3(2,3) out3 by (auto simp: match_end_spec ext_text_def)
  qed
qed

text \<open>C12: \<open>aem_sandbox_path\<close>, called without an extension, appends the base, a slash, and the
  normal form of the subpath: empty components and dots dropped, each \<open>..\<close> cancelling the component
  before it and ignored when there is none. The lowest bit of the result tells whether such a \<open>..\<close>
  occurred.\<close>

theorem sandbox_path_normalizes:
  assumes "sb_ready al out"
    and "sb_n out + length (ss_bytes base) + length (ss_bytes subpath) + 2 \<le> 2 ^ 24"
  shows "case path_norm [] (path_parts (ss_bytes subpath)) of (st, f, e) \<Rightarrow>
    \<exists>rc out'. aem_sandbox_path undef al out base subpath None = Some (rc, out') \<and> sb_ready al out' \<and>
      sb_out out' = sb_out out @ sandbox_base (ss_bytes base) @ path_text st @ f \<and>
      rc = (if e then 1 else 0)"
proof -
  obtain st f e where nf: "path_norm [] (path_parts (ss_bytes subpath)) = (st, f, e)"
    by (metis prod_cases3)
  then show ?thesis using sandbox_path_text [OF assms(1) _ nf, of base None undef] assms(2) by (auto simp: ext_text_def)
qed

theorem sandbox_path_normalizes_witness:
  "\<exists>out'. aem_sandbox_path False al_all AEM_STRINGBUF_EMPTY (aem_stringslice_new_len 64 (cstr ''d''))
      (aem_stringslice_new_len 80 (cstr ''a/../../b'')) None = Some (1, out') \<and> sb_out out' = cstr ''d/b''"
proof -
  have "path_norm [] (path_parts (cstr ''a/../../b'')) = ([], [98], True)"
    by (simp add: cstr_def path_parts.simps)
  then show ?thesis
    using sandbox_path_normalizes [of al_all AEM_STRINGBUF_EMPTY "aem_stringslice_new_len 64 (cstr ''d'')"
        "aem_stringslice_new_len 80 (cstr ''a/../../b'')" False]
    by (simp add: AEM_STRINGBUF_EMPTY_def [THEN arg_cong [of _ _ sb_n]] sandbox_base_def)
      (auto simp: cstr_def)
qed

lemma path_parts_text:
  "list_all safe_component st \<Longrightarrow> f = [] \<or> safe_component f \<Longrightarrow>
   path_parts (path_text st @ f) = map (\<lambda>c. (c, True)) st @ (if f = [] then [] else [(f, False)])"
proof (induction st)
  case Nil
  have "f \<noteq> [] \<Longrightarrow> 47 \<notin> set f" using Nil by (auto simp: safe_component_def)
  then have "f \<noteq> [] \<Longrightarrow> takeWhile (\<lambda>b. b \<noteq> 47) f = f \<and> dropWhile (\<lambda>b. b \<noteq> 47) f = []"
    by (auto simp: takeWhile_eq_all_conv dropWhile_eq_Nil_conv)
  then show ?case
    by (auto simp: path_parts.simps [of f] path_parts.simps [of "[]"] simp del: dropWhile_eq_Nil_conv)
next
  case (Cons c st)
  then have c: "c \<noteq> []" "47 \<notin> set c" by (simp_all add: safe_component_def)
  let ?r = "path_text st @ f"
  have r: "dropWhile (\<lambda>b. b = 47) ?r = ?r"
    using Cons.prems by (cases st) (auto simp: safe_component_def neq_Nil_conv)
  have tw: "takeWhile (\<lambda>b. b \<noteq> 47) (c @ 47 # ?r) = c" "dropWhile (\<lambda>b. b \<noteq> 47) (c @ 47 # ?r) = 47 # ?r"
    using c(2) by (auto simp: takeWhile_append dropWhile_append takeWhile_eq_all_conv)
  show ?case using Cons c tw r by (simp add: path_parts.simps [of "c @ 47 # ?r"])
qed

text \<open>No byte comes into a path that was not in the subpath.\<close>
lemma path_parts_bytes: "p \<in> set (path_parts bs) \<Longrightarrow> set (fst p) \<subseteq> set bs"
proof (induction bs rule: path_parts.induct)
  case (1 bs)
  have sub: "set (takeWhile P xs) \<subseteq> set xs" "set (dropWhile P xs) \<subseteq> set xs" for P and xs :: "u8 list"
    by (auto dest: set_takeWhileD set_dropWhileD)
  show ?case
  proof (cases "bs = []")
    case False
    then have "p = (takeWhile (\<lambda>b. b \<noteq> 47) bs, dropWhile (\<lambda>b. b \<noteq> 47) bs \<noteq> []) \<or>
        p \<in> set (path_parts (dropWhile (\<lambda>b. b = 47) (dropWhile (\<lambda>b. b \<noteq> 47) bs)))"
      using "1.prems" by (subst (asm) path_parts.simps) simp
    then show ?thesis
    proof (elim disjE)
      assume "p \<in> set (path_parts (dropWhile (\<lambda>b. b = 47) (dropWhile (\<lambda>b. b \<noteq> 47) bs)))"
      from "1.IH" [OF False this] show ?thesis using sub(2) by (meson subset_trans)
    qed (simp add: sub(1))
  qed (use "1.prems" in \<open>simp add: path_parts.simps\<close>)
qed

lemma path_norm_bytes:
  "\<forall>p \<in> set ps. b \<notin> set (fst p) \<Longrightarrow> \<forall>c \<in> set st. b \<notin> set c \<Longrightarrow> path_norm st ps = (st', f, e) \<Longrightarrow>
   (\<forall>c \<in> set st'. b \<notin> set c) \<and> b \<notin> set f"
proof (induction st ps arbitrary: st' f e rule: path_norm.induct)
  case (2 st c t ps)
  have rest: "\<forall>p \<in> set ps. b \<notin> set (fst p)" "b \<notin> set c" using "2.prems"(1) by auto
  have butlast: "\<forall>c \<in> set (butlast st). b \<notin> set c" using "2.prems"(2) by (auto dest: in_set_butlastD)
  show ?case
  proof (cases "c = [] \<or> c = [46]")
    case True
    then show ?thesis using "2.IH"(1) [OF True rest(1) "2.prems"(2)] "2.prems"(3) by simp
  next
    case named: False
    show ?thesis
    proof (cases "c = [46, 46]")
      case up: True
      show ?thesis
      proof (cases "st = []")
        case True
        obtain st1 f1 e1 where r: "path_norm [] ps = (st1, f1, e1)" by (metis prod_cases3)
        then show ?thesis using "2.IH"(2) [OF named up True rest(1) _ r] "2.prems"(3) up True by simp
      next
        case False
        then show ?thesis using "2.IH"(3) [OF named up False rest(1) butlast] "2.prems"(3) up by simp
      qed
    next
      case False
      show ?thesis
      proof (cases t)
        case True
        have "\<forall>x \<in> set (st @ [c]). b \<notin> set x" using "2.prems"(2) rest(2) by simp
        moreover have "path_norm (st @ [c]) ps = (st', f, e)" using "2.prems"(3) named False True by simp
        ultimately show ?thesis by (rule "2.IH"(4) [OF named False True rest(1)])
      next
        case last: False
        then show ?thesis using "2.prems"(2,3) rest(2) named False by simp
      qed
    qed
  qed
qed simp

text \<open>A component and an extension make a component.\<close>
lemma safe_component_append: "safe_component f \<Longrightarrow> 47 \<notin> set x \<Longrightarrow> safe_component (f @ x)"
  by (auto simp: safe_component_def append_eq_Cons_conv)

text \<open>C11: For a subpath without null bytes, and with no extension or one that is itself a
  proper name, every component of what \<open>aem_sandbox_path\<close> appends after the base is a proper name: none is
  empty, a dot or \<open>..\<close>. What it appends has no null byte, so whoever reads the result as a C string
  sees these components; following them from the base never leaves it. (With a null byte in the
  subpath a C string could end in \<open>..\<close>: \<open>sandbox_embedded_nul\<close>.)\<close>

theorem sandbox_path_contained:
  assumes "sb_ready al out"
    and "sb_n out + length (ss_bytes base) + length (ss_bytes subpath) + 2 + length (case ext of None \<Rightarrow> [] | Some e \<Rightarrow> e) \<le> 2 ^ 24"
    and "0 \<notin> set (ss_bytes subpath)" "\<And>e. ext = Some e \<Longrightarrow> safe_component e \<and> 0 \<notin> set e"
  shows "\<exists>rc out' q. aem_sandbox_path undef al out base subpath ext = Some (rc, out') \<and>
    sb_out out' = sb_out out @ sandbox_base (ss_bytes base) @ q \<and>
    (\<forall>(c, t) \<in> set (path_parts q). safe_component c) \<and> 0 \<notin> set q"
proof -
  obtain st f e where nf: "path_norm [] (path_parts (ss_bytes subpath)) = (st, f, e)"
    by (metis prod_cases3)
  obtain rc out' p where m: "p = sb_out out @ sandbox_base (ss_bytes base) @ path_text st @ f"
    "aem_sandbox_path undef al out base subpath ext = Some (rc, out')" "sb_out out' = p @ ext_text p ext"
    using sandbox_path_text [OF assms(1,2) nf, of undef] by blast
  define x where "x = ext_text p ext"
  have x: "x = [] \<or> safe_component x" "0 \<notin> set x" using assms(4) by (auto simp: x_def ext_text_def split: option.splits)
  have safe: "list_all safe_component st" "f = [] \<or> safe_component f"
    using path_norm_safe [OF _ _ nf] path_parts_no_slash by auto
  then have fx: "f @ x = [] \<or> safe_component (f @ x)"
    using x(1) safe_component_append [of f x] by (cases "f = []") (auto simp: safe_component_def)
  have "\<forall>(c, t) \<in> set (path_parts (path_text st @ f @ x)). safe_component c"
    unfolding path_parts_text [OF safe(1) fx] using safe fx by (auto simp: list_all_iff split: if_splits)
  moreover have "(\<forall>c \<in> set st. 0 \<notin> set c) \<and> 0 \<notin> set f"
    by (rule path_norm_bytes [OF _ _ nf]) (use assms(3) path_parts_bytes in auto)
  then have "0 \<notin> set (path_text st @ f @ x)" using x(2) by (auto simp: path_text_def)
  ultimately show ?thesis using m by (intro exI [of _ rc] exI [of _ out'] exI [of _ "path_text st @ f @ x"]) (simp add: x_def)
qed

theorem sandbox_path_contained_witness:
  "\<exists>rc out' q. aem_sandbox_path True al_all AEM_STRINGBUF_EMPTY (aem_stringslice_new_len 64 (cstr ''srv''))
      (aem_stringslice_new_len 80 (cstr ''/../../etc/passwd'')) (Some (cstr ''.txt'')) = Some (rc, out') \<and>
    sb_out out' = sandbox_base (cstr ''srv'') @ q \<and> (\<forall>(c, t) \<in> set (path_parts q). safe_component c) \<and> 0 \<notin> set q"
  using sandbox_path_contained [of al_all AEM_STRINGBUF_EMPTY "aem_stringslice_new_len 64 (cstr ''srv'')"
      "aem_stringslice_new_len 80 (cstr ''/../../etc/passwd'')" "Some (cstr ''.txt'')" True]
  by (simp add: AEM_STRINGBUF_EMPTY_def [THEN arg_cong [of _ _ sb_n]] cstr_def safe_component_def)

text \<open>The components are compared as byte strings, so one with an embedded null byte is a proper
  name here, and is \<open>..\<close> for whoever uses the result as a C string.\<close>

lemma sandbox_embedded_nul:
  "path_norm [] (path_parts [46, 46, 0, 120]) = ([], [46, 46, 0, 120], False) \<and>
   takeWhile (\<lambda>b. b \<noteq> 0) (sandbox_base [] @ [46, 46, 0, 120 :: u8]) = cstr ''./..''"
  by (simp add: path_parts.simps sandbox_base_def cstr_def)

end
