(* ===== verification/Aem_Nfa.thy ===== *)
theory Aem_Nfa
  imports Aem_Memory Aem_Slice "HOL-Library.Monad_Syntax"
begin

text \<open>
  \<open>nfa.c\<close>, first part: bit fields, character classes, the encoding of instructions, the
  construction of programs and the optimizer. A program is an array of 32-bit instructions;
  \<open>nfa_decode\<close> is the decoding at the head of the code's \<open>switch\<close>es. \<open>None\<close> is a failed
  \<open>aem_assert\<close>, which aborts, or a store outside an array.
\<close>

section \<open>Bit fields\<close>

definition bitfield_mask :: "nat \<Rightarrow> u32" where
  "bitfield_mask i = push_bit (i mod 32) 1"

definition bitfield_set :: "u32 list \<Rightarrow> nat \<Rightarrow> u32 list" where
  "bitfield_set bf i = bf[i div 32 := bf ! (i div 32) OR bitfield_mask i]"

definition bitfield_clear :: "u32 list \<Rightarrow> nat \<Rightarrow> u32 list" where
  "bitfield_clear bf i = bf[i div 32 := bf ! (i div 32) AND NOT (bitfield_mask i)]"

definition bitfield_test :: "u32 list \<Rightarrow> nat \<Rightarrow> bool" where
  "bitfield_test bf i \<longleftrightarrow> (bf ! (i div 32)) AND bitfield_mask i \<noteq> 0"

text \<open>\<open>(n + 31) >> 5\<close>\<close>
definition list_32 :: "nat \<Rightarrow> nat" where
  "list_32 n = (n + 31) div 32"

section \<open>Operations and classes\<close>

datatype aem_nfa_op = AEM_NFA_RANGE | AEM_NFA_CLASS | AEM_NFA_CAPTURE | AEM_NFA_MATCH | AEM_NFA_JMP
  | AEM_NFA_FORK

datatype aem_nfa_cclass = AEM_NFA_CCLASS_ALNUM | AEM_NFA_CCLASS_ALPHA | AEM_NFA_CCLASS_BLANK
  | AEM_NFA_CCLASS_CNTRL | AEM_NFA_CCLASS_DIGIT | AEM_NFA_CCLASS_GRAPH | AEM_NFA_CCLASS_LOWER
  | AEM_NFA_CCLASS_PRINT | AEM_NFA_CCLASS_PUNCT | AEM_NFA_CCLASS_SPACE | AEM_NFA_CCLASS_UPPER
  | AEM_NFA_CCLASS_XDIGIT | AEM_NFA_CCLASS_ANY | AEM_NFA_CCLASS_LINE

text \<open>The numbers the compiler gives the enumerators.\<close>

fun op_code :: "aem_nfa_op \<Rightarrow> nat" where
  "op_code AEM_NFA_RANGE = 0" | "op_code AEM_NFA_CLASS = 1" | "op_code AEM_NFA_CAPTURE = 2"
| "op_code AEM_NFA_MATCH = 3" | "op_code AEM_NFA_JMP = 4" | "op_code AEM_NFA_FORK = 5"

definition all_cclasses :: "aem_nfa_cclass list" where
  "all_cclasses = [AEM_NFA_CCLASS_ALNUM, AEM_NFA_CCLASS_ALPHA, AEM_NFA_CCLASS_BLANK,
    AEM_NFA_CCLASS_CNTRL, AEM_NFA_CCLASS_DIGIT, AEM_NFA_CCLASS_GRAPH, AEM_NFA_CCLASS_LOWER,
    AEM_NFA_CCLASS_PRINT, AEM_NFA_CCLASS_PUNCT, AEM_NFA_CCLASS_SPACE, AEM_NFA_CCLASS_UPPER,
    AEM_NFA_CCLASS_XDIGIT, AEM_NFA_CCLASS_ANY, AEM_NFA_CCLASS_LINE]"

fun cclass_code :: "aem_nfa_cclass \<Rightarrow> nat" where
  "cclass_code AEM_NFA_CCLASS_ALNUM = 0" | "cclass_code AEM_NFA_CCLASS_ALPHA = 1"
| "cclass_code AEM_NFA_CCLASS_BLANK = 2" | "cclass_code AEM_NFA_CCLASS_CNTRL = 3"
| "cclass_code AEM_NFA_CCLASS_DIGIT = 4" | "cclass_code AEM_NFA_CCLASS_GRAPH = 5"
| "cclass_code AEM_NFA_CCLASS_LOWER = 6" | "cclass_code AEM_NFA_CCLASS_PRINT = 7"
| "cclass_code AEM_NFA_CCLASS_PUNCT = 8" | "cclass_code AEM_NFA_CCLASS_SPACE = 9"
| "cclass_code AEM_NFA_CCLASS_UPPER = 10" | "cclass_code AEM_NFA_CCLASS_XDIGIT = 11"
| "cclass_code AEM_NFA_CCLASS_ANY = 12" | "cclass_code AEM_NFA_CCLASS_LINE = 13"

text \<open>The \<open>switch\<close> of \<open>aem_nfa_cclass_match\<close>, on the number of the class; the default matches
  nothing.\<close>
definition cclass_member :: "nat \<Rightarrow> int \<Rightarrow> bool" where
  "cclass_member cclass c =
     (if cclass < length all_cclasses then
        (case all_cclasses ! cclass of
           AEM_NFA_CCLASS_ALNUM \<Rightarrow> c_isalnum c
         | AEM_NFA_CCLASS_ALPHA \<Rightarrow> c_isalpha c
         | AEM_NFA_CCLASS_BLANK \<Rightarrow> c_isblank c
         | AEM_NFA_CCLASS_CNTRL \<Rightarrow> c_iscntrl c
         | AEM_NFA_CCLASS_DIGIT \<Rightarrow> c_isdigit c
         | AEM_NFA_CCLASS_GRAPH \<Rightarrow> c_isgraph c
         | AEM_NFA_CCLASS_LOWER \<Rightarrow> c_islower c
         | AEM_NFA_CCLASS_PRINT \<Rightarrow> c_isprint c
         | AEM_NFA_CCLASS_PUNCT \<Rightarrow> c_ispunct c
         | AEM_NFA_CCLASS_SPACE \<Rightarrow> c_isspace c
         | AEM_NFA_CCLASS_UPPER \<Rightarrow> c_isupper c
         | AEM_NFA_CCLASS_XDIGIT \<Rightarrow> c_isxdigit c
         | AEM_NFA_CCLASS_ANY \<Rightarrow> True
         | AEM_NFA_CCLASS_LINE \<Rightarrow> 32 \<le> c \<or> c = 9)
      else False)"

definition aem_nfa_cclass_match :: "bool \<Rightarrow> nat \<Rightarrow> int \<Rightarrow> bool" where
  "aem_nfa_cclass_match neg cclass c =
     (let match = (if 0 \<le> c \<and> c < 0x80 then cclass_member cclass c else False)
      in if neg then \<not> match else match)"

section \<open>Instructions\<close>

definition AEM_NFA_OP_LEN :: nat where "AEM_NFA_OP_LEN = 3"

definition aem_nfa_mk_insn :: "aem_nfa_op \<Rightarrow> u32 \<Rightarrow> u32" where
  "aem_nfa_mk_insn opc arg = push_bit AEM_NFA_OP_LEN arg OR of_nat (op_code opc)"

definition aem_nfa_insn_range :: "u32 \<Rightarrow> u32 \<Rightarrow> u32" where
  "aem_nfa_insn_range lo hi =
     (let lo1 = (if drop_bit 8 lo \<noteq> 0 then 0xff else lo);
          hi1 = (if drop_bit 8 hi \<noteq> 0 then 0xff else hi)
      in aem_nfa_mk_insn AEM_NFA_RANGE (push_bit 8 hi1 OR lo1))"

definition aem_nfa_insn_char :: "u32 \<Rightarrow> u32" where
  "aem_nfa_insn_char c = aem_nfa_insn_range c c"

definition aem_nfa_insn_class :: "u32 \<Rightarrow> u32 \<Rightarrow> aem_nfa_cclass \<Rightarrow> u32" where
  "aem_nfa_insn_class neg frontier cclass =
     aem_nfa_mk_insn AEM_NFA_CLASS
       (push_bit 2 (of_nat (cclass_code cclass)) OR push_bit 1 frontier OR neg)"

definition aem_nfa_insn_capture :: "u32 \<Rightarrow> nat \<Rightarrow> u32" where
  "aem_nfa_insn_capture fin n = aem_nfa_mk_insn AEM_NFA_CAPTURE (push_bit 1 (of_nat n) OR fin)"

definition aem_nfa_insn_match :: "int \<Rightarrow> u32" where
  "aem_nfa_insn_match match = aem_nfa_mk_insn AEM_NFA_MATCH (word_of_int match)"

definition aem_nfa_insn_jmp :: "nat \<Rightarrow> u32" where
  "aem_nfa_insn_jmp pc = aem_nfa_mk_insn AEM_NFA_JMP (of_nat pc)"

definition aem_nfa_insn_fork :: "nat \<Rightarrow> u32" where
  "aem_nfa_insn_fork pc = aem_nfa_mk_insn AEM_NFA_FORK (of_nat pc)"

text \<open>An instruction taken apart the way the \<open>switch\<close>es do.\<close>

datatype nfa_insn =
    I_Range u8 u8
  | I_Class bool bool nat    \<comment> \<open>negated, frontier, class number\<close>
  | I_Capture bool nat       \<comment> \<open>end, number\<close>
  | I_Match nat
  | I_Jmp nat
  | I_Fork nat
  | I_Invalid nat

definition nfa_decode :: "u32 \<Rightarrow> nfa_insn" where
  "nfa_decode w =
     (let opc = unat (w AND 7); insn = drop_bit AEM_NFA_OP_LEN w in
      if opc = op_code AEM_NFA_RANGE then
        I_Range (ucast (insn AND 0xff)) (ucast (drop_bit 8 insn AND 0xff))
      else if opc = op_code AEM_NFA_CLASS then
        I_Class (insn AND 1 \<noteq> 0) (insn AND 2 \<noteq> 0) (unat (drop_bit 2 insn))
      else if opc = op_code AEM_NFA_CAPTURE then I_Capture (insn AND 1 \<noteq> 0) (unat (drop_bit 1 insn))
      else if opc = op_code AEM_NFA_MATCH then I_Match (unat insn)
      else if opc = op_code AEM_NFA_JMP then I_Jmp (unat insn)
      else if opc = op_code AEM_NFA_FORK then I_Fork (unat insn)
      else I_Invalid opc)"

section \<open>Programs\<close>

record nfa_trace_info =
  ti_where :: stringslice
  ti_match :: int

record nfa =
  pgm :: "u32 list"
  n_insns :: nat
  alloc_insns :: nat
  n_captures :: nat
  trace_dbg :: "nfa_trace_info list"
  thr_init :: "u32 list"
  alloc_bitfields :: nat
  n_matches :: int

definition AEM_NFA_EMPTY :: nfa where
  "AEM_NFA_EMPTY = \<lparr>pgm = [], n_insns = 0, alloc_insns = 0, n_captures = 0, trace_dbg = [],
     thr_init = [], alloc_bitfields = 0, n_matches = 0\<rparr>"

text \<open>The allocators of the two kinds of arrays; \<open>sizeof\<close> the elements is 4 and 24.\<close>
record nfa_mem =
  mem_words :: "u32 allocator"
  mem_trace :: "nfa_trace_info allocator"

definition sizeof_insn :: nat where "sizeof_insn = 4"
definition sizeof_trace :: nat where "sizeof_trace = 24"

definition no_trace :: nfa_trace_info where
  "no_trace = \<lparr>ti_where = AEM_STRINGSLICE_EMPTY, ti_match = -1\<rparr>"

text \<open>\<open>aem_assert(!AEM_ARRAY_RESIZE(arr, n))\<close>\<close>
definition resize_or_abort :: "'a allocator \<Rightarrow> nat \<Rightarrow> 'a list \<Rightarrow> nat \<Rightarrow> 'a list option" where
  "resize_or_abort al elt arr n =
     (case aem_array_realloc_impl al elt arr n of (rc, arr') \<Rightarrow> if rc = 0 then Some arr' else None)"

text \<open>The part of \<open>aem_nfa_put_insn\<close> that makes room for an instruction at \<open>i\<close>.\<close>
definition put_insn_grow :: "nfa_mem \<Rightarrow> nfa \<Rightarrow> nat \<Rightarrow> nfa option" where
  "put_insn_grow m nfa i =
     (let n1 = sz (i + 1); alloc0 = alloc_insns nfa in
      case aem_array_grow_impl (mem_words m) sizeof_insn (pgm nfa) alloc0 n1 of
        (rc, pgm1, alloc1) \<Rightarrow>
          if rc < 0 then None
          else do {
            trace1 \<leftarrow> (if rc \<noteq> 0 then resize_or_abort (mem_trace m) sizeof_trace (trace_dbg nfa) alloc1
                        else Some (trace_dbg nfa));
            let pgm2 = take alloc0 pgm1 @ replicate (alloc1 - alloc0) (aem_nfa_insn_match (-1));
                trace2 = take alloc0 trace1 @ replicate (alloc1 - alloc0) no_trace;
                words = list_32 n1;
                nfa1 = nfa\<lparr>pgm := pgm2, n_insns := n1, alloc_insns := alloc1, trace_dbg := trace2\<rparr>
            in if alloc_bitfields nfa < words then
                 let dbl = sz (alloc_bitfields nfa * 2);
                     alloc_new = (if dbl < words then words + 1 else dbl)
                 in do {
                   ti \<leftarrow> resize_or_abort (mem_words m) sizeof_insn (thr_init nfa) alloc_new;
                   Some (nfa1\<lparr>thr_init := take (alloc_bitfields nfa) ti @
                            replicate (alloc_new - alloc_bitfields nfa) 0,
                          alloc_bitfields := alloc_new\<rparr>) }
               else Some nfa1 })"

definition aem_nfa_put_insn :: "nfa_mem \<Rightarrow> nfa \<Rightarrow> nat \<Rightarrow> u32 \<Rightarrow> (nat \<times> nfa) option" where
  "aem_nfa_put_insn m nfa i insn =
     do { nfa1 \<leftarrow> (if n_insns nfa \<le> sz (i + 1) then put_insn_grow m nfa i else Some nfa);
          if i < length (pgm nfa1) then Some (i, nfa1\<lparr>pgm := (pgm nfa1)[i := insn]\<rparr>) else None }"

definition aem_nfa_append_insn :: "nfa_mem \<Rightarrow> nfa \<Rightarrow> u32 \<Rightarrow> (nat \<times> nfa) option" where
  "aem_nfa_append_insn m nfa insn = aem_nfa_put_insn m nfa (n_insns nfa) insn"

definition aem_nfa_set_dbg :: "nfa \<Rightarrow> nat \<Rightarrow> stringslice \<Rightarrow> int \<Rightarrow> nfa" where
  "aem_nfa_set_dbg nfa i whr match =
     (if n_insns nfa \<le> i then nfa
      else nfa\<lparr>trace_dbg := (trace_dbg nfa)[i := \<lparr>ti_where = whr, ti_match = match\<rparr>]\<rparr>)"

text \<open>The copy keeps everything but \<open>n_matches\<close>.\<close>
definition aem_nfa_dup :: "nfa_mem \<Rightarrow> nfa ptr \<Rightarrow> nfa option" where
  "aem_nfa_dup m p =
     (case p of
        None \<Rightarrow> Some AEM_NFA_EMPTY
      | Some src \<Rightarrow> do {
          pgm1 \<leftarrow> resize_or_abort (mem_words m) sizeof_insn [] (alloc_insns src);
          ti1 \<leftarrow> resize_or_abort (mem_words m) sizeof_insn [] (alloc_bitfields src);
          tr1 \<leftarrow> resize_or_abort (mem_trace m) sizeof_trace [] (alloc_insns src);
          Some (AEM_NFA_EMPTY\<lparr>n_insns := n_insns src, alloc_insns := alloc_insns src,
            pgm := map ((!) (pgm src)) [0..<alloc_insns src], n_captures := n_captures src,
            alloc_bitfields := alloc_bitfields src,
            thr_init := map ((!) (thr_init src)) [0..<alloc_bitfields src],
            trace_dbg := map ((!) (trace_dbg src)) [0..<alloc_insns src]\<rparr>) })"

section \<open>The optimizer\<close>

text \<open>The recursive marking; \<open>None\<close> stands for not returning.\<close>
partial_function (option) aem_nfa_mark_reachable :: "nfa \<Rightarrow> u32 list \<Rightarrow> nat \<Rightarrow> u32 list option" where
  "aem_nfa_mark_reachable nfa reachable pc =
     (if pc < n_insns nfa \<and> \<not> bitfield_test reachable pc then
        let reachable1 = bitfield_set reachable pc in
        (case nfa_decode (pgm nfa ! pc) of
           I_Jmp t \<Rightarrow> aem_nfa_mark_reachable nfa reachable1 t
         | I_Fork t \<Rightarrow> do {
             reachable2 \<leftarrow> aem_nfa_mark_reachable nfa reachable1 t;
             aem_nfa_mark_reachable nfa reachable2 (pc + 1) }
         | I_Match k \<Rightarrow> Some reachable1
         | _ \<Rightarrow> aem_nfa_mark_reachable nfa reachable1 (pc + 1))
      else Some reachable)"

declare aem_nfa_mark_reachable.simps [code]

text \<open>Following a chain of jumps for at most \<open>k\<close> steps: where it ends, and whether it did not.\<close>
fun chase_jumps :: "nfa \<Rightarrow> nat \<Rightarrow> nat \<Rightarrow> nat \<times> bool" where
  "chase_jumps nfa dst 0 = (dst, True)"
| "chase_jumps nfa dst (Suc k) =
     (if n_insns nfa \<le> dst then (dst, False)
      else case nfa_decode (pgm nfa ! dst) of
             I_Jmp t \<Rightarrow> chase_jumps nfa t k
           | _ \<Rightarrow> (dst, False))"

text \<open>One round of the loop that threads jumps.\<close>
definition thread_jump :: "nfa_mem \<Rightarrow> nfa \<Rightarrow> nat \<Rightarrow> nfa option" where
  "thread_jump m nfa pc =
     (let retarget = (\<lambda>opc t. case chase_jumps nfa t (n_insns nfa) of (dst, lp) \<Rightarrow>
            if lp then Some nfa
            else if dst \<noteq> t
              then map_option snd (aem_nfa_put_insn m nfa pc (aem_nfa_mk_insn opc (of_nat dst)))
            else Some nfa)
      in case nfa_decode (pgm nfa ! pc) of
           I_Jmp t \<Rightarrow> retarget AEM_NFA_JMP t
         | I_Fork t \<Rightarrow> retarget AEM_NFA_FORK t
         | _ \<Rightarrow> Some nfa)"

text \<open>One round of the loop that splits initial forks.\<close>
definition split_initial :: "nfa \<Rightarrow> nat \<Rightarrow> nfa option" where
  "split_initial nfa pc =
     (if \<not> bitfield_test (thr_init nfa) pc then Some nfa
      else case nfa_decode (pgm nfa ! pc) of
             I_Fork t \<Rightarrow>
               if n_insns nfa \<le> t then Some nfa
               else if length (thr_init nfa) \<le> (pc + 1) div 32 then None
               else Some (nfa\<lparr>thr_init :=
                      bitfield_set (bitfield_set (bitfield_clear (thr_init nfa) pc) (pc + 1)) t\<rparr>)
           | _ \<Rightarrow> Some nfa)"

fun for_pcs :: "('s \<Rightarrow> nat \<Rightarrow> 's option) \<Rightarrow> nat list \<Rightarrow> 's \<Rightarrow> 's option" where
  "for_pcs f [] s = Some s"
| "for_pcs f (pc # pcs) s = do { s1 \<leftarrow> f s pc; for_pcs f pcs s1 }"

definition aem_nfa_optimize :: "nfa_mem \<Rightarrow> nfa \<Rightarrow> nfa option" where
  "aem_nfa_optimize m nfa =
     do { nfa1 \<leftarrow> for_pcs (thread_jump m) [0..<n_insns nfa] nfa;
          nfa2 \<leftarrow> for_pcs split_initial [0..<n_insns nfa1] nfa1;
          reachable \<leftarrow> for_pcs
            (\<lambda>r pc. if \<not> bitfield_test (thr_init nfa2) pc then Some r
                    else aem_nfa_mark_reachable nfa2 r pc)
            [0..<n_insns nfa2] (replicate (list_32 (n_insns nfa)) 0);
          for_pcs
            (\<lambda>nfa pc. if bitfield_test reachable pc then Some nfa
               else Some (aem_nfa_set_dbg nfa pc
                      (aem_stringslice_new_cstr (Some (cstr ''unreachable''))) (ti_match (trace_dbg nfa ! pc))))
            [0..<n_insns nfa2] nfa2 }"

section \<open>Facts about bit fields\<close>

text \<open>A bit field with room for \<open>n\<close> bits, and the set it represents.\<close>
definition bf_room :: "u32 list \<Rightarrow> nat \<Rightarrow> bool" where
  "bf_room bf n \<longleftrightarrow> n \<le> 32 * length bf"

definition bf_to_set :: "u32 list \<Rightarrow> nat \<Rightarrow> nat set" where
  "bf_to_set bf n = {i. i < n \<and> bitfield_test bf i}"

lemma bitfield_mask_bit [simp]: "bit (bitfield_mask i) k \<longleftrightarrow> k = i mod 32"
  by (auto simp: bitfield_mask_def bit_simps)

lemma bitfield_test_bit: "bitfield_test bf i \<longleftrightarrow> bit (bf ! (i div 32)) (i mod 32)"
proof -
  let ?w = "bf ! (i div 32)"
  have "?w AND bitfield_mask i = (if bit ?w (i mod 32) then bitfield_mask i else 0)"
    by (rule bit_word_eqI) (auto simp: bit_and_iff)
  moreover have "bit (bitfield_mask i) (i mod 32)" by simp
  then have "bitfield_mask i \<noteq> 0" by (auto simp del: bitfield_mask_bit)
  ultimately show ?thesis by (simp add: bitfield_test_def)
qed

lemma div_mod_eq: "i div 32 = j div 32 \<Longrightarrow> i mod 32 = j mod 32 \<Longrightarrow> i = (j :: nat)"
  by (metis div_mult_mod_eq)

lemma word_index: "bf_room bf n \<Longrightarrow> i < n \<Longrightarrow> i div 32 < length bf"
  by (auto simp: bf_room_def)

lemma bitfield_set_test:
  assumes "bf_room bf n" "i < n"
  shows "bitfield_test (bitfield_set bf i) j \<longleftrightarrow> i = j \<or> bitfield_test bf j"
proof (cases "i div 32 = j div 32")
  case True
  then have "i = j \<longleftrightarrow> j mod 32 = i mod 32" using div_mod_eq [of i j] by auto
  then show ?thesis using word_index [OF assms] True
    by (auto simp: bitfield_test_bit bitfield_set_def bit_or_iff)
next
  case False
  then show ?thesis by (auto simp: bitfield_test_bit bitfield_set_def)
qed

lemma bitfield_clear_test:
  assumes "bf_room bf n" "i < n"
  shows "bitfield_test (bitfield_clear bf i) j \<longleftrightarrow> i \<noteq> j \<and> bitfield_test bf j"
proof (cases "i div 32 = j div 32")
  case True
  then have "i = j \<longleftrightarrow> j mod 32 = i mod 32" using div_mod_eq [of i j] by auto
  moreover have "bit (bf ! (i div 32) AND NOT (bitfield_mask i)) (j mod 32) \<longleftrightarrow>
      bit (bf ! (i div 32)) (j mod 32) \<and> j mod 32 \<noteq> i mod 32"
    by (auto simp: bit_and_iff bit_not_iff)
  ultimately show ?thesis using word_index [OF assms] True
    by (simp add: bitfield_test_bit bitfield_clear_def) auto
next
  case False
  then show ?thesis by (auto simp: bitfield_test_bit bitfield_clear_def)
qed

lemma bf_room_set [simp]:
  "bf_room (bitfield_set bf i) n = bf_room bf n" "bf_room (bitfield_clear bf i) n = bf_room bf n"
  by (simp_all add: bf_room_def bitfield_set_def bitfield_clear_def)

lemma bf_to_set_set [simp]:
  "bf_room bf n \<Longrightarrow> i < n \<Longrightarrow> bf_to_set (bitfield_set bf i) n = insert i (bf_to_set bf n)"
  by (auto simp: bf_to_set_def bitfield_set_test)

lemma bf_to_set_clear [simp]:
  "bf_room bf n \<Longrightarrow> i < n \<Longrightarrow> bf_to_set (bitfield_clear bf i) n = bf_to_set bf n - {i}"
  by (auto simp: bf_to_set_def bitfield_clear_test)

lemma bf_zero [simp]:
  "bf_room (replicate (list_32 n) 0) n" "bf_to_set (replicate (list_32 n) 0) n = {}"
proof -
  show "bf_room (replicate (list_32 n) 0) n" by (simp add: bf_room_def list_32_def)
  have "i < n \<Longrightarrow> i div 32 < list_32 n" for i by (simp add: list_32_def)
  then show "bf_to_set (replicate (list_32 n) 0) n = {}"
    by (auto simp: bf_to_set_def bitfield_test_def)
qed

lemma bf_to_set_test: "i < n \<Longrightarrow> bitfield_test bf i \<longleftrightarrow> i \<in> bf_to_set bf n"
  by (simp add: bf_to_set_def)

lemma finite_bf_to_set [simp]: "finite (bf_to_set bf n)"
  by (simp add: bf_to_set_def)

lemma bf_to_set_subset: "bf_to_set bf n \<subseteq> {..<n}"
  by (auto simp: bf_to_set_def)

section \<open>Encoding and decoding\<close>

lemma mk_insn_op: "aem_nfa_mk_insn opc arg AND 7 = of_nat (op_code opc)"
proof -
  have m: "(7 :: u32) = mask 3" by (simp add: mask_eq_exp_minus_1)
  have "(of_nat (op_code opc) :: u32) AND mask 3 = of_nat (op_code opc)"
    by (cases opc) (simp_all add: mask_eq_exp_minus_1)
  moreover have "push_bit 3 arg AND mask 3 = (0 :: u32)"
    by (rule bit_word_eqI) (auto simp: bit_simps)
  ultimately show ?thesis
    unfolding aem_nfa_mk_insn_def AEM_NFA_OP_LEN_def m by (simp add: bit.conj_disj_distrib2)
qed

lemma mk_insn_arg: "drop_bit AEM_NFA_OP_LEN (aem_nfa_mk_insn opc arg) = arg AND mask 29"
proof -
  have "drop_bit 3 (of_nat (op_code opc) :: u32) = 0" by (cases opc) simp_all
  moreover have "drop_bit 3 (push_bit 3 arg) = arg AND mask 29"
    by (rule bit_word_eqI) (auto simp: bit_simps)
  ultimately show ?thesis unfolding aem_nfa_mk_insn_def AEM_NFA_OP_LEN_def by (simp add: drop_bit_or)
qed

lemma op_code_less: "op_code opc < 8"
  by (cases opc) simp_all

lemma mk_insn_opc: "unat (aem_nfa_mk_insn opc arg AND 7) = op_code opc"
  using op_code_less [of opc] by (simp add: mk_insn_op unsigned_of_nat take_bit_nat_eq_self)

lemma arg_small: "n < 2 ^ 29 \<Longrightarrow> (of_nat n :: u32) AND mask 29 = of_nat n"
  by (simp flip: take_bit_eq_mask add: take_bit_of_nat) (simp add: take_bit_nat_eq_self)

lemma unat_arg: "n < 2 ^ 29 \<Longrightarrow> unat (of_nat n :: u32) = n"
  by (simp add: unsigned_of_nat take_bit_nat_eq_self)

lemma decode_match: "k < 2 ^ 29 \<Longrightarrow> nfa_decode (aem_nfa_insn_match (int k)) = I_Match k"
  by (simp add: nfa_decode_def aem_nfa_insn_match_def mk_insn_opc mk_insn_arg arg_small unat_arg Let_def)

lemma decode_jmp: "pc < 2 ^ 29 \<Longrightarrow> nfa_decode (aem_nfa_insn_jmp pc) = I_Jmp pc"
  by (simp add: nfa_decode_def aem_nfa_insn_jmp_def mk_insn_opc mk_insn_arg arg_small unat_arg Let_def)

lemma decode_fork: "pc < 2 ^ 29 \<Longrightarrow> nfa_decode (aem_nfa_insn_fork pc) = I_Fork pc"
  by (simp add: nfa_decode_def aem_nfa_insn_fork_def mk_insn_opc mk_insn_arg arg_small unat_arg Let_def)

lemma decode_range: "nfa_decode (aem_nfa_insn_range (ucast lo) (ucast hi)) = I_Range lo hi"
proof -
  have small: "drop_bit 8 (ucast b :: u32) = 0" for b :: u8
    by (rule bit_word_eqI) (auto simp: bit_simps dest: bit_imp_le_length)
  have m: "(0xff :: u32) = mask 8" by (simp add: mask_eq_exp_minus_1)
  let ?a = "push_bit 8 (ucast hi) OR ucast lo :: u32"
  have "(ucast ((?a AND mask 29) AND mask 8) :: u8) = lo"
    by (rule bit_word_eqI) (auto simp: bit_simps)
  moreover have "(ucast (drop_bit 8 (?a AND mask 29) AND mask 8) :: u8) = hi"
    by (rule bit_word_eqI) (auto simp: bit_simps dest: bit_imp_le_length)
  ultimately show ?thesis
    unfolding nfa_decode_def aem_nfa_insn_range_def Let_def mk_insn_opc mk_insn_arg small m
    by (simp only: op_code.simps simp_thms if_True if_False)
qed

lemma decode_class:
  assumes "neg \<le> 1" "frontier \<le> 1"
  shows "nfa_decode (aem_nfa_insn_class neg frontier cc) = I_Class (neg = 1) (frontier = 1) (cclass_code cc)"
proof -
  have "neg = 0 \<or> neg = 1" "frontier = 0 \<or> frontier = 1"
    using assms by (simp_all add: word_le_nat_alt word_unat_eq_iff) linarith+
  then show ?thesis
    unfolding nfa_decode_def aem_nfa_insn_class_def Let_def mk_insn_opc mk_insn_arg
    by (elim disjE; cases cc) (simp_all add: mask_eq_exp_minus_1)
qed

lemma decode_capture:
  assumes "n < 2 ^ 28"
  shows "nfa_decode (aem_nfa_insn_capture (if fin then 1 else 0) n) = I_Capture fin n"
proof -
  let ?e = "if fin then 1 else 0 :: u32" let ?a = "push_bit 1 (of_nat n) OR ?e"
  have aval: "?a = of_nat (2 * n + (if fin then 1 else 0))"
  proof -
    have "push_bit 1 (of_nat n) AND ?e = 0" by (simp add: and_one_eq mod_2_eq_odd)
    then have "?a = push_bit 1 (of_nat n) + ?e" by (rule disjunctive_add_eq_or [symmetric])
    then show ?thesis by (simp add: push_bit_eq_mult)
  qed
  then have a: "?a AND mask 29 = ?a"
    using aval assms arg_small [of "2 * n + (if fin then 1 else 0)"] by simp
  have "?a AND 1 = ?e"
    unfolding aval by (cases fin) (simp_all add: and_one_eq mod_2_eq_odd)
  moreover have "drop_bit 1 ?a = of_nat n"
  proof -
    have dp: "drop_bit k (push_bit k w) = w AND mask (32 - k)" if "k \<le> 32" for k and w :: u32
      by (rule bit_word_eqI) (use that in \<open>auto simp: bit_simps\<close>)
    have "drop_bit 1 (push_bit 1 (of_nat n)) = (of_nat n AND mask 31 :: u32)"
      using dp [of 1 "of_nat n"] by simp
    also have "\<dots> = of_nat n"
      using assms by (simp flip: take_bit_eq_mask add: take_bit_of_nat) (simp add: take_bit_nat_eq_self)
    finally show ?thesis by (simp add: drop_bit_or)
  qed
  ultimately show ?thesis
    unfolding nfa_decode_def aem_nfa_insn_capture_def Let_def mk_insn_opc mk_insn_arg a
    using assms unat_arg [of n] by simp
qed

section \<open>The storage of a program\<close>

text \<open>The arrays have the lengths the fields say, and room for all instructions.\<close>
definition nfa_store :: "nfa \<Rightarrow> bool" where
  "nfa_store nfa \<longleftrightarrow> length (pgm nfa) = alloc_insns nfa \<and> length (trace_dbg nfa) = alloc_insns nfa \<and>
     length (thr_init nfa) = alloc_bitfields nfa \<and> n_insns nfa \<le> alloc_insns nfa \<and>
     n_insns nfa \<le> 32 * alloc_bitfields nfa \<and> alloc_insns nfa < 2 ^ 63"

text \<open>Nothing that was in the program has changed; what was added is not an initial instruction.\<close>
definition nfa_extends :: "nfa \<Rightarrow> nfa \<Rightarrow> bool" where
  "nfa_extends nfa nfa' \<longleftrightarrow> alloc_insns nfa \<le> alloc_insns nfa' \<and> alloc_bitfields nfa \<le> alloc_bitfields nfa' \<and>
     take (alloc_insns nfa) (pgm nfa') = pgm nfa \<and>
     take (alloc_insns nfa) (trace_dbg nfa') = trace_dbg nfa \<and>
     thr_init nfa' = thr_init nfa @ replicate (alloc_bitfields nfa' - alloc_bitfields nfa) 0 \<and>
     n_captures nfa' = n_captures nfa \<and> n_matches nfa' = n_matches nfa"

lemma nfa_extends_refl: "nfa_store nfa \<Longrightarrow> nfa_extends nfa nfa"
  by (simp add: nfa_store_def nfa_extends_def)

lemma resize_or_abort_Some:
  "resize_or_abort al elt arr k = Some arr' \<Longrightarrow> elt \<noteq> 0 \<Longrightarrow> arr' = realloc_content al arr k"
  using realloc_cases [of al elt arr k "fst (aem_array_realloc_impl al elt arr k)" "snd (aem_array_realloc_impl al elt arr k)"]
  by (auto simp: resize_or_abort_def split: prod.splits if_splits)

lemma list_32_room: "k \<le> 32 * list_32 k"
  by (simp add: list_32_def)

lemma list_32_le: "k \<le> 32 * w \<Longrightarrow> list_32 k \<le> w"
  by (simp add: list_32_def)

lemma take_realloc_all: "length arr = k \<Longrightarrow> k \<le> l \<Longrightarrow> take k (realloc_content al arr l) = arr"
  by (simp add: take_realloc_content)

lemma put_insn_grow_spec:
  assumes st: "nfa_store nfa" and n: "n_insns nfa \<le> sz (i + 1)"
    and res: "put_insn_grow m nfa i = Some nfa'" and i: "i < length (pgm nfa')" "i < 2 ^ 64"
  shows "nfa_store nfa' \<and> nfa_extends nfa nfa' \<and> n_insns nfa' = Suc i"
proof -
  let ?n1 = "sz (i + 1)" let ?words = "list_32 ?n1"
  obtain rc pgm1 alloc1 where g:
    "aem_array_grow_impl (mem_words m) sizeof_insn (pgm nfa) (alloc_insns nfa) ?n1 = (rc, pgm1, alloc1)"
    by (metis prod_cases3)
  let ?alloc0 = "alloc_insns nfa"
  from res g have rc: "\<not> rc < 0" by (auto simp: put_insn_grow_def Let_def)
  from res g obtain tr where tr: "(if rc \<noteq> 0 then resize_or_abort (mem_trace m) sizeof_trace (trace_dbg nfa) alloc1
        else Some (trace_dbg nfa)) = Some tr"
    by (auto simp: put_insn_grow_def Let_def bind_eq_Some_conv split: if_splits)
  let ?pgm2 = "take ?alloc0 pgm1 @ replicate (alloc1 - ?alloc0) (aem_nfa_insn_match (-1))"
  let ?tr2 = "take ?alloc0 tr @ replicate (alloc1 - ?alloc0) no_trace"
  let ?nfa1 = "nfa\<lparr>pgm := ?pgm2, n_insns := ?n1, alloc_insns := alloc1, trace_dbg := ?tr2\<rparr>"
  have lens: "length (pgm nfa) = ?alloc0" "length (trace_dbg nfa) = ?alloc0" "length (thr_init nfa) = alloc_bitfields nfa"
    using st by (simp_all add: nfa_store_def)
  have words: "(if alloc_bitfields nfa < ?words then
        let dbl = sz (alloc_bitfields nfa * 2); alloc_new = (if dbl < ?words then ?words + 1 else dbl)
        in do { ti \<leftarrow> resize_or_abort (mem_words m) sizeof_insn (thr_init nfa) alloc_new;
             Some (?nfa1\<lparr>thr_init := take (alloc_bitfields nfa) ti @ replicate (alloc_new - alloc_bitfields nfa) 0,
                alloc_bitfields := alloc_new\<rparr>) }
      else Some ?nfa1) = Some nfa'"
    using res unfolding put_insn_grow_def
    by (simp only: Let_def g prod.case tr rc if_False Option.bind.bind_lunit)
  have fields: "pgm nfa' = ?pgm2" "n_insns nfa' = ?n1" "alloc_insns nfa' = alloc1" "trace_dbg nfa' = ?tr2"
      "n_captures nfa' = n_captures nfa" "n_matches nfa' = n_matches nfa"
    using words by (auto simp: Let_def bind_eq_Some_conv split: if_splits)
  have bits: "alloc_bitfields nfa \<le> alloc_bitfields nfa' \<and> ?words \<le> alloc_bitfields nfa' \<and>
      thr_init nfa' = thr_init nfa @ replicate (alloc_bitfields nfa' - alloc_bitfields nfa) 0"
  proof (cases "alloc_bitfields nfa < ?words")
    case False
    then show ?thesis using words by auto
  next
    case True
    let ?new = "if sz (alloc_bitfields nfa * 2) < ?words then ?words + 1 else sz (alloc_bitfields nfa * 2)"
    obtain ti where ti: "resize_or_abort (mem_words m) sizeof_insn (thr_init nfa) ?new = Some ti"
      "nfa' = ?nfa1\<lparr>thr_init := take (alloc_bitfields nfa) ti @ replicate (?new - alloc_bitfields nfa) 0,
         alloc_bitfields := ?new\<rparr>"
      using words True by (auto simp: Let_def bind_eq_Some_conv)
    have "?words \<le> ?new" by simp
    moreover have "ti = realloc_content (mem_words m) (thr_init nfa) ?new"
      by (rule resize_or_abort_Some [OF ti(1)]) (simp add: sizeof_insn_def)
    then have "take (alloc_bitfields nfa) ti = thr_init nfa"
      using True lens(3) by (simp add: take_realloc_all)
    ultimately show ?thesis using True ti(2) by simp
  qed
  have arr: "?alloc0 \<le> alloc1 \<and> ?pgm2 = pgm nfa @ replicate (alloc1 - ?alloc0) (aem_nfa_insn_match (-1)) \<and>
      ?tr2 = trace_dbg nfa @ replicate (alloc1 - ?alloc0) no_trace"
  proof (rule grow_cases [OF g _ lens(1)])
    assume "rc = 1" "pgm1 = realloc_content (mem_words m) (pgm nfa) alloc1" "?alloc0 < ?n1"
      "alloc1 = sz (?alloc0 * 2) \<and> ?n1 \<le> alloc1 \<or> alloc1 = sz (?n1 + 8)" "length pgm1 = alloc1"
    moreover have tr': "tr = realloc_content (mem_trace m) (trace_dbg nfa) alloc1"
      by (rule resize_or_abort_Some [of _ sizeof_trace]) (use tr \<open>rc = 1\<close> in \<open>simp_all add: sizeof_trace_def\<close>)
    moreover have le: "?alloc0 \<le> alloc1"
    proof (rule ccontr)
      assume "\<not> ?alloc0 \<le> alloc1"
      then have "length ?pgm2 = alloc1" using \<open>length pgm1 = alloc1\<close> by simp
      moreover have "?n1 \<le> i + 1" by (rule sz_le)
      ultimately show False using i(1) \<open>?alloc0 < ?n1\<close> \<open>\<not> ?alloc0 \<le> alloc1\<close> unfolding fields(1) by linarith
    qed
    ultimately show ?thesis using lens by (simp add: take_realloc_all)
  qed (use rc tr lens in \<open>auto simp: sizeof_insn_def\<close>)
  have "alloc1 < 2 ^ 63"
    by (rule grow_cases [OF g _ lens(1)])
      (use st in \<open>auto simp: sizeof_insn_def nfa_store_def PTRDIFF_MAX_def\<close>)
  moreover have "i < alloc1" using i(1) lens(1) arr unfolding fields(1) by simp
  ultimately have n1: "?n1 = Suc i" "alloc1 < 2 ^ 63" "i < alloc1" by simp_all
  show ?thesis
    using st arr bits fields n1 lens i list_32_room [of ?n1] unfolding nfa_store_def nfa_extends_def
    by auto
qed

text \<open>The effect of storing an instruction.\<close>
definition put_effect :: "nfa \<Rightarrow> nat \<Rightarrow> u32 \<Rightarrow> nfa \<Rightarrow> bool" where
  "put_effect nfa i insn nfa' \<longleftrightarrow> nfa_store nfa' \<and> n_insns nfa' = max (n_insns nfa) (Suc i) \<and>
     pgm nfa' ! i = insn \<and> (\<forall>p \<in> {..<alloc_insns nfa} - {i}. pgm nfa' ! p = pgm nfa ! p) \<and>
     thr_init nfa' = thr_init nfa @ replicate (alloc_bitfields nfa' - alloc_bitfields nfa) 0 \<and>
     take (alloc_insns nfa) (trace_dbg nfa') = trace_dbg nfa \<and>
     n_captures nfa' = n_captures nfa \<and> n_matches nfa' = n_matches nfa \<and>
     alloc_insns nfa \<le> alloc_insns nfa' \<and> alloc_bitfields nfa \<le> alloc_bitfields nfa'"

lemma put_insn_effect:
  assumes st: "nfa_store nfa" and res: "aem_nfa_put_insn m nfa i insn = Some (j, nfa')" and i: "i < 2 ^ 64"
  shows "j = i \<and> put_effect nfa i insn nfa'"
proof -
  obtain nfa1 where nfa1: "(if n_insns nfa \<le> sz (i + 1) then put_insn_grow m nfa i else Some nfa) = Some nfa1"
    "i < length (pgm nfa1)" "j = i" "nfa' = nfa1\<lparr>pgm := (pgm nfa1)[i := insn]\<rparr>"
    using res by (auto simp: aem_nfa_put_insn_def bind_eq_Some_conv split: if_splits)
  have a: "nfa_store nfa1 \<and> nfa_extends nfa nfa1 \<and> n_insns nfa1 = max (n_insns nfa) (Suc i)"
  proof (cases "n_insns nfa \<le> sz (i + 1)")
    case True
    then have g: "put_insn_grow m nfa i = Some nfa1" using nfa1(1) by simp
    have "n_insns nfa \<le> Suc i" using True sz_le [of "i + 1"] by simp
    then show ?thesis using put_insn_grow_spec [OF st True g nfa1(2) i] by simp
  next
    case False
    then have same: "nfa1 = nfa" using nfa1(1) by simp
    have "i < 2 ^ 63" using nfa1(2) st unfolding same nfa_store_def by simp
    then have "sz (i + 1) = i + 1" by simp
    then show ?thesis using False same st nfa_extends_refl [OF st] by simp
  qed
  have "pgm nfa1 ! p = pgm nfa ! p" if "p < alloc_insns nfa" for p
    using a that by (metis nfa_extends_def nth_take)
  then show ?thesis
    using a nfa1 by (auto simp: put_effect_def nfa_store_def nfa_extends_def)
qed

text \<open>Where memory is granted, storing an instruction succeeds.\<close>
definition nfa_mem_ok :: "nfa_mem \<Rightarrow> bool" where
  "nfa_mem_ok m \<longleftrightarrow> al_ok (mem_words m) = (\<lambda>_. True) \<and> al_ok (mem_trace m) = (\<lambda>_. True)"

lemma realloc_granted:
  "al_ok al = (\<lambda>_. True) \<Longrightarrow> 0 < elt \<Longrightarrow> 0 < k \<Longrightarrow> k * elt \<le> PTRDIFF_MAX \<Longrightarrow>
   aem_array_realloc_impl al elt arr k = (0, realloc_content al arr k)"
  by (simp add: aem_array_realloc_impl_def Let_def alloc_granted_def PTRDIFF_MAX_def)

lemma put_insn_granted:
  assumes st: "nfa_store nfa" and m: "nfa_mem_ok m"
    and small: "i < 2 ^ 40" "alloc_insns nfa < 2 ^ 40" "alloc_bitfields nfa < 2 ^ 40" "i \<le> n_insns nfa"
  shows "\<exists>nfa'. aem_nfa_put_insn m nfa i insn = Some (i, nfa')"
proof (cases "n_insns nfa \<le> sz (i + 1)")
  case False
  then have "i < n_insns nfa" using small by simp
  then show ?thesis using False st by (auto simp: aem_nfa_put_insn_def nfa_store_def)
next
  case True
  let ?al = "mem_words m" and ?a = "alloc_insns nfa"
  define alloc1 where "alloc1 = (if ?a < i + 1 then if ?a * 2 < i + 1 then i + 9 else ?a * 2 else ?a)"
  have n1: "sz (i + 1) = i + 1" using small by simp
  have a1: "?a \<le> alloc1" "i < alloc1" "alloc1 < 2 ^ 42" using small by (auto simp: alloc1_def)
  have "\<exists>rc pgm1. aem_array_grow_impl ?al sizeof_insn (pgm nfa) ?a (i + 1) = (rc, pgm1, alloc1) \<and>
      0 \<le> rc \<and> ?a \<le> length pgm1"
  proof (cases "?a < i + 1")
    case False
    then show ?thesis using st by (simp add: aem_array_grow_impl_def alloc1_def nfa_store_def)
  next
    case less: True
    have real: "aem_array_realloc_impl ?al sizeof_insn (pgm nfa) alloc1 = (0, realloc_content ?al (pgm nfa) alloc1)"
      by (rule realloc_granted) (use m a1 in \<open>simp_all add: nfa_mem_ok_def sizeof_insn_def PTRDIFF_MAX_def\<close>)
    have new: "(if sz (?a * 2) < i + 1 then sz (i + 1 + 8) else sz (?a * 2)) = alloc1"
      using less small by (simp add: alloc1_def)
    show ?thesis using less a1
      by (simp only: aem_array_grow_impl_def Let_def if_True new real prod.case) simp
  qed
  then obtain rc pgm1 where g: "aem_array_grow_impl ?al sizeof_insn (pgm nfa) ?a (i + 1) = (rc, pgm1, alloc1)"
    "\<not> rc < 0" "?a \<le> length pgm1" by auto
  have "\<exists>tr. resize_or_abort (mem_trace m) sizeof_trace (trace_dbg nfa) alloc1 = Some tr"
    using realloc_granted [of "mem_trace m" sizeof_trace alloc1 "trace_dbg nfa"] m a1
    by (simp add: resize_or_abort_def nfa_mem_ok_def sizeof_trace_def PTRDIFF_MAX_def)
  then obtain tr where tr: "(if rc \<noteq> 0 then resize_or_abort (mem_trace m) sizeof_trace (trace_dbg nfa) alloc1
      else Some (trace_dbg nfa)) = Some tr" by (cases "rc = 0") auto
  have words: "\<exists>ti. resize_or_abort ?al sizeof_insn (thr_init nfa) k = Some ti" if "0 < k" "k < 2 ^ 42" for k
    using realloc_granted [of ?al sizeof_insn k "thr_init nfa"] m that
    by (simp add: resize_or_abort_def nfa_mem_ok_def sizeof_insn_def PTRDIFF_MAX_def)
  have l32: "list_32 (i + 1) < 2 ^ 40" using small by (simp add: list_32_def)
  have len: "i < length (take ?a pgm1 @ replicate (alloc1 - ?a) (aem_nfa_insn_match (-1)))"
    using a1 g(3) by simp
  have dbl: "sz (alloc_bitfields nfa * 2) = alloc_bitfields nfa * 2" using small by simp
  have "\<exists>nfa1. put_insn_grow m nfa i = Some nfa1 \<and> i < length (pgm nfa1)"
  proof (cases "alloc_bitfields nfa < list_32 (i + 1)")
    case False
    then show ?thesis using len
      by (simp only: put_insn_grow_def Let_def n1 g prod.case tr if_False Option.bind.bind_lunit) simp
  next
    case less: True
    let ?new = "if alloc_bitfields nfa * 2 < list_32 (i + 1) then list_32 (i + 1) + 1 else alloc_bitfields nfa * 2"
    have "0 < ?new" "?new < 2 ^ 42" using less small l32 by (simp_all split: if_splits)
    then obtain ti where "resize_or_abort ?al sizeof_insn (thr_init nfa) ?new = Some ti"
      using words by blast
    then show ?thesis using len less
      by (simp only: put_insn_grow_def Let_def n1 g prod.case tr if_False if_True dbl Option.bind.bind_lunit) simp
  qed
  then show ?thesis using True by (auto simp: aem_nfa_put_insn_def)
qed

text \<open>storing an instruction at an index of a program, or right behind it, succeeds
  when memory is granted and the program is below \<open>2 ^ 40\<close> instructions; the program's arrays keep
  the lengths the fields state, the new instruction is at the index, all others and their debug
  information are what they were, and no instruction behind the old program becomes initial.\<close>
theorem put_insn_stores:
  assumes "nfa_store nfa" "nfa_mem_ok m" "i \<le> n_insns nfa"
    and "alloc_insns nfa < 2 ^ 40" "alloc_bitfields nfa < 2 ^ 40"
  shows "\<exists>nfa'. aem_nfa_put_insn m nfa i insn = Some (i, nfa') \<and> nfa_store nfa' \<and>
    n_insns nfa' = max (n_insns nfa) (Suc i) \<and> pgm nfa' ! i = insn \<and>
    (\<forall>p \<in> {..<n_insns nfa} - {i}. pgm nfa' ! p = pgm nfa ! p \<and> trace_dbg nfa' ! p = trace_dbg nfa ! p) \<and>
    (\<forall>p < 32 * alloc_bitfields nfa'.
       bitfield_test (thr_init nfa') p = (p < 32 * alloc_bitfields nfa \<and> bitfield_test (thr_init nfa) p))"
proof -
  have i: "i < 2 ^ 40" using assms by (simp add: nfa_store_def)
  from put_insn_granted [OF assms(1,2) i assms(4,5,3)] obtain nfa' where
    put: "aem_nfa_put_insn m nfa i insn = Some (i, nfa')" by blast
  have e: "put_effect nfa i insn nfa'" using put_insn_effect [OF assms(1) put] i by simp
  have n: "n_insns nfa \<le> alloc_insns nfa" "length (thr_init nfa) = alloc_bitfields nfa"
    using assms(1) by (simp_all add: nfa_store_def)
  have "trace_dbg nfa' ! p = trace_dbg nfa ! p" if "p < n_insns nfa" for p
    using e that n by (metis nth_take order.strict_trans2 put_effect_def)
  moreover have "bitfield_test (thr_init nfa') p = (p < 32 * alloc_bitfields nfa \<and> bitfield_test (thr_init nfa) p)"
    if "p < 32 * alloc_bitfields nfa'" for p
  proof -
    have "thr_init nfa' ! (p div 32) = (if p < 32 * alloc_bitfields nfa then thr_init nfa ! (p div 32) else 0)"
      using e that n by (auto simp: put_effect_def nth_append)
    then show ?thesis by (simp add: bitfield_test_def)
  qed
  ultimately show ?thesis using put e n(1) by (auto simp: put_effect_def)
qed

lemma put_insn_stores_witness:
  "\<exists>nfa'. aem_nfa_append_insn \<lparr>mem_words = \<lparr>al_ok = \<lambda>_. True, al_junk = 7\<rparr>,
      mem_trace = \<lparr>al_ok = \<lambda>_. True, al_junk = no_trace\<rparr>\<rparr> AEM_NFA_EMPTY (aem_nfa_insn_jmp 0) = Some (0, nfa') \<and>
    n_insns nfa' = 1"
  using put_insn_stores [of AEM_NFA_EMPTY "\<lparr>mem_words = \<lparr>al_ok = \<lambda>_. True, al_junk = 7\<rparr>,
      mem_trace = \<lparr>al_ok = \<lambda>_. True, al_junk = no_trace\<rparr>\<rparr>" 0 "aem_nfa_insn_jmp 0"]
  by (auto simp: aem_nfa_append_insn_def nfa_store_def nfa_mem_ok_def AEM_NFA_EMPTY_def)

section \<open>Decoding any instruction\<close>

text \<open>The opcode always survives; an argument that is too large loses its upper bits.\<close>

lemma decode_mk:
  "nfa_decode (aem_nfa_mk_insn opc arg) =
     (case opc of
        AEM_NFA_RANGE \<Rightarrow> I_Range (ucast ((arg AND mask 29) AND 0xff)) (ucast (drop_bit 8 (arg AND mask 29) AND 0xff))
      | AEM_NFA_CLASS \<Rightarrow> I_Class ((arg AND mask 29) AND 1 \<noteq> 0) ((arg AND mask 29) AND 2 \<noteq> 0)
          (unat (drop_bit 2 (arg AND mask 29)))
      | AEM_NFA_CAPTURE \<Rightarrow> I_Capture ((arg AND mask 29) AND 1 \<noteq> 0) (unat (drop_bit 1 (arg AND mask 29)))
      | AEM_NFA_MATCH \<Rightarrow> I_Match (unat (arg AND mask 29))
      | AEM_NFA_JMP \<Rightarrow> I_Jmp (unat (arg AND mask 29))
      | AEM_NFA_FORK \<Rightarrow> I_Fork (unat (arg AND mask 29)))"
  unfolding nfa_decode_def Let_def mk_insn_opc mk_insn_arg by (cases opc) simp_all

lemma unat_arg_mod: "unat (of_nat k AND mask 29 :: u32) = k mod 2 ^ 29"
  by (simp flip: take_bit_eq_mask add: take_bit_of_nat unsigned_of_nat)
    (simp add: take_bit_eq_mod)

lemma decode_jmp_mod: "nfa_decode (aem_nfa_insn_jmp t) = I_Jmp (t mod 2 ^ 29)"
  unfolding aem_nfa_insn_jmp_def decode_mk unat_arg_mod by simp

lemma decode_fork_mod: "nfa_decode (aem_nfa_insn_fork t) = I_Fork (t mod 2 ^ 29)"
  unfolding aem_nfa_insn_fork_def decode_mk unat_arg_mod by simp

lemma decode_capture_le:
  assumes "fin \<le> 1"
  shows "\<exists>e k. nfa_decode (aem_nfa_insn_capture fin n) = I_Capture e k \<and> k \<le> n"
proof -
  let ?a = "(push_bit 1 (of_nat n) OR fin) AND mask 29 :: u32"
  have "fin = 0 \<or> fin = 1" using assms by (simp add: word_le_nat_alt word_unat_eq_iff) linarith
  then have "drop_bit 1 fin = 0" by auto
  moreover have "drop_bit j (push_bit j w AND mask (j + 28)) = w AND mask 28" if "j + 28 \<le> 32" for j and w :: u32
    by (rule bit_word_eqI) (use that in \<open>auto simp: bit_simps\<close>)
  from this [of 1 "of_nat n"] have "drop_bit 1 (push_bit 1 (of_nat n) AND mask 29) = (of_nat n AND mask 28 :: u32)"
    by simp
  ultimately have "drop_bit 1 ?a = of_nat n AND mask 28"
    by (simp only: bit.conj_disj_distrib2 drop_bit_or drop_bit_and and_zero_eq or.right_neutral zero_and_eq)
  then have "unat (drop_bit 1 ?a) = unat (of_nat n AND mask 28 :: u32)" by simp
  also have "\<dots> = n mod 2 ^ 28"
    by (simp flip: take_bit_eq_mask add: take_bit_of_nat unsigned_of_nat)
      (simp add: take_bit_eq_mod)
  also have "\<dots> \<le> n" by simp
  finally show ?thesis unfolding aem_nfa_insn_capture_def decode_mk by auto
qed

lemma decode_kinds:
  "\<exists>lo hi. nfa_decode (aem_nfa_insn_range a b) = I_Range lo hi"
  "\<exists>ng fr k. nfa_decode (aem_nfa_insn_class x y cc) = I_Class ng fr k"
  "\<exists>k. nfa_decode (aem_nfa_insn_match j) = I_Match k"
  by (auto simp: aem_nfa_insn_range_def aem_nfa_insn_class_def aem_nfa_insn_match_def decode_mk Let_def)

text \<open>C8: an instruction that was built from arguments in range decodes to its operation
  and exactly these arguments: bytes, flags and class, a capture below \<open>2 ^ 28\<close>, a match number or
  target below \<open>2 ^ 29\<close>. A larger target loses its upper bits.\<close>
theorem insn_encode_decode:
  "nfa_decode (aem_nfa_insn_range (ucast lo) (ucast hi)) = I_Range lo hi \<and>
   nfa_decode (aem_nfa_insn_class (if neg then 1 else 0) (if fr then 1 else 0) cc) = I_Class neg fr (cclass_code cc) \<and>
   (k < 2 ^ 28 \<longrightarrow> nfa_decode (aem_nfa_insn_capture (if fin then 1 else 0) k) = I_Capture fin k) \<and>
   (n < 2 ^ 29 \<longrightarrow> nfa_decode (aem_nfa_insn_match (int n)) = I_Match n) \<and>
   nfa_decode (aem_nfa_insn_jmp t) = I_Jmp (t mod 2 ^ 29) \<and>
   nfa_decode (aem_nfa_insn_fork t) = I_Fork (t mod 2 ^ 29)"
  using decode_class [of "if neg then 1 else 0" "if fr then 1 else 0" cc]
  by (simp add: decode_range decode_capture decode_match decode_jmp_mod decode_fork_mod)

lemma insn_encode_decode_witness:
  "nfa_decode (aem_nfa_insn_capture 1 5) = I_Capture True 5 \<and> nfa_decode (aem_nfa_insn_match 7) = I_Match 7"
  using insn_encode_decode [of 0 0 True True AEM_NFA_CCLASS_ANY 5 True 7 0] by simp

end
