(* ===== verification/Aem_Regex.thy ===== *)
theory Aem_Regex
  imports Aem_Nfa Aem_Translate Aem_Stack
begin

text \<open>
  \<open>regex.c\<close>, with the tree and the flags of \<open>nfa-compile.h\<close>: the parser of patterns. A node of
  the tree is a value of a datatype, its stack of children the list of them. Memory for nodes is
  granted, so that \<open>aem_nfa_node_new\<close> never returns \<open>NULL\<close> and the two functions that return
  \<open>NULL\<close> only without memory return a node. Recursive descent takes the depth of the call stack
  as an argument: \<open>None\<close> is a call that does not return within it.
\<close>

section \<open>The tree\<close>

datatype nfa_node_args =
    AEM_NFA_NODE_RANGE u32 u32                 \<comment> \<open>\<open>min\<close>, \<open>max\<close>\<close>
  | AEM_NFA_NODE_ATOM u32
  | AEM_NFA_NODE_CLASS aem_nfa_cclass bool bool \<comment> \<open>class, \<open>neg\<close>, \<open>frontier\<close>\<close>
  | AEM_NFA_NODE_CAPTURE nat
  | AEM_NFA_NODE_REPEAT u32 u32 bool           \<comment> \<open>\<open>min\<close>, \<open>max\<close>, \<open>reluctant\<close>\<close>
  | AEM_NFA_NODE_BRANCH
  | AEM_NFA_NODE_ALTERNATION

datatype nfa_node = Node (nd_args: nfa_node_args) (nd_text: stringslice) (nd_children: "nfa_node list")

definition aem_nfa_node_new :: "nfa_node_args \<Rightarrow> nfa_node" where
  "aem_nfa_node_new args = Node args AEM_STRINGSLICE_EMPTY []"

fun aem_nfa_node_push :: "nfa_node \<Rightarrow> nfa_node \<Rightarrow> nfa_node" where
  "aem_nfa_node_push (Node args txt children) child = Node args txt (children @ [child])"

definition nd_set_text :: "nfa_node \<Rightarrow> stringslice \<Rightarrow> nfa_node" where
  "nd_set_text node txt = Node (nd_args node) txt (nd_children node)"

definition UINT_MAX :: u32 where "UINT_MAX = 0xFFFFFFFF"

text \<open>\<open>AEM_ENUM_DEFINE\<close> makes the names out of the enumerators; an invalid value has none.\<close>
definition aem_nfa_cclass_name :: "nat \<Rightarrow> u8 list ptr" where
  "aem_nfa_cclass_name cclass =
     (if cclass < length all_cclasses then
        Some (case all_cclasses ! cclass of
           AEM_NFA_CCLASS_ALNUM \<Rightarrow> cstr ''alnum'' | AEM_NFA_CCLASS_ALPHA \<Rightarrow> cstr ''alpha''
         | AEM_NFA_CCLASS_BLANK \<Rightarrow> cstr ''blank'' | AEM_NFA_CCLASS_CNTRL \<Rightarrow> cstr ''cntrl''
         | AEM_NFA_CCLASS_DIGIT \<Rightarrow> cstr ''digit'' | AEM_NFA_CCLASS_GRAPH \<Rightarrow> cstr ''graph''
         | AEM_NFA_CCLASS_LOWER \<Rightarrow> cstr ''lower'' | AEM_NFA_CCLASS_PRINT \<Rightarrow> cstr ''print''
         | AEM_NFA_CCLASS_PUNCT \<Rightarrow> cstr ''punct'' | AEM_NFA_CCLASS_SPACE \<Rightarrow> cstr ''space''
         | AEM_NFA_CCLASS_UPPER \<Rightarrow> cstr ''upper'' | AEM_NFA_CCLASS_XDIGIT \<Rightarrow> cstr ''xdigit''
         | AEM_NFA_CCLASS_ANY \<Rightarrow> cstr ''any'' | AEM_NFA_CCLASS_LINE \<Rightarrow> cstr ''line'')
      else None)"

section \<open>Flags\<close>

definition AEM_REGEX_FLAG_DEBUG :: u32 where "AEM_REGEX_FLAG_DEBUG = 0x01"
definition AEM_REGEX_FLAG_EXPLICIT_CAPTURES :: u32 where "AEM_REGEX_FLAG_EXPLICIT_CAPTURES = 0x02"
definition AEM_REGEX_FLAG_BINARY :: u32 where "AEM_REGEX_FLAG_BINARY = 0x20"

text \<open>\<open>AEM_REGEX_FLAGS_DEFINE\<close>: value, letter, and whether a pattern may set the flag itself.\<close>
definition regex_flags :: "(u32 \<times> u8 list \<times> bool) list" where
  "regex_flags = [(AEM_REGEX_FLAG_DEBUG, cstr ''d'', False),
     (AEM_REGEX_FLAG_EXPLICIT_CAPTURES, cstr ''c'', True), (AEM_REGEX_FLAG_BINARY, cstr ''b'', True)]"

text \<open>The tests of one round of the loop. A letter that is not safe in a sandbox is consumed all
  the same, and the next letters are tried.\<close>
fun flags_round :: "bool \<Rightarrow> (u32 \<times> u8 list \<times> bool) list \<Rightarrow> stringslice \<Rightarrow> u32 option \<times> stringslice" where
  "flags_round sandbox [] sl = (None, sl)"
| "flags_round sandbox ((val, letter, safe) # rest) sl =
     (case aem_stringslice_match sl letter of (m, sl1) \<Rightarrow>
        if m \<and> (safe \<or> \<not> sandbox) then (Some val, sl1) else flags_round sandbox rest sl1)"

lemma match_shorter:
  "aem_stringslice_match sl w = (b, sl') \<Longrightarrow> length (ss_bytes sl') \<le> length (ss_bytes sl)"
  "aem_stringslice_match sl w = (True, sl') \<Longrightarrow> w \<noteq> [] \<Longrightarrow> length (ss_bytes sl') < length (ss_bytes sl)"
  by (auto simp: match_spec prefix_def split: if_splits)

lemma flags_round_le:
  "flags_round sandbox fs sl = (r, sl') \<Longrightarrow> length (ss_bytes sl') \<le> length (ss_bytes sl)"
proof (induction sandbox fs sl rule: flags_round.induct)
  case (2 sandbox val letter safe rest sl)
  obtain m sl1 where m: "aem_stringslice_match sl letter = (m, sl1)" by fastforce
  then show ?case using 2 match_shorter(1) [OF m] by (auto split: if_splits)
qed simp

lemma flags_round_less:
  assumes "flags_round sandbox regex_flags sl = (Some v, sl')"
  shows "length (ss_bytes sl') < length (ss_bytes sl)"
proof -
  have "flags_round sandbox fs sl = (Some v, sl') \<Longrightarrow> \<forall>(val, letter, safe) \<in> set fs. letter \<noteq> [] \<Longrightarrow>
      length (ss_bytes sl') < length (ss_bytes sl)" for fs sl
  proof (induction sandbox fs sl rule: flags_round.induct)
    case (2 sandbox val letter safe rest sl)
    obtain m sl1 where m: "aem_stringslice_match sl letter = (m, sl1)" by fastforce
    then show ?case using 2 match_shorter(1) [OF m] match_shorter(2) [of sl letter sl1]
      by (fastforce split: if_splits)
  qed simp
  moreover have "\<forall>(val, letter, safe) \<in> set regex_flags. letter \<noteq> []"
    by (simp add: regex_flags_def cstr_def)
  ultimately show ?thesis using assms by blast
qed

function flags_loop :: "bool \<Rightarrow> stringslice \<Rightarrow> u32 \<Rightarrow> u32 \<times> stringslice" where
  "flags_loop sandbox sl flags =
     (case flags_round sandbox regex_flags sl of
        (Some v, sl1) \<Rightarrow> flags_loop sandbox sl1 (flags OR v)
      | (None, sl1) \<Rightarrow> (flags, sl1))"
  by pat_completeness auto
termination
  by (relation "measure (\<lambda>(sandbox, sl, flags). length (ss_bytes sl))")
    (auto dest: flags_round_less [OF sym])

declare flags_loop.simps [simp del]

definition aem_regex_flags_parse :: "stringslice \<Rightarrow> bool \<Rightarrow> u32 \<times> stringslice" where
  "aem_regex_flags_parse sl sandbox = flags_loop sandbox sl 0"

definition aem_regex_flags_adj :: "stringslice \<Rightarrow> u32 \<Rightarrow> bool \<Rightarrow> u32 \<times> stringslice" where
  "aem_regex_flags_adj sl flags sandbox =
     (case aem_regex_flags_parse sl sandbox of (f1, sl1) \<Rightarrow>
        case aem_stringslice_match sl1 (cstr ''-'') of (dash, sl2) \<Rightarrow>
          if dash then
            (case aem_regex_flags_parse sl2 sandbox of (f2, sl3) \<Rightarrow> ((flags OR f1) AND NOT f2, sl3))
          else (flags OR f1, sl2))"

section \<open>The state of the parser\<close>

record compile_ctx =
  cc_in :: stringslice
  cc_nfa :: nfa
  cc_n_captures :: u32
  cc_match :: int
  cc_rc :: int
  cc_flags :: u32

definition has_flag :: "compile_ctx \<Rightarrow> u32 \<Rightarrow> bool" where
  "has_flag ctx f \<longleftrightarrow> cc_flags ctx AND f \<noteq> 0"

text \<open>\<open>aem_stringslice_match(&ctx->in, lit)\<close>\<close>
definition ctx_match :: "compile_ctx \<Rightarrow> string \<Rightarrow> bool \<times> compile_ctx" where
  "ctx_match ctx lit =
     (case aem_stringslice_match (cc_in ctx) (cstr lit) of (m, in1) \<Rightarrow> (m, ctx\<lparr>cc_in := in1\<rparr>))"

definition match_escape :: "compile_ctx \<Rightarrow> (u32 \<times> nat) option \<times> compile_ctx" where
  "match_escape ctx =
     (case aem_string_unescape_rune (cc_in ctx) of (r, in1) \<Rightarrow> (r, ctx\<lparr>cc_in := in1\<rparr>))"

section \<open>Brackets\<close>

definition re_parse_named_class :: "compile_ctx \<Rightarrow> nfa_node option \<times> compile_ctx" where
  "re_parse_named_class ctx =
     (case aem_stringslice_match (cc_in ctx) (cstr ''[:'') of (m, in1) \<Rightarrow>
        if \<not> m then (None, ctx)
        else case aem_stringslice_match in1 (cstr ''^'') of (neg, in2) \<Rightarrow>
          case aem_stringslice_match_alnum in2 of (classname, in3) \<Rightarrow>
            if \<not> aem_stringslice_ok classname then (None, ctx)
            else case aem_stringslice_match in3 (cstr '':]'') of (m2, in4) \<Rightarrow>
              if \<not> m2 then (None, ctx)
              else case find (\<lambda>k. aem_stringslice_eq classname (aem_nfa_cclass_name k)) [0..<length all_cclasses] of
                None \<Rightarrow> (None, ctx)
              | Some k \<Rightarrow>
                  (Some (nd_set_text (aem_nfa_node_new (AEM_NFA_NODE_CLASS (all_cclasses ! k) neg False))
                      (ss_set_end (cc_in ctx) (ss_start in4))),
                   ctx\<lparr>cc_in := in4\<rparr>))"

definition re_parse_range :: "compile_ctx \<Rightarrow> nfa_node option \<times> compile_ctx" where
  "re_parse_range ctx =
     (case re_parse_named_class ctx of
        (Some node, ctx1) \<Rightarrow> (Some node, ctx1)
      | (None, ctx1) \<Rightarrow>
          let finish = (\<lambda>lo hi ctx2.
                (Some (nd_set_text (aem_nfa_node_new (AEM_NFA_NODE_RANGE lo hi))
                   (ss_set_end (cc_in ctx1) (ss_start (cc_in ctx2)))), ctx2))
          in case match_escape ctx1 of
               (None, ctx2) \<Rightarrow> (None, ctx1)
             | (Some (lo, esc), ctx2) \<Rightarrow>
                 (case ctx_match ctx2 ''-'' of (dash, ctx3) \<Rightarrow>
                    if dash then
                      (case match_escape ctx3 of
                         (None, ctx4) \<Rightarrow> (None, ctx1)
                       | (Some (hi, esc'), ctx4) \<Rightarrow> finish lo hi ctx4)
                    else finish lo lo ctx3))"

fun aem_nfa_brackets_compar :: "nfa_node \<Rightarrow> nfa_node \<Rightarrow> int" where
  "aem_nfa_brackets_compar (Node (AEM_NFA_NODE_RANGE min1 max1) t1 c1) (Node (AEM_NFA_NODE_RANGE min2 max2) t2 c2) =
     c_int (uint (min1 - min2))"
| "aem_nfa_brackets_compar n1 n2 = c_int (int (ss_start (nd_text n1)) - int (ss_start (nd_text n2)))"

text \<open>The difference has the wrong sign for values \<open>2 ^ 31\<close> or more apart: three ranges can each come
  before the next.\<close>
lemma ranges_in_circle:
  "aem_nfa_brackets_compar (Node (AEM_NFA_NODE_RANGE 0 0) t []) (Node (AEM_NFA_NODE_RANGE 0x60000000 0x60000000) t' []) < 0"
  "aem_nfa_brackets_compar (Node (AEM_NFA_NODE_RANGE 0x60000000 0x60000000) t' []) (Node (AEM_NFA_NODE_RANGE 0xC0000000 0xC0000000) t'' []) < 0"
  "aem_nfa_brackets_compar (Node (AEM_NFA_NODE_RANGE 0xC0000000 0xC0000000) t'' []) (Node (AEM_NFA_NODE_RANGE 0 0) t []) < 0"
  by (simp_all add: c_int_def)

lemma match_escape_shorter:
  "match_escape ctx = (Some r, ctx') \<Longrightarrow> length (ss_bytes (cc_in ctx')) < length (ss_bytes (cc_in ctx))"
  by (auto simp: match_escape_def dest!: unescape_rune_shorter split: prod.splits)

lemma ctx_match_shorter:
  assumes "ctx_match ctx lit = (b, ctx')"
  shows "length (ss_bytes (cc_in ctx')) \<le> length (ss_bytes (cc_in ctx))"
    and "b \<Longrightarrow> lit \<noteq> [] \<Longrightarrow> length (ss_bytes (cc_in ctx')) < length (ss_bytes (cc_in ctx))"
proof -
  obtain m in1 where m: "aem_stringslice_match (cc_in ctx) (cstr lit) = (m, in1)" by fastforce
  then have eqs: "b = m" "cc_in ctx' = in1" using assms by (auto simp: ctx_match_def)
  show "length (ss_bytes (cc_in ctx')) \<le> length (ss_bytes (cc_in ctx))"
    using match_shorter(1) [OF m] eqs by simp
  show "length (ss_bytes (cc_in ctx')) < length (ss_bytes (cc_in ctx))" if "b" "lit \<noteq> []"
    using match_shorter(2) [of "cc_in ctx" "cstr lit" in1] m eqs that by (simp add: cstr_def)
qed

lemma named_class_shorter:
  assumes "re_parse_named_class ctx = (Some node, ctx')"
  shows "length (ss_bytes (cc_in ctx')) < length (ss_bytes (cc_in ctx))"
proof -
  obtain m in1 where 1: "aem_stringslice_match (cc_in ctx) (cstr ''[:'') = (m, in1)" by fastforce
  obtain neg in2 where 2: "aem_stringslice_match in1 (cstr ''^'') = (neg, in2)" by fastforce
  obtain cl in3 where 3: "aem_stringslice_match_alnum in2 = (cl, in3)" by fastforce
  obtain m2 in4 where 4: "aem_stringslice_match in3 (cstr '':]'') = (m2, in4)" by fastforce
  have "m" "cc_in ctx' = in4"
    using assms by (auto simp: re_parse_named_class_def 1 2 3 4 split: if_splits option.splits)
  moreover have "length (ss_bytes in3) \<le> length (ss_bytes in2)"
    using 3 by (auto simp: aem_stringslice_match_alnum_def skip_while_spec Let_def length_dropWhile_le)
  ultimately show ?thesis
    using match_shorter(2) [of _ _ in1] match_shorter(1) [OF 2] match_shorter(1) [OF 4] 1
    by (fastforce simp: cstr_def)
qed

lemma range_shorter:
  assumes "re_parse_range ctx = (Some node, ctx')"
  shows "length (ss_bytes (cc_in ctx')) < length (ss_bytes (cc_in ctx))"
proof -
  obtain r ctx1 where 1: "re_parse_named_class ctx = (r, ctx1)" by fastforce
  show ?thesis
  proof (cases r)
    case (Some nd)
    then show ?thesis using assms 1 named_class_shorter by (auto simp: re_parse_range_def)
  next
    case None
    then have same: "ctx1 = ctx"
      using 1 by (auto simp: re_parse_named_class_def split: prod.splits if_splits option.splits)
    show ?thesis using assms None 1 unfolding same
      by (auto simp: re_parse_range_def Let_def split: prod.splits option.splits if_splits
          dest!: match_escape_shorter ctx_match_shorter(1))
  qed
qed

text \<open>The loop over the ranges of a bracket expression, with the children so far.\<close>
function brackets_loop :: "compile_ctx \<Rightarrow> nfa_node list \<Rightarrow> nfa_node list option \<times> compile_ctx" where
  "brackets_loop ctx children =
     (if \<not> aem_stringslice_ok (cc_in ctx) then (Some children, ctx)
      else case re_parse_range ctx of
             (None, ctx1) \<Rightarrow> (None, ctx1)
           | (Some nd, ctx1) \<Rightarrow>
               (case ctx_match ctx1 '']'' of (close, ctx2) \<Rightarrow>
                  if close then (Some (children @ [nd]), ctx2)
                  else brackets_loop ctx2 (children @ [nd])))"
  by pat_completeness auto
termination
  by (relation "measure (\<lambda>(ctx, children). length (ss_bytes (cc_in ctx)))")
    (auto dest!: range_shorter [OF sym] ctx_match_shorter(1) [OF sym])

declare brackets_loop.simps [simp del]

text \<open>The loop that complements sorted ranges: \<open>prev_max\<close> is the end of the range before.
  \<open>None\<close> is the failure on a child that is not a range.\<close>
fun complement_loop :: "u32 \<Rightarrow> nfa_node list \<Rightarrow> nfa_node list \<Rightarrow> nfa_node list option" where
  "complement_loop prev_max [] out =
     (let lo = prev_max + 1 in
      Some (if lo \<noteq> 0 \<and> lo \<le> UINT_MAX then out @ [aem_nfa_node_new (AEM_NFA_NODE_RANGE lo UINT_MAX)] else out))"
| "complement_loop prev_max (Node (AEM_NFA_NODE_RANGE mn mx) txt cs # rest) out =
     (let lo = prev_max + 1; hi = mn - 1 in
      complement_loop mx rest
        (if hi \<noteq> UINT_MAX \<and> lo \<le> hi then out @ [Node (AEM_NFA_NODE_RANGE lo hi) txt cs] else out))"
| "complement_loop prev_max (_ # rest) out = None"

definition re_parse_brackets :: "compile_ctx \<Rightarrow> nfa_node option \<times> compile_ctx" where
  "re_parse_brackets ctx =
     (let orig = cc_in ctx; failed = (\<lambda>c. (None, c\<lparr>cc_in := orig\<rparr>)) in
      case ctx_match ctx ''['' of (m, ctx1) \<Rightarrow>
        if \<not> m then failed ctx1
        else case ctx_match ctx1 ''^'' of (negate, ctx2) \<Rightarrow>
          case brackets_loop ctx2 [] of
            (None, ctx3) \<Rightarrow> failed ctx3
          | (Some ranges, ctx3) \<Rightarrow>
              let txt = ss_set_end orig (ss_start (cc_in ctx3));
                  sorted = c_qsort aem_nfa_brackets_compar ranges
              in if negate then
                   (case complement_loop UINT_MAX sorted [] of
                      None \<Rightarrow> failed ctx3
                    | Some children \<Rightarrow> (Some (Node AEM_NFA_NODE_ALTERNATION txt children), ctx3))
                 else (Some (Node AEM_NFA_NODE_ALTERNATION txt sorted), ctx3))"

section \<open>Atoms\<close>

text \<open>What an escaped or plain character stands for, or \<open>Some None\<close> for one that is not an atom.
  Whatever the escape, \<open>isupper\<close> is called with the rune converted to \<open>int\<close>; that is only defined for
  \<open>EOF\<close> and the values of an \<open>unsigned char\<close>, and a read outside a table otherwise: \<open>None\<close>.\<close>
definition atom_args :: "compile_ctx \<Rightarrow> u32 \<Rightarrow> nat \<Rightarrow> nfa_node_args option option" where
  "atom_args ctx c esc =
     (if esc = 0 then
        Some (if c = 46 then Some (AEM_NFA_NODE_CLASS
             (if has_flag ctx AEM_REGEX_FLAG_BINARY then AEM_NFA_CCLASS_ANY else AEM_NFA_CCLASS_LINE) False False)
         else if c = 94 then Some (AEM_NFA_NODE_CLASS AEM_NFA_CCLASS_LINE False True)
         else if c = 36 then Some (AEM_NFA_NODE_CLASS AEM_NFA_CCLASS_LINE True True)
         else if c \<in> {41, 63, 42, 43, 124, 92} then None
         else Some (AEM_NFA_NODE_ATOM c))
      else if esc = 2 then
        (if \<not> (-1 \<le> sint c \<and> sint c \<le> 255) then None
         else let neg = c_isupper (sint c) in
         Some (Some (if c = 60 then AEM_NFA_NODE_CLASS AEM_NFA_CCLASS_ALNUM False True
               else if c = 62 then AEM_NFA_NODE_CLASS AEM_NFA_CCLASS_ALNUM True True
               else if c = 65 then AEM_NFA_NODE_CLASS AEM_NFA_CCLASS_ANY False True
               else if c = 122 then AEM_NFA_NODE_CLASS AEM_NFA_CCLASS_ANY True True
               else if c = 119 \<or> c = 87 then AEM_NFA_NODE_CLASS AEM_NFA_CCLASS_ALNUM False False
               else if c = 100 \<or> c = 68 then AEM_NFA_NODE_CLASS AEM_NFA_CCLASS_DIGIT neg False
               else if c = 115 \<or> c = 83 then AEM_NFA_NODE_CLASS AEM_NFA_CCLASS_SPACE neg False
               else AEM_NFA_NODE_ATOM c)))
      else Some (Some (AEM_NFA_NODE_ATOM c)))"

text \<open>A group. \<open>pattern\<close> is the recursive call.\<close>
definition re_parse_group ::
  "(compile_ctx \<Rightarrow> (nfa_node \<times> compile_ctx) option) \<Rightarrow> stringslice \<Rightarrow> compile_ctx \<Rightarrow>
   (nfa_node option \<times> compile_ctx) option" where
  "re_parse_group pattern orig ctx =
     (let flags = cc_flags ctx;
          (do_capture, ctx1) =
            (case ctx_match ctx ''?'' of (q, c1) \<Rightarrow>
               if \<not> q then (True, c1)
               else (case aem_regex_flags_adj (cc_in c1) (cc_flags c1) True of (fl, in2) \<Rightarrow>
                  case ctx_match (c1\<lparr>cc_in := in2, cc_flags := fl\<rparr>) '':'' of (colon, c2) \<Rightarrow> (\<not> colon, c2)));
          i = cc_n_captures ctx1;
          ctx2 = (if do_capture then ctx1\<lparr>cc_n_captures := i + 1\<rparr> else ctx1)
      in do {
        (sub, ctx3) \<leftarrow> pattern ctx2;
        let ctx4 = ctx3\<lparr>cc_flags := flags\<rparr>;
            (close, ctx5) = ctx_match ctx4 '')''
        in if \<not> close then Some (None, ctx5\<lparr>cc_n_captures := i, cc_in := orig\<rparr>)
           else if \<not> do_capture then Some (Some sub, ctx5)
           else if has_flag ctx5 AEM_REGEX_FLAG_EXPLICIT_CAPTURES \<and> nd_args sub = AEM_NFA_NODE_ALTERNATION
             then Some (Some sub, ctx5)
           else
             Some (Some (aem_nfa_node_push
                 (nd_set_text (aem_nfa_node_new (AEM_NFA_NODE_CAPTURE (unat i))) (ss_set_end orig (ss_start (cc_in ctx5))))
                 sub), ctx5) })"

definition re_parse_atom ::
  "(compile_ctx \<Rightarrow> (nfa_node \<times> compile_ctx) option) \<Rightarrow> compile_ctx \<Rightarrow>
   (nfa_node option \<times> compile_ctx) option" where
  "re_parse_atom pattern ctx =
     (let orig = cc_in ctx in
      case ctx_match ctx ''['' of (bracket, ctx1) \<Rightarrow>
        if bracket then Some (re_parse_brackets (ctx1\<lparr>cc_in := orig\<rparr>))
        else case ctx_match ctx1 ''('' of (paren, ctx2) \<Rightarrow>
          if paren then re_parse_group pattern orig ctx2
          else case match_escape ctx2 of
            (None, ctx3) \<Rightarrow> Some (None, ctx3\<lparr>cc_in := orig\<rparr>)
          | (Some (c, esc), ctx3) \<Rightarrow>
              (case atom_args ctx3 c esc of
                 None \<Rightarrow> None
               | Some None \<Rightarrow> Some (None, ctx3\<lparr>cc_in := orig\<rparr>)
               | Some (Some args) \<Rightarrow>
                   Some (Some (nd_set_text (aem_nfa_node_new args) (ss_set_end orig (ss_start (cc_in ctx3)))), ctx3)))"

section \<open>Repetition\<close>

text \<open>The outcome of looking for a repetition operator: none, an error, or the bounds.\<close>
datatype repeat_op = No_Repeat | Bad_Repeat | Repeat u32 u32

definition re_parse_bounds :: "compile_ctx \<Rightarrow> repeat_op \<times> compile_ctx" where
  "re_parse_bounds ctx =
     (case aem_stringslice_match_uint_base (cc_in ctx) 10 of (lower, in1) \<Rightarrow>
        let mn = (case lower of None \<Rightarrow> 0 | Some v \<Rightarrow> v);
            (comma, ctx2) = ctx_match (ctx\<lparr>cc_in := in1\<rparr>) '',''
        in if lower = None \<and> \<not> comma then (No_Repeat, ctx2)
           else
             let (upper, ctx3) =
                   (if comma then (case aem_stringslice_match_uint_base (cc_in ctx2) 10 of
                       (u, in3) \<Rightarrow> (u, ctx2\<lparr>cc_in := in3\<rparr>)) else (None, ctx2));
                 mx = (case upper of None \<Rightarrow> UINT_MAX | Some v \<Rightarrow> v);
                 mx' = (if lower \<noteq> None \<and> \<not> comma then mn else mx)
             in case ctx_match ctx3 ''}'' of (close, ctx4) \<Rightarrow>
                  if close then (Repeat mn mx', ctx4) else (Bad_Repeat, ctx4))"

definition re_parse_repeat_op :: "compile_ctx \<Rightarrow> repeat_op \<times> compile_ctx" where
  "re_parse_repeat_op ctx =
     (case ctx_match ctx ''?'' of (q, ctx1) \<Rightarrow>
        if q then (Repeat 0 1, ctx1)
        else case ctx_match ctx1 ''*'' of (star, ctx2) \<Rightarrow>
          if star then (Repeat 0 UINT_MAX, ctx2)
          else case ctx_match ctx2 ''+'' of (pls, ctx3) \<Rightarrow>
            if pls then (Repeat 1 UINT_MAX, ctx3)
            else case ctx_match ctx3 ''{'' of (brace, ctx4) \<Rightarrow>
              if brace then re_parse_bounds ctx4 else (No_Repeat, ctx4))"

text \<open>With explicit captures, a repeated group is no capture.\<close>
fun drop_capture :: "nfa_node \<Rightarrow> compile_ctx \<Rightarrow> (nfa_node \<times> compile_ctx) option" where
  "drop_capture (Node (AEM_NFA_NODE_CAPTURE k) txt children) ctx =
     (if has_flag ctx AEM_REGEX_FLAG_EXPLICIT_CAPTURES then
        let ctx1 = (if k = unat (cc_n_captures ctx - 1) then ctx\<lparr>cc_n_captures := cc_n_captures ctx - 1\<rparr> else ctx)
        in if length children = 1 then Some (last children, ctx1) else None
      else Some (Node (AEM_NFA_NODE_CAPTURE k) txt children, ctx))"
| "drop_capture node ctx = Some (node, ctx)"

definition re_parse_postfix ::
  "(compile_ctx \<Rightarrow> (nfa_node \<times> compile_ctx) option) \<Rightarrow> compile_ctx \<Rightarrow>
   (nfa_node option \<times> compile_ctx) option" where
  "re_parse_postfix pattern ctx =
     do { (r, ctx1) \<leftarrow> re_parse_atom pattern ctx;
          case r of
            None \<Rightarrow> Some (None, ctx1)
          | Some atom \<Rightarrow>
              let orig = cc_in ctx1 in
              (case re_parse_repeat_op ctx1 of
                 (No_Repeat, ctx2) \<Rightarrow> Some (Some atom, ctx2)
               | (Bad_Repeat, ctx2) \<Rightarrow> Some (None, ctx2\<lparr>cc_in := orig\<rparr>)
               | (Repeat mn mx, ctx2) \<Rightarrow>
                   (case ctx_match ctx2 ''?'' of (reluctant, ctx3) \<Rightarrow>
                      if mx < mn then Some (None, ctx3\<lparr>cc_in := orig\<rparr>)
                      else
                        let txt = ss_set_end orig (ss_start (cc_in ctx3)) in
                        if \<not> aem_stringslice_ok txt then Some (Some atom, ctx3)
                        else do {
                          (atom1, ctx4) \<leftarrow> drop_capture atom ctx3;
                          Some (Some (aem_nfa_node_push
                            (nd_set_text (aem_nfa_node_new (AEM_NFA_NODE_REPEAT mn mx reluctant)) txt) atom1), ctx4) })) }"

section \<open>Branches and patterns\<close>

partial_function (option) branch_loop ::
  "(compile_ctx \<Rightarrow> (nfa_node \<times> compile_ctx) option) \<Rightarrow> compile_ctx \<Rightarrow> nfa_node list \<Rightarrow>
   (nfa_node list \<times> compile_ctx) option" where
  "branch_loop pattern ctx children =
     (if \<not> aem_stringslice_ok (cc_in ctx) then Some (children, ctx)
      else do {
        (r, ctx1) \<leftarrow> re_parse_postfix pattern ctx;
        case r of
          None \<Rightarrow> Some (children, ctx1)
        | Some atom \<Rightarrow> branch_loop pattern ctx1 (children @ [atom]) })"

declare branch_loop.simps [code]

definition re_parse_branch ::
  "(compile_ctx \<Rightarrow> (nfa_node \<times> compile_ctx) option) \<Rightarrow> compile_ctx \<Rightarrow> (nfa_node \<times> compile_ctx) option" where
  "re_parse_branch pattern ctx =
     do { (children, ctx1) \<leftarrow> branch_loop pattern ctx [];
          Some (if length children = 1 then last children
                else Node AEM_NFA_NODE_BRANCH AEM_STRINGSLICE_EMPTY children, ctx1) }"

partial_function (option) alternatives_loop ::
  "(compile_ctx \<Rightarrow> (nfa_node \<times> compile_ctx) option) \<Rightarrow> compile_ctx \<Rightarrow> nfa_node \<Rightarrow>
   (nfa_node \<times> compile_ctx) option" where
  "alternatives_loop pattern ctx node =
     do { (rest, ctx1) \<leftarrow> re_parse_branch pattern ctx;
          case ctx_match ctx1 ''|'' of (again, ctx2) \<Rightarrow>
            if again then alternatives_loop pattern ctx2 (aem_nfa_node_push node rest)
            else Some (aem_nfa_node_push node rest, ctx2) }"

declare alternatives_loop.simps [code]

definition re_parse_pattern_body ::
  "(compile_ctx \<Rightarrow> (nfa_node \<times> compile_ctx) option) \<Rightarrow> compile_ctx \<Rightarrow> (nfa_node \<times> compile_ctx) option" where
  "re_parse_pattern_body pattern ctx =
     do { (branch, ctx1) \<leftarrow> re_parse_branch pattern ctx;
          let bar = cc_in ctx1 in
          case ctx_match ctx1 ''|'' of (again, ctx2) \<Rightarrow>
            if \<not> again then Some (branch, ctx2)
            else alternatives_loop pattern ctx2
              (aem_nfa_node_push (nd_set_text (aem_nfa_node_new AEM_NFA_NODE_ALTERNATION)
                 (ss_set_end bar (ss_start (cc_in ctx2)))) branch) }"

text \<open>The recursion, to a depth of nested calls.\<close>
fun re_parse_pattern :: "nat \<Rightarrow> compile_ctx \<Rightarrow> (nfa_node \<times> compile_ctx) option" where
  "re_parse_pattern 0 ctx = None"
| "re_parse_pattern (Suc d) ctx = re_parse_pattern_body (re_parse_pattern d) ctx"

text \<open>The callbacks of \<open>aem_nfa_add\<close>.\<close>

definition aem_regex_compile :: "nat \<Rightarrow> compile_ctx \<Rightarrow> (nfa_node \<times> compile_ctx) option" where
  "aem_regex_compile depth ctx = re_parse_pattern depth ctx"

function string_atoms :: "stringslice \<Rightarrow> nfa_node list \<Rightarrow> nfa_node list \<times> stringslice" where
  "string_atoms sl children =
     (case aem_stringslice_getc sl of (c, sl1) \<Rightarrow>
        if c < 0 then (children, sl1)
        else string_atoms sl1 (children @ [nd_set_text (aem_nfa_node_new (AEM_NFA_NODE_ATOM (word_of_int c)))
               (ss_set_end sl (ss_start sl1))]))"
  by pat_completeness auto
termination
  by (relation "measure (\<lambda>(sl, children). length (ss_bytes sl))")
    (auto simp: aem_stringslice_getc_def split: if_splits)

declare string_atoms.simps [simp del]

definition aem_string_compile :: "compile_ctx \<Rightarrow> nfa_node \<times> compile_ctx" where
  "aem_string_compile ctx =
     (case string_atoms (cc_in ctx) [] of (children, sl) \<Rightarrow>
        (Node AEM_NFA_NODE_BRANCH AEM_STRINGSLICE_EMPTY children,
         ctx\<lparr>cc_flags := cc_flags ctx OR AEM_REGEX_FLAG_BINARY, cc_in := sl\<rparr>))"

section \<open>The trees the parser builds\<close>

text \<open>Leaves have no children, captures and repetitions have one; the captures in the tree have
  numbers from \<open>lo\<close> up to \<open>hi\<close>, and those inside a capture have larger numbers than it.\<close>
fun tree_ok :: "nat \<Rightarrow> nat \<Rightarrow> nfa_node \<Rightarrow> bool" where
  "tree_ok lo hi (Node args txt cs) \<longleftrightarrow>
     (case args of
        AEM_NFA_NODE_CAPTURE k \<Rightarrow> lo \<le> k \<and> k < hi \<and> length cs = 1 \<and> (\<forall>c \<in> set cs. tree_ok (Suc k) hi c)
      | AEM_NFA_NODE_REPEAT mn mx rel \<Rightarrow> mn \<le> mx \<and> length cs = 1 \<and> (\<forall>c \<in> set cs. tree_ok lo hi c)
      | AEM_NFA_NODE_BRANCH \<Rightarrow> \<forall>c \<in> set cs. tree_ok lo hi c
      | AEM_NFA_NODE_ALTERNATION \<Rightarrow> \<forall>c \<in> set cs. tree_ok lo hi c
      | _ \<Rightarrow> cs = [])"

declare tree_ok.simps [simp del]

lemmas tree_ok_simps [simp] =
  tree_ok.simps [of _ _ "AEM_NFA_NODE_RANGE x y" for x y, simplified]
  tree_ok.simps [of _ _ "AEM_NFA_NODE_ATOM x" for x, simplified]
  tree_ok.simps [of _ _ "AEM_NFA_NODE_CLASS x y z" for x y z, simplified]
  tree_ok.simps [of _ _ "AEM_NFA_NODE_BRANCH", simplified]
  tree_ok.simps [of _ _ "AEM_NFA_NODE_ALTERNATION", simplified]

lemma tree_ok_capture [simp]:
  "tree_ok lo hi (Node (AEM_NFA_NODE_CAPTURE k) t [c]) \<longleftrightarrow> lo \<le> k \<and> k < hi \<and> tree_ok (Suc k) hi c"
  by (simp add: tree_ok.simps)

lemma tree_ok_repeat [simp]:
  "tree_ok lo hi (Node (AEM_NFA_NODE_REPEAT mn mx rel) t [c]) \<longleftrightarrow> mn \<le> mx \<and> tree_ok lo hi c"
  by (simp add: tree_ok.simps)

lemma tree_ok_mono: "tree_ok lo hi nd \<Longrightarrow> lo' \<le> lo \<Longrightarrow> hi \<le> hi' \<Longrightarrow> tree_ok lo' hi' nd"
proof (induction nd arbitrary: lo hi lo' hi')
  case (Node args t cs)
  show ?case
  proof (cases args)
    case (AEM_NFA_NODE_CAPTURE k)
    then show ?thesis using Node.IH [of _ "Suc k" hi "Suc k" hi'] Node.prems by (auto simp: tree_ok.simps)
  qed (use Node.IH [of _ lo hi lo' hi'] Node.prems in \<open>auto simp: tree_ok.simps\<close>)
qed

text \<open>A tree in whose range there is no capture is fine in any range.\<close>
lemma tree_ok_empty: "tree_ok lo hi nd \<Longrightarrow> hi \<le> lo \<Longrightarrow> tree_ok lo' hi' nd"
proof (induction nd arbitrary: lo hi lo' hi')
  case (Node args t cs)
  show ?case
    by (cases args) (use Node.IH [of _ lo hi lo' hi'] Node.prems in \<open>auto simp: tree_ok.simps\<close>)
qed

text \<open>What is left of the input is the end of it.\<close>
lemma match_suffix: "aem_stringslice_match sl w = (b, sl') \<Longrightarrow> suffix (ss_bytes sl') (ss_bytes sl) \<and> length (ss_bytes sl') \<le> length (ss_bytes sl)"
  by (auto simp: match_spec suffix_drop split: if_splits)

lemma get_rune_suffix: "aem_stringslice_get_rune sl = (r, sl') \<Longrightarrow> suffix (ss_bytes sl') (ss_bytes sl)"
  by (cases r) (auto dest!: get_rune_None get_rune_Some simp: suffix_drop)

lemma unescape_digits_suffix:
  "unescape_digits sl c len = Some (c', sl') \<Longrightarrow> suffix (ss_bytes sl') (ss_bytes sl)"
proof (induction sl c len rule: unescape_digits.induct)
  case (1 sl c len)
  obtain d sl1 where g: "aem_stringslice_getc sl = (d, sl1)" by fastforce
  have le: "suffix (ss_bytes sl1) (ss_bytes sl)"
    using g by (auto simp: aem_stringslice_getc_def suffix_drop split: if_splits)
  show ?case using "1.prems"
    by (subst (asm) unescape_digits.simps)
      (use "1.IH" [OF _ g [symmetric]] le in \<open>auto simp: g split: if_splits intro: suffix_order.trans\<close>)
qed

lemma unescape_rune_suffix:
  assumes "aem_string_unescape_rune sl = (r, sl')"
  shows "suffix (ss_bytes sl') (ss_bytes sl) \<and> length (ss_bytes sl') \<le> length (ss_bytes sl)"
proof -
  obtain esc in1 where 1: "aem_stringslice_match sl [92] = (esc, in1)" by fastforce
  obtain rn in2 where 2: "aem_stringslice_get_rune in1 = (rn, in2)" by fastforce
  obtain br in3 where 3: "aem_stringslice_match in2 [123] = (br, in3)" by fastforce
  have le: "suffix (ss_bytes in2) (ss_bytes sl)" "suffix (ss_bytes in3) (ss_bytes sl)"
    using match_suffix [OF 1] get_rune_suffix [OF 2] match_suffix [OF 3] by (auto intro: suffix_order.trans)
  have digits: "suffix (ss_bytes in4) (ss_bytes sl)" if "unescape_digits in3 0 len = Some (c, in4)" for len c in4
    using unescape_digits_suffix [OF that] le(2) by (rule suffix_order.trans)
  have "suffix (ss_bytes sl') (ss_bytes sl)"
    using assms le digits by (auto simp: aem_string_unescape_rune_def 1 2 3 Let_def split: if_splits option.splits)
  then show ?thesis by (simp add: suffix_length_le)
qed

lemma named_class_suffix:
  assumes "re_parse_named_class ctx = (r, ctx')"
  shows "suffix (ss_bytes (cc_in ctx')) (ss_bytes (cc_in ctx))"
proof -
  obtain m in1 where 1: "aem_stringslice_match (cc_in ctx) (cstr ''[:'') = (m, in1)" by fastforce
  obtain neg in2 where 2: "aem_stringslice_match in1 (cstr ''^'') = (neg, in2)" by fastforce
  obtain cl in3 where 3: "aem_stringslice_match_alnum in2 = (cl, in3)" by fastforce
  obtain m2 in4 where 4: "aem_stringslice_match in3 (cstr '':]'') = (m2, in4)" by fastforce
  have "suffix (ss_bytes in3) (ss_bytes in2)"
    using 3 by (auto simp: aem_stringslice_match_alnum_def skip_while_spec Let_def suffix_dropWhile)
  then have "suffix (ss_bytes in4) (ss_bytes (cc_in ctx))"
    using match_suffix [OF 1] match_suffix [OF 2] match_suffix [OF 4] by (auto intro: suffix_order.trans)
  moreover have "cc_in ctx' = cc_in ctx \<or> cc_in ctx' = in4"
    using assms by (auto simp: re_parse_named_class_def 1 2 3 4 split: if_splits option.splits)
  ultimately show ?thesis by auto
qed

lemma flags_round_suffix: "flags_round sandbox fs sl = (r, sl') \<Longrightarrow> suffix (ss_bytes sl') (ss_bytes sl)"
proof (induction sandbox fs sl rule: flags_round.induct)
  case (2 sandbox val letter safe rest sl)
  obtain m sl1 where m: "aem_stringslice_match sl letter = (m, sl1)" by fastforce
  then show ?case using 2 match_suffix [OF m] by (auto split: if_splits intro: suffix_order.trans)
qed simp

lemma flags_loop_suffix: "flags_loop sb sl g = (h, sl') \<Longrightarrow> suffix (ss_bytes sl') (ss_bytes sl)"
proof (induction sb sl g rule: flags_loop.induct)
  case (1 sb sl g)
  obtain r s1 where r: "flags_round sb regex_flags sl = (r, s1)" by fastforce
  then show ?case using "1.IH" [OF r [symmetric]] "1.prems" flags_round_suffix [OF r]
    by (subst (asm) flags_loop.simps) (auto split: option.splits intro: suffix_order.trans)
qed

text \<open>Escapes that cannot reach the undefined call of \<open>isupper\<close>: after a backslash comes ASCII, or the
  end.\<close>
fun escapes_ascii :: "u8 list \<Rightarrow> bool" where
  "escapes_ascii (b # c # bs) \<longleftrightarrow> (b = 92 \<longrightarrow> c < 0x80) \<and> escapes_ascii (c # bs)"
| "escapes_ascii _ \<longleftrightarrow> True"

lemma escapes_ascii_tl: "escapes_ascii (b # bs) \<Longrightarrow> escapes_ascii bs"
  by (cases bs) auto

lemma escapes_ascii_suffix: "suffix ys xs \<Longrightarrow> escapes_ascii xs \<Longrightarrow> escapes_ascii ys"
  by (induction xs) (auto simp: suffix_Cons dest: escapes_ascii_tl)

lemma get_rune_plain:
  assumes "ss_bytes sl = b # bs" "b < 0x80"
  shows "aem_stringslice_get_rune sl = (Some (ucast b), ss_advance sl 1)"
  using get_rune_encode [of sl "ucast b" bs] encode_ascii [OF assms(2)] assms(1) by simp

lemma unescape_rune_ascii:
  assumes "aem_string_unescape_rune sl = (Some (c, 2), sl')" "escapes_ascii (ss_bytes sl)"
  shows "uint c < 128"
proof -
  obtain esc in1 where 1: "aem_stringslice_match sl [92] = (esc, in1)" by fastforce
  obtain rn in2 where 2: "aem_stringslice_get_rune in1 = (rn, in2)" by fastforce
  have "esc" "rn = Some c"
    using assms(1) by (auto simp: aem_string_unescape_rune_def 1 2 Let_def split: if_splits option.splits prod.splits)
  then obtain bs where sl: "ss_bytes sl = 92 # bs" "ss_bytes in1 = bs"
    using 1 by (auto simp: match_spec prefix_def split: if_splits)
  then obtain b r where b: "bs = b # r"
    using 2 \<open>rn = Some c\<close> by (cases bs) (auto simp: aem_stringslice_get_rune_def getc_simps(1))
  then have "b < 0x80" using assms(2) sl by simp
  then have "c = ucast b" using get_rune_plain [of in1 b r] sl b 2 \<open>rn = Some c\<close> by simp
  then show ?thesis using \<open>b < 0x80\<close> by (simp add: ascii_range unsigned_ucast_eq take_bit_int_eq_self)
qed

text \<open>What a parsing function leaves alone, and that it cannot run out of capture numbers: each
  takes a byte.\<close>
definition ctx_le :: "compile_ctx \<Rightarrow> compile_ctx \<Rightarrow> bool" where
  "ctx_le ctx ctx' \<longleftrightarrow> suffix (ss_bytes (cc_in ctx')) (ss_bytes (cc_in ctx)) \<and>
     length (ss_bytes (cc_in ctx')) \<le> length (ss_bytes (cc_in ctx)) \<and>
     unat (cc_n_captures ctx) \<le> unat (cc_n_captures ctx') \<and>
     unat (cc_n_captures ctx') + length (ss_bytes (cc_in ctx')) \<le>
       unat (cc_n_captures ctx) + length (ss_bytes (cc_in ctx)) \<and>
     cc_nfa ctx' = cc_nfa ctx \<and> cc_match ctx' = cc_match ctx \<and> cc_rc ctx' = cc_rc ctx"

abbreviation in_len :: "compile_ctx \<Rightarrow> nat" where "in_len ctx \<equiv> length (ss_bytes (cc_in ctx))"
abbreviation n_caps :: "compile_ctx \<Rightarrow> nat" where "n_caps ctx \<equiv> unat (cc_n_captures ctx)"

definition caps_fit :: "compile_ctx \<Rightarrow> bool" where
  "caps_fit ctx \<longleftrightarrow> n_caps ctx + in_len ctx < 2 ^ 32"

lemma ctx_le_refl [simp]: "ctx_le ctx ctx"
  by (simp add: ctx_le_def)

lemma ctx_le_trans: "ctx_le a b \<Longrightarrow> ctx_le b c \<Longrightarrow> ctx_le a c"
  by (auto simp: ctx_le_def intro: suffix_order.trans)

lemma caps_fit_le: "ctx_le ctx ctx' \<Longrightarrow> caps_fit ctx \<Longrightarrow> caps_fit ctx'"
  by (simp add: ctx_le_def caps_fit_def)

lemma ctx_le_in: "suffix (ss_bytes sl) (ss_bytes (cc_in ctx)) \<Longrightarrow> ctx_le ctx (ctx\<lparr>cc_in := sl\<rparr>)"
  by (simp add: ctx_le_def suffix_length_le)

lemma ctx_le_flags [simp]: "ctx_le ctx (ctx'\<lparr>cc_flags := f\<rparr>) = ctx_le ctx ctx'"
  "ctx_le (ctx\<lparr>cc_flags := f\<rparr>) ctx' = ctx_le ctx ctx'"
  by (simp_all add: ctx_le_def)

lemma ctx_match_le: "ctx_match ctx lit = (b, ctx') \<Longrightarrow> ctx_le ctx ctx'"
  by (auto simp: ctx_match_def ctx_le_def dest!: match_suffix split: prod.splits)

lemma ctx_match_fields: "ctx_match ctx lit = (b, ctx') \<Longrightarrow> cc_n_captures ctx' = cc_n_captures ctx"
  by (auto simp: ctx_match_def split: prod.splits)

lemma match_escape_le:
  "match_escape ctx = (r, ctx') \<Longrightarrow> ctx_le ctx ctx' \<and> cc_n_captures ctx' = cc_n_captures ctx"
  by (auto simp: match_escape_def ctx_le_def split: prod.splits dest!: unescape_rune_suffix)

lemma ctx_le_only_in:
  "ctx' = ctx\<lparr>cc_in := sl\<rparr> \<Longrightarrow> suffix (ss_bytes (cc_in ctx')) (ss_bytes (cc_in ctx)) \<Longrightarrow>
   ctx_le ctx ctx' \<and> cc_n_captures ctx' = cc_n_captures ctx"
  by (simp add: ctx_le_def suffix_length_le)

lemma named_class_tree:
  assumes res: "re_parse_named_class ctx = (r, ctx')"
  shows "ctx_le ctx ctx' \<and> cc_n_captures ctx' = cc_n_captures ctx \<and> (\<forall>nd. r = Some nd \<longrightarrow> tree_ok lo hi nd)"
proof -
  have only: "ctx' = ctx\<lparr>cc_in := cc_in ctx'\<rparr>" and none: "r = None \<longrightarrow> ctx' = ctx"
    and tree: "\<forall>nd. r = Some nd \<longrightarrow> tree_ok lo hi nd"
    using res by (auto simp: re_parse_named_class_def nd_set_text_def aem_nfa_node_new_def
        split: prod.splits if_splits option.splits)
  have "suffix (ss_bytes (cc_in ctx')) (ss_bytes (cc_in ctx))" using named_class_suffix [OF res] .
  then show ?thesis using ctx_le_only_in [OF only] tree by blast
qed

lemma range_tree:
  assumes res: "re_parse_range ctx = (r, ctx')"
  shows "ctx_le ctx ctx' \<and> cc_n_captures ctx' = cc_n_captures ctx \<and> (\<forall>nd. r = Some nd \<longrightarrow> tree_ok lo hi nd)"
proof -
  obtain r1 ctx1 where 1: "re_parse_named_class ctx = (r1, ctx1)" by fastforce
  note nc = named_class_tree [OF 1, of lo hi]
  show ?thesis
  proof (cases r1)
    case (Some nd)
    then show ?thesis using res 1 nc by (simp add: re_parse_range_def)
  next
    case None
    obtain r2 ctx2 where 2: "match_escape ctx1 = (r2, ctx2)" by fastforce
    obtain d ctx3 where 3: "ctx_match ctx2 ''-'' = (d, ctx3)" by fastforce
    obtain r4 ctx4 where 4: "match_escape ctx3 = (r4, ctx4)" by fastforce
    have le: "ctx_le ctx1 ctx3" "ctx_le ctx1 ctx4" "cc_n_captures ctx3 = cc_n_captures ctx1"
      "cc_n_captures ctx4 = cc_n_captures ctx1"
      using match_escape_le [OF 2] ctx_match_le [OF 3] ctx_match_fields [OF 3] match_escape_le [OF 4]
      by (auto intro: ctx_le_trans)
    have "ctx' \<in> {ctx1, ctx3, ctx4}" "\<forall>nd. r = Some nd \<longrightarrow> tree_ok lo hi nd"
      using res None 1 2 3 4 by (auto simp: re_parse_range_def Let_def nd_set_text_def aem_nfa_node_new_def
          split: option.splits if_splits)
    then show ?thesis using nc le by (auto intro: ctx_le_trans)
  qed
qed

lemma brackets_loop_tree:
  assumes "brackets_loop ctx children = (r, ctx')" "\<forall>c \<in> set children. tree_ok lo hi c"
  shows "ctx_le ctx ctx' \<and> cc_n_captures ctx' = cc_n_captures ctx \<and>
    (\<forall>cs. r = Some cs \<longrightarrow> (\<forall>c \<in> set cs. tree_ok lo hi c))"
  using assms
proof (induction ctx children rule: brackets_loop.induct)
  case (1 ctx children)
  show ?case
  proof (cases "aem_stringslice_ok (cc_in ctx)")
    case False
    then show ?thesis using "1.prems" by (subst (asm) brackets_loop.simps) auto
  next
    case True
    obtain r1 ctx1 where 2: "re_parse_range ctx = (r1, ctx1)" by fastforce
    note rt = range_tree [OF 2, of lo hi]
    obtain close ctx2 where 3: "ctx_match ctx1 '']'' = (close, ctx2)" by fastforce
    note le = ctx_match_le [OF 3] ctx_match_fields [OF 3]
    show ?thesis
    proof (cases r1)
      case None
      then show ?thesis using "1.prems"(1) True 2 rt by (subst (asm) brackets_loop.simps) auto
    next
      case (Some nd)
      then have all: "\<forall>c \<in> set (children @ [nd]). tree_ok lo hi c" using rt "1.prems"(2) by auto
      show ?thesis
      proof (cases close)
        case True
        then show ?thesis using "1.prems"(1) \<open>aem_stringslice_ok (cc_in ctx)\<close> 2 3 Some rt le all
          by (subst (asm) brackets_loop.simps) (auto intro: ctx_le_trans)
      next
        case False
        then have "brackets_loop ctx2 (children @ [nd]) = (r, ctx')"
          using "1.prems"(1) True 2 3 Some by (subst (asm) brackets_loop.simps) simp
        have "\<not> \<not> aem_stringslice_ok (cc_in ctx)" "r1 = Some nd" "\<not> close" using True Some False by simp_all
        from "1.IH" [OF this(1) 2 [symmetric] this(2) 3 [symmetric] this(3) \<open>brackets_loop ctx2 (children @ [nd]) = (r, ctx')\<close> all]
        show ?thesis using rt le by (metis ctx_le_trans)
      qed
    qed
  qed
qed

lemma complement_tree:
  "complement_loop pm cs out = Some cs' \<Longrightarrow> \<forall>c \<in> set cs \<union> set out. tree_ok lo hi c \<Longrightarrow>
   \<forall>c \<in> set cs'. tree_ok lo hi c"
proof (induction pm cs out rule: complement_loop.induct)
  case (1 pm out)
  then show ?case by (auto simp: Let_def aem_nfa_node_new_def split: if_splits)
next
  case (2 pm mn mx t cs rest out)
  let ?out = "if mn - 1 \<noteq> UINT_MAX \<and> pm + 1 \<le> mn - 1
    then out @ [Node (AEM_NFA_NODE_RANGE (pm + 1) (mn - 1)) t cs] else out"
  have "\<forall>c \<in> set rest \<union> set ?out. tree_ok lo hi c" using "2.prems"(2) by auto
  moreover have "complement_loop mx rest ?out = Some cs'" using "2.prems"(1) by (simp add: Let_def)
  ultimately show ?case using "2.IH" [OF refl refl] by blast
qed auto

lemma brackets_tree:
  assumes res: "re_parse_brackets ctx = (r, ctx')"
  shows "ctx_le ctx ctx' \<and> cc_n_captures ctx' = cc_n_captures ctx \<and>
    (\<forall>nd. r = Some nd \<longrightarrow> tree_ok lo hi nd \<and> in_len ctx' < in_len ctx)"
proof -
  obtain m ctx1 where 1: "ctx_match ctx ''['' = (m, ctx1)" by fastforce
  obtain ng ctx2 where 2: "ctx_match ctx1 ''^'' = (ng, ctx2)" by fastforce
  obtain rs ctx3 where 3: "brackets_loop ctx2 [] = (rs, ctx3)" by fastforce
  note l1 = ctx_match_le [OF 1] ctx_match_fields [OF 1] and l2 = ctx_match_le [OF 2] ctx_match_fields [OF 2]
  note l3 = brackets_loop_tree [OF 3, of lo hi, simplified]
  have le: "ctx_le ctx ctx3" "cc_n_captures ctx3 = cc_n_captures ctx"
    using l1 l2 l3 by (auto intro: ctx_le_trans)
  have shorter: "in_len ctx3 < in_len ctx" if "m"
    using ctx_match_shorter(2) [OF 1 that] l2(1) l3 by (simp add: ctx_le_def)
  have restored: "ctx_le ctx (c\<lparr>cc_in := cc_in ctx\<rparr>)" if "ctx_le ctx c" "cc_n_captures c = cc_n_captures ctx" for c
    using that by (simp add: ctx_le_def)
  have sorted: "set (c_qsort aem_nfa_brackets_compar cs) = set cs" for cs
    by (metis mset_c_qsort set_mset_mset)
  have comp: "\<forall>c \<in> set cs'. tree_ok lo hi c"
    if "complement_loop UINT_MAX (c_qsort aem_nfa_brackets_compar cs) [] = Some cs'" "rs = Some cs" for cs cs'
    by (rule complement_tree [OF that(1)]) (use l3 that(2) sorted in auto)
  show ?thesis
    using res le shorter l1 restored [OF l1] restored [OF le] comp l3
    by (auto simp: re_parse_brackets_def 1 2 3 Let_def sorted split: if_splits option.splits)
qed

section \<open>The parser returns, with such a tree\<close>

text \<open>What is expected of the parser of patterns on inputs shorter than \<open>k\<close>, and the form of the
  results of the functions that use it. They return unless an escape is not ASCII.\<close>
definition returns :: "compile_ctx \<Rightarrow> ('r \<times> compile_ctx) option \<Rightarrow> ('r \<Rightarrow> compile_ctx \<Rightarrow> bool) \<Rightarrow> bool" where
  "returns ctx res P \<longleftrightarrow>
     (case res of
        None \<Rightarrow> \<not> escapes_ascii (ss_bytes (cc_in ctx))
      | Some (r, ctx') \<Rightarrow> ctx_le ctx ctx' \<and> P r ctx')"

definition pattern_ok :: "(compile_ctx \<Rightarrow> (nfa_node \<times> compile_ctx) option) \<Rightarrow> nat \<Rightarrow> bool" where
  "pattern_ok pattern k \<longleftrightarrow>
     (\<forall>ctx. in_len ctx < k \<and> caps_fit ctx \<longrightarrow>
        returns ctx (pattern ctx) (\<lambda>nd ctx'. tree_ok (n_caps ctx) (n_caps ctx') nd))"

definition piece_ok :: "compile_ctx \<Rightarrow> (nfa_node option \<times> compile_ctx) option \<Rightarrow> bool" where
  "piece_ok ctx res \<longleftrightarrow>
     returns ctx res (\<lambda>r ctx'. \<forall>nd. r = Some nd \<longrightarrow> in_len ctx' < in_len ctx \<and> tree_ok (n_caps ctx) (n_caps ctx') nd)"

lemma returns_simps [simp]:
  "returns ctx None P \<longleftrightarrow> \<not> escapes_ascii (ss_bytes (cc_in ctx))"
  "returns ctx (Some (r, ctx')) P \<longleftrightarrow> ctx_le ctx ctx' \<and> P r ctx'"
  by (simp_all add: returns_def)

lemma returnsE:
  assumes "returns ctx res P"
  obtains (stuck) "res = None" "\<not> escapes_ascii (ss_bytes (cc_in ctx))"
  | (returned) r ctx' where "res = Some (r, ctx')" "ctx_le ctx ctx'" "P r ctx'"
  using assms by (auto simp: returns_def split: option.splits prod.splits)

lemma not_ascii_le: "ctx_le ctx ctx' \<Longrightarrow> \<not> escapes_ascii (ss_bytes (cc_in ctx')) \<Longrightarrow> \<not> escapes_ascii (ss_bytes (cc_in ctx))"
  using escapes_ascii_suffix by (auto simp: ctx_le_def)

lemma returns_le: "returns ctx1 res P \<Longrightarrow> ctx_le ctx ctx1 \<Longrightarrow> (\<And>r ctx'. P r ctx' \<Longrightarrow> Q r ctx') \<Longrightarrow> returns ctx res Q"
  by (auto simp: returns_def split: option.splits intro: ctx_le_trans dest: not_ascii_le)

lemma pattern_okE:
  assumes "pattern_ok pattern k" "in_len ctx < k" "caps_fit ctx"
  obtains (stuck) "pattern ctx = None" "\<not> escapes_ascii (ss_bytes (cc_in ctx))"
  | (returned) nd ctx' where "pattern ctx = Some (nd, ctx')" "ctx_le ctx ctx'" "tree_ok (n_caps ctx) (n_caps ctx') nd"
proof -
  have "returns ctx (pattern ctx) (\<lambda>nd ctx'. tree_ok (n_caps ctx) (n_caps ctx') nd)"
    using assms unfolding pattern_ok_def by blast
  then show thesis by (cases rule: returnsE) (fact stuck, fact returned)
qed

lemma piece_okE:
  assumes "piece_ok ctx res"
  obtains (stuck) "res = None" "\<not> escapes_ascii (ss_bytes (cc_in ctx))"
  | (no) ctx' where "res = Some (None, ctx')" "ctx_le ctx ctx'"
  | (piece) nd ctx' where "res = Some (Some nd, ctx')" "ctx_le ctx ctx'" "in_len ctx' < in_len ctx"
      "tree_ok (n_caps ctx) (n_caps ctx') nd"
  using assms unfolding piece_ok_def
proof (cases rule: returnsE)
  case (returned r ctx')
  then show ?thesis using no piece by (cases r) auto
qed (rule stuck)

lemma flags_adj_suffix:
  assumes adj: "aem_regex_flags_adj sl fl sb = (f, sl')"
  shows "suffix (ss_bytes sl') (ss_bytes sl) \<and> length (ss_bytes sl') \<le> length (ss_bytes sl)"
proof -
  obtain f1 s1 where 1: "flags_loop sb sl 0 = (f1, s1)" by fastforce
  obtain d s2 where 2: "aem_stringslice_match s1 (cstr ''-'') = (d, s2)" by fastforce
  obtain f3 s3 where 3: "flags_loop sb s2 0 = (f3, s3)" by fastforce
  have "suffix (ss_bytes s2) (ss_bytes sl)" "suffix (ss_bytes s3) (ss_bytes sl)"
    using flags_loop_suffix [OF 1] match_suffix [OF 2] flags_loop_suffix [OF 3] by (auto intro: suffix_order.trans)
  then show ?thesis
    using adj by (auto simp: aem_regex_flags_adj_def aem_regex_flags_parse_def 1 2 3 suffix_length_le split: if_splits)
qed

text \<open>The prefix of a group: the flags, and whether it captures.\<close>
lemma group_prefix:
  assumes "(case ctx_match ctx ''?'' of (q, c1) \<Rightarrow>
       if \<not> q then (True, c1)
       else (case aem_regex_flags_adj (cc_in c1) (cc_flags c1) True of (fl, in2) \<Rightarrow>
          case ctx_match (c1\<lparr>cc_in := in2, cc_flags := fl\<rparr>) '':'' of (colon, c2) \<Rightarrow> (\<not> colon, c2))) = (cap, ctx1)"
  shows "ctx_le ctx ctx1 \<and> cc_n_captures ctx1 = cc_n_captures ctx"
proof -
  obtain q c1 where 1: "ctx_match ctx ''?'' = (q, c1)" by fastforce
  obtain fl in2 where 2: "aem_regex_flags_adj (cc_in c1) (cc_flags c1) True = (fl, in2)" by fastforce
  obtain colon c2 where 3: "ctx_match (c1\<lparr>cc_in := in2, cc_flags := fl\<rparr>) '':'' = (colon, c2)" by fastforce
  have "ctx_le c1 (c1\<lparr>cc_in := in2, cc_flags := fl\<rparr>)"
    using flags_adj_suffix [OF 2] by (simp add: ctx_le_def)
  then show ?thesis
    using assms ctx_match_le [OF 1] ctx_match_fields [OF 1] ctx_match_le [OF 3] ctx_match_fields [OF 3]
    by (auto simp: 1 2 3 split: if_splits intro: ctx_le_trans)
qed

lemma group_ok:
  assumes pat: "pattern_ok pattern (in_len ctx)" and fit: "caps_fit ctx"
    and paren: "ctx_match ctx ''('' = (True, ctx0)"
  shows "piece_ok ctx (re_parse_group pattern (cc_in ctx) ctx0)"
proof -
  note le0 = ctx_match_le [OF paren] ctx_match_fields [OF paren]
  have lt0: "in_len ctx0 < in_len ctx" using ctx_match_shorter(2) [OF paren] by simp
  obtain cap ctx1 where 1: "(case ctx_match ctx0 ''?'' of (q, c1) \<Rightarrow>
       if \<not> q then (True, c1)
       else (case aem_regex_flags_adj (cc_in c1) (cc_flags c1) True of (fl, in2) \<Rightarrow>
          case ctx_match (c1\<lparr>cc_in := in2, cc_flags := fl\<rparr>) '':'' of (colon, c2) \<Rightarrow> (\<not> colon, c2))) = (cap, ctx1)"
    by fastforce
  note le1 = group_prefix [OF 1]
  define i where "i = cc_n_captures ctx1"
  define ctx2 where "ctx2 = (if cap then ctx1\<lparr>cc_n_captures := i + 1\<rparr> else ctx1)"
  have i: "unat i = n_caps ctx" using le0 le1 by (simp add: i_def)
  have "unat i + in_len ctx < 2 ^ 32" using fit i by (simp add: caps_fit_def)
  then have "unat i + 1 < 2 ^ LENGTH(32)" using lt0 by simp
  then have "unat (i + 1) = unat i + 1" by (simp add: unat_word_ariths)
  then have n2: "n_caps ctx2 = (if cap then Suc (n_caps ctx) else n_caps ctx)"
    using i le0 le1 by (simp add: ctx2_def)
  have le2: "ctx_le ctx ctx2" "in_len ctx2 < in_len ctx"
    using le0 le1 lt0 n2 by (auto simp: ctx_le_def ctx2_def)
  have call: "re_parse_group pattern (cc_in ctx) ctx0 = None" if "pattern ctx2 = None"
    using that by (simp only: re_parse_group_def Let_def 1 prod.case i_def [symmetric] ctx2_def [symmetric]
        Option.bind.bind_lzero)
  show ?thesis
  proof (rule pattern_okE [OF pat le2(2) caps_fit_le [OF le2(1) fit]])
    assume "pattern ctx2 = None" "\<not> escapes_ascii (ss_bytes (cc_in ctx2))"
    then show ?thesis using call not_ascii_le [OF le2(1)] by (simp add: piece_ok_def)
  next
  fix sub ctx3 assume 3: "pattern ctx2 = Some (sub, ctx3)" "ctx_le ctx2 ctx3"
    "tree_ok (n_caps ctx2) (n_caps ctx3) sub"
  obtain close ctx5 where 5: "ctx_match (ctx3\<lparr>cc_flags := cc_flags ctx0\<rparr>) '')'' = (close, ctx5)" by fastforce
  have le5: "ctx_le ctx2 ctx5" "cc_n_captures ctx5 = cc_n_captures ctx3"
    using ctx_match_le [OF 5] ctx_match_fields [OF 5] 3(2) by (auto intro: ctx_le_trans)
  then have le: "ctx_le ctx ctx5" "in_len ctx5 < in_len ctx" using le2 ctx_le_trans [OF le2(1) le5(1)] by (auto simp: ctx_le_def)
  have undone: "ctx_le ctx (ctx5\<lparr>cc_n_captures := i, cc_in := cc_in ctx\<rparr>)"
    using le(1) i by (simp add: ctx_le_def)
  have sub: "tree_ok (n_caps ctx) (n_caps ctx5) sub"
    using tree_ok_mono [OF 3(3), of "n_caps ctx" "n_caps ctx3"] le5(2) n2 by auto
  have capture: "tree_ok (n_caps ctx) (n_caps ctx5) (Node (AEM_NFA_NODE_CAPTURE (unat i)) t [sub])" if cap for t
    using 3(2,3) le5(2) n2 i that by (simp add: ctx_le_def)
  have "re_parse_group pattern (cc_in ctx) ctx0 =
      (if \<not> close then Some (None, ctx5\<lparr>cc_n_captures := i, cc_in := cc_in ctx\<rparr>)
       else if \<not> cap then Some (Some sub, ctx5)
       else if has_flag ctx5 AEM_REGEX_FLAG_EXPLICIT_CAPTURES \<and> nd_args sub = AEM_NFA_NODE_ALTERNATION
         then Some (Some sub, ctx5)
       else Some (Some (aem_nfa_node_push
             (nd_set_text (aem_nfa_node_new (AEM_NFA_NODE_CAPTURE (unat i))) (ss_set_end (cc_in ctx) (ss_start (cc_in ctx5)))) sub), ctx5))"
    by (simp only: re_parse_group_def Let_def 1 prod.case i_def [symmetric] ctx2_def [symmetric] 3(1)
        Option.bind.bind_lunit 5)
  then show ?thesis
    using le undone sub capture by (auto simp: piece_ok_def nd_set_text_def aem_nfa_node_new_def)
  qed
qed

lemma atom_ok:
  assumes pat: "pattern_ok pattern (in_len ctx)" and fit: "caps_fit ctx"
  shows "piece_ok ctx (re_parse_atom pattern ctx)"
proof -
  obtain b ctx1 where 1: "ctx_match ctx ''['' = (b, ctx1)" by fastforce
  show ?thesis
  proof (cases b)
    case True
    have same: "ctx1\<lparr>cc_in := cc_in ctx\<rparr> = ctx" using 1 by (auto simp: ctx_match_def split: prod.splits)
    obtain r ctx2 where 2: "re_parse_brackets ctx = (r, ctx2)" by fastforce
    show ?thesis
      using True brackets_tree [OF 2, of "n_caps ctx" "n_caps ctx"] 2
      by (simp add: re_parse_atom_def Let_def 1 same piece_ok_def)
  next
    case False
    then have same: "ctx1 = ctx" using 1 by (auto simp: ctx_match_def match_spec split: prod.splits if_splits)
    obtain p ctx2 where 2: "ctx_match ctx ''('' = (p, ctx2)" by fastforce
    show ?thesis
    proof (cases p)
      case True
      then have "ctx_match ctx ''('' = (True, ctx2)" using 2 by simp
      from group_ok [OF pat fit this] show ?thesis
        using False True by (simp add: re_parse_atom_def Let_def 1 same 2)
    next
      case no_paren: False
      then have same2: "ctx2 = ctx" using 2 by (auto simp: ctx_match_def match_spec split: prod.splits if_splits)
      obtain r ctx3 where 3: "match_escape ctx = (r, ctx3)" by fastforce
      have le: "ctx_le ctx ctx3" "cc_n_captures ctx3 = cc_n_captures ctx" using match_escape_le [OF 3] by simp_all
      have undone: "ctx_le ctx (ctx3\<lparr>cc_in := cc_in ctx\<rparr>)" using le by (simp add: ctx_le_def)
      have leaf: "tree_ok lo hi (Node args t [])" if "atom_args ctx3 c esc = Some (Some args)" for lo hi args t c esc
        using that by (auto simp: atom_args_def Let_def split: if_splits)
      have ascii: "\<not> escapes_ascii (ss_bytes (cc_in ctx))" if undef: "atom_args ctx3 c esc = None" and read: "r = Some (c, esc)" for c esc
      proof
        assume e: "escapes_ascii (ss_bytes (cc_in ctx))"
        have "esc = 2" and big: "\<not> (-1 \<le> sint c \<and> sint c \<le> 255)"
          using undef by (auto simp: atom_args_def Let_def split: if_splits)
        then obtain sl where "aem_string_unescape_rune (cc_in ctx) = (Some (c, 2), sl)"
          using 3 read by (auto simp: match_escape_def split: prod.splits)
        then have c: "uint c < 128" using unescape_rune_ascii e by blast
        moreover have "- (2 ^ (LENGTH(32) - 1)) \<le> uint c" by (rule order_trans [OF _ uint_ge_0]) simp
        ultimately have "sint c = uint c" unfolding sint_uint by (simp add: signed_take_bit_int_eq_self)
        then show False using big c order_trans [OF _ uint_ge_0, of "-1" c] by simp
      qed
      show ?thesis
      proof (cases r)
        case None
        then show ?thesis using False no_paren undone
          by (simp add: re_parse_atom_def Let_def 1 same 2 same2 3 piece_ok_def)
      next
        case (Some ce)
        then have "in_len ctx3 < in_len ctx" using match_escape_shorter 3 by blast
        then show ?thesis using False no_paren undone Some le leaf ascii
          by (cases ce) (auto simp: re_parse_atom_def Let_def 1 same 2 same2 3 piece_ok_def nd_set_text_def
              aem_nfa_node_new_def split: option.splits)
      qed
    qed
  qed
qed

lemma uint_base_le:
  "aem_stringslice_match_uint_base sl base = (r, sl') \<Longrightarrow> suffix (ss_bytes sl') (ss_bytes sl)"
  by (auto simp: aem_stringslice_match_uint_base_def ulong_spec Let_def suffix_drop suffix_dropWhile split: if_splits option.splits)

lemma bounds_le:
  assumes "re_parse_bounds ctx = (op, ctx')"
  shows "ctx_le ctx ctx'"
proof -
  obtain lower in1 where 1: "aem_stringslice_match_uint_base (cc_in ctx) 10 = (lower, in1)" by fastforce
  obtain comma ctx2 where 2: "ctx_match (ctx\<lparr>cc_in := in1\<rparr>) '','' = (comma, ctx2)" by fastforce
  obtain u in3 where 3: "aem_stringslice_match_uint_base (cc_in ctx2) 10 = (u, in3)" by fastforce
  obtain c4 ctx4 where 4: "ctx_match (ctx2\<lparr>cc_in := in3\<rparr>) ''}'' = (c4, ctx4)" by fastforce
  obtain c5 ctx5 where 5: "ctx_match ctx2 ''}'' = (c5, ctx5)" by fastforce
  have l1: "ctx_le ctx ctx2"
    using ctx_match_le [OF 2] ctx_le_in [OF uint_base_le [OF 1]] by (rule ctx_le_trans [rotated])
  have l3: "ctx_le ctx (ctx2\<lparr>cc_in := in3\<rparr>)"
    using l1 ctx_le_in [OF uint_base_le [OF 3]] by (rule ctx_le_trans)
  have "ctx_le ctx ctx4" "ctx_le ctx ctx5"
    using l3 ctx_match_le [OF 4] l1 ctx_match_le [OF 5] by (blast intro: ctx_le_trans)+
  then show ?thesis
    using assms l1 by (auto simp: re_parse_bounds_def Let_def 1 2 3 4 5 split: if_splits)
qed

lemma repeat_op_le:
  assumes "re_parse_repeat_op ctx = (op, ctx')"
  shows "ctx_le ctx ctx'"
proof -
  obtain a ctx1 where 1: "ctx_match ctx ''?'' = (a, ctx1)" by fastforce
  obtain b ctx2 where 2: "ctx_match ctx1 ''*'' = (b, ctx2)" by fastforce
  obtain c ctx3 where 3: "ctx_match ctx2 ''+'' = (c, ctx3)" by fastforce
  obtain d ctx4 where 4: "ctx_match ctx3 ''{'' = (d, ctx4)" by fastforce
  note l1 = ctx_match_le [OF 1]
  note l2 = ctx_le_trans [OF l1 ctx_match_le [OF 2]]
  note l3 = ctx_le_trans [OF l2 ctx_match_le [OF 3]]
  note l4 = ctx_le_trans [OF l3 ctx_match_le [OF 4]]
  show ?thesis
    using assms l1 l2 l3 l4 bounds_le [of ctx4 op ctx']
    by (auto simp: re_parse_repeat_op_def 1 2 3 4 split: if_splits intro: ctx_le_trans)
qed

text \<open>Dropping a capture may give its number back.\<close>
lemma drop_capture_ok:
  assumes tree: "tree_ok (n_caps ctx0) (n_caps ctx) atom" and le: "ctx_le ctx0 ctx"
  obtains atom' ctx' where "drop_capture atom ctx = Some (atom', ctx')" "ctx_le ctx0 ctx'"
    "cc_in ctx' = cc_in ctx" "tree_ok (n_caps ctx0) (n_caps ctx') atom'"
proof (cases "\<exists>k t cs. atom = Node (AEM_NFA_NODE_CAPTURE k) t cs \<and> has_flag ctx AEM_REGEX_FLAG_EXPLICIT_CAPTURES")
  case False
  then have "drop_capture atom ctx = Some (atom, ctx)"
    by (cases "(atom, ctx)" rule: drop_capture.cases) auto
  then show thesis using that le tree by blast
next
  case True
  then obtain k t cs where atom: "atom = Node (AEM_NFA_NODE_CAPTURE k) t cs"
    and flag: "has_flag ctx AEM_REGEX_FLAG_EXPLICIT_CAPTURES" by blast
  obtain c where cs: "cs = [c]" using tree by (auto simp: atom tree_ok.simps length_Suc_conv)
  have k: "n_caps ctx0 \<le> k" "k < n_caps ctx" "tree_ok (Suc k) (n_caps ctx) c"
    using tree by (simp_all add: atom cs)
  have pred: "unat (cc_n_captures ctx - 1) = n_caps ctx - 1"
    using k(2) by (intro unat_minus_one) auto
  show thesis
  proof (cases "k = unat (cc_n_captures ctx - 1)")
    case True
    let ?ctx = "ctx\<lparr>cc_n_captures := cc_n_captures ctx - 1\<rparr>"
    have "drop_capture atom ctx = Some (c, ?ctx)" using flag True by (simp add: atom cs)
    moreover have "n_caps ?ctx = k" using True pred by simp
    then have "ctx_le ctx0 ?ctx" using le k(1,2) unfolding ctx_le_def by auto
    moreover have "tree_ok (n_caps ctx0) (n_caps ?ctx) c"
      by (rule tree_ok_empty [OF k(3)]) (use True pred in simp)
    ultimately show thesis using that by simp
  next
    case False
    then have "drop_capture atom ctx = Some (c, ctx)" using flag by (simp add: atom cs)
    moreover have "tree_ok (n_caps ctx0) (n_caps ctx) c" using tree_ok_mono [OF k(3)] k(1) by simp
    ultimately show thesis using that le by simp
  qed
qed

lemma postfix_ok:
  assumes pat: "pattern_ok pattern (in_len ctx)" and fit: "caps_fit ctx"
  shows "piece_ok ctx (re_parse_postfix pattern ctx)"
proof (rule piece_okE [OF atom_ok [OF pat fit]])
  assume "re_parse_atom pattern ctx = None" "\<not> escapes_ascii (ss_bytes (cc_in ctx))"
  then show ?thesis by (simp add: re_parse_postfix_def piece_ok_def)
next
  fix ctx1 assume "re_parse_atom pattern ctx = Some (None, ctx1)" "ctx_le ctx ctx1"
  then show ?thesis by (simp add: re_parse_postfix_def piece_ok_def)
next
  fix atom ctx1
  assume a: "re_parse_atom pattern ctx = Some (Some atom, ctx1)" "ctx_le ctx ctx1" "in_len ctx1 < in_len ctx"
    "tree_ok (n_caps ctx) (n_caps ctx1) atom"
  obtain op ctx2 where 2: "re_parse_repeat_op ctx1 = (op, ctx2)" by fastforce
  obtain rel ctx3 where 3: "ctx_match ctx2 ''?'' = (rel, ctx3)" by fastforce
  have l2: "ctx_le ctx1 ctx2" and l3: "ctx_le ctx1 ctx3"
    using repeat_op_le [OF 2] ctx_match_le [OF 3] by (auto intro: ctx_le_trans)
  have len: "in_len c < in_len ctx" "ctx_le ctx c" "tree_ok (n_caps ctx) (n_caps c) atom" if "ctx_le ctx1 c" for c
    using that a ctx_le_trans [OF a(2) that] tree_ok_mono [OF a(4)] by (auto simp: ctx_le_def)
  have same_caps: "cc_n_captures c = cc_n_captures ctx1" if "c = ctx2 \<or> c = ctx3" for c
  proof -
    have "cc_n_captures ctx2 = cc_n_captures ctx1"
      using 2 by (auto simp: re_parse_repeat_op_def re_parse_bounds_def Let_def dest!: ctx_match_fields
          split: prod.splits if_splits option.splits)
    then show ?thesis using that ctx_match_fields [OF 3] by auto
  qed
  have undone: "ctx_le ctx (c\<lparr>cc_in := cc_in ctx1\<rparr>)" if "c = ctx2 \<or> c = ctx3" for c
    using that l2 l3 a(2) same_caps [OF that] by (auto simp: ctx_le_def)
  show ?thesis
  proof (cases op)
    case No_Repeat
    then show ?thesis using a 2 len [OF l2] by (simp add: re_parse_postfix_def Let_def piece_ok_def)
  next
    case Bad_Repeat
    then show ?thesis using a 2 undone [of ctx2] by (simp add: re_parse_postfix_def Let_def piece_ok_def)
  next
    case (Repeat mn mx)
    let ?txt = "ss_set_end (cc_in ctx1) (ss_start (cc_in ctx3))"
    obtain atom' ctx4 where d: "drop_capture atom ctx3 = Some (atom', ctx4)" "ctx_le ctx ctx4"
      "cc_in ctx4 = cc_in ctx3" "tree_ok (n_caps ctx) (n_caps ctx4) atom'"
      using drop_capture_ok [OF len(3,2) [OF l3]] .
    have "re_parse_postfix pattern ctx =
      (if mx < mn then Some (None, ctx3\<lparr>cc_in := cc_in ctx1\<rparr>)
       else if \<not> aem_stringslice_ok ?txt then Some (Some atom, ctx3)
       else Some (Some (aem_nfa_node_push (nd_set_text (aem_nfa_node_new (AEM_NFA_NODE_REPEAT mn mx rel)) ?txt) atom'), ctx4))"
      using a(1) 2 3 Repeat d(1) by (simp add: re_parse_postfix_def Let_def)
    then show ?thesis
      using undone [of ctx3] len [OF l3] d(2-4)
      by (auto simp: piece_ok_def nd_set_text_def aem_nfa_node_new_def)
  qed
qed

lemma pattern_ok_less: "pattern_ok pattern k \<Longrightarrow> k' \<le> k \<Longrightarrow> pattern_ok pattern k'"
  by (auto simp: pattern_ok_def)

text \<open>The loops end because every round takes at least a byte.\<close>
lemma branch_loop_ok:
  assumes "pattern_ok pattern (in_len ctx)" "caps_fit ctx" "lo \<le> n_caps ctx"
    "\<forall>c \<in> set children. tree_ok lo (n_caps ctx) c"
  shows "returns ctx (branch_loop pattern ctx children) (\<lambda>cs ctx'. \<forall>c \<in> set cs. tree_ok lo (n_caps ctx') c)"
  using assms
proof (induction "in_len ctx" arbitrary: ctx children rule: less_induct)
  case less
  show ?case
  proof (cases "ss_bytes (cc_in ctx) = []")
    case True
    then show ?thesis using less.prems(4) by (subst branch_loop.simps) simp
  next
    case False
    show ?thesis
    proof (rule piece_okE [OF postfix_ok [OF less.prems(1,2)]])
      assume "re_parse_postfix pattern ctx = None" "\<not> escapes_ascii (ss_bytes (cc_in ctx))"
      then show ?thesis using False by (subst branch_loop.simps) simp
    next
      fix ctx1 assume p: "re_parse_postfix pattern ctx = Some (None, ctx1)" "ctx_le ctx ctx1"
      have "\<forall>c \<in> set children. tree_ok lo (n_caps ctx1) c"
        using less.prems(4) p(2) by (auto simp: ctx_le_def intro: tree_ok_mono)
      then show ?thesis using False p by (subst branch_loop.simps) simp
    next
      fix nd ctx1
      assume p: "re_parse_postfix pattern ctx = Some (Some nd, ctx1)" "ctx_le ctx ctx1"
        "in_len ctx1 < in_len ctx" "tree_ok (n_caps ctx) (n_caps ctx1) nd"
      have all: "\<forall>c \<in> set (children @ [nd]). tree_ok lo (n_caps ctx1) c"
        using less.prems(3,4) p(2,4) by (auto simp: ctx_le_def intro: tree_ok_mono)
      have lo: "lo \<le> n_caps ctx1" using less.prems(3) p(2) by (simp add: ctx_le_def)
      have pat: "pattern_ok pattern (in_len ctx1)"
        by (rule pattern_ok_less [OF less.prems(1)]) (use p(3) in simp)
      have "returns ctx (branch_loop pattern ctx1 (children @ [nd])) (\<lambda>cs ctx'. \<forall>c \<in> set cs. tree_ok lo (n_caps ctx') c)"
        by (rule returns_le [OF less.hyps [OF p(3) pat caps_fit_le [OF p(2) less.prems(2)] lo all] p(2)])
      then show ?thesis using False p(1) by (subst branch_loop.simps) simp
    qed
  qed
qed

lemma branch_ok:
  assumes "pattern_ok pattern (in_len ctx)" "caps_fit ctx"
  shows "returns ctx (re_parse_branch pattern ctx) (\<lambda>nd ctx'. tree_ok (n_caps ctx) (n_caps ctx') nd)"
  using branch_loop_ok [OF assms order_refl, of "[]", simplified]
proof (cases rule: returnsE)
  case (returned cs ctx')
  then show ?thesis by (cases "length cs = 1") (auto simp: re_parse_branch_def length_Suc_conv)
qed (simp add: re_parse_branch_def)

lemma push_alternation [simp]:
  "tree_ok lo hi (aem_nfa_node_push (Node AEM_NFA_NODE_ALTERNATION t cs) c) \<longleftrightarrow>
     (\<forall>c \<in> set cs. tree_ok lo hi c) \<and> tree_ok lo hi c"
  by auto

lemma alternatives_ok:
  assumes "pattern_ok pattern (in_len ctx)" "caps_fit ctx" "lo \<le> n_caps ctx"
    "\<forall>c \<in> set cs. tree_ok lo (n_caps ctx) c"
  shows "returns ctx (alternatives_loop pattern ctx (Node AEM_NFA_NODE_ALTERNATION t cs))
    (\<lambda>nd ctx'. tree_ok lo (n_caps ctx') nd)"
  using assms
proof (induction "in_len ctx" arbitrary: ctx cs rule: less_induct)
  case less
  show ?case using branch_ok [OF less.prems(1,2)]
  proof (cases rule: returnsE)
  case stuck
  then show ?thesis by (subst alternatives_loop.simps) simp
  next
  case b: (returned nd ctx1)
  obtain again ctx2 where m: "ctx_match ctx1 ''|'' = (again, ctx2)" by fastforce
  have le: "ctx_le ctx ctx2" and caps: "n_caps ctx2 = n_caps ctx1"
    using ctx_le_trans [OF b(2) ctx_match_le [OF m]] ctx_match_fields [OF m] by simp_all
  have all: "\<forall>c \<in> set (cs @ [nd]). tree_ok lo (n_caps ctx2) c"
    using less.prems(3,4) b(2,3) caps by (auto simp: ctx_le_def intro: tree_ok_mono)
  show ?thesis
  proof (cases again)
    case False
    then show ?thesis using b(1) m le all by (subst alternatives_loop.simps) simp
  next
    case True
    then have lt: "in_len ctx2 < in_len ctx"
      using ctx_match_shorter(2) [OF m] b(2) by (simp add: ctx_le_def)
    have lo: "lo \<le> n_caps ctx2" using less.prems(3) le by (simp add: ctx_le_def)
    have pat: "pattern_ok pattern (in_len ctx2)" by (rule pattern_ok_less [OF less.prems(1)]) (use lt in simp)
    from returns_le [OF less.hyps [OF lt pat caps_fit_le [OF le less.prems(2)] lo all] le]
    show ?thesis using b(1) m True by (subst alternatives_loop.simps) auto
  qed
  qed
qed

lemma pattern_body_ok:
  assumes pat: "pattern_ok pattern (in_len ctx)" and fit: "caps_fit ctx"
  shows "returns ctx (re_parse_pattern_body pattern ctx) (\<lambda>nd ctx'. tree_ok (n_caps ctx) (n_caps ctx') nd)"
  using branch_ok [OF pat fit]
proof (cases rule: returnsE)
  case stuck
  then show ?thesis by (simp add: re_parse_pattern_body_def)
next
  case b: (returned nd ctx1)
  obtain again ctx2 where m: "ctx_match ctx1 ''|'' = (again, ctx2)" by fastforce
  have le: "ctx_le ctx ctx2" and caps: "n_caps ctx2 = n_caps ctx1"
    using ctx_le_trans [OF b(2) ctx_match_le [OF m]] ctx_match_fields [OF m] by simp_all
  show ?thesis
  proof (cases again)
    case False
    then show ?thesis using b m le caps by (simp add: re_parse_pattern_body_def Let_def)
  next
    case True
    have pat2: "pattern_ok pattern (in_len ctx2)"
      by (rule pattern_ok_less [OF pat]) (use le in \<open>simp add: ctx_le_def\<close>)
    have lo: "n_caps ctx \<le> n_caps ctx2" using le by (simp add: ctx_le_def)
    have all: "\<forall>c \<in> set [nd]. tree_ok (n_caps ctx) (n_caps ctx2) c" using b(3) caps by simp
    from returns_le [OF alternatives_ok [OF pat2 caps_fit_le [OF le fit] lo all] le] show ?thesis
      using b(1) m True by (simp add: re_parse_pattern_body_def Let_def nd_set_text_def aem_nfa_node_new_def)
  qed
qed

lemma re_parse_pattern_ok: "pattern_ok (re_parse_pattern d) d"
proof (induction d)
  case 0
  then show ?case by (simp add: pattern_ok_def)
next
  case (Suc d)
  show ?case unfolding pattern_ok_def
  proof (intro allI impI)
    fix ctx assume "in_len ctx < Suc d \<and> caps_fit ctx"
    then show "returns ctx (re_parse_pattern (Suc d) ctx) (\<lambda>nd ctx'. tree_ok (n_caps ctx) (n_caps ctx') nd)"
      using pattern_body_ok [OF pattern_ok_less [OF Suc.IH]] by simp
  qed
qed

text \<open>C7: on every pattern shorter than \<open>2 ^ 32\<close> bytes in which no backslash is followed by
  a byte above ASCII, the parser returns, needing no more nested calls than the pattern has bytes, plus
  one. What it returns is a tree in which leaves have no children, captures and repetitions have one,
  repetitions have ordered bounds, and captures are numbered below the count of captures, which does not
  exceed the bytes consumed. It does not touch the program. (For other patterns the parser may call
  \<open>isupper\<close> outside its domain, which is the undefined result here. \<open>qsort\<close> is taken to return also
  when ranges that are \<open>2 ^ 31\<close> or more apart are compared inconsistently: \<open>ranges_in_circle\<close>.)\<close>
theorem regex_parse_total:
  assumes "length (ss_bytes (cc_in ctx)) < depth" "length (ss_bytes (cc_in ctx)) < 2 ^ 32" "cc_n_captures ctx = 0"
    and "escapes_ascii (ss_bytes (cc_in ctx))"
  shows "\<exists>nd ctx'. aem_regex_compile depth ctx = Some (nd, ctx') \<and> tree_ok 0 (unat (cc_n_captures ctx')) nd \<and>
    unat (cc_n_captures ctx') + length (ss_bytes (cc_in ctx')) \<le> length (ss_bytes (cc_in ctx)) \<and>
    cc_nfa ctx' = cc_nfa ctx"
proof -
  have "caps_fit ctx" using assms by (simp add: caps_fit_def)
  then have "returns ctx (re_parse_pattern depth ctx) (\<lambda>nd ctx'. tree_ok (n_caps ctx) (n_caps ctx') nd)"
    using assms(1) re_parse_pattern_ok [of depth] unfolding pattern_ok_def by blast
  then show ?thesis
    using assms(3,4) by (cases rule: returnsE) (auto simp: ctx_le_def aem_regex_compile_def)
qed

lemma regex_parse_total_witness:
  "\<exists>nd ctx'. aem_regex_compile 11 \<lparr>cc_in = aem_stringslice_new_len 1 (cstr [CHR ''('', CHR 0x5C, CHR ''w'', CHR ''|'', CHR ''b'', CHR '')'', CHR ''*'', CHR ''c'']), cc_nfa = AEM_NFA_EMPTY,
      cc_n_captures = 0, cc_match = 0, cc_rc = 0, cc_flags = AEM_REGEX_FLAG_BINARY\<rparr> = Some (nd, ctx') \<and>
    cc_nfa ctx' = AEM_NFA_EMPTY"
  using regex_parse_total [of "\<lparr>cc_in = aem_stringslice_new_len 1 (cstr [CHR ''('', CHR 0x5C, CHR ''w'', CHR ''|'', CHR ''b'', CHR '')'', CHR ''*'', CHR ''c'']), cc_nfa = AEM_NFA_EMPTY,
      cc_n_captures = 0, cc_match = 0, cc_rc = 0, cc_flags = AEM_REGEX_FLAG_BINARY\<rparr>" 11]
  by (auto simp: cstr_def)

text \<open>A backslash before the character U+0100: \<open>isupper(256)\<close>.\<close>
lemma escaped_rune_undefined:
  "aem_regex_compile 5 \<lparr>cc_in = aem_stringslice_new_len 1 [0x5C, 0xC4, 0x80], cc_nfa = AEM_NFA_EMPTY,
    cc_n_captures = 0, cc_match = 0, cc_rc = 0, cc_flags = AEM_REGEX_FLAG_BINARY\<rparr> = None"
  by code_simp

lemma string_atoms_tree:
  "string_atoms sl cs = (cs', sl') \<Longrightarrow> \<forall>c \<in> set cs. tree_ok lo hi c \<Longrightarrow> \<forall>c \<in> set cs'. tree_ok lo hi c"
proof (induction sl cs rule: string_atoms.induct)
  case (1 sl cs)
  obtain c sl1 where g: "aem_stringslice_getc sl = (c, sl1)" by fastforce
  show ?case
    using "1.prems" "1.IH" [OF g [symmetric]]
    by (subst (asm) string_atoms.simps)
      (auto simp: g nd_set_text_def aem_nfa_node_new_def split: if_splits)
qed

end
