(* ===== verification/Aem_Nfa_Run.thy ===== *)
theory Aem_Nfa_Run
  imports Aem_Nfa
begin

text \<open>
  \<open>nfa.c\<close>, second part: the engine. \<open>aem_nfa_run\<close> simulates all threads of the program in
  lock-step over the input, at most one per instruction and character. The stacks of threads are
  the lists of their elements (\<open>Aem_Stack\<close> shows what \<open>aem_stack_push\<close> does to those); memory
  for threads is granted, as the code asserts. \<open>None\<close> is an abort, or not returning.

  The second half gives the meaning of a program as an inductive relation, the instructions a
  thread can be at before each character, and shows that the engine explores exactly those.
\<close>

section \<open>The state\<close>

datatype aem_nfa_thr_state = AEM_NFA_THR_LIVE | AEM_NFA_THR_DEAD | AEM_NFA_THR_MATCHED

text \<open>A capture is a slice under construction: its two pointers.\<close>
record nfa_match =
  nm_captures :: "(nat \<times> nat) list"
  nm_visited :: "u32 list"
  nm_match :: int

record nfa_thread =
  thr_pc :: nat
  thr_state :: aem_nfa_thr_state
  thr_match :: nfa_match

record nfa_run =
  run_curr :: "nfa_thread ptr list"
  run_next :: "nfa_thread ptr list"
  run_in_curr :: stringslice
  run_longest_end :: nat         \<comment> \<open>\<open>longest_match.end\<close>\<close>
  run_p_curr :: nat
  run_map_curr :: "u32 list"
  run_map_next :: "u32 list"
  run_map_done :: "u32 list"
  run_n_insns :: nat
  run_n_captures :: nat
  run_c_prev :: int

definition aem_nfa_thread_init :: "nfa_run \<Rightarrow> nat \<Rightarrow> nfa_thread" where
  "aem_nfa_thread_init run pc =
     \<lparr>thr_pc = pc, thr_state = AEM_NFA_THR_LIVE,
      thr_match = \<lparr>nm_captures = replicate (run_n_captures run) (0, 0),
        nm_visited = replicate (list_32 (run_n_insns run)) 0, nm_match = -1\<rparr>\<rparr>"

definition aem_nfa_thread_new :: "nfa_run \<Rightarrow> nat \<Rightarrow> nfa_thread" where
  "aem_nfa_thread_new run pc = aem_nfa_thread_init run pc"

definition aem_nfa_thread_add :: "nfa_run \<Rightarrow> bool \<Rightarrow> nfa_thread \<Rightarrow> nfa_run option" where
  "aem_nfa_thread_add run nxt thr =
     (let pc = thr_pc thr in
      if \<not> pc < run_n_insns run then None
      else
        let map = (if nxt then run_map_next run else run_map_curr run) in
        if bitfield_test map pc \<or> \<not> nxt \<and> bitfield_test (run_map_done run) pc then Some run
        else if nxt then
          Some (run\<lparr>run_map_next := bitfield_set map pc, run_next := run_next run @ [Some thr]\<rparr>)
        else
          Some (run\<lparr>run_map_curr := bitfield_set map pc, run_curr := run_curr run @ [Some thr]\<rparr>))"

definition aem_nfa_thread_check :: "nfa_run \<Rightarrow> nat \<Rightarrow> bool option" where
  "aem_nfa_thread_check run pc =
     (if pc < run_n_insns run then Some (bitfield_test (run_map_done run) pc) else None)"

section \<open>One thread, one character\<close>

definition thr_visit :: "nfa_thread \<Rightarrow> nat \<Rightarrow> nfa_thread" where
  "thr_visit thr pc =
     thr\<lparr>thr_match := (thr_match thr)\<lparr>nm_visited := bitfield_set (nm_visited (thr_match thr)) pc\<rparr>\<rparr>"

definition thr_die :: "nfa_thread \<Rightarrow> nfa_thread" where
  "thr_die thr = thr\<lparr>thr_state := AEM_NFA_THR_DEAD\<rparr>"

definition thr_capture :: "nfa_thread \<Rightarrow> bool \<Rightarrow> nat \<Rightarrow> nat \<Rightarrow> nfa_thread" where
  "thr_capture thr fin k p =
     (let caps = nm_captures (thr_match thr); (s, e) = caps ! k in
      thr\<lparr>thr_match := (thr_match thr)\<lparr>nm_captures := caps[k := if fin then (s, p) else (p, e)]\<rparr>\<rparr>)"

text \<open>What one instruction does: the thread goes on in the same character, or the step returns.\<close>

datatype step_result =
    Go_On nfa_run nfa_thread
  | Return int nfa_run nfa_thread

text \<open>The body of the loop of \<open>aem_nfa_thread_step\<close>.\<close>
definition thread_step_body :: "nfa \<Rightarrow> nfa_run \<Rightarrow> nfa_thread \<Rightarrow> int \<Rightarrow> step_result option" where
  "thread_step_body nfa run thr c =
     (if \<not> thr_pc thr < run_n_insns run then Some (Return (-2) run thr)
      else do {
        dup \<leftarrow> aem_nfa_thread_check run (thr_pc thr);
        if dup then Some (Return (-1) run (thr_die thr))
        else
          let pc_curr = thr_pc thr;
              run1 = run\<lparr>run_map_done := bitfield_set (run_map_done run) pc_curr\<rparr>;
              thr1 = thr\<lparr>thr_pc := pc_curr + 1\<rparr>
          in case nfa_decode (pgm nfa ! pc_curr) of
               I_Range lo hi \<Rightarrow>
                 if c < 0 then Some (Return (-1) run1 (thr_die thr1))
                 else if \<not> (uchar lo \<le> c \<and> c \<le> uchar hi) then Some (Return (-1) run1 (thr_die thr1))
                 else Some (Return (-1) run1 (thr_visit thr1 pc_curr))
             | I_Class neg frontier cclass \<Rightarrow>
                 let match = aem_nfa_cclass_match neg cclass c;
                     match1 = (if frontier \<and> match
                       then \<not> aem_nfa_cclass_match neg cclass (run_c_prev run1) else match)
                 in if \<not> match1 then Some (Return (-1) run1 (thr_die thr1))
                    else if frontier then Some (Go_On run1 (thr_visit (thr_visit thr1 pc_curr) pc_curr))
                    else Some (Return (-1) run1 (thr_visit thr1 pc_curr))
             | I_Capture fin k \<Rightarrow>
                 if \<not> k < run_n_captures run1 then Some (Return (-2) run1 thr1)
                 else Some (Go_On run1 (thr_visit (thr_capture thr1 fin k (run_p_curr run1)) pc_curr))
             | I_Match k \<Rightarrow>
                 Some (Return (int k) run1
                   (thr1\<lparr>thr_state := AEM_NFA_THR_MATCHED,
                         thr_match := (thr_match thr1)\<lparr>nm_match := int k\<rparr>\<rparr>))
             | I_Jmp t \<Rightarrow>
                 if \<not> t < run_n_insns run1 then Some (Return (-2) run1 thr1)
                 else Some (Go_On run1 (thr_visit (thr1\<lparr>thr_pc := t\<rparr>) pc_curr))
             | I_Fork t \<Rightarrow>
                 if \<not> t < run_n_insns run1 then Some (Return (-2) run1 thr1)
                 else
                   let child = (aem_nfa_thread_new run1 t)\<lparr>thr_match :=
                         (thr_match (aem_nfa_thread_new run1 t))\<lparr>
                            nm_captures := nm_captures (thr_match thr1),
                            nm_visited := nm_visited (thr_match thr1)\<rparr>\<rparr>
                   in do { run2 \<leftarrow> aem_nfa_thread_add run1 False (thr_visit child pc_curr);
                           Some (Go_On run2 (thr_visit thr1 pc_curr)) }
             | I_Invalid k \<Rightarrow> Some (Return (-2) run1 thr1) })"

partial_function (option) thread_step_loop ::
  "nfa \<Rightarrow> nfa_run \<Rightarrow> nfa_thread \<Rightarrow> int \<Rightarrow> (int \<times> nfa_run \<times> nfa_thread) option" where
  "thread_step_loop nfa run thr c =
     do { r \<leftarrow> thread_step_body nfa run thr c;
          case r of
            Return rc run1 thr1 \<Rightarrow> Some (rc, run1, thr1)
          | Go_On run1 thr1 \<Rightarrow> thread_step_loop nfa run1 thr1 c }"

declare thread_step_loop.simps [code]

definition aem_nfa_thread_step ::
  "nfa \<Rightarrow> nfa_run \<Rightarrow> nfa_thread \<Rightarrow> int \<Rightarrow> (int \<times> nfa_run \<times> nfa_thread) option" where
  "aem_nfa_thread_step nfa run thr c =
     (if thr_state thr = AEM_NFA_THR_LIVE then thread_step_loop nfa run thr c else None)"

section \<open>One character\<close>

text \<open>The loop over the threads from index \<open>i\<close> on, which may add threads to the list. \<open>rc\<close> is the
  result so far and \<open>best\<close> the thread that produced it; the first component of the result tells
  whether the loop was left by the \<open>goto\<close> on a fatal error.\<close>

partial_function (option) foreach_thread ::
  "nfa \<Rightarrow> nfa_run \<Rightarrow> nat \<Rightarrow> int \<Rightarrow> int \<Rightarrow> nfa_thread ptr \<Rightarrow>
   (bool \<times> nfa_run \<times> int \<times> nfa_thread ptr) option" where
  "foreach_thread nfa run i c rc best =
     (if \<not> i < length (run_curr run) then Some (False, run, rc, best)
      else case run_curr run ! i of
        None \<Rightarrow> None
      | Some thr \<Rightarrow>
          let run1 = run\<lparr>run_curr := (run_curr run)[i := None],
                         run_map_curr := bitfield_clear (run_map_curr run) (thr_pc thr)\<rparr>
          in do {
            (rc2, run2, thr2) \<leftarrow> aem_nfa_thread_step nfa run1 thr c;
            let rc' = (if 0 \<le> rc2 then rc2 else rc) in
            if rc2 = -2 then Some (True, run2, -2, best)
            else
              (case thr_state thr2 of
                 AEM_NFA_THR_LIVE \<Rightarrow> do {
                   run3 \<leftarrow> aem_nfa_thread_add run2 True thr2;
                   foreach_thread nfa run3 (i + 1) c rc' best }
               | AEM_NFA_THR_DEAD \<Rightarrow> foreach_thread nfa run2 (i + 1) c rc' best
               | AEM_NFA_THR_MATCHED \<Rightarrow>
                   foreach_thread nfa (run2\<lparr>run_longest_end := run_p_curr run2\<rparr>) (i + 1) c rc'
                     (Some thr2)) })"

declare foreach_thread.simps [code]

section \<open>All characters\<close>

text \<open>The head of the main loop: \<open>next\<close> becomes \<open>curr\<close>, \<open>next\<close> and \<open>done\<close> are cleared.\<close>
definition run_swap :: "nfa_run \<Rightarrow> nfa_run" where
  "run_swap run =
     (let words = list_32 (run_n_insns run) in
      run\<lparr>run_map_curr := run_map_next run, run_map_next := replicate words 0,
          run_map_done := replicate words 0, run_curr := run_next run, run_next := []\<rparr>)"

definition run_live :: "nfa_run \<Rightarrow> bool" where
  "run_live run \<longleftrightarrow> (\<exists>w \<in> set (take (list_32 (run_n_insns run)) (run_map_curr run)). w \<noteq> 0)"

partial_function (option) nfa_rounds ::
  "nfa \<Rightarrow> nfa_run \<Rightarrow> int \<Rightarrow> nfa_thread ptr \<Rightarrow> (nfa_run \<times> int \<times> nfa_thread ptr) option" where
  "nfa_rounds nfa run rc best =
     (let run1 = run_swap run in
      if \<not> run_live run1 then
        (if run_curr run1 = [] then Some (run1, rc, best) else None)
      else if run_curr run1 = [] then None
      else
        let run2 = run1\<lparr>run_p_curr := ss_start (run_in_curr run1)\<rparr>;
            (c, in1) = aem_stringslice_getc (run_in_curr run2);
            run3 = run2\<lparr>run_in_curr := in1\<rparr>
        in do {
          (fatal, run4, rc4, best4) \<leftarrow> foreach_thread nfa run3 0 c rc best;
          if fatal then Some (run4, rc4, best4)
          else if c < 0 then Some (run4, rc4, best4)
          else nfa_rounds nfa (run4\<lparr>run_c_prev := c\<rparr>) rc4 best4 })"

declare nfa_rounds.simps [code]

fun add_init_threads :: "nfa \<Rightarrow> nfa_run \<Rightarrow> nat list \<Rightarrow> nfa_run option" where
  "add_init_threads nfa run [] = Some run"
| "add_init_threads nfa run (pc # pcs) =
     (if \<not> bitfield_test (thr_init nfa) pc then add_init_threads nfa run pcs
      else do { run1 \<leftarrow> aem_nfa_thread_add run True (aem_nfa_thread_new run pc);
                add_init_threads nfa run1 pcs })"

definition nfa_run_start :: "nfa \<Rightarrow> stringslice \<Rightarrow> nfa_run" where
  "nfa_run_start nfa sl =
     (let zero = replicate (list_32 (n_insns nfa)) 0 in
      \<lparr>run_curr = [], run_next = [], run_in_curr = sl, run_longest_end = ss_start sl, run_p_curr = 0,
       run_map_curr = zero, run_map_next = zero, run_map_done = zero, run_n_insns = n_insns nfa,
       run_n_captures = n_captures nfa, run_c_prev = -1\<rparr>)"

text \<open>The match ID or error, what is left of the input, and what \<open>*match_p\<close> is set to.\<close>

definition aem_nfa_run :: "nfa \<Rightarrow> stringslice \<Rightarrow> (int \<times> stringslice \<times> nfa_match) option" where
  "aem_nfa_run nfa sl =
     do { run0 \<leftarrow> add_init_threads nfa (nfa_run_start nfa sl) [0..<n_insns nfa];
          (run, rc, best) \<leftarrow> nfa_rounds nfa run0 (-1) None;
          Some (rc, ss_advance sl (run_longest_end run - ss_start sl),
            (case best of
               None \<Rightarrow> \<lparr>nm_captures = [], nm_visited = [], nm_match = rc\<rparr>
             | Some thr \<Rightarrow> thr_match thr)) }"

section \<open>Well-formed programs\<close>

text \<open>Every instruction is valid and leads to an instruction of the program.\<close>
definition nfa_insn_ok :: "nfa \<Rightarrow> nat \<Rightarrow> bool" where
  "nfa_insn_ok nfa p =
     (case nfa_decode (pgm nfa ! p) of
        I_Range lo hi \<Rightarrow> Suc p < n_insns nfa
      | I_Class neg frontier k \<Rightarrow> Suc p < n_insns nfa
      | I_Capture fin k \<Rightarrow> Suc p < n_insns nfa \<and> k < n_captures nfa
      | I_Match k \<Rightarrow> True
      | I_Jmp t \<Rightarrow> t < n_insns nfa
      | I_Fork t \<Rightarrow> Suc p < n_insns nfa \<and> t < n_insns nfa
      | I_Invalid k \<Rightarrow> False)"

definition nfa_wf :: "nfa \<Rightarrow> bool" where
  "nfa_wf nfa \<longleftrightarrow> n_insns nfa \<le> length (pgm nfa) \<and> bf_room (thr_init nfa) (n_insns nfa) \<and>
     (\<forall>p \<in> {..<n_insns nfa}. nfa_insn_ok nfa p)"

section \<open>The meaning of a program\<close>

text \<open>Where a thread at \<open>p\<close> can go without consuming the character \<open>c\<close> that follows \<open>cp\<close>, and
  whether it can consume it.\<close>
definition eps_succ :: "nfa \<Rightarrow> int \<Rightarrow> int \<Rightarrow> nat \<Rightarrow> nat list" where
  "eps_succ nfa cp c p =
     (case nfa_decode (pgm nfa ! p) of
        I_Class neg frontier k \<Rightarrow>
          if frontier \<and> aem_nfa_cclass_match neg k c \<and> \<not> aem_nfa_cclass_match neg k cp then [Suc p]
          else []
      | I_Capture fin k \<Rightarrow> [Suc p]
      | I_Jmp t \<Rightarrow> [t]
      | I_Fork t \<Rightarrow> [Suc p, t]
      | _ \<Rightarrow> [])"

definition consumes :: "nfa \<Rightarrow> int \<Rightarrow> nat \<Rightarrow> bool" where
  "consumes nfa c p =
     (case nfa_decode (pgm nfa ! p) of
        I_Range lo hi \<Rightarrow> uchar lo \<le> c \<and> c \<le> uchar hi
      | I_Class neg frontier k \<Rightarrow> \<not> frontier \<and> aem_nfa_cclass_match neg k c
      | _ \<Rightarrow> False)"

text \<open>The character at a position and the one before it; \<open>-1\<close> outside the input.\<close>
definition char_at :: "u8 list \<Rightarrow> nat \<Rightarrow> int" where
  "char_at cs i = (if i < length cs then uchar (cs ! i) else -1)"

definition char_before :: "u8 list \<Rightarrow> nat \<Rightarrow> int" where
  "char_before cs i = (if i = 0 then -1 else char_at cs (i - 1))"

text \<open>Before the character at \<open>i\<close> a thread can be at instruction \<open>p\<close>.\<close>
inductive nfa_at :: "nfa \<Rightarrow> u8 list \<Rightarrow> nat \<Rightarrow> nat \<Rightarrow> bool" for nfa cs where
  start: "p < n_insns nfa \<Longrightarrow> bitfield_test (thr_init nfa) p \<Longrightarrow> nfa_at nfa cs 0 p"
| eps: "nfa_at nfa cs i p \<Longrightarrow> q \<in> set (eps_succ nfa (char_before cs i) (char_at cs i) p) \<Longrightarrow>
    nfa_at nfa cs i q"
| consume: "nfa_at nfa cs i p \<Longrightarrow> i < length cs \<Longrightarrow> consumes nfa (char_at cs i) p \<Longrightarrow>
    nfa_at nfa cs (Suc i) (Suc p)"

text \<open>The program accepts the first \<open>i\<close> bytes with match number \<open>k\<close>.\<close>
definition nfa_accepts :: "nfa \<Rightarrow> u8 list \<Rightarrow> nat \<Rightarrow> nat \<Rightarrow> bool" where
  "nfa_accepts nfa cs i k \<longleftrightarrow> (\<exists>p. nfa_at nfa cs i p \<and> nfa_decode (pgm nfa ! p) = I_Match k)"

definition is_match :: "nfa \<Rightarrow> nat \<Rightarrow> bool" where
  "is_match nfa p \<longleftrightarrow> (\<exists>k. nfa_decode (pgm nfa ! p) = I_Match k)"

definition consumers :: "nfa \<Rightarrow> int \<Rightarrow> nat set \<Rightarrow> nat set" where
  "consumers nfa c X = Suc ` {p \<in> X. consumes nfa c p}"

lemma consumers_simps [simp]:
  "consumers nfa c {} = {}"
  "consumers nfa c (insert p X) =
     (if consumes nfa c p then insert (Suc p) (consumers nfa c X) else consumers nfa c X)"
  "consumers nfa c (X \<union> Y) = consumers nfa c X \<union> consumers nfa c Y"
  by (auto simp: consumers_def)

lemma wf_insn: "nfa_wf nfa \<Longrightarrow> p < n_insns nfa \<Longrightarrow> nfa_insn_ok nfa p"
  by (simp add: nfa_wf_def)

lemma eps_succ_less:
  "nfa_wf nfa \<Longrightarrow> p < n_insns nfa \<Longrightarrow> q \<in> set (eps_succ nfa cp c p) \<Longrightarrow> q < n_insns nfa"
  by (frule wf_insn) (auto simp: eps_succ_def nfa_insn_ok_def split: nfa_insn.splits if_splits)

lemma consumes_less: "nfa_wf nfa \<Longrightarrow> p < n_insns nfa \<Longrightarrow> consumes nfa c p \<Longrightarrow> Suc p < n_insns nfa"
  by (frule wf_insn) (auto simp: consumes_def nfa_insn_ok_def split: nfa_insn.splits)

lemma nfa_at_less: "nfa_at nfa cs i p \<Longrightarrow> nfa_wf nfa \<Longrightarrow> p < n_insns nfa"
  by (induction rule: nfa_at.induct) (auto dest: eps_succ_less consumes_less)

lemma nfa_at_index: "nfa_at nfa cs i p \<Longrightarrow> i \<le> length cs"
  by (induction rule: nfa_at.induct) auto

section \<open>The threads and the bit maps agree\<close>

definition threads_ok :: "nfa_thread ptr list \<Rightarrow> nat set \<Rightarrow> bool" where
  "threads_ok ts S \<longleftrightarrow> (\<forall>x \<in> set ts. x \<noteq> None \<and> thr_state (the x) = AEM_NFA_THR_LIVE) \<and>
     distinct (map (thr_pc \<circ> the) ts) \<and> set (map (thr_pc \<circ> the) ts) = S"

lemma threads_ok_Nil [simp]: "threads_ok [] S \<longleftrightarrow> S = {}"
  by (auto simp: threads_ok_def)

lemma threads_ok_snoc:
  "threads_ok ts S \<Longrightarrow> thr_pc thr \<notin> S \<Longrightarrow> thr_state thr = AEM_NFA_THR_LIVE \<Longrightarrow>
   threads_ok (ts @ [Some thr]) (insert (thr_pc thr) S)"
  by (auto simp: threads_ok_def)

lemma threads_ok_Cons:
  assumes "threads_ok (x # ts) S"
  obtains thr where "x = Some thr" "thr_state thr = AEM_NFA_THR_LIVE" "thr_pc thr \<in> S"
    "threads_ok ts (S - {thr_pc thr})"
  using assms by (cases x) (auto simp: threads_ok_def)

text \<open>Bits beyond the \<open>n\<close>-th are clear.\<close>
definition bf_tight :: "u32 list \<Rightarrow> nat \<Rightarrow> bool" where
  "bf_tight bf n \<longleftrightarrow> length bf = list_32 n \<and> (\<forall>j \<in> {n..<32 * length bf}. \<not> bitfield_test bf j)"

lemma bf_tight_room: "bf_tight bf n \<Longrightarrow> bf_room bf n"
  by (auto simp: bf_tight_def bf_room_def list_32_def)

lemma bf_tight_set: "bf_tight bf n \<Longrightarrow> i < n \<Longrightarrow> bf_tight (bitfield_set bf i) n"
  by (frule bf_tight_room)
    (auto simp: bf_tight_def bitfield_set_test, simp_all add: bitfield_set_def)

lemma bf_tight_clear: "bf_tight bf n \<Longrightarrow> i < n \<Longrightarrow> bf_tight (bitfield_clear bf i) n"
  by (frule bf_tight_room)
    (auto simp: bf_tight_def bitfield_clear_test, simp_all add: bitfield_clear_def)

lemma bf_tight_zero [simp]: "bf_tight (replicate (list_32 n) 0) n"
proof -
  have "\<not> bitfield_test (replicate (list_32 n) 0) j" if "j < 32 * list_32 n" for j
    using that by (simp add: bitfield_test_def less_mult_imp_div_less mult.commute)
  then show ?thesis by (auto simp: bf_tight_def)
qed

lemma bf_tight_live:
  assumes "bf_tight bf n"
  shows "(\<exists>w \<in> set (take (list_32 n) bf). w \<noteq> 0) \<longleftrightarrow> bf_to_set bf n \<noteq> {}"
proof -
  have room: "bf_room bf n" and len: "length bf = list_32 n" 
    using assms bf_tight_room by (auto simp: bf_tight_def)
  have "(\<exists>w \<in> set bf. w \<noteq> 0) \<longleftrightarrow> (\<exists>j < 32 * length bf. bitfield_test bf j)"
  proof
    assume "\<exists>w \<in> set bf. w \<noteq> 0"
    then obtain k where k: "k < length bf" "bf ! k \<noteq> 0" by (auto simp: in_set_conv_nth)
    then obtain b where b: "bit (bf ! k) b" by (metis bit_0_eq bit_eqI bot_apply bot_bool_def)
    then have "b < 32" by (auto dest: bit_imp_le_length)
    then have "bitfield_test bf (32 * k + b)" "32 * k + b < 32 * length bf"
      using k b by (auto simp: bitfield_test_bit)
    then show "\<exists>j < 32 * length bf. bitfield_test bf j" by blast
  next
    assume "\<exists>j < 32 * length bf. bitfield_test bf j"
    then obtain j where j: "j < 32 * length bf" "bitfield_test bf j" by blast
    then have "j div 32 < length bf" "bf ! (j div 32) \<noteq> 0" 
      by (auto simp: bitfield_test_def)
    then show "\<exists>w \<in> set bf. w \<noteq> 0" by (metis nth_mem)
  qed
  also have "\<dots> \<longleftrightarrow> bf_to_set bf n \<noteq> {}"
    using assms room by (fastforce simp: bf_to_set_def bf_tight_def bf_room_def)
  finally show ?thesis by (simp add: len)
qed

section \<open>The state of the engine\<close>

abbreviation done_set :: "nfa_run \<Rightarrow> nat set" where
  "done_set run \<equiv> bf_to_set (run_map_done run) (run_n_insns run)"
abbreviation curr_set :: "nfa_run \<Rightarrow> nat set" where
  "curr_set run \<equiv> bf_to_set (run_map_curr run) (run_n_insns run)"
abbreviation next_set :: "nfa_run \<Rightarrow> nat set" where
  "next_set run \<equiv> bf_to_set (run_map_next run) (run_n_insns run)"

definition run_ok :: "nfa \<Rightarrow> nfa_run \<Rightarrow> bool" where
  "run_ok nfa run \<longleftrightarrow> run_n_insns run = n_insns nfa \<and> run_n_captures run = n_captures nfa \<and>
     bf_tight (run_map_curr run) (n_insns nfa) \<and> bf_tight (run_map_next run) (n_insns nfa) \<and>
     bf_tight (run_map_done run) (n_insns nfa) \<and> threads_ok (run_next run) (next_set run)"

text \<open>The instructions run on this character lead only to such, or to pending ones, or to \<open>X\<close>.\<close>
definition closed_to :: "nfa \<Rightarrow> int \<Rightarrow> nfa_run \<Rightarrow> nat set \<Rightarrow> bool" where
  "closed_to nfa c run X \<longleftrightarrow>
     (\<forall>p \<in> done_set run. set (eps_succ nfa (run_c_prev run) c p) \<subseteq> done_set run \<union> curr_set run \<union> X)"

text \<open>A step changes no more of the state than the two maps and the list of this character.\<close>
definition step_frame :: "nfa_run \<Rightarrow> nfa_run \<Rightarrow> bool" where
  "step_frame run run' \<longleftrightarrow> run_next run' = run_next run \<and> run_map_next run' = run_map_next run \<and>
     run_in_curr run' = run_in_curr run \<and> run_longest_end run' = run_longest_end run \<and>
     run_p_curr run' = run_p_curr run \<and> run_n_insns run' = run_n_insns run \<and>
     run_n_captures run' = run_n_captures run \<and> run_c_prev run' = run_c_prev run \<and>
     length (run_curr run) \<le> length (run_curr run')"

lemma step_frame_trans: "step_frame a b \<Longrightarrow> step_frame b c \<Longrightarrow> step_frame a c"
  by (simp add: step_frame_def)

lemma step_frame_fields:
  assumes "step_frame run run'"
  shows "run_next run' = run_next run" "run_map_next run' = run_map_next run"
    "run_in_curr run' = run_in_curr run" "run_longest_end run' = run_longest_end run"
    "run_p_curr run' = run_p_curr run" "run_n_insns run' = run_n_insns run"
    "run_c_prev run' = run_c_prev run" "length (run_curr run) \<le> length (run_curr run')"
  using assms by (auto simp: step_frame_def)

text \<open>The invariant while the threads from index \<open>i\<close> on are pending; nothing outside \<open>R\<close> is
  reached, and \<open>X\<close> is still to be run.\<close>
definition round_inv :: "nfa \<Rightarrow> int \<Rightarrow> nat set \<Rightarrow> nat \<Rightarrow> nat set \<Rightarrow> nfa_run \<Rightarrow> bool" where
  "round_inv nfa c R i X run \<longleftrightarrow> run_ok nfa run \<and> i \<le> length (run_curr run) \<and>
     threads_ok (drop i (run_curr run)) (curr_set run) \<and>
     done_set run \<union> curr_set run \<union> X \<subseteq> R \<and> X \<subseteq> {..<n_insns nfa} \<and> closed_to nfa c run X"

lemma closed_to_weaken:
  "closed_to nfa c run X \<Longrightarrow> done_set run' = done_set run \<Longrightarrow> run_c_prev run' = run_c_prev run \<Longrightarrow>
   curr_set run \<union> X \<subseteq> done_set run \<union> curr_set run' \<union> Y \<Longrightarrow> closed_to nfa c run' Y"
  unfolding closed_to_def by (simp only:) blast

lemma thread_add_next:
  assumes "run_ok nfa run" "thr_pc thr < n_insns nfa" "thr_state thr = AEM_NFA_THR_LIVE"
  shows "\<exists>m ts. aem_nfa_thread_add run True thr = Some (run\<lparr>run_map_next := m, run_next := ts\<rparr>) \<and>
    run_ok nfa (run\<lparr>run_map_next := m, run_next := ts\<rparr>) \<and>
    bf_to_set m (n_insns nfa) = insert (thr_pc thr) (next_set run)"
proof -
  have tight: "bf_tight (run_map_next run) (n_insns nfa)" and n: "run_n_insns run = n_insns nfa"
    using assms(1) by (simp_all add: run_ok_def)
  have test: "bitfield_test (run_map_next run) (thr_pc thr) \<longleftrightarrow> thr_pc thr \<in> next_set run"
    using assms(2) n by (simp add: bf_to_set_def)
  show ?thesis
  proof (cases "thr_pc thr \<in> next_set run")
    case True
    then have "aem_nfa_thread_add run True thr =
        Some (run\<lparr>run_map_next := run_map_next run, run_next := run_next run\<rparr>)"
      using assms(2) n test by (simp add: aem_nfa_thread_add_def Let_def)
    moreover have "insert (thr_pc thr) (next_set run) = next_set run" using True by (rule insert_absorb)
    moreover have "run_ok nfa (run\<lparr>run_map_next := run_map_next run, run_next := run_next run\<rparr>)"
      using assms(1) by simp
    ultimately show ?thesis using n by metis
  next
    case False
    let ?m = "bitfield_set (run_map_next run) (thr_pc thr)" and ?ts = "run_next run @ [Some thr]"
    have "aem_nfa_thread_add run True thr = Some (run\<lparr>run_map_next := ?m, run_next := ?ts\<rparr>)"
      using assms(2) n test False by (simp add: aem_nfa_thread_add_def Let_def)
    moreover have set_m: "bf_to_set ?m (n_insns nfa) = insert (thr_pc thr) (next_set run)"
      using tight assms(2) n by (simp add: bf_tight_room)
    moreover have "threads_ok ?ts (insert (thr_pc thr) (next_set run))"
      using assms False by (intro threads_ok_snoc) (simp_all add: run_ok_def n)
    then have "run_ok nfa (run\<lparr>run_map_next := ?m, run_next := ?ts\<rparr>)"
      using assms(1,2) n set_m by (simp add: run_ok_def bf_tight_set)
    ultimately show ?thesis by blast
  qed
qed

lemma thread_add_curr:
  assumes inv: "round_inv nfa c R i X run" and pc: "thr_pc thr < n_insns nfa" "thr_pc thr \<in> R"
    and live: "thr_state thr = AEM_NFA_THR_LIVE" and X: "X \<subseteq> insert (thr_pc thr) Y" "Y \<subseteq> X"
  shows "\<exists>run'. aem_nfa_thread_add run False thr = Some run' \<and> round_inv nfa c R i Y run' \<and>
    step_frame run run' \<and> run_map_done run' = run_map_done run \<and> curr_set run \<subseteq> curr_set run'"
proof (cases "thr_pc thr \<in> curr_set run \<union> done_set run")
  case True
  have n: "run_n_insns run = n_insns nfa" using inv by (simp add: round_inv_def run_ok_def)
  have "closed_to nfa c run Y"
    by (rule closed_to_weaken [where X = X]) (use inv X True in \<open>auto simp: round_inv_def\<close>)
  from True have "bitfield_test (run_map_curr run) (thr_pc thr) \<or> bitfield_test (run_map_done run) (thr_pc thr)"
    by (auto simp: bf_to_set_def)
  then have "aem_nfa_thread_add run False thr = Some run"
    using pc n by (auto simp: aem_nfa_thread_add_def Let_def)
  moreover have "round_inv nfa c R i Y run"
    using inv X \<open>closed_to nfa c run Y\<close> by (auto simp: round_inv_def)
  ultimately show ?thesis by (simp add: step_frame_def)
next
  case False
  have n: "run_n_insns run = n_insns nfa" using inv by (simp add: round_inv_def run_ok_def)
  have tight: "bf_tight (run_map_curr run) (n_insns nfa)" using inv by (simp add: round_inv_def run_ok_def)
  have tests: "\<not> bitfield_test (run_map_curr run) (thr_pc thr)" "\<not> bitfield_test (run_map_done run) (thr_pc thr)"
    using False pc n by (simp_all add: bf_to_set_def)
  let ?run = "run\<lparr>run_map_curr := bitfield_set (run_map_curr run) (thr_pc thr),
    run_curr := run_curr run @ [Some thr]\<rparr>"
  have add: "aem_nfa_thread_add run False thr = Some ?run"
    using tests pc n by (simp add: aem_nfa_thread_add_def Let_def)
  have cs: "curr_set ?run = insert (thr_pc thr) (curr_set run)" "done_set ?run = done_set run"
    using tight pc n by (simp_all add: bf_tight_room)
  have "round_inv nfa c R i Y ?run"
    unfolding round_inv_def
  proof (intro conjI)
    show "run_ok nfa ?run" using inv pc by (simp add: round_inv_def run_ok_def bf_tight_set n)
    show "threads_ok (drop i (run_curr ?run)) (curr_set ?run)"
      using inv False live unfolding cs by (auto simp: round_inv_def intro: threads_ok_snoc)
    show "closed_to nfa c ?run Y"
      by (rule closed_to_weaken [where X = X and run = run])
        (use inv X cs in \<open>auto simp: round_inv_def\<close>)
    show "done_set ?run \<union> curr_set ?run \<union> Y \<subseteq> R"
      using inv X pc unfolding cs by (auto simp: round_inv_def)
  qed (use inv X in \<open>auto simp: round_inv_def\<close>)
  moreover have "step_frame run ?run"
    by (simp add: step_frame_def)
  ultimately show ?thesis using add cs by (intro exI [of _ ?run]) auto
qed

section \<open>One thread\<close>

text \<open>What has become of a thread that ran the instructions in \<open>X\<close>.\<close>
definition thr_outcome :: "nfa \<Rightarrow> int \<Rightarrow> nat set \<Rightarrow> int \<Rightarrow> nfa_thread \<Rightarrow> bool" where
  "thr_outcome nfa c X rc thr \<longleftrightarrow>
     (case thr_state thr of
        AEM_NFA_THR_DEAD \<Rightarrow> rc = -1 \<and> consumers nfa c X = {} \<and> (\<forall>p \<in> X. \<not> is_match nfa p)
      | AEM_NFA_THR_LIVE \<Rightarrow> rc = -1 \<and> thr_pc thr < n_insns nfa \<and> consumers nfa c X = {thr_pc thr} \<and>
          (\<forall>p \<in> X. \<not> is_match nfa p)
      | AEM_NFA_THR_MATCHED \<Rightarrow> consumers nfa c X = {} \<and>
          (\<exists>p \<in> X. \<exists>k. nfa_decode (pgm nfa ! p) = I_Match k \<and> rc = int k \<and> nm_match (thr_match thr) = rc))"

lemma thr_outcome_insert:
  "thr_outcome nfa c X rc thr \<Longrightarrow> \<not> consumes nfa c p \<Longrightarrow> \<not> is_match nfa p \<Longrightarrow>
   thr_outcome nfa c (insert p X) rc thr"
  by (auto simp: thr_outcome_def split: aem_nfa_thr_state.splits)

lemma thr_simps [simp]:
  "thr_state (thr_die thr) = AEM_NFA_THR_DEAD" "thr_pc (thr_visit thr p) = thr_pc thr"
  "thr_state (thr_visit thr p) = thr_state thr" "thr_pc (thr_capture thr fin k q) = thr_pc thr"
  "thr_state (thr_capture thr fin k q) = thr_state thr"
  "thr_pc (aem_nfa_thread_new run p) = p" "thr_state (aem_nfa_thread_new run p) = AEM_NFA_THR_LIVE"
  by (simp_all add: thr_die_def thr_visit_def thr_capture_def Let_def aem_nfa_thread_new_def
      aem_nfa_thread_init_def split_beta)

lemma uchar_nonneg [simp]: "\<not> uchar b < 0"
  using uchar_range [of b] by simp

text \<open>Marking the current instruction as run replaces it by its successors.\<close>
lemma round_inv_mark:
  assumes inv: "round_inv nfa c R i {pc} run" and wf: "nfa_wf nfa"
    and R: "\<forall>p \<in> R. set (eps_succ nfa (run_c_prev run) c p) \<subseteq> R"
  shows "round_inv nfa c R i (set (eps_succ nfa (run_c_prev run) c pc))
      (run\<lparr>run_map_done := bitfield_set (run_map_done run) pc\<rparr>)"
    "bf_to_set (bitfield_set (run_map_done run) pc) (n_insns nfa) = insert pc (done_set run)"
proof -
  let ?run = "run\<lparr>run_map_done := bitfield_set (run_map_done run) pc\<rparr>"
  have n: "run_n_insns run = n_insns nfa" and pc: "pc < n_insns nfa" "pc \<in> R"
    and tight: "bf_tight (run_map_done run) (n_insns nfa)"
    using inv by (simp_all add: round_inv_def run_ok_def)
  then show ds: "bf_to_set (bitfield_set (run_map_done run) pc) (n_insns nfa) = insert pc (done_set run)"
    by (simp add: bf_tight_room)
  have "closed_to nfa c ?run (set (eps_succ nfa (run_c_prev run) c pc))"
    using inv ds n unfolding round_inv_def closed_to_def by simp blast
  moreover have "set (eps_succ nfa (run_c_prev run) c pc) \<subseteq> {..<n_insns nfa}"
    using eps_succ_less [OF wf pc(1)] by auto
  ultimately show "round_inv nfa c R i (set (eps_succ nfa (run_c_prev run) c pc)) ?run"
    using inv ds pc R tight by (simp add: round_inv_def run_ok_def n bf_tight_set)
qed

definition body_ok :: "nfa \<Rightarrow> int \<Rightarrow> nat set \<Rightarrow> nat \<Rightarrow> nfa_run \<Rightarrow> nfa_thread \<Rightarrow> step_result \<Rightarrow> bool" where
  "body_ok nfa c R i run thr r \<longleftrightarrow>
     (case r of
        Return rc run' thr' \<Rightarrow> round_inv nfa c R i {} run' \<and> step_frame run run' \<and>
          curr_set run \<subseteq> curr_set run' \<and> done_set run' = insert (thr_pc thr) (done_set run) \<and>
          thr_outcome nfa c {thr_pc thr} rc thr'
      | Go_On run' thr' \<Rightarrow> round_inv nfa c R i {thr_pc thr'} run' \<and> step_frame run run' \<and>
          curr_set run \<subseteq> curr_set run' \<and> done_set run' = insert (thr_pc thr) (done_set run) \<and>
          thr_state thr' = AEM_NFA_THR_LIVE \<and> \<not> consumes nfa c (thr_pc thr) \<and> \<not> is_match nfa (thr_pc thr))"

lemma thread_step_body_ok:
  assumes inv: "round_inv nfa c R i {thr_pc thr} run" and wf: "nfa_wf nfa"
    and R: "\<forall>p \<in> R. set (eps_succ nfa (run_c_prev run) c p) \<subseteq> R"
    and live: "thr_state thr = AEM_NFA_THR_LIVE" and fresh: "thr_pc thr \<notin> done_set run"
  shows "\<exists>r. thread_step_body nfa run thr c = Some r \<and> body_ok nfa c R i run thr r"
proof -
  let ?pc = "thr_pc thr" and ?run = "run\<lparr>run_map_done := bitfield_set (run_map_done run) (thr_pc thr)\<rparr>"
  have n: "run_n_insns run = n_insns nfa" "run_n_captures run = n_captures nfa" and pc: "?pc < n_insns nfa"
    using inv by (simp_all add: round_inv_def run_ok_def)
  have check: "aem_nfa_thread_check run ?pc = Some False"
    using pc n fresh by (simp add: aem_nfa_thread_check_def bf_to_set_def)
  have ok: "nfa_insn_ok nfa ?pc" using wf_insn [OF wf pc] .
  note mark = round_inv_mark [OF inv wf R]
  have frame: "step_frame run ?run" by (simp add: step_frame_def)
  note defs = thread_step_body_def body_ok_def thr_outcome_def Let_def eps_succ_def consumes_def
    is_match_def nfa_insn_ok_def
  show ?thesis
  proof (cases "nfa_decode (pgm nfa ! ?pc)")
    case (I_Fork t)
    let ?child = "thr_visit ((aem_nfa_thread_new ?run t)\<lparr>thr_match :=
         (thr_match (aem_nfa_thread_new ?run t))\<lparr>nm_captures := nm_captures (thr_match thr),
           nm_visited := nm_visited (thr_match thr)\<rparr>\<rparr>) ?pc"
    have t: "t < n_insns nfa" "t \<in> R" "Suc ?pc \<in> R"
      using ok I_Fork mark(1) by (auto simp: nfa_insn_ok_def eps_succ_def round_inv_def)
    have "\<exists>run'. aem_nfa_thread_add ?run False ?child = Some run' \<and> round_inv nfa c R i {Suc ?pc} run' \<and>
      step_frame ?run run' \<and> run_map_done run' = run_map_done ?run \<and> curr_set ?run \<subseteq> curr_set run'"
      by (rule thread_add_curr [OF mark(1)]) (use t I_Fork in \<open>auto simp: eps_succ_def\<close>)
    then obtain run' where run': "aem_nfa_thread_add ?run False ?child = Some run'"
      "round_inv nfa c R i {Suc ?pc} run'" "step_frame ?run run'"
      "run_map_done run' = run_map_done ?run" "curr_set ?run \<subseteq> curr_set run'" by blast
    have "thread_step_body nfa run thr c = Some (Go_On run' (thr_visit (thr\<lparr>thr_pc := ?pc + 1\<rparr>) ?pc))"
      using I_Fork pc n check t(1) run'(1) by (simp add: thread_step_body_def Let_def)
    moreover have "step_frame run run'" using frame run'(3) by (rule step_frame_trans)
    moreover have "done_set run' = insert ?pc (done_set run)"
      using run'(4) mark(2) n step_frame_fields(6) [OF run'(3)] by simp
    ultimately show ?thesis
      using I_Fork run'(2,5) live by (simp add: body_ok_def consumes_def is_match_def)
  next
    case (I_Jmp t)
    then show ?thesis using mark frame pc n check ok live by (simp add: defs)
  next
    case (I_Capture fin k)
    then show ?thesis using mark frame pc n check ok live by (simp add: defs)
  next
    case (I_Class neg frontier k)
    then show ?thesis using mark frame pc n check ok live
      by (cases frontier; cases "aem_nfa_cclass_match neg k c";
          cases "aem_nfa_cclass_match neg k (run_c_prev run)") (simp_all add: defs)
  next
    case (I_Range lo hi)
    then show ?thesis using mark frame pc n check ok live uchar_range [of lo] by (simp add: defs)
  next
    case (I_Match k)
    then show ?thesis using mark frame pc n check ok live by (simp add: defs)
  next
    case (I_Invalid k)
    then show ?thesis using ok by (simp add: nfa_insn_ok_def)
  qed
qed

definition step_ok ::
  "nfa \<Rightarrow> int \<Rightarrow> nat set \<Rightarrow> nat \<Rightarrow> nfa_run \<Rightarrow> nat \<Rightarrow> int \<times> nfa_run \<times> nfa_thread \<Rightarrow> bool" where
  "step_ok nfa c R i run pc res \<longleftrightarrow>
     (case res of (rc, run', thr') \<Rightarrow>
        round_inv nfa c R i {} run' \<and> step_frame run run' \<and> insert pc (done_set run) \<subseteq> done_set run' \<and>
        curr_set run \<subseteq> curr_set run' \<and> thr_outcome nfa c (done_set run' - done_set run) rc thr' \<and>
        (pc \<in> done_set run \<longrightarrow> run' = run))"

text \<open>A thread stops on an instruction that was already run, and there are only finitely many.\<close>
lemma thread_step_loop_ok:
  assumes inv: "round_inv nfa c R i {thr_pc thr} run" and wf: "nfa_wf nfa"
    and R: "\<forall>p \<in> R. set (eps_succ nfa (run_c_prev run) c p) \<subseteq> R"
    and live: "thr_state thr = AEM_NFA_THR_LIVE"
  shows "\<exists>res. thread_step_loop nfa run thr c = Some res \<and> step_ok nfa c R i run (thr_pc thr) res"
  using inv R live
proof (induction "n_insns nfa - card (done_set run)" arbitrary: run thr rule: less_induct)
  case less
  note inv = less.prems(1) and R = less.prems(2) and live = less.prems(3)
  let ?pc = "thr_pc thr"
  have n: "run_n_insns run = n_insns nfa" and pc: "?pc < n_insns nfa"
    using inv by (simp_all add: round_inv_def run_ok_def)
  show ?case
  proof (cases "?pc \<in> done_set run")
    case True
    then have "thread_step_body nfa run thr c = Some (Return (-1) run (thr_die thr))"
      using pc n by (simp add: thread_step_body_def aem_nfa_thread_check_def bf_to_set_def)
    moreover have "closed_to nfa c run {}"
      by (rule closed_to_weaken [where X = "{?pc}"]) (use inv True in \<open>auto simp: round_inv_def\<close>)
    then have "step_ok nfa c R i run ?pc (-1, run, thr_die thr)"
      using inv True by (simp add: step_ok_def step_frame_def round_inv_def thr_outcome_def)
    ultimately show ?thesis by (subst thread_step_loop.simps) simp
  next
    case False
    from thread_step_body_ok [OF inv wf R live False] obtain r where
      r: "thread_step_body nfa run thr c = Some r" "body_ok nfa c R i run thr r" by blast
    show ?thesis
    proof (cases r)
      case (Return rc run' thr')
      have "insert ?pc (done_set run) - done_set run = {?pc}" using False by auto
      then have "step_ok nfa c R i run ?pc (rc, run', thr')"
        using r(2) Return False by (auto simp: body_ok_def step_ok_def)
      then show ?thesis using r(1) Return by (subst thread_step_loop.simps) simp
    next
      case (Go_On run' thr')
      have b: "round_inv nfa c R i {thr_pc thr'} run'" "step_frame run run'"
        "curr_set run \<subseteq> curr_set run'" "done_set run' = insert ?pc (done_set run)"
        "thr_state thr' = AEM_NFA_THR_LIVE" "\<not> consumes nfa c ?pc" "\<not> is_match nfa ?pc"
        using r(2) Go_On by (simp_all add: body_ok_def)
      have "card (insert ?pc (done_set run)) \<le> card {..<n_insns nfa}"
        by (rule card_mono) (use pc n bf_to_set_subset in auto)
      then have dec: "n_insns nfa - card (done_set run') < n_insns nfa - card (done_set run)"
        using b(4) False by simp
      have R': "\<forall>p \<in> R. set (eps_succ nfa (run_c_prev run') c p) \<subseteq> R"
        using R step_frame_fields(7) [OF b(2)] by simp
      from less.hyps [OF dec b(1) R' b(5)] obtain res where
        res: "thread_step_loop nfa run' thr' c = Some res" "step_ok nfa c R i run' (thr_pc thr') res"
        by blast
      obtain rc run2 thr2 where res_eq: "res = (rc, run2, thr2)" by (cases res)
      have s: "round_inv nfa c R i {} run2" "step_frame run' run2"
        "insert (thr_pc thr') (done_set run') \<subseteq> done_set run2" "curr_set run' \<subseteq> curr_set run2"
        "thr_outcome nfa c (done_set run2 - done_set run') rc thr2"
        using res(2) res_eq by (simp_all add: step_ok_def)
      have diff: "done_set run2 - done_set run = insert ?pc (done_set run2 - done_set run')"
        using b(4) s(3) False by auto
      have "step_ok nfa c R i run ?pc (rc, run2, thr2)"
        unfolding step_ok_def split_conv
      proof (intro conjI)
        show "step_frame run run2" using b(2) s(2) by (rule step_frame_trans)
        show "thr_outcome nfa c (done_set run2 - done_set run) rc thr2"
          unfolding diff using s(5) b(6,7) by (rule thr_outcome_insert)
      qed (use b s False in auto)
      then show ?thesis using r(1) Go_On res(1) res_eq by (subst thread_step_loop.simps) simp
    qed
  qed
qed

section \<open>One character\<close>

text \<open>How running the instructions in \<open>X\<close> at address \<open>a\<close> changes the result so far.\<close>
fun result_upd ::
  "nfa \<Rightarrow> nat set \<Rightarrow> nat \<Rightarrow> int \<times> nfa_thread ptr \<times> nat \<Rightarrow> int \<times> nfa_thread ptr \<times> nat \<Rightarrow> bool" where
  "result_upd nfa X a (rc, best, e) (rc', best', e') \<longleftrightarrow>
     (if \<forall>p \<in> X. \<not> is_match nfa p then rc' = rc \<and> best' = best \<and> e' = e
      else e' = a \<and> (\<exists>p \<in> X. \<exists>k. nfa_decode (pgm nfa ! p) = I_Match k \<and> rc' = int k) \<and>
           (\<exists>thr. best' = Some thr \<and> nm_match (thr_match thr) = rc'))"

lemma result_upd_none: "\<forall>p \<in> X. \<not> is_match nfa p \<Longrightarrow> result_upd nfa (X \<union> Y) a s s' = result_upd nfa Y a s s'"
  by (cases s; cases s') (auto simp: is_match_def)

lemma result_upd_match:
  assumes "result_upd nfa Y a (int k, Some thr, a) s'" "p \<in> X" "nfa_decode (pgm nfa ! p) = I_Match k"
    "nm_match (thr_match thr) = int k"
  shows "result_upd nfa (X \<union> Y) a s s'"
proof -
  obtain rc best e rc' best' e' where s: "s = (rc, best, e)" "s' = (rc', best', e')"
    by (cases s; cases s')
  have "\<not> (\<forall>p \<in> X \<union> Y. \<not> is_match nfa p)" using assms(2,3) by (auto simp: is_match_def)
  then show ?thesis using assms unfolding s result_upd.simps
    by (cases "\<forall>p \<in> Y. \<not> is_match nfa p") auto
qed

definition foreach_inv :: "nfa \<Rightarrow> int \<Rightarrow> nat set \<Rightarrow> nat \<Rightarrow> nfa_run \<Rightarrow> bool" where
  "foreach_inv nfa c R i run \<longleftrightarrow> round_inv nfa c R i {} run \<and>
     next_set run = consumers nfa c (done_set run)"

definition foreach_frame :: "nfa_run \<Rightarrow> nfa_run \<Rightarrow> bool" where
  "foreach_frame run run' \<longleftrightarrow> run_in_curr run' = run_in_curr run \<and> run_p_curr run' = run_p_curr run \<and>
     run_c_prev run' = run_c_prev run \<and> run_n_insns run' = run_n_insns run"

lemma pending_length:
  assumes "foreach_inv nfa c R i run"
  shows "length (run_curr run) - i \<le> n_insns nfa"
proof -
  have t: "threads_ok (drop i (run_curr run)) (curr_set run)" and n: "run_n_insns run = n_insns nfa"
    using assms by (auto simp: foreach_inv_def round_inv_def run_ok_def)
  then have "length (drop i (run_curr run)) = card (curr_set run)"
    unfolding threads_ok_def by (metis distinct_card length_map)
  also have "\<dots> \<le> card {..<n_insns nfa}" by (rule card_mono) (use n bf_to_set_subset in auto)
  finally show ?thesis by simp
qed

text \<open>Taking a pending thread off the list and running it.\<close>
lemma foreach_step:
  assumes inv: "foreach_inv nfa c R i run" and wf: "nfa_wf nfa"
    and R: "\<forall>p \<in> R. set (eps_succ nfa (run_c_prev run) c p) \<subseteq> R"
    and i: "i < length (run_curr run)"
  obtains thr rc run' thr' where "run_curr run ! i = Some thr" "thr_pc thr < n_insns nfa"
    "aem_nfa_thread_step nfa (run\<lparr>run_curr := (run_curr run)[i := None],
       run_map_curr := bitfield_clear (run_map_curr run) (thr_pc thr)\<rparr>) thr c = Some (rc, run', thr')"
    "round_inv nfa c R (Suc i) {} run'" "next_set run' = next_set run"
    "foreach_frame run run'" "run_longest_end run' = run_longest_end run"
    "done_set run \<union> curr_set run \<subseteq> done_set run' \<union> curr_set run'" "done_set run \<subseteq> done_set run'"
    "thr_outcome nfa c (done_set run' - done_set run) rc thr'"
    "done_set run' = done_set run \<Longrightarrow> length (run_curr run') = length (run_curr run)"
proof -
  have inv': "run_ok nfa run" "threads_ok (drop i (run_curr run)) (curr_set run)" 
      "done_set run \<union> curr_set run \<subseteq> R" "closed_to nfa c run {}"
    using inv by (simp_all add: foreach_inv_def round_inv_def)
  have n: "run_n_insns run = n_insns nfa" and tight: "bf_tight (run_map_curr run) (n_insns nfa)"
    using inv' by (simp_all add: run_ok_def)
  obtain thr where thr: "run_curr run ! i = Some thr" "thr_state thr = AEM_NFA_THR_LIVE"
      "thr_pc thr \<in> curr_set run" "threads_ok (drop (Suc i) (run_curr run)) (curr_set run - {thr_pc thr})"
    using inv'(2) i by (metis Cons_nth_drop_Suc threads_ok_Cons)
  let ?pc = "thr_pc thr"
  let ?run = "run\<lparr>run_curr := (run_curr run)[i := None],
       run_map_curr := bitfield_clear (run_map_curr run) ?pc\<rparr>"
  have pc: "?pc < n_insns nfa" using thr(3) n bf_to_set_subset by auto
  have cs: "bf_to_set (bitfield_clear (run_map_curr run) ?pc) (n_insns nfa) = curr_set run - {?pc}"
    using tight pc n by (simp add: bf_tight_room)
  have "round_inv nfa c R (Suc i) {?pc} ?run"
    unfolding round_inv_def
  proof (intro conjI)
    show "run_ok nfa ?run" using inv'(1) pc n by (simp add: run_ok_def bf_tight_clear)
    show "threads_ok (drop (Suc i) (run_curr ?run)) (curr_set ?run)" using thr(4) cs n by simp
    show "closed_to nfa c ?run {?pc}"
      by (rule closed_to_weaken [OF inv'(4)]) (use cs n in auto)
    show "done_set ?run \<union> curr_set ?run \<union> {?pc} \<subseteq> R" using inv'(3) thr(3) cs n by auto
  qed (use i pc in auto)
  moreover have "\<forall>p \<in> R. set (eps_succ nfa (run_c_prev ?run) c p) \<subseteq> R" using R by simp
  ultimately obtain rc run' thr' where
    res: "thread_step_loop nfa ?run thr c = Some (rc, run', thr')"
      "step_ok nfa c R (Suc i) ?run ?pc (rc, run', thr')"
    using thread_step_loop_ok [of nfa c R "Suc i" thr ?run] wf thr(2) by (metis prod_cases3)
  have st: "round_inv nfa c R (Suc i) {} run'" "step_frame ?run run'"
      "insert ?pc (done_set run) \<subseteq> done_set run'" "curr_set run - {?pc} \<subseteq> curr_set run'"
      "thr_outcome nfa c (done_set run' - done_set run) rc thr'"
      "?pc \<in> done_set run \<Longrightarrow> run' = ?run"
    using res(2) cs n by (simp_all add: step_ok_def)
  note fr = step_frame_fields [OF st(2)]
  show thesis
  proof (rule that [OF thr(1) pc _ st(1)])
    show "aem_nfa_thread_step nfa ?run thr c = Some (rc, run', thr')"
      using res(1) thr(2) by (simp add: aem_nfa_thread_step_def)
    show "done_set run \<union> curr_set run \<subseteq> done_set run' \<union> curr_set run'" "done_set run \<subseteq> done_set run'"
      using st(3,4) by auto
    show "length (run_curr run') = length (run_curr run)" if "done_set run' = done_set run"
      using st(3,6) that by auto
  qed (use fr st(5) in \<open>simp_all add: foreach_frame_def\<close>)
qed

text \<open>All pending threads are run, each at most once per instruction.\<close>
definition foreach_ok ::
  "nfa \<Rightarrow> int \<Rightarrow> nat set \<Rightarrow> nfa_run \<Rightarrow> int \<Rightarrow> nfa_thread ptr \<Rightarrow> bool \<times> nfa_run \<times> int \<times> nfa_thread ptr \<Rightarrow> bool" where
  "foreach_ok nfa c R run rc best res \<longleftrightarrow>
     (case res of (fatal, run', rc', best') \<Rightarrow>
        \<not> fatal \<and> foreach_inv nfa c R (length (run_curr run')) run' \<and> foreach_frame run run' \<and>
        done_set run \<union> curr_set run \<subseteq> done_set run' \<and>
        result_upd nfa (done_set run' - done_set run) (run_p_curr run) (rc, best, run_longest_end run)
          (rc', best', run_longest_end run'))"

lemma foreach_frame_trans: "foreach_frame a b \<Longrightarrow> foreach_frame b c \<Longrightarrow> foreach_frame a c"
  by (simp add: foreach_frame_def)

lemma foreach_thread_next:
  assumes s: "round_inv nfa c R i {} run'" "next_set run' = consumers nfa c D" "D \<subseteq> done_set run'"
    "consumers nfa c (done_set run' - D) = {thr_pc thr}" "thr_pc thr < n_insns nfa"
    "thr_state thr = AEM_NFA_THR_LIVE"
  obtains m ts where "aem_nfa_thread_add run' True thr = Some (run'\<lparr>run_map_next := m, run_next := ts\<rparr>)"
    "foreach_inv nfa c R i (run'\<lparr>run_map_next := m, run_next := ts\<rparr>)"
proof -
  have ok: "run_ok nfa run'" and n: "run_n_insns run' = n_insns nfa"
    using s(1) by (auto simp: round_inv_def run_ok_def)
  from thread_add_next [OF ok s(5,6)] obtain m ts where
    add: "aem_nfa_thread_add run' True thr = Some (run'\<lparr>run_map_next := m, run_next := ts\<rparr>)"
      "run_ok nfa (run'\<lparr>run_map_next := m, run_next := ts\<rparr>)"
      "bf_to_set m (n_insns nfa) = insert (thr_pc thr) (next_set run')" by blast
  have "done_set run' = D \<union> (done_set run' - D)" using s(3) by auto
  then have "consumers nfa c (done_set run') = consumers nfa c D \<union> consumers nfa c (done_set run' - D)"
    by (metis consumers_simps(3))
  then have "foreach_inv nfa c R i (run'\<lparr>run_map_next := m, run_next := ts\<rparr>)"
    using s(1,2,4) add(2,3) n by (simp add: foreach_inv_def round_inv_def closed_to_def)
  then show thesis using add(1) that by blast
qed

text \<open>The loop ends: it runs an instruction, or has one thread less to go.\<close>
definition foreach_measure :: "nfa \<Rightarrow> nat \<Rightarrow> nfa_run \<Rightarrow> nat" where
  "foreach_measure nfa i run =
     (n_insns nfa - card (done_set run)) * Suc (n_insns nfa) + (length (run_curr run) - i)"

lemma foreach_measure_less:
  assumes inv: "foreach_inv nfa c R i' run3" and n: "run_n_insns run = n_insns nfa"
    and sub: "done_set run \<subseteq> done_set run3" and i: "i' = Suc i" "i < length (run_curr run)"
    and len: "done_set run3 = done_set run \<Longrightarrow> length (run_curr run3) = length (run_curr run)"
  shows "foreach_measure nfa i' run3 < foreach_measure nfa i run"
proof (cases "done_set run3 = done_set run")
  case True
  then show ?thesis using len i by (simp add: foreach_measure_def)
next
  case False
  let ?a = "n_insns nfa - card (done_set run3)" and ?b = "n_insns nfa - card (done_set run)"
  have n3: "run_n_insns run3 = n_insns nfa" using inv by (simp add: foreach_inv_def round_inv_def run_ok_def)
  have "done_set run \<subset> done_set run3" using sub False by auto
  then have c: "card (done_set run) < card (done_set run3)" by (intro psubset_card_mono) auto
  have "card (done_set run3) \<le> card {..<n_insns nfa}"
    by (rule card_mono) (use n3 bf_to_set_subset in auto)
  then have "Suc ?a \<le> ?b" using c by simp
  then have "Suc ?a * Suc (n_insns nfa) \<le> ?b * Suc (n_insns nfa)" by (rule mult_le_mono1)
  moreover have "length (run_curr run3) - i' \<le> n_insns nfa" using pending_length [OF inv] .
  ultimately have "?a * Suc (n_insns nfa) + (length (run_curr run3) - i') < ?b * Suc (n_insns nfa)"
    by (simp only: mult_Suc)
  then show ?thesis unfolding foreach_measure_def by linarith
qed

text \<open>One thread and then the rest of the loop.\<close>
lemma foreach_ok_step:
  assumes ok: "foreach_ok nfa c R run3 rc3 best3 res"
    and frame: "foreach_frame run run3"
    and sets: "done_set run \<union> curr_set run \<subseteq> done_set run3 \<union> curr_set run3" "done_set run \<subseteq> done_set run3"
    and upd: "\<And>s Y. result_upd nfa Y (run_p_curr run) (rc3, best3, run_longest_end run3) s \<Longrightarrow>
      result_upd nfa (done_set run3 - done_set run \<union> Y) (run_p_curr run) (rc, best, run_longest_end run) s"
  shows "foreach_ok nfa c R run rc best res"
proof -
  obtain fatal run4 rc4 best4 where res: "res = (fatal, run4, rc4, best4)" by (cases res)
  have r: "\<not> fatal" "foreach_inv nfa c R (length (run_curr run4)) run4" "foreach_frame run3 run4"
    "done_set run3 \<union> curr_set run3 \<subseteq> done_set run4"
    "result_upd nfa (done_set run4 - done_set run3) (run_p_curr run)
      (rc3, best3, run_longest_end run3) (rc4, best4, run_longest_end run4)"
    using ok frame unfolding foreach_ok_def res foreach_frame_def split_conv by metis+
  have "(done_set run3 - done_set run) \<union> (done_set run4 - done_set run3) = done_set run4 - done_set run"
    using sets r(4) by auto
  then show ?thesis
    using r sets upd [OF r(5)] foreach_frame_trans [OF frame r(3)] by (auto simp: foreach_ok_def res)
qed

lemma foreach_thread_ok:
  assumes inv: "foreach_inv nfa c R i run" and wf: "nfa_wf nfa"
    and R: "\<forall>p \<in> R. set (eps_succ nfa (run_c_prev run) c p) \<subseteq> R"
  shows "\<exists>res. foreach_thread nfa run i c rc best = Some res \<and> foreach_ok nfa c R run rc best res"
  using inv R
proof (induction "foreach_measure nfa i run"
    arbitrary: run i rc best rule: less_induct)
  case less
  note inv = less.prems(1) and R = less.prems(2)
  have n: "run_n_insns run = n_insns nfa" using inv by (simp add: foreach_inv_def round_inv_def run_ok_def)
  show ?case
  proof (cases "i < length (run_curr run)")
    case False
    then have i: "i = length (run_curr run)" using inv by (simp add: foreach_inv_def round_inv_def)
    then have "curr_set run = {}" using inv by (simp add: foreach_inv_def round_inv_def)
    then have "foreach_ok nfa c R run rc best (False, run, rc, best)"
      using inv i by (simp add: foreach_ok_def foreach_frame_def)
    then show ?thesis using False by (subst foreach_thread.simps) simp
  next
    case True
    obtain thr rc2 run' thr' where st: "run_curr run ! i = Some thr" "thr_pc thr < n_insns nfa"
      "aem_nfa_thread_step nfa (run\<lparr>run_curr := (run_curr run)[i := None],
         run_map_curr := bitfield_clear (run_map_curr run) (thr_pc thr)\<rparr>) thr c = Some (rc2, run', thr')"
      "round_inv nfa c R (Suc i) {} run'" "next_set run' = next_set run"
      "foreach_frame run run'" "run_longest_end run' = run_longest_end run"
      "done_set run \<union> curr_set run \<subseteq> done_set run' \<union> curr_set run'" "done_set run \<subseteq> done_set run'"
      "thr_outcome nfa c (done_set run' - done_set run) rc2 thr'"
      "done_set run' = done_set run \<Longrightarrow> length (run_curr run') = length (run_curr run)"
      using foreach_step [OF inv wf R True] by blast
    let ?X = "done_set run' - done_set run"
    have n': "run_n_insns run' = n_insns nfa" using st(6) n by (simp add: foreach_frame_def)
    have nxt: "next_set run' = consumers nfa c (done_set run)" using st(5) inv by (simp add: foreach_inv_def)
    have consD: "consumers nfa c (done_set run') = consumers nfa c (done_set run) \<union> consumers nfa c ?X"
      using st(9) by (metis Diff_partition consumers_simps(3))
    have step: "\<exists>res. foreach_thread nfa run i c rc best = Some res \<and> foreach_ok nfa c R run rc best res"
      if eq: "foreach_thread nfa run i c rc best = foreach_thread nfa run3 (Suc i) c rc3 best3"
        and inv3: "foreach_inv nfa c R (Suc i) run3"
        and same: "run_map_done run3 = run_map_done run'" "run_curr run3 = run_curr run'"
          "run_map_curr run3 = run_map_curr run'" "foreach_frame run' run3"
        and upd: "\<And>s Y. result_upd nfa Y (run_p_curr run) (rc3, best3, run_longest_end run3) s \<Longrightarrow>
          result_upd nfa (?X \<union> Y) (run_p_curr run) (rc, best, run_longest_end run) s"
      for run3 rc3 best3
    proof -
      have sets: "done_set run3 = done_set run'" "curr_set run3 = curr_set run'"
        and frame: "foreach_frame run run3"
        using same n' st(6) by (simp_all add: foreach_frame_def)
      have "\<forall>p \<in> R. set (eps_succ nfa (run_c_prev run3) c p) \<subseteq> R"
        using R frame by (simp add: foreach_frame_def)
      moreover have "foreach_measure nfa (Suc i) run3 < foreach_measure nfa i run"
        by (rule foreach_measure_less [OF inv3 n]) (use st(9,11) sets same True in auto)
      ultimately obtain res where
        res: "foreach_thread nfa run3 (Suc i) c rc3 best3 = Some res" "foreach_ok nfa c R run3 rc3 best3 res"
        using less.hyps [of "Suc i" run3 rc3 best3] inv3 by blast
      have "foreach_ok nfa c R run rc best res"
        by (rule foreach_ok_step [OF res(2) frame]) (use st(8,9) upd sets in auto)
      then show ?thesis using eq res(1) by simp
    qed
    show ?thesis
    proof (cases "thr_state thr'")
      case AEM_NFA_THR_LIVE
      have o: "rc2 = -1" "thr_pc thr' < n_insns nfa" "consumers nfa c ?X = {thr_pc thr'}"
        "\<forall>p \<in> ?X. \<not> is_match nfa p" using st(10) AEM_NFA_THR_LIVE by (simp_all add: thr_outcome_def)
      from foreach_thread_next [OF st(4) nxt st(9) o(3,2) AEM_NFA_THR_LIVE] obtain m ts where
        add: "aem_nfa_thread_add run' True thr' = Some (run'\<lparr>run_map_next := m, run_next := ts\<rparr>)"
          "foreach_inv nfa c R (Suc i) (run'\<lparr>run_map_next := m, run_next := ts\<rparr>)" .
      show ?thesis
        by (rule step [OF _ add(2), of rc best])
          (use True st(1,3,7) AEM_NFA_THR_LIVE o add(1) in \<open>simp_all add: foreach_thread.simps [of nfa run i]
             foreach_frame_def Let_def result_upd_none\<close>)
    next
      case AEM_NFA_THR_DEAD
      have o: "rc2 = -1" "consumers nfa c ?X = {}" "\<forall>p \<in> ?X. \<not> is_match nfa p"
        using st(10) AEM_NFA_THR_DEAD by (simp_all add: thr_outcome_def)
      have inv': "foreach_inv nfa c R (Suc i) run'"
        using st(4) nxt consD o(2) by (simp add: foreach_inv_def)
      show ?thesis
        by (rule step [OF _ inv', of rc best])
          (use True st(1,3,7) AEM_NFA_THR_DEAD o in \<open>simp_all add: foreach_thread.simps [of nfa run i]
             foreach_frame_def Let_def result_upd_none\<close>)
    next
      case AEM_NFA_THR_MATCHED
      then have "consumers nfa c ?X = {}" and
        "\<exists>p \<in> ?X. \<exists>k. nfa_decode (pgm nfa ! p) = I_Match k \<and> rc2 = int k \<and> nm_match (thr_match thr') = rc2"
        using st(10) by (simp_all add: thr_outcome_def)
      then obtain p k where o: "p \<in> ?X" "nfa_decode (pgm nfa ! p) = I_Match k" "rc2 = int k"
        "nm_match (thr_match thr') = int k" "consumers nfa c ?X = {}" by auto
      have inv': "foreach_inv nfa c R (Suc i) (run'\<lparr>run_longest_end := run_p_curr run'\<rparr>)"
        using st(4) nxt consD o(5) n'
        by (simp add: foreach_inv_def round_inv_def run_ok_def closed_to_def)
      have pc: "run_p_curr run' = run_p_curr run" using st(6) by (simp add: foreach_frame_def)
      show ?thesis
      proof (rule step [OF _ inv', of "int k" "Some thr'"])
        show "foreach_thread nfa run i c rc best =
            foreach_thread nfa (run'\<lparr>run_longest_end := run_p_curr run'\<rparr>) (Suc i) c (int k) (Some thr')"
          using True st(1,3) AEM_NFA_THR_MATCHED o(3) by (simp add: foreach_thread.simps [of nfa run i] Let_def)
        show "result_upd nfa (?X \<union> Y) (run_p_curr run) (rc, best, run_longest_end run) s"
          if "result_upd nfa Y (run_p_curr run)
            (int k, Some thr', run_longest_end (run'\<lparr>run_longest_end := run_p_curr run'\<rparr>)) s" for Y s
          by (rule result_upd_match [OF _ o(1,2,4)]) (use that pc in simp)
      qed (simp_all add: foreach_frame_def)
    qed
  qed
qed

section \<open>All characters\<close>

text \<open>The instructions at which threads start on the character at \<open>i\<close>.\<close>
definition entry :: "nfa \<Rightarrow> u8 list \<Rightarrow> nat \<Rightarrow> nat set" where
  "entry nfa cs i =
     {p. i = 0 \<and> p < n_insns nfa \<and> bitfield_test (thr_init nfa) p} \<union>
     {Suc q | q j. i = Suc j \<and> j < length cs \<and> nfa_at nfa cs j q \<and> consumes nfa (char_at cs j) q}"

lemma entry_at: "p \<in> entry nfa cs i \<Longrightarrow> nfa_at nfa cs i p"
  by (auto simp: entry_def intro: nfa_at.start nfa_at.consume)

lemma entry_before: "nfa_at nfa cs j p \<Longrightarrow> i \<le> j \<Longrightarrow> entry nfa cs i \<noteq> {}"
proof (induction arbitrary: i rule: nfa_at.induct)
  case (start p)
  then show ?case by (auto simp: entry_def)
next
  case (consume j p)
  then show ?case by (cases "i \<le> j") (auto simp: entry_def not_le le_Suc_eq)
qed

text \<open>The closure of the entry points is the set of all reachable instructions.\<close>
lemma nfa_at_closure:
  assumes "entry nfa cs i \<subseteq> D" "D \<subseteq> {p. nfa_at nfa cs i p}"
    and "\<forall>p \<in> D. set (eps_succ nfa (char_before cs i) (char_at cs i) p) \<subseteq> D"
  shows "D = {p. nfa_at nfa cs i p}"
proof -
  have "nfa_at nfa cs j p \<Longrightarrow> j = i \<Longrightarrow> p \<in> D" for j p
  proof (induction rule: nfa_at.induct)
    case (start p) then show ?case using assms(1) by (auto simp: entry_def)
  next
    case (eps j p q) then show ?case using assms(3) by auto
  next
    case (consume j p) then show ?case using assms(1) by (auto simp: entry_def)
  qed
  then show ?thesis using assms(2) by auto
qed

lemma entry_Suc:
  "i < length cs \<Longrightarrow> entry nfa cs (Suc i) = consumers nfa (char_at cs i) {p. nfa_at nfa cs i p}"
  by (auto simp: entry_def consumers_def)

text \<open>The result after the positions before \<open>J\<close>: the last accepted prefix.\<close>
fun result_ok :: "nfa \<Rightarrow> stringslice \<Rightarrow> nat \<Rightarrow> int \<times> nfa_thread ptr \<times> nat \<Rightarrow> bool" where
  "result_ok nfa sl J (rc, best, e) \<longleftrightarrow>
     rc = -1 \<and> best = None \<and> e = ss_start sl \<and> (\<forall>j < J. \<forall>k. \<not> nfa_accepts nfa (ss_bytes sl) j k) \<or>
     (\<exists>j < J. \<exists>k thr. nfa_accepts nfa (ss_bytes sl) j k \<and> rc = int k \<and> e = ss_start sl + j \<and>
        best = Some thr \<and> nm_match (thr_match thr) = rc \<and>
        (\<forall>j' k. j < j' \<and> j' < J \<longrightarrow> \<not> nfa_accepts nfa (ss_bytes sl) j' k))"

lemma result_ok_none:
  "result_ok nfa sl i s \<Longrightarrow> i \<le> J \<Longrightarrow> (\<And>j k. i \<le> j \<Longrightarrow> j < J \<Longrightarrow> \<not> nfa_accepts nfa (ss_bytes sl) j k) \<Longrightarrow>
   result_ok nfa sl J s"
proof -
  assume r: "result_ok nfa sl i s" and le: "i \<le> J"
    and none: "\<And>j k. i \<le> j \<Longrightarrow> j < J \<Longrightarrow> \<not> nfa_accepts nfa (ss_bytes sl) j k"
  obtain rc best e where s: "s = (rc, best, e)" by (cases s)
  have early: "j < i" if "nfa_accepts nfa (ss_bytes sl) j k" "j < J" for j k
    using none that not_le by blast
  from r show ?thesis unfolding s result_ok.simps
  proof (elim disjE exE conjE, goal_cases)
    case 1
    then show ?case using early by blast
  next
    case (2 j k thr)
    then have "j < J" "\<forall>j' k. j < j' \<and> j' < J \<longrightarrow> \<not> nfa_accepts nfa (ss_bytes sl) j' k"
      using early le by (simp, blast)
    then show ?case using 2 by blast
  qed
qed

lemma result_ok_upd:
  assumes s: "result_ok nfa sl i s"
    and upd: "result_upd nfa {p. nfa_at nfa (ss_bytes sl) i p} (ss_start sl + i) s s'"
  shows "result_ok nfa sl (Suc i) s'"
proof -
  obtain rc best e rc' best' e' where eqs: "s = (rc, best, e)" "s' = (rc', best', e')"
    by (cases s; cases s')
  show ?thesis
  proof (cases "\<exists>k. nfa_accepts nfa (ss_bytes sl) i k")
    case False
    then have "s' = s" using upd unfolding eqs by (auto simp: nfa_accepts_def is_match_def)
    moreover have "\<not> nfa_accepts nfa (ss_bytes sl) j k" if "i \<le> j" "j < Suc i" for j k
      using False that by (metis le_less_Suc_eq)
    ultimately show ?thesis using result_ok_none [OF s, of "Suc i"] by (metis le_SucI order_refl)
  next
    case True
    then have "e' = ss_start sl + i" "\<exists>k. nfa_accepts nfa (ss_bytes sl) i k \<and> rc' = int k"
      "\<exists>thr. best' = Some thr \<and> nm_match (thr_match thr) = rc'"
      using upd unfolding eqs by (auto simp: nfa_accepts_def is_match_def split: if_splits)
    then show ?thesis unfolding eqs by fastforce
  qed
qed

definition rounds_inv :: "nfa \<Rightarrow> stringslice \<Rightarrow> nat \<Rightarrow> nfa_run \<Rightarrow> int \<Rightarrow> nfa_thread ptr \<Rightarrow> bool" where
  "rounds_inv nfa sl i run rc best \<longleftrightarrow> run_ok nfa run \<and> i \<le> length (ss_bytes sl) \<and>
     next_set run = entry nfa (ss_bytes sl) i \<and> run_in_curr run = ss_advance sl i \<and>
     run_c_prev run = char_before (ss_bytes sl) i \<and> result_ok nfa sl i (rc, best, run_longest_end run)"

text \<open>The state in which the threads of a round start.\<close>
definition round_start :: "nfa_run \<Rightarrow> nfa_run" where
  "round_start run = (run_swap run)\<lparr>run_p_curr := ss_start (run_in_curr run),
     run_in_curr := snd (aem_stringslice_getc (run_in_curr run))\<rparr>"

lemma round_start_inv:
  assumes "rounds_inv nfa sl i run rc best"
  shows "foreach_inv nfa c {p. nfa_at nfa (ss_bytes sl) i p} 0 (round_start run)"
    "curr_set (round_start run) = entry nfa (ss_bytes sl) i" "done_set (round_start run) = {}"
    "run_p_curr (round_start run) = ss_start sl + i"
proof -
  have n: "run_n_insns run = n_insns nfa" using assms by (simp add: rounds_inv_def run_ok_def)
  show "curr_set (round_start run) = entry nfa (ss_bytes sl) i" "done_set (round_start run) = {}"
    "run_p_curr (round_start run) = ss_start sl + i"
    using assms n by (simp_all add: rounds_inv_def round_start_def run_swap_def Let_def)
  then show "foreach_inv nfa c {p. nfa_at nfa (ss_bytes sl) i p} 0 (round_start run)"
    using assms n entry_at [of _ nfa "ss_bytes sl" i]
    by (auto simp: foreach_inv_def round_inv_def rounds_inv_def run_ok_def round_start_def run_swap_def
        Let_def closed_to_def)
qed

lemma getc_at:
  assumes "i \<le> length (ss_bytes sl)"
  shows "fst (aem_stringslice_getc (ss_advance sl i)) = char_at (ss_bytes sl) i"
    "i < length (ss_bytes sl) \<Longrightarrow> snd (aem_stringslice_getc (ss_advance sl i)) = ss_advance sl (Suc i)"
  using assms by (auto simp: aem_stringslice_getc_def char_at_def ss_first_def hd_drop_conv_nth)

lemma char_at_neg: "char_at cs i < 0 \<longleftrightarrow> length cs \<le> i"
  by (simp add: char_at_def not_less)

text \<open>One round computes the instructions reachable before the character at \<open>i\<close>.\<close>
lemma round_ok:
  assumes inv: "rounds_inv nfa sl i run rc best" and wf: "nfa_wf nfa"
    and c: "c = char_at (ss_bytes sl) i"
  obtains run4 rc4 best4 where
    "foreach_thread nfa (round_start run) 0 c rc best = Some (False, run4, rc4, best4)"
    "result_ok nfa sl (Suc i) (rc4, best4, run_longest_end run4)"
    "i < length (ss_bytes sl) \<Longrightarrow> rounds_inv nfa sl (Suc i) (run4\<lparr>run_c_prev := c\<rparr>) rc4 best4"
proof -
  let ?cs = "ss_bytes sl" let ?R = "{p. nfa_at nfa ?cs i p}"
  note st = round_start_inv [OF inv]
  have i: "i \<le> length ?cs" and in_curr: "run_in_curr run = ss_advance sl i"
    using inv by (simp_all add: rounds_inv_def)
  have cp: "run_c_prev (round_start run) = char_before ?cs i"
    and le: "run_longest_end (round_start run) = run_longest_end run"
    using inv by (simp_all add: rounds_inv_def round_start_def run_swap_def Let_def)
  have "\<forall>p \<in> ?R. set (eps_succ nfa (run_c_prev (round_start run)) c p) \<subseteq> ?R"
    using c cp by (auto intro: nfa_at.eps)
  from foreach_thread_ok [OF st(1) wf this] obtain res where
    res: "foreach_thread nfa (round_start run) 0 c rc best = Some res"
      "foreach_ok nfa c ?R (round_start run) rc best res" by blast
  obtain fatal run4 rc4 best4 where res_eq: "res = (fatal, run4, rc4, best4)" by (cases res)
  have r: "\<not> fatal" "foreach_inv nfa c ?R (length (run_curr run4)) run4" "foreach_frame (round_start run) run4"
    "entry nfa ?cs i \<subseteq> done_set run4"
    "result_upd nfa (done_set run4) (ss_start sl + i) (rc, best, run_longest_end run) (rc4, best4, run_longest_end run4)"
    using res(2) st(2,3,4) le by (auto simp: foreach_ok_def res_eq simp del: result_upd.simps)
  have fin: "curr_set run4 = {}" "done_set run4 \<subseteq> ?R" "closed_to nfa c run4 {}" "run_ok nfa run4"
    using r(2) by (simp_all add: foreach_inv_def round_inv_def)
  have D: "done_set run4 = ?R"
    using nfa_at_closure [OF r(4) fin(2)] fin(1,3) r(3) c cp by (simp add: closed_to_def foreach_frame_def)
  have "result_ok nfa sl i (rc, best, run_longest_end run)" using inv by (simp add: rounds_inv_def)
  then have result: "result_ok nfa sl (Suc i) (rc4, best4, run_longest_end run4)"
    using r(5) unfolding D by (rule result_ok_upd)
  have "rounds_inv nfa sl (Suc i) (run4\<lparr>run_c_prev := c\<rparr>) rc4 best4" if less: "i < length ?cs"
  proof -
    have "next_set run4 = entry nfa ?cs (Suc i)"
      using r(2) D c less by (simp add: foreach_inv_def entry_Suc)
    moreover have "run_in_curr run4 = ss_advance sl (Suc i)"
      using r(3) getc_at [OF i] less in_curr by (simp add: foreach_frame_def round_start_def)
    ultimately show ?thesis
      using fin(4) less result c by (simp add: rounds_inv_def run_ok_def char_before_def)
  qed
  then show thesis using that [of run4 rc4 best4] res(1) res_eq r(1) result by simp
qed

text \<open>The rounds end: at the end of the input, or when no thread is left.\<close>
lemma nfa_rounds_unfold:
  assumes "rounds_inv nfa sl i run rc best"
  shows "nfa_rounds nfa run rc best =
    (if next_set run = {} then Some (run_swap run, rc, best)
     else do {
       (fatal, run4, rc4, best4) \<leftarrow>
         foreach_thread nfa (round_start run) 0 (char_at (ss_bytes sl) i) rc best;
       if fatal \<or> length (ss_bytes sl) \<le> i then Some (run4, rc4, best4)
       else nfa_rounds nfa (run4\<lparr>run_c_prev := char_at (ss_bytes sl) i\<rparr>) rc4 best4 })"
proof -
  have ok: "run_ok nfa run" and i: "i \<le> length (ss_bytes sl)" and in_curr: "run_in_curr run = ss_advance sl i"
    using assms by (simp_all add: rounds_inv_def)
  then have n: "run_n_insns run = n_insns nfa" and tight: "bf_tight (run_map_next run) (n_insns nfa)"
    and thr: "threads_ok (run_next run) (next_set run)" by (auto simp: run_ok_def)
  have live: "run_live (run_swap run) \<longleftrightarrow> next_set run \<noteq> {}"
    using bf_tight_live [OF tight] n by (simp add: run_live_def run_swap_def Let_def)
  have curr: "run_curr (run_swap run) = [] \<longleftrightarrow> next_set run = {}"
    using thr by (auto simp: run_swap_def Let_def threads_ok_def)
  have start: "run_in_curr (run_swap run) = run_in_curr run" by (simp add: run_swap_def Let_def)
  have getc: "aem_stringslice_getc (run_in_curr run) =
      (char_at (ss_bytes sl) i, snd (aem_stringslice_getc (run_in_curr run)))"
    using getc_at(1) [OF i] in_curr by (metis prod.collapse)
  have "run_in_curr (run_swap run\<lparr>run_p_curr := x\<rparr>) = run_in_curr run" for x
    by (simp add: start)
  then show ?thesis
    using getc char_at_neg [of "ss_bytes sl" i] live curr
    by (subst nfa_rounds.simps)
      (auto simp: Let_def start round_start_def intro!: arg_cong2 [of _ _ _ _ Option.bind] split: prod.splits)
qed

lemma nfa_rounds_ok:
  assumes "rounds_inv nfa sl i run rc best" and wf: "nfa_wf nfa"
  shows "\<exists>run' rc' best'. nfa_rounds nfa run rc best = Some (run', rc', best') \<and>
    result_ok nfa sl (Suc (length (ss_bytes sl))) (rc', best', run_longest_end run')"
  using assms(1)
proof (induction "length (ss_bytes sl) - i" arbitrary: i run rc best rule: less_induct)
  case less
  note inv = less.prems
  have i: "i \<le> length (ss_bytes sl)" and entry: "next_set run = entry nfa (ss_bytes sl) i"
    and result: "result_ok nfa sl i (rc, best, run_longest_end run)"
    using inv by (simp_all add: rounds_inv_def)
  show ?case
  proof (cases "next_set run = {}")
    case True
    then have none: "\<not> nfa_accepts nfa (ss_bytes sl) j k" if "i \<le> j" for j k
      using entry entry_before that by (fastforce simp: nfa_accepts_def)
    have "result_ok nfa sl (Suc (length (ss_bytes sl))) (rc, best, run_longest_end run)"
      by (rule result_ok_none [OF result]) (use i none in auto)
    then show ?thesis
      unfolding nfa_rounds_unfold [OF inv] using True by (simp add: run_swap_def Let_def)
  next
    case False
    from round_ok [OF inv wf refl] obtain run4 rc4 best4 where
      r: "foreach_thread nfa (round_start run) 0 (char_at (ss_bytes sl) i) rc best = Some (False, run4, rc4, best4)"
        "result_ok nfa sl (Suc i) (rc4, best4, run_longest_end run4)"
        "i < length (ss_bytes sl) \<Longrightarrow>
           rounds_inv nfa sl (Suc i) (run4\<lparr>run_c_prev := char_at (ss_bytes sl) i\<rparr>) rc4 best4" by blast
    show ?thesis
    proof (cases "i < length (ss_bytes sl)")
      case True
      then show ?thesis
        unfolding nfa_rounds_unfold [OF inv] using False r(1) less.hyps [OF _ r(3)] by simp
    next
      case eof: False
      then have "i = length (ss_bytes sl)" using i by simp
      then show ?thesis
        unfolding nfa_rounds_unfold [OF inv] using False r(1,2) by (simp del: result_ok.simps)
    qed
  qed
qed

lemma add_init_threads_ok:
  assumes "run_ok nfa run" "set pcs \<subseteq> {..<n_insns nfa}"
  shows "\<exists>m ts. add_init_threads nfa run pcs = Some (run\<lparr>run_map_next := m, run_next := ts\<rparr>) \<and>
    run_ok nfa (run\<lparr>run_map_next := m, run_next := ts\<rparr>) \<and>
    bf_to_set m (n_insns nfa) = next_set run \<union> {p \<in> set pcs. bitfield_test (thr_init nfa) p}"
  using assms
proof (induction pcs arbitrary: run)
  case Nil
  then show ?case
    by (intro exI [of _ "run_map_next run"] exI [of _ "run_next run"]) (auto simp: run_ok_def)
next
  case (Cons pc pcs)
  show ?case
  proof (cases "bitfield_test (thr_init nfa) pc")
    case False
    then show ?thesis using Cons.IH [OF Cons.prems(1)] Cons.prems(2)
      by (simp add: conj_disj_distribR Collect_disj_eq cong: conj_cong)
  next
    case True
    from thread_add_next [OF Cons.prems(1), of "aem_nfa_thread_new run pc"] obtain m ts where
      add: "aem_nfa_thread_add run True (aem_nfa_thread_new run pc) = Some (run\<lparr>run_map_next := m, run_next := ts\<rparr>)"
        "run_ok nfa (run\<lparr>run_map_next := m, run_next := ts\<rparr>)"
        "bf_to_set m (n_insns nfa) = insert pc (next_set run)"
      using Cons.prems(2) by auto
    have n: "run_n_insns run = n_insns nfa" using Cons.prems(1) by (simp add: run_ok_def)
    have "{p \<in> set (pc # pcs). bitfield_test (thr_init nfa) p} = insert pc {p \<in> set pcs. bitfield_test (thr_init nfa) p}"
      using True by auto
    then show ?thesis using Cons.IH [OF add(2)] Cons.prems(2) True add n by simp
  qed
qed

lemma engine_correct:
  assumes "nfa_wf nfa"
  shows "\<exists>rc sl' m. aem_nfa_run nfa sl = Some (rc, sl', m) \<and> nm_match m = rc \<and>
    (rc = -1 \<and> sl' = sl \<and> (\<forall>i k. \<not> nfa_accepts nfa (ss_bytes sl) i k) \<or>
     (\<exists>i k. rc = int k \<and> sl' = ss_advance sl i \<and> i \<le> length (ss_bytes sl) \<and>
        nfa_accepts nfa (ss_bytes sl) i k \<and> (\<forall>j k'. nfa_accepts nfa (ss_bytes sl) j k' \<longrightarrow> j \<le> i)))"
proof -
  let ?start = "nfa_run_start nfa sl"
  have start_none: "next_set ?start = {}" by (simp add: nfa_run_start_def Let_def)
  have init_entry: "entry nfa (ss_bytes sl) 0 = {p \<in> set [0..<n_insns nfa]. bitfield_test (thr_init nfa) p}"
    by (auto simp: entry_def)
  have "run_ok nfa ?start" by (simp add: run_ok_def nfa_run_start_def Let_def)
  moreover have "set [0..<n_insns nfa] \<subseteq> {..<n_insns nfa}" by auto
  ultimately have "\<exists>m ts. add_init_threads nfa ?start [0..<n_insns nfa] = Some (?start\<lparr>run_map_next := m, run_next := ts\<rparr>) \<and>
      run_ok nfa (?start\<lparr>run_map_next := m, run_next := ts\<rparr>) \<and>
      bf_to_set m (n_insns nfa) = next_set ?start \<union> {p \<in> set [0..<n_insns nfa]. bitfield_test (thr_init nfa) p}"
    by (rule add_init_threads_ok)
  then obtain m ts where
    run0: "add_init_threads nfa ?start [0..<n_insns nfa] = Some (?start\<lparr>run_map_next := m, run_next := ts\<rparr>)"
      "run_ok nfa (?start\<lparr>run_map_next := m, run_next := ts\<rparr>)"
      "bf_to_set m (n_insns nfa) = entry nfa (ss_bytes sl) 0"
    unfolding init_entry start_none by auto
  have "rounds_inv nfa sl 0 (?start\<lparr>run_map_next := m, run_next := ts\<rparr>) (-1) None"
    using run0(2,3) by (simp add: rounds_inv_def nfa_run_start_def Let_def char_before_def)
  from nfa_rounds_ok [OF this assms] obtain run rc best where
    r: "nfa_rounds nfa (?start\<lparr>run_map_next := m, run_next := ts\<rparr>) (-1) None = Some (run, rc, best)"
      "result_ok nfa sl (Suc (length (ss_bytes sl))) (rc, best, run_longest_end run)" by blast
  have bound: "j < Suc (length (ss_bytes sl))" if "nfa_accepts nfa (ss_bytes sl) j k" for j k
    using that nfa_at_index by (fastforce simp: nfa_accepts_def)
  let ?m = "case best of None \<Rightarrow> \<lparr>nm_captures = [], nm_visited = [], nm_match = rc\<rparr> | Some thr \<Rightarrow> thr_match thr"
  have res: "aem_nfa_run nfa sl = Some (rc, ss_advance sl (run_longest_end run - ss_start sl), ?m)"
    by (simp add: aem_nfa_run_def run0(1) r(1))
  from r(2) show ?thesis unfolding res result_ok.simps
  proof (elim disjE exE conjE, goal_cases)
    case 1
    then have "\<not> nfa_accepts nfa (ss_bytes sl) i k" for i k using bound by blast
    then show ?case using 1 by simp
  next
    case (2 j k thr)
    then have "j' \<le> j" if "nfa_accepts nfa (ss_bytes sl) j' k'" for j' k'
      using that bound [OF that] not_le by blast
    then show ?case using 2 by auto
  qed
qed

text \<open>C1: the engine returns, without error, for every well-formed program and input.
  It returns \<open>-1\<close> and leaves the input alone when the program accepts no prefix of the input;
  otherwise it consumes the longest accepted prefix and returns a match number with which the
  program accepts that prefix.\<close>
theorem nfa_run_longest_match:
  assumes "nfa_wf nfa"
  shows "\<exists>rc sl' m. aem_nfa_run nfa sl = Some (rc, sl', m) \<and> nm_match m = rc \<and>
    (rc = -1 \<and> sl' = sl \<and> (\<forall>i k. \<not> nfa_accepts nfa (ss_bytes sl) i k) \<or>
     (\<exists>i k. rc = int k \<and> sl' = ss_advance sl i \<and> i \<le> length (ss_bytes sl) \<and>
        nfa_accepts nfa (ss_bytes sl) i k \<and> (\<forall>j k'. nfa_accepts nfa (ss_bytes sl) j k' \<longrightarrow> j \<le> i)))"
  by (rule engine_correct [OF assms])

text \<open>The program for the expressions \<open>a+\<close> (match 0) and \<open>ab\<close> (match 1).\<close>
definition example_nfa :: nfa where
  "example_nfa = AEM_NFA_EMPTY\<lparr>pgm :=
     [aem_nfa_insn_char 97, aem_nfa_insn_fork 0, aem_nfa_insn_match 0,
      aem_nfa_insn_char 97, aem_nfa_insn_char 98, aem_nfa_insn_match 1],
     n_insns := 6, thr_init := [9]\<rparr>"

lemma example_nfa_wf: "nfa_wf example_nfa"
  by code_simp

lemma nfa_run_longest_match_witness:
  "\<exists>rc sl' m. aem_nfa_run example_nfa (aem_stringslice_new_len 1 [97, 98, 99]) = Some (rc, sl', m) \<and> rc \<noteq> -2"
  using nfa_run_longest_match [OF example_nfa_wf, of "aem_stringslice_new_len 1 [97, 98, 99]"] by auto

end
