(* ===== verification/Aem_Compile.thy ===== *)
theory Aem_Compile
  imports Aem_Regex Aem_Nfa_Run "HOL-Library.Code_Target_Nat"
begin

text \<open>
  \<open>nfa-compile.c\<close>: the code generator and \<open>aem_nfa_add\<close>, which parses a pattern, compiles its tree
  to the end of the program and makes the entry point an initial instruction. \<open>None\<close> is an
  aborting \<open>aem_assert\<close>, as in \<open>Aem_Nfa\<close>, or a recursion deeper than the stack. The loops over the
  children of a node take the list of the children's code generators.

  The second half shows that whatever a pattern contains, compiling it leaves a well-formed program,
  so that the engine runs it without an error.
\<close>

section \<open>Emitting code\<close>

definition AEM_NFA_PARSE_ERROR :: nat where "AEM_NFA_PARSE_ERROR = 2 ^ 64 - 1"

definition re_set_debug :: "compile_ctx \<Rightarrow> nat \<Rightarrow> stringslice \<Rightarrow> compile_ctx" where
  "re_set_debug ctx i dbg =
     ctx\<lparr>cc_nfa := aem_nfa_set_dbg (cc_nfa ctx) i
       (if has_flag ctx AEM_REGEX_FLAG_DEBUG then dbg else AEM_STRINGSLICE_EMPTY) (cc_match ctx)\<rparr>"

definition cc_append :: "nfa_mem \<Rightarrow> compile_ctx \<Rightarrow> u32 \<Rightarrow> (nat \<times> compile_ctx) option" where
  "cc_append m ctx insn =
     do { (i, nfa) \<leftarrow> aem_nfa_append_insn m (cc_nfa ctx) insn; Some (i, ctx\<lparr>cc_nfa := nfa\<rparr>) }"

definition cc_put :: "nfa_mem \<Rightarrow> compile_ctx \<Rightarrow> nat \<Rightarrow> u32 \<Rightarrow> compile_ctx option" where
  "cc_put m ctx i insn =
     do { (j, nfa) \<leftarrow> aem_nfa_put_insn m (cc_nfa ctx) i insn; Some (ctx\<lparr>cc_nfa := nfa\<rparr>) }"

definition cc_n :: "compile_ctx \<Rightarrow> nat" where "cc_n ctx = n_insns (cc_nfa ctx)"

type_synonym node_gen = "compile_ctx \<Rightarrow> (nat \<times> compile_ctx) option"

section \<open>The loops over children\<close>

text \<open>A branch: whether all children compiled.\<close>
fun branch_gen :: "node_gen list \<Rightarrow> compile_ctx \<Rightarrow> (bool \<times> compile_ctx) option" where
  "branch_gen [] ctx = Some (True, ctx)"
| "branch_gen (g # gs) ctx =
     do { (r, ctx1) \<leftarrow> g ctx;
          if r = AEM_NFA_PARSE_ERROR then Some (False, ctx1) else branch_gen gs ctx1 }"

text \<open>The loop of \<open>aem_nfa_node_gen_alternation\<close>; it ends with no jump left to patch.\<close>
fun alternation_gen ::
  "nfa_mem \<Rightarrow> stringslice \<Rightarrow> node_gen list \<Rightarrow> nat \<Rightarrow> compile_ctx \<Rightarrow> (bool \<times> compile_ctx) option" where
  "alternation_gen m txt [] jmp_prev ctx =
     (if jmp_prev = AEM_NFA_PARSE_ERROR then Some (True, ctx) else None)"
| "alternation_gen m txt (g # gs) jmp_prev ctx =
     do { (fork, ctx1) \<leftarrow> (if gs \<noteq> [] then cc_append m ctx (aem_nfa_insn_fork 0)
                          else Some (AEM_NFA_PARSE_ERROR, ctx));
          (r, ctx2) \<leftarrow> g ctx1;
          if r = AEM_NFA_PARSE_ERROR then Some (False, ctx2)
          else do {
            ctx3 \<leftarrow> (if jmp_prev \<noteq> AEM_NFA_PARSE_ERROR then
                       map_option (\<lambda>c. re_set_debug c jmp_prev txt)
                         (cc_put m ctx2 jmp_prev (aem_nfa_insn_jmp (cc_n ctx2)))
                     else Some ctx2);
            (jmp, ctx4) \<leftarrow> (if gs \<noteq> [] then cc_append m ctx3 (aem_nfa_insn_jmp 0)
                           else Some (AEM_NFA_PARSE_ERROR, ctx3));
            ctx5 \<leftarrow> (if fork \<noteq> AEM_NFA_PARSE_ERROR then
                       map_option (\<lambda>c. re_set_debug c fork txt)
                         (cc_put m ctx4 fork (aem_nfa_insn_fork (cc_n ctx4)))
                     else Some ctx4);
            alternation_gen m txt gs jmp ctx5 } }"

definition aem_nfa_node_gen_alternation ::
  "nfa_mem \<Rightarrow> stringslice \<Rightarrow> node_gen list \<Rightarrow> compile_ctx \<Rightarrow> (nat \<times> compile_ctx) option" where
  "aem_nfa_node_gen_alternation m txt gs ctx =
     do { (ok, ctx1) \<leftarrow> alternation_gen m txt gs AEM_NFA_PARSE_ERROR ctx;
          Some (if ok then cc_n ctx else AEM_NFA_PARSE_ERROR, ctx1) }"

text \<open>The bytes of a rune, one instruction each. The argument of \<open>aem_nfa_insn_char\<close> is a
  \<open>char\<close> converted to \<open>uint32_t\<close>, which extends the sign.\<close>
fun bytes_gen :: "nfa_mem \<Rightarrow> stringslice \<Rightarrow> u8 list \<Rightarrow> compile_ctx \<Rightarrow> compile_ctx option" where
  "bytes_gen m txt [] ctx = Some ctx"
| "bytes_gen m txt (b # bs) ctx =
     do { (i, ctx1) \<leftarrow> cc_append m ctx (aem_nfa_insn_char (word_of_int (schar b)));
          bytes_gen m txt bs (re_set_debug ctx1 i txt) }"

text \<open>The mandatory repetitions: where the last one starts, or the error.\<close>
fun repeat_gen :: "node_gen \<Rightarrow> nat \<Rightarrow> nat \<Rightarrow> compile_ctx \<Rightarrow> (nat \<times> compile_ctx) option" where
  "repeat_gen g 0 last_rep ctx = Some (last_rep, ctx)"
| "repeat_gen g (Suc k) last_rep ctx =
     do { (rep, ctx1) \<leftarrow> g ctx;
          if rep = AEM_NFA_PARSE_ERROR then Some (AEM_NFA_PARSE_ERROR, ctx1)
          else repeat_gen g k rep ctx1 }"

text \<open>The optional repetitions.\<close>
fun optional_gen ::
  "nfa_mem \<Rightarrow> stringslice \<Rightarrow> node_gen \<Rightarrow> nat \<Rightarrow> compile_ctx \<Rightarrow> (bool \<times> compile_ctx) option" where
  "optional_gen m txt g 0 ctx = Some (True, ctx)"
| "optional_gen m txt g (Suc k) ctx =
     do { (fork, ctx1) \<leftarrow> cc_append m ctx (aem_nfa_insn_fork 0);
          (r, ctx2) \<leftarrow> g ctx1;
          if r = AEM_NFA_PARSE_ERROR then Some (False, ctx2)
          else do {
            ctx3 \<leftarrow> cc_put m ctx2 fork (aem_nfa_insn_fork (cc_n ctx2));
            optional_gen m txt g k (re_set_debug ctx3 fork txt) } }"

text \<open>\<open>{,}\<close> without a bound: a loop around the child.\<close>
definition star_gen :: "nfa_mem \<Rightarrow> stringslice \<Rightarrow> node_gen \<Rightarrow> compile_ctx \<Rightarrow> (bool \<times> compile_ctx) option" where
  "star_gen m txt g ctx =
     do { (fork, ctx1) \<leftarrow> cc_append m ctx (aem_nfa_insn_fork 0);
          (r, ctx2) \<leftarrow> g ctx1;
          if r = AEM_NFA_PARSE_ERROR \<or> cc_n ctx2 = fork then Some (False, ctx2)
          else do {
            (jmp, ctx3) \<leftarrow> cc_append m ctx2 (aem_nfa_insn_jmp fork);
            ctx4 \<leftarrow> cc_put m ctx3 fork (aem_nfa_insn_fork (cc_n ctx3));
            Some (True, re_set_debug (re_set_debug ctx4 fork txt) jmp txt) } }"

text \<open>The case of a repetition in \<open>aem_nfa_node_compile\<close>.\<close>
definition node_repeat_gen ::
  "nfa_mem \<Rightarrow> stringslice \<Rightarrow> u32 \<Rightarrow> u32 \<Rightarrow> bool \<Rightarrow> node_gen \<Rightarrow> compile_ctx \<Rightarrow> (bool \<times> compile_ctx) option" where
  "node_repeat_gen m txt mn mx reluctant g ctx =
     (if mx < mn then Some (False, ctx)
      else do {
        (last_rep, ctx1) \<leftarrow> repeat_gen g (unat mn) (cc_n ctx) ctx;
        if last_rep = AEM_NFA_PARSE_ERROR then Some (False, ctx1)
        else if mn \<noteq> 0 \<and> cc_n ctx1 = cc_n ctx then Some (True, ctx1)
        else if reluctant then Some (False, ctx1)
        else if mx = mn \<and> mx \<noteq> UINT_MAX then Some (True, ctx1)
        else if mx \<noteq> UINT_MAX then optional_gen m txt g (unat mx - unat mn) ctx1
        else if mn \<noteq> 0 then do {
          (fork, ctx2) \<leftarrow> cc_append m ctx1 (aem_nfa_insn_fork last_rep);
          Some (True, re_set_debug ctx2 fork txt) }
        else star_gen m txt g ctx1 })"

section \<open>The code generator\<close>

definition gen_result :: "nat \<Rightarrow> (bool \<times> compile_ctx) option \<Rightarrow> (nat \<times> compile_ctx) option" where
  "gen_result start r = map_option (\<lambda>(ok, ctx). (if ok then start else AEM_NFA_PARSE_ERROR, ctx)) r"

text \<open>What the leaves emit; the buffer of a rune has eight bytes on the stack.\<close>
definition range_gen :: "nfa_mem \<Rightarrow> stringslice \<Rightarrow> u32 \<Rightarrow> compile_ctx \<Rightarrow> (bool \<times> compile_ctx) option" where
  "range_gen m txt insn ctx =
     do { (i, ctx1) \<leftarrow> cc_append m ctx insn; Some (True, re_set_debug ctx1 i txt) }"

definition atom_gen :: "nfa_mem \<Rightarrow> u8 allocator \<Rightarrow> stringslice \<Rightarrow> u32 \<Rightarrow> compile_ctx \<Rightarrow> (bool \<times> compile_ctx) option" where
  "atom_gen m al txt c ctx =
     do { buf \<leftarrow> aem_stringbuf_put_rune al (AEM_STRINGBUF_ALLOCA (replicate 8 (al_junk al))) c;
          map_option (Pair True) (bytes_gen m txt (ss_bytes (aem_stringslice_new_str 1 buf)) ctx) }"

definition capture_gen :: "nfa_mem \<Rightarrow> stringslice \<Rightarrow> nat \<Rightarrow> node_gen \<Rightarrow> compile_ctx \<Rightarrow> (bool \<times> compile_ctx) option" where
  "capture_gen m txt k g ctx =
     do { (c0, ctx1) \<leftarrow> cc_append m ctx (aem_nfa_insn_capture 0 k);
          (r, ctx2) \<leftarrow> g (re_set_debug ctx1 c0 (ss_set_end txt (ss_start txt + 1)));
          if r = AEM_NFA_PARSE_ERROR then Some (False, ctx2)
          else do {
            (c1, ctx3) \<leftarrow> cc_append m ctx2 (aem_nfa_insn_capture 1 k);
            Some (True, re_set_debug ctx3 c1 (ss_advance txt (length (ss_bytes txt) - 1))) } }"

fun aem_nfa_node_compile :: "nfa_mem \<Rightarrow> u8 allocator \<Rightarrow> nfa_node \<Rightarrow> node_gen" where
  "aem_nfa_node_compile m al (Node args txt children) ctx =
     (let gens = map (\<lambda>child. aem_nfa_node_compile m al child) children; start = cc_n ctx in
      case args of
        AEM_NFA_NODE_RANGE mn mx \<Rightarrow>
          if children \<noteq> [] then None
          else gen_result start (range_gen m txt (aem_nfa_insn_range mn mx) ctx)
      | AEM_NFA_NODE_ATOM c \<Rightarrow>
          if children \<noteq> [] then None else gen_result start (atom_gen m al txt c ctx)
      | AEM_NFA_NODE_CLASS cclass neg frontier \<Rightarrow>
          if children \<noteq> [] then None
          else gen_result start (range_gen m txt
            (aem_nfa_insn_class (if neg then 1 else 0) (if frontier then 1 else 0) cclass) ctx)
      | AEM_NFA_NODE_REPEAT mn mx reluctant \<Rightarrow>
          if length children \<noteq> 1 then None
          else gen_result start (node_repeat_gen m txt mn mx reluctant (hd gens) ctx)
      | AEM_NFA_NODE_CAPTURE k \<Rightarrow>
          if length children \<noteq> 1 then None
          else gen_result start (capture_gen m txt k (hd gens) ctx)
      | AEM_NFA_NODE_BRANCH \<Rightarrow> gen_result start (branch_gen gens ctx)
      | AEM_NFA_NODE_ALTERNATION \<Rightarrow>
          do { (r, ctx1) \<leftarrow> aem_nfa_node_gen_alternation m txt gens ctx; Some (start, ctx1) })"

section \<open>Adding a pattern\<close>

text \<open>The callback returns the tree and the context after parsing. The result is the match number
  or the error, what is left of the pattern, and the program.\<close>
definition aem_nfa_add ::
  "nfa_mem \<Rightarrow> u8 allocator \<Rightarrow> nfa \<Rightarrow> stringslice \<Rightarrow> int \<Rightarrow> stringslice \<Rightarrow>
   (compile_ctx \<Rightarrow> (nfa_node ptr \<times> compile_ctx) option) \<Rightarrow> (int \<times> stringslice \<times> nfa) option" where
  "aem_nfa_add m al nfa sl match flags compile =
     (case aem_regex_flags_adj flags AEM_REGEX_FLAG_BINARY False of (fl, flags_rest) \<Rightarrow>
        if aem_stringslice_ok flags_rest then Some (-1, sl, nfa)
        else
          let restore = (\<lambda>nfa'. nfa'\<lparr>n_insns := n_insns nfa, n_captures := n_captures nfa\<rparr>);
              ctx0 = \<lparr>cc_in = sl, cc_nfa = nfa, cc_n_captures = 0,
                cc_match = (if 0 \<le> match then match else n_matches nfa), cc_rc = 0, cc_flags = fl\<rparr>
          in do {
            (root, ctx1) \<leftarrow> compile ctx0;
            if root = None \<or> cc_rc ctx1 < 0 \<or> aem_stringslice_ok (cc_in ctx1)
            then Some (cc_rc ctx1, sl, restore (cc_nfa ctx1))
            else do {
              (r, ctx2) \<leftarrow> aem_nfa_node_compile m al (the root) ctx1;
              if r = AEM_NFA_PARSE_ERROR then Some (-1, sl, restore (cc_nfa ctx2))
              else
                let nfa2 = cc_nfa ctx2;
                    ctx3 = (if n_captures nfa2 < unat (cc_n_captures ctx2)
                            then ctx2\<lparr>cc_nfa := nfa2\<lparr>n_captures := unat (cc_n_captures ctx2)\<rparr>\<rparr> else ctx2)
                in do {
                  (last_pc, ctx4) \<leftarrow> cc_append m ctx3 (aem_nfa_insn_match (cc_match ctx3));
                  let ctx5 = re_set_debug ctx4 last_pc sl;
                      nfa5 = cc_nfa ctx5;
                      nfa6 = (if n_matches nfa5 < cc_match ctx5 + 1
                              then nfa5\<lparr>n_matches := cc_match ctx5 + 1\<rparr> else nfa5);
                      nfa7 = nfa6\<lparr>thr_init := bitfield_set (thr_init nfa6) (n_insns nfa)\<rparr>
                  in Some (cc_match ctx5, cc_in ctx5, nfa7) } } })"

definition aem_nfa_add_regex ::
  "nat \<Rightarrow> nfa_mem \<Rightarrow> u8 allocator \<Rightarrow> nfa \<Rightarrow> stringslice \<Rightarrow> int \<Rightarrow> stringslice \<Rightarrow> (int \<times> nfa) option" where
  "aem_nfa_add_regex depth m al nfa pat match flags =
     map_option (\<lambda>(rc, rest, nfa'). (rc, nfa'))
       (aem_nfa_add m al nfa pat match flags
          (\<lambda>ctx. map_option (map_prod Some id) (aem_regex_compile depth ctx)))"

definition aem_nfa_add_string ::
  "nfa_mem \<Rightarrow> u8 allocator \<Rightarrow> nfa \<Rightarrow> stringslice \<Rightarrow> int \<Rightarrow> stringslice \<Rightarrow> (int \<times> nfa) option" where
  "aem_nfa_add_string m al nfa pat match flags =
     map_option (\<lambda>(rc, rest, nfa'). (rc, nfa'))
       (aem_nfa_add m al nfa pat match flags
          (\<lambda>ctx. Some (map_prod Some id (aem_string_compile ctx))))"

section \<open>Compiling keeps programs well-formed\<close>

text \<open>An instruction of a program under construction: it may lead to the next instruction to be
  emitted.\<close>
definition insn_in :: "nat \<Rightarrow> nat \<Rightarrow> u32 \<Rightarrow> bool" where
  "insn_in K n w \<longleftrightarrow>
     (case nfa_decode w of
        I_Capture fin k \<Rightarrow> k < K
      | I_Jmp t \<Rightarrow> t \<le> n
      | I_Fork t \<Rightarrow> t \<le> n
      | I_Invalid k \<Rightarrow> False
      | _ \<Rightarrow> True)"

definition code_in :: "nat \<Rightarrow> compile_ctx \<Rightarrow> bool" where
  "code_in K ctx \<longleftrightarrow> (\<forall>p < cc_n ctx. insn_in K (cc_n ctx) (pgm (cc_nfa ctx) ! p))"

text \<open>What every step of the generator leaves alone: the first \<open>b\<close> instructions, the initial
  instructions, and everything that is not code.\<close>
definition cc_frame :: "nat \<Rightarrow> compile_ctx \<Rightarrow> compile_ctx \<Rightarrow> bool" where
  "cc_frame b ctx ctx' \<longleftrightarrow> nfa_store (cc_nfa ctx') \<and> cc_n ctx \<le> cc_n ctx' \<and>
     (\<forall>p < b. pgm (cc_nfa ctx') ! p = pgm (cc_nfa ctx) ! p) \<and>
     alloc_bitfields (cc_nfa ctx) \<le> alloc_bitfields (cc_nfa ctx') \<and>
     thr_init (cc_nfa ctx') = thr_init (cc_nfa ctx) @
       replicate (alloc_bitfields (cc_nfa ctx') - alloc_bitfields (cc_nfa ctx)) 0 \<and>
     n_captures (cc_nfa ctx') = n_captures (cc_nfa ctx) \<and> n_matches (cc_nfa ctx') = n_matches (cc_nfa ctx) \<and>
     cc_in ctx' = cc_in ctx \<and> cc_n_captures ctx' = cc_n_captures ctx \<and> cc_match ctx' = cc_match ctx \<and>
     cc_rc ctx' = cc_rc ctx \<and> cc_flags ctx' = cc_flags ctx"

definition gen_step :: "nat \<Rightarrow> nat \<Rightarrow> compile_ctx \<Rightarrow> compile_ctx \<Rightarrow> bool" where
  "gen_step K b ctx ctx' \<longleftrightarrow> cc_frame b ctx ctx' \<and> (code_in K ctx \<longrightarrow> code_in K ctx')"

definition gen_ok :: "nat \<Rightarrow> node_gen \<Rightarrow> bool" where
  "gen_ok K g \<longleftrightarrow> (\<forall>ctx r ctx'. nfa_store (cc_nfa ctx) \<longrightarrow> g ctx = Some (r, ctx') \<longrightarrow>
     gen_step K (cc_n ctx) ctx ctx')"

lemma gen_step_weaken: "gen_step K b ctx ctx' \<Longrightarrow> b' \<le> b \<Longrightarrow> gen_step K b' ctx ctx'"
  by (simp add: gen_step_def cc_frame_def)

lemma gen_okD:
  "gen_ok K g \<Longrightarrow> g ctx = Some (r, ctx') \<Longrightarrow> nfa_store (cc_nfa ctx) \<Longrightarrow> b \<le> cc_n ctx \<Longrightarrow> gen_step K b ctx ctx'"
  unfolding gen_ok_def by (blast intro: gen_step_weaken)

lemma gen_step_refl: "nfa_store (cc_nfa ctx) \<Longrightarrow> gen_step K b ctx ctx"
  by (simp add: gen_step_def cc_frame_def nfa_store_def)

lemma gen_step_trans: "gen_step K b ctx ctx1 \<Longrightarrow> gen_step K b ctx1 ctx2 \<Longrightarrow> gen_step K b ctx ctx2"
  by (auto simp: gen_step_def cc_frame_def simp flip: replicate_add)

lemma gen_step_store: "gen_step K b ctx ctx' \<Longrightarrow> nfa_store (cc_nfa ctx')"
  and gen_step_le: "gen_step K b ctx ctx' \<Longrightarrow> cc_n ctx \<le> cc_n ctx'"
  by (simp_all add: gen_step_def cc_frame_def)

lemma insn_in_mono: "insn_in K n w \<Longrightarrow> n \<le> n' \<Longrightarrow> insn_in K n' w"
  by (auto simp: insn_in_def split: nfa_insn.splits)

lemma insn_in_kinds [simp]:
  "insn_in K n (aem_nfa_insn_range a b)" "insn_in K n (aem_nfa_insn_class x y cc)" "insn_in K n (aem_nfa_insn_match j)"
proof -
  obtain lo hi where "nfa_decode (aem_nfa_insn_range a b) = I_Range lo hi" using decode_kinds(1) by blast
  then show "insn_in K n (aem_nfa_insn_range a b)" by (simp add: insn_in_def)
  obtain ng fr k where "nfa_decode (aem_nfa_insn_class x y cc) = I_Class ng fr k" using decode_kinds(2) by blast
  then show "insn_in K n (aem_nfa_insn_class x y cc)" by (simp add: insn_in_def)
  obtain k where "nfa_decode (aem_nfa_insn_match j) = I_Match k" using decode_kinds(3) by blast
  then show "insn_in K n (aem_nfa_insn_match j)" by (simp add: insn_in_def)
qed

lemma insn_in_char [simp]: "insn_in K n (aem_nfa_insn_char a)"
  by (simp add: aem_nfa_insn_char_def)

lemma insn_in_jumps: "t \<le> n \<Longrightarrow> insn_in K n (aem_nfa_insn_jmp t)" "t \<le> n \<Longrightarrow> insn_in K n (aem_nfa_insn_fork t)"
  using mod_less_eq_dividend [of t "2 ^ 29"] by (simp_all add: insn_in_def decode_jmp_mod decode_fork_mod)

lemma insn_in_capture: "k < K \<Longrightarrow> fin \<le> 1 \<Longrightarrow> insn_in K n (aem_nfa_insn_capture fin k)"
  using decode_capture_le [of fin k] by (auto simp: insn_in_def)

lemma cc_put_step:
  assumes "cc_put m ctx i insn = Some ctx'" "nfa_store (cc_nfa ctx)" "i \<le> cc_n ctx"
    "insn_in K (max (cc_n ctx) (Suc i)) insn" "b \<le> i"
  shows "gen_step K b ctx ctx' \<and> cc_n ctx' = max (cc_n ctx) (Suc i)"
proof -
  obtain nfa j where put: "aem_nfa_put_insn m (cc_nfa ctx) i insn = Some (j, nfa)" "ctx' = ctx\<lparr>cc_nfa := nfa\<rparr>"
    using assms(1) by (auto simp: cc_put_def bind_eq_Some_conv)
  have "i < 2 ^ 64" using assms(2,3) by (simp add: nfa_store_def cc_n_def)
  then have e: "put_effect (cc_nfa ctx) i insn nfa"
    using put_insn_effect [OF assms(2) put(1)] by simp
  have n: "n_insns (cc_nfa ctx) \<le> alloc_insns (cc_nfa ctx)" using assms(2) by (simp add: nfa_store_def)
  have same: "p < n_insns (cc_nfa ctx) \<Longrightarrow> p \<noteq> i \<Longrightarrow> pgm nfa ! p = pgm (cc_nfa ctx) ! p" for p
    using e n by (simp add: put_effect_def)
  have "cc_frame b ctx ctx'"
    using e same assms(3,5) put(2) by (simp add: cc_frame_def put_effect_def cc_n_def)
  moreover have "code_in K ctx'" if "code_in K ctx"
    unfolding code_in_def
  proof (intro allI impI)
    fix p assume p: "p < cc_n ctx'"
    have n': "cc_n ctx' = max (cc_n ctx) (Suc i)" using e put(2) by (simp add: put_effect_def cc_n_def)
    show "insn_in K (cc_n ctx') (pgm (cc_nfa ctx') ! p)"
    proof (cases "p = i")
      case True
      then show ?thesis using e assms(4) n' put(2) by (simp add: put_effect_def)
    next
      case False
      then have "p < cc_n ctx" using p n' assms(3) by auto
      then show ?thesis
        using that same [of p] False put(2) n' by (auto simp: code_in_def cc_n_def intro: insn_in_mono)
    qed
  qed
  ultimately show ?thesis using e put(2) by (simp add: gen_step_def put_effect_def cc_n_def)
qed

lemma cc_append_step:
  assumes "cc_append m ctx insn = Some (i, ctx')" "nfa_store (cc_nfa ctx)"
    "insn_in K (Suc (cc_n ctx)) insn" "b \<le> cc_n ctx"
  shows "gen_step K b ctx ctx' \<and> i = cc_n ctx \<and> cc_n ctx' = Suc (cc_n ctx)"
proof -
  obtain nfa where put: "aem_nfa_put_insn m (cc_nfa ctx) (cc_n ctx) insn = Some (i, nfa)" "ctx' = ctx\<lparr>cc_nfa := nfa\<rparr>"
    using assms(1) by (auto simp: cc_append_def aem_nfa_append_insn_def bind_eq_Some_conv cc_n_def)
  then have "cc_put m ctx (cc_n ctx) insn = Some ctx'" by (simp add: cc_put_def)
  moreover have "i = cc_n ctx" using put(1) by (auto simp: aem_nfa_put_insn_def bind_eq_Some_conv split: if_splits)
  ultimately show ?thesis using cc_put_step [of m ctx "cc_n ctx" insn ctx' K b] assms by simp
qed

lemma debug_step [simp]:
  "nfa_store (cc_nfa ctx) \<Longrightarrow> gen_step K b ctx (re_set_debug ctx i txt)"
  "cc_n (re_set_debug ctx i txt) = cc_n ctx"
  by (auto simp: gen_step_def cc_frame_def re_set_debug_def aem_nfa_set_dbg_def nfa_store_def code_in_def cc_n_def)

text \<open>The loops and cases of the generator, for children that are fine.\<close>

lemma branch_gen_step:
  assumes "\<forall>g \<in> set gs. gen_ok K g" "branch_gen gs ctx = Some (r, ctx')" "nfa_store (cc_nfa ctx)" "b \<le> cc_n ctx"
  shows "gen_step K b ctx ctx'"
  using assms
proof (induction gs arbitrary: ctx)
  case Nil
  then show ?case by (auto intro: gen_step_refl)
next
  case (Cons g gs)
  then obtain r1 ctx1 where g: "g ctx = Some (r1, ctx1)"
    "(if r1 = AEM_NFA_PARSE_ERROR then Some (False, ctx1) else branch_gen gs ctx1) = Some (r, ctx')"
    by (auto simp: bind_eq_Some_conv)
  have s: "gen_step K b ctx ctx1" using gen_okD [where g = g, OF _ g(1)] Cons.prems by simp
  note s' = gen_step_store [OF s] gen_step_le [OF s]
  show ?case
  proof (cases "r1 = AEM_NFA_PARSE_ERROR")
    case True
    then show ?thesis using g(2) s by simp
  next
    case False
    then have "branch_gen gs ctx1 = Some (r, ctx')" using g(2) by simp
    then have "gen_step K b ctx1 ctx'" using Cons.IH [of ctx1] Cons.prems s' by simp
    with s show ?thesis by (rule gen_step_trans)
  qed
qed

lemma bytes_gen_step:
  assumes "bytes_gen m txt bs ctx = Some ctx'" "nfa_store (cc_nfa ctx)" "b \<le> cc_n ctx"
  shows "gen_step K b ctx ctx'"
  using assms
proof (induction bs arbitrary: ctx)
  case Nil
  then show ?case by (auto intro: gen_step_refl)
next
  case (Cons x bs)
  then obtain i ctx1 where a: "cc_append m ctx (aem_nfa_insn_char (word_of_int (schar x))) = Some (i, ctx1)"
    "bytes_gen m txt bs (re_set_debug ctx1 i txt) = Some ctx'" by (auto simp: bind_eq_Some_conv)
  from cc_append_step [OF a(1) Cons.prems(2) insn_in_char Cons.prems(3), of K]
  have s1: "gen_step K b ctx ctx1" "cc_n ctx1 = Suc (cc_n ctx)" by simp_all
  have s2: "gen_step K b ctx1 (re_set_debug ctx1 i txt)" using gen_step_store [OF s1(1)] by simp
  note s = gen_step_trans [OF s1(1) s2]
  have "gen_step K b (re_set_debug ctx1 i txt) ctx'"
    using Cons.IH [OF a(2) gen_step_store [OF s]] s1(2) Cons.prems(3) by simp
  with s show ?case by (rule gen_step_trans)
qed

lemma repeat_gen_step:
  assumes g: "gen_ok K g" and "repeat_gen g k rep ctx = Some (r, ctx')" "nfa_store (cc_nfa ctx)" "b \<le> cc_n ctx"
    "rep \<le> cc_n ctx" and entry: "\<And>ctx r ctx'. g ctx = Some (r, ctx') \<Longrightarrow> r = AEM_NFA_PARSE_ERROR \<or> r = cc_n ctx"
  shows "gen_step K b ctx ctx' \<and> (r = AEM_NFA_PARSE_ERROR \<or> r \<le> cc_n ctx')"
  using assms(2-5)
proof (induction k arbitrary: ctx rep)
  case 0
  then show ?case by (auto intro: gen_step_refl)
next
  case (Suc k)
  then obtain r1 ctx1 where a: "g ctx = Some (r1, ctx1)"
    "(if r1 = AEM_NFA_PARSE_ERROR then Some (AEM_NFA_PARSE_ERROR, ctx1) else repeat_gen g k r1 ctx1) = Some (r, ctx')"
    by (auto simp: bind_eq_Some_conv)
  have s: "gen_step K b ctx ctx1" using gen_okD [where g = g, OF g a(1)] Suc.prems by simp
  show ?case
  proof (cases "r1 = AEM_NFA_PARSE_ERROR")
    case True
    then show ?thesis using a(2) s by auto
  next
    case False
    then have "repeat_gen g k r1 ctx1 = Some (r, ctx')" "r1 \<le> cc_n ctx1"
      using a(2) entry [OF a(1)] gen_step_le [OF s] by auto
    then have "gen_step K b ctx1 ctx' \<and> (r = AEM_NFA_PARSE_ERROR \<or> r \<le> cc_n ctx')"
      using Suc.IH gen_step_store [OF s] gen_step_le [OF s] Suc.prems(3) by simp
    then show ?thesis using s gen_step_trans by blast
  qed
qed

text \<open>A fork around a child, patched to the end.\<close>
lemma fork_gen_step:
  assumes g: "gen_ok K g" and store: "nfa_store (cc_nfa ctx)" and b: "b \<le> cc_n ctx"
    and a: "cc_append m ctx (aem_nfa_insn_fork 0) = Some (fork, ctx1)" "g ctx1 = Some (r, ctx2)"
  shows "gen_step K b ctx ctx2" "fork = cc_n ctx" "fork < cc_n ctx2"
    and "cc_put m ctx2 fork (aem_nfa_insn_fork (cc_n ctx2)) = Some ctx3 \<Longrightarrow>
      gen_step K b ctx (re_set_debug ctx3 fork txt) \<and> cc_n ctx3 = cc_n ctx2"
proof -
  from cc_append_step [OF a(1) store insn_in_jumps(2) b, of K]
  have s1: "gen_step K b ctx ctx1" "fork = cc_n ctx" "cc_n ctx1 = Suc (cc_n ctx)" by simp_all
  have s2: "gen_step K b ctx1 ctx2" using gen_okD [where g = g, OF g a(2) gen_step_store [OF s1(1)]] s1(3) b by simp
  show s: "gen_step K b ctx ctx2" using s1(1) s2 by (rule gen_step_trans)
  show "fork = cc_n ctx" by (fact s1(2))
  show lt: "fork < cc_n ctx2" using s1 gen_step_le [OF s2] by simp
  assume p: "cc_put m ctx2 fork (aem_nfa_insn_fork (cc_n ctx2)) = Some ctx3"
  from cc_put_step [OF p gen_step_store [OF s], of K b] lt s1(2) b
  have s3: "gen_step K b ctx2 ctx3" "cc_n ctx3 = cc_n ctx2" by (simp_all add: insn_in_jumps)
  have "gen_step K b ctx3 (re_set_debug ctx3 fork txt)" using gen_step_store [OF s3(1)] by simp
  then show "gen_step K b ctx (re_set_debug ctx3 fork txt) \<and> cc_n ctx3 = cc_n ctx2"
    using s s3 gen_step_trans by blast
qed

lemma optional_gen_step:
  assumes g: "gen_ok K g" and "optional_gen m txt g k ctx = Some (r, ctx')" "nfa_store (cc_nfa ctx)" "b \<le> cc_n ctx"
  shows "gen_step K b ctx ctx'"
  using assms(2-)
proof (induction k arbitrary: ctx)
  case 0
  then show ?case by (auto intro: gen_step_refl)
next
  case (Suc k)
  then obtain fork ctx1 r1 ctx2 where a: "cc_append m ctx (aem_nfa_insn_fork 0) = Some (fork, ctx1)"
    "g ctx1 = Some (r1, ctx2)"
    "(if r1 = AEM_NFA_PARSE_ERROR then Some (False, ctx2)
      else do { ctx3 \<leftarrow> cc_put m ctx2 fork (aem_nfa_insn_fork (cc_n ctx2));
                optional_gen m txt g k (re_set_debug ctx3 fork txt) }) = Some (r, ctx')"
    by (auto simp: bind_eq_Some_conv)
  note f = fork_gen_step [OF g Suc.prems(2,3) a(1,2)]
  show ?case
  proof (cases "r1 = AEM_NFA_PARSE_ERROR")
    case True
    then show ?thesis using a(3) f(1) by simp
  next
    case False
    then obtain ctx3 where p: "cc_put m ctx2 fork (aem_nfa_insn_fork (cc_n ctx2)) = Some ctx3"
      "optional_gen m txt g k (re_set_debug ctx3 fork txt) = Some (r, ctx')"
      using a(3) by (auto simp: bind_eq_Some_conv)
    have s: "gen_step K b ctx (re_set_debug ctx3 fork txt)" using f(4) [OF p(1)] by blast
    have "gen_step K b (re_set_debug ctx3 fork txt) ctx'"
      by (rule Suc.IH [OF p(2) gen_step_store [OF s]]) (use gen_step_le [OF s] Suc.prems(3) in simp)
    with s show ?thesis by (rule gen_step_trans)
  qed
qed

lemma star_gen_step:
  assumes g: "gen_ok K g" and res: "star_gen m txt g ctx = Some (r, ctx')"
    and store: "nfa_store (cc_nfa ctx)" and b: "b \<le> cc_n ctx"
  shows "gen_step K b ctx ctx'"
proof -
  obtain fork ctx1 r1 ctx2 where a: "cc_append m ctx (aem_nfa_insn_fork 0) = Some (fork, ctx1)"
    "g ctx1 = Some (r1, ctx2)"
    "(if r1 = AEM_NFA_PARSE_ERROR \<or> cc_n ctx2 = fork then Some (False, ctx2)
      else do { (jmp, ctx3) \<leftarrow> cc_append m ctx2 (aem_nfa_insn_jmp fork);
                ctx4 \<leftarrow> cc_put m ctx3 fork (aem_nfa_insn_fork (cc_n ctx3));
                Some (True, re_set_debug (re_set_debug ctx4 fork txt) jmp txt) }) = Some (r, ctx')"
    using res by (auto simp: star_gen_def bind_eq_Some_conv)
  note f = fork_gen_step [OF g store b a(1,2)]
  show ?thesis
  proof (cases "r1 = AEM_NFA_PARSE_ERROR \<or> cc_n ctx2 = fork")
    case True
    then show ?thesis using a(3) f(1) by auto
  next
    case False
    then obtain jmp ctx3 ctx4 where p: "cc_append m ctx2 (aem_nfa_insn_jmp fork) = Some (jmp, ctx3)"
      "cc_put m ctx3 fork (aem_nfa_insn_fork (cc_n ctx3)) = Some ctx4"
      "ctx' = re_set_debug (re_set_debug ctx4 fork txt) jmp txt"
      using a(3) by (auto simp: bind_eq_Some_conv)
    have le: "b \<le> cc_n ctx2" "fork \<le> Suc (cc_n ctx2)" using f(3) gen_step_le [OF f(1)] b by simp_all
    from cc_append_step [OF p(1) gen_step_store [OF f(1)] insn_in_jumps(1) le(1), of K] le
    have s1: "gen_step K b ctx2 ctx3" "cc_n ctx3 = Suc (cc_n ctx2)" by simp_all
    note s = gen_step_trans [OF f(1) s1(1)]
    have s2: "gen_step K b ctx3 ctx4"
      using cc_put_step [OF p(2) gen_step_store [OF s], of K b] f(2,3) s1(2) b by (simp add: insn_in_jumps)
    note s3 = gen_step_trans [OF s s2]
    have s4: "gen_step K b ctx4 (re_set_debug ctx4 fork txt)" using gen_step_store [OF s3] by simp
    have "gen_step K b (re_set_debug ctx4 fork txt) ctx'"
      using gen_step_store [OF s4] p(3) by simp
    then show ?thesis using s3 s4 gen_step_trans by blast
  qed
qed

lemma range_gen_step:
  assumes "range_gen m txt insn ctx = Some (r, ctx')" "nfa_store (cc_nfa ctx)" "b \<le> cc_n ctx" "\<And>n. insn_in K n insn"
  shows "gen_step K b ctx ctx'"
proof -
  obtain i ctx1 where a: "cc_append m ctx insn = Some (i, ctx1)" "ctx' = re_set_debug ctx1 i txt"
    using assms(1) by (auto simp: range_gen_def bind_eq_Some_conv)
  from cc_append_step [OF a(1) assms(2,4,3)] have s: "gen_step K b ctx ctx1" by blast
  moreover have "gen_step K b ctx1 ctx'" using gen_step_store [OF s] a(2) by simp
  ultimately show ?thesis by (rule gen_step_trans)
qed

lemma node_repeat_gen_step:
  assumes g: "gen_ok K g" and res: "node_repeat_gen m txt mn mx rel g ctx = Some (r, ctx')"
    and store: "nfa_store (cc_nfa ctx)" and b: "b \<le> cc_n ctx"
    and entry: "\<And>ctx r ctx'. g ctx = Some (r, ctx') \<Longrightarrow> r = AEM_NFA_PARSE_ERROR \<or> r = cc_n ctx"
  shows "gen_step K b ctx ctx'"
proof (cases "mx < mn")
  case True
  then show ?thesis using res gen_step_refl [OF store] by (simp add: node_repeat_gen_def)
next
  case False
  then obtain rep ctx1 where a: "repeat_gen g (unat mn) (cc_n ctx) ctx = Some (rep, ctx1)"
    "(if rep = AEM_NFA_PARSE_ERROR then Some (False, ctx1)
      else if mn \<noteq> 0 \<and> cc_n ctx1 = cc_n ctx then Some (True, ctx1)
      else if rel then Some (False, ctx1)
      else if mx = mn \<and> mx \<noteq> UINT_MAX then Some (True, ctx1)
      else if mx \<noteq> UINT_MAX then optional_gen m txt g (unat mx - unat mn) ctx1
      else if mn \<noteq> 0 then do {
          (fork, ctx2) \<leftarrow> cc_append m ctx1 (aem_nfa_insn_fork rep);
          Some (True, re_set_debug ctx2 fork txt) }
      else star_gen m txt g ctx1) = Some (r, ctx')"
    using res by (auto simp: node_repeat_gen_def bind_eq_Some_conv)
  have s: "gen_step K b ctx ctx1" "rep = AEM_NFA_PARSE_ERROR \<or> rep \<le> cc_n ctx1"
    using repeat_gen_step [OF g a(1) store b order_refl entry] by simp_all
  note st = gen_step_store [OF s(1)] and le = order_trans [OF b gen_step_le [OF s(1)]]
  consider "ctx' = ctx1" | "optional_gen m txt g (unat mx - unat mn) ctx1 = Some (r, ctx')"
    | fork ctx2 where "cc_append m ctx1 (aem_nfa_insn_fork rep) = Some (fork, ctx2)"
        "ctx' = re_set_debug ctx2 fork txt" "rep \<le> cc_n ctx1"
    | "star_gen m txt g ctx1 = Some (r, ctx')"
    using a(2) s(2) by (auto simp: bind_eq_Some_conv split: if_splits)
  then have "gen_step K b ctx1 ctx'"
  proof cases
    case 1
    then show ?thesis using gen_step_refl [OF st] by simp
  next
    case 2
    then show ?thesis using optional_gen_step [OF g _ st le] by blast
  next
    case 3
    then have s2: "gen_step K b ctx1 ctx2"
      using cc_append_step [OF 3(1) st insn_in_jumps(2) le] by simp
    then show ?thesis using 3(2) gen_step_trans [OF s2] gen_step_store [OF s2] by simp
  next
    case 4
    then show ?thesis using star_gen_step [OF g _ st le] by blast
  qed
  with s(1) show ?thesis by (rule gen_step_trans)
qed

lemma capture_gen_step:
  assumes g: "gen_ok K g" and res: "capture_gen m txt k g ctx = Some (r, ctx')"
    and store: "nfa_store (cc_nfa ctx)" and b: "b \<le> cc_n ctx" and k: "k < K"
  shows "gen_step K b ctx ctx'"
proof -
  obtain c0 ctx1 r1 ctx2 where a: "cc_append m ctx (aem_nfa_insn_capture 0 k) = Some (c0, ctx1)"
    "g (re_set_debug ctx1 c0 (ss_set_end txt (ss_start txt + 1))) = Some (r1, ctx2)"
    "(if r1 = AEM_NFA_PARSE_ERROR then Some (False, ctx2)
      else do { (c1, ctx3) \<leftarrow> cc_append m ctx2 (aem_nfa_insn_capture 1 k);
                Some (True, re_set_debug ctx3 c1 (ss_advance txt (length (ss_bytes txt) - 1))) }) = Some (r, ctx')"
    using res by (auto simp: capture_gen_def bind_eq_Some_conv)
  let ?ctx1 = "re_set_debug ctx1 c0 (ss_set_end txt (ss_start txt + 1))"
  from cc_append_step [OF a(1) store _ b, of K] k
  have s1: "gen_step K b ctx ctx1" "cc_n ctx1 = Suc (cc_n ctx)" by (simp_all add: insn_in_capture)
  have s2: "gen_step K b ctx1 ?ctx1" using gen_step_store [OF s1(1)] by simp
  note s12 = gen_step_trans [OF s1(1) s2]
  have s3: "gen_step K b ?ctx1 ctx2"
    using gen_okD [where g = g, OF g a(2) gen_step_store [OF s12], of b] s1(2) b by simp
  note s = gen_step_trans [OF s12 s3]
  show ?thesis
  proof (cases "r1 = AEM_NFA_PARSE_ERROR")
    case True
    then show ?thesis using a(3) s by simp
  next
    case False
    then obtain c1 ctx3 where p: "cc_append m ctx2 (aem_nfa_insn_capture 1 k) = Some (c1, ctx3)"
      "ctx' = re_set_debug ctx3 c1 (ss_advance txt (length (ss_bytes txt) - 1))"
      using a(3) by (auto simp: bind_eq_Some_conv)
    have "b \<le> cc_n ctx2" using b gen_step_le [OF s] by simp
    then have s4: "gen_step K b ctx2 ctx3"
      using cc_append_step [OF p(1) gen_step_store [OF s], of K b] k by (simp add: insn_in_capture)
    note s' = gen_step_trans [OF s s4]
    have "gen_step K b ctx3 ctx'" using gen_step_store [OF s'] p(2) by simp
    with s' show ?thesis by (rule gen_step_trans)
  qed
qed

lemma atom_gen_step:
  assumes res: "atom_gen m al txt c ctx = Some (r, ctx')" and store: "nfa_store (cc_nfa ctx)" and b: "b \<le> cc_n ctx"
  shows "gen_step K b ctx ctx'"
proof -
  obtain bs where "bytes_gen m txt bs ctx = Some ctx'"
    using res by (auto simp: atom_gen_def bind_eq_Some_conv)
  then show ?thesis using store b by (rule bytes_gen_step)
qed

text \<open>A patch at \<open>i\<close> to the current end, or none.\<close>
lemma patch_step:
  assumes "(if i \<noteq> AEM_NFA_PARSE_ERROR then map_option (\<lambda>c. re_set_debug c i txt) (cc_put m ctx i insn) else Some ctx) = Some ctx'"
    "nfa_store (cc_nfa ctx)" "i = AEM_NFA_PARSE_ERROR \<or> b \<le> i \<and> i < cc_n ctx" "insn_in K (cc_n ctx) insn"
  shows "gen_step K b ctx ctx' \<and> cc_n ctx' = cc_n ctx"
proof (cases "i = AEM_NFA_PARSE_ERROR")
  case True
  then show ?thesis using assms(1,2) gen_step_refl by auto
next
  case False
  then obtain c where c: "cc_put m ctx i insn = Some c" "ctx' = re_set_debug c i txt" using assms(1) by auto
  have "max (cc_n ctx) (Suc i) = cc_n ctx" using assms(3) False by simp
  then have s: "gen_step K b ctx c" "cc_n c = cc_n ctx"
    using cc_put_step [OF c(1) assms(2), of K b] assms(3,4) False by simp_all
  have "gen_step K b c ctx'" using gen_step_store [OF s(1)] c(2) by simp
  then show ?thesis using gen_step_trans [OF s(1)] s(2) c(2) by simp
qed

lemma alternation_gen_step:
  assumes "\<forall>g \<in> set gs. gen_ok K g" "alternation_gen m txt gs jp ctx = Some (r, ctx')" "nfa_store (cc_nfa ctx)"
    "b \<le> cc_n ctx" "jp = AEM_NFA_PARSE_ERROR \<or> b \<le> jp \<and> jp < cc_n ctx"
  shows "gen_step K b ctx ctx'"
  using assms
proof (induction gs arbitrary: jp ctx)
  case Nil
  then show ?case by (auto intro: gen_step_refl split: if_splits)
next
  case (Cons g gs)
  let ?ap = "\<lambda>c insn. if gs \<noteq> [] then cc_append m c insn else Some (AEM_NFA_PARSE_ERROR, c)"
  let ?pt = "\<lambda>i c insn. if i \<noteq> AEM_NFA_PARSE_ERROR then map_option (\<lambda>c. re_set_debug c i txt) (cc_put m c i insn) else Some c"
  obtain fork ctx1 r1 ctx2 where a: "?ap ctx (aem_nfa_insn_fork 0) = Some (fork, ctx1)" "g ctx1 = Some (r1, ctx2)"
    "(if r1 = AEM_NFA_PARSE_ERROR then Some (False, ctx2)
      else do { ctx3 \<leftarrow> ?pt jp ctx2 (aem_nfa_insn_jmp (cc_n ctx2));
                (jmp, ctx4) \<leftarrow> ?ap ctx3 (aem_nfa_insn_jmp 0);
                ctx5 \<leftarrow> ?pt fork ctx4 (aem_nfa_insn_fork (cc_n ctx4));
                alternation_gen m txt gs jmp ctx5 }) = Some (r, ctx')"
    using Cons.prems(2) by (auto simp: bind_eq_Some_conv)
  have app: "gen_step K b c c' \<and> (i = AEM_NFA_PARSE_ERROR \<or> b \<le> i \<and> i < cc_n c')"
    if "?ap c insn = Some (i, c')" "nfa_store (cc_nfa c)" "b \<le> cc_n c" "insn_in K (Suc (cc_n c)) insn" for c c' i insn
    using that cc_append_step [of m c insn i c' K b] gen_step_refl by (auto split: if_splits)
  from app [OF a(1) Cons.prems(3,4)] have s1: "gen_step K b ctx ctx1"
    "fork = AEM_NFA_PARSE_ERROR \<or> b \<le> fork \<and> fork < cc_n ctx1" by (auto simp: insn_in_jumps)
  have "b \<le> cc_n ctx1" using gen_step_le [OF s1(1)] Cons.prems(4) by simp
  then have s2: "gen_step K b ctx1 ctx2"
    using gen_okD [where g = g, OF _ a(2) gen_step_store [OF s1(1)]] Cons.prems(1) by simp
  note s = gen_step_trans [OF s1(1) s2]
  show ?case
  proof (cases "r1 = AEM_NFA_PARSE_ERROR")
    case True
    then show ?thesis using a(3) s by simp
  next
    case False
    then obtain ctx3 jmp ctx4 ctx5 where p: "?pt jp ctx2 (aem_nfa_insn_jmp (cc_n ctx2)) = Some ctx3"
      "?ap ctx3 (aem_nfa_insn_jmp 0) = Some (jmp, ctx4)" "?pt fork ctx4 (aem_nfa_insn_fork (cc_n ctx4)) = Some ctx5"
      "alternation_gen m txt gs jmp ctx5 = Some (r, ctx')"
      using a(3) by (auto simp: bind_eq_Some_conv)
    have "jp = AEM_NFA_PARSE_ERROR \<or> b \<le> jp \<and> jp < cc_n ctx2" using Cons.prems(5) gen_step_le [OF s] by auto
    from patch_step [OF p(1) gen_step_store [OF s] this] have s3: "gen_step K b ctx2 ctx3" by (simp add: insn_in_jumps)
    note s' = gen_step_trans [OF s s3]
    have "b \<le> cc_n ctx3" using gen_step_le [OF s'] Cons.prems(4) by simp
    from app [OF p(2) gen_step_store [OF s'] this] have s4: "gen_step K b ctx3 ctx4"
      "jmp = AEM_NFA_PARSE_ERROR \<or> b \<le> jmp \<and> jmp < cc_n ctx4" by (auto simp: insn_in_jumps)
    note s'' = gen_step_trans [OF s' s4(1)]
    have "fork = AEM_NFA_PARSE_ERROR \<or> b \<le> fork \<and> fork < cc_n ctx4"
      using s1(2) gen_step_le [OF s2] gen_step_le [OF s3] gen_step_le [OF s4(1)] by auto
    from patch_step [OF p(3) gen_step_store [OF s''] this]
    have s5: "gen_step K b ctx4 ctx5" "cc_n ctx5 = cc_n ctx4" by (simp_all add: insn_in_jumps)
    note s5' = gen_step_trans [OF s'' s5(1)]
    have "gen_step K b ctx5 ctx'"
      by (rule Cons.IH [OF _ p(4) gen_step_store [OF s5']])
        (use Cons.prems(1,4) gen_step_le [OF s5'] s4(2) s5(2) in auto)
    with s5' show ?thesis by (rule gen_step_trans)
  qed
qed

text \<open>A node returns where its code starts, or the error.\<close>
lemma node_compile_entry:
  "aem_nfa_node_compile m al nd ctx = Some (r, ctx') \<Longrightarrow> r = AEM_NFA_PARSE_ERROR \<or> r = cc_n ctx"
  by (cases nd) (auto simp: Let_def gen_result_def bind_eq_Some_conv split: nfa_node_args.splits if_splits)

lemma gen_resultE:
  assumes "gen_result st r = Some (k, ctx')"
  obtains ok where "r = Some (ok, ctx')"
  using assms by (auto simp: gen_result_def)

lemma node_compile_ok:
  assumes "tree_ok lo hi nd" "hi \<le> K"
  shows "gen_ok K (aem_nfa_node_compile m al nd)"
  using assms
proof (induction nd arbitrary: lo)
  case (Node args t cs)
  have kids: "gen_ok K (aem_nfa_node_compile m al c)" if "c \<in> set cs" "tree_ok lo' hi c" for c lo'
    using Node.IH that Node.prems(2) by blast
  show ?case unfolding gen_ok_def
  proof (intro allI impI)
    fix ctx r ctx'
    assume store: "nfa_store (cc_nfa ctx)" and res: "aem_nfa_node_compile m al (Node args t cs) ctx = Some (r, ctx')"
    show "gen_step K (cc_n ctx) ctx ctx'"
    proof (cases args)
      case (AEM_NFA_NODE_RANGE mn mx)
      then show ?thesis using res
        by (auto simp: Let_def split: if_splits elim!: gen_resultE intro: range_gen_step [OF _ store])
    next
      case (AEM_NFA_NODE_ATOM c)
      then show ?thesis using res
        by (auto simp: Let_def split: if_splits elim!: gen_resultE intro: atom_gen_step [OF _ store])
    next
      case (AEM_NFA_NODE_CLASS cc ng fr)
      then show ?thesis using res
        by (auto simp: Let_def split: if_splits elim!: gen_resultE intro: range_gen_step [OF _ store])
    next
      case (AEM_NFA_NODE_CAPTURE k)
      then obtain c where c: "cs = [c]" "tree_ok (Suc k) hi c" "k < K"
        using Node.prems by (auto simp: tree_ok.simps length_Suc_conv)
      then show ?thesis using res AEM_NFA_NODE_CAPTURE kids
        by (auto simp: Let_def elim!: gen_resultE intro: capture_gen_step [OF _ _ store])
    next
      case (AEM_NFA_NODE_REPEAT mn mx rel)
      then obtain c where c: "cs = [c]" "tree_ok lo hi c"
        using Node.prems by (auto simp: tree_ok.simps length_Suc_conv)
      have entry: "\<And>ctx r ctx'. aem_nfa_node_compile m al c ctx = Some (r, ctx') \<Longrightarrow> r = AEM_NFA_PARSE_ERROR \<or> r = cc_n ctx"
        by (rule node_compile_entry)
      show ?thesis using res AEM_NFA_NODE_REPEAT kids [of c lo] c
        by (auto simp: Let_def elim!: gen_resultE intro: node_repeat_gen_step [OF _ _ store order_refl entry])
    next
      case AEM_NFA_NODE_BRANCH
      then obtain ok where "branch_gen (map (\<lambda>child. aem_nfa_node_compile m al child) cs) ctx = Some (ok, ctx')"
        using res by (auto simp: Let_def elim: gen_resultE)
      then show ?thesis
        by (rule branch_gen_step [rotated]) (use store kids Node.prems AEM_NFA_NODE_BRANCH in auto)
    next
      case AEM_NFA_NODE_ALTERNATION
      then obtain ok where
        "alternation_gen m t (map (\<lambda>child. aem_nfa_node_compile m al child) cs) AEM_NFA_PARSE_ERROR ctx = Some (ok, ctx')"
        using res by (auto simp: Let_def aem_nfa_node_gen_alternation_def bind_eq_Some_conv)
      then show ?thesis
        by (rule alternation_gen_step [rotated]) (use store kids Node.prems AEM_NFA_NODE_ALTERNATION in auto)
    qed
  qed
qed

section \<open>Adding a pattern keeps the program well-formed\<close>

text \<open>Threads start only inside the program.\<close>
definition init_inside :: "nfa \<Rightarrow> bool" where
  "init_inside nfa \<longleftrightarrow> (\<forall>p \<in> {n_insns nfa..<32 * length (thr_init nfa)}. \<not> bitfield_test (thr_init nfa) p)"

definition nfa_ok :: "nfa \<Rightarrow> bool" where
  "nfa_ok nfa \<longleftrightarrow> nfa_store nfa \<and> nfa_wf nfa \<and> init_inside nfa"

lemma test_append_zeros:
  assumes "p < 32 * (length bf + k)"
  shows "bitfield_test (bf @ replicate k 0) p \<longleftrightarrow> p < 32 * length bf \<and> bitfield_test bf p"
proof (cases "p < 32 * length bf")
  case True
  then have "p div 32 < length bf" by (simp add: less_mult_imp_div_less mult.commute)
  then show ?thesis using True by (simp add: bitfield_test_def nth_append)
next
  case False
  then have "length bf \<le> p div 32" "p div 32 - length bf < k"
    using assms by (simp_all add: less_eq_div_iff_mult_less_eq mult.commute)
  then show ?thesis using False by (simp add: bitfield_test_def nth_append)
qed

lemma init_inside_zeros:
  assumes "init_inside nfa" "n_insns nfa \<le> n_insns nfa'" "thr_init nfa' = thr_init nfa @ replicate k 0"
  shows "init_inside nfa'"
  using assms test_append_zeros [of _ "thr_init nfa" k] by (auto simp: init_inside_def)

lemma nfa_ok_empty [simp]: "nfa_ok AEM_NFA_EMPTY"
  by (simp add: nfa_ok_def nfa_store_def nfa_wf_def AEM_NFA_EMPTY_def bf_room_def init_inside_def)

text \<open>Instructions that stay inside the program up to \<open>n\<close> are fine once another one follows.\<close>
lemma insn_in_ok:
  "insn_in (n_captures nfa) n (pgm nfa ! p) \<Longrightarrow> p < n \<Longrightarrow> n < n_insns nfa \<Longrightarrow> nfa_insn_ok nfa p"
  by (auto simp: insn_in_def nfa_insn_ok_def split: nfa_insn.splits)

lemma nfa_insn_in: "nfa_insn_ok nfa p \<Longrightarrow> n_captures nfa \<le> K \<Longrightarrow> insn_in K (n_insns nfa) (pgm nfa ! p)"
  by (auto simp: insn_in_def nfa_insn_ok_def split: nfa_insn.splits)

text \<open>Going back to the program as it was.\<close>
lemma insn_ok_cong:
  "pgm nfa' ! p = pgm nfa ! p \<Longrightarrow> n_insns nfa' = n_insns nfa \<Longrightarrow> n_captures nfa' = n_captures nfa \<Longrightarrow>
   nfa_insn_ok nfa' p = nfa_insn_ok nfa p"
  by (simp add: nfa_insn_ok_def split: nfa_insn.split)

lemma restore_ok:
  assumes ok: "nfa_ok nfa" and frame: "cc_frame (n_insns nfa) ctx ctx'" and nfa: "cc_nfa ctx = nfa"
  shows "nfa_ok ((cc_nfa ctx')\<lparr>n_insns := n_insns nfa, n_captures := n_captures nfa\<rparr>)" (is "nfa_ok ?nfa")
proof -
  have store: "nfa_store ?nfa"
    using frame nfa by (auto simp: nfa_store_def cc_frame_def cc_n_def)
  have "nfa_insn_ok ?nfa p" if "p < n_insns nfa" for p
  proof -
    have "nfa_insn_ok ?nfa p = nfa_insn_ok nfa p"
      by (rule insn_ok_cong) (use frame nfa that in \<open>auto simp: cc_frame_def\<close>)
    then show ?thesis using ok that by (simp add: nfa_ok_def nfa_wf_def)
  qed
  then have "nfa_wf ?nfa" using store by (auto simp: nfa_wf_def nfa_store_def bf_room_def)
  moreover have "init_inside ?nfa"
    by (rule init_inside_zeros [of nfa]) (use ok frame nfa in \<open>simp_all add: nfa_ok_def cc_frame_def\<close>)
  ultimately show ?thesis using store by (simp add: nfa_ok_def)
qed

text \<open>Finishing a pattern: the match instruction and the entry point.\<close>
lemma finish_ok:
  assumes store: "nfa_store nfa1" and code: "\<forall>p < n_insns nfa1. insn_in (n_captures nfa1) (n_insns nfa1) (pgm nfa1 ! p)"
    and put: "aem_nfa_append_insn m nfa1 (aem_nfa_insn_match j) = Some (i, nfa2)" and init: "init_inside nfa1"
  shows "nfa_ok nfa2 \<and> n_insns nfa2 = Suc (n_insns nfa1)"
proof -
  have i: "n_insns nfa1 < 2 ^ 64" using store by (simp add: nfa_store_def)
  from put have "aem_nfa_put_insn m nfa1 (n_insns nfa1) (aem_nfa_insn_match j) = Some (i, nfa2)"
    by (simp add: aem_nfa_append_insn_def)
  from put_insn_effect [OF store this i]
  have e: "put_effect nfa1 (n_insns nfa1) (aem_nfa_insn_match j) nfa2" by simp
  have n: "n_insns nfa2 = Suc (n_insns nfa1)" "n_captures nfa2 = n_captures nfa1" "nfa_store nfa2"
    using e by (simp_all add: put_effect_def)
  have le: "n_insns nfa1 \<le> alloc_insns nfa1" using store by (simp add: nfa_store_def)
  have "nfa_insn_ok nfa2 p" if "p < n_insns nfa2" for p
  proof (cases "p = n_insns nfa1")
    case True
    then have "pgm nfa2 ! p = aem_nfa_insn_match j" using e by (simp add: put_effect_def)
    then show ?thesis using decode_kinds(3) [of j] by (auto simp: nfa_insn_ok_def)
  next
    case False
    then have p: "p < n_insns nfa1" using that n by simp
    then have "pgm nfa2 ! p = pgm nfa1 ! p" using e le by (simp add: put_effect_def)
    then show ?thesis using insn_in_ok [of nfa2 "n_insns nfa1" p] code p n by simp
  qed
  then have "nfa_wf nfa2" using n(3) by (auto simp: nfa_wf_def nfa_store_def bf_room_def)
  moreover have "init_inside nfa2"
    by (rule init_inside_zeros [OF init]) (use e n in \<open>simp_all add: put_effect_def\<close>)
  ultimately show ?thesis using n by (simp add: nfa_ok_def)
qed

lemma nfa_ok_dbg: "nfa_ok (aem_nfa_set_dbg nfa i w j) = nfa_ok nfa" "n_insns (aem_nfa_set_dbg nfa i w j) = n_insns nfa"
  by (auto simp: aem_nfa_set_dbg_def nfa_ok_def nfa_store_def nfa_wf_def nfa_insn_ok_def init_inside_def cong: nfa_insn.case_cong)

lemma dbg_thr_init: "thr_init (aem_nfa_set_dbg nfa i w j) = thr_init nfa"
  by (simp add: aem_nfa_set_dbg_def)

lemma nfa_ok_n_matches: "nfa_ok (nfa\<lparr>n_matches := k\<rparr>) = nfa_ok nfa"
  by (simp add: nfa_ok_def nfa_store_def nfa_wf_def nfa_insn_ok_def init_inside_def cong: nfa_insn.case_cong)

lemma nfa_ok_set_init:
  assumes "nfa_ok nfa" "i < n_insns nfa"
  shows "nfa_ok (nfa\<lparr>thr_init := bitfield_set (thr_init nfa) i\<rparr>)"
proof -
  have len: "length (bitfield_set (thr_init nfa) i) = length (thr_init nfa)" by (simp add: bitfield_set_def)
  have room: "bf_room (thr_init nfa) (n_insns nfa)" using assms by (simp add: nfa_ok_def nfa_wf_def)
  show ?thesis using assms
    by (auto simp: nfa_ok_def nfa_store_def nfa_wf_def nfa_insn_ok_def init_inside_def bf_room_def len
      bitfield_set_test [OF room assms(2)] cong: nfa_insn.case_cong)
qed

text \<open>The old program is a prefix of the new one, with the same initial instructions.\<close>
definition nfa_grows :: "nfa \<Rightarrow> nfa \<Rightarrow> bool" where
  "nfa_grows nfa nfa' \<longleftrightarrow> n_insns nfa \<le> n_insns nfa' \<and>
     (\<forall>p < n_insns nfa. pgm nfa' ! p = pgm nfa ! p \<and> bitfield_test (thr_init nfa') p = bitfield_test (thr_init nfa) p)"

lemma nfa_grows_refl [simp]: "nfa_grows nfa nfa"
  by (simp add: nfa_grows_def)

lemma nfa_grows_trans: "nfa_grows a b \<Longrightarrow> nfa_grows b c \<Longrightarrow> nfa_grows a c"
  by (simp add: nfa_grows_def)

lemma nfa_grows_zeros:
  assumes "nfa_store nfa" "\<forall>p < n_insns nfa. pgm nfa' ! p = pgm nfa ! p" "n_insns nfa \<le> n_insns nfa'"
    "thr_init nfa' = thr_init nfa @ replicate k 0"
  shows "nfa_grows nfa nfa'"
proof -
  have "p < n_insns nfa \<Longrightarrow> p div 32 < length (thr_init nfa)" for p
    using assms(1) word_index [of "thr_init nfa" "n_insns nfa" p] by (simp add: nfa_store_def bf_room_def)
  then show ?thesis using assms by (simp add: nfa_grows_def bitfield_test_def nth_append)
qed

lemma frame_grows:
  "cc_frame (n_insns nfa) ctx ctx' \<Longrightarrow> cc_nfa ctx = nfa \<Longrightarrow> nfa_store nfa \<Longrightarrow>
     nfa_grows nfa (cc_nfa ctx') \<and> nfa_grows nfa ((cc_nfa ctx')\<lparr>n_insns := n_insns nfa, n_captures := c\<rparr>)"
  by (intro conjI nfa_grows_zeros) (auto simp: cc_frame_def cc_n_def)

lemma append_grows:
  assumes "nfa_store nfa" "aem_nfa_append_insn m nfa w = Some (i, nfa')"
  shows "nfa_grows nfa nfa'"
proof -
  have "n_insns nfa < 2 ^ 64" "n_insns nfa \<le> alloc_insns nfa" using assms(1) by (simp_all add: nfa_store_def)
  then show ?thesis
    using put_insn_effect [OF assms(1), of m "n_insns nfa" w i nfa'] assms
    by (auto simp: put_effect_def aem_nfa_append_insn_def intro!: nfa_grows_zeros)
qed

lemma grows_fields [simp]:
  "nfa_grows nfa (aem_nfa_set_dbg nfa' i w j) = nfa_grows nfa nfa'"
  "nfa_grows nfa (nfa'\<lparr>n_matches := k\<rparr>) = nfa_grows nfa nfa'"
  "nfa_grows nfa (nfa'\<lparr>n_captures := c\<rparr>) = nfa_grows nfa nfa'"
  by (simp_all add: nfa_grows_def aem_nfa_set_dbg_def)

lemma grows_set_init:
  "nfa_grows nfa nfa' \<Longrightarrow> bf_room (thr_init nfa') (Suc (n_insns nfa)) \<Longrightarrow>
   nfa_grows nfa (nfa'\<lparr>thr_init := bitfield_set (thr_init nfa') (n_insns nfa)\<rparr>)"
  by (auto simp: nfa_grows_def bitfield_set_test)

text \<open>What \<open>aem_nfa_add\<close> relies on in its callback, for contexts that fit.\<close>
locale pattern_compiler =
  fixes compile :: "compile_ctx \<Rightarrow> (nfa_node ptr \<times> compile_ctx) option"
    and fits :: "compile_ctx \<Rightarrow> bool"
  assumes keeps: "fits ctx \<Longrightarrow> cc_n_captures ctx = 0 \<Longrightarrow> compile ctx = Some (root, ctx') \<Longrightarrow>
      cc_nfa ctx' = cc_nfa ctx \<and> cc_match ctx' = cc_match ctx \<and> cc_rc ctx' = cc_rc ctx"
    and tree: "fits ctx \<Longrightarrow> cc_n_captures ctx = 0 \<Longrightarrow> compile ctx = Some (Some nd, ctx') \<Longrightarrow>
      tree_ok 0 (n_caps ctx') nd"
begin

text \<open>What adding a pattern does to a program, whatever the pattern.\<close>
lemma add_effect:
  assumes ok: "nfa_ok nfa" and fits: "\<And>ctx. cc_in ctx = sl \<Longrightarrow> fits ctx"
    and res: "aem_nfa_add m al nfa sl match flags compile = Some (rc, sl', nfa')"
  shows "nfa_ok nfa' \<and> nfa_grows nfa nfa' \<and> (rc < 0 \<longrightarrow> 0 \<le> n_matches nfa \<longrightarrow> n_insns nfa' = n_insns nfa)"
proof -
  obtain fl rest where fl: "aem_regex_flags_adj flags AEM_REGEX_FLAG_BINARY False = (fl, rest)" by fastforce
  define ctx0 where "ctx0 = \<lparr>cc_in = sl, cc_nfa = nfa, cc_n_captures = 0,
    cc_match = (if 0 \<le> match then match else n_matches nfa), cc_rc = 0, cc_flags = fl\<rparr>"
  define restore where "restore = (\<lambda>nfa' :: nfa. nfa'\<lparr>n_insns := n_insns nfa, n_captures := n_captures nfa\<rparr>)"
  show ?thesis
  proof (cases "aem_stringslice_ok rest")
    case True
    then show ?thesis using res ok by (simp add: aem_nfa_add_def fl)
  next
    case False
    have ctx0: "fits ctx0" "cc_n_captures ctx0 = 0" "cc_nfa ctx0 = nfa" using fits by (simp_all add: ctx0_def)
    obtain root ctx1 where 1: "compile ctx0 = Some (root, ctx1)"
      using res False by (auto simp: aem_nfa_add_def fl Let_def bind_eq_Some_conv simp flip: ctx0_def)
    have nfa1: "cc_nfa ctx1 = nfa" using keeps [OF ctx0(1,2) 1] ctx0(3) by simp
    have ok0: "nfa_ok (restore nfa)" using ok by (simp add: restore_def)
    show ?thesis
    proof (cases "root = None \<or> cc_rc ctx1 < 0 \<or> aem_stringslice_ok (cc_in ctx1)")
      case True
      then have "nfa' = restore nfa"
        using res False 1 nfa1 by (simp add: aem_nfa_add_def fl Let_def restore_def flip: ctx0_def)
      moreover have "nfa_grows nfa (restore nfa)" by (simp add: restore_def nfa_grows_def)
      ultimately show ?thesis using ok0 by (simp add: restore_def)
    next
      case more: False
      then obtain nd where nd: "root = Some nd" by auto
      obtain r ctx2 where 2: "aem_nfa_node_compile m al nd ctx1 = Some (r, ctx2)"
        using res False 1 more nd
        by (auto simp: aem_nfa_add_def fl Let_def bind_eq_Some_conv simp flip: ctx0_def split: if_splits)
      define K where "K = max (n_captures nfa) (n_caps ctx1)"
      have "tree_ok 0 (n_caps ctx1) nd" using tree [OF ctx0(1,2)] 1 nd by simp
      then have gen: "gen_ok K (aem_nfa_node_compile m al nd)" by (rule node_compile_ok) (simp add: K_def)
      have store: "nfa_store (cc_nfa ctx1)" using ok nfa1 by (simp add: nfa_ok_def)
      have step: "gen_step K (n_insns nfa) ctx1 ctx2"
        using gen_okD [where g = "aem_nfa_node_compile m al nd", OF gen 2 store] nfa1 by (simp add: cc_n_def)
      then have frame: "cc_frame (n_insns nfa) ctx1 ctx2" by (simp add: gen_step_def)
      have "code_in K ctx1"
        using ok nfa1 by (auto simp: code_in_def cc_n_def K_def nfa_ok_def nfa_wf_def intro: nfa_insn_in)
      then have code: "code_in K ctx2" using step by (simp add: gen_step_def)
      define ctx3 where "ctx3 = (if n_captures (cc_nfa ctx2) < n_caps ctx2
        then ctx2\<lparr>cc_nfa := (cc_nfa ctx2)\<lparr>n_captures := n_caps ctx2\<rparr>\<rparr> else ctx2)"
      show ?thesis
      proof (cases "r = AEM_NFA_PARSE_ERROR")
        case True
        then have "nfa' = restore (cc_nfa ctx2)"
          using res False 1 more nd 2 by (simp add: aem_nfa_add_def fl Let_def restore_def flip: ctx0_def)
        then show ?thesis using restore_ok [OF ok frame nfa1] frame_grows [OF frame nfa1] ok
          by (simp add: restore_def nfa_ok_def)
      next
        case False
        have caps3: "n_captures (cc_nfa ctx3) = K" "pgm (cc_nfa ctx3) = pgm (cc_nfa ctx2)" "cc_n ctx3 = cc_n ctx2"
          "nfa_store (cc_nfa ctx3)"
          using frame nfa1 by (auto simp: ctx3_def K_def cc_frame_def cc_n_def nfa_store_def)
        have "(do { (last_pc, ctx4) \<leftarrow> cc_append m ctx3 (aem_nfa_insn_match (cc_match ctx3));
                let ctx5 = re_set_debug ctx4 last_pc sl; nfa5 = cc_nfa ctx5;
                    nfa6 = (if n_matches nfa5 < cc_match ctx5 + 1 then nfa5\<lparr>n_matches := cc_match ctx5 + 1\<rparr> else nfa5);
                    nfa7 = nfa6\<lparr>thr_init := bitfield_set (thr_init nfa6) (n_insns nfa)\<rparr>
                in Some (cc_match ctx5, cc_in ctx5, nfa7) }) = Some (rc, sl', nfa')"
          using res \<open>\<not> aem_stringslice_ok rest\<close> 1 more nd 2 False
          by (simp add: aem_nfa_add_def fl Let_def flip: ctx0_def ctx3_def)
        then obtain i ctx4 where a: "cc_append m ctx3 (aem_nfa_insn_match (cc_match ctx3)) = Some (i, ctx4)"
          and fin: "(let ctx5 = re_set_debug ctx4 i sl; nfa5 = cc_nfa ctx5;
                    nfa6 = (if n_matches nfa5 < cc_match ctx5 + 1 then nfa5\<lparr>n_matches := cc_match ctx5 + 1\<rparr> else nfa5)
                in nfa6\<lparr>thr_init := bitfield_set (thr_init nfa6) (n_insns nfa)\<rparr>) = nfa'"
          and rc: "rc = cc_match ctx4"
          by (auto simp: Let_def bind_eq_Some_conv re_set_debug_def)
        have a': "aem_nfa_append_insn m (cc_nfa ctx3) (aem_nfa_insn_match (cc_match ctx3)) = Some (i, cc_nfa ctx4)"
          using a by (auto simp: cc_append_def bind_eq_Some_conv)
        have "init_inside (cc_nfa ctx3)"
          by (rule init_inside_zeros [of nfa]) (use ok frame nfa1 in \<open>auto simp: nfa_ok_def cc_frame_def cc_n_def ctx3_def\<close>)
        then have ok4: "nfa_ok (cc_nfa ctx4) \<and> n_insns (cc_nfa ctx4) = Suc (cc_n ctx2)"
          using finish_ok [OF caps3(4) _ a'] code caps3 by (auto simp: code_in_def cc_n_def)
        have "nfa_grows nfa (cc_nfa ctx2)" using frame_grows [OF frame nfa1] ok by (simp add: nfa_ok_def)
        then have "nfa_grows nfa (cc_nfa ctx3)" by (simp add: ctx3_def)
        then have grows: "nfa_grows nfa (cc_nfa ctx4)" by (rule nfa_grows_trans [OF _ append_grows [OF caps3(4) a']])
        have "n_insns nfa \<le> cc_n ctx2" using frame nfa1 by (simp add: cc_frame_def cc_n_def)
        then have room: "bf_room (thr_init (cc_nfa ctx4)) (Suc (n_insns nfa))"
          using ok4 by (simp add: nfa_ok_def nfa_wf_def bf_room_def)
        have "0 \<le> rc" if "0 \<le> n_matches nfa"
        proof -
          have "cc_match ctx3 = cc_match ctx0"
            using frame keeps [OF ctx0(1,2) 1] by (simp add: ctx3_def cc_frame_def)
          moreover have "cc_match ctx4 = cc_match ctx3" using a by (auto simp: cc_append_def bind_eq_Some_conv)
          ultimately show ?thesis using rc that by (simp add: ctx0_def)
        qed
        moreover define nfa5 where "nfa5 = cc_nfa (re_set_debug ctx4 i sl)"
        have dbg: "nfa_ok nfa5" "nfa_grows nfa nfa5" "bf_room (thr_init nfa5) (Suc (n_insns nfa))" "n_insns nfa < n_insns nfa5"
          using ok4 grows room \<open>n_insns nfa \<le> cc_n ctx2\<close>
          by (simp_all add: nfa5_def re_set_debug_def nfa_ok_dbg dbg_thr_init)
        have "nfa_ok nfa' \<and> nfa_grows nfa nfa'"
          using fin dbg grows_set_init [OF dbg(2,3)] grows_set_init [of nfa "nfa5\<lparr>n_matches := k\<rparr>" for k]
            nfa_ok_set_init [OF dbg(1,4)] nfa_ok_set_init [of "nfa5\<lparr>n_matches := k\<rparr>" "n_insns nfa" for k]
          by (auto simp: Let_def nfa_ok_n_matches simp flip: nfa5_def split: if_splits)
        ultimately show ?thesis by auto
      qed
    qed
  qed
qed

end

interpretation regex: pattern_compiler "\<lambda>ctx. map_option (map_prod Some id) (aem_regex_compile depth ctx)"
    "\<lambda>ctx. in_len ctx < depth \<and> in_len ctx < 2 ^ 32" for depth
proof
  fix ctx ctx' :: compile_ctx and root nd
  assume fits: "in_len ctx < depth \<and> in_len ctx < 2 ^ 32" "cc_n_captures ctx = 0"
  then have "caps_fit ctx" by (simp add: caps_fit_def)
  then have r: "returns ctx (aem_regex_compile depth ctx) (\<lambda>nd ctx'. tree_ok (n_caps ctx) (n_caps ctx') nd)"
    using fits(1) re_parse_pattern_ok [of depth] unfolding pattern_ok_def aem_regex_compile_def by blast
  show "cc_nfa ctx' = cc_nfa ctx \<and> cc_match ctx' = cc_match ctx \<and> cc_rc ctx' = cc_rc ctx"
    if "map_option (map_prod Some id) (aem_regex_compile depth ctx) = Some (root, ctx')"
    using that r by (auto simp: ctx_le_def)
  show "tree_ok 0 (n_caps ctx') nd"
    if "map_option (map_prod Some id) (aem_regex_compile depth ctx) = Some (Some nd, ctx')"
    using that r fits(2) by auto
qed

interpretation str: pattern_compiler "\<lambda>ctx. Some (map_prod Some id (aem_string_compile ctx))" "\<lambda>ctx. True"
proof
  fix ctx ctx' :: compile_ctx and root nd
  obtain cs sl where a: "string_atoms (cc_in ctx) [] = (cs, sl)" by fastforce
  show "cc_nfa ctx' = cc_nfa ctx \<and> cc_match ctx' = cc_match ctx \<and> cc_rc ctx' = cc_rc ctx"
    if "Some (map_prod Some id (aem_string_compile ctx)) = Some (root, ctx')"
    using that a by (auto simp: aem_string_compile_def)
  show "tree_ok 0 (n_caps ctx') nd"
    if "Some (map_prod Some id (aem_string_compile ctx)) = Some (Some nd, ctx')"
    using that a string_atoms_tree [OF a] by (auto simp: aem_string_compile_def)
qed

section \<open>What adding a pattern does to the language\<close>

lemma grows_at:
  assumes gr: "nfa_grows nfa nfa'" and wf: "nfa_wf nfa" and "nfa_at nfa cs i p"
  shows "nfa_at nfa' cs i p"
  using assms(3)
proof induction
  case (start p)
  then show ?case using gr by (auto simp: nfa_grows_def intro: nfa_at.start)
next
  case (eps i p q)
  have "pgm nfa' ! p = pgm nfa ! p" using nfa_at_less [OF eps.hyps(1) wf] gr by (simp add: nfa_grows_def)
  then have "eps_succ nfa' cp c p = eps_succ nfa cp c p" for cp c by (simp add: eps_succ_def)
  then show ?case using nfa_at.eps [OF eps.IH, of q] eps.hyps(2) by simp
next
  case (consume i p)
  have "pgm nfa' ! p = pgm nfa ! p" using nfa_at_less [OF consume.hyps(1) wf] gr by (simp add: nfa_grows_def)
  then have "consumes nfa' c p = consumes nfa c p" for c by (simp add: consumes_def)
  then show ?case using nfa_at.consume [OF consume.IH consume.hyps(2)] consume.hyps(3) by simp
qed

lemma grows_accepts:
  assumes "nfa_grows nfa nfa'" "nfa_wf nfa" "nfa_accepts nfa cs i k"
  shows "nfa_accepts nfa' cs i k"
proof -
  obtain p where p: "nfa_at nfa cs i p" "nfa_decode (pgm nfa ! p) = I_Match k"
    using assms(3) by (auto simp: nfa_accepts_def)
  have "pgm nfa' ! p = pgm nfa ! p" using nfa_at_less [OF p(1) assms(2)] assms(1) by (simp add: nfa_grows_def)
  then show ?thesis using p grows_at [OF assms(1,2)] unfolding nfa_accepts_def by metis
qed

lemma grows_same:
  assumes "nfa_grows nfa nfa'" "n_insns nfa' = n_insns nfa" "nfa_wf nfa" "nfa_wf nfa'"
  shows "nfa_accepts nfa' cs i k = nfa_accepts nfa cs i k"
proof -
  have "nfa_grows nfa' nfa" using assms(1,2) by (simp add: nfa_grows_def)
  then show ?thesis using assms grows_accepts by blast
qed

lemma add_regex_effect:
  assumes "nfa_ok nfa" "length (ss_bytes pat) < depth" "length (ss_bytes pat) < 2 ^ 32"
    and "aem_nfa_add_regex depth m al nfa pat match flags = Some (rc, nfa')"
  shows "nfa_ok nfa' \<and> nfa_grows nfa nfa' \<and> (rc < 0 \<longrightarrow> 0 \<le> n_matches nfa \<longrightarrow> n_insns nfa' = n_insns nfa)"
proof -
  obtain rest where "aem_nfa_add m al nfa pat match flags
      (\<lambda>ctx. map_option (map_prod Some id) (aem_regex_compile depth ctx)) = Some (rc, rest, nfa')"
    using assms(4) by (auto simp: aem_nfa_add_regex_def)
  then show ?thesis by (rule regex.add_effect [OF assms(1), rotated]) (use assms in simp)
qed

lemma add_string_effect:
  assumes "nfa_ok nfa" "aem_nfa_add_string m al nfa pat match flags = Some (rc, nfa')"
  shows "nfa_ok nfa' \<and> nfa_grows nfa nfa' \<and> (rc < 0 \<longrightarrow> 0 \<le> n_matches nfa \<longrightarrow> n_insns nfa' = n_insns nfa)"
proof -
  obtain rest where "aem_nfa_add m al nfa pat match flags
      (\<lambda>ctx. Some (map_prod Some id (aem_string_compile ctx))) = Some (rc, rest, nfa')"
    using assms(2) by (auto simp: aem_nfa_add_string_def)
  then show ?thesis by (rule str.add_effect [OF assms(1), rotated]) simp
qed

text \<open>C6: whatever the bytes of a pattern, adding it as a regular expression leaves a
  well-formed program that still accepts everything it accepted before; when the result is an error
  the program accepts exactly what it accepted before.\<close>
theorem add_regex_keeps_program:
  assumes "nfa_ok nfa" "0 \<le> n_matches nfa" "length (ss_bytes pat) < min depth (2 ^ 32)"
    and "aem_nfa_add_regex depth m al nfa pat match flags = Some (rc, nfa')"
  shows "nfa_ok nfa' \<and> (\<forall>cs i k. nfa_accepts nfa cs i k \<longrightarrow> nfa_accepts nfa' cs i k) \<and>
    (rc < 0 \<longrightarrow> (\<forall>cs i k. nfa_accepts nfa' cs i k \<longrightarrow> nfa_accepts nfa cs i k))"
proof -
  have e: "nfa_ok nfa'" "nfa_grows nfa nfa'" "rc < 0 \<Longrightarrow> n_insns nfa' = n_insns nfa"
    using add_regex_effect [OF assms(1) _ _ assms(4)] assms(2,3) by simp_all
  then show ?thesis
    using assms(1) grows_accepts [OF e(2)] grows_same [OF e(2)] by (auto simp: nfa_ok_def)
qed

text \<open>All memory granted; a regular expression in an empty program.\<close>
definition plenty :: nfa_mem where
  "plenty = \<lparr>mem_words = \<lparr>al_ok = \<lambda>_. True, al_junk = 7\<rparr>, mem_trace = \<lparr>al_ok = \<lambda>_. True, al_junk = no_trace\<rparr>\<rparr>"

definition example_add :: "string \<Rightarrow> (int \<times> nfa) option" where
  "example_add pat = aem_nfa_add_regex 20 plenty \<lparr>al_ok = \<lambda>_. True, al_junk = 0\<rparr> AEM_NFA_EMPTY
     (aem_stringslice_new_len 1 (cstr pat)) (-1) AEM_STRINGSLICE_EMPTY"

lemma add_regex_keeps_program_witness:
  "\<exists>nfa'. example_add ''(a)'' = Some (0, nfa') \<and> n_insns nfa' = 4 \<and> nfa_ok nfa'"
proof -
  have "map_option (map_prod id n_insns) (example_add ''(a)'') = Some (0, 4)" by code_simp
  then obtain nfa' where r: "example_add ''(a)'' = Some (0, nfa')" "n_insns nfa' = 4"
    by (auto simp: map_option_case split: option.splits)
  have "length (cstr ''(a)'') < 20" by code_simp
  then have "nfa_ok nfa'"
    using add_regex_keeps_program [OF nfa_ok_empty _ _ r(1) [unfolded example_add_def]]
    by (simp add: AEM_NFA_EMPTY_def aem_stringslice_new_len_def)
  then show ?thesis using r by blast
qed

end
