(* ===== verification/Aem_Optimize.thy ===== *)
theory Aem_Optimize
  imports Aem_Compile
begin

text \<open>
  The optimizer of \<open>nfa.c\<close> preserves what a program accepts. The definitions of its loops are in
  \<open>Aem_Nfa\<close>; here are the contract of a pass, which the jump threader and the splitter of initial
  forks fulfil, the depth-first search for reachable instructions, and the programs that can be
  built with the library's interface.
\<close>

section \<open>Rewriting an instruction in place\<close>

lemma put_insn_inside:
  assumes st: "nfa_store nfa" and i: "i < n_insns nfa"
  shows "aem_nfa_put_insn m nfa i insn = Some (i, nfa\<lparr>pgm := (pgm nfa)[i := insn]\<rparr>)"
proof (cases "n_insns nfa \<le> sz (i + 1)")
  case False
  then show ?thesis using st i by (simp add: aem_nfa_put_insn_def nfa_store_def)
next
  case True
  have small: "i + 1 < 2 ^ 64" using i st by (simp add: nfa_store_def)
  have n: "i + 1 = n_insns nfa" using True small i by simp
  have grow: "aem_array_grow_impl (mem_words m) sizeof_insn (pgm nfa) (alloc_insns nfa) (n_insns nfa)
      = (0, pgm nfa, alloc_insns nfa)"
    using st by (simp add: aem_array_grow_impl_def nfa_store_def)
  have words: "\<not> alloc_bitfields nfa < list_32 (n_insns nfa)"
    using st list_32_le [of "n_insns nfa" "alloc_bitfields nfa"] by (simp add: nfa_store_def)
  have "sz (i + 1) = n_insns nfa" using n small by simp
  then have "put_insn_grow m nfa i = Some nfa"
    using st grow words by (simp add: put_insn_grow_def nfa_store_def)
  then show ?thesis using True i st by (simp add: aem_nfa_put_insn_def nfa_store_def)
qed

section \<open>The contract of a pass\<close>

text \<open>Two programs of the same length that accept the same; \<open>labels_kept\<close> also have the same debug
  information.\<close>
definition same_language :: "nfa \<Rightarrow> nfa \<Rightarrow> bool" where
  "same_language nfa nfa' \<longleftrightarrow> n_insns nfa' = n_insns nfa \<and>
     (\<forall>cs i k. nfa_accepts nfa' cs i k = nfa_accepts nfa cs i k)"

definition labels_kept :: "nfa \<Rightarrow> nfa \<Rightarrow> bool" where
  "labels_kept nfa nfa' \<longleftrightarrow> same_language nfa nfa' \<and> trace_dbg nfa' = trace_dbg nfa"

lemma labels_kept_refl [simp]: "labels_kept nfa nfa"
  by (simp add: labels_kept_def same_language_def)

text \<open>A pass visits the instructions in order and changes the program only as \<open>rel\<close> allows.\<close>
locale nfa_pass =
  fixes pass :: "nfa \<Rightarrow> nat \<Rightarrow> nfa option"
    and rel :: "nfa \<Rightarrow> nfa \<Rightarrow> bool"
  assumes rel_refl: "rel nfa nfa"
    and rel_trans: "rel nfa nfa1 \<Longrightarrow> rel nfa1 nfa2 \<Longrightarrow> rel nfa nfa2"
    and rel_n_insns: "rel nfa nfa' \<Longrightarrow> n_insns nfa' = n_insns nfa"
    and pass_ok: "nfa_ok nfa \<Longrightarrow> pc < n_insns nfa \<Longrightarrow> \<exists>nfa'. pass nfa pc = Some nfa' \<and> nfa_ok nfa' \<and> rel nfa nfa'"
begin

lemma for_pcs_ok:
  "nfa_ok nfa \<Longrightarrow> set pcs \<subseteq> {..<n_insns nfa} \<Longrightarrow>
     \<exists>nfa'. for_pcs pass pcs nfa = Some nfa' \<and> nfa_ok nfa' \<and> rel nfa nfa'"
proof (induction pcs arbitrary: nfa)
  case Nil
  then show ?case by (simp add: rel_refl)
next
  case (Cons pc pcs)
  then obtain nfa1 where 1: "pass nfa pc = Some nfa1" "nfa_ok nfa1" "rel nfa nfa1"
    using pass_ok [of nfa pc] by auto
  then have "set pcs \<subseteq> {..<n_insns nfa1}" using Cons.prems rel_n_insns by auto
  from Cons.IH [OF 1(2) this] show ?case using 1 rel_trans by auto
qed

lemma run_ok:
  assumes "nfa_ok nfa"
  obtains nfa' where "for_pcs pass [0..<n_insns nfa] nfa = Some nfa'" "nfa_ok nfa'" "rel nfa nfa'"
proof -
  have "set [0..<n_insns nfa] \<subseteq> {..<n_insns nfa}" by auto
  from for_pcs_ok [OF assms this] show ?thesis using that by blast
qed

end

section \<open>Threading jumps\<close>

definition jumps :: "nfa \<Rightarrow> nat \<Rightarrow> nat \<Rightarrow> bool" where
  "jumps nfa p q \<longleftrightarrow> nfa_decode (pgm nfa ! p) = I_Jmp q"

lemma chase_jumps_spec:
  "chase_jumps nfa t k = (dst, False) \<Longrightarrow> nfa_wf nfa \<Longrightarrow> t < n_insns nfa \<Longrightarrow>
     (jumps nfa)\<^sup>*\<^sup>* t dst \<and> dst < n_insns nfa"
proof (induction k arbitrary: t)
  case (Suc k)
  show ?case
  proof (cases "\<exists>u. nfa_decode (pgm nfa ! t) = I_Jmp u")
    case True
    then obtain u where u: "nfa_decode (pgm nfa ! t) = I_Jmp u" by blast
    then have "u < n_insns nfa" using wf_insn [of nfa t] Suc.prems by (simp add: nfa_insn_ok_def)
    then have "(jumps nfa)\<^sup>*\<^sup>* u dst \<and> dst < n_insns nfa" using Suc u by simp
    moreover have "jumps nfa t u" using u by (simp add: jumps_def)
    ultimately show ?thesis by (auto intro: converse_rtranclp_into_rtranclp)
  next
    case False
    then show ?thesis using Suc.prems by (auto split: nfa_insn.splits)
  qed
qed simp

lemma decode_target: "nfa_decode w = I_Jmp t \<or> nfa_decode w = I_Fork t \<Longrightarrow> t < 2 ^ 29"
proof -
  have "unat (drop_bit AEM_NFA_OP_LEN w :: u32) < 2 ^ 29" for w
    using unsigned_less [of w, where 'a = nat] by (simp add: unat_drop_bit_eq drop_bit_nat_def AEM_NFA_OP_LEN_def less_mult_imp_div_less)
  then show "nfa_decode w = I_Jmp t \<or> nfa_decode w = I_Fork t \<Longrightarrow> t < 2 ^ 29"
    by (auto simp: nfa_decode_def Let_def split: if_splits)
qed

text \<open>A jump or fork whose target is moved to the end of a chain of jumps.\<close>
definition rethreaded :: "nfa \<Rightarrow> nat \<Rightarrow> nat \<Rightarrow> nat \<Rightarrow> nfa \<Rightarrow> bool" where
  "rethreaded nfa pc t dst nfa' \<longleftrightarrow> pc < n_insns nfa \<and> n_insns nfa' = n_insns nfa \<and> thr_init nfa' = thr_init nfa \<and>
     (\<forall>p. p \<noteq> pc \<longrightarrow> pgm nfa' ! p = pgm nfa ! p) \<and> (jumps nfa)\<^sup>+\<^sup>+ t dst \<and>
     (nfa_decode (pgm nfa ! pc) = I_Jmp t \<and> nfa_decode (pgm nfa' ! pc) = I_Jmp dst \<or>
      nfa_decode (pgm nfa ! pc) = I_Fork t \<and> nfa_decode (pgm nfa' ! pc) = I_Fork dst)"

lemma eps_succ_same: "pgm nfa' ! p = pgm nfa ! p \<Longrightarrow> eps_succ nfa' cp c p = eps_succ nfa cp c p"
  and consumes_same: "pgm nfa' ! p = pgm nfa ! p \<Longrightarrow> consumes nfa' c p = consumes nfa c p"
  by (simp_all add: eps_succ_def consumes_def)

lemma nfa_at_jumps: "(jumps nfa)\<^sup>*\<^sup>* p q \<Longrightarrow> nfa_at nfa cs i p \<Longrightarrow> nfa_at nfa cs i q"
proof (induction rule: rtranclp_induct)
  case (step q r)
  then show ?case by (intro nfa_at.eps [of nfa cs i q r]) (simp_all add: jumps_def eps_succ_def)
qed simp

lemma rethreaded_sound:
  assumes "rethreaded nfa pc t dst nfa'" "nfa_at nfa' cs i p"
  shows "nfa_at nfa cs i p"
  using assms(2)
proof induction
  case (start p)
  then show ?case using assms(1) by (auto simp: rethreaded_def intro: nfa_at.start)
next
  case (eps i p q)
  show ?case
  proof (cases "p = pc")
    case True
    have chain: "(jumps nfa)\<^sup>*\<^sup>* t dst"
      using assms(1) unfolding rethreaded_def by (blast intro: tranclp_into_rtranclp)
    have "nfa_at nfa cs i r" if "r \<in> set (eps_succ nfa (char_before cs i) (char_at cs i) pc)" for r
      using nfa_at.eps [OF eps.IH, of r] that True by simp
    moreover have "nfa_at nfa cs i t \<Longrightarrow> nfa_at nfa cs i dst" by (rule nfa_at_jumps [OF chain])
    ultimately show ?thesis
      using eps.hyps(2) True assms(1) unfolding rethreaded_def eps_succ_def by fastforce
  next
    case False
    then have same: "pgm nfa' ! p = pgm nfa ! p" using assms(1) by (simp add: rethreaded_def)
    then show ?thesis using eps.hyps(2) nfa_at.eps [OF eps.IH, of q] by (simp add: eps_succ_same [OF same])
  qed
next
  case (consume i p)
  have same: "pgm nfa' ! p = pgm nfa ! p" using consume.hyps(3) assms(1)
    by (cases "p = pc") (auto simp: rethreaded_def consumes_def)
  then show ?case using consume by (auto simp: consumes_same [OF same] intro: nfa_at.consume)
qed

lemma jumps_unique: "jumps nfa p q \<Longrightarrow> jumps nfa p q' \<Longrightarrow> q = q'"
  by (simp add: jumps_def)

lemma jumps_first: "(jumps nfa)\<^sup>+\<^sup>+ p dst \<Longrightarrow> jumps nfa p q \<Longrightarrow> q = dst \<or> (jumps nfa)\<^sup>+\<^sup>+ q dst"
  by (metis jumps_unique tranclpD rtranclpD)

lemma rethreaded_complete:
  assumes "rethreaded nfa pc t dst nfa'" "nfa_at nfa cs i p"
  shows "nfa_at nfa' cs i p \<or> (jumps nfa)\<^sup>+\<^sup>+ p dst \<and> nfa_at nfa' cs i dst"
  using assms(2)
proof induction
  case (start p)
  then show ?case using assms(1) by (auto simp: rethreaded_def intro: nfa_at.start)
next
  case (eps i p q)
  have jmp: ?case if chain: "(jumps nfa)\<^sup>+\<^sup>+ p dst" "nfa_at nfa' cs i dst"
  proof -
    obtain r where r: "jumps nfa p r" using tranclpD [OF chain(1)] by blast
    then have "q = r" using eps.hyps(2) by (simp add: jumps_def eps_succ_def)
    then show ?thesis using jumps_first [OF chain(1) r] chain(2) by auto
  qed
  show ?case
  proof (cases "nfa_at nfa' cs i p")
    case at: True
    show ?thesis
    proof (cases "p = pc")
      case True
      have new: "nfa_at nfa' cs i r" if "r \<in> set (eps_succ nfa' (char_before cs i) (char_at cs i) pc)" for r
        using nfa_at.eps [OF at, of r] that True by simp
      then show ?thesis using eps.hyps(2) True assms(1) by (auto simp: rethreaded_def eps_succ_def)
    next
      case False
      then have same: "pgm nfa' ! p = pgm nfa ! p" using assms(1) by (simp add: rethreaded_def)
      then show ?thesis using eps.hyps(2) nfa_at.eps [OF at, of q] by (simp add: eps_succ_same [OF same])
    qed
  next
    case False
    then show ?thesis using eps.IH jmp by blast
  qed
next
  case (consume i p)
  have no: "\<not> (jumps nfa)\<^sup>+\<^sup>+ p dst" using consume.hyps(3) by (auto simp: jumps_def consumes_def dest: tranclpD)
  have same: "pgm nfa' ! p = pgm nfa ! p" using consume.hyps(3) assms(1)
    by (cases "p = pc") (auto simp: rethreaded_def consumes_def)
  then show ?case using consume no by (auto simp: consumes_same [OF same] intro: nfa_at.consume)
qed

lemma rethreaded_accepts:
  assumes "rethreaded nfa pc t dst nfa'"
  shows "same_language nfa nfa'"
proof -
  have match: "nfa_decode (pgm nfa' ! p) = I_Match k \<longleftrightarrow> nfa_decode (pgm nfa ! p) = I_Match k" for p k
    using assms by (cases "p = pc") (auto simp: rethreaded_def)
  have no: "\<not> (jumps nfa)\<^sup>+\<^sup>+ p dst" if "nfa_decode (pgm nfa ! p) = I_Match k" for p k
    using that by (auto simp: jumps_def dest: tranclpD)
  have "nfa_accepts nfa' cs i k = nfa_accepts nfa cs i k" for cs i k
    using rethreaded_sound [OF assms] rethreaded_complete [OF assms] match no unfolding nfa_accepts_def by metis
  then show ?thesis using assms by (simp add: same_language_def rethreaded_def)
qed

lemma retarget_ok:
  assumes ok: "nfa_ok nfa" and pc: "pc < n_insns nfa"
    and insn: "opc = AEM_NFA_JMP \<and> nfa_decode (pgm nfa ! pc) = I_Jmp t \<or>
      opc = AEM_NFA_FORK \<and> nfa_decode (pgm nfa ! pc) = I_Fork t"
    and dst: "chase_jumps nfa t (n_insns nfa) = (dst, False)" "dst \<noteq> t"
  shows "\<exists>nfa'. map_option snd (aem_nfa_put_insn m nfa pc (aem_nfa_mk_insn opc (of_nat dst))) = Some nfa' \<and>
    nfa_ok nfa' \<and> labels_kept nfa nfa'"
proof -
  define nfa' where "nfa' = nfa\<lparr>pgm := (pgm nfa)[pc := aem_nfa_mk_insn opc (of_nat dst)]\<rparr>"
  have store: "nfa_store nfa" and wf: "nfa_wf nfa" using ok by (simp_all add: nfa_ok_def)
  have pc': "pc < length (pgm nfa)" using pc store by (simp add: nfa_store_def)
  have t: "t < n_insns nfa" using wf_insn [OF wf pc] insn by (auto simp: nfa_insn_ok_def)
  have chain: "(jumps nfa)\<^sup>*\<^sup>* t dst" "dst < n_insns nfa" using chase_jumps_spec [OF dst(1) wf t] by simp_all
  then have chain1: "(jumps nfa)\<^sup>+\<^sup>+ t dst" using dst(2) by (metis rtranclpD)
  then obtain u where "jumps nfa u dst" by (metis tranclp.cases)
  then have small: "dst < 2 ^ 29" using decode_target [of "pgm nfa ! u" dst] by (simp add: jumps_def)
  have new: "nfa_decode (pgm nfa' ! pc) = (if opc = AEM_NFA_JMP then I_Jmp dst else I_Fork dst)"
    using insn pc' decode_jmp [OF small] decode_fork [OF small]
    by (auto simp: nfa'_def aem_nfa_insn_jmp_def aem_nfa_insn_fork_def)
  have re: "rethreaded nfa pc t dst nfa'"
    using insn new pc chain1 by (auto simp: rethreaded_def nfa'_def)
  have "nfa_insn_ok nfa' p" if "p < n_insns nfa" for p
  proof (cases "p = pc")
    case True
    then show ?thesis using new insn chain(2) wf_insn [OF wf pc] by (auto simp: nfa_insn_ok_def nfa'_def)
  next
    case False
    then have "nfa_insn_ok nfa' p = nfa_insn_ok nfa p" by (intro insn_ok_cong) (simp_all add: nfa'_def)
    then show ?thesis using wf_insn [OF wf that] by simp
  qed
  then have "nfa_wf nfa'" using store by (auto simp: nfa_wf_def nfa_store_def nfa'_def bf_room_def)
  then have "nfa_ok nfa'" using ok by (simp add: nfa_ok_def nfa_store_def init_inside_def nfa'_def)
  then show ?thesis
    using rethreaded_accepts [OF re] put_insn_inside [OF store pc] by (simp add: nfa'_def labels_kept_def)
qed

interpretation jump_threader: nfa_pass "thread_jump m" labels_kept for m
proof (unfold_locales, simp_all only: labels_kept_refl)
  show "labels_kept a c" if "labels_kept a b" "labels_kept b c" for a b c
    using that by (simp add: labels_kept_def same_language_def)
  show "n_insns b = n_insns a" if "labels_kept a b" for a b
    using that by (simp add: labels_kept_def same_language_def)
next
  fix nfa pc
  assume ok: "nfa_ok nfa" and pc: "pc < n_insns nfa"
  have keep: "\<exists>nfa'. Some nfa = Some nfa' \<and> nfa_ok nfa' \<and> labels_kept nfa nfa'"
    using ok by simp
  show "\<exists>nfa'. thread_jump m nfa pc = Some nfa' \<and> nfa_ok nfa' \<and> labels_kept nfa nfa'"
  proof (cases "\<exists>opc t. opc = AEM_NFA_JMP \<and> nfa_decode (pgm nfa ! pc) = I_Jmp t \<or>
      opc = AEM_NFA_FORK \<and> nfa_decode (pgm nfa ! pc) = I_Fork t")
    case True
    then obtain opc t where insn: "opc = AEM_NFA_JMP \<and> nfa_decode (pgm nfa ! pc) = I_Jmp t \<or>
      opc = AEM_NFA_FORK \<and> nfa_decode (pgm nfa ! pc) = I_Fork t" by blast
    obtain dst lp where chase: "chase_jumps nfa t (n_insns nfa) = (dst, lp)" by fastforce
    have "thread_jump m nfa pc = (if lp then Some nfa
            else if dst \<noteq> t then map_option snd (aem_nfa_put_insn m nfa pc (aem_nfa_mk_insn opc (of_nat dst)))
            else Some nfa)"
      using insn chase by (auto simp: thread_jump_def Let_def)
    then show ?thesis using retarget_ok [OF ok pc insn] chase keep by (cases lp) auto
  next
    case False
    then have "thread_jump m nfa pc = Some nfa" by (auto simp: thread_jump_def split: nfa_insn.split)
    then show ?thesis using keep by simp
  qed
qed

section \<open>Splitting initial forks\<close>

text \<open>A fork at which threads start, replaced as a starting point by its two successors.\<close>
definition split_start :: "nfa \<Rightarrow> nat \<Rightarrow> nat \<Rightarrow> nfa \<Rightarrow> bool" where
  "split_start nfa pc t nfa' \<longleftrightarrow> pgm nfa' = pgm nfa \<and> n_insns nfa' = n_insns nfa \<and>
     nfa_decode (pgm nfa ! pc) = I_Fork t \<and>
     bf_to_set (thr_init nfa) (n_insns nfa) \<subseteq> insert pc (bf_to_set (thr_init nfa') (n_insns nfa)) \<and>
     bf_to_set (thr_init nfa') (n_insns nfa) \<subseteq> bf_to_set (thr_init nfa) (n_insns nfa) \<union> {Suc pc, t} \<and>
     pc \<in> bf_to_set (thr_init nfa) (n_insns nfa) \<and> Suc pc \<in> bf_to_set (thr_init nfa') (n_insns nfa) \<and>
     t \<in> bf_to_set (thr_init nfa') (n_insns nfa)"

lemma nfa_at_start: "p \<in> bf_to_set (thr_init nfa) (n_insns nfa) \<Longrightarrow> nfa_at nfa cs 0 p"
  by (auto simp: bf_to_set_def intro: nfa_at.start)

lemma split_start_sound:
  assumes sp: "split_start nfa pc t nfa'" and "nfa_at nfa' cs i p"
  shows "nfa_at nfa cs i p"
  using assms(2)
proof induction
  case (start p)
  then have "p \<in> bf_to_set (thr_init nfa) (n_insns nfa) \<union> {Suc pc, t}"
    using sp by (auto simp: split_start_def bf_to_set_def)
  moreover have pc: "nfa_at nfa cs 0 pc" using sp by (auto simp: split_start_def intro: nfa_at_start)
  have "nfa_at nfa cs 0 q" if "q \<in> {Suc pc, t}" for q
    using nfa_at.eps [OF pc, of q] that sp by (simp add: split_start_def eps_succ_def)
  ultimately show ?case using nfa_at_start by blast
next
  case (eps i p q)
  have same: "pgm nfa' ! p = pgm nfa ! p" using sp by (simp add: split_start_def)
  show ?case using nfa_at.eps [OF eps.IH, of q] eps.hyps(2) by (simp add: eps_succ_same [OF same])
next
  case (consume i p)
  have same: "pgm nfa' ! p = pgm nfa ! p" using sp by (simp add: split_start_def)
  show ?case using consume by (auto simp: consumes_same [OF same] intro: nfa_at.consume)
qed

lemma split_start_complete:
  assumes sp: "split_start nfa pc t nfa'" and "nfa_at nfa cs i p"
  shows "nfa_at nfa' cs i p \<or> i = 0 \<and> p = pc"
  using assms(2)
proof induction
  case (start p)
  then have "p \<in> insert pc (bf_to_set (thr_init nfa') (n_insns nfa'))"
    using sp by (auto simp: split_start_def bf_to_set_def)
  then show ?case using nfa_at_start by blast
next
  case (eps i p q)
  have same: "pgm nfa' ! p = pgm nfa ! p" using sp by (simp add: split_start_def)
  show ?case using eps.IH
  proof
    assume "nfa_at nfa' cs i p"
    then show ?thesis using nfa_at.eps [of nfa' cs i p q] eps.hyps(2) by (simp add: eps_succ_same [OF same])
  next
    assume "i = 0 \<and> p = pc"
    then have "q \<in> bf_to_set (thr_init nfa') (n_insns nfa')" "i = 0"
      using eps.hyps(2) sp by (auto simp: split_start_def eps_succ_def)
    then show ?thesis using nfa_at_start by blast
  qed
next
  case (consume i p)
  have same: "pgm nfa' ! p = pgm nfa ! p" using sp by (simp add: split_start_def)
  have "p \<noteq> pc" using consume.hyps(3) sp by (auto simp: split_start_def consumes_def)
  then show ?case using consume by (auto simp: consumes_same [OF same] intro: nfa_at.consume)
qed

lemma split_start_accepts:
  assumes "split_start nfa pc t nfa'"
  shows "same_language nfa nfa'"
proof -
  have sp: "nfa_decode (pgm nfa ! pc) = I_Fork t" "pgm nfa' = pgm nfa" "n_insns nfa' = n_insns nfa"
    using assms by (simp_all add: split_start_def)
  have "nfa_at nfa' cs i p = nfa_at nfa cs i p" if "nfa_decode (pgm nfa ! p) = I_Match k" for cs i p k
    using split_start_sound [OF assms] split_start_complete [OF assms, of cs i p] that sp(1) by auto
  then have "nfa_accepts nfa' cs i k = nfa_accepts nfa cs i k" for cs i k
    using sp(2) unfolding nfa_accepts_def by metis
  then show ?thesis using sp(3) by (simp add: same_language_def)
qed

lemma nfa_ok_clear_init:
  assumes "nfa_ok nfa" "i < n_insns nfa"
  shows "nfa_ok (nfa\<lparr>thr_init := bitfield_clear (thr_init nfa) i\<rparr>)"
proof -
  have len: "length (bitfield_clear (thr_init nfa) i) = length (thr_init nfa)" by (simp add: bitfield_clear_def)
  have room: "bf_room (thr_init nfa) (n_insns nfa)" using assms by (simp add: nfa_ok_def nfa_wf_def)
  show ?thesis using assms
    by (auto simp: nfa_ok_def nfa_store_def nfa_wf_def nfa_insn_ok_def init_inside_def bf_room_def len
      bitfield_clear_test [OF room assms(2)] cong: nfa_insn.case_cong)
qed

interpretation fork_splitter: nfa_pass split_initial labels_kept
proof (unfold_locales, rule jump_threader.rel_refl, erule (1) jump_threader.rel_trans, erule jump_threader.rel_n_insns)
  fix nfa pc
  assume ok: "nfa_ok nfa" and pc: "pc < n_insns nfa"
  have keep: "\<exists>nfa'. Some nfa = Some nfa' \<and> nfa_ok nfa' \<and> labels_kept nfa nfa'"
    using ok by simp
  show "\<exists>nfa'. split_initial nfa pc = Some nfa' \<and> nfa_ok nfa' \<and> labels_kept nfa nfa'"
  proof (cases "bitfield_test (thr_init nfa) pc \<and> (\<exists>t. nfa_decode (pgm nfa ! pc) = I_Fork t)")
    case True
    then obtain t where fork: "nfa_decode (pgm nfa ! pc) = I_Fork t" by blast
    have store: "nfa_store nfa" and wf: "nfa_wf nfa" using ok by (simp_all add: nfa_ok_def)
    have t: "t < n_insns nfa" "Suc pc < n_insns nfa" using wf_insn [OF wf pc] fork by (auto simp: nfa_insn_ok_def)
    have room: "bf_room (thr_init nfa) (n_insns nfa)" using wf by (simp add: nfa_wf_def)
    define ti where "ti = bitfield_set (bitfield_set (bitfield_clear (thr_init nfa) pc) (Suc pc)) t"
    have clear: "bf_room (bitfield_clear (thr_init nfa) pc) (n_insns nfa)"
      using room by (simp add: bf_room_def bitfield_clear_def)
    have set: "bf_to_set ti (n_insns nfa) =
        insert t (insert (Suc pc) (bf_to_set (thr_init nfa) (n_insns nfa) - {pc}))"
      using room clear pc t by (simp add: ti_def)
    define nfa' where "nfa' = nfa\<lparr>thr_init := ti\<rparr>"
    have "pc \<in> bf_to_set (thr_init nfa) (n_insns nfa)" using True pc by (simp add: bf_to_set_def)
    then have sp: "split_start nfa pc t nfa'" using fork set by (auto simp: split_start_def nfa'_def)
    have "nfa_ok nfa'"
      using nfa_ok_set_init [OF nfa_ok_set_init [OF nfa_ok_clear_init [OF ok pc], of "Suc pc"], of t] t
      by (simp add: nfa'_def ti_def)
    moreover have "Suc pc div 32 < length (thr_init nfa)" using word_index [OF room t(2)] .
    ultimately show ?thesis
      using True fork t split_start_accepts [OF sp] by (simp add: split_initial_def nfa'_def ti_def labels_kept_def)
  next
    case False
    then have "split_initial nfa pc = Some nfa" by (auto simp: split_initial_def split: nfa_insn.split)
    then show ?thesis using keep by simp
  qed
qed

section \<open>Reachable instructions\<close>

text \<open>Where control can go from an instruction, whatever the input.\<close>
definition succs :: "nfa \<Rightarrow> nat \<Rightarrow> nat set" where
  "succs nfa p =
     (case nfa_decode (pgm nfa ! p) of
        I_Jmp t \<Rightarrow> {t}
      | I_Fork t \<Rightarrow> {t, Suc p}
      | I_Match k \<Rightarrow> {}
      | _ \<Rightarrow> {Suc p})"

text \<open>What the search has done: everything marked before is marked, the start is, and the newly
  marked instructions have their successors marked.\<close>
definition marked :: "nfa \<Rightarrow> u32 list \<Rightarrow> nat set \<Rightarrow> u32 list \<Rightarrow> bool" where
  "marked nfa r start r' \<longleftrightarrow> bf_room r' (n_insns nfa) \<and>
     bf_to_set r (n_insns nfa) \<subseteq> bf_to_set r' (n_insns nfa) \<and>
     start \<inter> {..<n_insns nfa} \<subseteq> bf_to_set r' (n_insns nfa) \<and>
     (\<forall>p \<in> bf_to_set r' (n_insns nfa) - bf_to_set r (n_insns nfa).
        succs nfa p \<inter> {..<n_insns nfa} \<subseteq> bf_to_set r' (n_insns nfa))"

lemma marked_trans: "marked nfa r S r1 \<Longrightarrow> marked nfa r1 T r2 \<Longrightarrow> marked nfa r (S \<union> T) r2"
  unfolding marked_def by blast

lemma marked_insert:
  assumes "bf_room r (n_insns nfa)" "pc < n_insns nfa" "pc \<notin> bf_to_set r (n_insns nfa)"
    and "marked nfa (bitfield_set r pc) (succs nfa pc) r'"
  shows "marked nfa r {pc} r'"
  using assms by (auto simp: marked_def)

lemma mark_reachable_ok:
  "bf_room r (n_insns nfa) \<Longrightarrow> card ({..<n_insns nfa} - bf_to_set r (n_insns nfa)) = k \<Longrightarrow>
     \<exists>r'. aem_nfa_mark_reachable nfa r pc = Some r' \<and> marked nfa r {pc} r'"
proof (induction k arbitrary: r pc rule: less_induct)
  case (less k)
  let ?n = "n_insns nfa"
  show ?case
  proof (cases "pc < ?n \<and> \<not> bitfield_test r pc")
    case False
    then have "aem_nfa_mark_reachable nfa r pc = Some r"
      by (subst aem_nfa_mark_reachable.simps) (simp only: if_False)
    then show ?thesis using False less.prems(1) by (auto simp: marked_def bf_to_set_def)
  next
    case True
    define r1 where "r1 = bitfield_set r pc"
    have pc: "pc < ?n" "pc \<notin> bf_to_set r ?n" using True by (simp_all add: bf_to_set_def)
    have r1: "bf_room r1 ?n" "bf_to_set r1 ?n = insert pc (bf_to_set r ?n)"
      using less.prems(1) pc by (simp_all add: r1_def)
    have "{..<?n} - bf_to_set r1 ?n \<subset> {..<?n} - bf_to_set r ?n" using r1(2) pc by auto
    then have small: "card ({..<?n} - bf_to_set r1 ?n) < k"
      using less.prems(2) by (metis psubset_card_mono finite_Diff finite_lessThan)
    have rec: "\<exists>r'. aem_nfa_mark_reachable nfa r2 q = Some r' \<and> marked nfa r2 {q} r'"
      if "bf_room r2 ?n" "bf_to_set r1 ?n \<subseteq> bf_to_set r2 ?n" for r2 q
    proof -
      have "card ({..<?n} - bf_to_set r2 ?n) \<le> card ({..<?n} - bf_to_set r1 ?n)"
        using that(2) by (intro card_mono) auto
      then show ?thesis using less.IH [OF _ that(1) refl] small by auto
    qed
    have unfold: "aem_nfa_mark_reachable nfa r pc =
        (case nfa_decode (pgm nfa ! pc) of
           I_Jmp t \<Rightarrow> aem_nfa_mark_reachable nfa r1 t
         | I_Fork t \<Rightarrow> do {
             reachable2 \<leftarrow> aem_nfa_mark_reachable nfa r1 t;
             aem_nfa_mark_reachable nfa reachable2 (pc + 1) }
         | I_Match k \<Rightarrow> Some r1
         | _ \<Rightarrow> aem_nfa_mark_reachable nfa r1 (pc + 1))"
      unfolding r1_def using True by (subst aem_nfa_mark_reachable.simps) (simp add: Let_def)
    have "\<exists>r'. aem_nfa_mark_reachable nfa r pc = Some r' \<and> marked nfa r1 (succs nfa pc) r'"
    proof (cases "\<exists>t. nfa_decode (pgm nfa ! pc) = I_Fork t")
      case True
      then obtain t where t: "nfa_decode (pgm nfa ! pc) = I_Fork t" by blast
      obtain r2 where r2: "aem_nfa_mark_reachable nfa r1 t = Some r2" "marked nfa r1 {t} r2"
        using rec [of r1 t] r1(1) by blast
      then obtain r3 where r3: "aem_nfa_mark_reachable nfa r2 (Suc pc) = Some r3" "marked nfa r2 {Suc pc} r3"
        using rec [of r2 "Suc pc"] by (auto simp: marked_def)
      have "marked nfa r1 ({t} \<union> {Suc pc}) r3" by (rule marked_trans [OF r2(2) r3(2)])
      then show ?thesis using t r2(1) r3(1) unfold by (auto simp: succs_def insert_commute)
    next
      case False
      have "marked nfa r1 {} r1" using r1(1) by (simp add: marked_def)
      then show ?thesis
        using False rec [of r1 "Suc pc"] rec [of r1] r1(1) unfold
        by (cases "nfa_decode (pgm nfa ! pc)") (auto simp: succs_def)
    qed
    then show ?thesis using marked_insert [OF less.prems(1) pc] by (auto simp: r1_def)
  qed
qed

text \<open>The search from all initial instructions.\<close>
lemma mark_all_ok:
  "bf_room r (n_insns nfa) \<Longrightarrow>
     \<exists>r'. for_pcs (\<lambda>r pc. if \<not> bitfield_test (thr_init nfa) pc then Some r
             else aem_nfa_mark_reachable nfa r pc) pcs r = Some r' \<and>
       marked nfa r {p \<in> set pcs. bitfield_test (thr_init nfa) p} r'"
proof (induction pcs arbitrary: r)
  case Nil
  then show ?case by (simp add: marked_def)
next
  case (Cons pc pcs)
  let ?visit = "\<lambda>r pc. if \<not> bitfield_test (thr_init nfa) pc then Some r else aem_nfa_mark_reachable nfa r pc"
  have "marked nfa r {} r" using Cons.prems by (simp add: marked_def)
  then obtain r1 where 1: "?visit r pc = Some r1" "marked nfa r (if bitfield_test (thr_init nfa) pc then {pc} else {}) r1"
    using mark_reachable_ok [OF Cons.prems refl, of pc] by (cases "bitfield_test (thr_init nfa) pc") auto
  have "bf_room r1 (n_insns nfa)" using 1(2) by (simp add: marked_def)
  from Cons.IH [OF this] obtain r2 where 2: "for_pcs ?visit pcs r1 = Some r2"
    "marked nfa r1 {p \<in> set pcs. bitfield_test (thr_init nfa) p} r2" by blast
  have "(if bitfield_test (thr_init nfa) pc then {pc} else {}) \<union> {p \<in> set pcs. bitfield_test (thr_init nfa) p}
      = {p \<in> set (pc # pcs). bitfield_test (thr_init nfa) p}" by auto
  then show ?case using marked_trans [OF 1(2) 2(2)] 1(1) 2(1) by simp
qed

lemma eps_succ_succs: "q \<in> set (eps_succ nfa cp c p) \<Longrightarrow> q \<in> succs nfa p"
  and consumes_succs: "consumes nfa c p \<Longrightarrow> Suc p \<in> succs nfa p"
  by (auto simp: eps_succ_def consumes_def succs_def split: nfa_insn.splits if_splits)

text \<open>Every instruction a thread can be at is marked.\<close>
lemma marked_covers:
  assumes "marked nfa r {p \<in> {..<n_insns nfa}. bitfield_test (thr_init nfa) p} r'"
    and "bf_to_set r (n_insns nfa) = {}" "nfa_wf nfa" "nfa_at nfa cs i p"
  shows "p \<in> bf_to_set r' (n_insns nfa)"
  using assms(4)
proof induction
  case (start p)
  then show ?case using assms(1) by (auto simp: marked_def)
next
  case (eps i p q)
  then have "q < n_insns nfa" using nfa_at_less [OF nfa_at.eps [OF eps.hyps] assms(3)] by simp
  then show ?case using eps eps_succ_succs assms(1,2) unfolding marked_def by blast
next
  case (consume i p)
  then have "Suc p < n_insns nfa" using nfa_at_less [OF nfa_at.consume [OF consume.hyps] assms(3)] by simp
  then show ?case using consume consumes_succs assms(1,2) unfolding marked_def by blast
qed

section \<open>The whole optimizer\<close>

text \<open>The last loop changes debug information only.\<close>
lemma dbg_language: "same_language nfa (aem_nfa_set_dbg nfa i w j)"
proof -
  have at: "nfa_at (aem_nfa_set_dbg nfa i w j) cs k p = nfa_at nfa cs k p" for cs k p
  proof
    assume "nfa_at (aem_nfa_set_dbg nfa i w j) cs k p"
    then show "nfa_at nfa cs k p"
      by induction (auto simp: aem_nfa_set_dbg_def eps_succ_def consumes_def
        intro: nfa_at.intros simp del: nfa_insn.case split: if_splits cong: nfa_insn.case_cong)
  next
    assume "nfa_at nfa cs k p"
    then show "nfa_at (aem_nfa_set_dbg nfa i w j) cs k p"
      by induction (auto simp: aem_nfa_set_dbg_def eps_succ_def consumes_def
        intro: nfa_at.intros simp del: nfa_insn.case split: if_splits cong: nfa_insn.case_cong)
  qed
  have "pgm (aem_nfa_set_dbg nfa i w j) = pgm nfa" by (simp add: aem_nfa_set_dbg_def)
  then show ?thesis by (simp add: same_language_def nfa_accepts_def at nfa_ok_dbg)
qed

definition label_unreachable :: "u32 list \<Rightarrow> nfa \<Rightarrow> nat \<Rightarrow> nfa option" where
  "label_unreachable reachable nfa pc =
     (if bitfield_test reachable pc then Some nfa
      else Some (aem_nfa_set_dbg nfa pc
             (aem_stringslice_new_cstr (Some (cstr ''unreachable''))) (ti_match (trace_dbg nfa ! pc))))"

text \<open>What labelling keeps.\<close>
definition labelled :: "u32 list \<Rightarrow> nfa \<Rightarrow> nfa \<Rightarrow> bool" where
  "labelled r nfa nfa' \<longleftrightarrow> same_language nfa nfa' \<and> pgm nfa' = pgm nfa \<and> thr_init nfa' = thr_init nfa \<and>
     (\<forall>p. bitfield_test r p \<longrightarrow> trace_dbg nfa' ! p = trace_dbg nfa ! p)"

interpretation unreachable_labels: nfa_pass "label_unreachable reachable" "labelled reachable" for reachable
proof (unfold_locales, goal_cases)
  case (4 nfa pc)
  have "trace_dbg (aem_nfa_set_dbg nfa pc w j) ! p = trace_dbg nfa ! p"
    if "bitfield_test reachable p" "\<not> bitfield_test reachable pc" for p w j
  proof -
    have "p \<noteq> pc" using that by auto
    then show ?thesis by (simp add: aem_nfa_set_dbg_def)
  qed
  moreover have "pgm (aem_nfa_set_dbg nfa pc w j) = pgm nfa" "thr_init (aem_nfa_set_dbg nfa pc w j) = thr_init nfa" for w j
    by (simp_all add: aem_nfa_set_dbg_def)
  ultimately show ?case using 4(1) dbg_language
    by (auto simp: label_unreachable_def labelled_def nfa_ok_dbg same_language_def)
qed (auto simp: labelled_def same_language_def)

text \<open>The passes one after the other.\<close>
lemma optimize_steps:
  assumes ok: "nfa_ok nfa"
  obtains nfa2 reachable nfa' where "nfa_ok nfa2" "labels_kept nfa nfa2"
    "marked nfa2 (replicate (list_32 (n_insns nfa)) 0) {p \<in> {..<n_insns nfa2}. bitfield_test (thr_init nfa2) p} reachable"
    "aem_nfa_optimize m nfa = Some nfa'" "nfa_ok nfa'" "labelled reachable nfa2 nfa'"
proof -
  obtain nfa1 where 1: "for_pcs (thread_jump m) [0..<n_insns nfa] nfa = Some nfa1" "nfa_ok nfa1" "labels_kept nfa nfa1"
    by (rule jump_threader.run_ok [OF ok])
  obtain nfa2 where 2: "for_pcs split_initial [0..<n_insns nfa1] nfa1 = Some nfa2" "nfa_ok nfa2" "labels_kept nfa1 nfa2"
    by (rule fork_splitter.run_ok [OF 1(2)])
  have kept: "labels_kept nfa nfa2" by (rule fork_splitter.rel_trans [OF 1(3) 2(3)])
  let ?r0 = "replicate (list_32 (n_insns nfa)) 0 :: u32 list"
  have room: "bf_room ?r0 (n_insns nfa2)"
    using fork_splitter.rel_n_insns [OF kept] list_32_room [of "n_insns nfa"] by (simp add: bf_room_def)
  obtain r where 3: "for_pcs (\<lambda>r pc. if \<not> bitfield_test (thr_init nfa2) pc then Some r
      else aem_nfa_mark_reachable nfa2 r pc) [0..<n_insns nfa2] ?r0 = Some r"
    "marked nfa2 ?r0 {p \<in> set [0..<n_insns nfa2]. bitfield_test (thr_init nfa2) p} r"
    using mark_all_ok [OF room, of "[0..<n_insns nfa2]"] by blast
  have "{p \<in> set [0..<n_insns nfa2]. bitfield_test (thr_init nfa2) p}
      = {p \<in> {..<n_insns nfa2}. bitfield_test (thr_init nfa2) p}" by auto
  note m = 3(2) [unfolded this]
  obtain nfa' where 4: "for_pcs (label_unreachable r) [0..<n_insns nfa2] nfa2 = Some nfa'" "nfa_ok nfa'"
    "labelled r nfa2 nfa'" by (rule unreachable_labels.run_ok [OF 2(2)])
  have "aem_nfa_optimize m nfa = Some nfa'"
    using 1(1) 2(1) 3(1) 4(1) by (simp add: aem_nfa_optimize_def label_unreachable_def [abs_def])
  then show ?thesis using that [OF 2(2) kept m] 4(2,3) by blast
qed

text \<open>C5: on every well-formed program the optimizer returns a well-formed program with
  as many instructions, and for all inputs the new program accepts exactly the prefixes the old one
  does, with the same match numbers. It needs no memory.\<close>
theorem optimize_preserves_language:
  assumes "nfa_ok nfa"
  shows "\<exists>nfa'. aem_nfa_optimize m nfa = Some nfa' \<and> nfa_ok nfa' \<and> n_insns nfa' = n_insns nfa \<and>
    (\<forall>cs i k. nfa_accepts nfa' cs i k \<longleftrightarrow> nfa_accepts nfa cs i k)"
  by (rule optimize_steps [OF assms, of m]) (simp add: labels_kept_def labelled_def same_language_def)

text \<open>A program with a chain of jumps, an initial fork once they are threaded, and dead code.\<close>
definition example_program :: nfa where
  "example_program = AEM_NFA_EMPTY\<lparr>pgm :=
     [aem_nfa_insn_fork 1, aem_nfa_insn_jmp 2, aem_nfa_insn_jmp 3, aem_nfa_insn_char 97,
      aem_nfa_insn_match 0, aem_nfa_insn_match 1],
     n_insns := 6, alloc_insns := 6, trace_dbg := replicate 6 no_trace, thr_init := [1], alloc_bitfields := 1\<rparr>"

lemma example_program_ok: "nfa_ok example_program"
proof -
  have "nfa_store example_program" "nfa_wf example_program" by code_simp+
  moreover have "init_inside example_program"
    by (auto simp: init_inside_def example_program_def bitfield_test_bit bit_1_iff)
  ultimately show ?thesis by (simp add: nfa_ok_def)
qed

lemma optimize_preserves_language_witness:
  "\<exists>nfa'. aem_nfa_optimize plenty example_program = Some nfa' \<and> nfa_ok nfa' \<and> n_insns nfa' = 6"
  using optimize_preserves_language [OF example_program_ok, of plenty]
  by (auto simp: example_program_def)

text \<open>C9: the optimizer changes the debug information only of instructions that no
  thread of the new program can ever be at, whatever the input.\<close>
theorem optimize_labels_dead_code:
  assumes ok: "nfa_ok nfa" and res: "aem_nfa_optimize m nfa = Some nfa'"
    and p: "trace_dbg nfa' ! p \<noteq> trace_dbg nfa ! p"
  shows "\<not> nfa_at nfa' cs i p"
proof
  assume at: "nfa_at nfa' cs i p"
  obtain nfa2 r where s: "nfa_ok nfa2" "labels_kept nfa nfa2"
    "marked nfa2 (replicate (list_32 (n_insns nfa)) 0) {p \<in> {..<n_insns nfa2}. bitfield_test (thr_init nfa2) p} r"
    "nfa_ok nfa'" "labelled r nfa2 nfa'"
    using optimize_steps [OF ok, of m] res by (metis option.inject)
  have same: "pgm nfa' = pgm nfa2" "thr_init nfa' = thr_init nfa2" "n_insns nfa' = n_insns nfa2" "n_insns nfa2 = n_insns nfa"
    using s(2,5) by (simp_all add: labelled_def labels_kept_def same_language_def)
  have "succs nfa' q = succs nfa2 q" for q by (simp add: succs_def same)
  then have "marked nfa' (replicate (list_32 (n_insns nfa)) 0) {p \<in> {..<n_insns nfa'}. bitfield_test (thr_init nfa') p} r"
    using s(3) by (simp add: marked_def same)
  then have "p \<in> bf_to_set r (n_insns nfa')"
    by (rule marked_covers [OF _ _ _ at]) (use s(4) list_32_room [of "n_insns nfa"] same in \<open>simp_all add: nfa_ok_def bf_room_def\<close>)
  then have "trace_dbg nfa' ! p = trace_dbg nfa2 ! p" using s(5) by (simp add: labelled_def bf_to_set_def)
  then show False using p s(2) by (simp add: labels_kept_def)
qed

lemma optimize_labels_dead_code_witness:
  "\<exists>nfa'. aem_nfa_optimize plenty example_program = Some nfa' \<and> \<not> nfa_at nfa' [97, 97] 1 5"
proof -
  obtain nfa' where r: "aem_nfa_optimize plenty example_program = Some nfa'"
    using optimize_steps [OF example_program_ok, of plenty] by blast
  have "map_option (\<lambda>nfa'. ti_where (trace_dbg nfa' ! 5) = ti_where (trace_dbg example_program ! 5))
      (aem_nfa_optimize plenty example_program) = Some False"
    by code_simp
  then have "trace_dbg nfa' ! 5 \<noteq> trace_dbg example_program ! 5" using r by auto
  then show ?thesis using optimize_labels_dead_code [OF example_program_ok r] r by blast
qed

section \<open>Programs built by the library\<close>

text \<open>Every program a client can make, with patterns shorter than the recursion depth the stack
  allows and than \<open>2 ^ 32\<close> bytes.\<close>
inductive nfa_built :: "nat \<Rightarrow> nfa_mem \<Rightarrow> u8 allocator \<Rightarrow> nfa \<Rightarrow> bool" for depth m al where
  empty: "nfa_built depth m al AEM_NFA_EMPTY"
| add_regex: "nfa_built depth m al nfa \<Longrightarrow> length (ss_bytes pat) < min depth (2 ^ 32) \<Longrightarrow>
    aem_nfa_add_regex depth m al nfa pat match flags = Some (rc, nfa') \<Longrightarrow> nfa_built depth m al nfa'"
| add_string: "nfa_built depth m al nfa \<Longrightarrow>
    aem_nfa_add_string m al nfa pat match flags = Some (rc, nfa') \<Longrightarrow> nfa_built depth m al nfa'"
| optimize: "nfa_built depth m al nfa \<Longrightarrow> aem_nfa_optimize m nfa = Some nfa' \<Longrightarrow> nfa_built depth m al nfa'"
| dup: "nfa_built depth m al nfa \<Longrightarrow> aem_nfa_dup m (Some nfa) = Some nfa' \<Longrightarrow> nfa_built depth m al nfa'"

lemma dup_ok:
  assumes ok: "nfa_ok nfa" and dup: "aem_nfa_dup m (Some nfa) = Some nfa'"
  shows "nfa_ok nfa'"
proof -
  have all: "length xs = k \<Longrightarrow> map ((!) xs) [0..<k] = xs" for xs :: "'c list" and k
    using map_nth [of xs] by simp
  have "nfa_store nfa" using ok by (simp add: nfa_ok_def)
  then have "nfa' = nfa\<lparr>n_matches := 0\<rparr>"
    using dup by (auto simp: aem_nfa_dup_def AEM_NFA_EMPTY_def bind_eq_Some_conv nfa_store_def all)
  then show ?thesis using ok by (simp add: nfa_ok_n_matches)
qed

lemma built_ok: "nfa_built depth m al nfa \<Longrightarrow> nfa_ok nfa"
proof (induction rule: nfa_built.induct)
  case (add_regex nfa pat match flags rc nfa')
  then show ?case using add_regex_effect [of nfa pat depth] by simp
next
  case (add_string nfa pat match flags rc nfa')
  then show ?case using add_string_effect [of nfa] by blast
next
  case (optimize nfa nfa')
  then show ?case using optimize_steps [of nfa m] by (metis option.inject)
next
  case (dup nfa nfa')
  then show ?case using dup_ok by blast
qed simp

text \<open>C4: a program made from the empty one by any sequence of added patterns, copies and
  optimizations is well-formed, and running it on any input returns without an error: \<open>-1\<close> with the
  input untouched when no prefix is accepted, otherwise a match number of the longest accepted
  prefix, which is consumed.\<close>
theorem built_program_runs:
  assumes "nfa_built depth m al nfa"
  shows "nfa_ok nfa \<and> (\<exists>rc sl' mt. aem_nfa_run nfa sl = Some (rc, sl', mt) \<and>
    (if \<exists>i k. nfa_accepts nfa (ss_bytes sl) i k
     then \<exists>i. sl' = ss_advance sl i \<and> 0 \<le> rc \<and> nfa_accepts nfa (ss_bytes sl) i (nat rc) \<and>
       (\<forall>j k. nfa_accepts nfa (ss_bytes sl) j k \<longrightarrow> j \<le> i)
     else rc = -1 \<and> sl' = sl))"
proof -
  have ok: "nfa_ok nfa" by (rule built_ok [OF assms])
  then obtain rc sl' mt where r: "aem_nfa_run nfa sl = Some (rc, sl', mt)"
    "rc = -1 \<and> sl' = sl \<and> (\<forall>i k. \<not> nfa_accepts nfa (ss_bytes sl) i k) \<or>
     (\<exists>i k. rc = int k \<and> sl' = ss_advance sl i \<and> i \<le> length (ss_bytes sl) \<and>
        nfa_accepts nfa (ss_bytes sl) i k \<and> (\<forall>j k'. nfa_accepts nfa (ss_bytes sl) j k' \<longrightarrow> j \<le> i))"
    using engine_correct [of nfa sl] ok unfolding nfa_ok_def by blast
  from r(2) show ?thesis using ok r(1) by (elim disjE exE conjE) auto
qed

lemma built_program_runs_witness:
  "\<exists>nfa. example_add ''(a)'' = Some (0, nfa) \<and> (\<exists>rc sl' mt. aem_nfa_run nfa (aem_stringslice_new_len 1 [97, 98]) = Some (rc, sl', mt))"
proof -
  have "map_option fst (example_add ''(a)'') = Some 0" by code_simp
  then obtain nfa where r: "example_add ''(a)'' = Some (0, nfa)" by auto
  have "length (cstr ''(a)'') < min 20 (2 ^ 32)" by code_simp
  then have "length (ss_bytes (aem_stringslice_new_len 1 (cstr ''(a)''))) < min 20 (2 ^ 32)"
    by (simp add: aem_stringslice_new_len_def)
  from nfa_built.add_regex [OF nfa_built.empty this r [unfolded example_add_def]]
  show ?thesis using built_program_runs r by blast
qed

text \<open>an optimized program gives the same answer as the original on every input:
  both fail, or both succeed and consume the same.\<close>
theorem optimized_program_matches_same:
  assumes "nfa_built depth m al nfa"
  shows "\<exists>nfa' rc rc' sl' mt mt'. aem_nfa_optimize m nfa = Some nfa' \<and>
    aem_nfa_run nfa sl = Some (rc, sl', mt) \<and> aem_nfa_run nfa' sl = Some (rc', sl', mt') \<and> (rc = -1 \<longleftrightarrow> rc' = -1)"
proof -
  have ok: "nfa_ok nfa" by (rule built_ok [OF assms])
  obtain nfa' where o: "aem_nfa_optimize m nfa = Some nfa'" "nfa_ok nfa'" "same_language nfa nfa'"
    by (rule optimize_steps [OF ok, of m]) (auto simp: labels_kept_def labelled_def same_language_def)
  have acc: "nfa_accepts nfa' cs i k = nfa_accepts nfa cs i k" for cs i k
    using o(3) by (simp add: same_language_def)
  let ?spec = "\<lambda>rc sl'. rc = -1 \<and> sl' = sl \<and> (\<forall>i k. \<not> nfa_accepts nfa (ss_bytes sl) i k) \<or>
     (\<exists>i k. rc = int k \<and> sl' = ss_advance sl i \<and> i \<le> length (ss_bytes sl) \<and>
        nfa_accepts nfa (ss_bytes sl) i k \<and> (\<forall>j k'. nfa_accepts nfa (ss_bytes sl) j k' \<longrightarrow> j \<le> i))"
  obtain rc s1 mt where 1: "aem_nfa_run nfa sl = Some (rc, s1, mt)" "?spec rc s1"
    using engine_correct [of nfa sl] ok unfolding nfa_ok_def by blast
  obtain rc' s2 mt' where 2: "aem_nfa_run nfa' sl = Some (rc', s2, mt')" "?spec rc' s2"
    using engine_correct [of nfa' sl] o(2) unfolding nfa_ok_def acc by blast
  have "s1 = s2 \<and> (rc = -1 \<longleftrightarrow> rc' = -1)"
  proof (cases "\<exists>i k. nfa_accepts nfa (ss_bytes sl) i k")
    case True
    then obtain i k j l where "rc = int k" "s1 = ss_advance sl i" "nfa_accepts nfa (ss_bytes sl) i k"
      "rc' = int l" "s2 = ss_advance sl j" "nfa_accepts nfa (ss_bytes sl) j l" "j \<le> i" "i \<le> j"
      using 1(2) 2(2) by (elim disjE exE conjE) blast+
    then show ?thesis by simp
  next
    case False
    then show ?thesis using 1(2) 2(2) by blast
  qed
  then show ?thesis using o(1) 1(1) 2(1) by blast
qed

lemma optimized_program_matches_same_witness:
  "\<exists>nfa' rc sl' mt. aem_nfa_optimize plenty AEM_NFA_EMPTY = Some nfa' \<and>
     aem_nfa_run nfa' (aem_stringslice_new_len 1 [97]) = Some (rc, sl', mt)"
  using optimized_program_matches_same [OF nfa_built.empty [of 0 plenty "\<lparr>al_ok = \<lambda>_. True, al_junk = 0\<rparr>"],
      of "aem_stringslice_new_len 1 [97]"] by blast

end
