(* ===== verification/Aem_Fragment.thy ===== *)
theory Aem_Fragment
  imports Aem_Nfa_Run
begin

text \<open>
  Stretches of code of a program of \<open>nfa.c\<close> that control enters at one place and leaves at one
  place, what they consume, and how they compose: the vocabulary in which \<open>Aem_Lang\<close> states what the
  code generator emits.
\<close>

section \<open>Steps and paths\<close>

text \<open>A configuration is a position in the input and an instruction.\<close>
definition nfa_step :: "nfa \<Rightarrow> u8 list \<Rightarrow> nat \<times> nat \<Rightarrow> nat \<times> nat \<Rightarrow> bool" where
  "nfa_step P cs = (\<lambda>(i, p) (j, q).
     j = i \<and> q \<in> set (eps_succ P (char_before cs i) (char_at cs i) p) \<or>
     i < length cs \<and> consumes P (char_at cs i) p \<and> j = Suc i \<and> q = Suc p)"

definition step_in :: "nfa \<Rightarrow> u8 list \<Rightarrow> nat set \<Rightarrow> nat \<times> nat \<Rightarrow> nat \<times> nat \<Rightarrow> bool" where
  "step_in P cs A x y \<longleftrightarrow> snd x \<in> A \<and> nfa_step P cs x y"

text \<open>Paths of a number of steps that start inside \<open>A\<close>.\<close>
definition steps :: "nfa \<Rightarrow> u8 list \<Rightarrow> nat set \<Rightarrow> nat \<Rightarrow> nat \<times> nat \<Rightarrow> nat \<times> nat \<Rightarrow> bool" where
  "steps P cs A n = step_in P cs A ^^ n"

definition path :: "nfa \<Rightarrow> u8 list \<Rightarrow> nat set \<Rightarrow> nat \<times> nat \<Rightarrow> nat \<times> nat \<Rightarrow> bool" where
  "path P cs A = (step_in P cs A)\<^sup>*\<^sup>*"

lemma path_steps: "path P cs A x y \<longleftrightarrow> (\<exists>n. steps P cs A n x y)"
  by (simp add: path_def steps_def rtranclp_power)

lemma path_refl [simp]: "path P cs A x x"
  by (simp add: path_def)

lemma path_trans: "path P cs A x y \<Longrightarrow> path P cs A y z \<Longrightarrow> path P cs A x z"
  unfolding path_def by (rule rtranclp_trans)

lemma path_mono: "path P cs B x y \<Longrightarrow> B \<subseteq> A \<Longrightarrow> path P cs A x y"
  unfolding path_def by (erule rtranclp_mono [THEN predicate2D, rotated]) (auto simp: step_in_def)

lemma steps_Suc: "steps P cs A (Suc n) x y \<longleftrightarrow> (\<exists>z. step_in P cs A x z \<and> steps P cs A n z y)"
  unfolding steps_def by (blast intro: relpowp_Suc_I2 dest: relpowp_Suc_D2)

lemma steps_0 [simp]: "steps P cs A 0 x y \<longleftrightarrow> x = y"
  by (auto simp: steps_def)

lemma steps_outside: "snd x \<notin> A \<Longrightarrow> steps P cs A n x y \<Longrightarrow> x = y"
  by (cases n) (auto simp: steps_Suc step_in_def)

lemma path_outside: "snd x \<notin> A \<Longrightarrow> path P cs A x y \<longleftrightarrow> x = y"
  using steps_outside [of x A P cs] path_refl by (metis path_steps)

text \<open>A path that leaves \<open>A\<close> leaves any part of it first.\<close>
lemma first_exit:
  "steps P cs A n x y \<Longrightarrow> snd y \<notin> A \<Longrightarrow> B \<subseteq> A \<Longrightarrow>
     \<exists>z k. k \<le> n \<and> path P cs B x z \<and> snd z \<notin> B \<and> steps P cs A k z y"
proof (induction n arbitrary: x)
  case (Suc n)
  show ?case
  proof (cases "snd x \<in> B")
    case True
    obtain x' where x': "step_in P cs A x x'" "steps P cs A n x' y" using Suc.prems(1) by (auto simp: steps_Suc)
    from Suc.IH [OF x'(2) Suc.prems(2,3)] obtain z k where
      z: "k \<le> n" "path P cs B x' z" "snd z \<notin> B" "steps P cs A k z y" by blast
    have "path P cs B x z"
      using x'(1) True z(2) unfolding path_def step_in_def by (blast intro: converse_rtranclp_into_rtranclp)
    then show ?thesis using z by (blast intro: le_SucI)
  next
    case False
    then show ?thesis using Suc.prems(1) path_refl [of P cs B x] by blast
  qed
next
  case 0
  then have "path P cs B x x \<and> snd x \<notin> B \<and> steps P cs A 0 x y" by auto
  then show ?case by blast
qed

section \<open>Stretches of code\<close>

text \<open>Entered at \<open>p\<close>, control leaves \<open>B\<close> only towards \<open>e\<close>, having consumed what \<open>L\<close> relates.\<close>
definition exits :: "nfa \<Rightarrow> u8 list \<Rightarrow> nat set \<Rightarrow> nat \<Rightarrow> nat \<Rightarrow> (nat \<Rightarrow> nat \<Rightarrow> bool) \<Rightarrow> bool" where
  "exits P cs B p e L \<longleftrightarrow> (\<forall>i j q. q \<notin> B \<longrightarrow> path P cs B (i, p) (j, q) = (q = e \<and> L i j))"

lemma exits_outside: "p \<notin> B \<Longrightarrow> exits P cs B p p (=)"
  by (auto simp: exits_def path_outside)

lemma exits_steps:
  assumes "exits P cs B p e L" "B \<subseteq> A" "q \<notin> A" "steps P cs A n (i, p) (j, q)"
  shows "\<exists>k n'. n' \<le> n \<and> L i k \<and> steps P cs A n' (k, e) (j, q)"
proof -
  obtain z n' where z: "n' \<le> n" "path P cs B (i, p) z" "snd z \<notin> B" "steps P cs A n' z (j, q)"
    using first_exit [OF assms(4) _ assms(2)] assms(3) by auto
  then have "snd z = e \<and> L i (fst z)" using assms(1) by (cases z) (simp add: exits_def)
  then show ?thesis using z by (metis prod.collapse)
qed

text \<open>A stretch inside a larger one acts like one instruction that leads to its exit.\<close>
lemma exits_run:
  assumes "exits P cs B p e L" "B \<subseteq> A" "q \<notin> A" "e \<notin> B"
  shows "path P cs A (i, p) (j, q) \<longleftrightarrow> (\<exists>k. L i k \<and> path P cs A (k, e) (j, q))"
proof
  assume "path P cs A (i, p) (j, q)"
  then show "\<exists>k. L i k \<and> path P cs A (k, e) (j, q)"
    using exits_steps [OF assms(1-3)] unfolding path_steps by blast
next
  assume "\<exists>k. L i k \<and> path P cs A (k, e) (j, q)"
  then obtain k where k: "L i k" "path P cs A (k, e) (j, q)" by blast
  then have "path P cs B (i, p) (k, e)" using assms(1,4) by (simp add: exits_def)
  then show "path P cs A (i, p) (j, q)" using k(2) path_mono [OF _ assms(2)] path_trans by blast
qed

lemma path_at:
  assumes "p \<in> A" "q \<notin> A"
  shows "path P cs A (i, p) (j, q) \<longleftrightarrow> (\<exists>y. nfa_step P cs (i, p) y \<and> path P cs A y (j, q))"
proof
  assume "path P cs A (i, p) (j, q)"
  then show "\<exists>y. nfa_step P cs (i, p) y \<and> path P cs A y (j, q)"
    using assms unfolding path_def by (cases rule: converse_rtranclpE) (auto simp: step_in_def)
next
  assume "\<exists>y. nfa_step P cs (i, p) y \<and> path P cs A y (j, q)"
  then show "path P cs A (i, p) (j, q)"
    using assms unfolding path_def by (auto simp: step_in_def intro: converse_rtranclp_into_rtranclp)
qed

text \<open>Steps of the instructions that only direct control.\<close>
lemma step_fork: "nfa_decode (pgm P ! p) = I_Fork t \<Longrightarrow> nfa_step P cs (i, p) y \<longleftrightarrow> y = (i, Suc p) \<or> y = (i, t)"
  and step_jmp: "nfa_decode (pgm P ! p) = I_Jmp t \<Longrightarrow> nfa_step P cs (i, p) y \<longleftrightarrow> y = (i, t)"
  by (cases y; auto simp: nfa_step_def eps_succ_def consumes_def)+

text \<open>One instruction that leads nowhere but to the next.\<close>
lemma exits_single:
  assumes "\<And>i y. nfa_step P cs (i, s) y \<Longrightarrow> snd y = Suc s"
  shows "exits P cs {s..<Suc s} s (Suc s) (\<lambda>i j. nfa_step P cs (i, s) (j, Suc s))"
proof -
  have "path P cs {s..<Suc s} (i, s) (j, q) \<longleftrightarrow> q = Suc s \<and> nfa_step P cs (i, s) (j, Suc s)"
    if "q \<notin> {s..<Suc s}" for i j q
  proof -
    have "path P cs {s..<Suc s} (i, s) (j, q) \<longleftrightarrow>
        (\<exists>y. nfa_step P cs (i, s) y \<and> path P cs {s..<Suc s} y (j, q))"
      by (rule path_at) (use that in auto)
    also have "\<dots> \<longleftrightarrow> (\<exists>y. nfa_step P cs (i, s) y \<and> y = (j, q))"
    proof -
      have "path P cs {s..<Suc s} y (j, q) \<longleftrightarrow> y = (j, q)" if "nfa_step P cs (i, s) y" for y
        using assms [OF that] by (intro path_outside) simp
      then show ?thesis by blast
    qed
    also have "\<dots> \<longleftrightarrow> nfa_step P cs (i, s) (j, q)" by blast
    finally show ?thesis using assms [of i "(j, q)"] by auto
  qed
  then show ?thesis by (simp add: exits_def)
qed

text \<open>One stretch after another.\<close>
lemma exits_seq:
  assumes 1: "exits P cs {s..<m} s m L1" and 2: "exits P cs {m..<e} m e L2" and le: "s \<le> m" "m \<le> e"
  shows "exits P cs {s..<e} s e (L1 OO L2)"
proof -
  have "path P cs {s..<e} (i, s) (j, q) \<longleftrightarrow> q = e \<and> (L1 OO L2) i j" if "q \<notin> {s..<e}" for i j q
    using exits_run [OF 1 _ that] exits_run [OF 2 _ that] le by (auto simp: path_outside)
  then show ?thesis by (simp add: exits_def)
qed

text \<open>A fork over a stretch.\<close>
lemma exits_optional:
  assumes fork: "nfa_decode (pgm P ! s) = I_Fork e" and child: "exits P cs {Suc s..<e} (Suc s) e L" and le: "s < e"
  shows "exits P cs {s..<e} s e (\<lambda>i j. i = j \<or> L i j)"
proof -
  have "path P cs {s..<e} (i, s) (j, q) \<longleftrightarrow> q = e \<and> (i = j \<or> L i j)" if "q \<notin> {s..<e}" for i j q
  proof -
    have "path P cs {s..<e} (i, s) (j, q) \<longleftrightarrow>
        path P cs {s..<e} (i, Suc s) (j, q) \<or> path P cs {s..<e} (i, e) (j, q)"
      using path_at [OF _ that, of s] le step_fork [OF fork] by auto
    then show ?thesis using exits_run [OF child _ that, of i j] by (auto simp: path_outside)
  qed
  then show ?thesis by (simp add: exits_def)
qed

text \<open>A loop with the test first: a fork over a stretch and a jump back.\<close>
lemma exits_star:
  assumes fork: "nfa_decode (pgm P ! s) = I_Fork (Suc m)" and jmp: "nfa_decode (pgm P ! m) = I_Jmp s"
    and child: "exits P cs {Suc s..<m} (Suc s) m L" and le: "s < m"
  shows "exits P cs {s..<Suc m} s (Suc m) L\<^sup>*\<^sup>*"
proof -
  let ?A = "{s..<Suc m}"
  have sound: "steps P cs ?A n (i, s) (j, q) \<Longrightarrow> q \<notin> ?A \<Longrightarrow> q = Suc m \<and> L\<^sup>*\<^sup>* i j" for n i j q
  proof (induction n arbitrary: i rule: less_induct)
    case (less n)
    obtain k where n: "n = Suc k" using less.prems le by (cases n) auto
    then obtain y where y: "nfa_step P cs (i, s) y" "steps P cs ?A k y (j, q)"
      using less.prems(1) by (auto simp: steps_Suc step_in_def)
    consider "y = (i, Suc m)" | "y = (i, Suc s)" using y(1) step_fork [OF fork] by blast
    then show ?case
    proof cases
      case 1
      then show ?thesis using steps_outside [OF _ y(2)] by simp
    next
      case 2
      then obtain l k' where l: "k' \<le> k" "L i l" "steps P cs ?A k' (l, m) (j, q)"
        using exits_steps [OF child _ less.prems(2)] y(2) le by fastforce
      then obtain k'' where "k' = Suc k''" "steps P cs ?A k'' (l, s) (j, q)"
        using less.prems(2) le step_jmp [OF jmp] by (cases k') (auto simp: steps_Suc step_in_def)
      then have "q = Suc m \<and> L\<^sup>*\<^sup>* l j" using less.IH [of k'' l] l(1) n less.prems(2) by simp
      then show ?thesis using l(2) by (auto intro: converse_rtranclp_into_rtranclp)
    qed
  qed
  have at_s: "path P cs ?A (k, s) (j, Suc m) \<longleftrightarrow> path P cs ?A (k, Suc m) (j, Suc m) \<or> path P cs ?A (k, Suc s) (j, Suc m)" for k j
    using path_at [of s ?A "Suc m"] le step_fork [OF fork] by auto
  have at_m: "path P cs ?A (k, m) (j, Suc m) \<longleftrightarrow> path P cs ?A (k, s) (j, Suc m)" for k j
    using path_at [of m ?A "Suc m"] le step_jmp [OF jmp] by auto
  have run: "path P cs ?A (i, Suc s) (j, Suc m) \<longleftrightarrow> (\<exists>k. L i k \<and> path P cs ?A (k, m) (j, Suc m))" for i j
    by (rule exits_run [OF child]) auto
  have complete: "path P cs ?A (i, s) (j, Suc m)" if "L\<^sup>*\<^sup>* i j" for i j
    using that
  proof (induction rule: converse_rtranclp_induct)
    case base
    then show ?case using at_s by simp
  next
    case (step i k)
    then show ?case using at_s at_m run by blast
  qed
  show ?thesis using sound complete unfolding exits_def path_steps by metis
qed

text \<open>A loop with the test last: a fork back to the start of a stretch.\<close>
lemma exits_plus:
  assumes fork: "nfa_decode (pgm P ! m) = I_Fork s" and child: "exits P cs {s..<m} s m L" and le: "s < m"
  shows "exits P cs {s..<Suc m} s (Suc m) L\<^sup>+\<^sup>+"
proof -
  let ?A = "{s..<Suc m}"
  have sub: "{s..<m} \<subseteq> ?A" by auto
  have sound: "steps P cs ?A n (i, s) (j, q) \<Longrightarrow> q \<notin> ?A \<Longrightarrow> q = Suc m \<and> L\<^sup>+\<^sup>+ i j" for n i j q
  proof (induction n arbitrary: i rule: less_induct)
    case (less n)
    obtain l k where l: "k \<le> n" "L i l" "steps P cs ?A k (l, m) (j, q)"
      using exits_steps [OF child sub less.prems(2,1)] by blast
    then obtain k' y where k: "k = Suc k'" "nfa_step P cs (l, m) y" "steps P cs ?A k' y (j, q)"
      using less.prems(2) le by (cases k) (auto simp: steps_Suc step_in_def)
    consider "y = (l, Suc m)" | "y = (l, s)" using k(2) step_fork [OF fork] by blast
    then show ?case
    proof cases
      case 1
      then show ?thesis using steps_outside [OF _ k(3)] l(2) by auto
    next
      case 2
      then have "q = Suc m \<and> L\<^sup>+\<^sup>+ l j" using less.IH [of k' l] l(1) k less.prems(2) by simp
      then show ?thesis using l(2) by (auto intro: tranclp_into_tranclp2)
    qed
  qed
  have run: "path P cs ?A (i, s) (j, Suc m) \<longleftrightarrow> (\<exists>k. L i k \<and> path P cs ?A (k, m) (j, Suc m))" for i j
    by (rule exits_run [OF child sub]) auto
  have at: "path P cs ?A (k, m) (j, Suc m) \<longleftrightarrow> path P cs ?A (k, Suc m) (j, Suc m) \<or> path P cs ?A (k, s) (j, Suc m)" for k j
    using path_at [of m ?A "Suc m"] le step_fork [OF fork] by auto
  have complete: "path P cs ?A (i, s) (j, Suc m)" if "L\<^sup>+\<^sup>+ i j" for i j
    using that
  proof (induction rule: converse_tranclp_induct)
    case (base i)
    then show ?case using run at path_refl by blast
  next
    case (step i k)
    then show ?case using run at by blast
  qed
  show ?thesis using sound complete unfolding exits_def path_steps by metis
qed

text \<open>One more alternative: a fork over the first one and the jump behind it, which leads into the
  rest to a place from where control only goes to the end.\<close>
lemma exits_alternative:
  assumes fork: "nfa_decode (pgm P ! s) = I_Fork (Suc m)" and jmp: "nfa_decode (pgm P ! m) = I_Jmp x"
    and child: "exits P cs {Suc s..<m} (Suc s) m L1" and le: "s < m" "Suc m \<le> e"
    and rest: "exits P cs {Suc m..<e} (Suc m) e L2" "exits P cs {Suc m..<e} x e (=)"
  shows "exits P cs {s..<e} s e (\<lambda>i j. L1 i j \<or> L2 i j)" and "exits P cs {s..<e} m e (=)"
proof -
  have m: "path P cs {s..<e} (i, m) (j, q) \<longleftrightarrow> q = e \<and> i = j" if "q \<notin> {s..<e}" for i j q
    using path_at [OF _ that, of m P cs i j] le step_jmp [OF jmp] exits_run [OF rest(2) _ that, of i j] that
    by (auto simp: path_outside)
  then show "exits P cs {s..<e} m e (=)" by (simp add: exits_def)
  have "path P cs {s..<e} (i, s) (j, q) \<longleftrightarrow> q = e \<and> (L1 i j \<or> L2 i j)" if "q \<notin> {s..<e}" for i j q
  proof -
    have "path P cs {s..<e} (i, s) (j, q) \<longleftrightarrow>
        path P cs {s..<e} (i, Suc s) (j, q) \<or> path P cs {s..<e} (i, Suc m) (j, q)"
      using path_at [OF _ that, of s] le step_fork [OF fork] by auto
    then show ?thesis
      using exits_run [OF child _ that, of i j] exits_run [OF rest(1) _ that, of i j] m [OF that] le
      by (auto simp: path_outside)
  qed
  then show "exits P cs {s..<e} s e (\<lambda>i j. L1 i j \<or> L2 i j)" by (simp add: exits_def)
qed

section \<open>Pieces of a pattern\<close>

text \<open>A piece of a pattern is entered at its start, left at its end, and does not end a match.\<close>
definition stretch :: "nfa \<Rightarrow> u8 list \<Rightarrow> nat \<Rightarrow> nat \<Rightarrow> (nat \<Rightarrow> nat \<Rightarrow> bool) \<Rightarrow> bool" where
  "stretch P cs s e L \<longleftrightarrow> exits P cs {s..<e} s e L \<and> (\<forall>p \<in> {s..<e}. \<not> is_match P p)"

lemma stretch_empty: "stretch P cs s s (=)"
  by (simp add: stretch_def exits_outside)

lemma is_match_other [simp]:
  "nfa_decode (pgm P ! p) = I_Fork t \<Longrightarrow> \<not> is_match P p"
  "nfa_decode (pgm P ! p) = I_Jmp t \<Longrightarrow> \<not> is_match P p"
  by (simp_all add: is_match_def)

lemma stretch_seq:
  "stretch P cs s m L1 \<Longrightarrow> stretch P cs m e L2 \<Longrightarrow> s \<le> m \<Longrightarrow> m \<le> e \<Longrightarrow> stretch P cs s e (L1 OO L2)"
  unfolding stretch_def using exits_seq [of P cs s m L1 e L2] by fastforce

lemma stretch_insn:
  assumes "\<And>i y. nfa_step P cs (i, s) y \<longleftrightarrow> (\<exists>j. y = (j, Suc s) \<and> L i j)" "\<not> is_match P s"
  shows "stretch P cs s (Suc s) L"
proof -
  have "(\<lambda>i j. nfa_step P cs (i, s) (j, Suc s)) = L" using assms by auto
  then show ?thesis using exits_single [of P cs s] assms by (auto simp: stretch_def)
qed

lemma stretch_optional:
  "nfa_decode (pgm P ! s) = I_Fork e \<Longrightarrow> stretch P cs (Suc s) e L \<Longrightarrow> s < e \<Longrightarrow>
   stretch P cs s e (\<lambda>i j. i = j \<or> L i j)"
  unfolding stretch_def
  by (auto intro: exits_optional dest: is_match_other) (metis Suc_leI atLeastLessThan_iff is_match_other(1) le_neq_implies_less)

lemma stretch_star:
  "nfa_decode (pgm P ! s) = I_Fork (Suc m) \<Longrightarrow> nfa_decode (pgm P ! m) = I_Jmp s \<Longrightarrow>
   stretch P cs (Suc s) m L \<Longrightarrow> s < m \<Longrightarrow> stretch P cs s (Suc m) L\<^sup>*\<^sup>*"
  unfolding stretch_def
  by (auto intro: exits_star) (metis Suc_leI atLeastLessThan_iff is_match_other le_neq_implies_less less_antisym)

lemma stretch_plus:
  "nfa_decode (pgm P ! m) = I_Fork s \<Longrightarrow> stretch P cs s m L \<Longrightarrow> s < m \<Longrightarrow> stretch P cs s (Suc m) L\<^sup>+\<^sup>+"
  unfolding stretch_def
  by (auto intro: exits_plus) (metis atLeastLessThan_iff is_match_other(1) less_antisym)

lemma stretch_alternative:
  assumes "nfa_decode (pgm P ! s) = I_Fork (Suc m)" "nfa_decode (pgm P ! m) = I_Jmp x"
    and "stretch P cs (Suc s) m L1" "s < m" "Suc m \<le> e"
    and "stretch P cs (Suc m) e L2" "exits P cs {Suc m..<e} x e (=)"
  shows "stretch P cs s e (\<lambda>i j. L1 i j \<or> L2 i j) \<and> exits P cs {s..<e} m e (=)"
proof -
  have "\<not> is_match P p" if p: "p \<in> {s..<e}" for p
  proof -
    have "p = s \<or> p \<in> {Suc s..<m} \<or> p = m \<or> p \<in> {Suc m..<e}" using p by auto
    then show ?thesis using assms by (auto simp: stretch_def)
  qed
  then show ?thesis using exits_alternative [of P s m x cs L1 e L2] assms by (simp add: stretch_def)
qed

end
