(* ===== verification/Aem_Lang.thy ===== *)
theory Aem_Lang
  imports Aem_Compile Aem_Fragment
begin

text \<open>
  What a compiled pattern accepts: the meaning of a pattern's tree, the proof that the code
  generator of \<open>nfa-compile.c\<close> produces code with that meaning, and what it gives for whole regular
  expressions and literal strings.
\<close>

section \<open>The meaning of a tree\<close>

text \<open>A range stores bounds as bytes; a bound above 255 becomes 255.\<close>
definition byte_of_code :: "u32 \<Rightarrow> u8" where
  "byte_of_code w = (if drop_bit 8 w \<noteq> 0 then 0xff else ucast w)"

text \<open>One byte of the input between two bounds, one byte in a class, a boundary of a class.\<close>
definition range_lang :: "u8 list \<Rightarrow> u8 \<Rightarrow> u8 \<Rightarrow> nat \<Rightarrow> nat \<Rightarrow> bool" where
  "range_lang cs lo hi i j \<longleftrightarrow> i < length cs \<and> j = Suc i \<and> lo \<le> cs ! i \<and> cs ! i \<le> hi"

definition class_lang :: "u8 list \<Rightarrow> aem_nfa_cclass \<Rightarrow> bool \<Rightarrow> bool \<Rightarrow> nat \<Rightarrow> nat \<Rightarrow> bool" where
  "class_lang cs cc neg frontier i j \<longleftrightarrow>
     (if frontier then j = i \<and> aem_nfa_cclass_match neg (cclass_code cc) (char_at cs i) \<and>
        \<not> aem_nfa_cclass_match neg (cclass_code cc) (char_before cs i)
      else i < length cs \<and> j = Suc i \<and> aem_nfa_cclass_match neg (cclass_code cc) (char_at cs i))"

text \<open>The bytes of a rune. A byte above 127 is a negative \<open>char\<close> and is compared with 255.\<close>
definition atom_byte :: "u8 \<Rightarrow> u8" where
  "atom_byte b = byte_of_code (word_of_int (schar b))"

definition seq_lang :: "(nat \<Rightarrow> nat \<Rightarrow> bool) list \<Rightarrow> nat \<Rightarrow> nat \<Rightarrow> bool" where
  "seq_lang Ls = foldr (OO) Ls (=)"

definition atom_lang :: "u8 list \<Rightarrow> u32 \<Rightarrow> nat \<Rightarrow> nat \<Rightarrow> bool" where
  "atom_lang cs c = seq_lang (map (\<lambda>b. range_lang cs (atom_byte b) (atom_byte b)) (utf8_encode c))"

definition repeat_lang :: "u32 \<Rightarrow> u32 \<Rightarrow> (nat \<Rightarrow> nat \<Rightarrow> bool) \<Rightarrow> nat \<Rightarrow> nat \<Rightarrow> bool" where
  "repeat_lang mn mx L i j \<longleftrightarrow> (\<exists>k. unat mn \<le> k \<and> (mx = UINT_MAX \<or> k \<le> unat mx) \<and> (L ^^ k) i j)"

text \<open>The tree matches the bytes of \<open>cs\<close> from one position to another. An alternation without
  alternatives, which the parser makes of an unfinished bracket expression, matches nothing
  consumed.\<close>
fun node_lang :: "u8 list \<Rightarrow> nfa_node \<Rightarrow> nat \<Rightarrow> nat \<Rightarrow> bool" where
  "node_lang cs (Node args txt children) =
     (let Ls = map (\<lambda>c. node_lang cs c) children in
      case args of
        AEM_NFA_NODE_RANGE mn mx \<Rightarrow> range_lang cs (byte_of_code mn) (byte_of_code mx)
      | AEM_NFA_NODE_ATOM c \<Rightarrow> atom_lang cs c
      | AEM_NFA_NODE_CLASS cc neg frontier \<Rightarrow> class_lang cs cc neg frontier
      | AEM_NFA_NODE_CAPTURE k \<Rightarrow> hd Ls
      | AEM_NFA_NODE_REPEAT mn mx reluctant \<Rightarrow> repeat_lang mn mx (hd Ls)
      | AEM_NFA_NODE_BRANCH \<Rightarrow> seq_lang Ls
      | AEM_NFA_NODE_ALTERNATION \<Rightarrow> (\<lambda>i j. Ls = [] \<and> i = j \<or> (\<exists>L \<in> set Ls. L i j)))"

text \<open>Whether the generator emits anything for a tree, and whether it can compile it: no repetition in it
  is reluctant. It does not get as far as to look at the child of \<open>{0}\<close>, nor, for a child without code that
  is repeated at least once, at what kind of repetition it is.\<close>
fun emits_code :: "nfa_node \<Rightarrow> bool" where
  "emits_code (Node args txt children) =
     (case args of
        AEM_NFA_NODE_REPEAT mn mx reluctant \<Rightarrow>
          if mn \<noteq> 0 then list_ex (\<lambda>c. emits_code c) children else mx \<noteq> 0
      | AEM_NFA_NODE_BRANCH \<Rightarrow> list_ex (\<lambda>c. emits_code c) children
      | AEM_NFA_NODE_ALTERNATION \<Rightarrow> 2 \<le> length children \<or> list_ex (\<lambda>c. emits_code c) children
      | _ \<Rightarrow> True)"

fun compilable :: "nfa_node \<Rightarrow> bool" where
  "compilable (Node args txt children) \<longleftrightarrow>
     (case args of
        AEM_NFA_NODE_REPEAT mn mx reluctant \<Rightarrow>
          mn \<le> mx \<and>
          (if mx = 0 then \<not> reluctant
           else list_all (\<lambda>c. compilable c) children \<and>
             (reluctant \<longrightarrow> mn \<noteq> 0 \<and> \<not> list_ex (\<lambda>c. emits_code c) children))
      | _ \<Rightarrow> list_all (\<lambda>c. compilable c) children)"

text \<open>An error in an alternative is lost (\<open>aem_nfa_node_compile\<close> does not look at the result of
  \<open>aem_nfa_node_gen_alternation\<close>); every other is reported.\<close>
fun errors_kept :: "nfa_node \<Rightarrow> bool" where
  "errors_kept (Node args txt children) \<longleftrightarrow>
     list_all (\<lambda>c. errors_kept c) children \<and>
     (args = AEM_NFA_NODE_ALTERNATION \<longrightarrow> list_all compilable children)"

section \<open>Generated code\<close>

text \<open>The program \<open>P\<close> contains the code that was emitted between two contexts.\<close>
definition has_code :: "nfa \<Rightarrow> compile_ctx \<Rightarrow> compile_ctx \<Rightarrow> bool" where
  "has_code P ctx ctx' \<longleftrightarrow> (\<forall>p \<in> {cc_n ctx..<cc_n ctx'}. pgm P ! p = pgm (cc_nfa ctx') ! p)"

text \<open>A generator succeeds, returns where its code starts, emits code or not as \<open>em\<close> says, and its
  code has the meaning \<open>L\<close> in every program that contains it.\<close>
definition gen_lang :: "u8 list \<Rightarrow> bool \<Rightarrow> (nat \<Rightarrow> nat \<Rightarrow> bool) \<Rightarrow> node_gen \<Rightarrow> bool" where
  "gen_lang cs em L g \<longleftrightarrow> (\<forall>ctx r ctx' P. nfa_store (cc_nfa ctx) \<longrightarrow> g ctx = Some (r, ctx') \<longrightarrow> cc_n ctx' < 2 ^ 29 \<longrightarrow>
     r = cc_n ctx \<and> (em \<longleftrightarrow> cc_n ctx < cc_n ctx') \<and> (has_code P ctx ctx' \<longrightarrow>
       stretch P cs (cc_n ctx) (cc_n ctx') L))"

lemma gen_langD:
  assumes "gen_lang cs em L g" "g ctx = Some (r, ctx')" "nfa_store (cc_nfa ctx)" "cc_n ctx' < 2 ^ 29"
  shows "r = cc_n ctx" "em \<longleftrightarrow> cc_n ctx < cc_n ctx'"
    "has_code P ctx ctx' \<Longrightarrow> stretch P cs (cc_n ctx) (cc_n ctx') L"
  using assms unfolding gen_lang_def by blast+

lemma cc_n_less: "nfa_store (cc_nfa ctx) \<Longrightarrow> cc_n ctx \<noteq> AEM_NFA_PARSE_ERROR"
  by (auto simp: nfa_store_def cc_n_def AEM_NFA_PARSE_ERROR_def)

text \<open>Code emitted earlier is still there later.\<close>
lemma has_code_before:
  assumes "has_code P ctx ctx2" "gen_step K (cc_n ctx1) ctx1 ctx2" "cc_n ctx \<le> cc_n ctx1"
  shows "has_code P ctx ctx1" "has_code P ctx1 ctx2"
  using assms by (auto simp: has_code_def gen_step_def cc_frame_def)

lemma put_code:
  assumes "cc_put m ctx i insn = Some ctx'" "nfa_store (cc_nfa ctx)" "i \<le> cc_n ctx"
  shows "pgm (cc_nfa ctx') ! i = insn" "p < cc_n ctx \<Longrightarrow> p \<noteq> i \<Longrightarrow> pgm (cc_nfa ctx') ! p = pgm (cc_nfa ctx) ! p"
    "nfa_store (cc_nfa ctx')" "cc_n ctx' = max (cc_n ctx) (Suc i)"
proof -
  obtain nfa j where put: "aem_nfa_put_insn m (cc_nfa ctx) i insn = Some (j, nfa)" "ctx' = ctx\<lparr>cc_nfa := nfa\<rparr>"
    using assms(1) by (auto simp: cc_put_def bind_eq_Some_conv)
  have "i < 2 ^ 64" "n_insns (cc_nfa ctx) \<le> alloc_insns (cc_nfa ctx)"
    using assms(2,3) by (simp_all add: nfa_store_def cc_n_def)
  then have "put_effect (cc_nfa ctx) i insn nfa" "n_insns (cc_nfa ctx) \<le> alloc_insns (cc_nfa ctx)"
    using put_insn_effect [OF assms(2) put(1)] by simp_all
  then show "pgm (cc_nfa ctx') ! i = insn" "nfa_store (cc_nfa ctx')" "cc_n ctx' = max (cc_n ctx) (Suc i)"
    "p < cc_n ctx \<Longrightarrow> p \<noteq> i \<Longrightarrow> pgm (cc_nfa ctx') ! p = pgm (cc_nfa ctx) ! p"
    using put(2) by (simp_all add: put_effect_def cc_n_def)
qed

lemma append_code:
  assumes "cc_append m ctx insn = Some (i, ctx')" "nfa_store (cc_nfa ctx)"
  shows "i = cc_n ctx" "cc_n ctx' = Suc (cc_n ctx)" "pgm (cc_nfa ctx') ! cc_n ctx = insn"
    "p < cc_n ctx \<Longrightarrow> pgm (cc_nfa ctx') ! p = pgm (cc_nfa ctx) ! p" "nfa_store (cc_nfa ctx')"
proof -
  obtain nfa where a: "aem_nfa_put_insn m (cc_nfa ctx) (cc_n ctx) insn = Some (i, nfa)" "ctx' = ctx\<lparr>cc_nfa := nfa\<rparr>"
    using assms(1) by (auto simp: cc_append_def aem_nfa_append_insn_def bind_eq_Some_conv cc_n_def)
  have "cc_n ctx < 2 ^ 64" using assms(2) by (simp add: nfa_store_def cc_n_def)
  from put_insn_effect [OF assms(2) a(1) this] show "i = cc_n ctx" by simp
  have p: "cc_put m ctx (cc_n ctx) insn = Some ctx'" using a by (simp add: cc_put_def)
  note put_code [OF p assms(2) order_refl]
  then show "cc_n ctx' = Suc (cc_n ctx)" "pgm (cc_nfa ctx') ! cc_n ctx = insn"
    "p < cc_n ctx \<Longrightarrow> pgm (cc_nfa ctx') ! p = pgm (cc_nfa ctx) ! p" "nfa_store (cc_nfa ctx')" by simp_all
qed

lemma debug_code [simp]:
  "pgm (cc_nfa (re_set_debug ctx i t)) = pgm (cc_nfa ctx)" "cc_n (re_set_debug ctx i t) = cc_n ctx"
  "nfa_store (cc_nfa (re_set_debug ctx i t)) = nfa_store (cc_nfa ctx)"
  by (simp_all add: re_set_debug_def aem_nfa_set_dbg_def cc_n_def nfa_store_def)

lemma has_code_debug [simp]:
  "has_code P ctx (re_set_debug ctx' i t) = has_code P ctx ctx'"
  "has_code P (re_set_debug ctx i t) ctx' = has_code P ctx ctx'"
  by (simp_all add: has_code_def)

section \<open>Leaves\<close>

lemma decode_insn_range: "nfa_decode (aem_nfa_insn_range a b) = I_Range (byte_of_code a) (byte_of_code b)"
proof -
  have byte: "(if drop_bit 8 w \<noteq> 0 then 0xff else w) = (ucast (byte_of_code w) :: u32)" for w :: u32
  proof (cases "drop_bit 8 w = 0")
    case True
    have "ucast (ucast w :: u8) = take_bit 8 w" by (rule bit_word_eqI) (auto simp: bit_simps)
    also have "\<dots> = w" using True by (metis add_0 bits_ident push_bit_of_0)
    finally show ?thesis using True by (simp add: byte_of_code_def)
  qed (simp add: byte_of_code_def)
  have "drop_bit 8 (ucast x :: u32) = 0" for x :: u8
    by (rule bit_word_eqI) (auto simp: bit_simps dest: bit_imp_le_length)
  then have small: "byte_of_code (ucast x) = x" for x :: u8 by (simp add: byte_of_code_def)
  have "aem_nfa_insn_range a b = aem_nfa_insn_range (ucast (byte_of_code a)) (ucast (byte_of_code b))"
    unfolding aem_nfa_insn_range_def Let_def byte small ..
  then show ?thesis by (simp add: decode_range)
qed

lemma step_range:
  "nfa_decode (pgm P ! p) = I_Range lo hi \<Longrightarrow>
     nfa_step P cs (i, p) y \<longleftrightarrow> (\<exists>j. y = (j, Suc p) \<and> range_lang cs lo hi i j)"
  by (cases y) (auto simp: nfa_step_def eps_succ_def consumes_def range_lang_def char_at_def uchar_def word_le_def)

lemma step_class:
  "nfa_decode (pgm P ! p) = I_Class neg frontier (cclass_code cc) \<Longrightarrow>
     nfa_step P cs (i, p) y \<longleftrightarrow> (\<exists>j. y = (j, Suc p) \<and> class_lang cs cc neg frontier i j)"
  by (cases y) (auto simp: nfa_step_def eps_succ_def consumes_def class_lang_def)

lemma step_capture:
  "nfa_decode (pgm P ! p) = I_Capture fin k \<Longrightarrow> nfa_step P cs (i, p) y \<longleftrightarrow> (\<exists>j. y = (j, Suc p) \<and> i = j)"
  by (cases y) (auto simp: nfa_step_def eps_succ_def consumes_def)

lemma append_stretch:
  assumes a: "cc_append m ctx insn = Some (k, ctx1)" and st: "nfa_store (cc_nfa ctx)"
    and nm: "\<And>i. nfa_decode insn \<noteq> I_Match i"
    and insn: "\<And>P p i y. pgm P ! p = insn \<Longrightarrow> nfa_step P cs (i, p) y \<longleftrightarrow> (\<exists>j. y = (j, Suc p) \<and> L i j)"
    and code: "has_code P ctx ctx1"
  shows "stretch P cs (cc_n ctx) (cc_n ctx1) L"
proof -
  have "pgm P ! cc_n ctx = insn" using code append_code(2,3) [OF a st] by (simp add: has_code_def)
  then show ?thesis using stretch_insn [of P cs "cc_n ctx" L] insn append_code(2) [OF a st] nm
    by (simp add: is_match_def)
qed

lemma range_gen_lang:
  assumes nm: "\<And>i. nfa_decode insn \<noteq> I_Match i"
    and insn: "\<And>P p i y. pgm P ! p = insn \<Longrightarrow> nfa_step P cs (i, p) y \<longleftrightarrow> (\<exists>j. y = (j, Suc p) \<and> L i j)"
  shows "gen_lang cs True L (\<lambda>ctx. gen_result (cc_n ctx) (range_gen m txt insn ctx))"
  unfolding gen_lang_def
proof (intro allI impI)
  fix ctx r ctx' P
  assume st: "nfa_store (cc_nfa ctx)" and res: "gen_result (cc_n ctx) (range_gen m txt insn ctx) = Some (r, ctx')"
  then obtain i ctx1 where a: "cc_append m ctx insn = Some (i, ctx1)" "ctx' = re_set_debug ctx1 i txt" "r = cc_n ctx"
    by (auto simp: gen_result_def range_gen_def bind_eq_Some_conv)
  show "r = cc_n ctx \<and> (True \<longleftrightarrow> cc_n ctx < cc_n ctx') \<and>
      (has_code P ctx ctx' \<longrightarrow> stretch P cs (cc_n ctx) (cc_n ctx') L)"
    using append_stretch [OF a(1) st nm insn] append_code(2) [OF a(1) st] a(2,3) by simp
qed

lemma seq_lang_simps [simp]: "seq_lang [] = (=)" "seq_lang (L # Ls) = L OO seq_lang Ls"
  by (simp_all add: seq_lang_def)

lemma bytes_gen_lang:
  "bytes_gen m txt bs ctx = Some ctx' \<Longrightarrow> nfa_store (cc_nfa ctx) \<Longrightarrow>
     cc_n ctx' = cc_n ctx + length bs \<and> (has_code P ctx ctx' \<longrightarrow>
       stretch P cs (cc_n ctx) (cc_n ctx')
         (seq_lang (map (\<lambda>b. range_lang cs (atom_byte b) (atom_byte b)) bs)))"
proof (induction bs arbitrary: ctx)
  case Nil
  then show ?case using stretch_empty by auto
next
  case (Cons b bs)
  obtain i ctx1 where a: "cc_append m ctx (aem_nfa_insn_char (word_of_int (schar b))) = Some (i, ctx1)"
    "bytes_gen m txt bs (re_set_debug ctx1 i txt) = Some ctx'"
    using Cons.prems(1) by (auto simp: bind_eq_Some_conv)
  note a1 = append_code [OF a(1) Cons.prems(2)]
  have ih: "cc_n ctx' = Suc (cc_n ctx) + length bs"
    "has_code P ctx1 ctx' \<Longrightarrow> stretch P cs (Suc (cc_n ctx)) (cc_n ctx')
       (seq_lang (map (\<lambda>b. range_lang cs (atom_byte b) (atom_byte b)) bs))"
    using Cons.IH [OF a(2), unfolded debug_code has_code_debug a1(2)] a1(5) by blast+
  have "stretch P cs (cc_n ctx) (cc_n ctx')
      (seq_lang (map (\<lambda>b. range_lang cs (atom_byte b) (atom_byte b)) (b # bs)))" if code: "has_code P ctx ctx'"
  proof -
    have "gen_step 0 (cc_n ctx1) (re_set_debug ctx1 i txt) ctx'"
      using bytes_gen_step [OF a(2), of "cc_n ctx1"] a1(5) by simp
    then have "gen_step 0 (cc_n ctx1) ctx1 ctx'" using gen_step_trans a1(5) debug_step(1) by blast
    from has_code_before [OF code this] have code': "has_code P ctx ctx1" "has_code P ctx1 ctx'"
      using a1(2) by simp_all
    have "stretch P cs (cc_n ctx) (cc_n ctx1) (range_lang cs (atom_byte b) (atom_byte b))"
      by (rule append_stretch [OF a(1) Cons.prems(2) _ _ code'(1)])
        (simp_all add: step_range [of _ _ "atom_byte b" "atom_byte b"] aem_nfa_insn_char_def decode_insn_range atom_byte_def)
    then show ?thesis using stretch_seq [OF _ ih(2) [OF code'(2)]] a1(2) ih(1) by simp
  qed
  then show ?case using ih(1) by simp
qed

lemma atom_gen_lang:
  "gen_lang cs True (atom_lang cs c) (\<lambda>ctx. gen_result (cc_n ctx) (atom_gen m al txt c ctx))"
  unfolding gen_lang_def
proof (intro allI impI)
  fix ctx r ctx' P
  assume st: "nfa_store (cc_nfa ctx)" and res: "gen_result (cc_n ctx) (atom_gen m al txt c ctx) = Some (r, ctx')"
  let ?b = "AEM_STRINGBUF_ALLOCA (replicate 8 (al_junk al))"
  have "sb_inv ?b" by simp
  moreover have "\<not> sb_bad ?b \<and> length (sb_out ?b) + length (utf8_encode c) < sb_maxn ?b"
    using utf8_len_le [of c] by (simp add: AEM_STRINGBUF_ALLOCA_def sb_out_def length_utf8_encode)
  ultimately obtain buf where buf: "aem_stringbuf_put_rune al ?b c = Some buf" "sb_out buf = sb_out ?b @ utf8_encode c"
    using put_rune_emits [of al c] unfolding emits_def by (metis take_all_iff order_refl)
  have "ss_bytes (aem_stringslice_new_str 1 buf) = utf8_encode c"
    using buf(2) by (simp add: aem_stringslice_new_str_def aem_stringslice_new_len_def sb_out_def AEM_STRINGBUF_ALLOCA_def)
  then have "bytes_gen m txt (utf8_encode c) ctx = Some ctx'" "r = cc_n ctx"
    using res buf(1) by (auto simp: gen_result_def atom_gen_def)
  moreover from bytes_gen_lang [OF this(1) st, of P cs]
  have "cc_n ctx < cc_n ctx'" "has_code P ctx ctx' \<longrightarrow>
      stretch P cs (cc_n ctx) (cc_n ctx') (atom_lang cs c)"
    unfolding atom_lang_def by (simp add: length_utf8_encode, blast)
  ultimately show "r = cc_n ctx \<and> (True \<longleftrightarrow> cc_n ctx < cc_n ctx') \<and> (has_code P ctx ctx' \<longrightarrow>
      stretch P cs (cc_n ctx) (cc_n ctx') (atom_lang cs c))"
    by simp
qed

section \<open>Sequences and captures\<close>

lemma branch_gen_lang:
  assumes "\<forall>c \<in> set ns. gen_ok K (g c) \<and> gen_lang cs (em c) (L c) (g c)"
    and "branch_gen (map g ns) ctx = Some (ok, ctx')" "nfa_store (cc_nfa ctx)" "cc_n ctx' < 2 ^ 29"
  shows "ok \<and> ((\<exists>c \<in> set ns. em c) \<longleftrightarrow> cc_n ctx < cc_n ctx') \<and> (has_code P ctx ctx' \<longrightarrow>
    stretch P cs (cc_n ctx) (cc_n ctx') (seq_lang (map L ns)))"
  using assms
proof (induction ns arbitrary: ctx)
  case Nil
  then show ?case using stretch_empty by auto
next
  case (Cons c ns)
  note st = Cons.prems(3)
  have g: "gen_ok K (g c)" "gen_lang cs (em c) (L c) (g c)" using Cons.prems(1) by simp_all
  obtain r ctx1 where a: "g c ctx = Some (r, ctx1)"
    "(if r = AEM_NFA_PARSE_ERROR then Some (False, ctx1) else branch_gen (map g ns) ctx1) = Some (ok, ctx')"
    using Cons.prems(2) by (auto simp: bind_eq_Some_conv)
  have s1: "gen_step K (cc_n ctx) ctx ctx1" using gen_okD [where g = "g c", OF g(1) a(1) st order_refl] .
  note st1 = gen_step_store [OF s1]
  have s2: "gen_step K (cc_n ctx1) ctx1 ctx'"
    using a(2) branch_gen_step [of "map g ns" K ctx1 ok ctx' "cc_n ctx1"] Cons.prems(1) st1 gen_step_refl [OF st1]
    by (auto split: if_splits)
  have le: "cc_n ctx \<le> cc_n ctx1" "cc_n ctx1 \<le> cc_n ctx'" using gen_step_le [OF s1] gen_step_le [OF s2] .
  note l1 = gen_langD [OF g(2) a(1) st]
  have b: "branch_gen (map g ns) ctx1 = Some (ok, ctx')"
    using a(2) l1(1) cc_n_less [OF st] le Cons.prems(4) by simp
  have ih: "ok \<and> ((\<exists>c \<in> set ns. em c) \<longleftrightarrow> cc_n ctx1 < cc_n ctx') \<and> (has_code P ctx1 ctx' \<longrightarrow>
      stretch P cs (cc_n ctx1) (cc_n ctx') (seq_lang (map L ns)))"
    by (rule Cons.IH [OF _ b st1 Cons.prems(4)]) (use Cons.prems(1) in simp)
  have "stretch P cs (cc_n ctx) (cc_n ctx') (seq_lang (map L (c # ns)))"
    if code: "has_code P ctx ctx'"
  proof -
    note c = has_code_before [OF code s2 le(1)]
    show ?thesis using stretch_seq [of P cs "cc_n ctx" "cc_n ctx1"] l1(3) [of P] ih c le Cons.prems(4) by simp
  qed
  then show ?case using ih l1(2) le Cons.prems(4) by auto
qed

lemma relcompp_eq [simp]: "(=) OO L = L" "L OO (=) = L"
  by auto

lemma step_capture_insn:
  assumes "fin \<le> 1" "pgm P ! p = aem_nfa_insn_capture fin k"
  shows "nfa_step P cs (i, p) y \<longleftrightarrow> (\<exists>j. y = (j, Suc p) \<and> i = j)"
proof -
  obtain e k' where "nfa_decode (pgm P ! p) = I_Capture e k'" using decode_capture_le [of fin k] assms by auto
  then show ?thesis by (rule step_capture)
qed

lemma capture_no_match: "fin \<le> 1 \<Longrightarrow> nfa_decode (aem_nfa_insn_capture fin k) \<noteq> I_Match i"
  using decode_capture_le [of fin k] by auto

lemma capture_gen_lang:
  assumes g: "gen_ok K g" "gen_lang cs em L g" and k: "k < K"
  shows "gen_lang cs True L (\<lambda>ctx. gen_result (cc_n ctx) (capture_gen m txt k g ctx))"
  unfolding gen_lang_def
proof (intro allI impI)
  fix ctx r ctx' P
  assume st: "nfa_store (cc_nfa ctx)" and res: "gen_result (cc_n ctx) (capture_gen m txt k g ctx) = Some (r, ctx')"
    and bound: "cc_n ctx' < 2 ^ 29"
  obtain c0 ctx0 r1 ctx2 ok where a: "cc_append m ctx (aem_nfa_insn_capture 0 k) = Some (c0, ctx0)"
    "g (re_set_debug ctx0 c0 (ss_set_end txt (ss_start txt + 1))) = Some (r1, ctx2)"
    "(if r1 = AEM_NFA_PARSE_ERROR then Some (False, ctx2)
      else do { (c1, ctx3) \<leftarrow> cc_append m ctx2 (aem_nfa_insn_capture 1 k);
                Some (True, re_set_debug ctx3 c1 (ss_advance txt (length (ss_bytes txt) - 1))) }) = Some (ok, ctx')"
    "r = (if ok then cc_n ctx else AEM_NFA_PARSE_ERROR)"
    using res by (auto simp: gen_result_def capture_gen_def bind_eq_Some_conv)
  define ctx1 where "ctx1 = re_set_debug ctx0 c0 (ss_set_end txt (ss_start txt + 1))"
  note a0 = append_code [OF a(1) st]
  have st1: "nfa_store (cc_nfa ctx1)" "cc_n ctx1 = Suc (cc_n ctx)" using a0 by (simp_all add: ctx1_def)
  have a2: "g ctx1 = Some (r1, ctx2)" using a(2) by (simp add: ctx1_def)
  have s: "gen_step K (cc_n ctx1) ctx1 ctx2" using gen_okD [where g = g, OF g(1) a2 st1(1) order_refl] .
  note st2 = gen_step_store [OF s] and le = gen_step_le [OF s]
  have le': "cc_n ctx2 \<le> cc_n ctx'"
    using a(3) append_code(2) [OF _ st2] by (fastforce simp: bind_eq_Some_conv split: if_splits)
  note l = gen_langD [OF g(2) a2 st1(1)]
  have "r1 \<noteq> AEM_NFA_PARSE_ERROR" using l(1) cc_n_less [OF st1(1)] le' bound by simp
  then obtain c1 ctx3 where p: "cc_append m ctx2 (aem_nfa_insn_capture 1 k) = Some (c1, ctx3)" "ok"
    "ctx' = re_set_debug ctx3 c1 (ss_advance txt (length (ss_bytes txt) - 1))"
    using a(3) by (auto simp: bind_eq_Some_conv)
  note a3 = append_code [OF p(1) st2]
  have "stretch P cs (cc_n ctx) (cc_n ctx') L" if code: "has_code P ctx ctx'"
  proof -
    have code: "has_code P ctx ctx3" using code p(3) by simp
    have s3: "gen_step K (cc_n ctx2) ctx2 ctx3" using cc_append_step [OF p(1) st2] k by (simp add: insn_in_capture)
    have c2: "has_code P ctx ctx2" "has_code P ctx2 ctx3"
      using has_code_before [OF code s3] le st1(2) by simp_all
    have c1: "has_code P ctx ctx1" "has_code P ctx1 ctx2"
      using has_code_before [OF c2(1) s] st1(2) by simp_all
    have "stretch P cs (cc_n ctx) (cc_n ctx1) (=)"
      using append_stretch [OF a(1) st capture_no_match step_capture_insn [of 0]] c1(1) by (simp add: ctx1_def)
    then have "stretch P cs (cc_n ctx) (cc_n ctx2) ((=) OO L)"
      by (rule stretch_seq) (use l(3) [OF _ c1(2)] le le' bound st1(2) in simp_all)
    moreover have "stretch P cs (cc_n ctx2) (cc_n ctx3) (=)"
      using append_stretch [OF p(1) st2 capture_no_match step_capture_insn [of 1] c2(2)] by simp
    ultimately have "stretch P cs (cc_n ctx) (cc_n ctx3) (((=) OO L) OO (=))"
      by (rule stretch_seq) (use le st1(2) a3(2) in simp_all)
    then show ?thesis using p(3) by simp
  qed
  then show "r = cc_n ctx \<and> (True \<longleftrightarrow> cc_n ctx < cc_n ctx') \<and> (has_code P ctx ctx' \<longrightarrow>
      stretch P cs (cc_n ctx) (cc_n ctx') L)"
    using a(4) p(2) le le' st1(2) by simp
qed

section \<open>Repetitions\<close>

definition gen_entry :: "node_gen \<Rightarrow> bool" where
  "gen_entry g \<longleftrightarrow> (\<forall>ctx r ctx'. g ctx = Some (r, ctx') \<longrightarrow> r = AEM_NFA_PARSE_ERROR \<or> r = cc_n ctx)"

lemma relpowp_left: "R ^^ Suc k = R OO R ^^ k"
  by (metis relpowp.simps(2) relpowp_commute)

lemma repeat_gen_lang:
  assumes g: "gen_ok K g" "gen_lang cs em L g" "gen_entry g"
    and "repeat_gen g (Suc k) rep ctx = Some (r, ctx')" "nfa_store (cc_nfa ctx)" "cc_n ctx' < 2 ^ 29"
  shows "cc_n ctx \<le> r \<and> r \<le> cc_n ctx' \<and> (em \<longleftrightarrow> cc_n ctx < cc_n ctx') \<and> (em \<longleftrightarrow> r < cc_n ctx') \<and>
    (has_code P ctx ctx' \<longrightarrow> stretch P cs (cc_n ctx) (cc_n ctx') (L ^^ Suc k) \<and>
      stretch P cs (cc_n ctx) r (L ^^ k) \<and> stretch P cs r (cc_n ctx') L)"
  using assms(4-)
proof (induction k arbitrary: ctx rep)
  case 0
  then obtain r1 where a: "g ctx = Some (r1, ctx')" "r = (if r1 = AEM_NFA_PARSE_ERROR then AEM_NFA_PARSE_ERROR else r1)"
    by (auto simp: bind_eq_Some_conv split: if_splits)
  have s: "gen_step K (cc_n ctx) ctx ctx'" using gen_okD [where g = g, OF g(1) a(1) 0(2) order_refl] .
  show ?case using gen_langD [OF g(2) a(1) 0(2,3)] gen_step_le [OF s] a(2) cc_n_less [OF 0(2)]
      stretch_empty
    by simp
next
  case (Suc k)
  note st = Suc.prems(2)
  obtain r1 ctx1 where a: "g ctx = Some (r1, ctx1)"
    "(if r1 = AEM_NFA_PARSE_ERROR then Some (AEM_NFA_PARSE_ERROR, ctx1) else repeat_gen g (Suc k) r1 ctx1) = Some (r, ctx')"
    using Suc.prems(1) [unfolded repeat_gen.simps(2) [of g "Suc k"]]
    by (auto simp: bind_eq_Some_conv simp del: repeat_gen.simps)
  have s1: "gen_step K (cc_n ctx) ctx ctx1" using gen_okD [where g = g, OF g(1) a(1) st order_refl] .
  note st1 = gen_step_store [OF s1]
  have e: "r1 = AEM_NFA_PARSE_ERROR \<or> r1 = cc_n ctx" using g(3) a(1) by (simp add: gen_entry_def)
  have "gen_step K (cc_n ctx1) ctx1 ctx'" if "repeat_gen g (Suc k) r1 ctx1 = Some (r, ctx')" "r1 = cc_n ctx"
    using repeat_gen_step [OF g(1) that(1) st1 order_refl] that(2) gen_step_le [OF s1] g(3) by (simp add: gen_entry_def)
  then have s2: "gen_step K (cc_n ctx1) ctx1 ctx'" using a(2) e gen_step_refl [OF st1] by (auto split: if_splits)
  have le: "cc_n ctx \<le> cc_n ctx1" "cc_n ctx1 \<le> cc_n ctx'" using gen_step_le [OF s1] gen_step_le [OF s2] .
  then have b: "cc_n ctx1 < 2 ^ 29" using Suc.prems(3) by simp
  note l1 = gen_langD [OF g(2) a(1) st b]
  have rest: "repeat_gen g (Suc k) r1 ctx1 = Some (r, ctx')" using a(2) l1(1) cc_n_less [OF st] by simp
  note ih = Suc.IH [OF rest st1 Suc.prems(3)]
  have "stretch P cs (cc_n ctx) (cc_n ctx') (L ^^ Suc (Suc k)) \<and>
      stretch P cs (cc_n ctx) r (L ^^ Suc k) \<and> stretch P cs r (cc_n ctx') L"
    if code: "has_code P ctx ctx'"
  proof -
    note c = has_code_before [OF code s2 le(1)]
    have "stretch P cs (cc_n ctx) (cc_n ctx') (L OO L ^^ Suc k)"
      by (rule stretch_seq [OF l1(3) [OF c(1)]]) (use ih c(2) le in simp_all)
    moreover have "stretch P cs (cc_n ctx) r (L OO L ^^ k)"
      by (rule stretch_seq [OF l1(3) [OF c(1)]]) (use ih c(2) le in simp_all)
    ultimately show ?thesis using ih c(2) unfolding relpowp_left by blast
  qed
  then show ?case using ih l1(2) le by auto
qed

text \<open>A fork, a child, and the patch of the fork to a later place.\<close>
lemma fork_gen_lang:
  assumes g: "gen_ok K g" "gen_lang cs em L g"
    and a: "cc_append m ctx (aem_nfa_insn_fork 0) = Some (fork, ctx1)" "g ctx1 = Some (r, ctx2)"
    and st: "nfa_store (cc_nfa ctx)" and bound: "cc_n ctx2 < 2 ^ 29"
  shows "fork = cc_n ctx" "cc_n ctx1 = Suc (cc_n ctx)" "cc_n ctx < cc_n ctx2" "nfa_store (cc_nfa ctx2)"
    "r \<noteq> AEM_NFA_PARSE_ERROR" "em \<longleftrightarrow> Suc (cc_n ctx) < cc_n ctx2"
    "\<forall>p \<in> {Suc (cc_n ctx)..<cc_n ctx2}. pgm P ! p = pgm (cc_nfa ctx2) ! p \<Longrightarrow>
       stretch P cs (Suc (cc_n ctx)) (cc_n ctx2) L"
proof -
  note a1 = append_code [OF a(1) st]
  have s: "gen_step K (cc_n ctx1) ctx1 ctx2" using gen_okD [where g = g, OF g(1) a(2) a1(5) order_refl] .
  note l = gen_langD [OF g(2) a(2) a1(5) bound]
  show "fork = cc_n ctx" "cc_n ctx1 = Suc (cc_n ctx)" "nfa_store (cc_nfa ctx2)"
    using a1(1,2) gen_step_store [OF s] by simp_all
  show "cc_n ctx < cc_n ctx2" using gen_step_le [OF s] a1(2) by simp
  show "r \<noteq> AEM_NFA_PARSE_ERROR" using l(1) cc_n_less [OF a1(5)] by simp
  show "em \<longleftrightarrow> Suc (cc_n ctx) < cc_n ctx2" using l(2) a1(2) by simp
  show "stretch P cs (Suc (cc_n ctx)) (cc_n ctx2) L"
    if "\<forall>p \<in> {Suc (cc_n ctx)..<cc_n ctx2}. pgm P ! p = pgm (cc_nfa ctx2) ! p"
    using l(3) [of P] that a1(2) by (simp add: has_code_def)
qed

lemma decode_fork_to: "pgm P ! p = aem_nfa_insn_fork t \<Longrightarrow> t < 2 ^ 29 \<Longrightarrow> nfa_decode (pgm P ! p) = I_Fork t"
  and decode_jmp_to: "pgm P ! p = aem_nfa_insn_jmp t \<Longrightarrow> t < 2 ^ 29 \<Longrightarrow> nfa_decode (pgm P ! p) = I_Jmp t"
  by (simp_all add: decode_fork decode_jmp)

lemma optional_gen_lang:
  assumes g: "gen_ok K g" "gen_lang cs em L g"
    and "optional_gen m txt g k ctx = Some (ok, ctx')" "nfa_store (cc_nfa ctx)" "cc_n ctx' < 2 ^ 29"
  shows "ok \<and> (k \<noteq> 0 \<longleftrightarrow> cc_n ctx < cc_n ctx') \<and> (has_code P ctx ctx' \<longrightarrow>
    stretch P cs (cc_n ctx) (cc_n ctx') ((\<lambda>i j. i = j \<or> L i j) ^^ k))"
  using assms(3-)
proof (induction k arbitrary: ctx)
  case 0
  then show ?case using stretch_empty by auto
next
  case (Suc k)
  note st = Suc.prems(2)
  obtain fork ctx1 r1 ctx2 where a: "cc_append m ctx (aem_nfa_insn_fork 0) = Some (fork, ctx1)"
    "g ctx1 = Some (r1, ctx2)"
    "(if r1 = AEM_NFA_PARSE_ERROR then Some (False, ctx2)
      else do { ctx3 \<leftarrow> cc_put m ctx2 fork (aem_nfa_insn_fork (cc_n ctx2));
                optional_gen m txt g k (re_set_debug ctx3 fork txt) }) = Some (ok, ctx')"
    using Suc.prems(1) by (auto simp: bind_eq_Some_conv)
  note step = fork_gen_step [OF g(1) st order_refl a(1,2)]
  show ?case
  proof (cases "r1 = AEM_NFA_PARSE_ERROR")
    case True
    then have "cc_n ctx2 < 2 ^ 29" using a(3) Suc.prems(3) by simp
    from fork_gen_lang(5) [OF g a(1,2) st this] True show ?thesis by simp
  next
    case False
    then obtain ctx3 where p: "cc_put m ctx2 fork (aem_nfa_insn_fork (cc_n ctx2)) = Some ctx3"
      "optional_gen m txt g k (re_set_debug ctx3 fork txt) = Some (ok, ctx')"
      using a(3) by (auto simp: bind_eq_Some_conv)
    have n: "fork = cc_n ctx" "cc_n ctx < cc_n ctx2" "nfa_store (cc_nfa ctx2)"
      using step(2,3) gen_step_store [OF step(1)] by simp_all
    note a3 = put_code [OF p(1) n(3)]
    have n3: "cc_n ctx3 = cc_n ctx2" "nfa_store (cc_nfa ctx3)" using a3(3,4) n by simp_all
    have "gen_step K (cc_n ctx3) (re_set_debug ctx3 fork txt) ctx'"
      using optional_gen_step [OF g(1) p(2), of "cc_n ctx3"] n3(2) by simp
    then have s3: "gen_step K (cc_n ctx3) ctx3 ctx'" by (rule gen_step_trans [OF debug_step(1) [OF n3(2)]])
    have le: "cc_n ctx2 \<le> cc_n ctx'" using gen_step_le [OF s3] n3(1) by simp
    then have b: "cc_n ctx2 < 2 ^ 29" using Suc.prems(3) by simp
    note f = fork_gen_lang [OF g a(1,2) st b]
    have ih: "ok \<and> (k \<noteq> 0 \<longleftrightarrow> cc_n ctx2 < cc_n ctx') \<and> (has_code P ctx3 ctx' \<longrightarrow>
        stretch P cs (cc_n ctx2) (cc_n ctx') ((\<lambda>i j. i = j \<or> L i j) ^^ k))"
      using Suc.IH [OF p(2)] n3 Suc.prems(3) by simp
    have "stretch P cs (cc_n ctx) (cc_n ctx') ((\<lambda>i j. i = j \<or> L i j) ^^ Suc k)"
      if code: "has_code P ctx ctx'"
    proof -
      note c = has_code_before [OF code s3]
      have c3: "has_code P ctx ctx3" "has_code P ctx3 ctx'" using c n n3(1) by simp_all
      have P3: "pgm P ! p = pgm (cc_nfa ctx3) ! p" if "cc_n ctx \<le> p" "p < cc_n ctx2" for p
        using c3(1) that n3(1) by (simp add: has_code_def)
      have "nfa_decode (pgm P ! cc_n ctx) = I_Fork (cc_n ctx2)"
        by (rule decode_fork_to) (use P3 [of "cc_n ctx"] a3(1) n b in simp_all)
      moreover have "stretch P cs (Suc (cc_n ctx)) (cc_n ctx2) L"
        by (rule f(7)) (use P3 a3(2) n in auto)
      ultimately have "stretch P cs (cc_n ctx) (cc_n ctx2) (\<lambda>i j. i = j \<or> L i j)"
        by (rule stretch_optional) (rule n(2))
      then have "stretch P cs (cc_n ctx) (cc_n ctx')
          ((\<lambda>i j. i = j \<or> L i j) OO (\<lambda>i j. i = j \<or> L i j) ^^ k)"
        by (rule stretch_seq) (use ih c3(2) le n(2) in simp_all)
      then show ?thesis unfolding relpowp_left .
    qed
    then show ?thesis using ih le n(2) by simp
  qed
qed

lemma star_gen_lang:
  assumes g: "gen_ok K g" "gen_lang cs em L g" and res: "star_gen m txt g ctx = Some (ok, ctx')"
    and st: "nfa_store (cc_nfa ctx)" and bound: "cc_n ctx' < 2 ^ 29"
  shows "ok \<and> cc_n ctx < cc_n ctx' \<and> (has_code P ctx ctx' \<longrightarrow>
    stretch P cs (cc_n ctx) (cc_n ctx') L\<^sup>*\<^sup>*)"
proof -
  obtain fork ctx1 r1 ctx2 where a: "cc_append m ctx (aem_nfa_insn_fork 0) = Some (fork, ctx1)"
    "g ctx1 = Some (r1, ctx2)"
    "(if r1 = AEM_NFA_PARSE_ERROR \<or> cc_n ctx2 = fork then Some (False, ctx2)
      else do { (jmp, ctx3) \<leftarrow> cc_append m ctx2 (aem_nfa_insn_jmp fork);
                ctx4 \<leftarrow> cc_put m ctx3 fork (aem_nfa_insn_fork (cc_n ctx3));
                Some (True, re_set_debug (re_set_debug ctx4 fork txt) jmp txt) }) = Some (ok, ctx')"
    using res by (auto simp: star_gen_def bind_eq_Some_conv)
  note step = fork_gen_step [OF g(1) st order_refl a(1,2)]
  have n: "fork = cc_n ctx" "cc_n ctx < cc_n ctx2" "nfa_store (cc_nfa ctx2)"
    using step(2,3) gen_step_store [OF step(1)] by simp_all
  show ?thesis
  proof (cases "r1 = AEM_NFA_PARSE_ERROR")
    case True
    then have "cc_n ctx2 < 2 ^ 29" using a(3) bound by simp
    from fork_gen_lang(5) [OF g a(1,2) st this] True show ?thesis by simp
  next
    case False
    then obtain jmp ctx3 ctx4 where p: "cc_append m ctx2 (aem_nfa_insn_jmp fork) = Some (jmp, ctx3)"
      "cc_put m ctx3 fork (aem_nfa_insn_fork (cc_n ctx3)) = Some ctx4"
      "ctx' = re_set_debug (re_set_debug ctx4 fork txt) jmp txt" "ok"
      using a(3) n by (auto simp: bind_eq_Some_conv)
    note a3 = append_code [OF p(1) n(3)]
    have "fork \<le> cc_n ctx3" using n a3(2) by simp
    note a4 = put_code [OF p(2) a3(5) this]
    have n': "cc_n ctx' = Suc (cc_n ctx2)" using a4(4) a3(2) n p(3) by simp
    then have b: "cc_n ctx2 < 2 ^ 29" using bound by simp
    note f = fork_gen_lang [OF g a(1,2) st b]
    have "stretch P cs (cc_n ctx) (cc_n ctx') L\<^sup>*\<^sup>*" if code: "has_code P ctx ctx'"
    proof -
      have P4: "pgm P ! p = pgm (cc_nfa ctx4) ! p" if "cc_n ctx \<le> p" "p \<le> cc_n ctx2" for p
        using code that n' p(3) by (simp add: has_code_def)
      have fork: "nfa_decode (pgm P ! cc_n ctx) = I_Fork (Suc (cc_n ctx2))"
        by (rule decode_fork_to) (use P4 [of "cc_n ctx"] a4(1) a3(2) n n' bound in simp_all)
      have jmp: "nfa_decode (pgm P ! cc_n ctx2) = I_Jmp (cc_n ctx)"
        by (rule decode_jmp_to) (use P4 [of "cc_n ctx2"] a4(2) a3(2,3) n b in simp_all)
      have "stretch P cs (Suc (cc_n ctx)) (cc_n ctx2) L"
        by (rule f(7)) (use P4 a4(2) a3(2,4) n in auto)
      from stretch_star [OF fork jmp this n(2)] show ?thesis by (simp add: n')
    qed
    then show ?thesis using p(4) n' n(2) by simp
  qed
qed

lemma relpowp_ident: "(=) ^^ k = ((=) :: 'c \<Rightarrow> 'c \<Rightarrow> bool)"
  by (induction k) auto

lemma relpowp_optional: "((\<lambda>i j. i = j \<or> L i j) ^^ k) i j \<longleftrightarrow> (\<exists>t \<le> k. (L ^^ t) i j)"
proof (induction k arbitrary: j)
  case (Suc k)
  have "((\<lambda>i j. i = j \<or> L i j) ^^ Suc k) i j \<longleftrightarrow> (\<exists>l. (\<exists>t \<le> k. (L ^^ t) i l) \<and> (l = j \<or> L l j))"
    using Suc by (auto simp: relcompp_apply)
  also have "\<dots> \<longleftrightarrow> (\<exists>t \<le> Suc k. (L ^^ t) i j)"
  proof
    assume "\<exists>t \<le> Suc k. (L ^^ t) i j"
    then obtain t where t: "t \<le> Suc k" "(L ^^ t) i j" by blast
    then show "\<exists>l. (\<exists>t \<le> k. (L ^^ t) i l) \<and> (l = j \<or> L l j)"
      by (cases "t \<le> k") (auto simp: le_Suc_eq)
  next
    assume "\<exists>l. (\<exists>t \<le> k. (L ^^ t) i l) \<and> (l = j \<or> L l j)"
    then obtain l t where "t \<le> k" "(L ^^ t) i l" "l = j \<or> L l j" by blast
    then show "\<exists>t \<le> Suc k. (L ^^ t) i j"
      using relpowp_Suc_I [of t L i l j] by (auto intro: le_SucI exI [of _ "Suc t"])
  qed
  finally show ?case .
qed auto

lemma relpowp_from: "(L ^^ k OO L ^^ t) i j \<longleftrightarrow> (L ^^ (k + t)) i j"
  by (simp add: relpowp_add)

lemma exits_empty:
  assumes "stretch P cs s s L"
  shows "L = (=)"
proof (intro ext)
  fix i j
  have "path P cs {s..<s} (i, s) (j, s) \<longleftrightarrow> L i j" using assms by (simp add: stretch_def exits_def)
  then show "L i j = (i = j)" using path_outside [of "(i, s)" "{s..<s}"] by simp
qed

lemma tranclp_relpowp: "L\<^sup>+\<^sup>+ i j \<longleftrightarrow> (\<exists>k. (L ^^ Suc k) i j)"
  by (auto simp: tranclp_power gr0_conv_Suc simp del: relpowp.simps)

text \<open>The four ways a repetition is compiled, as relations.\<close>
lemma repeat_lang_star: "mn = 0 \<Longrightarrow> repeat_lang mn UINT_MAX L = L\<^sup>*\<^sup>*"
  by (auto simp: repeat_lang_def rtranclp_power fun_eq_iff)

lemma repeat_lang_empty:
  assumes "mn \<le> mx"
  shows "repeat_lang mn mx (=) = (=)"
proof (intro ext)
  have "unat mn \<le> unat mx" using assms by (simp add: word_le_nat_alt)
  then show "repeat_lang mn mx (=) i j = (i = j)" for i j by (auto simp: repeat_lang_def relpowp_ident)
qed

lemma repeat_lang_bounded:
  assumes "mn \<le> mx" "mx \<noteq> UINT_MAX"
  shows "L ^^ unat mn OO (\<lambda>i j. i = j \<or> L i j) ^^ (unat mx - unat mn) = repeat_lang mn mx L"
proof (intro ext)
  fix i j
  have le: "unat mn \<le> unat mx" using assms(1) by (simp add: word_le_nat_alt)
  have "(L ^^ unat mn OO (\<lambda>i j. i = j \<or> L i j) ^^ (unat mx - unat mn)) i j \<longleftrightarrow>
      (\<exists>t \<le> unat mx - unat mn. (L ^^ unat mn OO L ^^ t) i j)"
    unfolding relcompp_apply relpowp_optional by blast
  also have "\<dots> \<longleftrightarrow> (\<exists>t \<le> unat mx - unat mn. (L ^^ (unat mn + t)) i j)" by (simp only: relpowp_from)
  also have "\<dots> \<longleftrightarrow> repeat_lang mn mx L i j"
    using assms(2) le unfolding repeat_lang_def by (metis add_le_cancel_left le_add1 le_add_diff_inverse)
  finally show "(L ^^ unat mn OO (\<lambda>i j. i = j \<or> L i j) ^^ (unat mx - unat mn)) i j = repeat_lang mn mx L i j" .
qed

lemma repeat_lang_plus:
  assumes "unat mn = Suc k"
  shows "L ^^ k OO L\<^sup>+\<^sup>+ = repeat_lang mn UINT_MAX L"
proof (intro ext)
  fix i j
  have "(L ^^ k OO L\<^sup>+\<^sup>+) i j \<longleftrightarrow> (\<exists>t. (L ^^ k OO L ^^ Suc t) i j)"
    unfolding relcompp_apply tranclp_relpowp by blast
  also have "\<dots> \<longleftrightarrow> (\<exists>t. (L ^^ (unat mn + t)) i j)" by (simp only: relpowp_from assms) simp
  also have "\<dots> \<longleftrightarrow> repeat_lang mn UINT_MAX L i j"
    unfolding repeat_lang_def by (metis le_add1 le_add_diff_inverse)
  finally show "(L ^^ k OO L\<^sup>+\<^sup>+) i j = repeat_lang mn UINT_MAX L i j" .
qed

lemma node_repeat_gen_lang:
  assumes g: "gen_ok K g" "gen_lang cs em L g" "gen_entry g"
    and ok: "mn \<le> mx"
    and res: "node_repeat_gen m txt mn mx False g ctx = Some (b, ctx')" and st: "nfa_store (cc_nfa ctx)"
    and bound: "cc_n ctx' < 2 ^ 29"
  shows "b \<and> ((if mn \<noteq> 0 then em else mx \<noteq> 0) \<longleftrightarrow> cc_n ctx < cc_n ctx') \<and> (has_code P ctx ctx' \<longrightarrow>
    stretch P cs (cc_n ctx) (cc_n ctx') (repeat_lang mn mx L))"
proof -
  obtain rep ctx1 where a: "repeat_gen g (unat mn) (cc_n ctx) ctx = Some (rep, ctx1)"
    "(if rep = AEM_NFA_PARSE_ERROR then Some (False, ctx1)
      else if mn \<noteq> 0 \<and> cc_n ctx1 = cc_n ctx then Some (True, ctx1)
      else if mx = mn \<and> mx \<noteq> UINT_MAX then Some (True, ctx1)
      else if mx \<noteq> UINT_MAX then optional_gen m txt g (unat mx - unat mn) ctx1
      else if mn \<noteq> 0 then do {
          (fork, ctx2) \<leftarrow> cc_append m ctx1 (aem_nfa_insn_fork rep);
          Some (True, re_set_debug ctx2 fork txt) }
      else star_gen m txt g ctx1) = Some (b, ctx')"
  proof -
    have "\<not> mx < mn" using ok by simp
    then show ?thesis using res [unfolded node_repeat_gen_def if_False] that by (auto simp: bind_eq_Some_conv)
  qed
  have s1: "gen_step K (cc_n ctx) ctx ctx1"
    using repeat_gen_step [OF g(1) a(1) st order_refl order_refl] g(3) by (simp add: gen_entry_def)
  note st1 = gen_step_store [OF s1]
  show ?thesis
  proof (cases "mn = 0")
    case True
    then have c: "ctx1 = ctx" "rep = cc_n ctx" using a(1) by auto
    show ?thesis
    proof (cases "mx = UINT_MAX")
      case star: True
      then have "mx \<noteq> mn" using True by (simp add: UINT_MAX_def)
      then have "star_gen m txt g ctx = Some (b, ctx')" using a(2) c True star cc_n_less [OF st] by simp
      then have "b \<and> cc_n ctx < cc_n ctx' \<and> (has_code P ctx ctx' \<longrightarrow>
          stretch P cs (cc_n ctx) (cc_n ctx') L\<^sup>*\<^sup>*)"
        using star_gen_lang [OF g(1,2) _ st bound] by blast
      moreover have "repeat_lang mn mx L = L\<^sup>*\<^sup>*" using repeat_lang_star True star by simp
      moreover have "mx \<noteq> 0" using star by (simp add: UINT_MAX_def)
      ultimately show ?thesis using True by simp
    next
      case bounded: False
      have "repeat_lang mn mx L = (\<lambda>i j. i = j \<or> L i j) ^^ (unat mx - unat mn)"
        using repeat_lang_bounded [OF ok bounded, of L] True by simp
      moreover have o: "optional_gen m txt g (unat mx - unat mn) ctx = Some (b, ctx')"
        using a(2) c True bounded cc_n_less [OF st] by (cases "mx = mn") simp_all
      moreover have "unat mx - unat mn \<noteq> 0 \<longleftrightarrow> mx \<noteq> 0" using True by (simp add: unat_eq_0)
      ultimately show ?thesis using optional_gen_lang [OF g(1,2) o st bound, of P] True by simp
    qed
  next
    case False
    then obtain k where k: "unat mn = Suc k" by (metis not0_implies_Suc unat_eq_0)
    have rep: "repeat_gen g (Suc k) (cc_n ctx) ctx = Some (rep, ctx1)" using a(1) k by simp
    note more = repeat_gen_lang [OF g rep st]
    have "unat mn \<le> unat mx" using ok by (simp add: word_le_nat_alt)
    have rep_le: "rep = AEM_NFA_PARSE_ERROR \<or> rep \<le> cc_n ctx1"
      using repeat_gen_step [OF g(1) a(1) st order_refl order_refl] g(3) by (simp add: gen_entry_def)
    have s2: "gen_step K (cc_n ctx1) ctx1 ctx'"
    proof -
      consider "ctx' = ctx1" | "optional_gen m txt g (unat mx - unat mn) ctx1 = Some (b, ctx')"
        | fork ctx2 where "cc_append m ctx1 (aem_nfa_insn_fork rep) = Some (fork, ctx2)"
            "ctx' = re_set_debug ctx2 fork txt" "rep \<le> cc_n ctx1"
        using a(2) False rep_le by (auto simp: bind_eq_Some_conv split: if_splits)
      then show ?thesis
      proof cases
        case 3
        then have "gen_step K (cc_n ctx1) ctx1 ctx2"
          using cc_append_step [OF 3(1) st1 insn_in_jumps(2) order_refl] by simp
        then show ?thesis using 3(2) gen_step_trans debug_step(1) gen_step_store by blast
      qed (use gen_step_refl [OF st1] optional_gen_step [OF g(1) _ st1 order_refl] in auto)
    qed
    have le: "cc_n ctx \<le> cc_n ctx1" "cc_n ctx1 \<le> cc_n ctx'" using gen_step_le [OF s1] gen_step_le [OF s2] .
    then have bound1: "cc_n ctx1 < 2 ^ 29" using bound by simp
    note more = more [OF bound1]
    have rep_ok: "rep \<noteq> AEM_NFA_PARSE_ERROR" using more [of P] st1 by (auto simp: nfa_store_def cc_n_def AEM_NFA_PARSE_ERROR_def)
    consider "cc_n ctx1 = cc_n ctx" "ctx' = ctx1" "b"
      | "cc_n ctx1 \<noteq> cc_n ctx" "mx \<noteq> UINT_MAX" "optional_gen m txt g (unat mx - unat mn) ctx1 = Some (b, ctx')"
      | fork ctx2 where "cc_n ctx1 \<noteq> cc_n ctx" "mx = UINT_MAX" "cc_append m ctx1 (aem_nfa_insn_fork rep) = Some (fork, ctx2)"
          "ctx' = re_set_debug ctx2 fork txt" "b"
      using a(2) False rep_ok by (auto simp: bind_eq_Some_conv split: if_splits)
    then show ?thesis
    proof cases
      case 1
      have "stretch P cs (cc_n ctx) (cc_n ctx') (repeat_lang mn mx L)" if code: "has_code P ctx ctx'"
      proof -
        have "stretch P cs rep (cc_n ctx) L" "rep = cc_n ctx"
          using more [of P] code 1 by auto
        then have "L = (=)" using exits_empty [of P cs rep L] by simp
        then have "repeat_lang mn mx L = (=)" using repeat_lang_empty [OF ok] by simp
        then show ?thesis using stretch_empty 1 by simp
      qed
      then show ?thesis using 1 more [of P] False by simp
    next
      case 2
      note o = optional_gen_lang [OF g(1,2) 2(3) st1 bound]
      have "stretch P cs (cc_n ctx) (cc_n ctx') (repeat_lang mn mx L)" if code: "has_code P ctx ctx'"
      proof -
        note c = has_code_before [OF code s2 le(1)]
        have "stretch P cs (cc_n ctx) (cc_n ctx')
            (L ^^ Suc k OO (\<lambda>i j. i = j \<or> L i j) ^^ (unat mx - unat mn))"
          by (rule stretch_seq) (use more [of P] o [of P] c le in simp_all)
        then show ?thesis using repeat_lang_bounded [OF ok 2(2), of L] k by simp
      qed
      then show ?thesis using o [of P] more [of P] False 2(1) le by auto
    next
      case 3
      note a2 = append_code [OF 3(3) st1]
      have n': "cc_n ctx' = Suc (cc_n ctx1)" using a2(2) 3(4) by simp
      have em: "em" "rep < cc_n ctx1" using more [of P] 3(1) le by auto
      have "stretch P cs (cc_n ctx) (cc_n ctx') (repeat_lang mn mx L)" if code: "has_code P ctx ctx'"
      proof -
        note c = has_code_before [OF code s2 le(1)]
        have "pgm P ! cc_n ctx1 = aem_nfa_insn_fork rep"
          using c(2) a2(3) n' 3(4) by (simp add: has_code_def)
        then have fork: "nfa_decode (pgm P ! cc_n ctx1) = I_Fork rep"
          by (rule decode_fork_to) (use em(2) bound1 in simp)
        have "stretch P cs rep (Suc (cc_n ctx1)) L\<^sup>+\<^sup>+"
          by (rule stretch_plus [OF fork]) (use more [of P] c(1) em(2) in simp_all)
        then have "stretch P cs (cc_n ctx) (cc_n ctx') (L ^^ k OO L\<^sup>+\<^sup>+)"
          unfolding n' by (rule stretch_seq [rotated]) (use more [of P] c(1) in simp_all)
        then show ?thesis using repeat_lang_plus [OF k, of L] 3(2) by simp
      qed
      then show ?thesis using 3(5) em(1) False le n' by simp
    qed
  qed
qed

text \<open>A child without code is done with before the kind of the repetition matters.\<close>
lemma empty_repeat_reluctant:
  assumes g: "gen_ok K g" "gen_lang cs False L g" "gen_entry g" and mn: "mn \<noteq> 0"
    and res: "node_repeat_gen m txt mn mx True g ctx = Some (b, ctx')" and st: "nfa_store (cc_nfa ctx)"
    and bound: "cc_n ctx' < 2 ^ 29"
  shows "node_repeat_gen m txt mn mx False g ctx = Some (b, ctx')"
proof (cases "mx < mn")
  case False
  then obtain rep ctx1 where a: "repeat_gen g (unat mn) (cc_n ctx) ctx = Some (rep, ctx1)"
    "ctx' = ctx1"
    using res by (auto simp: node_repeat_gen_def bind_eq_Some_conv split: if_splits)
  obtain k where k: "unat mn = Suc k" using mn by (metis not0_implies_Suc unat_eq_0)
  have "gen_step K (cc_n ctx) ctx ctx1"
    using repeat_gen_step [OF g(1) a(1) st order_refl order_refl] g(3) by (simp add: gen_entry_def)
  moreover have "\<not> cc_n ctx < cc_n ctx1"
    using repeat_gen_lang [OF g, of k "cc_n ctx" ctx rep ctx1] a k st bound by simp
  ultimately have same: "cc_n ctx1 = cc_n ctx" using gen_step_le [of K "cc_n ctx" ctx ctx1] by simp
  show ?thesis
  proof (cases "rep = AEM_NFA_PARSE_ERROR")
    case True
    then show ?thesis using res a(1) \<open>\<not> mx < mn\<close> unfolding node_repeat_gen_def by simp
  next
    case err: False
    then show ?thesis using res a(1) \<open>\<not> mx < mn\<close> mn same unfolding node_repeat_gen_def by simp
  qed
qed (use res in \<open>simp add: node_repeat_gen_def\<close>)

section \<open>Alternatives\<close>

text \<open>A patch before the end of the code.\<close>
lemma patch_code:
  assumes "(if i \<noteq> AEM_NFA_PARSE_ERROR then map_option (\<lambda>c. re_set_debug c i txt) (cc_put m ctx i insn) else Some ctx) = Some ctx'"
    "nfa_store (cc_nfa ctx)" "i = AEM_NFA_PARSE_ERROR \<or> i < cc_n ctx"
  shows "cc_n ctx' = cc_n ctx" "nfa_store (cc_nfa ctx')"
    "p < cc_n ctx \<Longrightarrow> i = AEM_NFA_PARSE_ERROR \<or> p \<noteq> i \<Longrightarrow> pgm (cc_nfa ctx') ! p = pgm (cc_nfa ctx) ! p"
    "i \<noteq> AEM_NFA_PARSE_ERROR \<Longrightarrow> pgm (cc_nfa ctx') ! i = insn"
proof -
  have "cc_n ctx' = cc_n ctx \<and> nfa_store (cc_nfa ctx') \<and>
      (\<forall>p < cc_n ctx. i = AEM_NFA_PARSE_ERROR \<or> p \<noteq> i \<longrightarrow> pgm (cc_nfa ctx') ! p = pgm (cc_nfa ctx) ! p) \<and>
      (i \<noteq> AEM_NFA_PARSE_ERROR \<longrightarrow> pgm (cc_nfa ctx') ! i = insn)"
  proof (cases "i = AEM_NFA_PARSE_ERROR")
    case False
    then obtain c where c: "cc_put m ctx i insn = Some c" "ctx' = re_set_debug c i txt" using assms(1) by auto
    have i: "i \<le> cc_n ctx" "max (cc_n ctx) (Suc i) = cc_n ctx" using assms(3) False by simp_all
    then show ?thesis using put_code [OF c(1) assms(2) i(1)] c(2) False by simp
  qed (use assms in simp)
  then show "cc_n ctx' = cc_n ctx" "nfa_store (cc_nfa ctx')"
    "p < cc_n ctx \<Longrightarrow> i = AEM_NFA_PARSE_ERROR \<or> p \<noteq> i \<Longrightarrow> pgm (cc_nfa ctx') ! p = pgm (cc_nfa ctx) ! p"
    "i \<noteq> AEM_NFA_PARSE_ERROR \<Longrightarrow> pgm (cc_nfa ctx') ! i = insn" by blast+
qed

lemma alternation_gen_lang:
  assumes "\<forall>c \<in> set ns. gen_ok K (g c) \<and> gen_lang cs (em c) (L c) (g c)" "ns \<noteq> []"
    and "alternation_gen m txt (map g ns) jp ctx = Some (ok, ctx')" "nfa_store (cc_nfa ctx)" "cc_n ctx' < 2 ^ 29"
    and "jp = AEM_NFA_PARSE_ERROR \<or> jp < cc_n ctx"
  shows "ok \<and> (2 \<le> length ns \<or> (\<exists>c \<in> set ns. em c) \<longleftrightarrow> cc_n ctx < cc_n ctx') \<and>
    (\<exists>x. (jp \<noteq> AEM_NFA_PARSE_ERROR \<longrightarrow> pgm (cc_nfa ctx') ! jp = aem_nfa_insn_jmp x) \<and> x \<le> cc_n ctx' \<and>
      (\<forall>P. has_code P ctx ctx' \<longrightarrow>
        stretch P cs (cc_n ctx) (cc_n ctx') (\<lambda>i j. \<exists>c \<in> set ns. L c i j) \<and>
        exits P cs {cc_n ctx..<cc_n ctx'} x (cc_n ctx') (=)))"
  using assms
proof (induction ns arbitrary: jp ctx)
  case (Cons c ns)
  note st = Cons.prems(4)
  let ?gs = "map g ns"
  let ?ap = "\<lambda>c insn. if ?gs \<noteq> [] then cc_append m c insn else Some (AEM_NFA_PARSE_ERROR, c)"
  let ?pt = "\<lambda>i c insn. if i \<noteq> AEM_NFA_PARSE_ERROR then map_option (\<lambda>c. re_set_debug c i txt) (cc_put m c i insn) else Some c"
  have g: "gen_ok K (g c)" "gen_lang cs (em c) (L c) (g c)" using Cons.prems(1) by simp_all
  obtain fork ctx1 r1 ctx2 where a: "?ap ctx (aem_nfa_insn_fork 0) = Some (fork, ctx1)" "g c ctx1 = Some (r1, ctx2)"
    "(if r1 = AEM_NFA_PARSE_ERROR then Some (False, ctx2)
      else do { ctx3 \<leftarrow> ?pt jp ctx2 (aem_nfa_insn_jmp (cc_n ctx2));
                (jmp, ctx4) \<leftarrow> ?ap ctx3 (aem_nfa_insn_jmp 0);
                ctx5 \<leftarrow> ?pt fork ctx4 (aem_nfa_insn_fork (cc_n ctx4));
                alternation_gen m txt ?gs jmp ctx5 }) = Some (ok, ctx')"
    using Cons.prems(3) unfolding list.map alternation_gen.simps(2) by (auto simp: bind_eq_Some_conv)
  have st1: "nfa_store (cc_nfa ctx1)" "cc_n ctx \<le> cc_n ctx1"
    using a(1) st append_code(2,5) [OF _ st] by (auto split: if_splits)
  have s1: "gen_step K (cc_n ctx1) ctx1 ctx2" using gen_okD [where g = "g c", OF g(1) a(2) st1(1) order_refl] .
  note st2 = gen_step_store [OF s1] and le12 = gen_step_le [OF s1]
  note l = gen_langD [OF g(2) a(2) st1(1)]
  show ?case
  proof (cases "r1 = AEM_NFA_PARSE_ERROR")
    case True
    then have "cc_n ctx2 < 2 ^ 29" using a(3) Cons.prems(5) by simp
    from l(1) [OF this] True show ?thesis using cc_n_less [OF st1(1)] by simp
  next
    case False
    then obtain ctx3 jmp ctx4 ctx5 where p: "?pt jp ctx2 (aem_nfa_insn_jmp (cc_n ctx2)) = Some ctx3"
      "?ap ctx3 (aem_nfa_insn_jmp 0) = Some (jmp, ctx4)" "?pt fork ctx4 (aem_nfa_insn_fork (cc_n ctx4)) = Some ctx5"
      "alternation_gen m txt ?gs jmp ctx5 = Some (ok, ctx')"
      using a(3) by (auto simp: bind_eq_Some_conv)
    have jp: "jp = AEM_NFA_PARSE_ERROR \<or> jp < cc_n ctx2" using Cons.prems(6) st1(2) le12 by auto
    note c3 = patch_code [OF p(1) st2 jp]
    show ?thesis
    proof (cases "ns = []")
      case True
      then have e: "ctx1 = ctx" "ctx' = ctx3" "ok" using a(1) p(2-4) by auto
      have b: "cc_n ctx2 < 2 ^ 29" using Cons.prems(5) e c3(1) by simp
      note l = l(2,3) [OF b]
      have "has_code P ctx ctx2" if "has_code P ctx ctx'" for P
        using that e c3(1,3) Cons.prems(6) by (auto simp: has_code_def)
      then show ?thesis
        using l c3(1,4) e True exits_outside [of "cc_n ctx2" "{cc_n ctx..<cc_n ctx2}"] by auto
    next
      case False
      have f: "cc_append m ctx (aem_nfa_insn_fork 0) = Some (fork, ctx1)"
        "cc_append m ctx3 (aem_nfa_insn_jmp 0) = Some (jmp, ctx4)" using a(1) p(2) False by simp_all
      note a1 = append_code [OF f(1) st] and a4 = append_code [OF f(2) c3(2)]
      have fork: "fork = cc_n ctx" "fork < cc_n ctx2" "fork \<noteq> AEM_NFA_PARSE_ERROR"
        using a1(1,2) le12 cc_n_less [OF st] by simp_all
      have jmp: "jmp = cc_n ctx2" "cc_n ctx4 = Suc (cc_n ctx2)" using a4(1,2) c3(1) by simp_all
      have "fork = AEM_NFA_PARSE_ERROR \<or> fork < cc_n ctx4" using fork jmp by simp
      note c5 = patch_code [OF p(3) a4(5) this]
      have s5: "gen_step K (cc_n ctx2) ctx5 ctx'"
        by (rule alternation_gen_step [OF _ p(4) c5(2)]) (use Cons.prems(1) c5(1) jmp in auto)
      have le: "Suc (cc_n ctx2) \<le> cc_n ctx'" using gen_step_le [OF s5] c5(1) jmp by simp
      have b: "cc_n ctx2 < 2 ^ 29" using le Cons.prems(5) by simp
      have ih: "ok \<and> (\<exists>x. (jmp \<noteq> AEM_NFA_PARSE_ERROR \<longrightarrow> pgm (cc_nfa ctx') ! jmp = aem_nfa_insn_jmp x) \<and> x \<le> cc_n ctx' \<and>
        (\<forall>P. has_code P ctx5 ctx' \<longrightarrow>
          stretch P cs (cc_n ctx5) (cc_n ctx') (\<lambda>i j. \<exists>c \<in> set ns. L c i j) \<and>
          exits P cs {cc_n ctx5..<cc_n ctx'} x (cc_n ctx') (=)))"
        using Cons.IH [OF _ False p(4) c5(2) Cons.prems(5)] Cons.prems(1) c5(1) jmp by simp
      then obtain x where x: "pgm (cc_nfa ctx') ! cc_n ctx2 = aem_nfa_insn_jmp x" "x \<le> cc_n ctx'"
        "has_code P ctx5 ctx' \<Longrightarrow>
          stretch P cs (Suc (cc_n ctx2)) (cc_n ctx') (\<lambda>i j. \<exists>c \<in> set ns. L c i j) \<and>
          exits P cs {Suc (cc_n ctx2)..<cc_n ctx'} x (cc_n ctx') (=)" for P
        using cc_n_less [OF st2] jmp(1) c5(1) jmp(2) by auto
      have late: "pgm (cc_nfa ctx') ! p = pgm (cc_nfa ctx5) ! p" if "p < cc_n ctx2" for p
        using s5 that by (simp add: gen_step_def cc_frame_def)
      have "pgm (cc_nfa ctx') ! jp = aem_nfa_insn_jmp (cc_n ctx2)" if "jp \<noteq> AEM_NFA_PARSE_ERROR"
        using late [of jp] c5(3) [of jp] a4(4) [of jp] c3(1) c3(4) [OF that] Cons.prems(6) that fork le12 st1(2) jmp by auto
      moreover have "stretch P cs (cc_n ctx) (cc_n ctx') (\<lambda>i j. \<exists>c \<in> set (c # ns). L c i j) \<and>
          exits P cs {cc_n ctx..<cc_n ctx'} (cc_n ctx2) (cc_n ctx') (=)" if code: "has_code P ctx ctx'" for P
      proof -
        have P: "pgm P ! p = pgm (cc_nfa ctx') ! p" if "cc_n ctx \<le> p" "p < cc_n ctx'" for p
          using code that by (simp add: has_code_def)
        have "has_code P ctx5 ctx'" using P c5(1) jmp fork by (simp add: has_code_def)
        note rest = x(3) [OF this]
        have fk: "nfa_decode (pgm P ! cc_n ctx) = I_Fork (Suc (cc_n ctx2))"
          by (rule decode_fork_to) (use P [of "cc_n ctx"] late [of "cc_n ctx"] c5(4) fork jmp le Cons.prems(5) in simp_all)
        have jm: "nfa_decode (pgm P ! cc_n ctx2) = I_Jmp x"
          by (rule decode_jmp_to) (use P [of "cc_n ctx2"] x(1,2) fork le Cons.prems(5) in simp_all)
        have "has_code P ctx1 ctx2"
          using P late c5(3) a4(4) c3(1,3) a1(2) fork jmp le Cons.prems(6) by (auto simp: has_code_def)
        then have child: "stretch P cs (Suc (cc_n ctx)) (cc_n ctx2) (L c)"
          using l(3) [OF b] a1(2) by simp
        have lt: "cc_n ctx < cc_n ctx2" using fork by simp
        have both: "(\<lambda>i j. \<exists>c \<in> set (c # ns). L c i j) = (\<lambda>i j. L c i j \<or> (\<exists>c \<in> set ns. L c i j))" by auto
        show ?thesis unfolding both
          by (rule stretch_alternative [OF fk jm child lt le conjunct1 [OF rest] conjunct2 [OF rest]])
      qed
      moreover have "2 \<le> length (c # ns)" using False by (cases ns) simp_all
      moreover have "cc_n ctx < cc_n ctx'" "cc_n ctx2 \<le> cc_n ctx'" using fork le by simp_all
      ultimately show ?thesis using ih by blast
    qed
  qed
qed simp

section \<open>The code of a tree has the meaning of the tree\<close>

lemma class_no_match:
  "nfa_decode (aem_nfa_insn_class (if neg then 1 else 0) (if fr then 1 else 0) cc) = I_Class neg fr (cclass_code cc)"
  by (subst decode_class) (auto split: if_splits)

lemma node_compile_lang:
  assumes "tree_ok lo hi nd" "hi \<le> K" "compilable nd"
  shows "gen_lang cs (emits_code nd) (node_lang cs nd) (aem_nfa_node_compile m al nd)"
  using assms
proof (induction nd arbitrary: lo)
  case (Node args t ns)
  let ?g = "aem_nfa_node_compile m al"
  have comp: "compilable c" if "c \<in> set ns" "\<And>mn rel. args \<noteq> AEM_NFA_NODE_REPEAT mn 0 rel" for c
    using that Node.prems(3) by (auto simp: list_all_iff split: nfa_node_args.splits if_splits)
  have kids: "gen_ok K (?g c) \<and> gen_lang cs (emits_code c) (node_lang cs c) (?g c)"
    if "c \<in> set ns" "tree_ok lo' hi c" "\<And>mn rel. args \<noteq> AEM_NFA_NODE_REPEAT mn 0 rel" for c lo'
    using Node.IH [OF that(1) that(2) Node.prems(2)] node_compile_ok [OF that(2) Node.prems(2)] comp [OF that(1,3)] by blast
  have entry: "gen_entry (?g c)" for c using node_compile_entry by (auto simp: gen_entry_def)
  show ?case
  proof (cases args)
    case (AEM_NFA_NODE_RANGE mn mx)
    then have "?g (Node args t ns) = (\<lambda>ctx. gen_result (cc_n ctx) (range_gen m t (aem_nfa_insn_range mn mx) ctx))"
      using Node.prems(1) by (auto simp: fun_eq_iff Let_def tree_ok.simps)
    moreover have "gen_lang cs True (range_lang cs (byte_of_code mn) (byte_of_code mx))
        (\<lambda>ctx. gen_result (cc_n ctx) (range_gen m t (aem_nfa_insn_range mn mx) ctx))"
      by (rule range_gen_lang) (simp_all add: decode_insn_range step_range [of _ _ "byte_of_code mn" "byte_of_code mx"])
    ultimately show ?thesis using AEM_NFA_NODE_RANGE by simp
  next
    case (AEM_NFA_NODE_ATOM c)
    then have "?g (Node args t ns) = (\<lambda>ctx. gen_result (cc_n ctx) (atom_gen m al t c ctx))"
      using Node.prems(1) by (auto simp: fun_eq_iff Let_def tree_ok.simps)
    then show ?thesis using AEM_NFA_NODE_ATOM atom_gen_lang by simp
  next
    case (AEM_NFA_NODE_CLASS cc ng fr)
    let ?i = "aem_nfa_insn_class (if ng then 1 else 0) (if fr then 1 else 0) cc"
    have "?g (Node args t ns) = (\<lambda>ctx. gen_result (cc_n ctx) (range_gen m t ?i ctx))"
      using Node.prems(1) AEM_NFA_NODE_CLASS by (auto simp: fun_eq_iff Let_def tree_ok.simps)
    moreover have "gen_lang cs True (class_lang cs cc ng fr) (\<lambda>ctx. gen_result (cc_n ctx) (range_gen m t ?i ctx))"
      by (rule range_gen_lang) (simp_all only: class_no_match step_class [of _ _ ng fr cc] nfa_insn.distinct not_False_eq_True)
    ultimately show ?thesis using AEM_NFA_NODE_CLASS by simp
  next
    case (AEM_NFA_NODE_CAPTURE k)
    then obtain c where c: "ns = [c]" "tree_ok (Suc k) hi c" "k < K"
      using Node.prems by (auto simp: tree_ok.simps length_Suc_conv)
    then have "?g (Node args t ns) = (\<lambda>ctx. gen_result (cc_n ctx) (capture_gen m t k (?g c) ctx))"
      using AEM_NFA_NODE_CAPTURE by (auto simp: fun_eq_iff Let_def)
    moreover have "gen_ok K (?g c)" "gen_lang cs (emits_code c) (node_lang cs c) (?g c)"
      using kids [of c "Suc k"] c AEM_NFA_NODE_CAPTURE by auto
    ultimately show ?thesis using AEM_NFA_NODE_CAPTURE capture_gen_lang c(1,3) by simp
  next
    case (AEM_NFA_NODE_REPEAT mn mx rel)
    then obtain c where c: "ns = [c]" "tree_ok lo hi c"
      using Node.prems by (auto simp: tree_ok.simps length_Suc_conv)
    have mn: "mn \<le> mx" using Node.prems(3) AEM_NFA_NODE_REPEAT by simp
    show ?thesis
    proof (cases "mx = 0")
      case True
      then have zero: "mn = 0" "\<not> rel" using mn Node.prems(3) AEM_NFA_NODE_REPEAT by (auto simp: word_le_nat_alt unat_eq_0)
      have "repeat_lang 0 0 L = (=)" for L :: "nat \<Rightarrow> nat \<Rightarrow> bool" by (auto simp: repeat_lang_def UINT_MAX_def fun_eq_iff)
      then show ?thesis unfolding gen_lang_def
        using AEM_NFA_NODE_REPEAT True zero c(1) stretch_empty
        by (auto simp: Let_def gen_result_def node_repeat_gen_def UINT_MAX_def split: if_splits)
    next
      case False
      then have g: "gen_ok K (?g c)" "gen_lang cs (emits_code c) (node_lang cs c) (?g c)"
        and rel: "rel \<longrightarrow> mn \<noteq> 0 \<and> \<not> emits_code c"
        using kids [of c] c AEM_NFA_NODE_REPEAT Node.prems(3) by auto
      show ?thesis unfolding gen_lang_def
      proof (intro allI impI, goal_cases)
        case (1 ctx r ctx' P)
        then obtain b where b: "node_repeat_gen m t mn mx rel (?g c) ctx = Some (b, ctx')"
          "r = (if b then cc_n ctx else AEM_NFA_PARSE_ERROR)"
          using AEM_NFA_NODE_REPEAT c(1) by (auto simp: Let_def gen_result_def)
        have "node_repeat_gen m t mn mx False (?g c) ctx = Some (b, ctx')"
          using empty_repeat_reluctant [of K "?g c" cs "node_lang cs c" mn m t mx ctx b ctx'] g entry rel b(1) 1(1,3) by (cases rel) auto
        then show ?case
          using node_repeat_gen_lang [OF g entry mn _ 1(1,3), of m t b P] b(2) AEM_NFA_NODE_REPEAT c(1)
          by (simp add: stretch_def split: if_splits)
      qed
    qed
  next
    case AEM_NFA_NODE_BRANCH
    then have all: "\<forall>c \<in> set ns. gen_ok K (?g c) \<and> gen_lang cs (emits_code c) (node_lang cs c) (?g c)"
      using kids Node.prems(1) by auto
    show ?thesis unfolding gen_lang_def
    proof (intro allI impI, goal_cases)
      case (1 ctx r ctx' P)
      then obtain b where b: "branch_gen (map ?g ns) ctx = Some (b, ctx')"
        "r = (if b then cc_n ctx else AEM_NFA_PARSE_ERROR)"
        using AEM_NFA_NODE_BRANCH by (auto simp: Let_def gen_result_def)
      show ?case
        using branch_gen_lang [OF all b(1) 1(1,3), of P] b(2) AEM_NFA_NODE_BRANCH
        by (simp add: list_ex_iff)
    qed
  next
    case AEM_NFA_NODE_ALTERNATION
    then have all: "\<forall>c \<in> set ns. gen_ok K (?g c) \<and> gen_lang cs (emits_code c) (node_lang cs c) (?g c)"
      using kids Node.prems(1) by auto
    show ?thesis unfolding gen_lang_def
    proof (intro allI impI, goal_cases)
      case (1 ctx r ctx' P)
      then obtain ok where b: "alternation_gen m t (map ?g ns) AEM_NFA_PARSE_ERROR ctx = Some (ok, ctx')" "r = cc_n ctx"
        using AEM_NFA_NODE_ALTERNATION by (auto simp: Let_def aem_nfa_node_gen_alternation_def bind_eq_Some_conv)
      show ?case
      proof (cases "ns = []")
        case True
        then show ?thesis using b AEM_NFA_NODE_ALTERNATION stretch_empty [of P cs "cc_n ctx"] by simp
      next
        case False
        then show ?thesis
          using alternation_gen_lang [OF all False b(1) 1(1,3)] b(2) AEM_NFA_NODE_ALTERNATION
          by (auto simp: list_ex_iff)
      qed
    qed
  qed
qed

section \<open>Errors\<close>

definition gen_fails :: "node_gen \<Rightarrow> bool" where
  "gen_fails g \<longleftrightarrow> (\<forall>ctx r ctx'. nfa_store (cc_nfa ctx) \<longrightarrow> g ctx = Some (r, ctx') \<longrightarrow> cc_n ctx' < 2 ^ 29 \<longrightarrow>
     r = AEM_NFA_PARSE_ERROR)"

lemma gen_failsD:
  "gen_fails g \<Longrightarrow> g ctx = Some (r, ctx') \<Longrightarrow> nfa_store (cc_nfa ctx) \<Longrightarrow> cc_n ctx' < 2 ^ 29 \<Longrightarrow> r = AEM_NFA_PARSE_ERROR"
  unfolding gen_fails_def by blast

lemma gen_fails_result:
  assumes "\<And>ctx ok ctx'. f ctx = Some (ok, ctx') \<Longrightarrow> nfa_store (cc_nfa ctx) \<Longrightarrow> cc_n ctx' < 2 ^ 29 \<Longrightarrow> \<not> ok"
  shows "gen_fails (\<lambda>ctx. gen_result (cc_n ctx) (f ctx))"
  unfolding gen_fails_def gen_result_def
proof (intro allI impI, elim map_option_eq_Some [THEN iffD1, elim_format] exE conjE)
  fix ctx r ctx' z
  assume "nfa_store (cc_nfa ctx)" "cc_n ctx' < 2 ^ 29" "f ctx = Some z"
    "(case z of (ok, ctx1) \<Rightarrow> (if ok then cc_n ctx else AEM_NFA_PARSE_ERROR, ctx1)) = (r, ctx')"
  then show "r = AEM_NFA_PARSE_ERROR" using assms [of ctx "fst z" "snd z"] by (cases z) auto
qed

lemma branch_gen_fails:
  assumes "\<forall>c \<in> set ns. gen_ok K (g c)" "\<exists>c \<in> set ns. gen_fails (g c)"
    and "branch_gen (map g ns) ctx = Some (ok, ctx')" "nfa_store (cc_nfa ctx)" "cc_n ctx' < 2 ^ 29"
  shows "\<not> ok"
  using assms
proof (induction ns arbitrary: ctx)
  case (Cons c ns)
  obtain r ctx1 where a: "g c ctx = Some (r, ctx1)"
    "(if r = AEM_NFA_PARSE_ERROR then Some (False, ctx1) else branch_gen (map g ns) ctx1) = Some (ok, ctx')"
    using Cons.prems(3) by (auto simp: bind_eq_Some_conv)
  show ?case
  proof (cases "r = AEM_NFA_PARSE_ERROR")
    case False
    have g: "gen_ok K (g c)" using Cons.prems(1) by simp
    have s: "gen_step K (cc_n ctx) ctx ctx1" using gen_okD [where g = "g c", OF g a(1) Cons.prems(4) order_refl] .
    have b: "branch_gen (map g ns) ctx1 = Some (ok, ctx')" using a(2) False by simp
    have "gen_step K (cc_n ctx1) ctx1 ctx'"
      by (rule branch_gen_step [OF _ b gen_step_store [OF s] order_refl]) (use Cons.prems(1) in simp)
    then have "cc_n ctx1 < 2 ^ 29" using gen_step_le Cons.prems(5) by fastforce
    then have "\<not> gen_fails (g c)" using gen_failsD [where g = "g c", OF _ a(1) Cons.prems(4)] False by blast
    then show ?thesis using Cons.IH [OF _ _ b gen_step_store [OF s] Cons.prems(5)] Cons.prems(1,2) by simp
  qed (use a in simp)
qed simp

lemma capture_gen_fails:
  assumes "gen_fails g" "capture_gen m txt k g ctx = Some (ok, ctx')" "nfa_store (cc_nfa ctx)" "cc_n ctx' < 2 ^ 29"
    and g: "gen_ok K g" "k < K"
  shows "\<not> ok"
proof
  assume "ok"
  then obtain c0 ctx1 r ctx2 c1 ctx3 where a: "cc_append m ctx (aem_nfa_insn_capture 0 k) = Some (c0, ctx1)"
    "g (re_set_debug ctx1 c0 (ss_set_end txt (ss_start txt + 1))) = Some (r, ctx2)" "r \<noteq> AEM_NFA_PARSE_ERROR"
    "cc_append m ctx2 (aem_nfa_insn_capture 1 k) = Some (c1, ctx3)" "cc_n ctx' = cc_n ctx3"
    using assms(2) by (auto simp: capture_gen_def bind_eq_Some_conv split: if_splits)
  note a1 = append_code [OF a(1) assms(3)]
  have s: "gen_step K 0 (re_set_debug ctx1 c0 (ss_set_end txt (ss_start txt + 1))) ctx2"
    using gen_okD [where g = g, OF g(1) a(2)] a1(5) by simp
  have "cc_n ctx2 < 2 ^ 29" using append_code(2) [OF a(4) gen_step_store [OF s]] a(5) assms(4) by simp
  then show False using gen_failsD [where g = g, OF assms(1) a(2)] a(3) a1(5) by simp
qed

lemma repeat_gen_fails:
  assumes g: "gen_fails g" "gen_ok K g" "gen_entry g"
    and res: "repeat_gen g (Suc k) rep ctx = Some (r, ctx')" and st: "nfa_store (cc_nfa ctx)" "cc_n ctx' < 2 ^ 29"
    and rep: "rep \<le> cc_n ctx"
  shows "r = AEM_NFA_PARSE_ERROR"
proof -
  obtain r1 ctx1 where a: "g ctx = Some (r1, ctx1)"
    "(if r1 = AEM_NFA_PARSE_ERROR then Some (AEM_NFA_PARSE_ERROR, ctx1) else repeat_gen g k r1 ctx1) = Some (r, ctx')"
    using res by (auto simp: bind_eq_Some_conv)
  show ?thesis
  proof (cases "r1 = AEM_NFA_PARSE_ERROR")
    case False
    have s: "gen_step K (cc_n ctx) ctx ctx1" using gen_okD [where g = g, OF g(2) a(1) st(1) order_refl] .
    have "r1 = cc_n ctx" using g(3) a(1) False unfolding gen_entry_def by blast
    then have "r1 \<le> cc_n ctx1" using gen_step_le [OF s] by simp
    then have "cc_n ctx1 \<le> cc_n ctx'"
      using repeat_gen_step [OF g(2), of k r1 ctx1 r ctx' "cc_n ctx1"] a(2) False gen_step_store [OF s] g(3)
      by (auto simp: gen_entry_def dest: gen_step_le)
    then show ?thesis using gen_failsD [where g = g, OF g(1) a(1) st(1)] st(2) False by simp
  qed (use a in simp)
qed

text \<open>The first append and the call of the generator in an optional repetition or a star.\<close>
lemma fork_gen_fails:
  assumes g: "gen_fails g" "gen_ok K g" and st: "nfa_store (cc_nfa ctx)"
    and a: "cc_append m ctx (aem_nfa_insn_fork 0) = Some (fork, ctx1)" "g ctx1 = Some (r, ctx2)" "cc_n ctx2 < 2 ^ 29"
  shows "r = AEM_NFA_PARSE_ERROR"
  by (rule gen_failsD [where g = g, OF g(1) a(2) append_code(5) [OF a(1) st] a(3)])

lemma optional_gen_fails:
  assumes g: "gen_fails g" "gen_ok K g" and res: "optional_gen m txt g (Suc k) ctx = Some (ok, ctx')"
    and st: "nfa_store (cc_nfa ctx)" "cc_n ctx' < 2 ^ 29"
  shows "\<not> ok"
proof -
  obtain fork ctx1 r ctx2 where a: "cc_append m ctx (aem_nfa_insn_fork 0) = Some (fork, ctx1)" "g ctx1 = Some (r, ctx2)"
    "(if r = AEM_NFA_PARSE_ERROR then Some (False, ctx2)
      else do { ctx3 \<leftarrow> cc_put m ctx2 fork (aem_nfa_insn_fork (cc_n ctx2));
                optional_gen m txt g k (re_set_debug ctx3 fork txt) }) = Some (ok, ctx')"
    using res by (auto simp: bind_eq_Some_conv)
  note step = fork_gen_step [OF g(2) st(1) order_refl a(1,2)]
  show ?thesis
  proof (cases "r = AEM_NFA_PARSE_ERROR")
    case False
    then obtain ctx3 where p: "cc_put m ctx2 fork (aem_nfa_insn_fork (cc_n ctx2)) = Some ctx3"
      "optional_gen m txt g k (re_set_debug ctx3 fork txt) = Some (ok, ctx')"
      using a(3) by (auto simp: bind_eq_Some_conv)
    have s: "gen_step K (cc_n ctx) ctx (re_set_debug ctx3 fork txt)" "cc_n ctx3 = cc_n ctx2"
      using step(4) [OF p(1), of "txt"] by simp_all
    have "cc_n ctx2 \<le> cc_n ctx'"
      using gen_step_le [OF optional_gen_step [OF g(2) p(2) gen_step_store [OF s(1)] le0]] s(2) by simp
    then show ?thesis using fork_gen_fails [OF g st(1) a(1,2)] st(2) False by simp
  qed (use a in simp)
qed

lemma star_gen_fails:
  assumes g: "gen_fails g" "gen_ok K g" and res: "star_gen m txt g ctx = Some (ok, ctx')"
    and st: "nfa_store (cc_nfa ctx)" "cc_n ctx' < 2 ^ 29"
  shows "\<not> ok"
proof
  assume "ok"
  then obtain fork ctx1 r ctx2 jmp ctx3 ctx4 where a: "cc_append m ctx (aem_nfa_insn_fork 0) = Some (fork, ctx1)"
    "g ctx1 = Some (r, ctx2)" "r \<noteq> AEM_NFA_PARSE_ERROR" "cc_append m ctx2 (aem_nfa_insn_jmp fork) = Some (jmp, ctx3)"
    "cc_put m ctx3 fork (aem_nfa_insn_fork (cc_n ctx3)) = Some ctx4" "cc_n ctx' = cc_n ctx4"
    using res by (auto simp: star_gen_def bind_eq_Some_conv split: if_splits)
  note step = fork_gen_step [OF g(2) st(1) order_refl a(1,2)]
  note a3 = append_code [OF a(4) gen_step_store [OF step(1)]]
  have "cc_n ctx2 < 2 ^ 29" using put_code(4) [OF a(5) a3(5)] a3(2) step(3) a(6) st(2) by simp
  then show False using fork_gen_fails [OF g st(1) a(1,2)] a(3) by blast
qed

text \<open>A tree that cannot be compiled is an error, unless the error is in an alternative.\<close>
lemma node_repeat_gen_fails:
  assumes g: "gen_ok K g" "gen_entry g" and mn: "mn \<le> mx"
    and bad: "if mx = 0 then rel else gen_fails g \<or> rel \<and> gen_lang cs em L g \<and> (mn = 0 \<or> em)"
    and res: "node_repeat_gen m txt mn mx rel g ctx = Some (ok, ctx')" and st: "nfa_store (cc_nfa ctx)" "cc_n ctx' < 2 ^ 29"
  shows "\<not> ok"
proof -
  obtain rep ctx1 where a: "repeat_gen g (unat mn) (cc_n ctx) ctx = Some (rep, ctx1)"
    "(if rep = AEM_NFA_PARSE_ERROR then Some (False, ctx1)
      else if mn \<noteq> 0 \<and> cc_n ctx1 = cc_n ctx then Some (True, ctx1)
      else if rel then Some (False, ctx1)
      else if mx = mn \<and> mx \<noteq> UINT_MAX then Some (True, ctx1)
      else if mx \<noteq> UINT_MAX then optional_gen m txt g (unat mx - unat mn) ctx1
      else if mn \<noteq> 0 then do {
          (fork, ctx2) \<leftarrow> cc_append m ctx1 (aem_nfa_insn_fork rep);
          Some (True, re_set_debug ctx2 fork txt) }
      else star_gen m txt g ctx1) = Some (ok, ctx')"
  proof -
    have "\<not> mx < mn" using mn by simp
    then show ?thesis using res [unfolded node_repeat_gen_def if_False] that by (auto simp: bind_eq_Some_conv)
  qed
  have e: "\<And>ctx r ctx'. g ctx = Some (r, ctx') \<Longrightarrow> r = AEM_NFA_PARSE_ERROR \<or> r = cc_n ctx"
    using g(2) by (simp add: gen_entry_def)
  have s1: "gen_step K (cc_n ctx) ctx ctx1" and rep_le: "rep = AEM_NFA_PARSE_ERROR \<or> rep \<le> cc_n ctx1"
    using repeat_gen_step [OF g(1) a(1) st(1) order_refl order_refl e] by simp_all
  note st1 = gen_step_store [OF s1]
  consider "ctx' = ctx1" | "optional_gen m txt g (unat mx - unat mn) ctx1 = Some (ok, ctx')"
    | "star_gen m txt g ctx1 = Some (ok, ctx')"
    | fork ctx2 where "cc_append m ctx1 (aem_nfa_insn_fork rep) = Some (fork, ctx2)" "ctx' = re_set_debug ctx2 fork txt"
    using a(2) by (auto simp: bind_eq_Some_conv split: if_splits)
  then have le: "cc_n ctx1 \<le> cc_n ctx'"
  proof cases
    case 2
    then show ?thesis using gen_step_le [OF optional_gen_step [OF g(1) _ st1 le0]] by blast
  next
    case 3
    then show ?thesis using gen_step_le [OF star_gen_step [OF g(1) _ st1 le0]] by blast
  next
    case 4
    then show ?thesis using append_code(2) [OF 4(1) st1] by simp
  qed simp
  then have b1: "cc_n ctx1 < 2 ^ 29" using st(2) by simp
  show ?thesis
  proof (cases "mn = 0")
    case True
    then have c: "ctx1 = ctx" "rep = cc_n ctx" using a(1) by auto
    show ?thesis
    proof (cases rel)
      case True
      then show ?thesis using a(2) \<open>mn = 0\<close> by (auto split: if_splits)
    next
      case False
      then have f: "gen_fails g" "mx \<noteq> 0" using bad by (auto split: if_splits)
      then obtain k where k: "unat mx - unat mn = Suc k" using True by (metis diff_zero not0_implies_Suc unat_0 unat_eq_0)
      show ?thesis
        using a(2) c False True f optional_gen_fails [OF f(1) g(1), of m "txt" k ctx ok ctx'] star_gen_fails [OF f(1) g(1), of m "txt" ctx ok ctx'] st k
        by (auto split: if_splits)
    qed
  next
    case False
    then obtain k where k: "unat mn = Suc k" by (metis not0_implies_Suc unat_eq_0)
    have "mx \<noteq> 0" using mn False by (auto simp: word_le_nat_alt unat_eq_0)
    then consider "gen_fails g" | "rel" "gen_lang cs em L g" "em" using bad False by auto
    then show ?thesis
    proof cases
      case 1
      then have "rep = AEM_NFA_PARSE_ERROR"
        using repeat_gen_fails [OF 1 g, of k "cc_n ctx" ctx rep ctx1] a(1) k st(1) b1 by simp
      then show ?thesis using a(2) by simp
    next
      case 2
      have "cc_n ctx < cc_n ctx1"
        using repeat_gen_lang [OF g(1) 2(2) g(2), of k "cc_n ctx" ctx rep ctx1] a(1) k st(1) b1 2(3) by simp
      then show ?thesis using a(2) 2(1) by (auto split: if_splits)
    qed
  qed
qed

lemma node_compile_fails:
  assumes "tree_ok lo hi nd" "hi \<le> K" "errors_kept nd" "\<not> compilable nd"
  shows "gen_fails (aem_nfa_node_compile m al nd)"
  using assms
proof (induction nd arbitrary: lo)
  case (Node args t ns)
  let ?g = "aem_nfa_node_compile m al"
  have ok: "gen_ok K (?g c)" if "tree_ok lo' hi c" for c lo' using node_compile_ok [OF that Node.prems(2)] .
  have entry: "gen_entry (?g c)" for c using node_compile_entry by (auto simp: gen_entry_def)
  have fails: "gen_fails (?g c)" if "c \<in> set ns" "tree_ok lo' hi c" "\<not> compilable c" for c lo'
    using Node.IH [OF that(1,2) Node.prems(2) _ that(3)] that(1) Node.prems(3) by (simp add: list_all_iff)
  show ?case
  proof (cases args)
    case (AEM_NFA_NODE_CAPTURE k)
    then obtain c where c: "ns = [c]" "tree_ok (Suc k) hi c" "k < K"
      using Node.prems by (auto simp: tree_ok.simps length_Suc_conv)
    have "gen_fails (?g c)" using fails [of c "Suc k"] c Node.prems(4) AEM_NFA_NODE_CAPTURE by simp
    from gen_fails_result [OF capture_gen_fails [OF this _ _ _ ok [OF c(2)] c(3)]]
    have "gen_fails (\<lambda>ctx. gen_result (cc_n ctx) (capture_gen m t k (?g c) ctx))" .
    moreover have "?g (Node args t ns) = (\<lambda>ctx. gen_result (cc_n ctx) (capture_gen m t k (?g c) ctx))"
      using AEM_NFA_NODE_CAPTURE c(1) by (auto simp: fun_eq_iff Let_def)
    ultimately show ?thesis by simp
  next
    case (AEM_NFA_NODE_REPEAT mn mx rel)
    then obtain c where c: "ns = [c]" "tree_ok lo hi c" and mn: "mn \<le> mx"
      using Node.prems by (auto simp: tree_ok.simps length_Suc_conv)
    have "if mx = 0 then rel else gen_fails (?g c) \<or>
        rel \<and> gen_lang cs (emits_code c) (node_lang cs c) (?g c) \<and> (mn = 0 \<or> emits_code c)" for cs
      using fails [of c lo] node_compile_lang [OF c(2) Node.prems(2)] c Node.prems(4) AEM_NFA_NODE_REPEAT mn by auto
    from gen_fails_result [OF node_repeat_gen_fails [OF ok [OF c(2)] entry mn this]]
    have "gen_fails (\<lambda>ctx. gen_result (cc_n ctx) (node_repeat_gen m t mn mx rel (?g c) ctx))" .
    moreover have "?g (Node args t ns) = (\<lambda>ctx. gen_result (cc_n ctx) (node_repeat_gen m t mn mx rel (?g c) ctx))"
      using AEM_NFA_NODE_REPEAT c(1) by (auto simp: fun_eq_iff Let_def)
    ultimately show ?thesis by simp
  next
    case AEM_NFA_NODE_BRANCH
    then have trees: "\<forall>c \<in> set ns. tree_ok lo hi c" and bad: "\<exists>c \<in> set ns. \<not> compilable c"
      using Node.prems(1,4) by (auto simp: list_all_iff)
    have "\<forall>c \<in> set ns. gen_ok K (?g c)" "\<exists>c \<in> set ns. gen_fails (?g c)"
      using ok trees bad fails by blast+
    from gen_fails_result [OF branch_gen_fails [OF this]]
    have "gen_fails (\<lambda>ctx. gen_result (cc_n ctx) (branch_gen (map ?g ns) ctx))" .
    moreover have "?g (Node args t ns) = (\<lambda>ctx. gen_result (cc_n ctx) (branch_gen (map ?g ns) ctx))"
      using AEM_NFA_NODE_BRANCH by (auto simp: fun_eq_iff Let_def)
    ultimately show ?thesis by simp
  qed (use Node.prems in \<open>auto simp: tree_ok.simps\<close>)
qed

section \<open>The language of a program with a new pattern\<close>

text \<open>The old program, the new piece and its match instruction.\<close>
definition new_pattern :: "nfa \<Rightarrow> nat \<Rightarrow> nfa \<Rightarrow> bool" where
  "new_pattern nfa k nfa' \<longleftrightarrow> nfa_grows nfa nfa' \<and> n_insns nfa < n_insns nfa' \<and>
     nfa_decode (pgm nfa' ! (n_insns nfa' - 1)) = I_Match k \<and>
     (\<forall>p \<in> {n_insns nfa..<n_insns nfa'}. bitfield_test (thr_init nfa') p \<longleftrightarrow> p = n_insns nfa)"

lemma new_pattern_accepts:
  assumes ok: "nfa_ok nfa" and new: "new_pattern nfa k' nfa'"
    and piece: "stretch nfa' cs (n_insns nfa) (n_insns nfa' - 1) L"
  shows "nfa_accepts nfa' cs j k \<longleftrightarrow> nfa_accepts nfa cs j k \<or> k = k' \<and> L 0 j"
proof -
  let ?s = "n_insns nfa" and ?e = "n_insns nfa' - 1"
  have wf: "nfa_wf nfa" using ok by (simp add: nfa_ok_def)
  have grows: "nfa_grows nfa nfa'" and lt: "?s \<le> ?e" "n_insns nfa' = Suc ?e"
    and match: "nfa_decode (pgm nfa' ! ?e) = I_Match k'" using new by (auto simp: new_pattern_def)
  have old: "pgm nfa' ! p = pgm nfa ! p" if "p < ?s" for p using grows that by (simp add: nfa_grows_def)
  have init: "bitfield_test (thr_init nfa') p \<longleftrightarrow> (if p < ?s then bitfield_test (thr_init nfa) p else p = ?s)"
    if "p < n_insns nfa'" for p
    using new that grows by (auto simp: new_pattern_def nfa_grows_def)
  have exits: "exits nfa' cs {?s..<?e} ?s ?e L" and nomatch: "\<And>p. p \<in> {?s..<?e} \<Longrightarrow> \<not> is_match nfa' p"
    using piece by (auto simp: stretch_def)
  have at_end: "q = ?e \<and> L 0 i" if "path nfa' cs {?s..<?e} (0, ?s) (i, q)" "q \<notin> {?s..<?e}" for i q
    using exits that by (simp add: exits_def)
  have inv: "p < ?s \<and> nfa_at nfa cs i p \<or> p \<in> {?s..<?e} \<and> path nfa' cs {?s..<?e} (0, ?s) (i, p) \<or> p = ?e \<and> L 0 i"
    if "nfa_at nfa' cs i p" for i p
    using that
  proof induction
    case (start p)
    then show ?case
    proof (cases "p < ?s")
      case True
      then show ?thesis using start init [of p] by (auto intro: nfa_at.start)
    next
      case False
      then have "p = ?s" using start init [of p] by simp
      then show ?thesis using at_end [of 0 ?s] by (cases "?s < ?e") (use lt in auto)
    qed
  next
    case (eps i p q)
    have step: "nfa_step nfa' cs (i, p) (i, q)" using eps.hyps(2) by (simp add: nfa_step_def)
    from eps.IH show ?case
    proof (elim disjE conjE)
      assume p: "p < ?s" "nfa_at nfa cs i p"
      then have "q \<in> set (eps_succ nfa (char_before cs i) (char_at cs i) p)"
        using eps.hyps(2) old [OF p(1)] by (simp add: eps_succ_def)
      then have "nfa_at nfa cs i q" by (rule nfa_at.eps [OF p(2)])
      then show ?thesis using nfa_at_less [OF _ wf] by blast
    next
      assume p: "p \<in> {?s..<?e}" "path nfa' cs {?s..<?e} (0, ?s) (i, p)"
      then have "path nfa' cs {?s..<?e} (0, ?s) (i, q)"
        using step unfolding path_def by (auto simp: step_in_def intro: rtranclp.rtrancl_into_rtrancl)
      then show ?thesis using at_end by blast
    next
      assume "p = ?e"
      then show ?thesis using eps.hyps(2) match by (simp add: eps_succ_def)
    qed
  next
    case (consume i p)
    have step: "nfa_step nfa' cs (i, p) (Suc i, Suc p)" using consume.hyps by (simp add: nfa_step_def)
    from consume.IH show ?case
    proof (elim disjE conjE)
      assume p: "p < ?s" "nfa_at nfa cs i p"
      then have "consumes nfa (char_at cs i) p" using consume.hyps(3) old [OF p(1)] by (simp add: consumes_def)
      then have "nfa_at nfa cs (Suc i) (Suc p)" by (rule nfa_at.consume [OF p(2) consume.hyps(2)])
      then show ?thesis using nfa_at_less [OF _ wf] by blast
    next
      assume p: "p \<in> {?s..<?e}" "path nfa' cs {?s..<?e} (0, ?s) (i, p)"
      then have "path nfa' cs {?s..<?e} (0, ?s) (Suc i, Suc p)"
        using step unfolding path_def by (auto simp: step_in_def intro: rtranclp.rtrancl_into_rtrancl)
      then show ?thesis using at_end by blast
    next
      assume "p = ?e"
      then show ?thesis using consume.hyps(3) match by (simp add: consumes_def)
    qed
  qed
  have reach: "nfa_at nfa' cs (fst x) (snd x)" if "path nfa' cs A (0, ?s) x" for x A
    using that unfolding path_def
  proof (induction rule: rtranclp_induct)
    case base
    then show ?case using init [of ?s] lt by (auto intro: nfa_at.start)
  next
    case (step x y)
    then show ?case
      by (cases x; cases y) (auto simp: step_in_def nfa_step_def intro: nfa_at.eps nfa_at.consume)
  qed
  show ?thesis
  proof
    assume "nfa_accepts nfa' cs j k"
    then obtain p where p: "nfa_at nfa' cs j p" "nfa_decode (pgm nfa' ! p) = I_Match k" by (auto simp: nfa_accepts_def)
    from inv [OF p(1)] show "nfa_accepts nfa cs j k \<or> k = k' \<and> L 0 j"
      using p(2) old nomatch match by (auto simp: nfa_accepts_def is_match_def)
  next
    assume "nfa_accepts nfa cs j k \<or> k = k' \<and> L 0 j"
    then show "nfa_accepts nfa' cs j k"
    proof
      assume "nfa_accepts nfa cs j k"
      then show ?thesis by (rule grows_accepts [OF grows wf])
    next
      assume "k = k' \<and> L 0 j"
      then have "path nfa' cs {?s..<?e} (0, ?s) (j, ?e)" "k = k'" using exits by (simp_all add: exits_def)
      then show ?thesis using reach [of "{?s..<?e}" "(j, ?e)"] match by (auto simp: nfa_accepts_def)
    qed
  qed
qed

context pattern_compiler
begin

text \<open>A successfully added pattern extends the language of the program by the meaning of its tree.\<close>
lemma add_language:
  assumes ok: "nfa_ok nfa" and fits: "\<And>ctx. cc_in ctx = sl \<Longrightarrow> fits ctx"
    and flags: "aem_regex_flags_adj flags AEM_REGEX_FLAG_BINARY False = (fl, rest)" "\<not> aem_stringslice_ok rest"
    and parse: "compile \<lparr>cc_in = sl, cc_nfa = nfa, cc_n_captures = 0, cc_match = j, cc_rc = 0, cc_flags = fl\<rparr> = Some (Some nd, ctx1)"
      "\<not> aem_stringslice_ok (cc_in ctx1)"
    and kept: "errors_kept nd" and j: "j = (if 0 \<le> match then match else n_matches nfa)" "j < 2 ^ 29"
    and res: "aem_nfa_add m al nfa sl match flags compile = Some (rc, sl', nfa')" "0 \<le> rc" "n_insns nfa' < 2 ^ 29"
  shows "rc = j \<and> (nfa_accepts nfa' cs i k \<longleftrightarrow> nfa_accepts nfa cs i k \<or> int k = j \<and> node_lang cs nd 0 i)"
proof -
  define ctx0 where "ctx0 = \<lparr>cc_in = sl, cc_nfa = nfa, cc_n_captures = 0, cc_match = j, cc_rc = 0, cc_flags = fl\<rparr>"
  have ctx0: "fits ctx0" "cc_n_captures ctx0 = 0" "cc_nfa ctx0 = nfa" "cc_match ctx0 = j" "cc_rc ctx0 = 0"
    using fits by (simp_all add: ctx0_def)
  have 1: "compile ctx0 = Some (Some nd, ctx1)" using parse(1) by (simp add: ctx0_def)
  have c1: "cc_nfa ctx1 = nfa" "cc_match ctx1 = j" "cc_rc ctx1 = 0" using keeps [OF ctx0(1,2) 1] ctx0(3-5) by simp_all
  note unfold = res(1) [unfolded aem_nfa_add_def flags(1) prod.case Let_def j(1) [symmetric] ctx0_def [symmetric] 1 Option.bind.bind_lunit]
  obtain r ctx2 where 2: "aem_nfa_node_compile m al nd ctx1 = Some (r, ctx2)"
    using unfold flags(2) c1(3) parse(2) by (auto simp: bind_eq_Some_conv split: if_splits)
  have tree: "tree_ok 0 (n_caps ctx1) nd" using local.tree [OF ctx0(1,2) 1] .
  have gen: "gen_ok (n_caps ctx1) (aem_nfa_node_compile m al nd)" by (rule node_compile_ok [OF tree order_refl])
  have st1: "nfa_store (cc_nfa ctx1)" using ok c1(1) by (simp add: nfa_ok_def)
  have step: "gen_step (n_caps ctx1) (n_insns nfa) ctx1 ctx2"
    using gen_okD [where g = "aem_nfa_node_compile m al nd", OF gen 2 st1] c1(1) by (simp add: cc_n_def)
  then have frame: "cc_frame (n_insns nfa) ctx1 ctx2" by (simp add: gen_step_def)
  define ctx3 where "ctx3 = (if n_captures (cc_nfa ctx2) < n_caps ctx2
        then ctx2\<lparr>cc_nfa := (cc_nfa ctx2)\<lparr>n_captures := n_caps ctx2\<rparr>\<rparr> else ctx2)"
  have "r \<noteq> AEM_NFA_PARSE_ERROR" using unfold flags(2) c1(3) parse(2) 2 res(2) by auto
  then have "(do { (last_pc, ctx4) \<leftarrow> cc_append m ctx3 (aem_nfa_insn_match (cc_match ctx3));
                let ctx5 = re_set_debug ctx4 last_pc sl; nfa5 = cc_nfa ctx5;
                    nfa6 = (if n_matches nfa5 < cc_match ctx5 + 1 then nfa5\<lparr>n_matches := cc_match ctx5 + 1\<rparr> else nfa5);
                    nfa7 = nfa6\<lparr>thr_init := bitfield_set (thr_init nfa6) (n_insns nfa)\<rparr>
                in Some (cc_match ctx5, cc_in ctx5, nfa7) }) = Some (rc, sl', nfa')"
    using unfold flags(2) c1(3) parse(2) 2 by (simp add: Let_def flip: ctx3_def)
  then obtain l ctx4 where a: "cc_append m ctx3 (aem_nfa_insn_match (cc_match ctx3)) = Some (l, ctx4)"
    and fin: "pgm nfa' = pgm (cc_nfa ctx4)" "n_insns nfa' = cc_n ctx4" "rc = cc_match ctx4"
      "thr_init nfa' = bitfield_set (thr_init (cc_nfa ctx4)) (n_insns nfa)"
    by (auto simp: Let_def bind_eq_Some_conv re_set_debug_def aem_nfa_set_dbg_def cc_n_def split: if_splits)
  have c3: "nfa_store (cc_nfa ctx3)" "pgm (cc_nfa ctx3) = pgm (cc_nfa ctx2)" "cc_n ctx3 = cc_n ctx2"
    "thr_init (cc_nfa ctx3) = thr_init (cc_nfa ctx2)" "cc_match ctx3 = j"
    using frame c1(2) by (auto simp: ctx3_def cc_frame_def cc_n_def nfa_store_def)
  have nfa4: "aem_nfa_append_insn m (cc_nfa ctx3) (aem_nfa_insn_match j) = Some (l, cc_nfa ctx4)" "cc_match ctx4 = j"
    using a c3(5) by (auto simp: cc_append_def bind_eq_Some_conv)
  note a4 = append_code [OF a c3(1)]
  have le: "n_insns nfa \<le> cc_n ctx2" using frame c1(1) by (simp add: cc_frame_def cc_n_def)
  have n': "n_insns nfa' = Suc (cc_n ctx2)" using fin(2) a4(2) c3(3) by simp
  have ji: "j = int (nat j)" using res(2) fin(3) nfa4(2) by simp
  have "nfa_grows nfa (cc_nfa ctx2)" using frame_grows [OF frame c1(1)] ok by (simp add: nfa_ok_def)
  then have "nfa_grows nfa (cc_nfa ctx3)" by (simp add: ctx3_def)
  then have grows4: "nfa_grows nfa (cc_nfa ctx4)" by (rule nfa_grows_trans [OF _ append_grows [OF c3(1) nfa4(1)]])
  have st4: "nfa_store (cc_nfa ctx4)" by (rule a4(5))
  then have room: "bf_room (thr_init (cc_nfa ctx4)) (n_insns nfa')"
    using fin(2) by (simp add: nfa_store_def bf_room_def cc_n_def)
  have test: "bitfield_test (thr_init nfa') p \<longleftrightarrow> p = n_insns nfa \<or> bitfield_test (thr_init (cc_nfa ctx4)) p" for p
    using bitfield_set_test [OF room, of "n_insns nfa" p] fin(4) le n' by auto
  obtain z where zeros: "thr_init (cc_nfa ctx4) = thr_init nfa @ replicate z 0"
  proof -
    have "cc_n ctx3 < 2 ^ 64" using c3(1) by (simp add: nfa_store_def cc_n_def)
    then have "put_effect (cc_nfa ctx3) (cc_n ctx3) (aem_nfa_insn_match j) (cc_nfa ctx4)"
      using put_insn_effect [OF c3(1), of m "cc_n ctx3"] nfa4(1) by (simp add: aem_nfa_append_insn_def cc_n_def)
    then have "\<exists>z. thr_init (cc_nfa ctx4) = thr_init nfa @ replicate z 0"
      using frame c1(1) c3(4) by (auto simp: put_effect_def cc_frame_def simp flip: replicate_add)
    then show ?thesis using that by blast
  qed
  have "nfa_grows nfa nfa'"
    using grows4 test fin(1,2) le n' by (auto simp: nfa_grows_def)
  moreover have "\<not> bitfield_test (thr_init (cc_nfa ctx4)) p" if "n_insns nfa \<le> p" "p < n_insns nfa'" for p
  proof -
    have "p < 32 * (length (thr_init nfa) + z)" using that(2) room zeros by (simp add: bf_room_def)
    then show ?thesis using test_append_zeros [of p "thr_init nfa" z] zeros that(1) ok
      by (auto simp: nfa_ok_def init_inside_def)
  qed
  moreover have "nfa_decode (pgm nfa' ! (n_insns nfa' - 1)) = I_Match (nat j)"
    using a4(3) c3(3,5) fin(1) n' decode_match [of "nat j"] j(2) ji by simp
  ultimately have new: "new_pattern nfa (nat j) nfa'"
    using test n' le by (auto simp: new_pattern_def)
  have "has_code nfa' ctx1 ctx2"
    using a4(4) c3(2,3) fin(1) by (simp add: has_code_def)
  moreover have "compilable nd"
    using node_compile_fails [OF tree order_refl kept] gen_failsD [where g = "aem_nfa_node_compile m al nd", OF _ 2 st1] \<open>r \<noteq> AEM_NFA_PARSE_ERROR\<close> n' res(3) by fastforce
  ultimately have "stretch nfa' cs (n_insns nfa) (n_insns nfa' - 1) (node_lang cs nd)"
    using gen_langD(3) [OF node_compile_lang [OF tree order_refl] 2 st1] n' res(3) c1(1) by (simp add: cc_n_def)
  from new_pattern_accepts [OF ok new this, of i k] show ?thesis using fin(3) nfa4(2) ji by auto
qed

end

section \<open>Patterns\<close>


lemma nothing_at: "nfa_at AEM_NFA_EMPTY cs i p \<Longrightarrow> False"
  by (induction rule: nfa_at.induct) (auto simp: AEM_NFA_EMPTY_def)

lemma empty_accepts [simp]: "\<not> nfa_accepts AEM_NFA_EMPTY cs i k"
  using nothing_at by (auto simp: nfa_accepts_def)



text \<open>The second alternative is reluctant: the pattern is added all the same, and the program does not even
  match the first one.\<close>
lemma lost_error:
  "map_option (\<lambda>(rc, nfa). (rc, map_option fst (aem_nfa_run nfa (aem_stringslice_new_len 64 (cstr ''a''))))) (example_add ''a|b+?'') =
     Some (0, Some (-1))"
  by code_simp

text \<open>A star around nothing is no error: the test for it compares the end of the program with the fork
  already in it. The loop is harmless.\<close>
lemma star_of_nothing: "map_option (map_prod id n_insns) (example_add ''(?:)*'') = Some (0, 3)"
  by code_simp

section \<open>Literal strings\<close>

lemma string_atoms_spec:
  "string_atoms sl acc = (acc', sl') \<Longrightarrow> ss_bytes sl' = [] \<and>
     (\<exists>ts. length ts = length (ss_bytes sl) \<and>
       acc' = acc @ map2 (\<lambda>b t. Node (AEM_NFA_NODE_ATOM (word_of_int (uchar b))) t []) (ss_bytes sl) ts)"
proof (induction "ss_bytes sl" arbitrary: sl acc)
  case Nil
  then have "aem_stringslice_getc sl = (-1, sl)" by (simp add: getc_simps(1))
  then show ?case using Nil by (subst (asm) string_atoms.simps) simp
next
  case (Cons b bs)
  have g: "aem_stringslice_getc sl = (uchar b, ss_advance sl 1)" using Cons.hyps(2) [symmetric] by (simp add: getc_simps(2))
  let ?atom = "\<lambda>t. Node (AEM_NFA_NODE_ATOM (word_of_int (uchar b))) t []"
  obtain t where t: "string_atoms (ss_advance sl 1) (acc @ [?atom t]) = (acc', sl')"
    using Cons.prems by (subst (asm) string_atoms.simps) (auto simp: g nd_set_text_def aem_nfa_node_new_def)
  have bs: "bs = ss_bytes (ss_advance sl 1)" using Cons.hyps(2) by (simp add: ss_advance_def flip: Cons.hyps(2))
  from Cons.hyps(1) [OF bs t] obtain ts where ts: "ss_bytes sl' = []" "length ts = length bs"
    "acc' = (acc @ [?atom t]) @ map2 (\<lambda>b t. Node (AEM_NFA_NODE_ATOM (word_of_int (uchar b))) t []) bs ts"
    using bs by auto
  then show ?case using Cons.hyps(2) [symmetric] by (intro conjI exI [of _ "t # ts"]) simp_all
qed

lemma utf8_ascii:
  assumes "b < 0x80"
  shows "utf8_encode (word_of_int (uchar b)) = [b]"
proof -
  have "(word_of_int (uchar b) :: u32) = ucast b" by (simp add: uchar_def word_of_int_uint)
  then show ?thesis using encode_ascii(1) [OF assms] by simp
qed

lemma atom_byte_ascii:
  assumes "b < 0x80"
  shows "atom_byte b = b"
proof -
  have "- 128 \<le> uint b" by (rule order_trans [of _ 0]) simp_all
  then have "sint b = uint b" using assms by (simp add: ascii_range sint_uint signed_take_bit_int_eq_self_iff)
  then have w: "(word_of_int (schar b) :: u32) = ucast b" by (simp add: schar_def)
  have "drop_bit 8 (ucast b :: u32) = 0"
    by (rule bit_word_eqI) (auto simp: bit_simps dest: bit_imp_le_length)
  then show ?thesis unfolding atom_byte_def w by (simp add: byte_of_code_def)
qed

lemma literal_lang:
  "seq_lang (map (\<lambda>b. range_lang cs b b) bs) i j \<longleftrightarrow> j = i + length bs \<and> (bs \<noteq> [] \<longrightarrow> j \<le> length cs) \<and> take (length bs) (drop i cs) = bs"
proof (induction bs arbitrary: i)
  case Nil
  then show ?case by auto
next
  case (Cons b bs)
  have "seq_lang (map (\<lambda>b. range_lang cs b b) (b # bs)) i j \<longleftrightarrow>
      i < length cs \<and> cs ! i = b \<and> seq_lang (map (\<lambda>b. range_lang cs b b) bs) (Suc i) j"
    by (auto simp: relcompp_apply range_lang_def)
  also have "\<dots> \<longleftrightarrow> j = i + length (b # bs) \<and> (b # bs \<noteq> [] \<longrightarrow> j \<le> length cs) \<and> take (length (b # bs)) (drop i cs) = b # bs"
    unfolding Cons.IH
  proof (cases "i < length cs")
    case True
    then have "drop i cs = cs ! i # drop (Suc i) cs" by (simp add: Cons_nth_drop_Suc)
    then show "(i < length cs \<and> cs ! i = b \<and> j = Suc i + length bs \<and> (bs \<noteq> [] \<longrightarrow> j \<le> length cs) \<and> take (length bs) (drop (Suc i) cs) = bs) =
        (j = i + length (b # bs) \<and> (b # bs \<noteq> [] \<longrightarrow> j \<le> length cs) \<and> take (length (b # bs)) (drop i cs) = b # bs)"
      using True by auto
  qed auto
  finally show ?case .
qed

lemma add_string_language:
  assumes ok: "nfa_ok nfa" and flags: "\<not> aem_stringslice_ok (snd (aem_regex_flags_adj flags AEM_REGEX_FLAG_BINARY False))"
    and ascii: "\<forall>b \<in> set (ss_bytes pat). b < 0x80" and j: "j = (if 0 \<le> match then match else n_matches nfa)" "j < 2 ^ 29"
    and res: "aem_nfa_add_string m al nfa pat match flags = Some (rc, nfa')" "0 \<le> rc" "n_insns nfa' < 2 ^ 29"
  shows "rc = j \<and> (nfa_accepts nfa' cs i k \<longleftrightarrow> nfa_accepts nfa cs i k \<or>
    int k = j \<and> i = length (ss_bytes pat) \<and> take i cs = ss_bytes pat)"
proof -
  obtain fl rest where fl: "aem_regex_flags_adj flags AEM_REGEX_FLAG_BINARY False = (fl, rest)" "\<not> aem_stringslice_ok rest"
    using flags by (cases "aem_regex_flags_adj flags AEM_REGEX_FLAG_BINARY False") simp
  let ?ctx = "\<lparr>cc_in = pat, cc_nfa = nfa, cc_n_captures = 0, cc_match = j, cc_rc = 0, cc_flags = fl\<rparr>"
  obtain ns sl' where a: "string_atoms pat [] = (ns, sl')" by fastforce
  from string_atoms_spec [OF this] obtain ts where ts: "ss_bytes sl' = []" "length ts = length (ss_bytes pat)"
    "ns = map2 (\<lambda>b t. Node (AEM_NFA_NODE_ATOM (word_of_int (uchar b))) t []) (ss_bytes pat) ts" by auto
  define nd where "nd = Node AEM_NFA_NODE_BRANCH AEM_STRINGSLICE_EMPTY ns"
  define ctx1 where "ctx1 = ?ctx\<lparr>cc_flags := fl OR AEM_REGEX_FLAG_BINARY, cc_in := sl'\<rparr>"
  have parse: "Some (map_prod Some id (aem_string_compile ?ctx)) = Some (Some nd, ctx1)"
    by (simp add: aem_string_compile_def a nd_def ctx1_def)
  have rest: "\<not> aem_stringslice_ok (cc_in ctx1)" using ts(1) by (simp add: ctx1_def aem_stringslice_ok_def)
  have comp: "errors_kept nd" using ts(3) by (auto simp: nd_def list_all_iff)
  have atoms: "map (node_lang cs) ns = map (\<lambda>b. range_lang cs b b) (ss_bytes pat)"
  proof (rule nth_equalityI)
    show "map (node_lang cs) ns ! l = map (\<lambda>b. range_lang cs b b) (ss_bytes pat) ! l" if "l < length (map (node_lang cs) ns)" for l
    proof -
      have l: "l < length (ss_bytes pat)" using that ts(2,3) by simp
      then have "ss_bytes pat ! l < 0x80" using ascii by simp
      then show ?thesis using l ts(2,3) by (simp add: atom_lang_def utf8_ascii atom_byte_ascii)
    qed
  qed (use ts in simp)
  have lang: "node_lang cs nd 0 i \<longleftrightarrow> i = length (ss_bytes pat) \<and> take i cs = ss_bytes pat"
    using literal_lang [of cs "ss_bytes pat" 0 i] arg_cong [of "take i cs" "ss_bytes pat" length]
    by (auto simp: nd_def atoms)
  obtain sl'' where "aem_nfa_add m al nfa pat match flags (\<lambda>ctx. Some (map_prod Some id (aem_string_compile ctx))) = Some (rc, sl'', nfa')"
    using res(1) by (auto simp: aem_nfa_add_string_def)
  from str.add_language [where nfa = nfa and sl = pat, OF ok _ fl parse rest comp j this res(2,3), of cs i k] lang
  show ?thesis by auto
qed

text \<open>C3: a program made from one literal string of ASCII bytes matches exactly the inputs that
  start with it: running it consumes the string and returns the number of the match, and otherwise
  returns \<open>-1\<close> and consumes nothing.\<close>
theorem literal_pattern_matches:
  assumes "aem_nfa_add_string m al AEM_NFA_EMPTY pat match flags = Some (rc, nfa)" "0 \<le> rc" "n_insns nfa < 2 ^ 29"
    and "\<not> aem_stringslice_ok (snd (aem_regex_flags_adj flags AEM_REGEX_FLAG_BINARY False))"
    and "\<forall>b \<in> set (ss_bytes pat). b < 0x80" "match < 2 ^ 29"
  shows "\<exists>rc' sl' mt. aem_nfa_run nfa sl = Some (rc', sl', mt) \<and>
    (if take (length (ss_bytes pat)) (ss_bytes sl) = ss_bytes pat
     then rc' = rc \<and> sl' = ss_advance sl (length (ss_bytes pat)) else rc' = -1 \<and> sl' = sl)"
proof -
  define j where "j = (if 0 \<le> match then match else n_matches AEM_NFA_EMPTY)"
  have "j < 2 ^ 29" using assms(6) by (simp add: j_def AEM_NFA_EMPTY_def)
  note lang = add_string_language [OF nfa_ok_empty assms(4,5) j_def this assms(1-3)]
  have acc: "nfa_accepts nfa (ss_bytes sl) i k \<longleftrightarrow>
      int k = rc \<and> i = length (ss_bytes pat) \<and> take i (ss_bytes sl) = ss_bytes pat" for i k
    using lang [of "ss_bytes sl" i k] by auto
  have "nfa_ok nfa" using add_string_effect [OF nfa_ok_empty assms(1)] by simp
  then obtain rc' sl' mt where r: "aem_nfa_run nfa sl = Some (rc', sl', mt)"
    "rc' = -1 \<and> sl' = sl \<and> (\<forall>i k. \<not> nfa_accepts nfa (ss_bytes sl) i k) \<or>
     (\<exists>i k. rc' = int k \<and> sl' = ss_advance sl i \<and> i \<le> length (ss_bytes sl) \<and> nfa_accepts nfa (ss_bytes sl) i k)"
    using engine_correct [of nfa sl] unfolding nfa_ok_def by blast
  show ?thesis
  proof (cases "take (length (ss_bytes pat)) (ss_bytes sl) = ss_bytes pat")
    case True
    obtain k where "rc = int k" using assms(2) nonneg_int_cases by blast
    then have "nfa_accepts nfa (ss_bytes sl) (length (ss_bytes pat)) k" using acc True by simp
    then show ?thesis using r acc True by auto
  next
    case False
    then have "\<not> nfa_accepts nfa (ss_bytes sl) i k" for i k using acc by auto
    then show ?thesis using r False by auto
  qed
qed

lemma literal_pattern_matches_witness:
  "\<exists>nfa rc' sl' mt. aem_nfa_add_string plenty \<lparr>al_ok = \<lambda>_. True, al_junk = 0\<rparr> AEM_NFA_EMPTY
      (aem_stringslice_new_len 1 (cstr ''ab'')) 5 AEM_STRINGSLICE_EMPTY = Some (5, nfa) \<and>
    aem_nfa_run nfa (aem_stringslice_new_len 1 (cstr ''abc'')) = Some (rc', sl', mt) \<and> rc' = 5"
proof -
  have "map_option (map_prod id n_insns) (aem_nfa_add_string plenty \<lparr>al_ok = \<lambda>_. True, al_junk = 0\<rparr> AEM_NFA_EMPTY
      (aem_stringslice_new_len 1 (cstr ''ab'')) 5 AEM_STRINGSLICE_EMPTY) = Some (5, 3)" by code_simp
  then obtain nfa where r: "aem_nfa_add_string plenty \<lparr>al_ok = \<lambda>_. True, al_junk = 0\<rparr> AEM_NFA_EMPTY
      (aem_stringslice_new_len 1 (cstr ''ab'')) 5 AEM_STRINGSLICE_EMPTY = Some (5, nfa)" "n_insns nfa = 3"
    by (auto simp: map_option_case split: option.splits)
  have "\<not> aem_stringslice_ok (snd (aem_regex_flags_adj AEM_STRINGSLICE_EMPTY AEM_REGEX_FLAG_BINARY False))"
    "\<forall>b \<in> set (ss_bytes (aem_stringslice_new_len 1 (cstr ''ab''))). b < 0x80" by code_simp+
  from literal_pattern_matches [OF r(1) _ _ this, of "aem_stringslice_new_len 1 (cstr ''abc'')"] r
  show ?thesis by (auto simp: aem_stringslice_new_len_def cstr_def)
qed

end
