(* ===== verification/Aem_Registry.thy ===== *)
theory Aem_Registry
  imports Aem_Stack Aem_Stringbuf Aem_Numeric
begin

text \<open>
  \<open>registry.h\<close> and \<open>registry.c\<close>: named objects that get a number in a registry. A registry is
  a client of the slot table of \<open>Aem_Stack\<close>; items and registries live in a store, because an
  item points to its registry and the registry's slots point to the items. The callbacks
  \<open>dtor\<close> and \<open>on_get_miss\<close> are the client's code: parameters of the operations that call
  them. \<open>None\<close> is a failed \<open>aem_assert\<close>, which aborts, a store outside the slots after a
  failed reservation, or a destruction that never ends.
\<close>

record registrable =
  it_name :: stringbuf
  it_reg :: "nat ptr"
  it_id :: int

record registry =
  reg_stk :: "nat stack"
  reg_flags :: u32

record world =
  w_items :: "nat \<Rightarrow> registrable"
  w_regs :: "nat \<Rightarrow> registry"

definition AEM_REGISTRY_NO_DUPS :: u32 where "AEM_REGISTRY_NO_DUPS = 0x1"

definition set_item :: "world \<Rightarrow> nat \<Rightarrow> registrable \<Rightarrow> world" where
  "set_item w it x = w\<lparr>w_items := (w_items w)(it := x)\<rparr>"

definition set_stk :: "world \<Rightarrow> nat \<Rightarrow> nat stack \<Rightarrow> world" where
  "set_stk w r stk = w\<lparr>w_regs := (w_regs w)(r := (w_regs w r)\<lparr>reg_stk := stk\<rparr>)\<rparr>"

section \<open>Construction\<close>

definition aem_registry_init :: "world \<Rightarrow> nat \<Rightarrow> world" where
  "aem_registry_init w r =
     w\<lparr>w_regs := (w_regs w)(r := \<lparr>reg_stk = aem_stack_init, reg_flags = 0\<rparr>)\<rparr>"

definition aem_registrable_init :: "world \<Rightarrow> nat \<Rightarrow> world" where
  "aem_registrable_init w it =
     set_item w it \<lparr>it_name = aem_stringbuf_init, it_reg = None, it_id = -1\<rparr>"

text \<open>The bytes of an item's name; the address of its block does not matter here.\<close>
definition item_name :: "world \<Rightarrow> nat \<Rightarrow> stringslice" where
  "item_name w it = aem_stringslice_new_str literal_addr (it_name (w_items w it))"

definition aem_registrable_id :: "world \<Rightarrow> nat ptr \<Rightarrow> int" where
  "aem_registrable_id w p = (case p of None \<Rightarrow> -1 | Some it \<Rightarrow> it_id (w_items w it))"

definition aem_registrable_name :: "world \<Rightarrow> nat ptr \<Rightarrow> (u8 list ptr \<times> world) option" where
  "aem_registrable_name w p =
     (case p of
        None \<Rightarrow> Some (None, w)
      | Some it \<Rightarrow> do {
          (s, b) \<leftarrow> aem_stringbuf_get (it_name (w_items w it));
          Some (s, set_item w it ((w_items w it)\<lparr>it_name := b\<rparr>)) })"

section \<open>Lookup\<close>

definition aem_registry_by_id :: "world \<Rightarrow> nat ptr \<Rightarrow> int \<Rightarrow> nat ptr" where
  "aem_registry_by_id w p num =
     (case p of
        None \<Rightarrow> None
      | Some r \<Rightarrow> if num < 0 then None else aem_stack_index (reg_stk (w_regs w r)) (c_size num))"

function by_name_loop :: "world \<Rightarrow> nat \<Rightarrow> stringslice \<Rightarrow> nat \<Rightarrow> nat ptr" where
  "by_name_loop w r name i =
     (let stk = reg_stk (w_regs w r) in
      if i < stk_n stk then
        (case stk_s stk ! i of
           None \<Rightarrow> by_name_loop w r name (i + 1)
         | Some it \<Rightarrow>
             if aem_stringslice_cmp (item_name w it) name = 0 then Some it
             else by_name_loop w r name (i + 1))
      else None)"
  by pat_completeness auto
termination
  by (relation "measure (\<lambda>(w, r, name, i). stk_n (reg_stk (w_regs w r)) - i)") auto

declare by_name_loop.simps [simp del]

definition aem_registry_by_name :: "world \<Rightarrow> nat ptr \<Rightarrow> stringslice \<Rightarrow> nat ptr" where
  "aem_registry_by_name w p name =
     (case p of None \<Rightarrow> None | Some r \<Rightarrow> by_name_loop w r name 0)"

definition aem_registry_lookup :: "world \<Rightarrow> nat ptr \<Rightarrow> stringslice \<Rightarrow> nat ptr" where
  "aem_registry_lookup w p key =
     (case p of
        None \<Rightarrow> None
      | Some r \<Rightarrow>
          let by_name = aem_registry_by_name w p key;
              (prefer_id, key1) = aem_stringslice_match key (cstr ''#'')
          in if \<not> prefer_id \<and> by_name \<noteq> None then by_name
             else
               let (ok, key2) = aem_stringslice_match_int_base key1 10;
                   by_id = (case ok of
                     None \<Rightarrow> None
                   | Some num \<Rightarrow>
                       if \<not> aem_stringslice_ok key2 then aem_registry_by_id w p num else None)
               in if by_id = None then by_name else by_id)"

text \<open>\<open>on_get_miss\<close> is \<open>NULL\<close> or the client's function.\<close>
definition aem_registry_get ::
  "(world \<Rightarrow> nat \<Rightarrow> stringslice \<Rightarrow> (nat ptr \<times> world) option) ptr \<Rightarrow>
     world \<Rightarrow> nat ptr \<Rightarrow> stringslice \<Rightarrow> (nat ptr \<times> world) option" where
  "aem_registry_get on_get_miss w p name =
     (case p of
        None \<Rightarrow> Some (None, w)
      | Some r \<Rightarrow>
          (case (aem_registry_by_name w p name, on_get_miss) of
             (None, Some miss) \<Rightarrow> do {
               (item, w1) \<leftarrow> miss w r name;
               case item of
                 None \<Rightarrow> Some (None, w1)
               | Some it \<Rightarrow> if it_reg (w_items w1 it) = Some r then Some (Some it, w1) else None }
           | (item, _) \<Rightarrow> Some (item, w)))"

section \<open>Registration\<close>

definition aem_registrable_register ::
  "nat ptr allocator \<Rightarrow> world \<Rightarrow> nat \<Rightarrow> nat \<Rightarrow> (int \<times> world) option" where
  "aem_registrable_register al w it r =
     (let item = w_items w it in
      if 0 \<le> it_id item then Some (it_id item, w)
      else if reg_flags (w_regs w r) AND AEM_REGISTRY_NO_DUPS \<noteq> 0 \<and>
              aem_registry_by_name w (Some r) (item_name w it) \<noteq> None then Some (-1, w)
      else if it_id item \<noteq> -1 then None
      else do {
        (slot, stk) \<leftarrow> aem_stack_assign_empty al (reg_stk (w_regs w r)) (Some it);
        Some (c_ssize slot,
          set_item (set_stk w r stk) it (item\<lparr>it_reg := Some r, it_id := c_ssize slot\<rparr>)) })"

definition aem_registrable_deregister :: "world \<Rightarrow> nat ptr \<Rightarrow> world option" where
  "aem_registrable_deregister w p =
     (case p of
        None \<Rightarrow> Some w
      | Some it \<Rightarrow>
          let item = w_items w it in
          if it_id item = -1 then Some w
          else if \<not> 0 \<le> it_id item then None
          else case it_reg item of
            None \<Rightarrow> None
          | Some r \<Rightarrow>
              (case aem_stack_remove (reg_stk (w_regs w r)) (c_size (it_id item)) of
                 (q, stk) \<Rightarrow>
                   if q = Some it
                   then Some (set_item (set_stk w r stk) it (item\<lparr>it_id := -1, it_reg := None\<rparr>))
                   else None))"

definition aem_registrable_dtor :: "world \<Rightarrow> nat ptr \<Rightarrow> world option" where
  "aem_registrable_dtor w p =
     (case p of
        None \<Rightarrow> Some w
      | Some it \<Rightarrow> do {
          w1 \<leftarrow> (if 0 \<le> it_id (w_items w it) then aem_registrable_deregister w p else Some w);
          if it_reg (w_items w1 it) \<noteq> None then None
          else Some (set_item w1 it
            ((w_items w1 it)\<lparr>it_name := aem_stringbuf_dtor (it_name (w_items w1 it))\<rparr>)) })"

definition aem_registry_remove ::
  "(world \<Rightarrow> nat \<Rightarrow> world option) ptr \<Rightarrow> world \<Rightarrow> nat \<Rightarrow> nat \<Rightarrow> (int \<times> world) option" where
  "aem_registry_remove dtor w r num =
     (case aem_registry_by_id w (Some r) (c_ssize num) of
        None \<Rightarrow> Some (-1, w)
      | Some it \<Rightarrow>
          (case dtor of
             Some d \<Rightarrow> do { w1 \<leftarrow> d w it; Some (0, w1) }
           | None \<Rightarrow> do { w1 \<leftarrow> aem_registrable_deregister w (Some it); Some (1, w1) }))"

text \<open>The loop of the destructor reads the number of slots again in every round; a callback
  that keeps registering items keeps it going.\<close>
partial_function (option) registry_dtor_loop ::
  "(world \<Rightarrow> nat \<Rightarrow> world option) ptr \<Rightarrow> world \<Rightarrow> nat \<Rightarrow> nat \<Rightarrow> world option" where
  "registry_dtor_loop dtor w r i =
     (if i < stk_n (reg_stk (w_regs w r))
      then do { (rc, w1) \<leftarrow> aem_registry_remove dtor w r i; registry_dtor_loop dtor w1 r (i + 1) }
      else Some w)"

declare registry_dtor_loop.simps [code]

definition aem_registry_dtor ::
  "(world \<Rightarrow> nat \<Rightarrow> world option) ptr \<Rightarrow> world \<Rightarrow> nat ptr \<Rightarrow> world option" where
  "aem_registry_dtor dtor w p =
     (case p of
        None \<Rightarrow> Some w
      | Some r \<Rightarrow> do {
          w1 \<leftarrow> registry_dtor_loop dtor w r 0;
          Some (set_stk w1 r (aem_stack_dtor (reg_stk (w_regs w1 r)))) })"

section \<open>The invariant\<close>

definition slot :: "world \<Rightarrow> nat \<Rightarrow> nat \<Rightarrow> nat ptr" where
  "slot w r = aem_stack_index (reg_stk (w_regs w r))"

text \<open>The slots and the items point at each other, and an item without a registry has the
  number -1.\<close>
definition slots_ok :: "world \<Rightarrow> bool" where
  "slots_ok w \<longleftrightarrow> (\<forall>r. stack_inv (reg_stk (w_regs w r))) \<and>
     (\<forall>r i it. slot w r i = Some it \<longleftrightarrow> it_reg (w_items w it) = Some r \<and> it_id (w_items w it) = int i) \<and>
     (\<forall>it. if it_reg (w_items w it) = None then it_id (w_items w it) = -1 else 0 \<le> it_id (w_items w it))"

definition no_dups :: "world \<Rightarrow> nat \<Rightarrow> bool" where
  "no_dups w r \<longleftrightarrow> reg_flags (w_regs w r) AND AEM_REGISTRY_NO_DUPS \<noteq> 0"

definition name_of :: "world \<Rightarrow> nat \<Rightarrow> u8 list" where
  "name_of w it = sb_out (it_name (w_items w it))"

definition names_ok :: "world \<Rightarrow> bool" where
  "names_ok w \<longleftrightarrow> (\<forall>r i j a b. no_dups w r \<longrightarrow> slot w r i = Some a \<longrightarrow> slot w r j = Some b \<longrightarrow>
     i \<noteq> j \<longrightarrow> name_of w a \<noteq> name_of w b)"

lemma item_name_bytes [simp]: "ss_bytes (item_name w it) = name_of w it"
  by (simp add: item_name_def name_of_def sb_out_def aem_stringslice_new_str_def)

lemma slots_okD:
  assumes "slots_ok w"
  shows "stack_inv (reg_stk (w_regs w r))"
    and "slot w r i = Some it \<longleftrightarrow> it_reg (w_items w it) = Some r \<and> it_id (w_items w it) = int i"
    and "it_reg (w_items w it) = None \<longleftrightarrow> it_id (w_items w it) < 0"
    and "it_id (w_items w it) < 0 \<Longrightarrow> it_id (w_items w it) = -1"
  using assms unfolding slots_ok_def by (blast, blast, (metis not_less zero_less_one neg_0_less_iff_less
      neg_less_0_iff_less), metis not_less)

lemma slot_bound:
  assumes "slots_ok w" "slot w r i = Some it"
  shows "i < stk_n (reg_stk (w_regs w r))" "i < 2 ^ 60"
proof -
  show l: "i < stk_n (reg_stk (w_regs w r))"
    using assms(2) by (simp add: slot_def aem_stack_index_def split: if_splits)
  show "i < 2 ^ 60"
    using l stack_inv_bounds(2) [OF slots_okD(1) [OF assms(1)], of r] by simp
qed

lemma by_id_iff:
  assumes "slots_ok w" "k < 2 ^ 63"
  shows "aem_registry_by_id w (Some r) k = Some it \<longleftrightarrow>
    it_reg (w_items w it) = Some r \<and> it_id (w_items w it) = k"
proof (cases "k < 0")
  case True
  then show ?thesis
    using slots_okD(3) [OF assms(1), of it] by (auto simp: aem_registry_by_id_def)
next
  case False
  then obtain i where "k = int i" "i < 2 ^ 64" using assms(2) by (cases k) auto
  then show ?thesis
    using slots_okD(2) [OF assms(1), of r i it] by (simp add: aem_registry_by_id_def slot_def)
qed

lemma by_name_loop_spec:
  "case by_name_loop w r name i of
     None \<Rightarrow> \<forall>j it. i \<le> j \<longrightarrow> slot w r j = Some it \<longrightarrow> aem_stringslice_cmp (item_name w it) name \<noteq> 0
   | Some it \<Rightarrow> \<exists>j. slot w r j = Some it \<and> aem_stringslice_cmp (item_name w it) name = 0"
proof (induction w r name i rule: by_name_loop.induct)
  case (1 w r name i)
  let ?stk = "reg_stk (w_regs w r)"
  have sl: "slot w r j = (if j < stk_n ?stk then stk_s ?stk ! j else None)" for j
    by (simp add: slot_def aem_stack_index_def)
  show ?case
  proof (cases "i < stk_n ?stk")
    case False
    then show ?thesis by (subst by_name_loop.simps) (auto simp: sl)
  next
    case True
    show ?thesis
    proof (cases "\<exists>it. stk_s ?stk ! i = Some it \<and> aem_stringslice_cmp (item_name w it) name = 0")
      case hit: True
      then show ?thesis using True by (subst by_name_loop.simps) (auto simp: sl intro!: exI [of _ i])
    next
      case False
      have step: "by_name_loop w r name i = by_name_loop w r name (i + 1)"
        using True False by (subst by_name_loop.simps) (auto split: option.splits)
      have ih: "case by_name_loop w r name (i + 1) of
          None \<Rightarrow> \<forall>j it. i + 1 \<le> j \<longrightarrow> slot w r j = Some it \<longrightarrow> aem_stringslice_cmp (item_name w it) name \<noteq> 0
        | Some it \<Rightarrow> \<exists>j. slot w r j = Some it \<and> aem_stringslice_cmp (item_name w it) name = 0"
        using "1.IH" [OF refl True] False by (cases "stk_s ?stk ! i") auto
      have "\<forall>it. slot w r i = Some it \<longrightarrow> aem_stringslice_cmp (item_name w it) name \<noteq> 0"
        using False by (auto simp: sl)
      then show ?thesis
        using ih unfolding step
        by (auto split: option.splits) (metis Suc_leI le_neq_implies_less)
    qed
  qed
qed

lemma by_name_None:
  assumes "aem_registry_by_name w (Some r) name = None" "slot w r j = Some it"
  shows "name_of w it \<noteq> ss_bytes name"
proof -
  have "aem_stringslice_cmp (item_name w it) name \<noteq> 0"
    using by_name_loop_spec [where w = w and r = r and name = name and i = 0] assms by (simp add: aem_registry_by_name_def)
  moreover have "aem_stringslice_cmp a b = 0" if "ss_bytes a = ss_bytes b" for a b
  proof -
    have "c_strncmp xs xs n = 0" for xs n
    proof (induction xs arbitrary: n)
      case (Cons x xs)
      then show ?case by (cases n) simp_all
    qed simp
    then show ?thesis using that by (simp add: aem_stringslice_cmp_def c_int_def)
  qed
  ultimately show ?thesis by fastforce
qed

lemma by_name_Some:
  assumes "aem_registry_by_name w (Some r) name = Some it"
  shows "\<exists>j. slot w r j = Some it"
  using by_name_loop_spec [where w = w and r = r and name = name and i = 0] assms by (auto simp: aem_registry_by_name_def)

section \<open>What each operation does\<close>

lemma world_simps [simp]:
  "w_items (set_item w it x) = (w_items w)(it := x)" "w_regs (set_item w it x) = w_regs w"
  "w_items (set_stk w r stk) = w_items w"
  "reg_stk (w_regs (set_stk w r stk) r') = (if r' = r then stk else reg_stk (w_regs w r'))"
  "reg_flags (w_regs (set_stk w r stk) r') = reg_flags (w_regs w r')"
  by (simp_all add: set_item_def set_stk_def)

lemma slot_simps [simp]:
  "slot (set_item w it x) = slot w"
  "slot (set_stk w r stk) = (slot w)(r := aem_stack_index stk)"
  "no_dups (set_item w it x) = no_dups w" "no_dups (set_stk w r stk) = no_dups w"
  by (auto simp: slot_def no_dups_def fun_eq_iff)

lemma name_of_set [simp]:
  "name_of (set_stk w r stk) = name_of w"
  "name_of (set_item w it x) = (name_of w)(it := sb_out (it_name x))"
  by (auto simp: name_of_def fun_eq_iff)

text \<open>The world after an item has got the free slot \<open>i\<close>, and after it has left its slot.\<close>

abbreviation joined :: "world \<Rightarrow> nat \<Rightarrow> nat stack \<Rightarrow> nat \<Rightarrow> nat \<Rightarrow> world" where
  "joined w r stk it i \<equiv>
     set_item (set_stk w r stk) it ((w_items w it)\<lparr>it_reg := Some r, it_id := int i\<rparr>)"

abbreviation parted :: "world \<Rightarrow> nat \<Rightarrow> nat stack \<Rightarrow> nat \<Rightarrow> world" where
  "parted w r stk it \<equiv> set_item (set_stk w r stk) it ((w_items w it)\<lparr>it_id := -1, it_reg := None\<rparr>)"

lemma slots_ok_add:
  assumes ok: "slots_ok w" and unreg: "it_reg (w_items w it) = None"
    and stk: "stack_inv stk" "aem_stack_index stk = (slot w r)(i \<mapsto> it)" and free: "slot w r i = None"
  shows "slots_ok (joined w r stk it i)"
proof -
  have none: "slot w r' j \<noteq> Some it" for r' j using slots_okD(2) [OF ok, of r' j it] unreg by simp
  show ?thesis
    unfolding slots_ok_def
  proof (intro conjI allI)
    fix r' j x
    show "slot (joined w r stk it i) r' j = Some x \<longleftrightarrow>
      it_reg (w_items (joined w r stk it i) x) = Some r' \<and>
      it_id (w_items (joined w r stk it i) x) = int j"
      using none [of r' j] free slots_okD(2) [OF ok, of r' j x] by (auto simp: stk(2))
  next
    fix r'
    show "stack_inv (reg_stk (w_regs (joined w r stk it i) r'))"
      using stk(1) slots_okD(1) [OF ok] by simp
  next
    fix x
    show "if it_reg (w_items (joined w r stk it i) x) = None
       then it_id (w_items (joined w r stk it i) x) = - 1
       else 0 \<le> it_id (w_items (joined w r stk it i) x)"
      using ok by (simp add: slots_ok_def)
  qed
qed

lemma slots_ok_del:
  assumes ok: "slots_ok w" and reg: "slot w r i = Some it"
    and stk: "stack_inv stk" "aem_stack_index stk = (slot w r)(i := None)"
  shows "slots_ok (parted w r stk it)"
proof -
  have own: "it_reg (w_items w it) = Some r" "it_id (w_items w it) = int i"
    using slots_okD(2) [OF ok, of r i it] reg by auto
  show ?thesis
    unfolding slots_ok_def
  proof (intro conjI allI)
    fix r' j x
    show "slot (parted w r stk it) r' j = Some x \<longleftrightarrow>
      it_reg (w_items (parted w r stk it) x) = Some r' \<and>
      it_id (w_items (parted w r stk it) x) = int j"
      using own reg slots_okD(2) [OF ok, of r' j x] by (auto simp: stk(2))
  next
    fix r'
    show "stack_inv (reg_stk (w_regs (parted w r stk it) r'))"
      using stk(1) slots_okD(1) [OF ok] by simp
  next
    fix x
    show "if it_reg (w_items (parted w r stk it) x) = None
       then it_id (w_items (parted w r stk it) x) = - 1
       else 0 \<le> it_id (w_items (parted w r stk it) x)"
      using ok by (simp add: slots_ok_def)
  qed
qed

lemma slots_ok_rename:
  "slots_ok w \<Longrightarrow> slots_ok (set_item w it ((w_items w it)\<lparr>it_name := b\<rparr>))"
  by (simp add: slots_ok_def)

lemma register_cases:
  assumes ok: "slots_ok w" and reg: "aem_registrable_register al w it r = Some (k, w')"
  obtains (already) "0 \<le> it_id (w_items w it)" "k = it_id (w_items w it)" "w' = w"
  | (taken) j other where "no_dups w r" "it_reg (w_items w it) = None" "k = -1" "w' = w" "slot w r j = Some other"
      "aem_registry_by_name w (Some r) (item_name w it) = Some other"
  | (fresh) i stk where "it_reg (w_items w it) = None" "k = int i" "slot w r i = None"
      "\<And>j. j < i \<Longrightarrow> slot w r j \<noteq> None"
      "stack_inv stk" "aem_stack_index stk = (slot w r)(i \<mapsto> it)"
      "w' = joined w r stk it i"
      "no_dups w r \<Longrightarrow> aem_registry_by_name w (Some r) (item_name w it) = None"
proof -
  let ?item = "w_items w it" and ?dup = "aem_registry_by_name w (Some r) (item_name w it)"
  consider "0 \<le> it_id ?item" | "it_id ?item < 0" "no_dups w r" "?dup \<noteq> None"
    | "it_id ?item < 0" "\<not> (no_dups w r \<and> ?dup \<noteq> None)" by linarith
  then show ?thesis
  proof cases
    case 1
    then show ?thesis using reg by (intro already) (auto simp: aem_registrable_register_def)
  next
    case 2
    then obtain other j where o: "?dup = Some other" "slot w r j = Some other"
      using by_name_Some by blast
    have "it_reg ?item = None" using slots_okD(3) [OF ok, of it] 2 by simp
    then show ?thesis using reg 2 o
      by (intro taken) (auto simp: aem_registrable_register_def no_dups_def)
  next
    case 3
    have unreg: "it_reg ?item = None" "it_id ?item = -1"
      using slots_okD(3,4) [OF ok, of it] 3 by auto
    then obtain i stk where add: "stk_add al (reg_stk (w_regs w r)) it = Some (i, stk)"
      and k: "k = c_ssize i"
      and w': "w' = set_item (set_stk w r stk) it (?item\<lparr>it_reg := Some r, it_id := c_ssize i\<rparr>)"
      using reg 3 by (auto simp: aem_registrable_register_def no_dups_def stk_add_def bind_eq_Some_conv
          split: if_splits)
    note inv = slots_okD(1) [OF ok, of r]
    note s = stk_slots.add_inv [OF inv add] stk_slots.add_slot [OF inv add]
      stk_slots.add_free [OF inv add] stk_slots.add_lowest [OF inv add]
    have "i < stk_n stk" using s(2) by (auto simp: aem_stack_index_def fun_eq_iff split: if_splits)
    then have "i < 2 ^ 63" using stack_inv_bounds(2) [OF s(1)] by simp
    then show ?thesis using unreg k w' s 3(2)
      by (intro fresh [of i stk]) (auto simp: slot_def)
  qed
qed

lemma deregister_eq:
  assumes ok: "slots_ok w"
  obtains (not_registered) "it_reg (w_items w it) = None" "aem_registrable_deregister w (Some it) = Some w"
  | (registered) r i stk where "slot w r i = Some it" "stack_inv stk"
      "aem_stack_index stk = (slot w r)(i := None)" "stk_n stk \<le> stk_n (reg_stk (w_regs w r))"
      "aem_registrable_deregister w (Some it) =
         Some (parted w r stk it)"
proof (cases "it_reg (w_items w it)")
  case None
  then show ?thesis using slots_okD(3,4) [OF ok, of it]
    by (intro not_registered) (auto simp: aem_registrable_deregister_def)
next
  case (Some r)
  then have pos: "0 \<le> it_id (w_items w it)" using slots_okD(3) [OF ok, of it] by simp
  define i where "i = nat (it_id (w_items w it))"
  have sl: "slot w r i = Some it" using slots_okD(2) [OF ok, of r i it] Some pos by (simp add: i_def)
  obtain q stk where rem: "aem_stack_remove (reg_stk (w_regs w r)) i = (q, stk)" by fastforce
  note inv = slots_okD(1) [OF ok, of r]
  have n: "stk_n stk \<le> stk_n (reg_stk (w_regs w r))"
  proof -
    have "stk_n (stk_drop_nulls s) \<le> stk_n s" for s :: "nat stack"
      by (induction s rule: stk_drop_nulls.induct) (subst stk_drop_nulls.simps, auto)
    from this [of "(reg_stk (w_regs w r))\<lparr>stk_s := (stk_s (reg_stk (w_regs w r)))[i := None]\<rparr>"] rem
    show ?thesis by (auto simp: aem_stack_remove_def Let_def split: if_splits)
  qed
  have "i < 2 ^ 60" by (rule slot_bound [OF ok sl])
  then have ci: "c_size (it_id (w_items w it)) = i" using pos c_size_int [of i] by (simp add: i_def)
  show ?thesis
    by (rule registered [OF sl stk_slots.del_inv [OF inv rem] _ n])
      (use sl pos Some ci rem stk_slots.del_slot [OF inv rem] stk_slots.del_result [OF inv rem]
       in \<open>auto simp: slot_def aem_registrable_deregister_def Let_def\<close>)
qed

lemma names_ok_register:
  assumes ok: "slots_ok w" "names_ok w" and reg: "aem_registrable_register al w it r = Some (k, w')"
  shows "slots_ok w' \<and> names_ok w'"
  using ok(1) reg
proof (cases rule: register_cases)
  case (fresh i stk)
  have none: "slot w r' j \<noteq> Some it" for r' j using slots_okD(2) [OF ok(1), of r' j it] fresh(1) by simp
  have new: "name_of w a \<noteq> name_of w it" if "no_dups w r" "slot w r j = Some a" for a j
    using by_name_None [OF fresh(8) [OF that(1)] that(2)] by simp
  have slot': "slot w' r' j = (if r' = r \<and> j = i then Some it else slot w r' j)" for r' j
    using fresh(6) by (simp add: fresh(7))
  have same: "no_dups w' = no_dups w" "name_of w' = name_of w"
    by (simp_all add: fresh(7) fun_upd_idem_iff name_of_def)
  have "names_ok w'"
    unfolding names_ok_def same
  proof (intro allI impI)
    fix r' j1 j2 a b
    assume d: "no_dups w r'" and s: "slot w' r' j1 = Some a" "slot w' r' j2 = Some b" and ne: "j1 \<noteq> j2"
    consider "r' = r" "j1 = i" | "r' = r" "j2 = i" | "slot w r' j1 = Some a" "slot w r' j2 = Some b"
      using s by (auto simp: slot' split: if_splits)
    then show "name_of w a \<noteq> name_of w b"
    proof cases
      case 1
      then have "a = it" "slot w r j2 = Some b" using s ne by (auto simp: slot')
      then show ?thesis using new [of j2 b] d 1 by metis
    next
      case 2
      then have "b = it" "slot w r j1 = Some a" using s ne by (auto simp: slot')
      then show ?thesis using new [of j1 a] d 2 by metis
    next
      case 3
      then show ?thesis using ok(2) d ne unfolding names_ok_def by blast
    qed
  qed
  then show ?thesis using slots_ok_add [OF ok(1) fresh(1,5,6,3)] by (simp add: fresh(7))
qed (use ok in simp_all)

text \<open>The worlds in which the items of some slots have left, nothing else having changed.\<close>

definition left_slot :: "world \<Rightarrow> world \<Rightarrow> nat \<Rightarrow> nat \<Rightarrow> nat \<Rightarrow> bool" where
  "left_slot w w1 r i it \<longleftrightarrow> slots_ok w1 \<and> slot w1 = (slot w)(r := (slot w r)(i := None)) \<and>
     stk_n (reg_stk (w_regs w1 r)) \<le> stk_n (reg_stk (w_regs w r)) \<and>
     (\<forall>x. x \<noteq> it \<longrightarrow> w_items w1 x = w_items w x) \<and> it_reg (w_items w1 it) = None \<and> no_dups w1 = no_dups w"

lemma left_slot_names:
  assumes ok: "slots_ok w" "names_ok w" and left: "left_slot w w1 r i it" and at: "slot w r i = Some it"
  shows "names_ok w1"
proof -
  have it: "slot w1 r' j \<noteq> Some it" for r' j
    using left slots_okD(2) [of w1 r' j it] by (simp add: left_slot_def)
  have sub: "slot w1 r' j = Some a \<Longrightarrow> slot w r' j = Some a \<and> name_of w1 a = name_of w a" for r' j a
    using it [of r' j] left by (auto simp: left_slot_def name_of_def split: if_splits)
  then show ?thesis using ok(2) left unfolding names_ok_def left_slot_def by metis
qed

lemma deregister_leaves:
  assumes ok: "slots_ok w" and at: "slot w r i = Some it"
  shows "\<exists>w1. aem_registrable_deregister w (Some it) = Some w1 \<and> left_slot w w1 r i it \<and>
    name_of w1 = name_of w"
  using ok
proof (cases rule: deregister_eq [where it = it])
  case not_registered
  then show ?thesis using slots_okD(2) [OF ok, of r i it] at by simp
next
  case (registered r' i' stk)
  then have eq: "r' = r" "i' = i"
    using slots_okD(2) [OF ok, of r' i' it] slots_okD(2) [OF ok, of r i it] at by auto
  have "slots_ok (parted w r stk it)" by (rule slots_ok_del [OF ok at]) (use registered eq in auto)
  then show ?thesis using registered eq by (auto simp: left_slot_def name_of_def)
qed

lemma registrable_dtor_leaves:
  assumes ok: "slots_ok w" and at: "slot w r i = Some it"
  shows "\<exists>w1. aem_registrable_dtor w (Some it) = Some w1 \<and> left_slot w w1 r i it"
proof -
  have pos: "0 \<le> it_id (w_items w it)" using slots_okD(2) [OF ok, of r i it] at by simp
  obtain w1 where w1: "aem_registrable_deregister w (Some it) = Some w1" "left_slot w w1 r i it"
    using deregister_leaves [OF ok at] by blast
  let ?w2 = "set_item w1 it ((w_items w1 it)\<lparr>it_name := aem_stringbuf_dtor (it_name (w_items w1 it))\<rparr>)"
  have "slots_ok ?w2" using w1(2) by (simp add: left_slot_def slots_ok_rename)
  then have "left_slot w ?w2 r i it" using w1(2) by (simp add: left_slot_def)
  then show ?thesis using w1 pos by (auto simp: aem_registrable_dtor_def left_slot_def)
qed

section \<open>Emptying a registry\<close>

text \<open>What the destructor of a registry needs from \<open>aem_registry_remove\<close> with the client's
  \<open>dtor\<close>: it returns, and the item has left its slot.\<close>

definition item_dtor :: "world \<Rightarrow> nat \<Rightarrow> world option" where
  "item_dtor w it = aem_registrable_dtor w (Some it)"

locale registry_cleaner =
  fixes dtor :: "(world \<Rightarrow> nat \<Rightarrow> world option) ptr"
  assumes removes: "slots_ok w \<Longrightarrow> slot w r i = Some it \<Longrightarrow>
    \<exists>rc w1. aem_registry_remove dtor w r i = Some (rc, w1) \<and> left_slot w w1 r i it"
begin

lemma remove_cases:
  assumes ok: "slots_ok w" and i: "i < stk_n (reg_stk (w_regs w r))"
  shows "aem_registry_remove dtor w r i = Some (-1, w) \<and> slot w r i = None \<or>
    (\<exists>rc w1 it. slot w r i = Some it \<and> aem_registry_remove dtor w r i = Some (rc, w1) \<and> left_slot w w1 r i it)"
proof (cases "slot w r i")
  case None
  have "i < 2 ^ 60" using i stack_inv_bounds(2) [OF slots_okD(1) [OF ok], of r] by simp
  then have "aem_registry_by_id w (Some r) (c_ssize i) = slot w r i"
    by (simp add: aem_registry_by_id_def slot_def)
  then show ?thesis using None by (simp add: aem_registry_remove_def)
next
  case (Some it)
  then show ?thesis using removes [OF ok] by blast
qed

lemma loop_empties:
  assumes "slots_ok w" "\<And>j. j < i \<Longrightarrow> slot w r j = None"
  shows "\<exists>w'. registry_dtor_loop dtor w r i = Some w' \<and> slots_ok w' \<and>
    slot w' = (slot w)(r := \<lambda>_. None) \<and> no_dups w' = no_dups w \<and>
    (\<forall>it. if it_reg (w_items w it) = Some r then it_reg (w_items w' it) = None
          else w_items w' it = w_items w it)"
  using assms
proof (induction "stk_n (reg_stk (w_regs w r)) - i" arbitrary: w i rule: less_induct)
  case less
  show ?case
  proof (cases "i < stk_n (reg_stk (w_regs w r))")
    case False
    have "slot w r j = None" for j
      using less.prems(2) [of j] False by (auto simp: slot_def aem_stack_index_def)
    then have "slot w r = (\<lambda>_. None)" by blast
    moreover have "it_reg (w_items w it) \<noteq> Some r" for it
      using slots_okD(2) [OF less.prems(1), of r "nat (it_id (w_items w it))" it]
        slots_okD(3) [OF less.prems(1), of it] calculation by auto
    ultimately show ?thesis using False less.prems(1)
      by (subst registry_dtor_loop.simps) (auto simp: fun_upd_idem)
  next
    case True
    consider "aem_registry_remove dtor w r i = Some (-1, w)" "slot w r i = None"
      | rc w1 it where "slot w r i = Some it" "aem_registry_remove dtor w r i = Some (rc, w1)"
          "left_slot w w1 r i it"
      using remove_cases [OF less.prems(1) True] by metis
    then show ?thesis
    proof cases
      case 1
      have "slot w r j = None" if "j < i + 1" for j
        using less.prems(2) [of j] 1(2) that by (cases "j = i") auto
      from less.hyps [OF _ less.prems(1) this] True 1(1) show ?thesis
        by (subst registry_dtor_loop.simps) simp
    next
      case 2
      note l = 2(3) [unfolded left_slot_def]
      have own: "it_reg (w_items w it) = Some r"
        using slots_okD(2) [OF less.prems(1), of r i it] 2(1) by simp
      have "slot w1 r j = None" if "j < i + 1" for j
        using less.prems(2) [of j] l that by (cases "j = i") auto
      moreover have "stk_n (reg_stk (w_regs w1 r)) - (i + 1) < stk_n (reg_stk (w_regs w r)) - i"
        using l True by linarith
      ultimately obtain w' where w': "registry_dtor_loop dtor w1 r (i + 1) = Some w'" "slots_ok w'"
          "slot w' = (slot w1)(r := \<lambda>_. None)" "no_dups w' = no_dups w1"
          "\<And>x. if it_reg (w_items w1 x) = Some r then it_reg (w_items w' x) = None
               else w_items w' x = w_items w1 x"
        using less.hyps [of w1 "i + 1"] l by blast
      have "if it_reg (w_items w x) = Some r then it_reg (w_items w' x) = None
            else w_items w' x = w_items w x" for x
        using w'(5) [of x] l own by (cases "x = it") (auto split: if_splits)
      moreover have "registry_dtor_loop dtor w r i = Some w'"
        using True 2(2) w'(1) by (subst registry_dtor_loop.simps) simp
      ultimately show ?thesis using w'(2-4) l by auto
    qed
  qed
qed

lemma dtor_empties:
  assumes ok: "slots_ok w"
  shows "\<exists>w'. aem_registry_dtor dtor w (Some r) = Some w' \<and> slots_ok w' \<and>
    reg_stk (w_regs w' r) = AEM_STACK_EMPTY \<and> slot w' = (slot w)(r := \<lambda>_. None) \<and>
    no_dups w' = no_dups w \<and>
    (\<forall>it. if it_reg (w_items w it) = Some r then it_reg (w_items w' it) = None
          else w_items w' it = w_items w it)"
proof -
  obtain w1 where w1: "registry_dtor_loop dtor w r 0 = Some w1" "slots_ok w1"
      "slot w1 = (slot w)(r := \<lambda>_. None)" "no_dups w1 = no_dups w"
      "\<forall>it. if it_reg (w_items w it) = Some r then it_reg (w_items w1 it) = None
            else w_items w1 it = w_items w it"
    using loop_empties [OF ok, of 0 r] by auto
  have empty: "aem_stack_index AEM_STACK_EMPTY = (\<lambda>_. None)"
    by (simp add: aem_stack_index_def AEM_STACK_EMPTY_def fun_eq_iff)
  let ?w = "set_stk w1 r AEM_STACK_EMPTY"
  have sl: "slot ?w = (slot w)(r := \<lambda>_. None)" by (simp add: empty w1(3))
  have "slots_ok ?w"
    using w1(2,3) unfolding slots_ok_def sl by simp
  then show ?thesis using w1 sl by (simp add: aem_registry_dtor_def aem_stack_dtor_def)
qed

end

interpretation bare: registry_cleaner None
proof unfold_locales
  fix w r i it
  assume ok: "slots_ok w" and at: "slot w r i = Some it"
  have "aem_registry_by_id w (Some r) (c_ssize i) = slot w r i"
    using slot_bound(2) [OF ok at] by (simp add: aem_registry_by_id_def slot_def)
  then show "\<exists>rc w1. aem_registry_remove None w r i = Some (rc, w1) \<and> left_slot w w1 r i it"
    using deregister_leaves [OF ok at] at by (auto simp: aem_registry_remove_def)
qed

interpretation owned: registry_cleaner "Some item_dtor"
proof unfold_locales
  fix w r i it
  assume ok: "slots_ok w" and at: "slot w r i = Some it"
  have "aem_registry_by_id w (Some r) (c_ssize i) = slot w r i"
    using slot_bound(2) [OF ok at] by (simp add: aem_registry_by_id_def slot_def)
  then show "\<exists>rc w1. aem_registry_remove (Some item_dtor) w r i = Some (rc, w1) \<and> left_slot w w1 r i it"
    using registrable_dtor_leaves [OF ok at] at by (auto simp: aem_registry_remove_def item_dtor_def)
qed

section \<open>Reachable worlds\<close>

inductive registry_step :: "nat ptr allocator \<Rightarrow> world \<Rightarrow> world \<Rightarrow> bool" for al where
  init_item: "it_reg (w_items w it) = None \<Longrightarrow> registry_step al w (aem_registrable_init w it)"
| rename: "it_reg (w_items w it) = None \<Longrightarrow>
    registry_step al w (set_item w it ((w_items w it)\<lparr>it_name := b\<rparr>))"
| init_registry: "slot w r = (\<lambda>_. None) \<Longrightarrow> registry_step al w (aem_registry_init w r)"
| set_flags: "slot w r = (\<lambda>_. None) \<Longrightarrow>
    registry_step al w (w\<lparr>w_regs := (w_regs w)(r := (w_regs w r)\<lparr>reg_flags := f\<rparr>)\<rparr>)"
| register: "aem_registrable_register al w it r = Some (k, w') \<Longrightarrow> registry_step al w w'"
| deregister: "aem_registrable_deregister w (Some it) = Some w' \<Longrightarrow> registry_step al w w'"
| item_dtor: "aem_registrable_dtor w (Some it) = Some w' \<Longrightarrow> registry_step al w w'"
| remove: "d = None \<or> d = Some item_dtor \<Longrightarrow> aem_registry_remove d w r k = Some (rc, w') \<Longrightarrow>
    registry_step al w w'"
| registry_dtor: "d = None \<or> d = Some item_dtor \<Longrightarrow> aem_registry_dtor d w (Some r) = Some w' \<Longrightarrow>
    registry_step al w w'"

text \<open>Before anything has happened no item is registered and every registry is fresh.\<close>

definition no_world :: world where
  "no_world = \<lparr>w_items = \<lambda>_. \<lparr>it_name = aem_stringbuf_init, it_reg = None, it_id = -1\<rparr>,
     w_regs = \<lambda>_. \<lparr>reg_stk = aem_stack_init, reg_flags = 0\<rparr>\<rparr>"

inductive registry_reached :: "nat ptr allocator \<Rightarrow> world \<Rightarrow> bool" for al where
  start: "registry_reached al no_world"
| further: "registry_reached al w \<Longrightarrow> registry_step al w w' \<Longrightarrow> registry_reached al w'"

lemma fresh_stack: "aem_stack_index (aem_stack_init :: nat stack) = (\<lambda>_. None)"
  "stack_inv (aem_stack_init :: nat stack)"
  by (simp_all add: aem_stack_init_def aem_stack_index_def AEM_STACK_EMPTY_def fun_eq_iff
      stack_inv_def PTRDIFF_MAX_def)

lemma deregister_keeps:
  assumes ok: "slots_ok w" "names_ok w" and res: "aem_registrable_deregister w (Some it) = Some w'"
  shows "slots_ok w' \<and> names_ok w' \<and> it_reg (w_items w' it) = None"
  using ok(1)
proof (cases rule: deregister_eq [where it = it])
  case not_registered
  then show ?thesis using ok res by simp
next
  case (registered r i stk)
  then show ?thesis
    using deregister_leaves [OF ok(1) registered(1)] left_slot_names [OF ok _ registered(1)] res
    by (auto simp: left_slot_def)
qed

lemma names_ok_rename:
  assumes "slots_ok w" "names_ok w" "it_reg (w_items w it) = None"
  shows "names_ok (set_item w it ((w_items w it)\<lparr>it_name := b\<rparr>))"
proof -
  have "slot w r i \<noteq> Some it" for r i using slots_okD(2) [OF assms(1), of r i it] assms(3) by simp
  then show ?thesis using assms(2) unfolding names_ok_def
    by (metis (no_types, lifting) fun_upd_other name_of_set(2) slot_simps(1,3))
qed

lemma registrable_dtor_keeps:
  assumes ok: "slots_ok w" "names_ok w" and res: "aem_registrable_dtor w (Some it) = Some w'"
  shows "slots_ok w' \<and> names_ok w'"
proof -
  obtain w1 where w1: "slots_ok w1" "names_ok w1" "it_reg (w_items w1 it) = None"
    and w': "w' = set_item w1 it ((w_items w1 it)\<lparr>it_name := aem_stringbuf_dtor (it_name (w_items w1 it))\<rparr>)"
    using res deregister_keeps [OF ok] ok
    by (auto simp: aem_registrable_dtor_def bind_eq_Some_conv split: if_splits)
  show ?thesis using slots_ok_rename [OF w1(1)] names_ok_rename [OF w1] unfolding w' by simp
qed

lemma remove_keeps:
  assumes ok: "slots_ok w" "names_ok w" and d: "d = None \<or> d = Some item_dtor"
    and res: "aem_registry_remove d w r k = Some (rc, w')"
  shows "slots_ok w' \<and> names_ok w'"
  using d res deregister_keeps [OF ok] registrable_dtor_keeps [OF ok] ok
  by (auto simp: aem_registry_remove_def item_dtor_def bind_eq_Some_conv split: option.splits)

lemma emptied_names:
  assumes "names_ok w" "slots_ok w'" "slot w' = (slot w)(r := \<lambda>_. None)" "no_dups w' = no_dups w"
    "\<And>it. if it_reg (w_items w it) = Some r then it_reg (w_items w' it) = None
       else w_items w' it = w_items w it"
  shows "names_ok w'"
proof -
  have same: "slot w' r' j = Some a \<Longrightarrow> slot w r' j = Some a \<and> name_of w' a = name_of w a" for r' j a
    using assms(3) slots_okD(2) [OF assms(2), of r' j a] assms(5) [of a]
    by (auto simp: name_of_def split: if_splits)
  then show ?thesis using assms(1,4) unfolding names_ok_def by metis
qed

lemma step_keeps:
  assumes "registry_step al w w'" "slots_ok w" "names_ok w"
  shows "slots_ok w' \<and> names_ok w'"
  using assms
proof (induction rule: registry_step.induct)
  case (init_item w it)
  have none: "slot w r i \<noteq> Some it" for r i
    using slots_okD(2) [OF init_item(2), of r i it] init_item(1) by simp
  have "slots_ok (aem_registrable_init w it)"
    using init_item(1,2) by (auto simp: slots_ok_def aem_registrable_init_def)
  moreover have "names_ok (aem_registrable_init w it)"
    using init_item(3) none unfolding names_ok_def aem_registrable_init_def
    by (metis (no_types, lifting) fun_upd_other name_of_set(2) slot_simps(1,3))
  ultimately show ?case by blast
next
  case (rename w it b)
  then show ?case using slots_ok_rename names_ok_rename by blast
next
  case (init_registry w r)
  note e = fresh_stack
  have s: "slot (aem_registry_init w r) = slot w"
    using init_registry(1) e by (auto simp: fun_eq_iff slot_def aem_registry_init_def)
  have i: "w_items (aem_registry_init w r) = w_items w" by (simp add: aem_registry_init_def)
  have n: "no_dups (aem_registry_init w r) r' \<Longrightarrow> no_dups w r' \<or> r' = r" for r'
    by (auto simp: no_dups_def aem_registry_init_def split: if_splits)
  have "stack_inv (reg_stk (w_regs (aem_registry_init w r) r'))" for r'
    using slots_okD(1) [OF init_registry(2), of r'] e by (simp add: aem_registry_init_def)
  then have "slots_ok (aem_registry_init w r)"
    using init_registry(2) unfolding slots_ok_def s i by blast
  moreover have "names_ok (aem_registry_init w r)"
    using init_registry(1,3) n unfolding names_ok_def s name_of_def i
    by (metis option.distinct(1))
  ultimately show ?case by blast
next
  case (set_flags w r f)
  let ?w = "w\<lparr>w_regs := (w_regs w)(r := (w_regs w r)\<lparr>reg_flags := f\<rparr>)\<rparr>"
  have s: "slot ?w = slot w" by (auto simp: fun_eq_iff slot_def)
  have i: "w_items ?w = w_items w" by simp
  have n: "no_dups ?w r' \<Longrightarrow> no_dups w r' \<or> r' = r" for r'
    by (auto simp: no_dups_def split: if_splits)
  have "stack_inv (reg_stk (w_regs ?w r'))" for r'
    using slots_okD(1) [OF set_flags(2), of r'] slots_okD(1) [OF set_flags(2), of r] by simp
  then have "slots_ok ?w"
    using set_flags(2) unfolding slots_ok_def s i by blast
  moreover have "names_ok ?w"
    using set_flags(1,3) n unfolding names_ok_def s name_of_def i
    by (metis option.distinct(1))
  ultimately show ?case by blast
next
  case (registry_dtor d w r w')
  then show ?case
    using bare.dtor_empties [of w r] owned.dtor_empties [of w r] emptied_names [of w w' r]
    by (elim disjE) (auto split del: if_split)
qed (auto dest: names_ok_register deregister_keeps registrable_dtor_keeps remove_keeps)

lemma reached_ok:
  assumes "registry_reached al w"
  shows "slots_ok w \<and> names_ok w"
  using assms
proof induction
  case start
  note e = fresh_stack
  have "slot no_world = (\<lambda>_ _. None)" using e by (simp add: fun_eq_iff slot_def no_world_def)
  then show ?case using e by (simp add: slots_ok_def names_ok_def no_world_def)
next
  case (further w w')
  then show ?case using step_keeps by blast
qed

section \<open>Properties\<close>

text \<open>C26: In every world that initialization, renaming of unregistered items,
  registration, deregistration, removal and destruction can reach, looking an item up by its
  number finds exactly the item that holds the number in that registry, and in a registry with
  the no-duplicates flag two different registered items never have the same name.\<close>

theorem registry_consistent:
  assumes "registry_reached al w" "k < 2 ^ 63"
  shows "(aem_registry_by_id w (Some r) k = Some it \<longleftrightarrow>
      it_reg (w_items w it) = Some r \<and> aem_registrable_id w (Some it) = k) \<and>
    (no_dups w r \<and> it_reg (w_items w a) = Some r \<and> it_reg (w_items w b) = Some r \<and> a \<noteq> b \<longrightarrow>
      name_of w a \<noteq> name_of w b)"
proof -
  have ok: "slots_ok w" "names_ok w" using reached_ok [OF assms(1)] by auto
  have at: "it_reg (w_items w x) = Some r \<Longrightarrow> slot w r (nat (it_id (w_items w x))) = Some x" for x
    using slots_okD(2) [OF ok(1), of r "nat (it_id (w_items w x))" x] slots_okD(3) [OF ok(1), of x] by simp
  have "name_of w a \<noteq> name_of w b"
    if "no_dups w r" "it_reg (w_items w a) = Some r" "it_reg (w_items w b) = Some r" "a \<noteq> b"
    using at [OF that(2)] at [OF that(3)] ok(2) that(1,4) unfolding names_ok_def
    by (metis option.inject)
  then show ?thesis using by_id_iff [OF ok(1) assms(2), of r it] by (simp add: aem_registrable_id_def)
qed

definition named :: "u8 list \<Rightarrow> stringbuf" where
  "named bs = AEM_STRINGBUF_EMPTY\<lparr>sb_s := bs @ [0], sb_n := length bs, sb_maxn := length bs + 1\<rparr>"

text \<open>Item 1, called \<open>a\<close>, joins registry 0, which wants no duplicates.\<close>
definition one_item :: world where
  "one_item = set_item (no_world\<lparr>w_regs := (w_regs no_world)(0 := \<lparr>reg_stk = aem_stack_init, reg_flags = 1\<rparr>)\<rparr>)
     1 \<lparr>it_name = named [97], it_reg = None, it_id = -1\<rparr>"

definition joined_world :: world where
  "joined_world = snd (the (aem_registrable_register roomy one_item 1 0))"

lemma one_item_reached: "registry_reached roomy one_item"
proof -
  have "slot no_world 0 = (\<lambda>_. None)" by (simp add: slot_def no_world_def fresh_stack)
  from registry_step.set_flags [OF this, of roomy 1] have
    "registry_reached roomy (no_world\<lparr>w_regs := (w_regs no_world)(0 := \<lparr>reg_stk = aem_stack_init, reg_flags = 1\<rparr>)\<rparr>)"
    using registry_reached.further [OF registry_reached.start] by (simp add: no_world_def)
  from registry_reached.further [OF this registry_step.rename [where it = 1 and b = "named [97]"]]
  show ?thesis by (simp add: one_item_def no_world_def)
qed

lemma one_item_joins:
  "aem_registrable_register roomy one_item 1 0 = Some (0, joined_world)"
  "it_reg (w_items joined_world 1) = Some 0" "it_id (w_items joined_world 1) = 0"
proof -
  have n: "aem_registry_by_name one_item (Some 0) s = None" for s
    by (simp add: aem_registry_by_name_def by_name_loop.simps one_item_def aem_stack_init_def AEM_STACK_EMPTY_def)
  obtain stk where a: "aem_stack_assign_empty roomy (aem_stack_init :: nat stack) (Some 1) = Some (0, stk)"
    by (simp add: aem_stack_assign_empty_def aem_stack_assign_def aem_stack_index_p_def stk_find_empty.simps
        stk_fill.simps aem_stack_index_def aem_stack_init_def AEM_STACK_EMPTY_def aem_stack_push_def
        aem_stack_reserve_def aem_stack_reserve_total_def aem_array_grow_impl_def aem_array_realloc_impl_def
        sizeof_ptr_def alloc_granted_def PTRDIFF_MAX_def roomy_def stk_store_def realloc_content_def)
  have "aem_registrable_register roomy one_item 1 0 =
      Some (0, set_item (set_stk one_item 0 stk) 1 \<lparr>it_name = named [97], it_reg = Some 0, it_id = 0\<rparr>)"
    using a n by (simp add: aem_registrable_register_def one_item_def)
  then show "aem_registrable_register roomy one_item 1 0 = Some (0, joined_world)"
    "it_reg (w_items joined_world 1) = Some 0" "it_id (w_items joined_world 1) = 0"
    by (simp_all add: joined_world_def)
qed

theorem registry_consistent_witness:
  "aem_registry_by_id joined_world (Some 0) 0 = Some 1"
  using registry_consistent [OF registry_reached.further
      [OF one_item_reached registry_step.register [OF one_item_joins(1)]], of 0 0 1] one_item_joins(2,3)
  by (simp add: aem_registrable_id_def)

lemma match_int_all_digits:
  assumes "ds \<noteq> []" "\<forall>b\<in>set ds. is_digit 10 b" "ss_bytes sl = ds" "digits_value 10 ds < 2 ^ 31"
    and "hd ds \<noteq> 45"
  shows "aem_stringslice_match_int_base sl 10 = (Some (digits_value 10 ds), ss_advance sl (length ds))"
proof -
  let ?v = "digits_value 10 ds"
  have all: "lead_digits 10 ds = ds" using assms(2) by (simp add: lead_digits_def)
  have v0: "0 \<le> ?v" by (rule digits_value_nonneg) (use assms(2) in auto)
  have "\<not> prefix [45] ds" using assms(1,5) by (cases ds) auto
  then have m: "aem_stringslice_match sl (cstr ''-'') = (False, sl)"
    by (simp add: match_spec assms(3) cstr_def)
  have u: "aem_stringslice_match_ulong_base sl 10 = (Some (word_of_int ?v), ss_advance sl (length ds))"
    using ulong_exact [of 10 sl] assms(1,3,4) all by simp
  have "aem_stringslice_match_long_base sl 10 = (Some ?v, ss_advance sl (length ds))"
    using assms(1,3,4) v0 by (simp add: aem_stringslice_match_long_base_def m u long_of_magnitude_spec)
  then show ?thesis using v0 assms(4)
    by (simp add: aem_stringslice_match_int_base_def INT_MAX_def INT_MIN_def)
qed

text \<open>C27: Registering an unregistered item either returns -1 and changes nothing,
  in a registry that allows no duplicates and has an item of that name, or gives it the lowest free
  number, under which it is found at once, by the number and by a key \<open>#\<close> with its
  decimal digits; every other number still leads to the same item as before, and deregistering
  it leads back to the lookups before the registration.\<close>

theorem registry_found:
  assumes "registry_reached al w" and unreg: "it_reg (w_items w it) = None"
    and reg: "aem_registrable_register al w it r = Some (k, w')"
  shows "if k < 0
    then k = -1 \<and> w' = w \<and> no_dups w r \<and> aem_registry_by_name w (Some r) (item_name w it) \<noteq> None
    else aem_registry_by_id w (Some r) k = None \<and>
      (\<forall>j. 0 \<le> j \<and> j < k \<longrightarrow> aem_registry_by_id w (Some r) j \<noteq> None) \<and>
      aem_registry_by_id w' (Some r) k = Some it \<and>
      (\<forall>r' j. (r' \<noteq> r \<or> j \<noteq> k) \<and> j < 2 ^ 63 \<longrightarrow>
         aem_registry_by_id w' (Some r') j = aem_registry_by_id w (Some r') j) \<and>
      (\<forall>key ds. ss_bytes key = 35 # ds \<and> ds \<noteq> [] \<and> (\<forall>b\<in>set ds. is_digit 10 b) \<and>
         digits_value 10 ds = k \<and> k < 2 ^ 31 \<longrightarrow> aem_registry_lookup w' (Some r) key = Some it) \<and>
      (\<exists>w''. aem_registrable_deregister w' (Some it) = Some w'' \<and>
         (\<forall>r' j. aem_registry_by_id w'' (Some r') j = aem_registry_by_id w (Some r') j))"
proof -
  have ok: "slots_ok w" "names_ok w" using reached_ok [OF assms(1)] by auto
  have ok': "slots_ok w'" using names_ok_register [OF ok reg] by blast
  have by_id: "aem_registry_by_id v (Some x) j = (if j < 0 then None else slot v x (c_size j))" for v x j
    by (simp add: aem_registry_by_id_def slot_def)
  show ?thesis using ok(1) reg
  proof (cases rule: register_cases)
    case already
    then show ?thesis using slots_okD(3) [OF ok(1), of it] unreg by simp
  next
    case (taken j other)
    then show ?thesis by simp
  next
    case (fresh i stk)
    have s: "slot w' = (slot w)(r := (slot w r)(i \<mapsto> it))" by (simp add: fresh(6,7))
    have at: "slot w' r i = Some it" by (simp add: s)
    have i: "i < 2 ^ 60" by (rule slot_bound(2) [OF ok' at])
    have other: "c_size j \<noteq> i" if "0 \<le> j" "j < 2 ^ 63" "j \<noteq> k" for j
      using that by (cases j) (auto simp: fresh(2))
    have lookup: "aem_registry_lookup w' (Some r) key = Some it"
      if key: "ss_bytes key = 35 # ds" "ds \<noteq> []" "\<forall>b\<in>set ds. is_digit 10 b" "digits_value 10 ds = k" "k < 2 ^ 31"
      for key ds
    proof -
      have "hd ds \<noteq> 45" using key(2,3)
        by (cases ds) (auto simp: is_digit_def digit_of_def char2digit_def schar_def)
      moreover have "aem_stringslice_match key (cstr ''#'') = (True, ss_advance key 1)"
        by (simp add: match_spec key(1) cstr_def)
      ultimately show ?thesis
        using match_int_all_digits [of ds "ss_advance key 1"] key at i fresh(2)
        by (simp add: aem_registry_lookup_def by_id Let_def)
    qed
    obtain w'' where w'': "aem_registrable_deregister w' (Some it) = Some w''" "left_slot w' w'' r i it"
      using deregister_leaves [OF ok' at] by blast
    have "slot w'' = slot w" using w''(2) fresh(3) by (auto simp: left_slot_def s fun_eq_iff)
    then have restored: "\<forall>r' j. aem_registry_by_id w'' (Some r') j = aem_registry_by_id w (Some r') j"
      by (simp add: by_id)
    have "\<forall>j. 0 \<le> j \<and> j < k \<longrightarrow> aem_registry_by_id w (Some r) j \<noteq> None"
    proof (intro allI impI)
      fix j assume "0 \<le> j \<and> j < k"
      then obtain m where "j = int m" "m < i" using fresh(2) by (cases j) auto
      then show "aem_registry_by_id w (Some r) j \<noteq> None"
        using fresh(4) [of m] i by (simp add: by_id)
    qed
    moreover have "\<forall>r' j. (r' \<noteq> r \<or> j \<noteq> k) \<and> j < 2 ^ 63 \<longrightarrow>
        aem_registry_by_id w' (Some r') j = aem_registry_by_id w (Some r') j"
      using other by (auto simp: by_id s)
    ultimately show ?thesis using fresh(2,3) at i lookup w''(1) restored by (simp add: by_id)
  qed
qed

theorem registry_found_witness:
  "aem_registry_lookup joined_world (Some 0) (aem_stringslice_new_cstr (Some (cstr ''#0''))) = Some 1"
proof -
  have "digits_value 10 [48] = 0" "is_digit 10 48"
    by (simp_all add: digits_value_def is_digit_def digit_of_def char2digit_def schar_def)
  moreover have "it_reg (w_items one_item 1) = None" by (simp add: one_item_def)
  ultimately show ?thesis
    using registry_found [OF one_item_reached _ one_item_joins(1)] by (simp add: cstr_def)
qed

text \<open>C28: Destroying a registry returns, whether it has no \<open>dtor\<close> callback or
  one that destroys the item: afterwards no slot is left, every item that was registered in it
  has been deregistered and no other item has changed.\<close>

theorem registry_emptied:
  assumes "registry_reached al w" "dtor = None \<or> dtor = Some item_dtor"
  shows "\<exists>w'. aem_registry_dtor dtor w (Some r) = Some w' \<and> reg_stk (w_regs w' r) = AEM_STACK_EMPTY \<and>
    (\<forall>it. if it_reg (w_items w it) = Some r
      then it_reg (w_items w' it) = None \<and> aem_registrable_id w' (Some it) = -1
      else w_items w' it = w_items w it)"
proof -
  have ok: "slots_ok w" using reached_ok [OF assms(1)] by blast
  from assms(2) obtain w' where w': "aem_registry_dtor dtor w (Some r) = Some w'" "slots_ok w'"
      "reg_stk (w_regs w' r) = AEM_STACK_EMPTY"
      "\<forall>it. if it_reg (w_items w it) = Some r then it_reg (w_items w' it) = None
            else w_items w' it = w_items w it"
    using bare.dtor_empties [OF ok, of r] owned.dtor_empties [OF ok, of r] by metis
  have "it_reg (w_items w' it) = None \<Longrightarrow> aem_registrable_id w' (Some it) = -1" for it
    using slots_okD(3,4) [OF w'(2), of it] by (simp add: aem_registrable_id_def)
  then show ?thesis using w' by metis
qed

theorem registry_emptied_witness:
  "\<exists>w'. aem_registry_dtor (Some item_dtor) joined_world (Some 0) = Some w' \<and>
     aem_registrable_id w' (Some 1) = -1"
proof -
  have "registry_reached roomy joined_world"
    by (rule registry_reached.further [OF one_item_reached registry_step.register [OF one_item_joins(1)]])
  from registry_emptied [OF this, of "Some item_dtor" 0] show ?thesis
    using one_item_joins(2) by metis
qed

end
