(* ===== verification/Aem_Linked.thy ===== *)
theory Aem_Linked
  imports Aem_Base "HOL-Library.Monad_Syntax"
begin

text \<open>
  \<open>linked_list.h\<close>: circular lists with a sentinel node, as macros over the link fields of the
  nodes. A link field is a function from the address of a node to the address it points to; the
  macros become updates of these functions. \<open>ring\<close> says which nodes a list holds, in order, and
  the lemmas show that every macro does to that sequence what its name says.
\<close>

type_synonym link = "nat \<Rightarrow> nat"

section \<open>Initialization, insertion, removal\<close>

definition AEM_LL1_INIT :: "nat \<Rightarrow> link \<Rightarrow> link" where
  "AEM_LL1_INIT chain nxt = nxt(chain := chain)"

definition AEM_LL2_INIT :: "nat \<Rightarrow> link \<times> link \<Rightarrow> link \<times> link" where
  "AEM_LL2_INIT chain = (\<lambda>(prev, nxt). (AEM_LL1_INIT chain prev, AEM_LL1_INIT chain nxt))"

definition AEM_LL1_INSERT_AFTER :: "nat \<Rightarrow> nat \<Rightarrow> link \<Rightarrow> link" where
  "AEM_LL1_INSERT_AFTER chain node nxt =
     (let next1 = nxt(node := nxt chain) in next1(chain := node))"

text \<open>The pair is the link field the macro calls \<open>prev\<close> and the one it calls \<open>next\<close>.\<close>
definition AEM_LL2_INSERT_BEFORE_4 :: "nat \<Rightarrow> nat \<Rightarrow> link \<times> link \<Rightarrow> link \<times> link" where
  "AEM_LL2_INSERT_BEFORE_4 chain node = (\<lambda>(prev, nxt).
     let next1 = nxt(node := chain);
         prev1 = prev(node := prev chain);
         next2 = next1(prev1 chain := node);
         prev2 = prev1(chain := node)
     in (prev2, next2))"

definition AEM_LL2_INSERT_AFTER_4 :: "nat \<Rightarrow> nat \<Rightarrow> link \<times> link \<Rightarrow> link \<times> link" where
  "AEM_LL2_INSERT_AFTER_4 chain node = (\<lambda>(prev, nxt).
     prod.swap (AEM_LL2_INSERT_BEFORE_4 chain node (nxt, prev)))"

definition AEM_LL2_REMOVE_EXPLICIT :: "nat \<Rightarrow> link \<times> link \<Rightarrow> link \<times> link" where
  "AEM_LL2_REMOVE_EXPLICIT node = (\<lambda>(prev, nxt).
     let prev1 = prev(nxt node := prev node);
         next1 = nxt(prev1 node := nxt node);
         next2 = next1(node := node);
         prev2 = prev1(node := node)
     in (prev2, next2))"

definition AEM_LL_EMPTY :: "nat \<Rightarrow> link \<Rightarrow> bool" where
  "AEM_LL_EMPTY chain nxt \<longleftrightarrow> nxt chain = chain"

section \<open>Loops\<close>

text \<open>The loops run their body in a state that holds the link field, read through \<open>nx\<close> and
  written through \<open>set_nx\<close>. \<open>None\<close> is a body that fails, or a loop that never ends.\<close>

partial_function (option) AEM_LL_FOR_RANGE ::
  "('s \<Rightarrow> link) \<Rightarrow> (nat \<Rightarrow> 's \<Rightarrow> 's option) \<Rightarrow> nat \<Rightarrow> nat \<Rightarrow> 's \<Rightarrow> 's option" where
  "AEM_LL_FOR_RANGE nx body cur stop s =
     (if cur = stop then Some s
      else do { s1 \<leftarrow> body cur s; AEM_LL_FOR_RANGE nx body (nx s1 cur) stop s1 })"

declare AEM_LL_FOR_RANGE.simps [code]

definition AEM_LL_FOR_ALL ::
  "('s \<Rightarrow> link) \<Rightarrow> (nat \<Rightarrow> 's \<Rightarrow> 's option) \<Rightarrow> nat \<Rightarrow> 's \<Rightarrow> 's option" where
  "AEM_LL_FOR_ALL nx body chain s = AEM_LL_FOR_RANGE nx body (nx s chain) chain s"

text \<open>The body says whether it leaves \<open>cur\<close> in the list; the next node is read before it runs,
  since it may free the node.\<close>

partial_function (option) AEM_LL_FILTER_RANGE ::
  "('s \<Rightarrow> link) \<Rightarrow> ('s \<Rightarrow> link \<Rightarrow> 's) \<Rightarrow> (nat \<Rightarrow> 's \<Rightarrow> (bool \<times> 's) option) \<Rightarrow>
     nat \<Rightarrow> nat \<Rightarrow> 's \<Rightarrow> 's option" where
  "AEM_LL_FILTER_RANGE nx set_nx body prev stop s =
     (let following = nx s (nx s prev); cur = nx s prev in
      if cur = stop then Some s
      else do {
        (keep, s1) \<leftarrow> body cur s;
        if keep then AEM_LL_FILTER_RANGE nx set_nx body (nx s1 prev) stop s1
        else AEM_LL_FILTER_RANGE nx set_nx body prev stop (set_nx s1 ((nx s1)(prev := following))) })"

declare AEM_LL_FILTER_RANGE.simps [code]

definition AEM_LL_FILTER_ALL ::
  "('s \<Rightarrow> link) \<Rightarrow> ('s \<Rightarrow> link \<Rightarrow> 's) \<Rightarrow> (nat \<Rightarrow> 's \<Rightarrow> (bool \<times> 's) option) \<Rightarrow>
     nat \<Rightarrow> 's \<Rightarrow> 's option" where
  "AEM_LL_FILTER_ALL nx set_nx body chain = AEM_LL_FILTER_RANGE nx set_nx body chain chain"

partial_function (option) AEM_LL_WHILE_FIRST ::
  "('s \<Rightarrow> link) \<Rightarrow> (nat \<Rightarrow> 's \<Rightarrow> 's option) \<Rightarrow> nat \<Rightarrow> 's \<Rightarrow> 's option" where
  "AEM_LL_WHILE_FIRST nx body chain s =
     (let cur = nx s chain in
      if cur = chain then Some s
      else do { s1 \<leftarrow> body cur s; AEM_LL_WHILE_FIRST nx body chain s1 })"

declare AEM_LL_WHILE_FIRST.simps [code]

definition AEM_LL2_VERIFY :: "nat \<Rightarrow> link \<times> link \<Rightarrow> unit option" where
  "AEM_LL2_VERIFY chain = (\<lambda>(prev, nxt).
     AEM_LL_FOR_ALL (\<lambda>_. nxt)
       (\<lambda>cur s. if nxt (prev cur) = cur \<and> prev (nxt cur) = cur then Some () else None)
       chain ())"

section \<open>The nodes of a list\<close>

fun ll_path :: "link \<Rightarrow> nat \<Rightarrow> nat list \<Rightarrow> nat \<Rightarrow> bool" where
  "ll_path nxt a [] b \<longleftrightarrow> nxt a = b"
| "ll_path nxt a (x # xs) b \<longleftrightarrow> nxt a = x \<and> ll_path nxt x xs b"

definition ring :: "link \<Rightarrow> nat \<Rightarrow> nat list \<Rightarrow> bool" where
  "ring nxt chain xs \<longleftrightarrow> ll_path nxt chain xs chain \<and> distinct (chain # xs)"

definition ring2 :: "link \<times> link \<Rightarrow> nat \<Rightarrow> nat list \<Rightarrow> bool" where
  "ring2 = (\<lambda>(prev, nxt) chain xs. ring nxt chain xs \<and> ring prev chain (rev xs))"

lemma ll_path_append [simp]:
  "ll_path n a (xs @ y # ys) b \<longleftrightarrow> ll_path n a xs y \<and> ll_path n y ys b"
  by (induction xs arbitrary: a) auto

lemma ll_path_update [simp]:
  "y \<notin> insert a (set xs) \<Longrightarrow> ll_path (n(y := v)) a xs b \<longleftrightarrow> ll_path n a xs b"
  by (induction xs arbitrary: a) auto

lemma ll_path_first: "ll_path n a xs b \<Longrightarrow> n a = hd (xs @ [b])"
  by (cases xs) auto

lemma ring_init: "ring (AEM_LL1_INIT c n) c []" "ring2 (AEM_LL2_INIT c (p, n)) c []"
  by (simp_all add: ring_def ring2_def AEM_LL1_INIT_def AEM_LL2_INIT_def)

lemma ring_empty_iff: "ring n c xs \<Longrightarrow> AEM_LL_EMPTY c n \<longleftrightarrow> xs = []"
  by (cases xs) (auto simp: ring_def AEM_LL_EMPTY_def)

lemma ring_unique:
  assumes "ring n c xs" "ring n c ys"
  shows "xs = ys"
proof -
  have "ll_path n a xs c \<Longrightarrow> ll_path n a ys c \<Longrightarrow> c \<notin> set xs \<union> set ys \<Longrightarrow> xs = ys" for a
  proof (induction xs arbitrary: a ys)
    case Nil
    then show ?case by (cases ys) auto
  next
    case (Cons x xs)
    then show ?case by (cases ys) auto
  qed
  from this [of c] show ?thesis using assms unfolding ring_def by auto
qed

lemma ring_insert_after:
  assumes "ring n c xs" "x \<notin> insert c (set xs)"
  shows "ring (AEM_LL1_INSERT_AFTER c x n) c (x # xs)"
proof -
  have "ll_path ((n(x := n c))(c := x)) x xs c"
  proof (cases xs)
    case Nil
    then show ?thesis using assms by (simp add: ring_def)
  next
    case (Cons y ys)
    then show ?thesis using assms by (simp add: ring_def)
  qed
  then show ?thesis using assms by (simp add: ring_def AEM_LL1_INSERT_AFTER_def)
qed

lemma ring_last: "ring n c xs \<Longrightarrow> n (last (c # xs)) = c"
  by (cases xs rule: rev_cases) (auto simp: ring_def)

lemma ring_snoc:
  assumes "ring n c xs" "x \<notin> insert c (set xs)"
  shows "ring ((n(x := c))(last (c # xs) := x)) c (xs @ [x])"
proof (cases xs rule: rev_cases)
  case Nil
  then show ?thesis using assms by (simp add: ring_def)
next
  case (snoc ys l)
  then show ?thesis using assms by (simp add: ring_def)
qed

lemma ring_cons:
  assumes "ring n c xs" "x \<notin> insert c (set xs)"
  shows "ring ((n(x := n c))(c := x)) c (x # xs)"
  using ring_insert_after [OF assms] by (simp add: AEM_LL1_INSERT_AFTER_def)

lemma ring2_insert_before:
  assumes "ring2 (p, n) c xs" "x \<notin> insert c (set xs)"
  shows "ring2 (AEM_LL2_INSERT_BEFORE_4 c x (p, n)) c (xs @ [x])"
proof -
  have r: "ring n c xs" "ring p c (rev xs)" using assms(1) by (auto simp: ring2_def)
  have "p c = last (c # xs)"
    using ll_path_first [of p c "rev xs" c] r(2) by (cases xs rule: rev_cases) (auto simp: ring_def)
  moreover have "last (c # xs) \<noteq> x" using assms(2) by (cases xs rule: rev_cases) auto
  ultimately show ?thesis
    using ring_snoc [OF r(1) assms(2)] ring_cons [OF r(2), of x] assms(2)
    by (auto simp: ring2_def AEM_LL2_INSERT_BEFORE_4_def Let_def)
qed

lemma ring2_swap: "ring2 (p, n) c xs \<longleftrightarrow> ring2 (n, p) c (rev xs)"
  by (auto simp: ring2_def)

lemma ring2_insert_after:
  assumes "ring2 (p, n) c xs" "x \<notin> insert c (set xs)"
  shows "ring2 (AEM_LL2_INSERT_AFTER_4 c x (p, n)) c (x # xs)"
proof -
  obtain p' n' where r: "AEM_LL2_INSERT_BEFORE_4 c x (n, p) = (p', n')" by fastforce
  have "ring2 (p', n') c (rev xs @ [x])"
    using ring2_insert_before [of n p c "rev xs" x] assms r by (simp add: ring2_swap [of p n])
  then show ?thesis by (simp add: AEM_LL2_INSERT_AFTER_4_def r ring2_swap [of n' p'])
qed

text \<open>A link that skips the node \<open>x\<close>.\<close>

lemma ring_skip:
  assumes "ring n c (xs @ x # ys)"
  shows "ring ((n(last (c # xs) := n x))(x := x)) c (xs @ ys)"
proof -
  have d: "distinct (c # xs @ x # ys)" and path: "ll_path n c xs x" "ll_path n x ys c"
    using assms by (auto simp: ring_def)
  have tail: "ll_path (n(l := v)) x ys c" if "l \<notin> insert x (set ys)" for l v using path(2) that by simp
  show ?thesis
  proof (cases ys)
    case Nil
    then show ?thesis using d path by (cases xs rule: rev_cases) (auto simp: ring_def)
  next
    case (Cons y zs)
    then show ?thesis using d path by (cases xs rule: rev_cases) (auto simp: ring_def)
  qed
qed

lemma ring_before:
  assumes "ring2 (p, n) c (xs @ x # ys)"
  shows "p x = last (c # xs)" "n x = hd (ys @ [c])"
proof -
  have "ll_path p x (rev xs) c" "ll_path n x ys c" using assms by (auto simp: ring2_def ring_def)
  from this [THEN ll_path_first] show "p x = last (c # xs)" "n x = hd (ys @ [c])"
    by (cases xs rule: rev_cases; simp)+
qed

lemma ring2_remove:
  assumes "ring2 (p, n) c (xs @ x # ys)" "AEM_LL2_REMOVE_EXPLICIT x (p, n) = (p', n')"
  shows "ring2 (p', n') c (xs @ ys)" "n' x = x" "p' x = x"
proof -
  note b = ring_before [OF assms(1)]
  have r: "ring n c (xs @ x # ys)" "ring p c (rev ys @ x # rev xs)"
    using assms(1) by (auto simp: ring2_def)
  then have d: "distinct (c # xs @ x # ys)" by (simp add: ring_def)
  have ne: "hd (ys @ [c]) \<noteq> x" using d by (cases ys) auto
  have l: "last (c # rev ys) = hd (ys @ [c])" by (cases ys) auto
  have e: "n' = (n(last (c # xs) := n x))(x := x)" "p' = (p(last (c # rev ys) := p x))(x := x)"
    using assms(2) b ne l by (auto simp: AEM_LL2_REMOVE_EXPLICIT_def Let_def)
  show "ring2 (p', n') c (xs @ ys)"
    using ring_skip [OF r(1)] ring_skip [OF r(2)] by (simp add: ring2_def e)
  show "n' x = x" "p' x = x" by (simp_all add: e)
qed

section \<open>What the loops do\<close>

text \<open>\<open>Inv\<close> relates the state to the nodes the loop has dealt with so far.\<close>

lemma for_range_path:
  assumes "ll_path (nx s) a xs c" "c \<notin> set xs" "Inv zs s"
    and body: "\<And>ys x s. x \<in> set xs \<Longrightarrow> Inv ys s \<Longrightarrow>
      \<exists>s1. body x s = Some s1 \<and> Inv (ys @ [x]) s1 \<and> nx s1 = nx s"
  shows "\<exists>s1. AEM_LL_FOR_RANGE nx body (nx s a) c s = Some s1 \<and> Inv (zs @ xs) s1 \<and> nx s1 = nx s"
  using assms
proof (induction xs arbitrary: a zs s)
  case Nil
  then show ?case by (subst AEM_LL_FOR_RANGE.simps) simp
next
  case (Cons x xs)
  obtain s1 where s1: "body x s = Some s1" "Inv (zs @ [x]) s1" "nx s1 = nx s"
    using Cons.prems(4) [of x zs s] Cons.prems(3) by auto
  have "\<exists>s2. AEM_LL_FOR_RANGE nx body (nx s1 x) c s1 = Some s2 \<and> Inv ((zs @ [x]) @ xs) s2 \<and> nx s2 = nx s1"
    by (rule Cons.IH) (use Cons.prems s1 in auto)
  then show ?case using Cons.prems(1,2) s1 by (subst AEM_LL_FOR_RANGE.simps) auto
qed

lemma for_all_ring:
  assumes "ring (nx s) c xs" "Inv [] s"
    and "\<And>ys x s. x \<in> set xs \<Longrightarrow> Inv ys s \<Longrightarrow> \<exists>s1. body x s = Some s1 \<and> Inv (ys @ [x]) s1 \<and> nx s1 = nx s"
  shows "\<exists>s1. AEM_LL_FOR_ALL nx body c s = Some s1 \<and> Inv xs s1 \<and> nx s1 = nx s"
  using for_range_path [of nx s c xs c Inv "[]" body] assms by (simp add: ring_def AEM_LL_FOR_ALL_def)

lemma while_first_ring:
  assumes "ring (nx s) c xs" "Inv zs s"
    and body: "\<And>ys x xs s. ring (nx s) c (x # xs) \<Longrightarrow> Inv ys s \<Longrightarrow>
      \<exists>s1. body x s = Some s1 \<and> Inv (ys @ [x]) s1 \<and> ring (nx s1) c xs"
  shows "\<exists>s1. AEM_LL_WHILE_FIRST nx body c s = Some s1 \<and> Inv (zs @ xs) s1 \<and> ring (nx s1) c []"
  using assms(1,2)
proof (induction xs arbitrary: zs s)
  case Nil
  then show ?case by (subst AEM_LL_WHILE_FIRST.simps) (simp add: ring_def)
next
  case (Cons x xs)
  then have x: "nx s c = x" "x \<noteq> c" by (auto simp: ring_def)
  obtain s1 where s1: "body x s = Some s1" "Inv (zs @ [x]) s1" "ring (nx s1) c xs"
    using body [OF Cons.prems] by blast
  from Cons.IH [OF s1(3,2)] show ?case using x s1(1)
    by (subst AEM_LL_WHILE_FIRST.simps) auto
qed

text \<open>The state as seen by the loop that removes nodes: a link field that can be read and
  written.\<close>

locale linked_state =
  fixes nx :: "'s \<Rightarrow> link" and set_nx :: "'s \<Rightarrow> link \<Rightarrow> 's"
  assumes nx_set_nx: "nx (set_nx s l) = l"
begin

lemma path_skip:
  assumes "ll_path n a (x # xs) c" "a \<notin> set (x # xs)"
  shows "ll_path (n(a := n x)) a xs c"
  using assms by (cases xs) auto

lemma filter_range_path:
  assumes "ll_path (nx s) a xs c" "distinct (a # xs)" "c \<notin> set xs" "Inv zs s"
    and body: "\<And>ys x s. x \<in> set xs \<Longrightarrow> Inv ys s \<Longrightarrow>
      \<exists>s1. body x s = Some (keep x, s1) \<and> Inv (ys @ [x]) s1 \<and> nx s1 = nx s"
    and blind: "\<And>ys s l. Inv ys (set_nx s l) \<longleftrightarrow> Inv ys s"
  shows "\<exists>s1. AEM_LL_FILTER_RANGE nx set_nx body a c s = Some s1 \<and> Inv (zs @ xs) s1 \<and>
    ll_path (nx s1) a (filter keep xs) c \<and> (\<forall>y. y \<notin> insert a (set xs) \<longrightarrow> nx s1 y = nx s y)"
  using assms(1-5)
proof (induction xs arbitrary: a zs s)
  case Nil
  then show ?case by (subst AEM_LL_FILTER_RANGE.simps) simp
next
  case (Cons x xs)
  obtain s1 where s1: "body x s = Some (keep x, s1)" "Inv (zs @ [x]) s1" "nx s1 = nx s"
    using Cons.prems(5) [of x zs s] Cons.prems(4) by auto
  have x: "nx s a = x" "x \<noteq> c" "a \<noteq> x" using Cons.prems(1-3) by auto
  show ?case
  proof (cases "keep x")
    case True
    have "\<exists>s2. AEM_LL_FILTER_RANGE nx set_nx body x c s1 = Some s2 \<and> Inv ((zs @ [x]) @ xs) s2 \<and>
        ll_path (nx s2) x (filter keep xs) c \<and> (\<forall>y. y \<notin> insert x (set xs) \<longrightarrow> nx s2 y = nx s1 y)"
      by (rule Cons.IH) (use Cons.prems s1 in auto)
    then show ?thesis using True Cons.prems(2) x s1
      by (subst AEM_LL_FILTER_RANGE.simps) (auto simp: Let_def)
  next
    case False
    let ?s = "set_nx s1 ((nx s1)(a := nx s x))"
    have "ll_path (nx ?s) a xs c"
      using path_skip [OF Cons.prems(1)] Cons.prems(2) s1(3) by (simp add: nx_set_nx)
    then have "\<exists>s2. AEM_LL_FILTER_RANGE nx set_nx body a c ?s = Some s2 \<and> Inv ((zs @ [x]) @ xs) s2 \<and>
        ll_path (nx s2) a (filter keep xs) c \<and> (\<forall>y. y \<notin> insert a (set xs) \<longrightarrow> nx s2 y = nx ?s y)"
      by (rule Cons.IH) (use Cons.prems s1 blind in auto)
    then show ?thesis using False x s1
      by (subst AEM_LL_FILTER_RANGE.simps) (auto simp: Let_def nx_set_nx)
  qed
qed

lemma filter_all_ring:
  assumes "ring (nx s) c xs" "Inv [] s"
    and "\<And>ys x s. x \<in> set xs \<Longrightarrow> Inv ys s \<Longrightarrow>
      \<exists>s1. body x s = Some (keep x, s1) \<and> Inv (ys @ [x]) s1 \<and> nx s1 = nx s"
    and "\<And>ys s l. Inv ys (set_nx s l) \<longleftrightarrow> Inv ys s"
  shows "\<exists>s1. AEM_LL_FILTER_ALL nx set_nx body c s = Some s1 \<and> Inv xs s1 \<and> ring (nx s1) c (filter keep xs)"
  using filter_range_path [of s c xs c Inv "[]" body keep] assms
  by (auto simp: ring_def AEM_LL_FILTER_ALL_def)

end

text \<open>A list that is doubly linked passes its own check.\<close>

lemma verify_ring2:
  assumes "ring2 (p, n) c xs"
  shows "AEM_LL2_VERIFY c (p, n) = Some ()"
proof -
  have body: "n (p x) = x \<and> p (n x) = x" if x: "x \<in> set xs" for x
  proof -
    obtain ys zs where xs: "xs = ys @ x # zs" using x by (meson split_list)
    note b = ring_before [OF assms [unfolded xs]]
    have "n (last (c # ys)) = x" "p (hd (zs @ [c])) = x"
      using assms xs by (cases ys rule: rev_cases; cases zs; auto simp: ring2_def ring_def)+
    then show ?thesis using b by simp
  qed
  have "\<exists>s1. AEM_LL_FOR_ALL (\<lambda>_. n)
      (\<lambda>cur s. if n (p cur) = cur \<and> p (n cur) = cur then Some () else None) c () = Some s1 \<and> True \<and> n = n"
    by (rule for_all_ring [where Inv = "\<lambda>_ _. True" and xs = xs])
      (use assms body in \<open>auto simp: ring2_def\<close>)
  then show ?thesis by (simp add: AEM_LL2_VERIFY_def)
qed

end
