(* ===== verification/Aem_Gc.thy ===== *)
theory Aem_Gc
  imports Aem_Linked
begin

text \<open>
  \<open>iter_gen.h\<close>, \<open>gc.h\<close> and \<open>gc.c\<close>: a mark-and-sweep collector. The objects of a context are
  a singly linked list, its roots a doubly linked one; a mark is a generation number that equals the
  context's. What the client supplies is a parameter: which objects the \<open>mark\<close> method of an
  object or of a root calls \<open>aem_gc_mark\<close> on (\<open>AEM_GC_MARK_OBJ\<close> skips null pointers). Calls of
  the client's \<open>dtor\<close> and \<open>free\<close> methods are recorded in order. \<open>None\<close> is a failed
  \<open>aem_assert\<close>, or a run that does not end.
\<close>

section \<open>Generations\<close>

text \<open>The counters are \<open>int\<close>s; they wrap around as they do on the targets of this library.\<close>

record iter_gen =
  ig_gen :: int
  ig_id :: int

definition aem_iter_gen_init_master :: iter_gen where
  "aem_iter_gen_init_master = \<lparr>ig_gen = 0, ig_id = 0\<rparr>"

text \<open>The new iterator and the master.\<close>
definition aem_iter_gen_init :: "iter_gen \<Rightarrow> iter_gen \<times> iter_gen" where
  "aem_iter_gen_init master =
     (\<lparr>ig_gen = ig_gen master, ig_id = ig_id master\<rparr>, master\<lparr>ig_id := c_int (ig_id master + 1)\<rparr>)"

definition aem_iter_gen_reset_master :: "iter_gen \<Rightarrow> iter_gen" where
  "aem_iter_gen_reset_master master = \<lparr>ig_gen = c_int (ig_gen master + 1), ig_id = 0\<rparr>"

definition aem_iter_gen_hit :: "iter_gen \<Rightarrow> iter_gen \<Rightarrow> bool" where
  "aem_iter_gen_hit obj master \<longleftrightarrow> ig_gen obj = ig_gen master"

text \<open>The number of the object, or -1 when it has been visited; the iterator and the master.\<close>
definition aem_iter_gen_id :: "iter_gen \<Rightarrow> iter_gen \<Rightarrow> int \<times> iter_gen \<times> iter_gen" where
  "aem_iter_gen_id obj master =
     (if ig_gen obj = ig_gen master then (-1, obj, master)
      else (ig_id master, \<lparr>ig_gen = ig_gen master, ig_id = ig_id master\<rparr>,
            master\<lparr>ig_id := c_int (ig_id master + 1)\<rparr>))"

section \<open>Objects, roots and contexts\<close>

text \<open>Which of its methods a class of objects has.\<close>
record aem_gc_vtbl =
  vt_free :: bool
  vt_dtor :: bool
  vt_mark :: bool

record aem_gc_object =
  go_vtbl :: aem_gc_vtbl
  go_iter :: iter_gen
  go_refs :: nat

datatype gc_event = Destructed nat | Freed nat

record aem_gc_context =
  gc_object :: "nat \<Rightarrow> aem_gc_object"
  gc_ctx_next :: link
  gc_iter :: iter_gen
  gc_roots :: "link \<times> link"
  gc_log :: "gc_event list"

text \<open>The address of the sentinel of either list.\<close>
definition gc_chain :: nat where "gc_chain = 0"

text \<open>What the \<open>mark\<close> methods visit; a root without the method has \<open>None\<close>.\<close>
record gc_client =
  cl_mark :: "nat \<Rightarrow> nat ptr list"
  cl_root_mark :: "nat \<Rightarrow> nat ptr list ptr"

definition aem_gc_init :: "aem_gc_context \<Rightarrow> aem_gc_context" where
  "aem_gc_init ctx = ctx\<lparr>gc_ctx_next := AEM_LL1_INIT gc_chain (gc_ctx_next ctx),
     gc_roots := AEM_LL2_INIT gc_chain (gc_roots ctx), gc_iter := aem_iter_gen_init_master\<rparr>"

definition aem_gc_root_register :: "gc_client \<Rightarrow> nat \<Rightarrow> aem_gc_context \<Rightarrow> aem_gc_context option" where
  "aem_gc_root_register cl root ctx =
     (if cl_root_mark cl root = None then None
      else Some (ctx\<lparr>gc_roots := AEM_LL2_INSERT_BEFORE_4 gc_chain root (gc_roots ctx)\<rparr>))"

definition aem_gc_root_deregister :: "nat \<Rightarrow> aem_gc_context \<Rightarrow> aem_gc_context" where
  "aem_gc_root_deregister root ctx =
     ctx\<lparr>gc_roots := AEM_LL2_REMOVE_EXPLICIT root (gc_roots ctx)\<rparr>"

definition aem_gc_register :: "nat \<Rightarrow> aem_gc_vtbl \<Rightarrow> aem_gc_context \<Rightarrow> aem_gc_context" where
  "aem_gc_register obj vtbl ctx =
     (case aem_iter_gen_init (gc_iter ctx) of
        (it, master) \<Rightarrow>
          ctx\<lparr>gc_object := (gc_object ctx)(obj := \<lparr>go_vtbl = vtbl, go_iter = it, go_refs = 1\<rparr>),
              gc_iter := master,
              gc_ctx_next := AEM_LL1_INSERT_AFTER gc_chain obj (gc_ctx_next ctx)\<rparr>)"

definition set_refs :: "aem_gc_context \<Rightarrow> nat \<Rightarrow> nat \<Rightarrow> aem_gc_context" where
  "set_refs ctx obj n = ctx\<lparr>gc_object := (gc_object ctx)(obj := (gc_object ctx obj)\<lparr>go_refs := n\<rparr>)\<rparr>"

definition aem_gc_ref :: "nat \<Rightarrow> aem_gc_context \<Rightarrow> aem_gc_context" where
  "aem_gc_ref obj ctx = set_refs ctx obj (sz (go_refs (gc_object ctx obj) + 1))"

definition aem_gc_unref :: "nat \<Rightarrow> aem_gc_context \<Rightarrow> aem_gc_context option" where
  "aem_gc_unref obj ctx =
     (if go_refs (gc_object ctx obj) = 0 then None
      else Some (set_refs ctx obj (go_refs (gc_object ctx obj) - 1)))"

section \<open>Marking and sweeping\<close>

definition gc_hit :: "aem_gc_context \<Rightarrow> nat \<Rightarrow> bool" where
  "gc_hit ctx obj = aem_iter_gen_hit (go_iter (gc_object ctx obj)) (gc_iter ctx)"

definition gc_kids :: "gc_client \<Rightarrow> aem_gc_context \<Rightarrow> nat \<Rightarrow> nat ptr list" where
  "gc_kids cl ctx obj = (if vt_mark (go_vtbl (gc_object ctx obj)) then cl_mark cl obj else [])"

text \<open>The calls of \<open>aem_gc_mark\<close> that a method makes, one after the other; each call marks its
  object, unless that was visited before, and calls the object's own method.\<close>

partial_function (option) gc_marks ::
  "gc_client \<Rightarrow> nat ptr list \<Rightarrow> aem_gc_context \<Rightarrow> aem_gc_context option" where
  "gc_marks cl ps ctx =
     (case ps of
        [] \<Rightarrow> Some ctx
      | None # ps1 \<Rightarrow> gc_marks cl ps1 ctx
      | Some obj # ps1 \<Rightarrow>
          (case aem_iter_gen_id (go_iter (gc_object ctx obj)) (gc_iter ctx) of
             (num, it, master) \<Rightarrow>
               let ctx1 = ctx\<lparr>gc_object := (gc_object ctx)(obj := (gc_object ctx obj)\<lparr>go_iter := it\<rparr>),
                              gc_iter := master\<rparr>
               in if num < 0 then gc_marks cl ps1 ctx1
                  else do { ctx2 \<leftarrow> gc_marks cl (gc_kids cl ctx1 obj) ctx1; gc_marks cl ps1 ctx2 }))"

declare gc_marks.simps [code]

definition aem_gc_mark :: "gc_client \<Rightarrow> nat \<Rightarrow> aem_gc_context \<Rightarrow> aem_gc_context option" where
  "aem_gc_mark cl obj ctx = gc_marks cl [Some obj] ctx"

definition log_event :: "bool \<Rightarrow> gc_event \<Rightarrow> aem_gc_context \<Rightarrow> aem_gc_context" where
  "log_event has e ctx = (if has then ctx\<lparr>gc_log := gc_log ctx @ [e]\<rparr> else ctx)"

definition set_ctx_next :: "aem_gc_context \<Rightarrow> link \<Rightarrow> aem_gc_context" where
  "set_ctx_next ctx l = ctx\<lparr>gc_ctx_next := l\<rparr>"

definition aem_gc_run :: "gc_client \<Rightarrow> aem_gc_context \<Rightarrow> aem_gc_context option" where
  "aem_gc_run cl ctx =
     do { let ctx0 = ctx\<lparr>gc_iter := aem_iter_gen_reset_master (gc_iter ctx)\<rparr>;
          ctx1 \<leftarrow> AEM_LL_FOR_ALL gc_ctx_next
            (\<lambda>obj c. if go_refs (gc_object c obj) \<noteq> 0 then aem_gc_mark cl obj c else Some c) gc_chain ctx0;
          ctx2 \<leftarrow> AEM_LL_FOR_ALL (\<lambda>c. snd (gc_roots c))
            (\<lambda>root c. case cl_root_mark cl root of None \<Rightarrow> None | Some ps \<Rightarrow> gc_marks cl ps c)
            gc_chain ctx1;
          ctx3 \<leftarrow> AEM_LL_FOR_ALL gc_ctx_next
            (\<lambda>obj c. if \<not> gc_hit c obj
               then Some (log_event (vt_dtor (go_vtbl (gc_object c obj))) (Destructed obj) c) else Some c)
            gc_chain ctx2;
          AEM_LL_FILTER_ALL gc_ctx_next set_ctx_next
            (\<lambda>obj c. if \<not> gc_hit c obj
               then Some (False, log_event (vt_free (go_vtbl (gc_object c obj))) (Freed obj) c)
               else Some (True, c))
            gc_chain ctx3 }"

text \<open>The roots are dropped before the last run, as the code's own comment regrets.\<close>
definition aem_gc_dtor :: "gc_client \<Rightarrow> aem_gc_context \<Rightarrow> aem_gc_context option" where
  "aem_gc_dtor cl ctx =
     do { ctx1 \<leftarrow> AEM_LL_WHILE_FIRST (\<lambda>c. snd (gc_roots c))
            (\<lambda>root c. Some (aem_gc_root_deregister root c)) gc_chain ctx;
          aem_gc_run cl ctx1 }"

section \<open>The mark phase\<close>

text \<open>What marking leaves alone.\<close>
definition only_marks :: "aem_gc_context \<Rightarrow> aem_gc_context \<Rightarrow> bool" where
  "only_marks c c' \<longleftrightarrow> (\<forall>x. go_vtbl (gc_object c' x) = go_vtbl (gc_object c x) \<and>
       go_refs (gc_object c' x) = go_refs (gc_object c x)) \<and>
     gc_ctx_next c' = gc_ctx_next c \<and> gc_roots c' = gc_roots c \<and> gc_log c' = gc_log c \<and>
     ig_gen (gc_iter c') = ig_gen (gc_iter c)"

definition hits :: "nat set \<Rightarrow> aem_gc_context \<Rightarrow> nat set" where
  "hits U c = {x \<in> U. gc_hit c x}"

text \<open>The numbers handed out so far are those of the visited objects.\<close>
definition counted :: "nat set \<Rightarrow> aem_gc_context \<Rightarrow> bool" where
  "counted U c \<longleftrightarrow> ig_id (gc_iter c) = c_int (int (card (hits U c)))"

definition edges :: "gc_client \<Rightarrow> aem_gc_context \<Rightarrow> (nat \<times> nat) set" where
  "edges cl c = {(x, y). Some y \<in> set (gc_kids cl c x)}"

definition targets :: "nat ptr list \<Rightarrow> nat set" where
  "targets ps = {y. Some y \<in> set ps}"

lemma only_marks_refl [simp]: "only_marks c c"
  by (simp add: only_marks_def)

lemma only_marks_trans: "only_marks a b \<Longrightarrow> only_marks b c \<Longrightarrow> only_marks a c"
  by (simp add: only_marks_def)

lemma only_marks_edges: "only_marks c c' \<Longrightarrow> gc_kids cl c' = gc_kids cl c \<and> edges cl c' = edges cl c"
  by (simp add: only_marks_def gc_kids_def edges_def fun_eq_iff)

lemma targets_simps [simp]: "targets [] = {}" "targets (None # ps) = targets ps"
  "targets (Some x # ps) = insert x (targets ps)"
  by (auto simp: targets_def)

lemma targets_kids [simp]: "targets (gc_kids cl c x) = edges cl c `` {x}"
  by (auto simp: targets_def edges_def)

lemma hits_subset [simp]: "hits U c \<subseteq> U"
  by (auto simp: hits_def)

text \<open>The first visit of an object.\<close>

definition visited :: "aem_gc_context \<Rightarrow> nat \<Rightarrow> aem_gc_context" where
  "visited c x = c\<lparr>gc_object := (gc_object c)(x := (gc_object c x)\<lparr>go_iter := \<lparr>ig_gen = ig_gen (gc_iter c), ig_id = ig_id (gc_iter c)\<rparr>\<rparr>),
     gc_iter := (gc_iter c)\<lparr>ig_id := c_int (ig_id (gc_iter c) + 1)\<rparr>\<rparr>"

lemma c_int_small [simp]: "- (2 ^ 31) \<le> i \<Longrightarrow> i < 2 ^ 31 \<Longrightarrow> c_int i = i"
  unfolding c_int_def by (rule signed_take_bit_int_eq_self) auto

lemma visited_spec:
  assumes U: "finite U" "card U \<le> 2 ^ 31" and x: "x \<in> U" "\<not> gc_hit c x" and n: "counted U c"
  shows "0 \<le> ig_id (gc_iter c)" "only_marks c (visited c x)"
    "hits U (visited c x) = insert x (hits U c)" "counted U (visited c x)"
proof -
  have sub: "hits U c \<subset> U" using x by (auto simp: hits_def)
  then have less: "card (hits U c) < 2 ^ 31" using psubset_card_mono [OF U(1) sub] U(2) by simp
  then have idn: "ig_id (gc_iter c) = int (card (hits U c))" using n by (simp add: counted_def)
  show "0 \<le> ig_id (gc_iter c)" using idn by simp
  show "only_marks c (visited c x)" by (simp add: only_marks_def visited_def)
  show h: "hits U (visited c x) = insert x (hits U c)"
    using x by (auto simp: hits_def gc_hit_def visited_def aem_iter_gen_hit_def)
  have "x \<notin> hits U c" "finite (hits U c)" using x U(1) by (auto simp: hits_def)
  then show "counted U (visited c x)"
    unfolding counted_def h by (simp add: visited_def idn add.commute)
qed

lemma gc_marks_simps:
  "gc_marks cl [] c = Some c"
  "gc_marks cl (None # ps) c = gc_marks cl ps c"
  "gc_hit c x \<Longrightarrow> gc_marks cl (Some x # ps) c = gc_marks cl ps c"
  "\<not> gc_hit c x \<Longrightarrow> 0 \<le> ig_id (gc_iter c) \<Longrightarrow> gc_marks cl (Some x # ps) c =
     do { c1 \<leftarrow> gc_marks cl (gc_kids cl (visited c x) x) (visited c x); gc_marks cl ps c1 }"
  by (subst gc_marks.simps;
      simp add: aem_iter_gen_id_def gc_hit_def aem_iter_gen_hit_def visited_def Let_def)+

text \<open>Marking turns a set of visited objects into a larger one: it adds the targets, everything
  it adds is reachable from them, and what it adds has no unvisited successor.\<close>

definition marked_to :: "gc_client \<Rightarrow> nat set \<Rightarrow> aem_gc_context \<Rightarrow> nat set \<Rightarrow> aem_gc_context \<Rightarrow> bool" where
  "marked_to cl U c X c' \<longleftrightarrow> only_marks c c' \<and> counted U c' \<and>
     hits U c \<union> X \<subseteq> hits U c' \<and> hits U c' \<subseteq> hits U c \<union> (edges cl c)\<^sup>* `` X \<and>
     edges cl c `` (hits U c' - hits U c) \<subseteq> hits U c'"

lemma marked_to_refl: "counted U c \<Longrightarrow> X \<subseteq> hits U c \<Longrightarrow> marked_to cl U c X c"
  by (auto simp: marked_to_def)

lemma marked_to_trans:
  assumes "marked_to cl U c X c1" "marked_to cl U c1 Y c2"
  shows "marked_to cl U c (X \<union> Y) c2"
proof -
  have e: "edges cl c1 = edges cl c" using assms(1) only_marks_edges by (auto simp: marked_to_def)
  have "only_marks c c2" using assms only_marks_trans unfolding marked_to_def by blast
  moreover have "hits U c2 \<subseteq> hits U c \<union> (edges cl c)\<^sup>* `` (X \<union> Y)"
    using assms unfolding marked_to_def e by blast
  moreover have "edges cl c `` (hits U c2 - hits U c) \<subseteq> hits U c2"
    using assms unfolding marked_to_def e by blast
  moreover have "hits U c \<union> (X \<union> Y) \<subseteq> hits U c2" using assms unfolding marked_to_def by blast
  ultimately show ?thesis using assms(2) by (simp add: marked_to_def)
qed

text \<open>Visiting an object and then marking its successors.\<close>

lemma marked_to_visit:
  assumes U: "finite U" "card U \<le> 2 ^ 31" and x: "x \<in> U" "\<not> gc_hit c x" and n: "counted U c"
    and kids: "marked_to cl U (visited c x) (edges cl c `` {x}) c1"
  shows "marked_to cl U c {x} c1"
proof -
  note v = visited_spec [OF U x n]
  have e: "edges cl (visited c x) = edges cl c" using only_marks_edges [OF v(2)] by blast
  have step: "(edges cl c)\<^sup>* `` (edges cl c `` {x}) \<subseteq> (edges cl c)\<^sup>* `` {x}"
    by (auto intro: converse_rtrancl_into_rtrancl)
  note k = kids [unfolded marked_to_def e v(3)]
  have "only_marks c c1" using v(2) k only_marks_trans by blast
  moreover have "hits U c1 \<subseteq> hits U c \<union> (edges cl c)\<^sup>* `` {x}" using k step by blast
  moreover have "edges cl c `` (hits U c1 - hits U c) \<subseteq> hits U c1" using k by blast
  ultimately show ?thesis using k unfolding marked_to_def by blast
qed

lemma marks_total:
  assumes U: "finite U" "card U \<le> 2 ^ 31" and closed: "edges cl c `` U \<subseteq> U"
    and "targets ps \<subseteq> U" "counted U c"
  shows "\<exists>c'. gc_marks cl ps c = Some c' \<and> marked_to cl U c (targets ps) c'"
  using closed assms(4,5)
proof (induction "card (U - hits U c)" arbitrary: c ps rule: less_induct)
  case less
  note outer = less.hyps and closed = less.prems(1) and counted = less.prems(3)
  have same: "edges cl c1 `` U \<subseteq> U" if "only_marks c c1" for c1
    using only_marks_edges [OF that] closed by metis
  have fewer: "card (U - hits U c1) < card (U - hits U c)"
    if "insert x (hits U c) \<subseteq> hits U c1" "x \<in> U" "\<not> gc_hit c x" for x c1
  proof (rule psubset_card_mono)
    show "U - hits U c1 \<subset> U - hits U c" using that by (auto simp: hits_def)
  qed (use U(1) in simp)
  show ?case
    using less.prems(2)
  proof (induction ps)
    case Nil
    show ?case using marked_to_refl [OF counted, of "{}"] by (simp add: gc_marks_simps)
  next
    case (Cons p ps)
    consider "p = None" | x where "p = Some x" "gc_hit c x" | x where "p = Some x" "\<not> gc_hit c x"
      by (cases p) auto
    then show ?case
    proof cases
      case 1
      then show ?thesis using Cons by (simp add: gc_marks_simps)
    next
      case 2
      then have "x \<in> hits U c" using Cons.prems by (simp add: hits_def)
      moreover obtain c' where c': "gc_marks cl ps c = Some c'" "marked_to cl U c (targets ps) c'"
        using Cons.IH Cons.prems 2 by auto
      ultimately have "marked_to cl U c (targets (p # ps)) c'"
        using marked_to_trans [OF marked_to_refl [OF counted, of "{x}"] c'(2)] 2 by simp
      then show ?thesis using c'(1) 2 by (simp add: gc_marks_simps)
    next
      case 3
      have x: "x \<in> U" using Cons.prems 3 by simp
      note v = visited_spec [OF U x 3(2) counted]
      have e: "edges cl (visited c x) = edges cl c" using only_marks_edges [OF v(2)] by blast
      have "edges cl c `` {x} \<subseteq> U" using closed x by blast
      then obtain c1 where c1: "gc_marks cl (gc_kids cl (visited c x) x) (visited c x) = Some c1"
          "marked_to cl U (visited c x) (edges cl c `` {x}) c1"
        using outer [of "visited c x" "gc_kids cl (visited c x) x"] same [OF v(2)] v(4)
          fewer [of x "visited c x"] v(3) x 3(2) by (auto simp: e)
      have m1: "marked_to cl U c {x} c1" by (rule marked_to_visit [OF U x 3(2) counted c1(2)])
      have "targets ps \<subseteq> U" using Cons.prems 3(1) by simp
      then obtain c2 where c2: "gc_marks cl ps c1 = Some c2" "marked_to cl U c1 (targets ps) c2"
        using outer [of c1 ps] same [of c1] fewer [of x c1] m1 x 3(2)
        by (auto simp: marked_to_def)
      have "marked_to cl U c (targets (p # ps)) c2"
        using marked_to_trans [OF m1 c2(2)] 3(1) by simp
      then show ?thesis using c1(1) c2(1) 3 v(1) by (simp add: gc_marks_simps)
    qed
  qed
qed

section \<open>The run\<close>

text \<open>A well-formed context has the objects \<open>xs\<close> and the roots \<open>rs\<close>, every object carries the
  current generation, and there are few enough for an \<open>int\<close> to number.\<close>

definition gc_ok :: "aem_gc_context \<Rightarrow> nat list \<Rightarrow> nat list \<Rightarrow> bool" where
  "gc_ok c xs rs \<longleftrightarrow> ring (gc_ctx_next c) gc_chain xs \<and> ring2 (gc_roots c) gc_chain rs \<and>
     (\<forall>x \<in> set xs. gc_hit c x)"

text \<open>The client marks objects of the context only, and every root has its method.\<close>
definition client_ok :: "gc_client \<Rightarrow> aem_gc_context \<Rightarrow> nat list \<Rightarrow> nat list \<Rightarrow> bool" where
  "client_ok cl c xs rs \<longleftrightarrow> edges cl c `` set xs \<subseteq> set xs \<and>
     (\<forall>r \<in> set rs. \<exists>ps. cl_root_mark cl r = Some ps \<and> targets ps \<subseteq> set xs)"

definition root_targets :: "gc_client \<Rightarrow> nat list \<Rightarrow> nat set" where
  "root_targets cl rs = (\<Union>r \<in> set rs. case cl_root_mark cl r of None \<Rightarrow> {} | Some ps \<Rightarrow> targets ps)"

definition referenced :: "aem_gc_context \<Rightarrow> nat list \<Rightarrow> nat set" where
  "referenced c xs = {x \<in> set xs. go_refs (gc_object c x) \<noteq> 0}"

text \<open>The objects that must survive.\<close>
definition gc_live :: "gc_client \<Rightarrow> aem_gc_context \<Rightarrow> nat list \<Rightarrow> nat list \<Rightarrow> nat set" where
  "gc_live cl c xs rs = (edges cl c)\<^sup>* `` (referenced c xs \<union> root_targets cl rs)"

interpretation ctx_list: linked_state gc_ctx_next set_ctx_next
  by unfold_locales (simp add: set_ctx_next_def)

lemma c_int_Suc_neq: "c_int (i + 1) \<noteq> c_int i"
proof
  assume "c_int (i + 1) = c_int i"
  then have "(i + 1) mod 2 ^ 32 = i mod 2 ^ 32"
    by (simp add: c_int_def signed_take_bit_eq_iff_take_bit_eq take_bit_eq_mod)
  then show False by (metis add_diff_cancel_left' dvd_1_iff_1 even_numeral mod_eq_dvd_iff
      numeral_One one_dvd dvd_trans even_power zero_less_numeral odd_one)
qed

lemma new_generation: "c_int (g + 1) \<noteq> g"
proof
  assume g: "c_int (g + 1) = g"
  then have "c_int g = g" by (metis c_int_def signed_take_bit_signed_take_bit min.idem)
  then show False using c_int_Suc_neq [of g] g by simp
qed

lemma hits_closed:
  assumes "marked_to cl U c X c'" "hits U c = {}"
  shows "hits U c' = (edges cl c)\<^sup>* `` X"
proof
  show "hits U c' \<subseteq> (edges cl c)\<^sup>* `` X" using assms by (auto simp: marked_to_def)
  have X: "X \<subseteq> hits U c'" "edges cl c `` hits U c' \<subseteq> hits U c'" using assms by (auto simp: marked_to_def)
  have "y \<in> hits U c'" if path: "(x, y) \<in> (edges cl c)\<^sup>*" and "x \<in> X" for x y
    using path by (induction rule: rtrancl_induct) (use X \<open>x \<in> X\<close> in blast)+
  then show "(edges cl c)\<^sup>* `` X \<subseteq> hits U c'" by blast
qed

lemma mark_phase:
  assumes "ring (gc_ctx_next c) gc_chain xs" "ring2 (gc_roots c) gc_chain rs"
    and cl: "client_ok cl c xs rs" and len: "length xs \<le> 2 ^ 31"
    and fresh: "hits (set xs) c = {}" "counted (set xs) c"
  obtains c1 c2 where
    "AEM_LL_FOR_ALL gc_ctx_next
       (\<lambda>obj c. if go_refs (gc_object c obj) \<noteq> 0 then aem_gc_mark cl obj c else Some c) gc_chain c = Some c1"
    "AEM_LL_FOR_ALL (\<lambda>c. snd (gc_roots c))
       (\<lambda>root c. case cl_root_mark cl root of None \<Rightarrow> None | Some ps \<Rightarrow> gc_marks cl ps c) gc_chain c1 = Some c2"
    "only_marks c c2" "hits (set xs) c2 = gc_live cl c xs rs"
proof -
  let ?U = "set xs"
  have U: "finite ?U" "card ?U \<le> 2 ^ 31" using len card_length [of xs] by auto
  have closed: "edges cl d `` ?U \<subseteq> ?U" if "only_marks c d" for d
    using only_marks_edges [OF that, of cl] cl by (simp add: client_ok_def)
  have go: "\<exists>e. gc_marks cl ps d = Some e \<and> marked_to cl ?U c (X \<union> targets ps) e"
    if d: "marked_to cl ?U c X d" and ps: "targets ps \<subseteq> ?U" for d X ps
  proof -
    have "only_marks c d" "counted ?U d" using d by (auto simp: marked_to_def)
    from marks_total [OF U closed [OF this(1)] ps this(2)] show ?thesis
      using marked_to_trans [OF d] by blast
  qed
  let ?ref = "\<lambda>ys. {x \<in> set ys. go_refs (gc_object c x) \<noteq> 0}"
  have "\<exists>c1. AEM_LL_FOR_ALL gc_ctx_next
      (\<lambda>obj c. if go_refs (gc_object c obj) \<noteq> 0 then aem_gc_mark cl obj c else Some c) gc_chain c = Some c1 \<and>
      marked_to cl ?U c (?ref xs) c1 \<and> gc_ctx_next c1 = gc_ctx_next c"
  proof (rule for_all_ring [where Inv = "\<lambda>ys d. marked_to cl ?U c (?ref ys) d"])
    show "marked_to cl ?U c (?ref []) c" using marked_to_refl [OF fresh(2)] by simp
  next
    fix ys x d
    assume x: "x \<in> ?U" and d: "marked_to cl ?U c (?ref ys) d"
    have same: "go_refs (gc_object d x) = go_refs (gc_object c x)"
      using d by (simp add: marked_to_def only_marks_def)
    have more: "?ref (ys @ [x]) = ?ref ys \<union> (if go_refs (gc_object c x) \<noteq> 0 then {x} else {})"
      by auto
    show "\<exists>s1. (if go_refs (gc_object d x) \<noteq> 0 then aem_gc_mark cl x d else Some d) = Some s1 \<and>
        marked_to cl ?U c (?ref (ys @ [x])) s1 \<and> gc_ctx_next s1 = gc_ctx_next d"
    proof (cases "go_refs (gc_object c x) \<noteq> 0")
      case True
      obtain e where "gc_marks cl [Some x] d = Some e" "marked_to cl ?U c (?ref ys \<union> {x}) e"
        using go [OF d, of "[Some x]"] x by auto
      then show ?thesis using True d unfolding more
        by (auto simp: same aem_gc_mark_def marked_to_def only_marks_def)
    next
      case False
      then show ?thesis using d unfolding more by (simp add: same)
    qed
  qed (rule assms(1))
  then obtain c1 where c1: "AEM_LL_FOR_ALL gc_ctx_next
      (\<lambda>obj c. if go_refs (gc_object c obj) \<noteq> 0 then aem_gc_mark cl obj c else Some c) gc_chain c = Some c1"
      "marked_to cl ?U c (referenced c xs) c1" by (auto simp: referenced_def)
  have "\<exists>c2. AEM_LL_FOR_ALL (\<lambda>c. snd (gc_roots c))
      (\<lambda>root c. case cl_root_mark cl root of None \<Rightarrow> None | Some ps \<Rightarrow> gc_marks cl ps c) gc_chain c1 = Some c2 \<and>
      (set rs \<subseteq> set rs \<and> marked_to cl ?U c (referenced c xs \<union> root_targets cl rs) c2) \<and>
      snd (gc_roots c2) = snd (gc_roots c1)"
  proof (rule for_all_ring [where Inv = "\<lambda>qs d. set qs \<subseteq> set rs \<and>
        marked_to cl ?U c (referenced c xs \<union> root_targets cl qs) d"])
    show "ring (snd (gc_roots c1)) gc_chain rs"
      using assms(2) c1(2) by (cases "gc_roots c") (auto simp: ring2_def marked_to_def only_marks_def)
    show "set [] \<subseteq> set rs \<and> marked_to cl ?U c (referenced c xs \<union> root_targets cl []) c1"
      using c1(2) by (simp add: root_targets_def)
  next
    fix qs r d
    assume r: "r \<in> set rs" and d: "set qs \<subseteq> set rs \<and> marked_to cl ?U c (referenced c xs \<union> root_targets cl qs) d"
    obtain ps where ps: "cl_root_mark cl r = Some ps" "targets ps \<subseteq> ?U"
      using cl r by (auto simp: client_ok_def)
    obtain e where e: "gc_marks cl ps d = Some e"
        "marked_to cl ?U c (referenced c xs \<union> root_targets cl qs \<union> targets ps) e"
      using go [OF conjunct2 [OF d] ps(2)] by blast
    have "root_targets cl (qs @ [r]) = root_targets cl qs \<union> targets ps" by (auto simp: root_targets_def ps(1))
    then show "\<exists>s1. (case cl_root_mark cl r of None \<Rightarrow> None | Some ps \<Rightarrow> gc_marks cl ps d) = Some s1 \<and>
        (set (qs @ [r]) \<subseteq> set rs \<and> marked_to cl ?U c (referenced c xs \<union> root_targets cl (qs @ [r])) s1) \<and>
        snd (gc_roots s1) = snd (gc_roots d)"
      using e d r ps(1) by (auto simp: Un_assoc marked_to_def only_marks_def)
  qed
  then obtain c2 where c2: "AEM_LL_FOR_ALL (\<lambda>c. snd (gc_roots c))
      (\<lambda>root c. case cl_root_mark cl root of None \<Rightarrow> None | Some ps \<Rightarrow> gc_marks cl ps c) gc_chain c1 = Some c2"
      "marked_to cl ?U c (referenced c xs \<union> root_targets cl rs) c2" by blast
  show thesis
    by (rule that [OF c1(1) c2(1)])
      (use c2(2) hits_closed [OF c2(2) fresh(1)] in \<open>simp_all add: marked_to_def gc_live_def\<close>)
qed

text \<open>The objects that did not survive and have a method, in the order of the list.\<close>

definition dead_with :: "(aem_gc_vtbl \<Rightarrow> bool) \<Rightarrow> aem_gc_context \<Rightarrow> nat set \<Rightarrow> nat list \<Rightarrow> nat list" where
  "dead_with m c L xs = filter (\<lambda>x. x \<notin> L \<and> m (go_vtbl (gc_object c x))) xs"

lemma sweep_phase:
  assumes ring: "ring (gc_ctx_next c) gc_chain xs" and L: "\<And>x. x \<in> set xs \<Longrightarrow> gc_hit c x \<longleftrightarrow> x \<in> L"
  obtains c1 l where
    "AEM_LL_FOR_ALL gc_ctx_next
       (\<lambda>obj c. if \<not> gc_hit c obj
          then Some (log_event (vt_dtor (go_vtbl (gc_object c obj))) (Destructed obj) c) else Some c)
       gc_chain c = Some c1"
    "AEM_LL_FILTER_ALL gc_ctx_next set_ctx_next
       (\<lambda>obj c. if \<not> gc_hit c obj
          then Some (False, log_event (vt_free (go_vtbl (gc_object c obj))) (Freed obj) c)
          else Some (True, c)) gc_chain c1 =
       Some (c\<lparr>gc_log := gc_log c @ map Destructed (dead_with vt_dtor c L xs) @ map Freed (dead_with vt_free c L xs),
         gc_ctx_next := l\<rparr>)"
    "ring l gc_chain (filter (\<lambda>x. x \<in> L) xs)"
proof -
  have hit: "gc_hit (c\<lparr>gc_log := g, gc_ctx_next := l\<rparr>) x = gc_hit c x"
      "gc_hit (c\<lparr>gc_log := g\<rparr>) x = gc_hit c x" for g l x by (simp_all add: gc_hit_def)
  have "\<exists>c1. AEM_LL_FOR_ALL gc_ctx_next
      (\<lambda>obj c. if \<not> gc_hit c obj
          then Some (log_event (vt_dtor (go_vtbl (gc_object c obj))) (Destructed obj) c) else Some c)
      gc_chain c = Some c1 \<and> c1 = c\<lparr>gc_log := gc_log c @ map Destructed (dead_with vt_dtor c L xs)\<rparr> \<and>
      gc_ctx_next c1 = gc_ctx_next c"
    by (rule for_all_ring [where Inv = "\<lambda>ys d. d = c\<lparr>gc_log := gc_log c @
          map Destructed (dead_with vt_dtor c L ys)\<rparr>"])
      (use ring in \<open>auto simp: dead_with_def hit L log_event_def\<close>)
  then obtain c1 where c1: "AEM_LL_FOR_ALL gc_ctx_next
      (\<lambda>obj c. if \<not> gc_hit c obj
          then Some (log_event (vt_dtor (go_vtbl (gc_object c obj))) (Destructed obj) c) else Some c)
      gc_chain c = Some c1" "c1 = c\<lparr>gc_log := gc_log c @ map Destructed (dead_with vt_dtor c L xs)\<rparr>" by blast
  have "\<exists>c2. AEM_LL_FILTER_ALL gc_ctx_next set_ctx_next
      (\<lambda>obj c. if \<not> gc_hit c obj
         then Some (False, log_event (vt_free (go_vtbl (gc_object c obj))) (Freed obj) c)
         else Some (True, c)) gc_chain c1 = Some c2 \<and>
      (\<exists>l. c2 = c\<lparr>gc_log := gc_log c @ map Destructed (dead_with vt_dtor c L xs) @
         map Freed (dead_with vt_free c L xs), gc_ctx_next := l\<rparr>) \<and>
      ring (gc_ctx_next c2) gc_chain (filter (\<lambda>x. x \<in> L) xs)"
  proof (rule ctx_list.filter_all_ring [where Inv = "\<lambda>ys d. \<exists>l. d = c\<lparr>gc_log := gc_log c @
          map Destructed (dead_with vt_dtor c L xs) @ map Freed (dead_with vt_free c L ys), gc_ctx_next := l\<rparr>"])
    show "ring (gc_ctx_next c1) gc_chain xs" using ring c1(2) by simp
    show "\<exists>l. c1 = c\<lparr>gc_log := gc_log c @ map Destructed (dead_with vt_dtor c L xs) @
        map Freed (dead_with vt_free c L []), gc_ctx_next := l\<rparr>"
      by (intro exI [of _ "gc_ctx_next c"]) (simp add: c1(2) dead_with_def)
  next
    fix ys x d
    assume x: "x \<in> set xs" and "\<exists>l. d = c\<lparr>gc_log := gc_log c @ map Destructed (dead_with vt_dtor c L xs) @
        map Freed (dead_with vt_free c L ys), gc_ctx_next := l\<rparr>"
    then obtain l where d: "d = c\<lparr>gc_log := gc_log c @ map Destructed (dead_with vt_dtor c L xs) @
        map Freed (dead_with vt_free c L ys), gc_ctx_next := l\<rparr>" by blast
    show "\<exists>s1. (if \<not> gc_hit d x then Some (False, log_event (vt_free (go_vtbl (gc_object d x))) (Freed x) d)
          else Some (True, d)) = Some (x \<in> L, s1) \<and>
        (\<exists>l. s1 = c\<lparr>gc_log := gc_log c @ map Destructed (dead_with vt_dtor c L xs) @
          map Freed (dead_with vt_free c L (ys @ [x])), gc_ctx_next := l\<rparr>) \<and> gc_ctx_next s1 = gc_ctx_next d"
      using L [OF x] by (auto simp: d hit dead_with_def log_event_def intro!: exI [of _ l])
  next
    fix ys s l
    show "(\<exists>k. set_ctx_next s l = c\<lparr>gc_log := gc_log c @ map Destructed (dead_with vt_dtor c L xs) @
          map Freed (dead_with vt_free c L ys), gc_ctx_next := k\<rparr>) \<longleftrightarrow>
        (\<exists>k. s = c\<lparr>gc_log := gc_log c @ map Destructed (dead_with vt_dtor c L xs) @
          map Freed (dead_with vt_free c L ys), gc_ctx_next := k\<rparr>)"
      by (cases s; cases c) (auto simp: set_ctx_next_def)
  qed
  then show thesis using that [OF c1(1)] by auto
qed

lemma run_spec:
  assumes ok: "gc_ok c xs rs" and cl: "client_ok cl c xs rs" and len: "length xs \<le> 2 ^ 31"
  defines "L \<equiv> gc_live cl c xs rs"
  obtains c' where "aem_gc_run cl c = Some c'" "gc_ok c' (filter (\<lambda>x. x \<in> L) xs) rs"
    "gc_log c' = gc_log c @ map Destructed (dead_with vt_dtor c L xs) @ map Freed (dead_with vt_free c L xs)"
    "\<And>x. go_vtbl (gc_object c' x) = go_vtbl (gc_object c x)"
    "\<And>x. go_refs (gc_object c' x) = go_refs (gc_object c x)"
    "gc_roots c' = gc_roots c"
proof -
  let ?c0 = "c\<lparr>gc_iter := aem_iter_gen_reset_master (gc_iter c)\<rparr>"
  have r: "ring (gc_ctx_next ?c0) gc_chain xs" "ring2 (gc_roots ?c0) gc_chain rs"
    using ok by (simp_all add: gc_ok_def)
  have kids: "gc_kids cl ?c0 = gc_kids cl c" by (simp add: gc_kids_def fun_eq_iff)
  then have e: "edges cl ?c0 = edges cl c" by (simp add: edges_def)
  have cl0: "client_ok cl ?c0 xs rs" using cl by (simp add: client_ok_def e)
  have live: "gc_live cl ?c0 xs rs = L" by (simp add: L_def gc_live_def e referenced_def)
  have none: "hits (set xs) ?c0 = {}"
    using ok new_generation [of "ig_gen (gc_iter c)"]
    by (auto simp: hits_def gc_hit_def gc_ok_def aem_iter_gen_hit_def aem_iter_gen_reset_master_def)
  then have n: "counted (set xs) ?c0" by (simp add: counted_def aem_iter_gen_reset_master_def)
  obtain c1 c2 where m: "AEM_LL_FOR_ALL gc_ctx_next
       (\<lambda>obj c. if go_refs (gc_object c obj) \<noteq> 0 then aem_gc_mark cl obj c else Some c) gc_chain ?c0 = Some c1"
    "AEM_LL_FOR_ALL (\<lambda>c. snd (gc_roots c))
       (\<lambda>root c. case cl_root_mark cl root of None \<Rightarrow> None | Some ps \<Rightarrow> gc_marks cl ps c) gc_chain c1 = Some c2"
    "only_marks ?c0 c2" "hits (set xs) c2 = L"
    using mark_phase [OF r cl0 len none n] unfolding live by blast
  have r2: "ring (gc_ctx_next c2) gc_chain xs" "gc_roots c2 = gc_roots c" "gc_log c2 = gc_log c"
    "\<And>x. go_vtbl (gc_object c2 x) = go_vtbl (gc_object c x)"
    "\<And>x. go_refs (gc_object c2 x) = go_refs (gc_object c x)"
    using m(3) r by (simp_all add: only_marks_def)
  have hit: "gc_hit c2 x \<longleftrightarrow> x \<in> L" if "x \<in> set xs" for x
    using m(4) that by (auto simp: hits_def)
  have dead: "dead_with f c2 L xs = dead_with f c L xs" for f by (simp add: dead_with_def r2(4))
  obtain c3 l where s: "AEM_LL_FOR_ALL gc_ctx_next
       (\<lambda>obj c. if \<not> gc_hit c obj
          then Some (log_event (vt_dtor (go_vtbl (gc_object c obj))) (Destructed obj) c) else Some c)
       gc_chain c2 = Some c3"
    "AEM_LL_FILTER_ALL gc_ctx_next set_ctx_next
       (\<lambda>obj c. if \<not> gc_hit c obj
          then Some (False, log_event (vt_free (go_vtbl (gc_object c obj))) (Freed obj) c)
          else Some (True, c)) gc_chain c3 =
       Some (c2\<lparr>gc_log := gc_log c2 @ map Destructed (dead_with vt_dtor c2 L xs) @ map Freed (dead_with vt_free c2 L xs),
         gc_ctx_next := l\<rparr>)" "ring l gc_chain (filter (\<lambda>x. x \<in> L) xs)"
    using sweep_phase [OF r2(1) hit] by blast
  let ?c' = "c2\<lparr>gc_log := gc_log c2 @ map Destructed (dead_with vt_dtor c2 L xs) @
      map Freed (dead_with vt_free c2 L xs), gc_ctx_next := l\<rparr>"
  have "aem_gc_run cl c = Some ?c'" by (simp only: aem_gc_run_def Let_def m(1,2) s(1,2) bind.bind_lunit)
  moreover have "gc_ok ?c' (filter (\<lambda>x. x \<in> L) xs) rs"
    using s(3) r(2) hit by (auto simp: gc_ok_def r2(2) gc_hit_def)
  ultimately show thesis by (rule that) (simp_all add: r2 dead)
qed

section \<open>Reachable contexts\<close>

text \<open>A context with its objects and roots, as the operations make it. Only unregistered
  objects and roots may be registered, and only registered roots deregistered.\<close>

inductive gc_reached :: "aem_gc_context \<Rightarrow> nat list \<Rightarrow> nat list \<Rightarrow> bool" where
  init: "gc_reached (aem_gc_init c) [] []"
| register: "gc_reached c xs rs \<Longrightarrow> x \<notin> insert gc_chain (set xs) \<Longrightarrow>
    gc_reached (aem_gc_register x v c) (x # xs) rs"
| ref: "gc_reached c xs rs \<Longrightarrow> gc_reached (aem_gc_ref x c) xs rs"
| unref: "gc_reached c xs rs \<Longrightarrow> aem_gc_unref x c = Some c' \<Longrightarrow> gc_reached c' xs rs"
| root_register: "gc_reached c xs rs \<Longrightarrow> r \<notin> insert gc_chain (set rs) \<Longrightarrow>
    aem_gc_root_register cl r c = Some c' \<Longrightarrow> gc_reached c' xs (rs @ [r])"
| root_deregister: "gc_reached c xs (rs @ r # qs) \<Longrightarrow>
    gc_reached (aem_gc_root_deregister r c) xs (rs @ qs)"
| run: "gc_reached c xs rs \<Longrightarrow> client_ok cl c xs rs \<Longrightarrow> length xs \<le> 2 ^ 31 \<Longrightarrow>
    aem_gc_run cl c = Some c' \<Longrightarrow> gc_reached c' (filter (\<lambda>x. x \<in> gc_live cl c xs rs) xs) rs"

lemma set_refs_simps [simp]:
  "gc_ctx_next (set_refs c x n) = gc_ctx_next c" "gc_roots (set_refs c x n) = gc_roots c"
  "gc_hit (set_refs c x n) = gc_hit c" "gc_ok (set_refs c x n) = gc_ok c"
proof -
  show h: "gc_hit (set_refs c x n) = gc_hit c" by (auto simp: set_refs_def gc_hit_def fun_eq_iff)
  show l: "gc_ctx_next (set_refs c x n) = gc_ctx_next c" "gc_roots (set_refs c x n) = gc_roots c"
    by (simp_all add: set_refs_def)
  show "gc_ok (set_refs c x n) = gc_ok c" by (intro ext) (simp add: gc_ok_def h l)
qed

lemma deregister_root_ok:
  assumes "gc_ok c xs (rs @ r # qs)"
  shows "gc_ok (aem_gc_root_deregister r c) xs (rs @ qs)"
proof -
  obtain p n where pn: "gc_roots c = (p, n)" by fastforce
  obtain p' n' where "AEM_LL2_REMOVE_EXPLICIT r (p, n) = (p', n')" by fastforce
  then show ?thesis using assms ring2_remove(1) [of p n gc_chain rs r qs p' n'] pn
    by (simp add: gc_ok_def aem_gc_root_deregister_def gc_hit_def)
qed

lemma reached_gc_ok: "gc_reached c xs rs \<Longrightarrow> gc_ok c xs rs"
proof (induction rule: gc_reached.induct)
  case (init c)
  show ?case by (cases "gc_roots c") (simp add: gc_ok_def aem_gc_init_def ring_init)
next
  case (register c xs rs x v)
  then show ?case
    using ring_insert_after [of "gc_ctx_next c" gc_chain xs x]
    by (auto simp: gc_ok_def aem_gc_register_def aem_iter_gen_init_def gc_hit_def aem_iter_gen_hit_def)
next
  case (ref c xs rs x)
  then show ?case by (simp add: aem_gc_ref_def)
next
  case (unref c xs rs x c')
  then show ?case by (auto simp: aem_gc_unref_def split: if_splits)
next
  case (root_register c xs rs r cl c')
  obtain p n where "gc_roots c = (p, n)" by fastforce
  then show ?case
    using root_register ring2_insert_before [of p n gc_chain rs r]
    by (auto simp: gc_ok_def aem_gc_root_register_def gc_hit_def split: if_splits)
next
  case (root_deregister c xs rs r qs)
  then show ?case by (simp add: deregister_root_ok)
next
  case (run c xs rs cl c')
  obtain c2 where "aem_gc_run cl c = Some c2" "gc_ok c2 (filter (\<lambda>x. x \<in> gc_live cl c xs rs) xs) rs"
    using run_spec [OF run(5,2,3)] by metis
  then show ?case using run(4) by simp
qed

lemma dtor_spec:
  assumes ok: "gc_ok c xs rs" and cl: "client_ok cl c xs rs" and len: "length xs \<le> 2 ^ 31"
  defines "L \<equiv> gc_live cl c xs []"
  obtains c' where "aem_gc_dtor cl c = Some c'" "gc_ok c' (filter (\<lambda>x. x \<in> L) xs) []"
    "gc_log c' = gc_log c @ map Destructed (dead_with vt_dtor c L xs) @ map Freed (dead_with vt_free c L xs)"
proof -
  let ?Inv = "\<lambda>d :: aem_gc_context. gc_object d = gc_object c \<and> gc_log d = gc_log c \<and> gc_iter d = gc_iter c \<and>
    gc_ctx_next d = gc_ctx_next c \<and> (\<exists>qs. ring2 (gc_roots d) gc_chain qs)"
  have "\<exists>c1. AEM_LL_WHILE_FIRST (\<lambda>c. snd (gc_roots c))
      (\<lambda>root c. Some (aem_gc_root_deregister root c)) gc_chain c = Some c1 \<and> ?Inv c1 \<and>
      ring (snd (gc_roots c1)) gc_chain []"
  proof (rule while_first_ring [where Inv = "\<lambda>_. ?Inv" and xs = rs])
    show "ring (snd (gc_roots c)) gc_chain rs" using ok by (cases "gc_roots c") (simp add: gc_ok_def ring2_def)
    show "?Inv c" using ok by (auto simp: gc_ok_def)
  next
    fix r qs d
    assume r: "ring (snd (gc_roots d)) gc_chain (r # qs)" and d: "?Inv d"
    obtain p n where pn: "gc_roots d = (p, n)" by fastforce
    obtain zs where "ring2 (p, n) gc_chain zs" using d pn by auto
    then have "ring2 (p, n) gc_chain (r # qs)"
      using r pn ring_unique [of n gc_chain zs "r # qs"] by (simp add: ring2_def)
    moreover obtain p' n' where "AEM_LL2_REMOVE_EXPLICIT r (p, n) = (p', n')" by fastforce
    ultimately have "ring2 (gc_roots (aem_gc_root_deregister r d)) gc_chain qs"
      using ring2_remove(1) [of p n gc_chain "[]" r qs p' n'] by (simp add: aem_gc_root_deregister_def pn)
    then show "\<exists>s1. Some (aem_gc_root_deregister r d) = Some s1 \<and> ?Inv s1 \<and>
        ring (snd (gc_roots s1)) gc_chain qs"
      using d by (cases "gc_roots (aem_gc_root_deregister r d)")
        (auto simp: aem_gc_root_deregister_def ring2_def)
  qed
  then obtain c1 where c1: "AEM_LL_WHILE_FIRST (\<lambda>c. snd (gc_roots c))
      (\<lambda>root c. Some (aem_gc_root_deregister root c)) gc_chain c = Some c1" "?Inv c1"
      "ring (snd (gc_roots c1)) gc_chain []" by blast
  obtain qs where qs: "ring2 (gc_roots c1) gc_chain qs" using c1(2) by blast
  then have "qs = []" using ring_unique [of "snd (gc_roots c1)" gc_chain qs "[]"] c1(3)
    by (cases "gc_roots c1") (simp add: ring2_def)
  then have empty: "ring2 (gc_roots c1) gc_chain []" using qs by simp
  have ok1: "gc_ok c1 xs []" using ok c1(2) empty by (simp add: gc_ok_def gc_hit_def)
  have kids: "gc_kids cl c1 = gc_kids cl c" using c1(2) by (simp add: gc_kids_def fun_eq_iff)
  then have e: "edges cl c1 = edges cl c" by (simp add: edges_def)
  have live: "gc_live cl c1 xs [] = L" using c1(2) by (simp add: L_def gc_live_def e referenced_def)
  have cl1: "client_ok cl c1 xs []" using cl by (simp add: client_ok_def e)
  have dead: "dead_with f c1 L xs = dead_with f c L xs" for f using c1(2) by (simp add: dead_with_def)
  obtain c' where c': "aem_gc_run cl c1 = Some c'" "gc_ok c' (filter (\<lambda>x. x \<in> L) xs) []"
      "gc_log c' = gc_log c1 @ map Destructed (dead_with vt_dtor c1 L xs) @ map Freed (dead_with vt_free c1 L xs)"
    using run_spec [OF ok1 cl1 len] unfolding live by metis
  show thesis
    by (rule that [of c']) (use c1(1,2) c' in \<open>simp_all add: aem_gc_dtor_def dead\<close>)
qed

section \<open>Properties\<close>

text \<open>C23: A collection of a reachable context returns. It keeps exactly the objects that
  can be reached through \<open>mark\<close> methods from an object with references or from a root, in their
  order in the list; it calls the \<open>dtor\<close> of every other object once and only then the \<open>free\<close>
  of every other object once, in the order of the list; and it changes no reference count, no
  class and no root. A generation counter that wraps around does no harm.\<close>

theorem gc_collects_garbage:
  assumes "gc_reached c xs rs" "client_ok cl c xs rs" "length xs \<le> 2 ^ 31"
  shows "\<exists>c'. aem_gc_run cl c = Some c' \<and>
    ring (gc_ctx_next c') gc_chain (filter (\<lambda>x. x \<in> gc_live cl c xs rs) xs) \<and>
    gc_log c' = gc_log c @ map Destructed (dead_with vt_dtor c (gc_live cl c xs rs) xs) @
      map Freed (dead_with vt_free c (gc_live cl c xs rs) xs) \<and>
    (\<forall>x. go_vtbl (gc_object c' x) = go_vtbl (gc_object c x) \<and>
       go_refs (gc_object c' x) = go_refs (gc_object c x)) \<and> gc_roots c' = gc_roots c"
proof -
  obtain c' where "aem_gc_run cl c = Some c'" "gc_ok c' (filter (\<lambda>x. x \<in> gc_live cl c xs rs) xs) rs"
    "gc_log c' = gc_log c @ map Destructed (dead_with vt_dtor c (gc_live cl c xs rs) xs) @
      map Freed (dead_with vt_free c (gc_live cl c xs rs) xs)"
    "\<And>x. go_vtbl (gc_object c' x) = go_vtbl (gc_object c x)"
    "\<And>x. go_refs (gc_object c' x) = go_refs (gc_object c x)" "gc_roots c' = gc_roots c"
    using run_spec [OF reached_gc_ok [OF assms(1)] assms(2,3)] by metis
  then show ?thesis by (auto simp: gc_ok_def)
qed

text \<open>Three objects: 3 has a reference, its method marks 5, and nothing leads to 2.\<close>

definition full_vtbl :: aem_gc_vtbl where
  "full_vtbl = \<lparr>vt_free = True, vt_dtor = True, vt_mark = True\<rparr>"

definition three_objects :: aem_gc_context where
  "three_objects = the (aem_gc_unref 5 (the (aem_gc_unref 2
     (aem_gc_register 3 full_vtbl (aem_gc_register 2 full_vtbl (aem_gc_register 5 full_vtbl
       (aem_gc_init \<lparr>gc_object = \<lambda>_. \<lparr>go_vtbl = full_vtbl, go_iter = \<lparr>ig_gen = 0, ig_id = 0\<rparr>, go_refs = 0\<rparr>,
          gc_ctx_next = id, gc_iter = \<lparr>ig_gen = 0, ig_id = 0\<rparr>, gc_roots = (id, id), gc_log = []\<rparr>)))))))"

definition example_client :: gc_client where
  "example_client = \<lparr>cl_mark = (\<lambda>_. [])(3 := [Some 5, None]), cl_root_mark = \<lambda>_. None\<rparr>"

lemma three_objects:
  "gc_reached three_objects [3, 2, 5] []" "client_ok example_client three_objects [3, 2, 5] []"
  "dead_with f three_objects L [3, 2, 5] = filter (\<lambda>x. x \<notin> L \<and> f full_vtbl) [3, 2, 5]"
  "gc_live example_client three_objects [3, 2, 5] [] = {3, 5}" "gc_log three_objects = []"
proof -
  note defs = three_objects_def aem_gc_unref_def aem_gc_register_def aem_iter_gen_init_def set_refs_def
  let ?c = "aem_gc_init \<lparr>gc_object = \<lambda>_. \<lparr>go_vtbl = full_vtbl, go_iter = \<lparr>ig_gen = 0, ig_id = 0\<rparr>, go_refs = 0\<rparr>,
          gc_ctx_next = id, gc_iter = \<lparr>ig_gen = 0, ig_id = 0\<rparr>, gc_roots = (id, id), gc_log = []\<rparr>"
  have r: "gc_reached (aem_gc_register 3 full_vtbl (aem_gc_register 2 full_vtbl (aem_gc_register 5 full_vtbl ?c)))
      [3, 2, 5] []"
    by (intro gc_reached.register gc_reached.init) (simp_all add: gc_chain_def)
  let ?d = "aem_gc_register 3 full_vtbl (aem_gc_register 2 full_vtbl (aem_gc_register 5 full_vtbl ?c))"
  have u2: "aem_gc_unref 2 ?d = Some (set_refs ?d 2 0)"
    by (simp add: aem_gc_unref_def aem_gc_register_def aem_iter_gen_init_def)
  have u1: "aem_gc_unref 5 (set_refs ?d 2 0) = Some (set_refs (set_refs ?d 2 0) 5 0)"
    by (simp add: aem_gc_unref_def aem_gc_register_def aem_iter_gen_init_def set_refs_def)
  have "three_objects = set_refs (set_refs ?d 2 0) 5 0" by (simp add: three_objects_def u2 u1)
  then show "gc_reached three_objects [3, 2, 5] []"
    using gc_reached.unref [OF gc_reached.unref [OF r u2] u1] by simp
  have k: "gc_kids example_client three_objects = (\<lambda>x. if x = 3 then [Some 5, None] else [])"
    by (auto simp: defs gc_kids_def example_client_def full_vtbl_def fun_eq_iff aem_gc_init_def)
  then have e: "edges example_client three_objects = {(3, 5)}" by (auto simp: edges_def split: if_splits)
  show "client_ok example_client three_objects [3, 2, 5] []" by (auto simp: client_ok_def e)
  have "referenced three_objects [3, 2, 5] = {3}" by (auto simp: referenced_def defs)
  moreover have "{(3 :: nat, 5 :: nat)}\<^sup>* `` {3} = {3, 5}"
    by (auto elim: rtranclE converse_rtranclE)
  ultimately show "gc_live example_client three_objects [3, 2, 5] [] = {3, 5}"
    by (simp add: gc_live_def e root_targets_def)
  show "gc_log three_objects = []" by (simp add: defs aem_gc_init_def)
  have "go_vtbl (gc_object three_objects x) = full_vtbl" for x
    by (simp add: defs aem_gc_init_def)
  then show "dead_with f three_objects L [3, 2, 5] = filter (\<lambda>x. x \<notin> L \<and> f full_vtbl) [3, 2, 5]"
    by (simp add: dead_with_def)
qed

theorem gc_collects_garbage_witness:
  "\<exists>c'. aem_gc_run example_client three_objects = Some c' \<and> ring (gc_ctx_next c') gc_chain [3, 5] \<and>
     gc_log c' = [Destructed 2, Freed 2]"
  using gc_collects_garbage [OF three_objects(1,2), unfolded three_objects(3-5)]
  by (auto simp: full_vtbl_def)

text \<open>C24: Whatever sequence of operations made it, a context's object list is a circular
  singly linked list without repetitions, its root list passes the library's own check of a doubly
  linked list, and every listed object carries the context's current generation, so that the
  next run starts with no object marked.\<close>

theorem gc_consistent:
  assumes "gc_reached c xs rs"
  shows "ring (gc_ctx_next c) gc_chain xs \<and> ring2 (gc_roots c) gc_chain rs \<and>
    AEM_LL2_VERIFY gc_chain (gc_roots c) = Some () \<and> (\<forall>x \<in> set xs. gc_hit c x) \<and>
    (\<forall>x \<in> set xs. \<not> gc_hit (c\<lparr>gc_iter := aem_iter_gen_reset_master (gc_iter c)\<rparr>) x)"
proof -
  have ok: "gc_ok c xs rs" by (rule reached_gc_ok [OF assms])
  have "AEM_LL2_VERIFY gc_chain (gc_roots c) = Some ()"
    using ok by (cases "gc_roots c") (auto simp: gc_ok_def intro: verify_ring2)
  moreover have "\<not> gc_hit (c\<lparr>gc_iter := aem_iter_gen_reset_master (gc_iter c)\<rparr>) x" if "x \<in> set xs" for x
    using ok that new_generation [of "ig_gen (gc_iter c)"]
    by (auto simp: gc_ok_def gc_hit_def aem_iter_gen_hit_def aem_iter_gen_reset_master_def)
  ultimately show ?thesis using ok by (simp add: gc_ok_def)
qed

theorem gc_consistent_witness:
  "ring (gc_ctx_next three_objects) gc_chain [3, 2, 5]"
  using gc_consistent [OF three_objects(1)] by blast

text \<open>C25: Destroying a context returns and, when no object has a reference, frees them
  all, roots or not: the object list is empty, and every object with a \<open>free\<close> method has been freed
  exactly once, after every destructor has run.\<close>

theorem gc_dtor_frees_all:
  assumes "gc_reached c xs rs" "client_ok cl c xs rs" "length xs \<le> 2 ^ 31"
    and "\<forall>x \<in> set xs. go_refs (gc_object c x) = 0"
  shows "\<exists>c'. aem_gc_dtor cl c = Some c' \<and> AEM_LL_EMPTY gc_chain (gc_ctx_next c') \<and>
    AEM_LL_EMPTY gc_chain (snd (gc_roots c')) \<and>
    gc_log c' = gc_log c @ map Destructed (filter (\<lambda>x. vt_dtor (go_vtbl (gc_object c x))) xs) @
      map Freed (filter (\<lambda>x. vt_free (go_vtbl (gc_object c x))) xs)"
proof -
  have none: "gc_live cl c xs [] = {}"
    using assms(4) by (auto simp: gc_live_def referenced_def root_targets_def)
  obtain c' where c': "aem_gc_dtor cl c = Some c'" "gc_ok c' [] []"
    "gc_log c' = gc_log c @ map Destructed (dead_with vt_dtor c {} xs) @ map Freed (dead_with vt_free c {} xs)"
    using dtor_spec [OF reached_gc_ok [OF assms(1)] assms(2,3)] unfolding none by auto
  then show ?thesis
    using ring_empty_iff [of "gc_ctx_next c'" gc_chain "[]"] ring_empty_iff [of "snd (gc_roots c')" gc_chain "[]"]
    by (cases "gc_roots c'") (auto simp: gc_ok_def dead_with_def ring2_def)
qed

definition two_objects :: aem_gc_context where
  "two_objects = the (aem_gc_unref 3 three_objects)"

theorem gc_dtor_frees_all_witness:
  "\<exists>c'. aem_gc_dtor example_client two_objects = Some c' \<and>
     gc_log c' = [Destructed 3, Destructed 2, Destructed 5, Freed 3, Freed 2, Freed 5]"
proof -
  note defs = three_objects_def aem_gc_unref_def aem_gc_register_def aem_iter_gen_init_def set_refs_def aem_gc_init_def
  have u: "aem_gc_unref 3 three_objects = Some two_objects" by (simp add: two_objects_def defs)
  have v: "go_vtbl (gc_object two_objects x) = full_vtbl" for x by (simp add: two_objects_def defs)
  have "gc_kids example_client two_objects = (\<lambda>x. if x = 3 then [Some 5, None] else [])"
    by (simp add: gc_kids_def v example_client_def full_vtbl_def fun_eq_iff)
  then have "client_ok example_client two_objects [3, 2, 5] []"
    by (auto simp: client_ok_def edges_def split: if_splits)
  moreover have "gc_log two_objects = []" "\<forall>x \<in> set [3, 2, 5]. go_refs (gc_object two_objects x) = 0"
    by (auto simp: two_objects_def defs)
  ultimately show ?thesis
    using gc_dtor_frees_all [OF gc_reached.unref [OF three_objects(1) u], of example_client]
    by (auto simp: v full_vtbl_def)
qed

end
