(* ===== verification/Aem_Stream.thy ===== *)
theory Aem_Stream
  imports Aem_Stringbuf
begin

text \<open>
  \<open>stream.h\<close>, \<open>stream.c\<close> and \<open>streams.c\<close>: byte streams between a source and a sink, with
  back-pressure, and the transducer that is the sink of one stream and the source of the next.
  Sources, sinks and streams live in a store, since they point at each other. The client's
  \<open>provide\<close>, \<open>consume\<close>, \<open>go\<close> and \<open>on_close\<close> are parameters, functions on the store and on the
  client's own memory \<open>nt_app\<close>. \<open>None\<close> is a failed \<open>aem_assert\<close>, a null pointer that is
  followed, or a loop that does not end.
\<close>

definition AEM_STREAM_FIN :: u32 where "AEM_STREAM_FIN = 0x01"
definition AEM_STREAM_FULL :: u32 where "AEM_STREAM_FULL = 0x02"

text \<open>The method of a source or a sink is set, or \<open>NULL\<close>.\<close>
record aem_stream_source =
  src_stream :: "nat ptr"
  src_provide :: bool

record aem_stream_sink =
  snk_stream :: "nat ptr"
  snk_consume :: bool

record aem_stream =
  str_buf :: stringbuf
  str_source :: "nat ptr"
  str_sink :: "nat ptr"
  str_state :: int
  str_flags :: u32

record 'app net =
  nt_source :: "nat \<Rightarrow> aem_stream_source"
  nt_sink :: "nat \<Rightarrow> aem_stream_sink"
  nt_stream :: "nat \<Rightarrow> aem_stream"
  nt_rcu :: "nat list"  \<comment> \<open>the streams handed to \<open>call_rcu\<close>\<close>
  nt_on_close :: "nat \<Rightarrow> bool"  \<comment> \<open>which transducers still have their \<open>on_close\<close>\<close>
  nt_app :: 'app

record 'app callbacks =
  cb_provide :: "nat \<Rightarrow> 'app net \<Rightarrow> 'app net option"
  cb_consume :: "nat \<Rightarrow> 'app net \<Rightarrow> 'app net option"

definition upd_source :: "nat \<Rightarrow> (aem_stream_source \<Rightarrow> aem_stream_source) \<Rightarrow> 'app net \<Rightarrow> 'app net" where
  "upd_source a f n = n\<lparr>nt_source := (nt_source n)(a := f (nt_source n a))\<rparr>"

definition upd_sink :: "nat \<Rightarrow> (aem_stream_sink \<Rightarrow> aem_stream_sink) \<Rightarrow> 'app net \<Rightarrow> 'app net" where
  "upd_sink a f n = n\<lparr>nt_sink := (nt_sink n)(a := f (nt_sink n a))\<rparr>"

definition upd_stream :: "nat \<Rightarrow> (aem_stream \<Rightarrow> aem_stream) \<Rightarrow> 'app net \<Rightarrow> 'app net" where
  "upd_stream s f n = n\<lparr>nt_stream := (nt_stream n)(s := f (nt_stream n s))\<rparr>"

section \<open>Data flow\<close>

definition aem_stream_provide :: "'app callbacks \<Rightarrow> nat \<Rightarrow> 'app net \<Rightarrow> (int \<times> 'app net) option" where
  "aem_stream_provide cb s n =
     (case str_source (nt_stream n s) of
        None \<Rightarrow> Some (-1, n)
      | Some src \<Rightarrow>
          if src_stream (nt_source n src) \<noteq> Some s then None
          else if \<not> src_provide (nt_source n src) then None
          else do { n1 \<leftarrow> cb_provide cb src n; Some (0, n1) })"

definition aem_stream_consume :: "'app callbacks \<Rightarrow> nat \<Rightarrow> 'app net \<Rightarrow> (int \<times> 'app net) option" where
  "aem_stream_consume cb s n =
     (case str_sink (nt_stream n s) of
        None \<Rightarrow> Some (-1, n)
      | Some snk \<Rightarrow>
          if snk_stream (nt_sink n snk) \<noteq> Some s then None
          else if \<not> snk_consume (nt_sink n snk) then None
          else do { n1 \<leftarrow> cb_consume cb snk n; Some (0, n1) })"

definition aem_stream_flow :: "'app callbacks \<Rightarrow> nat \<Rightarrow> 'app net \<Rightarrow> (int \<times> 'app net) option" where
  "aem_stream_flow cb s n = aem_stream_provide cb s n"

definition aem_stream_avail :: "'app net \<Rightarrow> nat ptr \<Rightarrow> nat" where
  "aem_stream_avail n p = (case p of None \<Rightarrow> 0 | Some s \<Rightarrow> sb_n (str_buf (nt_stream n s)))"

definition aem_stream_sink_set_full :: "nat ptr \<Rightarrow> bool \<Rightarrow> 'app net \<Rightarrow> 'app net" where
  "aem_stream_sink_set_full p full n =
     (case p of
        None \<Rightarrow> n
      | Some snk \<Rightarrow>
          (case snk_stream (nt_sink n snk) of
             None \<Rightarrow> n
           | Some s \<Rightarrow> upd_stream s (\<lambda>st. st\<lparr>str_flags :=
               (if full then str_flags st OR AEM_STREAM_FULL
                else str_flags st AND NOT AEM_STREAM_FULL)\<rparr>) n))"

definition aem_stream_should_provide :: "nat ptr \<Rightarrow> 'app net \<Rightarrow> (bool \<times> 'app net) option" where
  "aem_stream_should_provide p n =
     (case p of
        None \<Rightarrow> Some (False, n)
      | Some src \<Rightarrow>
          (case src_stream (nt_source n src) of
             None \<Rightarrow> Some (False, n)
           | Some s \<Rightarrow>
               let st = nt_stream n s in
               if str_source st \<noteq> Some src then None
               else if str_state st \<noteq> 0 then Some (False, n)
               else if sb_n (str_buf st) = 0 then
                 Some (True,
                   if str_flags st AND AEM_STREAM_FULL \<noteq> 0
                   then upd_stream s (\<lambda>st. st\<lparr>str_flags := str_flags st AND NOT AEM_STREAM_FULL\<rparr>) n
                   else n)
               else if str_flags st AND AEM_STREAM_FULL \<noteq> 0 then Some (False, n)
               else Some (True, n)))"

definition aem_stream_propagate_up ::
  "'app callbacks \<Rightarrow> nat ptr \<Rightarrow> nat \<Rightarrow> 'app net \<Rightarrow> (bool \<times> 'app net) option" where
  "aem_stream_propagate_up cb down up n =
     do { (ok, n1) \<leftarrow> aem_stream_should_provide down n;
          let n2 = aem_stream_sink_set_full (Some up) (\<not> ok) n1;
          s \<leftarrow> snk_stream (nt_sink n2 up);
          (rc, n3) \<leftarrow> aem_stream_provide cb s n2;
          Some (ok, n3) }"

definition aem_stream_propagate_down ::
  "'app callbacks \<Rightarrow> nat \<Rightarrow> nat ptr \<Rightarrow> 'app net \<Rightarrow> (bool \<times> 'app net) option" where
  "aem_stream_propagate_down cb down up n =
     do { (ok, n1) \<leftarrow> aem_stream_should_provide (Some down) n;
          let n2 = aem_stream_sink_set_full up (\<not> ok) n1;
          if \<not> ok then do {
            s \<leftarrow> src_stream (nt_source n2 down);
            (rc, n3) \<leftarrow> aem_stream_consume cb s n2;
            Some (ok, n3) }
          else Some (ok, n2) }"

text \<open>The stream whose buffer the caller may now write to.\<close>
definition aem_stream_provide_begin :: "nat \<Rightarrow> bool \<Rightarrow> 'app net \<Rightarrow> (nat ptr \<times> 'app net) option" where
  "aem_stream_provide_begin src force n =
     (case src_stream (nt_source n src) of
        None \<Rightarrow> Some (None, n)
      | Some s \<Rightarrow>
          if str_source (nt_stream n s) \<noteq> Some src then None
          else if \<not> 0 \<le> str_state (nt_stream n s) then None
          else Some (Some s, upd_stream s (\<lambda>st. st\<lparr>str_state := c_int (str_state st + 1)\<rparr>) n))"

definition aem_stream_provide_end :: "'app callbacks \<Rightarrow> nat \<Rightarrow> 'app net \<Rightarrow> 'app net option" where
  "aem_stream_provide_end cb src n =
     do { s \<leftarrow> src_stream (nt_source n src);
          if str_source (nt_stream n s) \<noteq> Some src then None
          else if \<not> 0 < str_state (nt_stream n s) then None
          else
            let n1 = upd_stream s (\<lambda>st. st\<lparr>str_state := str_state st - 1\<rparr>) n in
            if str_state (nt_stream n1 s) = 0 \<and> str_sink (nt_stream n1 s) \<noteq> None
            then map_option snd (aem_stream_consume cb s n1)
            else Some n1 }"

text \<open>The address of a stream's block, which is null as long as nothing has been allocated; any
  other address would do.\<close>
definition buf_addr :: "stringbuf \<Rightarrow> nat" where
  "buf_addr b = (if sb_s b = [] then 0 else 1)"

definition aem_stream_consume_begin :: "nat \<Rightarrow> 'app net \<Rightarrow> (stringslice \<times> 'app net) option" where
  "aem_stream_consume_begin snk n =
     (case snk_stream (nt_sink n snk) of
        None \<Rightarrow> Some (AEM_STRINGSLICE_EMPTY, n)
      | Some s \<Rightarrow>
          let st = nt_stream n s in
          if str_state st < 0 then Some (AEM_STRINGSLICE_EMPTY, n)
          else if str_sink st \<noteq> Some snk then None
          else if str_state st \<noteq> 0 then None
          else Some (aem_stringslice_new_str (buf_addr (str_buf st)) (str_buf st),
                 upd_stream s (\<lambda>st. st\<lparr>str_state := str_state st - 1\<rparr>) n))"

definition aem_stream_consume_end ::
  "u8 allocator \<Rightarrow> nat \<Rightarrow> stringslice \<Rightarrow> 'app net \<Rightarrow> 'app net option" where
  "aem_stream_consume_end al snk sl n =
     do { s \<leftarrow> snk_stream (nt_sink n snk);
          if str_sink (nt_stream n s) \<noteq> Some snk then None
          else do {
            b \<leftarrow> (if ss_start sl \<noteq> 0 then do {
                     let b0 = str_buf (nt_stream n s);
                     b1 \<leftarrow> aem_stringbuf_pop_front b0 (ss_start sl - buf_addr b0);
                     if sz (sz (sb_n b1 * 4) + 4096) < sb_maxn b1
                     then map_option snd (aem_stringbuf_shrinkwrap al b1) else Some b1 }
                   else Some (str_buf (nt_stream n s)));
            let n1 = upd_stream s (\<lambda>st. st\<lparr>str_buf := b\<rparr>) n;
            if \<not> str_state (nt_stream n1 s) < 0 then None
            else Some (upd_stream s (\<lambda>st. st\<lparr>str_state := str_state st + 1\<rparr>) n1) } }"

section \<open>Connection\<close>

definition aem_stream_source_init :: "nat \<Rightarrow> 'app net \<Rightarrow> 'app net" where
  "aem_stream_source_init src = upd_source src (\<lambda>_. \<lparr>src_stream = None, src_provide = True\<rparr>)"

definition aem_stream_sink_init :: "nat \<Rightarrow> 'app net \<Rightarrow> 'app net" where
  "aem_stream_sink_init snk = upd_sink snk (\<lambda>_. \<lparr>snk_stream = None, snk_consume = True\<rparr>)"

definition aem_stream_new :: aem_stream where
  "aem_stream_new = \<lparr>str_buf = aem_stringbuf_init, str_source = None, str_sink = None,
     str_state = 0, str_flags = 0\<rparr>"

definition aem_stream_free :: "nat \<Rightarrow> 'app net \<Rightarrow> 'app net option" where
  "aem_stream_free s n =
     (if str_source (nt_stream n s) \<noteq> None then None
      else if str_sink (nt_stream n s) \<noteq> None then None
      else Some (n\<lparr>nt_rcu := nt_rcu n @ [s]\<rparr>))"

text \<open>\<open>fresh\<close> is the address \<open>malloc\<close> returns for a new stream. A source and a sink that share a
  stream make the code follow the null pointer \<open>stream\<close>.\<close>
definition aem_stream_connect ::
  "nat \<Rightarrow> nat \<Rightarrow> nat \<Rightarrow> 'app net \<Rightarrow> (nat ptr \<times> 'app net) option" where
  "aem_stream_connect fresh src snk n =
     (let a = src_stream (nt_source n src); b = snk_stream (nt_sink n snk) in
      if (case a of None \<Rightarrow> False | Some s \<Rightarrow> str_source (nt_stream n s) \<noteq> Some src) then None
      else if (case b of None \<Rightarrow> False | Some s \<Rightarrow> str_sink (nt_stream n s) \<noteq> Some snk) then None
      else if a \<noteq> None \<and> b \<noteq> None then (if a = b then None else Some (None, n))
      else
        let (s, n1) = (case (a, b) of
              (Some s, _) \<Rightarrow> (s, n)
            | (None, Some s) \<Rightarrow> (s, n)
            | (None, None) \<Rightarrow> (fresh, upd_stream fresh (\<lambda>_. aem_stream_new) n));
            n2 = upd_source src (\<lambda>x. x\<lparr>src_stream := Some s\<rparr>) n1;
            n3 = upd_sink snk (\<lambda>x. x\<lparr>snk_stream := Some s\<rparr>) n2;
            n4 = upd_stream s (\<lambda>st. st\<lparr>str_source := Some src, str_sink := Some snk\<rparr>) n3
        in if str_state (nt_stream n4 s) \<noteq> 0 then None else Some (Some s, n4))"

definition aem_stream_source_detach :: "'app callbacks \<Rightarrow> nat ptr \<Rightarrow> 'app net \<Rightarrow> 'app net option" where
  "aem_stream_source_detach cb p n =
     (case p of
        None \<Rightarrow> Some n
      | Some src \<Rightarrow>
          (case src_stream (nt_source n src) of
             None \<Rightarrow> Some n
           | Some s \<Rightarrow>
               if str_source (nt_stream n s) \<noteq> Some src then None
               else do {
                 let n1 = upd_stream s (\<lambda>st. st\<lparr>str_flags := AEM_STREAM_FIN\<rparr>) n;
                 n2 \<leftarrow> (if str_sink (nt_stream n1 s) \<noteq> None
                         then map_option snd (aem_stream_consume cb s n1) else Some n1);
                 if str_state (nt_stream n2 s) \<noteq> 0 then None
                 else
                   let n3 = upd_stream s (\<lambda>st. st\<lparr>str_source := None\<rparr>) n2;
                       n4 = upd_source src (\<lambda>x. x\<lparr>src_stream := None\<rparr>) n3
                   in if str_sink (nt_stream n4 s) = None then aem_stream_free s n4 else Some n4 }))"

definition aem_stream_sink_detach :: "nat ptr \<Rightarrow> 'app net \<Rightarrow> 'app net option" where
  "aem_stream_sink_detach p n =
     (case p of
        None \<Rightarrow> Some n
      | Some snk \<Rightarrow>
          (case snk_stream (nt_sink n snk) of
             None \<Rightarrow> Some n
           | Some s \<Rightarrow>
               if str_sink (nt_stream n s) \<noteq> Some snk then None
               else
                 let n1 = upd_stream s (\<lambda>st. st\<lparr>str_flags := str_flags st OR AEM_STREAM_FIN\<rparr>) n in
                 if str_state (nt_stream n1 s) \<noteq> 0 then None
                 else
                   let n2 = upd_stream s (\<lambda>st. st\<lparr>str_sink := None\<rparr>) n1;
                       n3 = upd_sink snk (\<lambda>x. x\<lparr>snk_stream := None\<rparr>) n2
                   in if str_source (nt_stream n3 s) = None then aem_stream_free s n3 else Some n3))"

definition aem_stream_source_dtor :: "'app callbacks \<Rightarrow> nat ptr \<Rightarrow> 'app net \<Rightarrow> 'app net option" where
  "aem_stream_source_dtor cb p n =
     (case p of
        None \<Rightarrow> Some n
      | Some src \<Rightarrow> do {
          n1 \<leftarrow> (if src_stream (nt_source n src) \<noteq> None then aem_stream_source_detach cb p n else Some n);
          let n2 = upd_source src (\<lambda>x. x\<lparr>src_provide := False\<rparr>) n1;
          if src_stream (nt_source n2 src) \<noteq> None then None else Some n2 })"

definition aem_stream_sink_dtor :: "nat ptr \<Rightarrow> 'app net \<Rightarrow> 'app net option" where
  "aem_stream_sink_dtor p n =
     (case p of
        None \<Rightarrow> Some n
      | Some snk \<Rightarrow> do {
          n1 \<leftarrow> (if snk_stream (nt_sink n snk) \<noteq> None then aem_stream_sink_detach p n else Some n);
          let n2 = upd_sink snk (\<lambda>x. x\<lparr>snk_consume := False\<rparr>) n1;
          if snk_stream (nt_sink n2 snk) \<noteq> None then None else Some n2 })"

section \<open>The transducer\<close>

text \<open>A transducer is its address, which is that of its sink among the sinks and of its source among
  the sources. \<open>go\<close> gets the output buffer, the input slice and whether the input is finished.\<close>

definition aem_stream_transducer_close ::
  "(nat \<Rightarrow> 'app net \<Rightarrow> 'app net option) \<Rightarrow> nat \<Rightarrow> 'app net \<Rightarrow> 'app net option" where
  "aem_stream_transducer_close on_close tr n =
     (if \<not> nt_on_close n tr then Some n
      else on_close tr (n\<lparr>nt_on_close := (nt_on_close n)(tr := False)\<rparr>))"

partial_function (option) transducer_loop ::
  "(stringbuf \<Rightarrow> stringslice \<Rightarrow> bool \<Rightarrow> 'app \<Rightarrow> (stringbuf \<times> stringslice \<times> 'app) option) \<Rightarrow>
     bool \<Rightarrow> stringbuf \<Rightarrow> stringslice \<Rightarrow> 'app \<Rightarrow> (stringbuf \<times> stringslice \<times> 'app) option" where
  "transducer_loop go fin out inp app =
     (if aem_stringslice_ok inp then do {
        (out1, inp1, app1) \<leftarrow> go out inp fin app;
        if ss_start inp1 = ss_start inp then Some (out1, inp1, app1)
        else transducer_loop go fin out1 inp1 app1 }
      else Some (out, inp, app))"

declare transducer_loop.simps [code]

text \<open>The flags after the loop, \<open>rest\<close> being what it left of the input.\<close>
definition transducer_flags :: "nat \<Rightarrow> nat \<Rightarrow> stringslice \<Rightarrow> 'app net \<Rightarrow> 'app net" where
  "transducer_flags up down rest n =
     (let n1 = (if \<not> aem_stringslice_ok rest
            then upd_stream up (\<lambda>st. st\<lparr>str_flags := str_flags st AND NOT AEM_STREAM_FULL\<rparr>) n
            else n)
      in if (str_flags (nt_stream n1 up) AND AEM_STREAM_FIN \<noteq> 0 \<or>
             str_flags (nt_stream n1 down) AND AEM_STREAM_FIN \<noteq> 0) \<and> \<not> aem_stringslice_ok rest
         then upd_stream down (\<lambda>st. st\<lparr>str_flags := str_flags st OR AEM_STREAM_FIN\<rparr>) n1
         else n1)"

text \<open>From the input \<open>inp\<close> of the stream \<open>up\<close> to the buffer of the stream \<open>ob\<close>. A null slice means
  that nothing could be consumed.\<close>
definition transducer_transfer ::
  "u8 allocator \<Rightarrow>
     (stringbuf \<Rightarrow> stringslice \<Rightarrow> bool \<Rightarrow> 'app \<Rightarrow> (stringbuf \<times> stringslice \<times> 'app) option) \<Rightarrow>
     nat \<Rightarrow> nat \<Rightarrow> nat \<Rightarrow> nat \<Rightarrow> stringslice \<Rightarrow> 'app net \<Rightarrow> 'app net option" where
  "transducer_transfer al go tr up down ob inp n =
     (if ss_start inp = 0 then Some n
      else do {
        (b, rest, app) \<leftarrow> transducer_loop go (str_flags (nt_stream n up) AND AEM_STREAM_FIN \<noteq> 0)
          (str_buf (nt_stream n ob)) inp (nt_app n);
        let n1 = (upd_stream ob (\<lambda>st. st\<lparr>str_buf := b\<rparr>) n)\<lparr>nt_app := app\<rparr>;
        aem_stream_consume_end al tr rest (transducer_flags up down rest n1) })"

definition aem_stream_transducer_consume ::
  "u8 allocator \<Rightarrow> 'app callbacks \<Rightarrow> (nat \<Rightarrow> 'app net \<Rightarrow> 'app net option) \<Rightarrow>
     (stringbuf \<Rightarrow> stringslice \<Rightarrow> bool \<Rightarrow> 'app \<Rightarrow> (stringbuf \<times> stringslice \<times> 'app) option) \<Rightarrow>
     nat \<Rightarrow> 'app net \<Rightarrow> 'app net option" where
  "aem_stream_transducer_consume al cb on_close go tr n =
     do { up \<leftarrow> snk_stream (nt_sink n tr);
          case src_stream (nt_source n tr) of
            None \<Rightarrow> aem_stream_transducer_close on_close tr n
          | Some down \<Rightarrow> do {
              (ok, n1) \<leftarrow> aem_stream_propagate_down cb tr (Some tr) n;
              if \<not> ok then Some n1
              else do {
                (out, n2) \<leftarrow> aem_stream_provide_begin tr True n1;
                ob \<leftarrow> out;
                (inp, n3) \<leftarrow> aem_stream_consume_begin tr n2;
                n4 \<leftarrow> transducer_transfer al go tr up down ob inp n3;
                aem_stream_provide_end cb tr n4 } } }"

definition aem_stream_transducer_provide ::
  "'app callbacks \<Rightarrow> nat \<Rightarrow> 'app net \<Rightarrow> 'app net option" where
  "aem_stream_transducer_provide cb tr n =
     map_option snd (aem_stream_propagate_up cb (Some tr) tr n)"

definition aem_stream_transducer_init :: "nat \<Rightarrow> 'app net \<Rightarrow> 'app net" where
  "aem_stream_transducer_init tr n =
     (let n1 = aem_stream_sink_init tr n; n2 = aem_stream_source_init tr n1
      in n2\<lparr>nt_on_close := (nt_on_close n2)(tr := False)\<rparr>)"

definition aem_stream_transducer_dtor_rcu ::
  "'app callbacks \<Rightarrow> (nat \<Rightarrow> 'app net \<Rightarrow> 'app net option) \<Rightarrow> nat \<Rightarrow> 'app net \<Rightarrow> 'app net option" where
  "aem_stream_transducer_dtor_rcu cb on_close tr n =
     do { n1 \<leftarrow> aem_stream_transducer_close on_close tr n;
          n2 \<leftarrow> aem_stream_sink_dtor (Some tr) n1;
          aem_stream_source_dtor cb (Some tr) n2 }"

section \<open>Updates of the store\<close>

lemma upd_simps [simp]:
  "nt_source (upd_source a f n) = (nt_source n)(a := f (nt_source n a))"
  "nt_sink (upd_source a f n) = nt_sink n" "nt_stream (upd_source a f n) = nt_stream n"
  "nt_sink (upd_sink a g n) = (nt_sink n)(a := g (nt_sink n a))"
  "nt_source (upd_sink a g n) = nt_source n" "nt_stream (upd_sink a g n) = nt_stream n"
  "nt_stream (upd_stream s h n) = (nt_stream n)(s := h (nt_stream n s))"
  "nt_source (upd_stream s h n) = nt_source n" "nt_sink (upd_stream s h n) = nt_sink n"
  "nt_app (upd_stream s h n) = nt_app n" "nt_app (upd_source a f n) = nt_app n"
  "nt_app (upd_sink a g n) = nt_app n" "nt_rcu (upd_stream s h n) = nt_rcu n"
  "nt_rcu (upd_source a f n) = nt_rcu n" "nt_rcu (upd_sink a g n) = nt_rcu n"
  by (simp_all add: upd_source_def upd_sink_def upd_stream_def)

text \<open>A source and a sink that are connected by a stream.\<close>
definition wired :: "'app net \<Rightarrow> nat \<Rightarrow> nat \<Rightarrow> nat \<Rightarrow> bool" where
  "wired n src s snk \<longleftrightarrow>
     src_stream (nt_source n src) = Some s \<and> str_source (nt_stream n s) = Some src \<and>
     snk_stream (nt_sink n snk) = Some s \<and> str_sink (nt_stream n s) = Some snk \<and>
     src_provide (nt_source n src) \<and> snk_consume (nt_sink n snk)"

definition idle :: "'app net \<Rightarrow> nat \<Rightarrow> bool" where
  "idle n s \<longleftrightarrow> str_state (nt_stream n s) = 0"

abbreviation buf :: "'app net \<Rightarrow> nat \<Rightarrow> stringbuf" where
  "buf n s \<equiv> str_buf (nt_stream n s)"

section \<open>Buffers\<close>

text \<open>A block that has been allocated and can grow.\<close>
definition ready :: "u8 allocator \<Rightarrow> stringbuf \<Rightarrow> bool" where
  "ready al b \<longleftrightarrow> sb_ready al b \<and> sb_s b \<noteq> []"

lemma ready_putn:
  assumes "sb_ready al b" "sb_n b + length w \<le> 2 ^ 24" "sb_s b \<noteq> [] \<or> w \<noteq> []"
  shows "\<exists>b'. aem_stringbuf_putn al b w = Some b' \<and> ready al b' \<and> sb_out b' = sb_out b @ w \<and>
    sb_n b' = sb_n b + length w"
proof -
  obtain b' where b': "aem_stringbuf_putn al b w = Some b'" "sb_ready al b'" "sb_out b' = sb_out b @ w"
      "sb_n b' = sb_n b + length w"
    by (rule appendsD [OF putn_appends assms(1,2)])
  have "sb_s b' \<noteq> []"
  proof (cases "w = []")
    case True
    then show ?thesis using b'(1) assms(3) by (simp add: aem_stringbuf_putn_def)
  next
    case False
    then show ?thesis using b'(3) by (auto simp: sb_out_def)
  qed
  then show ?thesis using b' by (auto simp: ready_def)
qed

lemma pop_front_ready:
  assumes "ready al b"
  shows "\<exists>b'. aem_stringbuf_pop_front b k = Some b' \<and> ready al b' \<and> sb_out b' = drop k (sb_out b)"
proof -
  have inv: "sb_inv b" using assms by (simp add: ready_def sb_ready_def)
  obtain b' where b': "aem_stringbuf_pop_front b k = Some b'" "sb_inv b'" "sb_out b' = drop k (sb_out b)"
    using pop_front_spec [OF inv] by blast
  have "sb_maxn b' = sb_maxn b \<and> sb_fixed b' = sb_fixed b \<and> sb_storage b' = sb_storage b \<and>
      (sb_bad b' \<longrightarrow> sb_bad b)"
    using b'(1) by (auto simp: aem_stringbuf_pop_front_def aem_stringbuf_reset_def sb_store_def
        bind_eq_Some_conv split: if_splits)
  then show ?thesis using b' assms inv
    by (auto simp: ready_def sb_ready_def sb_free_def sb_inv_def)
qed

lemma shrinkwrap_ready:
  assumes "ready al b"
  shows "\<exists>p b'. aem_stringbuf_shrinkwrap al b = Some (p, b') \<and> ready al b' \<and> sb_out b' = sb_out b"
proof -
  have inv: "sb_inv b" "\<not> sb_bad b" "sb_s b \<noteq> []" using assms by (auto simp: ready_def sb_ready_def sb_free_def)
  have n: "sz (sb_n b + 1) = sb_n b + 1" using sb_inv_n(2) [OF inv(1)] by simp
  obtain rc s' where rs: "aem_array_realloc_impl al 1 (sb_s b) (sb_n b + 1) = (rc, s')" by fastforce
  let ?heap = "\<not> sb_fixed b \<and> sb_storage b = AEM_STRINGBUF_STORAGE_HEAP"
  define b1 where "b1 = (if ?heap
      then if rc \<noteq> 0 then b\<lparr>sb_s := s'\<rparr> else b\<lparr>sb_s := s', sb_maxn := sb_n b + 1\<rparr> else b)"
  have get: "aem_stringbuf_shrinkwrap al b = aem_stringbuf_get b1"
    by (simp only: aem_stringbuf_shrinkwrap_def Let_def n rs prod.case b1_def)
  have "0 < sb_maxn b" using inv by (metis length_greater_0_conv sb_inv_def)
  then have le: "sb_n b + 1 \<le> sb_maxn b" "sb_n b \<le> length (sb_s b)" using inv by (auto simp: sb_inv_def)
  have b1: "sb_inv b1 \<and> sb_out b1 = sb_out b \<and> sb_bad b1 = sb_bad b \<and> sb_n b1 = sb_n b \<and> sb_s b1 \<noteq> [] \<and>
      sb_maxn b1 \<le> sb_maxn b \<and> sb_fixed b1 = sb_fixed b \<and> sb_storage b1 = sb_storage b"
    using realloc_cases [OF rs] inv le
    by (auto simp: b1_def sb_inv_def sb_out_def take_realloc_content)
  obtain s b' where g: "aem_stringbuf_get b1 = Some (Some s, b')" "sb_inv b'" "sb_out b' = sb_out b1"
      "sb_bad b' = sb_bad b1"
    using get_spec [of b1] b1 inv(2) by auto
  have "sb_maxn b' = sb_maxn b1 \<and> sb_fixed b' = sb_fixed b1 \<and> sb_storage b' = sb_storage b1 \<and> sb_s b' \<noteq> []"
    using g(1) b1 by (auto simp: aem_stringbuf_get_def sb_store_def bind_eq_Some_conv split: if_splits)
  then show ?thesis using g b1 assms get by (auto simp: ready_def sb_ready_def sb_free_def)
qed

section \<open>A client: writing to a stream and reading from it\<close>

text \<open>What the \<open>consume\<close> method of a client does, after the library's own sockets: it looks at the
  bytes, takes as many of the first ones as it wants, and hands back the rest.\<close>

definition sink_callback ::
  "u8 allocator \<Rightarrow> (u8 list \<Rightarrow> nat) \<Rightarrow> nat \<Rightarrow> u8 list net \<Rightarrow> u8 list net option" where
  "sink_callback al eats snk n =
     do { (sl, n1) \<leftarrow> aem_stream_consume_begin snk n;
          if ss_start sl = 0 then Some n1
          else
            let k = min (eats (ss_bytes sl)) (length (ss_bytes sl));
                n2 = n1\<lparr>nt_app := nt_app n1 @ take k (ss_bytes sl)\<rparr>
            in aem_stream_consume_end al snk (ss_advance sl k) n2 }"

definition source_write ::
  "u8 allocator \<Rightarrow> 'app callbacks \<Rightarrow> nat \<Rightarrow> u8 list \<Rightarrow> 'app net \<Rightarrow> 'app net option" where
  "source_write al cb src w n =
     do { (p, n1) \<leftarrow> aem_stream_provide_begin src True n;
          s \<leftarrow> p;
          b \<leftarrow> aem_stringbuf_putn al (buf n1 s) w;
          aem_stream_provide_end cb src (upd_stream s (\<lambda>st. st\<lparr>str_buf := b\<rparr>) n1) }"

fun source_writes ::
  "u8 allocator \<Rightarrow> 'app callbacks \<Rightarrow> nat \<Rightarrow> u8 list list \<Rightarrow> 'app net \<Rightarrow> 'app net option" where
  "source_writes al cb src [] n = Some n"
| "source_writes al cb src (w # ws) n =
     do { n1 \<leftarrow> source_write al cb src w n; source_writes al cb src ws n1 }"

text \<open>A new buffer, other things being equal.\<close>
abbreviation with_buf :: "nat \<Rightarrow> stringbuf \<Rightarrow> 'app net \<Rightarrow> 'app net" where
  "with_buf s b n \<equiv> upd_stream s (\<lambda>st. st\<lparr>str_buf := b\<rparr>) n"

lemma consume_begin_wired:
  assumes "wired n src s snk" "idle n s"
  shows "aem_stream_consume_begin snk n = Some (aem_stringslice_new_str (buf_addr (buf n s)) (buf n s),
    upd_stream s (\<lambda>st. st\<lparr>str_state := -1\<rparr>) n)"
  using assms by (simp add: aem_stream_consume_begin_def wired_def idle_def Let_def upd_stream_def)

lemma consume_end_spec:
  assumes w: "wired n src s snk" and st: "str_state (nt_stream n s) = -1" and b: "ready al (buf n s)"
    and sl: "ss_start sl = buf_addr (buf n s) + k"
  shows "\<exists>b'. aem_stream_consume_end al snk sl n = Some (upd_stream s (\<lambda>st. st\<lparr>str_buf := b', str_state := 0\<rparr>) n) \<and>
    ready al b' \<and> sb_out b' = drop k (sb_out (buf n s))"
proof -
  obtain b1 where b1: "aem_stringbuf_pop_front (buf n s) k = Some b1" "ready al b1"
      "sb_out b1 = drop k (sb_out (buf n s))"
    using pop_front_ready [OF b] by blast
  obtain p b2 where b2: "aem_stringbuf_shrinkwrap al b1 = Some (p, b2)" "ready al b2" "sb_out b2 = sb_out b1"
    using shrinkwrap_ready [OF b1(2)] by blast
  have a: "buf_addr (buf n s) = 1" using b by (simp add: buf_addr_def ready_def)
  let ?b = "if sz (sz (sb_n b1 * 4) + 4096) < sb_maxn b1 then b2 else b1"
  have "aem_stream_consume_end al snk sl n = Some (upd_stream s (\<lambda>st. st\<lparr>str_buf := ?b, str_state := 0\<rparr>) n)"
    using w st sl a b1(1) b2(1)
    by (simp add: aem_stream_consume_end_def wired_def upd_stream_def Let_def)
  moreover have "ready al ?b" "sb_out ?b = drop k (sb_out (buf n s))" using b1 b2 by auto
  ultimately show ?thesis by blast
qed

lemma upd_idle:
  assumes "idle n s"
  shows "upd_stream s (\<lambda>st. st\<lparr>str_buf := b, str_state := 0\<rparr>)
      ((upd_stream s (\<lambda>st. st\<lparr>str_state := k\<rparr>) n)\<lparr>nt_app := app\<rparr>) = (with_buf s b n)\<lparr>nt_app := app\<rparr>"
proof -
  have "(nt_stream n s)\<lparr>str_buf := b, str_state := 0\<rparr> = (nt_stream n s)\<lparr>str_buf := b\<rparr>"
    using assms by (cases "nt_stream n s") (simp add: idle_def)
  then show ?thesis by (simp add: upd_stream_def)
qed

lemma sink_callback_spec:
  assumes w: "wired n src s snk" and i: "idle n s" and b: "ready al (buf n s)"
  shows "\<exists>b' k. sink_callback al eats snk n = Some ((with_buf s b' n)\<lparr>nt_app := nt_app n @ take k (sb_out (buf n s))\<rparr>) \<and>
    ready al b' \<and> sb_out b' = drop k (sb_out (buf n s))"
proof -
  let ?sl = "aem_stringslice_new_str (buf_addr (buf n s)) (buf n s)"
  have bytes: "ss_bytes ?sl = sb_out (buf n s)" by (simp add: aem_stringslice_new_str_def sb_out_def)
  have start: "ss_start ?sl = 1" using b by (simp add: aem_stringslice_new_str_def buf_addr_def ready_def)
  let ?k = "min (eats (sb_out (buf n s))) (length (sb_out (buf n s)))"
  let ?n2 = "(upd_stream s (\<lambda>st. st\<lparr>str_state := -1\<rparr>) n)\<lparr>nt_app := nt_app n @ take ?k (sb_out (buf n s))\<rparr>"
  have w2: "wired ?n2 src s snk" using w by (simp add: wired_def)
  have "\<exists>b'. aem_stream_consume_end al snk (ss_advance ?sl ?k) ?n2 =
      Some (upd_stream s (\<lambda>st. st\<lparr>str_buf := b', str_state := 0\<rparr>) ?n2) \<and>
      ready al b' \<and> sb_out b' = drop ?k (sb_out (buf ?n2 s))"
    by (rule consume_end_spec [OF w2]) (use b start in \<open>simp_all add: buf_addr_def ready_def\<close>)
  then obtain b' where e: "aem_stream_consume_end al snk (ss_advance ?sl ?k) ?n2 =
      Some (upd_stream s (\<lambda>st. st\<lparr>str_buf := b', str_state := 0\<rparr>) ?n2)" "ready al b'"
      "sb_out b' = drop ?k (sb_out (buf n s))" by auto
  have same: "upd_stream s (\<lambda>st. st\<lparr>str_buf := b', str_state := 0\<rparr>) ?n2 =
      (with_buf s b' n)\<lparr>nt_app := nt_app n @ take ?k (sb_out (buf n s))\<rparr>"
    using upd_idle [OF i, of b'] by simp
  show ?thesis
    using e start bytes same
    by (intro exI [of _ b'] exI [of _ ?k])
      (simp add: sink_callback_def consume_begin_wired [OF w i] Let_def)
qed

text \<open>What a write does up to the call of the sink: the bytes are at the end of the buffer, and the
  stream is idle.\<close>

lemma source_write_delivers:
  assumes w: "wired n src s snk" and i: "idle n s"
    and b: "sb_ready al (buf n s)" "sb_n (buf n s) + length bs \<le> 2 ^ 24" "sb_s (buf n s) \<noteq> [] \<or> bs \<noteq> []"
  shows "\<exists>b'. source_write al cb src bs n = cb_consume cb snk (with_buf s b' n) \<and> ready al b' \<and>
    sb_out b' = sb_out (buf n s) @ bs \<and> sb_n b' = sb_n (buf n s) + length bs"
proof -
  let ?n1 = "upd_stream s (\<lambda>st. st\<lparr>str_state := 1\<rparr>) n"
  obtain b' where b': "aem_stringbuf_putn al (buf n s) bs = Some b'" "ready al b'"
      "sb_out b' = sb_out (buf n s) @ bs" "sb_n b' = sb_n (buf n s) + length bs"
    using ready_putn [OF b] by blast
  have pb: "aem_stream_provide_begin src True n = Some (Some s, ?n1)"
    using w i by (simp add: aem_stream_provide_begin_def wired_def idle_def upd_stream_def c_int_def)
  have st: "(nt_stream n s)\<lparr>str_buf := b', str_state := 0\<rparr> = (nt_stream n s)\<lparr>str_buf := b'\<rparr>"
    using i by (cases "nt_stream n s") (simp add: idle_def)
  have "upd_stream s (\<lambda>st. st\<lparr>str_state := str_state st - 1\<rparr>) (with_buf s b' ?n1) = with_buf s b' n"
    using st by (simp add: upd_stream_def)
  then have "aem_stream_provide_end cb src (with_buf s b' ?n1) =
      map_option snd (aem_stream_consume cb s (with_buf s b' n))"
    using w i by (simp add: aem_stream_provide_end_def wired_def idle_def Let_def)
  also have "\<dots> = cb_consume cb snk (with_buf s b' n)"
    using w by (cases "cb_consume cb snk (with_buf s b' n)") (simp_all add: aem_stream_consume_def wired_def)
  finally show ?thesis using b' by (auto simp: source_write_def pb)
qed

lemma wired_with_buf [simp]: "wired (with_buf s b n) = wired n" "idle (with_buf s b n) = idle n"
  by (auto simp: wired_def idle_def fun_eq_iff)

lemma wired_app [simp]: "wired (n\<lparr>nt_app := a\<rparr>) = wired n" "idle (n\<lparr>nt_app := a\<rparr>) = idle n"
  by (auto simp: wired_def idle_def fun_eq_iff)

text \<open>The bytes a reader has and will have: what it has taken, and what waits in the buffer.\<close>
definition delivered :: "u8 list net \<Rightarrow> nat \<Rightarrow> u8 list" where
  "delivered n s = nt_app n @ sb_out (buf n s)"

lemma write_fifo:
  assumes w: "wired n src s snk" and i: "idle n s" and cb: "cb_consume cb snk = sink_callback al eats snk"
    and b: "sb_ready al (buf n s)" "sb_n (buf n s) + length bs \<le> 2 ^ 24" "sb_s (buf n s) \<noteq> [] \<or> bs \<noteq> []"
  shows "\<exists>n'. source_write al cb src bs n = Some n' \<and> wired n' src s snk \<and> idle n' s \<and>
    ready al (buf n' s) \<and> sb_n (buf n' s) \<le> sb_n (buf n s) + length bs \<and>
    delivered n' s = delivered n s @ bs"
proof -
  obtain b' where b': "source_write al cb src bs n = cb_consume cb snk (with_buf s b' n)" "ready al b'"
      "sb_out b' = sb_out (buf n s) @ bs" "sb_n b' = sb_n (buf n s) + length bs"
    using source_write_delivers [OF w i b] by blast
  have "\<exists>b'' k. sink_callback al eats snk (with_buf s b' n) =
      Some ((with_buf s b'' (with_buf s b' n))\<lparr>nt_app := nt_app (with_buf s b' n) @ take k (sb_out (buf (with_buf s b' n) s))\<rparr>) \<and>
      ready al b'' \<and> sb_out b'' = drop k (sb_out (buf (with_buf s b' n) s))"
    by (rule sink_callback_spec) (use w i b'(2) in simp_all)
  then obtain b'' k where c: "sink_callback al eats snk (with_buf s b' n) =
      Some ((with_buf s b'' (with_buf s b' n))\<lparr>nt_app := nt_app n @ take k (sb_out b')\<rparr>)" "ready al b''"
      "sb_out b'' = drop k (sb_out b')" by auto
  have len: "sb_n b'' \<le> sb_n b'"
    using c(2,3) b'(2) length_sb_out [of b''] length_sb_out [of b'] by (simp add: ready_def sb_ready_def)
  have "take k (sb_out b') @ sb_out b'' = sb_out (buf n s) @ bs"
    unfolding c(3) b'(3) [symmetric] by (rule append_take_drop_id)
  then show ?thesis
    using b'(1,4) c(1,2) len w i by (simp add: cb delivered_def)
qed

section \<open>The transducer\<close>

text \<open>A \<open>go\<close> method that works a step at a time: shown the input \<open>bs\<close>, \<open>step fin bs\<close> says how many
  of its bytes it eats and what it writes. Eating nothing means that it waits for more input.\<close>

type_synonym go_step = "bool \<Rightarrow> u8 list \<Rightarrow> nat \<times> u8 list"

definition translate ::
  "u8 allocator \<Rightarrow> go_step \<Rightarrow> stringbuf \<Rightarrow> stringslice \<Rightarrow> bool \<Rightarrow> 'app \<Rightarrow>
     (stringbuf \<times> stringslice \<times> 'app) option" where
  "translate al step out inp fin app =
     (let (k, w) = step fin (ss_bytes inp)
      in do { out1 \<leftarrow> aem_stringbuf_putn al out w; Some (out1, ss_advance inp k, app) })"

text \<open>The steps compute \<open>h\<close>, the translation of whole streams: what is written now, followed by the
  translation of what is left and of whatever comes later, is the translation of it all.\<close>

definition computes :: "go_step \<Rightarrow> (u8 list \<Rightarrow> u8 list) \<Rightarrow> bool" where
  "computes step h \<longleftrightarrow> (\<forall>fin bs zs. bs \<noteq> [] \<longrightarrow>
     fst (step fin bs) \<le> length bs \<and> h (bs @ zs) = snd (step fin bs) @ h (drop (fst (step fin bs)) bs @ zs))"

text \<open>Steps that never wait for more input.\<close>

definition eager :: "go_step \<Rightarrow> bool" where
  "eager step \<longleftrightarrow> (\<forall>fin bs. bs \<noteq> [] \<longrightarrow> 0 < fst (step fin bs))"

definition not_full :: "'app net \<Rightarrow> nat \<Rightarrow> bool" where
  "not_full n s \<longleftrightarrow> str_flags (nt_stream n s) AND AEM_STREAM_FULL = 0"

lemma fin_full: "(f OR AEM_STREAM_FIN) AND AEM_STREAM_FULL = f AND AEM_STREAM_FULL"
  by (simp add: AEM_STREAM_FIN_def AEM_STREAM_FULL_def word_ao_dist)

lemma cleared_full: "(f AND NOT AEM_STREAM_FULL) AND AEM_STREAM_FULL = 0"
  by (simp add: and.assoc)

lemma computesD:
  assumes "computes step h" "step fin bs = (k, w)" "bs \<noteq> []"
  shows "k \<le> length bs" "h (bs @ zs) = w @ h (drop k bs @ zs)"
  using assms unfolding computes_def by (metis fst_conv snd_conv)+

lemma translate_loop:
  assumes c: "computes step h" and r: "sb_ready al out" "sb_n out + length (h (ss_bytes inp @ ys)) \<le> 2 ^ 24"
    and ne: "sb_s out \<noteq> [] \<or> (ss_bytes inp \<noteq> [] \<and> snd (step fin (ss_bytes inp)) \<noteq> [])"
  shows "\<exists>out' k w. transducer_loop (translate al step) fin out inp app = Some (out', ss_advance inp k, app) \<and>
    k \<le> length (ss_bytes inp) \<and> ready al out' \<and> sb_out out' = sb_out out @ w \<and> sb_n out' = sb_n out + length w \<and>
    (\<forall>zs. h (ss_bytes inp @ zs) = w @ h (drop k (ss_bytes inp) @ zs)) \<and>
    (eager step \<longrightarrow> k = length (ss_bytes inp))"
  using r ne
proof (induction "length (ss_bytes inp)" arbitrary: out inp rule: less_induct)
  case less
  let ?bs = "ss_bytes inp"
  show ?case
  proof (cases "?bs = []")
    case True
    then have "transducer_loop (translate al step) fin out inp app = Some (out, ss_advance inp 0, app)"
      by (subst transducer_loop.simps) (simp add: ss_advance_def aem_stringslice_ok_def ss_end_def)
    then show ?thesis using less.prems True by (intro exI [of _ out] exI [of _ 0] exI [of _ "[]"]) (simp add: ready_def)
  next
    case False
    obtain k w where st: "step fin ?bs = (k, w)" by fastforce
    note l = computesD [OF c st False]
    have hw: "h (?bs @ ys) = w @ h (drop k ?bs @ ys)" by (rule l(2))
    have "sb_n out + length w \<le> 2 ^ 24" "sb_s out \<noteq> [] \<or> w \<noteq> []"
      using less.prems(2,3) hw st by auto
    then obtain out1 where o1: "aem_stringbuf_putn al out w = Some out1" "ready al out1"
        "sb_out out1 = sb_out out @ w" "sb_n out1 = sb_n out + length w"
      using ready_putn [OF less.prems(1)] by blast
    have g: "translate al step out inp fin app = Some (out1, ss_advance inp k, app)"
      using st o1(1) by (simp add: translate_def)
    have ok: "aem_stringslice_ok inp" using False by (simp add: aem_stringslice_ok_def ss_end_def)
    show ?thesis
    proof (cases "k = 0")
      case True
      then have "transducer_loop (translate al step) fin out inp app = Some (out1, ss_advance inp k, app)"
        by (subst transducer_loop.simps) (simp add: False ok g ss_advance_def)
      moreover have "\<not> eager step" using True st False unfolding eager_def by (metis fst_conv less_irrefl)
      ultimately show ?thesis using o1 l by blast
    next
      case k: False
      let ?inp = "ss_advance inp k"
      have b: "ss_bytes ?inp = drop k ?bs" "ss_start ?inp \<noteq> ss_start inp" using k by (simp_all add: ss_advance_def)
      have "length (ss_bytes ?inp) < length ?bs" using b k False by simp
      moreover have "sb_ready al out1" "sb_s out1 \<noteq> []" using o1(2) by (simp_all add: ready_def)
      moreover have "sb_n out1 + length (h (ss_bytes ?inp @ ys)) \<le> 2 ^ 24" using less.prems(2) o1(4) hw b by simp
      ultimately obtain out' k' w' where i: "transducer_loop (translate al step) fin out1 ?inp app =
            Some (out', ss_advance ?inp k', app)" "k' \<le> length (ss_bytes ?inp)" "ready al out'"
          "sb_out out' = sb_out out1 @ w'" "sb_n out' = sb_n out1 + length w'"
          "\<forall>zs. h (ss_bytes ?inp @ zs) = w' @ h (drop k' (ss_bytes ?inp) @ zs)"
          "eager step \<longrightarrow> k' = length (ss_bytes ?inp)"
        using less.hyps [of ?inp out1] by blast
      have adv: "ss_advance ?inp k' = ss_advance inp (k + k')" by (simp add: ss_advance_def add.commute)
      have "transducer_loop (translate al step) fin out inp app = Some (out', ss_advance inp (k + k'), app)"
        using i(1) b(2) unfolding adv by (subst transducer_loop.simps) (simp add: False ok g)
      moreover have "h (?bs @ zs) = (w @ w') @ h (drop (k + k') ?bs @ zs)" for zs
        using l(2) [of zs] i(6) b(1) by (simp add: add.commute)
      ultimately show ?thesis
        using i o1 b l(1) by (intro exI [of _ out'] exI [of _ "k + k'"] exI [of _ "w @ w'"]) simp
    qed
  qed
qed

text \<open>The two streams a transducer joins, between writes: both are idle.\<close>

definition pipeline :: "u8 allocator \<Rightarrow> 'app net \<Rightarrow> nat \<Rightarrow> nat \<Rightarrow> nat \<Rightarrow> nat \<Rightarrow> nat \<Rightarrow> bool" where
  "pipeline al n src up tr down snk \<longleftrightarrow> wired n src up tr \<and> wired n tr down snk \<and> up \<noteq> down \<and>
     idle n up \<and> idle n down \<and> sb_ready al (buf n up) \<and> sb_ready al (buf n down)"

text \<open>The sink is called with both blocks allocated. What was moved downstream accounts for what is
  missing upstream.\<close>

definition moved_on ::
  "u8 allocator \<Rightarrow> bool \<Rightarrow> (u8 list \<Rightarrow> u8 list) \<Rightarrow> 'app net \<Rightarrow> 'app net \<Rightarrow> nat \<Rightarrow> nat \<Rightarrow> nat \<Rightarrow> nat \<Rightarrow> nat \<Rightarrow> u8 list \<Rightarrow> bool" where
  "moved_on al eag h n n1 src up tr down snk w \<longleftrightarrow> pipeline al n1 src up tr down snk \<and>
     ready al (buf n1 up) \<and> ready al (buf n1 down) \<and> nt_app n1 = nt_app n \<and>
     sb_n (buf n1 up) \<le> sb_n (buf n up) \<and> sb_out (buf n1 down) = sb_out (buf n down) @ w \<and>
     (\<forall>zs. h (sb_out (buf n up) @ zs) = w @ h (sb_out (buf n1 up) @ zs)) \<and>
     (eag \<and> not_full n down \<longrightarrow> sb_out (buf n1 up) = [] \<and> not_full n1 down)"

text \<open>When the downstream is full, the transducer only passes that on and wakes the sink.\<close>

lemma transducer_blocked:
  assumes p: "pipeline al n src up tr down snk" and r: "ready al (buf n up)"
    and full: "sb_n (buf n down) \<noteq> 0" "str_flags (nt_stream n down) AND AEM_STREAM_FULL \<noteq> 0"
  shows "\<exists>n1. aem_stream_transducer_consume al cb on_close go tr n = cb_consume cb snk n1 \<and>
    moved_on al (eager step) h n n1 src up tr down snk []"
proof -
  note w = p [unfolded pipeline_def wired_def idle_def]
  have "up \<noteq> down" "down \<noteq> up" using w by auto
  note distinct = this
  let ?n1 = "upd_stream up (\<lambda>st. st\<lparr>str_flags := str_flags st OR AEM_STREAM_FULL\<rparr>) n"
  have sp: "aem_stream_should_provide (Some tr) n = Some (False, n)"
    using w full by (simp add: aem_stream_should_provide_def Let_def)
  have pd: "aem_stream_propagate_down cb tr (Some tr) n = map_option (\<lambda>m. (False, m)) (cb_consume cb snk ?n1)"
    using w distinct
    by (cases "cb_consume cb snk ?n1")
      (simp_all add: aem_stream_propagate_down_def sp aem_stream_sink_set_full_def aem_stream_consume_def)
  have "aem_stream_transducer_consume al cb on_close go tr n = cb_consume cb snk ?n1"
    using w by (cases "cb_consume cb snk ?n1") (simp_all add: aem_stream_transducer_consume_def pd)
  moreover have "sb_out (buf n down) \<noteq> []"
    using w full(1) ready_n [of al "buf n down"] by (metis list.size(3))
  then have "ready al (buf n down)" using w by (auto simp: ready_def sb_out_def)
  ultimately show ?thesis
    using p r distinct
    by (intro exI [of _ ?n1]) (use full in \<open>simp add: moved_on_def pipeline_def wired_def idle_def not_full_def\<close>)
qed

lemma transducer_delivers:
  assumes p: "pipeline al n src up tr down snk" and r: "ready al (buf n up)"
    and c: "computes step h" and len: "sb_n (buf n down) + length (h (sb_out (buf n up) @ ys)) \<le> 2 ^ 24"
    and ne: "sb_s (buf n down) \<noteq> [] \<or> (sb_out (buf n up) \<noteq> [] \<and> (\<forall>fin. snd (step fin (sb_out (buf n up))) \<noteq> []))"
  shows "\<exists>n1 w. aem_stream_transducer_consume al cb on_close (translate al step) tr n = cb_consume cb snk n1 \<and>
    moved_on al (eager step) h n n1 src up tr down snk w"
proof (cases "sb_n (buf n down) \<noteq> 0 \<and> str_flags (nt_stream n down) AND AEM_STREAM_FULL \<noteq> 0")
  case True
  then show ?thesis using transducer_blocked [OF p r] by blast
next
  case False
  note w = p [unfolded pipeline_def wired_def idle_def]
  have distinct: "up \<noteq> down" "down \<noteq> up" using w by auto
  text \<open>the input side clears \<open>FULL\<close>, the output side begins to provide\<close>
  obtain f where sp: "aem_stream_should_provide (Some tr) n =
      Some (True, upd_stream down (\<lambda>st. st\<lparr>str_flags := f\<rparr>) n)" and f: "f AND AEM_STREAM_FULL = 0"
  proof (cases "str_flags (nt_stream n down) AND AEM_STREAM_FULL = 0")
    case True
    have "upd_stream down (\<lambda>st. st\<lparr>str_flags := str_flags (nt_stream n down)\<rparr>) n = n"
      by (simp add: upd_stream_def)
    then show ?thesis using True w that [of "str_flags (nt_stream n down)"]
      by (simp add: aem_stream_should_provide_def Let_def)
  next
    case full: False
    have "aem_stream_should_provide (Some tr) n =
        Some (True, upd_stream down (\<lambda>st. st\<lparr>str_flags := str_flags (nt_stream n down) AND NOT AEM_STREAM_FULL\<rparr>) n)"
      using full False w by (simp add: aem_stream_should_provide_def Let_def upd_stream_def)
    then show ?thesis by (rule that) (rule cleared_full)
  qed
  let ?n0 = "upd_stream down (\<lambda>st. st\<lparr>str_flags := f\<rparr>) n"
  let ?n1 = "upd_stream up (\<lambda>st. st\<lparr>str_flags := str_flags st AND NOT AEM_STREAM_FULL\<rparr>) ?n0"
  have pd: "aem_stream_propagate_down cb tr (Some tr) n = Some (True, ?n1)"
    using w sp by (simp add: aem_stream_propagate_down_def aem_stream_sink_set_full_def)
  let ?n2 = "upd_stream down (\<lambda>st. st\<lparr>str_state := 1\<rparr>) ?n1"
  have pb: "aem_stream_provide_begin tr True ?n1 = Some (Some down, ?n2)"
    using w distinct by (simp add: aem_stream_provide_begin_def upd_stream_def c_int_def)
  let ?n3 = "upd_stream up (\<lambda>st. st\<lparr>str_state := -1\<rparr>) ?n2"
  let ?inp = "aem_stringslice_new_str (buf_addr (buf n up)) (buf n up)"
  have start: "buf_addr (buf n up) = 1" using r by (simp add: buf_addr_def ready_def)
  have bytes: "ss_bytes ?inp = sb_out (buf n up)" "ss_start ?inp = 1"
    by (simp_all add: aem_stringslice_new_str_def sb_out_def start)
  have "wired ?n2 src up tr" "idle ?n2 up" using w distinct by (simp_all add: wired_def idle_def)
  from consume_begin_wired [OF this]
  have cbeg: "aem_stream_consume_begin tr ?n2 = Some (?inp, ?n3)" using distinct by simp
  define fin where "fin = (str_flags (nt_stream ?n3 up) AND AEM_STREAM_FIN \<noteq> 0)"
  have "\<exists>b' k wr. transducer_loop (translate al step) fin (buf n down) ?inp (nt_app n) =
        Some (b', ss_advance ?inp k, nt_app n) \<and> k \<le> length (ss_bytes ?inp) \<and> ready al b' \<and>
      sb_out b' = sb_out (buf n down) @ wr \<and> sb_n b' = sb_n (buf n down) + length wr \<and>
      (\<forall>zs. h (ss_bytes ?inp @ zs) = wr @ h (drop k (ss_bytes ?inp) @ zs)) \<and>
      (eager step \<longrightarrow> k = length (ss_bytes ?inp))"
    by (rule translate_loop [OF c, where ys = ys]) (use w len ne in \<open>auto simp: bytes\<close>)
  then obtain b' k wr where loop: "transducer_loop (translate al step) fin (buf n down) ?inp (nt_app n) =
        Some (b', ss_advance ?inp k, nt_app n)" and k: "k \<le> length (sb_out (buf n up))"
      and b': "ready al b'" "sb_out b' = sb_out (buf n down) @ wr"
      and hw: "\<forall>zs. h (sb_out (buf n up) @ zs) = wr @ h (drop k (sb_out (buf n up)) @ zs)"
        "eager step \<longrightarrow> k = length (sb_out (buf n up))"
    unfolding bytes by blast
  define rest where "rest = ss_advance ?inp k"
  have rest: "ss_start rest = 1 + k" by (simp add: rest_def bytes ss_advance_def)
  let ?n4 = "(with_buf down b' ?n3)\<lparr>nt_app := nt_app ?n3\<rparr>"
  define n6 where "n6 = transducer_flags up down rest ?n4"
  have n6: "buf n6 up = buf n up" "str_state (nt_stream n6 up) = -1" "wired n6 src up tr" "wired n6 tr down snk"
      "str_state (nt_stream n6 down) = 1" "buf n6 down = b'" "nt_app n6 = nt_app n"
    using w distinct by (auto simp: n6_def transducer_flags_def Let_def wired_def)
  have nf: "not_full n6 down"
    using f distinct fin_full by (auto simp: n6_def transducer_flags_def Let_def not_full_def)
  have "\<exists>b2. aem_stream_consume_end al tr rest n6 =
      Some (upd_stream up (\<lambda>st. st\<lparr>str_buf := b2, str_state := 0\<rparr>) n6) \<and>
      ready al b2 \<and> sb_out b2 = drop k (sb_out (buf n6 up))"
    by (rule consume_end_spec [OF n6(3)]) (use n6(1,2) rest r start in simp_all)
  then obtain b2 where cend: "aem_stream_consume_end al tr rest n6 =
      Some (upd_stream up (\<lambda>st. st\<lparr>str_buf := b2, str_state := 0\<rparr>) n6)" "ready al b2"
      "sb_out b2 = drop k (sb_out (buf n up))"
    using n6(1) by auto
  let ?n7 = "upd_stream up (\<lambda>st. st\<lparr>str_buf := b2, str_state := 0\<rparr>) n6"
  let ?n8 = "upd_stream down (\<lambda>st. st\<lparr>str_state := str_state st - 1\<rparr>) ?n7"
  have pe: "aem_stream_provide_end cb tr ?n7 = cb_consume cb snk ?n8"
    using n6 distinct
    by (cases "cb_consume cb snk ?n8")
      (simp_all add: aem_stream_provide_end_def aem_stream_consume_def wired_def Let_def)
  have down3: "buf ?n3 down = buf n down" "nt_app ?n3 = nt_app n" using distinct by simp_all
  have "transducer_transfer al (translate al step) tr up down down ?inp ?n3 = Some ?n7"
    unfolding transducer_transfer_def fin_def [symmetric] down3 loop using bytes(2) cend(1)
    by (simp only: n6_def rest_def down3) simp
  note transfer = this
  have ends: "snk_stream (nt_sink n tr) = Some up" "src_stream (nt_source n tr) = Some down" using w by auto
  have "aem_stream_transducer_consume al cb on_close (translate al step) tr n = cb_consume cb snk ?n8"
    by (simp only: aem_stream_transducer_consume_def ends pd pb cbeg transfer pe bind.bind_lunit
        option.case prod.case not_True_eq_False if_False)
  moreover have "pipeline al ?n8 src up tr down snk"
    using n6 b'(1) cend(2) distinct by (simp add: pipeline_def wired_def idle_def ready_def)
  moreover have "sb_n b2 \<le> sb_n (buf n up)"
    using arg_cong [OF cend(3), of length] cend(2) r by (simp add: ready_def sb_ready_def)
  ultimately show ?thesis
    using n6(6,7) cend b' hw nf distinct
    by (intro exI [of _ ?n8] exI [of _ wr]) (simp add: moved_on_def not_full_def)
qed

text \<open>Both streams can be used: each has a block, or gets one from the first of the writes.\<close>

definition primed :: "go_step \<Rightarrow> 'app net \<Rightarrow> nat \<Rightarrow> nat \<Rightarrow> u8 list list \<Rightarrow> bool" where
  "primed step n up down ws \<longleftrightarrow> ws = [] \<or>
     (sb_s (buf n up) \<noteq> [] \<or> hd ws \<noteq> []) \<and>
     (sb_s (buf n down) \<noteq> [] \<or>
      sb_out (buf n up) @ hd ws \<noteq> [] \<and> (\<forall>fin. snd (step fin (sb_out (buf n up) @ hd ws)) \<noteq> []))"

lemma pipeline_write:
  assumes p: "pipeline al n src up tr down snk" and c: "computes step h" and pr: "primed step n up down (bs # ws)"
    and cb: "cb_consume cb tr = aem_stream_transducer_consume al cb' on_close (translate al step) tr"
      "cb_consume cb' snk = sink_callback al eats snk"
    and len: "sb_n (buf n up) + length bs \<le> 2 ^ 24" "sb_n (buf n down) + length (h (sb_out (buf n up) @ bs @ ys)) \<le> 2 ^ 24"
  shows "\<exists>n' w. source_write al cb src bs n = Some n' \<and> pipeline al n' src up tr down snk \<and>
    primed step n' up down ws \<and> sb_n (buf n' up) \<le> sb_n (buf n up) + length bs \<and>
    sb_n (buf n' down) \<le> sb_n (buf n down) + length w \<and> delivered n' down = delivered n down @ w \<and>
    (\<forall>zs. h (sb_out (buf n up) @ bs @ zs) = w @ h (sb_out (buf n' up) @ zs)) \<and>
    (eager step \<and> not_full n down \<longrightarrow> sb_out (buf n' up) = [] \<and> not_full n' down)"
proof -
  have w: "wired n src up tr" "idle n up" "up \<noteq> down" "sb_ready al (buf n up)" using p by (auto simp: pipeline_def)
  obtain b where b: "source_write al cb src bs n = cb_consume cb tr (with_buf up b n)" "ready al b"
      "sb_out b = sb_out (buf n up) @ bs" "sb_n b = sb_n (buf n up) + length bs"
    using source_write_delivers [OF w(1,2,4) len(1), of cb] pr by (auto simp: primed_def)
  let ?m = "with_buf up b n"
  have pm: "pipeline al ?m src up tr down snk" using p w(3) b(2) by (simp add: pipeline_def ready_def)
  have "buf ?m up = b" "buf ?m down = buf n down" using w(3) by simp_all
  note bufs = this
  have "\<exists>n1 w. aem_stream_transducer_consume al cb' on_close (translate al step) tr ?m = cb_consume cb' snk n1 \<and>
      moved_on al (eager step) h ?m n1 src up tr down snk w"
    by (rule transducer_delivers [OF pm _ c, where ys = ys]) (use b pr len in \<open>auto simp: primed_def bufs simp del: upd_simps\<close>)
  then obtain n1 wr where n1: "source_write al cb src bs n = sink_callback al eats snk n1"
      and m: "moved_on al (eager step) h ?m n1 src up tr down snk wr"
    using b(1) cb by auto
  note m = m [unfolded moved_on_def]
  obtain c k where c: "sink_callback al eats snk n1 =
      Some ((with_buf down c n1)\<lparr>nt_app := nt_app n1 @ take k (sb_out (buf n1 down))\<rparr>)" "ready al c"
      "sb_out c = drop k (sb_out (buf n1 down))"
    using sink_callback_spec [of n1 tr down snk al eats] m by (auto simp: pipeline_def)
  let ?n' = "(with_buf down c n1)\<lparr>nt_app := nt_app n1 @ take k (sb_out (buf n1 down))\<rparr>"
  have out: "sb_out (buf n1 down) = sb_out (buf n down) @ wr" using m bufs by simp
  have sbr: "sb_ready al c" "sb_ready al (buf n1 down)" "sb_ready al (buf n down)"
    using c(2) m p by (simp_all add: pipeline_def ready_def)
  have "sb_n c \<le> sb_n (buf n1 down)" "sb_n (buf n1 down) = sb_n (buf n down) + length wr"
    unfolding sbr [THEN ready_n] c(3) out by simp_all
  moreover have "take k (sb_out (buf n1 down)) @ sb_out c = sb_out (buf n down) @ wr"
    unfolding c(3) out [symmetric] by (rule append_take_drop_id)
  moreover have "pipeline al ?n' src up tr down snk" "primed step ?n' up down ws"
    using m c(2) w(3) by (simp_all add: pipeline_def primed_def ready_def)
  ultimately show ?thesis
    using n1 m c(1) b(3,4) w(3)
    by (intro exI [of _ ?n'] exI [of _ wr]) (simp add: delivered_def not_full_def)
qed

section \<open>Who points at whom\<close>

definition links_ok :: "'app net \<Rightarrow> bool" where
  "links_ok n \<longleftrightarrow>
     (\<forall>a s. src_stream (nt_source n a) = Some s \<longleftrightarrow> str_source (nt_stream n s) = Some a) \<and>
     (\<forall>a s. snk_stream (nt_sink n a) = Some s \<longleftrightarrow> str_sink (nt_stream n s) = Some a)"

definition plumbing :: "'app net \<Rightarrow> (nat \<Rightarrow> nat ptr) \<times> (nat \<Rightarrow> nat ptr) \<times> (nat \<Rightarrow> nat ptr) \<times> (nat \<Rightarrow> nat ptr) \<times> nat list" where
  "plumbing n = (\<lambda>a. src_stream (nt_source n a), \<lambda>a. snk_stream (nt_sink n a),
     \<lambda>s. str_source (nt_stream n s), \<lambda>s. str_sink (nt_stream n s), nt_rcu n)"

text \<open>A stream that waits for its memory to be freed is linked to nothing, and waits once.\<close>
definition rcu_ok :: "'app net \<Rightarrow> bool" where
  "rcu_ok n \<longleftrightarrow> distinct (nt_rcu n) \<and>
     (\<forall>s \<in> set (nt_rcu n). str_source (nt_stream n s) = None \<and> str_sink (nt_stream n s) = None)"

text \<open>What the library and its clients do with sources, sinks and streams: move bytes and flags,
  connect and detach, in any order, with methods of the client that do the same. One thing is
  asked of a \<open>consume\<close> method: when it is called because a source detaches, it leaves that
  source to its caller.\<close>

text \<open>What \<open>aem_stream_connect\<close> relies on and does not check: a source that has a stream, and is
  connected to a sink without one, is its stream's only end, and so is such a sink.\<close>

definition free_end :: "'app net \<Rightarrow> nat \<Rightarrow> nat \<Rightarrow> bool" where
  "free_end n src snk \<longleftrightarrow>
     (case (src_stream (nt_source n src), snk_stream (nt_sink n snk)) of
        (Some s, None) \<Rightarrow> str_sink (nt_stream n s) = None
      | (None, Some s) \<Rightarrow> str_source (nt_stream n s) = None
      | _ \<Rightarrow> True)"

inductive stream_run :: "u8 allocator \<Rightarrow> 'app net \<Rightarrow> 'app net \<Rightarrow> bool" for al where
  refl: "stream_run al n n"
| trans: "stream_run al n n1 \<Longrightarrow> stream_run al n1 n2 \<Longrightarrow> stream_run al n n2"
| client: "stream_run al n (n\<lparr>nt_app := app\<rparr>)"
| on_close: "stream_run al n (n\<lparr>nt_on_close := oc\<rparr>)"
| put_bytes: "stream_run al n (with_buf s b n)"
| set_flags: "stream_run al n (upd_stream s (\<lambda>st. st\<lparr>str_flags := f st\<rparr>) n)"
| provide_begin: "aem_stream_provide_begin src force n = Some (s, n') \<Longrightarrow> stream_run al n n'"
| provide_end: "(\<And>k m m'. cb_consume cb k m = Some m' \<Longrightarrow> stream_run al m m') \<Longrightarrow>
    aem_stream_provide_end cb src n = Some n' \<Longrightarrow> stream_run al n n'"
| consume_begin: "aem_stream_consume_begin snk n = Some (sl, n') \<Longrightarrow> stream_run al n n'"
| consume_end: "aem_stream_consume_end al snk sl n = Some n' \<Longrightarrow> stream_run al n n'"
| provide: "(\<And>k m m'. cb_provide cb k m = Some m' \<Longrightarrow> stream_run al m m') \<Longrightarrow>
    aem_stream_provide cb s n = Some (rc, n') \<Longrightarrow> stream_run al n n'"
| consume: "(\<And>k m m'. cb_consume cb k m = Some m' \<Longrightarrow> stream_run al m m') \<Longrightarrow>
    aem_stream_consume cb s n = Some (rc, n') \<Longrightarrow> stream_run al n n'"
| source_init: "src_stream (nt_source n a) = None \<Longrightarrow> stream_run al n (aem_stream_source_init a n)"
| sink_init: "snk_stream (nt_sink n a) = None \<Longrightarrow> stream_run al n (aem_stream_sink_init a n)"
| connect: "fresh \<notin> set (nt_rcu n) \<Longrightarrow> str_source (nt_stream n fresh) = None \<Longrightarrow>
    str_sink (nt_stream n fresh) = None \<Longrightarrow> free_end n src snk \<Longrightarrow>
    aem_stream_connect fresh src snk n = Some (p, n') \<Longrightarrow> stream_run al n n'"
| source_detach: "(\<And>k m m'. cb_consume cb k m = Some m' \<Longrightarrow> stream_run al m m') \<Longrightarrow>
    (\<And>k m m'. cb_consume cb k m = Some m' \<Longrightarrow> src_stream (nt_source m' src) = src_stream (nt_source m src)) \<Longrightarrow>
    aem_stream_source_detach cb (Some src) n = Some n' \<Longrightarrow> stream_run al n n'"
| sink_detach: "aem_stream_sink_detach (Some snk) n = Some n' \<Longrightarrow> stream_run al n n'"
| source_dtor: "(\<And>k m m'. cb_consume cb k m = Some m' \<Longrightarrow> stream_run al m m') \<Longrightarrow>
    (\<And>k m m'. cb_consume cb k m = Some m' \<Longrightarrow> src_stream (nt_source m' src) = src_stream (nt_source m src)) \<Longrightarrow>
    aem_stream_source_dtor cb (Some src) n = Some n' \<Longrightarrow> stream_run al n n'"
| sink_dtor: "aem_stream_sink_dtor (Some snk) n = Some n' \<Longrightarrow> stream_run al n n'"

text \<open>From a program that has no sources, sinks and streams yet; the allocator returns memory that
  is not in use. At a barrier, the streams that were handed to \<open>call_rcu\<close> are freed.\<close>

inductive stream_reached :: "u8 allocator \<Rightarrow> 'app net \<Rightarrow> bool" for al where
  start: "plumbing n = (\<lambda>_. None, \<lambda>_. None, \<lambda>_. None, \<lambda>_. None, []) \<Longrightarrow> stream_reached al n"
| run: "stream_reached al n \<Longrightarrow> stream_run al n n' \<Longrightarrow> stream_reached al n'"
| barrier: "stream_reached al n \<Longrightarrow> stream_reached al (n\<lparr>nt_rcu := []\<rparr>)"

lemma plumbing_upd_stream [simp]:
  assumes "str_source (h (nt_stream n s)) = str_source (nt_stream n s)"
    and "str_sink (h (nt_stream n s)) = str_sink (nt_stream n s)"
  shows "plumbing (upd_stream s h n) = plumbing n"
  using assms by (auto simp: plumbing_def fun_eq_iff)

lemma plumbing_app [simp]: "plumbing (n\<lparr>nt_app := a\<rparr>) = plumbing n"
  "plumbing (n\<lparr>nt_on_close := c\<rparr>) = plumbing n"
  by (simp_all add: plumbing_def)

lemma data_plumbing:
  "aem_stream_provide_begin src force n = Some (p, n') \<Longrightarrow> plumbing n' = plumbing n"
  "aem_stream_consume_begin snk n = Some (sl, n') \<Longrightarrow> plumbing n' = plumbing n"
  "aem_stream_consume_end al snk sl n = Some n' \<Longrightarrow> plumbing n' = plumbing n"
  "src_stream (nt_source n a) = None \<Longrightarrow> plumbing (aem_stream_source_init a n) = plumbing n"
  "snk_stream (nt_sink n a) = None \<Longrightarrow> plumbing (aem_stream_sink_init a n) = plumbing n"
  by (auto simp: aem_stream_provide_begin_def aem_stream_consume_begin_def aem_stream_consume_end_def
      Let_def bind_eq_Some_conv split: option.splits if_splits)
    (auto simp: plumbing_def aem_stream_source_init_def aem_stream_sink_init_def fun_eq_iff)

lemma plumbing_eqD:
  assumes "plumbing n' = plumbing n"
  shows "src_stream (nt_source n' a) = src_stream (nt_source n a)"
    "snk_stream (nt_sink n' a) = snk_stream (nt_sink n a)"
    "str_source (nt_stream n' s) = str_source (nt_stream n s)"
    "str_sink (nt_stream n' s) = str_sink (nt_stream n s)" "nt_rcu n' = nt_rcu n"
  using assms by (auto simp: plumbing_def fun_eq_iff)

lemma plumbing_ok:
  assumes "plumbing n' = plumbing n"
  shows "links_ok n' = links_ok n" "rcu_ok n' = rcu_ok n"
  using plumbing_eqD [OF assms] by (simp_all add: links_ok_def rcu_ok_def)

abbreviation net_ok :: "'app net \<Rightarrow> bool" where
  "net_ok n \<equiv> links_ok n \<and> rcu_ok n"

lemma net_ok_upd_stream [simp]:
  assumes "str_source (h (nt_stream n s)) = str_source (nt_stream n s)"
    and "str_sink (h (nt_stream n s)) = str_sink (nt_stream n s)"
  shows "links_ok (upd_stream s h n) = links_ok n" "rcu_ok (upd_stream s h n) = rcu_ok n"
  using plumbing_ok [OF plumbing_upd_stream [of h n s, OF assms]] by simp_all

lemma net_ok_client [simp]:
  "links_ok (n\<lparr>nt_app := a\<rparr>) = links_ok n" "rcu_ok (n\<lparr>nt_app := a\<rparr>) = rcu_ok n"
  "links_ok (n\<lparr>nt_on_close := c\<rparr>) = links_ok n" "rcu_ok (n\<lparr>nt_on_close := c\<rparr>) = rcu_ok n"
  by (simp_all add: links_ok_def rcu_ok_def)

text \<open>The methods of the client keep the network consistent.\<close>

lemma callbacks_ok:
  assumes "net_ok n"
  shows "(\<And>k m m'. cb_consume cb k m = Some m' \<Longrightarrow> net_ok m \<Longrightarrow> net_ok m') \<Longrightarrow>
      aem_stream_consume cb s n = Some (rc, n') \<Longrightarrow> net_ok n'"
    and "(\<And>k m m'. cb_provide cb k m = Some m' \<Longrightarrow> net_ok m \<Longrightarrow> net_ok m') \<Longrightarrow>
      aem_stream_provide cb s n = Some (rc, n') \<Longrightarrow> net_ok n'"
  using assms
  by (auto simp: aem_stream_consume_def aem_stream_provide_def bind_eq_Some_conv split: option.splits if_splits)

text \<open>A source, or a sink, leaves its stream; a stream that nothing is left of goes to \<open>call_rcu\<close>.\<close>

definition unlink_source :: "nat \<Rightarrow> nat \<Rightarrow> 'app net \<Rightarrow> 'app net" where
  "unlink_source src s n = upd_source src (\<lambda>x. x\<lparr>src_stream := None\<rparr>) (upd_stream s (\<lambda>st. st\<lparr>str_source := None\<rparr>) n)"

definition unlink_sink :: "nat \<Rightarrow> nat \<Rightarrow> 'app net \<Rightarrow> 'app net" where
  "unlink_sink snk s n = upd_sink snk (\<lambda>x. x\<lparr>snk_stream := None\<rparr>) (upd_stream s (\<lambda>st. st\<lparr>str_sink := None\<rparr>) n)"

lemma unlink_ok:
  assumes ok: "links_ok n" "rcu_ok n"
  shows "str_source (nt_stream n s) = Some src \<Longrightarrow> links_ok (unlink_source src s n) \<and> rcu_ok (unlink_source src s n)"
    and "str_sink (nt_stream n s) = Some snk \<Longrightarrow> links_ok (unlink_sink snk s n) \<and> rcu_ok (unlink_sink snk s n)"
proof -
  assume s: "str_source (nt_stream n s) = Some src"
  then have "src_stream (nt_source n a) = Some s \<longleftrightarrow> a = src" for a using ok(1) by (auto simp: links_ok_def)
  moreover have "str_source (nt_stream n s') = Some src \<longleftrightarrow> s' = s" for s'
    using ok(1) s unfolding links_ok_def by (metis option.inject)
  ultimately show "links_ok (unlink_source src s n) \<and> rcu_ok (unlink_source src s n)"
    using ok by (auto simp: links_ok_def rcu_ok_def unlink_source_def)
next
  assume s: "str_sink (nt_stream n s) = Some snk"
  then have "snk_stream (nt_sink n a) = Some s \<longleftrightarrow> a = snk" for a using ok(1) by (auto simp: links_ok_def)
  moreover have "str_sink (nt_stream n s') = Some snk \<longleftrightarrow> s' = s" for s'
    using ok(1) s unfolding links_ok_def by (metis option.inject)
  ultimately show "links_ok (unlink_sink snk s n) \<and> rcu_ok (unlink_sink snk s n)"
    using ok by (auto simp: links_ok_def rcu_ok_def unlink_sink_def)
qed

lemma free_ok:
  assumes "links_ok n" "rcu_ok n" "s \<notin> set (nt_rcu n)" "aem_stream_free s n = Some n'"
  shows "links_ok n' \<and> rcu_ok n' \<and> nt_source n' = nt_source n \<and> nt_sink n' = nt_sink n"
  using assms by (auto simp: aem_stream_free_def links_ok_def rcu_ok_def split: if_splits)

lemma linked_not_freed:
  assumes "rcu_ok n" "str_source (nt_stream n s) = Some a \<or> str_sink (nt_stream n s) = Some a"
  shows "s \<notin> set (nt_rcu n)"
  using assms by (auto simp: rcu_ok_def)

lemma source_detach_ok:
  assumes ok: "net_ok n"
    and cb: "\<And>k m m'. cb_consume cb k m = Some m' \<Longrightarrow> net_ok m \<Longrightarrow> net_ok m'"
      "\<And>k m m'. cb_consume cb k m = Some m' \<Longrightarrow> src_stream (nt_source m' src) = src_stream (nt_source m src)"
    and res: "aem_stream_source_detach cb (Some src) n = Some n'"
  shows "net_ok n' \<and> src_stream (nt_source n' src) = None"
proof (cases "src_stream (nt_source n src)")
  case None
  then show ?thesis using ok res by (simp add: aem_stream_source_detach_def)
next
  case (Some s)
  let ?n1 = "upd_stream s (\<lambda>st. st\<lparr>str_flags := AEM_STREAM_FIN\<rparr>) n"
  from res Some obtain n2 where n2: "n2 = ?n1 \<or> (\<exists>rc. aem_stream_consume cb s ?n1 = Some (rc, n2))"
    and n': "n' = unlink_source src s n2 \<or> aem_stream_free s (unlink_source src s n2) = Some n'"
    by (auto simp: aem_stream_source_detach_def unlink_source_def Let_def bind_eq_Some_conv split: if_splits)
  have ok1: "net_ok ?n1" using ok by simp
  have "src_stream (nt_source n2 src) = Some s"
    using n2 cb(2) Some
    by (auto simp: aem_stream_consume_def bind_eq_Some_conv split: option.splits if_splits)
  moreover have "net_ok n2" using n2 ok1 callbacks_ok(1) [OF ok1, of cb s] cb(1) by blast
  ultimately have ok2: "links_ok n2" "rcu_ok n2" "str_source (nt_stream n2 s) = Some src"
    by (auto simp: links_ok_def)
  note u = unlink_ok(1) [OF ok2]
  have "s \<notin> set (nt_rcu (unlink_source src s n2))"
    using linked_not_freed [OF ok2(2)] ok2(3) by (auto simp: unlink_source_def)
  then show ?thesis
    using n' u free_ok [of "unlink_source src s n2" s n'] by (auto simp: unlink_source_def)
qed

lemma sink_detach_ok:
  assumes ok: "links_ok n" "rcu_ok n" and res: "aem_stream_sink_detach (Some snk) n = Some n'"
  shows "links_ok n' \<and> rcu_ok n' \<and> snk_stream (nt_sink n' snk) = None"
proof (cases "snk_stream (nt_sink n snk)")
  case None
  then show ?thesis using ok res by (simp add: aem_stream_sink_detach_def)
next
  case (Some s)
  let ?n1 = "upd_stream s (\<lambda>st. st\<lparr>str_flags := str_flags st OR AEM_STREAM_FIN\<rparr>) n"
  from res Some have s: "str_sink (nt_stream n s) = Some snk"
    and n': "n' = unlink_sink snk s ?n1 \<or> aem_stream_free s (unlink_sink snk s ?n1) = Some n'"
    by (auto simp: aem_stream_sink_detach_def unlink_sink_def Let_def split: if_splits)
  have pl: "plumbing ?n1 = plumbing n" by simp
  have ok1: "links_ok ?n1" "rcu_ok ?n1" "str_sink (nt_stream ?n1 s) = Some snk"
    using plumbing_ok [OF pl] ok s by auto
  note u = unlink_ok(2) [OF ok1]
  have "s \<notin> set (nt_rcu (unlink_sink snk s ?n1))"
    using linked_not_freed [OF ok(2), of s snk] s by (simp add: unlink_sink_def)
  then show ?thesis
    using n' u free_ok [of "unlink_sink snk s ?n1" s n'] by (auto simp: unlink_sink_def)
qed

lemma link_ok:
  assumes "links_ok n" "rcu_ok n" "s \<notin> set (nt_rcu n)"
    and "\<And>x. src_stream (nt_source n x) = Some s \<Longrightarrow> x = src"
    and "\<And>y. src_stream (nt_source n src) = Some y \<Longrightarrow> y = s"
    and "\<And>x. snk_stream (nt_sink n x) = Some s \<Longrightarrow> x = snk"
    and "\<And>y. snk_stream (nt_sink n snk) = Some y \<Longrightarrow> y = s"
  defines "n' \<equiv> upd_stream s (\<lambda>st. st\<lparr>str_source := Some src, str_sink := Some snk\<rparr>)
      (upd_sink snk (\<lambda>x. x\<lparr>snk_stream := Some s\<rparr>) (upd_source src (\<lambda>x. x\<lparr>src_stream := Some s\<rparr>) n))"
  shows "links_ok n' \<and> rcu_ok n'"
proof -
  have l: "src_stream (nt_source n a) = Some y \<longleftrightarrow> str_source (nt_stream n y) = Some a"
      "snk_stream (nt_sink n a) = Some y \<longleftrightarrow> str_sink (nt_stream n y) = Some a" for a y
    using assms(1) by (auto simp: links_ok_def)
  have v: "src_stream (nt_source n' a) = (if a = src then Some s else src_stream (nt_source n a))"
      "str_source (nt_stream n' y) = (if y = s then Some src else str_source (nt_stream n y))"
      "snk_stream (nt_sink n' a) = (if a = snk then Some s else snk_stream (nt_sink n a))"
      "str_sink (nt_stream n' y) = (if y = s then Some snk else str_sink (nt_stream n y))" for a y
    by (simp_all add: n'_def)
  have "src_stream (nt_source n' a) = Some y \<longleftrightarrow> str_source (nt_stream n' y) = Some a" for a y
    unfolding v using l(1) [of a y] assms(4,5) by (metis option.inject)
  moreover have "snk_stream (nt_sink n' a) = Some y \<longleftrightarrow> str_sink (nt_stream n' y) = Some a" for a y
    unfolding v using l(2) [of a y] assms(6,7) by (metis option.inject)
  moreover have "rcu_ok n'" using assms(2,3) by (auto simp: rcu_ok_def n'_def)
  ultimately show ?thesis by (simp add: links_ok_def)
qed

lemma connect_ok:
  assumes ok: "links_ok n" "rcu_ok n" and fresh: "fresh \<notin> set (nt_rcu n)"
      "str_source (nt_stream n fresh) = None" "str_sink (nt_stream n fresh) = None"
    and free: "free_end n src snk" and res: "aem_stream_connect fresh src snk n = Some (p, n')"
  shows "links_ok n' \<and> rcu_ok n'"
proof -
  let ?a = "src_stream (nt_source n src)" and ?b = "snk_stream (nt_sink n snk)"
  let ?link = "\<lambda>s n. upd_stream s (\<lambda>st. st\<lparr>str_source := Some src, str_sink := Some snk\<rparr>)
      (upd_sink snk (\<lambda>x. x\<lparr>snk_stream := Some s\<rparr>) (upd_source src (\<lambda>x. x\<lparr>src_stream := Some s\<rparr>) n))"
  have l: "src_stream (nt_source n a) = Some y \<longleftrightarrow> str_source (nt_stream n y) = Some a"
      "snk_stream (nt_sink n a) = Some y \<longleftrightarrow> str_sink (nt_stream n y) = Some a" for a y
    using ok(1) by (auto simp: links_ok_def)
  consider "?a \<noteq> None" "?b \<noteq> None" | s where "?a = Some s" "?b = None" | s where "?a = None" "?b = Some s"
    | "?a = None" "?b = None" by (cases ?a; cases ?b; simp)
  then show ?thesis
  proof cases
    case 1
    then show ?thesis using res ok by (auto simp: aem_stream_connect_def Let_def split: if_splits)
  next
    case (2 s)
    have n': "n' = ?link s n" using 2 res by (auto simp: aem_stream_connect_def Let_def split: if_splits)
    have "s \<notin> set (nt_rcu n)" using linked_not_freed [OF ok(2), of s src] l(1) 2 by simp
    moreover have "str_sink (nt_stream n s) = None" using free 2 by (simp add: free_end_def)
    ultimately show ?thesis unfolding n' by (intro link_ok [OF ok]) (use 2 l in auto)
  next
    case (3 s)
    have n': "n' = ?link s n" using 3 res by (auto simp: aem_stream_connect_def Let_def split: if_splits)
    have "s \<notin> set (nt_rcu n)" using linked_not_freed [OF ok(2), of s snk] l(2) 3 by simp
    moreover have "str_source (nt_stream n s) = None" using free 3 by (simp add: free_end_def)
    ultimately show ?thesis unfolding n' by (intro link_ok [OF ok]) (use 3 l in auto)
  next
    case 4
    let ?m = "upd_stream fresh (\<lambda>_. aem_stream_new) n"
    have n': "n' = ?link fresh ?m" using 4 res by (auto simp: aem_stream_connect_def Let_def split: if_splits)
    have pl: "plumbing ?m = plumbing n"
      by (rule plumbing_upd_stream) (use fresh in \<open>simp_all add: aem_stream_new_def\<close>)
    show ?thesis unfolding n'
      by (rule link_ok) (use plumbing_ok [OF pl] ok fresh 4 l in auto)
  qed
qed

text \<open>Without that, the sink that was connected before is left pointing at a stream that no longer
  knows it.\<close>

lemma connect_takes_connected_source:
  assumes "wired n src s old" "idle n s" "snk_stream (nt_sink n new) = None"
  shows "\<exists>n'. aem_stream_connect fresh src new n = Some (Some s, n') \<and>
    snk_stream (nt_sink n' old) = Some s \<and> str_sink (nt_stream n' s) = Some new \<and> \<not> links_ok n'"
proof -
  have ne: "old \<noteq> new" using assms by (auto simp: wired_def)
  then show ?thesis using assms by (auto simp: aem_stream_connect_def wired_def idle_def Let_def links_ok_def)
qed

text \<open>Connecting a source and a sink that are already connected to each other follows a null
  pointer.\<close>

lemma connect_again_crashes:
  "wired n src s snk \<Longrightarrow> aem_stream_connect fresh src snk n = None"
  by (simp add: aem_stream_connect_def wired_def)

text \<open>On a stream whose buffer has never been allocated, \<open>aem_stream_consume_begin\<close> returns a null
  slice, which its callers take for a failure, and leaves the stream in consuming mode: the
  next \<open>aem_stream_provide_begin\<close> aborts.\<close>

lemma consume_unallocated_wedges:
  assumes "wired n src s snk" "idle n s" "sb_s (buf n s) = []"
  shows "\<exists>sl n'. aem_stream_consume_begin snk n = Some (sl, n') \<and> ss_start sl = 0 \<and>
    aem_stream_provide_begin src force n' = None"
  unfolding consume_begin_wired [OF assms(1,2)] using assms
  by (simp add: aem_stringslice_new_str_def buf_addr_def aem_stream_provide_begin_def wired_def)

lemma run_links: "stream_run al n n' \<Longrightarrow> net_ok n \<Longrightarrow> net_ok n'"
proof (induction rule: stream_run.induct)
  case (provide_begin src force n s n')
  then show ?case using data_plumbing(1) plumbing_ok by blast
next
  case (provide_end cb src n n')
  then obtain s where s: "src_stream (nt_source n src) = Some s" by (auto simp: aem_stream_provide_end_def bind_eq_Some_conv)
  let ?n1 = "upd_stream s (\<lambda>st. st\<lparr>str_state := str_state st - 1\<rparr>) n"
  have ok1: "net_ok ?n1" using provide_end.prems by simp
  have "n' = ?n1 \<or> (\<exists>rc. aem_stream_consume cb s ?n1 = Some (rc, n'))"
    using provide_end.hyps s by (auto simp: aem_stream_provide_end_def Let_def split: if_splits)
  then show ?case using callbacks_ok(1) [OF ok1, of cb s] provide_end.IH ok1 by blast
next
  case (consume_begin snk n sl n')
  then show ?case using data_plumbing(2) plumbing_ok by blast
next
  case (consume_end snk sl n n')
  then show ?case using data_plumbing(3) plumbing_ok by blast
next
  case (provide cb s n rc n')
  then show ?case using callbacks_ok(2) [OF provide.prems, of cb s] by blast
next
  case (consume cb s n rc n')
  then show ?case using callbacks_ok(1) [OF consume.prems, of cb s] by blast
next
  case (source_init n a)
  then show ?case using data_plumbing(4) plumbing_ok by blast
next
  case (sink_init n a)
  then show ?case using data_plumbing(5) plumbing_ok by blast
next
  case (connect fresh n src snk p n')
  then show ?case using connect_ok by blast
next
  case (source_detach cb src n n')
  then show ?case using source_detach_ok by blast
next
  case (sink_detach snk n n')
  then show ?case using sink_detach_ok by blast
next
  case (source_dtor cb src n n')
  have d: "net_ok n1" if "aem_stream_source_detach cb (Some src) n = Some n1" for n1
    using source_detach_ok [OF source_dtor.prems _ _ that] source_dtor.IH source_dtor.hyps(2) by blast
  obtain n1 where n1: "net_ok n1" and n': "n' = upd_source src (\<lambda>x. x\<lparr>src_provide := False\<rparr>) n1"
    using source_dtor.hyps(3) source_dtor.prems d
    by (auto simp: aem_stream_source_dtor_def Let_def bind_eq_Some_conv split: if_splits)
  have "plumbing n' = plumbing n1" by (auto simp: n' plumbing_def fun_eq_iff)
  then show ?case using n1 plumbing_ok by blast
next
  case (sink_dtor snk n n')
  then obtain n1 where n1: "net_ok n1" and n': "n' = upd_sink snk (\<lambda>x. x\<lparr>snk_consume := False\<rparr>) n1"
    using sink_detach_ok [where n = n and snk = snk]
    by (auto simp: aem_stream_sink_dtor_def Let_def bind_eq_Some_conv split: if_splits)
  have "plumbing n' = plumbing n1" by (auto simp: n' plumbing_def fun_eq_iff)
  then show ?case using n1 plumbing_ok by blast
qed simp_all

text \<open>The transducer is such a client, whatever its \<open>go\<close> and \<open>on_close\<close> do with the bytes.\<close>

lemma should_provide_run:
  assumes "aem_stream_should_provide p n = Some (ok, n')"
  shows "stream_run al n n'"
  using assms stream_run.refl stream_run.set_flags
  by (auto simp: aem_stream_should_provide_def Let_def split: option.splits if_splits)

lemma set_full_run: "stream_run al n (aem_stream_sink_set_full p full n)"
  using stream_run.refl stream_run.set_flags
  by (auto simp: aem_stream_sink_set_full_def split: option.splits)

lemma propagate_down_run:
  assumes cb: "\<And>k m m'. cb_consume cb k m = Some m' \<Longrightarrow> stream_run al m m'"
    and res: "aem_stream_propagate_down cb down up n = Some (ok, n')"
  shows "stream_run al n n'"
proof -
  obtain b n1 where n1: "aem_stream_should_provide (Some down) n = Some (b, n1)"
    using res by (auto simp: aem_stream_propagate_down_def bind_eq_Some_conv)
  let ?n2 = "aem_stream_sink_set_full up (\<not> b) n1"
  have n2: "stream_run al n ?n2" by (rule stream_run.trans [OF should_provide_run [OF n1] set_full_run])
  have "n' = ?n2 \<or> (\<exists>s rc. aem_stream_consume cb s ?n2 = Some (rc, n'))"
    using res n1 by (auto simp: aem_stream_propagate_down_def bind_eq_Some_conv Let_def split: if_splits)
  moreover have "stream_run al ?n2 n'" if "aem_stream_consume cb s ?n2 = Some (rc, n')" for s rc
    by (rule stream_run.consume [OF cb that])
  ultimately show ?thesis using n2 stream_run.trans by blast
qed

lemma transducer_provide_run:
  assumes cb: "\<And>k m m'. cb_provide cb k m = Some m' \<Longrightarrow> stream_run al m m'"
    and res: "aem_stream_transducer_provide cb tr n = Some n'"
  shows "stream_run al n n'"
proof -
  obtain b n1 where n1: "aem_stream_should_provide (Some tr) n = Some (b, n1)"
    using res by (auto simp: aem_stream_transducer_provide_def aem_stream_propagate_up_def bind_eq_Some_conv)
  let ?n2 = "aem_stream_sink_set_full (Some tr) (\<not> b) n1"
  have n2: "stream_run al n ?n2" by (rule stream_run.trans [OF should_provide_run [OF n1] set_full_run])
  obtain s rc where p: "aem_stream_provide cb s ?n2 = Some (rc, n')"
    using res n1 by (auto simp: aem_stream_transducer_provide_def aem_stream_propagate_up_def bind_eq_Some_conv Let_def)
  show ?thesis by (rule stream_run.trans [OF n2 stream_run.provide [OF cb p]])
qed

lemma transducer_flags_run: "stream_run al n (transducer_flags up down rest n)"
proof -
  have "stream_run al m (if P then upd_stream s (\<lambda>st. st\<lparr>str_flags := f st\<rparr>) m else m)" for m s f P
    using stream_run.refl stream_run.set_flags by (cases P) simp_all
  then show ?thesis unfolding transducer_flags_def Let_def by (rule stream_run.trans) fact
qed

lemma transducer_transfer_run:
  assumes "transducer_transfer al go tr up down ob inp n = Some n'"
  shows "stream_run al n n'"
proof (cases "ss_start inp = 0")
  case True
  then show ?thesis using assms stream_run.refl by (simp add: transducer_transfer_def)
next
  case False
  then obtain b rest app where
    e: "aem_stream_consume_end al tr rest (transducer_flags up down rest ((with_buf ob b n)\<lparr>nt_app := app\<rparr>)) = Some n'"
    using assms by (auto simp: transducer_transfer_def bind_eq_Some_conv Let_def)
  show ?thesis
    by (rule stream_run.trans [OF stream_run.put_bytes stream_run.trans [OF stream_run.client
        stream_run.trans [OF transducer_flags_run stream_run.consume_end [OF e]]]])
qed

lemma transducer_consume_run:
  assumes cb: "\<And>k m m'. cb_consume cb k m = Some m' \<Longrightarrow> stream_run al m m'"
    and oc: "\<And>k m m'. on_close k m = Some m' \<Longrightarrow> stream_run al m m'"
    and res: "aem_stream_transducer_consume al cb on_close go tr n = Some n'"
  shows "stream_run al n n'"
proof (cases "src_stream (nt_source n tr)")
  case None
  then show ?thesis
    using res oc stream_run.refl stream_run.trans [OF stream_run.on_close oc]
    by (auto simp: aem_stream_transducer_consume_def aem_stream_transducer_close_def bind_eq_Some_conv split: if_splits)
next
  case (Some down)
  obtain ok n1 where n1: "aem_stream_propagate_down cb tr (Some tr) n = Some (ok, n1)"
    using res Some by (auto simp: aem_stream_transducer_consume_def bind_eq_Some_conv)
  have r1: "stream_run al n n1" by (rule propagate_down_run [OF cb n1])
  show ?thesis
  proof (cases ok)
    case False
    then show ?thesis using res Some n1 r1 by (auto simp: aem_stream_transducer_consume_def bind_eq_Some_conv)
  next
    case True
    then obtain up p n2 ob inp n3 n4 where
        n2: "aem_stream_provide_begin tr True n1 = Some (p, n2)" and
        n3: "aem_stream_consume_begin tr n2 = Some (inp, n3)" and
        n4: "transducer_transfer al go tr up down ob inp n3 = Some n4" and
        n5: "aem_stream_provide_end cb tr n4 = Some n'"
      using res Some n1 by (auto simp: aem_stream_transducer_consume_def bind_eq_Some_conv)
    show ?thesis
      by (rule stream_run.trans [OF r1 stream_run.trans [OF stream_run.provide_begin [OF n2]
          stream_run.trans [OF stream_run.consume_begin [OF n3] stream_run.trans [OF
          transducer_transfer_run [OF n4] stream_run.provide_end [OF cb n5]]]]])
  qed
qed

lemma reached_links: "stream_reached al n \<Longrightarrow> net_ok n"
proof (induction rule: stream_reached.induct)
  case (start n)
  then show ?case by (auto simp: plumbing_def links_ok_def rcu_ok_def fun_eq_iff)
next
  case (run n n')
  then show ?case using run_links by blast
next
  case (barrier n)
  then show ?case by (simp add: links_ok_def rcu_ok_def)
qed

section \<open>Properties\<close>

lemma writes_fifo:
  assumes "wired n src s snk" "idle n s" "cb_consume cb snk = sink_callback al eats snk"
    and "sb_ready al (buf n s)" "sb_s (buf n s) \<noteq> [] \<or> ws = [] \<or> hd ws \<noteq> []"
      "sb_n (buf n s) + length (concat ws) \<le> 2 ^ 24"
  shows "\<exists>n'. source_writes al cb src ws n = Some n' \<and> wired n' src s snk \<and> idle n' s \<and>
    delivered n' s = delivered n s @ concat ws"
  using assms
proof (induction ws arbitrary: n)
  case Nil
  then show ?case by simp
next
  case (Cons w ws)
  obtain n1 where n1: "source_write al cb src w n = Some n1" "wired n1 src s snk" "idle n1 s"
      "ready al (buf n1 s)" "sb_n (buf n1 s) \<le> sb_n (buf n s) + length w"
      "delivered n1 s = delivered n s @ w"
    using write_fifo [OF Cons.prems(1-4), of w] Cons.prems(5,6) by auto
  have "\<exists>n'. source_writes al cb src ws n1 = Some n' \<and> wired n' src s snk \<and> idle n' s \<and>
      delivered n' s = delivered n1 s @ concat ws"
    by (rule Cons.IH) (use n1 Cons.prems in \<open>auto simp: ready_def\<close>)
  then show ?case using n1 by auto
qed

text \<open>C29: Between a source that writes and a sink that takes as much as it likes of
  what it is shown, a stream is a queue: for any sequence of writes of up to 16 MiB in all, empty
  writes included, and any bites of the sink, no call aborts, the stream is idle again after every
  write, and the bytes the sink has taken followed by those still in the buffer are exactly the
  bytes written, in order. The one exception is an empty write to a stream that has never had any
  bytes: see \<open>consume_unallocated_wedges\<close>.\<close>

theorem stream_is_fifo:
  assumes "wired n src s snk" "idle n s" "cb_consume cb snk = sink_callback al eats snk"
    and "sb_ready al (buf n s)" "sb_s (buf n s) \<noteq> [] \<or> ws = [] \<or> hd ws \<noteq> []"
      "sb_n (buf n s) + length (concat ws) \<le> 2 ^ 24"
  shows "\<exists>n'. source_writes al cb src ws n = Some n' \<and> wired n' src s snk \<and> idle n' s \<and>
    nt_app n' @ sb_out (str_buf (nt_stream n' s)) =
      nt_app n @ sb_out (str_buf (nt_stream n s)) @ concat ws"
  using writes_fifo [OF assms] by (simp add: delivered_def)

text \<open>A network of one source, one transducer and one sink: source 1, stream 10, transducer 2,
  stream 20, sink 3.\<close>

definition demo_stream :: "stringbuf \<Rightarrow> nat \<Rightarrow> nat \<Rightarrow> aem_stream" where
  "demo_stream b src snk = \<lparr>str_buf = b, str_source = Some src, str_sink = Some snk, str_state = 0, str_flags = 0\<rparr>"

definition demo_net :: "u8 list net" where
  "demo_net = \<lparr>
     nt_source = (\<lambda>_. \<lparr>src_stream = None, src_provide = True\<rparr>)
       (1 := \<lparr>src_stream = Some 10, src_provide = True\<rparr>, 2 := \<lparr>src_stream = Some 20, src_provide = True\<rparr>),
     nt_sink = (\<lambda>_. \<lparr>snk_stream = None, snk_consume = True\<rparr>)
       (2 := \<lparr>snk_stream = Some 10, snk_consume = True\<rparr>, 3 := \<lparr>snk_stream = Some 20, snk_consume = True\<rparr>),
     nt_stream = (\<lambda>_. aem_stream_new)
       (10 := demo_stream AEM_STRINGBUF_EMPTY 1 2, 20 := demo_stream AEM_STRINGBUF_EMPTY 2 3),
     nt_rcu = [], nt_on_close = \<lambda>_. False, nt_app = []\<rparr>"

definition demo_sink :: "u8 list callbacks" where
  "demo_sink = \<lparr>cb_provide = \<lambda>_ n. Some n, cb_consume = sink_callback al_all (\<lambda>_. 2)\<rparr>"

lemma sb_room_ready: "sb_ready al_all (sb_room 16)" "sb_s (sb_room 16) \<noteq> []" "sb_n (sb_room 16) = 0"
  by (simp_all add: sb_ready_def sb_free_def sb_inv_def sb_room_def AEM_STRINGBUF_EMPTY_def al_all_def PTRDIFF_MAX_def)

theorem stream_is_fifo_witness:
  "\<exists>n'. source_writes al_all demo_sink 2 [[1, 2, 3], [], [4]] demo_net = Some n' \<and>
     nt_app n' @ sb_out (str_buf (nt_stream n' 20)) = [1, 2, 3, 4]"
proof -
  have "wired demo_net 2 20 3" "idle demo_net 20" "sb_ready al_all (buf demo_net 20)"
    by (simp_all add: wired_def idle_def demo_net_def demo_stream_def)
  moreover have "cb_consume demo_sink 3 = sink_callback al_all (\<lambda>_. 2) 3" by (simp add: demo_sink_def)
  moreover have "sb_n (buf demo_net 20) = 0" "nt_app demo_net = []" "sb_out (buf demo_net 20) = []"
    by (simp_all add: demo_net_def demo_stream_def sb_out_def AEM_STRINGBUF_EMPTY_def)
  ultimately show ?thesis using stream_is_fifo [of demo_net 2 20 3 demo_sink al_all "\<lambda>_. 2" "[[1, 2, 3], [], [4]]"]
    by (auto simp del: source_writes.simps)
qed

lemma writes_pipeline:
  assumes "pipeline al n src up tr down snk" "computes step h" "primed step n up down ws"
    and "cb_consume cb tr = aem_stream_transducer_consume al cb' on_close (translate al step) tr"
      "cb_consume cb' snk = sink_callback al eats snk"
    and "sb_n (buf n up) + length (concat ws) \<le> 2 ^ 24"
      "sb_n (buf n down) + length (h (sb_out (buf n up) @ concat ws)) \<le> 2 ^ 24"
  shows "\<exists>n'. source_writes al cb src ws n = Some n' \<and> pipeline al n' src up tr down snk \<and>
    delivered n' down @ h (sb_out (buf n' up)) = delivered n down @ h (sb_out (buf n up) @ concat ws) \<and>
    (eager step \<and> not_full n down \<and> ws \<noteq> [] \<longrightarrow> sb_out (buf n' up) = [])"
  using assms
proof (induction ws arbitrary: n)
  case Nil
  then show ?case by simp
next
  case (Cons bs ws)
  obtain n1 w where n1: "source_write al cb src bs n = Some n1" "pipeline al n1 src up tr down snk"
      "primed step n1 up down ws" "sb_n (buf n1 up) \<le> sb_n (buf n up) + length bs"
      "sb_n (buf n1 down) \<le> sb_n (buf n down) + length w" "delivered n1 down = delivered n down @ w"
      "\<forall>zs. h (sb_out (buf n up) @ bs @ zs) = w @ h (sb_out (buf n1 up) @ zs)"
      "eager step \<and> not_full n down \<longrightarrow> sb_out (buf n1 up) = [] \<and> not_full n1 down"
    using pipeline_write [OF Cons.prems(1-5), of "concat ws"] Cons.prems(6,7) by auto
  have "\<exists>n'. source_writes al cb src ws n1 = Some n' \<and> pipeline al n' src up tr down snk \<and>
      delivered n' down @ h (sb_out (buf n' up)) = delivered n1 down @ h (sb_out (buf n1 up) @ concat ws) \<and>
      (eager step \<and> not_full n1 down \<and> ws \<noteq> [] \<longrightarrow> sb_out (buf n' up) = [])"
    by (rule Cons.IH) (use n1 Cons.prems in auto)
  then obtain n' where n': "source_writes al cb src ws n1 = Some n'" "pipeline al n' src up tr down snk"
      "delivered n' down @ h (sb_out (buf n' up)) = delivered n1 down @ h (sb_out (buf n1 up) @ concat ws)"
      "eager step \<and> not_full n1 down \<and> ws \<noteq> [] \<longrightarrow> sb_out (buf n' up) = []" by blast
  have "n' = n1" if "ws = []" using n'(1) that by simp
  moreover have "w @ h (sb_out (buf n1 up) @ concat ws) = h (sb_out (buf n up) @ bs @ concat ws)" using n1(7) by simp
  ultimately show ?case using n1(1,6,8) n' by (intro exI [of _ n']) auto
qed

text \<open>C30: A transducer between two streams passes data on as it comes, whatever the
  pieces its \<open>go\<close> works in and however much of its input \<open>go\<close> leaves for later: no write to the
  upstream source aborts, both streams end up idle, and what the downstream sink has taken, followed
  by what waits for it and by the translation of what still waits upstream, is the translation of all
  that was written, in order. If \<open>go\<close> never waits for more input and the sink has not said that it
  is full, nothing stays behind upstream. (\<open>go\<close> is any method whose steps compute a translation
  \<open>h\<close> of the whole stream. The first write has bytes, and the first step writes some, unless the
  blocks of the two streams have already been allocated: see \<open>consume_unallocated_wedges\<close>. At most
  16 MiB go in and come out.)\<close>

theorem transducer_pipeline:
  assumes "pipeline al n src up tr down snk" "computes step h" "primed step n up down ws"
    and "cb_consume cb tr = aem_stream_transducer_consume al cb' on_close (translate al step) tr"
      "cb_consume cb' snk = sink_callback al eats snk"
    and "sb_n (buf n up) + length (concat ws) \<le> 2 ^ 24"
      "sb_n (buf n down) + length (h (sb_out (buf n up) @ concat ws)) \<le> 2 ^ 24"
  shows "\<exists>n'. source_writes al cb src ws n = Some n' \<and> idle n' up \<and> idle n' down \<and>
    nt_app n' @ sb_out (str_buf (nt_stream n' down)) @ h (sb_out (str_buf (nt_stream n' up))) =
      nt_app n @ sb_out (str_buf (nt_stream n down)) @ h (sb_out (str_buf (nt_stream n up)) @ concat ws) \<and>
    (eager step \<and> not_full n down \<and> ws \<noteq> [] \<longrightarrow> sb_out (str_buf (nt_stream n' up)) = [])"
  using writes_pipeline [OF assms] by (auto simp: delivered_def pipeline_def)

text \<open>Pairs of bytes are swapped; a byte without a partner has to wait.\<close>

definition swap_step :: go_step where
  "swap_step fin bs = (case bs of a # b # _ \<Rightarrow> (2, [b, a]) | _ \<Rightarrow> (0, []))"

fun swap_pairs :: "u8 list \<Rightarrow> u8 list" where
  "swap_pairs (a # b # bs) = b # a # swap_pairs bs"
| "swap_pairs bs = []"

lemma swap_computes: "computes swap_step swap_pairs"
  by (auto simp: computes_def swap_step_def split: list.split)

definition demo_chain :: "u8 list callbacks" where
  "demo_chain = \<lparr>cb_provide = \<lambda>_ n. Some n,
     cb_consume = aem_stream_transducer_consume al_all demo_sink (\<lambda>_ n. Some n) (translate al_all swap_step)\<rparr>"

theorem transducer_pipeline_witness:
  "\<exists>n'. source_writes al_all demo_chain 1 [[1, 2, 3], [4, 5]] demo_net = Some n' \<and>
     nt_app n' @ sb_out (str_buf (nt_stream n' 20)) @ swap_pairs (sb_out (str_buf (nt_stream n' 10))) = [2, 1, 4, 3]"
proof -
  have "pipeline al_all demo_net 1 10 2 20 3"
    by (simp add: pipeline_def wired_def idle_def demo_net_def demo_stream_def)
  moreover have "primed swap_step demo_net 10 20 [[1, 2, 3], [4, 5]]"
    by (simp add: primed_def swap_step_def demo_net_def demo_stream_def sb_out_def AEM_STRINGBUF_EMPTY_def)
  moreover have "cb_consume demo_chain 2 =
      aem_stream_transducer_consume al_all demo_sink (\<lambda>_ n. Some n) (translate al_all swap_step) 2"
    by (simp add: demo_chain_def)
  moreover have "cb_consume demo_sink 3 = sink_callback al_all (\<lambda>_. 2) 3" by (simp add: demo_sink_def)
  moreover have "sb_n (buf demo_net 10) = 0" "sb_n (buf demo_net 20) = 0" "nt_app demo_net = []"
      "sb_out (buf demo_net 10) = []" "sb_out (buf demo_net 20) = []"
    by (simp_all add: demo_net_def demo_stream_def sb_out_def AEM_STRINGBUF_EMPTY_def)
  ultimately show ?thesis
    using transducer_pipeline [of al_all demo_net 1 10 2 20 3 swap_step swap_pairs "[[1, 2, 3], [4, 5]]"
        demo_chain demo_sink "\<lambda>_ n. Some n" "\<lambda>_. 2", OF _ swap_computes]
    by (auto simp del: source_writes.simps)
qed

text \<open>C31: However sources, sinks and streams are initialized, connected, detached and
  destroyed, and whatever data flows meanwhile, a source or sink points at a stream exactly when
  that stream points back at it; and a stream that has been handed to \<open>call_rcu\<close> is pointed at by no
  source and no sink and is handed over only once. Methods of the client may do all this too, as
  the library's own transducers and sockets do. Two things are left to the client, since the code
  does not look after them: not to connect a source or a sink whose stream has another end already
  (\<open>connect_takes_connected_source\<close> shows that this breaks the links), and not to let a \<open>consume\<close>
  method detach the very source that is calling it as it detaches.\<close>

theorem stream_links_consistent:
  assumes "stream_reached al n"
  shows "(src_stream (nt_source n src) = Some s \<longleftrightarrow> str_source (nt_stream n s) = Some src) \<and>
    (snk_stream (nt_sink n snk) = Some s \<longleftrightarrow> str_sink (nt_stream n s) = Some snk) \<and>
    (s \<in> set (nt_rcu n) \<longrightarrow> src_stream (nt_source n src) \<noteq> Some s \<and> snk_stream (nt_sink n snk) \<noteq> Some s) \<and>
    distinct (nt_rcu n)"
  using reached_links [OF assms] by (auto simp: links_ok_def rcu_ok_def)

definition bare_net :: "unit net" where
  "bare_net = \<lparr>nt_source = \<lambda>_. \<lparr>src_stream = None, src_provide = True\<rparr>,
     nt_sink = \<lambda>_. \<lparr>snk_stream = None, snk_consume = True\<rparr>, nt_stream = \<lambda>_. aem_stream_new,
     nt_rcu = [], nt_on_close = \<lambda>_. False, nt_app = ()\<rparr>"

text \<open>Connect source 1 with sink 2. When the source detaches, the sink is told and detaches as well:
  stream 7 waits to be freed.\<close>

definition leaving_sink :: "unit callbacks" where
  "leaving_sink = \<lparr>cb_provide = \<lambda>_ n. Some n, cb_consume = \<lambda>k. aem_stream_sink_detach (Some k)\<rparr>"

theorem stream_links_consistent_witness:
  "\<exists>n1 n2 :: unit net. aem_stream_connect 7 1 2 bare_net = Some (Some 7, n1) \<and>
     aem_stream_source_detach leaving_sink (Some 1) n1 = Some n2 \<and>
     nt_rcu n2 = [7] \<and> src_stream (nt_source n2 1) \<noteq> Some 7 \<and> snk_stream (nt_sink n2 2) \<noteq> Some 7"
proof -
  have "stream_reached al_all bare_net"
    by (rule stream_reached.start) (simp add: plumbing_def bare_net_def aem_stream_new_def)
  moreover obtain n1 where n1: "aem_stream_connect 7 1 2 bare_net = Some (Some 7, n1)" "wired n1 1 7 2" "idle n1 7"
      "nt_rcu n1 = []"
    by (auto simp: aem_stream_connect_def bare_net_def aem_stream_new_def Let_def wired_def idle_def)
  ultimately have r1: "stream_reached al_all n1"
    by (intro stream_reached.run [OF _ stream_run.connect [of 7 bare_net 1 2 "Some 7" n1]])
      (auto simp: bare_net_def aem_stream_new_def free_end_def)
  obtain n2 where n2: "aem_stream_source_detach leaving_sink (Some 1) n1 = Some n2" "nt_rcu n2 = [7]"
    using n1 by (auto simp: leaving_sink_def aem_stream_source_detach_def aem_stream_consume_def
        aem_stream_sink_detach_def aem_stream_free_def wired_def idle_def Let_def)
  have "stream_run al_all m m' \<and> src_stream (nt_source m' 1) = src_stream (nt_source m 1)"
    if "cb_consume leaving_sink k m = Some m'" for k m m'
    using that stream_run.sink_detach [of k m m']
    by (auto simp: leaving_sink_def aem_stream_sink_detach_def aem_stream_free_def Let_def split: option.splits if_splits)
  then have "stream_reached al_all n2"
    by (intro stream_reached.run [OF r1 stream_run.source_detach [OF _ _ n2(1)]]) blast+
  then show ?thesis
    using stream_links_consistent [of al_all n2 1 7 2] n1(1) n2 by auto
qed

end
