(* ===== verification/Aem_Format.thy ===== *)
theory Aem_Format
  imports Aem_Base
begin

text \<open>
  The conversions of \<open>printf\<close> that the code uses, as the bytes they print: \<open>%d\<close>, \<open>%zd\<close>, \<open>%x\<close>, \<open>%#x\<close>,
  and the zero-padded \<open>%02x\<close>, \<open>%04x\<close>, ... The formatting functions themselves take the finished
  text (see \<open>aem_stringbuf_vprintf\<close>).
\<close>

definition digit_char :: "nat \<Rightarrow> u8" where
  "digit_char d = word_of_nat (if d < 10 then 48 + d else 87 + d)"

function digits_in :: "nat \<Rightarrow> nat \<Rightarrow> u8 list" where
  "digits_in b n = (if b < 2 \<or> n < b then [digit_char n] else digits_in b (n div b) @ [digit_char (n mod b)])"
  by pat_completeness auto
termination
  by (relation "measure snd") auto

declare digits_in.simps [simp del]

definition c_udec :: "nat \<Rightarrow> u8 list" where "c_udec n = digits_in 10 n"
definition c_dec :: "int \<Rightarrow> u8 list" where
  "c_dec i = (if i < 0 then cstr ''-'' else []) @ digits_in 10 (nat \<bar>i\<bar>)"
definition c_hex :: "nat \<Rightarrow> u8 list" where "c_hex n = digits_in 16 n"
definition c_hex_alt :: "nat \<Rightarrow> u8 list" where
  "c_hex_alt n = (if n = 0 then [] else cstr ''0x'') @ digits_in 16 n"
definition zero_pad :: "nat \<Rightarrow> u8 list \<Rightarrow> u8 list" where
  "zero_pad w ds = replicate (w - length ds) 48 @ ds"

text \<open>The digits denote the number.\<close>

definition digit_value :: "u8 \<Rightarrow> nat" where
  "digit_value c = (if unat c < 58 then unat c - 48 else unat c - 87)"

lemma digit_value_char: "d < 16 \<Longrightarrow> digit_value (digit_char d) = d"
  by (auto simp: digit_value_def digit_char_def unat_word_ariths unat_of_nat take_bit_eq_mod)

lemma digits_denote:
  assumes "2 \<le> b" "b \<le> 16"
  shows "foldl (\<lambda>a c. a * b + digit_value c) 0 (digits_in b n) = n"
proof (induction n rule: less_induct)
  case (less n)
  show ?case
  proof (cases "n < b")
    case True
    then show ?thesis using assms by (subst digits_in.simps) (simp add: digit_value_char)
  next
    case False
    have "n mod b < b" by (rule mod_less_divisor) (use assms in simp)
    then have "n mod b < 16" using assms(2) by (rule less_le_trans)
    moreover have "n div b < n" using False assms by auto
    ultimately show ?thesis using less [of "n div b"] False assms
      by (subst digits_in.simps) (simp add: digit_value_char)
  qed
qed

end
