(* ===== verification/Aem_Poll.thy ===== *)
theory Aem_Poll
  imports Aem_Stringbuf Aem_Format
begin

text \<open>
  \<open>poll.h\<close> and \<open>poll.c\<close>: the event loop. The event structures belong to the client and live in a
  store; the loop keeps an array of \<open>struct pollfd\<close> for the system call and beside it the array
  of the events they come from. The system call \<open>poll\<close> and the events' callbacks are parameters.
  \<open>None\<close> is a failed \<open>aem_assert\<close>, an access outside the arrays or a loop that does not end.
  The system headers are those of \<open>-std=c99\<close>, where \<open>POLLRDHUP\<close> is not defined.
\<close>

type_synonym u16 = "16 word"

definition POLLIN :: u16 where "POLLIN = 0x01"
definition POLLPRI :: u16 where "POLLPRI = 0x02"
definition POLLOUT :: u16 where "POLLOUT = 0x04"
definition POLLERR :: u16 where "POLLERR = 0x08"
definition POLLHUP :: u16 where "POLLHUP = 0x10"
definition POLLNVAL :: u16 where "POLLNVAL = 0x20"

text \<open>\<open>on_event\<close> is set, or \<open>NULL\<close>.\<close>
record poll_event =
  ev_on_event :: bool
  ev_i :: int
  ev_fd :: int
  ev_events :: u16
  ev_revents :: u16

record pollfd =
  pfd_fd :: int
  pfd_events :: u16
  pfd_revents :: u16

record aem_poll =
  pl_n :: nat
  pl_maxn :: nat
  pl_fds :: "pollfd list"
  pl_evts :: "nat ptr list"
  pl_rc :: int

record 'app evloop =
  lp_poll :: aem_poll
  lp_ev :: "nat \<Rightarrow> poll_event"
  lp_app :: 'app

definition upd_poll :: "(aem_poll \<Rightarrow> aem_poll) \<Rightarrow> 'app evloop \<Rightarrow> 'app evloop" where
  "upd_poll f l = l\<lparr>lp_poll := f (lp_poll l)\<rparr>"

definition upd_ev :: "nat \<Rightarrow> (poll_event \<Rightarrow> poll_event) \<Rightarrow> 'app evloop \<Rightarrow> 'app evloop" where
  "upd_ev e f l = l\<lparr>lp_ev := (lp_ev l)(e := f (lp_ev l e))\<rparr>"

text \<open>Reading an array.\<close>
definition at :: "'a list \<Rightarrow> nat \<Rightarrow> 'a option" where
  "at xs i = (if i < length xs then Some (xs ! i) else None)"

section \<open>Construction\<close>

definition aem_poll_event_init :: "poll_event" where
  "aem_poll_event_init = \<lparr>ev_on_event = False, ev_i = -1, ev_fd = -1, ev_events = 0, ev_revents = 0\<rparr>"

text \<open>The event after the call, and the bits of \<open>event\<close> that were pending.\<close>
definition aem_poll_event_check :: "poll_event \<Rightarrow> u16 \<Rightarrow> u16 \<times> poll_event" where
  "aem_poll_event_check evt event =
     (ev_revents evt AND event, evt\<lparr>ev_revents := ev_revents evt AND NOT event\<rparr>)"

text \<open>A \<open>struct pollfd\<close> and a pointer have eight bytes.\<close>
definition poll_block :: "'a allocator \<Rightarrow> 'a list \<Rightarrow> nat \<Rightarrow> 'a list" where
  "poll_block al old k =
     (let bytes = sz (k * 8)
      in if alloc_granted al bytes then realloc_content al old (bytes div 8) else [])"

definition aem_poll_init :: "pollfd allocator \<Rightarrow> nat ptr allocator \<Rightarrow> aem_poll" where
  "aem_poll_init fa ea =
     \<lparr>pl_n = 0, pl_maxn = 8, pl_fds = poll_block fa [] 8, pl_evts = poll_block ea [] 8, pl_rc = 0\<rparr>"

text \<open>Destruction frees both arrays and leaves their pointers dangling.\<close>
definition aem_poll_dtor :: "aem_poll \<Rightarrow> aem_poll" where
  "aem_poll_dtor p = p\<lparr>pl_maxn := 0, pl_fds := [], pl_evts := []\<rparr>"

section \<open>Registration\<close>

definition aem_poll_event_verify :: "'app evloop \<Rightarrow> nat \<Rightarrow> unit option" where
  "aem_poll_event_verify l i =
     do { pf \<leftarrow> at (pl_fds (lp_poll l)) i;
          p \<leftarrow> at (pl_evts (lp_poll l)) i;
          e \<leftarrow> p;
          let evt = lp_ev l e;
          if ev_i evt \<ge> 0 \<and> c_size (ev_i evt) = i \<and> ev_fd evt \<ge> 0 \<and> pfd_fd pf = ev_fd evt \<and>
             pfd_events pf = ev_events evt
          then Some () else None }"

definition aem_poll_resize :: "pollfd allocator \<Rightarrow> nat ptr allocator \<Rightarrow> aem_poll \<Rightarrow> aem_poll option" where
  "aem_poll_resize fa ea p =
     (let dbl = sz (pl_n p * 2);
          maxn = (if dbl < 8 then 8 else dbl)
      in if maxn = pl_maxn p then Some p
         else if \<not> sz (pl_n p + 1) \<le> maxn then None
         else let fds = poll_block fa (pl_fds p) maxn;
                  evts = poll_block ea (pl_evts p) maxn
              in if fds = [] \<or> evts = [] then None
                 else Some (p\<lparr>pl_maxn := maxn, pl_fds := fds, pl_evts := evts\<rparr>))"

definition aem_poll_assign :: "nat \<Rightarrow> 'app evloop \<Rightarrow> 'app evloop option" where
  "aem_poll_assign e l =
     (let evt = lp_ev l e; p = lp_poll l; i = c_size (ev_i evt)
      in if 0 \<le> ev_i evt \<and> i < pl_n p \<and> i < length (pl_fds p) \<and> i < length (pl_evts p) then
           Some (l\<lparr>lp_poll := p\<lparr>
             pl_fds := (pl_fds p)[i := \<lparr>pfd_fd = ev_fd evt, pfd_events = ev_events evt, pfd_revents = 0\<rparr>],
             pl_evts := (pl_evts p)[i := Some e]\<rparr>\<rparr>)
         else None)"

definition aem_poll_add ::
  "pollfd allocator \<Rightarrow> nat ptr allocator \<Rightarrow> nat \<Rightarrow> 'app evloop \<Rightarrow> (int \<times> 'app evloop) option" where
  "aem_poll_add fa ea e l =
     (if ev_fd (lp_ev l e) < 0 then Some (-1, l)
      else do {
        p \<leftarrow> (if pl_n (lp_poll l) \<ge> pl_maxn (lp_poll l) then aem_poll_resize fa ea (lp_poll l)
             else Some (lp_poll l));
        if pl_maxn p = 0 \<or> ev_i (lp_ev l e) \<noteq> -1 then None
        else do {
          let i = pl_n p;
          let l1 = l\<lparr>lp_poll := p\<lparr>pl_n := sz (i + 1)\<rparr>\<rparr>;
          l2 \<leftarrow> aem_poll_assign e (upd_ev e (\<lambda>evt. evt\<lparr>ev_i := c_ssize i\<rparr>) l1);
          Some (ev_i (lp_ev l2 e), l2) } })"

text \<open>The last event moves to the slot \<open>i\<close>, whose event has gone.\<close>
definition poll_move_last :: "nat \<Rightarrow> 'app evloop \<Rightarrow> 'app evloop option" where
  "poll_move_last i l =
     (let k = pl_n (lp_poll l) - 1
      in if i = k then Some l
         else do {
           p \<leftarrow> at (pl_evts (lp_poll l)) k;
           lst \<leftarrow> p;
           if 0 \<le> ev_i (lp_ev l lst) \<and> c_size (ev_i (lp_ev l lst)) = k then
             aem_poll_assign lst (upd_ev lst (\<lambda>evt. evt\<lparr>ev_i := c_ssize i\<rparr>) l)
           else None })"

definition aem_poll_del ::
  "pollfd allocator \<Rightarrow> nat ptr allocator \<Rightarrow> nat \<Rightarrow> 'app evloop \<Rightarrow> (int \<times> 'app evloop) option" where
  "aem_poll_del fa ea e l =
     (if ev_i (lp_ev l e) = -1 then Some (-1, l)
      else if \<not> 0 \<le> ev_i (lp_ev l e) then None
      else do {
        let i = c_size (ev_i (lp_ev l e));
        if \<not> i < pl_n (lp_poll l) \<or> at (pl_evts (lp_poll l)) i \<noteq> Some (Some e) then None
        else do {
          l1 \<leftarrow> poll_move_last i (upd_ev e (\<lambda>evt. evt\<lparr>ev_i := -1\<rparr>) l);
          let p = (lp_poll l1)\<lparr>pl_n := pl_n (lp_poll l1) - 1\<rparr>;
          p1 \<leftarrow> (if sz (pl_n p * 8) \<le> pl_maxn p then aem_poll_resize fa ea p else Some p);
          Some (0, l1\<lparr>lp_poll := p1\<rparr>) } })"

text \<open>The index of the \<open>struct pollfd\<close> that belongs to an event.\<close>
definition aem_poll_get_pollfd :: "nat ptr \<Rightarrow> 'app evloop \<Rightarrow> nat ptr option" where
  "aem_poll_get_pollfd q l =
     (case q of
        None \<Rightarrow> Some None
      | Some e \<Rightarrow>
          if ev_i (lp_ev l e) = -1 then Some None
          else let i = c_size (ev_i (lp_ev l e))
               in if i < pl_n (lp_poll l) \<and> at (pl_evts (lp_poll l)) i = Some (Some e)
                  then Some (Some i) else None)"

text \<open>Storing into a \<open>struct pollfd\<close>.\<close>
definition upd_pollfd :: "nat \<Rightarrow> (pollfd \<Rightarrow> pollfd) \<Rightarrow> 'app evloop \<Rightarrow> 'app evloop option" where
  "upd_pollfd i f l =
     (if i < length (pl_fds (lp_poll l)) then
        Some (upd_poll (\<lambda>p. p\<lparr>pl_fds := (pl_fds p)[i := f (pl_fds p ! i)]\<rparr>) l)
      else None)"

definition aem_poll_mod :: "nat \<Rightarrow> 'app evloop \<Rightarrow> 'app evloop option" where
  "aem_poll_mod e l =
     (if ev_i (lp_ev l e) < 0 then Some l
      else do {
        q \<leftarrow> aem_poll_get_pollfd (Some e) l;
        i \<leftarrow> q;
        upd_pollfd i (\<lambda>pf. pf\<lparr>pfd_fd := ev_fd (lp_ev l e), pfd_events := ev_events (lp_ev l e)\<rparr>) l })"

text \<open>The check of a debugging build.\<close>
definition aem_poll_verify :: "'app evloop \<Rightarrow> unit option" where
  "aem_poll_verify l =
     (if \<forall>i \<in> set [0..<pl_n (lp_poll l)]. aem_poll_event_verify l i = Some () then Some () else None)"

section \<open>Waiting and dispatching\<close>

text \<open>The system call gives its return value and the \<open>revents\<close> of the first entries.\<close>
definition set_revents :: "(pollfd \<Rightarrow> u16) \<Rightarrow> nat \<Rightarrow> pollfd list \<Rightarrow> pollfd list" where
  "set_revents f n fds = map (\<lambda>pf. pf\<lparr>pfd_revents := f pf\<rparr>) (take n fds) @ drop n fds"

definition aem_poll_wait ::
  "bool \<Rightarrow> (pollfd list \<Rightarrow> int \<times> u16 list) \<Rightarrow> 'app evloop \<Rightarrow> (int \<times> 'app evloop) option" where
  "aem_poll_wait debug sys_poll l =
     do { (if debug then aem_poll_verify l else Some ());
          let p = lp_poll l;
          let (rc, rev) = sys_poll (take (pl_n p) (pl_fds p));
          let fds = map2 (\<lambda>pf r. pf\<lparr>pfd_revents := r\<rparr>) (take (pl_n p) (pl_fds p)) rev;
          let p1 = p\<lparr>pl_fds := fds @ drop (length fds) (pl_fds p), pl_rc := rc\<rparr>;
          Some (rc, l\<lparr>lp_poll := p1\<rparr>) }"

text \<open>One round of the inner loop at the slot \<open>i\<close>: what is left to do, and the next slot.\<close>

definition process_called ::
  "pollfd allocator \<Rightarrow> nat ptr allocator \<Rightarrow> (nat \<Rightarrow> 'app evloop \<Rightarrow> 'app evloop option) \<Rightarrow>
     nat \<Rightarrow> nat \<Rightarrow> u16 \<Rightarrow> 'app evloop \<Rightarrow> (nat \<times> 'app evloop) option" where
  "process_called fa ea on_event i e revents l =
     do { l1 \<leftarrow> (if ev_on_event (lp_ev l e) then on_event e l else Some l);
          l2 \<leftarrow> (if revents AND POLLHUP \<noteq> 0 \<and> ev_i (lp_ev l1 e) \<noteq> -1
                then map_option snd (aem_poll_del fa ea e l1) else Some l1);
          if ev_i (lp_ev l2 e) = -1 then Some (i, l2)
          else do {
            let k = c_size (ev_i (lp_ev l2 e));
            l3 \<leftarrow> upd_pollfd k (\<lambda>pf. pf\<lparr>pfd_revents := 0\<rparr>) l2;
            if at (pl_evts (lp_poll l3)) k \<noteq> Some (Some e) then None
            else do {
              aem_poll_event_verify l3 k;
              Some (if k \<noteq> i then i else i + 1, l3) } } }"

definition process_slot ::
  "pollfd allocator \<Rightarrow> nat ptr allocator \<Rightarrow> (nat \<Rightarrow> 'app evloop \<Rightarrow> 'app evloop option) \<Rightarrow>
     nat \<Rightarrow> int \<Rightarrow> 'app evloop \<Rightarrow> (nat \<times> int \<times> 'app evloop) option" where
  "process_slot fa ea on_event i rc l =
     do { aem_poll_event_verify l i;
          e \<leftarrow> pl_evts (lp_poll l) ! i;
          let revents = pfd_revents (pl_fds (lp_poll l) ! i);
          let l1 = upd_ev e (\<lambda>evt. evt\<lparr>ev_revents := revents\<rparr>) l;
          if revents = 0 then Some (i + 1, rc, l1)
          else do {
            (i1, l2) \<leftarrow> process_called fa ea on_event i e revents l1;
            Some (i1, rc - 1, l2) } }"

partial_function (option) process_for ::
  "pollfd allocator \<Rightarrow> nat ptr allocator \<Rightarrow> (nat \<Rightarrow> 'app evloop \<Rightarrow> 'app evloop option) \<Rightarrow>
     nat \<Rightarrow> int \<Rightarrow> 'app evloop \<Rightarrow> (int \<times> 'app evloop) option" where
  "process_for fa ea on_event i rc l =
     (if i < pl_n (lp_poll l) then do {
        (i1, rc1, l1) \<leftarrow> process_slot fa ea on_event i rc l;
        process_for fa ea on_event i1 rc1 l1 }
      else Some (rc, l))"

partial_function (option) process_rounds ::
  "pollfd allocator \<Rightarrow> nat ptr allocator \<Rightarrow> (nat \<Rightarrow> 'app evloop \<Rightarrow> 'app evloop option) \<Rightarrow>
     int \<Rightarrow> 'app evloop \<Rightarrow> (int \<times> 'app evloop) option" where
  "process_rounds fa ea on_event rc_orig l =
     do { (rc, l1) \<leftarrow> process_for fa ea on_event 0 rc_orig l;
          if rc = rc_orig \<or> \<not> rc > 0 then Some (rc, l1)
          else process_rounds fa ea on_event rc l1 }"

declare process_for.simps [code] process_rounds.simps [code]

definition aem_poll_process ::
  "pollfd allocator \<Rightarrow> nat ptr allocator \<Rightarrow> (nat \<Rightarrow> 'app evloop \<Rightarrow> 'app evloop option) \<Rightarrow>
     'app evloop \<Rightarrow> (int \<times> 'app evloop) option" where
  "aem_poll_process fa ea on_event l =
     (if pl_rc (lp_poll l) < 0 then Some (pl_rc (lp_poll l), l)
      else process_rounds fa ea on_event (pl_rc (lp_poll l)) l)"

definition aem_poll_poll ::
  "pollfd allocator \<Rightarrow> nat ptr allocator \<Rightarrow> (nat \<Rightarrow> 'app evloop \<Rightarrow> 'app evloop option) \<Rightarrow> bool \<Rightarrow>
     (pollfd list \<Rightarrow> int \<times> u16 list) \<Rightarrow> 'app evloop \<Rightarrow> (int \<times> 'app evloop) option" where
  "aem_poll_poll fa ea on_event debug sys_poll l =
     do { (_, l1) \<leftarrow> aem_poll_wait debug sys_poll l;
          aem_poll_process fa ea on_event l1 }"

definition aem_poll_hup_all ::
  "pollfd allocator \<Rightarrow> nat ptr allocator \<Rightarrow> (nat \<Rightarrow> 'app evloop \<Rightarrow> 'app evloop option) \<Rightarrow> bool \<Rightarrow>
     'app evloop \<Rightarrow> 'app evloop option" where
  "aem_poll_hup_all fa ea on_event debug l =
     do { (if debug then aem_poll_verify l else Some ());
          let p = lp_poll l;
          if \<not> pl_n p \<le> length (pl_fds p) then None
          else map_option snd (aem_poll_process fa ea on_event (l\<lparr>lp_poll := p\<lparr>
            pl_fds := set_revents (\<lambda>pf. pfd_revents pf OR POLLHUP) (pl_n p) (pl_fds p),
            pl_rc := c_int (int (pl_n p))\<rparr>\<rparr>)) }"

section \<open>Printing\<close>

definition event_bit_names :: "(u16 \<times> string) list" where
  "event_bit_names = [(POLLIN, ''POLLIN''), (POLLPRI, ''POLLPRI''), (POLLOUT, ''POLLOUT''),
     (POLLERR, ''POLLERR''), (POLLHUP, ''POLLHUP''), (POLLNVAL, ''POLLNVAL'')]"

text \<open>One \<open>APPEND_REVENTS_STR\<close> after the other, threading \<open>first\<close> and \<open>revents\<close>.\<close>
fun append_revents :: "u8 allocator \<Rightarrow> (u16 \<times> string) list \<Rightarrow> bool \<Rightarrow> u16 \<Rightarrow> stringbuf \<Rightarrow> (bool \<times> u16 \<times> stringbuf) option" where
  "append_revents al [] fst_one r b = Some (fst_one, r, b)"
| "append_revents al ((m, name) # names) fst_one r b =
     (if r AND m \<noteq> 0 then do {
        b1 \<leftarrow> (if \<not> fst_one then aem_stringbuf_puts al b (Some (cstr '' | '')) else Some b);
        b2 \<leftarrow> aem_stringbuf_puts al b1 (Some (cstr name));
        append_revents al names False (r AND NOT m) b2 }
      else append_revents al names fst_one r b)"

text \<open>What is left is printed as the \<open>int\<close> it is promoted to.\<close>
definition aem_poll_print_event_bits :: "u8 allocator \<Rightarrow> stringbuf \<Rightarrow> u16 \<Rightarrow> stringbuf option" where
  "aem_poll_print_event_bits al out revents =
     do { (fst_one, r, b) \<leftarrow> append_revents al event_bit_names True revents out;
          (fst_one, b) \<leftarrow> (if r \<noteq> 0 then do {
             b1 \<leftarrow> (if \<not> fst_one then aem_stringbuf_puts al b (Some (cstr '' | '')) else Some b);
             b2 \<leftarrow> aem_stringbuf_vprintf al b1 (Some (c_hex_alt (unat (scast r :: u32))));
             Some (False, b2) }
           else Some (fst_one, b));
          if fst_one then aem_stringbuf_puts al b (Some (cstr ''0'')) else Some b }"

definition aem_poll_event_dump :: "u8 allocator \<Rightarrow> stringbuf \<Rightarrow> poll_event \<Rightarrow> stringbuf option" where
  "aem_poll_event_dump al out evt =
     do { b1 \<leftarrow> aem_stringbuf_vprintf al out (Some (cstr ''fd '' @ c_dec (ev_fd evt) @ cstr '': events = ''));
          b2 \<leftarrow> aem_poll_print_event_bits al b1 (ev_events evt);
          b3 \<leftarrow> aem_stringbuf_puts al b2 (Some (cstr '', revents = ''));
          aem_poll_print_event_bits al b3 (ev_revents evt) }"

text \<open>The text: the names of the bits that are set, then the rest in hexadecimal.\<close>

fun bits_text :: "(u16 \<times> string) list \<Rightarrow> u16 \<Rightarrow> u8 list list" where
  "bits_text [] r = (if r \<noteq> 0 then [c_hex_alt (unat (scast r :: u32))] else [])"
| "bits_text ((m, name) # names) r =
     (if r AND m \<noteq> 0 then cstr name # bits_text names (r AND NOT m) else bits_text names r)"

fun bars :: "u8 list list \<Rightarrow> u8 list" where
  "bars [] = []"
| "bars [t] = t"
| "bars (t # ts) = t @ cstr '' | '' @ bars ts"

text \<open>What follows a piece of text: a separator before each further one.\<close>
definition more_bars :: "bool \<Rightarrow> u8 list list \<Rightarrow> u8 list" where
  "more_bars fst_one ts = (if fst_one then bars ts else concat (map (\<lambda>t. cstr '' | '' @ t) ts))"

lemma bars_Cons: "bars (t # ts) = t @ concat (map (\<lambda>t. cstr '' | '' @ t) ts)"
  by (induction ts arbitrary: t) auto

lemma more_bars_Cons:
  "more_bars fst_one (t # ts) = (if fst_one then [] else cstr '' | '') @ t @ more_bars False ts"
  by (cases fst_one) (simp_all add: more_bars_def bars_Cons)

lemma separator_appends:
  "appends al (\<lambda>b. if \<not> fst_one then aem_stringbuf_puts al b (Some (cstr '' | '')) else Some b)
     (if fst_one then [] else cstr '' | '')"
  using puts_appends by (cases fst_one) simp_all

lemma bits_tail_appends:
  "appends al (\<lambda>b. Option.bind (append_revents al names fst_one r b) (\<lambda>(fst_one, r, b).
      Option.bind (if r \<noteq> 0 then do {
             b1 \<leftarrow> (if \<not> fst_one then aem_stringbuf_puts al b (Some (cstr '' | '')) else Some b);
             b2 \<leftarrow> aem_stringbuf_vprintf al b1 (Some (c_hex_alt (unat (scast r :: u32))));
             Some (False, b2) }
           else Some (fst_one, b))
        (\<lambda>(fst_one, b). if fst_one then aem_stringbuf_puts al b (Some (cstr ''0'')) else Some b)))
     (if fst_one \<and> bits_text names r = [] then cstr ''0'' else more_bars fst_one (bits_text names r))"
proof (induction names arbitrary: fst_one r)
  case Nil
  show ?case
  proof (cases "r = 0")
    case True
    then show ?thesis using puts_appends by (cases fst_one) (simp_all add: more_bars_def)
  next
    case False
    have "appends al (\<lambda>b. Option.bind (if \<not> fst_one then aem_stringbuf_puts al b (Some (cstr '' | '')) else Some b)
        (\<lambda>b. aem_stringbuf_vprintf al b (Some (c_hex_alt (unat (scast r :: u32))))))
      ((if fst_one then [] else cstr '' | '') @ c_hex_alt (unat (scast r :: u32)))"
      by (rule appends_then [OF separator_appends vprintf_appends])
    then show ?thesis using False by (cases fst_one) (simp_all add: more_bars_Cons, simp_all add: more_bars_def)
  qed
next
  case (Cons nm names)
  obtain m name where nm: "nm = (m, name)" by fastforce
  show ?case
  proof (cases "r AND m = 0")
    case True
    then have "bits_text (nm # names) r = bits_text names r"
      "append_revents al (nm # names) fst_one r b = append_revents al names fst_one r b" for b
      by (simp_all add: nm)
    then show ?thesis using Cons.IH [of fst_one r] by (simp only:)
  next
    case False
    note step = appends_then [OF separator_appends [of al fst_one] appends_then [OF puts_appends [of al "cstr name"]
          Cons.IH [of False "r AND NOT m"]]]
    then show ?thesis using False nm by (simp add: more_bars_Cons)
  qed
qed

lemma print_event_bits_appends:
  "appends al (\<lambda>b. aem_poll_print_event_bits al b r)
     (if bits_text event_bit_names r = [] then cstr ''0'' else bars (bits_text event_bit_names r))"
  using bits_tail_appends [of al event_bit_names True r]
  unfolding aem_poll_print_event_bits_def more_bars_def if_True simp_thms .


section \<open>The invariant of the event loop\<close>

text \<open>A slot holds an event that points back at it, and the entry for the system call mirrors it.\<close>

definition slot_ok :: "'app evloop \<Rightarrow> nat \<Rightarrow> bool" where
  "slot_ok l i \<longleftrightarrow> (\<exists>e. pl_evts (lp_poll l) ! i = Some e \<and> ev_i (lp_ev l e) = int i \<and> 0 \<le> ev_fd (lp_ev l e) \<and>
     pfd_fd (pl_fds (lp_poll l) ! i) = ev_fd (lp_ev l e) \<and>
     pfd_events (pl_fds (lp_poll l) ! i) = ev_events (lp_ev l e))"

definition registered_at :: "'app evloop \<Rightarrow> nat \<Rightarrow> nat \<Rightarrow> bool" where
  "registered_at l e i \<longleftrightarrow> i < pl_n (lp_poll l) \<and> ev_i (lp_ev l e) = int i \<and> pl_evts (lp_poll l) ! i = Some e"

definition arrays_ok :: "aem_poll \<Rightarrow> bool" where
  "arrays_ok p \<longleftrightarrow> pl_n p \<le> pl_maxn p \<and> length (pl_fds p) = pl_maxn p \<and> length (pl_evts p) = pl_maxn p \<and>
     8 \<le> pl_maxn p \<and> pl_maxn p < 2 ^ 60 \<and> pl_maxn p \<le> max 8 (8 * pl_n p)"

definition loop_ok :: "'app evloop \<Rightarrow> bool" where
  "loop_ok l \<longleftrightarrow> arrays_ok (lp_poll l) \<and> (\<forall>i < pl_n (lp_poll l). slot_ok l i) \<and>
     (\<forall>e. ev_i (lp_ev l e) \<noteq> -1 \<longrightarrow> (\<exists>i. registered_at l e i))"

lemma upd_ev_simps [simp]:
  "lp_poll (upd_ev e f l) = lp_poll l" "lp_ev (upd_ev e f l) = (lp_ev l)(e := f (lp_ev l e))"
  "lp_app (upd_ev e f l) = lp_app l"
  by (simp_all add: upd_ev_def)

lemma at_Some [simp]: "at xs i = Some x \<longleftrightarrow> i < length xs \<and> xs ! i = x"
  by (simp add: at_def)

lemma arrays_okD:
  assumes "arrays_ok p"
  shows "pl_n p \<le> pl_maxn p" "length (pl_fds p) = pl_maxn p" "length (pl_evts p) = pl_maxn p"
    "8 \<le> pl_maxn p" "pl_maxn p < 2 ^ 60" "pl_n p < 2 ^ 60" "pl_maxn p \<le> max 8 (8 * pl_n p)"
  using assms by (auto simp: arrays_ok_def)

lemma verify_ok:
  assumes "arrays_ok (lp_poll l)" "i < pl_n (lp_poll l)" "slot_ok l i"
  shows "aem_poll_event_verify l i = Some ()"
proof -
  have "i < 2 ^ 60" "i < pl_maxn (lp_poll l)" using arrays_okD(1,6) [OF assms(1)] assms(2) by auto
  then show ?thesis using assms arrays_okD(2,3) [OF assms(1)]
    by (auto simp: aem_poll_event_verify_def slot_ok_def Let_def at_def)
qed

lemma poll_block_granted:
  assumes "k < 2 ^ 61" "0 < k" "poll_block al old k \<noteq> []"
  shows "poll_block al old k = realloc_content al old k" "k < 2 ^ 60"
proof -
  have sz: "sz (k * 8) = k * 8" using assms(1) by simp
  have "alloc_granted al (k * 8)"
    using assms(3) unfolding poll_block_def sz Let_def by (auto split: if_splits)
  then show "poll_block al old k = realloc_content al old k" "k < 2 ^ 60"
    by (simp_all add: poll_block_def sz alloc_granted_def PTRDIFF_MAX_def)
qed

lemma resize_ok:
  assumes res: "aem_poll_resize fa ea p = Some p'"
    and p: "pl_n p \<le> pl_maxn p" "length (pl_fds p) = pl_maxn p" "length (pl_evts p) = pl_maxn p"
      "8 \<le> pl_maxn p" "pl_maxn p < 2 ^ 60"
  shows "arrays_ok p'" "pl_n p' = pl_n p" "pl_rc p' = pl_rc p" "pl_n p < pl_maxn p'"
    "take (pl_n p) (pl_fds p') = take (pl_n p) (pl_fds p)" "take (pl_n p) (pl_evts p') = take (pl_n p) (pl_evts p)"
proof -
  define k where "k = (if pl_n p * 2 < 8 then 8 else pl_n p * 2)"
  have k: "pl_n p < k" "k < 2 ^ 61" "8 \<le> k" "k \<le> max 8 (8 * pl_n p)" using p by (auto simp: k_def)
  have sz: "sz (pl_n p * 2) = pl_n p * 2" using p by simp
  show "arrays_ok p'" "pl_n p' = pl_n p" "pl_rc p' = pl_rc p" "pl_n p < pl_maxn p'"
    "take (pl_n p) (pl_fds p') = take (pl_n p) (pl_fds p)" "take (pl_n p) (pl_evts p') = take (pl_n p) (pl_evts p)"
    using res k p poll_block_granted [OF k(2), of fa "pl_fds p"] poll_block_granted [OF k(2), of ea "pl_evts p"]
    unfolding aem_poll_resize_def sz Let_def k_def [symmetric]
    by (auto simp: arrays_ok_def take_realloc_content split: if_splits)
qed

lemma poll_block_grant:
  assumes "k * 8 \<le> PTRDIFF_MAX" "al_ok al (k * 8)" "0 < k"
  shows "poll_block al old k = realloc_content al old k" "poll_block al old k \<noteq> []"
proof -
  have sz: "sz (k * 8) = k * 8" using assms(1) by (simp add: PTRDIFF_MAX_def)
  show 1: "poll_block al old k = realloc_content al old k"
    unfolding poll_block_def sz Let_def using assms by (simp add: alloc_granted_def)
  show "poll_block al old k \<noteq> []"
    unfolding 1 using length_realloc_content [of al old k] assms(3) by (metis list.size(3) less_not_refl)
qed

section \<open>Registering, changing and deregistering an event\<close>

lemma loop_okD:
  assumes "loop_ok l"
  shows "arrays_ok (lp_poll l)" "i < pl_n (lp_poll l) \<Longrightarrow> slot_ok l i"
    "ev_i (lp_ev l e) \<noteq> -1 \<Longrightarrow> \<exists>i. registered_at l e i"
  using assms by (auto simp: loop_ok_def)

text \<open>The arrays may be longer after they were moved; what counts is their first \<open>n\<close> entries.\<close>

lemma slot_ok_cong:
  assumes "i < k" "take k (pl_evts (lp_poll l')) = take k (pl_evts (lp_poll l))"
    "take k (pl_fds (lp_poll l')) = take k (pl_fds (lp_poll l))"
    "\<And>e. pl_evts (lp_poll l) ! i = Some e \<Longrightarrow> lp_ev l' e = lp_ev l e"
  shows "slot_ok l' i \<longleftrightarrow> slot_ok l i"
proof -
  have "pl_evts (lp_poll l') ! i = pl_evts (lp_poll l) ! i" "pl_fds (lp_poll l') ! i = pl_fds (lp_poll l) ! i"
    using assms(1-3) by (metis nth_take)+
  then show ?thesis using assms(4) by (auto simp: slot_ok_def)
qed

lemma assign_slot:
  assumes "arrays_ok (lp_poll l)" "ev_i (lp_ev l e) = int i" "i < pl_n (lp_poll l)"
  shows "aem_poll_assign e l = Some (l\<lparr>lp_poll := (lp_poll l)\<lparr>
    pl_fds := (pl_fds (lp_poll l))[i := \<lparr>pfd_fd = ev_fd (lp_ev l e), pfd_events = ev_events (lp_ev l e), pfd_revents = 0\<rparr>],
    pl_evts := (pl_evts (lp_poll l))[i := Some e]\<rparr>\<rparr>)"
  using assms arrays_okD(1-3,6) [OF assms(1)] by (simp add: aem_poll_assign_def Let_def)

definition fresh_pollfd :: "poll_event \<Rightarrow> pollfd" where
  "fresh_pollfd evt = \<lparr>pfd_fd = ev_fd evt, pfd_events = ev_events evt, pfd_revents = 0\<rparr>"

text \<open>The arrays after an event \<open>e\<close> was put into the slot \<open>i\<close>.\<close>
definition put_slot :: "nat \<Rightarrow> nat \<Rightarrow> poll_event \<Rightarrow> aem_poll \<Rightarrow> aem_poll" where
  "put_slot i e evt p = p\<lparr>pl_fds := (pl_fds p)[i := fresh_pollfd evt], pl_evts := (pl_evts p)[i := Some e]\<rparr>"

lemma put_slot_simps [simp]:
  "pl_n (put_slot i e evt p) = pl_n p" "pl_maxn (put_slot i e evt p) = pl_maxn p"
  "pl_fds (put_slot i e evt p) = (pl_fds p)[i := fresh_pollfd evt]"
  "pl_evts (put_slot i e evt p) = (pl_evts p)[i := Some e]" "pl_rc (put_slot i e evt p) = pl_rc p"
  "arrays_ok (put_slot i e evt p) = arrays_ok p"
  by (simp_all add: put_slot_def arrays_ok_def)

lemma fresh_pollfd_simps [simp]:
  "pfd_fd (fresh_pollfd evt) = ev_fd evt" "pfd_events (fresh_pollfd evt) = ev_events evt"
  "pfd_revents (fresh_pollfd evt) = 0" "fresh_pollfd (evt\<lparr>ev_i := k\<rparr>) = fresh_pollfd evt"
  by (simp_all add: fresh_pollfd_def)

lemma add_cases:
  assumes ok: "loop_ok l" and add: "aem_poll_add fa ea e l = Some (rc, l')"
  obtains (bad_fd) "ev_fd (lp_ev l e) < 0" "rc = -1" "l' = l"
  | (added) p where "0 \<le> ev_fd (lp_ev l e)" "ev_i (lp_ev l e) = -1" "rc = int (pl_n (lp_poll l))"
      "arrays_ok p" "pl_n p = pl_n (lp_poll l)" "pl_n p < pl_maxn p" "pl_rc p = pl_rc (lp_poll l)"
      "take (pl_n p) (pl_fds p) = take (pl_n p) (pl_fds (lp_poll l))"
      "take (pl_n p) (pl_evts p) = take (pl_n p) (pl_evts (lp_poll l))"
      "l' = (upd_ev e (\<lambda>evt. evt\<lparr>ev_i := int (pl_n p)\<rparr>) l)
         \<lparr>lp_poll := (put_slot (pl_n p) e (lp_ev l e) p)\<lparr>pl_n := pl_n p + 1\<rparr>\<rparr>"
proof (cases "ev_fd (lp_ev l e) < 0")
  case True
  then show ?thesis using add by (intro bad_fd) (auto simp: aem_poll_add_def)
next
  case False
  note arr = loop_okD(1) [OF ok]
  have i: "ev_i (lp_ev l e) = -1"
    using add False by (auto simp: aem_poll_add_def split: if_splits bind_splits)
  obtain p where p: "(if pl_n (lp_poll l) \<ge> pl_maxn (lp_poll l) then aem_poll_resize fa ea (lp_poll l)
      else Some (lp_poll l)) = Some p"
    using add False by (auto simp: aem_poll_add_def split: bind_splits)
  have p': "arrays_ok p" "pl_n p = pl_n (lp_poll l)" "pl_n p < pl_maxn p" "pl_rc p = pl_rc (lp_poll l)"
    "take (pl_n p) (pl_fds p) = take (pl_n p) (pl_fds (lp_poll l))"
    "take (pl_n p) (pl_evts p) = take (pl_n p) (pl_evts (lp_poll l))"
    using p resize_ok [OF _ arrays_okD(1-5) [OF arr]] arr by (auto split: if_splits)
  have small: "pl_n p < 2 ^ 60" using arrays_okD [OF p'(1)] by simp
  let ?l1 = "upd_ev e (\<lambda>evt. evt\<lparr>ev_i := int (pl_n p)\<rparr>) (l\<lparr>lp_poll := p\<lparr>pl_n := pl_n p + 1\<rparr>\<rparr>)"
  have "arrays_ok (p\<lparr>pl_n := pl_n p + 1\<rparr>)" using p'(1,3) by (auto simp: arrays_ok_def)
  then have as: "aem_poll_assign e ?l1 = Some (?l1\<lparr>lp_poll := put_slot (pl_n p) e (lp_ev l e) (p\<lparr>pl_n := pl_n p + 1\<rparr>)\<rparr>)"
    using assign_slot [of ?l1 e "pl_n p"] by (simp add: put_slot_def fresh_pollfd_def)
  have "aem_poll_add fa ea e l = Some (int (pl_n p), ?l1\<lparr>lp_poll := put_slot (pl_n p) e (lp_ev l e) (p\<lparr>pl_n := pl_n p + 1\<rparr>)\<rparr>)"
    unfolding aem_poll_add_def p using False i small p'(3) as
    by (simp add: upd_ev_def Let_def)
  then show ?thesis using add False i p'
    by (intro added [of p]) (auto simp: put_slot_def upd_ev_def)
qed

lemma add_keeps_ok:
  assumes ok: "loop_ok l" and add: "aem_poll_add fa ea e l = Some (rc, l')"
  shows "loop_ok l'"
  using assms
proof (cases rule: add_cases)
  case bad_fd
  then show ?thesis using ok by simp
next
  case (added p)
  let ?n = "pl_n (lp_poll l)"
  have arr: "arrays_ok (lp_poll l')" using added(4-6,10) by (auto simp: arrays_ok_def)
  have len: "?n < length (pl_evts p)" "?n < length (pl_fds p)" using added(4-6) arrays_okD [OF added(4)] by auto
  have old: "slot_ok l' i" if "i < ?n" for i
  proof -
    have "slot_ok l i" using that loop_okD(2) [OF ok] by blast
    moreover have "lp_ev l' x = lp_ev l x" if "pl_evts (lp_poll l) ! i = Some x" for x
      using that \<open>slot_ok l i\<close> added(2,10) by (auto simp: slot_ok_def)
    moreover have "take ?n (pl_evts (lp_poll l')) = take ?n (pl_evts (lp_poll l))"
      "take ?n (pl_fds (lp_poll l')) = take ?n (pl_fds (lp_poll l))"
      using added(5,8-10) by (simp_all add: take_list_update_ge)
    ultimately show ?thesis using slot_ok_cong [OF that, of l' l] by blast
  qed
  have new: "slot_ok l' ?n" using added(1,5,10) len by (simp add: slot_ok_def)
  have "\<exists>i. registered_at l' x i" if held: "ev_i (lp_ev l' x) \<noteq> -1" for x
  proof (cases "x = e")
    case True
    then show ?thesis using added(5,10) len by (auto simp: registered_at_def intro: exI [of _ ?n])
  next
    case False
    then have "ev_i (lp_ev l x) \<noteq> -1" using held added(10) by simp
    then obtain i where i: "registered_at l x i" using loop_okD(3) [OF ok] by blast
    then have "pl_evts p ! i = pl_evts (lp_poll l) ! i"
      using added(5,9) by (metis nth_take registered_at_def)
    then show ?thesis using i False added(5,10) len by (auto simp: registered_at_def intro!: exI [of _ i])
  qed
  moreover have "slot_ok l' i" if "i < pl_n (lp_poll l')" for i
    using that old new added(5,10) by (auto simp: less_Suc_eq)
  ultimately show ?thesis using arr by (auto simp: loop_ok_def)
qed

lemma registered_unique:
  assumes "registered_at l e i"
  shows "registered_at l e j \<Longrightarrow> j = i" "registered_at l x i \<Longrightarrow> x = e"
  using assms by (auto simp: registered_at_def)

lemma slot_registered:
  assumes "loop_ok l" "i < pl_n (lp_poll l)"
  obtains e where "registered_at l e i" "0 \<le> ev_fd (lp_ev l e)"
  using loop_okD(2) [OF assms] assms(2) by (auto simp: slot_ok_def registered_at_def)

text \<open>The arrays of \<open>p1\<close> start as those of \<open>q\<close>, whatever their lengths.\<close>
definition same_slots :: "aem_poll \<Rightarrow> aem_poll \<Rightarrow> bool" where
  "same_slots p1 q \<longleftrightarrow> pl_n p1 = pl_n q \<and> pl_rc p1 = pl_rc q \<and>
     take (pl_n q) (pl_fds p1) = take (pl_n q) (pl_fds q) \<and> take (pl_n q) (pl_evts p1) = take (pl_n q) (pl_evts q)"

lemma take_eq_nth: "take k xs = take k ys \<Longrightarrow> i < k \<Longrightarrow> xs ! i = ys ! i"
  by (metis nth_take)

lemma same_slots_nth:
  assumes "same_slots p1 q" "k < pl_n q"
  shows "pl_fds p1 ! k = pl_fds q ! k" "pl_evts p1 ! k = pl_evts q ! k"
  using assms by (auto simp: same_slots_def intro: take_eq_nth)

lemma shrink_ok:
  assumes q: "arrays_ok q" and n: "pl_n q \<noteq> 0"
    and sh: "(if sz ((pl_n q - 1) * 8) \<le> pl_maxn q then aem_poll_resize fa ea (q\<lparr>pl_n := pl_n q - 1\<rparr>)
      else Some (q\<lparr>pl_n := pl_n q - 1\<rparr>)) = Some p1"
  shows "arrays_ok p1" "same_slots p1 (q\<lparr>pl_n := pl_n q - 1\<rparr>)"
proof -
  have sz: "sz ((pl_n q - 1) * 8) = (pl_n q - 1) * 8" using arrays_okD(6) [OF q] by simp
  have "arrays_ok p1 \<and> same_slots p1 (q\<lparr>pl_n := pl_n q - 1\<rparr>)"
  proof (cases "(pl_n q - 1) * 8 \<le> pl_maxn q")
    case True
    then have "aem_poll_resize fa ea (q\<lparr>pl_n := pl_n q - 1\<rparr>) = Some p1" using sh unfolding sz by simp
    from resize_ok [OF this] arrays_okD(1-5) [OF q] show ?thesis by (auto simp: same_slots_def)
  next
    case False
    then have "p1 = q\<lparr>pl_n := pl_n q - 1\<rparr>" using sh unfolding sz by simp
    then show ?thesis using False q by (auto simp: arrays_ok_def same_slots_def)
  qed
  then show "arrays_ok p1" "same_slots p1 (q\<lparr>pl_n := pl_n q - 1\<rparr>)" by auto
qed

text \<open>Deregistering: the event in the last slot \<open>lst\<close> (it may be \<open>e\<close> itself) moves to the slot that
  becomes free.\<close>

definition without_slot :: "nat \<Rightarrow> nat \<Rightarrow> poll_event \<Rightarrow> aem_poll \<Rightarrow> aem_poll" where
  "without_slot i lst evt p =
     (if i = pl_n p - 1 then p else put_slot i lst evt p)\<lparr>pl_n := pl_n p - 1\<rparr>"

lemma move_last_effect:
  assumes ok: "loop_ok l" and i: "registered_at l e i"
  obtains lst where "registered_at l lst (pl_n (lp_poll l) - 1)"
    "poll_move_last i (upd_ev e (\<lambda>evt. evt\<lparr>ev_i := -1\<rparr>) l) =
      Some ((upd_ev e (\<lambda>evt. evt\<lparr>ev_i := -1\<rparr>) (upd_ev lst (\<lambda>evt. evt\<lparr>ev_i := int i\<rparr>) l))
        \<lparr>lp_poll := if i = pl_n (lp_poll l) - 1 then lp_poll l else put_slot i lst (lp_ev l lst) (lp_poll l)\<rparr>)"
proof -
  note arr = loop_okD(1) [OF ok]
  let ?n = "pl_n (lp_poll l)"
  have iD: "i < ?n" "ev_i (lp_ev l e) = int i" "pl_evts (lp_poll l) ! i = Some e" "i < 2 ^ 60" "?n < 2 ^ 60"
    using i arrays_okD(6) [OF arr] by (auto simp: registered_at_def)
  obtain lst where lst: "registered_at l lst (?n - 1)"
    using slot_registered [OF ok, of "?n - 1"] iD(1) by auto
  let ?l0 = "upd_ev e (\<lambda>evt. evt\<lparr>ev_i := -1\<rparr>) l"
  let ?q = "if i = ?n - 1 then lp_poll l else put_slot i lst (lp_ev l lst) (lp_poll l)"
  let ?lx = "upd_ev e (\<lambda>evt. evt\<lparr>ev_i := -1\<rparr>) (upd_ev lst (\<lambda>evt. evt\<lparr>ev_i := int i\<rparr>) l)"
  have mv: "poll_move_last i ?l0 = Some (?lx\<lparr>lp_poll := ?q\<rparr>)"
  proof (cases "i = ?n - 1")
    case True
    then have "lst = e" using registered_unique(2) [OF i] lst by simp
    then show ?thesis using True by (simp add: poll_move_last_def upd_ev_def)
  next
    case False
    then have ne: "lst \<noteq> e" using registered_unique(1) [OF i] lst by auto
    let ?l1 = "upd_ev lst (\<lambda>evt. evt\<lparr>ev_i := int i\<rparr>) ?l0"
    have as: "aem_poll_assign lst ?l1 = Some (?l1\<lparr>lp_poll := put_slot i lst (lp_ev l lst) (lp_poll l)\<rparr>)"
      using assign_slot [of ?l1 lst i] arr iD(1) ne by (simp add: put_slot_def fresh_pollfd_def)
    have "?l1\<lparr>lp_poll := put_slot i lst (lp_ev l lst) (lp_poll l)\<rparr> = ?lx\<lparr>lp_poll := ?q\<rparr>"
      using ne False by (simp add: upd_ev_def fun_upd_twist)
    moreover have "at (pl_evts (lp_poll l)) (?n - 1) = Some (Some lst)" "ev_i (lp_ev l lst) = int (?n - 1)"
      using lst arrays_okD(1,3) [OF arr] by (auto simp: registered_at_def)
    moreover have "c_ssize i = int i" "c_size (int (?n - 1)) = ?n - 1" using iD(4,5) by simp_all
    ultimately show ?thesis using as ne False by (simp add: poll_move_last_def Let_def del: at_Some)
  qed
  then show ?thesis using lst that by blast
qed

lemma del_cases:
  assumes ok: "loop_ok l" and del: "aem_poll_del fa ea e l = Some (rc, l')"
  obtains (unregistered) "ev_i (lp_ev l e) = -1" "rc = -1" "l' = l"
  | (deleted) i lst p1 where "registered_at l e i" "registered_at l lst (pl_n (lp_poll l) - 1)" "rc = 0"
      "arrays_ok p1" "same_slots p1 (without_slot i lst (lp_ev l lst) (lp_poll l))"
      "l' = (upd_ev e (\<lambda>evt. evt\<lparr>ev_i := -1\<rparr>) (upd_ev lst (\<lambda>evt. evt\<lparr>ev_i := int i\<rparr>) l))\<lparr>lp_poll := p1\<rparr>"
proof (cases "ev_i (lp_ev l e) = -1")
  case True
  then show ?thesis using del by (intro unregistered) (auto simp: aem_poll_del_def)
next
  case False
  note arr = loop_okD(1) [OF ok]
  let ?n = "pl_n (lp_poll l)"
  obtain i where i: "registered_at l e i" using loop_okD(3) [OF ok False] by blast
  then have iD: "i < ?n" "ev_i (lp_ev l e) = int i" "pl_evts (lp_poll l) ! i = Some e" "i < 2 ^ 60" "?n < 2 ^ 60"
    using arrays_okD(6) [OF arr] by (auto simp: registered_at_def)
  let ?l0 = "upd_ev e (\<lambda>evt. evt\<lparr>ev_i := -1\<rparr>) l"
  obtain lst where lst: "registered_at l lst (?n - 1)" and mv: "poll_move_last i ?l0 =
      Some ((upd_ev e (\<lambda>evt. evt\<lparr>ev_i := -1\<rparr>) (upd_ev lst (\<lambda>evt. evt\<lparr>ev_i := int i\<rparr>) l))
        \<lparr>lp_poll := if i = ?n - 1 then lp_poll l else put_slot i lst (lp_ev l lst) (lp_poll l)\<rparr>)"
    using move_last_effect [OF ok i] by blast
  let ?q = "if i = ?n - 1 then lp_poll l else put_slot i lst (lp_ev l lst) (lp_poll l)"
  let ?lx = "upd_ev e (\<lambda>evt. evt\<lparr>ev_i := -1\<rparr>) (upd_ev lst (\<lambda>evt. evt\<lparr>ev_i := int i\<rparr>) l)"
  obtain q where q: "q = ?q" "pl_n q = ?n" "arrays_ok q" using arr by simp
  have "c_size (int i) = i" "at (pl_evts (lp_poll l)) i = Some (Some e)"
    using iD arrays_okD(1,3) [OF arr] by simp_all
  then have "aem_poll_del fa ea e l = do {
      p1 \<leftarrow> (if sz ((?n - 1) * 8) \<le> pl_maxn q then aem_poll_resize fa ea (q\<lparr>pl_n := ?n - 1\<rparr>)
             else Some (q\<lparr>pl_n := ?n - 1\<rparr>));
      Some (0, ?lx\<lparr>lp_poll := p1\<rparr>) }"
    using iD(1,2) mv q(2) unfolding q(1) [symmetric]
    by (simp add: aem_poll_del_def Let_def del: at_Some)
  then obtain p1 where p1: "(if sz ((?n - 1) * 8) \<le> pl_maxn q then aem_poll_resize fa ea (q\<lparr>pl_n := ?n - 1\<rparr>)
      else Some (q\<lparr>pl_n := ?n - 1\<rparr>)) = Some p1" and res: "rc = 0" "l' = ?lx\<lparr>lp_poll := p1\<rparr>"
    using del by (auto split: bind_splits)
  have "pl_n q \<noteq> 0" using iD(1) q(2) by simp
  then have "arrays_ok p1" "same_slots p1 (q\<lparr>pl_n := ?n - 1\<rparr>)"
    using shrink_ok [OF q(3), unfolded q(2), OF _ p1] q(2) by simp_all
  then show ?thesis using i lst res by (intro deleted) (auto simp: without_slot_def q(1))
qed

lemma without_slot_nth:
  assumes "arrays_ok p" "i < pl_n p" "k < pl_n p - 1"
  shows "pl_evts (without_slot i lst evt p) ! k = (if k = i then Some lst else pl_evts p ! k)"
    "pl_fds (without_slot i lst evt p) ! k = (if k = i then fresh_pollfd evt else pl_fds p ! k)"
  using assms arrays_okD(1-3) [OF assms(1)] by (auto simp: without_slot_def)

lemma without_slot_n [simp]: "pl_n (without_slot i lst evt p) = pl_n p - 1"
  by (simp add: without_slot_def)

lemma del_effect:
  assumes ok: "loop_ok l" and e: "registered_at l e i" and del: "aem_poll_del fa ea e l = Some (rc, l')"
  shows "loop_ok l'" "rc = 0" "pl_n (lp_poll l') = pl_n (lp_poll l) - 1" "ev_i (lp_ev l' e) = -1"
    "\<And>x. x \<noteq> e \<Longrightarrow> lp_ev l' x =
       (if registered_at l x (pl_n (lp_poll l) - 1) then (lp_ev l x)\<lparr>ev_i := int i\<rparr> else lp_ev l x)"
    "\<And>k. k < pl_n (lp_poll l) - 1 \<Longrightarrow> k \<noteq> i \<Longrightarrow>
       pl_fds (lp_poll l') ! k = pl_fds (lp_poll l) ! k \<and> pl_evts (lp_poll l') ! k = pl_evts (lp_poll l) ! k"
    "i < pl_n (lp_poll l) - 1 \<Longrightarrow> \<exists>lst. registered_at l lst (pl_n (lp_poll l) - 1) \<and>
       pl_evts (lp_poll l') ! i = Some lst \<and> pl_fds (lp_poll l') ! i = fresh_pollfd (lp_ev l lst)"
    "pl_rc (lp_poll l') = pl_rc (lp_poll l)" "lp_app l' = lp_app l"
    "lp_ev l' e = (lp_ev l e)\<lparr>ev_i := -1\<rparr>"
proof -
  let ?n = "pl_n (lp_poll l)"
  have held: "ev_i (lp_ev l e) \<noteq> -1" using e by (simp add: registered_at_def)
  obtain lst p1 where d: "registered_at l lst (?n - 1)" "rc = 0" "arrays_ok p1"
      "same_slots p1 (without_slot i lst (lp_ev l lst) (lp_poll l))"
      "l' = (upd_ev e (\<lambda>evt. evt\<lparr>ev_i := -1\<rparr>) (upd_ev lst (\<lambda>evt. evt\<lparr>ev_i := int i\<rparr>) l))\<lparr>lp_poll := p1\<rparr>"
    using ok del
  proof (cases rule: del_cases)
    case (deleted j lst p1)
    from registered_unique(1) [OF e this(1)] have "j = i" .
    show ?thesis by (rule that [of lst p1]) (use deleted \<open>j = i\<close> in simp_all)
  qed (use held in simp)
  note arr = loop_okD(1) [OF ok]
  have i: "i < ?n" using e by (simp add: registered_at_def)
  have n': "pl_n p1 = ?n - 1" "pl_rc p1 = pl_rc (lp_poll l)" using d(4) by (auto simp: same_slots_def without_slot_def)
  have at: "pl_evts p1 ! k = (if k = i then Some lst else pl_evts (lp_poll l) ! k)"
      "pl_fds p1 ! k = (if k = i then fresh_pollfd (lp_ev l lst) else pl_fds (lp_poll l) ! k)" if "k < ?n - 1" for k
    using same_slots_nth [OF d(4), of k] without_slot_nth [OF arr i, of k lst "lp_ev l lst"] that by simp_all
  show "rc = 0" "pl_n (lp_poll l') = ?n - 1" "ev_i (lp_ev l' e) = -1" "lp_app l' = lp_app l"
    "pl_rc (lp_poll l') = pl_rc (lp_poll l)" "lp_ev l' e = (lp_ev l e)\<lparr>ev_i := -1\<rparr>"
    using d n' by simp_all
  have ev: "lp_ev l' x = (if registered_at l x (?n - 1) then (lp_ev l x)\<lparr>ev_i := int i\<rparr> else lp_ev l x)" if "x \<noteq> e" for x
  proof (cases "x = lst")
    case True
    then show ?thesis using that d(1,5) by simp
  next
    case False
    then have "\<not> registered_at l x (?n - 1)" using registered_unique(2) [OF d(1)] by blast
    then show ?thesis using that False d(5) by simp
  qed
  then show "\<And>x. x \<noteq> e \<Longrightarrow> lp_ev l' x =
       (if registered_at l x (?n - 1) then (lp_ev l x)\<lparr>ev_i := int i\<rparr> else lp_ev l x)" .
  show "\<And>k. k < ?n - 1 \<Longrightarrow> k \<noteq> i \<Longrightarrow>
       pl_fds (lp_poll l') ! k = pl_fds (lp_poll l) ! k \<and> pl_evts (lp_poll l') ! k = pl_evts (lp_poll l) ! k"
    using at d(5) by simp
  show "i < ?n - 1 \<Longrightarrow> \<exists>lst. registered_at l lst (?n - 1) \<and>
       pl_evts (lp_poll l') ! i = Some lst \<and> pl_fds (lp_poll l') ! i = fresh_pollfd (lp_ev l lst)"
    using at d(1,5) by auto
  have slot: "slot_ok l' k" if k: "k < ?n - 1" for k
  proof (cases "k = i")
    case True
    then have "lst \<noteq> e" using registered_unique(1) [OF e] d(1) k by auto
    moreover have "0 \<le> ev_fd (lp_ev l lst)" using loop_okD(2) [OF ok, of "?n - 1"] i d(1)
      by (auto simp: slot_ok_def registered_at_def)
    ultimately show ?thesis using at [OF k] True d(5) by (auto simp: slot_ok_def)
  next
    case False
    have "k < ?n" using k by simp
    from slot_registered [OF ok this] obtain x where x: "registered_at l x k" by blast
    then have "x \<noteq> e" "\<not> registered_at l x (?n - 1)" using registered_unique(1) [OF x] e False k by fastforce+
    then have "lp_ev l' x = lp_ev l x" using ev by simp
    then show ?thesis using loop_okD(2) [OF ok, of k] k at [OF k] False x d(5)
      by (auto simp: slot_ok_def registered_at_def)
  qed
  have "\<exists>k. registered_at l' x k" if held: "ev_i (lp_ev l' x) \<noteq> -1" for x
  proof -
    have ne: "x \<noteq> e" using held d(5) by auto
    show ?thesis
    proof (cases "registered_at l x (?n - 1)")
      case True
      then have "x = lst" using registered_unique(2) [OF d(1)] by blast
      moreover have "i \<noteq> ?n - 1" using True ne registered_unique(2) [OF e] by blast
      ultimately have "registered_at l' x i" using at [of i] i ne d(5) n' by (auto simp: registered_at_def)
      then show ?thesis ..
    next
      case False
      then obtain k where k: "registered_at l x k" using held ev [OF ne] loop_okD(3) [OF ok] by auto
      moreover have "k \<noteq> ?n - 1" using k False by metis
      moreover have "k \<noteq> i" using k ne registered_unique(2) [OF e] by blast
      ultimately have "registered_at l' x k" using at [of k] False ev [OF ne] d(5) n' by (auto simp: registered_at_def)
      then show ?thesis ..
    qed
  qed
  then show "loop_ok l'" using slot d(3,5) n' by (auto simp: loop_ok_def)
qed

lemma slot_okI:
  assumes "pl_evts (lp_poll l) ! i = Some e" "ev_i (lp_ev l e) = int i" "0 \<le> ev_fd (lp_ev l e)"
    "pfd_fd (pl_fds (lp_poll l) ! i) = ev_fd (lp_ev l e)"
    "pfd_events (pl_fds (lp_poll l) ! i) = ev_events (lp_ev l e)"
  shows "slot_ok l i"
  using assms by (auto simp: slot_ok_def)

lemma slot_okE:
  assumes "slot_ok l i"
  obtains e where "pl_evts (lp_poll l) ! i = Some e" "ev_i (lp_ev l e) = int i" "0 \<le> ev_fd (lp_ev l e)"
    "pfd_fd (pl_fds (lp_poll l) ! i) = ev_fd (lp_ev l e)"
    "pfd_events (pl_fds (lp_poll l) ! i) = ev_events (lp_ev l e)"
  using assms by (auto simp: slot_ok_def)

lemma mod_effect:
  assumes ok: "loop_ok l" and e: "registered_at l e i" and f: "ev_i (f (lp_ev l e)) = ev_i (lp_ev l e)"
  shows "aem_poll_mod e (upd_ev e f l) = Some ((upd_ev e f l)\<lparr>lp_poll := (lp_poll l)\<lparr>pl_fds := (pl_fds (lp_poll l))
    [i := (pl_fds (lp_poll l) ! i)\<lparr>pfd_fd := ev_fd (f (lp_ev l e)), pfd_events := ev_events (f (lp_ev l e))\<rparr>]\<rparr>\<rparr>)"
proof -
  have i: "ev_i (lp_ev l e) = int i" "i < pl_n (lp_poll l)" "pl_evts (lp_poll l) ! i = Some e" "c_size (int i) = i"
    using e arrays_okD(6) [OF loop_okD(1) [OF ok]] by (auto simp: registered_at_def)
  then show ?thesis using f arrays_okD(1-3) [OF loop_okD(1) [OF ok]]
    by (simp add: aem_poll_mod_def aem_poll_get_pollfd_def upd_pollfd_def upd_poll_def at_def)
qed

lemma mod_keeps_ok:
  assumes ok: "loop_ok l" and f: "ev_i (f (lp_ev l e)) = ev_i (lp_ev l e)" "0 \<le> ev_fd (f (lp_ev l e))"
    and m: "aem_poll_mod e (upd_ev e f l) = Some l'"
  shows "loop_ok l'"
proof (cases "ev_i (lp_ev l e) = -1")
  case True
  then have l': "l' = upd_ev e f l" using m f(1) by (simp add: aem_poll_mod_def)
  have "slot_ok l' k" if "k < pl_n (lp_poll l)" for k
    using loop_okD(2) [OF ok that] True l' by (auto simp: slot_ok_def)
  moreover have "\<exists>k. registered_at l' x k" if "ev_i (lp_ev l' x) \<noteq> -1" for x
  proof -
    have "x \<noteq> e" using that True f(1) l' by auto
    then show ?thesis using that loop_okD(3) [OF ok, of x] l' by (auto simp: registered_at_def)
  qed
  ultimately show ?thesis using loop_okD(1) [OF ok] l' by (auto simp: loop_ok_def)
next
  case False
  then obtain i where i: "registered_at l e i" using loop_okD(3) [OF ok] by blast
  note arr = arrays_okD(1-3) [OF loop_okD(1) [OF ok]]
  note eff = mod_effect [where f = f, OF ok i f(1)]
  have l': "lp_ev l' = (lp_ev l)(e := f (lp_ev l e))" "pl_evts (lp_poll l') = pl_evts (lp_poll l)"
    "pl_n (lp_poll l') = pl_n (lp_poll l)" "arrays_ok (lp_poll l') = arrays_ok (lp_poll l)"
    "pl_fds (lp_poll l') = (pl_fds (lp_poll l))[i := (pl_fds (lp_poll l) ! i)
       \<lparr>pfd_fd := ev_fd (f (lp_ev l e)), pfd_events := ev_events (f (lp_ev l e))\<rparr>]"
    using m unfolding eff by (auto simp: arrays_ok_def)
  have "slot_ok l' k" if k: "k < pl_n (lp_poll l)" for k
  proof (cases "k = i")
    case True
    then show ?thesis using i f k l' arr
      by (intro slot_okI [of l' k e]) (auto simp: registered_at_def)
  next
    case False
    from slot_okE [OF loop_okD(2) [OF ok k]] obtain x where x: "pl_evts (lp_poll l) ! k = Some x" "ev_i (lp_ev l x) = int k"
      "0 \<le> ev_fd (lp_ev l x)" "pfd_fd (pl_fds (lp_poll l) ! k) = ev_fd (lp_ev l x)"
      "pfd_events (pl_fds (lp_poll l) ! k) = ev_events (lp_ev l x)" by metis
    moreover have "x \<noteq> e" using x(2) i False by (auto simp: registered_at_def)
    ultimately show ?thesis using False l' by (intro slot_okI [of l' k x]) auto
  qed
  moreover have "\<exists>k. registered_at l' x k" if "ev_i (lp_ev l' x) \<noteq> -1" for x
    using that loop_okD(3) [OF ok, of x] f(1) l' by (auto simp: registered_at_def split: if_splits)
  ultimately show ?thesis using loop_okD(1) [OF ok] l' by (auto simp: loop_ok_def)
qed

text \<open>Nothing that the invariant speaks of depends on the \<open>revents\<close>, the client's memory or the
  result of the last system call.\<close>

definition same_registrations :: "'app evloop \<Rightarrow> 'app evloop \<Rightarrow> bool" where
  "same_registrations l' l \<longleftrightarrow> pl_n (lp_poll l') = pl_n (lp_poll l) \<and> pl_maxn (lp_poll l') = pl_maxn (lp_poll l) \<and>
     pl_evts (lp_poll l') = pl_evts (lp_poll l) \<and> length (pl_fds (lp_poll l')) = length (pl_fds (lp_poll l)) \<and>
     (\<forall>i < length (pl_fds (lp_poll l)). pfd_fd (pl_fds (lp_poll l') ! i) = pfd_fd (pl_fds (lp_poll l) ! i) \<and>
        pfd_events (pl_fds (lp_poll l') ! i) = pfd_events (pl_fds (lp_poll l) ! i)) \<and>
     (\<forall>e. ev_i (lp_ev l' e) = ev_i (lp_ev l e) \<and> (ev_i (lp_ev l e) = -1 \<or>
        ev_fd (lp_ev l' e) = ev_fd (lp_ev l e) \<and> ev_events (lp_ev l' e) = ev_events (lp_ev l e)))"

lemma same_registrations_ok:
  assumes same: "same_registrations l' l" and ok: "loop_ok l"
  shows "loop_ok l'"
proof -
  have "arrays_ok (lp_poll l')" using loop_okD(1) [OF ok] same by (simp add: arrays_ok_def same_registrations_def)
  moreover have "slot_ok l' i" if i: "i < pl_n (lp_poll l')" for i
  proof -
    have n: "i < pl_n (lp_poll l)" using i same by (simp add: same_registrations_def)
    then have "i < length (pl_fds (lp_poll l))" using arrays_okD(1,2) [OF loop_okD(1) [OF ok]] by simp
    obtain e where e: "pl_evts (lp_poll l) ! i = Some e" "ev_i (lp_ev l e) = int i" "0 \<le> ev_fd (lp_ev l e)"
        "pfd_fd (pl_fds (lp_poll l) ! i) = ev_fd (lp_ev l e)" "pfd_events (pl_fds (lp_poll l) ! i) = ev_events (lp_ev l e)"
      using loop_okD(2) [OF ok n] by (auto simp: slot_ok_def)
    then have "ev_i (lp_ev l e) \<noteq> -1" by simp
    then have "ev_fd (lp_ev l' e) = ev_fd (lp_ev l e)" "ev_events (lp_ev l' e) = ev_events (lp_ev l e)"
      using same unfolding same_registrations_def by blast+
    then show ?thesis using e same \<open>i < length (pl_fds (lp_poll l))\<close>
      by (auto simp: slot_ok_def same_registrations_def)
  qed
  moreover have "\<exists>i. registered_at l' e i" if "ev_i (lp_ev l' e) \<noteq> -1" for e
    using that loop_okD(3) [OF ok, of e] same by (auto simp: registered_at_def same_registrations_def)
  ultimately show ?thesis by (auto simp: loop_ok_def)
qed

section \<open>Dispatching keeps the invariant\<close>

lemma upd_pollfd_Some:
  "upd_pollfd i f l = Some l' \<longleftrightarrow> i < length (pl_fds (lp_poll l)) \<and>
     l' = upd_poll (\<lambda>p. p\<lparr>pl_fds := (pl_fds p)[i := f (pl_fds p ! i)]\<rparr>) l"
  by (auto simp: upd_pollfd_def)

lemma upd_poll_simps [simp]:
  "lp_poll (upd_poll f l) = f (lp_poll l)" "lp_ev (upd_poll f l) = lp_ev l" "lp_app (upd_poll f l) = lp_app l"
  by (simp_all add: upd_poll_def)

lemma clear_pollfd_same:
  "upd_pollfd i (\<lambda>pf. pf\<lparr>pfd_revents := r\<rparr>) l = Some l' \<Longrightarrow> same_registrations l' l"
  by (auto simp: upd_pollfd_Some same_registrations_def nth_list_update)

lemma set_event_revents_same: "same_registrations (upd_ev e (\<lambda>evt. evt\<lparr>ev_revents := r\<rparr>) l) l"
  by (auto simp: same_registrations_def)

definition handlers_ok :: "(nat \<Rightarrow> 'app evloop \<Rightarrow> 'app evloop option) \<Rightarrow> bool" where
  "handlers_ok on_event \<longleftrightarrow> (\<forall>e m m'. loop_ok m \<longrightarrow> on_event e m = Some m' \<longrightarrow> loop_ok m')"

lemma del_keeps_ok:
  assumes "loop_ok l" "aem_poll_del fa ea e l = Some (rc, l')"
  shows "loop_ok l'"
proof (cases "ev_i (lp_ev l e) = -1")
  case True
  then show ?thesis using assms by (simp add: aem_poll_del_def)
next
  case False
  then show ?thesis using loop_okD(3) [OF assms(1) False] del_effect(1) [OF assms(1) _ assms(2)] by blast
qed

lemma called_keeps_ok:
  assumes ok: "loop_ok l" and h: "handlers_ok on_event"
    and called: "process_called fa ea on_event i e revents l = Some (j, l')"
  shows "loop_ok l'"
proof -
  obtain l1 where l1: "(if ev_on_event (lp_ev l e) then on_event e l else Some l) = Some l1"
    using called by (auto simp: process_called_def split: bind_splits)
  then have ok1: "loop_ok l1" using ok h by (auto simp: handlers_ok_def split: if_splits)
  obtain l2 where l2: "(if revents AND POLLHUP \<noteq> 0 \<and> ev_i (lp_ev l1 e) \<noteq> -1
      then map_option snd (aem_poll_del fa ea e l1) else Some l1) = Some l2"
    using called unfolding process_called_def l1 by (auto split: bind_splits)
  then have ok2: "loop_ok l2" using ok1 del_keeps_ok [OF ok1] by (auto split: if_splits)
  show ?thesis
    using called ok2 unfolding process_called_def l1 bind.bind_lunit l2
    by (auto simp: Let_def split: if_splits bind_splits
        dest!: clear_pollfd_same intro: ok2 same_registrations_ok [OF _ ok2])
qed

lemma slot_keeps_ok:
  assumes "loop_ok l" "handlers_ok on_event" "process_slot fa ea on_event i rc l = Some (j, rc', l')"
  shows "loop_ok l'"
  using assms(3) same_registrations_ok [OF set_event_revents_same assms(1)]
  by (auto simp: process_slot_def Let_def split: bind_splits if_splits
      intro: called_keeps_ok [OF _ assms(2)])

lemma for_keeps_ok:
  assumes "process_for fa ea on_event i rc l = Some y" "handlers_ok on_event" "loop_ok l"
  shows "loop_ok (snd y)"
proof -
  have "handlers_ok on_event \<longrightarrow> loop_ok l \<longrightarrow> loop_ok (snd y)"
    by (rule process_for.raw_induct [OF _ assms(1), where P = "\<lambda>fa ea on_event i rc l y.
          handlers_ok on_event \<longrightarrow> loop_ok l \<longrightarrow> loop_ok (snd y)"])
      (auto split: if_splits bind_splits dest: slot_keeps_ok)
  then show ?thesis using assms(2,3) by blast
qed

lemma rounds_keeps_ok:
  assumes "process_rounds fa ea on_event rc l = Some y" "handlers_ok on_event" "loop_ok l"
  shows "loop_ok (snd y)"
proof -
  have "handlers_ok on_event \<longrightarrow> loop_ok l \<longrightarrow> loop_ok (snd y)"
    by (rule process_rounds.raw_induct [OF _ assms(1), where P = "\<lambda>fa ea on_event rc l y.
          handlers_ok on_event \<longrightarrow> loop_ok l \<longrightarrow> loop_ok (snd y)"])
      (auto split: if_splits bind_splits dest: for_keeps_ok)
  then show ?thesis using assms(2,3) by blast
qed

lemma process_keeps_ok:
  "aem_poll_process fa ea on_event l = Some (rc, l') \<Longrightarrow> handlers_ok on_event \<Longrightarrow> loop_ok l \<Longrightarrow> loop_ok l'"
  by (auto simp: aem_poll_process_def split: if_splits dest: rounds_keeps_ok)

lemma wait_keeps_ok:
  assumes "aem_poll_wait debug sys_poll l = Some (rc, l')" "loop_ok l"
  shows "loop_ok l'"
proof -
  let ?p = "lp_poll l"
  obtain k rev where s: "sys_poll (take (pl_n ?p) (pl_fds ?p)) = (k, rev)" by fastforce
  let ?fds = "map2 (\<lambda>pf r. pf\<lparr>pfd_revents := r\<rparr>) (take (pl_n ?p) (pl_fds ?p)) rev"
  have l': "l' = l\<lparr>lp_poll := ?p\<lparr>pl_fds := ?fds @ drop (length ?fds) (pl_fds ?p), pl_rc := k\<rparr>\<rparr>"
    using assms(1) s by (auto simp: aem_poll_wait_def Let_def split: bind_splits)
  have "same_registrations l' l"
    using arrays_okD(1,2) [OF loop_okD(1) [OF assms(2)]] unfolding l'
    by (auto simp: same_registrations_def nth_append)
  then show ?thesis using assms(2) by (rule same_registrations_ok)
qed

lemma hup_all_keeps_ok:
  assumes "aem_poll_hup_all fa ea on_event debug l = Some l'" "handlers_ok on_event" "loop_ok l"
  shows "loop_ok l'"
proof -
  let ?p = "lp_poll l"
  let ?l1 = "l\<lparr>lp_poll := ?p\<lparr>pl_fds := set_revents (\<lambda>pf. pfd_revents pf OR POLLHUP) (pl_n ?p) (pl_fds ?p),
      pl_rc := c_int (int (pl_n ?p))\<rparr>\<rparr>"
  have "same_registrations ?l1 l"
    using arrays_okD(1,2) [OF loop_okD(1) [OF assms(3)]]
    by (auto simp: same_registrations_def set_revents_def nth_append)
  then have "loop_ok ?l1" using assms(3) by (rule same_registrations_ok)
  moreover obtain rc where "aem_poll_process fa ea on_event ?l1 = Some (rc, l')"
    using assms(1) arrays_okD(1,2) [OF loop_okD(1) [OF assms(3)]]
    by (auto simp: aem_poll_hup_all_def Let_def split: bind_splits if_splits)
  ultimately show ?thesis using process_keeps_ok assms(2) by blast
qed

section \<open>Reachable event loops\<close>

text \<open>What the client, a handler included, does with a loop and its events: it registers,
  deregisters and changes events (a registered one it announces with \<open>aem_poll_mod\<close>), sets their
  handlers, checks off their \<open>revents\<close>, and writes its own memory.\<close>

inductive poll_step :: "pollfd allocator \<Rightarrow> nat ptr allocator \<Rightarrow> 'app evloop \<Rightarrow> 'app evloop \<Rightarrow> bool" for fa ea where
  add: "aem_poll_add fa ea e l = Some (rc, l') \<Longrightarrow> poll_step fa ea l l'"
| del: "aem_poll_del fa ea e l = Some (rc, l') \<Longrightarrow> poll_step fa ea l l'"
| change: "ev_i evt = ev_i (lp_ev l e) \<Longrightarrow> 0 \<le> ev_fd evt \<Longrightarrow>
    aem_poll_mod e (upd_ev e (\<lambda>_. evt) l) = Some l' \<Longrightarrow> poll_step fa ea l l'"
| reuse: "ev_i (lp_ev l e) = -1 \<Longrightarrow> ev_i evt = -1 \<Longrightarrow> poll_step fa ea l (upd_ev e (\<lambda>_. evt) l)"
| check: "poll_step fa ea l (upd_ev e (\<lambda>evt. snd (aem_poll_event_check evt bits)) l)"
| handler: "poll_step fa ea l (upd_ev e (\<lambda>evt. evt\<lparr>ev_on_event := b\<rparr>) l)"
| app: "poll_step fa ea l (l\<lparr>lp_app := a\<rparr>)"

inductive poll_reached :: "pollfd allocator \<Rightarrow> nat ptr allocator \<Rightarrow> 'app evloop \<Rightarrow> bool" for fa ea where
  start: "lp_poll l = aem_poll_init fa ea \<Longrightarrow> pl_fds (lp_poll l) \<noteq> [] \<Longrightarrow> pl_evts (lp_poll l) \<noteq> [] \<Longrightarrow>
    (\<forall>e. ev_i (lp_ev l e) = -1) \<Longrightarrow> poll_reached fa ea l"
| step: "poll_reached fa ea l \<Longrightarrow> poll_step fa ea l l' \<Longrightarrow> poll_reached fa ea l'"
| wait: "poll_reached fa ea l \<Longrightarrow> aem_poll_wait debug sys_poll l = Some (rc, l') \<Longrightarrow> poll_reached fa ea l'"
| process: "poll_reached fa ea l \<Longrightarrow> aem_poll_process fa ea on_event l = Some (rc, l') \<Longrightarrow>
    (\<And>e m m'. on_event e m = Some m' \<Longrightarrow> (poll_step fa ea)\<^sup>*\<^sup>* m m') \<Longrightarrow> poll_reached fa ea l'"
| hup_all: "poll_reached fa ea l \<Longrightarrow> aem_poll_hup_all fa ea on_event debug l = Some l' \<Longrightarrow>
    (\<And>e m m'. on_event e m = Some m' \<Longrightarrow> (poll_step fa ea)\<^sup>*\<^sup>* m m') \<Longrightarrow> poll_reached fa ea l'"

lemma reuse_keeps_ok:
  assumes "loop_ok l" "ev_i (lp_ev l e) = -1" "ev_i evt = -1"
  shows "loop_ok (upd_ev e (\<lambda>_. evt) l)"
  by (rule same_registrations_ok [OF _ assms(1)]) (use assms in \<open>auto simp: same_registrations_def\<close>)

lemma step_keeps_ok: "poll_step fa ea l l' \<Longrightarrow> loop_ok l \<Longrightarrow> loop_ok l'"
proof (induction rule: poll_step.induct)
  case (change evt l e l')
  show ?case by (rule mod_keeps_ok [where f = "\<lambda>_. evt", OF change(4) _ _ change(3)]) (use change in auto)
next
  case (check l e bits)
  show ?case by (rule same_registrations_ok [OF _ check])
    (auto simp: same_registrations_def aem_poll_event_check_def)
next
  case (handler l e b)
  show ?case by (rule same_registrations_ok [OF _ handler]) (auto simp: same_registrations_def)
next
  case (app l a)
  show ?case by (rule same_registrations_ok [OF _ app]) (auto simp: same_registrations_def)
qed (auto intro: add_keeps_ok del_keeps_ok reuse_keeps_ok)

lemma steps_handlers_ok:
  assumes "\<And>e m m'. on_event e m = Some m' \<Longrightarrow> (poll_step fa ea)\<^sup>*\<^sup>* m m'"
  shows "handlers_ok on_event"
proof -
  have "(poll_step fa ea)\<^sup>*\<^sup>* m m' \<Longrightarrow> loop_ok m \<Longrightarrow> loop_ok m'" for m m' :: "'a evloop"
    by (induction rule: rtranclp_induct) (auto intro: step_keeps_ok)
  then show ?thesis using assms unfolding handlers_ok_def by blast
qed

lemma reached_loop_ok: "poll_reached fa ea l \<Longrightarrow> loop_ok l"
proof (induction rule: poll_reached.induct)
  case (start l)
  have b: "poll_block al [] 8 \<noteq> [] \<Longrightarrow> length (poll_block al [] 8) = 8" for al :: "'c allocator"
    using poll_block_granted(1) [of 8 al "[]"] by simp
  have "arrays_ok (lp_poll l)" using start(1-3) b [of fa] b [of ea]
    by (simp add: aem_poll_init_def arrays_ok_def)
  then show ?case using start(1,4) by (simp add: loop_ok_def aem_poll_init_def)
next
  case (process l on_event rc l')
  then show ?case using process_keeps_ok steps_handlers_ok by blast
next
  case (hup_all l on_event debug l')
  then show ?case using hup_all_keeps_ok steps_handlers_ok by blast
qed (auto intro: step_keeps_ok wait_keeps_ok)

section \<open>What a dispatch calls\<close>

text \<open>The slots as the dispatching loop sees them: who is there, and what is pending.\<close>
definition slots :: "'app evloop \<Rightarrow> (nat \<times> u16) list" where
  "slots l = map (\<lambda>i. (the (pl_evts (lp_poll l) ! i), pfd_revents (pl_fds (lp_poll l) ! i))) [0..<pl_n (lp_poll l)]"

text \<open>Deregistration on that list: the last entry moves to the gap, and what was pending for it is
  forgotten.\<close>
definition drop_slot :: "nat \<Rightarrow> (nat \<times> u16) list \<Rightarrow> (nat \<times> u16) list" where
  "drop_slot i xs = (if i = length xs - 1 then butlast xs else (butlast xs)[i := (fst (last xs), 0)])"

text \<open>One pass over the list, for events that deregister themselves on a hang-up and stay
  otherwise: the calls, with the pending bits, and what is left.\<close>
function poll_calls :: "nat \<Rightarrow> (nat \<times> u16) list \<Rightarrow> (nat \<times> u16) list \<times> (nat \<times> u16) list" where
  "poll_calls i xs =
     (if i < length xs then
        let (e, r) = xs ! i in
        if r = 0 then poll_calls (i + 1) xs
        else if r AND POLLHUP \<noteq> 0 then map_prod (Cons (e, r)) (\<lambda>ys. ys) (poll_calls i (drop_slot i xs))
        else map_prod (Cons (e, r)) (\<lambda>ys. ys) (poll_calls (i + 1) (xs[i := (e, 0)]))
      else ([], xs))"
  by pat_completeness auto
termination
  by (relation "measure (\<lambda>(i, xs). length xs - i)") (auto simp: drop_slot_def)

declare poll_calls.simps [simp del]

text \<open>A handler that keeps a record of its calls, checks off every bit, and deregisters its event on
  a hang-up.\<close>
definition recorder ::
  "pollfd allocator \<Rightarrow> nat ptr allocator \<Rightarrow> nat \<Rightarrow> (nat \<times> u16) list evloop \<Rightarrow> (nat \<times> u16) list evloop option" where
  "recorder fa ea e m =
     (let (r, evt) = aem_poll_event_check (lp_ev m e) (-1);
          m1 = (upd_ev e (\<lambda>_. evt) m)\<lparr>lp_app := lp_app m @ [(e, r)]\<rparr>
      in if r AND POLLHUP \<noteq> 0 then map_option snd (aem_poll_del fa ea e m1) else Some m1)"

lemma resize_granted:
  assumes "pl_n p < 2 ^ 57" "\<And>b. al_ok fa b" "\<And>b. al_ok ea b"
  shows "\<exists>p'. aem_poll_resize fa ea p = Some p'"
proof -
  define k where "k = (if pl_n p * 2 < 8 then 8 else pl_n p * 2)"
  have k: "pl_n p + 1 \<le> k" "k * 8 \<le> PTRDIFF_MAX" "0 < k" using assms(1) by (auto simp: k_def PTRDIFF_MAX_def)
  have sz: "sz (pl_n p * 2) = pl_n p * 2" "sz (pl_n p + 1) = pl_n p + 1" using assms(1) by simp_all
  show ?thesis
    using poll_block_grant(2) [OF k(2) assms(2) k(3)] poll_block_grant(2) [OF k(2) assms(3) k(3)] k(1)
    unfolding aem_poll_resize_def sz Let_def k_def [symmetric] by auto
qed

lemma del_granted:
  assumes ok: "loop_ok l" and e: "registered_at l e i" and al: "\<And>b. al_ok fa b" "\<And>b. al_ok ea b"
  shows "\<exists>l'. aem_poll_del fa ea e l = Some (0, l')"
proof -
  note arr = loop_okD(1) [OF ok]
  let ?n = "pl_n (lp_poll l)"
  have iD: "i < ?n" "ev_i (lp_ev l e) = int i" "pl_evts (lp_poll l) ! i = Some e" "i < 2 ^ 60" "?n < 2 ^ 60"
    using e arrays_okD(6) [OF arr] by (auto simp: registered_at_def)
  have at: "c_size (int i) = i" "at (pl_evts (lp_poll l)) i = Some (Some e)"
    using iD arrays_okD(1,3) [OF arr] by simp_all
  let ?l0 = "upd_ev e (\<lambda>evt. evt\<lparr>ev_i := -1\<rparr>) l"
  obtain l1 where mv: "poll_move_last i ?l0 = Some l1" "arrays_ok (lp_poll l1)" "pl_n (lp_poll l1) = ?n"
  proof -
    obtain lst where "poll_move_last i ?l0 =
      Some ((upd_ev e (\<lambda>evt. evt\<lparr>ev_i := -1\<rparr>) (upd_ev lst (\<lambda>evt. evt\<lparr>ev_i := int i\<rparr>) l))
        \<lparr>lp_poll := if i = ?n - 1 then lp_poll l else put_slot i lst (lp_ev l lst) (lp_poll l)\<rparr>)"
      using move_last_effect [OF ok e] by blast
    then show ?thesis by (rule that) (use arr in simp_all)
  qed
  let ?p = "(lp_poll l1)\<lparr>pl_n := ?n - 1\<rparr>"
  have "\<exists>p1. (if sz ((?n - 1) * 8) \<le> pl_maxn ?p then aem_poll_resize fa ea ?p else Some ?p) = Some p1"
  proof (cases "(?n - 1) * 8 \<le> pl_maxn ?p")
    case True
    then have "?n - 1 < 2 ^ 57" using arrays_okD(5) [OF mv(2)] by simp
    then show ?thesis using resize_granted [of ?p fa ea] al by simp
  next
    case False
    moreover have "sz ((?n - 1) * 8) = (?n - 1) * 8" using iD(5) by simp
    ultimately show ?thesis by simp
  qed
  then obtain p1 where "(if sz ((?n - 1) * 8) \<le> pl_maxn ?p then aem_poll_resize fa ea ?p else Some ?p) = Some p1"
    by blast
  then show ?thesis using iD(1,2) at mv(1,3)
    by (cases "sz ((?n - 1) * 8) \<le> pl_maxn ?p") (simp_all add: aem_poll_del_def Let_def del: at_Some)
qed

lemma slots_simps [simp]: "length (slots l) = pl_n (lp_poll l)"
  by (simp add: slots_def)

lemma slots_nth:
  "i < pl_n (lp_poll l) \<Longrightarrow> slots l ! i = (the (pl_evts (lp_poll l) ! i), pfd_revents (pl_fds (lp_poll l) ! i))"
  by (simp add: slots_def)

lemma drop_slot_nth:
  assumes "i < length xs" "k < length xs - 1"
  shows "length (drop_slot i xs) = length xs - 1"
    "drop_slot i xs ! k = (if k = i then (fst (last xs), 0) else xs ! k)"
  using assms by (auto simp: drop_slot_def nth_butlast nth_list_update)

lemma del_slots:
  assumes ok: "loop_ok l" and e: "registered_at l e i" and del: "aem_poll_del fa ea e l = Some (rc, l')"
  shows "slots l' = drop_slot i (slots l)"
proof (rule nth_equalityI)
  let ?n = "pl_n (lp_poll l)"
  have i: "i < ?n" using e by (simp add: registered_at_def)
  note eff = del_effect [OF ok e del]
  show "length (slots l') = length (drop_slot i (slots l))"
    using i eff(3) drop_slot_nth(1) [of i "slots l"] by (cases "?n - 1") (auto simp: drop_slot_def)
  fix k assume "k < length (slots l')"
  then have k: "k < ?n - 1" using eff(3) by simp
  show "slots l' ! k = drop_slot i (slots l) ! k"
  proof (cases "k = i")
    case True
    then obtain lst where lst: "registered_at l lst (?n - 1)" "pl_evts (lp_poll l') ! i = Some lst"
        "pl_fds (lp_poll l') ! i = fresh_pollfd (lp_ev l lst)" using eff(7) k by auto
    have "slots l \<noteq> []" using i by (metis length_0_conv less_nat_zero_code slots_simps)
    then have "fst (last (slots l)) = lst" using lst(1) i by (simp add: last_conv_nth slots_nth registered_at_def)
    then show ?thesis using True k i lst(2,3) eff(3) drop_slot_nth(2) [of i "slots l" k] by (simp add: slots_nth)
  next
    case False
    then show ?thesis using k i eff(3) eff(6) [OF k False] drop_slot_nth(2) [of i "slots l" k] by (simp add: slots_nth)
  qed
qed

lemma same_registrations_refl: "same_registrations l l"
  by (simp add: same_registrations_def)

lemma check_all: "aem_poll_event_check evt (-1) = (ev_revents evt, evt\<lparr>ev_revents := 0\<rparr>)"
  by (simp add: aem_poll_event_check_def)

definition with_handlers :: "'app evloop \<Rightarrow> bool" where
  "with_handlers l \<longleftrightarrow> (\<forall>e. ev_on_event (lp_ev l e))"

text \<open>The three things that happen at a slot.\<close>

lemma recorder_idle:
  assumes ok: "loop_ok l" and i: "i < pl_n (lp_poll l)" and r: "pfd_revents (pl_fds (lp_poll l) ! i) = 0"
  shows "\<exists>l1. process_slot fa ea h i rc l = Some (i + 1, rc, l1) \<and> loop_ok l1 \<and> slots l1 = slots l \<and>
    lp_app l1 = lp_app l \<and> (with_handlers l \<longrightarrow> with_handlers l1)"
proof -
  obtain e where e: "registered_at l e i" using slot_registered [OF ok i] by blast
  let ?l1 = "upd_ev e (\<lambda>evt. evt\<lparr>ev_revents := 0\<rparr>) l"
  have "process_slot fa ea h i rc l = Some (i + 1, rc, ?l1)"
    using verify_ok [OF loop_okD(1) [OF ok] i loop_okD(2) [OF ok i]] e r
    by (simp add: process_slot_def registered_at_def)
  moreover have "loop_ok ?l1" by (rule same_registrations_ok [OF set_event_revents_same ok])
  ultimately show ?thesis by (auto simp: slots_def with_handlers_def)
qed

lemma recorder_stays:
  assumes ok: "loop_ok l" and e: "registered_at l e i" and r: "r = pfd_revents (pl_fds (lp_poll l) ! i)"
    "r \<noteq> 0" "r AND POLLHUP = 0" and hs: "with_handlers l"
  shows "\<exists>l1. process_slot fa ea (recorder fa ea) i rc l = Some (i + 1, rc - 1, l1) \<and> loop_ok l1 \<and>
    slots l1 = (slots l)[i := (e, 0)] \<and> lp_app l1 = lp_app l @ [(e, r)] \<and> with_handlers l1"
proof -
  note arr = loop_okD(1) [OF ok]
  have i: "i < pl_n (lp_poll l)" "pl_evts (lp_poll l) ! i = Some e" "ev_i (lp_ev l e) = int i" "i < 2 ^ 60"
    "i < length (pl_fds (lp_poll l))" "i < length (pl_evts (lp_poll l))"
    using e arrays_okD(1-3,6) [OF arr] by (auto simp: registered_at_def)
  let ?m = "(upd_ev e (\<lambda>evt. evt\<lparr>ev_revents := 0\<rparr>) l)\<lparr>lp_app := lp_app l @ [(e, r)]\<rparr>"
  let ?l3 = "upd_poll (\<lambda>p. p\<lparr>pl_fds := (pl_fds p)[i := (pl_fds p ! i)\<lparr>pfd_revents := 0\<rparr>]\<rparr>) ?m"
  have rec: "recorder fa ea e (upd_ev e (\<lambda>evt. evt\<lparr>ev_revents := r\<rparr>) l) = Some ?m"
    using r by (simp add: recorder_def check_all upd_ev_def)
  have "same_registrations ?l3 l" using i(5) by (auto simp: same_registrations_def nth_list_update)
  then have ok3: "loop_ok ?l3" by (rule same_registrations_ok [OF _ ok])
  have "aem_poll_event_verify ?l3 i = Some ()"
    using verify_ok [OF loop_okD(1) [OF ok3] _ loop_okD(2) [OF ok3]] i(1) by simp
  moreover have "upd_pollfd i (\<lambda>pf. pf\<lparr>pfd_revents := 0\<rparr>) ?m = Some ?l3" using i(5) by (simp add: upd_pollfd_def)
  moreover have "at (pl_evts (lp_poll ?l3)) i = Some (Some e)" using i by simp
  moreover have "ev_i (lp_ev ?m e) = int i" "c_size (int i) = i" using i by simp_all
  ultimately have "process_called fa ea (recorder fa ea) i e r (upd_ev e (\<lambda>evt. evt\<lparr>ev_revents := r\<rparr>) l) = Some (i + 1, ?l3)"
    using rec r(3) hs by (simp add: process_called_def with_handlers_def Let_def del: at_Some)
  then have "process_slot fa ea (recorder fa ea) i rc l = Some (i + 1, rc - 1, ?l3)"
    using verify_ok [OF arr i(1) loop_okD(2) [OF ok i(1)]] i r
    by (simp add: process_slot_def)
  moreover have "slots ?l3 = (slots l)[i := (e, 0)]"
    using i by (intro nth_equalityI) (auto simp: slots_nth nth_list_update)
  ultimately show ?thesis using ok3 hs by (auto simp: with_handlers_def)
qed

lemma recorder_leaves:
  assumes ok: "loop_ok l" and e: "registered_at l e i" and r: "r = pfd_revents (pl_fds (lp_poll l) ! i)"
    "r AND POLLHUP \<noteq> 0" and hs: "with_handlers l" and al: "\<And>b. al_ok fa b" "\<And>b. al_ok ea b"
  shows "\<exists>l1. process_slot fa ea (recorder fa ea) i rc l = Some (i, rc - 1, l1) \<and> loop_ok l1 \<and>
    slots l1 = drop_slot i (slots l) \<and> lp_app l1 = lp_app l @ [(e, r)] \<and> with_handlers l1"
proof -
  note arr = loop_okD(1) [OF ok]
  have i: "i < pl_n (lp_poll l)" "pl_evts (lp_poll l) ! i = Some e" using e by (auto simp: registered_at_def)
  let ?m = "(upd_ev e (\<lambda>evt. evt\<lparr>ev_revents := 0\<rparr>) l)\<lparr>lp_app := lp_app l @ [(e, r)]\<rparr>"
  have "same_registrations ?m l" by (auto simp: same_registrations_def)
  then have okm: "loop_ok ?m" by (rule same_registrations_ok [OF _ ok])
  have em: "registered_at ?m e i" using e by (auto simp: registered_at_def)
  obtain l1 where del: "aem_poll_del fa ea e ?m = Some (0, l1)" using del_granted [OF okm em al] by blast
  note eff = del_effect [OF okm em del]
  have rec: "recorder fa ea e (upd_ev e (\<lambda>evt. evt\<lparr>ev_revents := r\<rparr>) l) = Some l1"
    using r del by (simp add: recorder_def check_all upd_ev_def)
  have "process_called fa ea (recorder fa ea) i e r (upd_ev e (\<lambda>evt. evt\<lparr>ev_revents := r\<rparr>) l) = Some (i, l1)"
    using rec hs eff(4) by (simp add: process_called_def with_handlers_def)
  moreover have "r \<noteq> 0" using r by auto
  ultimately have "process_slot fa ea (recorder fa ea) i rc l = Some (i, rc - 1, l1)"
    using verify_ok [OF arr i(1) loop_okD(2) [OF ok i(1)]] i r
    by (simp add: process_slot_def)
  moreover have "slots l1 = drop_slot i (slots l)" using del_slots [OF okm em del] by (simp add: slots_def)
  moreover have "with_handlers l1" unfolding with_handlers_def
  proof
    fix x
    show "ev_on_event (lp_ev l1 x)"
      using hs eff(5) [of x] eff(10) by (cases "x = e") (auto simp: with_handlers_def)
  qed
  ultimately show ?thesis using eff(1,9) by simp
qed

text \<open>The loop follows the list.\<close>

lemma for_follows_calls:
  assumes "loop_ok l" "with_handlers l" "\<And>b. al_ok fa b" "\<And>b. al_ok ea b"
    and "poll_calls i (slots l) = (cs, ys)"
  shows "\<exists>l1. process_for fa ea (recorder fa ea) i rc l = Some (rc - int (length cs), l1) \<and> loop_ok l1 \<and>
    with_handlers l1 \<and> slots l1 = ys \<and> lp_app l1 = lp_app l @ cs"
  using assms(1,2,5)
proof (induction i "slots l" arbitrary: l rc cs ys rule: poll_calls.induct)
  case (1 i l)
  show ?case
  proof (cases "i < pl_n (lp_poll l)")
    case False
    then show ?thesis using "1.prems" by (subst process_for.simps) (auto simp: poll_calls.simps [of i "slots l"])
  next
    case True
    obtain e where e: "registered_at l e i" using slot_registered [OF "1.prems"(1) True] by blast
    define r where "r = pfd_revents (pl_fds (lp_poll l) ! i)"
    have at: "slots l ! i = (e, r)" "i < length (slots l)"
      using e True by (auto simp: slots_nth registered_at_def r_def)
    note calls = "1.prems"(3) [unfolded poll_calls.simps [of i "slots l"]]
    consider "r = 0" | "r \<noteq> 0" "r AND POLLHUP = 0" | "r AND POLLHUP \<noteq> 0" by blast
    then show ?thesis
    proof cases
      case 1
      obtain l1 where l1: "process_slot fa ea (recorder fa ea) i rc l = Some (i + 1, rc, l1)" "loop_ok l1"
          "slots l1 = slots l" "lp_app l1 = lp_app l" "with_handlers l1"
        using recorder_idle [OF "1.prems"(1) True] 1 "1.prems"(2) unfolding r_def by blast
      have "poll_calls (i + 1) (slots l1) = (cs, ys)" using calls at 1 l1(3) by simp
      from "1.hyps"(1) [OF at(2) at(1) [symmetric] refl 1 l1(3) [symmetric] l1(2,5) this, of rc] l1
      show ?thesis using True by (subst process_for.simps) simp
    next
      case 2
      obtain l1 where l1: "process_slot fa ea (recorder fa ea) i rc l = Some (i + 1, rc - 1, l1)" "loop_ok l1"
          "slots l1 = (slots l)[i := (e, 0)]" "lp_app l1 = lp_app l @ [(e, r)]" "with_handlers l1"
        using recorder_stays [OF "1.prems"(1) e r_def 2 "1.prems"(2)] by blast
      obtain cs' where cs: "cs = (e, r) # cs'" "poll_calls (i + 1) (slots l1) = (cs', ys)"
        using calls at 2 l1(3) by (auto simp: map_prod_def split: prod.splits)
      from "1.hyps"(3) [OF at(2) at(1) [symmetric] refl 2(1) _ l1(3) [symmetric] l1(2,5) cs(2), of "rc - 1"] 2 l1
      show ?thesis using True cs(1) by (subst process_for.simps) (auto simp: algebra_simps)
    next
      case 3
      then have "r \<noteq> 0" by auto
      obtain l1 where l1: "process_slot fa ea (recorder fa ea) i rc l = Some (i, rc - 1, l1)" "loop_ok l1"
          "slots l1 = drop_slot i (slots l)" "lp_app l1 = lp_app l @ [(e, r)]" "with_handlers l1"
        using recorder_leaves [OF "1.prems"(1) e r_def 3 "1.prems"(2) assms(3,4)] by blast
      obtain cs' where cs: "cs = (e, r) # cs'" "poll_calls i (slots l1) = (cs', ys)"
        using calls at 3 \<open>r \<noteq> 0\<close> l1(3) by (auto simp: map_prod_def split: prod.splits)
      from "1.hyps"(2) [OF at(2) at(1) [symmetric] refl \<open>r \<noteq> 0\<close> 3 l1(3) [symmetric] l1(2,5) cs(2), of "rc - 1"] l1
      show ?thesis using True cs(1) by (subst process_for.simps) (auto simp: algebra_simps)
    qed
  qed
qed

section \<open>The calls of one pass\<close>

lemma calls_clear:
  "poll_calls i xs = (cs, ys) \<Longrightarrow> \<forall>k < min i (length xs). snd (xs ! k) = 0 \<Longrightarrow> \<forall>y \<in> set ys. snd y = 0"
proof (induction i xs arbitrary: cs ys rule: poll_calls.induct)
  case (1 i xs)
  show ?case
  proof (cases "i < length xs")
    case False
    then have "ys = xs" "\<forall>k < length xs. snd (xs ! k) = 0"
      using "1.prems" by (simp_all add: poll_calls.simps [of i xs])
    then show ?thesis by (simp add: all_set_conv_all_nth)
  next
    case True
    obtain e r where at: "xs ! i = (e, r)" by fastforce
    note calls = "1.prems"(1) [unfolded poll_calls.simps [of i xs]]
    consider "r = 0" | "r \<noteq> 0" "r AND POLLHUP = 0" | "r AND POLLHUP \<noteq> 0" by blast
    then show ?thesis
    proof cases
      case 1
      have "poll_calls (i + 1) xs = (cs, ys)" using calls True at 1 by simp
      moreover have "\<forall>k < min (i + 1) (length xs). snd (xs ! k) = 0"
        using "1.prems"(2) at 1 by (auto simp: less_Suc_eq)
      ultimately show ?thesis using "1.IH"(1) [OF True at [symmetric] refl 1] by blast
    next
      case 2
      then obtain cs' where "poll_calls (i + 1) (xs[i := (e, 0)]) = (cs', ys)"
        using calls True at by (auto simp: map_prod_def split: prod.splits)
      moreover have "\<forall>k < min (i + 1) (length (xs[i := (e, 0)])). snd (xs[i := (e, 0)] ! k) = 0"
        using "1.prems"(2) by (auto simp: less_Suc_eq nth_list_update)
      ultimately show ?thesis using "1.IH"(3) [OF True at [symmetric] refl 2(1)] 2(2) by blast
    next
      case 3
      then have "r \<noteq> 0" by auto
      obtain cs' where "poll_calls i (drop_slot i xs) = (cs', ys)"
        using calls True at 3 \<open>r \<noteq> 0\<close> by (auto simp: map_prod_def split: prod.splits)
      moreover have "snd (drop_slot i xs ! k) = 0" if "k < min i (length (drop_slot i xs))" for k
      proof -
        have "length (drop_slot i xs) = length xs - 1" by (simp add: drop_slot_def)
        then show ?thesis using drop_slot_nth(2) [OF True, of k] that "1.prems"(2) by auto
      qed
      ultimately show ?thesis using "1.IH"(2) [OF True at [symmetric] refl \<open>r \<noteq> 0\<close> 3] by blast
    qed
  qed
qed

lemma calls_idle: "\<forall>k < length xs. i \<le> k \<longrightarrow> snd (xs ! k) = 0 \<Longrightarrow> poll_calls i xs = ([], xs)"
proof (induction "length xs - i" arbitrary: i)
  case 0
  then show ?case by (simp add: poll_calls.simps)
next
  case (Suc n)
  then have "poll_calls (i + 1) xs = ([], xs)" "i < length xs" by simp_all
  then show ?case using Suc.prems by (subst poll_calls.simps) (auto simp: Let_def split: prod.splits)
qed

text \<open>Without hang-ups every event with pending bits is called once, in the order of the slots.\<close>

lemma calls_no_hup:
  "\<forall>x \<in> set (drop i xs). snd x AND POLLHUP = 0 \<Longrightarrow>
     poll_calls i xs = (filter (\<lambda>x. snd x \<noteq> 0) (drop i xs), take i xs @ map (\<lambda>x. (fst x, 0)) (drop i xs))"
proof (induction "length xs - i" arbitrary: i xs)
  case 0
  then show ?case by (simp add: poll_calls.simps)
next
  case (Suc n)
  then have i: "i < length xs" by simp
  obtain e r where at: "xs ! i = (e, r)" by fastforce
  have d: "drop i xs = (e, r) # drop (i + 1) xs" using Cons_nth_drop_Suc [OF i] at by simp
  show ?case
  proof (cases "r = 0")
    case True
    then have "poll_calls (i + 1) xs = (filter (\<lambda>x. snd x \<noteq> 0) (drop (i + 1) xs),
        take (i + 1) xs @ map (\<lambda>x. (fst x, 0)) (drop (i + 1) xs))"
      using Suc.hyps(2) Suc.prems d by (intro Suc.hyps(1)) auto
    then show ?thesis using True i at d by (subst poll_calls.simps) (simp add: take_Suc_conv_app_nth)
  next
    case False
    let ?xs = "xs[i := (e, 0)]"
    have "poll_calls (i + 1) ?xs = (filter (\<lambda>x. snd x \<noteq> 0) (drop (i + 1) ?xs),
        take (i + 1) ?xs @ map (\<lambda>x. (fst x, 0)) (drop (i + 1) ?xs))"
      using Suc.hyps(2) Suc.prems d by (intro Suc.hyps(1)) auto
    then show ?thesis using False i at d Suc.prems
      by (subst poll_calls.simps) (simp add: take_Suc_list_update)
  qed
qed

text \<open>When every event hangs up, a pass reaches the first half only: each call moves an event from
  the end to a slot that is then passed over.\<close>

lemma calls_all_hup:
  "\<forall>x \<in> set ys. snd x AND POLLHUP \<noteq> 0 \<Longrightarrow> i = length zs \<Longrightarrow>
     poll_calls i (zs @ ys) = (take ((length ys + 1) div 2) ys,
       zs @ map (\<lambda>x. (fst x, 0)) (rev (drop ((length ys + 1) div 2) ys)))"
proof (induction "length ys" arbitrary: i zs ys rule: less_induct)
  case less
  show ?case
  proof (cases ys)
    case Nil
    then show ?thesis using less.prems by (simp add: poll_calls.simps)
  next
    case (Cons y ys')
    obtain e r where y: "y = (e, r)" by fastforce
    then have hup: "r AND POLLHUP \<noteq> 0" "r \<noteq> 0" using less.prems(1) Cons by auto
    have unf: "poll_calls i (zs @ ys) = map_prod (Cons y) (\<lambda>l. l) (poll_calls i (drop_slot i (zs @ ys)))"
      using less.prems(2) Cons y hup by (subst poll_calls.simps) simp
    show ?thesis
    proof (cases ys' rule: rev_cases)
      case Nil
      then have "drop_slot i (zs @ ys) = zs" using less.prems(2) Cons by (simp add: drop_slot_def)
      then show ?thesis using unf less.prems(2) Cons Nil by (simp add: poll_calls.simps)
    next
      case (snoc cs z)
      let ?z = "(fst z, 0)"
      have dr: "drop_slot i (zs @ ys) = (zs @ [?z]) @ cs"
        using less.prems(2) Cons snoc by (simp add: drop_slot_def butlast_append)
      have "poll_calls i ((zs @ [?z]) @ cs) = poll_calls (i + 1) ((zs @ [?z]) @ cs)"
        using less.prems(2) by (subst poll_calls.simps) simp
      also have "\<dots> = (take ((length cs + 1) div 2) cs,
          (zs @ [?z]) @ map (\<lambda>x. (fst x, 0)) (rev (drop ((length cs + 1) div 2) cs)))"
        by (rule less.hyps) (use less.prems Cons snoc in auto)
      finally have rest: "poll_calls i ((zs @ [?z]) @ cs) = (take ((length cs + 1) div 2) cs,
          (zs @ [?z]) @ map (\<lambda>x. (fst x, 0)) (rev (drop ((length cs + 1) div 2) cs)))" .
      have "(length cs + 2 + 1) div 2 = Suc ((length cs + 1) div 2)" "(length cs + 1) div 2 \<le> length cs"
        by arith+
      then have "(length ys + 1) div 2 = Suc ((length cs + 1) div 2)" "(length cs + 1) div 2 \<le> length cs"
        using Cons snoc by simp_all
      then show ?thesis using unf dr rest Cons snoc by simp
    qed
  qed
qed

section \<open>Properties\<close>

lemma process_follows_calls:
  assumes ok: "loop_ok l" "with_handlers l" "\<And>b. al_ok fa b" "\<And>b. al_ok ea b" and rc: "0 \<le> pl_rc (lp_poll l)"
    and calls: "poll_calls 0 (slots l) = (cs, ys)"
  shows "\<exists>l1. aem_poll_process fa ea (recorder fa ea) l = Some (pl_rc (lp_poll l) - int (length cs), l1) \<and>
    loop_ok l1 \<and> slots l1 = ys \<and> lp_app l1 = lp_app l @ cs"
proof -
  let ?rc = "pl_rc (lp_poll l)" and ?rc1 = "pl_rc (lp_poll l) - int (length cs)"
  obtain l1 where l1: "process_for fa ea (recorder fa ea) 0 ?rc l = Some (?rc1, l1)" "loop_ok l1"
      "with_handlers l1" "slots l1 = ys" "lp_app l1 = lp_app l @ cs"
    using for_follows_calls [OF ok calls, of ?rc] by blast
  have "\<forall>y \<in> set ys. snd y = 0" using calls_clear [OF calls] by simp
  then have idle: "poll_calls 0 (slots l1) = ([], ys)" using calls_idle [of ys 0] l1(4) by simp
  obtain l2 where l2: "process_for fa ea (recorder fa ea) 0 ?rc1 l1 = Some (?rc1, l2)" "loop_ok l2"
      "slots l2 = ys" "lp_app l2 = lp_app l @ cs"
    using for_follows_calls [OF l1(2,3) ok(3,4) idle, of ?rc1] l1(5) by auto
  have second: "process_rounds fa ea (recorder fa ea) ?rc1 l1 = Some (?rc1, l2)"
    by (subst process_rounds.simps) (simp add: l2(1))
  have "process_rounds fa ea (recorder fa ea) ?rc l = Some (?rc1, if cs = [] \<or> ?rc1 \<le> 0 then l1 else l2)"
    by (subst process_rounds.simps) (use l1(1) second in \<open>auto simp: not_less\<close>)
  then show ?thesis using rc l1 l2 by (auto simp: aem_poll_process_def)
qed

text \<open>C32: In every event loop that can be reached, by any calls of the client and its
  handlers, an event is not registered or sits in the slot it names; every slot in use holds exactly
  one event, and the entry for the system call mirrors its descriptor and its events; and the arrays
  have room for at least the registered events and at most eight times as many (or eight).\<close>

theorem poll_consistent:
  assumes "poll_reached fa ea l"
  shows "(ev_i (lp_ev l e) = -1 \<or> registered_at l e (nat (ev_i (lp_ev l e)))) \<and>
    (i < pl_n (lp_poll l) \<longrightarrow> (\<exists>e. registered_at l e i \<and>
      0 \<le> ev_fd (lp_ev l e) \<and> pfd_fd (pl_fds (lp_poll l) ! i) = ev_fd (lp_ev l e) \<and>
      pfd_events (pl_fds (lp_poll l) ! i) = ev_events (lp_ev l e) \<and>
      (\<forall>e'. ev_i (lp_ev l e') = int i \<longrightarrow> e' = e))) \<and>
    pl_n (lp_poll l) \<le> length (pl_fds (lp_poll l)) \<and> length (pl_evts (lp_poll l)) = length (pl_fds (lp_poll l)) \<and>
    length (pl_fds (lp_poll l)) \<le> max 8 (8 * pl_n (lp_poll l))"
proof -
  have ok: "loop_ok l" using reached_loop_ok [OF assms] .
  note arr = arrays_okD [OF loop_okD(1) [OF ok]]
  have held: "registered_at l e (nat (ev_i (lp_ev l e)))" if "ev_i (lp_ev l e) \<noteq> -1"
    using loop_okD(3) [OF ok that] by (auto simp: registered_at_def)
  have slot: "\<exists>e. registered_at l e i \<and> 0 \<le> ev_fd (lp_ev l e) \<and>
      pfd_fd (pl_fds (lp_poll l) ! i) = ev_fd (lp_ev l e) \<and>
      pfd_events (pl_fds (lp_poll l) ! i) = ev_events (lp_ev l e) \<and>
      (\<forall>e'. ev_i (lp_ev l e') = int i \<longrightarrow> e' = e)" if i: "i < pl_n (lp_poll l)"
  proof -
    obtain x where x: "pl_evts (lp_poll l) ! i = Some x" "ev_i (lp_ev l x) = int i" "0 \<le> ev_fd (lp_ev l x)"
        "pfd_fd (pl_fds (lp_poll l) ! i) = ev_fd (lp_ev l x)"
        "pfd_events (pl_fds (lp_poll l) ! i) = ev_events (lp_ev l x)"
      using slot_okE [OF loop_okD(2) [OF ok i]] by metis
    have uniq: "\<forall>e'. ev_i (lp_ev l e') = int i \<longrightarrow> e' = x"
    proof (intro allI impI)
      fix e' assume "ev_i (lp_ev l e') = int i"
      then show "e' = x" using loop_okD(3) [OF ok, of e'] x(1) by (auto simp: registered_at_def)
    qed
    show ?thesis by (intro exI [of _ x] conjI uniq) (use x i in \<open>simp_all add: registered_at_def\<close>)
  qed
  show ?thesis
    by (intro conjI impI slot) (use held arr in auto)
qed

text \<open>C33: With handlers that record their calls, check off their bits and deregister their
  event on a hang-up, dispatching always returns, and makes exactly the calls of one pass over the
  list of slots; what it returns is the number of events the system call reported less those calls.
  If nothing hangs up, those are all events with pending bits, each once, with its bits, in order.\<close>

theorem poll_dispatch:
  assumes "poll_reached fa ea l" "\<forall>e. ev_on_event (lp_ev l e)" "\<forall>b. al_ok fa b \<and> al_ok ea b"
    and "0 \<le> pl_rc (lp_poll l)" "poll_calls 0 (slots l) = (calls, rest)"
  shows "(\<exists>l'. aem_poll_process fa ea (recorder fa ea) l = Some (pl_rc (lp_poll l) - int (length calls), l') \<and>
      slots l' = rest \<and> lp_app l' = lp_app l @ calls) \<and>
    ((\<forall>x \<in> set (slots l). snd x AND POLLHUP = 0) \<longrightarrow>
      calls = filter (\<lambda>x. snd x \<noteq> 0) (slots l) \<and> map fst rest = map fst (slots l))"
proof -
  have "calls = filter (\<lambda>x. snd x \<noteq> 0) (slots l) \<and> map fst rest = map fst (slots l)"
    if "\<forall>x \<in> set (slots l). snd x AND POLLHUP = 0"
    using calls_no_hup [of 0 "slots l"] that assms(5) by auto
  moreover have "with_handlers l" "\<And>b. al_ok fa b" "\<And>b. al_ok ea b" using assms(2,3) by (auto simp: with_handlers_def)
  ultimately show ?thesis
    using process_follows_calls [OF reached_loop_ok [OF assms(1)] _ _ _ assms(4,5), of fa ea] by blast
qed

text \<open>C34: When a hang-up is sent to all of \<open>n\<close> events whose handlers deregister them, exactly
  the first \<open>(n + 1) div 2\<close> of them are told; the others stay registered and are never called. (The
  deregistration of an event moves the last one to its slot and clears its \<open>revents\<close>.)\<close>

theorem hup_all_reaches_half:
  assumes "poll_reached fa ea l" "\<forall>e. ev_on_event (lp_ev l e)" "\<forall>b. al_ok fa b \<and> al_ok ea b"
    and "pl_n (lp_poll l) < 2 ^ 31"
  shows "\<exists>l'. aem_poll_hup_all fa ea (recorder fa ea) debug l = Some l' \<and>
    lp_app l' = lp_app l @ map (\<lambda>(e, r). (e, r OR POLLHUP)) (take ((pl_n (lp_poll l) + 1) div 2) (slots l)) \<and>
    map fst (slots l') = map fst (rev (drop ((pl_n (lp_poll l) + 1) div 2) (slots l)))"
proof -
  have ok: "loop_ok l" using reached_loop_ok [OF assms(1)] .
  note arr = arrays_okD [OF loop_okD(1) [OF ok]]
  let ?p = "lp_poll l" and ?n = "pl_n (lp_poll l)" and ?hup = "\<lambda>(e :: nat, r :: u16). (e, r OR POLLHUP)"
  let ?l1 = "l\<lparr>lp_poll := ?p\<lparr>pl_fds := set_revents (\<lambda>pf. pfd_revents pf OR POLLHUP) ?n (pl_fds ?p),
      pl_rc := c_int (int ?n)\<rparr>\<rparr>"
  have "same_registrations ?l1 l"
    using arr by (auto simp: same_registrations_def set_revents_def nth_append)
  then have ok1: "loop_ok ?l1" using ok by (rule same_registrations_ok)
  have rc: "c_int (int ?n) = int ?n"
    unfolding c_int_def by (rule signed_take_bit_int_eq_self) (use assms(4) in auto)
  have s1: "slots ?l1 = map ?hup (slots l)"
    using arr by (auto simp: slots_def set_revents_def nth_append)
  have "(b OR POLLHUP) AND POLLHUP = POLLHUP" for b :: u16
    by (simp add: bit_eq_iff)
  then have "\<forall>x \<in> set (map ?hup (slots l)). snd x AND POLLHUP \<noteq> 0" by (auto simp: POLLHUP_def)
  from calls_all_hup [OF this, of 0 "[]"]
  have calls: "poll_calls 0 (slots ?l1) = (map ?hup (take ((?n + 1) div 2) (slots l)),
      map (\<lambda>x. (fst x, 0)) (rev (drop ((?n + 1) div 2) (map ?hup (slots l)))))"
    unfolding s1 by (simp add: take_map)
  have "debug \<Longrightarrow> aem_poll_verify l = Some ()"
    using verify_ok [OF loop_okD(1) [OF ok] _ loop_okD(2) [OF ok]] by (auto simp: aem_poll_verify_def)
  moreover obtain l' where "aem_poll_process fa ea (recorder fa ea) ?l1 = Some (pl_rc (lp_poll ?l1) -
        int (length (map ?hup (take ((?n + 1) div 2) (slots l)))), l')"
      "slots l' = map (\<lambda>x. (fst x, 0)) (rev (drop ((?n + 1) div 2) (map ?hup (slots l))))"
      "lp_app l' = lp_app ?l1 @ map ?hup (take ((?n + 1) div 2) (slots l))"
    using process_follows_calls [OF ok1 _ _ _ _ calls, of fa ea] assms(2,3) rc
    by (auto simp: with_handlers_def)
  ultimately show ?thesis using arr(1,2)
    by (auto simp: aem_poll_hup_all_def Let_def drop_map rev_map comp_def case_prod_beta)
qed

section \<open>A loop with three events\<close>

text \<open>The events \<open>0\<close>, \<open>1\<close>, \<open>2\<close>, ... with the descriptors \<open>3\<close>, \<open>4\<close>, \<open>5\<close>, ...; the first \<open>k\<close> are registered.\<close>

definition demo_fa :: "pollfd allocator" where
  "demo_fa = \<lparr>al_ok = \<lambda>_. True, al_junk = \<lparr>pfd_fd = 0, pfd_events = 0, pfd_revents = 0\<rparr>\<rparr>"
definition demo_ea :: "nat ptr allocator" where
  "demo_ea = \<lparr>al_ok = \<lambda>_. True, al_junk = None\<rparr>"

definition demo_event :: "nat \<Rightarrow> nat \<Rightarrow> poll_event" where
  "demo_event k e = \<lparr>ev_on_event = True, ev_i = if e < k then int e else -1, ev_fd = int e + 3,
     ev_events = POLLIN OR POLLOUT, ev_revents = 0\<rparr>"

definition demo_loop :: "nat \<Rightarrow> (nat \<times> u16) list evloop" where
  "demo_loop k = \<lparr>lp_poll = \<lparr>pl_n = k, pl_maxn = 8,
       pl_fds = map (\<lambda>e. fresh_pollfd (demo_event k e)) [0..<k] @ replicate (8 - k) (al_junk demo_fa),
       pl_evts = map Some [0..<k] @ replicate (8 - k) None, pl_rc = 0\<rparr>,
     lp_ev = demo_event k, lp_app = []\<rparr>"

lemma demo_add:
  assumes "k < 8"
  shows "aem_poll_add demo_fa demo_ea k (demo_loop k) = Some (int k, demo_loop (k + 1))"
proof -
  have fr: "fresh_pollfd (demo_event k e) = \<lparr>pfd_fd = int e + 3, pfd_events = POLLIN OR POLLOUT, pfd_revents = 0\<rparr>" for k e
    by (simp add: demo_event_def fresh_pollfd_def)
  have ev: "(demo_event k)(k := (demo_event k k)\<lparr>ev_i := int k\<rparr>) = demo_event (Suc k)"
    by (auto simp: demo_event_def fun_eq_iff)
  have r: "replicate (8 - k) x = x # replicate (8 - Suc k) x" for x :: 'c
    using assms by (simp add: Suc_diff_Suc flip: replicate_Suc)
  show ?thesis
    using assms ev fr
    by (simp add: aem_poll_add_def aem_poll_assign_def demo_loop_def upd_ev_def Let_def r)
      (simp add: demo_event_def list_update_append)
qed

lemma demo_reached: "k \<le> 8 \<Longrightarrow> poll_reached demo_fa demo_ea (demo_loop k)"
proof (induction k)
  case 0
  have "poll_block demo_fa [] 8 = replicate 8 (al_junk demo_fa)" "poll_block demo_ea [] 8 = replicate 8 None"
    by (simp_all add: poll_block_def alloc_granted_def demo_fa_def demo_ea_def PTRDIFF_MAX_def realloc_content_def)
  then show ?case
    by (intro poll_reached.start) (simp_all add: demo_loop_def aem_poll_init_def demo_event_def)
next
  case (Suc k)
  then show ?case using demo_add [of k] by (auto intro: poll_reached.step poll_step.add)
qed

lemma demo_three: "slots (demo_loop 3) = [(0, 0), (1, 0), (2, 0)]" "pl_n (lp_poll (demo_loop 3)) = 3"
  "\<forall>e. ev_on_event (lp_ev (demo_loop 3) e)" "\<forall>b. al_ok demo_fa b \<and> al_ok demo_ea b"
  "lp_app (demo_loop 3) = []"
  by (simp_all add: demo_loop_def slots_def demo_event_def demo_fa_def demo_ea_def upt_conv_Cons numeral_eq_Suc)

theorem poll_consistent_witness:
  "ev_i (lp_ev (demo_loop 3) 2) = 2 \<and> registered_at (demo_loop 3) 2 2"
proof -
  have "ev_i (lp_ev (demo_loop 3) 2) = 2" by (simp add: demo_loop_def demo_event_def)
  then show ?thesis using poll_consistent [OF demo_reached, of 3 2] by simp
qed

text \<open>The system call reports two events.\<close>
theorem poll_dispatch_witness:
  "\<exists>l l'. aem_poll_wait True (\<lambda>_. (2, [POLLIN, 0, POLLOUT])) (demo_loop 3) = Some (2, l) \<and>
     aem_poll_process demo_fa demo_ea (recorder demo_fa demo_ea) l = Some (0, l') \<and>
     lp_app l' = [(0, POLLIN), (2, POLLOUT)]"
proof -
  have ok: "loop_ok (demo_loop 3)" by (rule reached_loop_ok [OF demo_reached]) simp
  then have "aem_poll_verify (demo_loop 3) = Some ()"
    using verify_ok [OF loop_okD(1) [OF ok] _ loop_okD(2) [OF ok]] by (auto simp: aem_poll_verify_def)
  then obtain l where w: "aem_poll_wait True (\<lambda>_. (2, [POLLIN, 0, POLLOUT])) (demo_loop 3) = Some (2, l)"
      "slots l = [(0, POLLIN), (1, 0), (2, POLLOUT)]" "pl_rc (lp_poll l) = 2" "lp_app l = []"
      "\<forall>e. ev_on_event (lp_ev l e)"
    by (auto simp: aem_poll_wait_def demo_loop_def slots_def demo_event_def upt_conv_Cons numeral_eq_Suc)
  obtain calls rest where c: "poll_calls 0 (slots l) = (calls, rest)" by fastforce
  have "poll_reached demo_fa demo_ea l" using demo_reached [of 3] w(1) by (auto intro: poll_reached.wait)
  from poll_dispatch [OF this w(5) demo_three(4) _ c] show ?thesis
    using w by (auto simp: POLLIN_def POLLOUT_def POLLHUP_def)
qed

theorem hup_all_reaches_half_witness:
  "\<exists>l'. aem_poll_hup_all demo_fa demo_ea (recorder demo_fa demo_ea) True (demo_loop 3) = Some l' \<and>
     lp_app l' = [(0, POLLHUP), (1, POLLHUP)] \<and> map fst (slots l') = [2]"
  using hup_all_reaches_half [OF demo_reached [of 3] demo_three(3,4), of True]
  by (simp add: demo_three)

end
