(* ===== verification/Aem_Ansi.thy ===== *)
theory Aem_Ansi
  imports Aem_Utf8
begin

text \<open>
  \<open>ansi-term.c\<close>: terminal escape sequences in text. A control sequence is \<open>ESC [\<close>, parameter bytes,
  intermediate bytes and a final byte. Stripping a buffer in place reads and writes one block; the
  model of that function reads the block as it is at each moment. \<open>None\<close> is a loop that does
  not end, or reading a block after it was moved.
\<close>

section \<open>Control sequences\<close>

text \<open>The loop \<open>while (lo <= c && c < hi) c = getc(&curr)\<close>.\<close>
function csi_skip :: "nat \<Rightarrow> nat \<Rightarrow> int \<Rightarrow> stringslice \<Rightarrow> int \<times> stringslice" where
  "csi_skip lo hi c cur =
     (if int lo \<le> c \<and> c < int hi then let (c1, cur1) = aem_stringslice_getc cur in csi_skip lo hi c1 cur1
      else (c, cur))"
  by pat_completeness auto
termination
  by (relation "measure (\<lambda>(lo, hi, c, cur). length (ss_bytes cur) + (if 0 \<le> c then 1 else 0))")
    (auto simp: aem_stringslice_getc_def split: if_splits)

declare csi_skip.simps [simp del]

text \<open>The sequence after its introducer, and the input behind it; an empty slice if there is none.\<close>
definition aem_ansi_match_csi :: "stringslice \<Rightarrow> stringslice \<times> stringslice" where
  "aem_ansi_match_csi inp =
     (let (m, cur) = aem_stringslice_match inp [0x1b, 0x5b]
      in if \<not> m then (AEM_STRINGSLICE_EMPTY, inp)
         else
           let out = cur;
               (c1, cur1) = aem_stringslice_getc cur;
               (c2, cur2) = csi_skip 0x30 0x40 c1 cur1;
               (c3, cur3) = csi_skip 0x20 0x30 c2 cur2
           in if \<not> (0x40 \<le> c3 \<and> c3 \<le> 0x7F) then (AEM_STRINGSLICE_EMPTY, inp)
              else (ss_set_end out (ss_start cur3), cur3))"

text \<open>The same on bytes: what follows a control sequence at the start of \<open>bs\<close>.\<close>
definition csi_rest :: "u8 list \<Rightarrow> u8 list option" where
  "csi_rest bs =
     (if take 2 bs = [0x1b, 0x5b] then
        (case dropWhile (\<lambda>b. 0x20 \<le> uchar b \<and> uchar b < 0x30) (dropWhile (\<lambda>b. 0x30 \<le> uchar b \<and> uchar b < 0x40) (drop 2 bs)) of
           [] \<Rightarrow> None
         | f # rest \<Rightarrow> if 0x40 \<le> uchar f \<and> uchar f \<le> 0x7F then Some rest else None)
      else None)"

text \<open>The slice that spans the last bytes \<open>rest\<close> of \<open>sl\<close>.\<close>
definition behind :: "stringslice \<Rightarrow> u8 list \<Rightarrow> stringslice" where
  "behind sl rest = ss_advance sl (length (ss_bytes sl) - length rest)"

lemma behind_simps [simp]:
  "ss_bytes sl = pre @ rest \<Longrightarrow> ss_bytes (behind sl rest) = rest"
  "ss_bytes sl = pre @ rest \<Longrightarrow> ss_start (behind sl rest) = ss_start sl + length pre"
  by (auto simp: behind_def)

lemma csi_skip_spec:
  "csi_skip lo hi (uchar b) sl =
     (case dropWhile (\<lambda>b. int lo \<le> uchar b \<and> uchar b < int hi) (b # ss_bytes sl) of
        [] \<Rightarrow> (-1, ss_advance sl (length (ss_bytes sl)))
      | f # rest \<Rightarrow> (uchar f, behind sl rest))"
proof (induction "ss_bytes sl" arbitrary: b sl)
  case Nil
  then have "csi_skip lo hi (-1) sl = (-1, sl)" by (subst csi_skip.simps) simp
  moreover have "aem_stringslice_getc sl = (-1, sl)" using Nil by (intro getc_simps(1)) simp
  ultimately show ?case using Nil
    by (subst csi_skip.simps) (simp add: behind_def)
next
  case (Cons d ds)
  have sl: "ss_bytes sl = d # ds" using Cons.hyps(2) by simp
  have g: "aem_stringslice_getc sl = (uchar d, ss_advance sl 1)" using sl by (rule getc_simps(2))
  have ih: "csi_skip lo hi (uchar d) (ss_advance sl 1) =
     (case dropWhile (\<lambda>b. int lo \<le> uchar b \<and> uchar b < int hi) (d # ss_bytes (ss_advance sl 1)) of
        [] \<Rightarrow> (-1, ss_advance (ss_advance sl 1) (length (ss_bytes (ss_advance sl 1))))
      | f # rest \<Rightarrow> (uchar f, behind (ss_advance sl 1) rest))"
    by (rule Cons.hyps(1)) (simp add: sl)
  let ?P = "\<lambda>b. int lo \<le> uchar b \<and> uchar b < int hi"
  have beh: "behind (ss_advance sl 1) rest = behind sl rest" if "length rest \<le> length ds" for rest
    using that sl by (simp add: behind_def Suc_diff_le)
  show ?case
  proof (cases "int lo \<le> uchar b \<and> uchar b < int hi")
    case False
    then show ?thesis using sl by (subst csi_skip.simps) (auto simp: behind_def)
  next
    case True
    then have "csi_skip lo hi (uchar b) sl = csi_skip lo hi (uchar d) (ss_advance sl 1)"
      by (subst csi_skip.simps) (simp add: g)
    moreover have "dropWhile ?P (b # ss_bytes sl) = dropWhile ?P (d # ds)" using True sl by simp
    moreover have "length rest \<le> length ds" if "dropWhile ?P (d # ds) = f # rest" for f rest
      using arg_cong [OF that, of length] length_dropWhile_le [of ?P "d # ds"] by simp
    ultimately show ?thesis using ih sl beh by (cases "dropWhile ?P (d # ds)") simp_all
  qed
qed

lemma behind_suffix:
  assumes "suffix rest (ss_bytes sl)"
  shows "ss_bytes (behind sl rest) = rest" "length rest \<le> length (ss_bytes sl)"
    "suffix r rest \<Longrightarrow> behind (behind sl rest) r = behind sl r"
proof -
  show b: "ss_bytes (behind sl rest) = rest" using assms by (auto simp: suffix_def)
  show l: "length rest \<le> length (ss_bytes sl)" using suffix_length_le [OF assms] .
  assume "suffix r rest"
  from suffix_length_le [OF this] l show "behind (behind sl rest) r = behind sl r"
    by (subst (1) behind_def) (simp add: b, simp add: behind_def)
qed

lemma behind_advance:
  assumes "suffix rest (drop k (ss_bytes sl))" "k \<le> length (ss_bytes sl)"
  shows "behind (ss_advance sl k) rest = behind sl rest"
  using suffix_length_le [OF assms(1)] assms(2) by (simp add: behind_def)

lemma suffix_tails: "suffix (f # r) (b # t) \<Longrightarrow> suffix r t"
  by (auto simp: suffix_Cons dest: suffix_ConsD)

lemma csi_skip_eof: "csi_skip lo hi (-1) sl = (-1, sl)"
  by (subst csi_skip.simps) simp

lemma csi_skip_cases:
  obtains (eof) sl' where "csi_skip lo hi (uchar b) sl = (-1, sl')"
      "dropWhile (\<lambda>b. int lo \<le> uchar b \<and> uchar b < int hi) (b # ss_bytes sl) = []"
  | (stopped) f r where "csi_skip lo hi (uchar b) sl = (uchar f, behind sl r)" "suffix r (ss_bytes sl)"
      "dropWhile (\<lambda>b. int lo \<le> uchar b \<and> uchar b < int hi) (b # ss_bytes sl) = f # r"
proof (cases "dropWhile (\<lambda>b. int lo \<le> uchar b \<and> uchar b < int hi) (b # ss_bytes sl)")
  case Nil
  then show ?thesis using csi_skip_spec [of lo hi b sl] by (intro eof) simp_all
next
  case (Cons f r)
  have "suffix (f # r) (b # ss_bytes sl)" unfolding Cons [symmetric] by (rule suffix_dropWhile)
  then show ?thesis using Cons csi_skip_spec [of lo hi b sl] by (intro stopped) (simp_all add: suffix_tails)
qed

lemma match_csi_spec:
  "case csi_rest (ss_bytes sl) of
     None \<Rightarrow> aem_ansi_match_csi sl = (AEM_STRINGSLICE_EMPTY, sl)
   | Some rest \<Rightarrow> (\<exists>out. aem_ansi_match_csi sl = (out, behind sl rest) \<and> ss_bytes out \<noteq> []) \<and>
       suffix rest (ss_bytes sl) \<and> length rest + 3 \<le> length (ss_bytes sl)"
proof (cases "take 2 (ss_bytes sl) = [0x1b, 0x5b]")
  case False
  have "prefix [0x1b, 0x5b] (ss_bytes sl) \<Longrightarrow> take 2 (ss_bytes sl) = [0x1b, 0x5b]"
    by (auto simp: prefix_def)
  then show ?thesis using False by (auto simp: csi_rest_def aem_ansi_match_csi_def match_spec)
next
  case True
  then obtain t where t: "ss_bytes sl = 0x1b # 0x5b # t" by (metis append_Cons append_Nil append_take_drop_id)
  let ?cur = "ss_advance sl 2"
  have m: "aem_stringslice_match sl [0x1b, 0x5b] = (True, ?cur)" "ss_bytes ?cur = t"
    using t by (simp_all add: match_spec numeral_2_eq_2)
  show ?thesis
  proof (cases t)
    case Nil
    then have "aem_stringslice_getc ?cur = (-1, ?cur)" using m(2) by (intro getc_simps(1)) simp
    then show ?thesis using t Nil m by (simp add: csi_rest_def aem_ansi_match_csi_def csi_skip_eof)
  next
    case (Cons b t')
    let ?cur1 = "ss_advance ?cur 1"
    have g: "aem_stringslice_getc ?cur = (uchar b, ?cur1)" using Cons m(2) by (intro getc_simps(2)) simp
    have b1: "ss_bytes ?cur1 = t'" using Cons t by (simp add: numeral_3_eq_3)
    show ?thesis
    proof (cases rule: csi_skip_cases [of "0x30" "0x40" b ?cur1])
      case (eof sl')
      then show ?thesis using t Cons m(1) g b1
        by (simp add: csi_rest_def aem_ansi_match_csi_def csi_skip_eof del: dropWhile_eq_Nil_conv dropWhile.simps(2))
    next
      case (stopped f r)
      let ?cur2 = "behind ?cur1 r"
      have b2: "ss_bytes ?cur2 = r" using behind_suffix(1) [OF stopped(2)] .
      show ?thesis
      proof (cases rule: csi_skip_cases [of "0x20" "0x30" f ?cur2])
        case (eof sl')
        then show ?thesis using t Cons m(1) g b1 b2 stopped
          by (simp add: csi_rest_def aem_ansi_match_csi_def del: dropWhile_eq_Nil_conv dropWhile.simps(2))
      next
        case (stopped g' r2)
        have suf: "suffix r2 r" "suffix r t'" using stopped(2) b2 \<open>suffix r (ss_bytes ?cur1)\<close> b1 by simp_all
        then have r2: "suffix r2 t'" by (rule suffix_order.trans)
        have cur3: "behind ?cur2 r2 = behind sl r2"
          using behind_suffix(3) [OF \<open>suffix r (ss_bytes ?cur1)\<close> suf(1)] behind_advance [of r2 3 sl] r2 t Cons b1
          by (simp add: numeral_3_eq_3)
        have suf_sl: "suffix r2 (ss_bytes sl)" using r2 t Cons by (simp add: suffix_Cons)
        have len: "length r2 \<le> length t'" using suffix_length_le suf by (metis le_trans)
        have out: "ss_bytes (ss_set_end ?cur (ss_start (behind sl r2))) \<noteq> []"
          using len t Cons by (simp add: behind_def)
        show ?thesis using t Cons m(1) g b1 b2 stopped cur3 suf_sl out len
            \<open>csi_skip 0x30 0x40 (uchar b) ?cur1 = (uchar f, behind ?cur1 r)\<close>
            \<open>dropWhile (\<lambda>b. int 0x30 \<le> uchar b \<and> uchar b < int 0x40) (b # ss_bytes ?cur1) = f # r\<close>
          by (auto simp: csi_rest_def aem_ansi_match_csi_def simp del: dropWhile_eq_Nil_conv dropWhile.simps(2))
      qed
    qed
  qed
qed

lemma match_csi_shorter:
  assumes "aem_ansi_match_csi sl = (out, sl')" "ss_bytes out \<noteq> []"
  shows "length (ss_bytes sl') < length (ss_bytes sl)" "ss_start sl + 3 \<le> ss_start sl'"
    "\<exists>rest. csi_rest (ss_bytes sl) = Some rest \<and> sl' = behind sl rest"
  using match_csi_spec [of sl] assms behind_suffix(1) [of _ sl]
  by (auto split: option.splits simp: behind_def)

section \<open>Stripping\<close>

function aem_ansi_strip :: "u8 allocator \<Rightarrow> stringbuf \<Rightarrow> stringslice \<Rightarrow> stringbuf option" where
  "aem_ansi_strip al out inp =
     (if aem_stringslice_ok inp then
        let (csi, inp1) = aem_ansi_match_csi inp
        in if aem_stringslice_ok csi then aem_ansi_strip al out inp1
           else
             let (c, inp2) = aem_stringslice_getc inp1
             in if c < 0 then Some out
                else do { b \<leftarrow> aem_stringbuf_putc al out (word_of_int c); aem_ansi_strip al b inp2 }
      else Some out)"
  by pat_completeness auto

lemma match_csi_no: "aem_ansi_match_csi sl = (out, sl') \<Longrightarrow> ss_bytes out = [] \<Longrightarrow> sl' = sl"
  using match_csi_spec [of sl] by (auto split: option.splits)

termination aem_ansi_strip
proof (relation "measure (\<lambda>(al, out, inp). length (ss_bytes inp))", goal_cases)
  case 1
  then show ?case by simp
next
  case (2 al out inp p csi inp1)
  then show ?case using match_csi_shorter(1) [of inp csi inp1] by simp
next
  case (3 al out inp p csi inp1 q c inp2 b)
  then have "inp1 = inp" using match_csi_no [of inp csi inp1] by simp
  then show ?case using 3 by (auto simp: aem_stringslice_getc_def split: if_splits)
qed

text \<open>Stripping the buffer \<open>b\<close> in place: \<open>pos\<close> and \<open>stop\<close> are the offsets of the source's ends in the
  block that is also written.\<close>
function strip_inplace_loop :: "u8 allocator \<Rightarrow> stringbuf \<Rightarrow> nat \<Rightarrow> nat \<Rightarrow> stringbuf option" where
  "strip_inplace_loop al b pos stop =
     (if pos < stop then
        let (csi, inp1) = aem_ansi_match_csi
              (aem_stringslice_new_len (literal_addr + pos) (take (stop - pos) (drop pos (sb_s b))))
        in if aem_stringslice_ok csi then strip_inplace_loop al b (ss_start inp1 - literal_addr) stop
           else
             let (c, inp2) = aem_stringslice_getc inp1
             in if c < 0 then Some b
                else do { b1 \<leftarrow> aem_stringbuf_putc al b (word_of_int c);
                          if sb_maxn b1 \<noteq> sb_maxn b then None
                          else strip_inplace_loop al b1 (ss_start inp2 - literal_addr) stop }
      else Some b)"
  by pat_completeness auto
termination
proof (relation "measure (\<lambda>(al, b, pos, stop). stop - pos)", goal_cases)
  case 1
  then show ?case by simp
next
  case (2 al b pos stop p csi inp1)
  then show ?case
    using match_csi_shorter(2) [of "aem_stringslice_new_len (literal_addr + pos) (take (stop - pos) (drop pos (sb_s b)))" csi inp1]
    by (simp add: literal_addr_def)
next
  case (3 al b pos stop p csi inp1 q c inp2 b1)
  then have "inp1 = aem_stringslice_new_len (literal_addr + pos) (take (stop - pos) (drop pos (sb_s b)))"
    using match_csi_no [of _ csi inp1] by simp
  then show ?case using 3 by (auto simp: aem_stringslice_getc_def literal_addr_def split: if_splits)
qed

declare aem_ansi_strip.simps [simp del] strip_inplace_loop.simps [simp del]

definition aem_ansi_strip_inplace :: "u8 allocator \<Rightarrow> stringbuf \<Rightarrow> stringbuf option" where
  "aem_ansi_strip_inplace al str = strip_inplace_loop al (str\<lparr>sb_n := 0\<rparr>) 0 (sb_n str)"

section \<open>Visible length and padding\<close>

partial_function (option) aem_ansi_len_loop :: "stringslice \<Rightarrow> nat \<Rightarrow> nat option" where
  "aem_ansi_len_loop inp n =
     (if aem_stringslice_ok inp then
        let (csi, inp1) = aem_ansi_match_csi inp
        in if aem_stringslice_ok csi then aem_ansi_len_loop inp1 n
           else
             let (r, inp2) = aem_stringslice_get_rune inp1
             in if r \<noteq> None then aem_ansi_len_loop inp2 (sz (n + 1)) else aem_ansi_len_loop inp2 n
      else Some n)"

definition aem_ansi_len :: "stringslice \<Rightarrow> nat option" where
  "aem_ansi_len inp = aem_ansi_len_loop inp 0"

fun put_spaces :: "u8 allocator \<Rightarrow> nat \<Rightarrow> stringbuf \<Rightarrow> stringbuf option" where
  "put_spaces al 0 b = Some b"
| "put_spaces al (Suc k) b = do { b1 \<leftarrow> aem_stringbuf_putc al b 32; put_spaces al k b1 }"

definition aem_ansi_pad :: "u8 allocator \<Rightarrow> stringbuf \<Rightarrow> nat \<Rightarrow> nat \<Rightarrow> stringbuf option" where
  "aem_ansi_pad al str start width =
     (let start1 = (if start > sb_n str then sb_n str else start);
          slice = aem_stringslice_new_len (literal_addr + start1) (drop start1 (take (sb_n str) (sb_s str)))
      in do { len \<leftarrow> aem_ansi_len slice;
              if len \<ge> width then Some str else put_spaces al (width - len) str })"

section \<open>What is stripped\<close>

text \<open>The text without its control sequences; an \<open>ESC\<close> that starts none is kept.\<close>
function strip_text :: "u8 list \<Rightarrow> u8 list" where
  "strip_text bs =
     (case bs of [] \<Rightarrow> [] | b # bs' \<Rightarrow> (case csi_rest bs of None \<Rightarrow> b # strip_text bs' | Some rest \<Rightarrow> strip_text rest))"
  by pat_completeness auto
termination
proof (relation "measure length", goal_cases)
  case 1
  then show ?case by simp
next
  case (3 bs b bs' rest)
  then show ?case
    using match_csi_spec [of "aem_stringslice_new_len 1 bs"] by simp
qed simp

declare strip_text.simps [simp del]

lemma strip_text_Nil [simp]: "strip_text [] = []"
  by (simp add: strip_text.simps)

lemma strip_text_byte: "csi_rest (b # bs) = None \<Longrightarrow> strip_text (b # bs) = b # strip_text bs"
  by (subst strip_text.simps) simp

lemma strip_text_csi:
  assumes "csi_rest bs = Some rest"
  shows "strip_text bs = strip_text rest"
proof (cases bs)
  case Nil
  then show ?thesis using assms by (simp add: csi_rest_def)
next
  case (Cons b bs')
  then show ?thesis using assms by (subst strip_text.simps) simp
qed

lemma csi_rest_no_esc: "b \<noteq> 0x1b \<Longrightarrow> csi_rest (b # bs) = None"
  by (simp add: csi_rest_def numeral_2_eq_2)

lemma strip_text_plain: "0x1b \<notin> set bs \<Longrightarrow> strip_text bs = bs"
  by (induction bs) (simp_all add: strip_text_byte csi_rest_no_esc)

lemma strip_appends: "appends al (\<lambda>b. aem_ansi_strip al b sl) (strip_text (ss_bytes sl))"
proof (induction "length (ss_bytes sl)" arbitrary: sl rule: less_induct)
  case less
  show ?case
  proof (cases "ss_bytes sl")
    case Nil
    then have "aem_ansi_strip al b sl = Some b" for b by (subst aem_ansi_strip.simps) simp
    then show ?thesis using Nil by simp
  next
    case (Cons c cs)
    show ?thesis
    proof (cases "csi_rest (ss_bytes sl)")
      case None
      then have m: "aem_ansi_match_csi sl = (AEM_STRINGSLICE_EMPTY, sl)" using match_csi_spec [of sl] by simp
      have g: "aem_stringslice_getc sl = (uchar c, ss_advance sl 1)" using Cons by (rule getc_simps(2))
      have "aem_ansi_strip al b sl = Option.bind (aem_stringbuf_putc al b c) (\<lambda>b. aem_ansi_strip al b (ss_advance sl 1))" for b
        using Cons m g uchar_range(1) [of c] by (subst aem_ansi_strip.simps) (simp add: uchar_def)
      moreover have "appends al (\<lambda>b. aem_ansi_strip al b (ss_advance sl 1)) (strip_text (ss_bytes (ss_advance sl 1)))"
        by (rule less) (simp add: Cons)
      ultimately show ?thesis using Cons None putc_then_appends by (simp add: strip_text_byte)
    next
      case (Some rest)
      then obtain out where m: "aem_ansi_match_csi sl = (out, behind sl rest)" "ss_bytes out \<noteq> []"
          "suffix rest (ss_bytes sl)" "length rest + 3 \<le> length (ss_bytes sl)"
        using match_csi_spec [of sl] by auto
      have "aem_ansi_strip al b sl = aem_ansi_strip al b (behind sl rest)" for b
        using Cons m by (subst aem_ansi_strip.simps) simp
      moreover have "appends al (\<lambda>b. aem_ansi_strip al b (behind sl rest)) (strip_text (ss_bytes (behind sl rest)))"
        by (rule less) (use m behind_suffix(1) [OF m(3)] in simp)
      ultimately show ?thesis using Some behind_suffix(1) [OF m(3)] by (simp add: strip_text_csi)
    qed
  qed
qed

text \<open>Writing one byte where there is room.\<close>
lemma putc_room:
  assumes "sb_inv b" "\<not> sb_bad b" "sb_n b + 1 < sb_maxn b"
  shows "aem_stringbuf_putc al b c = Some (b\<lparr>sb_s := (sb_s b)[sb_n b := c], sb_n := sb_n b + 1\<rparr>)"
  using assms reserve_room [of b 1 al]
  by (simp add: aem_stringbuf_putc_def sb_store_def sb_inv_def upd_conv_take_nth_drop)

lemma suffix_drop: "suffix r xs \<Longrightarrow> drop (length xs - length r) xs = r"
  by (auto simp: suffix_def)

lemma strip_inplace_spec:
  assumes "sb_inv b" "\<not> sb_bad b" "sb_n b \<le> pos" "pos \<le> stop" "stop < sb_maxn b"
  shows "\<exists>b'. strip_inplace_loop al b pos stop = Some b' \<and> sb_inv b' \<and> \<not> sb_bad b' \<and> sb_maxn b' = sb_maxn b \<and>
    sb_storage b' = sb_storage b \<and> sb_fixed b' = sb_fixed b \<and>
    sb_out b' = sb_out b @ strip_text (take (stop - pos) (drop pos (sb_s b)))"
  using assms
proof (induction "stop - pos" arbitrary: b pos rule: less_induct)
  case less
  show ?case
  proof (cases "pos < stop")
    case False
    then show ?thesis using less.prems by (subst strip_inplace_loop.simps) simp
  next
    case True
    let ?bs = "take (stop - pos) (drop pos (sb_s b))"
    let ?sl = "aem_stringslice_new_len (literal_addr + pos) ?bs"
    have len: "length (sb_s b) = sb_maxn b" using less.prems(1) by (simp add: sb_inv_def)
    then have lbs: "length ?bs = stop - pos" using less.prems(5) by simp
    then obtain c cs where bs: "?bs = c # cs" using True by (cases ?bs) auto
    show ?thesis
    proof (cases "csi_rest ?bs")
      case None
      then have m: "aem_ansi_match_csi ?sl = (AEM_STRINGSLICE_EMPTY, ?sl)" using match_csi_spec [of ?sl] by simp
      have g: "aem_stringslice_getc ?sl = (uchar c, ss_advance ?sl 1)" by (rule getc_simps(2)) (simp add: bs)
      let ?b1 = "b\<lparr>sb_s := (sb_s b)[sb_n b := c], sb_n := sb_n b + 1\<rparr>"
      have put: "aem_stringbuf_putc al b c = Some ?b1" by (rule putc_room) (use less.prems True in auto)
      have step: "strip_inplace_loop al b pos stop = strip_inplace_loop al ?b1 (pos + 1) stop"
        using True m g put uchar_range(1) [of c]
        by (subst strip_inplace_loop.simps) (simp add: literal_addr_def uchar_def)
      have inv1: "sb_inv ?b1" using less.prems True by (auto simp: sb_inv_def)
      have "cs = tl ?bs" using bs by simp
      then have cs: "cs = take (stop - pos - 1) (drop (Suc pos) (sb_s b))" by (simp only: tl_take tl_drop drop_Suc)
      have "drop (pos + 1) (sb_s ?b1) = drop (Suc pos) (sb_s b)" using less.prems(3) by simp
      then have same: "take (stop - (pos + 1)) (drop (pos + 1) (sb_s ?b1)) = cs" using cs by simp
      have out1: "sb_out ?b1 = sb_out b @ [c]" using less.prems True len
        by (simp add: sb_out_def take_Suc_list_update)
      obtain b' where b': "strip_inplace_loop al ?b1 (pos + 1) stop = Some b'" "sb_inv b'" "\<not> sb_bad b'"
          "sb_maxn b' = sb_maxn b" "sb_storage b' = sb_storage b" "sb_fixed b' = sb_fixed b" "sb_out b' = sb_out ?b1 @ strip_text cs"
        using less.hyps [of "pos + 1" ?b1, OF diff_less_mono2 [of pos "pos + 1" stop]] inv1 less.prems True same by auto
      then show ?thesis using step out1 bs None by (simp add: strip_text_byte)
    next
      case (Some rest)
      then obtain out where m: "aem_ansi_match_csi ?sl = (out, behind ?sl rest)" "ss_bytes out \<noteq> []"
          "suffix rest ?bs" "length rest + 3 \<le> length ?bs"
        using match_csi_spec [of ?sl] by auto
      define p where "p = pos + (length ?bs - length rest)"
      have p: "pos < p" "p \<le> stop" using m(4) lbs True by (auto simp: p_def)
      have step: "strip_inplace_loop al b pos stop = strip_inplace_loop al b p stop"
        using True m by (subst strip_inplace_loop.simps) (simp add: behind_def literal_addr_def p_def)
      have "drop (length ?bs - length rest) ?bs = rest" by (rule suffix_drop [OF m(3)])
      then have same: "take (stop - p) (drop p (sb_s b)) = rest"
        using m(4) lbs True by (simp add: drop_take add.commute p_def)
      have "\<exists>b'. strip_inplace_loop al b p stop = Some b' \<and> sb_inv b' \<and> \<not> sb_bad b' \<and> sb_maxn b' = sb_maxn b \<and>
          sb_storage b' = sb_storage b \<and> sb_fixed b' = sb_fixed b \<and> sb_out b' = sb_out b @ strip_text (take (stop - p) (drop p (sb_s b)))"
        by (rule less.hyps) (use less.prems p in auto)
      then show ?thesis unfolding step same strip_text_csi [OF Some] .
    qed
  qed
qed

section \<open>What is visible\<close>

lemma first_esc:
  assumes "utf8_first c = 0x1b"
  shows "c = 0x1b"
proof -
  let ?sl = "aem_stringslice_new_len 1 (utf8_encode c)"
  have "utf8_encode 0x1b = [0x1b]"
    by (simp add: utf8_encode_def utf8_first_def utf8_len_def word_le_nat_alt)
  then have "aem_stringslice_get_rune ?sl = (Some 0x1b, ss_advance ?sl (utf8_len 0x1b + 1))"
    using assms by (intro get_rune_encode [where rest = "cont_bytes c (utf8_len c)"]) (simp add: utf8_encode_def)
  then show ?thesis using get_rune_encode [of ?sl c "[]"] by simp
qed

text \<open>Text counts its code points, control sequences count nothing.\<close>

lemma len_loop_rune:
  assumes "ss_bytes sl = utf8_encode c @ rest" "c \<noteq> 0x1b"
  shows "aem_ansi_len_loop sl n = aem_ansi_len_loop (ss_advance sl (utf8_len c + 1)) (sz (n + 1))"
proof -
  have "csi_rest (ss_bytes sl) = None"
    using assms first_esc [of c] by (auto simp: utf8_encode_def intro: csi_rest_no_esc)
  then have "aem_ansi_match_csi sl = (AEM_STRINGSLICE_EMPTY, sl)" using match_csi_spec [of sl] by simp
  then show ?thesis using get_rune_encode [OF assms(1)] assms(1)
    by (subst aem_ansi_len_loop.simps) (simp add: utf8_encode_def)
qed

lemma len_loop_csi:
  assumes "csi_rest (ss_bytes sl) = Some rest"
  shows "aem_ansi_len_loop sl n = aem_ansi_len_loop (behind sl rest) n"
  using match_csi_spec [of sl] assms
  by (subst aem_ansi_len_loop.simps) (auto split: option.splits)

lemma len_loop_text:
  "ss_bytes sl = concat (map utf8_encode cs) \<Longrightarrow> 0x1b \<notin> set cs \<Longrightarrow> n + length cs < 2 ^ 64 \<Longrightarrow>
     aem_ansi_len_loop sl n = Some (n + length cs)"
proof (induction cs arbitrary: sl n)
  case Nil
  then show ?case by (subst aem_ansi_len_loop.simps) simp
next
  case (Cons c cs)
  have "aem_ansi_len_loop sl n = aem_ansi_len_loop (ss_advance sl (utf8_len c + 1)) (sz (n + 1))"
    by (rule len_loop_rune [where rest = "concat (map utf8_encode cs)"]) (use Cons.prems in auto)
  also have "\<dots> = Some (n + 1 + length cs)"
    using Cons.prems Cons.IH [of "ss_advance sl (utf8_len c + 1)" "n + 1"] by (simp add: length_utf8_encode)
  finally show ?case by simp
qed

lemma ansi_len_text:
  "ss_bytes sl = concat (map utf8_encode cs) \<Longrightarrow> 0x1b \<notin> set cs \<Longrightarrow> length cs < 2 ^ 64 \<Longrightarrow>
     aem_ansi_len sl = Some (length cs)"
  unfolding aem_ansi_len_def using len_loop_text [of sl cs 0] by simp

text \<open>A byte that starts no code point is never passed: the loop does not end.\<close>

lemma ansi_len_diverges:
  assumes "ss_bytes sl = 0x80 # rest"
  shows "aem_ansi_len sl = None"
proof -
  have "csi_rest (ss_bytes sl) = None" using assms csi_rest_no_esc by simp
  then have m: "aem_ansi_match_csi sl = (AEM_STRINGSLICE_EMPTY, sl)" using match_csi_spec [of sl] by simp
  have "aem_stringslice_getc sl = (128, ss_advance sl 1)"
    using getc_simps(2) [OF assms] by (simp add: uchar_def)
  then have r: "aem_stringslice_get_rune sl = (None, sl)"
    by (simp add: aem_stringslice_get_rune_def Let_def first_byte_row.simps AEM_UTF8_INFO_LEN_def aem_utf8_info_def)
  have False if "aem_ansi_len_loop sl n = Some y" for n y
  proof -
    have "inp = sl \<longrightarrow> False" if "aem_ansi_len_loop inp n = Some y" for inp n y
      by (rule aem_ansi_len_loop.raw_induct [OF _ that, where P = "\<lambda>inp n y. inp = sl \<longrightarrow> False"])
        (use assms m r in \<open>fastforce simp: Let_def\<close>)
    then show ?thesis using that by blast
  qed
  then show ?thesis unfolding aem_ansi_len_def by (cases "aem_ansi_len_loop sl 0") simp_all
qed

lemma put_spaces_appends: "appends al (put_spaces al k) (replicate k 32)"
proof (induction k)
  case 0
  then show ?case using appends_nil by (simp add: fun_eq_iff [symmetric] eta_contract_eq)
next
  case (Suc k)
  show ?case using putc_then_appends [OF Suc.IH] by (simp add: fun_eq_iff)
qed

lemma pad_text:
  assumes b: "sb_ready al b" "sb_out b = pre @ concat (map utf8_encode cs)" "0x1b \<notin> set cs"
    and n: "sb_n b + width \<le> 2 ^ 24"
  shows "\<exists>b'. aem_ansi_pad al b (length pre) width = Some b' \<and> sb_ready al b' \<and>
    sb_out b' = sb_out b @ replicate (width - length cs) 32"
proof -
  have len: "length (sb_out b) = sb_n b" using b(1) by (simp add: sb_ready_def)
  have pre: "length pre \<le> sb_n b" using len b(2) by simp
  let ?sl = "aem_stringslice_new_len (literal_addr + length pre) (drop (length pre) (take (sb_n b) (sb_s b)))"
  have sl: "ss_bytes ?sl = concat (map utf8_encode cs)" using b(2) by (simp add: sb_out_def [symmetric])
  have "length cs \<le> length (concat (map utf8_encode cs))"
    by (induction cs) (simp_all add: length_utf8_encode)
  then have "length cs < 2 ^ 64" using len b(2) n by simp
  from ansi_len_text [OF sl b(3) this] have "aem_ansi_pad al b (length pre) width =
      (if length cs \<ge> width then Some b else put_spaces al (width - length cs) b)"
    using pre by (simp add: aem_ansi_pad_def Let_def not_less)
  then show ?thesis
    using put_spaces_appends [of al "width - length cs"] b(1) n by (auto simp: appends_def)
qed

lemma strip_text_shorter: "length (strip_text bs) \<le> length bs"
proof (induction "length bs" arbitrary: bs rule: less_induct)
  case less
  show ?case
  proof (cases bs)
    case (Cons b bs')
    show ?thesis
    proof (cases "csi_rest bs")
      case None
      then show ?thesis using less [of bs'] Cons by (simp add: strip_text_byte)
    next
      case (Some rest)
      then have "length rest < length bs" using match_csi_spec [of "aem_stringslice_new_len 1 bs"] by simp
      then show ?thesis using less [of rest] Some by (simp add: strip_text_csi)
    qed
  qed simp
qed

lemma strip_inplace_result:
  assumes "sb_inv b" "\<not> sb_bad b"
  shows "\<exists>b'. aem_ansi_strip_inplace al b = Some b' \<and> sb_inv b' \<and> \<not> sb_bad b' \<and> sb_maxn b' = sb_maxn b \<and>
    sb_storage b' = sb_storage b \<and> sb_fixed b' = sb_fixed b \<and> sb_out b' = strip_text (sb_out b)"
proof -
  have inv0: "sb_inv (b\<lparr>sb_n := 0\<rparr>)" "sb_out (b\<lparr>sb_n := 0\<rparr>) = []" using assms(1) by (auto simp: sb_inv_def sb_out_def)
  show ?thesis
  proof (cases "sb_n b = 0")
    case True
    then have "aem_ansi_strip_inplace al b = Some (b\<lparr>sb_n := 0\<rparr>)"
      by (simp add: aem_ansi_strip_inplace_def strip_inplace_loop.simps)
    then show ?thesis using True inv0 assms(2) by (simp add: sb_out_def)
  next
    case False
    then have "sb_n b < sb_maxn b" using assms(1) by (auto simp: sb_inv_def)
    then show ?thesis using strip_inplace_spec [OF inv0(1), of 0 "sb_n b" al] assms(2) inv0(2)
      by (auto simp: aem_ansi_strip_inplace_def sb_out_def)
  qed
qed

lemma strip_inplace_ready:
  assumes "sb_ready al b"
  shows "\<exists>b'. aem_ansi_strip_inplace al b = Some b' \<and> sb_ready al b' \<and> sb_out b' = strip_text (sb_out b)"
  using strip_inplace_result [of b al] assms by (auto simp: sb_ready_def sb_free_def)

section \<open>Properties\<close>

text \<open>C35: Stripping a buffer in place, where the loop overwrites the bytes it has already
  read, gives what stripping a copy into another buffer gives: the text without its control
  sequences. No byte is overwritten before it is read, and the block is never moved under the reader.\<close>

theorem strip_inplace_same:
  assumes "sb_inv b" "\<not> sb_bad b" "sb_ready al out" "sb_n out + sb_n b \<le> 2 ^ 24"
  shows "\<exists>b' out'. aem_ansi_strip_inplace al b = Some b' \<and>
    aem_ansi_strip al out (aem_stringslice_new_str addr b) = Some out' \<and>
    sb_out out' = sb_out out @ sb_out b' \<and> sb_out b' = strip_text (sb_out b) \<and>
    sb_inv b' \<and> sb_maxn b' = sb_maxn b"
proof -
  have room: "sb_n out + length (strip_text (sb_out b)) \<le> 2 ^ 24"
    using strip_text_shorter [of "sb_out b"] assms(1,4) by simp
  have slice: "ss_bytes (aem_stringslice_new_str addr b) = sb_out b"
    by (simp add: aem_stringslice_new_str_def sb_out_def)
  obtain out' where o: "aem_ansi_strip al out (aem_stringslice_new_str addr b) = Some out'"
      "sb_out out' = sb_out out @ strip_text (sb_out b)"
    using strip_appends [of al "aem_stringslice_new_str addr b"] room assms(3)
    unfolding appends_def slice by auto
  show ?thesis using strip_inplace_result [OF assms(1,2), of al] o by auto
qed

text \<open>\<open>ESC [ 1 m h i ESC [ 0 m\<close>, stripped to \<open>h i\<close>.\<close>
definition demo_colored :: stringbuf where
  "demo_colored = \<lparr>sb_s = [0x1b, 0x5b, 0x31, 0x6d, 0x68, 0x69, 0x1b, 0x5b, 0x30, 0x6d, 0],
     sb_n = 10, sb_maxn = 11, sb_storage = AEM_STRINGBUF_STORAGE_HEAP, sb_bad = False, sb_fixed = False\<rparr>"

theorem strip_inplace_same_witness:
  "\<exists>b'. aem_ansi_strip_inplace al_all demo_colored = Some b' \<and> sb_out b' = [0x68, 0x69]"
proof -
  have out: "sb_out demo_colored = [0x1b, 0x5b, 0x31, 0x6d, 0x68, 0x69, 0x1b, 0x5b, 0x30, 0x6d]"
    by (simp add: sb_out_def demo_colored_def)
  have csi: "csi_rest [0x1b, 0x5b, 0x31, 0x6d, 0x68, 0x69, 0x1b, 0x5b, 0x30, 0x6d] = Some [0x68, 0x69, 0x1b, 0x5b, 0x30, 0x6d]"
    "csi_rest [0x1b, 0x5b, 0x30, 0x6d] = Some []"
    by code_simp+
  have plain: "strip_text (sb_out demo_colored) = [0x68, 0x69]"
    unfolding out strip_text_csi [OF csi(1)]
    by (simp add: strip_text_byte csi_rest_no_esc strip_text_csi [OF csi(2)])
  have b: "sb_inv demo_colored" "\<not> sb_bad demo_colored" "sb_n demo_colored = 10"
    by (simp_all add: sb_inv_def PTRDIFF_MAX_def demo_colored_def)
  have "sb_n AEM_STRINGBUF_EMPTY + sb_n demo_colored \<le> 2 ^ 24" unfolding b(3) by (simp add: AEM_STRINGBUF_EMPTY_def)
  from strip_inplace_same [OF b(1,2) ready_empty this, of 1] show ?thesis unfolding plain by blast
qed

end
