(* ===== verification/Aem_Log.thy ===== *)
theory Aem_Log
  imports Aem_Ansi Aem_Translate Aem_Format
begin

text \<open>
  \<open>log.h\<close> and \<open>log.c\<close>: log levels, modules, destinations, and the line a message becomes. Modules
  and destinations are objects of the program, named by numbers; \<open>0\<close> is the default module, \<open>1\<close> the
  library's own, and destination \<open>0\<close> the default one. What goes to a \<open>FILE\<close> is appended to its
  contents; the state also keeps what the client's own \<open>log\<close> methods were given. The thread's
  buffer is part of the state. \<open>None\<close> is a failed \<open>aem_assert\<close> or a loop that does not end.
\<close>

section \<open>Levels\<close>

datatype aem_log_level =
  AEM_LOG_INVALID | AEM_LOG_FATAL | AEM_LOG_SECURITY | AEM_LOG_BUG | AEM_LOG_NYI | AEM_LOG_ERROR |
  AEM_LOG_WARN | AEM_LOG_GOOD | AEM_LOG_NOTICE | AEM_LOG_INFO | AEM_LOG_DEBUG | AEM_LOG_DEBUG2 | AEM_LOG_DEBUG3

fun log_level_code :: "aem_log_level \<Rightarrow> int" where
  "log_level_code AEM_LOG_INVALID = -1"
| "log_level_code AEM_LOG_FATAL = 0"
| "log_level_code AEM_LOG_SECURITY = 1"
| "log_level_code AEM_LOG_BUG = 2"
| "log_level_code AEM_LOG_NYI = 3"
| "log_level_code AEM_LOG_ERROR = 4"
| "log_level_code AEM_LOG_WARN = 5"
| "log_level_code AEM_LOG_GOOD = 6"
| "log_level_code AEM_LOG_NOTICE = 7"
| "log_level_code AEM_LOG_INFO = 8"
| "log_level_code AEM_LOG_DEBUG = 9"
| "log_level_code AEM_LOG_DEBUG2 = 10"
| "log_level_code AEM_LOG_DEBUG3 = 11"

definition AEM_LOG_FLAG_COLOR :: u32 where "AEM_LOG_FLAG_COLOR = 0x1"
definition AEM_LOG_FLAG_MODULE :: u32 where "AEM_LOG_FLAG_MODULE = 0x2"

definition AEM_SGR :: "string \<Rightarrow> u8 list" where
  "AEM_SGR code = [0x1b, 0x5b] @ cstr code @ cstr ''m''"

fun aem_log_level_color :: "aem_log_level \<Rightarrow> u8 list" where
  "aem_log_level_color AEM_LOG_FATAL = AEM_SGR ''101''"
| "aem_log_level_color AEM_LOG_SECURITY = AEM_SGR ''101;30''"
| "aem_log_level_color AEM_LOG_BUG = AEM_SGR ''103;30''"
| "aem_log_level_color AEM_LOG_NYI = AEM_SGR ''101;30''"
| "aem_log_level_color AEM_LOG_ERROR = AEM_SGR ''31;1''"
| "aem_log_level_color AEM_LOG_WARN = AEM_SGR ''33;1''"
| "aem_log_level_color AEM_LOG_GOOD = AEM_SGR ''92;1''"
| "aem_log_level_color AEM_LOG_NOTICE = AEM_SGR ''94;1''"
| "aem_log_level_color AEM_LOG_INFO = AEM_SGR ''0''"
| "aem_log_level_color AEM_LOG_DEBUG = AEM_SGR ''37;2''"
| "aem_log_level_color AEM_LOG_DEBUG2 = AEM_SGR ''90''"
| "aem_log_level_color AEM_LOG_DEBUG3 = AEM_SGR ''90;2''"
| "aem_log_level_color _ = AEM_SGR ''101;30''"

fun aem_log_level_describe :: "aem_log_level \<Rightarrow> u8 list" where
  "aem_log_level_describe AEM_LOG_FATAL = cstr ''fatal''"
| "aem_log_level_describe AEM_LOG_SECURITY = cstr ''security''"
| "aem_log_level_describe AEM_LOG_BUG = cstr ''bug''"
| "aem_log_level_describe AEM_LOG_NYI = cstr ''unimplemented''"
| "aem_log_level_describe AEM_LOG_ERROR = cstr ''error''"
| "aem_log_level_describe AEM_LOG_WARN = cstr ''warn''"
| "aem_log_level_describe AEM_LOG_NOTICE = cstr ''notice''"
| "aem_log_level_describe AEM_LOG_INFO = cstr ''info''"
| "aem_log_level_describe AEM_LOG_DEBUG = cstr ''debug''"
| "aem_log_level_describe AEM_LOG_DEBUG2 = cstr ''debug2''"
| "aem_log_level_describe AEM_LOG_DEBUG3 = cstr ''debug3''"
| "aem_log_level_describe _ = cstr ''(unknown)''"

definition chr :: "char \<Rightarrow> u8" where "chr c = of_char c"

fun aem_log_level_letter :: "aem_log_level \<Rightarrow> u8" where
  "aem_log_level_letter AEM_LOG_FATAL = chr CHR ''F''"
| "aem_log_level_letter AEM_LOG_SECURITY = chr CHR ''S''"
| "aem_log_level_letter AEM_LOG_BUG = chr CHR ''B''"
| "aem_log_level_letter AEM_LOG_NYI = chr CHR ''U''"
| "aem_log_level_letter AEM_LOG_ERROR = chr CHR ''E''"
| "aem_log_level_letter AEM_LOG_WARN = chr CHR ''W''"
| "aem_log_level_letter AEM_LOG_GOOD = chr CHR ''g''"
| "aem_log_level_letter AEM_LOG_NOTICE = chr CHR ''n''"
| "aem_log_level_letter AEM_LOG_INFO = chr CHR ''i''"
| "aem_log_level_letter AEM_LOG_DEBUG = chr CHR ''d''"
| "aem_log_level_letter AEM_LOG_DEBUG2 = chr CHR ''2''"
| "aem_log_level_letter AEM_LOG_DEBUG3 = chr CHR ''3''"
| "aem_log_level_letter _ = chr CHR ''?''"

text \<open>\<open>tolower\<close> gets the promoted \<open>char\<close>; the labels are characters, the second an upper case one.\<close>
definition aem_log_level_parse_letter :: "u8 \<Rightarrow> aem_log_level" where
  "aem_log_level_parse_letter c =
     (let k = c_tolower (schar c) in
      if k = schar (chr CHR ''f'') then AEM_LOG_FATAL
      else if k = schar (chr CHR ''S'') then AEM_LOG_SECURITY
      else if k = schar (chr CHR ''b'') then AEM_LOG_BUG
      else if k = schar (chr CHR ''u'') then AEM_LOG_NYI
      else if k = schar (chr CHR ''e'') then AEM_LOG_ERROR
      else if k = schar (chr CHR ''w'') then AEM_LOG_WARN
      else if k = schar (chr CHR ''g'') then AEM_LOG_GOOD
      else if k = schar (chr CHR ''n'') then AEM_LOG_NOTICE
      else if k = schar (chr CHR ''i'') then AEM_LOG_INFO
      else if k = schar (chr CHR ''d'') then AEM_LOG_DEBUG
      else if k = schar (chr CHR ''2'') then AEM_LOG_DEBUG2
      else if k = schar (chr CHR ''3'') then AEM_LOG_DEBUG3
      else AEM_LOG_INVALID)"

section \<open>State\<close>

datatype log_method = aem_log_dest_null_log | aem_log_dest_fp_log | Log_client nat

text \<open>The destinations that write to a \<open>FILE\<close> have its two further fields.\<close>
record log_dest =
  ld_log :: "log_method ptr"
  ld_flags :: u32
  ld_fp :: "nat ptr"
  ld_autoclose :: bool

record log_module =
  lm_loglevel :: aem_log_level
  lm_name :: "u8 list ptr"
  lm_dst :: "nat ptr"
  lm_flags :: u32

record log_state =
  ls_mod :: "nat \<Rightarrow> log_module"
  ls_dest :: "nat \<Rightarrow> log_dest"
  ls_buf :: stringbuf
  ls_width :: u32
  ls_file :: "nat \<Rightarrow> u8 list"
  ls_closed :: "nat list"
  ls_client :: "(nat \<times> u8 list) list"

definition aem_log_default :: nat where "aem_log_default = 0"
definition aem_log_module_default :: nat where "aem_log_module_default = 0"
definition aem_log_module_default_internal :: nat where "aem_log_module_default_internal = 1"

definition aem_log_module_flags :: "log_state \<Rightarrow> nat \<Rightarrow> u32 option" where
  "aem_log_module_flags st m =
     do { d \<leftarrow> lm_dst (ls_mod st m); Some (lm_flags (ls_mod st m) OR ld_flags (ls_dest st d)) }"

text \<open>A destination's method gets the finished line.\<close>
definition log_call :: "nat \<Rightarrow> u8 list \<Rightarrow> log_state \<Rightarrow> log_state option" where
  "log_call d msg st =
     do { method \<leftarrow> ld_log (ls_dest st d);
          case method of
            aem_log_dest_null_log \<Rightarrow> Some st
          | aem_log_dest_fp_log \<Rightarrow> do {
              fp \<leftarrow> ld_fp (ls_dest st d);
              Some (st\<lparr>ls_file := (ls_file st)(fp := ls_file st fp @ msg)\<rparr>) }
          | Log_client k \<Rightarrow> Some (st\<lparr>ls_client := ls_client st @ [(k, msg)]\<rparr>) }"

section \<open>A log line\<close>

text \<open>The part of the header that names the module: the widest name seen, and the buffer.\<close>
definition log_header_module ::
  "u8 allocator \<Rightarrow> u32 \<Rightarrow> u8 list ptr \<Rightarrow> u32 \<Rightarrow> stringbuf \<Rightarrow> (u32 \<times> stringbuf) option" where
  "log_header_module al flags name width str =
     (if flags AND AEM_LOG_FLAG_MODULE = 0 then Some (width, str)
      else do {
        s1 \<leftarrow> aem_stringbuf_puts al str (Some (cstr ''[''));
        let name_start = sb_n s1;
        s2 \<leftarrow> (case name of None \<Rightarrow> Some s1 | Some nm \<Rightarrow> aem_stringbuf_puts al s1 (Some nm));
        let len = sb_n s2 - name_start;
        let width1 = (if len > unat width then word_of_nat len else width);
        s3 \<leftarrow> aem_ansi_pad al s2 name_start (unat width1);
        s4 \<leftarrow> aem_stringbuf_puts al s3 (Some (cstr ''] ''));
        Some (width1, s4) })"

text \<open>No buffer if the message is not to be logged.\<close>
definition aem_log_header_mod_impl ::
  "u8 allocator \<Rightarrow> stringbuf \<Rightarrow> nat \<Rightarrow> aem_log_level \<Rightarrow> u8 list \<Rightarrow> int \<Rightarrow> u8 list \<Rightarrow> log_state \<Rightarrow>
     (stringbuf option \<times> log_state) option" where
  "aem_log_header_mod_impl al str m loglevel file line fn st =
     (if log_level_code loglevel > log_level_code (lm_loglevel (ls_mod st m)) then Some (None, st)
      else do {
        let md = ls_mod st m;
        let st1 = (if lm_dst md = None then st\<lparr>ls_mod := (ls_mod st)(m := md\<lparr>lm_dst := Some aem_log_default\<rparr>)\<rparr> else st);
        flags \<leftarrow> aem_log_module_flags st1 m;
        let s0 = aem_stringbuf_reset str;
        s1 \<leftarrow> (if flags AND AEM_LOG_FLAG_COLOR \<noteq> 0 then aem_stringbuf_puts al s0 (Some (aem_log_level_color loglevel))
              else Some s0);
        s2 \<leftarrow> aem_stringbuf_putc al s1 (aem_log_level_letter loglevel);
        s3 \<leftarrow> aem_stringbuf_putc al s2 32;
        (width, s4) \<leftarrow> log_header_module al flags (lm_name md) (ls_width st1) s3;
        s5 \<leftarrow> aem_stringbuf_vprintf al s4 (Some (file @ cstr '':'' @ c_dec line @ cstr ''('' @ fn @ cstr '')''));
        s6 \<leftarrow> aem_stringbuf_putc al s5 (chr CHR '':'');
        s7 \<leftarrow> (if flags AND AEM_LOG_FLAG_COLOR \<noteq> 0 then aem_stringbuf_puts al s6 (Some (AEM_SGR ''0'')) else Some s6);
        s8 \<leftarrow> aem_stringbuf_putc al s7 32;
        Some (Some s8, st1\<lparr>ls_width := width\<rparr>) })"

definition aem_log_submit :: "u8 allocator \<Rightarrow> nat \<Rightarrow> stringbuf option \<Rightarrow> log_state \<Rightarrow> (stringbuf option \<times> log_state) option" where
  "aem_log_submit al m p st =
     (case p of
        None \<Rightarrow> Some (None, st)
      | Some str \<Rightarrow> do {
          flags \<leftarrow> aem_log_module_flags st m;
          s1 \<leftarrow> (if flags AND AEM_LOG_FLAG_COLOR \<noteq> 0 then aem_stringbuf_puts al str (Some (AEM_SGR ''0''))
                else aem_ansi_strip_inplace al str);
          s2 \<leftarrow> aem_stringbuf_puts al s1 (Some [10]);
          let d = (case lm_dst (ls_mod st m) of None \<Rightarrow> aem_log_default | Some d \<Rightarrow> d);
          st1 \<leftarrow> log_call d (ss_bytes (aem_stringslice_new_str literal_addr s2)) st;
          Some (Some s2, st1) })"

text \<open>The body of \<open>aem_logmf_ctx_impl\<close> without the warning at its end; \<open>t\<close> is the formatted text.\<close>
definition logmf_line ::
  "u8 allocator \<Rightarrow> nat \<Rightarrow> aem_log_level \<Rightarrow> u8 list \<Rightarrow> int \<Rightarrow> u8 list \<Rightarrow> u8 list \<Rightarrow> log_state \<Rightarrow> (bool \<times> log_state) option" where
  "logmf_line al m loglevel file line fn t st =
     do { (p, st1) \<leftarrow> aem_log_header_mod_impl al (ls_buf st) m loglevel file line fn st;
          case p of
            None \<Rightarrow> Some (False, st1)
          | Some str \<Rightarrow> do {
              s1 \<leftarrow> aem_stringbuf_vprintf al str (Some t);
              let s2 = (if sb_n s1 \<noteq> 0 \<and> sb_s s1 ! (sb_n s1 - 1) = 10 then s1\<lparr>sb_n := sb_n s1 - 1\<rparr> else s1);
              (q, st2) \<leftarrow> aem_log_submit al m (Some s2) st1;
              s3 \<leftarrow> q;
              Some (True, st2\<lparr>ls_buf := s3\<rparr>) } }"

text \<open>\<open>fmt\<close> is the format string itself. The warning's own format does not end with a newline.\<close>
definition aem_logmf_ctx_impl ::
  "u8 allocator \<Rightarrow> nat \<Rightarrow> aem_log_level \<Rightarrow> u8 list \<Rightarrow> int \<Rightarrow> u8 list \<Rightarrow> u8 list \<Rightarrow> u8 list \<Rightarrow> log_state \<Rightarrow> log_state option" where
  "aem_logmf_ctx_impl al m loglevel file line fn fmt t st =
     do { (logged, st1) \<leftarrow> logmf_line al m loglevel file line fn t st;
          if logged \<and> fmt \<noteq> [] \<and> last fmt = 10 then
            map_option snd (logmf_line al aem_log_module_default_internal AEM_LOG_BUG file line fn
              (cstr ''Deprecated: format string for the previous message ends with '' @ [92] @ cstr ''n'') st1)
          else Some st1 }"

section \<open>Setting levels and destinations\<close>

text \<open>The library's own messages: \<open>aem_logf_ctx\<close> and \<open>AEM_LOG_MULTI\<close> in \<open>log.c\<close>.\<close>

definition log_c :: "u8 list" where "log_c = cstr ''log.c''"

definition log_internal ::
  "u8 allocator \<Rightarrow> aem_log_level \<Rightarrow> int \<Rightarrow> string \<Rightarrow> string \<Rightarrow> log_state \<Rightarrow> log_state option" where
  "log_internal al loglevel line fn t st =
     aem_logmf_ctx_impl al aem_log_module_default_internal loglevel log_c line (cstr fn) (cstr t) (cstr t) st"

definition AEM_LOG_MULTI ::
  "u8 allocator \<Rightarrow> aem_log_level \<Rightarrow> int \<Rightarrow> string \<Rightarrow> (stringbuf \<Rightarrow> stringbuf option) \<Rightarrow> log_state \<Rightarrow> log_state option" where
  "AEM_LOG_MULTI al loglevel line fn body st =
     do { (p, st1) \<leftarrow> aem_log_header_mod_impl al (ls_buf st) aem_log_module_default_internal loglevel log_c line (cstr fn) st;
          case p of
            None \<Rightarrow> Some st1
          | Some str \<Rightarrow> do {
              s1 \<leftarrow> body str;
              (q, st2) \<leftarrow> aem_log_submit al aem_log_module_default_internal (Some s1) st1;
              s2 \<leftarrow> q;
              Some (st2\<lparr>ls_buf := s2\<rparr>) } }"

definition misspelled :: "u8 allocator \<Rightarrow> stringslice \<Rightarrow> u8 list \<Rightarrow> stringbuf \<Rightarrow> stringbuf option" where
  "misspelled al word expect out =
     do { b1 \<leftarrow> aem_stringbuf_puts al out (Some (cstr ''Misspelled log level '' @ [34]));
          b2 \<leftarrow> aem_string_escape al b1 word;
          aem_stringbuf_vprintf al b2 (Some ([34] @ cstr ''; assuming you meant '' @ [34] @ expect @ [34])) }"

definition aem_log_level_parse :: "u8 allocator \<Rightarrow> stringslice \<Rightarrow> log_state \<Rightarrow> (aem_log_level \<times> log_state) option" where
  "aem_log_level_parse al word st =
     (if \<not> aem_stringslice_ok word then Some (AEM_LOG_DEBUG, st)
      else do {
        let level = (if aem_stringslice_ok word then aem_log_level_parse_letter (ss_first word) else AEM_LOG_INVALID);
        (level1, st1) \<leftarrow>
          (if level = AEM_LOG_INVALID then do {
             st1 \<leftarrow> log_internal al AEM_LOG_ERROR 187 ''aem_log_level_parse'' ''Failed to parse log level; default to debug'' st;
             Some (AEM_LOG_DEBUG, st1) }
           else Some (level, st));
        if \<not> aem_stringslice_ok word then Some (level1, st1)
        else do {
          let expect = aem_log_level_describe level1;
          st2 \<leftarrow> (if \<not> aem_stringslice_eq_case word (Some expect) then
                  AEM_LOG_MULTI al AEM_LOG_WARN 199 ''aem_log_level_parse'' (misspelled al word expect) st1
                else Some st1);
          Some (level1, st2) } })"

definition set_loglevel :: "nat \<Rightarrow> aem_log_level \<Rightarrow> log_state \<Rightarrow> log_state" where
  "set_loglevel m level st = st\<lparr>ls_mod := (ls_mod st)(m := (ls_mod st m)\<lparr>lm_loglevel := level\<rparr>)\<rparr>"

text \<open>One of the two levels: the word is parsed, stored and announced.\<close>
definition parse_set_one ::
  "u8 allocator \<Rightarrow> nat \<Rightarrow> int \<Rightarrow> string \<Rightarrow> stringslice \<Rightarrow> log_state \<Rightarrow> (stringslice \<times> log_state) option" where
  "parse_set_one al m line msg s st =
     do { let (word, s1) = aem_stringslice_match_alnum s;
          (level, st1) \<leftarrow> aem_log_level_parse al word st;
          let st2 = set_loglevel m level st1;
          st3 \<leftarrow> aem_logmf_ctx_impl al m (lm_loglevel (ls_mod st2 m)) log_c line (cstr ''aem_log_level_parse_set'')
            (cstr msg @ cstr ''%s'') (cstr msg @ aem_log_level_describe (lm_loglevel (ls_mod st2 m))) st2;
          Some (snd (aem_stringslice_match_ws s1), st3) }"

definition aem_log_level_parse_set :: "u8 allocator \<Rightarrow> u8 list ptr \<Rightarrow> log_state \<Rightarrow> log_state option" where
  "aem_log_level_parse_set al p st =
     do { let s = snd (aem_stringslice_match_ws (aem_stringslice_new_cstr p));
          (s1, st1) \<leftarrow> parse_set_one al aem_log_module_default 213 ''Set default log level to '' s st;
          let (comma, s2) = aem_stringslice_match s1 (cstr '','');
          (s3, st2) \<leftarrow> (if comma then
             parse_set_one al aem_log_module_default_internal 219 ''Set internal log level to ''
               (snd (aem_stringslice_match_ws s2)) st1
           else Some (s2, st1));
          if aem_stringslice_ok s3 then
            log_internal al AEM_LOG_WARN 224 ''aem_log_level_parse_set'' ''Garbage after log level!'' st2
          else Some st2 }"

text \<open>\<open>tty\<close> tells which files are terminals. The old file is closed, or given back.\<close>
definition aem_log_dest_fset ::
  "u8 allocator \<Rightarrow> (nat \<Rightarrow> bool) \<Rightarrow> nat \<Rightarrow> nat ptr \<Rightarrow> bool \<Rightarrow> log_state \<Rightarrow> (nat ptr \<times> log_state) option" where
  "aem_log_dest_fset al tty d fp_new autoclose_new st =
     do { let fp_old = ld_fp (ls_dest st d);
          let closing = (ld_autoclose (ls_dest st d) \<and> fp_old \<noteq> None);
          fp \<leftarrow> fp_new;
          let dst = (ls_dest st d)\<lparr>ld_log := Some aem_log_dest_fp_log, ld_fp := fp_new, ld_autoclose := autoclose_new,
            ld_flags := (if tty fp then ld_flags (ls_dest st d) OR AEM_LOG_FLAG_COLOR
                         else ld_flags (ls_dest st d) AND NOT AEM_LOG_FLAG_COLOR)\<rparr>;
          let st1 = st\<lparr>ls_dest := (ls_dest st)(d := dst),
            ls_closed := ls_closed st @ (if closing then [the fp_old] else [])\<rparr>;
          let color = (if ld_flags dst AND AEM_LOG_FLAG_COLOR \<noteq> 0 then cstr ''color'' else cstr ''no color'');
          st2 \<leftarrow> aem_logmf_ctx_impl al aem_log_module_default_internal AEM_LOG_DEBUG log_c 59 (cstr ''aem_log_dest_fset'')
            (cstr ''Switched to new log source: %s'') (cstr ''Switched to new log source: '' @ color) st1;
          Some (if closing then None else fp_old, st2) }"

definition aem_log_dest_fopen ::
  "u8 allocator \<Rightarrow> (nat \<Rightarrow> bool) \<Rightarrow> (u8 list \<Rightarrow> nat ptr) \<Rightarrow> nat \<Rightarrow> u8 list ptr \<Rightarrow> log_state \<Rightarrow> (nat ptr \<times> log_state) option" where
  "aem_log_dest_fopen al tty fopen d path_new st =
     (case path_new of
        None \<Rightarrow> Some (None, st)
      | Some path \<Rightarrow>
          (case fopen path of
             None \<Rightarrow> Some (None, st)
           | Some fp_new \<Rightarrow> aem_log_dest_fset al tty d (Some fp_new) True st))"

definition aem_log_fset ::
  "u8 allocator \<Rightarrow> (nat \<Rightarrow> bool) \<Rightarrow> nat ptr \<Rightarrow> bool \<Rightarrow> log_state \<Rightarrow> (nat ptr \<times> log_state) option" where
  "aem_log_fset al tty fp_new autoclose_new st = aem_log_dest_fset al tty aem_log_default fp_new autoclose_new st"

definition aem_log_fopen ::
  "u8 allocator \<Rightarrow> (nat \<Rightarrow> bool) \<Rightarrow> (u8 list \<Rightarrow> nat ptr) \<Rightarrow> u8 list ptr \<Rightarrow> log_state \<Rightarrow> (nat ptr \<times> log_state) option" where
  "aem_log_fopen al tty fopen path_new st = aem_log_dest_fopen al tty fopen aem_log_default path_new st"

definition aem_log_fget :: "log_state \<Rightarrow> nat ptr" where
  "aem_log_fget st = ld_fp (ls_dest st aem_log_default)"

section \<open>The text of a line\<close>

text \<open>The module's name between brackets, padded to the widest seen; \<open>cs\<close> are its code points.\<close>
definition module_width :: "u32 \<Rightarrow> u32 list \<Rightarrow> u32 \<Rightarrow> u32" where
  "module_width flags cs width =
     (if flags AND AEM_LOG_FLAG_MODULE \<noteq> 0 \<and> length (concat (map utf8_encode cs)) > unat width
      then word_of_nat (length (concat (map utf8_encode cs))) else width)"

definition module_text :: "u32 \<Rightarrow> u32 list \<Rightarrow> u32 \<Rightarrow> u8 list" where
  "module_text flags cs width =
     (if flags AND AEM_LOG_FLAG_MODULE = 0 then []
      else cstr ''['' @ concat (map utf8_encode cs) @
        replicate (unat (module_width flags cs width) - length cs) 32 @ cstr ''] '')"

definition header_text :: "u32 \<Rightarrow> aem_log_level \<Rightarrow> u32 list \<Rightarrow> u32 \<Rightarrow> u8 list \<Rightarrow> int \<Rightarrow> u8 list \<Rightarrow> u8 list" where
  "header_text flags loglevel cs width file line fn =
     (let colored = (flags AND AEM_LOG_FLAG_COLOR \<noteq> 0)
      in (if colored then aem_log_level_color loglevel else []) @ [aem_log_level_letter loglevel, 32] @
         module_text flags cs width @ file @ cstr '':'' @ c_dec line @ cstr ''('' @ fn @ cstr ''):'' @
         (if colored then AEM_SGR ''0'' else []) @ [32])"

text \<open>Without colors, control sequences are taken out.\<close>
definition line_text :: "u32 \<Rightarrow> u8 list \<Rightarrow> u8 list" where
  "line_text flags w = (if flags AND AEM_LOG_FLAG_COLOR \<noteq> 0 then w @ AEM_SGR ''0'' else strip_text w) @ [10]"

lemma reset_ready: "sb_ready al b \<Longrightarrow> sb_ready al (aem_stringbuf_reset b) \<and> sb_out (aem_stringbuf_reset b) = []"
  by (auto simp: sb_ready_def sb_free_def aem_stringbuf_reset_def sb_inv_def sb_out_def)

text \<open>A step of a chain of writers that is passed with the text so far.\<close>
definition holds :: "u8 allocator \<Rightarrow> stringbuf \<Rightarrow> u8 list \<Rightarrow> bool" where
  "holds al b w \<longleftrightarrow> sb_ready al b \<and> sb_out b = w"

lemma appends_holds:
  assumes "appends al f v" "holds al b w" "length (w @ v) \<le> 2 ^ 24"
  shows "\<exists>b'. f b = Some b' \<and> holds al b' (w @ v)"
  using assms ready_n [of al b] by (auto simp: appends_def holds_def)

lemma appends_if_holds:
  assumes "appends al f v" "holds al b w" "length (w @ v) \<le> 2 ^ 24"
  shows "\<exists>b'. (if P then f b else Some b) = Some b' \<and> holds al b' (w @ (if P then v else []))"
  using appends_holds [OF assms] assms(2) by auto

lemma header_module_spec:
  assumes b: "holds al b w" and name: "name = Some (concat (map utf8_encode cs))" "0x1b \<notin> set cs"
    and len: "length w + 2 * length (concat (map utf8_encode cs)) + unat width + 3 \<le> 2 ^ 24"
  shows "\<exists>b'. log_header_module al flags name width b = Some (module_width flags cs width, b') \<and>
    holds al b' (w @ module_text flags cs width)"
proof (cases "flags AND AEM_LOG_FLAG_MODULE = 0")
  case True
  then show ?thesis using b by (simp add: log_header_module_def module_width_def module_text_def)
next
  case False
  let ?nm = "concat (map utf8_encode cs)"
  let ?w1 = "module_width flags cs width"
  obtain s1 where s1: "aem_stringbuf_puts al b (Some (cstr ''['')) = Some s1" "holds al s1 (w @ cstr ''['')"
    using appends_holds [OF puts_appends b, of "cstr ''[''"] len by (auto simp: cstr_def)
  obtain s2 where s2: "aem_stringbuf_puts al s1 (Some ?nm) = Some s2" "holds al s2 ((w @ cstr ''['') @ ?nm)"
    using appends_holds [OF puts_appends s1(2), of ?nm] len by (auto simp: cstr_def)
  have n: "sb_n s1 = length w + 1" "sb_n s2 = length w + 1 + length ?nm"
    using s1(2) s2(2) ready_n [of al s1] ready_n [of al s2] by (simp_all add: holds_def cstr_def)
  have short: "length ?nm < 2 ^ 24" using len by simp
  have width: "(if length ?nm > unat width then word_of_nat (length ?nm) else width) = ?w1"
    using False by (simp add: module_width_def)
  have w1: "unat ?w1 \<le> unat width + length ?nm"
    using short by (simp add: module_width_def unat_of_nat take_bit_nat_eq_self)
  obtain s3 where s3: "aem_ansi_pad al s2 (length (w @ cstr ''['')) (unat ?w1) = Some s3"
      "holds al s3 (((w @ cstr ''['') @ ?nm) @ replicate (unat ?w1 - length cs) 32)"
    using pad_text [of al s2 "w @ cstr ''[''" cs "unat ?w1"] s2(2) name(2) n len w1 by (auto simp: holds_def)
  have "length w + length ?nm + (unat ?w1 - length cs) + 3 \<le> 2 ^ 24" using len w1 by linarith
  then have l4: "length ((((w @ cstr ''['') @ ?nm) @ replicate (unat ?w1 - length cs) 32) @ cstr ''] '') \<le> 2 ^ 24"
    by (simp add: cstr_def)
  obtain s4 where s4: "aem_stringbuf_puts al s3 (Some (cstr ''] '')) = Some s4"
      "holds al s4 ((((w @ cstr ''['') @ ?nm) @ replicate (unat ?w1 - length cs) 32) @ cstr ''] '')"
    using appends_holds [OF puts_appends s3(2) l4] by blast
  have "log_header_module al flags name width b = Some (?w1, s4)"
    using False s1(1) s2(1) s3(1) s4(1) n width name(1)
    by (simp add: log_header_module_def Let_def cstr_def cong: if_cong)
  then show ?thesis using s4(2) False by (simp add: module_text_def)
qed

lemma header_spec:
  assumes lv: "log_level_code loglevel \<le> log_level_code (lm_loglevel (ls_mod st m))"
    and ready: "sb_ready al str" and dst: "lm_dst (ls_mod st m) = Some d"
    and flags: "flags = lm_flags (ls_mod st m) OR ld_flags (ls_dest st d)"
    and name: "lm_name (ls_mod st m) = Some (concat (map utf8_encode cs))" "0x1b \<notin> set cs"
    and len: "2 * length (concat (map utf8_encode cs)) + unat (ls_width st) + length file + length fn +
      length (c_dec line) + 64 \<le> 2 ^ 24"
  shows "\<exists>s. aem_log_header_mod_impl al str m loglevel file line fn st =
      Some (Some s, st\<lparr>ls_width := module_width flags cs (ls_width st)\<rparr>) \<and>
    holds al s (header_text flags loglevel cs (ls_width st) file line fn)"
proof -
  let ?col = "flags AND AEM_LOG_FLAG_COLOR \<noteq> 0" and ?nm = "concat (map utf8_encode cs)"
  let ?pos = "file @ cstr '':'' @ c_dec line @ cstr ''('' @ fn @ cstr '')''"
  have cl: "length (aem_log_level_color loglevel) \<le> 16" "length (AEM_SGR ''0'') = 4"
    by (cases loglevel; simp add: AEM_SGR_def cstr_def) (simp add: AEM_SGR_def cstr_def)
  have ml: "length (module_text flags cs (ls_width st)) \<le> 2 * length ?nm + unat (ls_width st) + 3"
  proof -
    have "unat (module_width flags cs (ls_width st)) \<le> unat (ls_width st) + length ?nm"
      using len by (simp add: module_width_def unat_of_nat take_bit_nat_eq_self)
    then have "unat (module_width flags cs (ls_width st)) - length cs \<le> length ?nm + unat (ls_width st)"
      by linarith
    then show ?thesis by (simp add: module_text_def cstr_def)
  qed
  define c where "c = (if ?col then aem_log_level_color loglevel else [])"
  define e where "e = (if ?col then AEM_SGR ''0'' else [])"
  have ce: "length c \<le> 16" "length e \<le> 4" using cl by (simp_all add: c_def e_def)
  have "holds al (aem_stringbuf_reset str) []" using reset_ready [OF ready] by (simp add: holds_def)
  then obtain s1 where s1: "(if ?col then aem_stringbuf_puts al (aem_stringbuf_reset str) (Some (aem_log_level_color loglevel))
        else Some (aem_stringbuf_reset str)) = Some s1" "holds al s1 c"
    using appends_if_holds [OF puts_appends, of al "aem_stringbuf_reset str" "[]" "aem_log_level_color loglevel" ?col]
      cl(1) unfolding c_def by fastforce
  obtain s2 where s2: "aem_stringbuf_putc al s1 (aem_log_level_letter loglevel) = Some s2"
      "holds al s2 (c @ [aem_log_level_letter loglevel])"
    using appends_holds [OF putc_appends s1(2), of "aem_log_level_letter loglevel"] ce by auto
  obtain s3 where s3: "aem_stringbuf_putc al s2 32 = Some s3" "holds al s3 (c @ [aem_log_level_letter loglevel, 32])"
    using appends_holds [OF putc_appends s2(2), of 32] ce by auto
  let ?w3 = "c @ [aem_log_level_letter loglevel, 32]"
  have l3: "length ?w3 \<le> 18" using ce by simp
  obtain s4 where s4: "log_header_module al flags (lm_name (ls_mod st m)) (ls_width st) s3 =
        Some (module_width flags cs (ls_width st), s4)" "holds al s4 (?w3 @ module_text flags cs (ls_width st))"
    using header_module_spec [OF s3(2) name, of "ls_width st" flags] l3 len by auto
  let ?w4 = "?w3 @ module_text flags cs (ls_width st)"
  have l4: "length ?w4 + length ?pos + 6 \<le> 2 ^ 24" using l3 ml len by (simp add: cstr_def)
  obtain s5 where s5: "aem_stringbuf_vprintf al s4 (Some ?pos) = Some s5" "holds al s5 (?w4 @ ?pos)"
    using appends_holds [OF vprintf_appends s4(2), of ?pos] l4 by auto
  obtain s6 where s6: "aem_stringbuf_putc al s5 (chr CHR '':'') = Some s6" "holds al s6 ((?w4 @ ?pos) @ [chr CHR '':''])"
    using appends_holds [OF putc_appends s5(2), of "chr CHR '':''"] l4 by auto
  obtain s7 where s7: "(if ?col then aem_stringbuf_puts al s6 (Some (AEM_SGR ''0'')) else Some s6) = Some s7"
      "holds al s7 (((?w4 @ ?pos) @ [chr CHR '':'']) @ e)"
    using appends_if_holds [OF puts_appends s6(2), of "AEM_SGR ''0''" ?col] l4 cl(2) unfolding e_def by auto
  obtain s8 where s8: "aem_stringbuf_putc al s7 32 = Some s8" "holds al s8 ((((?w4 @ ?pos) @ [chr CHR '':'']) @ e) @ [32])"
    using appends_holds [OF putc_appends s7(2), of 32] l4 ce(2) by auto
  have hdr: "(((?w4 @ ?pos) @ [chr CHR '':'']) @ e) @ [32] =
      header_text flags loglevel cs (ls_width st) file line fn"
    by (simp add: header_text_def chr_def cstr_def c_def e_def)
  have "aem_log_module_flags st m = Some flags" using dst flags by (simp add: aem_log_module_flags_def)
  then have "aem_log_header_mod_impl al str m loglevel file line fn st =
      Some (Some s8, st\<lparr>ls_width := module_width flags cs (ls_width st)\<rparr>)"
    using lv dst s1(1) s2(1) s3(1) s4(1) s5(1) s6(1) s7(1) s8(1)
    by (simp add: aem_log_header_mod_impl_def Let_def not_less)
  then show ?thesis using s8(2) hdr by simp
qed

lemma line_text_length: "length (line_text flags w) \<le> length w + 5"
  using strip_text_shorter [of w] by (simp add: line_text_def AEM_SGR_def cstr_def)

lemma submit_spec:
  assumes str: "holds al str w" and dst: "lm_dst (ls_mod st m) = Some d"
    and flags: "flags = lm_flags (ls_mod st m) OR ld_flags (ls_dest st d)"
    and len: "length w + 5 \<le> 2 ^ 24" and call: "log_call d (line_text flags w) st = Some st'"
  shows "\<exists>s. aem_log_submit al m (Some str) st = Some (Some s, st') \<and> sb_ready al s"
proof -
  let ?col = "flags AND AEM_LOG_FLAG_COLOR \<noteq> 0"
  obtain s1 where s1: "(if ?col then aem_stringbuf_puts al str (Some (AEM_SGR ''0'')) else aem_ansi_strip_inplace al str) = Some s1"
      "holds al s1 (if ?col then w @ AEM_SGR ''0'' else strip_text w)"
  proof (cases ?col)
    case True
    then show ?thesis using appends_holds [OF puts_appends str, of "AEM_SGR ''0''"] len that
      by (auto simp: AEM_SGR_def cstr_def)
  next
    case False
    then show ?thesis using strip_inplace_ready [of al str] str that by (auto simp: holds_def)
  qed
  obtain s2 where s2: "aem_stringbuf_puts al s1 (Some [10]) = Some s2" "holds al s2 (line_text flags w)"
    using appends_holds [OF puts_appends s1(2), of "[10]"] line_text_length [of flags w] len
    by (auto simp: line_text_def)
  have "aem_log_module_flags st m = Some flags" using dst flags by (simp add: aem_log_module_flags_def)
  moreover have "ss_bytes (aem_stringslice_new_str literal_addr s2) = line_text flags w"
    using s2(2) by (simp add: aem_stringslice_new_str_def holds_def sb_out_def)
  ultimately show ?thesis using s1(1) s2 dst call
    by (simp add: aem_log_submit_def Let_def holds_def)
qed

text \<open>The message without the newline earlier versions of the interface wanted.\<close>
definition chop :: "u8 list \<Rightarrow> u8 list" where
  "chop t = (if t \<noteq> [] \<and> last t = 10 then butlast t else t)"

lemma line_spec:
  assumes lv: "log_level_code loglevel \<le> log_level_code (lm_loglevel (ls_mod st m))"
    and ready: "sb_ready al (ls_buf st)" and dst: "lm_dst (ls_mod st m) = Some d"
    and flags: "flags = lm_flags (ls_mod st m) OR ld_flags (ls_dest st d)"
    and name: "lm_name (ls_mod st m) = Some (concat (map utf8_encode cs))" "0x1b \<notin> set cs"
    and len: "2 * length (concat (map utf8_encode cs)) + unat (ls_width st) + length file + length fn +
      length (c_dec line) + length t + 80 \<le> 2 ^ 24"
    and hdr: "h = header_text flags loglevel cs (ls_width st) file line fn" "length h + length t + 16 \<le> 2 ^ 24"
    and call: "log_call d (line_text flags (h @ chop t)) (st\<lparr>ls_width := module_width flags cs (ls_width st)\<rparr>) = Some st'"
  shows "\<exists>s. logmf_line al m loglevel file line fn t st = Some (True, st'\<lparr>ls_buf := s\<rparr>) \<and> sb_ready al s"
proof -
  let ?st1 = "st\<lparr>ls_width := module_width flags cs (ls_width st)\<rparr>"
  have "\<exists>str. aem_log_header_mod_impl al (ls_buf st) m loglevel file line fn st = Some (Some str, ?st1) \<and>
      holds al str (header_text flags loglevel cs (ls_width st) file line fn)"
    by (rule header_spec [OF lv ready dst flags name]) (use len in simp)
  then obtain str where str: "aem_log_header_mod_impl al (ls_buf st) m loglevel file line fn st = Some (Some str, ?st1)" "holds al str h"
    using hdr(1) by auto
  obtain s1 where s1: "aem_stringbuf_vprintf al str (Some t) = Some s1" "holds al s1 (h @ t)"
    using appends_holds [OF vprintf_appends str(2), of t] hdr(2) by auto
  define s2 where "s2 = (if sb_n s1 \<noteq> 0 \<and> sb_s s1 ! (sb_n s1 - 1) = 10 then s1\<lparr>sb_n := sb_n s1 - 1\<rparr> else s1)"
  have n: "sb_n s1 = length (h @ t)" using s1(2) ready_n [of al s1] by (simp add: holds_def)
  have "h \<noteq> []" "last h = 32" by (simp_all add: hdr(1) header_text_def Let_def)
  have nz: "sb_n s1 \<noteq> 0" using n \<open>h \<noteq> []\<close> by simp
  have "sb_out s1 ! (sb_n s1 - 1) = sb_s s1 ! (sb_n s1 - 1)" using nz by (simp add: sb_out_def)
  moreover have "sb_out s1 = h @ t" using s1(2) by (simp add: holds_def)
  moreover have "last (h @ t) = (h @ t) ! (sb_n s1 - 1)" using n \<open>h \<noteq> []\<close> last_conv_nth [of "h @ t"] by simp
  ultimately have last: "sb_s s1 ! (sb_n s1 - 1) = last (h @ t)" by simp
  have "holds al s2 (h @ chop t)"
  proof (cases "last (h @ t) = 10")
    case False
    then have "chop t = t" using \<open>h \<noteq> []\<close> by (auto simp: chop_def)
    then show ?thesis using False last s1(2) by (simp add: s2_def)
  next
    case True
    then have "t \<noteq> []" using \<open>last h = 32\<close> by auto
    then have "last t = 10" using True by simp
    with \<open>t \<noteq> []\<close> have "t \<noteq> []" "last t = 10" by simp_all
    then have "h @ chop t = butlast (h @ t)" by (simp add: chop_def butlast_append)
    moreover have "sb_n s1 \<le> length (sb_s s1)" using s1(2) by (auto simp: holds_def sb_ready_def sb_inv_def)
    then have "sb_out (s1\<lparr>sb_n := sb_n s1 - 1\<rparr>) = butlast (sb_out s1)" by (simp add: sb_out_def butlast_take)
    moreover have "sb_ready al (s1\<lparr>sb_n := sb_n s1 - 1\<rparr>)"
      using s1(2) by (auto simp: holds_def sb_ready_def sb_inv_def sb_free_def)
    ultimately show ?thesis using True last nz s1(2) by (simp add: s2_def holds_def)
  qed
  moreover have "length (chop t) \<le> length t" by (simp add: chop_def)
  then have "length (h @ chop t) + 5 \<le> 2 ^ 24" using hdr(2) by simp
  ultimately obtain s where s: "aem_log_submit al m (Some s2) ?st1 = Some (Some s, st')" "sb_ready al s"
    using submit_spec [of al s2 "h @ chop t" ?st1 m d flags st'] dst flags call by auto
  have "logmf_line al m loglevel file line fn t st = Some (True, st'\<lparr>ls_buf := s\<rparr>)"
    using str(1) s1(1) s(1) [unfolded s2_def] by (simp add: logmf_line_def Let_def)
  then show ?thesis using s(2) by blast
qed

lemma header_text_length:
  assumes "length (concat (map utf8_encode cs)) < 2 ^ 24"
  shows "length (header_text flags loglevel cs width file line fn) \<le>
    2 * length (concat (map utf8_encode cs)) + unat width + length file + length fn + length (c_dec line) + 32"
proof -
  have "length (aem_log_level_color loglevel) \<le> 9" "length (AEM_SGR ''0'') = 4"
    by (cases loglevel; simp add: AEM_SGR_def cstr_def) (simp add: AEM_SGR_def cstr_def)
  moreover have "unat (module_width flags cs width) \<le> unat width + length (concat (map utf8_encode cs))"
    using assms by (simp add: module_width_def unat_of_nat take_bit_nat_eq_self)
  then have "unat (module_width flags cs width) - length cs \<le> length (concat (map utf8_encode cs)) + unat width"
    by linarith
  then have "length (module_text flags cs width) \<le> 2 * length (concat (map utf8_encode cs)) + unat width + 3"
    by (simp add: module_text_def cstr_def)
  ultimately show ?thesis by (simp add: header_text_def Let_def cstr_def)
qed

text \<open>The letter of a level is read back as the level, but for \<open>security\<close>, whose label is an upper
  case letter that \<open>tolower\<close> never returns.\<close>

lemma letter_roundtrip:
  "l \<noteq> AEM_LOG_INVALID \<Longrightarrow> l \<noteq> AEM_LOG_SECURITY \<Longrightarrow> aem_log_level_parse_letter (aem_log_level_letter l) = l"
  by (cases l) (simp_all, code_simp+)

lemma security_never_parsed: "aem_log_level_parse_letter c \<noteq> AEM_LOG_SECURITY"
proof -
  have "c_tolower k \<noteq> 83" for k by (auto simp: c_tolower_def c_isupper_def)
  moreover have "schar (chr CHR ''S'') = 83" by code_simp
  ultimately show ?thesis by (simp add: aem_log_level_parse_letter_def Let_def)
qed

lemma good_has_no_name: "aem_log_level_describe AEM_LOG_GOOD = cstr ''(unknown)''"
  by simp

section \<open>Properties\<close>

text \<open>A module without a destination gets the default one with its first message.\<close>
definition dest_of :: "log_state \<Rightarrow> nat \<Rightarrow> nat" where
  "dest_of st m = (case lm_dst (ls_mod st m) of None \<Rightarrow> aem_log_default | Some d \<Rightarrow> d)"

definition with_dest :: "nat \<Rightarrow> log_state \<Rightarrow> log_state" where
  "with_dest m st = st\<lparr>ls_mod := (ls_mod st)(m := (ls_mod st m)\<lparr>lm_dst := Some (dest_of st m)\<rparr>)\<rparr>"

lemma with_dest_simps [simp]:
  "lm_dst (ls_mod (with_dest m st) m) = Some (dest_of st m)" "lm_name (ls_mod (with_dest m st) x) = lm_name (ls_mod st x)"
  "lm_flags (ls_mod (with_dest m st) x) = lm_flags (ls_mod st x)"
  "lm_loglevel (ls_mod (with_dest m st) x) = lm_loglevel (ls_mod st x)" "dest_of (with_dest m st) x = dest_of st x"
  "ls_dest (with_dest m st) = ls_dest st" "ls_buf (with_dest m st) = ls_buf st" "ls_width (with_dest m st) = ls_width st"
  "ls_file (with_dest m st) = ls_file st"
  by (simp_all add: with_dest_def dest_of_def)

lemma with_dest_line:
  assumes "log_level_code loglevel \<le> log_level_code (lm_loglevel (ls_mod st m))"
  shows "logmf_line al m loglevel file line fn t (with_dest m st) = logmf_line al m loglevel file line fn t st"
proof -
  have "with_dest m st = st" if "lm_dst (ls_mod st m) = Some d" for d
  proof -
    have "(ls_mod st m)\<lparr>lm_dst := Some (dest_of st m)\<rparr> = ls_mod st m"
      using that by (cases "ls_mod st m") (simp add: dest_of_def)
    then show ?thesis by (simp add: with_dest_def)
  qed
  moreover have "aem_log_header_mod_impl al str m loglevel file line fn (with_dest m st) =
      aem_log_header_mod_impl al str m loglevel file line fn st" if "lm_dst (ls_mod st m) = None" for str
    using assms that by (simp add: aem_log_header_mod_impl_def with_dest_def dest_of_def aem_log_module_flags_def Let_def)
  ultimately show ?thesis by (cases "lm_dst (ls_mod st m)") (simp_all add: logmf_line_def)
qed

text \<open>The module's name is the text of \<open>cs\<close>, and what it logs goes to the file \<open>fp\<close>.\<close>
definition writes_to :: "log_state \<Rightarrow> nat \<Rightarrow> u32 list \<Rightarrow> nat \<Rightarrow> bool" where
  "writes_to st m cs fp \<longleftrightarrow> lm_name (ls_mod st m) = Some (concat (map utf8_encode cs)) \<and> 0x1b \<notin> set cs \<and>
     ld_log (ls_dest st (dest_of st m)) = Some aem_log_dest_fp_log \<and> ld_fp (ls_dest st (dest_of st m)) = Some fp"

text \<open>The state after the line, but for the buffer.\<close>
definition logged_line ::
  "nat \<Rightarrow> u32 list \<Rightarrow> nat \<Rightarrow> aem_log_level \<Rightarrow> u8 list \<Rightarrow> int \<Rightarrow> u8 list \<Rightarrow> u8 list \<Rightarrow> log_state \<Rightarrow> log_state" where
  "logged_line m cs fp loglevel file line fn t st =
     (let flags = lm_flags (ls_mod st m) OR ld_flags (ls_dest st (dest_of st m))
      in if log_level_code loglevel > log_level_code (lm_loglevel (ls_mod st m)) then st
         else (with_dest m st)\<lparr>ls_width := module_width flags cs (ls_width st),
           ls_file := (ls_file st)(fp := ls_file st fp @
             line_text flags (header_text flags loglevel cs (ls_width st) file line fn @ chop t))\<rparr>)"

definition line_fits :: "u32 list \<Rightarrow> nat \<Rightarrow> u8 list \<Rightarrow> int \<Rightarrow> u8 list \<Rightarrow> u8 list \<Rightarrow> bool" where
  "line_fits cs width file line fn t \<longleftrightarrow> 2 * length (concat (map utf8_encode cs)) + width + length file + length fn +
     length (c_dec line) + length t + 100 \<le> 2 ^ 24"

lemma line_written:
  assumes ready: "sb_ready al (ls_buf st)" and w: "writes_to st m cs fp"
    and fits: "line_fits cs (unat (ls_width st)) file line fn t"
  shows "\<exists>b buf. logmf_line al m loglevel file line fn t st =
      Some (b, (logged_line m cs fp loglevel file line fn t st)\<lparr>ls_buf := buf\<rparr>) \<and> sb_ready al buf \<and>
    (if log_level_code loglevel > log_level_code (lm_loglevel (ls_mod st m)) then \<not> b \<and> buf = ls_buf st else b)"
proof (cases "log_level_code loglevel > log_level_code (lm_loglevel (ls_mod st m))")
  case True
  then show ?thesis using ready
    by (intro exI [of _ False] exI [of _ "ls_buf st"])
      (simp add: logmf_line_def aem_log_header_mod_impl_def logged_line_def Let_def)
next
  case False
  define flags where "flags = lm_flags (ls_mod st m) OR ld_flags (ls_dest st (dest_of st m))"
  define h where "h = header_text flags loglevel cs (ls_width st) file line fn"
  let ?st = "with_dest m st"
  define st' where "st' = ?st\<lparr>ls_width := module_width flags cs (ls_width st),
    ls_file := (ls_file st)(fp := ls_file st fp @ line_text flags (h @ chop t))\<rparr>"
  note w = w [unfolded writes_to_def]
  have lh: "length h + length t + 16 \<le> 2 ^ 24"
    using header_text_length [of cs flags loglevel "ls_width st" "file" "line" "fn"] fits
    unfolding h_def line_fits_def by linarith
  have "log_call (dest_of st m) (line_text flags (h @ chop t)) (?st\<lparr>ls_width := module_width flags cs (ls_width ?st)\<rparr>) = Some st'"
    using w by (simp add: log_call_def st'_def)
  note call = this
  have "\<exists>buf. logmf_line al m loglevel file line fn t ?st = Some (True, st'\<lparr>ls_buf := buf\<rparr>) \<and> sb_ready al buf"
    by (rule line_spec [OF _ _ _ _ _ _ _ _ lh call])
      (use False ready w fits in \<open>simp_all add: flags_def h_def line_fits_def\<close>)
  then obtain buf where buf: "logmf_line al m loglevel file line fn t ?st = Some (True, st'\<lparr>ls_buf := buf\<rparr>)" "sb_ready al buf"
    by blast
  have "logged_line m cs fp loglevel file line fn t st = st'"
    using False by (simp add: logged_line_def st'_def h_def flags_def Let_def)
  then show ?thesis using buf with_dest_line [of loglevel st m] False by auto
qed

definition deprecated_text :: "u8 list" where
  "deprecated_text = cstr ''Deprecated: format string for the previous message ends with '' @ [92] @ cstr ''n''"

lemma module_width_le:
  "length (concat (map utf8_encode cs)) < 2 ^ 24 \<Longrightarrow>
   unat (module_width flags cs width) \<le> unat width + length (concat (map utf8_encode cs))"
  by (simp add: module_width_def unat_of_nat take_bit_nat_eq_self)

text \<open>C36: A message above its module's level leaves everything as it is. One at or below it
  appends exactly one line to the file of the module's destination, which is the default one if it
  has none yet: the level's letter, the module's name padded to the widest seen if that is asked
  for, the place in the source, and the text without a final newline; in colors if the destination
  has them, and with every control sequence taken out if not. If the format string itself ends with
  a newline, the library's own module then logs a message that says so, as a bug, by the same rules.
  (Both modules write to files, have names in UTF-8 without escape characters, and the parts of
  a line are less than 16 MiB in all.)\<close>

theorem log_writes_line:
  assumes "sb_ready al (ls_buf st)" "writes_to st m cs fp" "line_fits cs (unat (ls_width st)) file line fn t"
    and "fmt \<noteq> [] \<and> last fmt = 10 \<longrightarrow> writes_to st 1 cs1 fp1 \<and>
      line_fits cs1 (unat (ls_width st) + length (concat (map utf8_encode cs))) file line fn deprecated_text"
  shows "if log_level_code loglevel > log_level_code (lm_loglevel (ls_mod st m))
    then aem_logmf_ctx_impl al m loglevel file line fn fmt t st = Some st
    else \<exists>buf. sb_ready al buf \<and> aem_logmf_ctx_impl al m loglevel file line fn fmt t st =
      Some ((if fmt \<noteq> [] \<and> last fmt = 10
             then logged_line 1 cs1 fp1 AEM_LOG_BUG file line fn deprecated_text (logged_line m cs fp loglevel file line fn t st)
             else logged_line m cs fp loglevel file line fn t st)\<lparr>ls_buf := buf\<rparr>)"
proof (cases "log_level_code loglevel > log_level_code (lm_loglevel (ls_mod st m))")
  case True
  then show ?thesis by (simp add: aem_logmf_ctx_impl_def logmf_line_def aem_log_header_mod_impl_def)
next
  case False
  let ?st1 = "logged_line m cs fp loglevel file line fn t st"
  obtain b1 buf where one: "logmf_line al m loglevel file line fn t st = Some (b1, ?st1\<lparr>ls_buf := buf\<rparr>)"
      "sb_ready al buf" "b1"
    using line_written [OF assms(1-3), of loglevel] False by auto
  show ?thesis
  proof (cases "fmt \<noteq> [] \<and> last fmt = 10")
    case no: False
    then show ?thesis using one False by (auto simp: aem_logmf_ctx_impl_def)
  next
    case nl: True
    let ?st2 = "?st1\<lparr>ls_buf := buf\<rparr>"
    have same: "dest_of ?st2 x = dest_of st x" "lm_name (ls_mod ?st2 x) = lm_name (ls_mod st x)" "ls_dest ?st2 = ls_dest st" for x
      using False by (simp_all add: logged_line_def Let_def) (simp_all add: dest_of_def with_dest_def)
    have w1: "writes_to ?st2 1 cs1 fp1" using assms(4) nl same by (simp add: writes_to_def)
    have "unat (ls_width ?st2) \<le> unat (ls_width st) + length (concat (map utf8_encode cs))"
      using module_width_le [of cs] assms(3) False by (simp add: logged_line_def Let_def line_fits_def)
    then have f1: "line_fits cs1 (unat (ls_width ?st2)) file line fn deprecated_text"
      using assms(4) nl unfolding line_fits_def by linarith
    have "sb_ready al (ls_buf ?st2)" using one(2) by simp
    from line_written [OF this w1 f1, of AEM_LOG_BUG] obtain b2 buf2
      where two: "logmf_line al 1 AEM_LOG_BUG file line fn deprecated_text ?st2 =
          Some (b2, (logged_line 1 cs1 fp1 AEM_LOG_BUG file line fn deprecated_text ?st2)\<lparr>ls_buf := buf2\<rparr>)" "sb_ready al buf2"
      by blast
    have "(logged_line 1 cs1 fp1 AEM_LOG_BUG file line fn deprecated_text (s\<lparr>ls_buf := buf\<rparr>))\<lparr>ls_buf := buf2\<rparr> =
        (logged_line 1 cs1 fp1 AEM_LOG_BUG file line fn deprecated_text s)\<lparr>ls_buf := buf2\<rparr>" for s
      by (simp add: logged_line_def with_dest_def dest_of_def Let_def)
    then have "aem_logmf_ctx_impl al m loglevel file line fn fmt t st =
        Some ((logged_line 1 cs1 fp1 AEM_LOG_BUG file line fn deprecated_text ?st1)\<lparr>ls_buf := buf2\<rparr>)"
      using one nl two(1) by (simp add: aem_logmf_ctx_impl_def aem_log_module_default_internal_def deprecated_text_def)
    then show ?thesis using two(2) nl False by auto
  qed
qed

definition demo_log :: log_state where
  "demo_log = \<lparr>ls_mod = \<lambda>m. \<lparr>lm_loglevel = AEM_LOG_NOTICE, lm_name = Some (cstr ''aem''), lm_dst = None, lm_flags = 0\<rparr>,
     ls_dest = \<lambda>d. \<lparr>ld_log = Some aem_log_dest_fp_log, ld_flags = 0, ld_fp = Some 2, ld_autoclose = False\<rparr>,
     ls_buf = AEM_STRINGBUF_EMPTY, ls_width = 1, ls_file = \<lambda>_. [], ls_closed = [], ls_client = []\<rparr>"

text \<open>\<open>aem_logf(AEM_LOG_WARN, "low\n")\<close> in line 7 of \<open>main\<close>.\<close>
theorem log_writes_line_witness:
  "\<exists>st. aem_logmf_ctx_impl al_all 0 AEM_LOG_WARN (cstr ''a.c'') 7 (cstr ''main'') (cstr ''low'' @ [10]) (cstr ''low'' @ [10]) demo_log = Some st \<and>
     ls_file st 2 = cstr ''W a.c:7(main): low'' @ [10] @ cstr ''B a.c:7(main): '' @ deprecated_text @ [10]"
proof -
  let ?m = "concat (map utf8_encode [97, 101, 109])"
  have nm: "cstr ''aem'' = ?m" by code_simp
  have w: "line_text 0 (header_text 0 lv [97, 101, 109] 1 (cstr ''a.c'') 7 (cstr ''main'') @ chop t) =
      [aem_log_level_letter lv] @ cstr '' a.c:7(main): '' @ chop t @ [10]"
    if "0x1b \<notin> set t" "aem_log_level_letter lv \<noteq> 0x1b" for lv t
  proof -
    have "header_text 0 lv [97, 101, 109] 1 (cstr ''a.c'') 7 (cstr ''main'') = aem_log_level_letter lv # cstr '' a.c:7(main): ''"
      unfolding header_text_def module_text_def by (simp add: cstr_def, code_simp)
    moreover have "0x1b \<notin> set (cstr '' a.c:7(main): '')" by code_simp
    moreover have "0x1b \<notin> set (chop t)" using that(1) by (auto simp: chop_def dest: in_set_butlastD)
    ultimately show ?thesis using that(2) by (simp add: line_text_def strip_text_plain)
  qed
  have fits: "length t \<le> 100 \<Longrightarrow> k \<le> 4 \<Longrightarrow> line_fits [97, 101, 109] k (cstr ''a.c'') 7 (cstr ''main'') t" for t k
  proof -
    have "length (c_dec 7) = 1" by code_simp
    moreover have "length ?m = 3" unfolding nm [symmetric] by (simp add: cstr_def)
    ultimately show "length t \<le> 100 \<Longrightarrow> k \<le> 4 \<Longrightarrow> line_fits [97, 101, 109] k (cstr ''a.c'') 7 (cstr ''main'') t"
      by (simp add: line_fits_def cstr_def del: list.map concat.simps)
  qed
  have to: "writes_to demo_log x [97, 101, 109] 2" for x
    using nm by (simp add: writes_to_def demo_log_def dest_of_def)
  let ?t = "cstr ''low'' @ [10]" and ?f = "cstr ''a.c''" and ?g = "cstr ''main''" and ?cs = "[97, 101, 109] :: u32 list"
  have "if log_level_code AEM_LOG_WARN > log_level_code (lm_loglevel (ls_mod demo_log 0))
    then aem_logmf_ctx_impl al_all 0 AEM_LOG_WARN ?f 7 ?g ?t ?t demo_log = Some demo_log
    else \<exists>buf. sb_ready al_all buf \<and> aem_logmf_ctx_impl al_all 0 AEM_LOG_WARN ?f 7 ?g ?t ?t demo_log =
      Some ((if ?t \<noteq> [] \<and> last ?t = 10
             then logged_line 1 ?cs 2 AEM_LOG_BUG ?f 7 ?g deprecated_text (logged_line 0 ?cs 2 AEM_LOG_WARN ?f 7 ?g ?t demo_log)
             else logged_line 0 ?cs 2 AEM_LOG_WARN ?f 7 ?g ?t demo_log)\<lparr>ls_buf := buf\<rparr>)"
  proof (rule log_writes_line [OF _ to fits])
    show "?t \<noteq> [] \<and> last ?t = 10 \<longrightarrow> writes_to demo_log 1 ?cs 2 \<and>
        line_fits ?cs (unat (ls_width demo_log) + length ?m) ?f 7 ?g deprecated_text"
    proof (intro impI conjI to fits)
      show "length deprecated_text \<le> 100" by (simp add: deprecated_text_def cstr_def)
      show "unat (ls_width demo_log) + length ?m \<le> 4" unfolding nm [symmetric] by (simp add: demo_log_def cstr_def)
    qed
  qed (simp_all add: demo_log_def cstr_def)
  moreover have "0x1b \<notin> set ?t" "0x1b \<notin> set deprecated_text" "chop ?t = cstr ''low''" "chop deprecated_text = deprecated_text"
      "cstr ''W'' = [aem_log_level_letter AEM_LOG_WARN]" "cstr ''B'' = [aem_log_level_letter AEM_LOG_BUG]"
    by code_simp+
  ultimately show ?thesis
    using w [of ?t AEM_LOG_WARN] w [of deprecated_text AEM_LOG_BUG]
    by (auto simp: demo_log_def logged_line_def with_dest_def dest_of_def module_width_def Let_def cstr_def)
qed

end
