(* ===== verification/Aem_Module.thy ===== *)
theory Aem_Module
  imports Aem_Path "HOL-Library.Monad_Syntax"
begin

text \<open>
  The module loader (\<open>module.c\<close>). A module is a record; the dynamic linker and the functions a
  module definition points at belong to the client and act on a world of type \<open>'w\<close>. The
  life cycle is stated over a linker that records what it is asked to do.
\<close>

section \<open>Data\<close>

datatype aem_module_state = AEM_MODULE_UNREGISTERED | AEM_MODULE_LOADED | AEM_MODULE_REGISTERED

text \<open>The handle is what \<open>dlopen\<close> returned, the definition an address in the opened object.\<close>
record aem_module =
  mod_name :: stringbuf
  mod_path :: stringbuf
  mod_handle :: "nat ptr"
  mod_def :: "nat ptr"
  mod_logmodule :: "nat ptr"
  mod_state :: aem_module_state

text \<open>The four functions may change the module they are given; a call that does not return is \<open>None\<close>.\<close>
record 'w aem_module_def =
  def_name :: "u8 list ptr"
  def_version :: "u8 list ptr"
  def_deps :: "u8 list ptr"
  def_reg :: "(stringslice \<Rightarrow> aem_module \<Rightarrow> 'w \<Rightarrow> (int \<times> aem_module \<times> 'w) option) ptr"
  def_dereg :: "(aem_module \<Rightarrow> 'w \<Rightarrow> (aem_module \<times> 'w) option) ptr"
  def_check_reg :: "(aem_module \<Rightarrow> 'w \<Rightarrow> (int \<times> aem_module \<times> 'w) option) ptr"
  def_check_dereg :: "(aem_module \<Rightarrow> 'w \<Rightarrow> (int \<times> aem_module \<times> 'w) option) ptr"
  def_logmodule :: "nat ptr"

text \<open>\<open>dlopen\<close>, \<open>dlsym\<close> and \<open>dlclose\<close>, and the definition stored at an address.\<close>
record 'w dynlink =
  dl_open :: "u8 list ptr \<Rightarrow> 'w \<Rightarrow> nat ptr \<times> 'w"
  dl_sym :: "nat \<Rightarrow> u8 list \<Rightarrow> 'w \<Rightarrow> nat ptr"
  dl_close :: "nat \<Rightarrow> 'w \<Rightarrow> int \<times> 'w"
  dl_def :: "nat \<Rightarrow> 'w aem_module_def"

section \<open>Operations\<close>

definition aem_module_disable_dereg :: "aem_module \<Rightarrow> 'w \<Rightarrow> (int \<times> aem_module \<times> 'w) option" where
  "aem_module_disable_dereg m w = Some (0, m, w)"

text \<open>The bytes a C function reads at a pointer to a string.\<close>
definition c_string :: "u8 list \<Rightarrow> u8 list" where
  "c_string s = takeWhile (\<lambda>b. b \<noteq> 0) s"

text \<open>The messages name the module or its path, for which \<open>aem_stringbuf_get\<close> terminates the string.\<close>
definition log_name :: "aem_module \<Rightarrow> aem_module option" where
  "log_name m = do { (p, b) \<leftarrow> aem_stringbuf_get (mod_name m); Some (m\<lparr>mod_name := b\<rparr>) }"

definition log_path :: "aem_module \<Rightarrow> aem_module option" where
  "log_path m = do { (p, b) \<leftarrow> aem_stringbuf_get (mod_path m); Some (m\<lparr>mod_path := b\<rparr>) }"

text \<open>The search directory is a global buffer, here an argument.\<close>
definition aem_module_path_set :: "u8 allocator \<Rightarrow> u8 list \<Rightarrow> stringbuf \<Rightarrow> stringbuf option" where
  "aem_module_path_set al dir module_path =
     do { b \<leftarrow> aem_stringbuf_puts al (aem_stringbuf_reset module_path) (Some dir);
          (p, b1) \<leftarrow> aem_stringbuf_get b;
          Some b1 }"

definition aem_module_init :: "nat ptr \<Rightarrow> aem_module" where
  "aem_module_init logmodule =
     \<lparr>mod_name = aem_stringbuf_init, mod_path = aem_stringbuf_init, mod_handle = None, mod_def = None,
      mod_logmodule = logmodule, mod_state = AEM_MODULE_UNREGISTERED\<rparr>"

definition aem_module_resolve_path ::
  "bool \<Rightarrow> u8 allocator \<Rightarrow> nat \<Rightarrow> stringbuf \<Rightarrow> aem_module \<Rightarrow> (int \<times> aem_module) option" where
  "aem_module_resolve_path undef al addr module_path m =
     do { let name = aem_stringslice_new_str addr (mod_name m);
          (rc, out) \<leftarrow> aem_sandbox_path undef al (aem_stringbuf_reset (mod_path m))
             (aem_stringslice_new_str addr module_path) name (Some (cstr ''.so''));
          Some (if rc \<noteq> 0 then -1 else 0, m\<lparr>mod_path := out\<rparr>) }"

definition aem_module_get_sym :: "'w dynlink \<Rightarrow> aem_module \<Rightarrow> u8 list \<Rightarrow> 'w \<Rightarrow> nat ptr" where
  "aem_module_get_sym dl m symbol w =
     (case mod_handle m of None \<Rightarrow> None | Some h \<Rightarrow> dl_sym dl h symbol w)"

text \<open>The name in the definition replaces the one the module was looked up by.\<close>
definition fill_name :: "u8 allocator \<Rightarrow> 'w dynlink \<Rightarrow> aem_module \<Rightarrow> aem_module option" where
  "fill_name al dl m =
     (case mod_def m of
        None \<Rightarrow> Some m
      | Some d \<Rightarrow> (case def_name (dl_def dl d) of
          None \<Rightarrow> Some m
        | Some nm \<Rightarrow> do { b \<leftarrow> aem_stringbuf_puts al (aem_stringbuf_reset (mod_name m)) (Some nm);
                          Some (m\<lparr>mod_name := b\<rparr>) }))"

text \<open>The definition is sane and agrees to be loaded.\<close>
definition open_check :: "'w dynlink \<Rightarrow> nat \<Rightarrow> aem_module \<Rightarrow> 'w \<Rightarrow> (int \<times> aem_module \<times> 'w) option" where
  "open_check dl d m4 w1 =
     (if def_name (dl_def dl d) = None then do { m5 \<leftarrow> log_name m4; Some (-1, m5, w1) }
      else do {
        m5 \<leftarrow> (if def_version (dl_def dl d) = None then log_name m4 else Some m4);
        (rc, m6, w2) \<leftarrow> (case def_check_reg (dl_def dl d) of
            None \<Rightarrow> Some (1, m5, w1)
          | Some check \<Rightarrow> check m5 w1);
        if rc = 0 then Some (-1, m6, w2)
        else Some (0, m6\<lparr>mod_state := AEM_MODULE_LOADED\<rparr>, w2) })"

definition aem_module_open ::
  "u8 allocator \<Rightarrow> 'w dynlink \<Rightarrow> aem_module \<Rightarrow> 'w \<Rightarrow> (int \<times> aem_module \<times> 'w) option" where
  "aem_module_open al dl m w =
     (if sb_n (mod_path m) = 0 then Some (-1, m, w)
      else do {
        (p, path) \<leftarrow> aem_stringbuf_get (mod_path m);
        let m1 = m\<lparr>mod_path := path\<rparr>;
        let (h, w1) = dl_open dl (map_option c_string p) w;
        (case h of
           None \<Rightarrow> do { m2 \<leftarrow> log_path m1; Some (-1, m2, w1) }
         | Some handle \<Rightarrow> do {
             let m2 = m1\<lparr>mod_handle := Some handle\<rparr>;
             let m3 = m2\<lparr>mod_def := aem_module_get_sym dl m2 (cstr ''aem_module_def'') w1\<rparr>;
             m4 \<leftarrow> fill_name al dl m3;
             (case mod_def m4 of
                None \<Rightarrow> do { m5 \<leftarrow> log_path m4; Some (-1, m5, w1) }
              | Some d \<Rightarrow>
                  open_check dl d m4 w1) }) })"

definition aem_module_register ::
  "'w dynlink \<Rightarrow> stringslice \<Rightarrow> aem_module \<Rightarrow> 'w \<Rightarrow> (int \<times> aem_module \<times> 'w) option" where
  "aem_module_register dl args m w =
     do { d \<leftarrow> mod_def m;
          if mod_state m \<noteq> AEM_MODULE_LOADED then None
          else do {
            (rc, m1, w1) \<leftarrow> (case def_reg (dl_def dl d) of
                None \<Rightarrow> Some (0, m, w)
              | Some reg \<Rightarrow> reg args m w);
            if rc \<noteq> 0 then do { m2 \<leftarrow> log_name m1; Some (rc, m2, w1) }
            else Some (0, m1\<lparr>mod_state := AEM_MODULE_REGISTERED\<rparr>, w1) } }"

definition aem_module_unload_check ::
  "'w dynlink \<Rightarrow> aem_module ptr \<Rightarrow> 'w \<Rightarrow> (int \<times> aem_module ptr \<times> 'w) option" where
  "aem_module_unload_check dl p w =
     (case p of
        None \<Rightarrow> Some (-1, None, w)
      | Some m \<Rightarrow> (case mod_def m of
          None \<Rightarrow> Some (-1, p, w)
        | Some d \<Rightarrow> (case def_check_dereg (dl_def dl d) of
            None \<Rightarrow> Some (1, p, w)
          | Some check \<Rightarrow> do { (rc, m1, w1) \<leftarrow> check m w; Some (rc, Some m1, w1) })))"

text \<open>The first half of \<open>aem_module_unload\<close>: a registered module is deregistered.\<close>
definition unload_dereg :: "'w dynlink \<Rightarrow> aem_module \<Rightarrow> 'w \<Rightarrow> (aem_module \<times> 'w) option" where
  "unload_dereg dl m w =
     (if mod_state m = AEM_MODULE_REGISTERED then do {
        d \<leftarrow> mod_def m;
        m1 \<leftarrow> log_name m;
        (m2, w1) \<leftarrow> (case def_dereg (dl_def dl d) of
            None \<Rightarrow> Some (m1, w)
          | Some dereg \<Rightarrow> dereg m1 w);
        m3 \<leftarrow> log_name m2;
        Some (m3\<lparr>mod_state := AEM_MODULE_UNREGISTERED\<rparr>, w1) }
      else Some (m, w))"

definition aem_module_unload ::
  "'w dynlink \<Rightarrow> aem_module ptr \<Rightarrow> 'w \<Rightarrow> (int \<times> aem_module ptr \<times> 'w) option" where
  "aem_module_unload dl p w =
     (case p of
        None \<Rightarrow> Some (-1, None, w)
      | Some m \<Rightarrow> do {
          (m1, w1) \<leftarrow> unload_dereg dl m w;
          let m2 = m1\<lparr>mod_def := None\<rparr>;
          (case mod_handle m2 of
             None \<Rightarrow> Some (0, Some (m2\<lparr>mod_handle := None\<rparr>), w1)
           | Some h \<Rightarrow> do {
               m3 \<leftarrow> log_name m2;
               let (rc, w2) = dl_close dl h w1;
               if rc \<noteq> 0 then do { m4 \<leftarrow> log_name m3; Some (-1, Some m4, w2) }
               else Some (0, Some (m3\<lparr>mod_handle := None\<rparr>), w2) }) })"

definition aem_module_dtor :: "'w dynlink \<Rightarrow> aem_module \<Rightarrow> 'w \<Rightarrow> (aem_module \<times> 'w) option" where
  "aem_module_dtor dl m w =
     do { (rc, p, w1) \<leftarrow> aem_module_unload dl (Some m) w;
          m1 \<leftarrow> p;
          Some (m1\<lparr>mod_name := aem_stringbuf_dtor (mod_name m1), mod_path := aem_stringbuf_dtor (mod_path m1)\<rparr>, w1) }"

definition aem_module_identify ::
  "u8 allocator \<Rightarrow> 'w dynlink \<Rightarrow> aem_module ptr \<Rightarrow> stringbuf \<Rightarrow> stringbuf option" where
  "aem_module_identify al dl p out =
     (case p of
        None \<Rightarrow> aem_stringbuf_puts al out (Some (cstr ''(null module)''))
      | Some m \<Rightarrow> do {
          o1 \<leftarrow> aem_stringbuf_putc al out 34;
          o2 \<leftarrow> aem_stringbuf_append al o1 (mod_name m);
          o3 \<leftarrow> aem_stringbuf_putc al o2 34;
          (case mod_def m of
             None \<Rightarrow> aem_stringbuf_puts al o3 (Some (cstr '' (null def)''))
           | Some d \<Rightarrow> do {
               o4 \<leftarrow> aem_stringbuf_puts al o3 (Some (cstr '' (''));
               o5 \<leftarrow> aem_stringbuf_puts al o4 (def_name (dl_def dl d));
               o6 \<leftarrow> (case def_version (dl_def dl d) of
                   None \<Rightarrow> Some o5
                 | Some v \<Rightarrow> do { o7 \<leftarrow> aem_stringbuf_puts al o5 (Some (cstr ''-''));
                                 aem_stringbuf_puts al o7 (Some v) });
               aem_stringbuf_puts al o6 (Some (cstr '')'')) }) })"

section \<open>Modules stay well-typed\<close>

text \<open>The fields agree: a definition lies in an open object, and only a module with a definition is
  registered.\<close>
definition mod_typed :: "aem_module \<Rightarrow> bool" where
  "mod_typed m \<longleftrightarrow> sb_inv (mod_name m) \<and> sb_inv (mod_path m) \<and>
     (mod_def m \<noteq> None \<longrightarrow> mod_handle m \<noteq> None) \<and>
     (mod_state m = AEM_MODULE_REGISTERED \<longrightarrow> mod_def m \<noteq> None)"

text \<open>What the loader relies on: the functions of a definition return, and leave the fields that
  belong to the loader as they are.\<close>
definition mod_keeps :: "aem_module \<Rightarrow> aem_module \<Rightarrow> bool" where
  "mod_keeps m m' \<longleftrightarrow> mod_handle m' = mod_handle m \<and> mod_def m' = mod_def m \<and> mod_state m' = mod_state m \<and>
     sb_inv (mod_name m') \<and> sb_inv (mod_path m')"

definition check_behaves :: "(aem_module \<Rightarrow> 'w \<Rightarrow> (int \<times> aem_module \<times> 'w) option) ptr \<Rightarrow> bool" where
  "check_behaves p \<longleftrightarrow> (\<forall>f m w. p = Some f \<and> mod_typed m \<longrightarrow> (\<exists>rc m' w'. f m w = Some (rc, m', w') \<and> mod_keeps m m'))"

definition reg_behaves :: "(stringslice \<Rightarrow> aem_module \<Rightarrow> 'w \<Rightarrow> (int \<times> aem_module \<times> 'w) option) ptr \<Rightarrow> bool" where
  "reg_behaves p \<longleftrightarrow> (\<forall>f args m w. p = Some f \<and> mod_typed m \<longrightarrow>
     (\<exists>rc m' w'. f args m w = Some (rc, m', w') \<and> mod_keeps m m'))"

definition dereg_behaves :: "(aem_module \<Rightarrow> 'w \<Rightarrow> (aem_module \<times> 'w) option) ptr \<Rightarrow> bool" where
  "dereg_behaves p \<longleftrightarrow> (\<forall>f m w. p = Some f \<and> mod_typed m \<longrightarrow> (\<exists>m' w'. f m w = Some (m', w') \<and> mod_keeps m m'))"

definition well_behaved :: "'w dynlink \<Rightarrow> bool" where
  "well_behaved dl \<longleftrightarrow> (\<forall>d. reg_behaves (def_reg (dl_def dl d)) \<and> dereg_behaves (def_dereg (dl_def dl d)) \<and>
     check_behaves (def_check_reg (dl_def dl d)) \<and> check_behaves (def_check_dereg (dl_def dl d)) \<and>
     (\<forall>nm. def_name (dl_def dl d) = Some nm \<longrightarrow> length nm \<le> 2 ^ 61))"

lemma mod_keeps_typed: "mod_typed m \<Longrightarrow> mod_keeps m m' \<Longrightarrow> mod_typed m'"
  by (auto simp: mod_typed_def mod_keeps_def)

lemma mod_keeps_trans: "mod_keeps m1 m2 \<Longrightarrow> mod_keeps m2 m3 \<Longrightarrow> mod_keeps m1 m3"
  by (auto simp: mod_keeps_def)

lemma mod_keeps_refl: "mod_typed m \<Longrightarrow> mod_keeps m m"
  by (simp add: mod_typed_def mod_keeps_def)

lemma get_total:
  assumes "sb_inv b"
  shows "\<exists>p b'. aem_stringbuf_get b = Some (p, b') \<and> sb_inv b'"
proof (cases "sb_s b = [] \<or> sb_bad b")
  case True
  then show ?thesis using assms by (auto simp: aem_stringbuf_get_def)
next
  case False
  then show ?thesis using get_spec [of b] assms by blast
qed

lemma log_keeps:
  assumes "mod_typed m"
  shows "\<exists>m'. log_name m = Some m' \<and> mod_keeps m m'" "\<exists>m'. log_path m = Some m' \<and> mod_keeps m m'"
  using get_total [of "mod_name m"] get_total [of "mod_path m"] assms
  by (auto simp: log_name_def log_path_def mod_keeps_def mod_typed_def)

lemma puts_total:
  assumes "sb_inv b" "length s \<le> 2 ^ 61"
  shows "\<exists>b'. aem_stringbuf_puts al b (Some s) = Some b' \<and> sb_inv b'"
  using puts_emits [OF assms(2), of al] assms(1) by (auto elim: emitsD)

lemma fill_name_keeps:
  assumes "well_behaved dl" "mod_typed m"
  shows "\<exists>m'. fill_name al dl m = Some m' \<and> mod_keeps m m'"
proof (cases "\<exists>d nm. mod_def m = Some d \<and> def_name (dl_def dl d) = Some nm")
  case True
  then obtain d nm where d: "mod_def m = Some d" "def_name (dl_def dl d) = Some nm" by blast
  have "sb_inv (aem_stringbuf_reset (mod_name m))" "length nm \<le> 2 ^ 61"
    using assms d by (auto simp: mod_typed_def well_behaved_def)
  from puts_total [OF this, of al] show ?thesis using d assms
    by (auto simp: fill_name_def mod_keeps_def mod_typed_def)
next
  case False
  then have "fill_name al dl m = Some m" by (auto simp: fill_name_def split: option.splits)
  then show ?thesis using mod_keeps_refl [OF assms(2)] by simp
qed

lemma check_keeps:
  assumes "check_behaves p" "mod_typed m"
  shows "\<exists>rc m' w'. (case p of None \<Rightarrow> Some (1, m, w) | Some f \<Rightarrow> f m w) = Some (rc, m', w') \<and> mod_keeps m m'"
  using assms mod_keeps_refl [of m] by (cases p) (auto simp: check_behaves_def)

lemma reg_keeps:
  assumes "reg_behaves p" "mod_typed m"
  shows "\<exists>rc m' w'. (case p of None \<Rightarrow> Some (0, m, w) | Some f \<Rightarrow> f args m w) = Some (rc, m', w') \<and> mod_keeps m m'"
  using assms mod_keeps_refl [of m] by (cases p) (auto simp: reg_behaves_def)

lemma dereg_keeps:
  assumes "dereg_behaves p" "mod_typed m"
  shows "\<exists>m' w'. (case p of None \<Rightarrow> Some (m, w) | Some f \<Rightarrow> f m w) = Some (m', w') \<and> mod_keeps m m'"
  using assms mod_keeps_refl [of m] by (cases p) (auto simp: dereg_behaves_def)

lemma well_behavedD:
  assumes "well_behaved dl"
  shows "reg_behaves (def_reg (dl_def dl d))" "dereg_behaves (def_dereg (dl_def dl d))"
    "check_behaves (def_check_reg (dl_def dl d))" "check_behaves (def_check_dereg (dl_def dl d))"
  using assms by (simp_all add: well_behaved_def)

text \<open>What an operation did to the fields that belong to the loader.\<close>

text \<open>What opening a module asks the linker for.\<close>
definition open_world :: "'w dynlink \<Rightarrow> aem_module \<Rightarrow> 'w \<Rightarrow> nat ptr \<times> 'w" where
  "open_world dl m w =
     (if sb_n (mod_path m) = 0 then (None, w)
      else case aem_stringbuf_get (mod_path m) of
        None \<Rightarrow> (None, w)
      | Some (p, b) \<Rightarrow> dl_open dl (map_option c_string p) w)"

definition open_result :: "'w dynlink \<Rightarrow> aem_module \<Rightarrow> 'w \<Rightarrow> int \<Rightarrow> aem_module \<Rightarrow> bool" where
  "open_result dl m w rc m' \<longleftrightarrow> mod_typed m' \<and> (rc = 0 \<or> rc = -1) \<and> (rc = 0 \<longrightarrow> mod_def m' \<noteq> None) \<and>
     mod_state m' = (if rc = 0 then AEM_MODULE_LOADED else mod_state m) \<and>
     mod_handle m' = (case fst (open_world dl m w) of None \<Rightarrow> mod_handle m | Some h \<Rightarrow> Some h)"

lemma open_effect:
  assumes "well_behaved dl" "mod_typed m" "mod_state m \<noteq> AEM_MODULE_REGISTERED"
  shows "\<exists>rc m' w'. aem_module_open al dl m w = Some (rc, m', w') \<and> open_result dl m w rc m'"
proof (cases "sb_n (mod_path m) = 0")
  case True
  then show ?thesis using assms by (simp add: aem_module_open_def open_result_def open_world_def)
next
  case False
  obtain p path where path: "aem_stringbuf_get (mod_path m) = Some (p, path)" "sb_inv path"
    using get_total [of "mod_path m"] assms(2) by (auto simp: mod_typed_def)
  obtain h w1 where h: "dl_open dl (map_option c_string p) w = (h, w1)" by fastforce
  define m1 where "m1 = m\<lparr>mod_path := path\<rparr>"
  have m1: "mod_typed m1" "mod_state m1 = mod_state m" "mod_handle m1 = mod_handle m"
    using assms(2) path(2) by (simp_all add: m1_def mod_typed_def)
  have ow: "fst (open_world dl m w) = h" using False path(1) h by (simp add: open_world_def)
  show ?thesis
  proof (cases h)
    case None
    obtain m2 where "log_path m1 = Some m2" "mod_keeps m1 m2" using log_keeps(2) [OF m1(1)] by blast
    then show ?thesis using False path(1) h None m1 mod_keeps_typed [of m1 m2] ow
      by (simp add: aem_module_open_def open_result_def mod_keeps_def flip: m1_def)
  next
    case (Some handle)
    define m3 where "m3 = m1\<lparr>mod_handle := Some handle,
       mod_def := aem_module_get_sym dl (m1\<lparr>mod_handle := Some handle\<rparr>) (cstr ''aem_module_def'') w1\<rparr>"
    have m3: "mod_typed m3" "mod_state m3 = mod_state m" "mod_handle m3 = Some handle"
      using m1 assms(3) by (simp_all add: m3_def mod_typed_def)
    obtain m4 where m4: "fill_name al dl m3 = Some m4" "mod_keeps m3 m4"
      using fill_name_keeps [OF assms(1) m3(1)] by blast
    have t4: "mod_typed m4" by (rule mod_keeps_typed [OF m3(1) m4(2)])
    have eq: "aem_module_open al dl m w =
       (case mod_def m4 of
                None \<Rightarrow> do { m5 \<leftarrow> log_path m4; Some (-1, m5, w1) }
              | Some d \<Rightarrow> open_check dl d m4 w1)"
      using False path(1) h Some m4(1) by (simp add: aem_module_open_def m3_def m1_def)
    show ?thesis
    proof (cases "mod_def m4")
      case None
      obtain m5 where "log_path m4 = Some m5" "mod_keeps m4 m5" using log_keeps(2) [OF t4] by blast
      then show ?thesis using eq None m3 m4(2) mod_keeps_typed [OF t4, of m5] ow \<open>h = Some handle\<close>
        by (auto simp: open_result_def mod_keeps_def)
    next
      case (Some d)
      obtain m5 where m5: "log_name m4 = Some m5" "mod_keeps m4 m5" using log_keeps(1) [OF t4] by blast
      obtain m5' where m5': "(if def_version (dl_def dl d) = None then log_name m4 else Some m4) = Some m5'"
          "mod_keeps m4 m5'" using m5 mod_keeps_refl [OF t4] by (cases "def_version (dl_def dl d)") auto
      obtain rc m6 w2 where m6: "(case def_check_reg (dl_def dl d) of None \<Rightarrow> Some (1, m5', w1)
                      | Some check \<Rightarrow> check m5' w1) = Some (rc, m6, w2)" "mod_keeps m5' m6"
        using check_keeps [OF well_behavedD(3) [OF assms(1)] mod_keeps_typed [OF t4 m5'(2)]] by blast
      have t: "mod_typed m5" "mod_typed m6"
        using mod_keeps_typed t4 m5(2) m5'(2) m6(2) by blast+
      show ?thesis
      proof (cases "def_name (dl_def dl d) = None")
        case True
        then show ?thesis using eq Some m5 m4(2) m3 t(1) ow \<open>h = Some handle\<close> by (simp add: open_check_def open_result_def mod_keeps_def)
      next
        case named: False
        have "aem_module_open al dl m w =
           (if rc = 0 then Some (-1, m6, w2) else Some (0, m6\<lparr>mod_state := AEM_MODULE_LOADED\<rparr>, w2))"
          unfolding eq Some using m5'(1) m6(1) by (simp add: open_check_def named del: not_None_eq)
        moreover have "mod_def m6 = Some d" using m5'(2) m6(2) Some by (simp add: mod_keeps_def)
        moreover have "mod_state m6 = mod_state m" "mod_handle m6 = Some handle"
          using m5'(2) m6(2) m4(2) m3(2,3) by (simp_all add: mod_keeps_def)
        ultimately show ?thesis using t(2) ow \<open>h = Some handle\<close>
          by (cases "rc = 0") (auto simp: open_result_def mod_typed_def)
      qed
    qed
  qed
qed

lemma register_effect:
  assumes "well_behaved dl" "mod_typed m" "mod_state m = AEM_MODULE_LOADED" "mod_def m \<noteq> None"
  shows "\<exists>rc m' w'. aem_module_register dl args m w = Some (rc, m', w') \<and> mod_typed m' \<and>
    mod_handle m' = mod_handle m \<and> mod_def m' = mod_def m \<and>
    mod_state m' = (if rc = 0 then AEM_MODULE_REGISTERED else AEM_MODULE_LOADED)"
proof -
  obtain d where d: "mod_def m = Some d" using assms(4) by blast
  obtain rc m1 w1 where r: "(case def_reg (dl_def dl d) of None \<Rightarrow> Some (0, m, w) | Some reg \<Rightarrow> reg args m w) =
      Some (rc, m1, w1)" "mod_keeps m m1"
    using reg_keeps [OF well_behavedD(1) [OF assms(1)] assms(2)] by blast
  have t: "mod_typed m1" by (rule mod_keeps_typed [OF assms(2) r(2)])
  obtain m2 where m2: "log_name m1 = Some m2" "mod_keeps m1 m2" using log_keeps(1) [OF t] by blast
  have "aem_module_register dl args m w =
      (if rc \<noteq> 0 then Some (rc, m2, w1) else Some (0, m1\<lparr>mod_state := AEM_MODULE_REGISTERED\<rparr>, w1))"
    using d assms(3) r(1) m2(1) by (simp add: aem_module_register_def)
  then show ?thesis using r(2) m2(2) t mod_keeps_typed [OF t m2(2)] assms(3,4)
    by (cases "rc = 0") (auto simp: mod_keeps_def mod_typed_def)
qed

lemma dereg_effect:
  assumes "well_behaved dl" "mod_typed m"
  shows "\<exists>m' w'. unload_dereg dl m w = Some (m', w') \<and> mod_typed m' \<and>
    mod_handle m' = mod_handle m \<and> mod_def m' = mod_def m \<and>
    mod_state m' = (if mod_state m = AEM_MODULE_REGISTERED then AEM_MODULE_UNREGISTERED else mod_state m)"
proof (cases "mod_state m = AEM_MODULE_REGISTERED")
  case True
  then obtain d where d: "mod_def m = Some d" using assms(2) by (auto simp: mod_typed_def)
  obtain m1 where m1: "log_name m = Some m1" "mod_keeps m m1" using log_keeps(1) [OF assms(2)] by blast
  have t1: "mod_typed m1" by (rule mod_keeps_typed [OF assms(2) m1(2)])
  obtain m2 w2 where m2: "(case def_dereg (dl_def dl d) of None \<Rightarrow> Some (m1, w) | Some dereg \<Rightarrow> dereg m1 w) =
      Some (m2, w2)" "mod_keeps m1 m2"
    using dereg_keeps [OF well_behavedD(2) [OF assms(1)] t1] by blast
  have t2: "mod_typed m2" by (rule mod_keeps_typed [OF t1 m2(2)])
  obtain m3 where m3: "log_name m2 = Some m3" "mod_keeps m2 m3" using log_keeps(1) [OF t2] by blast
  have "unload_dereg dl m w = Some (m3\<lparr>mod_state := AEM_MODULE_UNREGISTERED\<rparr>, w2)"
    using True d m1(1) m2(1) m3(1) by (simp add: unload_dereg_def)
  then show ?thesis using m1(2) m2(2) m3(2) True assms(2) by (auto simp: mod_keeps_def mod_typed_def)
next
  case False
  then show ?thesis using assms(2) by (simp add: unload_dereg_def)
qed

lemma unload_effect:
  assumes "well_behaved dl" "mod_typed m"
  shows "\<exists>rc m' w'. aem_module_unload dl (Some m) w = Some (rc, Some m', w') \<and> mod_typed m' \<and>
    mod_def m' = None \<and> mod_handle m' = (if rc = 0 then None else mod_handle m) \<and> (rc = 0 \<or> rc = -1) \<and>
    mod_state m' = (if mod_state m = AEM_MODULE_REGISTERED then AEM_MODULE_UNREGISTERED else mod_state m)"
proof -
  obtain m1 w1 where m1: "unload_dereg dl m w = Some (m1, w1)" "mod_typed m1" "mod_handle m1 = mod_handle m"
    "mod_state m1 = (if mod_state m = AEM_MODULE_REGISTERED then AEM_MODULE_UNREGISTERED else mod_state m)"
    using dereg_effect [OF assms] by blast
  define m2 where "m2 = m1\<lparr>mod_def := None\<rparr>"
  have t2: "mod_typed m2" using m1(2,4) by (auto simp: m2_def mod_typed_def split: if_splits)
  obtain m3 where m3: "log_name m2 = Some m3" "mod_keeps m2 m3" using log_keeps(1) [OF t2] by blast
  have t3: "mod_typed m3" by (rule mod_keeps_typed [OF t2 m3(2)])
  obtain m4 where m4: "log_name m3 = Some m4" "mod_keeps m3 m4" using log_keeps(1) [OF t3] by blast
  show ?thesis
  proof (cases "mod_handle m")
    case None
    then show ?thesis using m1 t2 by (auto simp: aem_module_unload_def mod_typed_def m2_def)
  next
    case (Some h)
    obtain rc w2 where c: "dl_close dl h w1 = (rc, w2)" by fastforce
    have "aem_module_unload dl (Some m) w =
        (if rc \<noteq> 0 then Some (-1, Some m4, w2) else Some (0, Some (m3\<lparr>mod_handle := None\<rparr>), w2))"
      using m1(1,3) Some c m3(1) m4(1) by (simp add: aem_module_unload_def m2_def)
    then show ?thesis using m1 m3(2) m4(2) t3 mod_keeps_typed [OF t3 m4(2)] Some
      by (cases "rc = 0") (auto simp: mod_keeps_def m2_def mod_typed_def)
  qed
qed

lemma unload_check_effect:
  assumes "well_behaved dl" "mod_typed m"
  shows "\<exists>rc m' w'. aem_module_unload_check dl (Some m) w = Some (rc, Some m', w') \<and> mod_keeps m m' \<and>
    (mod_def m = None \<longrightarrow> rc = -1)"
proof (cases "mod_def m")
  case None
  then show ?thesis using mod_keeps_refl [OF assms(2)] by (simp add: aem_module_unload_check_def)
next
  case (Some d)
  show ?thesis
  proof (cases "def_check_dereg (dl_def dl d)")
    case None
    then show ?thesis using Some mod_keeps_refl [OF assms(2)] by (simp add: aem_module_unload_check_def)
  next
    case (Some f)
    then obtain rc m' w' where "f m w = Some (rc, m', w')" "mod_keeps m m'"
      using well_behavedD(4) [OF assms(1), of d] assms(2) unfolding check_behaves_def by meson
    then show ?thesis using \<open>mod_def m = Some d\<close> Some by (simp add: aem_module_unload_check_def)
  qed
qed

section \<open>The life cycle\<close>

text \<open>What the linker and the functions of a definition are asked to do, in order. A definition that
  has no function to register or deregister counts as having one that does nothing.\<close>
datatype module_event = Opened nat | Registered | Deregistered | Closed nat

definition recording_def :: "'w aem_module_def \<Rightarrow> ('w \<times> module_event list) aem_module_def" where
  "recording_def df =
     \<lparr>def_name = def_name df, def_version = def_version df, def_deps = def_deps df,
      def_reg = Some (\<lambda>args m (w, es).
        do { (rc, m', w') \<leftarrow> (case def_reg df of None \<Rightarrow> Some (0, m, w) | Some f \<Rightarrow> f args m w);
             Some (rc, m', w', if rc = 0 then es @ [Registered] else es) }),
      def_dereg = Some (\<lambda>m (w, es).
        do { (m', w') \<leftarrow> (case def_dereg df of None \<Rightarrow> Some (m, w) | Some f \<Rightarrow> f m w);
             Some (m', w', es @ [Deregistered]) }),
      def_check_reg = Some (\<lambda>m (w, es).
        do { (rc, m', w') \<leftarrow> (case def_check_reg df of None \<Rightarrow> Some (1, m, w) | Some f \<Rightarrow> f m w);
             Some (rc, m', w', es) }),
      def_check_dereg = Some (\<lambda>m (w, es).
        do { (rc, m', w') \<leftarrow> (case def_check_dereg df of None \<Rightarrow> Some (1, m, w) | Some f \<Rightarrow> f m w);
             Some (rc, m', w', es) }),
      def_logmodule = def_logmodule df\<rparr>"

definition recording :: "'w dynlink \<Rightarrow> ('w \<times> module_event list) dynlink" where
  "recording dl =
     \<lparr>dl_open = (\<lambda>p (w, es). case dl_open dl p w of (h, w') \<Rightarrow>
        (h, w', case h of None \<Rightarrow> es | Some k \<Rightarrow> es @ [Opened k])),
      dl_sym = (\<lambda>h s (w, es). dl_sym dl h s w),
      dl_close = (\<lambda>h (w, es). case dl_close dl h w of (rc, w') \<Rightarrow> (rc, w', if rc = 0 then es @ [Closed h] else es)),
      dl_def = (\<lambda>d. recording_def (dl_def dl d))\<rparr>"

lemma recording_simps [simp]:
  "def_name (dl_def (recording dl) d) = def_name (dl_def dl d)"
  "def_version (dl_def (recording dl) d) = def_version (dl_def dl d)"
  "aem_module_get_sym (recording dl) m s (w, es) = aem_module_get_sym dl m s w"
  "fill_name al (recording dl) m = fill_name al dl m"
  by (simp_all add: recording_def recording_def_def aem_module_get_sym_def fill_name_def split: option.splits)

text \<open>Recording changes nothing: erasing the record gives the run without it.\<close>

lemma recording_check:
  "map_option (map_prod id (map_prod id fst)) (open_check (recording dl) d m (w, es)) = open_check dl d m w"
  by (cases "def_check_reg (dl_def dl d)"; cases "log_name m")
    (auto simp: open_check_def recording_def recording_def_def split: option.splits bind_splits if_splits)

lemma recording_open:
  "map_option (map_prod id (map_prod id fst)) (aem_module_open al (recording dl) m (w, es)) = aem_module_open al dl m w"
proof (cases "aem_stringbuf_get (mod_path m)")
  case None
  then show ?thesis by (simp add: aem_module_open_def)
next
  case (Some pb)
  obtain h w1 where h: "dl_open dl (map_option c_string (fst pb)) w = (h, w1)" by fastforce
  define es1 where "es1 = (case h of None \<Rightarrow> es | Some k \<Rightarrow> es @ [Opened k])"
  have h': "dl_open (recording dl) (map_option c_string (fst pb)) (w, es) = (h, w1, es1)"
    by (simp add: recording_def h es1_def)
  show ?thesis
    by (cases h) (auto simp: aem_module_open_def Some h h' split_def recording_check Let_def map_option_bind o_def
        intro!: Option.bind_cong split: option.splits)
qed

lemma recording_behaves:
  assumes "well_behaved dl"
  shows "well_behaved (recording dl)"
proof -
  have "reg_behaves (def_reg (dl_def (recording dl) d))" for d
    unfolding reg_behaves_def
  proof (intro allI impI)
    fix f args m and ws :: "'a \<times> module_event list"
    assume *: "def_reg (dl_def (recording dl) d) = Some f \<and> mod_typed m"
    obtain w es where ws: "ws = (w, es)" by fastforce
    obtain rc m' w' where "(case def_reg (dl_def dl d) of None \<Rightarrow> Some (0, m, w) | Some f \<Rightarrow> f args m w) = Some (rc, m', w')"
        "mod_keeps m m'" using reg_keeps [OF well_behavedD(1) [OF assms]] * by blast
    then show "\<exists>rc m' w'. f args m ws = Some (rc, m', w') \<and> mod_keeps m m'"
      using * by (auto simp: recording_def recording_def_def ws)
  qed
  moreover have "dereg_behaves (def_dereg (dl_def (recording dl) d))" for d
    unfolding dereg_behaves_def
  proof (intro allI impI)
    fix f m and ws :: "'a \<times> module_event list"
    assume *: "def_dereg (dl_def (recording dl) d) = Some f \<and> mod_typed m"
    obtain w es where ws: "ws = (w, es)" by fastforce
    obtain m' w' where "(case def_dereg (dl_def dl d) of None \<Rightarrow> Some (m, w) | Some f \<Rightarrow> f m w) = Some (m', w')"
        "mod_keeps m m'" using dereg_keeps [OF well_behavedD(2) [OF assms]] * by blast
    then show "\<exists>m' w'. f m ws = Some (m', w') \<and> mod_keeps m m'"
      using * by (auto simp: recording_def recording_def_def ws)
  qed
  moreover have check: "check_behaves (Some (\<lambda>m (w, es :: module_event list).
        do { (rc, m', w') \<leftarrow> (case p of None \<Rightarrow> Some (1, m, w) | Some f \<Rightarrow> f m w); Some (rc, m', w', es) }))"
    if p: "check_behaves p" for p :: "(aem_module \<Rightarrow> 'a \<Rightarrow> (int \<times> aem_module \<times> 'a) option) ptr"
    unfolding check_behaves_def
  proof (intro allI impI)
    fix f m and ws :: "'a \<times> module_event list"
    assume *: "Some (\<lambda>m (w, es :: module_event list). do { (rc, m', w') \<leftarrow> (case p of None \<Rightarrow> Some (1, m, w) | Some f \<Rightarrow> f m w);
        Some (rc, m', w', es) }) = Some f \<and> mod_typed m"
    obtain w es where ws: "ws = (w, es)" by fastforce
    obtain rc m' w' where "(case p of None \<Rightarrow> Some (1, m, w) | Some f \<Rightarrow> f m w) = Some (rc, m', w')"
        "mod_keeps m m'" using check_keeps [OF p] * by blast
    then show "\<exists>rc m' w'. f m ws = Some (rc, m', w') \<and> mod_keeps m m'" using * by (auto simp: ws)
  qed
  ultimately show ?thesis using assms unfolding well_behaved_def recording_simps
    by (simp add: recording_def recording_def_def check)
qed

text \<open>The phases of one module; \<open>Leaving\<close> is a module deregistered whose object is still open.\<close>
datatype module_phase = Absent | Present nat | Active nat | Leaving nat

fun life_step :: "module_phase \<Rightarrow> module_event \<Rightarrow> module_phase option" where
  "life_step Absent (Opened h) = Some (Present h)"
| "life_step (Present h) Registered = Some (Active h)"
| "life_step (Present h) (Closed k) = (if k = h then Some Absent else None)"
| "life_step (Active h) Deregistered = Some (Leaving h)"
| "life_step (Leaving h) (Closed k) = (if k = h then Some Absent else None)"
| "life_step _ _ = None"

fun life :: "module_phase \<Rightarrow> module_event list \<Rightarrow> module_phase option" where
  "life ph [] = Some ph"
| "life ph (e # es) = do { ph' \<leftarrow> life_step ph e; life ph' es }"

lemma life_append [simp]: "life ph (es @ es') = do { ph' \<leftarrow> life ph es; life ph' es' }"
  by (induction es arbitrary: ph) (simp_all add: bind_assoc)

text \<open>The phase the fields of a module stand for.\<close>
definition in_phase :: "aem_module \<Rightarrow> module_phase \<Rightarrow> bool" where
  "in_phase m ph \<longleftrightarrow> (case ph of
      Absent \<Rightarrow> mod_handle m = None
    | Present h \<Rightarrow> mod_handle m = Some h \<and> mod_state m \<noteq> AEM_MODULE_REGISTERED
    | Active h \<Rightarrow> mod_handle m = Some h \<and> mod_state m = AEM_MODULE_REGISTERED
    | Leaving h \<Rightarrow> mod_handle m = Some h \<and> mod_state m = AEM_MODULE_UNREGISTERED \<and> mod_def m = None)"

lemma open_events:
  assumes "aem_module_open al (recording dl) m (w, es) = Some (rc, m', w', es')"
  shows "es' = es @ (case fst (open_world (recording dl) m (w, es)) of None \<Rightarrow> [] | Some h \<Rightarrow> [Opened h])"
proof (cases "sb_n (mod_path m) = 0")
  case True
  then show ?thesis using assms by (simp add: aem_module_open_def open_world_def)
next
  case False
  then obtain p path where path: "aem_stringbuf_get (mod_path m) = Some (p, path)"
    using assms by (auto simp: aem_module_open_def bind_eq_Some_conv)
  obtain h w1 where h: "dl_open dl (map_option c_string p) w = (h, w1)" by fastforce
  have h': "dl_open (recording dl) (map_option c_string p) (w, es) =
      (h, w1, case h of None \<Rightarrow> es | Some k \<Rightarrow> es @ [Opened k])"
    by (simp add: recording_def h)
  have check: "es2 = es1" if "open_check (recording dl) d m1 (w1, es1) = Some (rc, m2, w2, es2)" for d m1 m2 w1 w2 es1 es2
    using that by (auto simp: open_check_def recording_def recording_def_def bind_eq_Some_conv split: if_splits)
  show ?thesis using assms False path h'
    by (cases h) (auto simp: aem_module_open_def open_world_def bind_eq_Some_conv Let_def split: option.splits dest: check)
qed

lemma register_events:
  "aem_module_register (recording dl) args m (w, es) = Some (rc, m', w', es') \<Longrightarrow>
   es' = (if rc = 0 then es @ [Registered] else es)"
  by (auto simp: aem_module_register_def recording_def recording_def_def bind_eq_Some_conv split: if_splits)

lemma unload_check_events:
  "aem_module_unload_check (recording dl) p (w, es) = Some (rc, p', w', es') \<Longrightarrow> es' = es"
  by (auto simp: aem_module_unload_check_def recording_def recording_def_def bind_eq_Some_conv split: option.splits)

lemma dereg_events:
  "unload_dereg (recording dl) m (w, es) = Some (m', w', es') \<Longrightarrow>
   es' = (if mod_state m = AEM_MODULE_REGISTERED then es @ [Deregistered] else es)"
  by (auto simp: unload_dereg_def recording_def recording_def_def bind_eq_Some_conv split: if_splits)

lemma recording_close [simp]:
  "dl_close (recording dl) h ws =
     (fst (dl_close dl h (fst ws)), snd (dl_close dl h (fst ws)),
      if fst (dl_close dl h (fst ws)) = 0 then snd ws @ [Closed h] else snd ws)"
  by (cases ws) (simp add: recording_def split_def)

lemma unload_events:
  assumes "well_behaved dl" "mod_typed m"
    and "aem_module_unload (recording dl) (Some m) (w, es) = Some (rc, p, w', es')"
  shows "es' = es @ (if mod_state m = AEM_MODULE_REGISTERED then [Deregistered] else []) @
     (case mod_handle m of None \<Rightarrow> [] | Some h \<Rightarrow> if rc = 0 then [Closed h] else [])"
    and "(\<And>h w. fst (dl_close dl h w) = 0) \<Longrightarrow> rc = 0"
proof -
  obtain m1 w1 es1 where m1: "unload_dereg (recording dl) m (w, es) = Some (m1, w1, es1)" "mod_handle m1 = mod_handle m"
    using dereg_effect [OF recording_behaves [OF assms(1)] assms(2), of "(w, es)"] by auto
  note e1 = dereg_events [OF m1(1)]
  show "es' = es @ (if mod_state m = AEM_MODULE_REGISTERED then [Deregistered] else []) @
     (case mod_handle m of None \<Rightarrow> [] | Some h \<Rightarrow> if rc = 0 then [Closed h] else [])"
    using assms(3) m1(1,2) e1
    by (auto simp: aem_module_unload_def bind_eq_Some_conv Let_def split: option.splits if_splits)
  show "rc = 0" if ok: "\<And>h w. fst (dl_close dl h w) = 0"
    using assms(3) m1(1) ok
    by (auto simp: aem_module_unload_def bind_eq_Some_conv Let_def split: option.splits if_splits)
qed

text \<open>What a client does with one module: it sets the name or the path, opens the module while it is
  not open, registers it after it was loaded, asks, and unloads it. The rest of the program may do
  anything to the world in between.\<close>
inductive module_run :: "u8 allocator \<Rightarrow> 'w dynlink \<Rightarrow> aem_module \<Rightarrow> 'w \<Rightarrow> module_event list \<Rightarrow> bool"
  for al :: "u8 allocator" and dl :: "'w dynlink" where
  Run_init: "module_run al dl (aem_module_init lm) w []"
| Run_set: "module_run al dl m w es \<Longrightarrow> sb_inv b \<Longrightarrow> sb_inv b' \<Longrightarrow>
    module_run al dl (m\<lparr>mod_name := b, mod_path := b'\<rparr>) w' es"
| Run_open: "module_run al dl m w es \<Longrightarrow> mod_handle m = None \<Longrightarrow>
    aem_module_open al (recording dl) m (w, es) = Some (rc, m', w', es') \<Longrightarrow> module_run al dl m' w' es'"
| Run_register: "module_run al dl m w es \<Longrightarrow> mod_state m = AEM_MODULE_LOADED \<Longrightarrow> mod_def m \<noteq> None \<Longrightarrow>
    aem_module_register (recording dl) args m (w, es) = Some (rc, m', w', es') \<Longrightarrow> module_run al dl m' w' es'"
| Run_check: "module_run al dl m w es \<Longrightarrow>
    aem_module_unload_check (recording dl) (Some m) (w, es) = Some (rc, Some m', w', es') \<Longrightarrow> module_run al dl m' w' es'"
| Run_unload: "module_run al dl m w es \<Longrightarrow>
    aem_module_unload (recording dl) (Some m) (w, es) = Some (rc, Some m', w', es') \<Longrightarrow> module_run al dl m' w' es'"

lemma run_phase:
  assumes "well_behaved dl" "module_run al dl m w es"
  shows "mod_typed m \<and> (\<exists>ph. life Absent es = Some ph \<and> in_phase m ph)"
  using assms(2)
proof (induction rule: module_run.induct)
  case (Run_init lm w)
  then show ?case by (auto simp: aem_module_init_def aem_stringbuf_init_def mod_typed_def in_phase_def intro!: exI [of _ Absent])
next
  case (Run_set m w es b b' w')
  then show ?case by (auto simp: mod_typed_def in_phase_def split: module_phase.splits)
next
  case (Run_open m w es rc m' w' es')
  then obtain ph where ph: "life Absent es = Some ph" "in_phase m ph" and t: "mod_typed m" by blast
  have [simp]: "ph = Absent" using ph(2) Run_open.hyps(2) by (simp add: in_phase_def split: module_phase.splits)
  have nr: "mod_state m \<noteq> AEM_MODULE_REGISTERED" using t Run_open.hyps(2) by (auto simp: mod_typed_def)
  have r: "open_result (recording dl) m (w, es) rc m'"
    using open_effect [OF recording_behaves [OF assms(1)] t nr, of al "(w, es)"] Run_open.hyps(3) by auto
  then have "mod_state m' \<noteq> AEM_MODULE_REGISTERED" using nr by (auto simp: open_result_def split: if_splits)
  then show ?case using r ph open_events [OF Run_open.hyps(3)] Run_open.hyps(2)
    by (cases "fst (open_world (recording dl) m (w, es))") (auto simp: open_result_def in_phase_def)
next
  case (Run_register m w es args rc m' w' es')
  then obtain ph where ph: "life Absent es = Some ph" "in_phase m ph" and t: "mod_typed m" by blast
  have eff: "mod_typed m'" "mod_handle m' = mod_handle m" "mod_def m' = mod_def m"
      "mod_state m' = (if rc = 0 then AEM_MODULE_REGISTERED else AEM_MODULE_LOADED)"
    using register_effect [OF recording_behaves [OF assms(1)] t Run_register.hyps(2,3), of args "(w, es)"]
      Run_register.hyps(4) by auto
  have "mod_handle m \<noteq> None" using t Run_register.hyps(3) by (auto simp: mod_typed_def)
  then show ?case using ph eff register_events [OF Run_register.hyps(4)] Run_register.hyps(2,3)
    by (cases ph) (auto simp: in_phase_def)
next
  case (Run_check m w es rc m' w' es')
  then obtain ph where ph: "life Absent es = Some ph" "in_phase m ph" and t: "mod_typed m" by blast
  have k: "mod_keeps m m'" using unload_check_effect [OF recording_behaves [OF assms(1)] t, of "(w, es)"]
      Run_check.hyps(2) by auto
  then show ?case using ph mod_keeps_typed [OF t k] unload_check_events [OF Run_check.hyps(2)]
    by (auto simp: in_phase_def mod_keeps_def split: module_phase.splits)
next
  case (Run_unload m w es rc m' w' es')
  then obtain ph where ph: "life Absent es = Some ph" "in_phase m ph" and t: "mod_typed m" by blast
  have eff: "mod_typed m'" "mod_def m' = None" "mod_handle m' = (if rc = 0 then None else mod_handle m)"
      "mod_state m' = (if mod_state m = AEM_MODULE_REGISTERED then AEM_MODULE_UNREGISTERED else mod_state m)"
    using unload_effect [OF recording_behaves [OF assms(1)] t, of "(w, es)"] Run_unload.hyps(2) by auto
  have "mod_state m = AEM_MODULE_REGISTERED \<Longrightarrow> mod_handle m \<noteq> None" using t by (auto simp: mod_typed_def)
  then show ?case using ph eff unload_events(1) [OF assms(1) t Run_unload.hyps(2)]
    by (cases ph) (auto simp: in_phase_def split: if_splits)
qed

section \<open>Where a module is looked for\<close>

text \<open>With memory, a resolved path is the search directory followed by proper names only; the last one
  ends in \<open>.so\<close>.\<close>

lemma base_ends_slash:
  "sandbox_base b @ path_text st \<noteq> [] \<and> last (sandbox_base b @ path_text st) = 47"
  by (cases st rule: rev_cases) (auto simp: sandbox_base_def Let_def)

lemma suffix_after_slash:
  assumes "suffix e (x @ f)" "x \<noteq> []" "last x = 47" "47 \<notin> set e"
  shows "suffix e f"
proof -
  consider "suffix e f" | e' where "e = e' @ f" "suffix e' x" using assms(1) by (auto simp: suffix_append)
  then show ?thesis
  proof cases
    case (2 e')
    have "e' = []"
    proof (rule ccontr)
      assume "e' \<noteq> []"
      then have "last e' = 47" using 2(2) assms(3) by (auto simp: suffix_def)
      then show False using \<open>e' \<noteq> []\<close> 2(1) assms(4) last_in_set [of e'] by auto
    qed
    then show ?thesis using 2(1) by simp
  qed
qed

lemma resolve_path_contained:
  assumes "sb_ready al (mod_path m)" "sb_n module_path + sb_n (mod_name m) + 8 \<le> 2 ^ 24"
  shows "\<exists>rc out st f. aem_module_resolve_path undef al addr module_path m = Some (rc, m\<lparr>mod_path := out\<rparr>) \<and>
    sb_ready al out \<and> sb_out out = sandbox_base (sb_out module_path) @ path_text st @ f \<and>
    list_all safe_component st \<and> safe_component f \<and> suffix (cstr ''.so'') f"
proof -
  let ?base = "aem_stringslice_new_str addr module_path" and ?name = "aem_stringslice_new_str addr (mod_name m)"
  let ?out = "aem_stringbuf_reset (mod_path m)"
  have b [simp]: "ss_bytes ?base = sb_out module_path" "ss_bytes ?name = sb_out (mod_name m)"
    by (simp_all add: aem_stringslice_new_str_def sb_out_def)
  have len: "length (sb_out module_path) \<le> sb_n module_path" "length (sb_out (mod_name m)) \<le> sb_n (mod_name m)"
    by (simp_all add: sb_out_def)
  have ready: "sb_ready al ?out" "sb_n ?out = 0"
    using assms(1) by (auto simp: sb_ready_def sb_inv_def sb_free_def aem_stringbuf_reset_def)
  obtain st f e where nf: "path_norm [] (path_parts (sb_out (mod_name m))) = (st, f, e)" by (metis prod_cases3)
  have safe: "list_all safe_component st" "f = [] \<or> safe_component f"
    using path_norm_safe [OF _ _ nf] path_parts_no_slash by auto
  obtain o2 where o2: "do { out1 \<leftarrow> (if aem_stringslice_ok ?base then aem_stringbuf_putss al ?out ?base
                      else aem_stringbuf_puts al ?out (Some [46]));
          (if aem_stringbuf_index out1 (c_size (int (sb_n out1) - 1)) \<noteq> 47
                     then aem_stringbuf_putc al out1 47 else Some out1) } = Some o2" "sb_ready al o2"
    "sb_out o2 = sandbox_base (sb_out module_path)" "sb_n o2 \<le> sb_n module_path + 2"
    using sandbox_prologue [OF ready(1), of ?base] assms(2) len ready(2) reset_spec(2) [of "mod_path m"] by auto
  have n2: "sb_n o2 = length (sb_out o2)" using o2(2) by (simp add: sb_ready_def)
  have "sb_n o2 + length (ss_bytes ?name) \<le> 2 ^ 24" using o2(4) assms(2) len by simp
  then obtain o3 ts where o3: "sandbox_loop al o2 (sb_n o2) ?name 0 undef =
      Some (if e then 0 OR 1 else 0, o3, ts)" "sb_ready al o3" "sb_out o3 = sb_out o2 @ path_text st @ f"
      "sb_n o3 \<le> sb_n o2 + length (sb_out (mod_name m))"
    using sandbox_loop_spec [OF o2(2), of "sb_out o2" "[]" ?name 0 undef] n2 by (auto simp: nf)
  obtain o1 where o1: "(if aem_stringslice_ok ?base then aem_stringbuf_putss al ?out ?base
        else aem_stringbuf_puts al ?out (Some [46])) = Some o1"
    "(if aem_stringbuf_index o1 (c_size (int (sb_n o1) - 1)) \<noteq> 47
        then aem_stringbuf_putc al o1 47 else Some o1) = Some o2"
    using o2(1) unfolding bind_eq_Some_conv by blast
  let ?rc = "\<lambda>rc. let rc1 = (if ts then rc OR 2 else rc) in if sb_n o3 = sb_n o2 then rc1 OR 2 else (rc1 :: int)"
  let ?r = "?rc (if e then 0 OR 1 else 0)"
  let ?has = "fst (aem_stringslice_match_end (aem_stringslice_new_str literal_addr o3) (cstr ''.so''))"
  have path: "aem_sandbox_path undef al ?out ?base ?name (Some (cstr ''.so'')) =
      (if \<not> ?has then do { out4 \<leftarrow> aem_stringbuf_puts al o3 (Some (cstr ''.so'')); Some (?r, out4) } else Some (?r, o3))"
    unfolding aem_sandbox_path_def o1(1) bind.bind_lunit o1(2) Let_def by (simp add: o3(1))
  have so: "safe_component (f @ cstr ''.so'')" if "\<not> ?has"
    using safe(2) by (cases f) (auto simp: safe_component_def cstr_def)
  have o3': "sb_out o3 = sandbox_base (sb_out module_path) @ path_text st @ f" using o3(3) o2(3) by simp
  have res: "aem_module_resolve_path undef al addr module_path m = Some (if ?r \<noteq> 0 then -1 else 0, m\<lparr>mod_path := out\<rparr>)"
    if "(if \<not> ?has then aem_stringbuf_puts al o3 (Some (cstr ''.so'')) else Some o3) = Some out" for out
    using that by (simp only: aem_module_resolve_path_def Let_def path) (auto split: if_splits)
  show ?thesis
  proof (cases ?has)
    case True
    then have "suffix (cstr ''.so'') ((sandbox_base (sb_out module_path) @ path_text st) @ f)"
      using o3' by (simp add: slice_simps aem_stringslice_new_str_def sb_out_def split: if_splits)
    from suffix_after_slash [OF this] base_ends_slash have "suffix (cstr ''.so'') f" by (auto simp: cstr_def)
    moreover from this have "safe_component f" using safe(2) by (auto simp: cstr_def)
    ultimately show ?thesis using res [of o3] True o3(2) o3' safe(1) by auto
  next
    case False
    have "sb_n o3 + length (cstr ''.so'') \<le> 2 ^ 24" using o3(4) o2(4) assms(2) len by (simp add: cstr_def)
    from appendsD [OF puts_appends o3(2) this] obtain o4
      where o4: "aem_stringbuf_puts al o3 (Some (cstr ''.so'')) = Some o4" "sb_ready al o4"
        "sb_out o4 = sb_out o3 @ cstr ''.so''" by blast
    show ?thesis using res [of o4] False o4 o3' safe(1) so [OF False]
      by (intro exI [of _ "if ?r \<noteq> 0 then -1 else 0"] exI [of _ o4] exI [of _ st] exI [of _ "f @ cstr ''.so''"]) (simp add: suffix_def)
  qed
qed

text \<open>A path that ran out of memory is bad, and \<open>dlopen\<close> gets \<open>NULL\<close>: it opens the program itself.\<close>

lemma bad_path_opens_program:
  assumes "sb_bad (mod_path m)" "sb_n (mod_path m) \<noteq> 0"
  shows "open_world dl m w = dl_open dl None w"
  using assms by (simp add: open_world_def aem_stringbuf_get_def)

text \<open>Unloading a module that was loaded and not registered leaves its state \<open>AEM_MODULE_LOADED\<close>. If
  it is then opened again and refuses in \<open>check_reg\<close>, the assertion of \<open>aem_module_register\<close> does not
  stop its registration, as it does for a module opened for the first time.\<close>

lemma refused_module_registers:
  assumes "well_behaved dl" "mod_typed m" "mod_state m = AEM_MODULE_LOADED"
    and "aem_module_unload dl (Some m) w = Some (0, Some m1, w1)"
    and "aem_module_open al dl m1 w1 = Some (-1, m2, w2)" "mod_def m2 \<noteq> None"
  shows "mod_state m1 = AEM_MODULE_LOADED \<and> mod_handle m1 = None \<and>
    (\<exists>rc m3 w3. aem_module_register dl args m2 w2 = Some (rc, m3, w3))"
proof -
  have m1: "mod_state m1 = AEM_MODULE_LOADED" "mod_handle m1 = None" "mod_typed m1"
    using unload_effect [OF assms(1,2), of w] assms(3,4) by auto
  then have "mod_state m2 = AEM_MODULE_LOADED" "mod_typed m2"
    using open_effect [OF assms(1) m1(3), of al w1] assms(5) by (auto simp: open_result_def)
  then show ?thesis using register_effect [OF assms(1), of m2 args w2] assms(6) m1 by auto
qed

lemma fresh_module_refused:
  "mod_state m \<noteq> AEM_MODULE_LOADED \<Longrightarrow> aem_module_register dl args m w = None"
  by (cases "mod_def m") (simp_all add: aem_module_register_def)

section \<open>Properties\<close>

text \<open>C37: The fields of a module agree under every operation. Opening a module that is not
  registered, registering a loaded one, asking, unloading and destroying all return, keep a definition
  only in an open object and only a module with a definition registered; a module opened without error
  is loaded and has a definition, and one unloaded without error has neither object nor definition.\<close>

theorem module_operations_typed:
  assumes "well_behaved dl" "mod_typed m"
  shows "mod_typed (aem_module_init lm) \<and>
    (mod_state m \<noteq> AEM_MODULE_REGISTERED \<longrightarrow> (\<exists>rc m' w'. aem_module_open al dl m w = Some (rc, m', w') \<and>
       mod_typed m' \<and> (rc = 0 \<longrightarrow> mod_state m' = AEM_MODULE_LOADED \<and> mod_def m' \<noteq> None))) \<and>
    (mod_state m = AEM_MODULE_LOADED \<and> mod_def m \<noteq> None \<longrightarrow>
       (\<exists>rc m' w'. aem_module_register dl args m w = Some (rc, m', w') \<and> mod_typed m' \<and>
         (rc = 0 \<longleftrightarrow> mod_state m' = AEM_MODULE_REGISTERED))) \<and>
    (\<exists>rc m' w'. aem_module_unload_check dl (Some m) w = Some (rc, Some m', w') \<and> mod_typed m') \<and>
    (\<exists>rc m' w'. aem_module_unload dl (Some m) w = Some (rc, Some m', w') \<and> mod_typed m' \<and>
       mod_def m' = None \<and> mod_state m' \<noteq> AEM_MODULE_REGISTERED \<and> (rc = 0 \<longrightarrow> mod_handle m' = None)) \<and>
    (\<exists>m' w'. aem_module_dtor dl m w = Some (m', w') \<and> mod_typed m')"
proof -
  have "mod_typed (aem_module_init lm)"
    by (simp add: aem_module_init_def aem_stringbuf_init_def mod_typed_def)
  moreover have "\<exists>rc m' w'. aem_module_open al dl m w = Some (rc, m', w') \<and> mod_typed m' \<and>
      (rc = 0 \<longrightarrow> mod_state m' = AEM_MODULE_LOADED \<and> mod_def m' \<noteq> None)"
    if "mod_state m \<noteq> AEM_MODULE_REGISTERED"
    using open_effect [OF assms that, of al w] by (auto simp: open_result_def)
  moreover have "\<exists>rc m' w'. aem_module_register dl args m w = Some (rc, m', w') \<and> mod_typed m' \<and>
      (rc = 0 \<longleftrightarrow> mod_state m' = AEM_MODULE_REGISTERED)"
    if "mod_state m = AEM_MODULE_LOADED" "mod_def m \<noteq> None"
    using register_effect [OF assms that, of args w] by (auto split: if_splits)
  moreover have "\<exists>rc m' w'. aem_module_unload_check dl (Some m) w = Some (rc, Some m', w') \<and> mod_typed m'"
    using unload_check_effect [OF assms, of w] mod_keeps_typed [OF assms(2)] by blast
  moreover obtain rc m1 w1 where u: "aem_module_unload dl (Some m) w = Some (rc, Some m1, w1)" "mod_typed m1"
      "mod_def m1 = None" "mod_state m1 \<noteq> AEM_MODULE_REGISTERED" "rc = 0 \<longrightarrow> mod_handle m1 = None"
    using unload_effect [OF assms, of w] by (auto split: if_splits)
  moreover have "\<exists>m' w'. aem_module_dtor dl m w = Some (m', w') \<and> mod_typed m'"
    using u by (simp add: aem_module_dtor_def aem_stringbuf_dtor_def mod_typed_def)
  ultimately show ?thesis by blast
qed

text \<open>C38: Whatever a client does with a module, its object is opened before the module is
  registered, registration succeeds at most once per opening, the module is deregistered exactly when it
  was registered and before its object is closed, and only the object that was opened is closed. If
  \<open>dlclose\<close> succeeds, destroying the module completes this cycle from wherever it stands.\<close>

theorem module_lifecycle:
  assumes "well_behaved dl" "module_run al dl m w es"
  shows "(\<exists>ph. life Absent es = Some ph \<and> in_phase m ph) \<and>
    (\<exists>m' w' es'. aem_module_dtor (recording dl) m (w, es) = Some (m', w', es') \<and>
      ((\<forall>h w. fst (dl_close dl h w) = 0) \<longrightarrow> life Absent es' = Some Absent))"
proof -
  obtain ph where ph: "life Absent es = Some ph" "in_phase m ph" and t: "mod_typed m"
    using run_phase [OF assms] by blast
  obtain rc m1 w1 es1 where u: "aem_module_unload (recording dl) (Some m) (w, es) = Some (rc, Some m1, w1, es1)"
    using unload_effect [OF recording_behaves [OF assms(1)] t, of "(w, es)"] by auto
  have reg: "mod_state m = AEM_MODULE_REGISTERED \<Longrightarrow> mod_handle m \<noteq> None" using t by (auto simp: mod_typed_def)
  have "life Absent es1 = Some Absent" if "\<forall>h w. fst (dl_close dl h w) = 0"
    using unload_events [OF assms(1) t u] that ph reg
    by (cases ph) (auto simp: in_phase_def split: option.splits if_splits)
  then show ?thesis using ph u by (auto simp: aem_module_dtor_def)
qed

text \<open>A linker with one object, whose definition accepts everything.\<close>
definition demo_link :: "unit dynlink" where
  "demo_link = \<lparr>dl_open = (\<lambda>p w. (Some 7, w)), dl_sym = (\<lambda>h s w. Some 3), dl_close = (\<lambda>h w. (0, w)),
     dl_def = (\<lambda>d. \<lparr>def_name = Some (cstr ''demo''), def_version = None, def_deps = None,
       def_reg = Some (\<lambda>args m w. Some (0, m, w)), def_dereg = None, def_check_reg = None,
       def_check_dereg = Some aem_module_disable_dereg, def_logmodule = None\<rparr>)\<rparr>"

lemma demo_link_behaves: "well_behaved demo_link"
  by (auto simp: well_behaved_def demo_link_def reg_behaves_def dereg_behaves_def check_behaves_def
      aem_module_disable_dereg_def cstr_def intro: mod_keeps_refl)

definition demo_path :: stringbuf where
  "demo_path = \<lparr>sb_s = cstr ''m.so'' @ [0], sb_n = 4, sb_maxn = 5, sb_storage = AEM_STRINGBUF_STORAGE_HEAP,
     sb_bad = False, sb_fixed = False\<rparr>"

definition demo_module :: aem_module where
  "demo_module = (aem_module_init None)\<lparr>mod_name := AEM_STRINGBUF_EMPTY, mod_path := demo_path\<rparr>"

lemma demo_path_inv: "sb_inv demo_path"
  by (simp add: demo_path_def sb_inv_def PTRDIFF_MAX_def cstr_def)

theorem module_operations_typed_witness:
  "\<exists>rc m' w'. aem_module_unload demo_link (Some demo_module) () = Some (rc, Some m', w') \<and> mod_typed m' \<and>
     mod_def m' = None"
proof -
  have "mod_typed demo_module"
    using demo_path_inv by (simp add: demo_module_def aem_module_init_def mod_typed_def)
  then show ?thesis using module_operations_typed [OF demo_link_behaves] by blast
qed

lemma demo_link_simps [simp]:
  "dl_open demo_link p w = (Some 7, w)" "dl_sym demo_link h s w = Some 3" "dl_close demo_link h w = (0, w)"
  "def_name (dl_def demo_link d) = Some (cstr ''demo'')" "def_version (dl_def demo_link d) = None"
  "def_check_reg (dl_def demo_link d) = None" "def_reg (dl_def demo_link d) = Some (\<lambda>args m w. Some (0, m, w))"
  by (simp_all add: demo_link_def)

lemma demo_loads:
  "\<exists>m es. aem_module_open al_all (recording demo_link) demo_module ((), []) = Some (0, m, (), es)"
proof -
  define m3 where "m3 = demo_module\<lparr>mod_handle := Some 7, mod_def := Some 3\<rparr>"
  have get: "aem_stringbuf_get (mod_path demo_module) = Some (Some (sb_s demo_path), demo_path)"
    by (simp add: demo_module_def demo_path_def aem_stringbuf_get_def sb_store_def cstr_def)
  have t: "mod_typed m3" using demo_path_inv
    by (simp add: m3_def demo_module_def aem_module_init_def mod_typed_def)
  obtain m4 where m4: "fill_name al_all demo_link m3 = Some m4" "mod_keeps m3 m4"
    using fill_name_keeps [OF demo_link_behaves t] by blast
  obtain m5 where m5: "log_name m4 = Some m5" using log_keeps(1) [OF mod_keeps_typed [OF t m4(2)]] by blast
  have path: "sb_n (mod_path demo_module) = 4" "demo_module\<lparr>mod_path := demo_path\<rparr> = demo_module"
    by (simp_all add: demo_module_def demo_path_def)
  have d: "mod_def m4 = Some 3" using m4(2) by (simp add: mod_keeps_def m3_def)
  have op: "dl_open (recording demo_link) p ((), []) = (Some 7, (), [Opened 7])" for p
    by (simp add: recording_def)
  have chk: "def_check_reg (dl_def (recording demo_link) d) = Some (\<lambda>m (w, es). Some (1, m, w, es))" for d
    by (simp add: recording_def recording_def_def)
  have sym: "dl_sym (recording demo_link) h n ((), es) = Some 3" for h n es by (simp add: recording_def)
  show ?thesis using m4(1) m5 d
    by (simp add: aem_module_open_def get op path aem_module_get_sym_def open_check_def chk m3_def sym)
qed

theorem module_lifecycle_witness:
  "\<exists>m es. module_run al_all demo_link m () es \<and> life Absent es = Some (Active 7) \<and>
     (\<exists>m' w' es'. aem_module_dtor (recording demo_link) m ((), es) = Some (m', w', es') \<and>
       life Absent es' = Some Absent)"
proof -
  have run0: "module_run al_all demo_link demo_module () []"
    unfolding demo_module_def using Run_set [OF Run_init sb_empty(1) demo_path_inv] .
  have h: "mod_handle demo_module = None" "mod_state demo_module \<noteq> AEM_MODULE_REGISTERED"
    by (simp_all add: demo_module_def aem_module_init_def)
  obtain m1 es1 where opened: "aem_module_open al_all (recording demo_link) demo_module ((), []) = Some (0, m1, (), es1)"
    using demo_loads by blast
  note run1 = Run_open [OF run0 h(1) opened]
  have "mod_typed demo_module" using run_phase [OF demo_link_behaves run0] by blast
  then have "open_result (recording demo_link) demo_module ((), []) 0 m1"
    using open_effect [OF recording_behaves [OF demo_link_behaves] _ h(2), of al_all "((), [])"] opened by simp
  then have m1: "mod_state m1 = AEM_MODULE_LOADED" "mod_def m1 \<noteq> None" "mod_handle m1 = Some 7"
    by (simp_all add: open_result_def open_world_def demo_module_def demo_path_def aem_stringbuf_get_def sb_store_def
        cstr_def recording_def)
  define m2 where "m2 = m1\<lparr>mod_state := AEM_MODULE_REGISTERED\<rparr>"
  have "aem_module_register (recording demo_link) args m1 ((), es1) = Some (0, m2, (), es1 @ [Registered])" for args
    using m1 by (auto simp: aem_module_register_def m2_def recording_def recording_def_def)
  from Run_register [OF run1 m1(1,2) this] have run2: "module_run al_all demo_link m2 () (es1 @ [Registered])" .
  obtain ph where "life Absent (es1 @ [Registered]) = Some ph" "in_phase m2 ph"
    using module_lifecycle [OF demo_link_behaves run2] by blast
  then have "life Absent (es1 @ [Registered]) = Some (Active 7)"
    using m1 by (cases ph) (auto simp: in_phase_def m2_def)
  then show ?thesis using module_lifecycle [OF demo_link_behaves run2] run2
    by (intro exI [of _ m2] exI [of _ "es1 @ [Registered]"]) auto
qed

end
