(* ===== verification/Aem_Pmcrcu.thy ===== *)
theory Aem_Pmcrcu
  imports Aem_Linked "HOL-Library.Multiset"
begin

text \<open>
  Deferred callbacks (\<open>pmcrcu.c\<close>): a last-in-first-out list threaded through the objects the client
  embeds, and a barrier that runs callbacks until the list is empty. A callback may defer further ones.
\<close>

section \<open>State and operations\<close>

text \<open>\<open>aem_pmcrcu_head\<close>, the two fields of each object's \<open>aem_pmcrcu_rcu_head\<close>, and whatever else
  callbacks act on.\<close>
record ('f, 'w) rcu =
  pmcrcu_head :: "nat ptr"
  rcu_next :: "nat \<Rightarrow> nat ptr"
  rcu_func :: "nat \<Rightarrow> 'f ptr"
  rcu_world :: 'w

text \<open>The loop that looks for an object already on the list, which only a debugging build has.\<close>
partial_function (option) rcu_check_absent :: "('f, 'w) rcu \<Rightarrow> nat \<Rightarrow> nat ptr \<Rightarrow> unit option" where
  "rcu_check_absent st head p =
     (case p of
        None \<Rightarrow> Some ()
      | Some c \<Rightarrow> if c = head then None else rcu_check_absent st head (rcu_next st c))"

declare rcu_check_absent.simps [code]

definition aem_pmcrcu_call_rcu :: "bool \<Rightarrow> nat \<Rightarrow> 'f \<Rightarrow> ('f, 'w) rcu \<Rightarrow> ('f, 'w) rcu option" where
  "aem_pmcrcu_call_rcu debug head func st =
     do { let st1 = st\<lparr>rcu_func := (rcu_func st)(head := Some func)\<rparr>;
          (if debug then rcu_check_absent st1 head (pmcrcu_head st1) else Some ());
          Some (st1\<lparr>rcu_next := (rcu_next st1)(head := pmcrcu_head st1), pmcrcu_head := Some head\<rparr>) }"

text \<open>\<open>call\<close> runs a callback on its object: it is the client's, and may call \<open>aem_pmcrcu_call_rcu\<close>.\<close>
definition aem_pmcrcu_process_one_callback ::
  "('f \<Rightarrow> nat \<Rightarrow> ('f, 'w) rcu \<Rightarrow> ('f, 'w) rcu option) \<Rightarrow> ('f, 'w) rcu \<Rightarrow> (int \<times> ('f, 'w) rcu) option" where
  "aem_pmcrcu_process_one_callback call st =
     (case pmcrcu_head st of
        None \<Rightarrow> Some (-1, st)
      | Some head \<Rightarrow>
          if rcu_next st head = Some head then None
          else do {
            let st1 = st\<lparr>pmcrcu_head := rcu_next st head\<rparr>;
            func \<leftarrow> rcu_func st1 head;
            st2 \<leftarrow> call func head st1;
            Some (0, st2) })"

partial_function (option) aem_pmcrcu_rcu_barrier ::
  "('f \<Rightarrow> nat \<Rightarrow> ('f, 'w) rcu \<Rightarrow> ('f, 'w) rcu option) \<Rightarrow> ('f, 'w) rcu \<Rightarrow> ('f, 'w) rcu option" where
  "aem_pmcrcu_rcu_barrier call st =
     (if pmcrcu_head st = None then Some st
      else do { (rc, st1) \<leftarrow> aem_pmcrcu_process_one_callback call st;
                aem_pmcrcu_rcu_barrier call st1 })"

declare aem_pmcrcu_rcu_barrier.simps [code]

section \<open>The list\<close>

text \<open>The objects on the list, newest first.\<close>
fun rcu_list :: "('f, 'w) rcu \<Rightarrow> nat ptr \<Rightarrow> (nat \<times> 'f) list \<Rightarrow> bool" where
  "rcu_list st p [] \<longleftrightarrow> p = None"
| "rcu_list st p ((h, f) # hs) \<longleftrightarrow> p = Some h \<and> rcu_func st h = Some f \<and> rcu_list st (rcu_next st h) hs"

definition pending :: "('f, 'w) rcu \<Rightarrow> (nat \<times> 'f) list \<Rightarrow> bool" where
  "pending st hs \<longleftrightarrow> rcu_list st (pmcrcu_head st) hs \<and> distinct (map fst hs)"

lemma rcu_list_cong:
  assumes "\<And>h. h \<in> fst ` set hs \<Longrightarrow> rcu_next st' h = rcu_next st h \<and> rcu_func st' h = rcu_func st h"
  shows "rcu_list st' p hs = rcu_list st p hs"
  using assms by (induction hs arbitrary: p) auto

lemma check_absent_simps [simp]:
  "rcu_check_absent st h None = Some ()"
  "rcu_check_absent st h (Some c) = (if c = h then None else rcu_check_absent st h (rcu_next st c))"
  by (subst rcu_check_absent.simps, simp)+

lemma check_absent:
  "rcu_list st p hs \<Longrightarrow> rcu_next st' = rcu_next st \<Longrightarrow>
   rcu_check_absent st' h p = (if h \<in> fst ` set hs then None else Some ())"
  by (induction hs arbitrary: p) (auto, force)

text \<open>Deferring an object that is not on the list puts it in front; one that is on the list already is
  caught in a debugging build.\<close>

lemma call_rcu_pending:
  assumes "pending st hs" "h \<notin> fst ` set hs"
  shows "\<exists>st'. aem_pmcrcu_call_rcu debug h f st = Some st' \<and> pending st' ((h, f) # hs) \<and>
    rcu_world st' = rcu_world st"
proof -
  let ?st1 = "st\<lparr>rcu_func := (rcu_func st)(h := Some f)\<rparr>"
  have c: "rcu_check_absent ?st1 h (pmcrcu_head st) = Some ()"
    using check_absent [of st "pmcrcu_head st" hs ?st1 h] assms by (auto simp: pending_def)
  let ?st2 = "?st1\<lparr>rcu_next := (rcu_next ?st1)(h := pmcrcu_head ?st1), pmcrcu_head := Some h\<rparr>"
  have "rcu_list ?st2 (pmcrcu_head st) hs = rcu_list st (pmcrcu_head st) hs"
    using assms(2) by (intro rcu_list_cong) auto
  then have "pending ?st2 ((h, f) # hs)" using assms by (simp add: pending_def)
  then show ?thesis using c by (cases debug) (simp_all add: aem_pmcrcu_call_rcu_def Let_def)
qed

lemma call_rcu_twice:
  assumes "pending st hs" "h \<in> fst ` set hs"
  shows "aem_pmcrcu_call_rcu True h f st = None"
  using check_absent [of st "pmcrcu_head st" hs "st\<lparr>rcu_func := (rcu_func st)(h := Some f)\<rparr>" h] assms
  by (simp add: aem_pmcrcu_call_rcu_def pending_def)

section \<open>The barrier\<close>

text \<open>A client: what a callback does is to note that it ran and to defer further objects, each with its
  own job, one after the other.\<close>
datatype job = Job nat "job list"

primrec job_head :: "job \<Rightarrow> nat" where "job_head (Job h js) = h"
primrec job_kids :: "job \<Rightarrow> job list" where "job_kids (Job h js) = js"

fun defer_all :: "bool \<Rightarrow> job list \<Rightarrow> (job, nat list) rcu \<Rightarrow> (job, nat list) rcu option" where
  "defer_all debug [] st = Some st"
| "defer_all debug (j # js) st =
     do { st1 \<leftarrow> aem_pmcrcu_call_rcu debug (job_head j) j st; defer_all debug js st1 }"

definition run_job :: "bool \<Rightarrow> job \<Rightarrow> nat \<Rightarrow> (job, nat list) rcu \<Rightarrow> (job, nat list) rcu option" where
  "run_job debug j h st = defer_all debug (job_kids j) (st\<lparr>rcu_world := rcu_world st @ [h]\<rparr>)"

text \<open>All objects a job will ever defer, and the order in which they are run: the objects deferred last
  come first, and those a callback defers come before all that were waiting.\<close>
fun job_heads :: "job \<Rightarrow> nat list" where
  "job_heads (Job h js) = h # concat (map job_heads js)"

fun job_order :: "job \<Rightarrow> nat list" where
  "job_order (Job h js) = h # concat (rev (map job_order js))"

definition keyed :: "job list \<Rightarrow> (nat \<times> job) list" where
  "keyed js = map (\<lambda>j. (job_head j, j)) js"

lemma keyed_simps [simp]:
  "keyed [] = []" "keyed (j # js) = (job_head j, j) # keyed js" "map fst (keyed js) = map job_head js"
  "fst ` set (keyed js) = job_head ` set js"
  by (simp_all add: keyed_def image_image)

lemma defer_all_pending:
  assumes "pending st (keyed ws)" "distinct (map job_head (rev js @ ws))"
  shows "\<exists>st'. defer_all debug js st = Some st' \<and> pending st' (keyed (rev js @ ws)) \<and> rcu_world st' = rcu_world st"
  using assms
proof (induction js arbitrary: st ws)
  case (Cons j js)
  have "job_head j \<notin> fst ` set (keyed ws)" using Cons.prems(2) by auto
  then obtain st1 where st1: "aem_pmcrcu_call_rcu debug (job_head j) j st = Some st1"
      "pending st1 (keyed (j # ws))" "rcu_world st1 = rcu_world st"
    using call_rcu_pending [OF Cons.prems(1)] by fastforce
  have "distinct (map job_head (rev js @ j # ws))" using Cons.prems(2) by auto
  from Cons.IH [OF st1(2) this] show ?case using st1 by auto
qed simp

lemma job_head_heads: "job_head j \<in> set (job_heads j)"
  by (cases j) simp

lemma job_order_heads: "mset (job_order j) = mset (job_heads j)"
proof (induction j rule: job_order.induct)
  case (1 h js)
  then have "mset (concat (map job_order js)) = mset (concat (map job_heads js))" by (induction js) auto
  moreover have "mset (concat (rev (map job_order js))) = mset (concat (map job_order js))"
    by (induction js) auto
  ultimately show ?case by simp
qed

lemma process_one:
  assumes "pending st (keyed (Job h ks # js))" "distinct (map job_head (rev ks @ js))"
  shows "\<exists>st'. aem_pmcrcu_process_one_callback (run_job debug) st = Some (0, st') \<and>
    pending st' (keyed (rev ks @ js)) \<and> rcu_world st' = rcu_world st @ [h]"
proof -
  have p: "pmcrcu_head st = Some h" "rcu_func st h = Some (Job h ks)"
      "rcu_list st (rcu_next st h) (keyed js)" "h \<notin> job_head ` set js" "distinct (map job_head js)"
    using assms(1) by (auto simp: pending_def)
  have "rcu_next st h \<noteq> Some h" using p(3,4) by (cases js) auto
  moreover let ?st1 = "st\<lparr>pmcrcu_head := rcu_next st h, rcu_world := rcu_world st @ [h]\<rparr>"
  have "pending ?st1 (keyed js)"
    using p rcu_list_cong [of "keyed js" ?st1 st] by (simp add: pending_def)
  from defer_all_pending [OF this assms(2), of debug] obtain st'
    where "defer_all debug ks ?st1 = Some st'" "pending st' (keyed (rev ks @ js))" "rcu_world st' = rcu_world st @ [h]"
    by auto
  ultimately show ?thesis using p by (simp add: aem_pmcrcu_process_one_callback_def run_job_def)
qed

lemma distinct_heads: "distinct (concat (map job_heads js)) \<Longrightarrow> distinct (map job_head js)"
proof (induction js)
  case (Cons j js)
  have "job_head j \<noteq> job_head k" if "k \<in> set js" for k
  proof
    assume "job_head j = job_head k"
    then have "job_head j \<in> set (job_heads j) \<inter> set (job_heads k)"
      using job_head_heads [of j] job_head_heads [of k] by simp
    then show False using Cons.prems that by auto
  qed
  then show ?case using Cons by auto
qed simp

lemma barrier_order:
  assumes "pending st (keyed js)" "distinct (concat (map job_heads js))"
  shows "\<exists>st'. aem_pmcrcu_rcu_barrier (run_job debug) st = Some st' \<and> pmcrcu_head st' = None \<and>
    rcu_world st' = rcu_world st @ concat (map job_order js)"
  using assms
proof (induction "length (concat (map job_heads js))" arbitrary: st js rule: less_induct)
  case less
  show ?case
  proof (cases js)
    case Nil
    then have "pmcrcu_head st = None" using less.prems(1) by (simp add: pending_def)
    then show ?thesis using Nil by (simp add: aem_pmcrcu_rcu_barrier.simps)
  next
    case (Cons j rest)
    obtain h ks where j: "j = Job h ks" by (cases j)
    let ?js = "rev ks @ rest"
    have ms: "mset (concat (map job_heads ?js)) = mset (concat (map job_heads ks) @ concat (map job_heads rest))"
      by (induction ks) auto
    have d: "distinct (concat (map job_heads ?js))"
      using less.prems(2) mset_eq_imp_distinct_iff [OF ms] unfolding Cons j by simp
    have dh: "distinct (map job_head ?js)" by (rule distinct_heads [OF d])
    obtain st1 where st1: "aem_pmcrcu_process_one_callback (run_job debug) st = Some (0, st1)"
        "pending st1 (keyed ?js)" "rcu_world st1 = rcu_world st @ [h]"
      using process_one [OF _ dh] less.prems(1) unfolding Cons j by blast
    have "length (concat (map job_heads ?js)) < length (concat (map job_heads js))"
      using arg_cong [OF ms, of size] unfolding Cons j by simp
    from less.hyps [OF this st1(2) d] obtain st' where st':
        "aem_pmcrcu_rcu_barrier (run_job debug) st1 = Some st'" "pmcrcu_head st' = None"
        "rcu_world st' = rcu_world st @ [h] @ concat (map job_order ?js)"
      using st1(3) by auto
    have "pmcrcu_head st \<noteq> None" using less.prems(1) unfolding Cons j by (simp add: pending_def)
    then have "aem_pmcrcu_rcu_barrier (run_job debug) st = Some st'"
      using st1(1) st'(1) by (subst aem_pmcrcu_rcu_barrier.simps) (simp del: not_None_eq)
    then show ?thesis using st'(2,3) unfolding Cons j by (simp add: rev_map)
  qed
qed

text \<open>A callback that defers its own object again keeps the barrier from ever returning.\<close>

definition requeue :: "'f \<Rightarrow> nat \<Rightarrow> ('f, 'w) rcu \<Rightarrow> ('f, 'w) rcu option" where
  "requeue f h st = aem_pmcrcu_call_rcu False h f st"

lemma requeue_step:
  "pmcrcu_head st = Some h \<Longrightarrow> rcu_func st h = Some f \<Longrightarrow>
   aem_pmcrcu_process_one_callback requeue st = Some (rc, st1) \<Longrightarrow>
   pmcrcu_head st1 = Some h \<and> rcu_func st1 h = Some f"
  by (auto simp: aem_pmcrcu_process_one_callback_def requeue_def aem_pmcrcu_call_rcu_def bind_eq_Some_conv
      Let_def split: if_splits)

lemma requeue_diverges:
  assumes "pmcrcu_head st = Some h" "rcu_func st h = Some f"
  shows "aem_pmcrcu_rcu_barrier requeue st = None"
proof (rule ccontr)
  assume "aem_pmcrcu_rcu_barrier requeue st \<noteq> None"
  then obtain r c where r: "aem_pmcrcu_rcu_barrier c st = Some r" and c: "c = requeue" by blast
  have "c = requeue \<longrightarrow> pmcrcu_head st = Some h \<and> rcu_func st h = Some f \<longrightarrow> False"
    by (rule aem_pmcrcu_rcu_barrier.raw_induct [OF _ r, where P = "\<lambda>call st r.
        call = requeue \<longrightarrow> pmcrcu_head st = Some h \<and> rcu_func st h = Some f \<longrightarrow> False"])
      (auto simp: bind_eq_Some_conv split: if_splits dest: requeue_step)
  then show False using assms c by blast
qed

section \<open>Property\<close>

text \<open>C39: The barrier returns with nothing left pending, having run every callback that was
  deferred before it or by a callback it ran exactly once: newest first, and those a callback defers
  before all that were waiting.\<close>

theorem barrier_runs_every_callback:
  assumes "pending st (keyed js)" "distinct (concat (map job_heads js))"
  shows "\<exists>st' ran. aem_pmcrcu_rcu_barrier (run_job debug) st = Some st' \<and> pmcrcu_head st' = None \<and>
    rcu_world st' = rcu_world st @ ran \<and> ran = concat (map job_order js) \<and> distinct ran \<and>
    set ran = set (concat (map job_heads js))"
proof -
  have ms: "mset (concat (map job_order js)) = mset (concat (map job_heads js))"
    by (induction js) (auto simp: job_order_heads)
  have "distinct (concat (map job_order js))" using mset_eq_imp_distinct_iff [OF ms] assms(2) by simp
  moreover have "set (concat (map job_order js)) = set (concat (map job_heads js))" by (rule mset_eq_setD [OF ms])
  ultimately show ?thesis using barrier_order [OF assms, of debug] by blast
qed

definition demo_rcu :: "(job, nat list) rcu" where
  "demo_rcu = \<lparr>pmcrcu_head = Some 1, rcu_next = (\<lambda>h. if h = 1 then Some 2 else None),
     rcu_func = (\<lambda>h. if h = 1 then Some (Job 1 [Job 3 [], Job 4 []]) else Some (Job 2 [])), rcu_world = []\<rparr>"

theorem barrier_runs_every_callback_witness:
  "\<exists>st'. aem_pmcrcu_rcu_barrier (run_job True) demo_rcu = Some st' \<and> rcu_world st' = [1, 4, 3, 2]"
proof -
  have "pending demo_rcu (keyed [Job 1 [Job 3 [], Job 4 []], Job 2 []])"
    by (simp add: pending_def demo_rcu_def)
  then show ?thesis
    using barrier_runs_every_callback [of demo_rcu "[Job 1 [Job 3 [], Job 4 []], Job 2 []]" True]
    by (auto simp: demo_rcu_def)
qed

end
