(* ===== verification/Aem_Net.thy ===== *)
theory Aem_Net
  imports Aem_Stream Aem_Poll
begin

text \<open>
  Sockets, connections and servers (\<open>net.c\<close>), over the store of streams and the event loop. A
  connection is its address: that of its socket, of the socket's event, of its source \<open>rx\<close> and of its
  sink \<open>tx\<close>. The system calls are parameters over the rest of the world; the results of calls whose
  failure the code only logs are left out. There is one event loop, so that the pointer \<open>poller\<close> is
  set or \<open>NULL\<close>. The client's callbacks are parameters, as in the theory of streams.
\<close>

section \<open>Data\<close>

datatype net_errno = EAGAIN | EINTR | ECONNRESET | EPIPE | ENOTCONN | Errno nat
datatype shut_how = SHUT_RD | SHUT_WR | SHUT_RDWR
datatype net_family = AF_UNSPEC | AF_INET | AF_INET6 | AF_UNIX
datatype net_type = SOCK_STREAM | SOCK_SEQPACKET
datatype net_opt = IPV6_V6ONLY_off | SO_REUSEADDR_on
datatype sockaddr = Sockaddr_un "u8 list" | Sockaddr_other nat

record addrinfo =
  ai_family :: net_family
  ai_socktype :: net_type
  ai_protocol :: int
  ai_addr :: "sockaddr ptr"

text \<open>Unlike \<open>poll.c\<close>, \<open>net.c\<close> is compiled with \<open>_GNU_SOURCE\<close>, where this is defined.\<close>
definition POLLRDHUP :: u16 where "POLLRDHUP = 0x2000"

definition S_IFSOCK :: u32 where "S_IFSOCK = 0xC000"

record net_sock =
  sk_poller :: bool
  sk_on_close :: bool
  sk_rd_open :: bool
  sk_wr_open :: bool

text \<open>What is beside the streams: the event loop, the sockets, and the rest of the world.\<close>
record 'w net_rest =
  nr_poll :: aem_poll
  nr_ev :: "nat \<Rightarrow> poll_event"
  nr_sock :: "nat \<Rightarrow> net_sock"
  nr_w :: 'w

type_synonym 'w netst = "'w net_rest net"

text \<open>The system calls. \<open>recv\<close> of nothing is the end of the input; \<open>send\<close> gives the number of bytes
  and, if that is not positive, \<open>errno\<close>; \<open>getaddrinfo\<close> is told whether the flag \<open>AI_PASSIVE\<close> is set.\<close>
record 'w net_os =
  os_socket :: "net_family \<Rightarrow> net_type \<Rightarrow> int \<Rightarrow> 'w \<Rightarrow> int \<times> 'w"
  os_setsockopt :: "int \<Rightarrow> net_opt \<Rightarrow> 'w \<Rightarrow> int \<times> 'w"
  os_bind :: "int \<Rightarrow> sockaddr \<Rightarrow> 'w \<Rightarrow> int \<times> 'w"
  os_connect :: "int \<Rightarrow> sockaddr ptr \<Rightarrow> 'w \<Rightarrow> int \<times> 'w"
  os_listen :: "int \<Rightarrow> int \<Rightarrow> 'w \<Rightarrow> int \<times> 'w"
  os_accept :: "int \<Rightarrow> 'w \<Rightarrow> (net_errno + int \<times> sockaddr) \<times> 'w"
  os_recv :: "int \<Rightarrow> nat \<Rightarrow> 'w \<Rightarrow> (net_errno + u8 list) \<times> 'w"
  os_send :: "int \<Rightarrow> u8 list \<Rightarrow> 'w \<Rightarrow> (nat \<times> net_errno) \<times> 'w"
  os_shutdown :: "int \<Rightarrow> shut_how \<Rightarrow> 'w \<Rightarrow> 'w"
  os_close :: "int \<Rightarrow> 'w \<Rightarrow> 'w"
  os_getaddrinfo :: "u8 list ptr \<Rightarrow> u8 list \<Rightarrow> bool \<Rightarrow> 'w \<Rightarrow> addrinfo ptr \<times> 'w"
  os_stat :: "u8 list \<Rightarrow> 'w \<Rightarrow> u32 option"
  os_unlink :: "u8 list \<Rightarrow> 'w \<Rightarrow> 'w"

record 'w net_env =
  ne_al :: "u8 allocator"
  ne_fa :: "pollfd allocator"
  ne_ea :: "nat ptr allocator"
  ne_os :: "'w net_os"
  ne_cb :: "'w net_rest callbacks"
  ne_on_close :: "nat \<Rightarrow> 'w netst \<Rightarrow> 'w netst option"
  ne_conn_new :: "nat \<Rightarrow> sockaddr \<Rightarrow> 'w netst \<Rightarrow> (nat ptr \<times> 'w netst) option"
  ne_setup :: "nat \<Rightarrow> nat \<Rightarrow> sockaddr \<Rightarrow> 'w netst \<Rightarrow> 'w netst option"

abbreviation nevt :: "'w netst \<Rightarrow> nat \<Rightarrow> poll_event" where "nevt n a \<equiv> nr_ev (nt_app n) a"
abbreviation nsock :: "'w netst \<Rightarrow> nat \<Rightarrow> net_sock" where "nsock n a \<equiv> nr_sock (nt_app n) a"

definition upd_evt :: "nat \<Rightarrow> (poll_event \<Rightarrow> poll_event) \<Rightarrow> 'w netst \<Rightarrow> 'w netst" where
  "upd_evt a f n = n\<lparr>nt_app := (nt_app n)\<lparr>nr_ev := (nr_ev (nt_app n))(a := f (nevt n a))\<rparr>\<rparr>"

definition upd_sock :: "nat \<Rightarrow> (net_sock \<Rightarrow> net_sock) \<Rightarrow> 'w netst \<Rightarrow> 'w netst" where
  "upd_sock a f n = n\<lparr>nt_app := (nt_app n)\<lparr>nr_sock := (nr_sock (nt_app n))(a := f (nsock n a))\<rparr>\<rparr>"

definition upd_w :: "('w \<Rightarrow> 'w) \<Rightarrow> 'w netst \<Rightarrow> 'w netst" where
  "upd_w f n = n\<lparr>nt_app := (nt_app n)\<lparr>nr_w := f (nr_w (nt_app n))\<rparr>\<rparr>"

text \<open>A system call with a result.\<close>
definition sys :: "('w \<Rightarrow> 'r \<times> 'w) \<Rightarrow> 'w netst \<Rightarrow> 'r \<times> 'w netst" where
  "sys f n = (case f (nr_w (nt_app n)) of (r, w) \<Rightarrow> (r, upd_w (\<lambda>_. w) n))"

text \<open>The operations of the event loop, on the loop inside this state.\<close>
definition as_loop :: "'w netst \<Rightarrow> 'w netst evloop" where
  "as_loop n = \<lparr>lp_poll = nr_poll (nt_app n), lp_ev = nr_ev (nt_app n), lp_app = n\<rparr>"

definition of_loop :: "'w netst evloop \<Rightarrow> 'w netst" where
  "of_loop l = (lp_app l)\<lparr>nt_app := (nt_app (lp_app l))\<lparr>nr_poll := lp_poll l, nr_ev := lp_ev l\<rparr>\<rparr>"

definition sock_poll_mod :: "nat \<Rightarrow> 'w netst \<Rightarrow> 'w netst option" where
  "sock_poll_mod a n =
     (if sk_poller (nsock n a) then map_option of_loop (aem_poll_mod a (as_loop n)) else None)"

definition sock_poll_add :: "'w net_env \<Rightarrow> nat \<Rightarrow> 'w netst \<Rightarrow> 'w netst option" where
  "sock_poll_add E a n =
     (if sk_poller (nsock n a) then map_option (of_loop \<circ> snd) (aem_poll_add (ne_fa E) (ne_ea E) a (as_loop n))
      else None)"

definition sock_poll_del :: "'w net_env \<Rightarrow> nat \<Rightarrow> 'w netst \<Rightarrow> 'w netst option" where
  "sock_poll_del E a n =
     (if sk_poller (nsock n a) then map_option (of_loop \<circ> snd) (aem_poll_del (ne_fa E) (ne_ea E) a (as_loop n))
      else None)"

text \<open>Setting or clearing bits of the events asked for, then \<open>aem_poll_mod\<close>.\<close>
definition ask_events :: "nat \<Rightarrow> (u16 \<Rightarrow> u16) \<Rightarrow> 'w netst \<Rightarrow> 'w netst option" where
  "ask_events a f n = sock_poll_mod a (upd_evt a (\<lambda>e. e\<lparr>ev_events := f (ev_events e)\<rparr>) n)"

section \<open>Sockets\<close>

definition aem_net_sock_init :: "nat \<Rightarrow> 'w netst \<Rightarrow> 'w netst" where
  "aem_net_sock_init a n =
     upd_sock a (\<lambda>_. \<lparr>sk_poller = False, sk_on_close = False, sk_rd_open = False, sk_wr_open = False\<rparr>)
       (upd_evt a (\<lambda>_. aem_poll_event_init) n)"

definition aem_net_sock_close :: "'w net_env \<Rightarrow> nat \<Rightarrow> 'w netst \<Rightarrow> 'w netst option" where
  "aem_net_sock_close E a n =
     do { n1 \<leftarrow> (if ev_i (nevt n a) \<ge> 0 then sock_poll_del E a n else Some n);
          let fd = ev_fd (nevt n1 a);
          let rd = sk_rd_open (nsock n1 a);
          let wr = sk_wr_open (nsock n1 a);
          if fd = -1 then (if rd \<or> wr then None else Some n1)
          else if fd < 0 then None
          else do {
            let n2 = (if rd \<or> wr
               then upd_w (os_shutdown (ne_os E) fd (if rd \<and> wr then SHUT_RDWR else if rd then SHUT_RD else SHUT_WR)) n1
               else n1);
            let n3 = upd_sock a (\<lambda>s. s\<lparr>sk_rd_open := False, sk_wr_open := False\<rparr>) n2;
            let n4 = upd_w (os_close (ne_os E) fd) n3;
            let n5 = upd_evt a (\<lambda>e. e\<lparr>ev_fd := -1\<rparr>) n4;
            if \<not> sk_on_close (nsock n5 a) then Some n5
            else do { n6 \<leftarrow> ne_on_close E a n5;
                      Some (upd_sock a (\<lambda>s. s\<lparr>sk_on_close := False\<rparr>) n6) } } }"

definition aem_net_sock_dtor :: "'w net_env \<Rightarrow> nat \<Rightarrow> 'w netst \<Rightarrow> 'w netst option" where
  "aem_net_sock_dtor E a n =
     do { n1 \<leftarrow> aem_net_sock_close E a n; Some (upd_sock a (\<lambda>s. s\<lparr>sk_poller := False\<rparr>) n1) }"

definition aem_net_socket :: "'w net_env \<Rightarrow> nat \<Rightarrow> addrinfo \<Rightarrow> 'w netst \<Rightarrow> int \<times> 'w netst" where
  "aem_net_socket E a ai n =
     (let (fd, n1) = sys (os_socket (ne_os E) (ai_family ai) (ai_socktype ai) (ai_protocol ai)) n
      in if fd < 0 then (-1, n1)
         else let (rc1, n2) = (if ai_family ai = AF_INET6 then sys (os_setsockopt (ne_os E) fd IPV6_V6ONLY_off) n1 else (0, n1))
              in if rc1 < 0 then (-1, upd_w (os_close (ne_os E) fd) n2)
                 else let (rc2, n3) = sys (os_setsockopt (ne_os E) fd SO_REUSEADDR_on) n2
                      in if rc2 < 0 then (-1, upd_w (os_close (ne_os E) fd) n3)
                         else (0, upd_sock a (\<lambda>s. s\<lparr>sk_rd_open := False, sk_wr_open := False\<rparr>)
                                  (upd_evt a (\<lambda>e. e\<lparr>ev_fd := fd\<rparr>) n3)))"

definition aem_net_bind :: "'w net_env \<Rightarrow> nat \<Rightarrow> addrinfo \<Rightarrow> 'w netst \<Rightarrow> (int \<times> 'w netst) option" where
  "aem_net_bind E a ai n =
     (if ev_fd (nevt n a) < 0 then Some (-1, n)
      else do { addr \<leftarrow> ai_addr ai;
                let (rc, n1) = sys (os_bind (ne_os E) (ev_fd (nevt n a)) addr) n;
                Some (if rc < 0 then -1 else 0, n1) })"

definition aem_net_sock_inet ::
  "'w net_env \<Rightarrow> nat \<Rightarrow> u8 list ptr \<Rightarrow> u8 list ptr \<Rightarrow> bool \<Rightarrow> 'w netst \<Rightarrow> (int \<times> 'w netst) option" where
  "aem_net_sock_inet E a node service do_bind n =
     (let passive = (node = None);
          (res, n1) = sys (os_getaddrinfo (ne_os E) node (case service of None \<Rightarrow> cstr ''0'' | Some s \<Rightarrow> s) passive) n
      in case res of
           None \<Rightarrow> Some (-1, n1)
         | Some ai \<Rightarrow>
             let (rc, n2) = aem_net_socket E a ai n1
             in if rc < 0 then Some (-1, n2)
                else if do_bind then do { (rc1, n3) \<leftarrow> aem_net_bind E a ai n2; Some (if rc1 < 0 then -1 else 0, n3) }
                else Some (0, n2))"

text \<open>\<open>sun_path\<close> has 108 bytes, the last of which stays null.\<close>
definition sun_path :: "u8 list \<Rightarrow> u8 list" where
  "sun_path path = take 107 path"

definition aem_net_sock_path :: "'w net_env \<Rightarrow> nat \<Rightarrow> u8 list \<Rightarrow> bool \<Rightarrow> 'w netst \<Rightarrow> (int \<times> 'w netst) option" where
  "aem_net_sock_path E a path msg n =
     (let ai = \<lparr>ai_family = AF_UNIX, ai_socktype = (if msg then SOCK_SEQPACKET else SOCK_STREAM),
            ai_protocol = 0, ai_addr = None\<rparr>;
          (rc, n1) = aem_net_socket E a ai n
      in if rc < 0 then Some (-1, n1)
         else
           let name = sun_path path;
               n2 = (case os_stat (ne_os E) name (nr_w (nt_app n1)) of
                  None \<Rightarrow> Some n1
                | Some mode \<Rightarrow> if mode AND S_IFSOCK \<noteq> 0 then Some (upd_w (os_unlink (ne_os E) name) n1) else None)
           in case n2 of
                None \<Rightarrow> Some (-1, n1)
              | Some n3 \<Rightarrow> do {
                  (rc1, n4) \<leftarrow> aem_net_bind E a (ai\<lparr>ai_addr := Some (Sockaddr_un name)\<rparr>) n3;
                  Some (if rc1 < 0 then -1 else 0, n4) })"

section \<open>Connections\<close>

text \<open>Receiving into the buffer of the stream \<open>ob\<close>, again while the call is interrupted; \<open>s\<close> is the
  stream whose end is noted.\<close>
partial_function (option) net_recv_loop :: "'w net_env \<Rightarrow> nat \<Rightarrow> nat \<Rightarrow> nat \<Rightarrow> 'w netst \<Rightarrow> 'w netst option" where
  "net_recv_loop E a s ob n =
     do { (rc, b) \<leftarrow> aem_stringbuf_reserve (ne_al E) (str_buf (nt_stream n ob)) 4096;
          let (r, n1) = sys (os_recv (ne_os E) (ev_fd (nevt n a)) (c_size (aem_stringbuf_available b)))
             (upd_stream ob (\<lambda>st. st\<lparr>str_buf := b\<rparr>) n);
          (case r of
             Inr bs \<Rightarrow>
               if bs \<noteq> [] then do {
                 b1 \<leftarrow> sb_store b (sb_n b) bs;
                 Some (upd_stream ob (\<lambda>st. st\<lparr>str_buf := b1\<lparr>sb_n := sb_n b1 + length bs\<rparr>\<rparr>) n1) }
               else Some (upd_stream s (\<lambda>st. st\<lparr>str_flags := str_flags st OR AEM_STREAM_FIN\<rparr>) n1)
           | Inl e \<Rightarrow>
               if e = EAGAIN then ask_events a (\<lambda>ev. ev OR POLLIN) n1
               else if e = EINTR then net_recv_loop E a s ob n1
               else
                 let n2 = upd_stream s (\<lambda>st. st\<lparr>str_flags := str_flags st OR AEM_STREAM_FIN\<rparr>) n1
                 in Some (if e = ECONNRESET then upd_sock a (\<lambda>k. k\<lparr>sk_rd_open := False\<rparr>) n2 else n2)) }"

declare net_recv_loop.simps [code]

text \<open>After the end of the input: the receiving half is shut down and the source let go.\<close>
definition net_rx_finish :: "'w net_env \<Rightarrow> nat \<Rightarrow> 'w netst \<Rightarrow> 'w netst option" where
  "net_rx_finish E a n =
     do { let n1 = (if sk_rd_open (nsock n a)
             then upd_sock a (\<lambda>k. k\<lparr>sk_rd_open := False\<rparr>) (upd_w (os_shutdown (ne_os E) (ev_fd (nevt n a)) SHUT_RD) n)
             else n);
          n2 \<leftarrow> ask_events a (\<lambda>ev. ev AND NOT POLLIN AND NOT POLLRDHUP) n1;
          n3 \<leftarrow> aem_stream_source_detach (ne_cb E) (Some a) n2;
          if \<not> sk_rd_open (nsock n3 a) \<and> \<not> sk_wr_open (nsock n3 a) then aem_net_sock_close E a n3 else Some n3 }"

definition aem_net_on_rx :: "'w net_env \<Rightarrow> nat \<Rightarrow> 'w netst \<Rightarrow> 'w netst option" where
  "aem_net_on_rx E a n =
     do { s \<leftarrow> src_stream (nt_source n a);
          if \<not> sk_rd_open (nsock n a) then Some n
          else do {
            n1 \<leftarrow> ask_events a (\<lambda>ev. if str_flags (nt_stream n s) AND AEM_STREAM_FULL \<noteq> 0 then ev AND NOT POLLIN
                 else ev OR POLLIN) n;
            (ok, n2) \<leftarrow> aem_stream_propagate_down (ne_cb E) a None n1;
            if \<not> ok then Some n2
            else do {
              (out, n3) \<leftarrow> aem_stream_provide_begin a True n2;
              (case out of
                 None \<Rightarrow> Some n3
               | Some ob \<Rightarrow> do {
                   n4 \<leftarrow> net_recv_loop E a s ob n3;
                   n5 \<leftarrow> aem_stream_provide_end (ne_cb E) a n4;
                   if str_flags (nt_stream n5 s) AND AEM_STREAM_FIN \<noteq> 0 then net_rx_finish E a n5 else Some n5 }) } } }"

text \<open>Sending what is buffered, again while the call is interrupted; \<open>s\<close> is the stream it comes from.\<close>
partial_function (option) net_send_loop ::
  "'w net_env \<Rightarrow> nat \<Rightarrow> nat \<Rightarrow> stringslice \<Rightarrow> 'w netst \<Rightarrow> (stringslice \<times> 'w netst) option" where
  "net_send_loop E a s inp n =
     (let ((k, e), n1) = sys (os_send (ne_os E) (ev_fd (nevt n a)) (ss_bytes inp)) n
      in if k > 0 then
           let inp1 = ss_advance inp k in Some (inp1, aem_stream_sink_set_full (Some a) (aem_stringslice_ok inp1) n1)
         else if e = EAGAIN then
           Some (inp, upd_stream s (\<lambda>st. st\<lparr>str_flags := str_flags st OR AEM_STREAM_FULL\<rparr>) n1)
         else if e = EINTR then net_send_loop E a s inp n1
         else
           let n2 = upd_stream s (\<lambda>st. st\<lparr>str_flags := str_flags st OR AEM_STREAM_FIN\<rparr>) n1
           in Some (inp, if e = EPIPE \<or> e = ECONNRESET then upd_sock a (\<lambda>k. k\<lparr>sk_wr_open := False\<rparr>) n2 else n2))"

declare net_send_loop.simps [code]

text \<open>What the handler does with the input it began to consume.\<close>
definition net_tx_send ::
  "'w net_env \<Rightarrow> nat \<Rightarrow> nat \<Rightarrow> stringslice \<Rightarrow> 'w netst \<Rightarrow> (stringslice \<times> 'w netst) option" where
  "net_tx_send E a s inp n =
     (if ss_start inp = 0 then Some (inp, n)
      else if \<not> aem_stringslice_ok inp then do {
        n1 \<leftarrow> ask_events a (\<lambda>ev. ev AND NOT POLLOUT) n;
        n2 \<leftarrow> aem_stream_consume_end (ne_al E) a inp n1;
        Some (inp, n2) }
      else do {
        (inp1, n1) \<leftarrow> net_send_loop E a s inp n;
        n2 \<leftarrow> aem_stream_consume_end (ne_al E) a inp1 n1;
        n3 \<leftarrow> (if str_flags (nt_stream n2 s) AND AEM_STREAM_FULL \<noteq> 0 then ask_events a (\<lambda>ev. ev OR POLLOUT) n2
               else Some n2);
        Some (inp1, n3) })"

definition net_tx_finish :: "'w net_env \<Rightarrow> nat \<Rightarrow> 'w netst \<Rightarrow> 'w netst option" where
  "net_tx_finish E a n =
     do { let n1 = (if sk_wr_open (nsock n a)
             then upd_sock a (\<lambda>k. k\<lparr>sk_wr_open := False\<rparr>) (upd_w (os_shutdown (ne_os E) (ev_fd (nevt n a)) SHUT_WR) n)
             else n);
          n2 \<leftarrow> ask_events a (\<lambda>ev. ev AND NOT POLLOUT) n1;
          n3 \<leftarrow> aem_stream_sink_detach (Some a) n2;
          if \<not> sk_rd_open (nsock n3 a) \<and> \<not> sk_wr_open (nsock n3 a) then aem_net_sock_close E a n3 else Some n3 }"

definition aem_net_on_tx :: "'w net_env \<Rightarrow> nat \<Rightarrow> 'w netst \<Rightarrow> 'w netst option" where
  "aem_net_on_tx E a n =
     (case snk_stream (nt_sink n a) of
        None \<Rightarrow> Some n
      | Some s \<Rightarrow> do {
          (inp, n1) \<leftarrow> aem_stream_consume_begin a n;
          (inp1, n2) \<leftarrow> net_tx_send E a s inp n1;
          if str_flags (nt_stream n2 s) AND AEM_STREAM_FIN \<noteq> 0 \<and> \<not> aem_stringslice_ok inp1 then net_tx_finish E a n2
          else Some n2 })"

definition check_event :: "nat \<Rightarrow> u16 \<Rightarrow> 'w netst \<Rightarrow> bool \<times> 'w netst" where
  "check_event a bits n =
     (fst (aem_poll_event_check (nevt n a) bits) \<noteq> 0, upd_evt a (\<lambda>e. snd (aem_poll_event_check e bits)) n)"

definition finish_stream :: "nat ptr \<Rightarrow> 'w netst \<Rightarrow> 'w netst" where
  "finish_stream p n =
     (case p of None \<Rightarrow> n | Some s \<Rightarrow> upd_stream s (\<lambda>st. st\<lparr>str_flags := str_flags st OR AEM_STREAM_FIN\<rparr>) n)"

text \<open>One direction of the handler: data flows, or the event is no longer asked for.\<close>
definition conn_flow :: "'w net_env \<Rightarrow> nat \<Rightarrow> nat ptr \<Rightarrow> u16 \<Rightarrow> 'w netst \<Rightarrow> 'w netst option" where
  "conn_flow E a p which n =
     (case p of
        Some s \<Rightarrow> map_option snd (aem_stream_flow (ne_cb E) s n)
      | None \<Rightarrow> ask_events a (\<lambda>ev. ev AND NOT which) n)"

definition aem_net_on_conn :: "'w net_env \<Rightarrow> nat \<Rightarrow> 'w netst \<Rightarrow> 'w netst option" where
  "aem_net_on_conn E a n =
     (let (in1, n1) = check_event a POLLIN n;
          (out1, n2) = check_event a POLLOUT n1;
          (rdhup, n3) = check_event a POLLRDHUP n2;
          (hup, n4) = check_event a POLLHUP n3;
          n5 = (if hup then
                  let m1 = snd (check_event a POLLERR n4);
                      m2 = finish_stream (src_stream (nt_source m1 a)) m1;
                      m3 = finish_stream (snk_stream (nt_sink m2 a)) m2
                  in upd_sock a (\<lambda>k. k\<lparr>sk_wr_open := False\<rparr>) m3
                else n4)
      in do { n6 \<leftarrow> (if in1 \<or> rdhup \<or> hup then conn_flow E a (src_stream (nt_source n5 a)) POLLIN n5 else Some n5);
              if out1 \<or> hup then conn_flow E a (snk_stream (nt_sink n6 a)) POLLOUT n6 else Some n6 })"

definition aem_net_conn_init :: "nat \<Rightarrow> 'w netst \<Rightarrow> 'w netst" where
  "aem_net_conn_init a n =
     (let n1 = aem_stream_sink_init a (aem_stream_source_init a (aem_net_sock_init a n))
      in upd_sock a (\<lambda>k. k\<lparr>sk_rd_open := True, sk_wr_open := True\<rparr>)
           (upd_evt a (\<lambda>e. e\<lparr>ev_events := POLLIN OR POLLRDHUP, ev_on_event := True\<rparr>) n1))"

definition aem_net_conn_dtor :: "'w net_env \<Rightarrow> nat \<Rightarrow> 'w netst \<Rightarrow> 'w netst option" where
  "aem_net_conn_dtor E a n =
     do { let n1 = finish_stream (src_stream (nt_source n a)) n;
          let n2 = finish_stream (snk_stream (nt_sink n1 a)) n1;
          n3 \<leftarrow> aem_stream_source_dtor (ne_cb E) (Some a) n2;
          n4 \<leftarrow> aem_stream_sink_dtor (Some a) n3;
          aem_net_sock_dtor E a n4 }"

definition aem_net_connect :: "'w net_env \<Rightarrow> nat \<Rightarrow> addrinfo \<Rightarrow> 'w netst \<Rightarrow> (int \<times> 'w netst) option" where
  "aem_net_connect E a ai n =
     (if ev_fd (nevt n a) < 0 then Some (-1, n)
      else let (rc, n1) = sys (os_connect (ne_os E) (ev_fd (nevt n a)) (ai_addr ai)) n
           in if rc < 0 then Some (-1, n1) else do { n2 \<leftarrow> sock_poll_add E a n1; Some (0, n2) })"

definition aem_net_connect_inet ::
  "'w net_env \<Rightarrow> nat \<Rightarrow> u8 list ptr \<Rightarrow> u8 list \<Rightarrow> 'w netst \<Rightarrow> (int \<times> 'w netst) option" where
  "aem_net_connect_inet E a node service n =
     (let passive = (node \<noteq> None);
          (res, n1) = sys (os_getaddrinfo (ne_os E) node service passive) n
      in case res of None \<Rightarrow> Some (-1, n1) | Some ai \<Rightarrow> aem_net_connect E a ai n1)"

definition aem_net_connect_path ::
  "'w net_env \<Rightarrow> nat \<Rightarrow> u8 list \<Rightarrow> bool \<Rightarrow> 'w netst \<Rightarrow> (int \<times> 'w netst) option" where
  "aem_net_connect_path E a path msg n =
     (if ev_fd (nevt n a) < 0 then Some (-1, n)
      else aem_net_connect E a \<lparr>ai_family = AF_UNIX, ai_socktype = (if msg then SOCK_SEQPACKET else SOCK_STREAM),
             ai_protocol = 0, ai_addr = Some (Sockaddr_un (sun_path path))\<rparr> n)"

section \<open>Servers\<close>

definition aem_net_server_init :: "nat \<Rightarrow> 'w netst \<Rightarrow> 'w netst" where
  "aem_net_server_init a n = aem_net_sock_init a n"

definition aem_net_server_dtor :: "'w net_env \<Rightarrow> nat \<Rightarrow> 'w netst \<Rightarrow> 'w netst option" where
  "aem_net_server_dtor E a n = aem_net_sock_dtor E a n"

text \<open>What is done with an accepted connection. A client that leaves \<open>tx\<close> unconnected makes the code
  follow a null pointer.\<close>
definition net_accepted :: "'w net_env \<Rightarrow> nat \<Rightarrow> int \<Rightarrow> sockaddr \<Rightarrow> 'w netst \<Rightarrow> 'w netst option" where
  "net_accepted E a fd addr n =
     do { (p, n1) \<leftarrow> ne_conn_new E a addr n;
          (case p of
             None \<Rightarrow> Some (upd_w (os_close (ne_os E) fd) (upd_w (os_shutdown (ne_os E) fd SHUT_RDWR) n1))
           | Some c \<Rightarrow> do {
               let n2 = upd_sock c (\<lambda>k. k\<lparr>sk_poller := sk_poller (nsock n1 a)\<rparr>) n1;
               let n3 = upd_evt c (\<lambda>e. e\<lparr>ev_fd := fd\<rparr>) n2;
               n4 \<leftarrow> sock_poll_add E c n3;
               n5 \<leftarrow> ne_setup E c a addr n4;
               s \<leftarrow> snk_stream (nt_sink n5 c);
               map_option snd (aem_stream_flow (ne_cb E) s n5) }) }"

text \<open>The loop of \<open>aem_net_on_accept\<close>; the first result tells whether it was left by \<open>goto done\<close>.\<close>
partial_function (option) net_accept_loop :: "'w net_env \<Rightarrow> nat \<Rightarrow> 'w netst \<Rightarrow> (bool \<times> 'w netst) option" where
  "net_accept_loop E a n =
     (let (r, n1) = sys (os_accept (ne_os E) (ev_fd (nevt n a))) n
      in case r of
           Inl e \<Rightarrow> if e = EAGAIN then Some (True, n1)
                    else if e = EINTR then net_accept_loop E a n1
                    else Some (False, n1)
         | Inr (fd, addr) \<Rightarrow> do { n2 \<leftarrow> net_accepted E a fd addr n1; net_accept_loop E a n2 })"

declare net_accept_loop.simps [code]

definition aem_net_on_accept :: "'w net_env \<Rightarrow> nat \<Rightarrow> 'w netst \<Rightarrow> 'w netst option" where
  "aem_net_on_accept E a n =
     (let (in1, n1) = check_event a POLLIN n
      in do { (go_on, n2) \<leftarrow> (if in1 then net_accept_loop E a n1 else Some (True, n1));
              if \<not> go_on then Some n2
              else do {
                let (hup, n3) = check_event a POLLHUP n2;
                n4 \<leftarrow> (if hup then aem_net_sock_close E a n3 else Some n3);
                Some (snd (check_event a POLLERR n4)) } })"

definition aem_net_listen :: "'w net_env \<Rightarrow> nat \<Rightarrow> int \<Rightarrow> 'w netst \<Rightarrow> (int \<times> 'w netst) option" where
  "aem_net_listen E a backlog n =
     (let (rc, n1) = sys (os_listen (ne_os E) (ev_fd (nevt n a)) backlog) n
      in if rc < 0 then Some (-1, n1)
         else do { n2 \<leftarrow> sock_poll_add E a (upd_evt a (\<lambda>e. e\<lparr>ev_events := POLLIN, ev_on_event := True\<rparr>) n1);
                   Some (0, n2) })"

section \<open>Updates of the state\<close>

lemma net_upd_simps [simp]:
  "nt_source (upd_evt a f n) = nt_source n" "nt_sink (upd_evt a f n) = nt_sink n" "nt_stream (upd_evt a f n) = nt_stream n"
  "nt_source (upd_sock a g n) = nt_source n" "nt_sink (upd_sock a g n) = nt_sink n" "nt_stream (upd_sock a g n) = nt_stream n"
  "nt_source (upd_w h n) = nt_source n" "nt_sink (upd_w h n) = nt_sink n" "nt_stream (upd_w h n) = nt_stream n"
  "nr_ev (nt_app (upd_evt a f n)) = (nr_ev (nt_app n))(a := f (nevt n a))"
  "nr_ev (nt_app (upd_sock a g n)) = nr_ev (nt_app n)" "nr_ev (nt_app (upd_w h n)) = nr_ev (nt_app n)"
  "nr_sock (nt_app (upd_sock a g n)) = (nr_sock (nt_app n))(a := g (nsock n a))"
  "nr_sock (nt_app (upd_evt a f n)) = nr_sock (nt_app n)" "nr_sock (nt_app (upd_w h n)) = nr_sock (nt_app n)"
  "nr_poll (nt_app (upd_evt a f n)) = nr_poll (nt_app n)" "nr_poll (nt_app (upd_sock a g n)) = nr_poll (nt_app n)"
  "nr_poll (nt_app (upd_w h n)) = nr_poll (nt_app n)"
  "nr_w (nt_app (upd_w h n)) = h (nr_w (nt_app n))" "nr_w (nt_app (upd_evt a f n)) = nr_w (nt_app n)"
  "nr_w (nt_app (upd_sock a g n)) = nr_w (nt_app n)"
  by (simp_all add: upd_evt_def upd_sock_def upd_w_def)

lemma sys_eq: "sys f n = (fst (f (nr_w (nt_app n))), upd_w (\<lambda>_. snd (f (nr_w (nt_app n)))) n)"
  by (simp add: sys_def split_def)

lemma as_of_loop [simp]:
  "nt_source (of_loop l) = nt_source (lp_app l)" "nt_sink (of_loop l) = nt_sink (lp_app l)"
  "nt_stream (of_loop l) = nt_stream (lp_app l)"
  "nr_ev (nt_app (of_loop l)) = lp_ev l" "nr_poll (nt_app (of_loop l)) = lp_poll l"
  "nr_sock (nt_app (of_loop l)) = nr_sock (nt_app (lp_app l))" "nr_w (nt_app (of_loop l)) = nr_w (nt_app (lp_app l))"
  "lp_ev (as_loop n) = nr_ev (nt_app n)" "lp_poll (as_loop n) = nr_poll (nt_app n)" "lp_app (as_loop n) = n"
  by (simp_all add: as_loop_def of_loop_def)

text \<open>The invariant of the event loop does not depend on what is beside it.\<close>
definition polls_ok :: "'w netst \<Rightarrow> bool" where
  "polls_ok n \<longleftrightarrow> loop_ok (as_loop n)"

lemma loop_ok_cong:
  "lp_poll l' = lp_poll l \<Longrightarrow> lp_ev l' = lp_ev l \<Longrightarrow> loop_ok l' = loop_ok l"
  by (simp add: loop_ok_def slot_ok_def registered_at_def)

lemma polls_ok_of_loop [simp]: "polls_ok (of_loop l) = loop_ok l"
  unfolding polls_ok_def by (rule loop_ok_cong) simp_all

lemma polls_ok_cong:
  "nr_poll (nt_app n') = nr_poll (nt_app n) \<Longrightarrow> nr_ev (nt_app n') = nr_ev (nt_app n) \<Longrightarrow> polls_ok n' = polls_ok n"
  unfolding polls_ok_def by (rule loop_ok_cong) simp_all

lemma polls_ok_simps [simp]:
  "polls_ok (upd_sock a g n) = polls_ok n" "polls_ok (upd_w h n) = polls_ok n"
  "polls_ok (upd_stream s k n) = polls_ok n" "polls_ok (upd_source a' k' n) = polls_ok n" "polls_ok (upd_sink a' k'' n) = polls_ok n"
  by (rule polls_ok_cong; simp)+

text \<open>A socket that has an event loop; a closed one has no open half.\<close>
definition sock_ok :: "'w netst \<Rightarrow> nat \<Rightarrow> bool" where
  "sock_ok n x \<longleftrightarrow> sk_poller (nsock n x) \<and> -1 \<le> ev_fd (nevt n x) \<and>
     (ev_fd (nevt n x) = -1 \<longrightarrow> \<not> sk_rd_open (nsock n x) \<and> \<not> sk_wr_open (nsock n x))"

section \<open>The record of what is transferred\<close>

datatype net_io = Received int "u8 list" | Sent int "u8 list" | Shut int shut_how | Closed_fd int

text \<open>A world that records what was received, sent, shut down and closed.\<close>
definition logged :: "'w net_os \<Rightarrow> ('w \<times> net_io list) net_os" where
  "logged os =
     \<lparr>os_socket = (\<lambda>f t p (w, es). case os_socket os f t p w of (r, w') \<Rightarrow> (r, w', es)),
      os_setsockopt = (\<lambda>fd opt (w, es). case os_setsockopt os fd opt w of (r, w') \<Rightarrow> (r, w', es)),
      os_bind = (\<lambda>fd ad (w, es). case os_bind os fd ad w of (r, w') \<Rightarrow> (r, w', es)),
      os_connect = (\<lambda>fd ad (w, es). case os_connect os fd ad w of (r, w') \<Rightarrow> (r, w', es)),
      os_listen = (\<lambda>fd k (w, es). case os_listen os fd k w of (r, w') \<Rightarrow> (r, w', es)),
      os_accept = (\<lambda>fd (w, es). case os_accept os fd w of (r, w') \<Rightarrow> (r, w', es)),
      os_recv = (\<lambda>fd room (w, es). case os_recv os fd room w of (r, w') \<Rightarrow>
        (r, w', case r of Inl e \<Rightarrow> es | Inr bs \<Rightarrow> es @ [Received fd bs])),
      os_send = (\<lambda>fd bs (w, es). case os_send os fd bs w of ((k, e), w') \<Rightarrow> ((k, e), w', es @ [Sent fd (take k bs)])),
      os_shutdown = (\<lambda>fd how (w, es). (os_shutdown os fd how w, es @ [Shut fd how])),
      os_close = (\<lambda>fd (w, es). (os_close os fd w, es @ [Closed_fd fd])),
      os_getaddrinfo = (\<lambda>nd sv p (w, es). case os_getaddrinfo os nd sv p w of (r, w') \<Rightarrow> (r, w', es)),
      os_stat = (\<lambda>p (w, es). os_stat os p w),
      os_unlink = (\<lambda>p (w, es). (os_unlink os p w, es))\<rparr>"

fun received :: "int \<Rightarrow> net_io list \<Rightarrow> u8 list" where
  "received fd [] = []"
| "received fd (Received k bs # es) = (if k = fd then bs else []) @ received fd es"
| "received fd (_ # es) = received fd es"

fun sent :: "int \<Rightarrow> net_io list \<Rightarrow> u8 list" where
  "sent fd [] = []"
| "sent fd (Sent k bs # es) = (if k = fd then bs else []) @ sent fd es"
| "sent fd (_ # es) = sent fd es"

lemma transfers_append [simp]:
  "received fd (es @ es') = received fd es @ received fd es'" "sent fd (es @ es') = sent fd es @ sent fd es'"
  by (induction es rule: received.induct; simp) (induction es rule: sent.induct; simp)

abbreviation io :: "('w \<times> net_io list) netst \<Rightarrow> net_io list" where "io n \<equiv> snd (nr_w (nt_app n))"

section \<open>What leaves the streams alone\<close>

text \<open>A change that transfers no bytes, touches no stream and leaves sockets and event loop consistent;
  only the descriptors of the events in \<open>X\<close> may change.\<close>
definition quiet :: "nat set \<Rightarrow> ('w \<times> net_io list) netst \<Rightarrow> ('w \<times> net_io list) netst \<Rightarrow> bool" where
  "quiet X n n' \<longleftrightarrow> nt_source n' = nt_source n \<and> nt_sink n' = nt_sink n \<and> nt_stream n' = nt_stream n \<and>
     (\<forall>fd. received fd (io n') = received fd (io n) \<and> sent fd (io n') = sent fd (io n)) \<and>
     (polls_ok n \<longrightarrow> polls_ok n') \<and> (\<forall>x. sock_ok n x \<longrightarrow> sock_ok n' x) \<and>
     (\<forall>x. x \<notin> X \<longrightarrow> ev_fd (nevt n' x) = ev_fd (nevt n x))"

lemma quiet_refl [simp]: "quiet X n n"
  by (simp add: quiet_def)

lemma quiet_trans: "quiet X n1 n2 \<Longrightarrow> quiet X n2 n3 \<Longrightarrow> quiet X n1 n3"
  by (simp add: quiet_def)

lemma quiet_mono: "quiet X n n' \<Longrightarrow> X \<subseteq> Y \<Longrightarrow> quiet Y n n'"
  by (auto simp: quiet_def)

lemma quietD:
  assumes "quiet X n n'"
  shows "nt_source n' = nt_source n" "nt_sink n' = nt_sink n" "nt_stream n' = nt_stream n"
    "received fd (io n') = received fd (io n)" "sent fd (io n') = sent fd (io n)"
    "polls_ok n \<Longrightarrow> polls_ok n'" "sock_ok n x \<Longrightarrow> sock_ok n' x" "x \<notin> X \<Longrightarrow> ev_fd (nevt n' x) = ev_fd (nevt n x)"
  using assms by (auto simp: quiet_def)

lemma unregistered_ok:
  assumes "loop_ok l" "ev_i (lp_ev l a) = -1" "ev_i (f (lp_ev l a)) = -1"
  shows "loop_ok (upd_ev a f l)"
proof -
  let ?l = "upd_ev a f l"
  have "slot_ok ?l k" if "k < pl_n (lp_poll l)" for k
    using loop_okD(2) [OF assms(1) that] assms(2) by (auto simp: slot_ok_def)
  moreover have "\<exists>k. registered_at ?l x k" if "ev_i (lp_ev ?l x) \<noteq> -1" for x
    using that loop_okD(3) [OF assms(1), of x] assms(2,3) by (auto simp: registered_at_def split: if_splits)
  ultimately show ?thesis using loop_okD(1) [OF assms(1)] by (simp add: loop_ok_def)
qed

lemma unregistered_polls_ok:
  assumes "polls_ok n" "ev_i (nevt n a) = -1" "ev_i (f (nevt n a)) = -1"
  shows "polls_ok (upd_evt a f n)"
proof -
  have "loop_ok (upd_ev a f (as_loop n))" using assms by (intro unregistered_ok) (simp_all add: polls_ok_def)
  then show ?thesis unfolding polls_ok_def by (subst loop_ok_cong [of _ "upd_ev a f (as_loop n)"]) simp_all
qed

lemma ask_quiet:
  assumes "polls_ok n" "sk_poller (nsock n a)"
  shows "\<exists>n'. ask_events a f n = Some n' \<and> quiet {} n n' \<and> nr_sock (nt_app n') = nr_sock (nt_app n)"
proof -
  let ?f = "\<lambda>e. e\<lparr>ev_events := f (ev_events e)\<rparr>"
  define l where "l = (as_loop n)\<lparr>lp_app := upd_evt a ?f n\<rparr>"
  have l: "loop_ok l" using assms(1) loop_ok_cong [of l "as_loop n"] by (simp add: l_def polls_ok_def)
  have eq: "as_loop (upd_evt a ?f n) = upd_ev a ?f l" by (simp add: l_def as_loop_def upd_ev_def)
  obtain l' where m: "aem_poll_mod a (upd_ev a ?f l) = Some l'" "lp_app l' = upd_evt a ?f n"
      "lp_ev l' = (lp_ev l)(a := ?f (lp_ev l a))"
  proof (cases "ev_i (lp_ev l a) = -1")
    case True
    then show ?thesis using that [of "upd_ev a ?f l"] by (simp add: aem_poll_mod_def l_def)
  next
    case False
    then obtain i where "registered_at l a i" using loop_okD(3) [OF l] by blast
    show ?thesis by (rule that [OF mod_effect [OF l \<open>registered_at l a i\<close>, of ?f]]) (simp_all add: l_def)
  qed
  have "loop_ok l'"
  proof (cases "ev_i (lp_ev l a) = -1")
    case True
    then show ?thesis using m(1) unregistered_ok [OF l True, of ?f] by (simp add: aem_poll_mod_def)
  next
    case False
    then obtain i where "registered_at l a i" using loop_okD(3) [OF l] by blast
    then have "0 \<le> ev_fd (?f (lp_ev l a))" using loop_okD(2) [OF l, of i] by (auto simp: registered_at_def slot_ok_def)
    then show ?thesis using mod_keeps_ok [OF l _ _ m(1)] by simp
  qed
  then have "quiet {} n (of_loop l')" using m(2,3) by (auto simp: quiet_def sock_ok_def l_def)
  then show ?thesis using assms(2) m by (auto simp: ask_events_def sock_poll_mod_def eq)
qed

lemma shut_quiet:
  assumes "sk_rd_open (k (nsock n a)) \<longrightarrow> sk_rd_open (nsock n a)" "sk_wr_open (k (nsock n a)) \<longrightarrow> sk_wr_open (nsock n a)"
    "sk_poller (k (nsock n a)) = sk_poller (nsock n a)"
  shows "quiet {} n (upd_sock a k n)"
  using assms by (auto simp: quiet_def sock_ok_def)

lemma shutdown_quiet: "quiet {} n (upd_w (os_shutdown (logged os) fd how) n)"
  by (auto simp: quiet_def sock_ok_def logged_def split_def)

text \<open>What an environment must keep to: memory is granted, the system calls are recorded, and the client's
  \<open>on_close\<close> returns, having changed only its own memory.\<close>
definition net_env_ok :: "('w \<times> net_io list) net_env \<Rightarrow> 'w net_os \<Rightarrow> bool" where
  "net_env_ok E os \<longleftrightarrow> (\<forall>k. al_ok (ne_al E) k \<and> al_ok (ne_fa E) k \<and> al_ok (ne_ea E) k) \<and> ne_os E = logged os \<and>
     (\<forall>a n. \<exists>g. ne_on_close E a n = Some (upd_w (\<lambda>(w, es). (g w, es)) n))"

lemma sock_close_quiet:
  assumes E: "net_env_ok E os" and n: "polls_ok n" "sock_ok n a"
  shows "\<exists>n'. aem_net_sock_close E a n = Some n' \<and> quiet {a} n n' \<and> ev_fd (nevt n' a) = -1"
proof -
  have "\<exists>n1. (if ev_i (nevt n a) \<ge> 0 then sock_poll_del E a n else Some n) = Some n1 \<and> quiet {} n n1 \<and>
      nr_sock (nt_app n1) = nr_sock (nt_app n) \<and> ev_i (nevt n1 a) = -1"
  proof (cases "ev_i (nevt n a) \<ge> 0")
    case True
    have ok: "loop_ok (as_loop n)" using n(1) by (simp add: polls_ok_def)
    obtain i where r: "registered_at (as_loop n) a i" using loop_okD(3) [OF ok, of a] True by auto
    obtain l' where d: "aem_poll_del (ne_fa E) (ne_ea E) a (as_loop n) = Some (0, l')"
      using del_granted [OF ok r, of "ne_fa E" "ne_ea E"] E by (auto simp: net_env_ok_def)
    note eff = del_effect [OF ok r d]
    have "ev_fd (lp_ev l' x) = ev_fd (nevt n x)" for x
      using eff(5) [of x] eff(10) by (cases "x = a") auto
    then have "quiet {} n (of_loop l')" using eff(1,9) by (auto simp: quiet_def sock_ok_def)
    then show ?thesis using True n(2) d eff(4,9) by (simp add: sock_poll_del_def sock_ok_def)
  next
    case False
    have "loop_ok (as_loop n)" using n(1) by (simp add: polls_ok_def)
    from loop_okD(3) [OF this, of a] False show ?thesis by (auto simp: registered_at_def)
  qed
  then obtain n1 where n1: "(if ev_i (nevt n a) \<ge> 0 then sock_poll_del E a n else Some n) = Some n1" "quiet {} n n1"
      "nr_sock (nt_app n1) = nr_sock (nt_app n)" "ev_i (nevt n1 a) = -1" by blast
  have s1: "sock_ok n1 a" "polls_ok n1" using quietD(6,7) [OF n1(2)] n by blast+
  show ?thesis
  proof (cases "ev_fd (nevt n1 a) = -1")
    case True
    then show ?thesis using n1 s1 quiet_mono [OF n1(2), of "{a}"] by (auto simp: aem_net_sock_close_def sock_ok_def)
  next
    case False
    then have fd: "0 \<le> ev_fd (nevt n1 a)" using s1(1) by (simp add: sock_ok_def)
    let ?fd = "ev_fd (nevt n1 a)" and ?rd = "sk_rd_open (nsock n1 a)" and ?wr = "sk_wr_open (nsock n1 a)"
    define n2 where "n2 = (if ?rd \<or> ?wr
        then upd_w (os_shutdown (ne_os E) ?fd (if ?rd \<and> ?wr then SHUT_RDWR else if ?rd then SHUT_RD else SHUT_WR)) n1
        else n1)"
    define n5 where "n5 = upd_evt a (\<lambda>e. e\<lparr>ev_fd := -1\<rparr>)
        (upd_w (os_close (ne_os E) ?fd) (upd_sock a (\<lambda>s. s\<lparr>sk_rd_open := False, sk_wr_open := False\<rparr>) n2))"
    have os: "ne_os E = logged os" using E by (simp add: net_env_ok_def)
    have q2: "quiet {} n1 n2" using shutdown_quiet [of n1 os] by (simp add: n2_def os)
    have keep: "nr_sock (nt_app n2) = nr_sock (nt_app n1)" "nr_ev (nt_app n2) = nr_ev (nt_app n1)" by (simp_all add: n2_def)
    have "polls_ok n5" unfolding n5_def
      using quietD(6) [OF q2 s1(2)] n1(4) keep by (intro unregistered_polls_ok) simp_all
    then have q5: "quiet {a} n2 n5"
      by (auto simp: n5_def quiet_def sock_ok_def os logged_def split_def)
    obtain g where g: "ne_on_close E a n5 = Some (upd_w (\<lambda>(w, es). (g w, es)) n5)"
      using E unfolding net_env_ok_def by blast
    define n6 where "n6 = (if sk_on_close (nsock n5 a)
        then upd_sock a (\<lambda>s. s\<lparr>sk_on_close := False\<rparr>) (upd_w (\<lambda>(w, es). (g w, es)) n5) else n5)"
    have q6: "quiet {a} n5 n6" "ev_fd (nevt n6 a) = -1"
      by (auto simp: n6_def quiet_def sock_ok_def split_def n5_def)
    have "aem_net_sock_close E a n = Some n6"
      using n1(1) False fd g by (simp add: aem_net_sock_close_def n6_def n5_def n2_def Let_def)
    moreover have "quiet {a} n n6"
      using quiet_trans quiet_mono [OF n1(2)] quiet_mono [OF q2] q5 q6(1) by (metis empty_subsetI)
    ultimately show ?thesis using q6(2) by blast
  qed
qed

section \<open>Sending\<close>

text \<open>A call that is not interrupted forever.\<close>
definition ends :: "('w \<Rightarrow> 'r \<times> 'w) \<Rightarrow> ('r \<Rightarrow> bool) \<Rightarrow> bool" where
  "ends f intr \<longleftrightarrow> (\<forall>w. \<exists>k. \<not> intr (fst (f (((\<lambda>w. snd (f w)) ^^ k) w))))"

lemma ends_induct:
  assumes "ends f intr" "\<And>w. \<not> intr (fst (f w)) \<Longrightarrow> P w" "\<And>w. intr (fst (f w)) \<Longrightarrow> P (snd (f w)) \<Longrightarrow> P w"
  shows "P w"
proof -
  obtain k where "\<not> intr (fst (f (((\<lambda>w. snd (f w)) ^^ k) w)))" using assms(1) by (auto simp: ends_def)
  then show ?thesis
  proof (induction k arbitrary: w)
    case 0
    then show ?case using assms(2) by simp
  next
    case (Suc k)
    from Suc.prems have "\<not> intr (fst (f (((\<lambda>w. snd (f w)) ^^ k) (snd (f w)))))"
      by (simp only: funpow_Suc_right comp_apply not_False_eq_True)
    with Suc.IH have "P (snd (f w))" by blast
    then show ?case using assms(2,3) by blast
  qed
qed

text \<open>What the system calls promise: they are not interrupted forever, transfer no more than they are
  asked to. Both may fail in any way.\<close>
definition net_os_ok :: "'w net_os \<Rightarrow> bool" where
  "net_os_ok os \<longleftrightarrow> (\<forall>fd room. ends (os_recv os fd room) (\<lambda>r. r = Inl EINTR)) \<and>
     (\<forall>fd bs. ends (os_send os fd bs) (\<lambda>r. fst r = 0 \<and> snd r = EINTR)) \<and>
     (\<forall>fd room w bs. fst (os_recv os fd room w) = Inr bs \<longrightarrow> length bs \<le> room) \<and>
     (\<forall>fd bs w. fst (fst (os_send os fd bs w)) \<le> length bs)"

lemma flags_nonzero [simp]: "AEM_STREAM_FULL \<noteq> 0" "AEM_STREAM_FIN \<noteq> 0"
  by (simp_all add: AEM_STREAM_FULL_def AEM_STREAM_FIN_def)

text \<open>The flags after \<open>k\<close> of the bytes \<open>bs\<close> were sent. As long as some are left, the stream is full,
  or the connection has failed and the stream is finished.\<close>
definition flags_sent :: "nat \<Rightarrow> u8 list \<Rightarrow> u32 \<Rightarrow> u32 \<Rightarrow> bool" where
  "flags_sent k bs fl fl' \<longleftrightarrow> (fl AND AEM_STREAM_FIN \<noteq> 0 \<longrightarrow> fl' AND AEM_STREAM_FIN \<noteq> 0) \<and>
     (k < length bs \<longrightarrow> fl' AND AEM_STREAM_FULL \<noteq> 0 \<or>
        fl' AND AEM_STREAM_FIN \<noteq> 0 \<and> fl AND AEM_STREAM_FULL = 0)"

lemma flags_sent_cases:
  "flags_sent k bs fl (fl OR AEM_STREAM_FULL)" "flags_sent k bs fl (fl OR AEM_STREAM_FIN)"
  "\<not> k < length bs \<Longrightarrow> flags_sent k bs fl (fl AND NOT AEM_STREAM_FULL)" "\<not> k < length bs \<Longrightarrow> flags_sent k bs fl fl"
  unfolding flags_sent_def AEM_STREAM_FIN_def AEM_STREAM_FULL_def
  by (auto simp: word_ao_dist and.assoc)

definition sends :: "nat \<Rightarrow> nat \<Rightarrow> nat \<Rightarrow> u8 list \<Rightarrow> ('w \<times> net_io list) netst \<Rightarrow> ('w \<times> net_io list) netst \<Rightarrow> bool" where
  "sends b s k bs n n' \<longleftrightarrow> nt_source n' = nt_source n \<and> nt_sink n' = nt_sink n \<and>
     (\<exists>fl. nt_stream n' = (nt_stream n)(s := (nt_stream n s)\<lparr>str_flags := fl\<rparr>) \<and>
        flags_sent k bs (str_flags (nt_stream n s)) fl) \<and>
     nr_poll (nt_app n') = nr_poll (nt_app n) \<and> nr_ev (nt_app n') = nr_ev (nt_app n) \<and>
     (\<forall>x. sock_ok n x \<longrightarrow> sock_ok n' x) \<and>
     (\<forall>fd. received fd (io n') = received fd (io n) \<and>
        sent fd (io n') = sent fd (io n) @ (if fd = ev_fd (nevt n b) then take k bs else []))"

lemma send_loop:
  fixes E :: "('w \<times> net_io list) net_env"
  assumes E: "net_env_ok E os" and os: "net_os_ok os" and s: "snk_stream (nt_sink n b) = Some s" and ne: "ss_bytes inp \<noteq> []"
  shows "\<exists>k n'. net_send_loop E b s inp n = Some (ss_advance inp k, n') \<and> k \<le> length (ss_bytes inp) \<and>
    sends b s k (ss_bytes inp) n n'"
proof -
  let ?fd = "ev_fd (nevt n b)" and ?bs = "ss_bytes inp"
  have E': "ne_os E = logged os" using E by (simp add: net_env_ok_def)
  have "\<forall>m :: ('w \<times> net_io list) netst. fst (nr_w (nt_app m)) = w \<and> ev_fd (nevt m b) = ?fd \<and> snk_stream (nt_sink m b) = Some s \<longrightarrow>
      (\<exists>k n'. net_send_loop E b s inp m = Some (ss_advance inp k, n') \<and> k \<le> length ?bs \<and> sends b s k ?bs m n')" for w
  proof (rule ends_induct [where f = "os_send os ?fd ?bs" and intr = "\<lambda>r. fst r = 0 \<and> snd r = EINTR"])
    show "ends (os_send os ?fd ?bs) (\<lambda>r. fst r = 0 \<and> snd r = EINTR)" using os by (simp add: net_os_ok_def)
  next
    fix w
    obtain k e w' where r: "os_send os ?fd ?bs w = ((k, e), w')" by (metis prod.collapse)
    have k: "k \<le> length ?bs" using os r unfolding net_os_ok_def by (metis fst_conv)
    assume "\<not> (fst (fst (os_send os ?fd ?bs w)) = 0 \<and> snd (fst (os_send os ?fd ?bs w)) = EINTR)"
    then have k0: "k = 0 \<longrightarrow> e \<noteq> EINTR" using r by auto
    show "\<forall>m :: ('w \<times> net_io list) netst. fst (nr_w (nt_app m)) = w \<and> ev_fd (nevt m b) = ?fd \<and> snk_stream (nt_sink m b) = Some s \<longrightarrow>
      (\<exists>k n'. net_send_loop E b s inp m = Some (ss_advance inp k, n') \<and> k \<le> length ?bs \<and> sends b s k ?bs m n')"
    proof (intro allI impI)
      fix m :: "('w \<times> net_io list) netst"
      assume m: "fst (nr_w (nt_app m)) = w \<and> ev_fd (nevt m b) = ?fd \<and> snk_stream (nt_sink m b) = Some s"
      define m1 where "m1 = upd_w (\<lambda>_. (w', io m @ [Sent ?fd (take k ?bs)])) m"
      have call: "sys (os_send (ne_os E) (ev_fd (nevt m b)) ?bs) m = ((k, e), m1)"
        using m r by (simp add: sys_def E' logged_def split_def m1_def)
      show "\<exists>k n'. net_send_loop E b s inp m = Some (ss_advance inp k, n') \<and> k \<le> length ?bs \<and> sends b s k ?bs m n'"
      proof (cases "k = 0")
        case zero: True
        define m2 where "m2 = (if e = EAGAIN then upd_stream s (\<lambda>st. st\<lparr>str_flags := str_flags st OR AEM_STREAM_FULL\<rparr>) m1
          else if e = EPIPE \<or> e = ECONNRESET
          then upd_sock b (\<lambda>k. k\<lparr>sk_wr_open := False\<rparr>) (upd_stream s (\<lambda>st. st\<lparr>str_flags := str_flags st OR AEM_STREAM_FIN\<rparr>) m1)
          else upd_stream s (\<lambda>st. st\<lparr>str_flags := str_flags st OR AEM_STREAM_FIN\<rparr>) m1)"
        have "net_send_loop E b s inp m = Some (ss_advance inp 0, m2)"
          using call zero k0 by (subst net_send_loop.simps) (simp add: m2_def Let_def)
        moreover have "nt_stream m2 = (nt_stream m)(s := (nt_stream m s)\<lparr>str_flags :=
            (if e = EAGAIN then str_flags (nt_stream m s) OR AEM_STREAM_FULL else str_flags (nt_stream m s) OR AEM_STREAM_FIN)\<rparr>)"
          by (simp add: m2_def m1_def)
        moreover have "flags_sent 0 ?bs (str_flags (nt_stream m s))
            (if e = EAGAIN then str_flags (nt_stream m s) OR AEM_STREAM_FULL else str_flags (nt_stream m s) OR AEM_STREAM_FIN)"
          by (simp add: flags_sent_cases)
        ultimately have "net_send_loop E b s inp m = Some (ss_advance inp 0, m2) \<and> sends b s 0 ?bs m m2"
          unfolding sends_def using m zero by (auto simp: m2_def m1_def sock_ok_def)
        then show ?thesis by blast
      next
        case False
        have ok: "aem_stringslice_ok (ss_advance inp k) \<longleftrightarrow> k < length ?bs" by (simp add: ok_iff ss_advance_def not_le)
        have "net_send_loop E b s inp m =
            Some (ss_advance inp k, aem_stream_sink_set_full (Some b) (k < length ?bs) m1)"
          using call False by (subst net_send_loop.simps) (simp add: Let_def ok not_le)
        moreover have "sends b s k ?bs m (aem_stream_sink_set_full (Some b) (k < length ?bs) m1)"
          unfolding sends_def using m
          by (auto simp: m1_def aem_stream_sink_set_full_def sock_ok_def flags_sent_cases)
        ultimately show ?thesis using k by blast
      qed
    qed
  next
    fix w assume intr: "fst (fst (os_send os ?fd ?bs w)) = 0 \<and> snd (fst (os_send os ?fd ?bs w)) = EINTR"
      and IH: "\<forall>m :: ('w \<times> net_io list) netst. fst (nr_w (nt_app m)) = snd (os_send os ?fd ?bs w) \<and> ev_fd (nevt m b) = ?fd \<and>
        snk_stream (nt_sink m b) = Some s \<longrightarrow>
        (\<exists>k n'. net_send_loop E b s inp m = Some (ss_advance inp k, n') \<and> k \<le> length ?bs \<and> sends b s k ?bs m n')"
    show "\<forall>m :: ('w \<times> net_io list) netst. fst (nr_w (nt_app m)) = w \<and> ev_fd (nevt m b) = ?fd \<and> snk_stream (nt_sink m b) = Some s \<longrightarrow>
      (\<exists>k n'. net_send_loop E b s inp m = Some (ss_advance inp k, n') \<and> k \<le> length ?bs \<and> sends b s k ?bs m n')"
    proof (intro allI impI)
      fix m :: "('w \<times> net_io list) netst"
      assume m: "fst (nr_w (nt_app m)) = w \<and> ev_fd (nevt m b) = ?fd \<and> snk_stream (nt_sink m b) = Some s"
      define m1 where "m1 = upd_w (\<lambda>_. (snd (os_send os ?fd ?bs w), io m @ [Sent ?fd []])) m"
      have "sys (os_send (ne_os E) (ev_fd (nevt m b)) ?bs) m = ((0, EINTR), m1)"
        using m intr by (simp add: sys_def E' logged_def split_def m1_def prod_eq_iff)
      then have step: "net_send_loop E b s inp m = net_send_loop E b s inp m1"
        by (subst net_send_loop.simps) simp
      obtain k n' where "net_send_loop E b s inp m1 = Some (ss_advance inp k, n')" "k \<le> length ?bs" "sends b s k ?bs m1 n'"
        using IH [rule_format, of m1] m by (auto simp: m1_def)
      moreover then have "sends b s k ?bs m n'" by (simp add: sends_def m1_def sock_ok_def)
      ultimately show "\<exists>k n'. net_send_loop E b s inp m = Some (ss_advance inp k, n') \<and> k \<le> length ?bs \<and> sends b s k ?bs m n'"
        using step by auto
    qed
  qed
  then show ?thesis using s by blast
qed

text \<open>The effect of sending what a stream has buffered: \<open>k\<close> bytes are gone.\<close>
definition tx_done :: "u8 allocator \<Rightarrow> nat \<Rightarrow> nat \<Rightarrow> nat \<Rightarrow> ('w \<times> net_io list) netst \<Rightarrow> ('w \<times> net_io list) netst \<Rightarrow> bool" where
  "tx_done al b s k n n' \<longleftrightarrow> nt_source n' = nt_source n \<and> nt_sink n' = nt_sink n \<and>
     (\<exists>buf' fl. ready al buf' \<and> sb_out buf' = drop k (sb_out (buf n s)) \<and>
       nt_stream n' = (nt_stream n)(s := (nt_stream n s)\<lparr>str_buf := buf', str_flags := fl\<rparr>) \<and>
       flags_sent k (sb_out (buf n s)) (str_flags (nt_stream n s)) fl) \<and>
     k \<le> length (sb_out (buf n s)) \<and> polls_ok n' \<and> (\<forall>x. sock_ok n x \<longrightarrow> sock_ok n' x) \<and>
     (\<forall>x. ev_fd (nevt n' x) = ev_fd (nevt n x)) \<and>
     (\<forall>fd. received fd (io n') = received fd (io n) \<and>
        sent fd (io n') = sent fd (io n) @ (if fd = ev_fd (nevt n b) then take k (sb_out (buf n s)) else []))"

lemma tx_send_done:
  fixes n :: "('w \<times> net_io list) netst"
  assumes E: "net_env_ok E os" and os: "net_os_ok os" and w: "wired n a s b" and i: "idle n s"
    and b: "ready (ne_al E) (buf n s)" and n: "polls_ok n" "sock_ok n b"
  shows "\<exists>k inp n'. do { (inp, n1) \<leftarrow> aem_stream_consume_begin b n; net_tx_send E b s inp n1 } = Some (inp, n') \<and>
    ss_bytes inp = drop k (sb_out (buf n s)) \<and> tx_done (ne_al E) b s k n n'"
proof -
  let ?sl = "aem_stringslice_new_str (buf_addr (buf n s)) (buf n s)" and ?bs = "sb_out (buf n s)"
  have sl: "ss_bytes ?sl = ?bs" "ss_start ?sl = 1" "buf_addr (buf n s) = 1"
    using b by (simp_all add: aem_stringslice_new_str_def sb_out_def buf_addr_def ready_def)
  define n1 where "n1 = upd_stream s (\<lambda>st. st\<lparr>str_state := -1\<rparr>) n"
  have started: "aem_stream_consume_begin b n = Some (?sl, n1)"
    using consume_begin_wired [OF w i] by (simp add: n1_def)
  have st: "(nt_stream n s)\<lparr>str_state := 0\<rparr> = nt_stream n s" using i by (cases "nt_stream n s") (simp add: idle_def)
  have n1: "polls_ok n1" "sock_ok n1 b" using n by (simp_all add: n1_def sock_ok_def)
  show ?thesis
  proof (cases "?bs = []")
    case True
    obtain n2 where n2: "ask_events b (\<lambda>ev. ev AND NOT POLLOUT) n1 = Some n2" "quiet {} n1 n2"
      using ask_quiet [OF n1(1)] n1(2) by (auto simp: sock_ok_def)
    note q = quietD [OF n2(2)]
    have "wired n2 a s b" "str_state (nt_stream n2 s) = -1" "buf n2 s = buf n s"
      using w q(1-3) by (simp_all add: wired_def n1_def)
    then obtain b' where e: "aem_stream_consume_end (ne_al E) b ?sl n2 =
        Some (upd_stream s (\<lambda>st. st\<lparr>str_buf := b', str_state := 0\<rparr>) n2)" "ready (ne_al E) b'" "sb_out b' = ?bs"
      using consume_end_spec [of n2 a s b "ne_al E" ?sl 0] b sl by auto
    let ?n' = "upd_stream s (\<lambda>st. st\<lparr>str_buf := b', str_state := 0\<rparr>) n2"
    have "nt_stream ?n' = (nt_stream n)(s := (nt_stream n s)\<lparr>str_buf := b', str_flags := str_flags (nt_stream n s)\<rparr>)"
      using q(3) i by (cases "nt_stream n s") (auto simp: n1_def idle_def fun_eq_iff)
    moreover have "flags_sent 0 ?bs (str_flags (nt_stream n s)) (str_flags (nt_stream n s))"
      using True by (simp add: flags_sent_cases)
    moreover have "ready (ne_al E) b'" "sb_out b' = drop 0 ?bs" using e by simp_all
    ultimately have str: "\<exists>buf' fl. ready (ne_al E) buf' \<and> sb_out buf' = drop 0 ?bs \<and>
        nt_stream ?n' = (nt_stream n)(s := (nt_stream n s)\<lparr>str_buf := buf', str_flags := fl\<rparr>) \<and>
        flags_sent 0 ?bs (str_flags (nt_stream n s)) fl" by blast
    have "tx_done (ne_al E) b s 0 n ?n'"
      unfolding tx_done_def using q n n1 by (intro conjI str) (auto simp: n1_def sock_ok_def)
    then show ?thesis using started n2(1) e(1) sl True
      by (intro exI [of _ 0] exI [of _ ?sl] exI [of _ ?n']) (simp add: net_tx_send_def ok_iff)
  next
    case False
    have snk: "snk_stream (nt_sink n1 b) = Some s" using w by (simp add: wired_def n1_def)
    obtain k n2 where n2: "net_send_loop E b s ?sl n1 = Some (ss_advance ?sl k, n2)" "k \<le> length ?bs" "sends b s k ?bs n1 n2"
      using send_loop [OF E os snk, of ?sl] sl(1) False by auto
    note q = n2(3) [unfolded sends_def]
    obtain fl where fl: "nt_stream n2 = (nt_stream n1)(s := (nt_stream n1 s)\<lparr>str_flags := fl\<rparr>)"
        "flags_sent k ?bs (str_flags (nt_stream n s)) fl"
      using q by (auto simp: n1_def)
    have "wired n2 a s b" "str_state (nt_stream n2 s) = -1" "buf n2 s = buf n s"
      using w q fl(1) by (simp_all add: wired_def n1_def)
    then obtain b' where e: "aem_stream_consume_end (ne_al E) b (ss_advance ?sl k) n2 =
        Some (upd_stream s (\<lambda>st. st\<lparr>str_buf := b', str_state := 0\<rparr>) n2)" "ready (ne_al E) b'" "sb_out b' = drop k ?bs"
      using consume_end_spec [of n2 a s b "ne_al E" "ss_advance ?sl k" k] b sl by (auto simp: ss_advance_def)
    let ?n3 = "upd_stream s (\<lambda>st. st\<lparr>str_buf := b', str_state := 0\<rparr>) n2"
    have n3: "polls_ok ?n3" "sock_ok n x \<Longrightarrow> sock_ok ?n3 x" "nr_ev (nt_app ?n3) = nr_ev (nt_app n)" for x
      using n(1) q polls_ok_cong [of ?n3 n] by (simp_all add: sock_ok_def n1_def)
    have "sk_poller (nsock ?n3 b)" using n3(2) [OF n(2)] by (simp add: sock_ok_def)
    from ask_quiet [OF n3(1) this, of "\<lambda>ev. ev OR POLLOUT"] obtain m
      where m: "ask_events b (\<lambda>ev. ev OR POLLOUT) ?n3 = Some m" "quiet {} ?n3 m" by blast
    obtain n4 where n4: "(if str_flags (nt_stream ?n3 s) AND AEM_STREAM_FULL \<noteq> 0 then ask_events b (\<lambda>ev. ev OR POLLOUT) ?n3
        else Some ?n3) = Some n4" "quiet {} ?n3 n4"
    proof (cases "str_flags (nt_stream ?n3 s) AND AEM_STREAM_FULL \<noteq> 0")
      case True
      show ?thesis by (rule that [of m]) (use True m in simp_all)
    next
      case False
      show ?thesis by (rule that [of ?n3]) (use False in simp_all)
    qed
    note q4 = quietD [OF n4(2)]
    have "nt_stream n4 = (nt_stream n)(s := (nt_stream n s)\<lparr>str_buf := b', str_flags := fl\<rparr>)"
      using fl(1) q4(3) i by (cases "nt_stream n s") (auto simp: n1_def idle_def fun_eq_iff)
    then have str: "\<exists>buf' fl. ready (ne_al E) buf' \<and> sb_out buf' = drop k ?bs \<and>
        nt_stream n4 = (nt_stream n)(s := (nt_stream n s)\<lparr>str_buf := buf', str_flags := fl\<rparr>) \<and>
        flags_sent k ?bs (str_flags (nt_stream n s)) fl" using e(2,3) fl(2) by blast
    have "tx_done (ne_al E) b s k n n4"
      unfolding tx_done_def using q q4 n3 n2(2) by (intro conjI str) (auto simp: n1_def)
    then show ?thesis using started n2(1) e(1) sl False n4(1)
      by (intro exI [of _ k] exI [of _ "ss_advance ?sl k"] exI [of _ n4])
        (simp add: net_tx_send_def ok_iff ss_advance_def)
  qed
qed

text \<open>The sink of \<open>s\<close> has been let go.\<close>
definition tx_left :: "nat \<Rightarrow> nat \<Rightarrow> ('w \<times> net_io list) netst \<Rightarrow> ('w \<times> net_io list) netst \<Rightarrow> bool" where
  "tx_left b s n n' \<longleftrightarrow> nt_source n' = nt_source n \<and>
     nt_sink n' = (nt_sink n)(b := (nt_sink n b)\<lparr>snk_stream := None\<rparr>) \<and>
     nt_stream n' = (nt_stream n)(s := (nt_stream n s)\<lparr>str_flags := str_flags (nt_stream n s) OR AEM_STREAM_FIN, str_sink := None\<rparr>) \<and>
     polls_ok n' \<and> (\<forall>x. sock_ok n x \<longrightarrow> sock_ok n' x) \<and>
     (\<forall>x. ev_fd (nevt n' x) = ev_fd (nevt n x) \<or> ev_fd (nevt n' x) = -1) \<and>
     (\<forall>fd. received fd (io n') = received fd (io n) \<and> sent fd (io n') = sent fd (io n))"

lemma sink_detach_effect:
  assumes "snk_stream (nt_sink n b) = Some s" "str_sink (nt_stream n s) = Some b" "str_state (nt_stream n s) = 0"
  shows "\<exists>n'. aem_stream_sink_detach (Some b) n = Some n' \<and> nt_source n' = nt_source n \<and>
    nt_sink n' = (nt_sink n)(b := (nt_sink n b)\<lparr>snk_stream := None\<rparr>) \<and>
    nt_stream n' = (nt_stream n)(s := (nt_stream n s)\<lparr>str_flags := str_flags (nt_stream n s) OR AEM_STREAM_FIN, str_sink := None\<rparr>) \<and>
    nt_app n' = nt_app n"
  using assms by (cases "str_source (nt_stream n s)") (simp_all add: aem_stream_sink_detach_def aem_stream_free_def Let_def)

lemma tx_finish_effect:
  fixes n :: "('w \<times> net_io list) netst"
  assumes E: "net_env_ok E os" and n: "polls_ok n" "sock_ok n b"
    and s: "snk_stream (nt_sink n b) = Some s" "str_sink (nt_stream n s) = Some b" "str_state (nt_stream n s) = 0"
  shows "\<exists>n'. net_tx_finish E b n = Some n' \<and> tx_left b s n n'"
proof -
  have os: "ne_os E = logged os" using E by (simp add: net_env_ok_def)
  define n1 where "n1 = (if sk_wr_open (nsock n b)
      then upd_sock b (\<lambda>k. k\<lparr>sk_wr_open := False\<rparr>) (upd_w (os_shutdown (ne_os E) (ev_fd (nevt n b)) SHUT_WR) n) else n)"
  have q1: "quiet {} n n1"
  proof (cases "sk_wr_open (nsock n b)")
    case True
    have "quiet {} (upd_w (os_shutdown (ne_os E) (ev_fd (nevt n b)) SHUT_WR) n) n1"
      unfolding n1_def if_P [OF True] by (rule shut_quiet) simp_all
    then show ?thesis using quiet_trans [OF shutdown_quiet] os by metis
  next
    case False
    then show ?thesis by (simp add: n1_def)
  qed
  have n1: "polls_ok n1" "sk_poller (nsock n1 b)" using quietD(6,7) [OF q1] n by (auto simp: sock_ok_def)
  from ask_quiet [OF n1] obtain n2
    where n2: "ask_events b (\<lambda>ev. ev AND NOT POLLOUT) n1 = Some n2" "quiet {} n1 n2" by blast
  have q2: "quiet {} n n2" by (rule quiet_trans [OF q1 n2(2)])
  have s2: "snk_stream (nt_sink n2 b) = Some s" "str_sink (nt_stream n2 s) = Some b" "str_state (nt_stream n2 s) = 0"
    using s quietD(2,3) [OF q2] by simp_all
  obtain n3 where n3: "aem_stream_sink_detach (Some b) n2 = Some n3" "nt_source n3 = nt_source n2"
      "nt_sink n3 = (nt_sink n2)(b := (nt_sink n2 b)\<lparr>snk_stream := None\<rparr>)"
      "nt_stream n3 = (nt_stream n2)(s := (nt_stream n2 s)\<lparr>str_flags := str_flags (nt_stream n2 s) OR AEM_STREAM_FIN, str_sink := None\<rparr>)"
      "nt_app n3 = nt_app n2"
    using sink_detach_effect [OF s2] by blast
  have ok3: "polls_ok n3" "sock_ok n3 x = sock_ok n2 x" "ev_fd (nevt n3 x) = ev_fd (nevt n2 x)" "io n3 = io n2" for x
    using quietD(6) [OF q2 n(1)] polls_ok_cong [of n3 n2] n3(5) by (simp_all add: sock_ok_def)
  have l3: "tx_left b s n n3"
    using n3 ok3 quietD [OF q2] unfolding tx_left_def by simp
  show ?thesis
  proof (cases "\<not> sk_rd_open (nsock n3 b) \<and> \<not> sk_wr_open (nsock n3 b)")
    case True
    have "sock_ok n3 b" using ok3(2) quietD(7) [OF q2 n(2)] by simp
    then obtain n4 where n4: "aem_net_sock_close E b n3 = Some n4" "quiet {b} n3 n4" "ev_fd (nevt n4 b) = -1"
      using sock_close_quiet [OF E ok3(1)] by blast
    have "ev_fd (nevt n4 x) = ev_fd (nevt n x) \<or> ev_fd (nevt n4 x) = -1" for x
      using quietD(8) [OF n4(2), of x] n4(3) l3 by (cases "x = b") (auto simp: tx_left_def)
    then have "tx_left b s n n4"
      using l3 quietD(1-7) [OF n4(2)] unfolding tx_left_def by simp
    then show ?thesis using n2(1) n3(1) n4(1) True by (simp add: net_tx_finish_def n1_def Let_def)
  next
    case False
    then show ?thesis using n2(1) n3(1) l3 by (auto simp: net_tx_finish_def n1_def Let_def)
  qed
qed

text \<open>The handler of a sink: it sends \<open>k\<close> of the bytes that are buffered, and lets go of the stream when
  it has sent the last of a finished one.\<close>

lemma on_tx_effect:
  fixes n :: "('w \<times> net_io list) netst"
  assumes E: "net_env_ok E os" and os: "net_os_ok os" and w: "wired n a s b" and i: "idle n s"
    and b: "ready (ne_al E) (buf n s)" and n: "polls_ok n" "sock_ok n b"
  shows "\<exists>k m. tx_done (ne_al E) b s k n m \<and>
    (if str_flags (nt_stream m s) AND AEM_STREAM_FIN \<noteq> 0 \<and> sb_out (buf m s) = []
     then \<exists>n'. aem_net_on_tx E b n = Some n' \<and> tx_left b s m n'
     else aem_net_on_tx E b n = Some m)"
proof -
  have s: "snk_stream (nt_sink n b) = Some s" using w by (simp add: wired_def)
  obtain k inp m where m: "do { (inp, n1) \<leftarrow> aem_stream_consume_begin b n; net_tx_send E b s inp n1 } = Some (inp, m)"
      "ss_bytes inp = drop k (sb_out (buf n s))" "tx_done (ne_al E) b s k n m"
    using tx_send_done [OF assms] by blast
  have left: "ss_bytes inp = sb_out (buf m s)" using m(2,3) by (auto simp: tx_done_def)
  have eq: "aem_net_on_tx E b n =
      (if str_flags (nt_stream m s) AND AEM_STREAM_FIN \<noteq> 0 \<and> sb_out (buf m s) = []
       then net_tx_finish E b m else Some m)"
  proof -
    obtain n1 inp0 where "aem_stream_consume_begin b n = Some (inp0, n1)" "net_tx_send E b s inp0 n1 = Some (inp, m)"
      using m(1) by (auto simp: bind_eq_Some_conv)
    then show ?thesis using left by (simp add: aem_net_on_tx_def s ok_iff)
  qed
  show ?thesis
  proof (cases "str_flags (nt_stream m s) AND AEM_STREAM_FIN \<noteq> 0 \<and> sb_out (buf m s) = []")
    case True
    have "\<exists>n'. net_tx_finish E b m = Some n' \<and> tx_left b s m n'"
      by (rule tx_finish_effect [OF E]) (use m(3) w i n in \<open>auto simp: tx_done_def wired_def idle_def\<close>)
    then show ?thesis using eq m(3) True by auto
  next
    case False
    then show ?thesis using eq m(3) by auto
  qed
qed

section \<open>Receiving\<close>

text \<open>\<open>bs\<close> arrived for the stream \<open>s\<close>; \<open>fin\<close> tells whether the input has ended.\<close>
definition rx_done :: "u8 allocator \<Rightarrow> nat \<Rightarrow> nat \<Rightarrow> u8 list \<Rightarrow> bool \<Rightarrow> ('w \<times> net_io list) netst \<Rightarrow> ('w \<times> net_io list) netst \<Rightarrow> bool" where
  "rx_done al a s bs fin n n' \<longleftrightarrow> nt_source n' = nt_source n \<and> nt_sink n' = nt_sink n \<and>
     (\<exists>buf'. ready al buf' \<and> sb_out buf' = sb_out (buf n s) @ bs \<and>
       nt_stream n' = (nt_stream n)(s := (nt_stream n s)\<lparr>str_buf := buf',
         str_flags := (if fin then str_flags (nt_stream n s) OR AEM_STREAM_FIN else str_flags (nt_stream n s))\<rparr>)) \<and>
     polls_ok n' \<and> (\<forall>x. sock_ok n x \<longrightarrow> sock_ok n' x) \<and> (\<forall>x. ev_fd (nevt n' x) = ev_fd (nevt n x)) \<and>
     (\<forall>fd. sent fd (io n') = sent fd (io n) \<and>
        received fd (io n') = received fd (io n) @ (if fd = ev_fd (nevt n a) then bs else []))"

lemma rx_done_from:
  assumes "nt_source m = nt_source n" "nt_sink m = nt_sink n" "nr_ev (nt_app m) = nr_ev (nt_app n)"
    "nr_sock (nt_app m) = nr_sock (nt_app n)" "io m = io n" "sb_out b' = sb_out (buf n s)"
    "nt_stream m = (nt_stream n)(s := (nt_stream n s)\<lparr>str_buf := b'\<rparr>)"
  shows "rx_done al a s bs fin m n' = rx_done al a s bs fin n n'"
  unfolding rx_done_def sock_ok_def assms by (simp add: assms(6))

lemma reserve_ready:
  assumes "sb_ready al b" "sb_n b + 4096 \<le> 2 ^ 24"
  shows "\<exists>rc b'. aem_stringbuf_reserve al b 4096 = Some (rc, b') \<and> ready al b' \<and> sb_out b' = sb_out b \<and>
    sb_n b' = sb_n b \<and> sb_n b + 4096 < sb_maxn b'"
proof -
  have b: "sb_inv b" "sb_free al b" "sb_maxn b \<le> 2 ^ 26" using assms(1) by (simp_all add: sb_ready_def)
  obtain rc b' where r: "aem_stringbuf_reserve al b 4096 = Some (rc, b')" "sb_inv b'" "sb_n b' = sb_n b" "sb_out b' = sb_out b"
      "sb_bad b' \<or> sb_n b + 4096 < sb_maxn b'"
    using sb_reserve_spec [OF b(1), of 4096 al] by auto
  have free: "sb_free al b'" using sb_reserve_granted [OF b(1,2) _ r(1)] assms(2) by simp
  then have room: "sb_n b + 4096 < sb_maxn b'" using r(5) by (simp add: sb_free_def)
  have "sb_maxn b' \<le> 2 ^ 26" using reserve_maxn [OF r(1)] assms(2) b(3) by simp
  moreover have "sb_s b' \<noteq> []" using r(2) room by (auto simp: sb_inv_def)
  ultimately show ?thesis using r free room by (auto simp: ready_def sb_ready_def)
qed

lemma store_ready:
  assumes "ready al b" "sb_n b + length w < sb_maxn b"
  shows "\<exists>b'. sb_store b (sb_n b) w = Some b' \<and> ready al (b'\<lparr>sb_n := sb_n b' + length w\<rparr>) \<and>
    sb_out (b'\<lparr>sb_n := sb_n b' + length w\<rparr>) = sb_out b @ w"
proof -
  have b: "sb_inv b" "sb_free al b" "sb_maxn b \<le> 2 ^ 26" "sb_s b \<noteq> []" using assms(1) by (simp_all add: ready_def sb_ready_def)
  obtain b' where s: "sb_store b (sb_n b) w = Some b'" "sb_inv (b'\<lparr>sb_n := sb_n b' + length w\<rparr>)"
      "sb_out (b'\<lparr>sb_n := sb_n b' + length w\<rparr>) = sb_out b @ w"
    using sb_store_append [OF b(1) assms(2)] by blast
  then show ?thesis using b by (auto simp: ready_def sb_ready_def sb_free_def sb_store_def split: if_splits)
qed

lemma recv_loop_once:
  fixes n :: "('w \<times> net_io list) netst"
  assumes E: "net_env_ok E os" and os: "net_os_ok os" and n: "polls_ok n" "sock_ok n a"
    and b: "ready (ne_al E) (buf n s)" "sb_n (buf n s) + 4096 < sb_maxn (buf n s)"
    and r: "os_recv os (ev_fd (nevt n a)) (c_size (aem_stringbuf_available (buf n s))) (fst (nr_w (nt_app n))) = (r, w')"
    and go: "r \<noteq> Inl EINTR"
  shows "\<exists>bs fin n'. net_recv_loop E a s s n = Some n' \<and> rx_done (ne_al E) a s bs fin n n'"
proof -
  let ?b = "buf n s" and ?fd = "ev_fd (nevt n a)"
  let ?room = "c_size (aem_stringbuf_available ?b)"
  have E': "ne_os E = logged os" using E by (simp add: net_env_ok_def)
  have inv: "sb_inv ?b" "sb_maxn ?b \<le> 2 ^ 26" using b(1) by (simp_all add: ready_def sb_ready_def)
  have res: "aem_stringbuf_reserve (ne_al E) ?b 4096 = Some (0, ?b)" by (rule reserve_room [OF inv(1) b(2)])
  have same: "upd_stream s (\<lambda>st. st\<lparr>str_buf := ?b\<rparr>) n = n" by (simp add: upd_stream_def)
  have avail: "aem_stringbuf_available ?b = int (sb_maxn ?b - sb_n ?b - 1)"
    using available_exact [OF inv(1)] inv(2) b(2) by simp
  have room: "?room = sb_maxn ?b - sb_n ?b - 1" unfolding avail using inv(2) by (intro c_size_int) simp
  define n1 where "n1 = upd_w (\<lambda>_. (w', case r of Inl e \<Rightarrow> io n | Inr bs \<Rightarrow> io n @ [Received ?fd bs])) n"
  have call: "sys (os_recv (ne_os E) ?fd ?room) n = (r, n1)"
    using r by (simp add: sys_def E' logged_def split_def n1_def)
  have n1: "polls_ok n1" "sk_poller (nsock n1 a)" using n by (simp_all add: n1_def sock_ok_def)
  show ?thesis
  proof (cases r)
    case (Inl e)
    show ?thesis
    proof (cases "e = EAGAIN")
      case True
      from ask_quiet [OF n1] obtain n2 where n2: "ask_events a (\<lambda>ev. ev OR POLLIN) n1 = Some n2" "quiet {} n1 n2" by blast
      have "net_recv_loop E a s s n = Some n2"
        using res call Inl True n2(1) by (subst net_recv_loop.simps) (simp add: same)
      moreover have "rx_done (ne_al E) a s [] False n n2"
        using quietD [OF n2(2)] n1(1) b(1) Inl by (auto simp: rx_done_def n1_def sock_ok_def intro!: exI [of _ ?b])
      ultimately show ?thesis by blast
    next
      case False
      define n2 where "n2 = upd_stream s (\<lambda>st. st\<lparr>str_flags := str_flags st OR AEM_STREAM_FIN\<rparr>) n1"
      define n3 where "n3 = (if e = ECONNRESET then upd_sock a (\<lambda>k. k\<lparr>sk_rd_open := False\<rparr>) n2 else n2)"
      have "net_recv_loop E a s s n = Some n3"
        using res call Inl False go by (subst net_recv_loop.simps) (simp add: same n3_def n2_def Let_def)
      moreover have "rx_done (ne_al E) a s [] True n n3"
        using n1(1) b(1) Inl by (auto simp: rx_done_def n1_def n2_def n3_def sock_ok_def intro!: exI [of _ ?b])
      ultimately show ?thesis by blast
    qed
  next
    case (Inr bs)
    have le: "length bs \<le> ?room" using os r Inr unfolding net_os_ok_def by (metis fst_conv)
    show ?thesis
    proof (cases "bs = []")
      case True
      define n2 where "n2 = upd_stream s (\<lambda>st. st\<lparr>str_flags := str_flags st OR AEM_STREAM_FIN\<rparr>) n1"
      have "net_recv_loop E a s s n = Some n2"
        using res call Inr True by (subst net_recv_loop.simps) (simp add: same n2_def)
      moreover have "rx_done (ne_al E) a s [] True n n2"
        using n1(1) b(1) Inr True by (auto simp: rx_done_def n1_def n2_def sock_ok_def intro!: exI [of _ ?b])
      ultimately show ?thesis by blast
    next
      case False
      have "sb_n ?b + length bs < sb_maxn ?b" using le room b(2) by simp
      then obtain b1 where b1: "sb_store ?b (sb_n ?b) bs = Some b1" "ready (ne_al E) (b1\<lparr>sb_n := sb_n b1 + length bs\<rparr>)"
          "sb_out (b1\<lparr>sb_n := sb_n b1 + length bs\<rparr>) = sb_out ?b @ bs"
        using store_ready [OF b(1)] by blast
      define n2 where "n2 = upd_stream s (\<lambda>st. st\<lparr>str_buf := b1\<lparr>sb_n := sb_n b1 + length bs\<rparr>\<rparr>) n1"
      have "net_recv_loop E a s s n = Some n2"
        using res call Inr False b1(1) by (subst net_recv_loop.simps) (simp add: same n2_def)
      moreover have "rx_done (ne_al E) a s bs False n n2"
        using n1(1) b1(2,3) Inr by (auto simp: rx_done_def n1_def n2_def sock_ok_def)
      ultimately show ?thesis by blast
    qed
  qed
qed


lemma recv_loop:
  fixes n :: "('w \<times> net_io list) netst"
  assumes E: "net_env_ok E os" and os: "net_os_ok os" and n: "polls_ok n" "sock_ok n a"
    and b: "sb_ready (ne_al E) (buf n s)" "sb_n (buf n s) + 4096 \<le> 2 ^ 24"
  shows "\<exists>bs fin n'. net_recv_loop E a s s n = Some n' \<and> rx_done (ne_al E) a s bs fin n n'"
proof -
  let ?fd = "ev_fd (nevt n a)"
  obtain rc b' where r: "aem_stringbuf_reserve (ne_al E) (buf n s) 4096 = Some (rc, b')" "ready (ne_al E) b'"
      "sb_out b' = sb_out (buf n s)" "sb_n b' = sb_n (buf n s)" "sb_n (buf n s) + 4096 < sb_maxn b'"
    using reserve_ready [OF b] by blast
  let ?room = "c_size (aem_stringbuf_available b')"
  have again: "aem_stringbuf_reserve (ne_al E) b' 4096 = Some (0, b')"
    using r(2,4,5) by (intro reserve_room) (auto simp: ready_def sb_ready_def)
  have E': "ne_os E = logged os" using E by (simp add: net_env_ok_def)
  have loop: "\<forall>m :: ('w \<times> net_io list) netst. fst (nr_w (nt_app m)) = w \<and> ev_fd (nevt m a) = ?fd \<and> buf m s = b' \<and>
      polls_ok m \<and> sock_ok m a \<longrightarrow> (\<exists>bs fin n'. net_recv_loop E a s s m = Some n' \<and> rx_done (ne_al E) a s bs fin m n')" for w
  proof (rule ends_induct [where f = "os_recv os ?fd ?room" and intr = "\<lambda>r. r = Inl EINTR"])
    show "ends (os_recv os ?fd ?room) (\<lambda>r. r = Inl EINTR)" using os by (simp add: net_os_ok_def)
  next
    fix w assume go: "fst (os_recv os ?fd ?room w) \<noteq> Inl EINTR"
    show "\<forall>m :: ('w \<times> net_io list) netst. fst (nr_w (nt_app m)) = w \<and> ev_fd (nevt m a) = ?fd \<and> buf m s = b' \<and>
      polls_ok m \<and> sock_ok m a \<longrightarrow> (\<exists>bs fin n'. net_recv_loop E a s s m = Some n' \<and> rx_done (ne_al E) a s bs fin m n')"
      using recv_loop_once [OF E os _ _ _ _ prod.collapse [symmetric]] r(2,4,5) go by auto
  next
    fix w assume intr: "fst (os_recv os ?fd ?room w) = Inl EINTR"
      and IH: "\<forall>m :: ('w \<times> net_io list) netst. fst (nr_w (nt_app m)) = snd (os_recv os ?fd ?room w) \<and> ev_fd (nevt m a) = ?fd \<and>
        buf m s = b' \<and> polls_ok m \<and> sock_ok m a \<longrightarrow>
        (\<exists>bs fin n'. net_recv_loop E a s s m = Some n' \<and> rx_done (ne_al E) a s bs fin m n')"
    show "\<forall>m :: ('w \<times> net_io list) netst. fst (nr_w (nt_app m)) = w \<and> ev_fd (nevt m a) = ?fd \<and> buf m s = b' \<and>
      polls_ok m \<and> sock_ok m a \<longrightarrow> (\<exists>bs fin n'. net_recv_loop E a s s m = Some n' \<and> rx_done (ne_al E) a s bs fin m n')"
    proof (intro allI impI)
      fix m :: "('w \<times> net_io list) netst"
      assume m: "fst (nr_w (nt_app m)) = w \<and> ev_fd (nevt m a) = ?fd \<and> buf m s = b' \<and> polls_ok m \<and> sock_ok m a"
      have same: "upd_stream s (\<lambda>st. st\<lparr>str_buf := b'\<rparr>) m = m" using m by (auto simp: upd_stream_def)
      define m1 where "m1 = upd_w (\<lambda>_. (snd (os_recv os ?fd ?room w), io m)) m"
      have "sys (os_recv (ne_os E) (ev_fd (nevt m a)) ?room) m = (Inl EINTR, m1)"
        using m intr by (simp add: sys_def E' logged_def split_def m1_def)
      then have step: "net_recv_loop E a s s m = net_recv_loop E a s s m1"
        using m again same by (subst net_recv_loop.simps) simp
      obtain bs fin n' where "net_recv_loop E a s s m1 = Some n'" "rx_done (ne_al E) a s bs fin m1 n'"
        using IH [rule_format, of m1] m by (auto simp: m1_def sock_ok_def)
      moreover have "rx_done (ne_al E) a s bs fin m1 n' = rx_done (ne_al E) a s bs fin m n'"
        by (rule rx_done_from [of _ _ b']) (use m in \<open>auto simp: m1_def\<close>)
      ultimately show "\<exists>bs fin n'. net_recv_loop E a s s m = Some n' \<and> rx_done (ne_al E) a s bs fin m n'"
        using step by auto
    qed
  qed
  let ?m = "upd_stream s (\<lambda>st. st\<lparr>str_buf := b'\<rparr>) n"
  have "net_recv_loop E a s s n = net_recv_loop E a s s ?m"
    using r(1) again by (subst (1 2) net_recv_loop.simps) (simp add: upd_stream_def)
  moreover obtain bs fin n' where "net_recv_loop E a s s ?m = Some n'" "rx_done (ne_al E) a s bs fin ?m n'"
    using loop [rule_format, of ?m "fst (nr_w (nt_app ?m))"] n by (auto simp: sock_ok_def)
  moreover have "rx_done (ne_al E) a s bs fin ?m n' = rx_done (ne_al E) a s bs fin n n'"
    by (rule rx_done_from [of _ _ b']) (simp_all add: r(3))
  ultimately show ?thesis by auto
qed

section \<open>Relaying\<close>

lemma consume_wired:
  "wired n a s b \<Longrightarrow> aem_stream_consume cb s n = map_option (Pair 0) (cb_consume cb b n)"
  by (cases "cb_consume cb b n") (simp_all add: aem_stream_consume_def wired_def)

text \<open>From \<open>n\<close> to \<open>n'\<close>, bytes \<open>bs\<close> were received for the stream \<open>s\<close>, and what was sent and what is
  buffered is what it was and \<open>bs\<close>.\<close>
definition moved :: "int \<Rightarrow> int \<Rightarrow> nat \<Rightarrow> u8 list \<Rightarrow> ('w \<times> net_io list) netst \<Rightarrow> ('w \<times> net_io list) netst \<Rightarrow> bool" where
  "moved fa fb s bs n n' \<longleftrightarrow> received fa (io n') = received fa (io n) @ bs \<and>
     sent fb (io n') @ sb_out (buf n' s) = sent fb (io n) @ sb_out (buf n s) @ bs"

lemma moved_refl: "moved fa fb s [] n n"
  by (simp add: moved_def)

lemma moved_trans: "moved fa fb s bs n1 n2 \<Longrightarrow> moved fa fb s bs' n2 n3 \<Longrightarrow> moved fa fb s (bs @ bs') n1 n3"
  by (simp add: moved_def)

lemma moved_quiet: "quiet X n n' \<Longrightarrow> moved fa fb s [] n n'"
  by (simp add: moved_def quiet_def)

text \<open>Whether a stream has let go of its sink, or is still connected to \<open>b\<close>.\<close>
definition tail_ok :: "u8 allocator \<Rightarrow> ('w \<times> net_io list) netst \<Rightarrow> nat \<Rightarrow> nat \<Rightarrow> nat \<Rightarrow> int \<Rightarrow> bool" where
  "tail_ok al n a s b fb \<longleftrightarrow> src_stream (nt_source n a) = Some s \<and> str_source (nt_stream n s) = Some a \<and> idle n s \<and>
     polls_ok n \<and> sock_ok n a \<and> sock_ok n b \<and>
     (str_sink (nt_stream n s) = None \<or> wired n a s b \<and> ready al (buf n s) \<and> ev_fd (nevt n b) = fb)"

lemma source_detach_effect:
  fixes n :: "('w \<times> net_io list) netst"
  assumes E: "net_env_ok E' os" and os: "net_os_ok os" and cb: "cb_consume cb = aem_net_on_tx E'"
    and t: "tail_ok (ne_al E') n a s b fb"
  shows "\<exists>n'. aem_stream_source_detach cb (Some a) n = Some n' \<and> src_stream (nt_source n' a) = None \<and>
    polls_ok n' \<and> sock_ok n' a \<and> sock_ok n' b \<and> moved fa fb s [] n n'"
proof -
  note src = t [unfolded tail_ok_def idle_def]
  define n1 where "n1 = upd_stream s (\<lambda>st. st\<lparr>str_flags := AEM_STREAM_FIN\<rparr>) n"
  have end_: "\<exists>n'. do { n2 \<leftarrow> Some m;
      if str_state (nt_stream n2 s) \<noteq> 0 then None
      else let n3 = upd_stream s (\<lambda>st. st\<lparr>str_source := None\<rparr>) n2;
               n4 = upd_source a (\<lambda>x. x\<lparr>src_stream := None\<rparr>) n3
           in if str_sink (nt_stream n4 s) = None then aem_stream_free s n4 else Some n4 } = Some n' \<and>
      src_stream (nt_source n' a) = None \<and> polls_ok n' \<and> sock_ok n' a \<and> sock_ok n' b \<and> moved fa fb s [] n n'"
    if m: "str_state (nt_stream m s) = 0" "polls_ok m" "sock_ok m a" "sock_ok m b" "moved fa fb s [] n m" for m
  proof -
    let ?n4 = "upd_source a (\<lambda>x. x\<lparr>src_stream := None\<rparr>) (upd_stream s (\<lambda>st. st\<lparr>str_source := None\<rparr>) m)"
    have ok: "polls_ok ?n4" "sock_ok ?n4 a" "sock_ok ?n4 b" "moved fa fb s [] n ?n4"
      using m by (simp_all add: sock_ok_def moved_def)
    show ?thesis
    proof (cases "str_sink (nt_stream m s)")
      case None
      let ?n5 = "?n4\<lparr>nt_rcu := nt_rcu ?n4 @ [s]\<rparr>"
      have "polls_ok ?n5" using ok(1) polls_ok_cong [of ?n5 ?n4] by simp
      moreover have "sock_ok ?n5 a" "sock_ok ?n5 b" "moved fa fb s [] n ?n5"
        using ok(2-4) by (simp_all add: sock_ok_def moved_def)
      ultimately show ?thesis using None m(1) by (simp add: aem_stream_free_def)
    next
      case (Some x)
      then show ?thesis using ok m(1) by (simp add: Let_def)
    qed
  qed
  show ?thesis
  proof (cases "str_sink (nt_stream n s)")
    case None
    have "moved fa fb s [] n n1" by (simp add: moved_def n1_def)
    then show ?thesis using end_ [of n1] src None
      by (simp add: aem_stream_source_detach_def n1_def sock_ok_def)
  next
    case (Some x)
    then have w: "wired n a s b" "ready (ne_al E') (buf n s)" "ev_fd (nevt n b) = fb" using src by auto
    have w1: "wired n1 a s b" "idle n1 s" "ready (ne_al E') (buf n1 s)" "polls_ok n1" "sock_ok n1 b"
      using w src by (simp_all add: n1_def wired_def idle_def sock_ok_def)
    obtain k m where m: "tx_done (ne_al E') b s k n1 m"
      "if str_flags (nt_stream m s) AND AEM_STREAM_FIN \<noteq> 0 \<and> sb_out (buf m s) = []
       then \<exists>n'. aem_net_on_tx E' b n1 = Some n' \<and> tx_left b s m n' else aem_net_on_tx E' b n1 = Some m"
      using on_tx_effect [OF E os w1] by blast
    have "\<exists>n2. aem_net_on_tx E' b n1 = Some n2 \<and> str_state (nt_stream n2 s) = 0 \<and> polls_ok n2 \<and> sock_ok n2 a \<and>
        sock_ok n2 b \<and> moved fa fb s [] n n2"
    proof -
      have d: "str_state (nt_stream m s) = 0" "polls_ok m" "sock_ok m a" "sock_ok m b" "moved fa fb s [] n m"
        using m(1) src w by (auto simp: tx_done_def n1_def moved_def sock_ok_def)
      show ?thesis
      proof (cases "aem_net_on_tx E' b n1 = Some m")
        case True
        then show ?thesis using d by blast
      next
        case False
        then obtain n2 where n2: "aem_net_on_tx E' b n1 = Some n2" "tx_left b s m n2" using m(2) by (auto split: if_splits)
        then have "str_state (nt_stream n2 s) = 0" "polls_ok n2" "sock_ok n2 a" "sock_ok n2 b" "moved fa fb s [] n n2"
          using d by (auto simp: tx_left_def moved_def)
        then show ?thesis using n2(1) by blast
      qed
    qed
    then obtain n2 where n2: "aem_net_on_tx E' b n1 = Some n2" "str_state (nt_stream n2 s) = 0" "polls_ok n2" "sock_ok n2 a"
        "sock_ok n2 b" "moved fa fb s [] n n2" by blast
    have "str_sink (nt_stream n1 s) \<noteq> None" using Some by (simp add: n1_def)
    then show ?thesis using end_ [OF n2(2-6)] src n2(1) consume_wired [OF w1(1), of cb] cb
      by (simp add: aem_stream_source_detach_def n1_def [symmetric])
  qed
qed

lemma rx_finish_effect:
  fixes n :: "('w \<times> net_io list) netst"
  assumes E: "net_env_ok E os" "net_env_ok E' os" and al: "ne_al E = ne_al E'" and os: "net_os_ok os"
    and cb: "cb_consume (ne_cb E) = aem_net_on_tx E'" and t: "tail_ok (ne_al E') n a s b fb"
  shows "\<exists>n'. net_rx_finish E a n = Some n' \<and> src_stream (nt_source n' a) = None \<and> moved fa fb s [] n n'"
proof -
  have os': "ne_os E = logged os" using E(1) by (simp add: net_env_ok_def)
  define n1 where "n1 = (if sk_rd_open (nsock n a)
      then upd_sock a (\<lambda>k. k\<lparr>sk_rd_open := False\<rparr>) (upd_w (os_shutdown (ne_os E) (ev_fd (nevt n a)) SHUT_RD) n) else n)"
  have q1: "quiet {} n n1"
  proof (cases "sk_rd_open (nsock n a)")
    case True
    have "quiet {} (upd_w (os_shutdown (ne_os E) (ev_fd (nevt n a)) SHUT_RD) n) n1"
      unfolding n1_def if_P [OF True] by (rule shut_quiet) simp_all
    then show ?thesis using quiet_trans [OF shutdown_quiet] os' by metis
  next
    case False
    then show ?thesis by (simp add: n1_def)
  qed
  have n: "polls_ok n" "sock_ok n a" "sock_ok n b" using t by (simp_all add: tail_ok_def)
  have n1: "polls_ok n1" "sk_poller (nsock n1 a)" using quietD(6,7) [OF q1] n by (auto simp: sock_ok_def)
  from ask_quiet [OF n1] obtain n2
    where n2: "ask_events a (\<lambda>ev. ev AND NOT POLLIN AND NOT POLLRDHUP) n1 = Some n2" "quiet {} n1 n2" by blast
  have q2: "quiet {} n n2" by (rule quiet_trans [OF q1 n2(2)])
  have t2: "tail_ok (ne_al E') n2 a s b fb"
    using t quietD [OF q2] by (auto simp: tail_ok_def wired_def idle_def)
  obtain n3 where n3: "aem_stream_source_detach (ne_cb E) (Some a) n2 = Some n3" "src_stream (nt_source n3 a) = None"
      "polls_ok n3" "sock_ok n3 a" "moved fa fb s [] n2 n3"
    using source_detach_effect [OF E(2) os cb t2] by blast
  have m3: "moved fa fb s [] n n3" using moved_trans [OF moved_quiet [OF q2] n3(5)] by simp
  show ?thesis
  proof (cases "\<not> sk_rd_open (nsock n3 a) \<and> \<not> sk_wr_open (nsock n3 a)")
    case True
    obtain n4 where n4: "aem_net_sock_close E a n3 = Some n4" "quiet {a} n3 n4"
      using sock_close_quiet [OF E(1) n3(3,4)] by blast
    have "moved fa fb s [] n n4" using moved_trans [OF m3 moved_quiet [OF n4(2)]] by simp
    then show ?thesis using n2(1) n3(1,2) n4 True quietD(1) [OF n4(2)] by (simp add: net_rx_finish_def n1_def Let_def)
  next
    case False
    then show ?thesis using n2(1) n3(1,2) m3 by (auto simp: net_rx_finish_def n1_def Let_def)
  qed
qed

text \<open>The connection \<open>a\<close> feeds the connection \<open>b\<close> through the stream \<open>s\<close>, which is marked full as long
  as it has anything left to send. \<open>a\<close> and \<open>b\<close> may be the same.\<close>
definition relaying :: "u8 allocator \<Rightarrow> ('w \<times> net_io list) netst \<Rightarrow> nat \<Rightarrow> nat \<Rightarrow> nat \<Rightarrow> int \<Rightarrow> int \<Rightarrow> bool" where
  "relaying al n a s b fa fb \<longleftrightarrow> wired n a s b \<and> idle n s \<and> sb_ready al (buf n s) \<and>
     (sb_out (buf n s) \<noteq> [] \<longrightarrow> str_flags (nt_stream n s) AND AEM_STREAM_FULL \<noteq> 0 \<and> ready al (buf n s)) \<and>
     polls_ok n \<and> sock_ok n a \<and> sock_ok n b \<and> ev_fd (nevt n a) = fa \<and> ev_fd (nevt n b) = fb"

text \<open>The sink has sent all and left, since sending had failed; the source does not know yet.\<close>
definition abandoned :: "u8 allocator \<Rightarrow> ('w \<times> net_io list) netst \<Rightarrow> nat \<Rightarrow> nat \<Rightarrow> nat \<Rightarrow> int \<Rightarrow> bool" where
  "abandoned al n a s b fa \<longleftrightarrow> src_stream (nt_source n a) = Some s \<and> str_source (nt_stream n s) = Some a \<and>
     str_sink (nt_stream n s) = None \<and> idle n s \<and> sb_ready al (buf n s) \<and> sb_out (buf n s) = [] \<and>
     str_flags (nt_stream n s) AND AEM_STREAM_FIN \<noteq> 0 \<and>
     polls_ok n \<and> sock_ok n a \<and> sock_ok n b \<and> (ev_fd (nevt n a) = fa \<or> ev_fd (nevt n a) = -1)"

lemma fin_or [simp]: "(fl OR AEM_STREAM_FIN) AND AEM_STREAM_FIN \<noteq> 0"
  by (simp add: word_ao_dist)

lemma push_effect:
  fixes n :: "('w \<times> net_io list) netst"
  assumes E: "net_env_ok E os" and os: "net_os_ok os" and w: "wired n a s b" and i: "idle n s"
    and r: "ready (ne_al E) (buf n s)" and n: "polls_ok n" "sock_ok n a" "sock_ok n b"
    and fd: "ev_fd (nevt n a) = fa" "ev_fd (nevt n b) = fb"
  shows "\<exists>n'. aem_net_on_tx E b n = Some n' \<and> moved fa fb s [] n n' \<and> tail_ok (ne_al E) n' a s b fb \<and>
    (str_flags (nt_stream n' s) AND AEM_STREAM_FIN = 0 \<longrightarrow> relaying (ne_al E) n' a s b fa fb) \<and>
    (str_flags (nt_stream n s) AND AEM_STREAM_FULL \<noteq> 0 \<longrightarrow>
       relaying (ne_al E) n' a s b fa fb \<or> abandoned (ne_al E) n' a s b fa)"
proof -
  let ?bs = "sb_out (buf n s)"
  obtain k m where m: "tx_done (ne_al E) b s k n m"
    "if str_flags (nt_stream m s) AND AEM_STREAM_FIN \<noteq> 0 \<and> sb_out (buf m s) = []
     then \<exists>n'. aem_net_on_tx E b n = Some n' \<and> tx_left b s m n' else aem_net_on_tx E b n = Some m"
    using on_tx_effect [OF E os w i r n(1,3)] by blast
  note d = m(1) [unfolded tx_done_def]
  have mv: "moved fa fb s [] n m"
    using d fd by (auto simp: moved_def)
  have m': "wired m a s b" "idle m s" "ready (ne_al E) (buf m s)" "sb_out (buf m s) = drop k ?bs"
      "flags_sent k ?bs (str_flags (nt_stream n s)) (str_flags (nt_stream m s))"
      "polls_ok m" "sock_ok m a" "sock_ok m b" "ev_fd (nevt m a) = fa" "ev_fd (nevt m b) = fb"
    using d w i n fd by (auto simp: wired_def idle_def)
  have t: "tail_ok (ne_al E) m a s b fb" using m' by (auto simp: tail_ok_def wired_def)
  show ?thesis
  proof (cases "str_flags (nt_stream m s) AND AEM_STREAM_FIN \<noteq> 0 \<and> sb_out (buf m s) = []")
    case True
    then obtain n' where n': "aem_net_on_tx E b n = Some n'" "tx_left b s m n'" using m(2) by auto
    have "moved fa fb s [] n n'" using mv n'(2) by (simp add: moved_def tx_left_def)
    moreover have "tail_ok (ne_al E) n' a s b fb" "str_flags (nt_stream n' s) AND AEM_STREAM_FIN \<noteq> 0"
      using t n'(2) by (auto simp: tail_ok_def tx_left_def idle_def)
    moreover have "abandoned (ne_al E) n' a s b fa"
      using t n'(2) m'(3,9) True unfolding abandoned_def tx_left_def tail_ok_def ready_def idle_def by auto
    ultimately show ?thesis using n'(1) by auto
  next
    case False
    have "relaying (ne_al E) m a s b fa fb"
      if "str_flags (nt_stream m s) AND AEM_STREAM_FIN = 0 \<or> str_flags (nt_stream n s) AND AEM_STREAM_FULL \<noteq> 0"
      using m' that unfolding relaying_def ready_def flags_sent_def by auto
    then show ?thesis using m(2) mv t False by auto
  qed
qed

text \<open>What \<open>aem_net_on_rx\<close> does with an empty buffer: it receives, and hands on what it received.\<close>
lemma receive_effect:
  fixes n :: "('w \<times> net_io list) netst"
  assumes E: "net_env_ok E os" "net_env_ok E' os" and al: "ne_al E = ne_al E'" and os: "net_os_ok os"
    and cb: "cb_consume (ne_cb E) = aem_net_on_tx E'" and l: "relaying (ne_al E) n a s b fa fb" and e: "sb_out (buf n s) = []"
  shows "\<exists>bs n4 n5 n'. net_recv_loop E a s s (upd_stream s (\<lambda>st. st\<lparr>str_state := 1\<rparr>) n) = Some n4 \<and>
    aem_stream_provide_end (ne_cb E) a n4 = Some n5 \<and>
    (if str_flags (nt_stream n5 s) AND AEM_STREAM_FIN \<noteq> 0
     then net_rx_finish E a n5 = Some n' \<and> src_stream (nt_source n' a) = None
     else n' = n5 \<and> relaying (ne_al E) n' a s b fa fb) \<and> moved fa fb s bs n n'"
proof -
  note r = l [unfolded relaying_def]
  let ?n3 = "upd_stream s (\<lambda>st. st\<lparr>str_state := 1\<rparr>) n"
  have inv: "sb_inv (buf n s)" using r by (simp add: sb_ready_def)
  have "polls_ok ?n3" "sock_ok ?n3 a" "sb_ready (ne_al E) (buf ?n3 s)" using r by (simp_all add: sock_ok_def)
  moreover have "sb_n (buf ?n3 s) + 4096 \<le> 2 ^ 24" using length_sb_out [OF inv] e by simp
  ultimately obtain bs fin n4 where n4: "net_recv_loop E a s s ?n3 = Some n4" "rx_done (ne_al E) a s bs fin ?n3 n4"
    using recv_loop [OF E(1) os, of ?n3 a s] by blast
  note d = n4(2) [unfolded rx_done_def]
  let ?n4 = "upd_stream s (\<lambda>st. st\<lparr>str_state := str_state st - 1\<rparr>) n4"
  have w: "wired ?n4 a s b" "idle ?n4 s" "ready (ne_al E') (buf ?n4 s)" "polls_ok ?n4" "sock_ok ?n4 a" "sock_ok ?n4 b"
      "ev_fd (nevt ?n4 a) = fa" "ev_fd (nevt ?n4 b) = fb"
    using d r al by (auto simp: wired_def idle_def sock_ok_def)
  have m4: "moved fa fb s bs n ?n4" using d r e by (auto simp: moved_def)
  obtain n5 where n5: "aem_net_on_tx E' b ?n4 = Some n5" "moved fa fb s [] ?n4 n5"
      "tail_ok (ne_al E') n5 a s b fb"
      "str_flags (nt_stream n5 s) AND AEM_STREAM_FIN = 0 \<longrightarrow> relaying (ne_al E') n5 a s b fa fb"
    using push_effect [OF E(2) os w] by blast
  have "src_stream (nt_source n4 a) = Some s" "str_source (nt_stream n4 s) = Some a" "str_state (nt_stream n4 s) = 1"
      "str_sink (nt_stream n4 s) = Some b"
    using d r by (auto simp: wired_def)
  then have pe: "aem_stream_provide_end (ne_cb E) a n4 = Some n5"
    using n5(1) consume_wired [OF w(1), of "ne_cb E"] by (simp add: aem_stream_provide_end_def cb)
  have m5: "moved fa fb s bs n n5" using moved_trans [OF m4 n5(2)] by simp
  show ?thesis
  proof (cases "str_flags (nt_stream n5 s) AND AEM_STREAM_FIN = 0")
    case True
    then have "relaying (ne_al E) n5 a s b fa fb" using n5(4) al by simp
    then show ?thesis using n4(1) pe m5 True
      by (intro exI [of _ bs] exI [of _ n4] exI [of _ n5]) simp
  next
    case False
    then have t: "tail_ok (ne_al E') n5 a s b fb" "str_flags (nt_stream n5 s) AND AEM_STREAM_FIN \<noteq> 0" using n5(3) by auto
    obtain n6 where n6: "net_rx_finish E a n5 = Some n6" "src_stream (nt_source n6 a) = None" "moved fa fb s [] n5 n6"
      using rx_finish_effect [OF E al os cb t(1)] by blast
    have "moved fa fb s bs n n6" using moved_trans [OF m5 n6(3)] by simp
    then show ?thesis using n4(1) pe n6 t(2)
      by (intro exI [of _ bs] exI [of _ n4] exI [of _ n5] exI [of _ n6]) simp
  qed
qed

lemma on_rx_step:
  fixes n :: "('w \<times> net_io list) netst"
  assumes E: "net_env_ok E os" "net_env_ok E' os" and al: "ne_al E = ne_al E'" and os: "net_os_ok os"
    and cb: "cb_consume (ne_cb E) = aem_net_on_tx E'" and l: "relaying (ne_al E) n a s b fa fb"
  shows "\<exists>bs n'. aem_net_on_rx E a n = Some n' \<and> moved fa fb s bs n n' \<and>
    (relaying (ne_al E) n' a s b fa fb \<or> abandoned (ne_al E) n' a s b fa \<or> src_stream (nt_source n' a) = None)"
proof (cases "sk_rd_open (nsock n a)")
  case False
  have "aem_net_on_rx E a n = Some n" using False l by (simp add: aem_net_on_rx_def relaying_def wired_def)
  then show ?thesis using l moved_refl by blast
next
  case True
  note r = l [unfolded relaying_def]
  let ?f = "\<lambda>ev. if str_flags (nt_stream n s) AND AEM_STREAM_FULL \<noteq> 0 then ev AND NOT POLLIN else ev OR POLLIN"
  obtain n1 where n1: "ask_events a ?f n = Some n1" "quiet {} n n1" using ask_quiet [of n a ?f] r by (auto simp: sock_ok_def)
  note q = quietD [OF n1(2)]
  have l1: "relaying (ne_al E) n1 a s b fa fb" using r q by (auto simp: relaying_def wired_def idle_def)
  note r1 = l1 [unfolded relaying_def]
  have m1: "moved fa fb s [] n n1" by (rule moved_quiet [OF n1(2)])
  have s1: "src_stream (nt_source n a) = Some s" "src_stream (nt_source n1 a) = Some s" "str_source (nt_stream n1 s) = Some a"
      "str_state (nt_stream n1 s) = 0" "sb_n (buf n1 s) = length (sb_out (buf n1 s))"
    using r r1 length_sb_out [of "buf n1 s"] by (simp_all add: wired_def idle_def sb_ready_def)
  show ?thesis
  proof (cases "sb_out (buf n1 s) = []")
    case left: False
    then have full: "str_flags (nt_stream n1 s) AND AEM_STREAM_FULL \<noteq> 0" "ready (ne_al E') (buf n1 s)" using r1 al by auto
    obtain n2 where n2: "aem_net_on_tx E' b n1 = Some n2" "moved fa fb s [] n1 n2"
        "relaying (ne_al E') n2 a s b fa fb \<or> abandoned (ne_al E') n2 a s b fa"
      using push_effect [OF E(2) os, of n1 a s b fa fb] r1 full by auto
    have "aem_stream_propagate_down (ne_cb E) a None n1 = Some (False, n2)"
      using left full s1 n2(1) consume_wired [of n1 a s b "ne_cb E"] r1
      by (simp add: aem_stream_propagate_down_def aem_stream_should_provide_def aem_stream_sink_set_full_def Let_def cb)
    then have "aem_net_on_rx E a n = Some n2" using n1(1) s1(1) True by (simp add: aem_net_on_rx_def)
    then show ?thesis using moved_trans [OF m1 n2(2)] n2(3) al by (metis append_Nil)
  next
    case empty: True
    define n2 where "n2 = (if str_flags (nt_stream n1 s) AND AEM_STREAM_FULL \<noteq> 0
        then upd_stream s (\<lambda>st. st\<lparr>str_flags := str_flags st AND NOT AEM_STREAM_FULL\<rparr>) n1 else n1)"
    have down: "aem_stream_propagate_down (ne_cb E) a None n1 = Some (True, n2)"
      using empty s1
      by (simp add: aem_stream_propagate_down_def aem_stream_should_provide_def aem_stream_sink_set_full_def Let_def n2_def)
    have l2: "relaying (ne_al E) n2 a s b fa fb" "sb_out (buf n2 s) = []" "moved fa fb s [] n1 n2"
      using r1 empty by (auto simp: n2_def relaying_def wired_def idle_def sock_ok_def moved_def and.assoc and.left_commute)
    note r2 = l2(1) [unfolded relaying_def]
    have pb: "aem_stream_provide_begin a True n2 = Some (Some s, upd_stream s (\<lambda>st. st\<lparr>str_state := 1\<rparr>) n2)"
      using r2 by (simp add: aem_stream_provide_begin_def wired_def idle_def upd_stream_def c_int_def)
    obtain bs n4 n5 n' where e: "net_recv_loop E a s s (upd_stream s (\<lambda>st. st\<lparr>str_state := 1\<rparr>) n2) = Some n4"
        "aem_stream_provide_end (ne_cb E) a n4 = Some n5"
        "if str_flags (nt_stream n5 s) AND AEM_STREAM_FIN \<noteq> 0
         then net_rx_finish E a n5 = Some n' \<and> src_stream (nt_source n' a) = None
         else n' = n5 \<and> relaying (ne_al E) n' a s b fa fb" "moved fa fb s bs n2 n'"
      using receive_effect [OF E al os cb l2(1,2)] by blast
    have "aem_net_on_rx E a n = Some n'"
      using n1(1) s1(1) True down pb e(1-3) by (simp add: aem_net_on_rx_def split: if_splits)
    moreover have "moved fa fb s bs n n'"
      using moved_trans [OF m1 moved_trans [OF l2(3) e(4)]] by simp
    ultimately show ?thesis using e(3) by (auto split: if_splits)
  qed
qed

text \<open>When the sink has left, the source receives once more, finds the stream finished, and leaves too.\<close>
lemma on_rx_abandoned:
  fixes n :: "('w \<times> net_io list) netst"
  assumes E: "net_env_ok E os" "net_env_ok E' os" and al: "ne_al E = ne_al E'" and os: "net_os_ok os"
    and cb: "cb_consume (ne_cb E) = aem_net_on_tx E'" and l: "abandoned (ne_al E) n a s b fa"
  shows "\<exists>bs n'. aem_net_on_rx E a n = Some n' \<and> moved fa fb s bs n n' \<and>
    (abandoned (ne_al E) n' a s b fa \<or> src_stream (nt_source n' a) = None)"
proof (cases "sk_rd_open (nsock n a)")
  case False
  have "aem_net_on_rx E a n = Some n" using False l by (simp add: aem_net_on_rx_def abandoned_def)
  then show ?thesis using l moved_refl by blast
next
  case True
  note r = l [unfolded abandoned_def]
  have fa: "ev_fd (nevt n a) = fa" using r True by (auto simp: sock_ok_def)
  let ?f = "\<lambda>ev. if str_flags (nt_stream n s) AND AEM_STREAM_FULL \<noteq> 0 then ev AND NOT POLLIN else ev OR POLLIN"
  obtain n1 where n1: "ask_events a ?f n = Some n1" "quiet {} n n1" using ask_quiet [of n a ?f] r by (auto simp: sock_ok_def)
  note q = quietD [OF n1(2)]
  have s1: "src_stream (nt_source n1 a) = Some s" "str_source (nt_stream n1 s) = Some a" "str_sink (nt_stream n1 s) = None"
      "str_state (nt_stream n1 s) = 0" "sb_n (buf n1 s) = 0" "sb_ready (ne_al E) (buf n1 s)"
      "str_flags (nt_stream n1 s) AND AEM_STREAM_FIN \<noteq> 0" "sb_out (buf n1 s) = []"
    using r q length_sb_out [of "buf n s"] by (simp_all add: idle_def sb_ready_def)
  define n2 where "n2 = (if str_flags (nt_stream n1 s) AND AEM_STREAM_FULL \<noteq> 0
      then upd_stream s (\<lambda>st. st\<lparr>str_flags := str_flags st AND NOT AEM_STREAM_FULL\<rparr>) n1 else n1)"
  have down: "aem_stream_propagate_down (ne_cb E) a None n1 = Some (True, n2)"
    using s1 by (simp add: aem_stream_propagate_down_def aem_stream_should_provide_def aem_stream_sink_set_full_def Let_def n2_def)
  have fin: "(fl AND NOT AEM_STREAM_FULL) AND AEM_STREAM_FIN = fl AND AEM_STREAM_FIN" for fl
    by (simp add: AEM_STREAM_FIN_def AEM_STREAM_FULL_def and.assoc)
  let ?n3 = "upd_stream s (\<lambda>st. st\<lparr>str_state := 1\<rparr>) n2"
  have s3: "src_stream (nt_source ?n3 a) = Some s" "str_source (nt_stream ?n3 s) = Some a" "str_sink (nt_stream ?n3 s) = None"
      "sb_n (buf ?n3 s) = 0" "sb_ready (ne_al E) (buf ?n3 s)" "str_flags (nt_stream ?n3 s) AND AEM_STREAM_FIN \<noteq> 0"
      "polls_ok ?n3" "sock_ok ?n3 a" "sock_ok ?n3 b" "ev_fd (nevt ?n3 a) = fa" "sb_out (buf ?n3 s) = []"
      "received fd (io ?n3) = received fd (io n)" "sent fd (io ?n3) = sent fd (io n)" for fd
    using s1 r q fin fa by (simp_all add: n2_def sock_ok_def)
  have pb: "aem_stream_provide_begin a True n2 = Some (Some s, ?n3)"
    using s1 by (simp add: aem_stream_provide_begin_def upd_stream_def c_int_def n2_def)
  obtain bs fn n4 where n4: "net_recv_loop E a s s ?n3 = Some n4" "rx_done (ne_al E) a s bs fn ?n3 n4"
    using recv_loop [OF E(1) os s3(7,8,5)] s3(4) by auto
  note d = n4(2) [unfolded rx_done_def]
  let ?n5 = "upd_stream s (\<lambda>st. st\<lparr>str_state := str_state st - 1\<rparr>) n4"
  define F where "F = str_flags (nt_stream ?n3 s)"
  obtain b' where str: "nt_stream n4 = (nt_stream ?n3)(s := (nt_stream ?n3 s)\<lparr>str_buf := b',
      str_flags := if fn then F OR AEM_STREAM_FIN else F\<rparr>)" "sb_out b' = sb_out (buf ?n3 s) @ bs"
    using d unfolding F_def by blast
  have F: "F AND AEM_STREAM_FIN \<noteq> 0" unfolding F_def by (rule s3(6))
  then have fin5: "(if fn then F OR AEM_STREAM_FIN else F) AND AEM_STREAM_FIN \<noteq> 0" by (cases fn) (simp_all only: if_True if_False fin_or not_False_eq_True)
  have s5: "str_state (nt_stream n4 s) = 1" "src_stream (nt_source n4 a) = Some s" "str_source (nt_stream n4 s) = Some a"
      "str_sink (nt_stream n4 s) = None" "str_flags (nt_stream ?n5 s) AND AEM_STREAM_FIN \<noteq> 0"
      "str_sink (nt_stream ?n5 s) = None" "src_stream (nt_source ?n5 a) = Some s" "str_source (nt_stream ?n5 s) = Some a"
      "str_state (nt_stream ?n5 s) = 0"
    using d s3(1-3) str(1) fin5 by auto
  have "polls_ok ?n5" "sock_ok ?n5 a" "sock_ok ?n5 b" using d s3(7-9) by (simp_all add: sock_ok_def)
  then have t5: "tail_ok (ne_al E') ?n5 a s b fb" using s5(6-9) by (simp add: tail_ok_def idle_def)
  have "sb_out (buf n s) = []" "sb_out (buf ?n5 s) = bs" using str(2) s3(11) r by (simp_all add: str(1))
  then have m5: "moved fa fb s bs n ?n5" using d s3(10,12,13) by (simp add: moved_def)
  have pe: "aem_stream_provide_end (ne_cb E) a n4 = Some ?n5"
    using s5(1-4) by (simp add: aem_stream_provide_end_def Let_def)
  obtain n6 where n6: "net_rx_finish E a ?n5 = Some n6" "src_stream (nt_source n6 a) = None" "moved fa fb s [] ?n5 n6"
    using rx_finish_effect [OF E al os cb t5] by blast
  have "aem_net_on_rx E a n = Some n6"
    using n1(1) r True down pb n4(1) pe n6(1) s5(5) by (simp add: aem_net_on_rx_def)
  then show ?thesis using moved_trans [OF m5 n6(3)] n6(2) by auto
qed

text \<open>The source \<open>a\<close> is asked for data \<open>k\<close> times, or until it has ended.\<close>
fun relay_run :: "'w net_env \<Rightarrow> nat \<Rightarrow> nat \<Rightarrow> 'w netst \<Rightarrow> 'w netst option" where
  "relay_run E a 0 n = Some n"
| "relay_run E a (Suc k) n =
     (if src_stream (nt_source n a) = None then Some n
      else do { n1 \<leftarrow> aem_net_on_rx E a n; relay_run E a k n1 })"

lemma relay_run_moves:
  fixes n :: "('w \<times> net_io list) netst"
  assumes E: "net_env_ok E os" "net_env_ok E' os" and al: "ne_al E = ne_al E'" and os: "net_os_ok os"
    and cb: "cb_consume (ne_cb E) = aem_net_on_tx E'"
    and l: "relaying (ne_al E) n a s b fa fb \<or> abandoned (ne_al E) n a s b fa \<or> src_stream (nt_source n a) = None"
  shows "\<exists>bs n'. relay_run E a k n = Some n' \<and> moved fa fb s bs n n'"
  using l
proof (induction k arbitrary: n)
  case 0
  then show ?case using moved_refl [of fa fb s n] by (simp, blast)
next
  case (Suc k)
  show ?case
  proof (cases "src_stream (nt_source n a) = None")
    case True
    then show ?thesis using moved_refl [of fa fb s n] by (simp, blast)
  next
    case False
    then have "relaying (ne_al E) n a s b fa fb \<or> abandoned (ne_al E) n a s b fa" using Suc.prems by auto
    then have "\<exists>bs n1. aem_net_on_rx E a n = Some n1 \<and> moved fa fb s bs n n1 \<and>
        (relaying (ne_al E) n1 a s b fa fb \<or> abandoned (ne_al E) n1 a s b fa \<or> src_stream (nt_source n1 a) = None)"
    proof
      assume "relaying (ne_al E) n a s b fa fb"
      from on_rx_step [OF E al os cb this] show ?thesis .
    next
      assume "abandoned (ne_al E) n a s b fa"
      from on_rx_abandoned [OF E al os cb this, of fb] show ?thesis by blast
    qed
    then obtain bs n1 where n1: "aem_net_on_rx E a n = Some n1" "moved fa fb s bs n n1"
        "relaying (ne_al E) n1 a s b fa fb \<or> abandoned (ne_al E) n1 a s b fa \<or> src_stream (nt_source n1 a) = None"
      by blast
    obtain bs' n' where "relay_run E a k n1 = Some n'" "moved fa fb s bs' n1 n'" using Suc.IH [OF n1(3)] by blast
    then show ?thesis using n1(1) False moved_trans [OF n1(2)] by auto
  qed
qed

section \<open>What the code does not do\<close>

text \<open>A client's connection: \<open>aem_net_socket\<close> closes both halves and \<open>aem_net_connect\<close> does not open
  them, so that the source never reads.\<close>
lemma poll_add_app: "aem_poll_add fa ea e l = Some (rc, l') \<Longrightarrow> lp_app l' = lp_app l"
  by (auto simp: aem_poll_add_def aem_poll_assign_def Let_def upd_ev_def bind_eq_Some_conv split: if_splits)

lemma client_never_reads:
  assumes "aem_net_socket E a ai n = (0, n1)" "aem_net_connect E a ai' n1 = Some (0, n2)"
  shows "\<not> sk_rd_open (nsock n2 a)" "src_stream (nt_source n2 a) = Some s \<Longrightarrow> aem_net_on_rx E a n2 = Some n2"
proof -
  have "\<not> sk_rd_open (nsock n1 a)"
    using assms(1) by (auto simp: aem_net_socket_def sys_eq Let_def split: if_splits)
  then show "\<not> sk_rd_open (nsock n2 a)"
    using assms(2) by (auto simp: aem_net_connect_def sock_poll_add_def sys_eq bind_eq_Some_conv split: if_splits dest!: poll_add_app)
  then show "src_stream (nt_source n2 a) = Some s \<Longrightarrow> aem_net_on_rx E a n2 = Some n2" by (simp add: aem_net_on_rx_def)
qed

text \<open>What a stream still holds when its source has gone is not sent: there is nobody to be asked.\<close>
lemma tail_never_sent:
  assumes "str_source (nt_stream n s) = None"
  shows "conn_flow E a (Some s) POLLOUT n = Some n"
  using assms by (simp add: conn_flow_def aem_stream_flow_def aem_stream_provide_def)

text \<open>A connection that was initialised and never given a descriptor cannot be destroyed.\<close>
lemma destroy_unopened_aborts: "aem_net_conn_dtor E a (aem_net_conn_init a n) = None"
  by (simp add: aem_net_conn_dtor_def aem_net_conn_init_def aem_stream_source_dtor_def aem_stream_sink_dtor_def
      aem_stream_source_init_def aem_stream_sink_init_def aem_net_sock_dtor_def aem_net_sock_close_def aem_net_sock_init_def
      aem_poll_event_init_def finish_stream_def Let_def)

text \<open>\<open>S_IFSOCK\<close> is not a bit of its own: the test for a socket accepts a regular file (mode 0100644)
  and a directory (mode 0040755).\<close>
lemma regular_file_unlinked: "(0x81A4 :: u32) AND S_IFSOCK \<noteq> 0" "(0x41ED :: u32) AND S_IFSOCK \<noteq> 0"
  by (simp_all add: S_IFSOCK_def)

section \<open>Properties\<close>

text \<open>C40: relaying between two connections, in order and without loss. The source of a connection
  on descriptor \<open>fa\<close> feeds the sink of a connection on descriptor \<open>fb\<close>. However the system splits the
  input into chunks, how few bytes it accepts at a time, however often either call is interrupted or
  would block, and whatever other errors \<open>recv\<close> and \<open>send\<close> give, every call of the handler returns,
  and after any number of them what was received is exactly what was sent followed by what the stream
  still holds. (The calls are not interrupted forever, memory is granted, and \<open>on_close\<close> changes only
  the client's own memory.)\<close>
theorem relay_in_order:
  fixes n :: "('w \<times> net_io list) netst"
  assumes "net_env_ok E os" "net_env_ok E' os" "ne_al E = ne_al E'" "net_os_ok os"
    and "cb_consume (ne_cb E) = aem_net_on_tx E'"
    and "relaying (ne_al E) n a s b fa fb" "sb_out (buf n s) = []" "io n = []"
  shows "\<exists>n'. relay_run E a k n = Some n' \<and> received fa (io n') = sent fb (io n') @ sb_out (buf n' s)"
proof -
  obtain bs n' where "relay_run E a k n = Some n'" "moved fa fb s bs n n'"
    using relay_run_moves [OF assms(1-5) disjI1 [OF assms(6)]] by blast
  then show ?thesis using assms(7,8) by (auto simp: moved_def)
qed

text \<open>A system whose input comes in the given chunks and which sends at most two bytes at a time. When
  the input has ended, nobody reads the output any more.\<close>
definition demo_os :: "u8 list list net_os" where
  "demo_os =
     \<lparr>os_socket = \<lambda>_ _ _ w. (-1, w), os_setsockopt = \<lambda>_ _ w. (0, w), os_bind = \<lambda>_ _ w. (0, w), os_connect = \<lambda>_ _ w. (0, w),
      os_listen = \<lambda>_ _ w. (0, w), os_accept = \<lambda>_ w. (Inl EAGAIN, w),
      os_recv = \<lambda>_ room w. (case w of [] \<Rightarrow> (Inr [], []) | c # cs \<Rightarrow> (Inr (take room c), cs)),
      os_send = \<lambda>_ bs w. (if w = [] then (0, EPIPE) else (min 2 (length bs), EAGAIN), w),
      os_shutdown = \<lambda>_ _ w. w, os_close = \<lambda>_ w. w, os_getaddrinfo = \<lambda>_ _ _ w. (None, w),
      os_stat = \<lambda>_ _. None, os_unlink = \<lambda>_ w. w\<rparr>"

definition grants :: "'a \<Rightarrow> 'a allocator" where
  "grants junk = \<lparr>al_ok = \<lambda>_. True, al_junk = junk\<rparr>"

definition demo_env :: "(nat \<Rightarrow> (u8 list list \<times> net_io list) netst \<Rightarrow> (u8 list list \<times> net_io list) netst option) \<Rightarrow>
    (u8 list list \<times> net_io list) net_env" where
  "demo_env consume =
     \<lparr>ne_al = al_all, ne_fa = grants \<lparr>pfd_fd = 0, pfd_events = 0, pfd_revents = 0\<rparr>, ne_ea = grants None, ne_os = logged demo_os,
      ne_cb = \<lparr>cb_provide = \<lambda>_ n. Some n, cb_consume = consume\<rparr>, ne_on_close = \<lambda>_ n. Some n,
      ne_conn_new = \<lambda>_ _ n. Some (None, n), ne_setup = \<lambda>_ _ _ n. Some n\<rparr>"

text \<open>Connection 1, on descriptor 4, is connected to connection 2, on descriptor 5.\<close>
definition demo_netst :: "u8 list list \<Rightarrow> (u8 list list \<times> net_io list) netst" where
  "demo_netst chunks = \<lparr>
     nt_source = (\<lambda>_. \<lparr>src_stream = None, src_provide = True\<rparr>)(1 := \<lparr>src_stream = Some 20, src_provide = True\<rparr>),
     nt_sink = (\<lambda>_. \<lparr>snk_stream = None, snk_consume = True\<rparr>)(2 := \<lparr>snk_stream = Some 20, snk_consume = True\<rparr>),
     nt_stream = (\<lambda>_. aem_stream_new)(20 := demo_stream (sb_room 16) 1 2),
     nt_rcu = [], nt_on_close = \<lambda>_. False,
     nt_app = \<lparr>nr_poll = aem_poll_init (ne_fa (demo_env (\<lambda>_. Some))) (ne_ea (demo_env (\<lambda>_. Some))),
       nr_ev = (\<lambda>_. aem_poll_event_init)(1 := aem_poll_event_init\<lparr>ev_fd := 4\<rparr>, 2 := aem_poll_event_init\<lparr>ev_fd := 5\<rparr>),
       nr_sock = (\<lambda>_. \<lparr>sk_poller = True, sk_on_close = False, sk_rd_open = False, sk_wr_open = False\<rparr>)
         (1 := \<lparr>sk_poller = True, sk_on_close = False, sk_rd_open = True, sk_wr_open = True\<rparr>,
          2 := \<lparr>sk_poller = True, sk_on_close = False, sk_rd_open = True, sk_wr_open = True\<rparr>),
       nr_w = (chunks, [])\<rparr>\<rparr>"

lemma ends_at_once: "(\<And>w. \<not> intr (fst (f w))) \<Longrightarrow> ends f intr"
  by (simp add: ends_def)

lemma demo_os_ok: "net_os_ok demo_os"
  unfolding net_os_ok_def by (intro conjI allI ends_at_once) (auto simp: demo_os_def split: list.splits if_splits)

lemma demo_env_ok: "net_env_ok (demo_env f) demo_os"
  unfolding net_env_ok_def
proof (intro conjI allI)
  show "\<exists>g. ne_on_close (demo_env f) a n = Some (upd_w (\<lambda>(w, es). (g w, es)) n)" for a n
    by (rule exI [of _ "\<lambda>w. w"]) (simp add: demo_env_def upd_w_def)
qed (simp_all add: demo_env_def grants_def al_all_def)

lemma demo_env_simps [simp]: "ne_al (demo_env f) = al_all" "cb_consume (ne_cb (demo_env f)) = f"
  by (simp_all add: demo_env_def)

theorem relay_in_order_witness:
  "\<exists>n'. relay_run (demo_env (aem_net_on_tx (demo_env (\<lambda>_. Some)))) 1 7 (demo_netst [[1, 2, 3], [4, 5]]) = Some n' \<and>
     received 4 (io n') = sent 5 (io n') @ sb_out (buf n' 20)"
proof -
  let ?n = "demo_netst [[1, 2, 3], [4, 5]]"
  have "polls_ok ?n"
    by (simp add: polls_ok_def loop_ok_def arrays_ok_def demo_netst_def as_loop_def aem_poll_init_def aem_poll_event_init_def
        poll_block_def demo_env_def grants_def alloc_granted_def PTRDIFF_MAX_def)
  then have "relaying al_all ?n 1 20 2 4 5" "sb_out (buf ?n 20) = []" "io ?n = []"
    by (simp_all add: relaying_def demo_netst_def wired_def idle_def demo_stream_def sock_ok_def sb_room_ready
        aem_poll_event_init_def sb_out_def)
  then show ?thesis
    by (intro relay_in_order [where E' = "demo_env (\<lambda>_. Some)" and os = demo_os and a = 1 and b = 2 and s = 20])
      (simp_all add: demo_env_ok demo_os_ok del: One_nat_def)
qed

end
