(* ===== verification/Aem_File.thy ===== *)
theory Aem_File
  imports Aem_Stringbuf
begin

text \<open>
  Files: the functions of \<open>stringslice.c\<close> and \<open>stringbuf.c\<close> that write to and read from a \<open>FILE\<close> or a
  descriptor until everything is transferred. The calls of the C library and of the system are
  parameters over a world \<open>'w\<close>; what they promise is in \<open>file_ok\<close> and \<open>fd_ok\<close>.
\<close>

section \<open>Writing\<close>

text \<open>\<open>fwrite\<close> and \<open>fread\<close> of single bytes, and the indicators.\<close>
record 'w c_file =
  cf_write :: "u8 list \<Rightarrow> 'w \<Rightarrow> nat \<times> 'w"
  cf_read :: "nat \<Rightarrow> 'w \<Rightarrow> u8 list \<times> 'w"
  cf_eof :: "'w \<Rightarrow> bool"
  cf_error :: "'w \<Rightarrow> bool"

partial_function (option) aem_stringslice_file_write ::
  "'w c_file \<Rightarrow> stringslice \<Rightarrow> 'w \<Rightarrow> (int \<times> 'w) option" where
  "aem_stringslice_file_write fp sl w =
     (if aem_stringslice_ok sl then
        let (n_written, w1) = cf_write fp (ss_bytes sl) w
        in if n_written = 0 \<and> cf_error fp w1 then Some (-1, w1)
           else aem_stringslice_file_write fp (ss_advance sl n_written) w1
      else Some (0, w))"

declare aem_stringslice_file_write.simps [code]

definition aem_stringbuf_file_write ::
  "'w c_file ptr \<Rightarrow> stringbuf ptr \<Rightarrow> 'w \<Rightarrow> (int \<times> 'w) option" where
  "aem_stringbuf_file_write fp str w =
     (case str of
        None \<Rightarrow> Some (1, w)
      | Some b \<Rightarrow>
          (case fp of
             None \<Rightarrow> Some (-1, w)
           | Some f \<Rightarrow> aem_stringslice_file_write f (aem_stringslice_new_str 1 b) w))"

text \<open>\<open>write\<close> on a descriptor: it fails, perhaps with \<open>EINTR\<close>, or writes some bytes.\<close>
type_synonym 'w fd_write = "u8 list \<Rightarrow> 'w \<Rightarrow> (bool + nat) \<times> 'w"

partial_function (option) fd_write_loop ::
  "'w fd_write \<Rightarrow> stringslice \<Rightarrow> int \<Rightarrow> 'w \<Rightarrow> (int \<times> 'w) option" where
  "fd_write_loop wr sl tot w =
     (if aem_stringslice_ok sl then
        let (r, w1) = wr (ss_bytes sl) w
        in case r of
             Inl eintr \<Rightarrow> if eintr then fd_write_loop wr sl tot w1 else Some (-1, w1)
           | Inr out \<Rightarrow> fd_write_loop wr (ss_advance sl out) (tot + int out) w1
      else Some (tot, w))"

declare fd_write_loop.simps [code]

definition aem_stringslice_fd_write ::
  "'w fd_write \<Rightarrow> stringslice \<Rightarrow> int \<Rightarrow> 'w \<Rightarrow> (int \<times> 'w) option" where
  "aem_stringslice_fd_write wr sl fd w = (if fd < 0 then Some (-1, w) else fd_write_loop wr sl 0 w)"

text \<open>What has been written to a file, \<open>out\<close>, grows by what a call reports, and a call that writes
  nothing leaves an error behind.\<close>
definition file_ok :: "'w c_file \<Rightarrow> ('w \<Rightarrow> u8 list) \<Rightarrow> bool" where
  "file_ok fp out \<longleftrightarrow> (\<forall>bs w k w1. bs \<noteq> [] \<and> cf_write fp bs w = (k, w1) \<longrightarrow>
     k \<le> length bs \<and> out w1 = out w @ take k bs \<and> (k = 0 \<longrightarrow> cf_error fp w1))"

lemma file_write_transfers:
  assumes "file_ok fp out"
  shows "\<exists>rc k w1. aem_stringslice_file_write fp sl w = Some (rc, w1) \<and> out w1 = out w @ take k (ss_bytes sl) \<and>
    (rc = 0 \<and> k = length (ss_bytes sl) \<or> rc = -1 \<and> cf_error fp w1)"
proof (induction "length (ss_bytes sl)" arbitrary: sl w rule: less_induct)
  case less
  show ?case
  proof (cases "ss_bytes sl = []")
    case True
    then show ?thesis by (subst aem_stringslice_file_write.simps) (simp add: ok_iff)
  next
    case ne: False
    obtain k w1 where c: "cf_write fp (ss_bytes sl) w = (k, w1)" by fastforce
    then have k: "k \<le> length (ss_bytes sl)" "out w1 = out w @ take k (ss_bytes sl)" "k = 0 \<longrightarrow> cf_error fp w1"
      using assms ne unfolding file_ok_def by blast+
    show ?thesis
    proof (cases "k = 0")
      case True
      then have "aem_stringslice_file_write fp sl w = Some (-1, w1)"
        using c k(3) ne by (subst aem_stringslice_file_write.simps) (simp add: ok_iff)
      then show ?thesis using k True by (intro exI [of _ "-1"] exI [of _ 0] exI [of _ w1]) simp
    next
      case False
      have "length (ss_bytes (ss_advance sl k)) < length (ss_bytes sl)" using False ne by simp
      from less.hyps [OF this, of w1] obtain rc j w2 where r: "aem_stringslice_file_write fp (ss_advance sl k) w1 = Some (rc, w2)"
          "out w2 = out w1 @ take j (drop k (ss_bytes sl))"
          "rc = 0 \<and> j = length (ss_bytes sl) - k \<or> rc = -1 \<and> cf_error fp w2" by auto
      have "aem_stringslice_file_write fp sl w = Some (rc, w2)"
        using c r(1) ne False by (subst aem_stringslice_file_write.simps) (simp add: ok_iff)
      moreover have "out w2 = out w @ take (k + j) (ss_bytes sl)" using r(2) k(2) by (simp add: take_add)
      ultimately show ?thesis using r(3) k(1) by (intro exI [of _ rc] exI [of _ "k + j"] exI [of _ w2]) auto
    qed
  qed
qed

text \<open>A string is written whole, or an error is reported after a part of it.\<close>
lemma stringbuf_file_write_transfers:
  assumes "file_ok fp out"
  shows "\<exists>rc k w1. aem_stringbuf_file_write (Some fp) (Some b) w = Some (rc, w1) \<and> out w1 = out w @ take k (sb_out b) \<and>
    (rc = 0 \<and> k = length (sb_out b) \<or> rc = -1 \<and> cf_error fp w1)"
  using file_write_transfers [OF assms, of "aem_stringslice_new_str 1 b" w]
  by (simp add: aem_stringbuf_file_write_def aem_stringslice_new_str_def sb_out_def)

text \<open>The same for a descriptor that is not interrupted for ever. A \<open>write\<close> of nothing that reports no
  error would be repeated without end.\<close>
definition fd_ok :: "'w fd_write \<Rightarrow> ('w \<Rightarrow> u8 list) \<Rightarrow> ('w \<Rightarrow> nat) \<Rightarrow> bool" where
  "fd_ok wr out patience \<longleftrightarrow> (\<forall>bs w r w1. bs \<noteq> [] \<and> wr bs w = (r, w1) \<longrightarrow>
     (case r of Inl eintr \<Rightarrow> out w1 = out w \<and> (eintr \<longrightarrow> patience w1 < patience w)
      | Inr k \<Rightarrow> 0 < k \<and> k \<le> length bs \<and> out w1 = out w @ take k bs))"

lemma fd_loop_transfers:
  assumes "fd_ok wr out patience"
  shows "\<exists>rc k w1. fd_write_loop wr sl tot w = Some (rc, w1) \<and> k \<le> length (ss_bytes sl) \<and> out w1 = out w @ take k (ss_bytes sl) \<and>
    (rc = -1 \<or> rc = tot + int (length (ss_bytes sl)) \<and> k = length (ss_bytes sl))"
proof (induction "(length (ss_bytes sl), patience w)" arbitrary: sl tot w rule: wf_induct_rule [OF wf_lex_prod [OF wf_less_than wf_less_than]])
  case less: 1
  show ?case
  proof (cases "ss_bytes sl = []")
    case True
    then show ?thesis by (subst fd_write_loop.simps) (simp add: ok_iff)
  next
    case ne: False
    obtain r w1 where c: "wr (ss_bytes sl) w = (r, w1)" by fastforce
    note ok = assms [unfolded fd_ok_def, rule_format, OF conjI [OF ne c]]
    show ?thesis
    proof (cases r)
      case (Inl eintr)
      show ?thesis
      proof (cases eintr)
        case True
        have "((length (ss_bytes sl), patience w1), length (ss_bytes sl), patience w) \<in> less_than <*lex*> less_than"
          using ok Inl True by simp
        from less [OF this, of tot] show ?thesis using c Inl True ok ne
          by (subst fd_write_loop.simps) (simp add: ok_iff)
      next
        case False
        then have "fd_write_loop wr sl tot w = Some (-1, w1)"
          using c Inl ne by (subst fd_write_loop.simps) (simp add: ok_iff)
        then show ?thesis using ok Inl by (intro exI [of _ "-1"] exI [of _ 0] exI [of _ w1]) simp
      qed
    next
      case (Inr k)
      then have k: "0 < k" "k \<le> length (ss_bytes sl)" "out w1 = out w @ take k (ss_bytes sl)" using ok by auto
      have "((length (ss_bytes (ss_advance sl k)), patience w1), length (ss_bytes sl), patience w) \<in> less_than <*lex*> less_than"
        using k ne by auto
      from less [OF this, of "tot + int k"] obtain rc j w2
        where r: "fd_write_loop wr (ss_advance sl k) (tot + int k) w1 = Some (rc, w2)" "j \<le> length (ss_bytes sl) - k"
          "out w2 = out w1 @ take j (drop k (ss_bytes sl))"
          "rc = -1 \<or> rc = tot + int k + int (length (ss_bytes sl) - k) \<and> j = length (ss_bytes sl) - k" by auto
      have "fd_write_loop wr sl tot w = Some (rc, w2)"
        using c r(1) ne Inr by (subst fd_write_loop.simps) (simp add: ok_iff)
      moreover have "out w2 = out w @ take (k + j) (ss_bytes sl)" using r(3) k(3) by (simp add: take_add)
      ultimately show ?thesis using r(2,4) k(2)
        by (intro exI [of _ rc] exI [of _ "k + j"] exI [of _ w2]) (auto simp: of_nat_diff)
    qed
  qed
qed

section \<open>Reading everything\<close>

text \<open>The loop of \<open>aem_stringbuf_file_read_all\<close>. It is left only with one of the two indicators set, so
  that the code's last two lines, which shrink the buffer and return 0, are never reached.\<close>
partial_function (option) aem_stringbuf_file_read_all ::
  "u8 allocator \<Rightarrow> 'w c_file \<Rightarrow> stringbuf \<Rightarrow> 'w \<Rightarrow> (int \<times> stringbuf \<times> 'w) option" where
  "aem_stringbuf_file_read_all al fp b w =
     (let (got, w1) = cf_read fp 4096 w
      in do {
        (n, b1) \<leftarrow> aem_stringbuf_file_read al b 4096 got;
        if n > 0 \<or> \<not> (cf_eof fp w1 \<or> cf_error fp w1) then aem_stringbuf_file_read_all al fp b1 w1
        else Some (if cf_eof fp w1 then 1 else -1, b1, w1) })"

declare aem_stringbuf_file_read_all.simps [code]

text \<open>A file with the bytes \<open>rest\<close> left to be read.\<close>
definition reads_ok :: "'w c_file \<Rightarrow> ('w \<Rightarrow> u8 list) \<Rightarrow> bool" where
  "reads_ok fp rest \<longleftrightarrow> (\<forall>n w got w1. n > 0 \<and> cf_read fp n w = (got, w1) \<longrightarrow>
     length got \<le> n \<and> rest w = got @ rest w1 \<and> \<not> cf_error fp w1 \<and> (got = [] \<longrightarrow> rest w1 = [] \<and> cf_eof fp w1))"

lemma file_read_ready:
  assumes b: "sb_ready al b" "sb_n b + 4096 \<le> 2 ^ 24" and got: "length got \<le> 4096"
  shows "\<exists>b1. aem_stringbuf_file_read al b 4096 got = Some (length got, b1) \<and> sb_ready al b1 \<and> sb_out b1 = sb_out b @ got"
proof -
  have r: "sb_inv b" "sb_free al b" "sb_maxn b \<le> 2 ^ 26" using b(1) by (simp_all add: sb_ready_def)
  obtain rc b' where r1: "aem_stringbuf_reserve al b 4096 = Some (rc, b')" "sb_inv b'" "sb_n b' = sb_n b" "sb_out b' = sb_out b"
      "sb_bad b' \<or> sb_n b + 4096 < sb_maxn b'"
    using sb_reserve_spec [OF r(1), of 4096 al] by auto
  have free: "sb_free al b'" using sb_reserve_granted [OF r(1,2) _ r1(1)] b(2) by simp
  then have room: "sb_n b' + length got < sb_maxn b'" using r1(3,5) got by (simp add: sb_free_def)
  have "sb_maxn b' \<le> 2 ^ 26" using reserve_maxn [OF r1(1)] b(2) r(3) by simp
  moreover obtain b1 where "sb_store b' (sb_n b') got = Some b1" "sb_inv (b1\<lparr>sb_n := sb_n b1 + length got\<rparr>)"
      "sb_out (b1\<lparr>sb_n := sb_n b1 + length got\<rparr>) = sb_out b' @ got"
    using sb_store_append [OF r1(2) room] by blast
  ultimately show ?thesis using r1 free got sb_store_fields [of b' "sb_n b'" got b1]
    by (auto simp: aem_stringbuf_file_read_def sb_ready_def sb_free_def)
qed

text \<open>With memory, all of a file that has no errors is read.\<close>
lemma file_read_all_reads:
  assumes "reads_ok fp rest" "sb_ready al b" "sb_n b + length (rest w) + 4096 \<le> 2 ^ 24"
  shows "\<exists>b1 w1. aem_stringbuf_file_read_all al fp b w = Some (1, b1, w1) \<and> sb_ready al b1 \<and> sb_out b1 = sb_out b @ rest w \<and>
    rest w1 = []"
  using assms(2,3)
proof (induction "length (rest w)" arbitrary: b w rule: less_induct)
  case less
  obtain got w1 where c: "cf_read fp 4096 w = (got, w1)" by fastforce
  then have g: "length got \<le> 4096" "rest w = got @ rest w1" "\<not> cf_error fp w1" "got = [] \<longrightarrow> rest w1 = [] \<and> cf_eof fp w1"
    using assms(1) [unfolded reads_ok_def, rule_format, of 4096 w got w1] by auto
  obtain b1 where b1: "aem_stringbuf_file_read al b 4096 got = Some (length got, b1)" "sb_ready al b1" "sb_out b1 = sb_out b @ got"
    using file_read_ready [OF less.prems(1) _ g(1)] less.prems(2) by auto
  have n1: "sb_n b1 = sb_n b + length got"
    using arg_cong [OF b1(3), of length] b1(2) less.prems(1) by (simp add: sb_ready_def)
  show ?case
  proof (cases "got = []")
    case True
    then show ?thesis using c b1 g by (subst aem_stringbuf_file_read_all.simps) simp
  next
    case False
    have "length (rest w1) < length (rest w)" "sb_n b1 + length (rest w1) + 4096 \<le> 2 ^ 24"
      using g(2) False n1 less.prems(2) by auto
    from less.hyps [OF this(1) b1(2) this(2)] obtain b2 w2
      where "aem_stringbuf_file_read_all al fp b1 w1 = Some (1, b2, w2)" "sb_ready al b2" "sb_out b2 = sb_out b1 @ rest w1" "rest w2 = []"
      by blast
    then show ?thesis using c b1 g(2) False by (subst aem_stringbuf_file_read_all.simps) simp
  qed
qed

text \<open>No outcome is the success that the code provides for.\<close>
lemma file_read_all_never_zero:
  assumes "aem_stringbuf_file_read_all al fp b w = Some (rc, b1, w1)"
  shows "rc \<noteq> 0"
proof -
  have "fst y \<noteq> 0" if "aem_stringbuf_file_read_all al fp b w = Some y" for y
    by (rule aem_stringbuf_file_read_all.raw_induct [OF _ that, where P = "\<lambda>al fp b w y. fst y \<noteq> 0"])
      (auto simp: bind_eq_Some_conv split: prod.splits if_splits)
  then show ?thesis using assms by fastforce
qed

end
