(* ===== verification/Aem_Disas.thy ===== *)
theory Aem_Disas
  imports Aem_Compile Aem_Log Aem_File Aem_Gc
begin

text \<open>
  What the library prints of its own structures: characters and ranges (\<open>nfa-util.c\<close>), the disassembly
  of a program and the trace of a thread (\<open>nfa.c\<close>), the tree of a pattern and its flags
  (\<open>nfa-compile.c\<close>), the graph of the objects of a collector (\<open>gc.c\<close>). Each printer is shown to append
  a text that is defined without a buffer.
\<close>

section \<open>Characters and ranges\<close>

definition aem_nfa_desc_char :: "u8 allocator \<Rightarrow> stringbuf \<Rightarrow> u32 \<Rightarrow> stringbuf option" where
  "aem_nfa_desc_char al b c =
     (if c = 10 then aem_stringbuf_puts al b (Some (cstr [CHR 0x5C, CHR ''n'']))
      else if c = 13 then aem_stringbuf_puts al b (Some (cstr [CHR 0x5C, CHR ''r'']))
      else if c = 9 then aem_stringbuf_puts al b (Some (cstr [CHR 0x5C, CHR ''t'']))
      else if c = 0 then aem_stringbuf_puts al b (Some (cstr [CHR 0x5C, CHR ''0'']))
      else if c = 39 then aem_stringbuf_puts al b (Some (cstr [CHR 0x5C, CHR 0x27]))
      else if c = 92 then aem_stringbuf_puts al b (Some (cstr [CHR 0x5C, CHR 0x5C]))
      else if c = 91 then aem_stringbuf_puts al b (Some (cstr [CHR 0x5C, CHR ''['']))
      else if c = 93 then aem_stringbuf_puts al b (Some (cstr [CHR 0x5C, CHR '']'']))
      else if 32 \<le> c \<and> c < 127 then aem_stringbuf_putc al b (ucast c)
      else aem_stringbuf_vprintf al b (Some (cstr [CHR 0x5C, CHR ''x''] @ zero_pad 2 (c_hex (unat c)))))"

definition aem_nfa_desc_range :: "u8 allocator \<Rightarrow> stringbuf \<Rightarrow> u32 \<Rightarrow> u32 \<Rightarrow> stringbuf option" where
  "aem_nfa_desc_range al b lo hi =
     (if hi \<noteq> lo then do {
        b1 \<leftarrow> aem_stringbuf_puts al b (Some (AEM_SGR ''95'' @ cstr ''['' @ AEM_SGR ''0''));
        b2 \<leftarrow> aem_nfa_desc_char al b1 lo;
        b3 \<leftarrow> aem_stringbuf_puts al b2 (Some (AEM_SGR ''95'' @ cstr ''-'' @ AEM_SGR ''0''));
        b4 \<leftarrow> aem_nfa_desc_char al b3 hi;
        aem_stringbuf_puts al b4 (Some (AEM_SGR ''95'' @ cstr '']'' @ AEM_SGR ''0'')) }
      else do {
        b1 \<leftarrow> aem_stringbuf_puts al b (Some (AEM_SGR ''95'' @ cstr [CHR 0x27] @ AEM_SGR ''0''));
        b2 \<leftarrow> aem_nfa_desc_char al b1 lo;
        aem_stringbuf_puts al b2 (Some (AEM_SGR ''95'' @ cstr [CHR 0x27] @ AEM_SGR ''0'')) })"

section \<open>Names\<close>

fun op_label :: "aem_nfa_op \<Rightarrow> u8 list" where
  "op_label AEM_NFA_RANGE = cstr ''range''" | "op_label AEM_NFA_CLASS = cstr ''class''"
| "op_label AEM_NFA_CAPTURE = cstr ''capture''" | "op_label AEM_NFA_MATCH = cstr ''match''"
| "op_label AEM_NFA_JMP = cstr ''jmp''" | "op_label AEM_NFA_FORK = cstr ''fork''"

text \<open>\<open>NULL\<close> for a number that is no enumerator, as with \<open>aem_nfa_cclass_name\<close>.\<close>
definition aem_nfa_op_name :: "nat \<Rightarrow> u8 list ptr" where
  "aem_nfa_op_name x =
     map_option op_label (find (\<lambda>opc. op_code opc = x)
       [AEM_NFA_RANGE, AEM_NFA_CLASS, AEM_NFA_CAPTURE, AEM_NFA_MATCH, AEM_NFA_JMP, AEM_NFA_FORK])"

section \<open>Disassembly\<close>

text \<open>The number of digits of \<open>n\<close>, none for 0.\<close>
fun digit_count :: "nat \<Rightarrow> nat \<Rightarrow> nat" where
  "digit_count base n = (if n = 0 \<or> base < 2 then 0 else Suc (digit_count base (n div base)))"

declare digit_count.simps [simp del]

definition space_pad :: "nat \<Rightarrow> u8 list \<Rightarrow> u8 list" where
  "space_pad w ds = replicate (w - length ds) 32 @ ds"

text \<open>The \<open>switch\<close> on the operation, \<open>insn\<close> being the rest of the instruction.\<close>
definition disas_operand :: "u8 allocator \<Rightarrow> u32 \<Rightarrow> stringbuf \<Rightarrow> stringbuf option" where
  "disas_operand al w b =
     (let insn = drop_bit AEM_NFA_OP_LEN w
      in case nfa_decode w of
           I_Range lo hi \<Rightarrow> aem_nfa_desc_range al b (ucast lo) (ucast hi)
         | I_Class neg frontier cclass \<Rightarrow> do {
             b4 \<leftarrow> (if frontier \<or> neg then do {
                 b1 \<leftarrow> aem_stringbuf_puts al b (Some (AEM_SGR ''95''));
                 b2 \<leftarrow> (if frontier then aem_stringbuf_puts al b1 (Some (cstr ''>'')) else Some b1);
                 b3 \<leftarrow> (if neg then aem_stringbuf_puts al b2 (Some (cstr ''!'')) else Some b2);
                 aem_stringbuf_puts al b3 (Some (AEM_SGR ''0'')) }
               else Some b);
             (case aem_nfa_cclass_name cclass of
                Some name \<Rightarrow> aem_stringbuf_puts al b4 (Some name)
              | None \<Rightarrow> aem_stringbuf_vprintf al b4
                  (Some (AEM_SGR ''91'' @ cstr ''<'' @ c_hex_alt cclass @ cstr ''>'' @ AEM_SGR ''0''))) }
         | I_Capture fin n \<Rightarrow> aem_stringbuf_vprintf al b
             (Some ((if fin then cstr ''end'' else cstr ''start'') @ cstr '' '' @ c_hex n @ cstr '' ''))
         | I_Match n \<Rightarrow> aem_stringbuf_vprintf al b (Some (c_hex n))
         | I_Jmp n \<Rightarrow> aem_stringbuf_vprintf al b (Some (c_hex n))
         | I_Fork n \<Rightarrow> aem_stringbuf_vprintf al b (Some (c_hex n))
         | I_Invalid opc \<Rightarrow> aem_stringbuf_vprintf al b
             (Some (cstr ''op '' @ c_hex opc @ cstr '' '' @ c_hex (unat insn))))"

definition disas_line ::
  "u8 allocator \<Rightarrow> nfa \<Rightarrow> u32 list ptr \<Rightarrow> nat \<Rightarrow> nat \<Rightarrow> stringbuf \<Rightarrow> nat \<Rightarrow> stringbuf option" where
  "disas_line al nfa marks pc_width match_width b pc =
     do { let w = pgm nfa ! pc;
          let opc = unat (w AND 7);
          let line_start = sb_n b;
          let mark = (case marks of Some m \<Rightarrow> if bitfield_test m pc then cstr ''>'' else cstr '' '' | None \<Rightarrow> cstr '' '');
          b1 \<leftarrow> aem_stringbuf_vprintf al b (Some (mark @ cstr '' '' @ zero_pad pc_width (c_hex pc) @ cstr '': ''));
          let op_start = sb_n b1;
          b2 \<leftarrow> aem_stringbuf_puts al b1 (Some (if aem_nfa_op_name opc \<noteq> None then AEM_SGR ''96'' else AEM_SGR ''91''));
          b3 \<leftarrow> aem_stringbuf_puts al b2 (Some (case aem_nfa_op_name opc of Some name \<Rightarrow> name | None \<Rightarrow> cstr ''invalid''));
          b4 \<leftarrow> aem_stringbuf_puts al b3 (Some (AEM_SGR ''0''));
          b5 \<leftarrow> aem_ansi_pad al b4 op_start 8;
          b6 \<leftarrow> disas_operand al w b5;
          let dbg = trace_dbg nfa ! pc;
          b7 \<leftarrow> aem_ansi_pad al b6 line_start 40;
          b8 \<leftarrow> aem_stringbuf_vprintf al b7 (Some (space_pad match_width (c_dec (ti_match dbg))));
          b9 \<leftarrow> (if aem_stringslice_ok (ti_where dbg) then do {
              c1 \<leftarrow> aem_stringbuf_puts al b8 (Some (cstr ''  ''));
              aem_stringbuf_putss al c1 (ti_where dbg) }
            else Some b8);
          aem_stringbuf_puts al b9 (Some (AEM_SGR ''0'' @ [10])) }"

definition aem_nfa_disas :: "u8 allocator \<Rightarrow> nfa \<Rightarrow> u32 list ptr \<Rightarrow> stringbuf \<Rightarrow> stringbuf option" where
  "aem_nfa_disas al nfa marks b =
     for_pcs (disas_line al nfa marks (digit_count 16 (n_insns nfa)) (digit_count 10 (nat (n_matches nfa))))
       [0..<n_insns nfa] b"

section \<open>The trace of a thread\<close>

text \<open>One round of the loop: carets under what the part of the pattern has in common with \<open>bounds\<close>.\<close>
definition trace_part ::
  "u8 allocator \<Rightarrow> nfa \<Rightarrow> u32 list \<Rightarrow> nfa_trace_info \<Rightarrow> nat \<Rightarrow> stringbuf \<Rightarrow> nat \<Rightarrow> stringbuf option" where
  "trace_part al nfa seen regex base b i =
     (let part = trace_dbg nfa ! i; bounds = ti_where regex in
      if \<not> bitfield_test seen i then Some b
      else if ti_match part \<noteq> ti_match regex then Some b
      else
        let start = max (ss_start (ti_where part)) (ss_start bounds);
            stop = min (ss_end (ti_where part)) (ss_end bounds)
        in if start = stop then Some b
           else if stop < start then aem_stringbuf_puts al b (Some (10 # cstr ''(negative overlap)''))
           else for_pcs (\<lambda>b p. let j = base + (p - ss_start bounds)
                  in if j < 1000000 then aem_stringbuf_assign al b j 32 94 else None) [start..<stop] b)"

fun state_label :: "aem_nfa_thr_state \<Rightarrow> u8 list" where
  "state_label AEM_NFA_THR_LIVE = cstr ''live''"
| "state_label AEM_NFA_THR_DEAD = cstr ''dead''"
| "state_label AEM_NFA_THR_MATCHED = cstr ''matched''"

text \<open>What is appended to the message; a thread that has not run has no instruction before its own.\<close>
definition aem_nfa_show_trace :: "u8 allocator \<Rightarrow> nfa \<Rightarrow> nfa_thread \<Rightarrow> stringbuf \<Rightarrow> stringbuf option" where
  "aem_nfa_show_trace al nfa thr b =
     do { b1 \<leftarrow> aem_stringbuf_vprintf al b
            (Some (cstr ''Match trace for '' @ state_label (thr_state thr) @ cstr '' thread:'' @ [10]));
          if thr_pc thr = 0 \<or> length (pgm nfa) < thr_pc thr \<or> length (trace_dbg nfa) < thr_pc thr then None
          else
            let match_pc = thr_pc thr - 1; regex = trace_dbg nfa ! match_pc; seen = nm_visited (thr_match thr)
            in if unat (pgm nfa ! match_pc AND 7) \<noteq> op_code AEM_NFA_MATCH then do {
                 b2 \<leftarrow> aem_stringbuf_vprintf al b1 (Some (cstr ''(didn'' @ [39] @ cstr ''t match; showing disassembly instead)'' @ [10]));
                 aem_nfa_disas al nfa (Some seen) b2 }
               else if ti_match regex < 0 then
                 aem_stringbuf_vprintf al b1 (Some (cstr ''(not attached to any regex)''))
               else do {
                 b2 \<leftarrow> aem_stringbuf_putss al b1 (ti_where regex);
                 b3 \<leftarrow> aem_stringbuf_puts al b2 (Some [10]);
                 for_pcs (trace_part al nfa seen regex (sb_n b3)) [0..<n_insns nfa] b3 } }"

section \<open>Trees and flags\<close>

definition sexpr_args :: "u8 allocator \<Rightarrow> nfa_node_args \<Rightarrow> stringslice \<Rightarrow> stringbuf \<Rightarrow> stringbuf option" where
  "sexpr_args al args txt b =
     (let quoted = do {
          b1 \<leftarrow> aem_stringbuf_putc al b 39;
          b2 \<leftarrow> aem_stringbuf_putss al b1 txt;
          aem_stringbuf_putc al b2 39 }
      in case args of
           AEM_NFA_NODE_RANGE lo hi \<Rightarrow> aem_nfa_desc_range al b lo hi
         | AEM_NFA_NODE_ATOM c \<Rightarrow> quoted
         | AEM_NFA_NODE_CLASS cclass neg frontier \<Rightarrow> quoted
         | AEM_NFA_NODE_REPEAT lo hi reluctant \<Rightarrow> do {
             b1 \<leftarrow> aem_stringbuf_puts al b (Some (cstr ''{''));
             b2 \<leftarrow> (if lo \<noteq> 0 then aem_stringbuf_vprintf al b1 (Some (c_dec (sint lo))) else Some b1);
             b3 \<leftarrow> aem_stringbuf_puts al b2 (Some (cstr '',''));
             b4 \<leftarrow> (if hi \<noteq> -1 then aem_stringbuf_vprintf al b3 (Some (c_dec (sint hi))) else Some b3);
             aem_stringbuf_puts al b4 (Some (cstr ''}'')) }
         | AEM_NFA_NODE_CAPTURE n \<Rightarrow> do {
             b1 \<leftarrow> aem_stringbuf_puts al b (Some (cstr ''capture''));
             aem_stringbuf_vprintf al b1 (Some (cstr '' '' @ c_dec (c_int (int n)))) }
         | AEM_NFA_NODE_BRANCH \<Rightarrow> Some b
         | AEM_NFA_NODE_ALTERNATION \<Rightarrow> aem_stringbuf_putss al b txt)"

definition sexpr_parens :: "nfa_node_args \<Rightarrow> nfa_node list \<Rightarrow> bool" where
  "sexpr_parens args children \<longleftrightarrow> children \<noteq> [] \<or> (case args of AEM_NFA_NODE_REPEAT _ _ _ \<Rightarrow> True | _ \<Rightarrow> False)"

fun node_sexpr :: "u8 allocator \<Rightarrow> nfa_node \<Rightarrow> stringbuf \<Rightarrow> stringbuf option"
  and children_sexpr :: "u8 allocator \<Rightarrow> bool \<Rightarrow> nfa_node list \<Rightarrow> stringbuf \<Rightarrow> stringbuf option" where
  "node_sexpr al (Node args txt children) b =
     do { b1 \<leftarrow> (if sexpr_parens args children
            then aem_stringbuf_vprintf al b (Some (AEM_SGR ''1;96'' @ cstr ''('' @ AEM_SGR ''0'')) else Some b);
          b2 \<leftarrow> sexpr_args al args txt b1;
          b3 \<leftarrow> children_sexpr al (args \<noteq> AEM_NFA_NODE_BRANCH) children b2;
          if sexpr_parens args children
          then aem_stringbuf_vprintf al b3 (Some (AEM_SGR ''1;96'' @ cstr '')'' @ AEM_SGR ''0'')) else Some b3 }"
| "children_sexpr al want_space [] b = Some b"
| "children_sexpr al want_space (child # children) b =
     do { b1 \<leftarrow> (if want_space then aem_stringbuf_putc al b 32 else Some b);
          b2 \<leftarrow> node_sexpr al child b1;
          children_sexpr al True children b2 }"

definition aem_nfa_node_sexpr :: "u8 allocator \<Rightarrow> stringbuf \<Rightarrow> nfa_node ptr \<Rightarrow> stringbuf option" where
  "aem_nfa_node_sexpr al b p =
     (case p of None \<Rightarrow> aem_stringbuf_puts al b (Some (cstr ''()'')) | Some node \<Rightarrow> node_sexpr al node b)"

fun put_flags :: "u8 allocator \<Rightarrow> (u32 \<Rightarrow> bool) \<Rightarrow> bool \<Rightarrow> (u32 \<times> u8 list \<times> bool) list \<Rightarrow> stringbuf \<Rightarrow> stringbuf option" where
  "put_flags al wanted sandbox [] b = Some b"
| "put_flags al wanted sandbox ((val, letter, safe) # defs) b =
     do { b1 \<leftarrow> (if wanted val \<and> (safe \<or> \<not> sandbox) then aem_stringbuf_puts al b (Some letter) else Some b);
          put_flags al wanted sandbox defs b1 }"

definition aem_regex_flags_describe :: "u8 allocator \<Rightarrow> stringbuf \<Rightarrow> u32 \<Rightarrow> bool \<Rightarrow> stringbuf option" where
  "aem_regex_flags_describe al b flags sandbox =
     do { b1 \<leftarrow> put_flags al (\<lambda>val. flags AND val \<noteq> 0) sandbox regex_flags b;
          let checkpoint = sb_n b1;
          b2 \<leftarrow> aem_stringbuf_puts al b1 (Some (cstr ''-''));
          b3 \<leftarrow> put_flags al (\<lambda>val. flags AND val = 0) sandbox regex_flags b2;
          Some (if sb_n b3 = sz (checkpoint + 1) then b3\<lparr>sb_n := checkpoint\<rparr> else b3) }"

section \<open>The graph of a collector\<close>

text \<open>What the graph needs of an object's class: its name, and the method \<open>describe_gv\<close> if it has one.
  An object without a class has \<open>None\<close>.\<close>
type_synonym gv_class = "nat \<Rightarrow> (u8 list \<times> (stringbuf \<Rightarrow> stringbuf option) ptr) ptr"

definition gv_object :: "u8 allocator \<Rightarrow> gv_class \<Rightarrow> nat \<Rightarrow> aem_gc_context \<times> stringbuf \<Rightarrow> (aem_gc_context \<times> stringbuf) option" where
  "gv_object al vtbl obj s =
     (case s of (ctx, b) \<Rightarrow>
        if \<not> aem_iter_gen_hit (go_iter (gc_object ctx obj)) (gc_iter ctx) then Some (ctx, b)
        else do {
          b1 \<leftarrow> aem_stringbuf_vprintf al b (Some (9 # c_dec (ig_id (go_iter (gc_object ctx obj))) @ cstr '' [''));
          b2 \<leftarrow> (case vtbl obj of
               Some (name, Some describe_gv) \<Rightarrow> describe_gv b1
             | Some (name, None) \<Rightarrow> do {
                 c1 \<leftarrow> aem_stringbuf_puts al b1 (Some (cstr ''label='' @ [34]));
                 c2 \<leftarrow> aem_string_escape al c1 (aem_stringslice_new_cstr (Some name));
                 c3 \<leftarrow> aem_stringbuf_puts al c2 (Some [34]);
                 aem_stringbuf_puts al c3 (Some (cstr ''];'' @ [10])) }
             | None \<Rightarrow> do {
                 c1 \<leftarrow> aem_stringbuf_puts al b1 (Some (cstr ''label='' @ [34] @ cstr ''UNKNOWN'' @ [34]));
                 aem_stringbuf_puts al c1 (Some (cstr ''];'' @ [10])) });
          Some (ctx, b2) })"

definition gc_dump_objects_gv ::
  "u8 allocator \<Rightarrow> gv_class \<Rightarrow> aem_gc_context \<Rightarrow> stringbuf \<Rightarrow> stringbuf option" where
  "gc_dump_objects_gv al vtbl ctx b =
     map_option snd (AEM_LL_FOR_ALL (\<lambda>(c, _). gc_ctx_next c) (gv_object al vtbl) gc_chain (ctx, b))"

text \<open>\<open>fopen\<close> gives a file or \<open>NULL\<close>; what the write returns is not looked at.\<close>
definition gc_write_objects_gv ::
  "u8 allocator \<Rightarrow> gv_class \<Rightarrow> ('w \<Rightarrow> 'w c_file ptr \<times> 'w) \<Rightarrow> ('w \<Rightarrow> 'w) \<Rightarrow> aem_gc_context \<Rightarrow> 'w \<Rightarrow> 'w option" where
  "gc_write_objects_gv al vtbl fopen fclose ctx w =
     do { b1 \<leftarrow> aem_stringbuf_puts al AEM_STRINGBUF_EMPTY (Some (cstr ''digraph gc {'' @ [10]));
          b2 \<leftarrow> aem_stringbuf_puts al b1 (Some (9 # cstr ''concentrate=true;'' @ [10]));
          b3 \<leftarrow> aem_stringbuf_puts al b2 (Some (9 # cstr ''newrank=true;'' @ [10]));
          b4 \<leftarrow> aem_stringbuf_puts al b3 (Some (9 # cstr ''splines=true;'' @ [10]));
          b5 \<leftarrow> gc_dump_objects_gv al vtbl ctx b4;
          b6 \<leftarrow> aem_stringbuf_puts al b5 (Some (cstr ''}'' @ [10]));
          (case fopen w of
             (None, w1) \<Rightarrow> Some w1
           | (Some fp, w1) \<Rightarrow> do { (rc, w2) \<leftarrow> aem_stringbuf_file_write (Some fp) (Some b6) w1; Some (fclose w2) }) }"

section \<open>The visible length of ASCII text\<close>

definition ascii :: "u8 list \<Rightarrow> bool" where
  "ascii bs \<longleftrightarrow> (\<forall>b \<in> set bs. b < 0x80)"

lemma ascii_simps [simp]:
  "ascii []" "ascii (b # bs) \<longleftrightarrow> b < 0x80 \<and> ascii bs" "ascii (bs @ bs') \<longleftrightarrow> ascii bs \<and> ascii bs'"
  "ascii (replicate k b) \<longleftrightarrow> k = 0 \<or> b < 0x80"
  by (auto simp: ascii_def)

lemma len_loop_ascii:
  assumes "ss_bytes sl = b # bs" "b < 0x80" "csi_rest (b # bs) = None"
  shows "aem_ansi_len_loop sl n = aem_ansi_len_loop (ss_advance sl 1) (sz (n + 1))"
proof -
  have "aem_ansi_match_csi sl = (AEM_STRINGSLICE_EMPTY, sl)" using match_csi_spec [of sl] assms(1,3) by simp
  moreover have "aem_stringslice_get_rune sl = (Some (ucast b), ss_advance sl 1)"
    using get_rune_encode [of sl "ucast b" bs] encode_ascii [OF assms(2)] assms(1) by simp
  ultimately show ?thesis using assms(1) by (subst aem_ansi_len_loop.simps) simp
qed

lemma len_loop_strip:
  "ascii (ss_bytes sl) \<Longrightarrow> n + length (ss_bytes sl) < 2 ^ 64 \<Longrightarrow>
     aem_ansi_len_loop sl n = Some (n + length (strip_text (ss_bytes sl)))"
proof (induction "length (ss_bytes sl)" arbitrary: sl n rule: less_induct)
  case less
  show ?case
  proof (cases "ss_bytes sl")
    case Nil
    then show ?thesis by (subst aem_ansi_len_loop.simps) simp
  next
    case (Cons b bs)
    show ?thesis
    proof (cases "csi_rest (ss_bytes sl)")
      case (Some rest)
      then have r: "suffix rest (ss_bytes sl)" "length rest + 3 \<le> length (ss_bytes sl)" using match_csi_spec [of sl] by auto
      have b: "ss_bytes (behind sl rest) = rest" by (rule behind_suffix(1) [OF r(1)])
      have "ascii rest" using less.prems(1) r(1) by (auto simp: suffix_def)
      then have "aem_ansi_len_loop (behind sl rest) n = Some (n + length (strip_text rest))"
        using less.hyps [of "behind sl rest" n] b r(2) less.prems(2) by simp
      then show ?thesis using len_loop_csi [OF Some] strip_text_csi [OF Some] by simp
    next
      case None
      have "aem_ansi_len_loop sl n = aem_ansi_len_loop (ss_advance sl 1) (sz (n + 1))"
        using len_loop_ascii [OF Cons] less.prems(1) None Cons by simp
      also have "\<dots> = Some (n + 1 + length (strip_text bs))"
        using less.hyps [of "ss_advance sl 1" "n + 1"] less.prems Cons by simp
      finally show ?thesis using None Cons by (simp add: strip_text_byte)
    qed
  qed
qed

text \<open>Padding ASCII text, colours and all, to \<open>width\<close> visible characters.\<close>
definition padding :: "nat \<Rightarrow> u8 list \<Rightarrow> u8 list" where
  "padding width bs = replicate (width - length (strip_text bs)) 32"

lemma pad_ascii:
  assumes b: "sb_ready al b" "sb_out b = pre @ bs" "ascii bs" and n: "sb_n b + length (padding width bs) \<le> 2 ^ 24"
  shows "\<exists>b'. aem_ansi_pad al b (length pre) width = Some b' \<and> sb_ready al b' \<and> sb_out b' = sb_out b @ padding width bs"
proof -
  have len: "length (sb_out b) = sb_n b" using b(1) by (simp add: sb_ready_def)
  let ?sl = "aem_stringslice_new_len (literal_addr + length pre) (drop (length pre) (take (sb_n b) (sb_s b)))"
  have sl: "ss_bytes ?sl = bs" using b(2) by (simp add: sb_out_def [symmetric])
  have "length bs < 2 ^ 64" using len b(2) n by simp
  then have "aem_ansi_len ?sl = Some (length (strip_text bs))"
    using len_loop_strip [of ?sl 0] sl b(3) by (simp only: aem_ansi_len_def) simp
  then have "aem_ansi_pad al b (length pre) width =
      (if length (strip_text bs) \<ge> width then Some b else put_spaces al (width - length (strip_text bs)) b)"
    using len b(2) by (simp add: aem_ansi_pad_def Let_def not_less)
  then show ?thesis using put_spaces_appends [of al "width - length (strip_text bs)"] b(1) n
    by (auto simp: appends_def padding_def)
qed

section \<open>What is printed\<close>

definition desc_char_text :: "u32 \<Rightarrow> u8 list" where
  "desc_char_text c =
     (if c = 10 then cstr [CHR 0x5C, CHR ''n'']
      else if c = 13 then cstr [CHR 0x5C, CHR ''r'']
      else if c = 9 then cstr [CHR 0x5C, CHR ''t'']
      else if c = 0 then cstr [CHR 0x5C, CHR ''0'']
      else if c \<in> {39, 92, 91, 93} then [92, ucast c]
      else if 32 \<le> c \<and> c < 127 then [ucast c]
      else cstr [CHR 0x5C, CHR ''x''] @ zero_pad 2 (c_hex (unat c)))"

definition coloured :: "string \<Rightarrow> u8 list \<Rightarrow> u8 list" where
  "coloured code w = AEM_SGR code @ w @ AEM_SGR ''0''"

definition desc_range_text :: "u32 \<Rightarrow> u32 \<Rightarrow> u8 list" where
  "desc_range_text lo hi =
     (if hi = lo then coloured ''95'' [39] @ desc_char_text lo @ coloured ''95'' [39]
      else coloured ''95'' (cstr ''['') @ desc_char_text lo @ coloured ''95'' (cstr ''-'') @ desc_char_text hi @
        coloured ''95'' (cstr '']''))"

lemmas writers = putc_appends puts_appends putss_appends vprintf_appends

lemma appends_eq: "appends al f v \<Longrightarrow> v = w \<Longrightarrow> appends al f w"
  by simp

lemma desc_char_appends: "appends al (\<lambda>b. aem_nfa_desc_char al b c) (desc_char_text c)"
proof -
  have "appends al (\<lambda>b. aem_nfa_desc_char al b c)
     (if c = 10 then cstr [CHR 0x5C, CHR ''n'']
      else if c = 13 then cstr [CHR 0x5C, CHR ''r'']
      else if c = 9 then cstr [CHR 0x5C, CHR ''t'']
      else if c = 0 then cstr [CHR 0x5C, CHR ''0'']
      else if c = 39 then cstr [CHR 0x5C, CHR 0x27]
      else if c = 92 then cstr [CHR 0x5C, CHR 0x5C]
      else if c = 91 then cstr [CHR 0x5C, CHR ''['']
      else if c = 93 then cstr [CHR 0x5C, CHR '']'']
      else if 32 \<le> c \<and> c < 127 then [ucast c]
      else cstr [CHR 0x5C, CHR ''x''] @ zero_pad 2 (c_hex (unat c)))"
    unfolding aem_nfa_desc_char_def by (intro appends_if writers)
  then show ?thesis by (rule appends_eq) (auto simp: desc_char_text_def cstr_def)
qed

lemma desc_range_appends: "appends al (\<lambda>b. aem_nfa_desc_range al b lo hi) (desc_range_text lo hi)"
proof -
  have "appends al (\<lambda>b. aem_nfa_desc_range al b lo hi)
     (if hi \<noteq> lo then (AEM_SGR ''95'' @ cstr ''['' @ AEM_SGR ''0'') @ desc_char_text lo @
        (AEM_SGR ''95'' @ cstr ''-'' @ AEM_SGR ''0'') @ desc_char_text hi @ (AEM_SGR ''95'' @ cstr '']'' @ AEM_SGR ''0'')
      else (AEM_SGR ''95'' @ cstr [CHR 0x27] @ AEM_SGR ''0'') @ desc_char_text lo @ (AEM_SGR ''95'' @ cstr [CHR 0x27] @ AEM_SGR ''0''))"
    unfolding aem_nfa_desc_range_def by (intro appends_if appends_then writers desc_char_appends)
  then show ?thesis by (rule appends_eq) (simp add: desc_range_text_def coloured_def cstr_def)
qed

definition class_marks :: "bool \<Rightarrow> bool \<Rightarrow> u8 list" where
  "class_marks neg frontier =
     (if frontier \<or> neg
      then coloured ''95'' ((if frontier then cstr ''>'' else []) @ (if neg then cstr ''!'' else [])) else [])"

definition operand_text :: "u32 \<Rightarrow> u8 list" where
  "operand_text w =
     (case nfa_decode w of
        I_Range lo hi \<Rightarrow> desc_range_text (ucast lo) (ucast hi)
      | I_Class neg frontier cclass \<Rightarrow> class_marks neg frontier @
          (case aem_nfa_cclass_name cclass of
             Some name \<Rightarrow> name | None \<Rightarrow> coloured ''91'' (cstr ''<'' @ c_hex_alt cclass @ cstr ''>''))
      | I_Capture fin n \<Rightarrow> (if fin then cstr ''end'' else cstr ''start'') @ cstr '' '' @ c_hex n @ cstr '' ''
      | I_Match n \<Rightarrow> c_hex n
      | I_Jmp n \<Rightarrow> c_hex n
      | I_Fork n \<Rightarrow> c_hex n
      | I_Invalid opc \<Rightarrow> cstr ''op '' @ c_hex opc @ cstr '' '' @ c_hex (unat (drop_bit AEM_NFA_OP_LEN w)))"

lemma appends_id [simp]: "appends al (\<lambda>b. Some b) []"
  by (simp add: appends_def)

lemma class_appends:
  "appends al (\<lambda>b. do {
       b4 \<leftarrow> (if frontier \<or> neg then do {
           b1 \<leftarrow> aem_stringbuf_puts al b (Some (AEM_SGR ''95''));
           b2 \<leftarrow> (if frontier then aem_stringbuf_puts al b1 (Some (cstr ''>'')) else Some b1);
           b3 \<leftarrow> (if neg then aem_stringbuf_puts al b2 (Some (cstr ''!'')) else Some b2);
           aem_stringbuf_puts al b3 (Some (AEM_SGR ''0'')) }
         else Some b);
       (case aem_nfa_cclass_name cclass of
          Some name \<Rightarrow> aem_stringbuf_puts al b4 (Some name)
        | None \<Rightarrow> aem_stringbuf_vprintf al b4
            (Some (AEM_SGR ''91'' @ cstr ''<'' @ c_hex_alt cclass @ cstr ''>'' @ AEM_SGR ''0''))) })
     (class_marks neg frontier @
       (case aem_nfa_cclass_name cclass of
          Some name \<Rightarrow> name | None \<Rightarrow> coloured ''91'' (cstr ''<'' @ c_hex_alt cclass @ cstr ''>'')))"
proof (rule appends_then)
  have "appends al (\<lambda>b. if frontier \<or> neg then do {
           b1 \<leftarrow> aem_stringbuf_puts al b (Some (AEM_SGR ''95''));
           b2 \<leftarrow> (if frontier then aem_stringbuf_puts al b1 (Some (cstr ''>'')) else Some b1);
           b3 \<leftarrow> (if neg then aem_stringbuf_puts al b2 (Some (cstr ''!'')) else Some b2);
           aem_stringbuf_puts al b3 (Some (AEM_SGR ''0'')) }
         else Some b)
     (if frontier \<or> neg then AEM_SGR ''95'' @ (if frontier then cstr ''>'' else []) @ (if neg then cstr ''!'' else []) @ AEM_SGR ''0''
      else [])"
    by (intro appends_if appends_then writers appends_id)
  then show "appends al (\<lambda>b. if frontier \<or> neg then do {
           b1 \<leftarrow> aem_stringbuf_puts al b (Some (AEM_SGR ''95''));
           b2 \<leftarrow> (if frontier then aem_stringbuf_puts al b1 (Some (cstr ''>'')) else Some b1);
           b3 \<leftarrow> (if neg then aem_stringbuf_puts al b2 (Some (cstr ''!'')) else Some b2);
           aem_stringbuf_puts al b3 (Some (AEM_SGR ''0'')) }
         else Some b) (class_marks neg frontier)"
    by (rule appends_eq) (simp add: class_marks_def coloured_def)
next
  show "appends al (\<lambda>b. case aem_nfa_cclass_name cclass of
          Some name \<Rightarrow> aem_stringbuf_puts al b (Some name)
        | None \<Rightarrow> aem_stringbuf_vprintf al b
            (Some (AEM_SGR ''91'' @ cstr ''<'' @ c_hex_alt cclass @ cstr ''>'' @ AEM_SGR ''0'')))
     (case aem_nfa_cclass_name cclass of
        Some name \<Rightarrow> name | None \<Rightarrow> coloured ''91'' (cstr ''<'' @ c_hex_alt cclass @ cstr ''>''))"
    by (cases "aem_nfa_cclass_name cclass") (auto simp: coloured_def intro: puts_appends appends_eq [OF vprintf_appends])
qed

lemma operand_appends: "appends al (disas_operand al w) (operand_text w)"
proof (cases "nfa_decode w")
  case (I_Range lo hi)
  then show ?thesis using desc_range_appends by (simp add: disas_operand_def [abs_def] operand_text_def)
next
  case (I_Class neg frontier cclass)
  then show ?thesis using class_appends [of al frontier neg cclass]
    by (simp add: disas_operand_def [abs_def] operand_text_def)
qed (simp_all add: disas_operand_def [abs_def] operand_text_def vprintf_appends del: append_assoc)

text \<open>All of it is ASCII.\<close>

lemma digit_char_ascii [simp]: "d < 16 \<Longrightarrow> digit_char d < 0x80"
  by (simp add: digit_char_def word_less_nat_alt unat_of_nat take_bit_nat_eq_self)

lemma digits_ascii: "2 \<le> base \<Longrightarrow> base \<le> 16 \<Longrightarrow> ascii (digits_in base n)"
proof (induction n rule: less_induct)
  case (less n)
  show ?case
  proof (cases "n < base")
    case True
    then show ?thesis using less.prems by (subst digits_in.simps) simp
  next
    case False
    have "n mod base < base" by (rule mod_less_divisor) (use less.prems in simp)
    then have "n mod base < 16" using less.prems by (meson less_le_trans)
    moreover have "n div base < n" using False less.prems by auto
    ultimately show ?thesis using less False by (subst digits_in.simps) simp
  qed
qed

lemma ascii_text [simp]:
  "ascii (c_hex n)" "ascii (c_dec i)" "ascii (c_hex_alt n)" "ascii (zero_pad k bs) = ascii bs" "ascii (space_pad k bs) = ascii bs"
  by (auto simp: c_hex_def c_dec_def c_hex_alt_def zero_pad_def space_pad_def digits_ascii cstr_def)

lemma ascii_sgr [simp]: "ascii (AEM_SGR code) = ascii (cstr code)" "ascii (coloured code bs) = (ascii (cstr code) \<and> ascii bs)"
  by (auto simp: AEM_SGR_def coloured_def cstr_def)

lemma ascii_desc_char [simp]: "ascii (desc_char_text c)"
proof -
  have "ucast c < (0x80 :: u8)" if "c < 127"
  proof -
    have "unat c < 127" using that by (simp add: word_less_nat_alt)
    then show ?thesis by (simp add: word_less_nat_alt unsigned_ucast_eq take_bit_nat_eq_self)
  qed
  then show ?thesis by (auto simp: desc_char_text_def cstr_def)
qed

lemma ascii_desc_range [simp]: "ascii (desc_range_text lo hi)"
  by (simp add: desc_range_text_def cstr_def)

lemma ascii_names:
  "aem_nfa_op_name x = Some name \<Longrightarrow> ascii name" "aem_nfa_cclass_name y = Some cname \<Longrightarrow> ascii cname"
proof -
  show "ascii name" if "aem_nfa_op_name x = Some name"
    using that by (auto simp: aem_nfa_op_name_def cstr_def split: if_splits)
  have "\<forall>i < length all_cclasses. \<forall>l. aem_nfa_cclass_name i = Some l \<longrightarrow> ascii l"
    by (auto simp: aem_nfa_cclass_name_def cstr_def split: aem_nfa_cclass.splits)
  then show "ascii cname" if "aem_nfa_cclass_name y = Some cname"
    using that by (metis aem_nfa_cclass_name_def option.distinct(1))
qed

lemma ascii_operand [simp]: "ascii (operand_text w)"
  by (auto simp: operand_text_def class_marks_def cstr_def ascii_names split: nfa_insn.split option.split)

section \<open>The listing\<close>

definition listing_left :: "nfa \<Rightarrow> u32 list ptr \<Rightarrow> nat \<Rightarrow> nat \<Rightarrow> u8 list" where
  "listing_left nfa marks pc_width pc =
     (let w = pgm nfa ! pc; name = aem_nfa_op_name (unat (w AND 7));
          opc = coloured (if name \<noteq> None then ''96'' else ''91'') (case name of Some s \<Rightarrow> s | None \<Rightarrow> cstr ''invalid'')
      in (case marks of Some m \<Rightarrow> if bitfield_test m pc then cstr ''>'' else cstr '' '' | None \<Rightarrow> cstr '' '') @
         cstr '' '' @ zero_pad pc_width (c_hex pc) @ cstr '': '' @ opc @ padding 8 opc @ operand_text w)"

text \<open>The line of an instruction: left the instruction, from the 40th column on where it comes from.\<close>
definition listing_line :: "nfa \<Rightarrow> u32 list ptr \<Rightarrow> nat \<Rightarrow> nat \<Rightarrow> nat \<Rightarrow> u8 list" where
  "listing_line nfa marks pc_width match_width pc =
     (let left = listing_left nfa marks pc_width pc; dbg = trace_dbg nfa ! pc
      in left @ padding 40 left @ space_pad match_width (c_dec (ti_match dbg)) @
         (if aem_stringslice_ok (ti_where dbg) then cstr ''  '' @ ss_bytes (ti_where dbg) else []) @ AEM_SGR ''0'' @ [10])"

lemma ready_length: "sb_ready al b \<Longrightarrow> length (sb_out b) = sb_n b"
  by (simp add: sb_ready_def)

lemma ascii_left: "ascii (listing_left nfa marks pc_width pc)"
  by (auto simp: listing_left_def Let_def cstr_def padding_def ascii_names split: option.split)

lemma mnemonic_appends:
  "appends al (\<lambda>b. do { b2 \<leftarrow> aem_stringbuf_puts al b (Some c); b3 \<leftarrow> aem_stringbuf_puts al b2 (Some s);
     aem_stringbuf_puts al b3 (Some e) }) (c @ s @ e)"
  by (intro appends_then puts_appends)

lemma origin_appends:
  "appends al (\<lambda>b. do { b1 \<leftarrow> aem_stringbuf_vprintf al b (Some num);
     b2 \<leftarrow> (if aem_stringslice_ok sl then do { c1 \<leftarrow> aem_stringbuf_puts al b1 (Some sep); aem_stringbuf_putss al c1 sl }
       else Some b1);
     aem_stringbuf_puts al b2 (Some e) }) (num @ (if aem_stringslice_ok sl then sep @ ss_bytes sl else []) @ e)"
  by (intro appends_then appends_if writers appends_id)

lemma disas_line_appends:
  "appends al (\<lambda>b. disas_line al nfa marks pc_width match_width b pc) (listing_line nfa marks pc_width match_width pc)"
  unfolding appends_def
proof (intro allI impI)
  fix b assume b: "sb_ready al b \<and> sb_n b + length (listing_line nfa marks pc_width match_width pc) \<le> 2 ^ 24"
  let ?w = "pgm nfa ! pc" and ?dbg = "trace_dbg nfa ! pc"
  let ?name = "aem_nfa_op_name (unat (?w AND 7))"
  let ?head = "(case marks of Some m \<Rightarrow> if bitfield_test m pc then cstr ''>'' else cstr '' '' | None \<Rightarrow> cstr '' '') @
    cstr '' '' @ zero_pad pc_width (c_hex pc) @ cstr '': ''"
  let ?col = "if ?name \<noteq> None then AEM_SGR ''96'' else AEM_SGR ''91''"
  let ?str = "case ?name of Some s \<Rightarrow> s | None \<Rightarrow> cstr ''invalid''"
  let ?op = "?col @ ?str @ AEM_SGR ''0''"
  let ?left = "?head @ ?op @ padding 8 ?op @ operand_text ?w"
  let ?where = "if aem_stringslice_ok (ti_where ?dbg) then cstr ''  '' @ ss_bytes (ti_where ?dbg) else []"
  let ?right = "space_pad match_width (c_dec (ti_match ?dbg)) @ ?where @ AEM_SGR ''0'' @ [10]"
  have op: "?op = coloured (if ?name \<noteq> None then ''96'' else ''91'') ?str" by (simp add: coloured_def)
  have left: "listing_left nfa marks pc_width pc = ?left" unfolding listing_left_def Let_def op by simp
  have line: "listing_line nfa marks pc_width match_width pc = ?left @ padding 40 ?left @ ?right"
    unfolding listing_line_def Let_def left ..
  have len: "sb_n b + length ?left + length (padding 40 ?left) + length ?right \<le> 2 ^ 24"
    using b unfolding line by simp
  obtain b1 where b1: "aem_stringbuf_vprintf al b (Some ?head) = Some b1" "sb_ready al b1" "sb_out b1 = sb_out b @ ?head"
      "sb_n b1 = sb_n b + length ?head"
    by (rule appendsD [OF vprintf_appends [of al ?head], of b]) (use b len in auto)
  obtain b4 where d: "do { b2 \<leftarrow> aem_stringbuf_puts al b1 (Some ?col); b3 \<leftarrow> aem_stringbuf_puts al b2 (Some ?str);
      aem_stringbuf_puts al b3 (Some (AEM_SGR ''0'')) } = Some b4"
      and b4: "sb_ready al b4" "sb_out b4 = sb_out b1 @ ?op" "sb_n b4 = sb_n b1 + length ?op"
    by (rule appendsD [OF mnemonic_appends b1(2)]) (use b1(4) len in auto)
  then obtain b2 b3 where s: "aem_stringbuf_puts al b1 (Some ?col) = Some b2" "aem_stringbuf_puts al b2 (Some ?str) = Some b3"
      "aem_stringbuf_puts al b3 (Some (AEM_SGR ''0'')) = Some b4"
    by (auto simp: bind_eq_Some_conv)
  have asc: "ascii ?op" unfolding op by (auto simp: cstr_def ascii_names split: option.split)
  obtain b5 where b5: "aem_ansi_pad al b4 (sb_n b1) 8 = Some b5" "sb_ready al b5" "sb_out b5 = sb_out b4 @ padding 8 ?op"
    using pad_ascii [OF b4(1,2) asc, of 8] b4(3) b1(4) len ready_length [OF b1(2)] by auto
  obtain b6 where b6: "disas_operand al ?w b5 = Some b6" "sb_ready al b6" "sb_out b6 = sb_out b5 @ operand_text ?w"
    by (rule appendsD [OF operand_appends b5(2)])
      (use len b5(3) b4(2) b1(3) ready_length [OF b5(2)] ready_length [of al b] b in auto)
  have out6: "sb_out b6 = sb_out b @ ?left" using b6(3) b5(3) b4(2) b1(3) by simp
  have n6: "sb_n b6 = sb_n b + length ?left" using arg_cong [OF out6, of length] ready_length [OF b6(2)] b ready_length [of al b] by simp
  have ascl: "ascii ?left" using ascii_left [of nfa marks pc_width pc] unfolding left .
  obtain b7 where b7: "aem_ansi_pad al b6 (sb_n b) 40 = Some b7" "sb_ready al b7" "sb_out b7 = sb_out b6 @ padding 40 ?left"
    using pad_ascii [OF b6(2) out6 ascl, of 40] n6 len ready_length [of al b] b by auto
  have n7: "sb_n b7 = sb_n b + length ?left + length (padding 40 ?left)"
    using arg_cong [OF b7(3), of length] ready_length [OF b7(2)] ready_length [OF b6(2)] n6 by simp
  obtain b' where b': "do { b8 \<leftarrow> aem_stringbuf_vprintf al b7 (Some (space_pad match_width (c_dec (ti_match ?dbg))));
      b9 \<leftarrow> (if aem_stringslice_ok (ti_where ?dbg) then do {
          c1 \<leftarrow> aem_stringbuf_puts al b8 (Some (cstr ''  ''));
          aem_stringbuf_putss al c1 (ti_where ?dbg) } else Some b8);
      aem_stringbuf_puts al b9 (Some (AEM_SGR ''0'' @ [10])) } = Some b'" "sb_ready al b'" "sb_out b' = sb_out b7 @ ?right"
    by (rule appendsD [OF origin_appends b7(2)]) (use n7 len in auto)
  have "disas_line al nfa marks pc_width match_width b pc = Some b'"
    unfolding disas_line_def Let_def b1(1) bind.bind_lunit s b5(1) b6(1) b7(1) b'(1) ..
  moreover have "sb_out b' = sb_out b @ listing_line nfa marks pc_width match_width pc"
    unfolding line b'(3) b7(3) out6 by simp
  ultimately show "\<exists>b'. disas_line al nfa marks pc_width match_width b pc = Some b' \<and> sb_ready al b' \<and>
      sb_out b' = sb_out b @ listing_line nfa marks pc_width match_width pc"
    using b'(2) by blast
qed

lemma for_pcs_appends:
  "(\<And>pc. pc \<in> set pcs \<Longrightarrow> appends al (\<lambda>b. f b pc) (g pc)) \<Longrightarrow> appends al (for_pcs f pcs) (concat (map g pcs))"
proof (induction pcs)
  case Nil
  then show ?case by (simp add: appends_def)
next
  case (Cons pc pcs)
  have "for_pcs f (pc # pcs) = (\<lambda>b. Option.bind (f b pc) (for_pcs f pcs))" by (rule ext) simp
  then show ?case using appends_then [of al "\<lambda>b. f b pc" "g pc" "for_pcs f pcs"] Cons by simp
qed

definition listing :: "nfa \<Rightarrow> u32 list ptr \<Rightarrow> u8 list" where
  "listing nfa marks = concat (map
     (listing_line nfa marks (digit_count 16 (n_insns nfa)) (digit_count 10 (nat (n_matches nfa)))) [0..<n_insns nfa])"

text \<open>Disassembling appends one line for each instruction.\<close>
lemma disas_appends: "appends al (aem_nfa_disas al nfa marks) (listing nfa marks)"
proof -
  have "aem_nfa_disas al nfa marks = for_pcs (disas_line al nfa marks (digit_count 16 (n_insns nfa)) (digit_count 10 (nat (n_matches nfa))))
      [0..<n_insns nfa]"
    by (rule ext) (simp add: aem_nfa_disas_def)
  then show ?thesis using for_pcs_appends [OF disas_line_appends] by (simp add: listing_def)
qed

section \<open>Trees and flags as text\<close>

definition quoted_text :: "stringslice \<Rightarrow> u8 list" where
  "quoted_text txt = 39 # ss_bytes txt @ [39]"

fun args_text :: "nfa_node_args \<Rightarrow> stringslice \<Rightarrow> u8 list" where
  "args_text (AEM_NFA_NODE_RANGE lo hi) txt = desc_range_text lo hi"
| "args_text (AEM_NFA_NODE_ATOM c) txt = quoted_text txt"
| "args_text (AEM_NFA_NODE_CLASS cclass neg frontier) txt = quoted_text txt"
| "args_text (AEM_NFA_NODE_CAPTURE n) txt = cstr ''capture '' @ c_dec (c_int (int n))"
| "args_text (AEM_NFA_NODE_REPEAT lo hi reluctant) txt =
     cstr ''{'' @ (if lo \<noteq> 0 then c_dec (sint lo) else []) @ cstr '','' @ (if hi \<noteq> -1 then c_dec (sint hi) else []) @ cstr ''}''"
| "args_text AEM_NFA_NODE_BRANCH txt = []"
| "args_text AEM_NFA_NODE_ALTERNATION txt = ss_bytes txt"

fun tree_text :: "nfa_node \<Rightarrow> u8 list" and children_text :: "bool \<Rightarrow> nfa_node list \<Rightarrow> u8 list" where
  "tree_text (Node args txt children) =
     (let inner = args_text args txt @ children_text (args \<noteq> AEM_NFA_NODE_BRANCH) children
      in if sexpr_parens args children then coloured ''1;96'' (cstr ''('') @ inner @ coloured ''1;96'' (cstr '')'') else inner)"
| "children_text want_space [] = []"
| "children_text want_space (child # children) =
     (if want_space then [32] else []) @ tree_text child @ children_text True children"

lemma args_appends: "appends al (sexpr_args al args txt) (args_text args txt)"
proof -
  have q: "appends al (\<lambda>b. do { b1 \<leftarrow> aem_stringbuf_putc al b 39; b2 \<leftarrow> aem_stringbuf_putss al b1 txt; aem_stringbuf_putc al b2 39 })
      (quoted_text txt)"
    unfolding quoted_text_def by (intro putc_then_appends appends_then writers)
  show ?thesis
  proof (cases args)
    case (AEM_NFA_NODE_RANGE lo hi)
    then show ?thesis using desc_range_appends by (simp add: sexpr_args_def [abs_def])
  next
    case (AEM_NFA_NODE_REPEAT lo hi reluctant)
    have "appends al (\<lambda>b. do {
             b1 \<leftarrow> aem_stringbuf_puts al b (Some (cstr ''{''));
             b2 \<leftarrow> (if lo \<noteq> 0 then aem_stringbuf_vprintf al b1 (Some (c_dec (sint lo))) else Some b1);
             b3 \<leftarrow> aem_stringbuf_puts al b2 (Some (cstr '',''));
             b4 \<leftarrow> (if hi \<noteq> -1 then aem_stringbuf_vprintf al b3 (Some (c_dec (sint hi))) else Some b3);
             aem_stringbuf_puts al b4 (Some (cstr ''}'')) }) (args_text args txt)"
      unfolding AEM_NFA_NODE_REPEAT args_text.simps by (intro appends_then appends_if writers appends_id)
    then show ?thesis using AEM_NFA_NODE_REPEAT by (simp add: sexpr_args_def [abs_def])
  next
    case (AEM_NFA_NODE_CAPTURE n)
    have "appends al (\<lambda>b. do { b1 \<leftarrow> aem_stringbuf_puts al b (Some (cstr ''capture''));
        aem_stringbuf_vprintf al b1 (Some (cstr '' '' @ c_dec (c_int (int n)))) })
        (cstr ''capture'' @ cstr '' '' @ c_dec (c_int (int n)))"
      by (intro appends_then writers)
    then have "appends al (\<lambda>b. do { b1 \<leftarrow> aem_stringbuf_puts al b (Some (cstr ''capture''));
        aem_stringbuf_vprintf al b1 (Some (cstr '' '' @ c_dec (c_int (int n)))) }) (args_text args txt)"
      by (rule appends_eq) (simp add: AEM_NFA_NODE_CAPTURE cstr_def)
    then show ?thesis using AEM_NFA_NODE_CAPTURE by (simp add: sexpr_args_def [abs_def])
  qed (use q putss_appends in \<open>simp_all add: sexpr_args_def [abs_def]\<close>)
qed

text \<open>Printing a tree appends its text.\<close>
lemma sexpr_appends:
  "appends al (node_sexpr al nd) (tree_text nd)" "appends al (children_sexpr al want nds) (children_text want nds)"
proof (induction nd and want nds rule: tree_text_children_text.induct)
  case (1 args tx children)
  let ?paren = "sexpr_parens args children"
  have "node_sexpr al (Node args tx children) = (\<lambda>b. do {
      b1 \<leftarrow> (if ?paren then aem_stringbuf_vprintf al b (Some (AEM_SGR ''1;96'' @ cstr ''('' @ AEM_SGR ''0'')) else Some b);
      b2 \<leftarrow> sexpr_args al args tx b1;
      b3 \<leftarrow> children_sexpr al (args \<noteq> AEM_NFA_NODE_BRANCH) children b2;
      if ?paren then aem_stringbuf_vprintf al b3 (Some (AEM_SGR ''1;96'' @ cstr '')'' @ AEM_SGR ''0'')) else Some b3 })"
    by (rule ext) simp
  moreover have "appends al \<dots>
      ((if ?paren then AEM_SGR ''1;96'' @ cstr ''('' @ AEM_SGR ''0'' else []) @ args_text args tx @
       children_text (args \<noteq> AEM_NFA_NODE_BRANCH) children @ (if ?paren then AEM_SGR ''1;96'' @ cstr '')'' @ AEM_SGR ''0'' else []))"
    by (intro appends_then appends_if writers appends_id args_appends 1)
  ultimately show ?case by (auto simp: coloured_def intro: appends_eq)
next
  case (2 want)
  have "children_sexpr al want [] = (\<lambda>b. Some b)" by (rule ext) simp
  then show ?case by simp
next
  case (3 want child children)
  have "children_sexpr al want (child # children) = (\<lambda>b. do { b1 \<leftarrow> (if want then aem_stringbuf_putc al b 32 else Some b);
      b2 \<leftarrow> node_sexpr al child b1; children_sexpr al True children b2 })"
    by (rule ext) simp
  moreover have "appends al \<dots> ((if want then [32] else []) @ tree_text child @ children_text True children)"
    by (intro appends_then appends_if writers appends_id 3)
  ultimately show ?case by simp
qed

definition flag_letters :: "(u32 \<Rightarrow> bool) \<Rightarrow> bool \<Rightarrow> (u32 \<times> u8 list \<times> bool) list \<Rightarrow> u8 list" where
  "flag_letters wanted sandbox defs =
     concat (map (\<lambda>(val, letter, safe). if wanted val \<and> (safe \<or> \<not> sandbox) then letter else []) defs)"

lemma put_flags_appends: "appends al (put_flags al wanted sandbox defs) (flag_letters wanted sandbox defs)"
proof (induction defs)
  case Nil
  have "put_flags al wanted sandbox [] = (\<lambda>b. Some b)" by (rule ext) simp
  then show ?case by (simp add: flag_letters_def)
next
  case (Cons d defs)
  obtain val letter safe where d: "d = (val, letter, safe)" by (metis prod_cases3)
  have "put_flags al wanted sandbox (d # defs) = (\<lambda>b. do {
      b1 \<leftarrow> (if wanted val \<and> (safe \<or> \<not> sandbox) then aem_stringbuf_puts al b (Some letter) else Some b);
      put_flags al wanted sandbox defs b1 })"
    by (rule ext) (simp add: d)
  moreover have "appends al \<dots> ((if wanted val \<and> (safe \<or> \<not> sandbox) then letter else []) @ flag_letters wanted sandbox defs)"
    by (intro appends_then appends_if writers appends_id Cons)
  ultimately show ?case by (simp add: flag_letters_def d)
qed

text \<open>The letters of the flags that are set, and after a minus those of the flags that are not, if any.\<close>
definition flags_text :: "u32 \<Rightarrow> bool \<Rightarrow> u8 list" where
  "flags_text flags sandbox =
     (let off = flag_letters (\<lambda>val. flags AND val = 0) sandbox regex_flags
      in flag_letters (\<lambda>val. flags AND val \<noteq> 0) sandbox regex_flags @ (if off = [] then [] else cstr ''-'' @ off))"

lemma flags_describe_text:
  assumes b: "sb_ready al b" "sb_n b + 8 \<le> 2 ^ 24"
  shows "\<exists>b'. aem_regex_flags_describe al b flags sandbox = Some b' \<and> sb_inv b' \<and> sb_out b' = sb_out b @ flags_text flags sandbox"
proof -
  let ?on = "flag_letters (\<lambda>val. flags AND val \<noteq> 0) sandbox regex_flags"
  let ?off = "flag_letters (\<lambda>val. flags AND val = 0) sandbox regex_flags"
  have len: "length (flag_letters f sandbox regex_flags) \<le> 3" for f
    by (simp add: flag_letters_def regex_flags_def cstr_def)
  have minus: "cstr ''-'' = [45]" by (simp add: cstr_def)
  obtain b1 where b1: "put_flags al (\<lambda>val. flags AND val \<noteq> 0) sandbox regex_flags b = Some b1" "sb_ready al b1"
      "sb_out b1 = sb_out b @ ?on" "sb_n b1 = sb_n b + length ?on"
    by (rule appendsD [OF put_flags_appends b(1)]) (use b(2) len [of "\<lambda>val. flags AND val \<noteq> 0"] in auto)
  obtain b2 where b2: "aem_stringbuf_puts al b1 (Some (cstr ''-'')) = Some b2" "sb_ready al b2"
      "sb_out b2 = sb_out b1 @ cstr ''-''" "sb_n b2 = sb_n b1 + 1"
    by (rule appendsD [OF puts_appends b1(2), of "cstr ''-''"])
      (use b1(4) b(2) len [of "\<lambda>val. flags AND val \<noteq> 0"] in \<open>auto simp: minus\<close>)
  obtain b3 where b3: "put_flags al (\<lambda>val. flags AND val = 0) sandbox regex_flags b2 = Some b3" "sb_ready al b3"
      "sb_out b3 = sb_out b2 @ ?off" "sb_n b3 = sb_n b2 + length ?off"
    by (rule appendsD [OF put_flags_appends b2(2)])
      (use b1(4) b2(4) b(2) len [of "\<lambda>val. flags AND val \<noteq> 0"] len [of "\<lambda>val. flags AND val = 0"] in auto)
  have inv: "sb_inv b3" using b3(2) by (simp add: sb_ready_def)
  have n: "sz (sb_n b1 + 1) = sb_n b1 + 1" using b1(4) b(2) len [of "\<lambda>val. flags AND val \<noteq> 0"] by simp
  show ?thesis
  proof (cases "?off = []")
    case True
    have "sb_out (b3\<lparr>sb_n := sb_n b1\<rparr>) = take (sb_n b1) (sb_out b3)"
      using b3(4) b2(4) by (simp add: sb_out_def)
    also have "\<dots> = sb_out b @ ?on" using b3(3) b2(3) b1(3) b1(2) ready_length [OF b1(2)] by simp
    finally have "sb_out (b3\<lparr>sb_n := sb_n b1\<rparr>) = sb_out b @ flags_text flags sandbox" using True by (simp add: flags_text_def)
    moreover have "sb_inv (b3\<lparr>sb_n := sb_n b1\<rparr>)" using inv b3(4) b2(4) by (auto simp: sb_inv_def)
    ultimately show ?thesis using b1(1) b2(1,4) b3(1,4) True n by (simp add: aem_regex_flags_describe_def)
  next
    case False
    then show ?thesis using b1(1,3) b2(1,3,4) b3(1,3,4) n inv
      by (simp add: aem_regex_flags_describe_def flags_text_def)
  qed
qed

section \<open>The graph as text\<close>

text \<open>The names of classes as code points, and what the methods \<open>describe_gv\<close> write.\<close>
definition gv_class_ok :: "u8 allocator \<Rightarrow> gv_class \<Rightarrow> (nat \<Rightarrow> u32 list) \<Rightarrow> (nat \<Rightarrow> u8 list) \<Rightarrow> bool" where
  "gv_class_ok al vtbl names descr \<longleftrightarrow> (\<forall>obj name f. vtbl obj = Some (name, f) \<longrightarrow>
     name = concat (map utf8_encode (names obj)) \<and> (\<forall>g. f = Some g \<longrightarrow> appends al g (descr obj)))"

definition gv_text :: "gv_class \<Rightarrow> (nat \<Rightarrow> u32 list) \<Rightarrow> (nat \<Rightarrow> u8 list) \<Rightarrow> aem_gc_context \<Rightarrow> nat \<Rightarrow> u8 list" where
  "gv_text vtbl names descr ctx obj =
     (if \<not> gc_hit ctx obj then []
      else 9 # c_dec (ig_id (go_iter (gc_object ctx obj))) @ cstr '' ['' @
        (case vtbl obj of
           None \<Rightarrow> cstr ''label='' @ [34] @ cstr ''UNKNOWN'' @ [34] @ cstr ''];'' @ [10]
         | Some (name, None) \<Rightarrow> cstr ''label='' @ [34] @ concat (map escape_text (names obj)) @ [34] @ cstr ''];'' @ [10]
         | Some (name, Some g) \<Rightarrow> descr obj))"

lemma gv_object_appends:
  assumes "gv_class_ok al vtbl names descr"
  shows "appends al (\<lambda>b. map_option snd (gv_object al vtbl obj (ctx, b))) (gv_text vtbl names descr ctx obj)"
    and "gv_object al vtbl obj (ctx, b) = Some s \<Longrightarrow> fst s = ctx"
proof -
  let ?num = "9 # c_dec (ig_id (go_iter (gc_object ctx obj))) @ cstr '' [''"
  let ?rest = "\<lambda>b1. (case vtbl obj of
               Some (name, Some describe_gv) \<Rightarrow> describe_gv b1
             | Some (name, None) \<Rightarrow> do {
                 c1 \<leftarrow> aem_stringbuf_puts al b1 (Some (cstr ''label='' @ [34]));
                 c2 \<leftarrow> aem_string_escape al c1 (aem_stringslice_new_cstr (Some name));
                 c3 \<leftarrow> aem_stringbuf_puts al c2 (Some [34]);
                 aem_stringbuf_puts al c3 (Some (cstr ''];'' @ [10])) }
             | None \<Rightarrow> do {
                 c1 \<leftarrow> aem_stringbuf_puts al b1 (Some (cstr ''label='' @ [34] @ cstr ''UNKNOWN'' @ [34]));
                 aem_stringbuf_puts al c1 (Some (cstr ''];'' @ [10])) })"
  have step: "gv_object al vtbl obj (ctx, b) = map_option (Pair ctx)
      (if \<not> gc_hit ctx obj then Some b else Option.bind (aem_stringbuf_vprintf al b (Some ?num)) ?rest)" for b
    by (cases "aem_stringbuf_vprintf al b (Some ?num)") (auto simp: gv_object_def gc_hit_def map_option_case bind_eq_Some_conv split: option.split)
  show "gv_object al vtbl obj (ctx, b) = Some s \<Longrightarrow> fst s = ctx" by (auto simp: step)
  have rest: "appends al ?rest (case vtbl obj of
           None \<Rightarrow> (cstr ''label='' @ [34] @ cstr ''UNKNOWN'' @ [34]) @ cstr ''];'' @ [10]
         | Some (name, None) \<Rightarrow> (cstr ''label='' @ [34]) @ concat (map escape_text (names obj)) @ [34] @ cstr ''];'' @ [10]
         | Some (name, Some g) \<Rightarrow> descr obj)"
  proof (cases "vtbl obj")
    case None
    have "appends al (\<lambda>b1. do {
                 c1 \<leftarrow> aem_stringbuf_puts al b1 (Some (cstr ''label='' @ [34] @ cstr ''UNKNOWN'' @ [34]));
                 aem_stringbuf_puts al c1 (Some (cstr ''];'' @ [10])) })
        ((cstr ''label='' @ [34] @ cstr ''UNKNOWN'' @ [34]) @ cstr ''];'' @ [10])"
      by (intro appends_then writers)
    then show ?thesis using None by simp
  next
    case (Some nf)
    then obtain name f where nf: "vtbl obj = Some (name, f)" by (cases nf) auto
    then have n: "name = concat (map utf8_encode (names obj))" "\<And>g. f = Some g \<Longrightarrow> appends al g (descr obj)"
      using assms by (auto simp: gv_class_ok_def)
    have e: "appends al (\<lambda>b. aem_string_escape al b (aem_stringslice_new_cstr (Some name))) (concat (map escape_text (names obj)))"
      by (rule escape_appends) (simp add: n(1) aem_stringslice_new_cstr_def aem_stringslice_new_len_def)
    show ?thesis
    proof (cases f)
      case None
      have "appends al (\<lambda>b1. do {
                 c1 \<leftarrow> aem_stringbuf_puts al b1 (Some (cstr ''label='' @ [34]));
                 c2 \<leftarrow> aem_string_escape al c1 (aem_stringslice_new_cstr (Some name));
                 c3 \<leftarrow> aem_stringbuf_puts al c2 (Some [34]);
                 aem_stringbuf_puts al c3 (Some (cstr ''];'' @ [10])) })
          ((cstr ''label='' @ [34]) @ concat (map escape_text (names obj)) @ [34] @ cstr ''];'' @ [10])"
        by (intro appends_then writers e)
      then show ?thesis using nf None by simp
    next
      case (Some g)
      then show ?thesis using nf n(2) by simp
    qed
  qed
  have "appends al (\<lambda>b. if \<not> gc_hit ctx obj then Some b else Option.bind (aem_stringbuf_vprintf al b (Some ?num)) ?rest)
      (gv_text vtbl names descr ctx obj)"
  proof (cases "gc_hit ctx obj")
    case True
    have "appends al (\<lambda>b. Option.bind (aem_stringbuf_vprintf al b (Some ?num)) ?rest) (gv_text vtbl names descr ctx obj)"
      by (rule appends_eq [OF appends_then [OF vprintf_appends rest]]) (simp add: gv_text_def True split: option.split prod.split)
    then show ?thesis using True by simp
  next
    case False
    then show ?thesis by (simp add: gv_text_def)
  qed
  then show "appends al (\<lambda>b. map_option snd (gv_object al vtbl obj (ctx, b))) (gv_text vtbl names descr ctx obj)"
    by (simp only: step option.map_comp comp_def snd_conv option.map_ident)
qed

lemma dump_range_text:
  assumes "ll_path (gc_ctx_next ctx) a xs gc_chain" "gc_chain \<notin> set xs" "gv_class_ok al vtbl names descr"
    and "sb_ready al b" "sb_n b + length (concat (map (gv_text vtbl names descr ctx) xs)) \<le> 2 ^ 24"
  shows "\<exists>b'. AEM_LL_FOR_RANGE (\<lambda>(c, _). gc_ctx_next c) (gv_object al vtbl) (gc_ctx_next ctx a) gc_chain (ctx, b) = Some (ctx, b') \<and>
    sb_ready al b' \<and> sb_out b' = sb_out b @ concat (map (gv_text vtbl names descr ctx) xs)"
  using assms
proof (induction xs arbitrary: a b)
  case Nil
  then show ?case by (subst AEM_LL_FOR_RANGE.simps) simp
next
  case (Cons x xs)
  obtain b1 where b1: "map_option snd (gv_object al vtbl x (ctx, b)) = Some b1" "sb_ready al b1"
      "sb_out b1 = sb_out b @ gv_text vtbl names descr ctx x" "sb_n b1 = sb_n b + length (gv_text vtbl names descr ctx x)"
    by (rule appendsD [OF gv_object_appends(1) [OF Cons.prems(3)] Cons.prems(4)]) (use Cons.prems(5) in auto)
  then have x: "gv_object al vtbl x (ctx, b) = Some (ctx, b1)"
    using gv_object_appends(2) [OF Cons.prems(3), of x ctx b] by (auto simp: prod_eq_iff)
  have "\<exists>b'. AEM_LL_FOR_RANGE (\<lambda>(c, _). gc_ctx_next c) (gv_object al vtbl) (gc_ctx_next ctx x) gc_chain (ctx, b1) = Some (ctx, b') \<and>
      sb_ready al b' \<and> sb_out b' = sb_out b1 @ concat (map (gv_text vtbl names descr ctx) xs)"
    by (rule Cons.IH) (use Cons.prems b1 in auto)
  then show ?case using Cons.prems(1,2) x b1(3) by (subst AEM_LL_FOR_RANGE.simps) auto
qed

text \<open>The dump appends the text of every object of the context, in the order of the list.\<close>
lemma dump_objects_text:
  assumes "ring (gc_ctx_next ctx) gc_chain xs" "gv_class_ok al vtbl names descr"
    and "sb_ready al b" "sb_n b + length (concat (map (gv_text vtbl names descr ctx) xs)) \<le> 2 ^ 24"
  shows "\<exists>b'. gc_dump_objects_gv al vtbl ctx b = Some b' \<and> sb_ready al b' \<and>
    sb_out b' = sb_out b @ concat (map (gv_text vtbl names descr ctx) xs)"
  using dump_range_text [of ctx gc_chain xs al vtbl names descr b] assms
  by (auto simp: gc_dump_objects_gv_def AEM_LL_FOR_ALL_def ring_def)

section \<open>The carets of a trace\<close>

lemma assign_ready:
  assumes b: "sb_ready al b" and i: "i + 1 \<le> 2 ^ 24"
  shows "\<exists>b'. aem_stringbuf_assign al b i pad c = Some b' \<and> sb_ready al b' \<and>
    sb_out b' = (sb_out b @ replicate (Suc i - sb_n b) pad)[i := c]"
proof -
  have r: "sb_inv b" "sb_free al b" "sb_maxn b \<le> 2 ^ 26" using b by (simp_all add: sb_ready_def)
  have "\<exists>b'. aem_stringbuf_assign al b i pad c = Some b' \<and> sb_free al b' \<and> sb_maxn b' \<le> 2 ^ 26"
  proof (cases "sb_n b < i + 1")
    case False
    then have "i + 1 \<le> length (sb_s b)" "i < sb_maxn b" using r(1) by (auto simp: sb_inv_def)
    then show ?thesis using False i r by (auto simp: aem_stringbuf_assign_def sb_store_def sb_free_def)
  next
    case True
    have le: "Suc i - sb_n b \<le> 2 ^ 61" using i by simp
    obtain rc b1 where r1: "aem_stringbuf_reserve al b (Suc i - sb_n b) = Some (rc, b1)" "sb_inv b1" "sb_n b1 = sb_n b"
        "sb_bad b1 \<or> sb_n b + (Suc i - sb_n b) < sb_maxn b1"
      using sb_reserve_spec [OF r(1) le, of al] by auto
    have free: "sb_free al b1" using sb_reserve_granted [OF r(1,2) _ r1(1)] True i by simp
    then have room: "Suc i < sb_maxn b1" using r1(4) True by (simp add: sb_free_def)
    have max: "sb_maxn b1 \<le> 2 ^ 26" using reserve_maxn [OF r1(1)] True i r(3) by simp
    have tot: "aem_stringbuf_reserve_total al b (Suc i) = Some (rc, b1)"
      using r1(1) True i by (simp add: aem_stringbuf_reserve_def)
    have len: "length (sb_s b1) = sb_maxn b1" using r1(2) by (simp add: sb_inv_def)
    show ?thesis using True i r1(3) room max free len
      by (auto simp: aem_stringbuf_assign_def tot sb_store_def sb_free_def min_def)
  qed
  then obtain b' where b': "aem_stringbuf_assign al b i pad c = Some b'" "sb_free al b'" "sb_maxn b' \<le> 2 ^ 26" by blast
  then have "sb_inv b' \<and> sb_out b' = (sb_out b @ replicate (Suc i - sb_n b) pad)[i := c]"
    using i by (intro sb_assign_spec [OF r(1) _ b'(1)]) (auto simp: sb_free_def)
  then show ?thesis using b' by (auto simp: sb_ready_def)
qed

text \<open>Carets in the columns \<open>S\<close>, up to the last of them.\<close>
definition caret_line :: "nat set \<Rightarrow> u8 list" where
  "caret_line S = map (\<lambda>j. if j \<in> S then 94 else 32) [0..<(if S = {} then 0 else Suc (Max S))]"

lemma caret_insert:
  assumes "finite S"
  shows "(caret_line S @ replicate (Suc j - length (caret_line S)) 32)[j := 94] = caret_line (insert j S)"
proof (rule nth_equalityI)
  let ?k = "if S = {} then 0 else Suc (Max S)"
  have len: "length (caret_line S) = ?k" by (simp add: caret_line_def)
  show l: "length ((caret_line S @ replicate (Suc j - length (caret_line S)) 32)[j := 94]) = length (caret_line (insert j S))"
    using assms by (auto simp: caret_line_def)
  fix i assume "i < length ((caret_line S @ replicate (Suc j - length (caret_line S)) 32)[j := 94])"
  then have i: "i < length (caret_line (insert j S))" "i < length (caret_line S) + (Suc j - length (caret_line S))" using l by auto
  have out: "i \<notin> S" if "\<not> i < ?k" using that Max_ge [OF assms, of i] by (cases "S = {}") auto
  have "caret_line (insert j S) ! i = (if i = j \<or> i \<in> S then 94 else 32)"
    using i(1) by (simp add: caret_line_def del: upt_Suc)
  moreover have "(caret_line S @ replicate (Suc j - length (caret_line S)) 32) ! i = (if i \<in> S then 94 else 32)"
  proof (cases "i < ?k")
    case True
    then show ?thesis using len by (simp add: nth_append caret_line_def del: upt_Suc)
  next
    case False
    then show ?thesis using out i(2) len by (simp add: nth_append)
  qed
  ultimately show "(caret_line S @ replicate (Suc j - length (caret_line S)) 32)[j := 94] ! i = caret_line (insert j S) ! i"
    using i(2) by (simp add: nth_list_update)
qed

lemma assign_caret:
  assumes b: "sb_ready al b" "sb_out b = pre @ caret_line S" "finite S" and j: "length pre + j < 1000000"
  shows "\<exists>b'. aem_stringbuf_assign al b (length pre + j) 32 94 = Some b' \<and> sb_ready al b' \<and>
    sb_out b' = pre @ caret_line (insert j S)"
proof -
  obtain b' where b': "aem_stringbuf_assign al b (length pre + j) 32 94 = Some b'" "sb_ready al b'"
      "sb_out b' = (sb_out b @ replicate (Suc (length pre + j) - sb_n b) 32)[length pre + j := 94]"
    using assign_ready [OF b(1), of "length pre + j"] j by auto
  have "sb_n b = length pre + length (caret_line S)" using ready_length [OF b(1)] b(2) by simp
  then have "sb_out b' = pre @ (caret_line S @ replicate (Suc j - length (caret_line S)) 32)[j := 94]"
    unfolding b'(3) b(2) by (simp add: list_update_append del: list_update_append1)
  then show ?thesis using b'(1,2) caret_insert [OF b(3)] by simp
qed

text \<open>The columns below a part of the pattern.\<close>
definition part_columns :: "nfa \<Rightarrow> u32 list \<Rightarrow> nfa_trace_info \<Rightarrow> nat \<Rightarrow> nat set" where
  "part_columns nfa seen regex i =
     (let part = ti_where (trace_dbg nfa ! i); bounds = ti_where regex
      in if bitfield_test seen i \<and> ti_match (trace_dbg nfa ! i) = ti_match regex
         then (\<lambda>p. p - ss_start bounds) ` {max (ss_start part) (ss_start bounds)..<min (ss_end part) (ss_end bounds)} else {})"

text \<open>The parts that belong to the pattern lie inside it, or touch it.\<close>
definition parts_touch :: "nfa \<Rightarrow> u32 list \<Rightarrow> nfa_trace_info \<Rightarrow> bool" where
  "parts_touch nfa seen regex \<longleftrightarrow> (\<forall>i < n_insns nfa. bitfield_test seen i \<and> ti_match (trace_dbg nfa ! i) = ti_match regex \<longrightarrow>
     max (ss_start (ti_where (trace_dbg nfa ! i))) (ss_start (ti_where regex)) \<le>
     min (ss_end (ti_where (trace_dbg nfa ! i))) (ss_end (ti_where regex)))"

lemma carets_range:
  assumes "sb_ready al b" "sb_out b = pre @ caret_line S" "finite S" "\<forall>p \<in> set ps. length pre + (p - a) < 1000000"
  shows "\<exists>b'. for_pcs (\<lambda>b p. let j = length pre + (p - a) in if j < 1000000 then aem_stringbuf_assign al b j 32 94 else None) ps b = Some b' \<and>
    sb_ready al b' \<and> sb_out b' = pre @ caret_line (S \<union> (\<lambda>p. p - a) ` set ps)"
  using assms
proof (induction ps arbitrary: b S)
  case Nil
  then show ?case by simp
next
  case (Cons p ps)
  obtain b1 where b1: "aem_stringbuf_assign al b (length pre + (p - a)) 32 94 = Some b1" "sb_ready al b1"
      "sb_out b1 = pre @ caret_line (insert (p - a) S)"
    using assign_caret [OF Cons.prems(1-3), of "p - a"] Cons.prems(4) by auto
  then show ?case using Cons.IH [OF b1(2,3)] Cons.prems(3,4) by (simp add: Let_def)
qed

lemma trace_part_columns:
  assumes b: "sb_ready al b" "sb_out b = pre @ caret_line S" "finite S" and i: "i < n_insns nfa" "parts_touch nfa seen regex"
    and small: "length pre + length (ss_bytes (ti_where regex)) \<le> 1000000"
  shows "\<exists>b'. trace_part al nfa seen regex (length pre) b i = Some b' \<and> sb_ready al b' \<and>
    sb_out b' = pre @ caret_line (S \<union> part_columns nfa seen regex i)"
proof -
  let ?p = "ti_where (trace_dbg nfa ! i)" and ?r = "ti_where regex"
  let ?lo = "max (ss_start ?p) (ss_start ?r)" and ?hi = "min (ss_end ?p) (ss_end ?r)"
  show ?thesis
  proof (cases "bitfield_test seen i \<and> ti_match (trace_dbg nfa ! i) = ti_match regex")
    case False
    then show ?thesis using b by (auto simp: trace_part_def part_columns_def Let_def)
  next
    case True
    then have le: "?lo \<le> ?hi" using i by (auto simp: parts_touch_def)
    have "\<forall>p \<in> set [?lo..<?hi]. length pre + (p - ss_start ?r) < 1000000" using small by (auto simp: ss_end_def)
    from carets_range [OF b this] obtain b' where b': "for_pcs (\<lambda>b p. let j = length pre + (p - ss_start ?r)
        in if j < 1000000 then aem_stringbuf_assign al b j 32 94 else None) [?lo..<?hi] b = Some b'" "sb_ready al b'"
        "sb_out b' = pre @ caret_line (S \<union> (\<lambda>p. p - ss_start ?r) ` set [?lo..<?hi])" by blast
    have cols: "part_columns nfa seen regex i = (\<lambda>p. p - ss_start ?r) ` set [?lo..<?hi]"
      using True by (simp add: part_columns_def Let_def)
    show ?thesis
    proof (cases "?lo = ?hi")
      case same: True
      then have "trace_part al nfa seen regex (length pre) b i = Some b" using True by (simp add: trace_part_def Let_def)
      then show ?thesis using b same cols by simp
    next
      case False
      define lo hi where "lo = ?lo" and "hi = ?hi"
      have "trace_part al nfa seen regex (length pre) b i = (if lo = hi then Some b
          else if hi < lo then aem_stringbuf_puts al b (Some (10 # cstr ''(negative overlap)''))
          else for_pcs (\<lambda>b p. let j = length pre + (p - ss_start ?r)
            in if j < 1000000 then aem_stringbuf_assign al b j 32 94 else None) [lo..<hi] b)"
        using True by (simp add: trace_part_def Let_def lo_def hi_def)
      then have "trace_part al nfa seen regex (length pre) b i = Some b'"
        using False le b'(1) by (simp only: lo_def [symmetric] hi_def [symmetric] not_less [symmetric] if_False)
      then show ?thesis using b'(2,3) cols by simp
    qed
  qed
qed

lemma trace_parts_columns:
  assumes "sb_ready al b" "sb_out b = pre @ caret_line S" "finite S" "set is \<subseteq> {..<n_insns nfa}" "parts_touch nfa seen regex"
    and "length pre + length (ss_bytes (ti_where regex)) \<le> 1000000"
  shows "\<exists>b'. for_pcs (trace_part al nfa seen regex (length pre)) is b = Some b' \<and> sb_ready al b' \<and>
    sb_out b' = pre @ caret_line (S \<union> (\<Union>i \<in> set is. part_columns nfa seen regex i))"
  using assms
proof (induction "is" arbitrary: b S)
  case Nil
  then show ?case by simp
next
  case (Cons i "is")
  obtain b1 where b1: "trace_part al nfa seen regex (length pre) b i = Some b1" "sb_ready al b1"
      "sb_out b1 = pre @ caret_line (S \<union> part_columns nfa seen regex i)"
    using trace_part_columns [OF Cons.prems(1-3) _ Cons.prems(5,6)] Cons.prems(4) by auto
  have "finite (S \<union> part_columns nfa seen regex i)" using Cons.prems(3) by (simp add: part_columns_def Let_def)
  from Cons.IH [OF b1(2,3) this] Cons.prems show ?case by (simp add: b1(1) Un_assoc)
qed

text \<open>The trace of a thread that has matched: its pattern, and below it a caret under every byte that an
  instruction it passed was made from.\<close>
lemma show_trace_text:
  fixes nfa thr b
  defines "regex \<equiv> trace_dbg nfa ! (thr_pc thr - 1)" and "seen \<equiv> nm_visited (thr_match thr)"
    and "head \<equiv> cstr ''Match trace for '' @ state_label (thr_state thr) @ cstr '' thread:'' @ [10]"
  assumes b: "sb_ready al b" "sb_n b + length head + 2 * length (ss_bytes (ti_where regex)) + 1 \<le> 1000000"
    and thr: "0 < thr_pc thr" "thr_pc thr \<le> length (pgm nfa)" "thr_pc thr \<le> length (trace_dbg nfa)"
    and op: "unat (pgm nfa ! (thr_pc thr - 1) AND 7) = op_code AEM_NFA_MATCH" "0 \<le> ti_match regex"
    and parts: "parts_touch nfa seen regex"
  shows "\<exists>b'. aem_nfa_show_trace al nfa thr b = Some b' \<and> sb_ready al b' \<and>
    sb_out b' = sb_out b @ head @ ss_bytes (ti_where regex) @ [10] @ caret_line (\<Union>i < n_insns nfa. part_columns nfa seen regex i)"
proof -
  obtain b1 where b1: "aem_stringbuf_vprintf al b (Some head) = Some b1" "sb_ready al b1" "sb_out b1 = sb_out b @ head"
      "sb_n b1 = sb_n b + length head"
    by (rule appendsD [OF vprintf_appends b(1)]) (use b(2) in auto)
  obtain b2 where b2: "aem_stringbuf_putss al b1 (ti_where regex) = Some b2" "sb_ready al b2"
      "sb_out b2 = sb_out b1 @ ss_bytes (ti_where regex)" "sb_n b2 = sb_n b1 + length (ss_bytes (ti_where regex))"
    by (rule appendsD [OF putss_appends b1(2)]) (use b(2) b1(4) in auto)
  obtain b3 where b3: "aem_stringbuf_puts al b2 (Some [10]) = Some b3" "sb_ready al b3" "sb_out b3 = sb_out b2 @ [10]"
      "sb_n b3 = sb_n b2 + length [10 :: u8]"
    by (rule appendsD [OF puts_appends b2(2), of "[10]"]) (use b(2) b1(4) b2(4) in auto)
  have e: "sb_out b3 = sb_out b3 @ caret_line {}" by (simp add: caret_line_def)
  have n3: "length (sb_out b3) = sb_n b3" using ready_length [OF b3(2)] .
  have sub: "set [0..<n_insns nfa] \<subseteq> {..<n_insns nfa}" by auto
  have "sb_n b3 + length (ss_bytes (ti_where regex)) \<le> 1000000" using b(2) b1(4) b2(4) b3(4) by simp
  from trace_parts_columns [OF b3(2) e finite.emptyI _ parts, of "[0..<n_insns nfa]", unfolded n3, OF sub this]
  obtain b' where b': "for_pcs (trace_part al nfa seen regex (sb_n b3)) [0..<n_insns nfa] b3 = Some b'" "sb_ready al b'"
      "sb_out b' = sb_out b3 @ caret_line ({} \<union> (\<Union>i \<in> set [0..<n_insns nfa]. part_columns nfa seen regex i))"
    by auto
  have "aem_nfa_show_trace al nfa thr b = Some b'"
    using b1(1) b2(1) b3(1) b'(1) thr op
    by (simp add: aem_nfa_show_trace_def Let_def not_less regex_def seen_def head_def)
  moreover have "set [0..<n_insns nfa] = {..<n_insns nfa}" by auto
  ultimately show ?thesis using b'(2,3) b3(3) b2(3) b1(3) by simp
qed

end
