(* ===== verification/Aem_Serial.thy ===== *)
theory Aem_Serial
  imports Aem_Path Aem_File
begin

text \<open>
  \<open>serial.unix.c\<close> and \<open>unix.c\<close>: serial ports, the directory of the program and the flags of a
  descriptor. A port is its descriptor. The system calls are parameters over a world; one that fails
  says whether that was \<open>EINTR\<close>. \<open>serial.windows.c\<close> names a variable that does not exist and cannot be
  compiled.
\<close>

section \<open>Serial ports\<close>

text \<open>\<open>ty_setup\<close> stands for the calls that make a terminal raw and set its speed.\<close>
record 'w tty_os =
  ty_open :: "u8 list \<Rightarrow> 'w \<Rightarrow> (bool + nat) \<times> 'w"
  ty_setup :: "nat \<Rightarrow> int \<Rightarrow> 'w \<Rightarrow> 'w"
  ty_close :: "int \<Rightarrow> 'w \<Rightarrow> (bool + unit) \<times> 'w"
  ty_read :: "int \<Rightarrow> nat \<Rightarrow> 'w \<Rightarrow> (bool + u8 list) \<times> 'w"
  ty_write :: "int \<Rightarrow> u8 list \<Rightarrow> 'w \<Rightarrow> (bool + nat) \<times> 'w"

text \<open>A call again and again while it is interrupted.\<close>
partial_function (option) retry :: "('w \<Rightarrow> (bool + 'r) \<times> 'w) \<Rightarrow> 'w \<Rightarrow> ('r option \<times> 'w) option" where
  "retry call w =
     (case call w of
        (Inl eintr, w1) \<Rightarrow> if eintr then retry call w1 else Some (None, w1)
      | (Inr r, w1) \<Rightarrow> Some (Some r, w1))"

declare retry.simps [code]

text \<open>The result, the descriptor, and the world.\<close>
definition aem_serial_open :: "'w tty_os \<Rightarrow> u8 list \<Rightarrow> int \<Rightarrow> 'w \<Rightarrow> (int \<times> int \<times> 'w) option" where
  "aem_serial_open os device baud w =
     do { (r, w1) \<leftarrow> retry (ty_open os device) w;
          (case r of
             None \<Rightarrow> Some (-1, -1, w1)
           | Some fd \<Rightarrow> Some (0, int fd, if baud \<ge> 0 then ty_setup os fd baud w1 else w1)) }"

definition aem_serial_close :: "'w tty_os \<Rightarrow> int \<Rightarrow> 'w \<Rightarrow> (int \<times> int \<times> 'w) option" where
  "aem_serial_close os fd w =
     (if fd \<ge> 0 then do {
        (r, w1) \<leftarrow> retry (ty_close os fd) w;
        Some (if r = None then -1 else 0, -1, w1) }
      else Some (0, fd, w))"

definition aem_serial_ok :: "int \<Rightarrow> bool" where
  "aem_serial_ok fd \<longleftrightarrow> fd \<ge> 0"

definition aem_serial_write :: "'w tty_os \<Rightarrow> int \<Rightarrow> stringslice \<Rightarrow> 'w \<Rightarrow> (nat \<times> 'w) option" where
  "aem_serial_write os fd sl w =
     do { (r, w1) \<leftarrow> retry (ty_write os fd (ss_bytes sl)) w;
          Some (case r of None \<Rightarrow> 0 | Some n \<Rightarrow> n, w1) }"

text \<open>Nothing is reserved: as many bytes are asked for as the buffer has room.\<close>
definition aem_serial_read :: "'w tty_os \<Rightarrow> int \<Rightarrow> stringbuf \<Rightarrow> 'w \<Rightarrow> (nat \<times> stringbuf \<times> 'w) option" where
  "aem_serial_read os fd b w =
     do { (r, w1) \<leftarrow> retry (ty_read os fd (c_size (aem_stringbuf_available b))) w;
          (case r of
             None \<Rightarrow> Some (0, b, w1)
           | Some bs \<Rightarrow> do {
               b1 \<leftarrow> sb_store b (sb_n b) bs;
               Some (length bs, b1\<lparr>sb_n := sb_n b1 + length bs\<rparr>, w1) }) }"

text \<open>\<open>junk\<close> is what the variable \<open>c\<close> holds before it is read into.\<close>
definition aem_serial_getc :: "'w tty_os \<Rightarrow> u8 \<Rightarrow> int \<Rightarrow> 'w \<Rightarrow> (int \<times> 'w) option" where
  "aem_serial_getc os junk fd w =
     do { (r, w1) \<leftarrow> retry (ty_read os fd 1) w;
          Some (case r of None \<Rightarrow> -1 | Some bs \<Rightarrow> (case bs of [] \<Rightarrow> uchar junk | c # _ \<Rightarrow> uchar c), w1) }"

section \<open>The process\<close>

text \<open>\<open>readlink\<close> gives at most as many bytes as it is asked for, without a terminator; when it fails the
  length becomes \<open>SIZE_MAX\<close>, and what follows reads far beyond the block.\<close>
partial_function (option) exe_link ::
  "u8 allocator \<Rightarrow> (nat \<Rightarrow> 'w \<Rightarrow> u8 list option \<times> 'w) \<Rightarrow> stringbuf \<Rightarrow> 'w \<Rightarrow> (stringbuf \<times> 'w) option" where
  "exe_link al readlink exe w =
     (case readlink (sb_maxn exe) w of
        (None, w1) \<Rightarrow> None
      | (Some bs, w1) \<Rightarrow> do {
          exe1 \<leftarrow> sb_store exe 0 bs;
          let exe2 = exe1\<lparr>sb_n := length bs\<rparr>;
          if sb_n exe2 = sb_maxn exe2 then do {
            (rc, exe3) \<leftarrow> aem_stringbuf_reserve al exe2 (sb_n exe2);
            exe_link al readlink exe3 w1 }
          else Some (exe2, w1) })"

declare exe_link.simps [code]

text \<open>\<open>blk\<close> is the block of 256 bytes on the stack.\<close>
definition aem_exe_dir ::
  "u8 allocator \<Rightarrow> (nat \<Rightarrow> 'w \<Rightarrow> u8 list option \<times> 'w) \<Rightarrow> u8 list \<Rightarrow> stringbuf \<Rightarrow> 'w \<Rightarrow> (stringbuf \<times> 'w) option" where
  "aem_exe_dir al readlink blk out w =
     do { (exe, w1) \<leftarrow> exe_link al readlink (AEM_STRINGBUF_ALLOCA blk) w;
          out1 \<leftarrow> aem_stringbuf_putss al out (aem_dirname (aem_stringslice_new_str 1 exe));
          Some (out1, w1) }"

text \<open>\<open>fcntl\<close> with \<open>F_GETFL\<close> gives the flags or a negative number, with \<open>F_SETFL\<close> whether it failed.\<close>
definition aem_fd_add_flags ::
  "(int \<Rightarrow> 'w \<Rightarrow> int \<times> 'w) \<Rightarrow> (int \<Rightarrow> int \<Rightarrow> 'w \<Rightarrow> bool \<times> 'w) \<Rightarrow> int \<Rightarrow> int \<Rightarrow> 'w \<Rightarrow> int \<times> 'w" where
  "aem_fd_add_flags getfl setfl fd newflags w =
     (let (flags, w1) = getfl fd w
      in if flags < 0 then (flags, w1)
         else let (failed, w2) = setfl fd (flags OR newflags) w1 in (if failed then -1 else 0, w2))"

section \<open>Facts\<close>

text \<open>A call that is not interrupted for ever returns.\<close>
definition patient :: "('w \<Rightarrow> (bool + 'r) \<times> 'w) \<Rightarrow> ('w \<Rightarrow> nat) \<Rightarrow> bool" where
  "patient call left \<longleftrightarrow> (\<forall>w w1. call w = (Inl True, w1) \<longrightarrow> left w1 < left w)"

lemma retry_returns:
  assumes "patient call left"
  shows "\<exists>r w1. retry call w = Some (r, w1)"
proof (induction "left w" arbitrary: w rule: less_induct)
  case less
  obtain r w1 where c: "call w = (r, w1)" by fastforce
  show ?case
  proof (cases "r = Inl True")
    case True
    then have "left w1 < left w" using assms c by (simp add: patient_def)
    then show ?thesis using less c True by (subst retry.simps) simp
  next
    case False
    then show ?thesis using c by (subst retry.simps) (cases r; simp)
  qed
qed

lemma retry_result:
  assumes "retry call w = Some (Some r, w1)"
  shows "\<exists>w0. call w0 = (Inr r, w1)"
proof -
  have "\<forall>r w1. y = (Some r, w1) \<longrightarrow> (\<exists>w0. call w0 = (Inr r, w1))" if "retry call w = Some y" for y
    by (rule retry.raw_induct [OF _ that, where P = "\<lambda>call w y. \<forall>r w1. y = (Some r, w1) \<longrightarrow> (\<exists>w0. call w0 = (Inr r, w1))"])
      (auto split: prod.splits sum.splits if_splits)
  then show ?thesis using assms by blast
qed

text \<open>Reading into a buffer with room stays within its block and appends what arrived.\<close>
lemma serial_read_appends:
  assumes b: "sb_inv b" "sb_n b < sb_maxn b" "sb_maxn b < 2 ^ 31" and rd: "patient (ty_read os fd (sb_maxn b - sb_n b - 1)) left"
    and len: "\<And>k w bs w1. ty_read os fd k w = (Inr bs, w1) \<Longrightarrow> length bs \<le> k"
  shows "\<exists>n b1 w1. aem_serial_read os fd b w = Some (n, b1, w1) \<and> sb_inv b1 \<and>
    (\<exists>bs. length bs = n \<and> sb_out b1 = sb_out b @ bs)"
proof -
  have "aem_stringbuf_available b = int (sb_maxn b - sb_n b - 1)"
    using available_exact [OF b(1)] b(2,3) by simp
  then have room: "c_size (aem_stringbuf_available b) = sb_maxn b - sb_n b - 1" using b(3) by (simp add: c_size_int)
  obtain r w1 where r: "retry (ty_read os fd (sb_maxn b - sb_n b - 1)) w = Some (r, w1)" using retry_returns [OF rd] by blast
  show ?thesis
  proof (cases r)
    case None
    then show ?thesis using r b(1) by (simp add: aem_serial_read_def room)
  next
    case (Some bs)
    then obtain w0 where "ty_read os fd (sb_maxn b - sb_n b - 1) w0 = (Inr bs, w1)" using retry_result [OF r [unfolded Some]] by blast
    then have "length bs \<le> sb_maxn b - sb_n b - 1" by (rule len)
    then have "sb_n b + length bs < sb_maxn b" using b(2) by simp
    then obtain b1 where "sb_store b (sb_n b) bs = Some b1" "sb_inv (b1\<lparr>sb_n := sb_n b1 + length bs\<rparr>)"
        "sb_out (b1\<lparr>sb_n := sb_n b1 + length bs\<rparr>) = sb_out b @ bs"
      using sb_store_append [OF b(1)] by blast
    then show ?thesis using r Some by (auto simp: aem_serial_read_def room)
  qed
qed

text \<open>For a buffer that has never been allocated the room is \<open>-1\<close>: \<open>SIZE_MAX\<close> bytes are asked for, at a
  null pointer.\<close>
lemma serial_read_unallocated: "c_size (aem_stringbuf_available AEM_STRINGBUF_EMPTY) = 2 ^ 64 - 1"
  by (simp add: aem_stringbuf_available_def AEM_STRINGBUF_EMPTY_def c_int_def c_size_def)

text \<open>At the end of the input \<open>aem_serial_getc\<close> returns what was on the stack.\<close>
lemma serial_getc_eof:
  "ty_read os fd 1 w = (Inr [], w1) \<Longrightarrow> aem_serial_getc os junk fd w = Some (uchar junk, w1)"
  by (simp add: aem_serial_getc_def retry.simps)

lemma serial_close_closed: "aem_serial_close os fd w = Some (rc, fd1, w1) \<Longrightarrow> \<not> aem_serial_ok fd1"
  by (auto simp: aem_serial_close_def aem_serial_ok_def bind_eq_Some_conv split: if_splits)

text \<open>A path that fits into the block on the stack: its directory is appended.\<close>
lemma exe_dir_appends:
  assumes rl: "readlink (length blk) w = (Some path, w1)" and len: "length path < length blk"
  shows "aem_exe_dir al readlink blk out w = map_option (\<lambda>out1. (out1, w1))
    (aem_stringbuf_putss al out (aem_dirname (aem_stringslice_new_len 1 path)))"
proof -
  let ?exe = "(AEM_STRINGBUF_ALLOCA blk)\<lparr>sb_s := path @ drop (length path) blk, sb_n := length path\<rparr>"
  have exe: "exe_link al readlink (AEM_STRINGBUF_ALLOCA blk) w = Some (?exe, w1)"
    using rl len by (subst exe_link.simps) (simp add: AEM_STRINGBUF_ALLOCA_def sb_store_def)
  have "aem_stringslice_new_str 1 ?exe = aem_stringslice_new_len 1 path"
    by (simp add: aem_stringslice_new_str_def aem_stringslice_new_len_def sb_out_def)
  then show ?thesis
    by (cases "aem_stringbuf_putss al out (aem_dirname (aem_stringslice_new_len 1 path))") (simp_all add: aem_exe_dir_def exe(1))
qed

text \<open>A longer path when there is no memory: the reservation leaves the block as it is, and the call is
  repeated without end.\<close>
lemma exe_link_hangs:
  assumes rl: "\<And>n w. readlink n w = (Some (take n path), w)" and al: "\<And>k. \<not> alloc_granted al k"
    and exe: "sb_maxn exe = k" "length (sb_s exe) = k" "sb_storage exe = AEM_STRINGBUF_STORAGE_UNOWNED" "\<not> sb_fixed exe"
    and len: "k \<le> length path" "k < 2 ^ 62"
  shows "exe_link al readlink exe w = None"
proof -
  let ?P = "\<lambda>al' rl exe w y. al' = al \<and> rl = readlink \<longrightarrow> \<not> (sb_maxn exe = k \<and> length (sb_s exe) = k \<and>
    sb_storage exe = AEM_STRINGBUF_STORAGE_UNOWNED \<and> \<not> sb_fixed exe)"
  have full: "length (take k path) = k" using len(1) by simp
  have "?P al readlink exe w y" if "exe_link al readlink exe w = Some y" for y
  proof (rule exe_link.raw_induct [OF _ that, where P = ?P], intro impI notI, elim conjE)
    fix f al' rl' and exe :: stringbuf and w y
    assume IH: "\<And>al' rl' exe w y. f al' rl' exe w = Some y \<Longrightarrow> ?P al' rl' exe w y"
      and eq: "(case rl' (sb_maxn exe) w of (None, w1) \<Rightarrow> None
        | (Some bs, w1) \<Rightarrow> do {
          exe1 \<leftarrow> sb_store exe 0 bs;
          let exe2 = exe1\<lparr>sb_n := length bs\<rparr>;
          if sb_n exe2 = sb_maxn exe2 then do {
            (rc, exe3) \<leftarrow> aem_stringbuf_reserve al' exe2 (sb_n exe2);
            f al' rl' exe3 w1 }
          else Some (exe2, w1) }) = Some y"
      and a: "al' = al" "rl' = readlink" and e: "sb_maxn exe = k" "length (sb_s exe) = k"
        "sb_storage exe = AEM_STRINGBUF_STORAGE_UNOWNED" "\<not> sb_fixed exe"
    let ?e = "exe\<lparr>sb_s := take k path, sb_n := k\<rparr>"
    have st: "sb_store exe 0 (take k path) = Some (exe\<lparr>sb_s := take k path\<rparr>)"
      using e full by (simp add: sb_store_def)
    have rv: "aem_stringbuf_reserve al ?e k = Some (1, ?e\<lparr>sb_bad := True\<rparr>)"
      using len(2) e al by (simp add: aem_stringbuf_reserve_def aem_stringbuf_reserve_total_def aem_stringbuf_grow_def)
    have "f al readlink (?e\<lparr>sb_bad := True\<rparr>) w = Some y"
      using eq a e full st rv rl by (simp add: Let_def)
    from IH [OF this] show False using e full by simp
  qed
  then show ?thesis using exe by (cases "exe_link al readlink exe w") auto
qed

end
