(* ===== verification/Aem_Free.thy ===== *)
theory Aem_Free
  imports Aem_Stack Aem_Stringbuf Aem_Nfa_Run Aem_Regex
begin

text \<open>
  Objects on the heap: what \<open>stringbuf.c\<close>, \<open>stack.c\<close>, \<open>nfa.c\<close> and \<open>nfa-compile.c\<close> allocate for an object
  and give back when it is freed. The structures elsewhere are values; here a function that frees returns the
  blocks it hands to \<open>free\<close>, in order. \<open>granted\<close> says whether \<open>malloc\<close> has memory for the structure, and an
  empty block stands for \<open>NULL\<close>, which \<open>free\<close> ignores.
\<close>

section \<open>String buffers and stacks\<close>

text \<open>The structure itself, or its buffer.\<close>
datatype 'b heap_block = The_Struct | The_Buffer 'b

definition aem_stringbuf_new :: "bool \<Rightarrow> stringbuf ptr" where
  "aem_stringbuf_new granted = (if granted then Some AEM_STRINGBUF_EMPTY else None)"

definition aem_stringbuf_new_prealloc :: "u8 allocator \<Rightarrow> bool \<Rightarrow> nat \<Rightarrow> stringbuf ptr option" where
  "aem_stringbuf_new_prealloc al granted maxn =
     (case aem_stringbuf_new granted of
        None \<Rightarrow> Some None
      | Some str \<Rightarrow> map_option Some (aem_stringbuf_init_prealloc al maxn))"

definition aem_stringbuf_storage_free :: "stringbuf \<Rightarrow> u8 list heap_block list \<times> stringbuf" where
  "aem_stringbuf_storage_free str =
     (if sb_s str = [] then ([], str)
      else (case sb_storage str of
              AEM_STRINGBUF_STORAGE_HEAP \<Rightarrow> [The_Buffer (sb_s str)]
            | AEM_STRINGBUF_STORAGE_UNOWNED \<Rightarrow> [],
            str\<lparr>sb_storage := AEM_STRINGBUF_STORAGE_HEAP\<rparr>))"

definition aem_stringbuf_free :: "stringbuf ptr \<Rightarrow> u8 list heap_block list" where
  "aem_stringbuf_free p =
     (case p of
        None \<Rightarrow> []
      | Some str \<Rightarrow> if sb_bad str then [] else fst (aem_stringbuf_storage_free str) @ [The_Struct])"

definition aem_stack_new :: "bool \<Rightarrow> 'a stack ptr" where
  "aem_stack_new granted = (if granted then Some AEM_STACK_EMPTY else None)"

definition aem_stack_new_prealloc :: "'a ptr allocator \<Rightarrow> bool \<Rightarrow> nat \<Rightarrow> 'a stack ptr" where
  "aem_stack_new_prealloc al granted maxn = map_option (\<lambda>stk. aem_stack_init_prealloc al maxn) (aem_stack_new granted)"

definition aem_stack_free :: "'a stack ptr \<Rightarrow> 'a ptr list heap_block list" where
  "aem_stack_free p =
     (case p of None \<Rightarrow> [] | Some stk \<Rightarrow> (if stk_s stk = [] then [] else [The_Buffer (stk_s stk)]) @ [The_Struct])"

section \<open>Trees, programs and threads\<close>

text \<open>The children are popped from the last to the first; a node is freed after all of them.\<close>
fun aem_nfa_node_free :: "nfa_node \<Rightarrow> nfa_node list" where
  "aem_nfa_node_free (Node args txt children) =
     concat (rev (map aem_nfa_node_free children)) @ [Node args txt children]"

datatype nfa_block = Insns "u32 list" | Traces "nfa_trace_info list" | Captures "(nat \<times> nat) list" | Thread

definition aem_nfa_dtor :: "nfa \<Rightarrow> nfa_block list" where
  "aem_nfa_dtor nfa = [Insns (pgm nfa), Insns (thr_init nfa), Traces (trace_dbg nfa)]"

definition aem_nfa_match_dtor :: "nfa_match \<Rightarrow> nfa_block list \<times> nfa_match" where
  "aem_nfa_match_dtor match =
     ((if nm_captures match = [] then [] else [Captures (nm_captures match)]) @
      (if nm_visited match = [] then [] else [Insns (nm_visited match)]),
      match\<lparr>nm_captures := [], nm_visited := []\<rparr>)"

definition aem_nfa_thread_dtor :: "nfa_thread \<Rightarrow> nfa_block list \<times> nfa_thread" where
  "aem_nfa_thread_dtor thr =
     (case aem_nfa_match_dtor (thr_match thr) of (freed, match) \<Rightarrow> (freed, thr\<lparr>thr_match := match\<rparr>))"

definition aem_nfa_thread_free :: "nfa_thread ptr \<Rightarrow> nfa_block list" where
  "aem_nfa_thread_free p = (case p of None \<Rightarrow> [] | Some thr \<Rightarrow> fst (aem_nfa_thread_dtor thr) @ [Thread])"

section \<open>Facts\<close>

text \<open>A block on the stack is never freed, and the buffer of a good string on the heap always is.\<close>
lemma stringbuf_free_buffer:
  "The_Buffer s \<in> set (aem_stringbuf_free (Some str)) \<longleftrightarrow>
     \<not> sb_bad str \<and> sb_storage str = AEM_STRINGBUF_STORAGE_HEAP \<and> sb_s str = s \<and> s \<noteq> []"
  by (cases "sb_storage str") (auto simp: aem_stringbuf_free_def aem_stringbuf_storage_free_def)

text \<open>A string that has gone bad is leaked with its buffer.\<close>
lemma free_bad_leaks: "sb_bad str \<Longrightarrow> aem_stringbuf_free (Some str) = []"
  by (simp add: aem_stringbuf_free_def)

lemma new_free: "aem_stringbuf_free (aem_stringbuf_new True) = [The_Struct]" "aem_stringbuf_free (aem_stringbuf_new False) = []"
  by (simp_all add: aem_stringbuf_free_def aem_stringbuf_new_def aem_stringbuf_storage_free_def AEM_STRINGBUF_EMPTY_def)

text \<open>The nodes of a tree, the root first.\<close>
fun tree_nodes :: "nfa_node \<Rightarrow> nfa_node list" where
  "tree_nodes (Node args txt children) = Node args txt children # concat (map tree_nodes children)"

text \<open>Every node is freed, as often as it occurs, and a node after the nodes below it.\<close>
lemma node_free_all: "mset (aem_nfa_node_free node) = mset (tree_nodes node)"
proof (induction node rule: aem_nfa_node_free.induct)
  case (1 args tx children)
  have "mset (concat (rev (map aem_nfa_node_free cs))) = mset (concat (map tree_nodes cs))" if "set cs \<subseteq> set children" for cs
    using that 1 by (induction cs) auto
  then show ?case by simp
qed

lemma node_free_below_first:
  assumes "aem_nfa_node_free node = xs @ n # ys" "m \<in> set (nd_children n)"
  shows "m \<in> set xs"
  using assms
proof (induction node arbitrary: xs ys rule: aem_nfa_node_free.induct)
  case (1 args tx children)
  have last: "m \<in> set (aem_nfa_node_free m)" for m by (cases m) simp
  have sub: "concat (rev (map aem_nfa_node_free cs)) = xs @ n # ys \<Longrightarrow> m \<in> set xs"
    if "set cs \<subseteq> set children" for cs xs ys
    using that
  proof (induction cs arbitrary: ys)
    case (Cons c cs)
    then have "concat (rev (map aem_nfa_node_free cs)) @ aem_nfa_node_free c = xs @ n # ys" by simp
    then consider zs where "concat (rev (map aem_nfa_node_free cs)) = xs @ n # zs"
      | zs where "xs = concat (rev (map aem_nfa_node_free cs)) @ zs" "aem_nfa_node_free c = zs @ n # ys"
      by (auto simp: append_eq_append_conv2 Cons_eq_append_conv append_eq_Cons_conv)
    then show ?case
    proof cases
      case (1 zs)
      then show ?thesis using Cons.IH Cons.prems(2) by simp
    next
      case (2 zs)
      then have "m \<in> set zs" using "1.IH" [of c zs ys] "1.prems"(2) Cons.prems(2) by simp
      then show ?thesis using 2(1) by simp
    qed
  qed simp
  from "1.prems"(1) consider "xs = concat (rev (map aem_nfa_node_free children))" "n = Node args tx children"
    | zs where "concat (rev (map aem_nfa_node_free children)) = xs @ n # zs"
    by (auto simp: append_eq_append_conv2 Cons_eq_append_conv append_eq_Cons_conv)
  then show ?case
  proof cases
    case 1
    then show ?thesis using "1.prems"(2) last by auto
  next
    case (2 zs)
    then show ?thesis using sub [of children] by simp
  qed
qed

text \<open>Freeing a thread gives back its blocks once, and its match can be taken down again.\<close>
lemma match_dtor_twice: "aem_nfa_match_dtor (snd (aem_nfa_match_dtor match)) = ([], snd (aem_nfa_match_dtor match))"
  by (simp add: aem_nfa_match_dtor_def)

lemma thread_free_once: "count (mset (aem_nfa_thread_free (Some thr))) Thread = 1"
  by (simp add: aem_nfa_thread_free_def aem_nfa_thread_dtor_def aem_nfa_match_dtor_def)

end
