(* ===== verification/Spec2Isabelle.thy ===== *)
theory Spec2Isabelle
  imports Aem_Lines Aem_Stack Aem_Numeric Aem_Translate Aem_Path Aem_Optimize Aem_Lang Aem_Registry Aem_Gc
  Aem_Stream Aem_Poll Aem_Log Aem_Module Aem_Pmcrcu Aem_Net Aem_Disas Aem_Serial Aem_Free
begin

text \<open>
  A model of libaem, a C library of buffers, text, regular expressions, objects and input/output, with
  the properties that make its parts correct. Every definition is a translation of the C code it is
  named after; the theories follow the files of \<open>src/\<close>.

  \<^bold>\<open>The parts and how they interact.\<close>

  \<^item> Memory and text. \<open>memory.c\<close> grows arrays for everybody (\<open>Aem_Memory\<close>). \<open>stack.c\<close> is a vector of
    pointers on it (\<open>Aem_Stack\<close>), \<open>stringbuf.c\<close> a growable string (\<open>Aem_Stringbuf\<close>; \<open>Aem_Format\<close> has the
    conversions of \<open>printf\<close> that the code uses), \<open>stringslice.c\<close> ranges of bytes that do not own them
    (\<open>Aem_Slice\<close>, with the line readers in \<open>Aem_Lines\<close> and the number readers in \<open>Aem_Numeric\<close>). \<open>utf8.c\<close>,
    \<open>translate.c\<close>, \<open>pathutil.c\<close> and \<open>ansi-term.c\<close> read slices and write buffers (\<open>Aem_Utf8\<close>,
    \<open>Aem_Translate\<close>, \<open>Aem_Path\<close>, \<open>Aem_Ansi\<close>). Transfers to and from files are in \<open>Aem_File\<close>,
    serial ports and what is asked of the process (\<open>serial.unix.c\<close>, \<open>unix.c\<close>) in \<open>Aem_Serial\<close>,
    what is given back to the heap in \<open>Aem_Free\<close>.
  \<^item> Regular expressions. \<open>regex.c\<close> parses a pattern into a tree (\<open>Aem_Regex\<close>), \<open>nfa-compile.c\<close> turns
    the tree into instructions (\<open>Aem_Compile\<close>), \<open>nfa.c\<close> encodes, stores and optimizes instructions
    (\<open>Aem_Nfa\<close>) and runs them on an input, all threads at once (\<open>Aem_Nfa_Run\<close>). \<open>Aem_Fragment\<close> and
    \<open>Aem_Lang\<close> give patterns a meaning and relate the three; \<open>Aem_Optimize\<close> is about the optimizer, and
    \<open>Aem_Disas\<close> about what is printed of programs, threads and trees (and of the objects of \<open>gc.c\<close>).
  \<^item> Objects. \<open>registry.c\<close> numbers named objects by means of the stack (\<open>Aem_Registry\<close>);
    \<open>linked_list.h\<close> has circular lists (\<open>Aem_Linked\<close>), on which the collector \<open>gc.c\<close> keeps objects and
    roots (\<open>Aem_Gc\<close>); \<open>module.c\<close> loads shared objects (\<open>Aem_Module\<close>); \<open>pmcrcu.c\<close> defers callbacks
    (\<open>Aem_Pmcrcu\<close>); \<open>log.c\<close> has modules, levels and destinations of messages (\<open>Aem_Log\<close>).
  \<^item> Input and output. \<open>stream.c\<close> and \<open>streams.c\<close> connect a source to a sink by a buffer, with flow
    control in both directions (\<open>Aem_Stream\<close>); \<open>poll.c\<close> waits for events and calls their handlers
    (\<open>Aem_Poll\<close>); \<open>net.c\<close> puts the two together: the handler of a connection makes the streams of its
    socket flow, which receives into one and sends from another (\<open>Aem_Net\<close>).

  \<open>Aem_Base\<close> is the prelude: types of machine words, C's conversions, character classes, shared lemmas and
  the collections \<open>slice_simps\<close>, \<open>buf_simps\<close> and \<open>inv_intros\<close>.

  \<^bold>\<open>How state and operations correspond.\<close> A \<open>struct\<close> is a record with the fields of the code, an \<open>enum\<close>
  a datatype or the words of its values. An operation is a function from the state to the state, with
  its C result. \<open>None\<close> as a result of an operation always means that the C code has no defined
  behaviour there, or none that returns: a store outside a block, an assertion that fails, a null
  pointer that is followed, or a loop that does not end (loops that may not end are \<open>partial_function
  (option)\<close>, so that the properties prove that they return). An integer keeps its width where the code
  can overflow it: words, or \<open>sz\<close>, \<open>c_int\<close>, \<open>c_size\<close> written out. A possibly null pointer has the type
  \<open>'a ptr\<close>. Where objects point at each other (registry, collector, streams, events, sockets) the objects
  are numbers, and a store maps each to its fields; so aliasing is in the model. The null checks of an
  operation on the object it is called with are left out, unless a caller depends on them.

  \<^bold>\<open>What is a parameter.\<close> The allocator: which requests it grants, and what new memory holds. The
  callbacks of the client: destructors and look-up misses of a registry, the references an object
  reports to the collector, the methods of sources and sinks and the function of a transducer, the
  handlers of events, the functions of a module, the callbacks given to \<open>call_rcu\<close>, those of servers and
  sockets. The system: \<open>poll\<close>, the socket calls, \<open>dlopen\<close> and its relatives, opening a log file and
  whether it is a terminal, the bytes a read delivers. What a property requires of them is among its
  hypotheses, and its witness has an instance.

  \<^bold>\<open>Assumptions on the platform.\<close> x86-64 Linux: \<open>char\<close> is signed, \<open>int\<close> has 32 bits, \<open>long\<close>, \<open>size_t\<close> and
  pointers 64; the C locale; compiled with \<open>-std=c99\<close>, so that \<open>POLLRDHUP\<close> is not defined in \<open>poll.c\<close> and,
  through \<open>_GNU_SOURCE\<close>, is in \<open>net.c\<close>. Logging inside other parts is left out, and so is the freeing of
  memory that nothing refers to any more. \<open>qsort\<close> is one of those the standard allows, and returns
  for any comparison. The nodes of a pattern's tree are always granted; jumps stay
  below \<open>2 ^ 29\<close>. There is one event loop. In \<open>aem_sandbox_path\<close> the flag \<open>trailing_slash\<close> is not initialised
  by the code: its first value is a parameter, over which the properties quantify.

  \<^bold>\<open>What the lemmas show.\<close>

  \<^item> Buffers: no store outside the block, appending all or going bad, with bounds (\<open>appends\<close> collects, for
    each writer, that it succeeds with memory as long as the text stays below 16 MiB). The stack: order,
    and the slots of a table. Locales: \<open>sink\<close>, \<open>lifo\<close>, \<open>slot_table\<close>.
  \<^item> Text: the line reader is independent of how the input is cut; numbers are read by value,
    with the exact condition under which one too large is refused or wraps; UTF-8, escaping
    and URL encoding are inverted by their readers; a sandboxed path is the normal form of its argument and,
    if that has no null bytes, never leaves its base; stripping escape sequences in place is the same as into a copy.
  \<^item> Regular expressions: the parser returns, for patterns in which only ASCII is escaped; for a pattern
    that is added with success the engine finds, on every input, the longest prefix in the language of the
    tree, in a program that may hold other patterns and may have been optimized. The exception is an
    alternation one of whose alternatives cannot be compiled: the code loses the error. The locale \<open>pattern_compiler\<close> is what \<open>aem_nfa_add\<close> needs of the parser of a
    pattern, and \<open>nfa_pass\<close> is what makes a pass of the optimizer preserve the language.
  \<^item> Registry, collector, event loop, streams, modules: an inductive definition of the states reachable by
    any operations, an invariant of them, and what the main operations do in such a state. Locales:
    \<open>registry_cleaner\<close>, \<open>linked_state\<close>.
  \<^item> Streams: a stream refines a queue, a transducer a function on what flows through it, however its \<open>go\<close>
    cuts up its input, and two connections that are joined relay the input of one to the other in order
    and without loss, whatever the system does to single calls, errors included. A stream that never had
    bytes must get some with its first write: the code cannot consume from a buffer without a block.
  \<^item> Printers: each appends, with memory, a text that is defined without a buffer; a trace has its carets
    under exactly the bytes that the instructions of the thread were made from.
  \<^item> Deferred callbacks: a barrier runs each exactly once and leaves none.

  \<^bold>\<open>Fuel.\<close> The parser of patterns has a depth as argument; the property on its termination shows that any depth
  above the length of the pattern is enough. Nothing else has fuel.

  \<^bold>\<open>How the model was checked against the tests.\<close> It gives, by evaluation, the expected results on the 26
  cases of \<open>src/test/nfa.c\<close>, with and without the optimizer.

  \<^bold>\<open>Not modelled.\<close> \<open>serial.windows.c\<close>, which names a variable that does not exist and does not compile;
  \<open>rcu.h\<close>, \<open>aem.h\<close>, \<open>compiler.h\<close>, \<open>debugbreak.h\<close>, \<open>order32.h\<close>: macros for the compiler.
\<close>

end
